(* ===== verification/Jackstay_Prelude.thy ===== *)
theory Jackstay_Prelude
  imports Main "HOL-Library.Word"
begin

text \<open>
  Shared vocabulary of the development: the machine integers of the Rust source, the
  three ways a Rust call can end (a value, an error, a panic), the arithmetic of the
  standard library the source calls (\<open>checked_add\<close>, \<open>saturating_sub\<close>, ...), and the
  ordered map of the standard library (\<open>BTreeMap\<close>) with its laws stated once as an
  interface.  Unchecked \<open>+\<close> and \<open>-\<close> of the source are the wrapping operations of
  \<open>'a word\<close>; the component theories prove that they never wrap in a reachable state.
\<close>

unbundle bit_operations_syntax

type_synonym u8 = "8 word"
type_synonym u16 = "16 word"
type_synonym u32 = "32 word"
type_synonym u64 = "64 word"

type_synonym bytes = "u8 list"

text \<open>Collections that the component theories fill: facts that unfold a component's
  operations, and facts that say what an operation keeps.\<close>

named_theorems op_defs
named_theorems keeps

section \<open>How a Rust call ends\<close>

datatype ('a, 'e) outcome = Ok 'a | Err 'e | Panic

primrec map_outcome_ok :: "('a \<Rightarrow> 'b) \<Rightarrow> ('a, 'e) outcome \<Rightarrow> ('b, 'e) outcome" where
  "map_outcome_ok f (Ok x) = Ok (f x)"
| "map_outcome_ok f (Err e) = Err e"
| "map_outcome_ok f Panic = Panic"

primrec map_err :: "('e \<Rightarrow> 'f) \<Rightarrow> ('a, 'e) outcome \<Rightarrow> ('a, 'f) outcome" where
  "map_err f (Ok x) = Ok x"
| "map_err f (Err e) = Err (f e)"
| "map_err f Panic = Panic"

primrec and_then :: "('a, 'e) outcome \<Rightarrow> ('a \<Rightarrow> ('b, 'e) outcome) \<Rightarrow> ('b, 'e) outcome" where
  "and_then (Ok x) f = f x"
| "and_then (Err e) f = Err e"
| "and_then Panic f = Panic"

definition ok_or :: "'e \<Rightarrow> 'a option \<Rightarrow> ('a, 'e) outcome" where
  "ok_or e x = (case x of None \<Rightarrow> Err e | Some v \<Rightarrow> Ok v)"

lemma ok_or_simps [simp]: "ok_or e None = Err e" "ok_or e (Some v) = Ok v"
  by (simp_all add: ok_or_def)

lemma ok_or_eq_Ok [simp]: "ok_or e x = Ok v \<longleftrightarrow> x = Some v"
  by (cases x) auto

lemma ok_or_not_Panic [simp]: "ok_or e x \<noteq> Panic"
  by (cases x) auto

lemma and_then_eq_Ok: "and_then r f = Ok y \<longleftrightarrow> (\<exists>x. r = Ok x \<and> f x = Ok y)"
  by (cases r) auto

lemma map_outcome_ok_eq_Ok: "map_outcome_ok f r = Ok y \<longleftrightarrow> (\<exists>x. r = Ok x \<and> y = f x)"
  by (cases r) auto

lemma and_then_eq_Panic: "and_then r f = Panic \<longleftrightarrow> r = Panic \<or> (\<exists>x. r = Ok x \<and> f x = Panic)"
  by (cases r) auto

section \<open>Integer arithmetic of the standard library\<close>

definition checked_add :: "'a::len word \<Rightarrow> 'a word \<Rightarrow> 'a word option" where
  "checked_add a b = (if unat a + unat b < 2 ^ LENGTH('a) then Some (a + b) else None)"

definition checked_mul :: "'a::len word \<Rightarrow> 'a word \<Rightarrow> 'a word option" where
  "checked_mul a b = (if unat a * unat b < 2 ^ LENGTH('a) then Some (a * b) else None)"

definition saturating_add :: "'a::len word \<Rightarrow> 'a word \<Rightarrow> 'a word" where
  "saturating_add a b = (if unat a + unat b < 2 ^ LENGTH('a) then a + b else - 1)"

definition saturating_sub :: "'a::len word \<Rightarrow> 'a word \<Rightarrow> 'a word" where
  "saturating_sub a b = (if b \<le> a then a - b else 0)"

lemma unat_plus: "unat (a::'a::len word) + unat b < 2 ^ LENGTH('a) \<Longrightarrow> unat (a + b) = unat a + unat b"
  by (simp add: unat_word_ariths)

lemma unat_mult: "unat (a::'a::len word) * unat b < 2 ^ LENGTH('a) \<Longrightarrow> unat (a * b) = unat a * unat b"
  by (simp add: unat_word_ariths)

lemma unat_minus: "(b::'a::len word) \<le> a \<Longrightarrow> unat (a - b) = unat a - unat b"
  by (simp add: unat_sub)

lemma unat_less_exp: "unat (a::'a::len word) < 2 ^ LENGTH('a)"
  by (rule unsigned_less)

lemma u32_bound: "unat (a::u32) < 4294967296"
  using unat_less_exp [of a] by simp

lemma u64_bound: "unat (a::u64) < 18446744073709551616"
  using unat_less_exp [of a] by simp

lemma unat_ucast_u32 [simp]: "unat (ucast (a::u32) :: u64) = unat a"
  using u32_bound [of a] by (simp add: unsigned_ucast_eq take_bit_nat_eq_self)

lemma unat_plus32: "unat (a::u32) + unat b < 4294967296 \<Longrightarrow> unat (a + b) = unat a + unat b"
  by (rule unat_plus) simp

lemma unat_plus64: "unat (a::u64) + unat b < 18446744073709551616 \<Longrightarrow> unat (a + b) = unat a + unat b"
  by (rule unat_plus) simp

lemma checked_add_Some:
  "checked_add a b = Some c \<longleftrightarrow> unat a + unat b < 2 ^ LENGTH('a::len) \<and> c = a + (b::'a word)"
  by (auto simp: checked_add_def)

lemma checked_add_None: "checked_add (a::'a::len word) b = None \<longleftrightarrow> 2 ^ LENGTH('a) \<le> unat a + unat b"
  by (auto simp: checked_add_def)

lemma checked_add_unat: "checked_add a b = Some c \<Longrightarrow> unat c = unat a + unat b"
  by (auto simp: checked_add_Some unat_plus)

lemma checked_mul_unat: "checked_mul a b = Some c \<Longrightarrow> unat c = unat a * unat b"
  by (auto simp: checked_mul_def unat_mult split: if_splits)

lemma unat_saturating_sub: "unat (saturating_sub a b) = unat a - unat b"
  by (auto simp: saturating_sub_def unat_minus word_le_nat_alt not_le)

lemma unat_saturating_add:
  "unat (saturating_add (a::'a::len word) b) = min (unat a + unat b) (2 ^ LENGTH('a) - 1)"
  by (auto simp: saturating_add_def unat_plus unsigned_minus_1_eq_mask mask_eq_exp_minus_1)

text \<open>Incrementing by one at the width: the wrap-around happens only at the maximum.\<close>

lemma unat_Suc_word: "unat (a::'a::len word) + 1 < 2 ^ LENGTH('a) \<Longrightarrow> unat (a + 1) = unat a + 1"
  by (cases "LENGTH('a) = 1") (auto simp: unat_word_ariths)

lemma unat_pos_iff: "0 < unat (a::'a::len word) \<longleftrightarrow> a \<noteq> 0"
  by (simp add: unat_gt_0)

lemma sum_list_unat:
  "sum_list (map unat ws) < 2 ^ LENGTH('a) \<Longrightarrow> unat (sum_list (ws :: 'a::len word list)) = sum_list (map unat ws)"
  by (induction ws) (auto simp: unat_plus)

section \<open>BTreeMap: ordered association lists\<close>

fun bt_insert :: "'k::linorder \<Rightarrow> 'v \<Rightarrow> ('k \<times> 'v) list \<Rightarrow> ('k \<times> 'v) list" where
  "bt_insert k v [] = [(k, v)]"
| "bt_insert k v ((k', v') # m) =
     (if k < k' then (k, v) # (k', v') # m
      else if k = k' then (k, v) # m
      else (k', v') # bt_insert k v m)"

definition bt_remove :: "'k \<Rightarrow> ('k \<times> 'v) list \<Rightarrow> ('k \<times> 'v) list" where
  "bt_remove k m = filter (\<lambda>(k', _). k' \<noteq> k) m"

definition bt_values :: "('k \<times> 'v) list \<Rightarrow> 'v list" where
  "bt_values m = map snd m"

definition bt_wf :: "('k::linorder \<times> 'v) list \<Rightarrow> bool" where
  "bt_wf m \<longleftrightarrow> sorted_wrt (<) (map fst m)"

definition alist_map_value :: "'k \<Rightarrow> ('v \<Rightarrow> 'v) \<Rightarrow> ('k \<times> 'v) list \<Rightarrow> ('k \<times> 'v) list" where
  "alist_map_value k f m = map (\<lambda>(k', v). (k', if k' = k then f v else v)) m"

text \<open>The laws of an ordered finite map, and what its clients need of it.\<close>

locale ordered_map =
  fixes empty :: "'m"
    and insert :: "'k::linorder \<Rightarrow> 'v \<Rightarrow> 'm \<Rightarrow> 'm"
    and remove :: "'k \<Rightarrow> 'm \<Rightarrow> 'm"
    and lookup :: "'m \<Rightarrow> 'k \<Rightarrow> 'v option"
    and entries :: "'m \<Rightarrow> ('k \<times> 'v) list"
    and wf :: "'m \<Rightarrow> bool"
  assumes entries_sorted: "wf m \<Longrightarrow> sorted_wrt (<) (map fst (entries m))"
    and lookup_entries: "wf m \<Longrightarrow> lookup m = map_of (entries m)"
    and lookup_empty: "lookup empty = Map.empty"
    and lookup_insert: "wf m \<Longrightarrow> lookup (insert k v m) = (lookup m)(k \<mapsto> v)"
    and lookup_remove: "wf m \<Longrightarrow> lookup (remove k m) = (lookup m)(k := None)"
    and wf_empty: "wf empty"
    and wf_insert: "wf m \<Longrightarrow> wf (insert k v m)"
    and wf_remove: "wf m \<Longrightarrow> wf (remove k m)"
begin

lemma entries_distinct: "wf m \<Longrightarrow> distinct (map fst (entries m))"
  using entries_sorted strict_sorted_iff by blast

lemma dom_entries: "wf m \<Longrightarrow> dom (lookup m) = fst ` set (entries m)"
  by (simp add: lookup_entries dom_map_of_conv_image_fst)

lemma finite_dom: "wf m \<Longrightarrow> finite (dom (lookup m))"
  by (simp add: dom_entries)

lemma length_entries: "wf m \<Longrightarrow> length (entries m) = card (dom (lookup m))"
  by (metis distinct_card dom_entries entries_distinct length_map set_map)

lemma sum_entries:
  fixes f :: "'v \<Rightarrow> nat"
  assumes "wf m"
  shows "(\<Sum>e\<leftarrow>entries m. f (snd e)) = (\<Sum>k\<in>dom (lookup m). f (the (lookup m k)))"
proof -
  have d: "distinct (map fst (entries m))" by (rule entries_distinct [OF assms])
  have "(\<Sum>e\<leftarrow>entries m. f (snd e)) = (\<Sum>e\<leftarrow>entries m. f (the (lookup m (fst e))))"
    by (rule arg_cong [where f = sum_list], rule map_cong [OF refl])
      (metis d lookup_entries [OF assms] map_of_eq_Some_iff option.sel prod.collapse)
  also have "\<dots> = (\<Sum>k\<leftarrow>map fst (entries m). f (the (lookup m k)))"
    by (simp add: comp_def)
  also have "\<dots> = (\<Sum>k\<in>set (map fst (entries m)). f (the (lookup m k)))"
    by (rule sum_list_distinct_conv_sum_set [OF d])
  finally show ?thesis by (simp add: dom_entries [OF assms])
qed

lemma sum_insert_fresh:
  fixes f :: "'v \<Rightarrow> nat"
  assumes "wf m" and "lookup m k = None"
  shows "(\<Sum>e\<leftarrow>entries (insert k v m). f (snd e)) = f v + (\<Sum>e\<leftarrow>entries m. f (snd e))"
proof -
  have "k \<notin> dom (lookup m)" using assms(2) by auto
  moreover have "(\<Sum>x\<in>dom (lookup m). f (the (((lookup m)(k \<mapsto> v)) x))) =
      (\<Sum>x\<in>dom (lookup m). f (the (lookup m x)))"
    by (rule sum.cong) (use \<open>k \<notin> dom (lookup m)\<close> in auto)
  ultimately show ?thesis
    by (simp add: sum_entries assms wf_insert lookup_insert finite_dom)
qed

lemma sum_remove:
  fixes f :: "'v \<Rightarrow> nat"
  assumes "wf m" and "lookup m k = Some v"
  shows "(\<Sum>e\<leftarrow>entries m. f (snd e)) = f v + (\<Sum>e\<leftarrow>entries (remove k m). f (snd e))"
proof -
  have "(\<Sum>x\<in>dom (lookup m). f (the (lookup m x))) =
      f (the (lookup m k)) + (\<Sum>x\<in>dom (lookup m) - {k}. f (the (lookup m x)))"
    by (rule sum.remove) (use assms in \<open>auto simp: finite_dom\<close>)
  moreover have "(\<Sum>x\<in>dom (lookup m) - {k}. f (the (((lookup m)(k := None)) x))) =
      (\<Sum>x\<in>dom (lookup m) - {k}. f (the (lookup m x)))"
    by (rule sum.cong) auto
  ultimately show ?thesis
    by (simp add: sum_entries assms wf_remove lookup_remove)
qed

lemma sum_replace:
  fixes f :: "'v \<Rightarrow> nat"
  assumes "wf m" and "lookup m k = Some v"
  shows "f v + (\<Sum>e\<leftarrow>entries (insert k v' m). f (snd e)) = f v' + (\<Sum>e\<leftarrow>entries m. f (snd e))"
proof -
  have "lookup (remove k (insert k v' m)) = lookup (remove k m)"
    by (simp add: assms wf_insert lookup_insert lookup_remove)
  then have "(\<Sum>e\<leftarrow>entries (remove k (insert k v' m)). f (snd e)) = (\<Sum>e\<leftarrow>entries (remove k m). f (snd e))"
    by (simp add: sum_entries assms wf_insert wf_remove)
  moreover have "(\<Sum>e\<leftarrow>entries (insert k v' m). f (snd e)) =
      f v' + (\<Sum>e\<leftarrow>entries (remove k (insert k v' m)). f (snd e))"
    by (rule sum_remove) (simp_all add: assms wf_insert lookup_insert)
  moreover note sum_remove [OF assms, of f]
  ultimately show ?thesis by simp
qed

end

lemma set_bt_insert: "fst ` set (bt_insert k v m) = Set.insert k (fst ` set m)"
  by (induction k v m rule: bt_insert.induct) auto

lemma bt_wf_insert: "bt_wf m \<Longrightarrow> bt_wf (bt_insert k v m)"
proof (induction k v m rule: bt_insert.induct)
  case (2 k v k' v' m)
  then show ?case
    using set_bt_insert [of k v m] by (fastforce simp: bt_wf_def)
qed (simp add: bt_wf_def)

lemma bt_wf_remove: "bt_wf m \<Longrightarrow> bt_wf (bt_remove k m)"
  by (induction m) (auto simp: bt_wf_def bt_remove_def)

lemma map_of_bt_insert: "bt_wf m \<Longrightarrow> map_of (bt_insert k v m) = (map_of m)(k \<mapsto> v)"
  by (induction k v m rule: bt_insert.induct) (auto simp: bt_wf_def)

lemma map_of_bt_remove: "map_of (bt_remove k m) = (map_of m)(k := None)"
  by (induction m) (auto simp: bt_remove_def)

interpretation bt: ordered_map "[]" bt_insert bt_remove map_of "\<lambda>m. m" bt_wf
  by unfold_locales
    (auto simp: bt_wf_def [symmetric] bt_wf_insert bt_wf_remove map_of_bt_insert map_of_bt_remove,
     simp_all add: bt_wf_def)

lemma bt_wf_append_fresh:
  "bt_wf m \<Longrightarrow> (\<And>x. x \<in> fst ` set m \<Longrightarrow> x < k) \<Longrightarrow> bt_insert k v m = m @ [(k, v)]"
proof (induction m)
  case (Cons a m)
  then show ?case by (cases a) (fastforce simp: bt_wf_def)
qed simp

lemma map_of_alist_map_value:
  "map_of (alist_map_value k f m) = (\<lambda>x. map_option (if x = k then f else id) (map_of m x))"
  by (induction m) (auto simp: alist_map_value_def fun_eq_iff)

lemma fst_alist_map_value [simp]: "map fst (alist_map_value k f m) = map fst m"
  by (induction m) (auto simp: alist_map_value_def)

lemma bt_wf_alist_map_value [simp]: "bt_wf (alist_map_value k f m) = bt_wf m"
  by (simp add: bt_wf_def)

lemma length_bt_insert_fresh: "map_of m k = None \<Longrightarrow> length (bt_insert k v m) = Suc (length m)"
  by (induction k v m rule: bt_insert.induct) (auto split: if_splits)

end
