(* ===== verification/Admission.thy ===== *)
theory Admission
  imports Jackstay_Prelude
begin

text \<open>
  The admission book of \<open>acquisition.rs\<close> and its allocation accounting in
  \<open>acquisition/allocation.rs\<close>: which consumer incarnations hold how many frame slots and
  bytes, and which resource allocations are charged.  Every \<open>&mut self\<close> method is a
  function from a book to its result and the next book, so that "a failure changes
  nothing" is a theorem and not a convention.  The invariant \<open>book_inv\<close> ties the
  running totals to the tables; it holds in every book reached from \<open>new\<close>.
\<close>

section \<open>Data\<close>

datatype incarnation_id = IncarnationId (incarnation_raw: u64)

datatype allocation_id = AllocationId (allocation_raw: u64)

instantiation incarnation_id :: linorder
begin

definition less_eq_incarnation_id :: "incarnation_id \<Rightarrow> incarnation_id \<Rightarrow> bool" where
  "less_eq_incarnation_id a b \<longleftrightarrow> incarnation_raw a \<le> incarnation_raw b"

definition less_incarnation_id :: "incarnation_id \<Rightarrow> incarnation_id \<Rightarrow> bool" where
  "less_incarnation_id a b \<longleftrightarrow> incarnation_raw a < incarnation_raw b"

instance
  by standard (auto simp: less_eq_incarnation_id_def less_incarnation_id_def incarnation_id.expand)

end

instantiation allocation_id :: linorder
begin

definition less_eq_allocation_id :: "allocation_id \<Rightarrow> allocation_id \<Rightarrow> bool" where
  "less_eq_allocation_id a b \<longleftrightarrow> allocation_raw a \<le> allocation_raw b"

definition less_allocation_id :: "allocation_id \<Rightarrow> allocation_id \<Rightarrow> bool" where
  "less_allocation_id a b \<longleftrightarrow> allocation_raw a < allocation_raw b"

instance
  by standard (auto simp: less_eq_allocation_id_def less_allocation_id_def allocation_id.expand)

end

record admission_limits =
  resource_capacity :: u32
  retained_history :: u32
  producer_reserve :: u32
  allocated_bytes :: u64
  fixed_bytes :: u64
  memory_budget :: u64
  max_incarnations :: u32

record holding_request =
  request_frames :: u32
  request_claim_bytes :: u64

record holding_reservation =
  incarnation :: incarnation_id
  frames :: u32
  claim_bytes :: u64

datatype admission_error =
    InvalidLimits string
  | InvalidRequest
  | InsufficientResources u32 u32
  | InsufficientMemory u64 u64
  | IncarnationCapacity
  | IdsExhausted
  | UnknownIncarnation
  | StillActive
  | ReconfigurationPending
  | NoReconfiguration
  | AllocationNotReserved
  | UnknownAllocation
  | AllocationInUse
  | InvalidAllocationSize

record incarnation_record =
  reservation :: holding_reservation
  closing :: bool

record pending_allocation =
  upper_bound :: u64
  reserved :: "allocation_id option"

record admission_book =
  limits :: admission_limits
  next_incarnation :: u64
  reservations :: "(incarnation_id \<times> incarnation_record) list"
  reserved_frames :: u32
  committed_bytes :: u64
  allocations :: "(allocation_id \<times> u64) list"
  current_allocation :: "allocation_id option"
  next_allocation :: u64
  pending :: "pending_allocation option"

type_synonym 'a book_result = "('a, admission_error) outcome \<times> admission_book"

section \<open>Operations\<close>

definition admission_book_new :: "admission_limits \<Rightarrow> (admission_book, admission_error) outcome" where
  "admission_book_new l =
     (case checked_add (retained_history l) (producer_reserve l) of
        None \<Rightarrow> Err (InvalidLimits ''history and producer reserve overflow'')
      | Some protected \<Rightarrow>
        if producer_reserve l = 0 \<or> resource_capacity l < protected
        then Err (InvalidLimits ''resource capacity must cover history and a nonzero producer reserve'')
        else case checked_add (allocated_bytes l) (fixed_bytes l) of
          None \<Rightarrow> Err (InvalidLimits ''initial allocation byte total overflows'')
        | Some committed \<Rightarrow>
          if memory_budget l < committed
          then Err (InvalidLimits ''existing allocation exceeds the memory budget'')
          else if max_incarnations l = 0
          then Err (InvalidLimits ''incarnation capacity must be nonzero'')
          else Ok \<lparr> limits = l, next_incarnation = 1, reservations = [], reserved_frames = 0,
                    committed_bytes = committed,
                    allocations = [(AllocationId 1, allocated_bytes l)],
                    current_allocation = Some (AllocationId 1), next_allocation = 2,
                    pending = None \<rparr>)"

definition available_frames :: "admission_book \<Rightarrow> u32" where
  "available_frames b =
     resource_capacity (limits b) - retained_history (limits b) - producer_reserve (limits b)
     - reserved_frames b"

definition admit :: "admission_book \<Rightarrow> holding_request \<Rightarrow> holding_reservation book_result" where
  "admit b req =
     (if pending b \<noteq> None then (Err ReconfigurationPending, b)
      else if request_frames req = 0 \<or> request_claim_bytes req = 0 then (Err InvalidRequest, b)
      else if available_frames b < request_frames req
      then (Err (InsufficientResources (request_frames req) (available_frames b)), b)
      else if ucast (max_incarnations (limits b)) \<le> (of_nat (length (reservations b)) :: u64)
      then (Err IncarnationCapacity, b)
      else let available = memory_budget (limits b) - committed_bytes b in
        if available < request_claim_bytes req
        then (Err (InsufficientMemory (request_claim_bytes req) available), b)
        else case checked_add (next_incarnation b) 1 of
          None \<Rightarrow> (Err IdsExhausted, b)
        | Some next \<Rightarrow>
          let r = \<lparr> incarnation = IncarnationId (next_incarnation b), frames = request_frames req,
                    claim_bytes = request_claim_bytes req \<rparr>
          in (Ok r, b\<lparr> next_incarnation := next,
                       reserved_frames := reserved_frames b + request_frames req,
                       committed_bytes := committed_bytes b + request_claim_bytes req,
                       reservations := bt_insert (incarnation r)
                         \<lparr> reservation = r, closing = False \<rparr> (reservations b) \<rparr>))"

definition book_close :: "admission_book \<Rightarrow> incarnation_id \<Rightarrow> unit book_result" where
  "book_close b i =
     (case map_of (reservations b) i of
        None \<Rightarrow> (Err UnknownIncarnation, b)
      | Some _ \<Rightarrow>
        (Ok (), b\<lparr> reservations :=
           alist_map_value i (\<lambda>r. r\<lparr> closing := True \<rparr>) (reservations b) \<rparr>))"

definition complete_cleanup :: "admission_book \<Rightarrow> incarnation_id \<Rightarrow> unit book_result" where
  "complete_cleanup b i =
     (case map_of (reservations b) i of
        None \<Rightarrow> (Err UnknownIncarnation, b)
      | Some record \<Rightarrow>
        if \<not> closing record then (Err StillActive, b)
        else (Ok (), b\<lparr> reservations := bt_remove i (reservations b),
               reserved_frames := reserved_frames b - frames (reservation record),
               committed_bytes := committed_bytes b - claim_bytes (reservation record) \<rparr>))"

definition begin_reconfiguration :: "admission_book \<Rightarrow> u64 \<Rightarrow> unit book_result" where
  "begin_reconfiguration b bound =
     (if pending b \<noteq> None then (Err ReconfigurationPending, b)
      else if bound = 0 then (Err InvalidAllocationSize, b)
      else let resource_bytes = sum_list (bt_values (allocations b));
               nonresource_bytes = committed_bytes b - resource_bytes;
               available = memory_budget (limits b) - nonresource_bytes
        in if available < bound then (Err (InsufficientMemory bound available), b)
           else case checked_add (next_allocation b) 1 of
             None \<Rightarrow> (Err IdsExhausted, b)
           | Some _ \<Rightarrow>
             (Ok (), b\<lparr> pending := Some \<lparr> upper_bound = bound, reserved = None \<rparr>,
                        current_allocation := None \<rparr>))"

definition reserve_reconfiguration :: "admission_book \<Rightarrow> allocation_id book_result" where
  "reserve_reconfiguration b =
     (case pending b of
        None \<Rightarrow> (Err NoReconfiguration, b)
      | Some p \<Rightarrow>
        (case reserved p of
           Some i \<Rightarrow> (Ok i, b)
         | None \<Rightarrow>
           let available = memory_budget (limits b) - committed_bytes b in
           if available < upper_bound p then (Err (InsufficientMemory (upper_bound p) available), b)
           else case checked_add (next_allocation b) 1 of
             None \<Rightarrow> (Err IdsExhausted, b)
           | Some next \<Rightarrow>
             let i = AllocationId (next_allocation b) in
             (Ok i, b\<lparr> next_allocation := next,
                       committed_bytes := committed_bytes b + upper_bound p,
                       allocations := bt_insert i (upper_bound p) (allocations b),
                       pending := Some (p\<lparr> reserved := Some i \<rparr>) \<rparr>)))"

definition install_reconfiguration :: "admission_book \<Rightarrow> u64 \<Rightarrow> allocation_id book_result" where
  "install_reconfiguration b actual =
     (case pending b of
        None \<Rightarrow> (Err NoReconfiguration, b)
      | Some p \<Rightarrow>
        (case reserved p of
           None \<Rightarrow> (Err AllocationNotReserved, b)
         | Some i \<Rightarrow>
           if actual = 0 \<or> upper_bound p < actual then (Err InvalidAllocationSize, b)
           else (Ok i, b\<lparr> committed_bytes := committed_bytes b - (upper_bound p - actual),
                          allocations := bt_insert i actual (allocations b),
                          current_allocation := Some i,
                          pending := None \<rparr>)))"

definition abandon_reconfiguration_allocation :: "admission_book \<Rightarrow> unit book_result" where
  "abandon_reconfiguration_allocation b =
     (case pending b of
        None \<Rightarrow> (Err NoReconfiguration, b)
      | Some p \<Rightarrow>
        (case reserved p of
           None \<Rightarrow> (Err AllocationNotReserved, b)
         | Some i \<Rightarrow>
           let b' = b\<lparr> pending := Some (p\<lparr> reserved := None \<rparr>) \<rparr> in
           (case map_of (allocations b) i of
              None \<Rightarrow> (Panic, b')
            | Some charged \<Rightarrow>
              (Ok (), b'\<lparr> allocations := bt_remove i (allocations b),
                          committed_bytes := committed_bytes b - charged \<rparr>))))"

definition complete_allocation_cleanup :: "admission_book \<Rightarrow> allocation_id \<Rightarrow> unit book_result" where
  "complete_allocation_cleanup b i =
     (if current_allocation b = Some i \<or> Option.bind (pending b) reserved = Some i
      then (Err AllocationInUse, b)
      else case map_of (allocations b) i of
        None \<Rightarrow> (Err UnknownAllocation, b)
      | Some charged \<Rightarrow>
        (Ok (), b\<lparr> allocations := bt_remove i (allocations b),
                   committed_bytes := committed_bytes b - charged \<rparr>))"

lemmas book_ops [op_defs] =
  admit_def book_close_def complete_cleanup_def begin_reconfiguration_def
  reserve_reconfiguration_def install_reconfiguration_def
  abandon_reconfiguration_allocation_def complete_allocation_cleanup_def

section \<open>The invariant\<close>

definition charged_frames :: "admission_book \<Rightarrow> nat" where
  "charged_frames b = (\<Sum>e\<leftarrow>reservations b. unat (frames (reservation (snd e))))"

definition charged_claims :: "admission_book \<Rightarrow> nat" where
  "charged_claims b = (\<Sum>e\<leftarrow>reservations b. unat (claim_bytes (reservation (snd e))))"

definition charged_allocations :: "admission_book \<Rightarrow> nat" where
  "charged_allocations b = (\<Sum>e\<leftarrow>allocations b. unat (snd e))"

definition limits_ok :: "admission_limits \<Rightarrow> bool" where
  "limits_ok l \<longleftrightarrow> producer_reserve l \<noteq> 0 \<and>
     unat (retained_history l) + unat (producer_reserve l) \<le> unat (resource_capacity l) \<and>
     max_incarnations l \<noteq> 0"

definition frames_ok :: "admission_book \<Rightarrow> bool" where
  "frames_ok b \<longleftrightarrow> unat (reserved_frames b) = charged_frames b \<and>
     unat (retained_history (limits b)) + unat (producer_reserve (limits b)) + charged_frames b
       \<le> unat (resource_capacity (limits b))"

definition memory_ok :: "admission_book \<Rightarrow> bool" where
  "memory_ok b \<longleftrightarrow>
     unat (committed_bytes b) =
       unat (fixed_bytes (limits b)) + charged_claims b + charged_allocations b \<and>
     committed_bytes b \<le> memory_budget (limits b)"

definition reservations_ok :: "admission_book \<Rightarrow> bool" where
  "reservations_ok b \<longleftrightarrow> bt_wf (reservations b) \<and>
     length (reservations b) \<le> unat (max_incarnations (limits b)) \<and>
     (\<forall>(i, r)\<in>set (reservations b). incarnation (reservation r) = i \<and>
        frames (reservation r) \<noteq> 0 \<and> claim_bytes (reservation r) \<noteq> 0 \<and>
        incarnation_raw i < next_incarnation b)"

definition allocations_ok :: "admission_book \<Rightarrow> bool" where
  "allocations_ok b \<longleftrightarrow> bt_wf (allocations b) \<and>
     (\<forall>(i, _)\<in>set (allocations b). allocation_raw i < next_allocation b)"

definition pending_ok :: "admission_book \<Rightarrow> bool" where
  "pending_ok b \<longleftrightarrow> (case pending b of
     None \<Rightarrow> (\<exists>i. current_allocation b = Some i \<and> i \<in> dom (map_of (allocations b)))
   | Some p \<Rightarrow> current_allocation b = None \<and> upper_bound p \<noteq> 0 \<and>
       unat (fixed_bytes (limits b)) + charged_claims b + unat (upper_bound p)
         \<le> unat (memory_budget (limits b)) \<and>
       (\<forall>i. reserved p = Some i \<longrightarrow> map_of (allocations b) i = Some (upper_bound p)))"

definition book_inv :: "admission_book \<Rightarrow> bool" where
  "book_inv b \<longleftrightarrow> limits_ok (limits b) \<and> frames_ok b \<and> memory_ok b \<and> reservations_ok b \<and>
     allocations_ok b \<and> pending_ok b"

lemmas book_inv_parts = frames_ok_def memory_ok_def reservations_ok_def allocations_ok_def
lemmas charged_defs = charged_frames_def charged_claims_def charged_allocations_def

section \<open>Every operation keeps the invariant\<close>

text \<open>Tables: an insertion of a fresh key adds its charge, a removal gives it back.\<close>

lemma fresh_incarnation:
  "reservations_ok b \<Longrightarrow> map_of (reservations b) (IncarnationId (next_incarnation b)) = None"
  by (fastforce simp: reservations_ok_def map_of_eq_None_iff)

lemma fresh_allocation:
  "allocations_ok b \<Longrightarrow> map_of (allocations b) (AllocationId (next_allocation b)) = None"
  by (fastforce simp: allocations_ok_def map_of_eq_None_iff)

lemma set_bt_insertD: "x \<in> set (bt_insert k v m) \<Longrightarrow> x = (k, v) \<or> x \<in> set m"
  by (induction k v m rule: bt_insert.induct) (auto split: if_splits)

lemma unat_available_frames:
  assumes "frames_ok b"
  shows "unat (available_frames b) =
    unat (resource_capacity (limits b)) - unat (retained_history (limits b))
    - unat (producer_reserve (limits b)) - charged_frames b"
proof -
  let ?l = "limits b"
  have a: "retained_history ?l \<le> resource_capacity ?l"
    using assms by (simp add: frames_ok_def word_le_nat_alt)
  have b: "producer_reserve ?l \<le> resource_capacity ?l - retained_history ?l"
    using assms a by (auto simp: frames_ok_def word_le_nat_alt unat_minus)
  have c: "reserved_frames b \<le> resource_capacity ?l - retained_history ?l - producer_reserve ?l"
    using assms a b by (auto simp: frames_ok_def word_le_nat_alt unat_minus)
  show ?thesis
    using assms a b c by (simp add: available_frames_def unat_minus frames_ok_def)
qed

lemma unat_available_bytes:
  "memory_ok b \<Longrightarrow> unat (memory_budget (limits b) - committed_bytes b) =
     unat (memory_budget (limits b)) - unat (committed_bytes b)"
  by (simp add: memory_ok_def unat_minus)

lemma resource_bytes:
  assumes "memory_ok b"
  shows "unat (sum_list (bt_values (allocations b))) = charged_allocations b"
    and "unat (committed_bytes b - sum_list (bt_values (allocations b))) =
           unat (fixed_bytes (limits b)) + charged_claims b"
proof -
  have "charged_allocations b \<le> unat (committed_bytes b)"
    using assms by (simp add: memory_ok_def)
  then have "sum_list (map unat (bt_values (allocations b))) < 2 ^ LENGTH(64)"
    using u64_bound [of "committed_bytes b"]
    by (simp add: bt_values_def charged_allocations_def comp_def)
  then show *: "unat (sum_list (bt_values (allocations b))) = charged_allocations b"
    by (subst sum_list_unat) (simp_all add: bt_values_def charged_allocations_def comp_def)
  have "sum_list (bt_values (allocations b)) \<le> committed_bytes b"
    using * assms by (simp add: word_le_nat_alt memory_ok_def)
  then show "unat (committed_bytes b - sum_list (bt_values (allocations b))) =
      unat (fixed_bytes (limits b)) + charged_claims b"
    using * assms by (simp add: unat_minus memory_ok_def)
qed

lemma new_inv:
  assumes "admission_book_new l = Ok b"
  shows "book_inv b" and "limits b = l"
proof -
  obtain p where p: "checked_add (retained_history l) (producer_reserve l) = Some p"
    using assms by (auto simp: admission_book_new_def split: option.splits)
  obtain c where c: "checked_add (allocated_bytes l) (fixed_bytes l) = Some c"
    using assms p by (auto simp: admission_book_new_def split: option.splits if_splits)
  have b: "b = \<lparr> limits = l, next_incarnation = 1, reservations = [], reserved_frames = 0,
      committed_bytes = c, allocations = [(AllocationId 1, allocated_bytes l)],
      current_allocation = Some (AllocationId 1), next_allocation = 2, pending = None \<rparr>"
    and g: "producer_reserve l \<noteq> 0" "p \<le> resource_capacity l" "c \<le> memory_budget l"
      "max_incarnations l \<noteq> 0"
    using assms p c by (auto simp: admission_book_new_def split: if_splits)
  show "limits b = l" using b by simp
  have "limits_ok l"
    using g checked_add_unat [OF p] by (simp add: limits_ok_def word_le_nat_alt)
  moreover have "frames_ok b"
    using g checked_add_unat [OF p] by (simp add: b frames_ok_def charged_frames_def word_le_nat_alt)
  moreover have "memory_ok b"
    using g checked_add_unat [OF c] by (simp add: b memory_ok_def charged_defs)
  ultimately show "book_inv b"
    by (simp add: b book_inv_def reservations_ok_def allocations_ok_def pending_ok_def bt_wf_def)
qed

lemma admit_Ok:
  assumes "admit b req = (Ok r, b')"
  shows "pending b = None" "request_frames req \<noteq> 0" "request_claim_bytes req \<noteq> 0"
    "request_frames req \<le> available_frames b"
    "\<not> ucast (max_incarnations (limits b)) \<le> (of_nat (length (reservations b)) :: u64)"
    "request_claim_bytes req \<le> memory_budget (limits b) - committed_bytes b"
    "unat (next_incarnation b) + 1 < 2 ^ 64"
    "r = \<lparr> incarnation = IncarnationId (next_incarnation b), frames = request_frames req,
           claim_bytes = request_claim_bytes req \<rparr>"
    "b' = b\<lparr> next_incarnation := next_incarnation b + 1,
             reserved_frames := reserved_frames b + request_frames req,
             committed_bytes := committed_bytes b + request_claim_bytes req,
             reservations := bt_insert (incarnation r) \<lparr> reservation = r, closing = False \<rparr>
               (reservations b) \<rparr>"
  using assms
  by (auto simp: admit_def Let_def checked_add_Some split: if_splits option.splits)

lemma admit_inv:
  assumes "book_inv b" and ok: "admit b req = (Ok r, b')"
  shows "book_inv b'"
proof -
  note a = admit_Ok [OF ok]
  have f: "frames_ok b" and m: "memory_ok b" and rs: "reservations_ok b"
    and al: "allocations_ok b" and pe: "pending_ok b" and l: "limits_ok (limits b)"
    using assms(1) by (auto simp: book_inv_def)
  let ?v = "\<lparr> reservation = r, closing = False \<rparr>"
  have fld: "limits b' = limits b" "reserved_frames b' = reserved_frames b + request_frames req"
    "committed_bytes b' = committed_bytes b + request_claim_bytes req"
    by (simp_all add: a(9))
  have fresh: "map_of (reservations b) (incarnation r) = None"
    using fresh_incarnation [OF rs] a(8) by simp
  have wf: "bt_wf (reservations b)" using rs by (simp add: reservations_ok_def)
  have ch: "charged_frames b' = unat (request_frames req) + charged_frames b"
    "charged_claims b' = unat (request_claim_bytes req) + charged_claims b"
    "charged_allocations b' = charged_allocations b"
    using bt.sum_insert_fresh [OF wf fresh, of "\<lambda>r. unat (frames (reservation r))" ?v]
      bt.sum_insert_fresh [OF wf fresh, of "\<lambda>r. unat (claim_bytes (reservation r))" ?v] a(8)
    by (simp_all add: charged_defs a(9))
  have "unat (request_frames req) \<le> unat (available_frames b)"
    using a(4) by (simp add: word_le_nat_alt)
  then have room: "unat (retained_history (limits b)) + unat (producer_reserve (limits b)) +
      (unat (request_frames req) + charged_frames b) \<le> unat (resource_capacity (limits b))"
    using f by (auto simp: unat_available_frames frames_ok_def)
  then have "unat (reserved_frames b + request_frames req) =
      unat (reserved_frames b) + unat (request_frames req)"
    using f u32_bound [of "resource_capacity (limits b)"]
    by (intro unat_plus32) (auto simp: frames_ok_def)
  then have 1: "frames_ok b'"
    using f room by (simp add: frames_ok_def ch fld)
  have "unat (request_claim_bytes req) \<le> unat (memory_budget (limits b)) - unat (committed_bytes b)"
    using a(6) m by (simp add: word_le_nat_alt unat_available_bytes)
  then have fits: "unat (committed_bytes b) + unat (request_claim_bytes req)
      \<le> unat (memory_budget (limits b))"
    using m a(3) by (auto simp: memory_ok_def word_le_nat_alt)
  then have cb: "unat (committed_bytes b + request_claim_bytes req) =
      unat (committed_bytes b) + unat (request_claim_bytes req)"
    using u64_bound [of "memory_budget (limits b)"] by (intro unat_plus64) simp
  have 2: "memory_ok b'"
    using m fits cb by (simp add: memory_ok_def ch fld word_le_nat_alt)
  have lt: "length (reservations b) < unat (max_incarnations (limits b))"
  proof -
    have "length (reservations b) \<le> unat (max_incarnations (limits b))"
      using rs by (simp add: reservations_ok_def)
    moreover have "unat (max_incarnations (limits b)) < 2 ^ 32"
      using u32_bound [of "max_incarnations (limits b)"] by simp
    ultimately have "unat (of_nat (length (reservations b)) :: u64) = length (reservations b)"
      by (simp add: unat_of_nat)
    then show ?thesis using a(5) by (simp add: word_le_nat_alt)
  qed
  have nx: "next_incarnation b < next_incarnation b + 1"
    using a(7) by (simp add: word_less_nat_alt unat_Suc_word)
  have 3: "reservations_ok b'"
    using rs lt wf nx a(2,3,8) fresh
    by (auto simp: reservations_ok_def a(9) bt_wf_insert length_bt_insert_fresh
        dest!: set_bt_insertD intro: order.strict_trans)
  have 4: "allocations_ok b'" using al by (simp add: allocations_ok_def a(9))
  have 5: "pending_ok b'" using pe a(1) by (simp add: pending_ok_def a(9))
  show ?thesis using l 1 2 3 4 5 by (simp add: book_inv_def a(9))
qed

lemma close_inv:
  assumes "book_inv b"
  shows "book_inv (snd (book_close b i))"
proof (cases "map_of (reservations b) i")
  case (Some r)
  let ?b = "b\<lparr>reservations := alist_map_value i (\<lambda>r. r\<lparr>closing := True\<rparr>) (reservations b)\<rparr>"
  have "charged_frames ?b = charged_frames b" "charged_claims ?b = charged_claims b"
    "charged_allocations ?b = charged_allocations b"
    by (auto simp: charged_defs alist_map_value_def comp_def case_prod_beta
        intro!: arg_cong [where f = sum_list])
  moreover have "reservations_ok b \<Longrightarrow> reservations_ok ?b"
    by (auto simp: reservations_ok_def) (auto simp: alist_map_value_def split: if_splits)
  ultimately have "book_inv ?b"
    using assms
    by (simp add: book_inv_def frames_ok_def memory_ok_def allocations_ok_def pending_ok_def
        cong: option.case_cong)
  then show ?thesis by (simp add: book_close_def Some)
qed (use assms in \<open>simp add: book_close_def\<close>)

lemma complete_cleanup_inv:
  assumes inv: "book_inv b"
  shows "book_inv (snd (complete_cleanup b i))"
proof (cases "map_of (reservations b) i")
  case (Some r)
  show ?thesis
  proof (cases "closing r")
    case True
    let ?b = "snd (complete_cleanup b i)"
    have b: "?b = b\<lparr> reservations := bt_remove i (reservations b),
        reserved_frames := reserved_frames b - frames (reservation r),
        committed_bytes := committed_bytes b - claim_bytes (reservation r) \<rparr>"
      using Some True by (simp add: complete_cleanup_def)
    have fld: "limits ?b = limits b" "reserved_frames ?b = reserved_frames b - frames (reservation r)"
      "committed_bytes ?b = committed_bytes b - claim_bytes (reservation r)"
      "allocations ?b = allocations b" "next_allocation ?b = next_allocation b"
      "pending ?b = pending b" "current_allocation ?b = current_allocation b"
      by (simp_all add: b)
    have wf: "bt_wf (reservations b)" using inv by (simp add: book_inv_def reservations_ok_def)
    have ch: "charged_frames b = unat (frames (reservation r)) + charged_frames ?b"
      "charged_claims b = unat (claim_bytes (reservation r)) + charged_claims ?b"
      "charged_allocations ?b = charged_allocations b"
      using bt.sum_remove [OF wf Some, of "\<lambda>r. unat (frames (reservation r))"]
        bt.sum_remove [OF wf Some, of "\<lambda>r. unat (claim_bytes (reservation r))"]
      by (simp_all add: b charged_defs)
    have le: "frames (reservation r) \<le> reserved_frames b"
      "claim_bytes (reservation r) \<le> committed_bytes b"
      using inv ch by (auto simp: book_inv_def frames_ok_def memory_ok_def word_le_nat_alt)
    have 1: "frames_ok ?b"
      using inv ch le by (auto simp: book_inv_def frames_ok_def fld unat_minus)
    have 2: "memory_ok ?b"
      using inv ch le by (auto simp: book_inv_def memory_ok_def fld unat_minus word_le_nat_alt)
    have "length (bt_remove i (reservations b)) \<le> length (reservations b)"
      "set (bt_remove i (reservations b)) \<subseteq> set (reservations b)"
      by (auto simp: bt_remove_def)
    then have 3: "reservations_ok ?b"
      using inv by (auto simp: book_inv_def reservations_ok_def b bt_wf_remove dest: order.trans)
    have 4: "allocations_ok ?b" "pending_ok ?b"
      using inv ch by (auto simp: book_inv_def allocations_ok_def pending_ok_def fld split: option.splits)
    show ?thesis using inv 1 2 3 4 by (simp add: book_inv_def fld)
  qed (use inv Some in \<open>simp add: complete_cleanup_def\<close>)
qed (use inv in \<open>simp add: complete_cleanup_def\<close>)

lemma begin_reconfiguration_inv:
  assumes inv: "book_inv b"
  shows "book_inv (snd (begin_reconfiguration b bound))"
proof (cases "fst (begin_reconfiguration b bound) = Ok ()")
  case True
  let ?b = "snd (begin_reconfiguration b bound)"
  have g: "bound \<noteq> 0" "bound \<le> memory_budget (limits b) -
      (committed_bytes b - sum_list (bt_values (allocations b)))"
    and b: "?b = b\<lparr> pending := Some \<lparr> upper_bound = bound, reserved = None \<rparr>,
                     current_allocation := None \<rparr>"
    using True by (auto simp: begin_reconfiguration_def Let_def split: if_splits option.splits)
  have m: "memory_ok b" using inv by (simp add: book_inv_def)
  have "committed_bytes b - sum_list (bt_values (allocations b)) \<le> memory_budget (limits b)"
    using resource_bytes(2) [OF m] m by (simp add: word_le_nat_alt memory_ok_def)
  then have "unat (fixed_bytes (limits b)) + charged_claims b + unat bound
      \<le> unat (memory_budget (limits b))"
    using g resource_bytes(2) [OF m] m by (auto simp: word_le_nat_alt unat_minus memory_ok_def)
  then show ?thesis
    using inv g
    by (simp add: b book_inv_def book_inv_parts charged_defs pending_ok_def)
next
  case False
  then have "snd (begin_reconfiguration b bound) = b"
    by (auto simp: begin_reconfiguration_def Let_def split: option.splits)
  then show ?thesis using inv by simp
qed

lemma reserve_reconfiguration_inv:
  assumes inv: "book_inv b"
  shows "book_inv (snd (reserve_reconfiguration b))"
proof (cases "snd (reserve_reconfiguration b) = b")
  case False
  let ?b = "snd (reserve_reconfiguration b)"
  obtain p where p: "pending b = Some p" "reserved p = None"
    and g: "upper_bound p \<le> memory_budget (limits b) - committed_bytes b"
      "unat (next_allocation b) + 1 < 2 ^ 64"
    and b: "?b = b\<lparr> next_allocation := next_allocation b + 1,
        committed_bytes := committed_bytes b + upper_bound p,
        allocations := bt_insert (AllocationId (next_allocation b)) (upper_bound p) (allocations b),
        pending := Some (p\<lparr> reserved := Some (AllocationId (next_allocation b)) \<rparr>) \<rparr>"
    using False
    by (auto simp: reserve_reconfiguration_def Let_def checked_add_Some split: option.splits if_splits)
  have fld: "limits ?b = limits b" "reservations ?b = reservations b"
    "reserved_frames ?b = reserved_frames b" "next_incarnation ?b = next_incarnation b"
    "committed_bytes ?b = committed_bytes b + upper_bound p"
    "pending ?b = Some (p\<lparr> reserved := Some (AllocationId (next_allocation b)) \<rparr>)"
    "current_allocation ?b = current_allocation b"
    by (simp_all add: b)
  have parts: "memory_ok b" "allocations_ok b" "pending_ok b" "frames_ok b" "reservations_ok b"
    using inv by (simp_all add: book_inv_def)
  have wf: "bt_wf (allocations b)" using parts by (simp add: allocations_ok_def)
  note fresh = fresh_allocation [OF parts(2)]
  have ch: "charged_frames ?b = charged_frames b" "charged_claims ?b = charged_claims b"
    "charged_allocations ?b = unat (upper_bound p) + charged_allocations b"
    using bt.sum_insert_fresh [OF wf fresh, of unat "upper_bound p"]
    by (simp_all add: charged_defs b)
  have fits: "unat (committed_bytes b) + unat (upper_bound p) \<le> unat (memory_budget (limits b))"
    using g(1) parts(1) by (auto simp: word_le_nat_alt unat_available_bytes memory_ok_def)
  then have sum: "unat (committed_bytes b + upper_bound p) = unat (committed_bytes b) + unat (upper_bound p)"
    using u64_bound [of "memory_budget (limits b)"] by (intro unat_plus64) simp
  have 1: "memory_ok ?b"
    using parts(1) fits sum by (simp add: memory_ok_def fld ch word_le_nat_alt)
  have nx: "next_allocation b < next_allocation b + 1"
    using g(2) by (simp add: word_less_nat_alt unat_Suc_word)
  have 2: "allocations_ok ?b"
    using parts(2) nx
    by (auto simp: allocations_ok_def b bt_wf_insert dest!: set_bt_insertD intro: order.strict_trans)
  have 3: "pending_ok ?b"
    using parts(3) p by (simp add: pending_ok_def fld ch) (simp add: b map_of_bt_insert wf)
  show ?thesis
    using inv 1 2 3 parts by (simp add: book_inv_def fld frames_ok_def ch reservations_ok_def)
qed (use inv in simp)

lemma install_reconfiguration_inv:
  assumes inv: "book_inv b"
  shows "book_inv (snd (install_reconfiguration b actual))"
proof (cases "snd (install_reconfiguration b actual) = b")
  case False
  let ?b = "snd (install_reconfiguration b actual)"
  obtain p i where p: "pending b = Some p" "reserved p = Some i"
    and g: "actual \<noteq> 0" "actual \<le> upper_bound p"
    and b: "?b = b\<lparr> committed_bytes := committed_bytes b - (upper_bound p - actual),
        allocations := bt_insert i actual (allocations b),
        current_allocation := Some i, pending := None \<rparr>"
    using False by (auto simp: install_reconfiguration_def split: option.splits if_splits)
  have fld: "limits ?b = limits b" "reservations ?b = reservations b"
    "reserved_frames ?b = reserved_frames b" "next_incarnation ?b = next_incarnation b"
    "committed_bytes ?b = committed_bytes b - (upper_bound p - actual)" "pending ?b = None"
    by (simp_all add: b)
  have parts: "memory_ok b" "allocations_ok b" "pending_ok b"
    using inv by (simp_all add: book_inv_def)
  have wf: "bt_wf (allocations b)" using parts by (simp add: allocations_ok_def)
  have at: "map_of (allocations b) i = Some (upper_bound p)"
    using parts(3) p by (simp add: pending_ok_def)
  have ch: "charged_frames ?b = charged_frames b" "charged_claims ?b = charged_claims b"
    "unat (upper_bound p) + charged_allocations ?b = unat actual + charged_allocations b"
    using bt.sum_replace [OF wf at, of unat actual] by (simp_all add: charged_defs b)
  have d: "unat (upper_bound p - actual) = unat (upper_bound p) - unat actual"
    using g(2) by (rule unat_minus)
  have "unat (upper_bound p) \<le> charged_allocations b"
    using bt.sum_remove [OF wf at, of unat] by (simp add: charged_allocations_def)
  then have "upper_bound p - actual \<le> committed_bytes b"
    using parts(1) d by (simp add: word_le_nat_alt memory_ok_def)
  then have 1: "memory_ok ?b"
    using parts(1) ch d g(2) by (auto simp: memory_ok_def fld unat_minus word_le_nat_alt)
  have "(i, upper_bound p) \<in> set (allocations b)" using at by (rule map_of_SomeD)
  then have 2: "allocations_ok ?b"
    using parts(2) by (fastforce simp: allocations_ok_def b bt_wf_insert dest: set_bt_insertD)
  have 3: "pending_ok ?b" by (simp add: pending_ok_def b map_of_bt_insert wf)
  show ?thesis
    using inv 1 2 3 by (simp add: book_inv_def fld frames_ok_def ch reservations_ok_def)
qed (use inv in simp)

text \<open>Giving a charged allocation back, for an abandoned and for a retired allocation.\<close>

lemma uncharge_allocation:
  assumes "allocations_ok b" and "memory_ok b" and at: "map_of (allocations b) i = Some n"
    and b': "limits b' = limits b" "reservations b' = reservations b"
      "allocations b' = bt_remove i (allocations b)" "next_allocation b' = next_allocation b"
      "committed_bytes b' = committed_bytes b - n"
  shows "allocations_ok b'" and "memory_ok b'" and "charged_claims b' = charged_claims b"
proof -
  have wf: "bt_wf (allocations b)" using assms(1) by (simp add: allocations_ok_def)
  have ch: "charged_claims b' = charged_claims b"
    "charged_allocations b = unat n + charged_allocations b'"
    using bt.sum_remove [OF wf at, of unat] by (simp_all add: charged_defs b')
  then have "n \<le> committed_bytes b" using assms(2) by (simp add: memory_ok_def word_le_nat_alt)
  then show "memory_ok b'"
    using assms(2) ch by (auto simp: memory_ok_def b' unat_minus word_le_nat_alt)
  show "allocations_ok b'"
    using assms(1) by (auto simp: allocations_ok_def b' bt_wf_remove) (auto simp: bt_remove_def)
  show "charged_claims b' = charged_claims b" by (fact ch)
qed

lemma abandon_reconfiguration_inv:
  assumes inv: "book_inv b"
  shows "book_inv (snd (abandon_reconfiguration_allocation b))"
    and "fst (abandon_reconfiguration_allocation b) \<noteq> Panic"
proof -
  let ?b = "snd (abandon_reconfiguration_allocation b)"
  have parts: "memory_ok b" "allocations_ok b" "pending_ok b"
    using inv by (simp_all add: book_inv_def)
  have "book_inv ?b \<and> fst (abandon_reconfiguration_allocation b) \<noteq> Panic"
  proof (cases "\<exists>p i. pending b = Some p \<and> reserved p = Some i")
    case True
    then obtain p i where p: "pending b = Some p" "reserved p = Some i" by blast
    have at: "map_of (allocations b) i = Some (upper_bound p)"
      using parts(3) p by (simp add: pending_ok_def)
    have b: "?b = b\<lparr> pending := Some (p\<lparr> reserved := None \<rparr>),
        allocations := bt_remove i (allocations b),
        committed_bytes := committed_bytes b - upper_bound p \<rparr>"
      using p at by (simp add: abandon_reconfiguration_allocation_def)
    note u = uncharge_allocation [OF parts(2,1) at, of ?b]
    have "frames_ok ?b" "reservations_ok ?b"
      using inv by (simp_all add: book_inv_def b frames_ok_def reservations_ok_def charged_defs)
    moreover have "pending_ok ?b"
      using parts(3) p by (simp add: pending_ok_def b charged_claims_def)
    ultimately show ?thesis
      using inv u p at
      by (simp add: book_inv_def b) (simp add: abandon_reconfiguration_allocation_def)
  next
    case False
    then show ?thesis
      using inv by (auto simp: abandon_reconfiguration_allocation_def split: option.splits)
  qed
  then show "book_inv ?b" and "fst (abandon_reconfiguration_allocation b) \<noteq> Panic" by auto
qed

lemma complete_allocation_cleanup_inv:
  assumes inv: "book_inv b"
  shows "book_inv (snd (complete_allocation_cleanup b i))"
proof (cases "snd (complete_allocation_cleanup b i) = b")
  case False
  let ?b = "snd (complete_allocation_cleanup b i)"
  have parts: "memory_ok b" "allocations_ok b" "pending_ok b"
    using inv by (simp_all add: book_inv_def)
  obtain n where at: "map_of (allocations b) i = Some n"
    and g: "current_allocation b \<noteq> Some i" "\<forall>p. pending b = Some p \<longrightarrow> reserved p \<noteq> Some i"
    and b: "?b = b\<lparr> allocations := bt_remove i (allocations b),
        committed_bytes := committed_bytes b - n \<rparr>"
    using False
    by (auto simp: complete_allocation_cleanup_def bind_eq_Some_conv split: if_splits option.splits)
  note u = uncharge_allocation [OF parts(2,1) at, of ?b]
  have "frames_ok ?b" "reservations_ok ?b"
    using inv by (simp_all add: book_inv_def b frames_ok_def reservations_ok_def charged_defs)
  moreover have "pending_ok ?b"
    using parts(3) g
    by (auto simp: pending_ok_def b charged_claims_def map_of_bt_remove split: option.splits)
  ultimately show ?thesis
    using inv u by (simp add: book_inv_def b)
qed (use inv in simp)

section \<open>Books that a producer can reach\<close>

datatype book_op =
    Admit holding_request
  | Close incarnation_id
  | CompleteCleanup incarnation_id
  | BeginReconfiguration u64
  | ReserveReconfiguration
  | InstallReconfiguration u64
  | AbandonReconfiguration
  | CompleteAllocationCleanup allocation_id

definition discard :: "'a book_result \<Rightarrow> unit book_result" where
  "discard r = (map_outcome_ok (\<lambda>_. ()) (fst r), snd r)"

fun book_apply :: "book_op \<Rightarrow> admission_book \<Rightarrow> unit book_result" where
  "book_apply (Admit req) b = discard (admit b req)"
| "book_apply (Close i) b = book_close b i"
| "book_apply (CompleteCleanup i) b = complete_cleanup b i"
| "book_apply (BeginReconfiguration n) b = begin_reconfiguration b n"
| "book_apply ReserveReconfiguration b = discard (reserve_reconfiguration b)"
| "book_apply (InstallReconfiguration n) b = discard (install_reconfiguration b n)"
| "book_apply AbandonReconfiguration b = abandon_reconfiguration_allocation b"
| "book_apply (CompleteAllocationCleanup i) b = complete_allocation_cleanup b i"

inductive book_reachable :: "admission_limits \<Rightarrow> admission_book \<Rightarrow> bool" for l where
  book_start: "admission_book_new l = Ok b \<Longrightarrow> book_reachable l b"
| book_next: "book_reachable l b \<Longrightarrow> book_reachable l (snd (book_apply op b))"

lemma snd_discard [simp]: "snd (discard r) = snd r"
  by (simp add: discard_def)

lemma fst_discard: "fst (discard r) = map_outcome_ok (\<lambda>_. ()) (fst r)"
  by (simp add: discard_def)

lemma map_outcome_ok_eq [simp]:
  "map_outcome_ok f r = Err e \<longleftrightarrow> r = Err e" "map_outcome_ok f r = Panic \<longleftrightarrow> r = Panic"
  by (cases r; simp)+

lemma admit_Err: "\<forall>r. fst (admit b req) \<noteq> Ok r \<Longrightarrow> snd (admit b req) = b"
  by (auto simp: admit_def Let_def split: option.splits)

lemma admit_keeps: "book_inv b \<Longrightarrow> book_inv (snd (admit b req))"
proof (cases "\<exists>r. fst (admit b req) = Ok r")
  case True
  then obtain r where "admit b req = (Ok r, snd (admit b req))" by (metis prod.collapse)
  then show "book_inv b \<Longrightarrow> ?thesis" by (rule admit_inv [rotated])
qed (simp add: admit_Err)

lemmas book_keeps [keeps] = admit_keeps close_inv complete_cleanup_inv begin_reconfiguration_inv
  reserve_reconfiguration_inv install_reconfiguration_inv abandon_reconfiguration_inv(1)
  complete_allocation_cleanup_inv

lemma book_apply_inv: "book_inv b \<Longrightarrow> book_inv (snd (book_apply op b))"
  by (cases op) (simp_all add: keeps)

lemma book_apply_limits: "limits (snd (book_apply op b)) = limits b"
  by (cases op) (auto simp: op_defs Let_def split: option.splits)

lemma book_reachable_inv: "book_reachable l b \<Longrightarrow> book_inv b \<and> limits b = l"
  by (induction rule: book_reachable.induct) (auto simp: new_inv book_apply_inv book_apply_limits)

fun issued :: "book_op list \<Rightarrow> admission_book \<Rightarrow> incarnation_id list" where
  "issued [] b = []"
| "issued (op # ops) b =
     (let rest = issued ops (snd (book_apply op b)) in
      case op of
        Admit req \<Rightarrow> (case fst (admit b req) of Ok r \<Rightarrow> incarnation r # rest | _ \<Rightarrow> rest)
      | _ \<Rightarrow> rest)"

section \<open>Properties\<close>

text \<open>C1. In every book a producer can reach from \<open>new\<close>, the 32- and 64-bit running totals
  equal the unbounded sums over the tables: nothing wraps, the consumers' frame slots never
  eat into the retained history or the producer's working reserve, and the charged bytes
  never pass the memory budget.\<close>

theorem admission_accounting_exact:
  assumes "book_reachable l b"
  shows "unat (reserved_frames b) = charged_frames b \<and>
     unat (retained_history l) + unat (producer_reserve l) + charged_frames b
       \<le> unat (resource_capacity l) \<and>
     unat (committed_bytes b) = unat (fixed_bytes l) + charged_claims b + charged_allocations b \<and>
     unat (committed_bytes b) \<le> unat (memory_budget l) \<and>
     length (reservations b) \<le> unat (max_incarnations l)"
  using book_reachable_inv [OF assms]
  by (auto simp: book_inv_def book_inv_parts word_le_nat_alt)

definition sample_limits :: admission_limits where
  "sample_limits = \<lparr> resource_capacity = 6, retained_history = 2, producer_reserve = 1,
     allocated_bytes = 4096, fixed_bytes = 512, memory_budget = 20000, max_incarnations = 2 \<rparr>"

definition sample_book :: admission_book where
  "sample_book = \<lparr> limits = sample_limits, next_incarnation = 1, reservations = [],
     reserved_frames = 0, committed_bytes = 4608, allocations = [(AllocationId 1, 4096)],
     current_allocation = Some (AllocationId 1), next_allocation = 2, pending = None \<rparr>"

definition sample_request :: holding_request where
  "sample_request = \<lparr> request_frames = 2, request_claim_bytes = 1024 \<rparr>"

lemma sample_new: "admission_book_new sample_limits = Ok sample_book"
  by (simp add: admission_book_new_def sample_limits_def sample_book_def checked_add_def)

lemma sample_inv: "book_inv sample_book"
  by (rule new_inv(1) [OF sample_new])

theorem admission_accounting_exact_witness:
  "unat (reserved_frames (snd (book_apply (Admit sample_request) sample_book))) =
     charged_frames (snd (book_apply (Admit sample_request) sample_book))"
  by (rule admission_accounting_exact [OF book_next [OF book_start [OF sample_new]], THEN conjunct1])

text \<open>C2. Admission is decided by capacity in unbounded arithmetic: \<open>admit\<close> succeeds exactly
  when no replacement is pending, the request is nonzero, an identity and a table slot are
  left, and history, reserve, all holdings and the request together fit the resources and
  the budget.\<close>

theorem admit_succeeds_iff_capacity:
  assumes "book_inv b"
  shows "(\<exists>r b'. admit b req = (Ok r, b')) \<longleftrightarrow>
     pending b = None \<and> request_frames req \<noteq> 0 \<and> request_claim_bytes req \<noteq> 0 \<and>
     unat (retained_history (limits b)) + unat (producer_reserve (limits b)) + charged_frames b
       + unat (request_frames req) \<le> unat (resource_capacity (limits b)) \<and>
     length (reservations b) < unat (max_incarnations (limits b)) \<and>
     unat (committed_bytes b) + unat (request_claim_bytes req) \<le> unat (memory_budget (limits b)) \<and>
     unat (next_incarnation b) + 1 < 2 ^ 64"
proof -
  have f: "frames_ok b" and m: "memory_ok b" and rs: "reservations_ok b"
    using assms by (auto simp: book_inv_def)
  have 1: "available_frames b < request_frames req \<longleftrightarrow>
      \<not> unat (retained_history (limits b)) + unat (producer_reserve (limits b)) + charged_frames b
        + unat (request_frames req) \<le> unat (resource_capacity (limits b))"
    using f by (auto simp: word_less_nat_alt unat_available_frames frames_ok_def)
  have "length (reservations b) < 4294967296"
    using rs u32_bound [of "max_incarnations (limits b)"] by (simp add: reservations_ok_def)
  then have "unat (of_nat (length (reservations b)) :: u64) = length (reservations b)"
    by (simp add: unat_of_nat)
  then have 2: "ucast (max_incarnations (limits b)) \<le> (of_nat (length (reservations b)) :: u64) \<longleftrightarrow>
      \<not> length (reservations b) < unat (max_incarnations (limits b))"
    by (simp add: word_le_nat_alt not_less)
  have 3: "memory_budget (limits b) - committed_bytes b < request_claim_bytes req \<longleftrightarrow>
      \<not> unat (committed_bytes b) + unat (request_claim_bytes req) \<le> unat (memory_budget (limits b))"
    using m by (auto simp: word_less_nat_alt unat_available_bytes memory_ok_def word_le_nat_alt)
  show ?thesis
    by (simp add: admit_def Let_def 1 2 3 checked_add_def split: option.split)
qed

theorem admit_succeeds_iff_capacity_witness:
  "\<exists>r b'. admit sample_book sample_request = (Ok r, b')"
  using admit_succeeds_iff_capacity [OF sample_inv, of sample_request]
  by (simp add: sample_book_def sample_request_def sample_limits_def charged_frames_def)

text \<open>Failure is atomic: in a book that satisfies the invariant no operation panics, and an
  operation that reports an error leaves every grant and every total as it was.\<close>

theorem book_failure_atomic:
  assumes "book_inv b"
  shows "fst (book_apply op b) \<noteq> Panic \<and>
     (\<forall>e. fst (book_apply op b) = Err e \<longrightarrow> snd (book_apply op b) = b)"
  using abandon_reconfiguration_inv(2) [OF assms]
  by (cases op) (auto simp: op_defs fst_discard Let_def split: option.splits if_splits)

theorem book_failure_atomic_witness:
  "fst (book_apply (CompleteCleanup (IncarnationId 7)) sample_book) = Err UnknownIncarnation \<and>
   snd (book_apply (CompleteCleanup (IncarnationId 7)) sample_book) = sample_book"
  using book_failure_atomic [OF sample_inv, of "CompleteCleanup (IncarnationId 7)"]
  by (simp add: complete_cleanup_def sample_book_def)


definition sample_drained :: admission_book where
  "sample_drained = snd (complete_allocation_cleanup (snd (begin_reconfiguration sample_book 15000))
     (AllocationId 1))"


text \<open>Identities are handed out once.\<close>

lemma next_incarnation_mono:
  "next_incarnation b \<le> next_incarnation (snd (book_apply op b))"
proof (cases op)
  case (Admit req)
  show ?thesis
  proof (cases "fst (admit b req)")
    case (Ok r)
    then have ok: "admit b req = (Ok r, snd (admit b req))" by (metis prod.collapse)
    have "next_incarnation (snd (admit b req)) = next_incarnation b + 1"
      using admit_Ok(9) [OF ok] by simp
    moreover have "next_incarnation b \<le> next_incarnation b + 1"
      using admit_Ok(7) [OF ok] by (simp add: word_le_nat_alt unat_Suc_word)
    ultimately show ?thesis by (simp add: Admit)
  qed (use Admit admit_Err [of b req] in auto)
qed (auto simp: op_defs Let_def split: option.splits)

lemma issued_ge: "i \<in> set (issued ops b) \<Longrightarrow> next_incarnation b \<le> incarnation_raw i"
proof (induction ops arbitrary: b)
  case (Cons op ops)
  have later: "i \<in> set (issued ops (snd (book_apply op b))) \<Longrightarrow> next_incarnation b \<le> incarnation_raw i"
    by (rule order.trans [OF next_incarnation_mono Cons.IH])
  show ?case
  proof (cases "\<exists>req r. op = Admit req \<and> fst (admit b req) = Ok r \<and> i = incarnation r")
    case True
    then obtain req r where "admit b req = (Ok r, snd (admit b req))" "i = incarnation r"
      by (metis prod.collapse)
    then show ?thesis using admit_Ok(8) by fastforce
  next
    case False
    with Cons.prems have "i \<in> set (issued ops (snd (book_apply op b)))"
      by (cases op) (auto simp: Let_def split: outcome.splits)
    then show ?thesis by (rule later)
  qed
qed simp

text \<open>Incarnation identities are never reused: over any sequence of operations the
  identities that \<open>admit\<close> hands out are strictly increasing.\<close>

theorem incarnation_ids_never_reused:
  "sorted_wrt (<) (issued ops b)"
proof (induction ops arbitrary: b)
  case (Cons op ops)
  show ?case
  proof (cases "\<exists>req r. op = Admit req \<and> fst (admit b req) = Ok r")
    case True
    then obtain req r where op: "op = Admit req" "fst (admit b req) = Ok r" by blast
    then have ok: "admit b req = (Ok r, snd (admit b req))" by (metis prod.collapse)
    have "incarnation r < j" if "j \<in> set (issued ops (snd (admit b req)))" for j
    proof -
      have "next_incarnation b + 1 \<le> incarnation_raw j"
        using issued_ge [OF that] admit_Ok(9) [OF ok] by simp
      moreover have "next_incarnation b < next_incarnation b + 1"
        using admit_Ok(7) [OF ok] by (simp add: word_less_nat_alt unat_Suc_word)
      ultimately show ?thesis
        using admit_Ok(8) [OF ok] by (simp add: less_incarnation_id_def)
    qed
    then show ?thesis using op Cons.IH by (simp add: Let_def)
  next
    case False
    then have "issued (op # ops) b = issued ops (snd (book_apply op b))"
      by (cases op) (auto simp: Let_def split: outcome.splits)
    then show ?thesis using Cons.IH by simp
  qed
qed simp

end
