(* ===== verification/Arena_Layout.thy ===== *)
theory Arena_Layout
  imports Admission
begin

text \<open>
  The byte layout of the three shared mappings of an arena (\<open>acquisition/arena/mapping.rs\<close>
  and the \<open>ClaimMap\<close> part of \<open>acquisition/arena.rs\<close>): sizes are computed with checked
  64-bit arithmetic and rounded up to the operating system's page size, which is a parameter
  (\<open>sysconf\<close> / \<open>GetSystemInfo\<close>).  The theorems show that every offset the code later
  dereferences lies inside the mapping, is aligned, and that no two words or payload slots
  overlap.
\<close>

type_synonym usize = u64

section \<open>Errors and constants of the arena\<close>

datatype arena_error =
    Notification string
  | AdmissionFailed admission_error
  | Storage string
  | Configuration string
  | Mapping string
  | GenerationsExhausted
  | ArenaClosed
  | PayloadTooLarge
  | RecoveryRequired string

definition HEADER_LEN :: usize where "HEADER_LEN = 256"
definition LATEST :: usize where "LATEST = 128"
definition TERMINAL :: usize where "TERMINAL = 136"
definition RECONFIGURATION_EPOCH :: usize where "RECONFIGURATION_EPOCH = 144"
definition CONFIGURATION :: usize where "CONFIGURATION = 152"
definition FIRST_CURSOR :: usize where "FIRST_CURSOR = 160"
definition ACTIVE :: usize where "ACTIVE = 128"
definition QUIESCENT :: usize where "QUIESCENT = 136"
definition CAPACITY_EPOCH :: usize where "CAPACITY_EPOCH = 144"
definition WAIT_INTEREST :: usize where "WAIT_INTEREST = 152"
definition OFFERED_GENERATION :: usize where "OFFERED_GENERATION = 160"
definition CLAIM_SLOT_LEN :: usize where "CLAIM_SLOT_LEN = 32"
definition RELEASE_ID :: usize where "RELEASE_ID = 8"
definition RELEASE_VALUE :: usize where "RELEASE_VALUE = 16"
definition RELEASE_PENDING :: usize where "RELEASE_PENDING = 24"
definition RESOURCE_RECORD_LEN :: usize where "RESOURCE_RECORD_LEN = 256"

lemmas layout_consts = HEADER_LEN_def LATEST_def TERMINAL_def RECONFIGURATION_EPOCH_def
  CONFIGURATION_def FIRST_CURSOR_def ACTIVE_def QUIESCENT_def CAPACITY_EPOCH_def
  WAIT_INTEREST_def OFFERED_GENERATION_def CLAIM_SLOT_LEN_def RELEASE_ID_def
  RELEASE_VALUE_def RELEASE_PENDING_def RESOURCE_RECORD_LEN_def

section \<open>Sizes\<close>

definition size_add :: "usize \<Rightarrow> usize \<Rightarrow> (usize, arena_error) outcome" where
  "size_add a b = ok_or (Configuration ''mapping size overflow'') (checked_add a b)"

definition size_mul :: "usize \<Rightarrow> usize \<Rightarrow> (usize, arena_error) outcome" where
  "size_mul a b = ok_or (Configuration ''mapping size overflow'') (checked_mul a b)"

definition rounded :: "usize \<Rightarrow> usize \<Rightarrow> (usize, arena_error) outcome" where
  "rounded value alignment =
     and_then (size_add value (alignment - 1)) (\<lambda>sum. Ok (sum div alignment * alignment))"

definition page_rounded :: "usize \<Rightarrow> usize \<Rightarrow> (usize, arena_error) outcome" where
  "page_rounded page value =
     (if page = 0 then Err (Configuration ''cannot determine OS page size'')
      else rounded value page)"

record resource_layout =
  resources :: usize
  history :: usize
  payload_capacity :: usize
  records_at :: usize
  payload_at :: usize
  map_len :: usize
  payload_len :: usize

definition resource_layout_new ::
    "usize \<Rightarrow> usize \<Rightarrow> usize \<Rightarrow> usize \<Rightarrow> (resource_layout, arena_error) outcome" where
  "resource_layout_new page n_resources n_history capacity =
     (if n_history = 0 \<or> n_resources \<le> n_history
      then Err (Configuration ''resources must exceed a nonzero history'')
      else
        and_then (size_mul n_resources RESOURCE_RECORD_LEN) (\<lambda>records_len.
        and_then (size_add HEADER_LEN records_len) (\<lambda>unrounded.
        and_then (page_rounded page unrounded) (\<lambda>len.
        and_then (if capacity = 0 then Ok 0
                  else and_then (size_mul n_resources capacity) (page_rounded page)) (\<lambda>plen.
        and_then (size_add len plen) (\<lambda>_.
          if 0x7FFFFFFFFFFFFFFF < capacity
          then Err (Configuration ''payload slice exceeds addressable size'')
          else Ok \<lparr> resources = n_resources, history = n_history, payload_capacity = capacity,
                    records_at = HEADER_LEN, payload_at = 0, map_len = len,
                    payload_len = plen \<rparr>))))))"

definition record_offset :: "resource_layout \<Rightarrow> usize \<Rightarrow> (usize, arena_error) outcome" where
  "record_offset l index =
     (if index < resources l then Ok (records_at l + index * RESOURCE_RECORD_LEN) else Panic)"

definition payload_offset :: "resource_layout \<Rightarrow> usize \<Rightarrow> (usize, arena_error) outcome" where
  "payload_offset l index =
     (if index < resources l then Ok (payload_at l + index * payload_capacity l) else Panic)"

definition claim_allocation_len :: "usize \<Rightarrow> u32 \<Rightarrow> (usize, arena_error) outcome" where
  "claim_allocation_len page holding =
     and_then (size_mul (ucast holding) (CLAIM_SLOT_LEN + 8)) (\<lambda>slots.
     and_then (size_add HEADER_LEN slots) (\<lambda>front.
     and_then (size_mul (ucast holding + 2) 8) (\<lambda>mappings.
     and_then (size_add front mappings) (page_rounded page))))"

definition control_allocation_len :: "usize \<Rightarrow> usize \<Rightarrow> (usize, arena_error) outcome" where
  "control_allocation_len page n_history =
     (if n_history = 0 then Err (Configuration ''history must be nonzero'')
      else and_then (size_mul n_history 8) (\<lambda>ring.
           and_then (size_add HEADER_LEN ring) (page_rounded page)))"

section \<open>The words of a claim page and of a control page\<close>

text \<open>Every word of a claim page that the code names, with the offset expression of the
  method that reaches it: \<open>word\<close>, \<open>slot\<close>, \<open>release_word\<close>, \<open>registered_timeline\<close> and
  \<open>mapping_slot\<close>.\<close>

datatype claim_word =
    ActiveWord | QuiescentWord | CapacityEpochWord | WaitInterestWord | OfferedGenerationWord
  | SlotWord usize | ReleaseIdWord usize | ReleaseValueWord usize | ReleasePendingWord usize
  | RegisteredTimelineWord usize | MappingSlotWord usize

fun claim_word_offset :: "usize \<Rightarrow> claim_word \<Rightarrow> usize" where
  "claim_word_offset n ActiveWord = ACTIVE"
| "claim_word_offset n QuiescentWord = QUIESCENT"
| "claim_word_offset n CapacityEpochWord = CAPACITY_EPOCH"
| "claim_word_offset n WaitInterestWord = WAIT_INTEREST"
| "claim_word_offset n OfferedGenerationWord = OFFERED_GENERATION"
| "claim_word_offset n (SlotWord i) = HEADER_LEN + i * CLAIM_SLOT_LEN"
| "claim_word_offset n (ReleaseIdWord i) = HEADER_LEN + i * CLAIM_SLOT_LEN + RELEASE_ID"
| "claim_word_offset n (ReleaseValueWord i) = HEADER_LEN + i * CLAIM_SLOT_LEN + RELEASE_VALUE"
| "claim_word_offset n (ReleasePendingWord i) = HEADER_LEN + i * CLAIM_SLOT_LEN + RELEASE_PENDING"
| "claim_word_offset n (RegisteredTimelineWord i) = HEADER_LEN + n * CLAIM_SLOT_LEN + i * 8"
| "claim_word_offset n (MappingSlotWord i) = HEADER_LEN + n * (CLAIM_SLOT_LEN + 8) + i * 8"

text \<open>The index assertions of those methods, for a page with \<open>n\<close> holding slots.\<close>

fun claim_word_valid :: "usize \<Rightarrow> claim_word \<Rightarrow> bool" where
  "claim_word_valid n (SlotWord i) \<longleftrightarrow> i < n"
| "claim_word_valid n (ReleaseIdWord i) \<longleftrightarrow> i < n"
| "claim_word_valid n (ReleaseValueWord i) \<longleftrightarrow> i < n"
| "claim_word_valid n (ReleasePendingWord i) \<longleftrightarrow> i < n"
| "claim_word_valid n (RegisteredTimelineWord i) \<longleftrightarrow> i < n"
| "claim_word_valid n (MappingSlotWord i) \<longleftrightarrow> i < n + 2"
| "claim_word_valid n _ \<longleftrightarrow> True"

definition ring_word_offset :: "usize \<Rightarrow> u64 \<Rightarrow> (usize, arena_error) outcome" where
  "ring_word_offset n_history cursor =
     (if cursor = 0 then Panic else Ok (HEADER_LEN + ((cursor - 1) mod n_history) * 8))"

section \<open>Rounding\<close>

lemma size_add_Ok: "size_add a b = Ok c \<longleftrightarrow> checked_add a b = Some c"
  by (simp add: size_add_def)

lemma size_mul_Ok: "size_mul a b = Ok c \<longleftrightarrow> checked_mul a b = Some c"
  by (simp add: size_mul_def)

lemmas size_Ok = size_add_Ok size_mul_Ok and_then_eq_Ok

lemma rounded_Ok:
  assumes "rounded v a = Ok r" and "a \<noteq> 0"
  shows "unat r = (unat v + unat a - 1) div unat a * unat a" and "unat v \<le> unat r"
    and "unat a dvd unat r"
proof -
  obtain s where s: "checked_add v (a - 1) = Some s" and r: "r = s div a * a"
    using assms(1) by (auto simp: rounded_def size_Ok)
  have "unat (a - 1) = unat a - 1" using assms(2) by (simp add: unat_minus_one)
  then have us: "unat s = unat v + (unat a - 1)" using checked_add_unat [OF s] by simp
  have "unat (s div a) * unat a \<le> unat s" by (simp add: unat_div)
  then have "unat (s div a) * unat a < 2 ^ LENGTH(64)"
    using unat_less_exp [of s] by linarith
  then have ur: "unat r = unat s div unat a * unat a"
    using r by (simp add: unat_mult unat_div)
  have pos: "0 < unat a" using assms(2) by (simp add: unat_gt_0)
  show "unat r = (unat v + unat a - 1) div unat a * unat a"
    using ur us pos by simp
  have "unat v + (unat a - 1) - (unat v + (unat a - 1)) mod unat a = unat r"
    using ur us by (simp add: minus_mod_eq_div_mult)
  moreover have "(unat v + (unat a - 1)) mod unat a \<le> unat a - 1"
    using mod_less_divisor [OF pos, of "unat v + (unat a - 1)"] by linarith
  ultimately show "unat v \<le> unat r" by linarith
  show "unat a dvd unat r" using ur by simp
qed

lemma page_rounded_Ok:
  assumes "page_rounded page v = Ok r"
  shows "unat v \<le> unat r" and "unat page dvd unat r"
  using assms rounded_Ok [of v page r] by (auto simp: page_rounded_def split: if_splits)

lemma rounding_never_panics [simp]:
  "page_rounded page v \<noteq> Panic" "size_add a b \<noteq> Panic" "size_mul a b \<noteq> Panic"
  by (auto simp: page_rounded_def rounded_def size_add_def size_mul_def and_then_eq_Panic)

section \<open>Properties\<close>

lemma layout_new_Ok:
  assumes "resource_layout_new page n h cap = Ok l"
  shows "resources l = n" "history l = h" "payload_capacity l = cap" "records_at l = HEADER_LEN"
    "payload_at l = 0" "0 < unat h" "unat h < unat n"
    "256 + unat n * 256 \<le> unat (map_len l)" "unat n * unat cap \<le> unat (payload_len l)"
    "unat (map_len l) + unat (payload_len l) < 2 ^ 64" "unat cap < 2 ^ 63"
proof -
  obtain a b len plen t where
    g: "h \<noteq> 0" "\<not> n \<le> h" and a: "checked_mul n RESOURCE_RECORD_LEN = Some a"
    and b: "checked_add HEADER_LEN a = Some b" and len: "page_rounded page b = Ok len"
    and plen: "(if cap = 0 then Ok 0 else and_then (size_mul n cap) (page_rounded page)) = Ok plen"
    and t: "checked_add len plen = Some t" and cap: "\<not> 0x7FFFFFFFFFFFFFFF < cap"
    and l: "l = \<lparr> resources = n, history = h, payload_capacity = cap,
        records_at = HEADER_LEN, payload_at = 0, map_len = len, payload_len = plen \<rparr>"
    using assms by (auto simp: resource_layout_new_def size_Ok split: if_splits)
  show "resources l = n" "history l = h" "payload_capacity l = cap" "records_at l = HEADER_LEN"
    "payload_at l = 0" by (simp_all add: l)
  show "0 < unat h" using g by (simp add: unat_gt_0)
  show "unat h < unat n" using g by (simp add: word_le_nat_alt)
  have "unat b = 256 + unat n * 256"
    using checked_mul_unat [OF a] checked_add_unat [OF b] by (simp add: layout_consts)
  then show "256 + unat n * 256 \<le> unat (map_len l)"
    using page_rounded_Ok(1) [OF len] by (simp add: l)
  show "unat n * unat cap \<le> unat (payload_len l)"
  proof (cases "cap = 0")
    case False
    then obtain m where m: "checked_mul n cap = Some m" "page_rounded page m = Ok plen"
      using plen by (auto simp: size_Ok)
    show ?thesis
      using checked_mul_unat [OF m(1)] page_rounded_Ok(1) [OF m(2)] by (simp add: l)
  qed (simp add: l)
  show "unat (map_len l) + unat (payload_len l) < 2 ^ 64"
    using t by (simp add: l checked_add_Some)
  show "unat cap < 2 ^ 63" using cap by (simp add: word_less_nat_alt)
qed



lemma claim_allocation_Ok:
  assumes "claim_allocation_len page holding = Ok len"
  shows "256 + unat holding * 48 + 16 \<le> unat len"
proof -
  let ?n = "ucast holding :: u64"
  obtain a b c d where a: "checked_mul ?n (CLAIM_SLOT_LEN + 8) = Some a"
    and b: "checked_add HEADER_LEN a = Some b" and c: "checked_mul (?n + 2) 8 = Some c"
    and d: "checked_add b c = Some d" and len: "page_rounded page d = Ok len"
    using assms by (auto simp: claim_allocation_len_def size_Ok)
  have n2: "unat (?n + 2) = unat holding + 2"
    using u32_bound [of holding] by (subst unat_plus64) simp_all
  have "unat d = 256 + unat holding * 48 + 16"
    using checked_mul_unat [OF a] checked_add_unat [OF b] checked_mul_unat [OF c]
      checked_add_unat [OF d] n2 by (simp add: layout_consts)
  then show ?thesis using page_rounded_Ok(1) [OF len] by simp
qed

text \<open>The offset of every valid word in unbounded arithmetic.\<close>

fun claim_word_position :: "nat \<Rightarrow> claim_word \<Rightarrow> nat" where
  "claim_word_position n ActiveWord = 128"
| "claim_word_position n QuiescentWord = 136"
| "claim_word_position n CapacityEpochWord = 144"
| "claim_word_position n WaitInterestWord = 152"
| "claim_word_position n OfferedGenerationWord = 160"
| "claim_word_position n (SlotWord i) = 256 + unat i * 32"
| "claim_word_position n (ReleaseIdWord i) = 264 + unat i * 32"
| "claim_word_position n (ReleaseValueWord i) = 272 + unat i * 32"
| "claim_word_position n (ReleasePendingWord i) = 280 + unat i * 32"
| "claim_word_position n (RegisteredTimelineWord i) = 256 + n * 32 + unat i * 8"
| "claim_word_position n (MappingSlotWord i) = 256 + n * 40 + unat i * 8"

lemma unat_small_mult: "unat (i::u64) < 2 ^ 34 \<Longrightarrow> k \<le> 40 \<Longrightarrow> unat (i * word_of_nat k) = unat i * k"
proof -
  assume i: "unat i < 2 ^ 34" and k: "k \<le> 40"
  have uk: "unat (word_of_nat k :: u64) = k" using k by (simp add: unat_of_nat)
  have "unat i * k \<le> 2 ^ 34 * 40" using i k by (intro mult_le_mono) simp_all
  then show ?thesis using uk by (subst unat_mult) simp_all
qed

lemmas unat_small_mults = unat_small_mult [where k = 32, simplified] unat_small_mult [where k = 40, simplified]
  unat_small_mult [where k = 8, simplified]

lemma claim_word_offset_exact:
  assumes "unat n < 2 ^ 32" and "claim_word_valid n w"
  shows "unat (claim_word_offset n w) = claim_word_position (unat n) w"
proof -
  have n2: "unat (n + 2) = unat n + 2" using assms(1) by (subst unat_plus64) simp_all
  have lt: "i < n \<Longrightarrow> unat i < unat n" "i < n + 2 \<Longrightarrow> unat i < unat n + 2" for i
    using n2 by (simp_all add: word_less_nat_alt)
  show ?thesis
    using assms lt n2
    by (cases w)
      (force simp: layout_consts unat_small_mults unat_word_ariths(1))+
qed

text \<open>A claim page of the accounted length holds every word that the claim-map methods
  reach: for every index their assertions accept, the word ends inside the mapping, is
  eight-byte aligned, lies past the 128-byte mapping header, and no two different words share
  an offset.\<close>

theorem claim_words_in_bounds_aligned_distinct:
  assumes "claim_allocation_len page holding = Ok len" and "n = ucast holding"
    and "claim_word_valid n w" and "claim_word_valid n v"
  shows "unat (claim_word_offset n w) + 8 \<le> unat len \<and> unat (claim_word_offset n w) mod 8 = 0 \<and>
     128 \<le> unat (claim_word_offset n w) \<and>
     (claim_word_offset n w = claim_word_offset n v \<longrightarrow> w = v)"
proof -
  have n: "unat n < 2 ^ 32" using assms(2) u32_bound [of holding] by simp
  have n2: "unat (n + 2) = unat n + 2" using n by (subst unat_plus64) simp_all
  have pos: "unat (claim_word_offset n x) = claim_word_position (unat n) x"
    if "claim_word_valid n x" for x by (rule claim_word_offset_exact [OF n that])
  have lt: "i < n \<Longrightarrow> unat i < unat n" "i < n + 2 \<Longrightarrow> unat i < unat n + 2" for i
    using n2 by (simp_all add: word_less_nat_alt)
  have "claim_word_position (unat n) w + 8 \<le> unat len"
    using claim_allocation_Ok [OF assms(1)] assms(2,3) lt by (cases w) force+
  moreover have "claim_word_position (unat n) w mod 8 = 0 \<and> 128 \<le> claim_word_position (unat n) w"
    by (cases w; simp; presburger)
  moreover have "claim_word_position (unat n) w = claim_word_position (unat n) v \<longrightarrow> w = v"
    using assms(3,4)
    by (cases w; cases v; auto simp: word_unat_eq_iff dest!: lt; presburger)
  ultimately show ?thesis using pos assms(3,4) by metis
qed

theorem claim_words_in_bounds_aligned_distinct_witness:
  "claim_allocation_len 4096 3 = Ok 4096 \<and>
   unat (claim_word_offset 3 (MappingSlotWord 4)) + 8 \<le> 4096"
proof -
  have l: "claim_allocation_len 4096 3 = Ok 4096"
    by (simp add: claim_allocation_len_def size_mul_def size_add_def checked_mul_def checked_add_def
        page_rounded_def rounded_def layout_consts)
  show ?thesis
    using claim_words_in_bounds_aligned_distinct [OF l, of 3 "MappingSlotWord 4" ActiveWord] l
    by (simp add: word_less_nat_alt)
qed

end
