(* ===== verification/Arena_Memory.thy ===== *)
theory Arena_Memory
  imports Arena_Layout
begin

text \<open>
  The shared mappings of an arena as values: the claim page of one incarnation
  (\<open>ClaimMap\<close>), the persistent control page (\<open>ControlMap\<close>) and a replaceable resource
  allocation (\<open>ResourceMap\<close>), with the word-level methods of \<open>arena.rs\<close>, \<open>mapping.rs\<close>,
  \<open>cleanup.rs\<close>, \<open>reconfiguration.rs\<close> and \<open>wait.rs\<close> that act on one page.  Every atomic word
  is a 64-bit word of the record; a group of words at consecutive offsets is a list, whose
  offsets are the subject of \<open>Arena_Layout\<close>.  A method on \<open>&self\<close> that stores to a page is a
  function to the next page.
\<close>

section \<open>Wake channels\<close>

datatype io_error = BrokenPipe | ConnectionReset | WriteZero | UnexpectedEof | OtherIo string

text \<open>One direction of the nonblocking socket pair of \<open>wait/unix.rs\<close>: the unread bytes, the
  buffer capacity of the kernel, and what the kernel answers to a write when the channel is
  broken.\<close>

record wake =
  wake_bytes :: nat
  wake_capacity :: nat
  wake_fault :: "io_error option"

definition wake_signal :: "wake \<Rightarrow> (unit, io_error) outcome \<times> wake" where
  "wake_signal w =
     (case wake_fault w of
        Some e \<Rightarrow> (Err e, w)
      | None \<Rightarrow> (Ok (), if wake_bytes w < wake_capacity w
                      then w\<lparr> wake_bytes := wake_bytes w + 1 \<rparr> else w))"

definition receiver_drain :: "bool \<Rightarrow> wake \<Rightarrow> (unit, io_error) outcome \<times> wake" where
  "receiver_drain writer_closed w =
     (if wake_bytes w = 0 then (if writer_closed then Err UnexpectedEof else Ok (), w)
      else (Ok (), w\<lparr> wake_bytes := wake_bytes w - min 4096 (wake_bytes w) \<rparr>))"

definition DATA :: u64 where "DATA = 1"
definition CAPACITY :: u64 where "CAPACITY = 2"
definition RECONFIGURATION :: u64 where "RECONFIGURATION = 4"
definition CLOSED :: u64 where "CLOSED = 8"

lemmas interest_consts = DATA_def CAPACITY_def RECONFIGURATION_def CLOSED_def

section \<open>The claim page of an incarnation\<close>

record claim_map =
  cm_incarnation :: incarnation_id
  cm_frames :: nat
  cm_scope :: bytes
  cm_recipient_pid :: u32
  w_active :: u64
  w_quiescent :: u64
  w_capacity_epoch :: u64
  w_wait_interest :: u64
  w_offered :: u64
  slot_words :: "u64 list"
  release_ids :: "u64 list"
  release_values :: "u64 list"
  release_pendings :: "u64 list"
  registered_timelines :: "u64 list"
  mapping_slots :: "u64 list"
  cm_wake :: wake
  cm_release_wake :: wake
  cm_bell :: "nat option"

definition claim_map_new :: "incarnation_id \<Rightarrow> u32 \<Rightarrow> bytes \<Rightarrow> u32 \<Rightarrow> wake \<Rightarrow> wake \<Rightarrow> claim_map" where
  "claim_map_new inc holding scope pid wk rwk =
     (let n = unat holding in
      \<lparr> cm_incarnation = inc, cm_frames = n, cm_scope = scope, cm_recipient_pid = pid,
        w_active = 1, w_quiescent = 0, w_capacity_epoch = 0, w_wait_interest = 0, w_offered = 0,
        slot_words = replicate n 0, release_ids = replicate n 0, release_values = replicate n 0,
        release_pendings = replicate n 0, registered_timelines = replicate n 0,
        mapping_slots = replicate (n + 2) 0, cm_wake = wk, cm_release_wake = rwk,
        cm_bell = None \<rparr>)"

definition claim_contains :: "claim_map \<Rightarrow> u64 \<Rightarrow> bool" where
  "claim_contains c generation \<longleftrightarrow> list_ex (\<lambda>i. slot_words c ! i = generation) [0..<cm_frames c]"

definition has_mappings :: "claim_map \<Rightarrow> bool" where
  "has_mappings c \<longleftrightarrow> list_ex (\<lambda>i. mapping_slots c ! i \<noteq> 0) [0..<cm_frames c + 2]"

text \<open>\<open>ClaimMap::signal\<close>: ring the doorbell, then wake only a consumer that has armed the
  interest; a broken channel closes the incarnation instead of failing the producer.\<close>

definition claim_signal :: "claim_map \<Rightarrow> u64 \<Rightarrow> (unit, io_error) outcome \<times> claim_map" where
  "claim_signal c interest =
     (let c1 = (if interest AND (DATA OR RECONFIGURATION OR CLOSED) \<noteq> 0
                then c\<lparr> cm_bell := map_option Suc (cm_bell c) \<rparr> else c)
      in if w_wait_interest c1 AND interest = 0 then (Ok (), c1)
         else case wake_signal (cm_wake c1) of
           (Err e, w) \<Rightarrow>
             if e = BrokenPipe \<or> e = ConnectionReset
             then (Ok (), c1\<lparr> cm_wake := w, w_active := 0 \<rparr>)
             else (Err e, c1\<lparr> cm_wake := w \<rparr>)
         | (r, w) \<Rightarrow> (r, c1\<lparr> cm_wake := w \<rparr>))"

definition signal_release :: "claim_map \<Rightarrow> claim_map" where
  "signal_release c = c\<lparr> cm_release_wake := snd (wake_signal (cm_release_wake c)) \<rparr>"

definition claim_close :: "claim_map \<Rightarrow> claim_map" where
  "claim_close c =
     (if w_active c \<noteq> 0
      then signal_release (snd (claim_signal (c\<lparr> w_active := 0 \<rparr>) CLOSED))
      else c\<lparr> w_active := 0 \<rparr>)"

definition acknowledge_quiescent :: "claim_map \<Rightarrow> claim_map" where
  "acknowledge_quiescent c = signal_release (c\<lparr> w_quiescent := 1 \<rparr>)"

definition return_credit :: "claim_map \<Rightarrow> nat \<Rightarrow> claim_map" where
  "return_credit c i =
     (let c1 = c\<lparr> release_pendings := (release_pendings c)[i := 0] \<rparr>;
          c2 = c1\<lparr> slot_words := (slot_words c1)[i := 0] \<rparr>;
          c3 = c2\<lparr> w_capacity_epoch := w_capacity_epoch c2 + 1 \<rparr>;
          c4 = (if w_capacity_epoch c2 = - 1 then claim_close c3 else c3);
          c5 = snd (claim_signal c4 CAPACITY)
      in if w_active c5 = 0 then signal_release c5 else c5)"

definition claim_drained :: "claim_map \<Rightarrow> bool" where
  "claim_drained c \<longleftrightarrow> w_quiescent c \<noteq> 0 \<and> \<not> has_mappings c \<and>
     list_all (\<lambda>i. slot_words c ! i = 0) [0..<cm_frames c]"

section \<open>Frame descriptors\<close>

record frame_descriptor =
  fd_cursor :: u64
  fd_sequence :: u64
  fd_timestamp_ns :: u64
  fd_config_generation :: u64
  fd_pool_id :: u64
  fd_payload_offset :: u64
  fd_payload_len :: u64
  fd_modifier :: u64
  fd_fence_id :: u64
  fd_fence_value :: u64
  fd_damage_base_sequence :: u64
  fd_producer_drop_count :: u64
  fd_width :: u32
  fd_height :: u32
  fd_stride :: u32
  fd_pixel_format :: u32
  fd_slot_id :: u32
  fd_color_space :: u32
  fd_sync_kind :: u32
  fd_payload_kind :: u32
  fd_damage_kind :: u32
  fd_dropped_before_publish :: u32
  fd_flags :: u32
  fd_reserved :: u32

definition default_descriptor :: frame_descriptor where
  "default_descriptor =
     \<lparr> fd_cursor = 0, fd_sequence = 0, fd_timestamp_ns = 0, fd_config_generation = 0,
       fd_pool_id = 0, fd_payload_offset = 0, fd_payload_len = 0, fd_modifier = 0,
       fd_fence_id = 0, fd_fence_value = 0, fd_damage_base_sequence = 0,
       fd_producer_drop_count = 0, fd_width = 0, fd_height = 0, fd_stride = 0,
       fd_pixel_format = 0, fd_slot_id = 0, fd_color_space = 0, fd_sync_kind = 0,
       fd_payload_kind = 0, fd_damage_kind = 0, fd_dropped_before_publish = 0,
       fd_flags = 0, fd_reserved = 0 \<rparr>"

definition stamp :: "u64 \<Rightarrow> frame_descriptor \<Rightarrow> frame_descriptor" where
  "stamp host_time_ns d =
     (if fd_timestamp_ns d = 0 then d\<lparr> fd_timestamp_ns := host_time_ns \<rparr> else d)"

section \<open>The control page\<close>

record control_map =
  ctl_history :: usize
  ctl_scope :: bytes
  w_latest :: u64
  w_terminal :: u64
  w_reconfiguration_epoch :: u64
  w_configuration :: u64
  w_first_cursor :: u64
  ring_words :: "u64 list"

definition control_map_new :: "usize \<Rightarrow> bytes \<Rightarrow> control_map" where
  "control_map_new n_history scope =
     \<lparr> ctl_history = n_history, ctl_scope = scope, w_latest = 0, w_terminal = 0,
       w_reconfiguration_epoch = 0, w_configuration = 1, w_first_cursor = 1,
       ring_words = replicate (unat n_history) 0 \<rparr>"

definition ring_index :: "control_map \<Rightarrow> u64 \<Rightarrow> nat" where
  "ring_index ctl cur = unat ((cur - 1) mod ctl_history ctl)"

definition ring_store :: "control_map \<Rightarrow> u64 \<Rightarrow> u64 \<Rightarrow> control_map" where
  "ring_store ctl cur v = ctl\<lparr> ring_words := (ring_words ctl)[ring_index ctl cur := v] \<rparr>"

definition ring_load :: "control_map \<Rightarrow> u64 \<Rightarrow> u64" where
  "ring_load ctl cur = ring_words ctl ! ring_index ctl cur"

section \<open>A resource allocation\<close>

text \<open>\<open>rm_owners\<close> counts the clones of the \<open>Arc\<close> that CPU reservations and writer exports hold
  beside the producer's own reference, so \<open>Arc::strong_count\<close> is one more.\<close>

record resource_map =
  rm_layout :: resource_layout
  rm_generation :: u64
  rm_states :: "u64 list"
  rm_descriptors :: "frame_descriptor list"
  rm_payload :: bytes
  rm_reserved :: "bool list"
  rm_owners :: nat

definition resource_map_new :: "resource_layout \<Rightarrow> u64 \<Rightarrow> resource_map" where
  "resource_map_new l generation =
     (let n = unat (resources l) in
      \<lparr> rm_layout = l, rm_generation = generation, rm_states = replicate n 0,
        rm_descriptors = replicate n default_descriptor,
        rm_payload = replicate (unat (payload_len l)) 0,
        rm_reserved = replicate n False, rm_owners = 0 \<rparr>)"

definition write_at :: "nat \<Rightarrow> bytes \<Rightarrow> bytes \<Rightarrow> bytes" where
  "write_at off bs mem = take off mem @ bs @ drop (off + length bs) mem"

definition read_at :: "nat \<Rightarrow> nat \<Rightarrow> bytes \<Rightarrow> bytes" where
  "read_at off n mem = take n (drop off mem)"

definition payload_at_slot :: "resource_layout \<Rightarrow> nat \<Rightarrow> usize" where
  "payload_at_slot l i = payload_at l + of_nat i * payload_capacity l"

section \<open>The state word of a slot\<close>

text \<open>A slot's state word carries the generation (the publication cursor) in its upper 63 bits
  and, in bit zero, whether it may be acquired.\<close>

definition MAX_GENERATION :: u64 where "MAX_GENERATION = 0x7FFFFFFFFFFFFFFF"

definition state_generation :: "u64 \<Rightarrow> u64" where "state_generation s = drop_bit 1 s"
definition state_live :: "u64 \<Rightarrow> u64" where "state_live cur = push_bit 1 cur OR 1"
definition state_retired :: "u64 \<Rightarrow> u64" where "state_retired g = push_bit 1 g"
definition state_cleared :: "u64 \<Rightarrow> u64" where "state_cleared s = s AND NOT 1"

section \<open>What the page methods touch\<close>

text \<open>Signalling and closing touch only the liveness word, the wake channels and the bell.\<close>

lemma claim_signal_frame [simp]:
  "cm_incarnation (snd (claim_signal c k)) = cm_incarnation c"
  "cm_frames (snd (claim_signal c k)) = cm_frames c"
  "cm_scope (snd (claim_signal c k)) = cm_scope c"
  "cm_recipient_pid (snd (claim_signal c k)) = cm_recipient_pid c"
  "w_quiescent (snd (claim_signal c k)) = w_quiescent c"
  "w_capacity_epoch (snd (claim_signal c k)) = w_capacity_epoch c"
  "w_wait_interest (snd (claim_signal c k)) = w_wait_interest c"
  "w_offered (snd (claim_signal c k)) = w_offered c"
  "slot_words (snd (claim_signal c k)) = slot_words c"
  "release_ids (snd (claim_signal c k)) = release_ids c"
  "release_values (snd (claim_signal c k)) = release_values c"
  "release_pendings (snd (claim_signal c k)) = release_pendings c"
  "registered_timelines (snd (claim_signal c k)) = registered_timelines c"
  "mapping_slots (snd (claim_signal c k)) = mapping_slots c"
  by (simp_all add: claim_signal_def Let_def split: prod.splits outcome.splits)

lemma signal_release_frame [simp]:
  "cm_incarnation (signal_release c) = cm_incarnation c"
  "cm_frames (signal_release c) = cm_frames c"
  "cm_scope (signal_release c) = cm_scope c"
  "cm_recipient_pid (signal_release c) = cm_recipient_pid c"
  "w_quiescent (signal_release c) = w_quiescent c"
  "w_capacity_epoch (signal_release c) = w_capacity_epoch c"
  "w_wait_interest (signal_release c) = w_wait_interest c"
  "w_offered (signal_release c) = w_offered c"
  "slot_words (signal_release c) = slot_words c"
  "release_ids (signal_release c) = release_ids c"
  "release_values (signal_release c) = release_values c"
  "release_pendings (signal_release c) = release_pendings c"
  "registered_timelines (signal_release c) = registered_timelines c"
  "mapping_slots (signal_release c) = mapping_slots c"
  "w_active (signal_release c) = w_active c"
  "cm_wake (signal_release c) = cm_wake c"
  "cm_bell (signal_release c) = cm_bell c"
  by (simp_all add: signal_release_def)

lemma claim_close_frame [simp]:
  "cm_incarnation (claim_close c) = cm_incarnation c"
  "cm_frames (claim_close c) = cm_frames c"
  "cm_scope (claim_close c) = cm_scope c"
  "cm_recipient_pid (claim_close c) = cm_recipient_pid c"
  "w_quiescent (claim_close c) = w_quiescent c"
  "w_capacity_epoch (claim_close c) = w_capacity_epoch c"
  "w_wait_interest (claim_close c) = w_wait_interest c"
  "w_offered (claim_close c) = w_offered c"
  "slot_words (claim_close c) = slot_words c"
  "release_ids (claim_close c) = release_ids c"
  "release_values (claim_close c) = release_values c"
  "release_pendings (claim_close c) = release_pendings c"
  "registered_timelines (claim_close c) = registered_timelines c"
  "mapping_slots (claim_close c) = mapping_slots c"
  by (simp_all add: claim_close_def)

lemma acknowledge_frame [simp]:
  "cm_incarnation (acknowledge_quiescent c) = cm_incarnation c"
  "cm_frames (acknowledge_quiescent c) = cm_frames c"
  "cm_scope (acknowledge_quiescent c) = cm_scope c"
  "cm_recipient_pid (acknowledge_quiescent c) = cm_recipient_pid c"
  "w_capacity_epoch (acknowledge_quiescent c) = w_capacity_epoch c"
  "w_wait_interest (acknowledge_quiescent c) = w_wait_interest c"
  "w_offered (acknowledge_quiescent c) = w_offered c"
  "slot_words (acknowledge_quiescent c) = slot_words c"
  "release_ids (acknowledge_quiescent c) = release_ids c"
  "release_values (acknowledge_quiescent c) = release_values c"
  "release_pendings (acknowledge_quiescent c) = release_pendings c"
  "registered_timelines (acknowledge_quiescent c) = registered_timelines c"
  "mapping_slots (acknowledge_quiescent c) = mapping_slots c"
  "w_active (acknowledge_quiescent c) = w_active c"
  by (simp_all add: acknowledge_quiescent_def)

lemma claim_close_inactive [simp]: "w_active (claim_close c) = 0"
  by (simp add: claim_close_def claim_signal_def Let_def split: prod.splits outcome.splits)

lemma acknowledge_sets_quiescent [simp]: "w_quiescent (acknowledge_quiescent c) = 1"
  by (simp add: acknowledge_quiescent_def)

lemma claim_signal_active: "w_active (snd (claim_signal c k)) \<in> {w_active c, 0}"
  by (simp add: claim_signal_def Let_def split: prod.splits outcome.splits)

lemma return_credit_frame [simp]:
  "cm_incarnation (return_credit c i) = cm_incarnation c"
  "cm_frames (return_credit c i) = cm_frames c"
  "cm_scope (return_credit c i) = cm_scope c"
  "cm_recipient_pid (return_credit c i) = cm_recipient_pid c"
  "w_quiescent (return_credit c i) = w_quiescent c"
  "w_wait_interest (return_credit c i) = w_wait_interest c"
  "w_offered (return_credit c i) = w_offered c"
  "release_ids (return_credit c i) = release_ids c"
  "release_values (return_credit c i) = release_values c"
  "registered_timelines (return_credit c i) = registered_timelines c"
  "mapping_slots (return_credit c i) = mapping_slots c"
  by (simp_all add: return_credit_def Let_def)

lemma return_credit_words [simp]:
  "slot_words (return_credit c i) = (slot_words c)[i := 0]"
  "release_pendings (return_credit c i) = (release_pendings c)[i := 0]"
  "w_capacity_epoch (return_credit c i) = w_capacity_epoch c + 1"
  by (simp_all add: return_credit_def Let_def)

lemma return_credit_active: "w_active (return_credit c i) \<in> {w_active c, 0}"
proof -
  let ?c2 = "c\<lparr> release_pendings := (release_pendings c)[i := 0], slot_words := (slot_words c)[i := 0] \<rparr>"
  let ?c3 = "?c2\<lparr> w_capacity_epoch := w_capacity_epoch c + 1 \<rparr>"
  let ?c4 = "if w_capacity_epoch c = - 1 then claim_close ?c3 else ?c3"
  have "w_active ?c4 \<in> {w_active c, 0}" by simp
  moreover have "w_active (return_credit c i) = w_active (snd (claim_signal ?c4 CAPACITY))"
    by (simp add: return_credit_def Let_def)
  ultimately show ?thesis using claim_signal_active [of ?c4 CAPACITY] by auto
qed

section \<open>Well-formed pages\<close>

definition claim_wf :: "claim_map \<Rightarrow> bool" where
  "claim_wf c \<longleftrightarrow> length (slot_words c) = cm_frames c \<and> length (release_ids c) = cm_frames c \<and>
     length (release_values c) = cm_frames c \<and> length (release_pendings c) = cm_frames c \<and>
     length (registered_timelines c) = cm_frames c \<and> length (mapping_slots c) = cm_frames c + 2"

lemma claim_wf_new: "claim_wf (claim_map_new inc holding scope pid wk rwk)"
  by (simp add: claim_wf_def claim_map_new_def Let_def)

lemma claim_wf_keeps [simp]:
  "claim_wf (snd (claim_signal c k)) = claim_wf c"
  "claim_wf (signal_release c) = claim_wf c"
  "claim_wf (claim_close c) = claim_wf c"
  "claim_wf (acknowledge_quiescent c) = claim_wf c"
  "claim_wf (return_credit c i) = claim_wf c"
  by (simp_all add: claim_wf_def)

lemma list_ex_nth_set: "n = length xs \<Longrightarrow> list_ex (\<lambda>i. P (xs ! i)) [0..<n] \<longleftrightarrow> (\<exists>x\<in>set xs. P x)"
  by (force simp: list_ex_iff in_set_conv_nth Bex_def simp del: upt_Suc)

lemma list_all_nth_set: "n = length xs \<Longrightarrow> list_all (\<lambda>i. P (xs ! i)) [0..<n] \<longleftrightarrow> (\<forall>x\<in>set xs. P x)"
  by (auto simp: list_all_iff all_set_conv_all_nth simp del: upt_Suc)

lemma claim_contains_set: "claim_wf c \<Longrightarrow> claim_contains c g \<longleftrightarrow> g \<in> set (slot_words c)"
  unfolding claim_contains_def by (subst list_ex_nth_set) (auto simp: claim_wf_def)

lemma has_mappings_set: "claim_wf c \<Longrightarrow> has_mappings c \<longleftrightarrow> (\<exists>g\<in>set (mapping_slots c). g \<noteq> 0)"
  unfolding has_mappings_def by (subst list_ex_nth_set) (auto simp: claim_wf_def)

lemma claim_drained_set:
  "claim_wf c \<Longrightarrow> claim_drained c \<longleftrightarrow> w_quiescent c \<noteq> 0 \<and> set (mapping_slots c) \<subseteq> {0} \<and>
     set (slot_words c) \<subseteq> {0}"
  unfolding claim_drained_def
  by (subst list_all_nth_set) (auto simp: claim_wf_def has_mappings_set)

section \<open>Byte storage\<close>

lemma length_write_at [simp]: "off + length bs \<le> length mem \<Longrightarrow> length (write_at off bs mem) = length mem"
  by (simp add: write_at_def)

lemma read_write_same:
  "off + length bs \<le> length mem \<Longrightarrow> read_at off (length bs) (write_at off bs mem) = bs"
  by (simp add: read_at_def write_at_def min_absorb2)

lemma read_write_disjoint:
  assumes "off + length bs \<le> length mem" and "off' + n \<le> off \<or> off + length bs \<le> off'"
  shows "read_at off' n (write_at off bs mem) = read_at off' n mem"
proof (rule nth_equalityI)
  show "length (read_at off' n (write_at off bs mem)) = length (read_at off' n mem)"
    using assms(1) by (simp add: read_at_def)
next
  fix k assume "k < length (read_at off' n (write_at off bs mem))"
  then have k: "k < n" "off' + k < length mem" using assms(1) by (auto simp: read_at_def)
  have "write_at off bs mem ! (off' + k) = mem ! (off' + k)"
    using assms k by (auto simp: write_at_def nth_append min_def)
  then show "read_at off' n (write_at off bs mem) ! k = read_at off' n mem ! k"
    using k assms(1) by (simp add: read_at_def)
qed

section \<open>The slot state code\<close>

text \<open>The laws that the acquisition protocol uses of the state word, whatever its encoding.\<close>

locale slot_state_code =
  fixes live :: "'g \<Rightarrow> 's" and retired :: "'g \<Rightarrow> 's" and generation :: "'s \<Rightarrow> 'g"
    and valid :: "'g \<Rightarrow> bool"
  assumes generation_live: "valid g \<Longrightarrow> generation (live g) = g"
    and generation_retired: "valid g \<Longrightarrow> generation (retired g) = g"
    and live_not_retired: "live g \<noteq> retired g'"
begin

lemma live_inject: "valid g \<Longrightarrow> valid g' \<Longrightarrow> live g = live g' \<longleftrightarrow> g = g'"
  by (metis generation_live)

lemma validated_generation: "valid g \<Longrightarrow> s = live g \<Longrightarrow> generation s = g"
  by (simp add: generation_live)

lemma retired_fails_validation: "valid g \<Longrightarrow> valid g' \<Longrightarrow> retired g \<noteq> live g'"
  by (metis live_not_retired)

lemma reuse_fails_validation: "valid g \<Longrightarrow> valid g' \<Longrightarrow> g \<noteq> g' \<Longrightarrow> live g' \<noteq> live g"
  by (simp add: live_inject)

end

lemma bit_state_live: "bit (state_live g) 0"
  by (simp add: state_live_def bit_simps)

lemma bit_state_retired: "\<not> bit (state_retired g) 0"
  unfolding state_retired_def bit_push_bit_iff by simp

lemma MAX_GENERATION_mask: "MAX_GENERATION = mask 63"
  by (simp add: MAX_GENERATION_def mask_eq_exp_minus_1)

lemma generation_bound_bit: "g \<le> MAX_GENERATION \<Longrightarrow> \<not> bit g 63"
proof
  assume le: "g \<le> MAX_GENERATION" and b: "bit g 63"
  have "unat g < 2 ^ 63" using le by (simp add: word_le_nat_alt MAX_GENERATION_def)
  then have "unat g div 2 ^ 63 = 0" by simp
  then have "\<not> bit (unat g) 63" by (simp add: bit_iff_odd)
  then show False using b by (simp add: bit_unsigned_iff)
qed

lemma drop_push_generation: "g \<le> MAX_GENERATION \<Longrightarrow> drop_bit 1 (push_bit 1 g) = g"
proof (rule bit_word_eqI)
  fix n assume le: "g \<le> MAX_GENERATION" and n: "n < LENGTH(64)"
  show "bit (drop_bit 1 (push_bit 1 g)) n = bit g n"
    unfolding bit_drop_bit_eq comp_def bit_push_bit_iff
    using generation_bound_bit [OF le] n by (cases "n = 63") auto
qed

lemma state_generation_live: "g \<le> MAX_GENERATION \<Longrightarrow> state_generation (state_live g) = g"
proof -
  assume le: "g \<le> MAX_GENERATION"
  have "drop_bit 1 (push_bit 1 g OR 1) = drop_bit 1 (push_bit 1 g) OR drop_bit 1 (1 :: u64)"
    by simp
  also have "\<dots> = g" using drop_push_generation [OF le] by (simp add: drop_bit_Suc)
  finally show ?thesis by (simp add: state_generation_def state_live_def)
qed

lemma state_generation_retired: "g \<le> MAX_GENERATION \<Longrightarrow> state_generation (state_retired g) = g"
  unfolding state_generation_def state_retired_def by (rule drop_push_generation)

interpretation slot_code: slot_state_code state_live state_retired state_generation
    "\<lambda>g. g \<le> MAX_GENERATION"
  by unfold_locales
    (simp_all add: state_generation_live state_generation_retired, metis bit_state_live bit_state_retired)

lemma state_generation_zero [simp]: "state_generation 0 = 0"
  by (simp add: state_generation_def)

lemma state_retired_zero [simp]: "state_retired 0 = 0"
  by (simp add: state_retired_def)

lemma state_generation_le: "state_generation s \<le> MAX_GENERATION"
proof -
  have "unat (state_generation s) = unat s div 2"
    unfolding state_generation_def unat_drop_bit_eq by (simp add: drop_bit_Suc)
  then show ?thesis using u64_bound [of s] by (simp add: word_le_nat_alt MAX_GENERATION_def)
qed

lemma state_cleared_retired: "state_cleared s = state_retired (state_generation s)"
  unfolding state_cleared_def state_retired_def state_generation_def
  by (rule bit_word_eqI)
    (auto simp only: bit_and_iff bit_not_iff bit_push_bit_iff bit_drop_bit_eq comp_def bit_1_iff
      possible_bit_word, simp_all)

lemma bit_state_cleared [simp]: "\<not> bit (state_cleared s) 0"
  by (simp add: state_cleared_retired bit_state_retired)

lemma state_generation_cleared [simp]: "state_generation (state_cleared s) = state_generation s"
  by (simp add: state_cleared_retired state_generation_retired state_generation_le)

lemma state_generation_retired_gen [simp]: "state_generation (state_retired (state_generation s)) = state_generation s"
  by (simp add: state_generation_retired state_generation_le)

end
