(* ===== verification/Claim_Protocol.thy ===== *)
theory Claim_Protocol
  imports Arena_Memory
begin

text \<open>
  The lock-free acquisition protocol between one producer and any number of consumer threads,
  at the granularity of single sequentially consistent memory accesses.  The producer's side
  is the body of \<open>publish_prepared\<close> (\<open>arena.rs\<close>), \<open>reserve\<close>, \<open>commit\<close> and \<open>abandon\<close>
  (\<open>arena/writer.rs\<close>) and \<open>begin_reconfiguration\<close> (\<open>arena/reconfiguration.rs\<close>); the consumer's
  side is \<open>ArenaConsumer::acquire\<close> and the release paths; the cleanup observer and process exit
  are \<open>arena/cleanup.rs\<close> and \<open>arena/retirement.rs\<close>.  Each access to shared memory is one
  action, payload bytes are copied one at a time, and any thread may run between two actions.
  Ghost components record what was published under a cursor and which asynchronous uses are
  still running; no action reads them.
\<close>

section \<open>State\<close>

text \<open>A claim word is named by its page (the incarnation) and slot; storage by its allocation and
  resource index.\<close>

datatype word_id = ClaimWord (word_page: nat) (word_slot: nat)

datatype slot_id = StorageSlot (slot_alloc: nat) (slot_index: nat)

record published =
  pub_descriptor :: frame_descriptor
  pub_bytes :: bytes

datatype claim_mode = Publishing published | Reserving

datatype producer_pc =
    PIdle
  | PLoad claim_mode "slot_id list"
  | PRetire claim_mode slot_id u64 "slot_id list"
  | PScan claim_mode slot_id u64 "word_id list" "slot_id list"
  | PCopy slot_id published nat
  | PDescribe slot_id published
  | PState slot_id published
  | PRing slot_id
  | PLatest slot_id
  | PClear "slot_id list"

datatype consumer_pc =
    CIdle
  | CTry nat u64 slot_id nat
  | CClaimed word_id u64 slot_id
  | CValidated word_id u64 slot_id
  | CHolding word_id u64 slot_id frame_descriptor
  | CReleasing word_id
  | CHandoff word_id u64 slot_id u64
  | CDeferred word_id u64 slot_id u64

record proto =
  st :: "slot_id \<Rightarrow> u64"
  desc :: "slot_id \<Rightarrow> frame_descriptor"
  cell :: "slot_id \<Rightarrow> nat \<Rightarrow> u8"
  resv :: "slot_id \<Rightarrow> bool"
  ringw :: "nat \<Rightarrow> u64"
  latestw :: u64
  hist :: u64
  nslots :: nat
  wordm :: "word_id \<Rightarrow> u64"
  pendm :: "word_id \<Rightarrow> u64"
  valm :: "word_id \<Rightarrow> u64"
  tline :: "nat \<Rightarrow> u64"
  pages :: "(nat \<times> nat) list"
  next_page :: nat
  quiet :: "nat \<Rightarrow> bool"
  gone :: "nat \<Rightarrow> bool"
  async :: "nat \<Rightarrow> bool"
  opc :: "word_id option"
  pcur :: u64
  alloc :: "nat option"
  last_alloc :: nat
  ppc :: producer_pc
  cpc :: "nat \<Rightarrow> consumer_pc"
  plog :: "u64 \<Rightarrow> published option"
  gpu :: "word_id \<Rightarrow> (u64 \<times> slot_id \<times> u64) option"

definition proto_init :: "nat \<Rightarrow> u64 \<Rightarrow> proto" where
  "proto_init n h =
     \<lparr> st = (\<lambda>_. 0), desc = (\<lambda>_. default_descriptor), cell = (\<lambda>_ _. 0), resv = (\<lambda>_. False),
       ringw = (\<lambda>_. 0), latestw = 0, hist = h, nslots = n, wordm = (\<lambda>_. 0), pendm = (\<lambda>_. 0),
       valm = (\<lambda>_. 0), tline = (\<lambda>_. 0), pages = [], next_page = 1, quiet = (\<lambda>_. False),
       gone = (\<lambda>_. False), async = (\<lambda>_. False), opc = None, pcur = 0, alloc = Some 1, last_alloc = 1, ppc = PIdle,
       cpc = (\<lambda>_. CIdle), plog = (\<lambda>_. None), gpu = (\<lambda>_. None) \<rparr>"

definition all_words :: "(nat \<times> nat) list \<Rightarrow> word_id list" where
  "all_words ps = concat (map (\<lambda>(page, n). map (ClaimWord page) [0..<n]) ps)"

definition proto_oldest :: "proto \<Rightarrow> u64" where
  "proto_oldest s = max (saturating_sub (pcur s) (hist s - 1)) 1"

definition slot_order :: "nat \<Rightarrow> nat \<Rightarrow> nat \<Rightarrow> slot_id list" where
  "slot_order a n next = map (\<lambda>offset. StorageSlot a ((next + offset) mod n)) [0..<n]"

fun page_of :: "consumer_pc \<Rightarrow> nat option" where
  "page_of CIdle = None"
| "page_of (CTry page c sl k) = Some page"
| "page_of (CClaimed w c sl) = Some (word_page w)"
| "page_of (CValidated w c sl) = Some (word_page w)"
| "page_of (CHolding w c sl d) = Some (word_page w)"
| "page_of (CReleasing w) = Some (word_page w)"
| "page_of (CHandoff w c sl v) = Some (word_page w)"
| "page_of (CDeferred w c sl v) = Some (word_page w)"

text \<open>The claim word a thread owns, and the storage it may read under a validated claim.\<close>

fun owns :: "consumer_pc \<Rightarrow> word_id option" where
  "owns (CClaimed w c sl) = Some w"
| "owns (CValidated w c sl) = Some w"
| "owns (CHolding w c sl d) = Some w"
| "owns (CReleasing w) = Some w"
| "owns (CHandoff w c sl v) = Some w"
| "owns (CDeferred w c sl v) = Some w"
| "owns _ = None"

fun lease_of :: "consumer_pc \<Rightarrow> (word_id \<times> u64 \<times> slot_id) option" where
  "lease_of (CValidated w c sl) = Some (w, c, sl)"
| "lease_of (CHolding w c sl d) = Some (w, c, sl)"
| "lease_of (CHandoff w c sl v) = Some (w, c, sl)"
| "lease_of (CDeferred w c sl v) = Some (w, c, sl)"
| "lease_of _ = None"

fun user_of :: "consumer_pc \<Rightarrow> (word_id \<times> u64 \<times> slot_id) option" where
  "user_of (CHolding w c sl d) = Some (w, c, sl)"
| "user_of (CHandoff w c sl v) = Some (w, c, sl)"
| "user_of (CDeferred w c sl v) = Some (w, c, sl)"
| "user_of _ = None"

section \<open>The producer\<close>

datatype producer_action =
    BeginPublish published nat
  | BeginReserve nat
  | Examine
  | RetireStore
  | ScanWord
  | Decline
  | CopyByte
  | WriteDescriptor
  | StoreState
  | StoreRing
  | StoreLatest
  | Commit slot_id frame_descriptor nat
  | Abandon slot_id
  | DelegateWrite slot_id nat u8
  | BeginReconfigure
  | ClearSlot
  | Install
  | Attach nat
  | Detach nat

text \<open>Storage found free: a publication copies into it, a reservation marks it.\<close>

definition claim_free :: "claim_mode \<Rightarrow> slot_id \<Rightarrow> proto \<Rightarrow> proto" where
  "claim_free m sl s =
     (case m of
        Publishing f \<Rightarrow> s\<lparr> ppc := PCopy sl f 0 \<rparr>
      | Reserving \<Rightarrow> s\<lparr> resv := (resv s)(sl := True), ppc := PIdle \<rparr>)"

text \<open>The slot a running commit has taken from its reservation: its delegate has finished.\<close>

fun committing :: "producer_pc \<Rightarrow> slot_id option" where
  "committing (PDescribe sl f) = Some sl"
| "committing (PState sl f) = Some sl"
| "committing (PRing sl) = Some sl"
| "committing (PLatest sl) = Some sl"
| "committing _ = None"

definition with_cursor :: "u64 \<Rightarrow> published \<Rightarrow> published" where
  "with_cursor c f = f\<lparr> pub_descriptor := (pub_descriptor f)\<lparr> fd_cursor := c \<rparr> \<rparr>"

fun producer_step :: "producer_action \<Rightarrow> proto \<Rightarrow> proto option" where
  "producer_step (BeginPublish f next) s =
     (case (ppc s, alloc s) of
        (PIdle, Some a) \<Rightarrow>
          if pcur s = MAX_GENERATION then None
          else Some (s\<lparr> ppc := PLoad (Publishing f) (slot_order a (nslots s) next) \<rparr>)
      | _ \<Rightarrow> None)"
| "producer_step (BeginReserve next) s =
     (case (ppc s, alloc s) of
        (PIdle, Some a) \<Rightarrow>
          if pcur s = MAX_GENERATION then None
          else Some (s\<lparr> ppc := PLoad Reserving (slot_order a (nslots s) next) \<rparr>)
      | _ \<Rightarrow> None)"
| "producer_step Examine s =
     (case ppc s of
        PLoad m [] \<Rightarrow> Some (s\<lparr> ppc := PIdle \<rparr>)
      | PLoad m (sl # rest) \<Rightarrow>
          if resv s sl then Some (s\<lparr> ppc := PLoad m rest \<rparr>)
          else let g = state_generation (st s sl) in
            if g \<noteq> 0 \<and> proto_oldest s \<le> g then Some (s\<lparr> ppc := PLoad m rest \<rparr>)
            else Some (s\<lparr> ppc := PRetire m sl g rest \<rparr>)
      | _ \<Rightarrow> None)"
| "producer_step RetireStore s =
     (case ppc s of
        PRetire m sl g rest \<Rightarrow>
          let s' = s\<lparr> st := (st s)(sl := state_retired g) \<rparr> in
          Some (s'\<lparr> ppc := PScan m sl g (if g = 0 then [] else all_words (pages s)) rest \<rparr>)
      | _ \<Rightarrow> None)"
| "producer_step ScanWord s =
     (case ppc s of
        PScan m sl g [] rest \<Rightarrow> Some (claim_free m sl s)
      | PScan m sl g (w # ws) rest \<Rightarrow>
          if wordm s w = g then Some (s\<lparr> ppc := PLoad m rest \<rparr>)
          else Some (s\<lparr> ppc := PScan m sl g ws rest \<rparr>)
      | _ \<Rightarrow> None)"
| "producer_step Decline s =
     (case ppc s of
        PScan (Publishing f) sl g [] rest \<Rightarrow> Some (s\<lparr> ppc := PLoad (Publishing f) rest \<rparr>)
      | _ \<Rightarrow> None)"
| "producer_step CopyByte s =
     (case ppc s of
        PCopy sl f k \<Rightarrow>
          if k < length (pub_bytes f)
          then Some (s\<lparr> cell := (cell s)(sl := (cell s sl)(k := pub_bytes f ! k)), ppc := PCopy sl f (Suc k) \<rparr>)
          else Some (s\<lparr> ppc := PDescribe sl f \<rparr>)
      | _ \<Rightarrow> None)"
| "producer_step WriteDescriptor s =
     (case ppc s of
        PDescribe sl f \<Rightarrow>
          let f' = with_cursor (pcur s + 1) f in
          Some (s\<lparr> desc := (desc s)(sl := pub_descriptor f'), ppc := PState sl f' \<rparr>)
      | _ \<Rightarrow> None)"
| "producer_step StoreState s =
     (case ppc s of
        PState sl f \<Rightarrow>
          Some (s\<lparr> st := (st s)(sl := state_live (pcur s + 1)), ppc := PRing sl,
                   plog := (plog s)(pcur s + 1 := Some f) \<rparr>)
      | _ \<Rightarrow> None)"
| "producer_step StoreRing s =
     (case ppc s of
        PRing sl \<Rightarrow>
          Some (s\<lparr> ringw := (ringw s)(unat (pcur s mod hist s) := of_nat (slot_index sl) + 1), ppc := PLatest sl \<rparr>)
      | _ \<Rightarrow> None)"
| "producer_step StoreLatest s =
     (case ppc s of
        PLatest sl \<Rightarrow>
          Some (s\<lparr> latestw := pcur s + 1, pcur := pcur s + 1, resv := (resv s)(sl := False), ppc := PIdle \<rparr>)
      | _ \<Rightarrow> None)"
| "producer_step (Commit sl d len) s =
     (if ppc s = PIdle \<and> resv s sl \<and> alloc s = Some (slot_alloc sl) \<and> pcur s \<noteq> MAX_GENERATION
      then Some (s\<lparr> ppc := PDescribe sl \<lparr> pub_descriptor = d, pub_bytes = map (cell s sl) [0..<len] \<rparr> \<rparr>)
      else None)"
| "producer_step (Abandon sl) s =
     (if resv s sl \<and> committing (ppc s) \<noteq> Some sl
      then Some (s\<lparr> resv := (resv s)(sl := False) \<rparr>) else None)"
| "producer_step (DelegateWrite sl k v) s =
     (if resv s sl \<and> committing (ppc s) \<noteq> Some sl
      then Some (s\<lparr> cell := (cell s)(sl := (cell s sl)(k := v)) \<rparr>) else None)"
| "producer_step BeginReconfigure s =
     (case (ppc s, alloc s) of
        (PIdle, Some a) \<Rightarrow> Some (s\<lparr> alloc := None, ppc := PClear (map (StorageSlot a) [0..<nslots s]) \<rparr>)
      | _ \<Rightarrow> None)"
| "producer_step ClearSlot s =
     (case ppc s of
        PClear [] \<Rightarrow> Some (s\<lparr> ppc := PIdle \<rparr>)
      | PClear (sl # rest) \<Rightarrow>
          Some (s\<lparr> st := (st s)(sl := state_cleared (st s sl)), ppc := PClear rest \<rparr>)
      | _ \<Rightarrow> None)"
| "producer_step Install s =
     (if ppc s = PIdle \<and> alloc s = None
      then Some (s\<lparr> alloc := Some (last_alloc s + 1), last_alloc := last_alloc s + 1 \<rparr>) else None)"
| "producer_step (Attach n) s =
     (if ppc s = PIdle
      then Some (s\<lparr> pages := (next_page s, n) # pages s, next_page := Suc (next_page s) \<rparr>) else None)"
| "producer_step (Detach page) s =
     (case map_of (pages s) page of
        Some n \<Rightarrow>
          if ppc s = PIdle \<and> quiet s page \<and> list_all (\<lambda>k. wordm s (ClaimWord page k) = 0) [0..<n]
          then Some (s\<lparr> pages := filter (\<lambda>(p, _). p \<noteq> page) (pages s) \<rparr>) else None
      | None \<Rightarrow> None)"

section \<open>Consumers\<close>

datatype consumer_action =
    Select nat nat u64
  | TryClaim
  | Validate
  | Recheck bool
  | Submit u64
  | DropLease
  | ReleaseStore
  | DeferRelease u64
  | StorePending
  | RetireLocal

text \<open>An asynchronous use of storage under claim word \<open>w\<close> that has not completed.  The client's
  contract (\<open>FrameLease\<close>): a lease is dropped only when no such use is left, and a deferred
  release names a completion value that covers it.\<close>

definition active :: "proto \<Rightarrow> word_id \<Rightarrow> u64 \<Rightarrow> slot_id \<Rightarrow> u64 \<Rightarrow> bool" where
  "active s w c sl v \<longleftrightarrow> gpu s w = Some (c, sl, v) \<and> tline s (word_page w) < v"

definition uses_covered :: "proto \<Rightarrow> word_id \<Rightarrow> u64 \<Rightarrow> bool" where
  "uses_covered s w v \<longleftrightarrow> (case gpu s w of None \<Rightarrow> True | Some (_, _, v0) \<Rightarrow> v0 \<le> v)"

fun consumer_step :: "nat \<Rightarrow> consumer_action \<Rightarrow> proto \<Rightarrow> proto option" where
  "consumer_step p (Select page a c) s =
     (let advertised = ringw s (unat ((c - 1) mod hist s)) in
      if cpc s p = CIdle \<and> map_of (pages s) page \<noteq> None \<and> \<not> quiet s page \<and>
         c \<noteq> 0 \<and> c \<le> latestw s \<and> advertised \<noteq> 0 \<and> unat advertised \<le> nslots s
      then Some (s\<lparr> cpc := (cpc s)(p := CTry page c (StorageSlot a (unat advertised - 1)) 0) \<rparr>) else None)"
| "consumer_step p TryClaim s =
     (case cpc s p of
        CTry page c sl k \<Rightarrow>
          (case map_of (pages s) page of
             None \<Rightarrow> None
           | Some n \<Rightarrow>
             if n \<le> k then Some (s\<lparr> cpc := (cpc s)(p := CIdle) \<rparr>)
             else if wordm s (ClaimWord page k) = 0
             then Some (s\<lparr> wordm := (wordm s)(ClaimWord page k := c), cpc := (cpc s)(p := CClaimed (ClaimWord page k) c sl) \<rparr>)
             else Some (s\<lparr> cpc := (cpc s)(p := CTry page c sl (Suc k)) \<rparr>))
      | _ \<Rightarrow> None)"
| "consumer_step p Validate s =
     (case cpc s p of
        CClaimed w c sl \<Rightarrow>
          Some (s\<lparr> cpc := (cpc s)(p := if st s sl = state_live c then CValidated w c sl else CReleasing w) \<rparr>)
      | _ \<Rightarrow> None)"
| "consumer_step p (Recheck open) s =
     (case cpc s p of
        CValidated w c sl \<Rightarrow>
          Some (s\<lparr> cpc := (cpc s)(p := if open then CHolding w c sl (desc s sl) else CReleasing w) \<rparr>)
      | _ \<Rightarrow> None)"
| "consumer_step p (Submit v) s =
     (case cpc s p of
        CHolding w c sl d \<Rightarrow>
          if async s (word_page w) \<and> uses_covered s w v
          then Some (s\<lparr> gpu := (gpu s)(w := Some (c, sl, v)) \<rparr>) else None
      | _ \<Rightarrow> None)"
| "consumer_step p DropLease s =
     (case cpc s p of
        CHolding w c sl d \<Rightarrow>
          if uses_covered s w (tline s (word_page w))
          then Some (s\<lparr> pendm := (pendm s)(w := 0), cpc := (cpc s)(p := CReleasing w) \<rparr>) else None
      | _ \<Rightarrow> None)"
| "consumer_step p ReleaseStore s =
     (case cpc s p of
        CReleasing w \<Rightarrow> Some (s\<lparr> wordm := (wordm s)(w := 0), cpc := (cpc s)(p := CIdle) \<rparr>)
      | _ \<Rightarrow> None)"
| "consumer_step p (DeferRelease v) s =
     (case cpc s p of
        CHolding w c sl d \<Rightarrow>
          if async s (word_page w) \<and> uses_covered s w v
          then Some (s\<lparr> valm := (valm s)(w := v), cpc := (cpc s)(p := CHandoff w c sl v) \<rparr>) else None
      | _ \<Rightarrow> None)"
| "consumer_step p StorePending s =
     (case cpc s p of
        CHandoff w c sl v \<Rightarrow>
          Some (s\<lparr> pendm := (pendm s)(w := 1), cpc := (cpc s)(p := CDeferred w c sl v) \<rparr>)
      | _ \<Rightarrow> None)"
| "consumer_step p RetireLocal s =
     (case cpc s p of
        CDeferred w c sl v \<Rightarrow>
          if v \<le> tline s (word_page w)
          then Some (s\<lparr> pendm := (pendm s)(w := 2), cpc := (cpc s)(p := CIdle) \<rparr>) else None
      | _ \<Rightarrow> None)"

section \<open>Completion, shutdown and process exit\<close>

datatype cleanup_action =
    RegisterTimeline nat
  | Complete nat u64
  | ReturnCredit word_id
  | CreditStore
  | Quiesce nat
  | Exit nat
  | ExitReturn word_id
  | ExitDeferred word_id

definition on_page :: "nat \<Rightarrow> consumer_pc \<Rightarrow> bool" where
  "on_page page pc \<longleftrightarrow> page_of pc = Some page"

definition threads_idle :: "nat list \<Rightarrow> nat \<Rightarrow> proto \<Rightarrow> bool" where
  "threads_idle ts page s \<longleftrightarrow> list_all (\<lambda>p. \<not> on_page page (cpc s p)) ts"

fun cleanup_step :: "nat list \<Rightarrow> cleanup_action \<Rightarrow> proto \<Rightarrow> proto option" where
  "cleanup_step ts (RegisterTimeline page) s = Some (s\<lparr> async := (async s)(page := True) \<rparr>)"
| "cleanup_step ts (Complete page v) s =
     (if tline s page \<le> v then Some (s\<lparr> tline := (tline s)(page := v) \<rparr>) else None)"
| "cleanup_step ts (ReturnCredit w) s =
     (if opc s = None \<and> pendm s w = 2 \<and> valm s w \<le> tline s (word_page w)
      then Some (s\<lparr> pendm := (pendm s)(w := 0), opc := Some w \<rparr>) else None)"
| "cleanup_step ts CreditStore s =
     (case opc s of
        Some w \<Rightarrow> Some (s\<lparr> wordm := (wordm s)(w := 0), opc := None \<rparr>)
      | None \<Rightarrow> None)"
| "cleanup_step ts (Quiesce page) s =
     (if threads_idle ts page s then Some (s\<lparr> quiet := (quiet s)(page := True) \<rparr>) else None)"
| "cleanup_step ts (Exit page) s =
     Some (s\<lparr> cpc := (\<lambda>p. if on_page page (cpc s p) then CIdle else cpc s p),
              quiet := (quiet s)(page := True), gone := (gone s)(page := True) \<rparr>)"
| "cleanup_step ts (ExitReturn w) s =
     (if gone s (word_page w) \<and> pendm s w = 0 \<and> \<not> async s (word_page w)
      then Some (s\<lparr> wordm := (wordm s)(w := 0) \<rparr>) else None)"
| "cleanup_step ts (ExitDeferred w) s =
     (if gone s (word_page w) \<and> (pendm s w = 1 \<or> pendm s w = 2)
      then Some (s\<lparr> pendm := (pendm s)(w := 2) \<rparr>) else None)"

section \<open>Interleaving\<close>

datatype proto_action =
    Producer producer_action
  | Consumer nat consumer_action
  | Cleanup cleanup_action

text \<open>\<open>ts\<close> are the consumer threads of the run.\<close>

fun proto_step :: "nat list \<Rightarrow> proto_action \<Rightarrow> proto \<Rightarrow> proto option" where
  "proto_step ts (Producer a) s = producer_step a s"
| "proto_step ts (Consumer p a) s = (if p \<in> set ts then consumer_step p a s else None)"
| "proto_step ts (Cleanup a) s = cleanup_step ts a s"

fun proto_run :: "nat list \<Rightarrow> proto_action list \<Rightarrow> proto \<Rightarrow> proto option" where
  "proto_run ts [] s = Some s"
| "proto_run ts (a # as) s = (case proto_step ts a s of None \<Rightarrow> None | Some s' \<Rightarrow> proto_run ts as s')"

inductive proto_reachable :: "nat list \<Rightarrow> nat \<Rightarrow> u64 \<Rightarrow> proto \<Rightarrow> bool" for ts n h where
  proto_start: "proto_reachable ts n h (proto_init n h)"
| proto_next: "proto_reachable ts n h s \<Longrightarrow> proto_step ts a s = Some s' \<Longrightarrow> proto_reachable ts n h s'"

section \<open>The invariant\<close>

fun writing :: "producer_pc \<Rightarrow> slot_id option" where
  "writing (PCopy sl f k) = Some sl"
| "writing (PDescribe sl f) = Some sl"
| "writing (PState sl f) = Some sl"
| "writing _ = None"

fun stored :: "producer_pc \<Rightarrow> slot_id option" where
  "stored (PRing sl) = Some sl"
| "stored (PLatest sl) = Some sl"
| "stored _ = None"

fun working :: "producer_pc \<Rightarrow> bool" where
  "working PIdle = False"
| "working (PClear rest) = False"
| "working _ = True"

text \<open>Storage that somebody may be writing to: the producer's copy, or the delegate of a
  reservation.\<close>

definition busy :: "proto \<Rightarrow> slot_id \<Rightarrow> bool" where
  "busy s sl \<longleftrightarrow> resv s sl \<and> stored (ppc s) \<noteq> Some sl \<or> writing (ppc s) = Some sl"

definition shows_frame :: "proto \<Rightarrow> slot_id \<Rightarrow> published \<Rightarrow> bool" where
  "shows_frame s sl f \<longleftrightarrow> desc s sl = pub_descriptor f \<and>
     (\<forall>k<length (pub_bytes f). cell s sl k = pub_bytes f ! k)"

definition uses :: "proto \<Rightarrow> word_id \<Rightarrow> u64 \<Rightarrow> slot_id \<Rightarrow> bool" where
  "uses s w c sl \<longleftrightarrow> (\<exists>p. lease_of (cpc s p) = Some (w, c, sl)) \<or> (\<exists>v. active s w c sl v)"

abbreviation gen_at :: "proto \<Rightarrow> slot_id \<Rightarrow> u64" where
  "gen_at s sl \<equiv> state_generation (st s sl)"

abbreviation live_at :: "proto \<Rightarrow> slot_id \<Rightarrow> bool" where
  "live_at s sl \<equiv> bit (st s sl) 0"

definition newest :: "proto \<Rightarrow> u64" where
  "newest s = (if stored (ppc s) = None then pcur s else pcur s + 1)"

definition inv_cursor :: "proto \<Rightarrow> bool" where
  "inv_cursor s \<longleftrightarrow> pcur s \<le> MAX_GENERATION \<and> (working (ppc s) \<longrightarrow> pcur s < MAX_GENERATION) \<and>
     latestw s \<le> pcur s \<and> (\<forall>sl. gen_at s sl \<le> newest s)"

definition inv_unique :: "proto \<Rightarrow> bool" where
  "inv_unique s \<longleftrightarrow> (\<forall>sl sl'. sl \<noteq> sl' \<longrightarrow> gen_at s sl \<noteq> 0 \<longrightarrow> gen_at s sl \<noteq> gen_at s sl')"

definition inv_live :: "proto \<Rightarrow> bool" where
  "inv_live s \<longleftrightarrow> (\<forall>sl. live_at s sl \<longrightarrow> gen_at s sl \<noteq> 0 \<and> \<not> busy s sl \<and>
     (\<exists>f. plog s (gen_at s sl) = Some f \<and> shows_frame s sl f))"

definition inv_ppc :: "proto \<Rightarrow> bool" where
  "inv_ppc s \<longleftrightarrow> (case ppc s of
     PRetire m sl g rest \<Rightarrow> \<not> resv s sl \<and> gen_at s sl = g
   | PScan m sl g ws rest \<Rightarrow> \<not> resv s sl \<and> gen_at s sl = g \<and> \<not> live_at s sl
   | PCopy sl f k \<Rightarrow> \<not> resv s sl \<and> \<not> live_at s sl \<and> k \<le> length (pub_bytes f) \<and>
       (\<forall>j<k. cell s sl j = pub_bytes f ! j)
   | PDescribe sl f \<Rightarrow> \<not> live_at s sl \<and> (\<forall>j<length (pub_bytes f). cell s sl j = pub_bytes f ! j)
   | PState sl f \<Rightarrow> \<not> live_at s sl \<and> shows_frame s sl f
   | _ \<Rightarrow> True)"

definition use_ok :: "proto \<Rightarrow> word_id \<Rightarrow> u64 \<Rightarrow> slot_id \<Rightarrow> bool" where
  "use_ok s w c sl \<longleftrightarrow> wordm s w = c \<and> c \<noteq> 0 \<and> gen_at s sl = c \<and>
     (\<exists>f. plog s c = Some f \<and> shows_frame s sl f) \<and> \<not> busy s sl \<and>
     (\<forall>m g ws rest. ppc s = PScan m sl g ws rest \<longrightarrow> w \<in> set ws) \<and> w \<in> set (all_words (pages s))"

definition inv_use :: "proto \<Rightarrow> bool" where
  "inv_use s \<longleftrightarrow> (\<forall>w c sl. uses s w c sl \<longrightarrow> use_ok s w c sl)"

fun thread_ok :: "proto \<Rightarrow> consumer_pc \<Rightarrow> bool" where
  "thread_ok s CIdle = True"
| "thread_ok s (CTry page c sl k) \<longleftrightarrow> map_of (pages s) page \<noteq> None \<and> c \<noteq> 0 \<and> c \<le> MAX_GENERATION"
| "thread_ok s (CClaimed w c sl) \<longleftrightarrow> wordm s w = c \<and> c \<noteq> 0 \<and> c \<le> MAX_GENERATION \<and> pendm s w = 0"
| "thread_ok s (CValidated w c sl) \<longleftrightarrow> pendm s w = 0"
| "thread_ok s (CHolding w c sl d) \<longleftrightarrow> pendm s w = 0 \<and>
     (\<exists>f. plog s c = Some f \<and> d = pub_descriptor f)"
| "thread_ok s (CReleasing w) \<longleftrightarrow> wordm s w \<noteq> 0 \<and> pendm s w = 0"
| "thread_ok s (CHandoff w c sl v) \<longleftrightarrow> pendm s w = 0 \<and> valm s w = v \<and> uses_covered s w v"
| "thread_ok s (CDeferred w c sl v) \<longleftrightarrow> pendm s w = 1 \<and> valm s w = v"

definition inv_own :: "proto \<Rightarrow> bool" where
  "inv_own s \<longleftrightarrow> (\<forall>p. thread_ok s (cpc s p)) \<and>
     (\<forall>p q w. owns (cpc s p) = Some w \<longrightarrow> owns (cpc s q) = Some w \<longrightarrow> p = q) \<and>
     (\<forall>p w. owns (cpc s p) = Some w \<longrightarrow> w \<in> set (all_words (pages s)) \<and> opc s \<noteq> Some w) \<and>
     (\<forall>p page. page_of (cpc s p) = Some page \<longrightarrow> \<not> quiet s page)"

definition inv_gpu :: "proto \<Rightarrow> bool" where
  "inv_gpu s \<longleftrightarrow> (\<forall>w c sl v. active s w c sl v \<longrightarrow> async s (word_page w) \<and> opc s \<noteq> Some w \<and>
     (pendm s w \<noteq> 0 \<longrightarrow> v \<le> valm s w) \<and>
     (\<forall>p. owns (cpc s p) = Some w \<longrightarrow> user_of (cpc s p) = Some (w, c, sl)))"

definition pages_ok :: "(nat \<times> nat) list \<Rightarrow> nat \<Rightarrow> bool" where
  "pages_ok ps n \<longleftrightarrow> distinct (map fst ps) \<and> (\<forall>page\<in>fst ` set ps. page < n)"

definition inv_page :: "proto \<Rightarrow> bool" where
  "inv_page s \<longleftrightarrow> pages_ok (pages s) (next_page s) \<and>
     (\<forall>w. wordm s w = 0 \<longrightarrow> pendm s w = 0) \<and> (\<forall>page. gone s page \<longrightarrow> quiet s page) \<and>
     (\<forall>w. opc s = Some w \<longrightarrow> (wordm s w \<noteq> 0 \<or> gone s (word_page w)) \<and> pendm s w = 0)"

definition proto_inv :: "nat list \<Rightarrow> proto \<Rightarrow> bool" where
  "proto_inv ts s \<longleftrightarrow> inv_cursor s \<and> inv_unique s \<and> inv_live s \<and> inv_ppc s \<and> inv_use s \<and>
     inv_own s \<and> inv_gpu s \<and> inv_page s \<and> (\<forall>p. p \<notin> set ts \<longrightarrow> cpc s p = CIdle)"

lemma next_generation:
  "c < MAX_GENERATION \<Longrightarrow> c < c + 1 \<and> c + 1 \<le> MAX_GENERATION \<and> c + 1 \<noteq> 0"
proof -
  assume c: "c < MAX_GENERATION"
  then have "unat c + 1 < 18446744073709551616" by (simp add: MAX_GENERATION_def word_less_nat_alt)
  then have "unat (c + 1) = unat c + 1" by (intro unat_Suc_word) simp
  then show ?thesis using c
    by (auto simp: word_less_nat_alt word_le_nat_alt MAX_GENERATION_def)
qed

declare bit_state_live [simp] bit_state_retired [simp]

lemma validated_live: "s = state_live c \<Longrightarrow> c \<le> MAX_GENERATION \<Longrightarrow> bit s 0 \<and> state_generation s = c"
  by (simp add: state_generation_live)

section \<open>The transitions, one rule each\<close>

text \<open>The same steps as a relation, for case analysis: one rule per branch of the code.\<close>

inductive ptrans :: "proto \<Rightarrow> proto \<Rightarrow> bool" for s where
  t_begin: "ppc s = PIdle \<Longrightarrow> pcur s \<noteq> MAX_GENERATION \<Longrightarrow> ptrans s (s\<lparr> ppc := PLoad m rest \<rparr>)"
| t_exhausted: "ppc s = PLoad m [] \<Longrightarrow> ptrans s (s\<lparr> ppc := PIdle \<rparr>)"
| t_skip: "ppc s = PLoad m (sl # rest) \<Longrightarrow> ptrans s (s\<lparr> ppc := PLoad m rest \<rparr>)"
| t_candidate: "ppc s = PLoad m (sl # rest) \<Longrightarrow> \<not> resv s sl \<Longrightarrow>
    ptrans s (s\<lparr> ppc := PRetire m sl (gen_at s sl) rest \<rparr>)"
| t_retire: "ppc s = PRetire m sl g rest \<Longrightarrow> ws = (if g = 0 then [] else all_words (pages s)) \<Longrightarrow>
    ptrans s (s\<lparr> st := (st s)(sl := state_retired g), ppc := PScan m sl g ws rest \<rparr>)"
| t_pinned: "ppc s = PScan m sl g ws rest \<Longrightarrow> ptrans s (s\<lparr> ppc := PLoad m rest \<rparr>)"
| t_unpinned: "ppc s = PScan m sl g (w # ws) rest \<Longrightarrow> wordm s w \<noteq> g \<Longrightarrow>
    ptrans s (s\<lparr> ppc := PScan m sl g ws rest \<rparr>)"
| t_copy: "ppc s = PScan (Publishing f) sl g [] rest \<Longrightarrow> ptrans s (s\<lparr> ppc := PCopy sl f 0 \<rparr>)"
| t_reserve: "ppc s = PScan Reserving sl g [] rest \<Longrightarrow>
    ptrans s (s\<lparr> resv := (resv s)(sl := True), ppc := PIdle \<rparr>)"
| t_byte: "ppc s = PCopy sl f k \<Longrightarrow> k < length (pub_bytes f) \<Longrightarrow>
    ptrans s (s\<lparr> cell := (cell s)(sl := (cell s sl)(k := pub_bytes f ! k)), ppc := PCopy sl f (Suc k) \<rparr>)"
| t_copied: "ppc s = PCopy sl f k \<Longrightarrow> \<not> k < length (pub_bytes f) \<Longrightarrow> ptrans s (s\<lparr> ppc := PDescribe sl f \<rparr>)"
| t_describe: "ppc s = PDescribe sl f \<Longrightarrow> f' = with_cursor (pcur s + 1) f \<Longrightarrow>
    ptrans s (s\<lparr> desc := (desc s)(sl := pub_descriptor f'), ppc := PState sl f' \<rparr>)"
| t_state: "ppc s = PState sl f \<Longrightarrow>
    ptrans s (s\<lparr> st := (st s)(sl := state_live (pcur s + 1)), ppc := PRing sl,
                 plog := (plog s)(pcur s + 1 := Some f) \<rparr>)"
| t_ring: "ppc s = PRing sl \<Longrightarrow> ptrans s (s\<lparr> ringw := r, ppc := PLatest sl \<rparr>)"
| t_latest: "ppc s = PLatest sl \<Longrightarrow>
    ptrans s (s\<lparr> latestw := pcur s + 1, pcur := pcur s + 1, resv := (resv s)(sl := False), ppc := PIdle \<rparr>)"
| t_commit: "ppc s = PIdle \<Longrightarrow> resv s sl \<Longrightarrow> pcur s \<noteq> MAX_GENERATION \<Longrightarrow>
    ptrans s (s\<lparr> ppc := PDescribe sl \<lparr> pub_descriptor = d, pub_bytes = map (cell s sl) [0..<len] \<rparr> \<rparr>)"
| t_abandon: "resv s sl \<Longrightarrow> committing (ppc s) \<noteq> Some sl \<Longrightarrow> ptrans s (s\<lparr> resv := (resv s)(sl := False) \<rparr>)"
| t_delegate: "resv s sl \<Longrightarrow> committing (ppc s) \<noteq> Some sl \<Longrightarrow>
    ptrans s (s\<lparr> cell := (cell s)(sl := (cell s sl)(k := v)) \<rparr>)"
| t_reconfigure: "ppc s = PIdle \<Longrightarrow> ptrans s (s\<lparr> alloc := None, ppc := PClear rest \<rparr>)"
| t_cleared: "ppc s = PClear [] \<Longrightarrow> ptrans s (s\<lparr> ppc := PIdle \<rparr>)"
| t_clear: "ppc s = PClear (sl # rest) \<Longrightarrow>
    ptrans s (s\<lparr> st := (st s)(sl := state_cleared (st s sl)), ppc := PClear rest \<rparr>)"
| t_install: "ppc s = PIdle \<Longrightarrow> ptrans s (s\<lparr> alloc := a, last_alloc := n \<rparr>)"
| t_attach: "ppc s = PIdle \<Longrightarrow>
    ptrans s (s\<lparr> pages := (next_page s, n) # pages s, next_page := Suc (next_page s) \<rparr>)"
| t_detach: "ppc s = PIdle \<Longrightarrow> map_of (pages s) page = Some n \<Longrightarrow> quiet s page \<Longrightarrow>
    (\<And>k. k < n \<Longrightarrow> wordm s (ClaimWord page k) = 0) \<Longrightarrow>
    ptrans s (s\<lparr> pages := filter (\<lambda>(p, _). p \<noteq> page) (pages s) \<rparr>)"

lemma producer_step_ptrans: "producer_step a s = Some s' \<Longrightarrow> ptrans s s'"
  by (cases a)
    (auto simp: Let_def list_all_iff claim_free_def
      intro: ptrans.intros t_retire [where g = 0 and ws = "[]", simplified]
      split: producer_pc.split_asm list.split_asm option.split_asm if_split_asm claim_mode.split_asm)

inductive ctrans :: "nat \<Rightarrow> proto \<Rightarrow> proto \<Rightarrow> bool" for p s where
  c_select: "cpc s p = CIdle \<Longrightarrow> map_of (pages s) page \<noteq> None \<Longrightarrow> \<not> quiet s page \<Longrightarrow> c \<noteq> 0 \<Longrightarrow>
    c \<le> latestw s \<Longrightarrow> ctrans p s (s\<lparr> cpc := (cpc s)(p := CTry page c sl 0) \<rparr>)"
| c_limit: "cpc s p = CTry page c sl k \<Longrightarrow> ctrans p s (s\<lparr> cpc := (cpc s)(p := CIdle) \<rparr>)"
| c_claim: "cpc s p = CTry page c sl k \<Longrightarrow> map_of (pages s) page = Some n \<Longrightarrow> k < n \<Longrightarrow>
    wordm s (ClaimWord page k) = 0 \<Longrightarrow>
    ctrans p s (s\<lparr> wordm := (wordm s)(ClaimWord page k := c), cpc := (cpc s)(p := CClaimed (ClaimWord page k) c sl) \<rparr>)"
| c_next: "cpc s p = CTry page c sl k \<Longrightarrow> ctrans p s (s\<lparr> cpc := (cpc s)(p := CTry page c sl (Suc k)) \<rparr>)"
| c_valid: "cpc s p = CClaimed w c sl \<Longrightarrow> st s sl = state_live c \<Longrightarrow>
    ctrans p s (s\<lparr> cpc := (cpc s)(p := CValidated w c sl) \<rparr>)"
| c_miss: "cpc s p = CClaimed w c sl \<Longrightarrow> ctrans p s (s\<lparr> cpc := (cpc s)(p := CReleasing w) \<rparr>)"
| c_hold: "cpc s p = CValidated w c sl \<Longrightarrow> ctrans p s (s\<lparr> cpc := (cpc s)(p := CHolding w c sl (desc s sl)) \<rparr>)"
| c_shut: "cpc s p = CValidated w c sl \<Longrightarrow> ctrans p s (s\<lparr> cpc := (cpc s)(p := CReleasing w) \<rparr>)"
| c_submit: "cpc s p = CHolding w c sl d \<Longrightarrow> async s (word_page w) \<Longrightarrow> uses_covered s w v \<Longrightarrow>
    ctrans p s (s\<lparr> gpu := (gpu s)(w := Some (c, sl, v)) \<rparr>)"
| c_drop: "cpc s p = CHolding w c sl d \<Longrightarrow> uses_covered s w (tline s (word_page w)) \<Longrightarrow>
    ctrans p s (s\<lparr> pendm := (pendm s)(w := 0), cpc := (cpc s)(p := CReleasing w) \<rparr>)"
| c_release: "cpc s p = CReleasing w \<Longrightarrow>
    ctrans p s (s\<lparr> wordm := (wordm s)(w := 0), cpc := (cpc s)(p := CIdle) \<rparr>)"
| c_defer: "cpc s p = CHolding w c sl d \<Longrightarrow> async s (word_page w) \<Longrightarrow> uses_covered s w v \<Longrightarrow>
    ctrans p s (s\<lparr> valm := (valm s)(w := v), cpc := (cpc s)(p := CHandoff w c sl v) \<rparr>)"
| c_pending: "cpc s p = CHandoff w c sl v \<Longrightarrow>
    ctrans p s (s\<lparr> pendm := (pendm s)(w := 1), cpc := (cpc s)(p := CDeferred w c sl v) \<rparr>)"
| c_retire: "cpc s p = CDeferred w c sl v \<Longrightarrow> v \<le> tline s (word_page w) \<Longrightarrow>
    ctrans p s (s\<lparr> pendm := (pendm s)(w := 2), cpc := (cpc s)(p := CIdle) \<rparr>)"

lemma consumer_step_ctrans: "consumer_step p a s = Some s' \<Longrightarrow> ctrans p s s'"
  by (cases a)
    (auto simp: Let_def intro: ctrans.intros
      split: consumer_pc.split_asm option.split_asm if_split_asm)


lemma committing_stored: "committing pc \<noteq> Some sl \<Longrightarrow> stored pc \<noteq> Some sl \<and> (writing pc = Some sl \<longrightarrow> (\<exists>f k. pc = PCopy sl f k))"
  by (cases pc) auto

text \<open>Preservation, part by part.\<close>

lemma ptrans_cursor:
  assumes "ptrans s s'" "inv_cursor s" "inv_ppc s"
  shows "inv_cursor s'"
proof -
  have n: "pcur s < MAX_GENERATION \<Longrightarrow> x \<le> pcur s \<Longrightarrow> x \<le> pcur s + 1" for x
    using next_generation [of "pcur s"] by (meson order.trans order_less_imp_le)
  from assms show ?thesis
    by (cases rule: ptrans.cases)
      (use next_generation [of "pcur s"] n in
       \<open>auto simp: inv_cursor_def inv_ppc_def newest_def state_generation_live state_generation_retired
         less_le\<close>)
qed

lemma fresh_generation:
  assumes "inv_cursor s" "working (ppc s)" "stored (ppc s) = None"
  shows "gen_at s sl \<noteq> pcur s + 1"
proof -
  have "gen_at s sl \<le> pcur s" "pcur s < MAX_GENERATION"
    using assms by (auto simp: inv_cursor_def newest_def)
  then show ?thesis using next_generation [of "pcur s"] by auto
qed

text \<open>Only the store of a new state word changes a generation; retiring and clearing keep it.\<close>

lemma ptrans_gen:
  assumes "ptrans s s'" "inv_ppc s"
  shows "(\<forall>sl. gen_at s' sl = gen_at s sl \<and> (live_at s' sl \<longrightarrow> live_at s sl)) \<and> plog s' = plog s \<or>
    (\<exists>sl f. ppc s = PState sl f \<and> s' = s\<lparr> st := (st s)(sl := state_live (pcur s + 1)), ppc := PRing sl,
                 plog := (plog s)(pcur s + 1 := Some f) \<rparr>)"
  using assms
  by (cases rule: ptrans.cases) (auto simp: inv_ppc_def)

lemma stored_state:
  assumes "inv_cursor s" "ppc s = PState sl f"
  shows "state_generation (state_live (pcur s + 1)) = pcur s + 1" "pcur s + 1 \<noteq> 0"
    "gen_at s sl' \<noteq> pcur s + 1"
  using assms next_generation [of "pcur s"] fresh_generation [OF assms(1), of sl']
  by (auto simp: inv_cursor_def state_generation_live)

lemma ptrans_unique:
  assumes "ptrans s s'" "inv_unique s" "inv_ppc s" "inv_cursor s"
  shows "inv_unique s'"
  using ptrans_gen [OF assms(1,3)]
proof
  assume "\<exists>sl f. ppc s = PState sl f \<and> s' = s\<lparr> st := (st s)(sl := state_live (pcur s + 1)),
      ppc := PRing sl, plog := (plog s)(pcur s + 1 := Some f) \<rparr>"
  then show ?thesis
    using assms(2) stored_state [OF assms(4)] by (fastforce simp: inv_unique_def split: if_splits)
qed (use assms(2) in \<open>auto simp: inv_unique_def\<close>)

text \<open>Only storage that is being written changes, and storage starts being written only after a
  complete scan.\<close>

lemma ptrans_shows:
  "ptrans s s' \<Longrightarrow> \<not> busy s sl \<Longrightarrow> shows_frame s' sl f = shows_frame s sl f"
  by (cases rule: ptrans.cases)
    (auto simp: busy_def shows_frame_def dest: committing_stored split: if_splits)


lemma ptrans_busy:
  assumes "ptrans s s'" "busy s' sl"
  shows "busy s sl \<or> (\<exists>m g rest. ppc s = PScan m sl g [] rest)"
  using assms by (cases rule: ptrans.cases) (auto simp: busy_def split: if_splits)

lemma ptrans_live:
  assumes "ptrans s s'" "inv_live s" "inv_ppc s" "inv_cursor s"
  shows "inv_live s'"
proof -
  have old: "\<not> busy s' sl \<and> (\<forall>f. shows_frame s' sl f = shows_frame s sl f)" if "live_at s sl" for sl
  proof -
    have "\<not> busy s sl" using assms(2) that by (auto simp: inv_live_def)
    moreover have "\<not> (\<exists>m g rest. ppc s = PScan m sl g [] rest)"
      using assms(3) that by (auto simp: inv_ppc_def)
    ultimately show ?thesis
      using ptrans_busy [OF assms(1)] ptrans_shows [OF assms(1)] by blast
  qed
  show ?thesis
    using ptrans_gen [OF assms(1,3)]
  proof
    assume same: "(\<forall>sl. gen_at s' sl = gen_at s sl \<and> (live_at s' sl \<longrightarrow> live_at s sl)) \<and> plog s' = plog s"
    show ?thesis using assms(2) old same unfolding inv_live_def by metis
  next
    assume "\<exists>sl f. ppc s = PState sl f \<and> s' = s\<lparr> st := (st s)(sl := state_live (pcur s + 1)),
        ppc := PRing sl, plog := (plog s)(pcur s + 1 := Some f) \<rparr>"
    then obtain sl f where pc: "ppc s = PState sl f"
      and s': "s' = s\<lparr> st := (st s)(sl := state_live (pcur s + 1)), ppc := PRing sl,
                 plog := (plog s)(pcur s + 1 := Some f) \<rparr>" by blast
    note g = stored_state [OF assms(4) pc]
    have here: "\<not> busy s' sl" "shows_frame s' sl f"
      using assms(3) pc by (auto simp: s' busy_def inv_ppc_def shows_frame_def)
    show ?thesis
      unfolding inv_live_def
    proof (intro allI impI)
      fix sl' assume l: "live_at s' sl'"
      show "gen_at s' sl' \<noteq> 0 \<and> \<not> busy s' sl' \<and> (\<exists>f. plog s' (gen_at s' sl') = Some f \<and> shows_frame s' sl' f)"
      proof (cases "sl' = sl")
        case True
        then show ?thesis using here g by (simp add: s')
      next
        case False
        then have "live_at s sl'" using l by (simp add: s')
        then show ?thesis using old [of sl'] assms(2) g(3) [of sl'] False
          by (auto simp: s' inv_live_def)
      qed
    qed
  qed
qed

lemma set_all_words: "w \<in> set (all_words ps) \<longleftrightarrow> (\<exists>n. (word_page w, n) \<in> set ps \<and> word_slot w < n)"
  by (cases w) (force simp: all_words_def)

lemma ptrans_use_scan:
  assumes "ptrans s s'" "use_ok s w c sl" "inv_ppc s" "ppc s' = PScan m sl g ws rest"
  shows "w \<in> set ws"
  using assms by (cases rule: ptrans.cases) (auto simp: use_ok_def inv_ppc_def)

lemma ptrans_use_page:
  assumes "ptrans s s'" "use_ok s w c sl" "inv_page s"
  shows "w \<in> set (all_words (pages s'))"
  using assms
proof (cases rule: ptrans.cases)
  case (t_detach page n)
  have "word_page w \<noteq> page"
  proof
    assume page: "word_page w = page"
    obtain n' where "(word_page w, n') \<in> set (pages s)" "word_slot w < n'"
      using assms(2) by (auto simp: use_ok_def set_all_words)
    moreover have "n' = n"
      using assms(3) t_detach(3) calculation(1) page
      by (metis inv_page_def pages_ok_def map_of_eq_Some_iff option.inject)
    ultimately have "wordm s (ClaimWord page (word_slot w)) = 0" using t_detach(5) by blast
    then show False using assms(2) page by (auto simp: use_ok_def)
  qed
  then show ?thesis using assms(2) t_detach by (auto simp: use_ok_def set_all_words)
qed (auto simp: use_ok_def set_all_words)

lemma ptrans_frame:
  "ptrans s s' \<Longrightarrow> cpc s' = cpc s \<and> gpu s' = gpu s \<and> tline s' = tline s \<and> wordm s' = wordm s \<and>
     pendm s' = pendm s \<and> valm s' = valm s \<and> opc s' = opc s \<and> quiet s' = quiet s \<and>
     gone s' = gone s \<and> async s' = async s"
  by (cases rule: ptrans.cases) auto

lemma ptrans_use:
  assumes "ptrans s s'" "inv_use s" "inv_ppc s" "inv_cursor s" "inv_page s"
  shows "inv_use s'"
  unfolding inv_use_def
proof (intro allI impI)
  fix w c sl assume "uses s' w c sl"
  then have "uses s w c sl"
    using ptrans_frame [OF assms(1)] by (simp add: uses_def active_def)
  then have ok: "use_ok s w c sl" using assms(2) by (simp add: inv_use_def)
  then have nb: "\<not> busy s sl" and g: "gen_at s sl = c" by (auto simp: use_ok_def)
  have nb': "\<not> busy s' sl"
    using ptrans_busy [OF assms(1), of sl] nb ok by (fastforce simp: use_ok_def)
  have gen': "gen_at s' sl = c \<and> plog s' c = plog s c"
    using ptrans_gen [OF assms(1,3)]
  proof
    assume "\<exists>sl f. ppc s = PState sl f \<and> s' = s\<lparr> st := (st s)(sl := state_live (pcur s + 1)),
        ppc := PRing sl, plog := (plog s)(pcur s + 1 := Some f) \<rparr>"
    then obtain sl' f where pc: "ppc s = PState sl' f"
      and s': "s' = s\<lparr> st := (st s)(sl' := state_live (pcur s + 1)), ppc := PRing sl',
                 plog := (plog s)(pcur s + 1 := Some f) \<rparr>" by blast
    have "sl' \<noteq> sl" using nb pc by (auto simp: busy_def)
    moreover have "c \<noteq> pcur s + 1" using stored_state(3) [OF assms(4) pc, of sl] g by simp
    ultimately show ?thesis using g by (simp add: s')
  qed (use g in simp)
  show "use_ok s' w c sl"
    using ok nb' gen' ptrans_shows [OF assms(1) nb] ptrans_use_scan [OF assms(1) ok assms(3)]
      ptrans_use_page [OF assms(1) ok assms(5)] ptrans_frame [OF assms(1)]
    unfolding use_ok_def by metis
qed

lemma ptrans_ppc:
  assumes "ptrans s s'" "inv_ppc s" "inv_live s"
  shows "inv_ppc s'"
  using assms
proof (cases rule: ptrans.cases)
  case (t_abandon sl)
  then show ?thesis using assms(2)
    by (cases "ppc s") (auto simp: inv_ppc_def shows_frame_def)
next
  case (t_delegate sl k v)
  then show ?thesis using assms(2)
    by (cases "ppc s") (auto simp: inv_ppc_def shows_frame_def)
next
  case (t_commit sl d len)
  then show ?thesis using assms(3) by (auto simp: inv_ppc_def inv_live_def busy_def)
qed (auto simp: inv_ppc_def shows_frame_def with_cursor_def less_Suc_eq not_less)

lemma owns_page: "owns pc = Some w \<Longrightarrow> page_of pc = Some (word_page w)"
  by (cases pc) auto

lemma lease_owns: "lease_of pc = Some (w, c, sl) \<Longrightarrow> owns pc = Some w"
  by (cases pc) auto

lemma lease_use_ok: "inv_use s \<Longrightarrow> lease_of (cpc s p) = Some (w, c, sl) \<Longrightarrow> use_ok s w c sl"
  unfolding inv_use_def uses_def by blast

lemma active_use_ok: "inv_use s \<Longrightarrow> active s w c sl v \<Longrightarrow> use_ok s w c sl"
  unfolding inv_use_def uses_def by blast

lemma ptrans_plog:
  assumes "ptrans s s'" "inv_ppc s" "inv_cursor s" "use_ok s w c sl"
  shows "plog s' c = plog s c"
  using ptrans_gen [OF assms(1,2)] stored_state(3) [OF assms(3), of _ _ sl] assms(4)
  by (auto simp: use_ok_def)

lemma ptrans_attached:
  assumes "ptrans s s'" "\<not> quiet s page" "map_of (pages s) page \<noteq> None"
  shows "map_of (pages s') page \<noteq> None"
proof -
  have "page \<in> fst ` set (pages s)" using assms(3) by (simp add: map_of_eq_None_iff)
  with assms(1,2) have "page \<in> fst ` set (pages s')" by (cases rule: ptrans.cases) force+
  then show ?thesis by (simp add: map_of_eq_None_iff)
qed

lemma ptrans_words:
  "ptrans s s' \<Longrightarrow> \<not> quiet s (word_page w) \<Longrightarrow> w \<in> set (all_words (pages s)) \<Longrightarrow>
     w \<in> set (all_words (pages s'))"
  by (erule ptrans.cases) (auto simp: set_all_words)

lemma ptrans_own:
  assumes "ptrans s s'" "inv_own s" "inv_use s" "inv_ppc s" "inv_cursor s" "inv_page s"
  shows "inv_own s'"
proof -
  note fr = ptrans_frame [OF assms(1)]
  have nq: "\<not> quiet s page" if "page_of (cpc s p) = Some page" for p page
    using assms(2) that by (auto simp: inv_own_def)
  have "thread_ok s' (cpc s p)" for p
  proof -
    have ok: "thread_ok s (cpc s p)" using assms(2) by (simp add: inv_own_def)
    show ?thesis
    proof (cases "cpc s p")
      case (CTry page c sl k)
      then show ?thesis using ok ptrans_attached [OF assms(1) nq [of p page]] by auto
    next
      case (CHolding w c sl d)
      then have "use_ok s w c sl" using lease_use_ok [OF assms(3), of p] by simp
      then show ?thesis using ok CHolding fr ptrans_plog [OF assms(1,4,5)] by auto
    qed (use ok fr in \<open>auto simp: uses_covered_def\<close>)
  qed
  moreover have "w \<in> set (all_words (pages s'))" if "owns (cpc s p) = Some w" for p w
    using assms(2) that ptrans_words [OF assms(1) nq [OF owns_page [OF that]]]
    by (auto simp: inv_own_def)
  ultimately show ?thesis using assms(2) fr by (auto simp: inv_own_def)
qed

lemma ptrans_gpu: "ptrans s s' \<Longrightarrow> inv_gpu s \<Longrightarrow> inv_gpu s'"
  using ptrans_frame [of s s'] by (auto simp: inv_gpu_def active_def)

lemma ptrans_page: "ptrans s s' \<Longrightarrow> inv_page s \<Longrightarrow> inv_page s'"
  by (erule ptrans.cases)
    (auto simp: inv_page_def pages_ok_def less_Suc_eq distinct_map_filter)

lemma ptrans_inv: "ptrans s s' \<Longrightarrow> proto_inv ts s \<Longrightarrow> proto_inv ts s'"
  unfolding proto_inv_def
  using ptrans_cursor ptrans_unique ptrans_live ptrans_ppc ptrans_use ptrans_own ptrans_gpu ptrans_page
    ptrans_frame by metis


end
