(* ===== verification/Claim_Safety.thy ===== *)
theory Claim_Safety
  imports Claim_Protocol
begin

text \<open>
  The invariant of the acquisition protocol holds in every interleaving, and its consequences
  for leases: storage under a validated claim shows exactly what was published under its
  cursor, and nobody is writing to it.
\<close>

section \<open>Consumer steps keep the invariant\<close>

text \<open>A consumer step touches no storage, no state word and no producer state.\<close>

lemma ctrans_frame:
  "ctrans p s s' \<Longrightarrow> st s' = st s \<and> desc s' = desc s \<and> cell s' = cell s \<and> resv s' = resv s \<and>
     ppc s' = ppc s \<and> pcur s' = pcur s \<and> latestw s' = latestw s \<and> pages s' = pages s \<and>
     next_page s' = next_page s \<and> plog s' = plog s \<and> opc s' = opc s \<and> quiet s' = quiet s \<and>
     gone s' = gone s \<and> async s' = async s \<and> tline s' = tline s \<and>
     (\<forall>q. q \<noteq> p \<longrightarrow> cpc s' q = cpc s q)"
  by (erule ctrans.cases) auto

lemma ctrans_static:
  assumes "ctrans p s s'"
  shows "inv_cursor s' = inv_cursor s" "inv_unique s' = inv_unique s" "inv_live s' = inv_live s"
    "inv_ppc s' = inv_ppc s" "busy s' sl = busy s sl" "shows_frame s' sl f = shows_frame s sl f"
  using ctrans_frame [OF assms]
  by (auto simp: inv_cursor_def newest_def inv_unique_def inv_live_def inv_ppc_def busy_def
      shows_frame_def split: producer_pc.splits)


lemma ctrans_uses:
  assumes "ctrans p s s'" "uses s' w c sl"
  shows "uses s w c sl \<or> cpc s p = CClaimed w c sl \<and> st s sl = state_live c"
proof -
  note fr = ctrans_frame [OF assms(1)]
  consider q where "lease_of (cpc s' q) = Some (w, c, sl)" | v where "active s' w c sl v"
    using assms(2) by (auto simp: uses_def)
  then show ?thesis
  proof cases
    case 1
    show ?thesis
    proof (cases "q = p")
      case False
      then show ?thesis using 1 fr unfolding uses_def by metis
    next
      case True
      with assms(1) 1 show ?thesis
        by (cases rule: ctrans.cases) (auto simp: uses_def intro: exI [of _ p])
    qed
  next
    case 2
    with assms(1) show ?thesis
      by (cases rule: ctrans.cases) (auto simp: uses_def active_def split: if_splits intro: exI [of _ p])
  qed
qed

lemma thread_parts:
  assumes "inv_own s"
  shows "thread_ok s (cpc s p)" and "owns (cpc s p) = Some w \<Longrightarrow> owns (cpc s q) = Some w \<Longrightarrow> p = q"
    and "owns (cpc s p) = Some w \<Longrightarrow> w \<in> set (all_words (pages s)) \<and> opc s \<noteq> Some w"
    and "page_of (cpc s p) = Some page \<Longrightarrow> \<not> quiet s page"
  using assms unfolding inv_own_def by blast+

lemma owned_word_nonzero:
  assumes "inv_own s" "inv_use s" "owns (cpc s p) = Some w"
  shows "wordm s w \<noteq> 0"
  using thread_parts(1) [OF assms(1), of p] lease_use_ok [OF assms(2), of p] assms(3)
  by (cases "cpc s p") (auto simp: use_ok_def)

lemma ctrans_word:
  assumes "ctrans p s s'" "inv_own s" "inv_use s" "inv_gpu s" "uses s w c sl"
  shows "wordm s' w = wordm s w"
proof -
  have nz: "wordm s w \<noteq> 0" using assms(3,5) by (auto simp: inv_use_def use_ok_def)
  have "cpc s p \<noteq> CReleasing w"
  proof
    assume r: "cpc s p = CReleasing w"
    from assms(5) consider q where "lease_of (cpc s q) = Some (w, c, sl)" | v where "active s w c sl v"
      by (auto simp: uses_def)
    then show False
    proof cases
      case 1
      then have "q = p" using thread_parts(2) [OF assms(2), of q w p] r by (simp add: lease_owns)
      then show ?thesis using 1 r by simp
    next
      case 2
      then have "user_of (cpc s p) = Some (w, c, sl)" using assms(4) r unfolding inv_gpu_def by (metis owns.simps(4))
      then show ?thesis using r by simp
    qed
  qed
  with assms(1) nz show ?thesis by (cases rule: ctrans.cases) auto
qed

lemma ctrans_use:
  assumes "ctrans p s s'" "inv_own s" "inv_use s" "inv_gpu s" "inv_live s" "inv_ppc s"
  shows "inv_use s'"
  unfolding inv_use_def
proof (intro allI impI)
  fix w c sl assume "uses s' w c sl"
  note fr = ctrans_frame [OF assms(1)] and stat = ctrans_static [OF assms(1)]
  from ctrans_uses [OF assms(1) \<open>uses s' w c sl\<close>] show "use_ok s' w c sl"
  proof
    assume u: "uses s w c sl"
    then have "use_ok s w c sl" using assms(3) by (simp add: inv_use_def)
    then show ?thesis
      using ctrans_word [OF assms(1-4) u] fr stat(5,6) by (auto simp: use_ok_def)
  next
    assume cl: "cpc s p = CClaimed w c sl \<and> st s sl = state_live c"
    then have w: "wordm s w = c" "c \<noteq> 0" "c \<le> MAX_GENERATION" "w \<in> set (all_words (pages s))"
      using thread_parts(1,3) [OF assms(2), of p] by auto
    then have l: "live_at s sl" "gen_at s sl = c" using cl by (simp_all add: state_generation_live)
    have "wordm s' w = c" using assms(1) cl w by (cases rule: ctrans.cases) auto
    moreover have "ppc s \<noteq> PScan m sl g ws rest" for m g ws rest
      using assms(6) l by (auto simp: inv_ppc_def)
    ultimately show ?thesis
      using assms(5) l w fr stat(5,6) unfolding inv_live_def by (auto simp: use_ok_def)
  qed
qed

text \<open>The words a consumer step changes belong to the stepping thread or were free.\<close>

lemma ctrans_others:
  assumes "ctrans p s s'" "inv_own s" "inv_use s" "q \<noteq> p" "owns (cpc s q) = Some w"
  shows "wordm s' w = wordm s w \<and> pendm s' w = pendm s w \<and> valm s' w = valm s w \<and> gpu s' w = gpu s w"
proof -
  have ne: "owns (cpc s p) \<noteq> Some w" using thread_parts(2) [OF assms(2) assms(5), of p] assms(4) by blast
  have nz: "wordm s w \<noteq> 0" by (rule owned_word_nonzero [OF assms(2,3,5)])
  from assms(1) show ?thesis
    by (cases rule: ctrans.cases) (use ne nz in auto)
qed

lemma thread_ok_frame:
  assumes "thread_ok s pc" "pages s' = pages s" "plog s' = plog s"
    "\<And>w. owns pc = Some w \<Longrightarrow> wordm s' w = wordm s w \<and> pendm s' w = pendm s w \<and> valm s' w = valm s w \<and>
       gpu s' w = gpu s w"
  shows "thread_ok s' pc"
  using assms by (cases pc) (auto simp: uses_covered_def)

lemma ctrans_self:
  assumes "ctrans p s s'" "inv_own s" "inv_use s" "inv_page s" "inv_cursor s"
  shows "thread_ok s' (cpc s' p)"
  using assms(1)
proof (cases rule: ctrans.cases)
  case (c_select page c sl)
  then show ?thesis using assms(5) by (auto simp: inv_cursor_def)
next
  case (c_hold w c sl)
  then have "use_ok s w c sl" using lease_use_ok [OF assms(3), of p] by simp
  then show ?thesis using c_hold thread_parts(1) [OF assms(2), of p]
    by (auto simp: use_ok_def shows_frame_def)
next
  case (c_shut w c sl)
  then have "use_ok s w c sl" using lease_use_ok [OF assms(3), of p] by simp
  then show ?thesis using c_shut thread_parts(1) [OF assms(2), of p] by (auto simp: use_ok_def)
next
  case (c_drop w c sl d)
  then have "use_ok s w c sl" using lease_use_ok [OF assms(3), of p] by simp
  then show ?thesis using c_drop by (auto simp: use_ok_def)
next
  case (c_claim page c sl k n)
  then show ?thesis using thread_parts(1) [OF assms(2), of p] assms(4) by (auto simp: inv_page_def)
qed (use thread_parts(1) [OF assms(2), of p] in \<open>auto simp: uses_covered_def\<close>)

lemma ctrans_owned:
  assumes "ctrans p s s'" "owns (cpc s' p) = Some w"
  shows "owns (cpc s p) = Some w \<or> wordm s w = 0 \<and> page_of (cpc s p) = Some (word_page w) \<and>
     w \<in> set (all_words (pages s))"
  using assms
  by (cases rule: ctrans.cases) (fastforce simp: set_all_words dest: map_of_SomeD split: if_splits)+

lemma ctrans_page_of:
  "ctrans p s s' \<Longrightarrow> page_of (cpc s' p) = Some page \<Longrightarrow> page_of (cpc s p) = Some page \<or> \<not> quiet s page"
  by (erule ctrans.cases) (auto split: if_splits)

lemma ctrans_own:
  assumes "ctrans p s s'" "inv_own s" "inv_use s" "inv_page s" "inv_cursor s"
  shows "inv_own s'"
proof -
  note fr = ctrans_frame [OF assms(1)]
  have other: "cpc s' q = cpc s q" if "q \<noteq> p" for q using fr that by blast
  have ok: "thread_ok s' (cpc s' q)" for q
  proof (cases "q = p")
    case False
    have "thread_ok s' (cpc s q)"
      by (rule thread_ok_frame [OF thread_parts(1) [OF assms(2)]])
        (use fr ctrans_others [OF assms(1-3) False] in auto)
    then show ?thesis using other False by simp
  qed (use ctrans_self [OF assms] in simp)
  have p_new: "\<not> (owns (cpc s q) = Some w)" if "owns (cpc s' p) = Some w" "q \<noteq> p" for q w
    using ctrans_owned [OF assms(1) that(1)] thread_parts(2) [OF assms(2), of p w q] that(2)
      owned_word_nonzero [OF assms(2,3), of q w] by blast
  have inj: "q = r" if "owns (cpc s' q) = Some w" "owns (cpc s' r) = Some w" for q r w
    using that p_new other thread_parts(2) [OF assms(2), of q w r] by metis
  have nq: "\<not> quiet s page" if "page_of (cpc s' q) = Some page" for q page
    using that other ctrans_page_of [OF assms(1)] thread_parts(4) [OF assms(2)] by metis
  have free: "opc s \<noteq> Some w" if "wordm s w = 0" "\<not> quiet s (word_page w)" for w
    using assms(4) that unfolding inv_page_def by metis
  have word: "w \<in> set (all_words (pages s)) \<and> opc s \<noteq> Some w" if "owns (cpc s' q) = Some w" for q w
  proof (cases "q = p")
    case True
    then show ?thesis
      using ctrans_owned [OF assms(1)] that thread_parts(3,4) [OF assms(2), of p] free by metis
  qed (use that other thread_parts(3) [OF assms(2)] in metis)
  show ?thesis
    unfolding inv_own_def using ok inj word nq fr by (intro conjI allI impI) (metis+)
qed

lemma ctrans_gpu:
  assumes "ctrans p s s'" "inv_gpu s" "inv_own s" "inv_use s"
  shows "inv_gpu s'"
  unfolding inv_gpu_def
proof (intro allI impI)
  fix w c sl v assume act: "active s' w c sl v"
  note fr = ctrans_frame [OF assms(1)]
  have old: "async s (word_page w) \<and> opc s \<noteq> Some w \<and> (pendm s w \<noteq> 0 \<longrightarrow> v \<le> valm s w) \<and>
      wordm s w \<noteq> 0 \<and> (\<forall>q. owns (cpc s q) = Some w \<longrightarrow> user_of (cpc s q) = Some (w, c, sl))"
    if "active s w c sl v"
    using that assms(2) active_use_ok [OF assms(4) that] by (auto simp: inv_gpu_def use_ok_def)
  show "async s' (word_page w) \<and> opc s' \<noteq> Some w \<and> (pendm s' w \<noteq> 0 \<longrightarrow> v \<le> valm s' w) \<and>
     (\<forall>q. owns (cpc s' q) = Some w \<longrightarrow> user_of (cpc s' q) = Some (w, c, sl))"
  proof (cases "active s w c sl v")
    case True
    note o = old [OF True]
    then have self: "owns (cpc s p) = Some w \<Longrightarrow> user_of (cpc s p) = Some (w, c, sl)" by blast
    from assms(1) show ?thesis
    proof (cases rule: ctrans.cases)
      case (c_drop w0 c0 sl0 d)
      then have "w \<noteq> w0" using act by (auto simp: active_def uses_covered_def)
      then show ?thesis using o c_drop by auto
    next
      case (c_pending w0 c0 sl0 v0)
      then show ?thesis
        using True o self thread_parts(1) [OF assms(3), of p]
        by (auto simp: active_def uses_covered_def split: option.splits)
    next
      case (c_submit w0 c0 sl0 d v0)
      then show ?thesis using o True act by (auto simp: active_def split: if_splits)
    next
      case (c_defer w0 c0 sl0 d v0)
      then show ?thesis using o self True thread_parts(1) [OF assms(3), of p]
        by (auto simp: active_def uses_covered_def split: if_splits)
    qed (use o self thread_parts(1) [OF assms(3), of p] in \<open>auto split: if_splits\<close>)
  next
    case False
    from assms(1) show ?thesis
    proof (cases rule: ctrans.cases)
      case (c_submit w0 c0 sl0 d v0)
      then have w: "w = w0" "c = c0" "sl = sl0" using act False by (auto simp: active_def split: if_splits)
      have "q = p" if "owns (cpc s q) = Some w0" for q
        using thread_parts(2) [OF assms(3) that, of p] c_submit by simp
      then show ?thesis
        using w c_submit thread_parts(1,3) [OF assms(3), of p] by auto
    qed (use act False in \<open>auto simp: active_def\<close>)
  qed
qed

lemma ctrans_page:
  assumes "ctrans p s s'" "inv_page s" "inv_own s" "inv_use s"
  shows "inv_page s'"
  using assms(1)
proof (cases rule: ctrans.cases)
  case (c_pending w c sl v)
  then show ?thesis
    using assms(2) owned_word_nonzero [OF assms(3,4), of p w] thread_parts(3) [OF assms(3), of p w]
    by (auto simp: inv_page_def)
next
  case (c_retire w c sl v)
  then show ?thesis
    using assms(2) owned_word_nonzero [OF assms(3,4), of p w] thread_parts(3) [OF assms(3), of p w]
    by (auto simp: inv_page_def)
next
  case (c_release w)
  then show ?thesis
    using assms(2) thread_parts(1,3) [OF assms(3), of p] by (auto simp: inv_page_def)
next
  case (c_claim page c sl k n)
  then show ?thesis
    using assms(2) thread_parts(1) [OF assms(3), of p] by (auto simp: inv_page_def)
qed (use assms(2) in \<open>auto simp: inv_page_def\<close>)

lemma ctrans_inv:
  assumes "ctrans p s s'" "p \<in> set ts" "proto_inv ts s"
  shows "proto_inv ts s'"
proof -
  have i: "inv_cursor s" "inv_unique s" "inv_live s" "inv_ppc s" "inv_use s" "inv_own s" "inv_gpu s"
    "inv_page s" using assms(3) by (auto simp: proto_inv_def)
  note fr = ctrans_frame [OF assms(1)]
  show ?thesis
    unfolding proto_inv_def
    using ctrans_static(1-4) [OF assms(1)] i ctrans_use [OF assms(1) i(6,5,7,3,4)]
      ctrans_own [OF assms(1) i(6,5,8,1)] ctrans_gpu [OF assms(1) i(7,6,5)]
      ctrans_page [OF assms(1) i(8,6,5)] assms(2,3) fr
    by (metis proto_inv_def)
qed

section \<open>Completion, shutdown and exit keep the invariant\<close>

lemma cleanup_frame:
  "cleanup_step ts a s = Some s' \<Longrightarrow> st s' = st s \<and> desc s' = desc s \<and> cell s' = cell s \<and>
     resv s' = resv s \<and> ppc s' = ppc s \<and> pcur s' = pcur s \<and> latestw s' = latestw s \<and>
     pages s' = pages s \<and> next_page s' = next_page s \<and> plog s' = plog s \<and> gpu s' = gpu s \<and>
     valm s' = valm s \<and> (\<forall>p. cpc s' p = cpc s p \<or> cpc s' p = CIdle) \<and>
     (\<forall>page. tline s page \<le> tline s' page) \<and> (\<forall>page. async s page \<longrightarrow> async s' page)"
  by (cases a) (auto split: if_splits option.splits)

lemma cleanup_static:
  assumes "cleanup_step ts a s = Some s'"
  shows "inv_cursor s' = inv_cursor s" "inv_unique s' = inv_unique s" "inv_live s' = inv_live s"
    "inv_ppc s' = inv_ppc s" "busy s' sl = busy s sl" "shows_frame s' sl f = shows_frame s sl f"
  using cleanup_frame [OF assms]
  by (auto simp: inv_cursor_def newest_def inv_unique_def inv_live_def inv_ppc_def busy_def
      shows_frame_def split: producer_pc.splits)

lemma cleanup_active:
  "cleanup_step ts a s = Some s' \<Longrightarrow> active s' w c sl v \<Longrightarrow> active s w c sl v"
  using cleanup_frame [of ts a s s'] by (auto simp: active_def intro: le_less_trans)

lemma cleanup_lease:
  "cleanup_step ts a s = Some s' \<Longrightarrow> owns (cpc s' p) = Some w \<Longrightarrow> cpc s p = cpc s' p"
  using cleanup_frame [of ts a s s'] by (metis option.distinct(1) owns.simps(7))

lemma exited_unowned:
  assumes "inv_own s" "inv_page s" "gone s (word_page w)"
  shows "owns (cpc s p) \<noteq> Some w"
  using assms thread_parts(4) [OF assms(1), of p "word_page w"] owns_page [of "cpc s p" w]
  by (auto simp: inv_page_def)

lemma pending_two_unowned: "inv_own s \<Longrightarrow> pendm s w = 2 \<Longrightarrow> owns (cpc s p) \<noteq> Some w"
  using thread_parts(1) [of s p] by (cases "cpc s p") auto

text \<open>No cleanup step changes a word that a thread owns or an asynchronous use still needs.\<close>

lemma cleanup_words:
  assumes "cleanup_step ts a s = Some s'" "inv_own s" "inv_page s" "owns (cpc s p) = Some w"
  shows "wordm s' w = wordm s w \<and> pendm s' w = pendm s w \<and> opc s' \<noteq> Some w"
  using assms(1) thread_parts(3) [OF assms(2,4)] exited_unowned [OF assms(2,3), of w p]
    pending_two_unowned [OF assms(2), of w p] assms(4)
  by (cases a) (auto split: if_splits option.splits)

lemma cleanup_async_words:
  assumes "cleanup_step ts a s = Some s'" "inv_gpu s" "active s w c sl v"
  shows "wordm s' w = wordm s w \<and> opc s' \<noteq> Some w \<and> (pendm s' w \<noteq> 0 \<longrightarrow> v \<le> valm s w)"
proof -
  have g: "async s (word_page w)" "opc s \<noteq> Some w" "pendm s w \<noteq> 0 \<longrightarrow> v \<le> valm s w"
    using assms(2,3) by (auto simp: inv_gpu_def)
  have "\<not> (pendm s w = 2 \<and> valm s w \<le> tline s (word_page w))"
    using g(3) assms(3) by (force simp: active_def)
  with assms(1) g show ?thesis by (cases a) (auto split: if_splits option.splits)
qed

lemma cleanup_use:
  assumes "cleanup_step ts a s = Some s'" "inv_use s" "inv_own s" "inv_gpu s" "inv_page s"
  shows "inv_use s'"
  unfolding inv_use_def
proof (intro allI impI)
  fix w c sl assume "uses s' w c sl"
  then consider p where "lease_of (cpc s' p) = Some (w, c, sl)" | v where "active s' w c sl v"
    by (auto simp: uses_def)
  then have "use_ok s w c sl \<and> wordm s' w = wordm s w"
  proof cases
    case 1
    then have eq: "cpc s p = cpc s' p" using cleanup_lease [OF assms(1)] lease_owns by blast
    then show ?thesis
      using lease_use_ok [OF assms(2), of p] cleanup_words [OF assms(1,3,5), of p w] lease_owns 1 by metis
  next
    case 2
    then show ?thesis
      using active_use_ok [OF assms(2)] cleanup_active [OF assms(1)] cleanup_async_words [OF assms(1,4)] by metis
  qed
  then show "use_ok s' w c sl"
    using cleanup_frame [OF assms(1)] cleanup_static(5,6) [OF assms(1)] by (auto simp: use_ok_def)
qed

lemma cleanup_quiet:
  assumes "cleanup_step ts a s = Some s'" "inv_own s" "\<forall>p. p \<notin> set ts \<longrightarrow> cpc s p = CIdle"
    "page_of (cpc s' p) = Some page"
  shows "\<not> quiet s' page"
proof -
  have "cpc s' p = cpc s p" using cleanup_frame [OF assms(1)] assms(4) by (metis option.distinct(1) page_of.simps(1))
  then have nq: "\<not> quiet s page" "page_of (cpc s p) = Some page"
    using thread_parts(4) [OF assms(2), of p page] assms(4) by auto
  moreover have "p \<in> set ts" using assms(3) nq(2) by (metis option.distinct(1) page_of.simps(1))
  ultimately show ?thesis
    using assms(1,4) by (cases a) (auto simp: threads_idle_def list_all_iff on_page_def split: if_splits option.splits)
qed

lemma cleanup_own:
  assumes "cleanup_step ts a s = Some s'" "inv_own s" "inv_page s" "\<forall>p. p \<notin> set ts \<longrightarrow> cpc s p = CIdle"
  shows "inv_own s'"
proof -
  note fr = cleanup_frame [OF assms(1)]
  have ok: "thread_ok s' (cpc s' p)" for p
  proof (cases "cpc s' p = CIdle")
    case False
    then have eq: "cpc s' p = cpc s p" using fr by metis
    have "thread_ok s' (cpc s p)"
      by (rule thread_ok_frame [OF thread_parts(1) [OF assms(2)]])
        (use fr cleanup_words [OF assms(1-3)] in auto)
    then show ?thesis by (simp add: eq)
  qed simp
  have own: "cpc s p = cpc s' p" if "owns (cpc s' p) = Some w" for p w
    by (rule cleanup_lease [OF assms(1) that])
  have inj: "p = q" if "owns (cpc s' p) = Some w" "owns (cpc s' q) = Some w" for p q w
    using that own thread_parts(2) [OF assms(2)] by metis
  have word: "w \<in> set (all_words (pages s')) \<and> opc s' \<noteq> Some w" if "owns (cpc s' p) = Some w" for p w
    using that own [OF that] thread_parts(3) [OF assms(2), of p w] cleanup_words [OF assms(1-3), of p w] fr by simp
  show ?thesis
    unfolding inv_own_def using ok inj word cleanup_quiet [OF assms(1,2,4)] by blast
qed

lemma cleanup_gpu:
  assumes "cleanup_step ts a s = Some s'" "inv_gpu s"
  shows "inv_gpu s'"
  unfolding inv_gpu_def
proof (intro allI impI)
  fix w c sl v assume "active s' w c sl v"
  then have act: "active s w c sl v" by (rule cleanup_active [OF assms(1)])
  have "owns (cpc s' p) = Some w \<longrightarrow> user_of (cpc s' p) = Some (w, c, sl)" for p
    using cleanup_lease [OF assms(1), of p w] act assms(2) unfolding inv_gpu_def by metis
  then show "async s' (word_page w) \<and> opc s' \<noteq> Some w \<and> (pendm s' w \<noteq> 0 \<longrightarrow> v \<le> valm s' w) \<and>
      (\<forall>p. owns (cpc s' p) = Some w \<longrightarrow> user_of (cpc s' p) = Some (w, c, sl))"
    using cleanup_async_words [OF assms(1,2) act] cleanup_frame [OF assms(1)] act assms(2)
    unfolding inv_gpu_def by metis
qed

lemma cleanup_page:
  "cleanup_step ts a s = Some s' \<Longrightarrow> inv_page s \<Longrightarrow> inv_page s'"
  by (cases a) (auto simp: inv_page_def split: if_splits option.splits)

lemma cleanup_inv:
  assumes "cleanup_step ts a s = Some s'" "proto_inv ts s"
  shows "proto_inv ts s'"
proof -
  have i: "inv_cursor s" "inv_unique s" "inv_live s" "inv_ppc s" "inv_use s" "inv_own s" "inv_gpu s"
    "inv_page s" "\<forall>p. p \<notin> set ts \<longrightarrow> cpc s p = CIdle" using assms(2) by (auto simp: proto_inv_def)
  show ?thesis
    unfolding proto_inv_def
    using cleanup_static(1-4) [OF assms(1)] i cleanup_use [OF assms(1) i(5,6,7,8)]
      cleanup_own [OF assms(1) i(6,8,9)] cleanup_gpu [OF assms(1) i(7)] cleanup_page [OF assms(1) i(8)]
      cleanup_frame [OF assms(1)]
    by metis
qed

section \<open>Every reachable state\<close>

lemma proto_init_inv: "proto_inv ts (proto_init n h)"
  by (simp add: proto_inv_def proto_init_def inv_cursor_def newest_def inv_unique_def inv_live_def
      inv_ppc_def inv_use_def uses_def active_def inv_own_def inv_gpu_def inv_page_def pages_ok_def MAX_GENERATION_def)

lemma proto_step_inv: "proto_step ts a s = Some s' \<Longrightarrow> proto_inv ts s \<Longrightarrow> proto_inv ts s'"
  by (cases a) (auto split: if_splits
      dest: ptrans_inv [OF producer_step_ptrans] ctrans_inv [OF consumer_step_ctrans] cleanup_inv)

lemma proto_reachable_inv: "proto_reachable ts n h s \<Longrightarrow> proto_inv ts s"
  by (induction rule: proto_reachable.induct) (auto simp: proto_init_inv intro: proto_step_inv)

lemma proto_run_reachable:
  "proto_run ts as s = Some s' \<Longrightarrow> proto_reachable ts n h s \<Longrightarrow> proto_reachable ts n h s'"
  by (induction as arbitrary: s) (auto split: option.splits intro: proto_next)

text \<open>The log of publications only grows.\<close>

definition inv_log :: "proto \<Rightarrow> bool" where
  "inv_log s \<longleftrightarrow>
     (\<forall>c f. plog s c = Some f \<longrightarrow> c \<noteq> 0 \<and> c \<le> newest s \<and> fd_cursor (pub_descriptor f) = c) \<and>
     (\<forall>sl f. ppc s = PState sl f \<longrightarrow> fd_cursor (pub_descriptor f) = pcur s + 1)"

lemma ptrans_log:
  assumes "ptrans s s'" "inv_log s" "inv_cursor s"
  shows "inv_log s' \<and> (plog s c = Some f \<longrightarrow> plog s' c = Some f)"
proof -
  have bump: "x \<le> pcur s \<Longrightarrow> x \<le> pcur s + 1" "x \<le> pcur s \<Longrightarrow> x \<noteq> pcur s + 1" "pcur s + 1 \<noteq> 0"
    if "working (ppc s)" for x
  proof -
    have "pcur s < MAX_GENERATION" using that assms(3) by (simp add: inv_cursor_def)
    from next_generation [OF this]
    show "x \<le> pcur s \<Longrightarrow> x \<le> pcur s + 1" "x \<le> pcur s \<Longrightarrow> x \<noteq> pcur s + 1" "pcur s + 1 \<noteq> 0"
      by auto
  qed
  from assms(1) show ?thesis
    by (cases rule: ptrans.cases)
      (use assms(2) bump in \<open>auto simp: inv_log_def newest_def with_cursor_def split: if_splits\<close>)
qed

lemma proto_step_log:
  assumes "proto_step ts a s = Some s'" "inv_log s" "inv_cursor s"
  shows "inv_log s' \<and> (plog s c = Some f \<longrightarrow> plog s' c = Some f)"
proof (cases a)
  case (Producer pa)
  then show ?thesis using assms ptrans_log [OF producer_step_ptrans] by simp
next
  case (Consumer p ca)
  then have "ctrans p s s'" using assms(1) consumer_step_ctrans by (simp split: if_splits)
  from ctrans_frame [OF this] show ?thesis using assms(2) by (auto simp: inv_log_def newest_def)
next
  case (Cleanup ca)
  then have "cleanup_step ts ca s = Some s'" using assms(1) by simp
  from cleanup_frame [OF this] show ?thesis using assms(2) by (auto simp: inv_log_def newest_def)
qed

lemma proto_reachable_log: "proto_reachable ts n h s \<Longrightarrow> inv_log s"
proof (induction rule: proto_reachable.induct)
  case proto_start
  then show ?case by (simp add: inv_log_def proto_init_def)
next
  case (proto_next s a s')
  then show ?case
    using proto_step_log proto_reachable_inv unfolding proto_inv_def by blast
qed

section \<open>Properties\<close>

text \<open>C8. Leases are safe in every interleaving of the producer, the consumer threads, delegated
  writers, reconfiguration and cleanup: while a thread holds a validated claim for cursor \<open>c\<close>,
  its slot shows exactly the frame published under \<open>c\<close> (every payload byte and the descriptor,
  which carries that cursor), no one is writing to the slot, and the descriptor copied into the
  lease is the published one.\<close>

theorem lease_storage_is_published_frame:
  assumes "proto_reachable ts n h s" and "lease_of (cpc s p) = Some (w, c, sl)"
  shows "\<exists>f. plog s c = Some f \<and> shows_frame s sl f \<and> fd_cursor (pub_descriptor f) = c \<and> \<not> busy s sl \<and>
     (\<forall>d. cpc s p = CHolding w c sl d \<longrightarrow> d = pub_descriptor f)"
proof -
  have inv: "inv_use s" "inv_own s"
    using proto_reachable_inv [OF assms(1)] by (auto simp: proto_inv_def)
  have "use_ok s w c sl" by (rule lease_use_ok [OF inv(1) assms(2)])
  then obtain f where f: "plog s c = Some f" "shows_frame s sl f" "\<not> busy s sl"
    by (auto simp: use_ok_def)
  then show ?thesis
    using proto_reachable_log [OF assms(1)] thread_parts(1) [OF inv(2), of p]
    by (auto simp: inv_log_def)
qed

definition sample_frame :: published where
  "sample_frame = \<lparr> pub_descriptor = default_descriptor\<lparr> fd_width := 4 \<rparr>, pub_bytes = [7] \<rparr>"

definition sample_trace :: "proto_action list" where
  "sample_trace =
     [Producer (Attach 1), Producer (BeginPublish sample_frame 0), Producer Examine,
      Producer RetireStore, Producer ScanWord, Producer CopyByte, Producer CopyByte,
      Producer WriteDescriptor, Producer StoreState, Producer StoreRing, Producer StoreLatest,
      Consumer 0 (Select 1 1 1), Consumer 0 TryClaim, Consumer 0 Validate,
      Consumer 0 (Recheck True)]"

lemma sample_trace_lease:
  "\<exists>s. proto_run [0] sample_trace (proto_init 2 1) = Some s \<and>
     lease_of (cpc s 0) = Some (ClaimWord 1 0, 1, StorageSlot 1 0) \<and> cell s (StorageSlot 1 0) 0 = 7"
  by (simp add: sample_trace_def proto_init_def sample_frame_def slot_order_def all_words_def
      upt_rec Let_def claim_free_def with_cursor_def proto_oldest_def MAX_GENERATION_def)

theorem lease_storage_is_published_frame_witness:
  "\<exists>s f. proto_run [0] sample_trace (proto_init 2 1) = Some s \<and> plog s 1 = Some f \<and>
     shows_frame s (StorageSlot 1 0) f"
proof -
  obtain s where s: "proto_run [0] sample_trace (proto_init 2 1) = Some s"
    "lease_of (cpc s 0) = Some (ClaimWord 1 0, 1, StorageSlot 1 0)"
    using sample_trace_lease by blast
  show ?thesis
    using lease_storage_is_published_frame [OF proto_run_reachable [OF s(1) proto_start] s(2)] s(1) by blast
qed


text \<open>The consumer registers a timeline, submits work up to value 5 and exits without releasing.\<close>

definition sample_crash :: "proto_action list" where
  "sample_crash = sample_trace @
     [Cleanup (RegisterTimeline 1), Consumer 0 (Submit 5), Cleanup (Exit 1)]"

lemma sample_crash_state:
  "\<exists>s. proto_run [0] sample_crash (proto_init 2 1) = Some s \<and>
     gpu s (ClaimWord 1 0) = Some (1, StorageSlot 1 0, 5) \<and> tline s 1 < 5 \<and> cpc s 0 = CIdle"
  by (simp add: sample_crash_def sample_trace_def proto_init_def sample_frame_def slot_order_def
      all_words_def upt_rec Let_def claim_free_def with_cursor_def proto_oldest_def
      MAX_GENERATION_def uses_covered_def on_page_def)


text \<open>A publication is final: no step of any participant changes or removes the frame that was
  published under a cursor, and no two slots ever carry the same generation.\<close>

theorem publications_final_and_unique:
  assumes "proto_reachable ts n h s" and "proto_step ts a s = Some s'"
  shows "(plog s c = Some f \<longrightarrow> plog s' c = Some f) \<and>
     (sl \<noteq> sl' \<longrightarrow> gen_at s' sl \<noteq> 0 \<longrightarrow> gen_at s' sl \<noteq> gen_at s' sl')"
proof -
  have "inv_cursor s" using proto_reachable_inv [OF assms(1)] by (simp add: proto_inv_def)
  moreover have "inv_unique s'"
    using proto_reachable_inv [OF proto_next [OF assms]] by (simp add: proto_inv_def)
  ultimately show ?thesis
    using proto_step_log [OF assms(2) proto_reachable_log [OF assms(1)]] by (auto simp: inv_unique_def)
qed

lemma sample_trace_holding:
  "\<exists>s d f. proto_run [0] sample_trace (proto_init 2 1) = Some s \<and>
     cpc s 0 = CHolding (ClaimWord 1 0) 1 (StorageSlot 1 0) d \<and> gpu s (ClaimWord 1 0) = None \<and>
     plog s 1 = Some f"
  by (simp add: sample_trace_def proto_init_def sample_frame_def slot_order_def all_words_def
      upt_rec Let_def claim_free_def with_cursor_def proto_oldest_def MAX_GENERATION_def)

theorem publications_final_and_unique_witness:
  "\<exists>s s' f. proto_run [0] sample_trace (proto_init 2 1) = Some s \<and>
     proto_step [0] (Consumer 0 DropLease) s = Some s' \<and> plog s 1 = Some f \<and> plog s' 1 = Some f"
proof -
  obtain s d f where s: "proto_run [0] sample_trace (proto_init 2 1) = Some s"
    "cpc s 0 = CHolding (ClaimWord 1 0) 1 (StorageSlot 1 0) d" "gpu s (ClaimWord 1 0) = None"
    "plog s 1 = Some f"
    using sample_trace_holding by blast
  then obtain s' where step: "proto_step [0] (Consumer 0 DropLease) s = Some s'"
    by (simp add: uses_covered_def)
  show ?thesis
    using publications_final_and_unique [OF proto_run_reachable [OF s(1) proto_start] step, of 1 f] s step
    by blast
qed

end
