(* ===== verification/Arena_Cleanup.thy ===== *)
theory Arena_Cleanup
  imports Arena_Memory
begin

text \<open>
  The cleanup owner of an admitted incarnation (\<open>ObservationState\<close> of
  \<open>acquisition/arena/cleanup.rs\<close>) and the consumer-local retirement owner (\<open>State\<close> of
  \<open>acquisition/arena/retirement.rs\<close>).  Both act on the shared claim page of the incarnation,
  which is passed explicitly beside the owner's private state.  What the outside world answers
  during a call - the clock, whether the watched process exited, the completion value of a
  registered timeline, whether a notification could be registered - is the \<open>env\<close> record.  An
  answer may differ between two reads within one call, so it is indexed by the claim slot
  being examined.
\<close>

section \<open>Environment\<close>

record env =
  now :: nat
  instant_limit :: nat
  host_time_ns :: u64
  exited :: "nat \<Rightarrow> (bool, string) outcome"
  completed_value :: "nat \<Rightarrow> nat \<Rightarrow> (u64, string) outcome"
  notify_at :: "nat \<Rightarrow> nat \<Rightarrow> u64 \<Rightarrow> (bool, string) outcome"
  retired_ready :: "nat \<Rightarrow> (bool, arena_error) outcome"

text \<open>\<open>Instant::checked_add\<close>: the sum, when the platform can represent it.\<close>

definition instant_add :: "env \<Rightarrow> nat \<Rightarrow> nat option" where
  "instant_add e d = (if now e + d \<le> instant_limit e then Some (now e + d) else None)"

section \<open>The producer's observer\<close>

record observation =
  os_native :: bool
  os_process :: "nat option"
  os_unresolved :: nat
  os_drain_timeout :: nat
  os_drain_deadline :: "nat option"
  os_drain_expired :: bool
  os_timelines :: "nat list"
  os_armed :: "bool option list"
  os_failure :: "string option"
  os_notification_failed :: bool
  os_released :: u64

type_synonym observed = "observation \<times> claim_map"

definition observation_new :: "bool \<Rightarrow> nat option \<Rightarrow> nat \<Rightarrow> nat \<Rightarrow> observation" where
  "observation_new native process timeout n =
     \<lparr> os_native = native, os_process = process, os_unresolved = 0, os_drain_timeout = timeout,
       os_drain_deadline = None, os_drain_expired = False, os_timelines = [],
       os_armed = replicate n None, os_failure = None, os_notification_failed = False,
       os_released = 0 \<rparr>"

definition os_fail :: "string \<Rightarrow> observed \<Rightarrow> observed" where
  "os_fail reason = (\<lambda>(st, c). (st\<lparr> os_failure := Some reason \<rparr>, claim_close c))"

definition os_fail_notification :: "string \<Rightarrow> observed \<Rightarrow> observed" where
  "os_fail_notification reason =
     (\<lambda>(st, c). os_fail reason (st\<lparr> os_notification_failed := True \<rparr>, c))"

definition os_return_credit :: "nat \<Rightarrow> observed \<Rightarrow> observed" where
  "os_return_credit i =
     (\<lambda>(st, c). (st\<lparr> os_released := saturating_add (os_released st) 1 \<rparr>, return_credit c i))"

text \<open>What happens to one claim slot when the watched process has exited.\<close>

definition exit_slot :: "nat \<Rightarrow> observed \<Rightarrow> observed" where
  "exit_slot i = (\<lambda>(st, c).
     if slot_words c ! i = 0 then (st, c)
     else let r = release_pendings c ! i in
       if r = 1 \<or> r = 2 then (st, c\<lparr> release_pendings := (release_pendings c)[i := 2] \<rparr>)
       else if r = 0 \<and> \<not> os_native st \<and> os_timelines st = [] then os_return_credit i (st, c)
       else if r = 0 then (st\<lparr> os_unresolved := os_unresolved st + 1 \<rparr>, c)
       else os_fail ''invalid release state at process exit'' (st, c))"

definition observe_process :: "env \<Rightarrow> observed \<Rightarrow> observed" where
  "observe_process e = (\<lambda>(st, c).
     case os_process st of
       None \<Rightarrow> (st, c)
     | Some process \<Rightarrow>
       (case exited e process of
          Ok False \<Rightarrow> (st, c)
        | Err error \<Rightarrow> os_fail_notification error (st\<lparr> os_process := None \<rparr>, c)
        | Panic \<Rightarrow> (st, c)
        | Ok True \<Rightarrow>
          let c1 = acknowledge_quiescent (claim_close c);
              c2 = c1\<lparr> mapping_slots := replicate (cm_frames c1 + 2) 0 \<rparr>
          in fold exit_slot [0..<cm_frames c2] (st\<lparr> os_process := None \<rparr>, c2)))"

definition observe_deadline :: "env \<Rightarrow> observed \<Rightarrow> observed" where
  "observe_deadline e = (\<lambda>(st, c).
     if w_active c \<noteq> 0 \<or> claim_drained c then (st, c)
     else let (st1, c1) =
         (if os_drain_deadline st = None
          then (case instant_add e (os_drain_timeout st) of
                  Some t \<Rightarrow> (st\<lparr> os_drain_deadline := Some t \<rparr>, c)
                | None \<Rightarrow> os_fail ''drain deadline is not representable; resources remain quarantined'' (st, c))
          else (st, c))
       in case os_drain_deadline st1 of
            Some deadline \<Rightarrow>
              if deadline \<le> now e then (st1\<lparr> os_drain_expired := True \<rparr>, c1) else (st1, c1)
          | None \<Rightarrow> (st1, c1))"

definition os_failure_reason :: "observed \<Rightarrow> string option" where
  "os_failure_reason = (\<lambda>(st, c).
     if claim_drained c then None
     else case os_failure st of
       Some r \<Rightarrow> Some r
     | None \<Rightarrow>
       if os_unresolved st \<noteq> 0
       then Some ''process exited with asynchronous claims lacking completion evidence; resources remain quarantined''
       else if os_drain_expired st
       then Some ''drain deadline expired; claims or claim-page access remain unresolved''
       else None)"

definition wake_deadline :: "observed \<Rightarrow> nat option" where
  "wake_deadline = (\<lambda>(st, c).
     if claim_drained c \<or> os_failure_reason (st, c) \<noteq> None then None else os_drain_deadline st)"

text \<open>One iteration of the loop of \<open>ObservationState::poll\<close>; the flag says that the loop goes on.\<close>

definition observe_slot :: "env \<Rightarrow> nat \<Rightarrow> observed \<Rightarrow> bool \<times> observed" where
  "observe_slot e i = (\<lambda>(st, c).
     let st1 = (if os_armed st ! i = Some True then st\<lparr> os_armed := (os_armed st)[i := None] \<rparr> else st);
         r = release_pendings c ! i
     in if r = 0 then (True, (st1, c))
        else if r \<noteq> 1 \<and> r \<noteq> 2 then (False, os_fail ''invalid deferred release state'' (st1, c))
        else let timeline = release_ids c ! i; v = release_values c ! i in
          if timeline = 0 \<or> length (os_timelines st1) < unat timeline
          then (False, os_fail ''deferred release names an unregistered timeline'' (st1, c))
          else let source = os_timelines st1 ! (unat timeline - 1) in
            (case completed_value e source i of
               Err error \<Rightarrow> (False, os_fail error (st1, c))
             | Panic \<Rightarrow> (False, (st1, c))
             | Ok completed \<Rightarrow>
               if v \<le> completed \<and> r = 2 then (True, os_return_credit i (st1, c))
               else if completed < v \<and> os_armed st1 ! i = None
               then (case notify_at e source i v of
                       Ok fired \<Rightarrow> (True, (st1\<lparr> os_armed := (os_armed st1)[i := Some fired] \<rparr>, c))
                     | Err error \<Rightarrow> (False, os_fail error (st1, c))
                     | Panic \<Rightarrow> (False, (st1, c)))
               else (True, (st1, c))))"

fun observe_slots :: "env \<Rightarrow> nat list \<Rightarrow> observed \<Rightarrow> observed" where
  "observe_slots e [] x = x"
| "observe_slots e (i # is) x = (case observe_slot e i x of (True, y) \<Rightarrow> observe_slots e is y | (False, y) \<Rightarrow> y)"

definition observation_poll :: "env \<Rightarrow> observed \<Rightarrow> observed" where
  "observation_poll e x =
     (let y = observe_deadline e (observe_process e x) in
      if os_failure (fst y) \<noteq> None then y
      else observe_slots e [0..<cm_frames (snd y)] y)"

section \<open>The consumer's retirement owner\<close>

record pending_use =
  pu_resources :: "nat option"
  pu_timeline :: nat
  pu_value :: u64
  pu_armed :: "bool option"

record retirement =
  rt_sources :: "nat option list"
  rt_slots :: "pending_use list"
  rt_signaled :: bool
  rt_closed :: bool
  rt_failure :: "string option"
  rt_drain_timeout :: nat
  rt_deadline :: "nat option"

type_synonym retiring = "retirement \<times> claim_map"

definition default_pending :: pending_use where
  "default_pending = \<lparr> pu_resources = None, pu_timeline = 0, pu_value = 0, pu_armed = None \<rparr>"

definition retirement_new :: "nat \<Rightarrow> nat \<Rightarrow> retirement" where
  "retirement_new n timeout =
     \<lparr> rt_sources = replicate n None, rt_slots = replicate n default_pending, rt_signaled = False,
       rt_closed = False, rt_failure = None, rt_drain_timeout = timeout, rt_deadline = None \<rparr>"

definition rt_empty :: "retirement \<Rightarrow> bool" where
  "rt_empty r \<longleftrightarrow> list_all (\<lambda>p. pu_resources p = None) (rt_slots r)"

definition rt_failure_reason :: "env \<Rightarrow> retirement \<Rightarrow> string option" where
  "rt_failure_reason e r =
     (if rt_empty r then None
      else case rt_failure r of
        Some x \<Rightarrow> Some x
      | None \<Rightarrow>
        (case rt_deadline r of
           Some t \<Rightarrow> if t \<le> now e
                     then Some ''consumer retirement deadline expired; mappings remain retained'' else None
         | None \<Rightarrow> None))"

definition rt_fail :: "string \<Rightarrow> retiring \<Rightarrow> retiring" where
  "rt_fail reason = (\<lambda>(r, c). (r\<lparr> rt_failure := Some reason \<rparr>, claim_close c))"

text \<open>Dropping the last \<open>Arc<ConsumerResources>\<close> unmaps the storage and clears the mapping slot;
  \<open>drop_resources\<close> is that effect, supplied by the owner of the reference counts.\<close>

definition retire_slot ::
    "env \<Rightarrow> (nat \<Rightarrow> claim_map \<Rightarrow> claim_map) \<Rightarrow> nat \<Rightarrow> retiring \<Rightarrow> (bool, arena_error) outcome \<times> retiring" where
  "retire_slot e drop_resources i = (\<lambda>(r, c).
     let p0 = rt_slots r ! i;
         p = (if pu_armed p0 = Some True then p0\<lparr> pu_armed := None \<rparr> else p0);
         r1 = r\<lparr> rt_slots := (rt_slots r)[i := p] \<rparr>
     in case pu_resources p of
          None \<Rightarrow> (Ok True, (r1, c))
        | Some owner \<Rightarrow>
          (case rt_sources r1 ! pu_timeline p of
             None \<Rightarrow> (Panic, (r1, c))
           | Some source \<Rightarrow>
             (case completed_value e source i of
                Err error \<Rightarrow> (Ok False, rt_fail error (r1, c))
              | Panic \<Rightarrow> (Panic, (r1, c))
              | Ok completed \<Rightarrow>
                if pu_value p \<le> completed
                then let r2 = r1\<lparr> rt_slots := (rt_slots r1)[i := p\<lparr> pu_resources := None \<rparr>] \<rparr>;
                         c1 = drop_resources owner c;
                         c2 = c1\<lparr> release_pendings := (release_pendings c1)[i := 2] \<rparr>
                     in (Ok True, (r2, signal_release c2))
                else if pu_armed p = None
                then (case notify_at e source i (pu_value p) of
                        Err error \<Rightarrow> (Ok False, rt_fail error (r1, c))
                      | Panic \<Rightarrow> (Panic, (r1, c))
                      | Ok fired \<Rightarrow>
                        (Ok True, (r1\<lparr> rt_slots := (rt_slots r1)[i := p\<lparr> pu_armed := Some fired \<rparr>] \<rparr>, c)))
                else (Ok True, (r1, c)))))"

fun retire_slots ::
    "env \<Rightarrow> (nat \<Rightarrow> claim_map \<Rightarrow> claim_map) \<Rightarrow> nat list \<Rightarrow> retiring \<Rightarrow> (bool, arena_error) outcome \<times> retiring" where
  "retire_slots e d [] x = (Ok True, x)"
| "retire_slots e d (i # is) x =
     (case retire_slot e d i x of (Ok True, y) \<Rightarrow> retire_slots e d is y | (res, y) \<Rightarrow> (res, y))"

definition retirement_poll ::
    "env \<Rightarrow> (nat \<Rightarrow> claim_map \<Rightarrow> claim_map) \<Rightarrow> retiring \<Rightarrow> (unit, arena_error) outcome \<times> retiring" where
  "retirement_poll e d x =
     (if rt_failure (fst x) \<noteq> None then (Ok (), x)
      else case retire_slots e d [0..<length (rt_slots (fst x))] x of
        (Ok True, (r, c)) \<Rightarrow>
          (Ok (), if rt_closed r \<and> rt_empty r then (r, acknowledge_quiescent c) else (r, c))
      | (Ok False, y) \<Rightarrow> (Ok (), y)
      | (Err error, y) \<Rightarrow> (Err error, y)
      | (Panic, y) \<Rightarrow> (Panic, y))"

record timeline_binding =
  tb_registration_id :: u64
  tb_index :: nat
  tb_same_incarnation :: bool

definition handoff ::
    "env \<Rightarrow> timeline_binding \<Rightarrow> nat \<Rightarrow> nat \<Rightarrow> u64 \<Rightarrow> retiring \<Rightarrow> (unit, arena_error) outcome \<times> retiring" where
  "handoff e b i owner v = (\<lambda>(r, c).
     if \<not> tb_same_incarnation b
     then (Err (Mapping ''consumer completion belongs to another incarnation''), (r, c))
     else case rt_failure_reason e r of
       Some reason \<Rightarrow> (Err (RecoveryRequired reason), (r, c))
     | None \<Rightarrow>
       if pu_resources (rt_slots r ! i) \<noteq> None
       then (Err (Mapping ''consumer retirement slot is still in use''), (r, c))
       else
         let p = (rt_slots r ! i)\<lparr> pu_resources := Some owner, pu_timeline := tb_index b, pu_value := v \<rparr>;
             c1 = c\<lparr> release_ids := (release_ids c)[i := tb_registration_id b] \<rparr>;
             c2 = c1\<lparr> release_values := (release_values c1)[i := v] \<rparr>;
             c3 = c2\<lparr> release_pendings := (release_pendings c2)[i := 1] \<rparr>
         in (Ok (), (r\<lparr> rt_slots := (rt_slots r)[i := p], rt_signaled := True \<rparr>, signal_release c3)))"

definition begin_drain :: "env \<Rightarrow> retiring \<Rightarrow> retiring" where
  "begin_drain e = (\<lambda>(r, c).
     (r\<lparr> rt_deadline := (if rt_deadline r = None then instant_add e (rt_drain_timeout r) else rt_deadline r),
         rt_signaled := True \<rparr>, claim_close c))"

definition retirement_close ::
    "env \<Rightarrow> (nat \<Rightarrow> claim_map \<Rightarrow> claim_map) \<Rightarrow> retiring \<Rightarrow> (unit, arena_error) outcome \<times> retiring" where
  "retirement_close e d x =
     (case begin_drain e x of
        (r, c) \<Rightarrow>
          (case retirement_poll e d (r\<lparr> rt_closed := True \<rparr>, c) of
             (res, (r', c')) \<Rightarrow> (res, (r'\<lparr> rt_signaled := True \<rparr>, c'))))"

section \<open>What a poll may do to a claim\<close>

text \<open>Two observed states that agree on what decides about slot \<open>i\<close>: the registered timelines,
  the kind of arena, and the slot's own words.\<close>

definition same_slot :: "nat \<Rightarrow> observed \<Rightarrow> observed \<Rightarrow> bool" where
  "same_slot i x y \<longleftrightarrow> os_timelines (fst y) = os_timelines (fst x) \<and> os_native (fst y) = os_native (fst x) \<and>
     cm_frames (snd y) = cm_frames (snd x) \<and> claim_wf (snd y) = claim_wf (snd x) \<and>
     slot_words (snd y) ! i = slot_words (snd x) ! i \<and>
     release_ids (snd y) ! i = release_ids (snd x) ! i \<and>
     release_values (snd y) ! i = release_values (snd x) ! i \<and>
     release_pendings (snd y) ! i = release_pendings (snd x) ! i"

lemma same_slot_refl [simp]: "same_slot i x x"
  by (simp add: same_slot_def)

lemma same_slot_trans: "same_slot i x y \<Longrightarrow> same_slot i y z \<Longrightarrow> same_slot i x z"
  by (simp add: same_slot_def)

lemma os_fail_same [simp]: "same_slot i (st, c) (os_fail r (st', c)) = same_slot i (st, c) (st', c)"
  by (simp add: same_slot_def os_fail_def)

lemma exit_slot_other: "j \<noteq> i \<Longrightarrow> same_slot i x (exit_slot j x)"
  by (cases x) (auto simp: exit_slot_def os_return_credit_def os_fail_def Let_def same_slot_def claim_wf_def)

lemma observe_slot_other: "j \<noteq> i \<Longrightarrow> same_slot i x (snd (observe_slot e j x))"
  by (cases x)
    (auto simp: observe_slot_def os_return_credit_def os_fail_def Let_def same_slot_def claim_wf_def
      split: outcome.splits)

lemma fold_exit_other: "i \<notin> set is \<Longrightarrow> same_slot i x (fold exit_slot is x)"
proof (induction "is" arbitrary: x)
  case (Cons j "is")
  then have "same_slot i (exit_slot j x) (fold exit_slot is (exit_slot j x))" by simp
  then show ?case using same_slot_trans [OF exit_slot_other [of j i x]] Cons.prems by simp
qed simp

lemma observe_slots_other: "i \<notin> set is \<Longrightarrow> same_slot i x (observe_slots e is x)"
proof (induction "is" arbitrary: x)
  case (Cons j "is")
  then have o: "same_slot i x (snd (observe_slot e j x))" by (intro observe_slot_other) auto
  show ?case
    using Cons same_slot_trans [OF o] o by (auto split: prod.splits bool.splits)
qed simp

text \<open>The evidence on which a claim may be given up.\<close>

definition completion_evidence :: "env \<Rightarrow> observed \<Rightarrow> nat \<Rightarrow> bool" where
  "completion_evidence e x i \<longleftrightarrow>
     (let timeline = release_ids (snd x) ! i in timeline \<noteq> 0 \<and> unat timeline \<le> length (os_timelines (fst x)) \<and>
        (\<exists>v. completed_value e (os_timelines (fst x) ! (unat timeline - 1)) i = Ok v \<and>
             release_values (snd x) ! i \<le> v))"

definition exit_evidence :: "env \<Rightarrow> observed \<Rightarrow> bool" where
  "exit_evidence e x \<longleftrightarrow> \<not> os_native (fst x) \<and> os_timelines (fst x) = [] \<and>
     (\<exists>p. os_process (fst x) = Some p \<and> exited e p = Ok True)"

lemma completion_evidence_same: "same_slot i x y \<Longrightarrow> completion_evidence e y i = completion_evidence e x i"
  by (simp add: completion_evidence_def same_slot_def)

lemma observe_slot_self:
  assumes "slot_words (snd x) ! i \<noteq> 0" "slot_words (snd (snd (observe_slot e i x))) ! i = 0"
  shows "release_pendings (snd x) ! i = 2 \<and> completion_evidence e x i"
  using assms
  by (cases x)
    (auto simp: observe_slot_def completion_evidence_def os_fail_def Let_def split: if_splits outcome.splits)

lemma observe_slots_evidence:
  assumes "distinct is" "slot_words (snd x) ! i \<noteq> 0" "slot_words (snd (observe_slots e is x)) ! i = 0"
  shows "release_pendings (snd x) ! i = 2 \<and> completion_evidence e x i"
  using assms
proof (induction "is" arbitrary: x)
  case (Cons j "is")
  obtain b y where y: "observe_slot e j x = (b, y)" by (metis surj_pair)
  show ?case
  proof (cases "j = i")
    case True
    then have "i \<notin> set is" using Cons.prems(1) by simp
    then have "slot_words (snd y) ! i = 0"
      using Cons.prems(3) y observe_slots_other [of i "is" y e] by (cases b) (auto simp: same_slot_def)
    then show ?thesis using observe_slot_self [OF Cons.prems(2), of e] y True by simp
  next
    case False
    have same: "same_slot i x y" using observe_slot_other [OF False, of x e] y by simp
    then have nz: "slot_words (snd y) ! i \<noteq> 0" using Cons.prems(2) by (simp add: same_slot_def)
    then have "b" and z: "slot_words (snd (observe_slots e is y)) ! i = 0"
      using Cons.prems(3) y by (cases b; simp)+
    have "release_pendings (snd y) ! i = 2 \<and> completion_evidence e y i"
      by (rule Cons.IH [OF _ nz z]) (use Cons.prems(1) in simp)
    then show ?thesis using same completion_evidence_same [OF same] by (simp add: same_slot_def)
  qed
qed simp

text \<open>What the process-exit pass leaves of slot \<open>i\<close>.\<close>

definition exit_effect :: "nat \<Rightarrow> observed \<Rightarrow> observed \<Rightarrow> bool" where
  "exit_effect i x y \<longleftrightarrow>
     os_timelines (fst y) = os_timelines (fst x) \<and> os_native (fst y) = os_native (fst x) \<and>
     cm_frames (snd y) = cm_frames (snd x) \<and>
     release_ids (snd y) ! i = release_ids (snd x) ! i \<and>
     release_values (snd y) ! i = release_values (snd x) ! i \<and>
     (slot_words (snd y) ! i = slot_words (snd x) ! i \<or>
      slot_words (snd y) ! i = 0 \<and> release_pendings (snd x) ! i = 0 \<and> \<not> os_native (fst x) \<and>
        os_timelines (fst x) = []) \<and>
     (release_pendings (snd y) ! i = 2 \<longrightarrow> release_pendings (snd x) ! i \<in> {1, 2})"

lemma exit_effect_self: "claim_wf (snd x) \<Longrightarrow> i < cm_frames (snd x) \<Longrightarrow> exit_effect i x (exit_slot i x)"
  by (cases x) (auto simp: exit_effect_def exit_slot_def os_return_credit_def os_fail_def Let_def claim_wf_def)

lemma exit_effect_fold:
  assumes "claim_wf (snd x)" "i < cm_frames (snd x)"
  shows "exit_effect i x (fold exit_slot [0..<cm_frames (snd x)] x)"
proof -
  let ?n = "cm_frames (snd x)"
  let ?y = "fold exit_slot [0..<i] x" and ?z = "\<lambda>y. fold exit_slot [Suc i..<?n] y"
  have split: "fold exit_slot [0..<?n] x = ?z (exit_slot i ?y)"
  proof -
    have "[0..<?n] = [0..<i] @ [i..<?n]"
      using assms(2) upt_add_eq_append [of 0 i "?n - i"] by simp
    moreover have "[i..<?n] = i # [Suc i..<?n]" using assms(2) upt_conv_Cons by blast
    ultimately show ?thesis by simp
  qed
  have s1: "same_slot i x ?y" by (rule fold_exit_other) simp
  have e: "exit_effect i ?y (exit_slot i ?y)"
    by (rule exit_effect_self) (use s1 assms in \<open>auto simp: same_slot_def\<close>)
  have s2: "same_slot i (exit_slot i ?y) (?z (exit_slot i ?y))" by (rule fold_exit_other) simp
  show ?thesis
    using s1 e s2 unfolding split same_slot_def exit_effect_def by simp
qed

lemma observe_process_effect:
  assumes "claim_wf (snd x)" "i < cm_frames (snd x)"
  shows "exit_effect i x (observe_process e x)"
    and "slot_words (snd (observe_process e x)) ! i \<noteq> slot_words (snd x) ! i \<Longrightarrow>
      exit_evidence e x \<and> release_pendings (snd x) ! i = 0"
    and "cm_frames (snd (observe_process e x)) = cm_frames (snd x)"
proof -
  obtain st c where x: "x = (st, c)" by (cases x)
  let ?c = "(acknowledge_quiescent (claim_close c))\<lparr> mapping_slots := replicate (cm_frames c + 2) 0 \<rparr>"
  let ?x = "(st\<lparr> os_process := None \<rparr>, ?c)"
  have wf: "claim_wf ?c" "cm_frames ?c = cm_frames c" using assms x by (auto simp: claim_wf_def)
  have f: "exit_effect i ?x (fold exit_slot [0..<cm_frames c] ?x)"
    using exit_effect_fold [of ?x i] wf assms x by simp
  have t: "exit_effect i x (fold exit_slot [0..<cm_frames c] ?x)"
    using f by (simp add: exit_effect_def x)
  show main: "exit_effect i x (observe_process e x)"
    using t by (auto simp: x observe_process_def os_fail_notification_def os_fail_def exit_effect_def
        split: option.splits outcome.splits bool.splits)
  show "slot_words (snd (observe_process e x)) ! i \<noteq> slot_words (snd x) ! i \<Longrightarrow>
      exit_evidence e x \<and> release_pendings (snd x) ! i = 0"
    using main by (auto simp: x observe_process_def os_fail_notification_def os_fail_def exit_effect_def
        exit_evidence_def Let_def split: option.splits outcome.splits bool.splits)
  show "cm_frames (snd (observe_process e x)) = cm_frames (snd x)"
    using main by (simp add: exit_effect_def)
qed

lemma observe_deadline_same: "same_slot i x (observe_deadline e x)"
  by (cases x) (auto simp: observe_deadline_def os_fail_def same_slot_def Let_def split: option.splits)

text \<open>Counting the claims that cannot be resolved.\<close>

lemma exit_slot_unresolved_mono: "os_unresolved (fst x) \<le> os_unresolved (fst (exit_slot j x))"
  by (cases x) (auto simp: exit_slot_def os_return_credit_def os_fail_def Let_def)

lemma fold_exit_unresolved_mono: "os_unresolved (fst x) \<le> os_unresolved (fst (fold exit_slot is x))"
proof (induction "is" arbitrary: x)
  case (Cons j "is")
  show ?case using Cons.IH [of "exit_slot j x"] exit_slot_unresolved_mono [of x j] by simp
qed simp

lemma fold_exit_unresolved:
  assumes "i \<in> set is" "distinct is" "slot_words (snd x) ! i \<noteq> 0" "release_pendings (snd x) ! i = 0"
    "os_native (fst x) \<or> os_timelines (fst x) \<noteq> []"
  shows "os_unresolved (fst (fold exit_slot is x)) \<noteq> 0 \<and> slot_words (snd (fold exit_slot is x)) ! i \<noteq> 0"
  using assms
proof (induction "is" arbitrary: x)
  case (Cons j "is")
  show ?case
  proof (cases "j = i")
    case True
    obtain st c where x: "x = (st, c)" by (cases x)
    have "exit_slot i x = (st\<lparr> os_unresolved := os_unresolved st + 1 \<rparr>, c)"
      using Cons.prems by (auto simp: x exit_slot_def)
    then have "os_unresolved (fst (exit_slot i x)) \<noteq> 0" "slot_words (snd (exit_slot i x)) ! i \<noteq> 0"
      using Cons.prems by (simp_all add: x)
    moreover have "same_slot i (exit_slot i x) (fold exit_slot is (exit_slot i x))"
      by (rule fold_exit_other) (use Cons.prems True in simp)
    ultimately show ?thesis
      using fold_exit_unresolved_mono [of "exit_slot i x" "is"] True by (auto simp: same_slot_def)
  next
    case False
    have "same_slot i x (exit_slot j x)" by (rule exit_slot_other [OF False])
    then show ?thesis using Cons.IH [of "exit_slot j x"] Cons.prems False by (auto simp: same_slot_def)
  qed
qed simp

lemma observe_slot_unresolved [simp]: "os_unresolved (fst (snd (observe_slot e i x))) = os_unresolved (fst x)"
  by (cases x)
    (auto simp: observe_slot_def os_return_credit_def os_fail_def Let_def split: outcome.splits)

lemma observe_slots_unresolved [simp]: "os_unresolved (fst (observe_slots e is x)) = os_unresolved (fst x)"
proof (induction "is" arbitrary: x)
  case (Cons i "is")
  obtain b y where y: "observe_slot e i x = (b, y)" by (metis surj_pair)
  then show ?case using Cons observe_slot_unresolved [of e i x] by (cases b) auto
qed simp

lemma observe_deadline_unresolved [simp]: "os_unresolved (fst (observe_deadline e x)) = os_unresolved (fst x)"
  by (cases x) (auto simp: observe_deadline_def os_fail_def Let_def split: option.splits)

lemma observe_slots_frames [simp]: "cm_frames (snd (observe_slots e is x)) = cm_frames (snd x)"
proof (induction "is" arbitrary: x)
  case (Cons i "is")
  obtain b y where y: "observe_slot e i x = (b, y)" by (metis surj_pair)
  then have "cm_frames (snd y) = cm_frames (snd x)"
    using observe_slot_other [of i "Suc i" x e] by (simp add: same_slot_def)
  then show ?case using Cons y by (cases b) auto
qed simp

lemma poll_claim_evidence:
  assumes "claim_wf c" and "i < cm_frames c" and "slot_words c ! i \<noteq> 0"
    and "slot_words (snd (observation_poll e (st, c))) ! i = 0"
  shows "(release_pendings c ! i \<in> {1, 2} \<and> completion_evidence e (st, c) i) \<or>
    (release_pendings c ! i = 0 \<and> exit_evidence e (st, c))"
proof -
  let ?x = "(st, c)" and ?y = "observe_process e (st, c)"
  let ?z = "observe_deadline e ?y"
  note p = observe_process_effect [of ?x i e, simplified, OF assms(1,2)]
  have s: "same_slot i ?y ?z" by (rule observe_deadline_same)
  show ?thesis
  proof (cases "slot_words (snd ?y) ! i = 0")
    case True
    then show ?thesis using p(2) assms(3) by simp
  next
    case False
    then have nz: "slot_words (snd ?z) ! i \<noteq> 0" using s by (simp add: same_slot_def)
    then have run: "slot_words (snd (observe_slots e [0..<cm_frames (snd ?z)] ?z)) ! i = 0"
      using assms(4) by (auto simp: observation_poll_def Let_def split: if_splits)
    have ev: "release_pendings (snd ?z) ! i = 2 \<and> completion_evidence e ?z i"
      by (rule observe_slots_evidence [OF _ nz run]) simp
    then have "completion_evidence e ?y i" "release_pendings (snd ?y) ! i = 2"
      using completion_evidence_same [OF s] s by (auto simp: same_slot_def)
    then show ?thesis
      using p(1) by (auto simp: completion_evidence_def exit_effect_def)
  qed
qed

section \<open>Properties\<close>

text \<open>C11. The observer gives a claim up only on evidence.  If a poll clears the claim word of slot
  \<open>i\<close>, then either the consumer had handed it off (pending 1 or 2) and the timeline it named is
  registered and has completed the value it named, or the watched process has exited, no
  release was pending, and the arena is a CPU arena without asynchronous timelines.  Closure,
  a drain deadline or an error never clears a claim.\<close>

theorem poll_clears_claim_only_on_evidence:
  assumes "claim_wf c" and "i < cm_frames c" and "slot_words c ! i \<noteq> 0"
    and "slot_words (snd (observation_poll e (st, c))) ! i = 0"
  shows "(release_pendings c ! i \<in> {1, 2} \<and> completion_evidence e (st, c) i) \<or>
    (release_pendings c ! i = 0 \<and> exit_evidence e (st, c))"
  using assms by (rule poll_claim_evidence)

definition sample_env :: env where
  "sample_env = \<lparr> now = 10, instant_limit = 1000, host_time_ns = 5, exited = (\<lambda>_. Ok False),
     completed_value = (\<lambda>_ _. Ok 8), notify_at = (\<lambda>_ _ _. Ok False), retired_ready = (\<lambda>_. Ok True) \<rparr>"

definition sample_wake :: wake where
  "sample_wake = \<lparr> wake_bytes = 0, wake_capacity = 4, wake_fault = None \<rparr>"

definition sample_claims :: claim_map where
  "sample_claims = (claim_map_new (IncarnationId 1) 1 [] 0 sample_wake sample_wake)
     \<lparr> slot_words := [3], release_ids := [1], release_values := [6], release_pendings := [2] \<rparr>"

definition sample_observation :: observation where
  "sample_observation = (observation_new True None 100 1)\<lparr> os_timelines := [7] \<rparr>"

lemmas sample_cleanup_defs = sample_env_def sample_wake_def sample_claims_def sample_observation_def
  claim_map_new_def observation_new_def Let_def

lemmas poll_defs = observation_poll_def observe_process_def observe_deadline_def observe_slot_def
  os_return_credit_def return_credit_def claim_signal_def interest_consts signal_release_def
  wake_signal_def

theorem poll_clears_claim_only_on_evidence_witness:
  "slot_words (snd (observation_poll sample_env (sample_observation, sample_claims))) ! 0 = 0 \<and>
   completion_evidence sample_env (sample_observation, sample_claims) 0"
proof -
  have "slot_words (snd (observation_poll sample_env (sample_observation, sample_claims))) ! 0 = 0"
    by (simp add: poll_defs sample_cleanup_defs)
  then show ?thesis
    using poll_clears_claim_only_on_evidence [of sample_claims 0 sample_env sample_observation]
    by (simp add: sample_cleanup_defs claim_wf_def)
qed

text \<open>Process exit is not completion evidence for asynchronous use: when the watched process has
  exited while it held a claim with no release pending, and the arena is native or has
  registered timelines, the claim keeps its word and the incarnation reports a recovery failure
  instead of draining.\<close>

theorem exit_quarantines_asynchronous_claims:
  assumes "claim_wf c" and "i < cm_frames c" and "slot_words c ! i \<noteq> 0"
    and "release_pendings c ! i = 0" and "os_process st = Some p" and "exited e p = Ok True"
    and "os_native st \<or> os_timelines st \<noteq> []"
  shows "slot_words (snd (observation_poll e (st, c))) ! i \<noteq> 0 \<and>
     os_failure_reason (observation_poll e (st, c)) \<noteq> None"
proof -
  let ?c = "(acknowledge_quiescent (claim_close c))\<lparr> mapping_slots := replicate (cm_frames c + 2) 0 \<rparr>"
  let ?x = "(st\<lparr> os_process := None \<rparr>, ?c)"
  let ?y = "observe_process e (st, c)"
  have y: "?y = fold exit_slot [0..<cm_frames c] ?x"
    using assms(5,6) by (simp add: observe_process_def Let_def)
  have u: "os_unresolved (fst ?y) \<noteq> 0"
    unfolding y using fold_exit_unresolved [of i "[0..<cm_frames c]" ?x] assms by simp
  let ?z = "observation_poll e (st, c)"
  have nz: "slot_words (snd ?z) ! i \<noteq> 0"
    using poll_claim_evidence [OF assms(1-3), of e st] assms(4,7)
    by (auto simp: exit_evidence_def)
  have uz: "os_unresolved (fst ?z) \<noteq> 0" using u by (simp add: observation_poll_def Let_def)
  have "cm_frames (snd ?z) = cm_frames c"
    using observe_process_effect(3) [of "(st, c)" i e] observe_deadline_same [of i ?y e] assms(1,2)
    by (simp add: observation_poll_def Let_def same_slot_def)
  then have "\<not> claim_drained (snd ?z)"
    using nz assms(2) by (auto simp: claim_drained_def list_all_iff)
  then show ?thesis
    using nz uz by (cases ?z) (auto simp: os_failure_reason_def split: option.splits)
qed

theorem exit_quarantines_asynchronous_claims_witness:
  "os_failure_reason (observation_poll (sample_env\<lparr> exited := (\<lambda>_. Ok True) \<rparr>)
      (sample_observation\<lparr> os_process := Some 9 \<rparr>, sample_claims\<lparr> release_pendings := [0] \<rparr>)) \<noteq> None"
  using exit_quarantines_asynchronous_claims
    [of "sample_claims\<lparr> release_pendings := [0] \<rparr>" 0 "sample_observation\<lparr> os_process := Some 9 \<rparr>" 9
      "sample_env\<lparr> exited := (\<lambda>_. Ok True) \<rparr>"]
  by (simp add: sample_cleanup_defs claim_wf_def)

end
