(* ===== verification/Arena_Producer.thy ===== *)
theory Arena_Producer
  imports Arena_Cleanup
begin

text \<open>
  The producer of an arena (\<open>ArenaProducer\<close> in \<open>acquisition/arena.rs\<close>, \<open>arena/writer.rs\<close>,
  \<open>arena/reconfiguration.rs\<close> and \<open>arena/cleanup.rs\<close>).  The record \<open>arena\<close> holds the producer's
  fields together with the shared mappings it owns; every \<open>&mut self\<close> method is a function to
  its result and the next arena.  Storage setup by the operating system (a new mapping, a wake
  channel, a cloned descriptor) enters as the outcome it had.
\<close>

section \<open>State\<close>

record retired_allocation =
  ra_id :: allocation_id
  ra_map :: resource_map
  ra_native :: "nat option"

record arena =
  ar_resources :: "resource_map option"
  ar_retired :: "retired_allocation list"
  ar_pending_layout :: "resource_layout option"
  ar_control :: control_map
  ar_admission :: admission_book
  ar_claims :: "(incarnation_id \<times> claim_map) list"
  ar_cursor :: u64
  ar_next_slot :: nat
  ar_observers :: "(incarnation_id \<times> observation) list"
  ar_native :: bool
  ar_drain_timeout :: nat

type_synonym 'a arena_result = "('a, arena_error) outcome \<times> arena"

record arena_config =
  cfg_resource_capacity :: u32
  cfg_retained_history :: u32
  cfg_producer_reserve :: u32
  cfg_payload_capacity :: usize
  cfg_memory_budget :: u64
  cfg_max_incarnations :: u32
  cfg_drain_timeout :: nat

datatype publish_outcome = Published u64 | Dropped

datatype reconfiguration_status = Ready u64 | PausedCapacity u64 u64

fun admission_result :: "('a, admission_error) outcome \<Rightarrow> ('a, arena_error) outcome" where
  "admission_result (Ok x) = Ok x"
| "admission_result (Err error) = Err (AdmissionFailed error)"
| "admission_result Panic = Panic"

definition fill_new_arena ::
    "arena_config \<Rightarrow> resource_layout \<Rightarrow> admission_book \<Rightarrow> bool \<Rightarrow> bytes \<Rightarrow> arena" where
  "fill_new_arena cfg l book native scope =
     \<lparr> ar_resources = Some (resource_map_new l 1), ar_retired = [], ar_pending_layout = None,
       ar_control = control_map_new (history l) scope, ar_admission = book, ar_claims = [],
       ar_cursor = 0, ar_next_slot = 0, ar_observers = [], ar_native = native,
       ar_drain_timeout = cfg_drain_timeout cfg \<rparr>"

definition prepare_arena ::
    "env \<Rightarrow> usize \<Rightarrow> arena_config \<Rightarrow> u64 \<Rightarrow> (resource_layout \<times> admission_book, arena_error) outcome" where
  "prepare_arena e page cfg external_bytes =
     (if cfg_drain_timeout cfg = 0 \<or> instant_add e (cfg_drain_timeout cfg) = None
      then Err (Configuration ''drain interval must be positive and representable'')
      else
        and_then (resource_layout_new page (ucast (cfg_resource_capacity cfg))
                    (ucast (cfg_retained_history cfg)) (cfg_payload_capacity cfg)) (\<lambda>l.
        and_then (control_allocation_len page (history l)) (\<lambda>control_len.
        and_then (ok_or (Configuration ''allocation byte total overflow'')
                    (checked_add (map_len l + payload_len l) external_bytes)) (\<lambda>bytes.
        and_then (admission_result (admission_book_new
                    \<lparr> resource_capacity = cfg_resource_capacity cfg,
                      retained_history = cfg_retained_history cfg,
                      producer_reserve = cfg_producer_reserve cfg, allocated_bytes = bytes,
                      fixed_bytes = control_len, memory_budget = cfg_memory_budget cfg,
                      max_incarnations = cfg_max_incarnations cfg \<rparr>)) (\<lambda>book.
        Ok (l, book))))))"

text \<open>\<open>create\<close>: \<open>scope\<close> is the outcome of allocating the control mapping with its random scope,
  \<open>storage\<close> that of the first resource mapping.\<close>

definition create_arena ::
    "env \<Rightarrow> usize \<Rightarrow> arena_config \<Rightarrow> u64 \<Rightarrow> bool \<Rightarrow> (bytes, arena_error) outcome \<Rightarrow>
     (unit, arena_error) outcome \<Rightarrow> (arena, arena_error) outcome" where
  "create_arena e page cfg external_bytes native scope storage =
     and_then (prepare_arena e page cfg external_bytes) (\<lambda>(l, book).
     and_then scope (\<lambda>sc.
     and_then storage (\<lambda>_. Ok (fill_new_arena cfg l book native sc))))"

section \<open>Claim pages of all incarnations\<close>

definition close_all :: "(incarnation_id \<times> claim_map) list \<Rightarrow> (incarnation_id \<times> claim_map) list" where
  "close_all cs = map (\<lambda>(i, c). (i, claim_close c)) cs"

definition arena_stop :: "arena \<Rightarrow> arena" where
  "arena_stop a = a\<lparr> ar_control := (ar_control a)\<lparr> w_terminal := 1 \<rparr>, ar_claims := close_all (ar_claims a) \<rparr>"

definition io_message :: "io_error \<Rightarrow> string" where
  "io_message error = (case error of
     BrokenPipe \<Rightarrow> ''broken pipe'' | ConnectionReset \<Rightarrow> ''connection reset''
   | WriteZero \<Rightarrow> ''write zero'' | UnexpectedEof \<Rightarrow> ''unexpected end of file'' | OtherIo m \<Rightarrow> m)"

fun signal_all ::
    "u64 \<Rightarrow> (incarnation_id \<times> claim_map) list \<Rightarrow>
     (unit, arena_error) outcome \<times> (incarnation_id \<times> claim_map) list" where
  "signal_all k [] = (Ok (), [])"
| "signal_all k ((i, c) # cs) =
     (case claim_signal c k of
        (Ok u, c') \<Rightarrow> (case signal_all k cs of (r, cs') \<Rightarrow> (r, (i, c') # cs'))
      | (Err error, c') \<Rightarrow> (Err (Notification (io_message error)), (i, c') # cs)
      | (Panic, c') \<Rightarrow> (Panic, (i, c') # cs))"

definition claims_contain :: "(incarnation_id \<times> claim_map) list \<Rightarrow> u64 \<Rightarrow> bool" where
  "claims_contain cs g \<longleftrightarrow> list_ex (\<lambda>(_, c). claim_contains c g) cs"

section \<open>Cleanup\<close>

definition poll_observer :: "env \<Rightarrow> incarnation_id \<Rightarrow> u64 \<times> arena \<Rightarrow> u64 \<times> arena" where
  "poll_observer e i = (\<lambda>(released, a).
     case (map_of (ar_observers a) i, map_of (ar_claims a) i) of
       (Some st, Some c) \<Rightarrow>
         let (st', c') = observation_poll e (st, c) in
         (saturating_add released (os_released st'),
          a\<lparr> ar_observers := alist_map_value i (\<lambda>_. st'\<lparr> os_released := 0 \<rparr>) (ar_observers a),
             ar_claims := alist_map_value i (\<lambda>_. c') (ar_claims a) \<rparr>)
     | _ \<Rightarrow> (released, a))"

text \<open>\<open>collect_quiescent\<close>: the condition under which an incarnation is kept is \<open>\<not> claim_drained\<close>;
  the two \<open>expect\<close>s are panics.\<close>

fun collect_quiescent :: "(incarnation_id \<times> claim_map) list \<Rightarrow> arena \<Rightarrow> unit arena_result" where
  "collect_quiescent [] a = (Ok (), a)"
| "collect_quiescent ((i, c) # rest) a =
     (if \<not> claim_drained c then collect_quiescent rest a
      else case book_close (ar_admission a) i of
        (Ok _, b1) \<Rightarrow>
          (case complete_cleanup b1 i of
             (Ok _, b2) \<Rightarrow>
               collect_quiescent rest
                 (a\<lparr> ar_admission := b2, ar_claims := bt_remove i (ar_claims a),
                     ar_observers := bt_remove i (ar_observers a) \<rparr>)
           | (_, b2) \<Rightarrow> (Panic, a\<lparr> ar_admission := b2 \<rparr>))
      | (_, b1) \<Rightarrow> (Panic, a\<lparr> ar_admission := b1 \<rparr>))"

definition retained_by_claims :: "arena \<Rightarrow> resource_map \<Rightarrow> bool" where
  "retained_by_claims a m \<longleftrightarrow>
     list_ex (\<lambda>(_, c). list_ex (\<lambda>i. mapping_slots c ! i = rm_generation m) [0..<cm_frames c + 2] \<or>
        list_ex (\<lambda>s. state_generation (rm_states m ! s) \<noteq> 0 \<and>
                     claim_contains c (state_generation (rm_states m ! s)))
          [0..<unat (resources (rm_layout m))]) (ar_claims a)"

definition swap_remove :: "nat \<Rightarrow> 'a list \<Rightarrow> 'a list" where
  "swap_remove i xs = (if Suc i = length xs then butlast xs else (butlast xs)[i := last xs])"

lemma length_swap_remove: "length (swap_remove i xs) = length xs - 1"
  by (simp add: swap_remove_def)

definition native_ready :: "env \<Rightarrow> retired_allocation \<Rightarrow> (bool, arena_error) outcome" where
  "native_ready e r = (case ra_native r of None \<Rightarrow> Ok True | Some h \<Rightarrow> retired_ready e h)"

function collect_retired_allocations :: "env \<Rightarrow> nat \<Rightarrow> arena \<Rightarrow> unit arena_result" where
  "collect_retired_allocations e index a =
     (if index < length (ar_retired a)
      then let r = ar_retired a ! index in
        if retained_by_claims a (ra_map r) \<or> rm_owners (ra_map r) \<noteq> 0
        then collect_retired_allocations e (Suc index) a
        else case native_ready e r of
          Err error \<Rightarrow> (Err error, a)
        | Panic \<Rightarrow> (Panic, a)
        | Ok False \<Rightarrow> collect_retired_allocations e (Suc index) a
        | Ok True \<Rightarrow>
          (case complete_allocation_cleanup (ar_admission a) (ra_id r) of
             (Ok _, b) \<Rightarrow> collect_retired_allocations e index
               (a\<lparr> ar_retired := swap_remove index (ar_retired a), ar_admission := b \<rparr>)
           | (_, b) \<Rightarrow> (Panic, a\<lparr> ar_retired := swap_remove index (ar_retired a), ar_admission := b \<rparr>))
      else (Ok (), a))"
  by pat_completeness auto

termination
  by (relation "measure (\<lambda>(e, index, a). length (ar_retired a) - index)") (auto simp: length_swap_remove)

declare collect_retired_allocations.simps [simp del]

definition poll_cleanup :: "env \<Rightarrow> arena \<Rightarrow> u64 arena_result" where
  "poll_cleanup e a =
     (let (released, a1) = fold (poll_observer e) (map fst (ar_observers a)) (0, a) in
      case collect_quiescent (ar_claims a1) a1 of
        (Ok _, a2) \<Rightarrow>
          (case collect_retired_allocations e 0 a2 of
             (r, a3) \<Rightarrow> (map_outcome_ok (\<lambda>_. released) r, a3))
      | (Err error, a2) \<Rightarrow> (Err error, a2)
      | (Panic, a2) \<Rightarrow> (Panic, a2))"

definition poll_shutdown_ready :: "env \<Rightarrow> arena \<Rightarrow> bool arena_result" where
  "poll_shutdown_ready e a =
     (case poll_cleanup e a of
        (r, a1) \<Rightarrow>
          (map_outcome_ok (\<lambda>_. w_terminal (ar_control a1) \<noteq> 0 \<and> ar_claims a1 = [] \<and> ar_retired a1 = []) r, a1))"

definition arena_close :: "incarnation_id \<Rightarrow> arena \<Rightarrow> unit arena_result" where
  "arena_close i a =
     (case map_of (ar_claims a) i of
        None \<Rightarrow> (Err (AdmissionFailed UnknownIncarnation), a)
      | Some _ \<Rightarrow>
        (case book_close (ar_admission a) i of
           (r, b) \<Rightarrow> (admission_result r,
             a\<lparr> ar_claims := alist_map_value i claim_close (ar_claims a), ar_admission := b \<rparr>)))"

definition arena_retry_cleanup :: "incarnation_id \<Rightarrow> arena \<Rightarrow> unit arena_result" where
  "arena_retry_cleanup i a =
     (case map_of (ar_claims a) i of
        None \<Rightarrow> (Err (AdmissionFailed UnknownIncarnation), a)
      | Some c \<Rightarrow>
        (case map_of (ar_observers a) i of
           None \<Rightarrow> (Ok (), a)
         | Some st \<Rightarrow>
           if os_notification_failed st
           then (Err (Notification ''release observation channel failed; claims remain quarantined''), a)
           else
             let st' = st\<lparr> os_failure := None \<rparr>;
                 (r, w) = wake_signal (cm_release_wake c);
                 c' = c\<lparr> cm_release_wake := w \<rparr>;
                 a' = a\<lparr> ar_observers := alist_map_value i (\<lambda>_. st') (ar_observers a),
                         ar_claims := alist_map_value i (\<lambda>_. c') (ar_claims a) \<rparr>
             in case r of
                  Err error \<Rightarrow> (Err (Notification (io_message error)), a')
                | Panic \<Rightarrow> (Panic, a')
                | Ok _ \<Rightarrow>
                  (case os_failure_reason (st', c') of
                     Some reason \<Rightarrow> (Err (RecoveryRequired reason), a')
                   | None \<Rightarrow> (Ok (), a'))))"

record timeline_registration =
  tr_incarnation :: incarnation_id
  tr_scope :: bytes
  tr_id :: u64

definition register_release_timeline ::
    "incarnation_id \<Rightarrow> nat \<Rightarrow> arena \<Rightarrow> timeline_registration arena_result" where
  "register_release_timeline i timeline a =
     (case map_of (ar_claims a) i of
        None \<Rightarrow> (Err (AdmissionFailed UnknownIncarnation), a)
      | Some c \<Rightarrow>
        if w_active c = 0 then (Err ArenaClosed, a)
        else case map_of (ar_observers a) i of
          None \<Rightarrow> (Panic, a)
        | Some st \<Rightarrow>
          if cm_frames c \<le> length (os_timelines st)
          then (Err (Configuration ''release timeline capacity equals the holding reservation''), a)
          else
            let index = length (os_timelines st); rid = of_nat index + 1;
                c' = c\<lparr> registered_timelines := (registered_timelines c)[index := rid] \<rparr>;
                st' = st\<lparr> os_timelines := os_timelines st @ [timeline] \<rparr>
            in (Ok \<lparr> tr_incarnation = i, tr_scope = cm_scope c, tr_id = rid \<rparr>,
                a\<lparr> ar_observers := alist_map_value i (\<lambda>_. st') (ar_observers a),
                   ar_claims := alist_map_value i (\<lambda>_. c') (ar_claims a) \<rparr>))"

section \<open>Admission of a consumer\<close>

record consumer_grant =
  gr_arena_scope :: bytes
  gr_layout :: resource_layout
  gr_generation :: u64
  gr_drain_timeout :: nat
  gr_mapping_slot :: nat
  gr_incarnation :: incarnation_id

text \<open>What the operating system set up for a new incarnation: its two wake channels and the
  random scope of the claim page.\<close>

record claim_setup =
  su_wake :: wake
  su_release_wake :: wake
  su_scope :: bytes

text \<open>Failed setup rolls the reservation back before its error is reported.\<close>

definition attach_rollback ::
    "incarnation_id \<Rightarrow> arena_error \<Rightarrow> admission_book \<Rightarrow> ('a, arena_error) outcome \<times> admission_book" where
  "attach_rollback i error b =
     (case book_close b i of
        (Err x, b1) \<Rightarrow> (Err (AdmissionFailed x), b1)
      | (Panic, b1) \<Rightarrow> (Panic, b1)
      | (Ok _, b1) \<Rightarrow>
        (case complete_cleanup b1 i of
           (Err x, b2) \<Rightarrow> (Err (AdmissionFailed x), b2)
         | (Panic, b2) \<Rightarrow> (Panic, b2)
         | (Ok _, b2) \<Rightarrow> (Err error, b2)))"

definition attach_with_recipient ::
    "env \<Rightarrow> usize \<Rightarrow> u32 \<Rightarrow> u32 \<Rightarrow> nat option \<Rightarrow> (claim_setup, arena_error) outcome \<Rightarrow> arena \<Rightarrow>
     consumer_grant arena_result" where
  "attach_with_recipient e page holding pid process setup a =
     (if w_terminal (ar_control a) \<noteq> 0 then (Err ArenaClosed, a)
      else case poll_cleanup e a of
        (Err error, a1) \<Rightarrow> (Err error, a1)
      | (Panic, a1) \<Rightarrow> (Panic, a1)
      | (Ok _, a1) \<Rightarrow>
        (case claim_allocation_len page holding of
           Err error \<Rightarrow> (Err error, a1)
         | Panic \<Rightarrow> (Panic, a1)
         | Ok len \<Rightarrow>
           (case admit (ar_admission a1) \<lparr> request_frames = holding, request_claim_bytes = len \<rparr> of
              (Err error, b) \<Rightarrow> (Err (AdmissionFailed error), a1\<lparr> ar_admission := b \<rparr>)
            | (Panic, b) \<Rightarrow> (Panic, a1\<lparr> ar_admission := b \<rparr>)
            | (Ok r, b) \<Rightarrow>
              let a2 = a1\<lparr> ar_admission := b \<rparr>; inc = incarnation r in
              (case setup of
                 Panic \<Rightarrow> (Panic, a2)
               | Err error \<Rightarrow>
                 (case attach_rollback inc error b of (res, b2) \<Rightarrow> (res, a2\<lparr> ar_admission := b2 \<rparr>))
               | Ok su \<Rightarrow>
                 (case ar_resources a2 of
                    None \<Rightarrow> (Panic, a2)
                  | Some m \<Rightarrow>
                    let c = claim_map_new inc holding (su_scope su) pid (su_wake su) (su_release_wake su);
                        c1 = c\<lparr> mapping_slots := (mapping_slots c)[0 := rm_generation m], w_offered := rm_generation m \<rparr>;
                        st = observation_new (ar_native a2) process (ar_drain_timeout a2) (unat holding)
                    in (Ok \<lparr> gr_arena_scope = ctl_scope (ar_control a2), gr_layout = rm_layout m,
                             gr_generation = rm_generation m, gr_drain_timeout = ar_drain_timeout a2,
                             gr_mapping_slot = 0, gr_incarnation = inc \<rparr>,
                        a2\<lparr> ar_observers := bt_insert inc st (ar_observers a2),
                            ar_claims := bt_insert inc c1 (ar_claims a2) \<rparr>))))))"

section \<open>Publication\<close>

text \<open>The search of \<open>publish_prepared\<close> and \<open>reserve\<close> for a slot outside the history that nobody
  claims.  A slot is retired before the claims are scanned, and stays retired when it is
  passed over.\<close>

fun find_free ::
    "u64 \<Rightarrow> (incarnation_id \<times> claim_map) list \<Rightarrow> (nat \<Rightarrow> u64 \<Rightarrow> ('d option, arena_error) outcome) \<Rightarrow>
     nat list \<Rightarrow> resource_map \<Rightarrow> ((nat \<times> 'd) option, arena_error) outcome \<times> resource_map" where
  "find_free oldest cs prepare [] m = (Ok None, m)"
| "find_free oldest cs prepare (i # is) m =
     (if rm_reserved m ! i then find_free oldest cs prepare is m
      else let g = state_generation (rm_states m ! i) in
        if g \<noteq> 0 \<and> oldest \<le> g then find_free oldest cs prepare is m
        else let m1 = m\<lparr> rm_states := (rm_states m)[i := state_retired g] \<rparr> in
          if g \<noteq> 0 \<and> claims_contain cs g then find_free oldest cs prepare is m1
          else case prepare i g of
            Err error \<Rightarrow> (Err error, m1)
          | Panic \<Rightarrow> (Panic, m1)
          | Ok None \<Rightarrow> find_free oldest cs prepare is m1
          | Ok (Some d) \<Rightarrow> (Ok (Some (i, d)), m1))"

definition slot_candidates :: "nat \<Rightarrow> nat \<Rightarrow> nat list" where
  "slot_candidates next n = map (\<lambda>offset. (next + offset) mod n) [0..<n]"

definition oldest_retained :: "u64 \<Rightarrow> usize \<Rightarrow> u64" where
  "oldest_retained cur h = max (saturating_sub cur (h - 1)) 1"

definition final_descriptor :: "env \<Rightarrow> resource_map \<Rightarrow> nat \<Rightarrow> u64 \<Rightarrow> frame_descriptor \<Rightarrow> frame_descriptor" where
  "final_descriptor e m i cur d =
     stamp (host_time_ns e) (d\<lparr> fd_cursor := cur, fd_slot_id := of_nat i,
        fd_config_generation := rm_generation m, fd_payload_offset := payload_at_slot (rm_layout m) i \<rparr>)"

text \<open>The stores that make slot \<open>i\<close> the publication of the next cursor, in their order: descriptor,
  state word, ring word, latest cursor, producer fields, wakes.\<close>

definition publish_slot :: "resource_map \<Rightarrow> nat \<Rightarrow> frame_descriptor \<Rightarrow> arena \<Rightarrow> publish_outcome arena_result" where
  "publish_slot m i d a =
     (let cur = ar_cursor a + 1;
          m1 = m\<lparr> rm_descriptors := (rm_descriptors m)[i := d],
                 rm_states := (rm_states m)[i := state_live cur] \<rparr>;
          ctl = (ring_store (ar_control a) cur (of_nat i + 1))\<lparr> w_latest := cur \<rparr>;
          (r, cs) = signal_all DATA (ar_claims a)
      in (map_outcome_ok (\<lambda>_. Published cur) r,
          a\<lparr> ar_resources := Some m1, ar_control := ctl, ar_cursor := cur,
             ar_next_slot := (i + 1) mod unat (resources (rm_layout m)), ar_claims := cs \<rparr>))"

definition publish_prepared ::
    "env \<Rightarrow> bytes \<Rightarrow> (nat \<Rightarrow> u64 \<Rightarrow> (frame_descriptor option, arena_error) outcome) \<Rightarrow> arena \<Rightarrow>
     publish_outcome arena_result" where
  "publish_prepared e bytes prepare a =
     (if w_terminal (ar_control a) \<noteq> 0 then (Err ArenaClosed, a)
      else case poll_cleanup e a of
        (Err error, a1) \<Rightarrow> (Err error, a1)
      | (Panic, a1) \<Rightarrow> (Panic, a1)
      | (Ok _, a1) \<Rightarrow>
        (case ar_resources a1 of
           None \<Rightarrow> (Ok Dropped, a1)
         | Some m \<Rightarrow>
           if unat (payload_capacity (rm_layout m)) < length bytes then (Err PayloadTooLarge, a1)
           else if ar_cursor a1 = MAX_GENERATION then (Err GenerationsExhausted, arena_stop a1)
           else
             (case find_free (oldest_retained (ar_cursor a1) (history (rm_layout m))) (ar_claims a1) prepare
                     (slot_candidates (ar_next_slot a1) (unat (resources (rm_layout m)))) m of
                (Err error, m1) \<Rightarrow> (Err error, a1\<lparr> ar_resources := Some m1 \<rparr>)
              | (Panic, m1) \<Rightarrow> (Panic, a1\<lparr> ar_resources := Some m1 \<rparr>)
              | (Ok None, m1) \<Rightarrow> (Ok Dropped, a1\<lparr> ar_resources := Some m1 \<rparr>)
              | (Ok (Some (i, d)), m1) \<Rightarrow>
                let d1 = final_descriptor e m1 i (ar_cursor a1 + 1) (d\<lparr> fd_payload_len := of_nat (length bytes) \<rparr>);
                    m2 = m1\<lparr> rm_payload := write_at (unat (payload_at_slot (rm_layout m1) i)) bytes (rm_payload m1) \<rparr>
                in publish_slot m2 i d1 a1)))"

definition publish :: "env \<Rightarrow> frame_descriptor \<Rightarrow> bytes \<Rightarrow> arena \<Rightarrow> publish_outcome arena_result" where
  "publish e d bytes a = publish_prepared e bytes (\<lambda>_ _. Ok (Some d)) a"

definition publish_resource ::
    "env \<Rightarrow> (nat \<Rightarrow> u64 \<Rightarrow> (frame_descriptor option, arena_error) outcome) \<Rightarrow> arena \<Rightarrow> publish_outcome arena_result" where
  "publish_resource e prepare a =
     (if (case ar_resources a of Some m \<Rightarrow> payload_capacity (rm_layout m) \<noteq> 0 | None \<Rightarrow> False)
      then (Err (Configuration ''native resources require no inline CPU storage''), a)
      else publish_prepared e [] prepare a)"

section \<open>CPU reservations\<close>

text \<open>A reservation names its map by the allocation generation, which identifies the \<open>Arc\<close>.\<close>

record cpu_reservation =
  cr_generation :: u64
  cr_index :: nat
  cr_scope :: bytes

definition reserve_slot :: "env \<Rightarrow> arena \<Rightarrow> cpu_reservation option arena_result" where
  "reserve_slot e a =
     (if ar_native a then (Err (Configuration ''CPU reservation requires CPU arena''), a)
      else if w_terminal (ar_control a) \<noteq> 0 then (Err ArenaClosed, a)
      else case poll_cleanup e a of
        (Err error, a1) \<Rightarrow> (Err error, a1)
      | (Panic, a1) \<Rightarrow> (Panic, a1)
      | (Ok _, a1) \<Rightarrow>
        if ar_cursor a1 = MAX_GENERATION then (Err GenerationsExhausted, arena_stop a1)
        else case ar_resources a1 of
          None \<Rightarrow> (Ok None, a1)
        | Some m \<Rightarrow>
          if payload_capacity (rm_layout m) = 0
          then (Err (Configuration ''CPU reservation requires nonzero storage''), a1)
          else
            (case find_free (oldest_retained (ar_cursor a1) (history (rm_layout m))) (ar_claims a1)
                    (\<lambda>_ _. Ok (Some ())) (slot_candidates (ar_next_slot a1) (unat (resources (rm_layout m)))) m of
               (Err error, m1) \<Rightarrow> (Err error, a1\<lparr> ar_resources := Some m1 \<rparr>)
             | (Panic, m1) \<Rightarrow> (Panic, a1\<lparr> ar_resources := Some m1 \<rparr>)
             | (Ok None, m1) \<Rightarrow> (Ok None, a1\<lparr> ar_resources := Some m1 \<rparr>)
             | (Ok (Some (i, _)), m1) \<Rightarrow>
               (Ok (Some \<lparr> cr_generation = rm_generation m1, cr_index = i, cr_scope = ctl_scope (ar_control a1) \<rparr>),
                a1\<lparr> ar_resources := Some (m1\<lparr> rm_reserved := (rm_reserved m1)[i := True],
                                             rm_owners := rm_owners m1 + 1 \<rparr>) \<rparr>)))"

definition unreserve :: "cpu_reservation \<Rightarrow> resource_map \<Rightarrow> resource_map" where
  "unreserve r m =
     (if rm_generation m = cr_generation r
      then m\<lparr> rm_reserved := (rm_reserved m)[cr_index r := False], rm_owners := rm_owners m - 1 \<rparr> else m)"

text \<open>\<open>Drop for CpuReservation\<close>: its map is the current allocation or a retired one.\<close>

definition drop_reservation :: "cpu_reservation \<Rightarrow> arena \<Rightarrow> arena" where
  "drop_reservation r a =
     a\<lparr> ar_resources := map_option (unreserve r) (ar_resources a),
        ar_retired := map (\<lambda>x. x\<lparr> ra_map := unreserve r (ra_map x) \<rparr>) (ar_retired a) \<rparr>"

definition commit_reservation ::
    "env \<Rightarrow> cpu_reservation \<Rightarrow> frame_descriptor \<Rightarrow> arena \<Rightarrow> publish_outcome arena_result" where
  "commit_reservation e r d a =
     (let finish = (\<lambda>(res, a'). (res, drop_reservation r a')) in
      if w_terminal (ar_control a) \<noteq> 0 then finish (Err ArenaClosed, a)
      else case ar_resources a of
        None \<Rightarrow> finish (Err (Configuration ''stale or foreign CPU reservation''), a)
      | Some m \<Rightarrow>
        if cr_scope r \<noteq> ctl_scope (ar_control a) \<or> rm_generation m \<noteq> cr_generation r
        then finish (Err (Configuration ''stale or foreign CPU reservation''), a)
        else if payload_capacity (rm_layout m) < fd_payload_len d then finish (Err PayloadTooLarge, a)
        else if ar_cursor a = MAX_GENERATION then finish (Err GenerationsExhausted, arena_stop a)
        else finish (publish_slot m (cr_index r) (final_descriptor e m (cr_index r) (ar_cursor a + 1) d) a))"

definition abandon_reservation :: "cpu_reservation \<Rightarrow> arena \<Rightarrow> unit arena_result" where
  "abandon_reservation r a =
     (if cr_scope r \<noteq> ctl_scope (ar_control a)
      then (Err (Configuration ''foreign CPU reservation''), drop_reservation r a)
      else (Ok (), drop_reservation r a))"

section \<open>Reconfiguration\<close>

definition signal_reconfiguration :: "arena \<Rightarrow> unit arena_result" where
  "signal_reconfiguration a =
     (case checked_add (w_reconfiguration_epoch (ar_control a)) 1 of
        None \<Rightarrow> (Err GenerationsExhausted, arena_stop a)
      | Some epoch \<Rightarrow>
        let a1 = a\<lparr> ar_control := (ar_control a)\<lparr> w_reconfiguration_epoch := epoch \<rparr> \<rparr> in
        (case signal_all RECONFIGURATION (ar_claims a1) of
           (r, cs) \<Rightarrow> (r, a1\<lparr> ar_claims := cs \<rparr>)))"

definition begin_arena_reconfiguration ::
    "usize \<Rightarrow> usize \<Rightarrow> u64 \<Rightarrow> nat option \<Rightarrow> arena \<Rightarrow> unit arena_result" where
  "begin_arena_reconfiguration page capacity external_bytes native a =
     (if w_terminal (ar_control a) \<noteq> 0 then (Err ArenaClosed, a)
      else if ar_pending_layout a \<noteq> None then (Err (AdmissionFailed ReconfigurationPending), a)
      else case ar_resources a of
        None \<Rightarrow> (Panic, a)
      | Some old \<Rightarrow>
        (case resource_layout_new page (resources (rm_layout old)) (history (rm_layout old)) capacity of
           Err error \<Rightarrow> (Err error, a)
         | Panic \<Rightarrow> (Panic, a)
         | Ok l \<Rightarrow>
           (case current_allocation (ar_admission a) of
              None \<Rightarrow> (Panic, a)
            | Some old_id \<Rightarrow>
              (case checked_add (map_len l + payload_len l) external_bytes of
                 None \<Rightarrow> (Err (Configuration ''replacement allocation byte total overflow''), a)
               | Some bytes \<Rightarrow>
                 (case begin_reconfiguration (ar_admission a) bytes of
                    (Err error, b) \<Rightarrow> (Err (AdmissionFailed error), a\<lparr> ar_admission := b \<rparr>)
                  | (Panic, b) \<Rightarrow> (Panic, a\<lparr> ar_admission := b \<rparr>)
                  | (Ok _, b) \<Rightarrow>
                    let old1 = old\<lparr> rm_states := map state_cleared (rm_states old) \<rparr>;
                        ctl = (ar_control a)\<lparr> w_configuration := 0, w_first_cursor := ar_cursor a + 1 \<rparr>
                    in signal_reconfiguration
                         (a\<lparr> ar_admission := b, ar_control := ctl, ar_resources := None,
                             ar_retired := ar_retired a @ [\<lparr> ra_id = old_id, ra_map = old1, ra_native = native \<rparr>],
                             ar_pending_layout := Some l \<rparr>))))))"

text \<open>\<open>advance_with_allocation\<close>: \<open>map_storage\<close> is the outcome of allocating the new mappings and
  \<open>allocate\<close> that of the native backend, with the bytes it charges.\<close>

definition advance_with_allocation ::
    "env \<Rightarrow> (unit, arena_error) outcome \<Rightarrow> (u64, arena_error) outcome \<Rightarrow> arena \<Rightarrow>
     (reconfiguration_status \<times> bool) arena_result" where
  "advance_with_allocation e map_storage allocate a =
     (if w_terminal (ar_control a) \<noteq> 0 then (Err ArenaClosed, a)
      else case poll_cleanup e a of
        (Err error, a1) \<Rightarrow> (Err error, a1)
      | (Panic, a1) \<Rightarrow> (Panic, a1)
      | (Ok _, a1) \<Rightarrow>
        (case ar_pending_layout a1 of
           None \<Rightarrow> (Ok (Ready (w_configuration (ar_control a1)), False), a1)
         | Some l \<Rightarrow>
           (case reserve_reconfiguration (ar_admission a1) of
              (Err (InsufficientMemory requested available), b) \<Rightarrow>
                (Ok (PausedCapacity requested available, False), a1\<lparr> ar_admission := b \<rparr>)
            | (Err error, b) \<Rightarrow> (Err (AdmissionFailed error), a1\<lparr> ar_admission := b \<rparr>)
            | (Panic, b) \<Rightarrow> (Panic, a1\<lparr> ar_admission := b \<rparr>)
            | (Ok i, b) \<Rightarrow>
              let a2 = a1\<lparr> ar_admission := b \<rparr>;
                  abandon = (\<lambda>error. case abandon_reconfiguration_allocation b of
                      (Ok _, b') \<Rightarrow> (Err error, a2\<lparr> ar_admission := b' \<rparr>)
                    | (Err x, b') \<Rightarrow> (Err (AdmissionFailed x), a2\<lparr> ar_admission := b' \<rparr>)
                    | (Panic, b') \<Rightarrow> (Panic, a2\<lparr> ar_admission := b' \<rparr>))
              in (case map_storage of
                    Err error \<Rightarrow> abandon error
                  | Panic \<Rightarrow> (Panic, a2)
                  | Ok _ \<Rightarrow>
                    (case allocate of
                       Err error \<Rightarrow> abandon error
                     | Panic \<Rightarrow> (Panic, a2)
                     | Ok external_bytes \<Rightarrow>
                       (case checked_add (map_len l + payload_len l) external_bytes of
                          None \<Rightarrow> abandon (AdmissionFailed InvalidAllocationSize)
                        | Some bytes \<Rightarrow>
                          (case install_reconfiguration b bytes of
                             (Err error, _) \<Rightarrow> abandon (AdmissionFailed error)
                           | (Panic, b') \<Rightarrow> (Panic, a2\<lparr> ar_admission := b' \<rparr>)
                           | (Ok _, b') \<Rightarrow>
                             (Ok (Ready (allocation_raw i), True),
                              a2\<lparr> ar_admission := b',
                                  ar_resources := Some (resource_map_new l (allocation_raw i)),
                                  ar_pending_layout := None, ar_next_slot := 0,
                                  ar_control := (ar_control a2)\<lparr> w_configuration := allocation_raw i \<rparr> \<rparr>))))))))"

definition advance_reconfiguration ::
    "env \<Rightarrow> (unit, arena_error) outcome \<Rightarrow> arena \<Rightarrow> reconfiguration_status arena_result" where
  "advance_reconfiguration e map_storage a =
     (if ar_native a then (Err (Configuration ''native replacement requires its pool allocator''), a)
      else case advance_with_allocation e map_storage (Ok 0) a of
        (Ok (status, installed), a1) \<Rightarrow>
          if installed
          then (case signal_reconfiguration a1 of (r, a2) \<Rightarrow> (map_outcome_ok (\<lambda>_. status) r, a2))
          else (Ok status, a1)
      | (Err error, a1) \<Rightarrow> (Err error, a1)
      | (Panic, a1) \<Rightarrow> (Panic, a1))"

definition reconfigure_cpu ::
    "env \<Rightarrow> usize \<Rightarrow> usize \<Rightarrow> (unit, arena_error) outcome \<Rightarrow> arena \<Rightarrow> reconfiguration_status arena_result" where
  "reconfigure_cpu e page capacity map_storage a =
     (if ar_native a
      then (Err (Configuration ''CPU reconfiguration cannot replace an external native pool''), a)
      else case begin_arena_reconfiguration page capacity 0 None a of
        (Ok _, a1) \<Rightarrow> advance_reconfiguration e map_storage a1
      | (Err error, a1) \<Rightarrow> (Err error, a1)
      | (Panic, a1) \<Rightarrow> (Panic, a1))"

definition begin_native_reconfiguration :: "usize \<Rightarrow> u64 \<Rightarrow> nat \<Rightarrow> arena \<Rightarrow> unit arena_result" where
  "begin_native_reconfiguration page external_bytes retired a =
     (if \<not> ar_native a
      then (Err (Configuration ''native replacement requires an external pool''), a)
      else begin_arena_reconfiguration page 0 external_bytes (Some retired) a)"

record configuration_grant =
  cg_layout :: resource_layout
  cg_generation :: u64
  cg_arena_scope :: bytes
  cg_claim_scope :: bytes
  cg_incarnation :: incarnation_id
  cg_mapping_slot :: nat

text \<open>\<open>configuration_offer\<close>: \<open>fds\<close> is the outcome of cloning the two descriptors.  The liveness word is
  read again after the offer is stored; in one thread the two reads agree.\<close>

definition configuration_offer ::
    "(unit, arena_error) outcome \<Rightarrow> incarnation_id \<Rightarrow> arena \<Rightarrow> configuration_grant option arena_result" where
  "configuration_offer fds i a =
     (case map_of (ar_claims a) i of
        None \<Rightarrow> (Err (AdmissionFailed UnknownIncarnation), a)
      | Some c \<Rightarrow>
        if w_active c = 0 then (Err ArenaClosed, a)
        else case ar_resources a of
          None \<Rightarrow> (Ok None, a)
        | Some m \<Rightarrow>
          if w_offered c \<noteq> 0 then (Ok None, a)
          else case fds of
            Err error \<Rightarrow> (Err error, a)
          | Panic \<Rightarrow> (Panic, a)
          | Ok _ \<Rightarrow>
            (case find (\<lambda>s. mapping_slots c ! s = 0) [0..<cm_frames c + 2] of
               None \<Rightarrow> (Err (Configuration ''configuration mapping capacity exhausted''), a)
             | Some s \<Rightarrow>
               let c' = c\<lparr> mapping_slots := (mapping_slots c)[s := rm_generation m], w_offered := rm_generation m \<rparr>
               in (Ok (Some \<lparr> cg_layout = rm_layout m, cg_generation = rm_generation m,
                             cg_arena_scope = ctl_scope (ar_control a), cg_claim_scope = cm_scope c,
                             cg_incarnation = i, cg_mapping_slot = s \<rparr>),
                   a\<lparr> ar_claims := alist_map_value i (\<lambda>_. c') (ar_claims a) \<rparr>)))"

end
