(* ===== verification/Arena_Invariant.thy ===== *)
theory Arena_Invariant
  imports Arena_Producer "HOL-Library.Multiset"
begin

text \<open>
  The invariant of a producer's arena and its preservation by every operation, including any
  change a consumer makes to its own claim page.  It ties the claim pages to the admission
  book, the current and retired allocations to the allocation table, and the slot generations
  to the publication cursor; from it follow that no operation panics and that the working
  reserve is always enough to publish.
\<close>

section \<open>Parts of the invariant\<close>

definition layout_ok :: "resource_layout \<Rightarrow> bool" where
  "layout_ok l \<longleftrightarrow>
     (\<exists>page. resource_layout_new page (resources l) (history l) (payload_capacity l) = Ok l)"

definition map_wf :: "resource_map \<Rightarrow> bool" where
  "map_wf m \<longleftrightarrow> layout_ok (rm_layout m) \<and> length (rm_states m) = unat (resources (rm_layout m)) \<and>
     length (rm_descriptors m) = unat (resources (rm_layout m)) \<and>
     length (rm_reserved m) = unat (resources (rm_layout m)) \<and>
     length (rm_payload m) = unat (payload_len (rm_layout m))"

definition slot_gen :: "resource_map \<Rightarrow> nat \<Rightarrow> u64" where
  "slot_gen m i = state_generation (rm_states m ! i)"

definition gens_ok :: "u64 \<Rightarrow> resource_map \<Rightarrow> bool" where
  "gens_ok cur m \<longleftrightarrow> (\<forall>i<length (rm_states m). slot_gen m i \<le> cur) \<and>
     (\<forall>i<length (rm_states m). \<forall>j<length (rm_states m). i \<noteq> j \<longrightarrow> slot_gen m i \<noteq> 0 \<longrightarrow> slot_gen m i \<noteq> slot_gen m j)"

definition page_entry :: "incarnation_id \<times> claim_map \<Rightarrow> incarnation_id \<times> incarnation_record \<Rightarrow> bool" where
  "page_entry x y \<longleftrightarrow> fst x = fst y \<and> claim_wf (snd x) \<and>
     cm_frames (snd x) = unat (frames (reservation (snd y)))"

definition pages_match :: "(incarnation_id \<times> claim_map) list \<Rightarrow> admission_book \<Rightarrow> bool" where
  "pages_match cs b \<longleftrightarrow> list_all2 page_entry cs (reservations b)"

definition retired_entry_ok :: "admission_book \<Rightarrow> retired_allocation \<Rightarrow> bool" where
  "retired_entry_ok b r \<longleftrightarrow> map_of (allocations b) (ra_id r) \<noteq> None \<and>
     current_allocation b \<noteq> Some (ra_id r) \<and> Option.bind (pending b) reserved \<noteq> Some (ra_id r)"

definition retired_ok :: "retired_allocation list \<Rightarrow> admission_book \<Rightarrow> bool" where
  "retired_ok rs b \<longleftrightarrow> distinct (map ra_id rs) \<and> list_all (retired_entry_ok b) rs"

definition layout_matches :: "arena \<Rightarrow> resource_layout \<Rightarrow> bool" where
  "layout_matches a l \<longleftrightarrow> layout_ok l \<and>
     unat (resources l) = unat (resource_capacity (limits (ar_admission a))) \<and>
     history l = ctl_history (ar_control a)"

definition resources_ok :: "arena \<Rightarrow> bool" where
  "resources_ok a \<longleftrightarrow> (case ar_resources a of
     Some m \<Rightarrow> map_wf m \<and> gens_ok (ar_cursor a) m \<and> layout_matches a (rm_layout m) \<and>
       ar_pending_layout a = None \<and> pending (ar_admission a) = None
   | None \<Rightarrow> pending (ar_admission a) \<noteq> None \<and>
       (\<exists>l. ar_pending_layout a = Some l \<and> layout_matches a l))"

definition control_ok :: "arena \<Rightarrow> bool" where
  "control_ok a \<longleftrightarrow> length (ring_words (ar_control a)) = unat (ctl_history (ar_control a)) \<and>
     unat (ctl_history (ar_control a)) = unat (retained_history (limits (ar_admission a))) \<and>
     w_latest (ar_control a) = ar_cursor a \<and> ar_cursor a \<le> MAX_GENERATION"

definition arena_inv :: "arena \<Rightarrow> bool" where
  "arena_inv a \<longleftrightarrow> book_inv (ar_admission a) \<and> pages_match (ar_claims a) (ar_admission a) \<and>
     map fst (ar_observers a) = map fst (ar_claims a) \<and> retired_ok (ar_retired a) (ar_admission a) \<and>
     resources_ok a \<and> control_ok a"

section \<open>Claim pages against the book\<close>

lemma page_entry_pair [simp]:
  "page_entry (i, c) (j, r) \<longleftrightarrow> i = j \<and> claim_wf c \<and> cm_frames c = unat (frames (reservation r))"
  by (simp add: page_entry_def)

lemma map_fst_bt_insert:
  "map fst m = map fst m' \<Longrightarrow> map fst (bt_insert k v m) = map fst (bt_insert k v' m')"
proof (induction m arbitrary: m')
  case (Cons x m)
  then obtain y n where "m' = y # n" "fst y = fst x" "map fst m = map fst n" by (cases m') auto
  then show ?case using Cons.IH [of n] by (cases x; cases y) auto
qed simp

lemma map_fst_bt_remove: "map fst (bt_remove k m) = filter (\<lambda>x. x \<noteq> k) (map fst m)"
  by (induction m) (auto simp: bt_remove_def)

lemma pages_keys: "pages_match cs b \<Longrightarrow> map fst cs = map fst (reservations b)"
  unfolding pages_match_def by (induction rule: list_all2_induct) (auto simp: page_entry_def)

lemma pages_bt_wf: "pages_match cs b \<Longrightarrow> reservations_ok b \<Longrightarrow> bt_wf cs"
  using pages_keys [of cs b] by (simp add: reservations_ok_def bt_wf_def)

lemma pages_frames:
  "pages_match cs b \<Longrightarrow> (\<Sum>e\<leftarrow>cs. cm_frames (snd e)) = charged_frames b"
  unfolding pages_match_def charged_frames_def
  by (induction rule: list_all2_induct) (auto simp: page_entry_def)

lemma pages_wf: "pages_match cs b \<Longrightarrow> (i, c) \<in> set cs \<Longrightarrow> claim_wf c"
  unfolding pages_match_def by (induction rule: list_all2_induct) (auto simp: page_entry_def)

lemma pages_insert:
  assumes "list_all2 page_entry cs rs" "page_entry (k, c) (k, r)"
  shows "list_all2 page_entry (bt_insert k c cs) (bt_insert k r rs)"
  using assms
proof (induction rule: list_all2_induct)
  case (Cons x xs y ys)
  then show ?case by (cases x; cases y) auto
qed simp

lemma pages_remove:
  "list_all2 page_entry cs rs \<Longrightarrow> list_all2 page_entry (bt_remove k cs) (bt_remove k rs)"
  by (induction rule: list_all2_induct) (auto simp: bt_remove_def page_entry_def)

lemma pages_update:
  assumes "list_all2 page_entry cs rs"
    and "\<And>c. claim_wf c \<Longrightarrow> (k, c) \<in> set cs \<Longrightarrow> claim_wf (f c) \<and> cm_frames (f c) = cm_frames c"
  shows "list_all2 page_entry (alist_map_value k f cs) rs"
  using assms
  by (induction rule: list_all2_induct) (auto simp: alist_map_value_def page_entry_def)

lemma pages_book_update:
  assumes "list_all2 page_entry cs rs" and "\<And>r. frames (reservation (g r)) = frames (reservation r)"
  shows "list_all2 page_entry cs (alist_map_value k g rs)"
  using assms(1)
  by (induction rule: list_all2_induct) (auto simp: alist_map_value_def page_entry_def assms(2))

lemma pages_map:
  assumes "list_all2 page_entry cs rs" and "\<And>c. claim_wf (f c) = claim_wf c \<and> cm_frames (f c) = cm_frames c"
  shows "list_all2 page_entry (map (\<lambda>(i, c). (i, f c)) cs) rs"
  using assms(1) by (induction rule: list_all2_induct) (auto simp: page_entry_def assms(2))

lemma signal_all_pages:
  "list_all2 page_entry cs rs \<Longrightarrow> list_all2 page_entry (snd (signal_all k cs)) rs \<and>
     map fst (snd (signal_all k cs)) = map fst cs"
proof (induction rule: list_all2_induct)
  case (Cons x xs y ys)
  obtain i c j r where xy: "x = (i, c)" "y = (j, r)" by (cases x; cases y)
  obtain res c' where sig: "claim_signal c k = (res, c')" by (metis surj_pair)
  have "claim_wf c' = claim_wf c" "cm_frames c' = cm_frames c"
    using claim_wf_keeps(1) [of c k] claim_signal_frame(2) [of c k] by (simp_all add: sig)
  then show ?case
    using Cons by (cases res) (auto simp: xy sig split: prod.splits)
qed simp

lemma bt_remove_alist_map_value [simp]: "bt_remove k (alist_map_value k f m) = bt_remove k m"
  by (induction m) (auto simp: bt_remove_def alist_map_value_def)

section \<open>What the admission operations leave alone\<close>

lemmas book_step_limits =
  book_apply_limits [of "Admit req" b for req b, simplified]
  book_apply_limits [of "Close i" b for i b, simplified]
  book_apply_limits [of "CompleteCleanup i" b for i b, simplified]
  book_apply_limits [of "BeginReconfiguration n" b for n b, simplified]
  book_apply_limits [of ReserveReconfiguration b for b, simplified]
  book_apply_limits [of "InstallReconfiguration n" b for n b, simplified]
  book_apply_limits [of AbandonReconfiguration b for b, simplified]
  book_apply_limits [of "CompleteAllocationCleanup i" b for i b, simplified]

declare book_step_limits [simp]

lemma close_frame [simp]:
  "allocations (snd (book_close b i)) = allocations b"
  "current_allocation (snd (book_close b i)) = current_allocation b"
  "pending (snd (book_close b i)) = pending b"
  by (simp_all add: book_close_def split: option.splits)

lemma complete_frame [simp]:
  "allocations (snd (complete_cleanup b i)) = allocations b"
  "current_allocation (snd (complete_cleanup b i)) = current_allocation b"
  "pending (snd (complete_cleanup b i)) = pending b"
  by (simp_all add: complete_cleanup_def split: option.splits)

lemma admit_frame [simp]:
  "allocations (snd (admit b r)) = allocations b"
  "current_allocation (snd (admit b r)) = current_allocation b"
  "pending (snd (admit b r)) = pending b"
  by (simp_all add: admit_def Let_def split: option.splits)

lemma retired_ok_frame:
  "retired_ok rs b \<Longrightarrow> allocations b' = allocations b \<Longrightarrow> current_allocation b' = current_allocation b \<Longrightarrow>
     pending b' = pending b \<Longrightarrow> retired_ok rs b'"
  by (simp add: retired_ok_def retired_entry_ok_def list_all_iff)

text \<open>Closing and cleaning up a known incarnation succeeds and removes exactly its entry.\<close>

lemma retire_incarnation:
  assumes "book_inv b" "map_of (reservations b) i = Some r"
  obtains b1 b2 where "book_close b i = (Ok (), b1)" "complete_cleanup b1 i = (Ok (), b2)" "book_inv b2"
    "reservations b2 = bt_remove i (reservations b)" "allocations b2 = allocations b"
    "current_allocation b2 = current_allocation b" "pending b2 = pending b" "limits b2 = limits b"
proof -
  let ?b1 = "snd (book_close b i)"
  let ?b2 = "snd (complete_cleanup ?b1 i)"
  have c: "book_close b i = (Ok (), ?b1)" and rs: "reservations ?b1 =
      alist_map_value i (\<lambda>r. r\<lparr> closing := True \<rparr>) (reservations b)"
    using assms(2) by (simp_all add: book_close_def)
  have look: "map_of (reservations ?b1) i = Some (r\<lparr> closing := True \<rparr>)"
    using assms(2) by (simp add: rs map_of_alist_map_value)
  then have cc: "complete_cleanup ?b1 i = (Ok (), ?b2)" and rs2: "reservations ?b2 = bt_remove i (reservations ?b1)"
    by (simp_all add: complete_cleanup_def)
  have "book_inv ?b2" by (intro complete_cleanup_inv close_inv assms(1))
  then show ?thesis using that [OF c cc] rs2 rs by simp
qed

section \<open>Cleanup keeps the invariant and never panics\<close>

definition same_page :: "observed \<Rightarrow> observed \<Rightarrow> bool" where
  "same_page x y \<longleftrightarrow> (claim_wf (snd x) \<longrightarrow> claim_wf (snd y)) \<and> cm_frames (snd y) = cm_frames (snd x)"

lemma same_page_trans: "same_page x y \<Longrightarrow> same_page y z \<Longrightarrow> same_page x z"
  by (simp add: same_page_def)

lemma exit_slot_page: "same_page x (exit_slot i x)"
  by (cases x) (auto simp: exit_slot_def os_return_credit_def os_fail_def Let_def same_page_def claim_wf_def)

lemma fold_exit_page: "same_page x (fold exit_slot is x)"
proof (induction "is" arbitrary: x)
  case (Cons i "is")
  show ?case using same_page_trans [OF exit_slot_page Cons.IH] by simp
qed (simp add: same_page_def)

lemma observe_slot_page: "same_page x (snd (observe_slot e i x))"
  by (cases x)
    (auto simp: observe_slot_def os_return_credit_def os_fail_def Let_def same_page_def claim_wf_def
      split: outcome.splits)

lemma observe_slots_page: "same_page x (observe_slots e is x)"
proof (induction "is" arbitrary: x)
  case (Cons i "is")
  obtain b y where y: "observe_slot e i x = (b, y)" by (metis surj_pair)
  then have "same_page x y" using observe_slot_page [of x e i] by simp
  then show ?case using Cons.IH [of y] y same_page_trans [of x y] by (cases b) auto
qed (simp add: same_page_def)

lemma observe_process_page: "same_page x (observe_process e x)"
proof -
  obtain st c where x: "x = (st, c)" by (cases x)
  let ?c = "(acknowledge_quiescent (claim_close c))\<lparr> mapping_slots := replicate (cm_frames c + 2) 0 \<rparr>"
  have "same_page x (st\<lparr> os_process := None \<rparr>, ?c)" by (auto simp: same_page_def x claim_wf_def)
  from same_page_trans [OF this fold_exit_page] show ?thesis
    by (auto simp: x observe_process_def os_fail_notification_def os_fail_def Let_def same_page_def
        split: option.splits outcome.splits bool.splits)
qed

lemma observe_deadline_page: "same_page x (observe_deadline e x)"
  using observe_deadline_same [of 0 x e] by (simp add: same_slot_def same_page_def)

lemma observation_poll_page: "same_page x (observation_poll e x)"
  using same_page_trans [OF observe_process_page [of x e] observe_deadline_page]
    same_page_trans [OF same_page_trans [OF observe_process_page [of x e] observe_deadline_page] observe_slots_page]
  by (simp add: observation_poll_def Let_def)

text \<open>Changes of the pages, the observers, the retired allocations and the book.\<close>

lemma arena_inv_frame:
  assumes "arena_inv a" "ar_resources a' = ar_resources a" "ar_pending_layout a' = ar_pending_layout a"
    "ar_control a' = ar_control a" "ar_cursor a' = ar_cursor a"
    "limits (ar_admission a') = limits (ar_admission a)" "pending (ar_admission a') = pending (ar_admission a)"
    "book_inv (ar_admission a')" "pages_match (ar_claims a') (ar_admission a')"
    "map fst (ar_observers a') = map fst (ar_claims a')" "retired_ok (ar_retired a') (ar_admission a')"
  shows "arena_inv a'"
proof -
  have "resources_ok a' = resources_ok a" "control_ok a' = control_ok a"
    using assms(2-7) by (simp_all add: resources_ok_def control_ok_def layout_matches_def split: option.split)
  then show ?thesis using assms by (simp add: arena_inv_def)
qed

lemma arena_inv_pages:
  assumes "arena_inv a" "pages_match cs (ar_admission a)" "map fst os = map fst cs"
  shows "arena_inv (a\<lparr> ar_observers := os, ar_claims := cs \<rparr>)"
  by (rule arena_inv_frame [OF assms(1)]) (use assms in \<open>simp_all add: arena_inv_def\<close>)

lemma poll_observer_inv:
  assumes "arena_inv (snd x)"
  shows "arena_inv (snd (poll_observer e i x))"
proof -
  obtain n a where x: "x = (n, a)" by (cases x)
  show ?thesis
  proof (cases "map_of (ar_observers a) i")
    case None
    then show ?thesis using assms by (simp add: x poll_observer_def)
  next
    case (Some st)
    show ?thesis
    proof (cases "map_of (ar_claims a) i")
      case None
      then show ?thesis using assms Some by (simp add: x poll_observer_def)
    next
      case c: (Some c)
      obtain st' c' where r: "observation_poll e (st, c) = (st', c')" by (metis surj_pair)
      have inv: "arena_inv a" using assms x by simp
      have ks: "map fst (ar_observers a) = map fst (ar_claims a)" using inv by (simp add: arena_inv_def)
      have key: "\<And>d. (i, d) \<in> set (ar_claims a) \<Longrightarrow> d = c"
      proof -
        fix d assume d: "(i, d) \<in> set (ar_claims a)"
        have "bt_wf (ar_claims a)"
          using inv pages_bt_wf by (auto simp: arena_inv_def book_inv_def)
        then have "distinct (map fst (ar_claims a))" by (rule bt.entries_distinct)
        then show "d = c" using d c by (metis map_of_is_SomeI option.inject)
      qed
      have "pages_match (alist_map_value i (\<lambda>_. c') (ar_claims a)) (ar_admission a)"
        unfolding pages_match_def
        by (rule pages_update)
          (use inv observation_poll_page [of "(st, c)" e] r key in \<open>auto simp: arena_inv_def pages_match_def same_page_def\<close>)
      from arena_inv_pages [OF inv this, of "alist_map_value i (\<lambda>_. st'\<lparr> os_released := 0 \<rparr>) (ar_observers a)"]
      show ?thesis using Some c r ks by (simp add: x poll_observer_def)
    qed
  qed
qed

lemma fold_poll_observer_inv: "arena_inv (snd x) \<Longrightarrow> arena_inv (snd (fold (poll_observer e) is x))"
  by (induction "is" arbitrary: x) (auto simp: poll_observer_inv)

lemma collect_quiescent_inv:
  assumes "arena_inv a" "distinct (map fst es)" "fst ` set es \<subseteq> fst ` set (ar_claims a)"
  shows "fst (collect_quiescent es a) = Ok () \<and> arena_inv (snd (collect_quiescent es a)) \<and>
     ar_resources (snd (collect_quiescent es a)) = ar_resources a \<and>
     ar_cursor (snd (collect_quiescent es a)) = ar_cursor a"
  using assms
proof (induction es arbitrary: a)
  case (Cons x es)
  obtain i c where x: "x = (i, c)" by (cases x)
  show ?case
  proof (cases "claim_drained c")
    case False
    then show ?thesis using Cons by (simp add: x)
  next
    case True
    have inv: "book_inv (ar_admission a)" "pages_match (ar_claims a) (ar_admission a)"
      using Cons.prems(1) by (auto simp: arena_inv_def)
    have "i \<in> fst ` set (reservations (ar_admission a))"
    proof -
      have "fst ` set (reservations (ar_admission a)) = fst ` set (ar_claims a)"
        using pages_keys [OF inv(2)] by (metis set_map)
      then show ?thesis using Cons.prems(3) x by simp
    qed
    then obtain r where "map_of (reservations (ar_admission a)) i = Some r"
      by (metis map_of_eq_None_iff not_Some_eq)
    from retire_incarnation [OF inv(1) this] obtain b1 b2 where
      b: "book_close (ar_admission a) i = (Ok (), b1)" "complete_cleanup b1 i = (Ok (), b2)" "book_inv b2"
      "reservations b2 = bt_remove i (reservations (ar_admission a))"
      "allocations b2 = allocations (ar_admission a)"
      "current_allocation b2 = current_allocation (ar_admission a)"
      "pending b2 = pending (ar_admission a)" "limits b2 = limits (ar_admission a)" by metis
    let ?a = "a\<lparr> ar_admission := b2, ar_claims := bt_remove i (ar_claims a), ar_observers := bt_remove i (ar_observers a) \<rparr>"
    have "pages_match (bt_remove i (ar_claims a)) b2"
      using inv(2) b(4) pages_remove by (auto simp: pages_match_def)
    moreover have "map fst (bt_remove i (ar_observers a)) = map fst (bt_remove i (ar_claims a))"
      using Cons.prems(1) by (simp add: map_fst_bt_remove arena_inv_def)
    moreover have "retired_ok (ar_retired a) b2"
      by (rule retired_ok_frame [OF _ b(5-7)]) (use Cons.prems(1) in \<open>simp add: arena_inv_def\<close>)
    ultimately have "arena_inv ?a"
      by (intro arena_inv_frame [OF Cons.prems(1)]) (simp_all add: b)
    moreover have "fst ` set es \<subseteq> fst ` set (ar_claims ?a)"
    proof -
      have "i \<notin> fst ` set es" using Cons.prems(2) x by simp
      moreover have "fst ` set (bt_remove i (ar_claims a)) = fst ` set (ar_claims a) - {i}"
        by (auto simp: bt_remove_def)
      moreover have "fst ` set es \<subseteq> fst ` set (ar_claims a)" using Cons.prems(3) by simp
      ultimately show ?thesis by simp blast
    qed
    ultimately show ?thesis
      using Cons.IH [of ?a] Cons.prems(2) True b by (simp add: x)
  qed
qed simp

lemma set_swap_remove: "i < length xs \<Longrightarrow> set (swap_remove i xs) \<subseteq> set xs"
proof -
  assume i: "i < length xs"
  then have "xs \<noteq> []" by auto
  then have "last xs \<in> set xs" by simp
  moreover have "set (butlast xs) \<subseteq> set xs" by (auto dest: in_set_butlastD)
  moreover have "set ((butlast xs)[i := last xs]) \<subseteq> insert (last xs) (set (butlast xs))"
    by (rule set_update_subset_insert)
  ultimately show ?thesis by (auto simp: swap_remove_def)
qed

lemma mset_swap_remove:
  assumes "i < length xs"
  shows "mset xs = add_mset (xs ! i) (mset (swap_remove i xs))"
proof (cases "Suc i = length xs")
  case True
  then have "xs = butlast xs @ [xs ! i]"
    by (metis assms append_butlast_last_id diff_Suc_1 last_conv_nth list.size(3) not_less_zero)
  then have "mset xs = mset (butlast xs @ [xs ! i])" by metis
  then show ?thesis using True by (simp add: swap_remove_def)
next
  case False
  then have i: "i < length (butlast xs)" and ne: "xs \<noteq> []" using assms by auto
  have "mset xs = add_mset (last xs) (mset (butlast xs))"
    by (metis ne append_butlast_last_id mset_append mset.simps union_mset_add_mset_right add.right_neutral)
  also have "mset (butlast xs) = add_mset (xs ! i) (mset (butlast xs) - {#xs ! i#})"
    using i nth_butlast [OF i] by (metis insert_DiffM nth_mem_mset)
  finally show ?thesis
    using False i nth_butlast [OF i] by (simp add: swap_remove_def mset_update)
qed

lemma retired_ok_remove:
  assumes "retired_ok rs b" "i < length rs" "complete_allocation_cleanup b (ra_id (rs ! i)) = (Ok (), b')"
  shows "retired_ok (swap_remove i rs) b'"
proof -
  let ?r = "rs ! i" and ?s = "swap_remove i rs"
  have ms: "mset (map ra_id rs) = add_mset (ra_id ?r) (mset (map ra_id ?s))"
    using mset_swap_remove [OF assms(2)] by simp
  have d: "distinct (map ra_id ?s)" "ra_id ?r \<notin> set (map ra_id ?s)"
  proof -
    have "distinct (ra_id ?r # map ra_id ?s)"
      using ms assms(1) unfolding retired_ok_def by (metis mset.simps(2) mset_eq_imp_distinct_iff)
    then show "distinct (map ra_id ?s)" "ra_id ?r \<notin> set (map ra_id ?s)" by auto
  qed
  have b': "allocations b' = bt_remove (ra_id ?r) (allocations b)" "current_allocation b' = current_allocation b"
    "pending b' = pending b"
    using assms(3) by (auto simp: complete_allocation_cleanup_def split: if_splits option.splits)
  have "retired_entry_ok b' x" if x: "x \<in> set ?s" for x
  proof -
    have "retired_entry_ok b x"
      using assms(1) set_swap_remove [OF assms(2)] x by (auto simp: retired_ok_def list_all_iff)
    moreover have "ra_id x \<noteq> ra_id ?r" using d(2) x by (metis image_eqI set_map)
    ultimately show ?thesis by (simp add: retired_entry_ok_def b' map_of_bt_remove)
  qed
  then show ?thesis using d(1) by (simp add: retired_ok_def list_all_iff)
qed

lemma retired_cleanup_ok:
  assumes "retired_entry_ok b r"
  obtains b' where "complete_allocation_cleanup b (ra_id r) = (Ok (), b')" "reservations b' = reservations b"
    "pending b' = pending b" "limits b' = limits b"
  using assms by (auto simp: retired_entry_ok_def complete_allocation_cleanup_def)


lemma retired_cleanup_inv:
  assumes "arena_inv a" "i < length (ar_retired a)"
    "complete_allocation_cleanup (ar_admission a) (ra_id (ar_retired a ! i)) = (Ok (), b)"
  shows "arena_inv (a\<lparr> ar_retired := swap_remove i (ar_retired a), ar_admission := b \<rparr>)"
proof -
  have b: "b = snd (complete_allocation_cleanup (ar_admission a) (ra_id (ar_retired a ! i)))"
    by (simp add: assms(3))
  have fr: "reservations b = reservations (ar_admission a)" "pending b = pending (ar_admission a)"
    "limits b = limits (ar_admission a)"
    using assms(3) by (auto simp: complete_allocation_cleanup_def split: if_splits option.splits)
  show ?thesis
  proof (rule arena_inv_frame [OF assms(1)])
    show "book_inv (ar_admission (a\<lparr> ar_retired := swap_remove i (ar_retired a), ar_admission := b \<rparr>))"
      using assms(1) b complete_allocation_cleanup_inv by (simp add: arena_inv_def)
    show "retired_ok (ar_retired (a\<lparr> ar_retired := swap_remove i (ar_retired a), ar_admission := b \<rparr>))
        (ar_admission (a\<lparr> ar_retired := swap_remove i (ar_retired a), ar_admission := b \<rparr>))"
      using retired_ok_remove [OF _ assms(2,3)] assms(1) by (simp add: arena_inv_def)
  qed (use assms(1) fr in \<open>simp_all add: arena_inv_def pages_match_def\<close>)
qed

text \<open>What a cleanup pass leaves alone.\<close>

definition cleanup_frame_ok :: "arena \<Rightarrow> arena \<Rightarrow> bool" where
  "cleanup_frame_ok a a' \<longleftrightarrow> ar_resources a' = ar_resources a \<and> ar_cursor a' = ar_cursor a \<and>
     ar_control a' = ar_control a \<and> ar_pending_layout a' = ar_pending_layout a \<and>
     ar_next_slot a' = ar_next_slot a \<and> ar_native a' = ar_native a \<and>
     limits (ar_admission a') = limits (ar_admission a)"

lemma cleanup_frame_trans: "cleanup_frame_ok a b \<Longrightarrow> cleanup_frame_ok b c \<Longrightarrow> cleanup_frame_ok a c"
  by (simp add: cleanup_frame_ok_def)

definition retired_result_ok :: "env \<Rightarrow> arena \<Rightarrow> unit arena_result \<Rightarrow> bool" where
  "retired_result_ok e a r \<longleftrightarrow> fst r \<noteq> Panic \<and>
     (\<forall>error. fst r = Err error \<longrightarrow> (\<exists>h. retired_ready e h = Err error)) \<and> arena_inv (snd r) \<and> cleanup_frame_ok a (snd r) \<and>
     ar_claims (snd r) = ar_claims a"

lemma collect_retired_inv:
  assumes "arena_inv a" "\<forall>h. retired_ready e h \<noteq> Panic"
  shows "retired_result_ok e a (collect_retired_allocations e i a)"
  using assms
proof (induction e i a rule: collect_retired_allocations.induct)
  case (1 e i a)
  let ?r = "ar_retired a ! i"
  show ?case
  proof (cases "i < length (ar_retired a)")
    case False
    then show ?thesis
      using 1(4) by (simp add: collect_retired_allocations.simps [of e i a] cleanup_frame_ok_def retired_result_ok_def)
  next
    case True
    have "retired_entry_ok (ar_admission a) ?r"
      using 1(4) True by (simp add: arena_inv_def retired_ok_def list_all_length)
    then obtain nb where fin: "complete_allocation_cleanup (ar_admission a) (ra_id ?r) = (Ok (), nb)"
      and nl: "limits nb = limits (ar_admission a)" by (rule retired_cleanup_ok)
    let ?a = "a\<lparr> ar_retired := swap_remove i (ar_retired a), ar_admission := nb \<rparr>"
    have ready: "native_ready e ?r \<noteq> Panic" using 1(5) by (simp add: native_ready_def split: option.split)
    have failed: "\<exists>h. retired_ready e h = Err error" if "native_ready e ?r = Err error" for error
      using that by (auto simp: native_ready_def split: option.splits)
    note step = collect_retired_allocations.simps [of e i a]
    show ?thesis
    proof (cases "retained_by_claims a (ra_map ?r) \<or> rm_owners (ra_map ?r) \<noteq> 0")
      case kept: True
      then show ?thesis using 1(1) [OF True refl kept 1(4,5)] True by (simp add: step)
    next
      case free: False
      show ?thesis
      proof (cases "native_ready e ?r")
        case (Ok b)
        show ?thesis
        proof (cases b)
          case False
          then show ?thesis using 1(3) [OF True refl free Ok _ 1(4,5)] True free Ok by (simp add: step)
        next
          case b: True
          have "arena_inv ?a" by (rule retired_cleanup_inv [OF 1(4) True fin])
          then have "retired_result_ok e ?a (collect_retired_allocations e i ?a)"
            using 1(2) [OF True refl free Ok _ fin [symmetric] refl] b 1(5) by simp
          moreover have "cleanup_frame_ok a ?a" by (simp add: cleanup_frame_ok_def nl)
          ultimately have "retired_result_ok e a (collect_retired_allocations e i ?a)"
            using cleanup_frame_trans [of a ?a] by (simp add: retired_result_ok_def)
          moreover have "collect_retired_allocations e i a = collect_retired_allocations e i ?a"
            using True free Ok b fin by (subst step) simp
          ultimately show ?thesis by simp
        qed
      qed (use ready failed 1(4) True free in \<open>simp_all add: step retired_result_ok_def cleanup_frame_ok_def\<close>)
    qed
  qed
qed

lemma poll_observer_frame:
  "cleanup_frame_ok (snd x) (snd (poll_observer e i x)) \<and> ar_retired (snd (poll_observer e i x)) = ar_retired (snd x)"
  by (cases x) (auto simp: poll_observer_def cleanup_frame_ok_def split: option.splits prod.splits)

lemma fold_poll_observer_frame: "cleanup_frame_ok (snd x) (snd (fold (poll_observer e) is x))"
proof (induction "is" arbitrary: x)
  case (Cons i "is")
  show ?case using cleanup_frame_trans [OF conjunct1 [OF poll_observer_frame] Cons.IH] by simp
qed (simp add: cleanup_frame_ok_def)

lemma collect_quiescent_frame:
  "cleanup_frame_ok a (snd (collect_quiescent es a))"
proof (induction es arbitrary: a)
  case (Cons x es)
  obtain i c where x: "x = (i, c)" by (cases x)
  obtain r1 b1 where c1: "book_close (ar_admission a) i = (r1, b1)" by (metis surj_pair)
  obtain r2 b2 where c2: "complete_cleanup b1 i = (r2, b2)" by (metis surj_pair)
  have l: "limits b1 = limits (ar_admission a)" "limits b2 = limits b1"
    using book_step_limits(2) [of "ar_admission a" i] book_step_limits(3) [of b1 i] by (simp_all add: c1 c2)
  let ?a = "a\<lparr> ar_admission := b2, ar_claims := bt_remove i (ar_claims a), ar_observers := bt_remove i (ar_observers a) \<rparr>"
  have "cleanup_frame_ok a ?a" by (simp add: cleanup_frame_ok_def l)
  from cleanup_frame_trans [OF this Cons.IH] Cons.IH show ?case
    by (cases r1; cases r2) (auto simp: x c1 c2 cleanup_frame_ok_def l)
qed (simp add: cleanup_frame_ok_def)

lemma poll_cleanup_inv:
  assumes "arena_inv a" "\<forall>h. retired_ready e h \<noteq> Panic"
  shows "fst (poll_cleanup e a) \<noteq> Panic" "arena_inv (snd (poll_cleanup e a))"
    "cleanup_frame_ok a (snd (poll_cleanup e a))"
    "fst (poll_cleanup e a) = Err error \<Longrightarrow> \<exists>h. retired_ready e h = Err error"
proof -
  obtain n a1 where f: "fold (poll_observer e) (map fst (ar_observers a)) (0, a) = (n, a1)" by (metis surj_pair)
  have i1: "arena_inv a1" and f1: "cleanup_frame_ok a a1"
    using fold_poll_observer_inv [of "(0, a)" e "map fst (ar_observers a)"] assms(1)
      fold_poll_observer_frame [of "(0, a)" e "map fst (ar_observers a)"] f by simp_all
  have d: "distinct (map fst (ar_claims a1))"
    using i1 pages_bt_wf bt.entries_distinct by (auto simp: arena_inv_def book_inv_def)
  obtain a2 where q: "collect_quiescent (ar_claims a1) a1 = (Ok (), a2)" and i2: "arena_inv a2"
    using collect_quiescent_inv [OF i1 d] by (cases "collect_quiescent (ar_claims a1) a1") auto
  have f2: "cleanup_frame_ok a a2"
    using collect_quiescent_frame [of a1 "ar_claims a1"] q cleanup_frame_trans [OF f1] by simp
  note r = collect_retired_inv [OF i2 assms(2), of 0]
  show "fst (poll_cleanup e a) \<noteq> Panic" "arena_inv (snd (poll_cleanup e a))"
    "cleanup_frame_ok a (snd (poll_cleanup e a))"
    "fst (poll_cleanup e a) = Err error \<Longrightarrow> \<exists>h. retired_ready e h = Err error"
    using r f2 cleanup_frame_trans
    by (auto simp: poll_cleanup_def f q retired_result_ok_def split: prod.splits)
qed

end
