(* ===== verification/Arena_Publish.thy ===== *)
theory Arena_Publish
  imports Arena_Invariant
begin

text \<open>
  Publication: what the slot search may pick, that the working reserve makes it succeed, and
  what a successful publication changes.
\<close>

section \<open>The slot search\<close>

text \<open>Why a slot is passed over: reserved, still in the advertised history, or claimed.\<close>

definition blocked :: "u64 \<Rightarrow> (incarnation_id \<times> claim_map) list \<Rightarrow> resource_map \<Rightarrow> nat \<Rightarrow> bool" where
  "blocked oldest cs m i \<longleftrightarrow> rm_reserved m ! i \<or>
     slot_gen m i \<noteq> 0 \<and> (oldest \<le> slot_gen m i \<or> claims_contain cs (slot_gen m i))"

definition retire_at :: "nat \<Rightarrow> resource_map \<Rightarrow> resource_map" where
  "retire_at i m = m\<lparr> rm_states := (rm_states m)[i := state_retired (slot_gen m i)] \<rparr>"

text \<open>Two maps that differ at most in which slots are retired.\<close>

definition same_gens :: "resource_map \<Rightarrow> resource_map \<Rightarrow> bool" where
  "same_gens m m' \<longleftrightarrow> (\<exists>ss. m' = m\<lparr> rm_states := ss \<rparr> \<and> length ss = length (rm_states m)) \<and>
     (\<forall>i<length (rm_states m). slot_gen m' i = slot_gen m i)"

lemma same_gens_refl [simp]: "same_gens m m"
  by (auto simp: same_gens_def intro!: exI [of _ "rm_states m"])

lemma same_gens_trans: "same_gens m m' \<Longrightarrow> same_gens m' m'' \<Longrightarrow> same_gens m m''"
  by (auto simp: same_gens_def)

lemma same_gens_retire: "same_gens m (retire_at i m)"
  by (cases "i < length (rm_states m)")
    (auto simp: same_gens_def retire_at_def slot_gen_def nth_list_update)

lemma same_gens_blocked:
  "same_gens m m' \<Longrightarrow> i < length (rm_states m) \<Longrightarrow> blocked oldest cs m' i = blocked oldest cs m i"
  by (auto simp: same_gens_def blocked_def)

lemma find_free_Cons:
  "find_free oldest cs prepare (i # is) m =
     (if rm_reserved m ! i then find_free oldest cs prepare is m
      else if slot_gen m i \<noteq> 0 \<and> oldest \<le> slot_gen m i then find_free oldest cs prepare is m
      else if slot_gen m i \<noteq> 0 \<and> claims_contain cs (slot_gen m i)
      then find_free oldest cs prepare is (retire_at i m)
      else case prepare i (slot_gen m i) of
          Err error \<Rightarrow> (Err error, retire_at i m)
        | Panic \<Rightarrow> (Panic, retire_at i m)
        | Ok None \<Rightarrow> find_free oldest cs prepare is (retire_at i m)
        | Ok (Some d) \<Rightarrow> (Ok (Some (i, d)), retire_at i m))"
  unfolding find_free.simps Let_def slot_gen_def retire_at_def by simp

lemma find_free_gens: "same_gens m (snd (find_free oldest cs prepare is m))"
proof (induction "is" arbitrary: m)
  case (Cons i "is")
  have r: "same_gens m (snd (find_free oldest cs prepare is (retire_at i m)))"
    by (rule same_gens_trans [OF same_gens_retire Cons.IH])
  show ?case
    unfolding find_free_Cons using Cons.IH [of m] r same_gens_retire [of m i]
    by (simp split: outcome.split option.split)
qed simp

lemma find_free_Some:
  assumes "fst (find_free oldest cs prepare is m) = Ok (Some (i, d))" "\<forall>j\<in>set is. j < length (rm_states m)"
  shows "i \<in> set is \<and> \<not> blocked oldest cs m i \<and> prepare i (slot_gen m i) = Ok (Some d)"
  using assms
proof (induction "is" arbitrary: m)
  case (Cons j "is")
  have IH: "i \<in> set is \<and> \<not> blocked oldest cs m i \<and> prepare i (slot_gen m i) = Ok (Some d)"
    if "fst (find_free oldest cs prepare is m') = Ok (Some (i, d))" "same_gens m m'" for m'
  proof -
    have len: "length (rm_states m') = length (rm_states m)" using that(2) by (auto simp: same_gens_def)
    have "i \<in> set is \<and> \<not> blocked oldest cs m' i \<and> prepare i (slot_gen m' i) = Ok (Some d)"
      using Cons.IH [OF that(1)] Cons.prems(2) len by simp
    then show ?thesis
      using Cons.prems(2) same_gens_blocked [OF that(2)] that(2) by (auto simp: same_gens_def)
  qed
  show ?case
    using Cons.prems(1) IH [of m] IH [OF _ same_gens_retire, of j]
    unfolding find_free_Cons
    by (auto simp: blocked_def split: if_splits outcome.splits option.splits)
qed simp

lemma find_free_None:
  assumes "fst (find_free oldest cs prepare is m) = Ok None" "\<forall>j\<in>set is. j < length (rm_states m)"
    "\<forall>j g. prepare j g \<noteq> Ok None" "i \<in> set is"
  shows "blocked oldest cs m i"
  using assms
proof (induction "is" arbitrary: m)
  case (Cons j "is")
  have IH: "i \<in> set is \<Longrightarrow> blocked oldest cs m i"
    if "fst (find_free oldest cs prepare is m') = Ok None" "same_gens m m'" for m'
  proof -
    assume i: "i \<in> set is"
    have "length (rm_states m') = length (rm_states m)" using that(2) by (auto simp: same_gens_def)
    then have "blocked oldest cs m' i" using Cons.IH [OF that(1)] Cons.prems(2,3) i by simp
    then show ?thesis using same_gens_blocked [OF that(2)] Cons.prems(2) i by simp
  qed
  show ?case
    using Cons.prems IH [of m] IH [OF _ same_gens_retire, of j]
    unfolding find_free_Cons
    by (auto simp: blocked_def split: if_splits outcome.splits option.splits)
qed simp

lemma set_slot_candidates: "0 < n \<Longrightarrow> set (slot_candidates k n) = {..<n}"
proof -
  assume n: "0 < n"
  have "i \<in> (\<lambda>offset. (k + offset) mod n) ` {0..<n}" if "i < n" for i
  proof -
    let ?o = "(i + (n - k mod n)) mod n"
    have "(k + ?o) mod n = (k mod n + (i + (n - k mod n))) mod n" by (simp add: mod_simps)
    also have "k mod n + (i + (n - k mod n)) = i + n"
      using mod_less_divisor [OF n, of k] by linarith
    finally have "(k + ?o) mod n = i" using that by simp
    then show ?thesis using n by (intro image_eqI [of _ _ ?o]) auto
  qed
  then show ?thesis using n by (auto simp: slot_candidates_def)
qed

section \<open>Counting blocked slots\<close>

lemma finite_reserved_slots [simp]: "finite {i. i < n \<and> P i}" for n :: nat
  by simp

lemma history_slots:
  assumes "gens_ok cur m" "h \<noteq> 0"
  shows "card {i. i < length (rm_states m) \<and> slot_gen m i \<noteq> 0 \<and> oldest_retained cur h \<le> slot_gen m i} \<le> unat h"
proof -
  let ?S = "{i. i < length (rm_states m) \<and> slot_gen m i \<noteq> 0 \<and> oldest_retained cur h \<le> slot_gen m i}"
  let ?f = "\<lambda>i. unat (slot_gen m i)"
  have inj: "inj_on ?f ?S"
    using assms(1) by (auto simp: inj_on_def gens_ok_def word_unat_eq_iff)
  have low: "unat (oldest_retained cur h) = max (unat cur - (unat h - 1)) 1"
  proof -
    have "unat (h - 1) = unat h - 1" using assms(2) by (rule unat_minus_one)
    then show ?thesis
      by (simp add: oldest_retained_def max_def word_le_nat_alt unat_saturating_sub)
  qed
  have "?f ` ?S \<subseteq> {unat (oldest_retained cur h)..unat cur}"
    using assms(1) by (auto simp: gens_ok_def word_le_nat_alt)
  then have "card (?f ` ?S) \<le> card {unat (oldest_retained cur h)..unat cur}"
    by (intro card_mono) auto
  also have "\<dots> \<le> unat h"
    using low assms(2) unat_gt_0 [of h] by (auto simp: max_def)
  finally show ?thesis using card_image [OF inj] by simp
qed

lemma claimed_words:
  assumes "\<forall>(i, c)\<in>set cs. claim_wf c"
  shows "card (\<Union>(i, c)\<in>set cs. set (slot_words c)) \<le> (\<Sum>e\<leftarrow>cs. cm_frames (snd e))"
  using assms
proof (induction cs)
  case (Cons x cs)
  obtain i c where x: "x = (i, c)" by (cases x)
  have "card (set (slot_words c)) \<le> cm_frames c"
    using Cons.prems card_length [of "slot_words c"] by (simp add: x claim_wf_def)
  moreover have "card (\<Union>(i, c)\<in>set (x # cs). set (slot_words c)) \<le>
      card (set (slot_words c)) + card (\<Union>(i, c)\<in>set cs. set (slot_words c))"
    by (simp add: x card_Un_le)
  ultimately show ?case using Cons by (simp add: x)
qed simp

lemma claimed_slots:
  assumes "gens_ok cur m" "\<forall>(i, c)\<in>set cs. claim_wf c"
  shows "card {i. i < length (rm_states m) \<and> slot_gen m i \<noteq> 0 \<and> claims_contain cs (slot_gen m i)}
    \<le> (\<Sum>e\<leftarrow>cs. cm_frames (snd e))"
proof -
  let ?S = "{i. i < length (rm_states m) \<and> slot_gen m i \<noteq> 0 \<and> claims_contain cs (slot_gen m i)}"
  have inj: "inj_on (slot_gen m) ?S" using assms(1) by (auto simp: inj_on_def gens_ok_def)
  have "slot_gen m ` ?S \<subseteq> (\<Union>(i, c)\<in>set cs. set (slot_words c))"
    using assms(2) by (force simp: claims_contain_def list_ex_iff claim_contains_set)
  then have "card (slot_gen m ` ?S) \<le> card (\<Union>(i, c)\<in>set cs. set (slot_words c))"
    by (intro card_mono) auto
  also have "\<dots> \<le> (\<Sum>e\<leftarrow>cs. cm_frames (snd e))" by (rule claimed_words [OF assms(2)])
  finally show ?thesis using card_image [OF inj] by simp
qed

text \<open>The pigeonhole: history, holdings and outstanding reservations together block fewer slots
  than the allocation has.\<close>

lemma unblocked_slot_exists:
  assumes "arena_inv a" "ar_resources a = Some m"
    "card {i. i < length (rm_states m) \<and> rm_reserved m ! i} < unat (producer_reserve (limits (ar_admission a)))"
  shows "\<exists>i<length (rm_states m).
    \<not> blocked (oldest_retained (ar_cursor a) (history (rm_layout m))) (ar_claims a) m i"
proof (rule ccontr)
  let ?n = "length (rm_states m)" and ?h = "history (rm_layout m)"
  let ?o = "oldest_retained (ar_cursor a) ?h"
  let ?R = "{i. i < ?n \<and> rm_reserved m ! i}"
  let ?H = "{i. i < ?n \<and> slot_gen m i \<noteq> 0 \<and> ?o \<le> slot_gen m i}"
  let ?C = "{i. i < ?n \<and> slot_gen m i \<noteq> 0 \<and> claims_contain (ar_claims a) (slot_gen m i)}"
  assume "\<not> ?thesis"
  then have "{..<?n} \<subseteq> ?R \<union> ?H \<union> ?C" by (auto simp: blocked_def)
  then have "?n \<le> card (?R \<union> ?H \<union> ?C)"
    using card_mono [of "?R \<union> ?H \<union> ?C" "{..<?n}"] by simp
  also have "\<dots> \<le> card ?R + card ?H + card ?C"
    using card_Un_le [of "?R \<union> ?H" ?C] card_Un_le [of ?R ?H] by linarith
  finally have count: "?n \<le> card ?R + card ?H + card ?C" .
  have g: "gens_ok (ar_cursor a) m" and wf: "map_wf m" and lm: "layout_matches a (rm_layout m)"
    using assms(1,2) by (auto simp: arena_inv_def resources_ok_def)
  have pm: "pages_match (ar_claims a) (ar_admission a)" and bi: "book_inv (ar_admission a)"
    and ct: "control_ok a" using assms(1) by (auto simp: arena_inv_def)
  have h0: "?h \<noteq> 0"
    using lm layout_new_Ok(6) [of _ "resources (rm_layout m)" ?h] by (auto simp: layout_matches_def layout_ok_def)
  have "card ?H \<le> unat ?h" by (rule history_slots [OF g h0])
  moreover have "card ?C \<le> charged_frames (ar_admission a)"
    using claimed_slots [OF g, of "ar_claims a"] pages_wf [OF pm] pages_frames [OF pm] by auto
  moreover have "?n = unat (resource_capacity (limits (ar_admission a)))"
    "unat ?h = unat (retained_history (limits (ar_admission a)))"
    using wf lm ct by (auto simp: map_wf_def layout_matches_def control_ok_def)
  moreover have "unat (retained_history (limits (ar_admission a))) +
      unat (producer_reserve (limits (ar_admission a))) + charged_frames (ar_admission a)
      \<le> unat (resource_capacity (limits (ar_admission a)))"
    using bi by (simp add: book_inv_def frames_ok_def)
  ultimately show False using count assms(3) by linarith
qed

section \<open>The effect of a publication\<close>

lemma same_gens_wf:
  assumes "same_gens m m'" "map_wf m" "gens_ok cur m"
  shows "map_wf m'" "gens_ok cur m'" "rm_layout m' = rm_layout m"
proof -
  have len: "length (rm_states m') = length (rm_states m)" and g: "\<forall>i<length (rm_states m). slot_gen m' i = slot_gen m i"
    using assms(1) by (auto simp: same_gens_def)
  show "map_wf m'" "rm_layout m' = rm_layout m" using assms(1,2) by (auto simp: same_gens_def map_wf_def)
  show "gens_ok cur m'" using assms(3) g unfolding gens_ok_def len by metis
qed

lemma gens_ok_publish:
  assumes "gens_ok cur m" "cur < MAX_GENERATION" "i < length (rm_states m)"
  shows "gens_ok (cur + 1) (m\<lparr> rm_states := (rm_states m)[i := state_live (cur + 1)] \<rparr>)"
proof -
  have n: "cur < cur + 1" "cur + 1 \<le> MAX_GENERATION" "cur + 1 \<noteq> 0"
  proof -
    have "unat cur + 1 < 2 ^ LENGTH(64)" using assms(2) by (simp add: MAX_GENERATION_def word_less_nat_alt)
    then have u: "unat (cur + 1) = unat cur + 1" by (rule unat_Suc_word)
    show "cur < cur + 1" "cur + 1 \<le> MAX_GENERATION" "cur + 1 \<noteq> 0"
      using u assms(2) by (auto simp: word_less_nat_alt word_le_nat_alt MAX_GENERATION_def unat_eq_zero)
  qed
  have g: "slot_gen (m\<lparr> rm_states := (rm_states m)[i := state_live (cur + 1)] \<rparr>) j =
      (if j = i then cur + 1 else slot_gen m j)" if "j < length (rm_states m)" for j
    using that assms(3) n(2) by (simp add: slot_gen_def nth_list_update state_generation_live)
  have old: "slot_gen m j \<le> cur + 1" "slot_gen m j \<noteq> cur + 1" if "j < length (rm_states m)" for j
    using assms(1) that n(1) unfolding gens_ok_def by (meson order.trans order_less_imp_le, fastforce)
  show ?thesis
    using assms(1) old g n(3) unfolding gens_ok_def by (auto simp: g) metis
qed

lemma publish_slot_inv:
  assumes inv: "arena_inv a" and res: "ar_resources a = Some m0" and m: "map_wf m" "gens_ok (ar_cursor a) m"
    "rm_layout m = rm_layout m0" and i: "i < length (rm_states m)" and cur: "ar_cursor a < MAX_GENERATION"
  shows "arena_inv (snd (publish_slot m i d a))"
proof -
  let ?m = "m\<lparr> rm_descriptors := (rm_descriptors m)[i := d], rm_states := (rm_states m)[i := state_live (ar_cursor a + 1)] \<rparr>"
  obtain r cs where s: "signal_all DATA (ar_claims a) = (r, cs)" by (metis surj_pair)
  have parts: "book_inv (ar_admission a)" "pages_match (ar_claims a) (ar_admission a)"
    "map fst (ar_observers a) = map fst (ar_claims a)" "retired_ok (ar_retired a) (ar_admission a)"
    "control_ok a" "layout_matches a (rm_layout m0)" "ar_pending_layout a = None" "pending (ar_admission a) = None"
    using inv res by (auto simp: arena_inv_def resources_ok_def)
  have pages: "pages_match cs (ar_admission a)" "map fst cs = map fst (ar_claims a)"
    using signal_all_pages [of "ar_claims a" "reservations (ar_admission a)" DATA] parts(2)
    by (auto simp: pages_match_def s)
  have "gens_ok (ar_cursor a + 1) ?m"
    using gens_ok_publish [OF m(2) cur i] by (simp add: gens_ok_def slot_gen_def)
  moreover have "map_wf ?m" using m(1) by (simp add: map_wf_def)
  moreover have "ar_cursor a + 1 \<le> MAX_GENERATION"
    using cur by (simp add: inc_le)
  ultimately show ?thesis
    using parts pages m(3)
    by (simp add: arena_inv_def publish_slot_def Let_def s resources_ok_def control_ok_def layout_matches_def
        ring_store_def ring_index_def)
qed

lemma final_descriptor_fields [simp]:
  "fd_cursor (final_descriptor e m i cur d) = cur"
  "fd_payload_offset (final_descriptor e m i cur d) = payload_at_slot (rm_layout m) i"
  "fd_payload_len (final_descriptor e m i cur d) = fd_payload_len d"
  "fd_config_generation (final_descriptor e m i cur d) = rm_generation m"
  "fd_slot_id (final_descriptor e m i cur d) = of_nat i"
  by (simp_all add: final_descriptor_def stamp_def)

text \<open>The payload regions of an allocation.\<close>

lemma payload_region:
  assumes "map_wf m" "i < length (rm_states m)" "j < length (rm_states m)"
  shows "unat (payload_at_slot (rm_layout m) i) = i * unat (payload_capacity (rm_layout m))"
    and "unat (payload_at_slot (rm_layout m) i) + unat (payload_capacity (rm_layout m)) \<le> length (rm_payload m)"
    and "i < j \<Longrightarrow> unat (payload_at_slot (rm_layout m) i) + unat (payload_capacity (rm_layout m))
      \<le> unat (payload_at_slot (rm_layout m) j)"
proof -
  let ?l = "rm_layout m" and ?cap = "unat (payload_capacity (rm_layout m))"
  obtain page where "resource_layout_new page (resources ?l) (history ?l) (payload_capacity ?l) = Ok ?l"
    using assms(1) by (auto simp: map_wf_def layout_ok_def)
  note l = layout_new_Ok [OF this]
  have len: "length (rm_states m) = unat (resources ?l)" "length (rm_payload m) = unat (payload_len ?l)"
    using assms(1) by (auto simp: map_wf_def)
  have at: "unat (payload_at_slot ?l k) = k * ?cap" if "k < length (rm_states m)" for k
  proof -
    have k: "unat (of_nat k :: u64) = k"
      using that len(1) u64_bound [of "resources ?l"] by (simp add: unat_of_nat)
    have "k * ?cap \<le> unat (resources ?l) * ?cap" using that len(1) by simp
    also have "\<dots> < 2 ^ 64" using l(9,10) by linarith
    finally show ?thesis using k by (simp add: payload_at_slot_def l(5) unat_mult)
  qed
  show "unat (payload_at_slot ?l i) = i * ?cap" by (rule at [OF assms(2)])
  have "Suc i * ?cap \<le> unat (resources ?l) * ?cap"
    using assms(2) len(1) by (intro mult_le_mono1) simp
  then show "unat (payload_at_slot ?l i) + ?cap \<le> length (rm_payload m)"
    using l(9) len(2) at [OF assms(2)] by simp
  show "i < j \<Longrightarrow> unat (payload_at_slot ?l i) + ?cap \<le> unat (payload_at_slot ?l j)"
  proof -
    assume "i < j"
    then have "Suc i * ?cap \<le> j * ?cap" by (intro mult_le_mono1) simp
    then show ?thesis using at assms(2,3) by simp
  qed
qed

lemma find_free_total:
  "\<forall>j g. \<exists>d. prepare j g = Ok (Some d) \<Longrightarrow> \<exists>x. fst (find_free oldest cs prepare is m) = Ok x"
proof (induction "is" arbitrary: m)
  case (Cons i "is")
  obtain d where "prepare i (slot_gen m i) = Ok (Some d)" using Cons.prems by blast
  then show ?case unfolding find_free_Cons using Cons.IH [OF Cons.prems]
    by (cases "slot_gen m i = 0") simp_all
qed simp

text \<open>Everything about the slot that a publication picks.\<close>

lemma find_free_result:
  assumes inv: "arena_inv a" and res: "ar_resources a = Some m"
    and found: "find_free (oldest_retained (ar_cursor a) (history (rm_layout m))) (ar_claims a) prepare
      (slot_candidates (ar_next_slot a) (unat (resources (rm_layout m)))) m = (r, m1)"
  shows "same_gens m m1" "map_wf m1" "gens_ok (ar_cursor a) m1" "rm_layout m1 = rm_layout m"
    and "r = Ok (Some (i, d)) \<Longrightarrow> i < length (rm_states m) \<and> prepare i (slot_gen m i) = Ok (Some d) \<and>
      \<not> blocked (oldest_retained (ar_cursor a) (history (rm_layout m))) (ar_claims a) m i"
    and "r = Ok None \<Longrightarrow> \<forall>j g. prepare j g \<noteq> Ok None \<Longrightarrow> j < length (rm_states m) \<Longrightarrow>
      blocked (oldest_retained (ar_cursor a) (history (rm_layout m))) (ar_claims a) m j"
proof -
  have m: "map_wf m" "gens_ok (ar_cursor a) m" "layout_ok (rm_layout m)"
    using inv res by (auto simp: arena_inv_def resources_ok_def layout_matches_def)
  have len: "length (rm_states m) = unat (resources (rm_layout m))" using m(1) by (simp add: map_wf_def)
  have "0 < unat (resources (rm_layout m))"
    using m(3) layout_new_Ok(7) by (fastforce simp: layout_ok_def)
  then have set: "set (slot_candidates (ar_next_slot a) (unat (resources (rm_layout m)))) = {..<length (rm_states m)}"
    by (simp add: set_slot_candidates len)
  show g: "same_gens m m1" using find_free_gens [of m _ "ar_claims a" prepare] found by (metis snd_conv)
  show "map_wf m1" "gens_ok (ar_cursor a) m1" "rm_layout m1 = rm_layout m"
    using same_gens_wf [OF g m(1,2)] by auto
  show "r = Ok (Some (i, d)) \<Longrightarrow> i < length (rm_states m) \<and> prepare i (slot_gen m i) = Ok (Some d) \<and>
      \<not> blocked (oldest_retained (ar_cursor a) (history (rm_layout m))) (ar_claims a) m i"
    using find_free_Some [of _ "ar_claims a" prepare _ m i d] found set by (metis fst_conv lessThan_iff)
  show "r = Ok None \<Longrightarrow> \<forall>j g. prepare j g \<noteq> Ok None \<Longrightarrow> j < length (rm_states m) \<Longrightarrow>
      blocked (oldest_retained (ar_cursor a) (history (rm_layout m))) (ar_claims a) m j"
    using find_free_None [of _ "ar_claims a" prepare _ m j] found set by (metis fst_conv lessThan_iff)
qed

lemma publish_slot_result:
  "fst (publish_slot m i d a) = Ok (Published (ar_cursor a + 1)) \<or>
   (\<exists>msg. fst (publish_slot m i d a) = Err (Notification msg)) \<or> fst (publish_slot m i d a) = Panic"
  "ar_cursor (snd (publish_slot m i d a)) = ar_cursor a + 1"
proof -
  have "\<exists>msg. fst (signal_all k cs) = Err (Notification msg)" if "fst (signal_all k cs) = Err x" for k cs x
    using that by (induction k cs rule: signal_all.induct) (auto split: prod.splits outcome.splits)
  then show "fst (publish_slot m i d a) = Ok (Published (ar_cursor a + 1)) \<or>
   (\<exists>msg. fst (publish_slot m i d a) = Err (Notification msg)) \<or> fst (publish_slot m i d a) = Panic"
    by (cases "signal_all DATA (ar_claims a)"; cases "fst (signal_all DATA (ar_claims a))")
      (fastforce simp: publish_slot_def Let_def)+
  show "ar_cursor (snd (publish_slot m i d a)) = ar_cursor a + 1"
    by (simp add: publish_slot_def Let_def split: prod.split)
qed

lemma wake_signal_no_panic [simp]: "fst (wake_signal w) \<noteq> Panic"
  by (simp add: wake_signal_def split: option.split)

lemma claim_signal_no_panic [simp]: "fst (claim_signal c k) \<noteq> Panic"
proof -
  have "wake_signal (cm_wake c') \<noteq> (Panic, w)" for c' w
    using wake_signal_no_panic [of "cm_wake c'"] by (metis fst_conv)
  then show ?thesis by (auto simp: claim_signal_def Let_def split: prod.splits outcome.splits)
qed

lemma signal_all_no_panic [simp]: "fst (signal_all k cs) \<noteq> Panic"
proof (induction k cs rule: signal_all.induct)
  case (2 k i c cs)
  obtain r c' where s: "claim_signal c k = (r, c')" by (metis surj_pair)
  then have "r \<noteq> Panic" using claim_signal_no_panic [of c k] by simp
  then show ?case using 2 s by (cases r) (auto split: prod.splits)
qed simp

lemma publish_slot_no_panic [simp]: "fst (publish_slot m i d a) \<noteq> Panic"
  using signal_all_no_panic [of DATA "ar_claims a"]
  by (cases "signal_all DATA (ar_claims a)") (simp add: publish_slot_def Let_def)

lemma publish_success:
  assumes inv: "arena_inv a" and ready: "\<forall>h. \<exists>b. retired_ready e h = Ok b"
    and open': "w_terminal (ar_control a) = 0" and res: "ar_resources a = Some m"
    and fits: "length bytes \<le> unat (payload_capacity (rm_layout m))" and cur: "ar_cursor a \<noteq> MAX_GENERATION"
    and room: "card {i. i < length (rm_states m) \<and> rm_reserved m ! i} < unat (producer_reserve (limits (ar_admission a)))"
  obtains k a1 m1 i where "poll_cleanup e a = (Ok k, a1)" "arena_inv a1" "cleanup_frame_ok a a1"
    "same_gens m m1" "map_wf m1" "gens_ok (ar_cursor a) m1" "i < length (rm_states m1)"
    "\<not> blocked (oldest_retained (ar_cursor a) (history (rm_layout m))) (ar_claims a1) m i"
    "publish e d bytes a = publish_slot
       (m1\<lparr> rm_payload := write_at (unat (payload_at_slot (rm_layout m1) i)) bytes (rm_payload m1) \<rparr>) i
       (final_descriptor e m1 i (ar_cursor a + 1) (d\<lparr> fd_payload_len := of_nat (length bytes) \<rparr>)) a1"
proof -
  have np: "\<forall>h. retired_ready e h \<noteq> Panic" using ready by (metis outcome.distinct(3))
  note pc = poll_cleanup_inv [OF inv np]
  have "fst (poll_cleanup e a) \<noteq> Err error" for error
    using pc(4) [of error] ready by (metis outcome.distinct(1))
  then obtain k a1 where p: "poll_cleanup e a = (Ok k, a1)"
    using pc(1) by (cases "poll_cleanup e a"; cases "fst (poll_cleanup e a)") auto
  have i1: "arena_inv a1" and fr: "cleanup_frame_ok a a1" using pc(2,3) p by simp_all
  have same: "ar_resources a1 = Some m" "ar_cursor a1 = ar_cursor a" "ar_control a1 = ar_control a"
    "limits (ar_admission a1) = limits (ar_admission a)"
    using fr res by (simp_all add: cleanup_frame_ok_def)
  obtain r m1 where f: "find_free (oldest_retained (ar_cursor a1) (history (rm_layout m))) (ar_claims a1)
      (\<lambda>_ _. Ok (Some d)) (slot_candidates (ar_next_slot a1) (unat (resources (rm_layout m)))) m = (r, m1)"
    by (metis surj_pair)
  note ff = find_free_result [OF i1 same(1) f]
  have "\<exists>x. r = Ok x" using find_free_total [of "\<lambda>_ _. Ok (Some d)"] f by (metis fst_conv)
  moreover have "r \<noteq> Ok None"
  proof
    assume "r = Ok None"
    then show False using ff(6) unblocked_slot_exists [OF i1 same(1)] room same(4) by auto
  qed
  ultimately obtain i d' where r: "r = Ok (Some (i, d'))" by (metis not_None_eq surj_pair)
  then have i: "i < length (rm_states m)" "d' = d"
    "\<not> blocked (oldest_retained (ar_cursor a1) (history (rm_layout m))) (ar_claims a1) m i"
    using ff(5) by auto
  show ?thesis
  proof (rule that [OF p i1 fr ff(1,2)])
    show "gens_ok (ar_cursor a) m1" "i < length (rm_states m1)"
      using ff(1,3) i(1) same(2) by (auto simp: same_gens_def)
    show "\<not> blocked (oldest_retained (ar_cursor a) (history (rm_layout m))) (ar_claims a1) m i"
      using i(3) same(2) by simp
    show "publish e d bytes a = publish_slot
       (m1\<lparr> rm_payload := write_at (unat (payload_at_slot (rm_layout m1) i)) bytes (rm_payload m1) \<rparr>) i
       (final_descriptor e m1 i (ar_cursor a + 1) (d\<lparr> fd_payload_len := of_nat (length bytes) \<rparr>)) a1"
      using open' p same f r i(2) fits cur
      by (simp add: publish_def publish_prepared_def not_less [symmetric] Let_def)
  qed
qed

section \<open>A new arena\<close>

lemma resource_map_new_wf:
  "layout_ok l \<Longrightarrow> map_wf (resource_map_new l g) \<and> gens_ok cur (resource_map_new l g) \<and>
     rm_layout (resource_map_new l g) = l"
  by (simp add: map_wf_def resource_map_new_def gens_ok_def slot_gen_def Let_def)

lemma create_arena_inv:
  assumes "create_arena e page cfg external_bytes native scope storage = Ok a"
  shows "arena_inv a"
proof -
  obtain l control_len bytes book sc where
    l: "resource_layout_new page (ucast (cfg_resource_capacity cfg)) (ucast (cfg_retained_history cfg))
          (cfg_payload_capacity cfg) = Ok l"
    and book: "admission_book_new
        \<lparr> resource_capacity = cfg_resource_capacity cfg, retained_history = cfg_retained_history cfg,
          producer_reserve = cfg_producer_reserve cfg, allocated_bytes = bytes, fixed_bytes = control_len,
          memory_budget = cfg_memory_budget cfg, max_incarnations = cfg_max_incarnations cfg \<rparr> = Ok book"
    and a: "a = fill_new_arena cfg l book native sc"
  proof -
    have adm: "admission_result r = Ok x \<Longrightarrow> r = Ok x" for r :: "(admission_book, admission_error) outcome" and x
      by (cases r) auto
    show ?thesis
      using assms that
      by (auto simp: create_arena_def prepare_arena_def and_then_eq_Ok split: if_splits dest!: adm)
  qed
  note li = layout_new_Ok [OF l]
  have lok: "layout_ok l" using l li by (auto simp: layout_ok_def)
  have b: "book_inv book" "reservations book = []" "pending book = None"
    "limits book = \<lparr> resource_capacity = cfg_resource_capacity cfg, retained_history = cfg_retained_history cfg,
          producer_reserve = cfg_producer_reserve cfg, allocated_bytes = bytes, fixed_bytes = control_len,
          memory_budget = cfg_memory_budget cfg, max_incarnations = cfg_max_incarnations cfg \<rparr>"
    using book new_inv(1) [OF book]
    by (auto simp: admission_book_new_def split: option.splits if_splits)
  show ?thesis
    using b lok li(1,2) resource_map_new_wf [OF lok, of 1 0]
    by (simp add: a fill_new_arena_def arena_inv_def pages_match_def retired_ok_def resources_ok_def
        layout_matches_def control_ok_def control_map_new_def MAX_GENERATION_def)
qed

section \<open>Publication keeps the invariant\<close>

lemma arena_inv_map:
  assumes "arena_inv a" "ar_resources a = Some m" "map_wf m1" "gens_ok (ar_cursor a) m1" "rm_layout m1 = rm_layout m"
  shows "arena_inv (a\<lparr> ar_resources := Some m1 \<rparr>)"
  using assms by (simp add: arena_inv_def resources_ok_def control_ok_def layout_matches_def)

lemma arena_stop_inv: "arena_inv a \<Longrightarrow> arena_inv (arena_stop a)"
proof -
  assume inv: "arena_inv a"
  have "list_all2 page_entry (close_all (ar_claims a)) (reservations (ar_admission a))"
    unfolding close_all_def by (rule pages_map) (use inv in \<open>auto simp: arena_inv_def pages_match_def\<close>)
  moreover have "map fst (close_all (ar_claims a)) = map fst (ar_claims a)"
    by (simp add: close_all_def case_prod_beta comp_def)
  ultimately show ?thesis
    using inv
    by (cases "ar_resources a")
      (auto simp: arena_inv_def arena_stop_def pages_match_def resources_ok_def control_ok_def layout_matches_def)
qed

lemma write_at_wf:
  assumes "map_wf m" "i < length (rm_states m)" "length bytes \<le> unat (payload_capacity (rm_layout m))"
  shows "map_wf (m\<lparr> rm_payload := write_at (unat (payload_at_slot (rm_layout m) i)) bytes (rm_payload m) \<rparr>)"
  using assms payload_region(2) [OF assms(1,2,2)] by (simp add: map_wf_def)

lemma publish_prepared_inv:
  assumes "arena_inv a" "\<forall>h. retired_ready e h \<noteq> Panic"
  shows "arena_inv (snd (publish_prepared e bytes prepare a))"
proof -
  note pc = poll_cleanup_inv [OF assms]
  obtain rr a1 where p: "poll_cleanup e a = (rr, a1)" by (metis surj_pair)
  have i1: "arena_inv a1" using pc(2) p by simp
  show ?thesis
  proof (cases "w_terminal (ar_control a) = 0 \<and> (\<exists>k. rr = Ok k) \<and> (\<exists>m. ar_resources a1 = Some m)")
    case False
    then show ?thesis
      using assms(1) i1 by (cases rr) (auto simp: publish_prepared_def p split: option.split)
  next
    case True
    then obtain k m where t: "w_terminal (ar_control a) = 0" "rr = Ok k" "ar_resources a1 = Some m" by blast
    obtain r m1 where f: "find_free (oldest_retained (ar_cursor a1) (history (rm_layout m))) (ar_claims a1)
        prepare (slot_candidates (ar_next_slot a1) (unat (resources (rm_layout m)))) m = (r, m1)"
      by (metis surj_pair)
    note ff = find_free_result [OF i1 t(3) f]
    have m1: "arena_inv (a1\<lparr> ar_resources := Some m1 \<rparr>)" by (rule arena_inv_map [OF i1 t(3) ff(2-4)])
    have pub: "arena_inv (snd (publish_slot
        (m1\<lparr> rm_payload := write_at (unat (payload_at_slot (rm_layout m1) i)) bytes (rm_payload m1) \<rparr>) i d' a1))"
      if "r = Ok (Some (i, d))" "\<not> unat (payload_capacity (rm_layout m)) < length bytes"
        "ar_cursor a1 \<noteq> MAX_GENERATION" for i d d'
    proof (rule publish_slot_inv [OF i1 t(3)])
      have i: "i < length (rm_states m1)" using ff(1,5) that(1) by (auto simp: same_gens_def)
      show "map_wf (m1\<lparr> rm_payload := write_at (unat (payload_at_slot (rm_layout m1) i)) bytes (rm_payload m1) \<rparr>)"
        by (rule write_at_wf [OF ff(2) i]) (use that(2) ff(4) in simp)
      show "ar_cursor a1 < MAX_GENERATION"
        using i1 that(3) by (auto simp: arena_inv_def control_ok_def)
    qed (use ff that in \<open>auto simp: same_gens_def gens_ok_def slot_gen_def\<close>)
    show ?thesis
      using t i1 m1 pub arena_stop_inv [OF i1]
      by (auto simp: publish_prepared_def p f Let_def split: outcome.split option.split)
  qed
qed

lemma publish_inv: "arena_inv a \<Longrightarrow> \<forall>h. retired_ready e h \<noteq> Panic \<Longrightarrow> arena_inv (snd (publish e d bytes a))"
  unfolding publish_def by (rule publish_prepared_inv)

section \<open>Properties\<close>


definition sample_config :: arena_config where
  "sample_config = \<lparr> cfg_resource_capacity = 4, cfg_retained_history = 1, cfg_producer_reserve = 1,
     cfg_payload_capacity = 8, cfg_memory_budget = 100000, cfg_max_incarnations = 2,
     cfg_drain_timeout = 5 \<rparr>"

definition sample_layout :: resource_layout where
  "sample_layout = \<lparr> resources = 4, history = 1, payload_capacity = 8, records_at = 256, payload_at = 0,
     map_len = 4096, payload_len = 4096 \<rparr>"

definition sample_arena_limits :: admission_limits where
  "sample_arena_limits = \<lparr> resource_capacity = 4, retained_history = 1, producer_reserve = 1,
     allocated_bytes = 8192, fixed_bytes = 4096, memory_budget = 100000, max_incarnations = 2 \<rparr>"

definition sample_arena_book :: admission_book where
  "sample_arena_book = \<lparr> limits = sample_arena_limits, next_incarnation = 1, reservations = [],
     reserved_frames = 0, committed_bytes = 12288, allocations = [(AllocationId 1, 8192)],
     current_allocation = Some (AllocationId 1), next_allocation = 2, pending = None \<rparr>"

definition sample_arena :: arena where
  "sample_arena = fill_new_arena sample_config sample_layout sample_arena_book False [1]"

lemma sample_arena_created:
  "create_arena sample_env 4096 sample_config 0 False (Ok [1]) (Ok ()) = Ok sample_arena"
  by (simp add: create_arena_def prepare_arena_def sample_config_def sample_layout_def sample_arena_def
      sample_arena_book_def sample_arena_limits_def sample_env_def instant_add_def resource_layout_new_def
      size_mul_def size_add_def checked_mul_def checked_add_def page_rounded_def rounded_def layout_consts word_le_nat_alt
      control_allocation_len_def admission_book_new_def)

lemma sample_arena_inv: "arena_inv sample_arena"
  by (rule create_arena_inv [OF sample_arena_created])

lemma sample_arena_fields:
  "ar_resources sample_arena = Some (resource_map_new sample_layout 1)" "ar_cursor sample_arena = 0"
  "w_terminal (ar_control sample_arena) = 0" "limits (ar_admission sample_arena) = sample_arena_limits"
  "\<forall>h. \<exists>b. retired_ready sample_env h = Ok b"
  "{i. i < length (rm_states (resource_map_new sample_layout 1)) \<and>
       rm_reserved (resource_map_new sample_layout 1) ! i} = {}"
  by (auto simp: sample_arena_def fill_new_arena_def sample_arena_book_def control_map_new_def sample_env_def
      resource_map_new_def Let_def)


text \<open>C14. A publication spares everything that is in use.  Storage whose generation is claimed on
  any consumer page, is still within the advertised history, or is reserved for CPU writing keeps
  its descriptor, its payload bytes and its generation; only its permission to be acquired anew
  may be withdrawn.\<close>

theorem publish_spares_storage_in_use:
  assumes "arena_inv a" and "poll_cleanup e a = (Ok k, a1)" and "ar_resources a = Some m"
    and "\<forall>h. retired_ready e h \<noteq> Panic" and "j < length (rm_states m)"
    and "blocked (oldest_retained (ar_cursor a) (history (rm_layout m))) (ar_claims a1) m j"
    and "ar_resources (snd (publish e d bytes a)) = Some m'"
  shows "rm_descriptors m' ! j = rm_descriptors m ! j \<and> slot_gen m' j = slot_gen m j \<and>
     read_at (unat (payload_at_slot (rm_layout m) j)) (unat (payload_capacity (rm_layout m))) (rm_payload m') =
     read_at (unat (payload_at_slot (rm_layout m) j)) (unat (payload_capacity (rm_layout m))) (rm_payload m)"
proof -
  note pc = poll_cleanup_inv [OF assms(1,4)]
  have i1: "arena_inv a1" and fr: "cleanup_frame_ok a a1" using pc(2,3) assms(2) by simp_all
  have same: "ar_resources a1 = Some m" "ar_cursor a1 = ar_cursor a" "ar_control a1 = ar_control a"
    using fr assms(3) by (simp_all add: cleanup_frame_ok_def)
  obtain r m1 where f: "find_free (oldest_retained (ar_cursor a1) (history (rm_layout m))) (ar_claims a1)
      (\<lambda>_ _. Ok (Some d)) (slot_candidates (ar_next_slot a1) (unat (resources (rm_layout m)))) m = (r, m1)"
    by (metis surj_pair)
  note ff = find_free_result [OF i1 same(1) f]
  have m: "map_wf m" using i1 same(1) by (auto simp: arena_inv_def resources_ok_def)
  have kept: "rm_descriptors m1 = rm_descriptors m" "rm_payload m1 = rm_payload m" "slot_gen m1 j = slot_gen m j"
    "length (rm_states m1) = length (rm_states m)"
    using ff(1) assms(5) by (auto simp: same_gens_def)
  consider (untouched) "m' = m" | (searched) "m' = m1"
    | (published) i d' where "r = Ok (Some (i, d'))" "length bytes \<le> unat (payload_capacity (rm_layout m))"
        "m' = m1\<lparr> rm_payload := write_at (unat (payload_at_slot (rm_layout m1) i)) bytes (rm_payload m1),
                  rm_descriptors := (rm_descriptors m1)[i := final_descriptor e m1 i (ar_cursor a1 + 1)
                    (d'\<lparr> fd_payload_len := of_nat (length bytes) \<rparr>)],
                  rm_states := (rm_states m1)[i := state_live (ar_cursor a1 + 1)] \<rparr>"
  proof -
    have pub: "publish e d bytes a =
      (if w_terminal (ar_control a) \<noteq> 0 then (Err ArenaClosed, a)
       else if unat (payload_capacity (rm_layout m)) < length bytes then (Err PayloadTooLarge, a1)
       else if ar_cursor a1 = MAX_GENERATION then (Err GenerationsExhausted, arena_stop a1)
       else case r of Err error \<Rightarrow> (Err error, a1\<lparr> ar_resources := Some m1 \<rparr>)
         | Panic \<Rightarrow> (Panic, a1\<lparr> ar_resources := Some m1 \<rparr>)
         | Ok None \<Rightarrow> (Ok Dropped, a1\<lparr> ar_resources := Some m1 \<rparr>)
         | Ok (Some (i, d)) \<Rightarrow> publish_slot
             (m1\<lparr> rm_payload := write_at (unat (payload_at_slot (rm_layout m1) i)) bytes (rm_payload m1) \<rparr>) i
             (final_descriptor e m1 i (ar_cursor a1 + 1) (d\<lparr> fd_payload_len := of_nat (length bytes) \<rparr>)) a1)"
      by (simp add: publish_def publish_prepared_def assms(2) same(1) f Let_def
          split: outcome.split option.split)
    show thesis
    proof (cases "w_terminal (ar_control a) \<noteq> 0 \<or> unat (payload_capacity (rm_layout m)) < length bytes \<or>
        ar_cursor a1 = MAX_GENERATION")
      case True
      then have "m' = m" using assms(3,7) same(1) by (auto simp: pub arena_stop_def split: if_splits)
      then show thesis by (rule that(1))
    next
      case run: False
      show thesis
      proof (cases "\<exists>i d'. r = Ok (Some (i, d'))")
        case True
        then obtain i d' where r: "r = Ok (Some (i, d'))" by blast
        then show thesis
          using run assms(7) that(3) [OF r] by (simp add: pub publish_slot_def Let_def not_less split: prod.splits)
      next
        case False
        then have "m' = m1"
          using run assms(7) by (cases r) (auto simp: pub split: option.splits)
        then show thesis by (rule that(2))
      qed
    qed
  qed
  then show ?thesis
  proof cases
    case published
    have b: "i < length (rm_states m)" "\<not> blocked (oldest_retained (ar_cursor a) (history (rm_layout m))) (ar_claims a1) m i"
      using ff(5) [OF published(1)] same(2) by auto
    then have ij: "i \<noteq> j" using assms(6) by auto
    note ri = payload_region [OF m b(1) assms(5)] and rj = payload_region [OF m assms(5) b(1)]
    have "read_at (unat (payload_at_slot (rm_layout m) j)) (unat (payload_capacity (rm_layout m)))
        (write_at (unat (payload_at_slot (rm_layout m) i)) bytes (rm_payload m)) =
        read_at (unat (payload_at_slot (rm_layout m) j)) (unat (payload_capacity (rm_layout m))) (rm_payload m)"
      by (rule read_write_disjoint) (use ij ri(2,3) rj(3) published(2) in \<open>cases "i < j"; auto\<close>)+
    then show ?thesis
      using published(3) ij kept ff(4) by (simp add: slot_gen_def)
  qed (use kept in simp_all)
qed


text \<open>The arena after a first publication: slot 0 is within the advertised history.\<close>

definition sample_published :: arena where
  "sample_published = snd (publish sample_env default_descriptor [1, 2] sample_arena)"

lemma sample_no_panic: "\<forall>h. retired_ready sample_env h \<noteq> Panic"
  by (simp add: sample_env_def)

lemma sample_published_inv: "arena_inv sample_published"
  unfolding sample_published_def by (rule publish_inv [OF sample_arena_inv sample_no_panic])

lemma sample_published_state:
  obtains m j where "ar_resources sample_published = Some m" "j < length (rm_states m)" "slot_gen m j = 1"
    "ar_cursor sample_published = 1" "history (rm_layout m) = 1"
proof -
  let ?init = "resource_map_new sample_layout 1"
  have fits: "length [1, 2 :: u8] \<le> unat (payload_capacity (rm_layout ?init))"
    by (simp add: resource_map_new_def sample_layout_def Let_def)
  show ?thesis
  proof (rule publish_success [OF sample_arena_inv sample_arena_fields(5,3,1) fits])
    show "ar_cursor sample_arena \<noteq> MAX_GENERATION" by (simp add: sample_arena_fields MAX_GENERATION_def)
    show "card {i. i < length (rm_states ?init) \<and> rm_reserved ?init ! i}
        < unat (producer_reserve (limits (ar_admission sample_arena)))"
      by (simp add: sample_arena_fields sample_arena_limits_def)
    fix k a1 i and m1 :: resource_map
    let ?m = "m1\<lparr> rm_payload := write_at (unat (payload_at_slot (rm_layout m1) i)) [1, 2] (rm_payload m1) \<rparr>"
    let ?d = "final_descriptor sample_env m1 i (ar_cursor sample_arena + 1)
        (default_descriptor\<lparr> fd_payload_len := of_nat (length [1, 2 :: u8]) \<rparr>)"
    assume fr: "cleanup_frame_ok sample_arena a1" and g: "same_gens ?init m1" and i: "i < length (rm_states m1)"
      and p: "publish sample_env default_descriptor [1, 2] sample_arena = publish_slot ?m i ?d a1"
    have c: "ar_cursor a1 = 0" using fr by (simp add: cleanup_frame_ok_def sample_arena_fields)
    let ?m' = "?m\<lparr> rm_descriptors := (rm_descriptors m1)[i := ?d], rm_states := (rm_states m1)[i := state_live 1] \<rparr>"
    have r: "ar_resources sample_published = Some ?m'" "ar_cursor sample_published = 1"
      unfolding sample_published_def p by (simp_all add: publish_slot_def Let_def c split: prod.split)
    have "rm_layout ?init = sample_layout" by (simp add: resource_map_new_def Let_def)
    with g have "rm_layout m1 = sample_layout" by (auto simp: same_gens_def)
    then have h: "history (rm_layout ?m') = 1" by (simp add: sample_layout_def)
    have sg: "slot_gen ?m' i = 1"
      using i by (simp add: slot_gen_def state_generation_live MAX_GENERATION_def word_le_nat_alt)
    show ?thesis
      by (rule that [OF r(1) _ sg r(2) h]) (use i in simp)
  qed
qed

theorem publish_spares_storage_in_use_witness:
  "\<exists>m m' j. ar_resources sample_published = Some m \<and> slot_gen m j = 1 \<and>
     ar_resources (snd (publish sample_env default_descriptor [3] sample_published)) = Some m' \<and>
     rm_descriptors m' ! j = rm_descriptors m ! j"
proof -
  obtain m j where s: "ar_resources sample_published = Some m" "j < length (rm_states m)" "slot_gen m j = 1"
    "ar_cursor sample_published = 1" "history (rm_layout m) = 1" by (rule sample_published_state)
  let ?e = sample_env and ?a = sample_published
  note pc = poll_cleanup_inv [OF sample_published_inv sample_no_panic]
  obtain k a1 where p: "poll_cleanup ?e ?a = (Ok k, a1)"
    using pc(1,4) by (cases "poll_cleanup ?e ?a"; cases "fst (poll_cleanup ?e ?a)") (auto simp: sample_env_def)
  have b: "blocked (oldest_retained (ar_cursor ?a) (history (rm_layout m))) (ar_claims a1) m j"
    by (simp add: blocked_def s oldest_retained_def saturating_sub_def)
  have "ar_resources a1 = Some m" using pc(3) p s(1) by (simp add: cleanup_frame_ok_def)
  then have "\<exists>m'. ar_resources (snd (publish ?e default_descriptor [3] ?a)) = Some m'"
    using s(1) p
    by (auto simp: publish_def publish_prepared_def arena_stop_def publish_slot_def Let_def
        split: prod.split outcome.split option.split)
  then obtain m' where m': "ar_resources (snd (publish ?e default_descriptor [3] ?a)) = Some m'" by blast
  show ?thesis
    using publish_spares_storage_in_use [OF sample_published_inv p s(1) sample_no_panic s(2) b m'] s(1,3) m' by blast
qed

end
