(* ===== verification/Arena_Consumer.thy ===== *)
theory Arena_Consumer
  imports Arena_Publish
begin

text \<open>
  The consumer's side of an arena: importing a grant (\<open>ConsumerGrant::from_parts\<close> and the header
  checks of the three mappings), acquisition in its three delivery orders, the release of a
  lease, waiting, and the installation of a replacement configuration
  (\<open>ArenaConsumer\<close> in \<open>arena.rs\<close>, \<open>arena/wait.rs\<close> and \<open>arena/reconfiguration.rs\<close>).  A consumer
  function reads the shared control page and resource map and writes its own claim page only.
\<close>

section \<open>Grants\<close>

definition VERSION :: u64 where "VERSION = 8"
definition CLAIM_MAGIC :: u64 where "CLAIM_MAGIC = 0x3130304D4C43534A"
definition RESOURCE_MAGIC :: u64 where "RESOURCE_MAGIC = 0x313030534552534A"
definition CONTROL_MAGIC :: u64 where "CONTROL_MAGIC = 0x3130304C5443534A"

record claim_header =
  ch_magic :: u64
  ch_version :: u64
  ch_incarnation :: u64
  ch_frames :: u64
  ch_map_len :: u64
  ch_scope :: bytes
  ch_recipient_pid :: u64

record resource_header =
  rh_magic :: u64
  rh_version :: u64
  rh_generation :: u64
  rh_resources :: u64
  rh_history :: u64
  rh_payload_capacity :: u64
  rh_map_len :: u64
  rh_records_offset :: u64
  rh_payload_offset :: u64
  rh_scope :: bytes

record control_header =
  kh_magic :: u64
  kh_version :: u64
  kh_history :: u64
  kh_map_len :: u64
  kh_scope :: bytes

definition claim_header_new :: "incarnation_id \<Rightarrow> u32 \<Rightarrow> usize \<Rightarrow> bytes \<Rightarrow> u32 \<Rightarrow> claim_header" where
  "claim_header_new inc holding len scope pid =
     \<lparr> ch_magic = CLAIM_MAGIC, ch_version = VERSION, ch_incarnation = incarnation_raw inc,
       ch_frames = ucast holding, ch_map_len = len, ch_scope = scope, ch_recipient_pid = ucast pid \<rparr>"

definition claim_header_check ::
    "claim_header \<Rightarrow> u64 \<Rightarrow> u32 \<Rightarrow> usize \<Rightarrow> u32 \<Rightarrow> (bytes, arena_error) outcome" where
  "claim_header_check h inc holding len pid =
     (if ch_magic h \<noteq> CLAIM_MAGIC \<or> ch_version h \<noteq> VERSION \<or> ch_incarnation h \<noteq> inc \<or>
         ch_frames h \<noteq> ucast holding \<or> ch_map_len h \<noteq> len \<or> ch_recipient_pid h \<noteq> ucast pid
      then Err (Mapping ''claim header disagrees with grant'') else Ok (ch_scope h))"

definition resource_header_new :: "resource_layout \<Rightarrow> bytes \<Rightarrow> u64 \<Rightarrow> resource_header" where
  "resource_header_new l scope generation =
     \<lparr> rh_magic = RESOURCE_MAGIC, rh_version = VERSION, rh_generation = generation,
       rh_resources = resources l, rh_history = history l, rh_payload_capacity = payload_capacity l,
       rh_map_len = map_len l, rh_records_offset = records_at l, rh_payload_offset = payload_at l,
       rh_scope = scope \<rparr>"

definition resource_header_check ::
    "resource_header \<Rightarrow> resource_layout \<Rightarrow> bytes \<Rightarrow> u64 \<Rightarrow> (unit, arena_error) outcome" where
  "resource_header_check h expected scope generation =
     (if rh_generation h \<noteq> generation \<or> generation = 0 \<or> rh_magic h \<noteq> RESOURCE_MAGIC \<or>
         rh_scope h \<noteq> scope \<or> rh_version h \<noteq> VERSION \<or> rh_map_len h \<noteq> map_len expected \<or>
         rh_resources h \<noteq> resources expected \<or> rh_history h \<noteq> history expected \<or>
         rh_payload_capacity h \<noteq> payload_capacity expected \<or>
         rh_records_offset h \<noteq> records_at expected \<or> rh_payload_offset h \<noteq> payload_at expected
      then Err (Mapping ''arena header disagrees with grant'') else Ok ())"

definition control_header_new :: "usize \<Rightarrow> usize \<Rightarrow> bytes \<Rightarrow> control_header" where
  "control_header_new n_history len scope =
     \<lparr> kh_magic = CONTROL_MAGIC, kh_version = VERSION, kh_history = n_history, kh_map_len = len,
       kh_scope = scope \<rparr>"

definition control_header_check ::
    "control_header \<Rightarrow> usize \<Rightarrow> usize \<Rightarrow> bytes \<Rightarrow> (unit, arena_error) outcome" where
  "control_header_check h n_history len scope =
     (if kh_magic h \<noteq> CONTROL_MAGIC \<or> kh_version h \<noteq> VERSION \<or> kh_scope h \<noteq> scope \<or>
         kh_history h \<noteq> n_history \<or> kh_map_len h \<noteq> len
      then Err (Mapping ''control header disagrees with grant'') else Ok ())"

record grant_descriptor =
  gd_version :: u64
  gd_generation :: u64
  gd_drain_timeout_ns :: u64
  gd_incarnation :: u64
  gd_payload_capacity :: u64
  gd_resource_map_len :: u64
  gd_control_map_len :: u64
  gd_claim_map_len :: u64
  gd_arena_scope :: bytes
  gd_claim_scope :: bytes
  gd_mapping_slot :: u32
  gd_resources :: u32
  gd_history :: u32
  gd_holding :: u32
  gd_recipient_pid :: u32

text \<open>\<open>into_parts\<close>: \<open>claim_len\<close> is the length of the claim mapping, which its creation computed.\<close>

definition into_parts :: "usize \<Rightarrow> usize \<Rightarrow> consumer_grant \<Rightarrow> claim_map \<Rightarrow> (grant_descriptor, arena_error) outcome" where
  "into_parts page claim_len g c =
     and_then (control_allocation_len page (history (gr_layout g))) (\<lambda>control_len.
     Ok \<lparr> gd_version = VERSION, gd_generation = gr_generation g,
          gd_drain_timeout_ns = (if gr_drain_timeout g < 2 ^ 64 then of_nat (gr_drain_timeout g) else - 1),
          gd_incarnation = incarnation_raw (cm_incarnation c),
          gd_payload_capacity = payload_capacity (gr_layout g),
          gd_resource_map_len = map_len (gr_layout g), gd_control_map_len = control_len,
          gd_claim_map_len = claim_len, gd_arena_scope = gr_arena_scope g, gd_claim_scope = cm_scope c,
          gd_mapping_slot = of_nat (gr_mapping_slot g), gd_resources = ucast (resources (gr_layout g)),
          gd_history = ucast (history (gr_layout g)), gd_holding = of_nat (cm_frames c),
          gd_recipient_pid = cm_recipient_pid c \<rparr>)"

text \<open>\<open>from_parts\<close> in the importing process: \<open>own_pid\<close> is its process id, \<open>h\<close> the header and \<open>c\<close> the
  words of the claim mapping it received.\<close>

definition from_parts ::
    "env \<Rightarrow> usize \<Rightarrow> u32 \<Rightarrow> grant_descriptor \<Rightarrow> claim_header \<Rightarrow> claim_map \<Rightarrow> (consumer_grant, arena_error) outcome" where
  "from_parts e page own_pid d h c =
     (if gd_drain_timeout_ns d = 0 \<or> instant_add e (unat (gd_drain_timeout_ns d)) = None
      then Err (Mapping ''invalid consumer drain interval'')
      else if gd_recipient_pid d \<noteq> own_pid
      then Err (Mapping ''grant belongs to a different recipient process'')
      else if gd_version d \<noteq> VERSION \<or> gd_generation d = 0 \<or> gd_incarnation d = 0 \<or> gd_holding d = 0
      then Err (Mapping ''invalid grant version or incarnation reservation'')
      else
        and_then (resource_layout_new page (ucast (gd_resources d)) (ucast (gd_history d)) (gd_payload_capacity d)) (\<lambda>l.
        and_then (claim_allocation_len page (gd_holding d)) (\<lambda>claim_len.
        and_then (control_allocation_len page (history l)) (\<lambda>control_len.
        if gd_resource_map_len d \<noteq> map_len l \<or> gd_claim_map_len d \<noteq> claim_len \<or> gd_control_map_len d \<noteq> control_len
        then Err (Mapping ''grant mapping sizes disagree with layout'')
        else
          and_then (claim_header_check h (gd_incarnation d) (gd_holding d) claim_len (gd_recipient_pid d)) (\<lambda>scope.
          if unat (gd_holding d) + 2 \<le> unat (gd_mapping_slot d) \<or>
             mapping_slots c ! unat (gd_mapping_slot d) \<noteq> gd_generation d \<or> w_offered c \<noteq> gd_generation d
          then Err (Mapping ''initial configuration offer disagrees with claim page'')
          else if scope \<noteq> gd_claim_scope d then Err (Mapping ''claim scope disagrees with grant'')
          else Ok \<lparr> gr_arena_scope = gd_arena_scope d, gr_layout = l, gr_generation = gd_generation d,
                    gr_drain_timeout = unat (gd_drain_timeout_ns d),
                    gr_mapping_slot = unat (gd_mapping_slot d),
                    gr_incarnation = IncarnationId (gd_incarnation d) \<rparr>)))))"

text \<open>Dropping a grant that no consumer was built from.\<close>

definition drop_grant :: "consumer_grant \<Rightarrow> claim_map \<Rightarrow> claim_map" where
  "drop_grant g c =
     acknowledge_quiescent (claim_close
       (c\<lparr> mapping_slots := (mapping_slots c)[gr_mapping_slot g := 0], w_offered := 0 \<rparr>))"

section \<open>Acquisition\<close>

record frame_lease =
  fl_descriptor :: frame_descriptor
  fl_slot :: nat
  fl_index :: nat

datatype acquire_outcome =
    Frame frame_lease
  | Empty
  | Miss u64
  | Gap u64 u64
  | HoldingLimit
  | Reconfiguration
  | ConsumerClosed

type_synonym acquire_result = "(acquire_outcome, arena_error) outcome \<times> claim_map"

definition is_configured :: "control_map \<Rightarrow> resource_map option \<Rightarrow> bool" where
  "is_configured ctl res =
     (case res of Some m \<Rightarrow> rm_generation m = w_configuration ctl | None \<Rightarrow> False)"

definition is_closed :: "control_map \<Rightarrow> claim_map \<Rightarrow> bool" where
  "is_closed ctl c \<longleftrightarrow> w_active c = 0 \<or> w_terminal ctl \<noteq> 0"

text \<open>\<open>validate\<close> is the attachment's check of a descriptor; a CPU consumer has none.  Every return
  without a frame drops the claim, which returns its credit.\<close>

definition acquire ::
    "(frame_descriptor \<Rightarrow> (unit, arena_error) outcome) \<Rightarrow> control_map \<Rightarrow> resource_map option \<Rightarrow> u64 \<Rightarrow>
     claim_map \<Rightarrow> acquire_result" where
  "acquire validate ctl res cur c =
     (case res of
        None \<Rightarrow> (Panic, c)
      | Some m \<Rightarrow>
        if cur = 0 then (Panic, c)
        else let advertised = ring_load ctl cur in
          if advertised = 0 \<or> resources (rm_layout m) < advertised
          then (Err (Mapping ''advertised resource index is invalid''), c)
          else let index = unat advertised - 1 in
            (case find (\<lambda>s. slot_words c ! s = 0) [0..<cm_frames c] of
               None \<Rightarrow> (Ok HoldingLimit, c)
             | Some s \<Rightarrow>
               let c1 = c\<lparr> slot_words := (slot_words c)[s := cur] \<rparr> in
               if rm_states m ! index \<noteq> state_live cur then (Ok (Miss cur), return_credit c1 s)
               else if is_closed ctl c1 then (Ok ConsumerClosed, return_credit c1 s)
               else if \<not> is_configured ctl res then (Ok Reconfiguration, return_credit c1 s)
               else let d = rm_descriptors m ! index in
                 if fd_cursor d \<noteq> cur \<or> fd_payload_offset d \<noteq> payload_at_slot (rm_layout m) index \<or>
                    payload_capacity (rm_layout m) < fd_payload_len d
                 then (Err (Mapping ''leased descriptor contradicts resource identity or bounds''), return_credit c1 s)
                 else (case validate d of
                         Err error \<Rightarrow> (Err error, return_credit c1 s)
                       | Panic \<Rightarrow> (Panic, return_credit c1 s)
                       | Ok _ \<Rightarrow> (Ok (Frame \<lparr> fl_descriptor = d, fl_slot = s, fl_index = index \<rparr>), c1))))"

definition oldest_advertised :: "control_map \<Rightarrow> u64 \<Rightarrow> u64" where
  "oldest_advertised ctl latest = max (saturating_sub latest (ctl_history ctl - 1)) (w_first_cursor ctl)"

definition acquire_latest ::
    "(frame_descriptor \<Rightarrow> (unit, arena_error) outcome) \<Rightarrow> control_map \<Rightarrow> resource_map option \<Rightarrow> u64 \<Rightarrow>
     claim_map \<Rightarrow> acquire_result" where
  "acquire_latest validate ctl res after c =
     (let cur = w_latest ctl in
      if is_closed ctl c then (Ok ConsumerClosed, c)
      else if \<not> is_configured ctl res then (Ok Reconfiguration, c)
      else if cur = 0 \<or> cur \<le> after \<or> cur < w_first_cursor ctl then (Ok Empty, c)
      else acquire validate ctl res cur c)"

definition acquire_next ::
    "(frame_descriptor \<Rightarrow> (unit, arena_error) outcome) \<Rightarrow> control_map \<Rightarrow> resource_map option \<Rightarrow> u64 \<Rightarrow>
     claim_map \<Rightarrow> acquire_result" where
  "acquire_next validate ctl res after c =
     (let latest = w_latest ctl in
      if is_closed ctl c then (Ok ConsumerClosed, c)
      else if \<not> is_configured ctl res then (Ok Reconfiguration, c)
      else if latest = 0 \<or> latest \<le> after then (Ok Empty, c)
      else let oldest = oldest_advertised ctl latest;
               cur = (if after = 0 then oldest else after + 1)
        in if cur < oldest then (Ok (Gap cur (oldest - 1)), c)
           else if latest < cur then (Ok Empty, c)
           else acquire validate ctl res cur c)"

definition acquire_exact ::
    "(frame_descriptor \<Rightarrow> (unit, arena_error) outcome) \<Rightarrow> control_map \<Rightarrow> resource_map option \<Rightarrow> u64 \<Rightarrow>
     claim_map \<Rightarrow> acquire_result" where
  "acquire_exact validate ctl res cur c =
     (if cur = 0 then (Err (Configuration ''frame cursors start at one''), c)
      else let latest = w_latest ctl in
        if is_closed ctl c then (Ok ConsumerClosed, c)
        else if \<not> is_configured ctl res then (Ok Reconfiguration, c)
        else if latest < cur then (Ok Empty, c)
        else if cur < oldest_advertised ctl latest then (Ok (Miss cur), c)
        else acquire validate ctl res cur c)"

text \<open>\<open>FrameLease::bytes\<close> and the drop of a lease's claim.\<close>

definition lease_bytes :: "resource_map \<Rightarrow> frame_lease \<Rightarrow> bytes" where
  "lease_bytes m l =
     read_at (unat (fd_payload_offset (fl_descriptor l))) (unat (fd_payload_len (fl_descriptor l))) (rm_payload m)"

definition drop_lease :: "frame_lease \<Rightarrow> claim_map \<Rightarrow> (unit, arena_error) outcome \<times> claim_map" where
  "drop_lease l c = (if fl_slot l < cm_frames c then (Ok (), return_credit c (fl_slot l)) else (Panic, c))"

section \<open>Replacement configurations\<close>

datatype configuration_install = Installed | Stale

record consumer_resources =
  cs_map :: resource_map
  cs_mapping_slot :: nat

text \<open>\<open>Drop for ConsumerResources\<close> and for an unconsumed \<open>ConfigurationGrant\<close>.\<close>

definition drop_resources :: "nat \<Rightarrow> claim_map \<Rightarrow> claim_map" where
  "drop_resources slot c = signal_release (c\<lparr> mapping_slots := (mapping_slots c)[slot := 0] \<rparr>)"

definition drop_configuration :: "configuration_grant \<Rightarrow> claim_map \<Rightarrow> claim_map" where
  "drop_configuration g c =
     signal_release (c\<lparr> mapping_slots := (mapping_slots c)[cg_mapping_slot g := 0], w_offered := 0 \<rparr>)"

text \<open>\<open>install_with_resources\<close>: \<open>m\<close> is the mapping behind the offer and \<open>h\<close> its header.  A failed or
  stale installation drops the grant; a successful one replaces the consumer's resources, and
  dropping the old ones is the caller's \<open>drop_resources\<close> when no lease keeps them.\<close>

definition install_with_resources ::
    "control_map \<Rightarrow> configuration_grant \<Rightarrow> resource_header \<Rightarrow> resource_map \<Rightarrow>
     claim_map \<Rightarrow> (configuration_install \<times> consumer_resources option, arena_error) outcome \<times> claim_map" where
  "install_with_resources ctl g h m c =
     (if cg_arena_scope g \<noteq> ctl_scope ctl \<or> cg_claim_scope g \<noteq> cm_scope c
      then (Err (Mapping ''configuration grant belongs to another arena or incarnation''), drop_configuration g c)
      else if is_closed ctl c then (Err ArenaClosed, drop_configuration g c)
      else case resource_header_check h (cg_layout g) (cg_arena_scope g) (cg_generation g) of
        Err error \<Rightarrow> (Err error, drop_configuration g c)
      | Panic \<Rightarrow> (Panic, drop_configuration g c)
      | Ok _ \<Rightarrow>
        if cg_generation g \<noteq> w_configuration ctl then (Ok (Stale, None), drop_configuration g c)
        else (Ok (Installed, Some \<lparr> cs_map = m, cs_mapping_slot = cg_mapping_slot g \<rparr>), c\<lparr> w_offered := 0 \<rparr>))"


section \<open>Publishing and then acquiring\<close>

lemma ring_load_store:
  assumes "length (ring_words ctl) = unat (ctl_history ctl)" "ctl_history ctl \<noteq> 0"
  shows "ring_load (ring_store ctl cur v) cur = v"
proof -
  have "ring_index ctl cur < length (ring_words ctl)"
    using assms by (simp add: ring_index_def unat_mod unat_gt_0)
  then show ?thesis by (simp add: ring_load_def ring_store_def ring_index_def)
qed

lemma ring_load_latest [simp]: "ring_load (ctl\<lparr> w_latest := v \<rparr>) cur = ring_load ctl cur"
  by (simp add: ring_load_def ring_index_def)

lemma find_free_claim_slot:
  assumes "claim_wf c" "0 \<in> set (slot_words c)"
  obtains s where "find (\<lambda>s. slot_words c ! s = 0) [0..<cm_frames c] = Some s" "s < cm_frames c" "slot_words c ! s = 0"
proof -
  obtain k where "k < cm_frames c" "slot_words c ! k = 0"
    using assms by (auto simp: in_set_conv_nth claim_wf_def)
  then have "find (\<lambda>s. slot_words c ! s = 0) [0..<cm_frames c] \<noteq> None"
    by (auto simp: find_None_iff)
  then obtain s where s: "find (\<lambda>s. slot_words c ! s = 0) [0..<cm_frames c] = Some s" by blast
  then have "s < cm_frames c" "slot_words c ! s = 0"
    by (auto simp: find_Some_iff)
  then show ?thesis using that s by blast
qed

text \<open>The resource index that a ring word advertises.\<close>

lemma advertised_index:
  assumes "map_wf m" "i < length (rm_states m)"
  shows "(of_nat i + 1 :: u64) \<noteq> 0" "\<not> resources (rm_layout m) < of_nat i + 1" "unat (of_nat i + 1 :: u64) - 1 = i"
proof -
  have n: "i < unat (resources (rm_layout m))" using assms by (simp add: map_wf_def)
  then have i: "unat (of_nat i :: u64) = i" using u64_bound [of "resources (rm_layout m)"] by (simp add: unat_of_nat)
  then have "unat (of_nat i + 1 :: u64) = i + 1"
    using n u64_bound [of "resources (rm_layout m)"] by (subst unat_Suc_word) simp_all
  then show "(of_nat i + 1 :: u64) \<noteq> 0" "\<not> resources (rm_layout m) < of_nat i + 1" "unat (of_nat i + 1 :: u64) - 1 = i"
    using n by (auto simp: word_less_nat_alt unat_eq_zero [symmetric])
qed

text \<open>A slot that shows a publication can be acquired by a consumer with a free holding slot.\<close>

lemma acquire_published:
  assumes "map_wf m" "i < length (rm_states m)" "cur \<noteq> 0" "ring_load ctl cur = of_nat i + 1"
    "rm_states m ! i = state_live cur" "fd_cursor (rm_descriptors m ! i) = cur"
    "fd_payload_offset (rm_descriptors m ! i) = payload_at_slot (rm_layout m) i"
    "fd_payload_len (rm_descriptors m ! i) \<le> payload_capacity (rm_layout m)"
    "validate (rm_descriptors m ! i) = Ok ()" "rm_generation m = w_configuration ctl" "w_terminal ctl = 0"
    "claim_wf c" "w_active c \<noteq> 0" "0 \<in> set (slot_words c)"
  obtains s where "acquire validate ctl (Some m) cur c =
      (Ok (Frame \<lparr> fl_descriptor = rm_descriptors m ! i, fl_slot = s, fl_index = i \<rparr>),
       c\<lparr> slot_words := (slot_words c)[s := cur] \<rparr>)" "s < cm_frames c" "slot_words c ! s = 0"
proof -
  obtain s where s: "find (\<lambda>s. slot_words c ! s = 0) [0..<cm_frames c] = Some s" "s < cm_frames c" "slot_words c ! s = 0"
    by (rule find_free_claim_slot [OF assms(12,14)])
  note ix = advertised_index [OF assms(1,2)]
  have "acquire validate ctl (Some m) cur c =
      (Ok (Frame \<lparr> fl_descriptor = rm_descriptors m ! i, fl_slot = s, fl_index = i \<rparr>),
       c\<lparr> slot_words := (slot_words c)[s := cur] \<rparr>)"
    using assms ix s by (simp add: acquire_def Let_def is_closed_def is_configured_def not_less [symmetric])
  then show ?thesis using that s by blast
qed

lemma cursor_advances:
  fixes cur :: u64
  assumes "cur < MAX_GENERATION"
  shows "cur + 1 \<noteq> 0" "cur < cur + 1"
proof -
  from assms have "unat cur + 1 < 2 ^ LENGTH(64)" by (simp add: MAX_GENERATION_def word_less_nat_alt)
  then have u: "unat (cur + 1) = unat cur + 1" by (rule unat_Suc_word)
  show "cur + 1 \<noteq> 0" "cur < cur + 1" using u by (auto simp: word_less_nat_alt unat_eq_zero)
qed

lemma layout_history_pos: "layout_ok l \<Longrightarrow> history l \<noteq> 0"
  by (auto simp: layout_ok_def dest: layout_new_Ok(6))

text \<open>C15. Publishing and then acquiring is a round trip.  When a producer with a free working
  reserve publishes a payload, a consumer that has installed the current configuration, has a
  free holding slot and has not seen the new cursor gets, with \<open>acquire_latest\<close>, a lease of exactly
  that frame: the descriptor names the new cursor and the bytes read through the lease are the
  bytes published.  The lease is recorded in the consumer's own claim page and nowhere else.\<close>

theorem publish_then_acquire_latest:
  assumes "arena_inv a" and "\<forall>h. \<exists>b. retired_ready e h = Ok b" and "w_terminal (ar_control a) = 0"
    and "ar_resources a = Some m" and "length bytes \<le> unat (payload_capacity (rm_layout m))"
    and "ar_cursor a \<noteq> MAX_GENERATION"
    and "card {i. i < length (rm_states m) \<and> rm_reserved m ! i} < unat (producer_reserve (limits (ar_admission a)))"
    and "rm_generation m = w_configuration (ar_control a)" and "w_first_cursor (ar_control a) \<le> ar_cursor a + 1"
    and "claim_wf c" and "w_active c \<noteq> 0" and "0 \<in> set (slot_words c)" and "after \<le> ar_cursor a"
  shows "\<exists>m' l. ar_resources (snd (publish e d bytes a)) = Some m' \<and>
     acquire_latest (\<lambda>_. Ok ()) (ar_control (snd (publish e d bytes a))) (Some m') after c =
       (Ok (Frame l), c\<lparr> slot_words := (slot_words c)[fl_slot l := ar_cursor a + 1] \<rparr>) \<and>
     slot_words c ! fl_slot l = 0 \<and> fd_cursor (fl_descriptor l) = ar_cursor a + 1 \<and>
     lease_bytes m' l = bytes"
proof (rule publish_success [OF assms(1-7), where d = d])
  fix k a1 i and m1 :: resource_map
  let ?off = "unat (payload_at_slot (rm_layout m1) i)"
  let ?m = "m1\<lparr> rm_payload := write_at ?off bytes (rm_payload m1) \<rparr>"
  let ?d = "final_descriptor e m1 i (ar_cursor a + 1) (d\<lparr> fd_payload_len := of_nat (length bytes) \<rparr>)"
  let ?p = "?m\<lparr> rm_descriptors := (rm_descriptors m1)[i := ?d], rm_states := (rm_states m1)[i := state_live (ar_cursor a + 1)] \<rparr>"
  let ?ctl = "(ring_store (ar_control a) (ar_cursor a + 1) (of_nat i + 1))\<lparr> w_latest := ar_cursor a + 1 \<rparr>"
  assume fr: "cleanup_frame_ok a a1" and g: "same_gens m m1" and wf: "map_wf m1" and i: "i < length (rm_states m1)"
    and p: "publish e d bytes a = publish_slot ?m i ?d a1"
  have same: "ar_cursor a1 = ar_cursor a" "ar_control a1 = ar_control a" using fr by (simp_all add: cleanup_frame_ok_def)
  have lay: "rm_layout m1 = rm_layout m" "rm_generation m1 = rm_generation m"
    using g by (auto simp: same_gens_def)
  have a': "ar_resources (snd (publish e d bytes a)) = Some ?p" "ar_control (snd (publish e d bytes a)) = ?ctl"
    unfolding p by (simp_all add: publish_slot_def Let_def same split: prod.split)
  have cur: "ar_cursor a < MAX_GENERATION"
    using assms(1,6) by (simp add: arena_inv_def control_ok_def order_less_le)
  note fresh = cursor_advances [OF cur]
  have len: "unat (of_nat (length bytes) :: u64) = length bytes"
    using assms(5) u64_bound [of "payload_capacity (rm_layout m)"] by (simp add: unat_of_nat)
  have fits: "length bytes \<le> unat (payload_capacity (rm_layout m1))" using assms(5) lay by simp
  have wfp: "map_wf ?p" using write_at_wf [OF wf i fits] by (simp add: map_wf_def)
  have dl: "length (rm_descriptors m1) = length (rm_states m1)" using wf by (simp add: map_wf_def)
  have ring: "length (ring_words (ar_control a)) = unat (ctl_history (ar_control a))" "ctl_history (ar_control a) \<noteq> 0"
    using assms(1,4) wf lay(1) layout_history_pos
    by (auto simp: arena_inv_def control_ok_def resources_ok_def layout_matches_def)
  have sts: "rm_states ?p ! i = state_live (ar_cursor a + 1)" "rm_descriptors ?p ! i = ?d" "i < length (rm_states ?p)"
    using i dl by simp_all
  have off: "fd_payload_offset ?d = payload_at_slot (rm_layout ?p) i" "fd_cursor ?d = ar_cursor a + 1"
    "fd_payload_len ?d \<le> payload_capacity (rm_layout ?p)"
    using fits len by (simp_all add: word_le_nat_alt)
  have rd: "ring_load ?ctl (ar_cursor a + 1) = of_nat i + 1" using ring_load_store [OF ring] by simp
  have ctl: "rm_generation ?p = w_configuration ?ctl" "w_terminal ?ctl = 0"
    using assms(3,8) lay by (simp_all add: ring_store_def)
  show ?thesis
  proof (rule acquire_published [OF wfp sts(3) fresh(1) rd sts(1) _ _ _ _ ctl assms(10,11,12), where validate = "\<lambda>_. Ok ()"])
    show "fd_cursor (rm_descriptors ?p ! i) = ar_cursor a + 1"
      "fd_payload_offset (rm_descriptors ?p ! i) = payload_at_slot (rm_layout ?p) i"
      "fd_payload_len (rm_descriptors ?p ! i) \<le> payload_capacity (rm_layout ?p)" "Ok () = Ok ()"
      using off sts by simp_all
    fix s
    let ?l = "\<lparr> fl_descriptor = rm_descriptors ?p ! i, fl_slot = s, fl_index = i \<rparr>"
    assume s: "slot_words c ! s = 0" and acq: "acquire (\<lambda>_. Ok ()) ?ctl (Some ?p) (ar_cursor a + 1) c =
        (Ok (Frame ?l), c\<lparr> slot_words := (slot_words c)[s := ar_cursor a + 1] \<rparr>)"
    have "acquire_latest (\<lambda>_. Ok ()) ?ctl (Some ?p) after c = acquire (\<lambda>_. Ok ()) ?ctl (Some ?p) (ar_cursor a + 1) c"
      using assms(3,8,9,11,13) lay fresh
      by (auto simp: acquire_latest_def Let_def is_closed_def is_configured_def ring_store_def)
    moreover have "lease_bytes ?p ?l = bytes"
      using read_write_same [of ?off bytes "rm_payload m1"] payload_region(2) [OF wf i i] fits off len sts
      by (simp add: lease_bytes_def)
    ultimately show ?thesis using a' acq s off sts by (intro exI [of _ ?p] exI [of _ ?l]) simp
  qed
qed

definition sample_page :: claim_map where
  "sample_page = claim_map_new (IncarnationId 1) 1 [] 0 sample_wake sample_wake"

theorem publish_then_acquire_latest_witness:
  "\<exists>m' l. ar_resources (snd (publish sample_env default_descriptor [7, 9] sample_arena)) = Some m' \<and>
     fst (acquire_latest (\<lambda>_. Ok ()) (ar_control (snd (publish sample_env default_descriptor [7, 9] sample_arena)))
       (Some m') 0 sample_page) = Ok (Frame l) \<and> lease_bytes m' l = [7, 9]"
proof -
  let ?m = "resource_map_new sample_layout 1"
  have "length [7, 9 :: u8] \<le> unat (payload_capacity (rm_layout ?m))"
    by (simp add: resource_map_new_def sample_layout_def Let_def)
  moreover have "ar_cursor sample_arena \<noteq> MAX_GENERATION" by (simp add: sample_arena_fields MAX_GENERATION_def)
  moreover have "card {i. i < length (rm_states ?m) \<and> rm_reserved ?m ! i}
      < unat (producer_reserve (limits (ar_admission sample_arena)))"
    by (simp add: sample_arena_fields sample_arena_limits_def)
  moreover have "rm_generation ?m = w_configuration (ar_control sample_arena)"
    "w_first_cursor (ar_control sample_arena) \<le> ar_cursor sample_arena + 1"
    by (simp_all add: sample_arena_def fill_new_arena_def control_map_new_def resource_map_new_def Let_def)
  moreover have "claim_wf sample_page" "w_active sample_page \<noteq> 0" "0 \<in> set (slot_words sample_page)"
    by (simp_all add: sample_page_def claim_wf_new) (simp_all add: claim_map_new_def Let_def)
  ultimately show ?thesis
    using publish_then_acquire_latest [OF sample_arena_inv sample_arena_fields(5,3,1), of "[7, 9]" sample_page 0]
    by fastforce
qed

section \<open>Sequential delivery\<close>

text \<open>What an acquisition of a given cursor can answer.\<close>

lemma acquire_cursor:
  assumes "acquire validate ctl res cur c = (r, c')"
  shows "\<And>l. r = Ok (Frame l) \<Longrightarrow> fd_cursor (fl_descriptor l) = cur" "r \<noteq> Ok Empty" "r \<noteq> Ok (Gap f t)"
    "\<And>k. r = Ok (Miss k) \<Longrightarrow> k = cur" "\<And>x. r = Ok x \<Longrightarrow> cur \<noteq> 0"
  using assms by (auto simp: acquire_def Let_def split: option.splits if_splits outcome.splits)

lemma succ_le_of_less:
  fixes x y :: u64
  assumes "x < y"
  shows "x + 1 \<le> y" "x + 1 \<noteq> 0" "unat (x + 1) = unat x + 1"
proof -
  have "unat x + 1 < 2 ^ LENGTH(64)"
    using assms u64_bound [of y] by (simp add: word_less_nat_alt)
  then show u: "unat (x + 1) = unat x + 1" by (rule unat_Suc_word)
  then show "x + 1 \<le> y" "x + 1 \<noteq> 0" using assms by (auto simp: word_less_nat_alt word_le_nat_alt unat_eq_zero)
qed

lemma saturating_sub_le: "saturating_sub a b \<le> (a :: u64)"
  by (simp add: saturating_sub_def word_le_nat_alt unat_sub)

text \<open>C16. Sequential delivery loses nothing silently.  \<open>acquire_next\<close> answers with the successor of
  the last cursor seen (the oldest advertised one on the first call), or with a miss of that very
  cursor, or with the exact interval of cursors that fell out of the history; after such a gap
  the next call resumes at the oldest advertised cursor with no further gap.  It reports that
  there is nothing only when nothing newer has been published in this configuration.\<close>

theorem acquire_next_in_order:
  assumes "acquire_next validate ctl res after c = (Ok out, c')"
  shows "case out of
     Frame l \<Rightarrow> after < fd_cursor (fl_descriptor l) \<and> fd_cursor (fl_descriptor l) \<le> w_latest ctl \<and>
       fd_cursor (fl_descriptor l) = (if after = 0 then oldest_advertised ctl (w_latest ctl) else after + 1)
   | Miss k \<Rightarrow> k = (if after = 0 then oldest_advertised ctl (w_latest ctl) else after + 1) \<and> k \<le> w_latest ctl
   | Gap f t \<Rightarrow> after \<noteq> 0 \<and> f = after + 1 \<and> f \<le> t \<and> t + 1 = oldest_advertised ctl (w_latest ctl) \<and> c' = c \<and>
       (t < w_latest ctl \<longrightarrow>
          acquire_next validate ctl res t c = acquire validate ctl res (oldest_advertised ctl (w_latest ctl)) c)
   | Empty \<Rightarrow> w_latest ctl \<le> after \<or> w_latest ctl < w_first_cursor ctl
   | _ \<Rightarrow> True"
proof -
  let ?old = "oldest_advertised ctl (w_latest ctl)"
  let ?cur = "if after = 0 then ?old else after + 1"
  consider (early) "is_closed ctl c \<or> \<not> is_configured ctl res \<or> w_latest ctl = 0 \<or> w_latest ctl \<le> after"
    | (live) "\<not> is_closed ctl c" "is_configured ctl res" "w_latest ctl \<noteq> 0" "after < w_latest ctl"
    by (metis not_le)
  then show ?thesis
  proof cases
    case early
    then show ?thesis using assms by (auto simp: acquire_next_def Let_def split: if_splits)
  next
    case live
    note suc = succ_le_of_less [OF live(4)]
    have step: "acquire_next validate ctl res after c =
        (if ?cur < ?old then (Ok (Gap ?cur (?old - 1)), c) else if w_latest ctl < ?cur then (Ok Empty, c)
         else acquire validate ctl res ?cur c)"
      using live by (auto simp: acquire_next_def Let_def dest: leD)
    consider (gap) "?cur < ?old" | (none) "?old \<le> ?cur" "w_latest ctl < ?cur" | (get) "?old \<le> ?cur" "?cur \<le> w_latest ctl"
      by (meson not_le)
    then show ?thesis
    proof cases
      case gap
      then have a0: "after \<noteq> 0" "after + 1 < ?old" by (auto split: if_splits)
      have "?old \<noteq> 0" using a0(2) by (metis word_not_simps(1))
      then have "unat (?old - 1) = unat ?old - 1" by (rule unat_minus_one)
      then have t: "after + 1 \<le> ?old - 1" "?old - 1 < ?old" "?old - 1 \<noteq> 0"
        using a0(2) suc(3) by (auto simp: word_less_nat_alt word_le_nat_alt unat_eq_zero [symmetric])
      have "acquire_next validate ctl res (?old - 1) c = acquire validate ctl res ?old c"
        if "?old - 1 < w_latest ctl"
        using that live t succ_le_of_less(1) [OF that] by (auto simp: acquire_next_def Let_def)
      then show ?thesis using assms step gap a0 t by auto
    next
      case none
      then have "after = 0" "w_latest ctl < ?old" using suc(1) by (auto split: if_splits)
      then have "w_latest ctl < w_first_cursor ctl"
        using saturating_sub_le [of "w_latest ctl" "ctl_history ctl - 1"]
        by (auto simp: oldest_advertised_def max_def split: if_splits)
      moreover have "out = Empty" using assms step none leD [OF none(1)] by simp
      ultimately show ?thesis by simp
    next
      case get
      then have "acquire_next validate ctl res after c = acquire validate ctl res ?cur c"
        unfolding step using leD [OF get(1)] leD [OF get(2)] by (simp only: if_False)
      then have q: "acquire validate ctl res ?cur c = (Ok out, c')" using assms by simp
      have "after < ?cur" using acquire_cursor(5) [OF q] suc(2,3) by (auto simp: word_less_nat_alt unat_eq_zero unat_gt_0)
      then show ?thesis using acquire_cursor [OF q] get by (auto split: acquire_outcome.split)
    qed
  qed
qed

definition sample_history :: control_map where
  "sample_history = (control_map_new 2 [])\<lparr> w_latest := 5, ring_words := [1, 2] \<rparr>"

theorem acquire_next_in_order_witness:
  "acquire_next (\<lambda>_. Ok ()) sample_history (Some (resource_map_new sample_layout 1)) 1 sample_page =
     (Ok (Gap 2 3), sample_page) \<and> 3 + 1 = oldest_advertised sample_history 5"
proof -
  have "acquire_next (\<lambda>_. Ok ()) sample_history (Some (resource_map_new sample_layout 1)) 1 sample_page =
     (Ok (Gap 2 3), sample_page)"
    by (simp add: acquire_next_def sample_history_def control_map_new_def sample_page_def claim_map_new_def
        is_closed_def is_configured_def resource_map_new_def oldest_advertised_def saturating_sub_def word_le_nat_alt word_less_nat_alt Let_def)
  then show ?thesis
    using acquire_next_in_order [of "\<lambda>_. Ok ()" sample_history "Some (resource_map_new sample_layout 1)" 1
        sample_page "Gap 2 3" sample_page]
    by (simp add: sample_history_def)
qed

section \<open>Granting and importing\<close>

lemma attach_Ok:
  assumes inv: "arena_inv a" and np: "\<forall>h. retired_ready e h \<noteq> Panic"
    and ok: "attach_with_recipient e page holding pid process (Ok su) a = (Ok g, a')"
  obtains m len where "ar_resources a = Some m" "claim_allocation_len page holding = Ok len" "holding \<noteq> 0" "len \<noteq> 0"
    "gr_layout g = rm_layout m" "gr_generation g = rm_generation m"
    "gr_mapping_slot g = 0" "gr_arena_scope g = ctl_scope (ar_control a)"
    "map_of (ar_claims a') (gr_incarnation g) = Some
       (let c = claim_map_new (gr_incarnation g) holding (su_scope su) pid (su_wake su) (su_release_wake su)
        in c\<lparr> mapping_slots := (mapping_slots c)[0 := rm_generation m], w_offered := rm_generation m \<rparr>)"
proof -
  obtain k a1 where p: "poll_cleanup e a = (Ok k, a1)" and o: "w_terminal (ar_control a) = 0"
    using ok by (auto simp: attach_with_recipient_def split: if_splits prod.splits outcome.splits)
  note pc = poll_cleanup_inv [OF inv np]
  have fr: "cleanup_frame_ok a a1" and i1: "arena_inv a1" using pc(2,3) p by simp_all
  obtain len r b m where len: "claim_allocation_len page holding = Ok len"
    and ad: "admit (ar_admission a1) \<lparr> request_frames = holding, request_claim_bytes = len \<rparr> = (Ok r, b)"
    and m: "ar_resources a1 = Some m"
    and res: "(Ok g, a') = (let c = claim_map_new (incarnation r) holding (su_scope su) pid (su_wake su) (su_release_wake su);
                        c1 = c\<lparr> mapping_slots := (mapping_slots c)[0 := rm_generation m], w_offered := rm_generation m \<rparr>;
                        st = observation_new (ar_native a1) process (ar_drain_timeout a1) (unat holding)
                    in (Ok \<lparr> gr_arena_scope = ctl_scope (ar_control a1), gr_layout = rm_layout m,
                             gr_generation = rm_generation m, gr_drain_timeout = ar_drain_timeout a1,
                             gr_mapping_slot = 0, gr_incarnation = incarnation r \<rparr>,
                        a1\<lparr> ar_admission := b, ar_observers := bt_insert (incarnation r) st (ar_observers a1),
                            ar_claims := bt_insert (incarnation r) c1 (ar_claims a1) \<rparr>))"
    using ok p o by (auto simp: attach_with_recipient_def Let_def split: prod.splits outcome.splits option.splits)
  have wf: "bt_wf (ar_claims a1)" using i1 by (auto simp: arena_inv_def book_inv_def intro: pages_bt_wf)
  have same: "ar_resources a = Some m" "ar_control a1 = ar_control a"
    using fr m by (simp_all add: cleanup_frame_ok_def)
  show ?thesis
    by (rule that [OF same(1) len]) (use res admit_Ok(2,3) [OF ad] wf same in
        \<open>simp_all add: Let_def map_of_bt_insert incarnation_raw_def\<close>)
qed

lemma ucast_u32_back:
  fixes x :: u64
  assumes "unat x < 2 ^ 32"
  shows "ucast (ucast x :: u32) = x"
  using assms by (simp add: word_unat_eq_iff unsigned_ucast_eq unsigned_take_bit_eq take_bit_nat_eq_self)

text \<open>A grant survives its transfer.  When the producer attaches a recipient and the grant is
  taken apart for transfer, the recipient process that maps the pages with the same page size
  rebuilds exactly the same grant from the parts: every size and identity check of \<open>from_parts\<close>
  passes.  No other process can: with a different process id the import is refused.\<close>

theorem grant_transfer_round_trip:
  assumes "arena_inv a" and "\<forall>h. retired_ready e h \<noteq> Panic"
    and "attach_with_recipient e page holding pid process (Ok su) a = (Ok g, a')"
    and "resource_layout_new page (resources (gr_layout g)) (history (gr_layout g)) (payload_capacity (gr_layout g))
           = Ok (gr_layout g)"
    and "control_allocation_len page (history (gr_layout g)) = Ok control_len"
    and "gr_generation g \<noteq> 0" and "incarnation_raw (gr_incarnation g) \<noteq> 0"
    and "0 < gr_drain_timeout g" and "gr_drain_timeout g < 2 ^ 64" and "instant_add e' (gr_drain_timeout g) \<noteq> None"
  shows "\<exists>c len d. map_of (ar_claims a') (gr_incarnation g) = Some c \<and>
     claim_allocation_len page holding = Ok len \<and> into_parts page len g c = Ok d \<and>
     (\<forall>own. from_parts e' page own d (claim_header_new (gr_incarnation g) holding len (cm_scope c) pid) c =
        (if own = pid then Ok g else Err (Mapping ''grant belongs to a different recipient process'')))"
proof (rule attach_Ok [OF assms(1-3)])
  fix m :: resource_map and len
  let ?page = "claim_map_new (gr_incarnation g) holding (su_scope su) pid (su_wake su) (su_release_wake su)"
  let ?c = "?page\<lparr> mapping_slots := (mapping_slots ?page)[0 := rm_generation m], w_offered := rm_generation m \<rparr>"
  assume m: "ar_resources a = Some m" and len: "claim_allocation_len page holding = Ok len" "holding \<noteq> 0" "len \<noteq> 0"
    and g: "gr_layout g = rm_layout m" "gr_generation g = rm_generation m" "gr_mapping_slot g = 0"
    and c: "map_of (ar_claims a') (gr_incarnation g) = Some
       (let c = ?page in c\<lparr> mapping_slots := (mapping_slots c)[0 := rm_generation m], w_offered := rm_generation m \<rparr>)"
  let ?d = "\<lparr> gd_version = VERSION, gd_generation = gr_generation g,
          gd_drain_timeout_ns = of_nat (gr_drain_timeout g), gd_incarnation = incarnation_raw (gr_incarnation g),
          gd_payload_capacity = payload_capacity (gr_layout g),
          gd_resource_map_len = map_len (gr_layout g), gd_control_map_len = control_len,
          gd_claim_map_len = len, gd_arena_scope = gr_arena_scope g, gd_claim_scope = su_scope su,
          gd_mapping_slot = 0, gd_resources = ucast (resources (gr_layout g)),
          gd_history = ucast (history (gr_layout g)), gd_holding = holding, gd_recipient_pid = pid \<rparr>"
  have parts: "into_parts page len g ?c = Ok ?d"
    using assms(5,9) g(3) by (simp add: into_parts_def claim_map_new_def Let_def)
  have fr: "layout_matches a (rm_layout m)" using assms(1) m by (auto simp: arena_inv_def resources_ok_def)
  have u: "ucast (ucast (resources (gr_layout g)) :: u32) = resources (gr_layout g)"
    "ucast (ucast (history (gr_layout g)) :: u32) = history (gr_layout g)"
    using fr u32_bound [of "resource_capacity (limits (ar_admission a))"] layout_new_Ok(7) [OF assms(4)] g(1)
    by (auto intro!: ucast_u32_back simp: layout_matches_def)
  have t: "unat (of_nat (gr_drain_timeout g) :: u64) = gr_drain_timeout g" "(of_nat (gr_drain_timeout g) :: u64) \<noteq> 0"
    using assms(8,9) by (simp_all add: unat_of_nat unat_eq_zero [symmetric])
  have "from_parts e' page own ?d (claim_header_new (gr_incarnation g) holding len (cm_scope ?c) pid) ?c =
      (if own = pid then Ok g else Err (Mapping ''grant belongs to a different recipient process''))" for own
    using assms len g u t
    by (simp add: from_parts_def claim_header_check_def claim_header_new_def claim_map_new_def Let_def)
  then show ?thesis using c len parts by (intro exI [of _ ?c] exI [of _ len] exI [of _ ?d]) (simp add: Let_def)
qed

definition sample_setup :: claim_setup where
  "sample_setup = \<lparr> su_wake = sample_wake, su_release_wake = sample_wake, su_scope = [4] \<rparr>"

definition sample_grant :: consumer_grant where
  "sample_grant = \<lparr> gr_arena_scope = [1], gr_layout = sample_layout, gr_generation = 1, gr_drain_timeout = 5,
     gr_mapping_slot = 0, gr_incarnation = IncarnationId 1 \<rparr>"

lemmas sample_arena_defs = sample_arena_def fill_new_arena_def sample_arena_book_def sample_arena_limits_def
  sample_config_def sample_layout_def sample_env_def

lemma sample_poll: "poll_cleanup sample_env sample_arena = (Ok 0, sample_arena)"
  by (simp add: poll_cleanup_def sample_arena_defs collect_retired_allocations.simps)

lemma sample_admit:
  "\<exists>b. admit (ar_admission sample_arena) \<lparr> request_frames = 1, request_claim_bytes = 4096 \<rparr> =
     (Ok \<lparr> incarnation = IncarnationId 1, frames = 1, claim_bytes = 4096 \<rparr>, b)"
  by (simp add: sample_arena_defs admit_def Let_def available_frames_def checked_add_def word_le_nat_alt word_less_nat_alt)

lemma sample_claim_len: "claim_allocation_len 4096 1 = Ok 4096"
  by (simp add: claim_allocation_len_def size_mul_def size_add_def checked_mul_def checked_add_def page_rounded_def
      rounded_def layout_consts word_le_nat_alt)

lemma sample_attach:
  "\<exists>a'. attach_with_recipient sample_env 4096 1 9 None (Ok sample_setup) sample_arena = (Ok sample_grant, a')"
  using sample_admit
  by (auto simp: attach_with_recipient_def sample_poll sample_claim_len sample_arena_fields Let_def sample_grant_def)
    (simp_all add: sample_arena_defs resource_map_new_def control_map_new_def Let_def)

theorem grant_transfer_round_trip_witness:
  "\<exists>a' c d. attach_with_recipient sample_env 4096 1 9 None (Ok sample_setup) sample_arena = (Ok sample_grant, a') \<and>
     into_parts 4096 4096 sample_grant c = Ok d \<and>
     from_parts sample_env 4096 9 d (claim_header_new (IncarnationId 1) 1 4096 (cm_scope c) 9) c = Ok sample_grant \<and>
     (\<exists>error. from_parts sample_env 4096 8 d (claim_header_new (IncarnationId 1) 1 4096 (cm_scope c) 9) c = Err error)"
proof -
  obtain a' where at: "attach_with_recipient sample_env 4096 1 9 None (Ok sample_setup) sample_arena = (Ok sample_grant, a')"
    using sample_attach by blast
  have g: "gr_layout sample_grant = sample_layout" "gr_generation sample_grant = 1" "gr_drain_timeout sample_grant = 5"
    "gr_incarnation sample_grant = IncarnationId 1"
    by (simp_all add: sample_grant_def)
  have "resource_layout_new 4096 (resources sample_layout) (history sample_layout) (payload_capacity sample_layout)
      = Ok sample_layout" "control_allocation_len 4096 (history sample_layout) = Ok 4096"
    by (simp_all add: sample_layout_def resource_layout_new_def control_allocation_len_def size_mul_def size_add_def
        checked_mul_def checked_add_def page_rounded_def rounded_def layout_consts word_le_nat_alt)
  moreover have "instant_add sample_env 5 \<noteq> None" by (simp add: instant_add_def sample_env_def)
  ultimately show ?thesis
    using grant_transfer_round_trip [OF sample_arena_inv sample_no_panic at, of 4096 sample_env] at g sample_claim_len
    by fastforce
qed

end
