(* ===== verification/Arena_Steps.thy ===== *)
theory Arena_Steps
  imports Arena_Consumer
begin

text \<open>
  The arena as a state machine: every producer operation, and any change that a consumer makes to
  its own claim page, as one step on the arena together with the CPU reservations that are still
  outstanding.  Every operation keeps the invariant and none of them panics, so both hold in
  every reachable state.
\<close>

section \<open>What every operation keeps\<close>

definition config_ok :: "arena \<Rightarrow> bool" where
  "config_ok a \<longleftrightarrow> unat (w_first_cursor (ar_control a)) \<le> unat (ar_cursor a) + 1 \<and>
     pred_option (\<lambda>m. rm_generation m = w_configuration (ar_control a)) (ar_resources a)"

definition arena_ok :: "arena \<Rightarrow> bool" where
  "arena_ok a \<longleftrightarrow> arena_inv a \<and> config_ok a"

definition step_ok :: "arena \<Rightarrow> 'a arena_result \<Rightarrow> bool" where
  "step_ok a x \<longleftrightarrow> fst x \<noteq> Panic \<and> arena_ok (snd x) \<and> limits (ar_admission (snd x)) = limits (ar_admission a)"

lemma step_okI:
  "r \<noteq> Panic \<Longrightarrow> arena_ok a' \<Longrightarrow> limits (ar_admission a') = limits (ar_admission a) \<Longrightarrow> step_ok a (r, a')"
  by (simp add: step_ok_def)

lemma step_ok_self [simp]: "arena_ok a \<Longrightarrow> step_ok a (r, a) \<longleftrightarrow> r \<noteq> Panic"
  by (simp add: step_ok_def)

lemma step_ok_trans: "step_ok a1 x \<Longrightarrow> limits (ar_admission a1) = limits (ar_admission a) \<Longrightarrow> step_ok a x"
  by (simp add: step_ok_def)

lemma step_ok_map [simp]: "step_ok a (map_outcome_ok f r, a') \<longleftrightarrow> step_ok a (r, a')"
  by (cases r) (simp_all add: step_ok_def)

lemma arena_ok_inv: "arena_ok a \<Longrightarrow> arena_inv a"
  by (simp add: arena_ok_def)

lemma config_ok_frame: "cleanup_frame_ok a a' \<Longrightarrow> config_ok a' = config_ok a"
  by (simp add: cleanup_frame_ok_def config_ok_def)

text \<open>A change of the claim pages alone.\<close>

lemma arena_ok_pages:
  assumes "arena_ok a" "pages_match cs (ar_admission a)" "map fst os = map fst cs"
  shows "arena_ok (a\<lparr> ar_observers := os, ar_claims := cs \<rparr>)"
  using assms arena_inv_pages [of a cs os] by (simp add: arena_ok_def config_ok_def)

lemma arena_ok_claims:
  assumes "arena_ok a" "pages_match cs (ar_admission a)" "map fst cs = map fst (ar_claims a)"
  shows "arena_ok (a\<lparr> ar_claims := cs \<rparr>)"
  using arena_ok_pages [OF assms(1,2), of "ar_observers a"] assms by (simp add: arena_ok_def arena_inv_def)

lemma alist_map_value_pages:
  assumes "arena_ok a" "\<And>c. claim_wf c \<Longrightarrow> (i, c) \<in> set (ar_claims a) \<Longrightarrow> claim_wf (f c) \<and> cm_frames (f c) = cm_frames c"
  shows "pages_match (alist_map_value i f (ar_claims a)) (ar_admission a)"
    "map fst (alist_map_value i f (ar_claims a)) = map fst (ar_claims a)"
proof -
  have "list_all2 page_entry (ar_claims a) (reservations (ar_admission a))"
    using assms(1) by (simp add: arena_ok_def arena_inv_def pages_match_def)
  from pages_update [OF this assms(2)] show "pages_match (alist_map_value i f (ar_claims a)) (ar_admission a)"
    by (simp add: pages_match_def)
  show "map fst (alist_map_value i f (ar_claims a)) = map fst (ar_claims a)"
    by simp
qed

section \<open>Cleanup, closing and consumer pages\<close>

lemma poll_step:
  assumes "arena_ok a" "\<forall>h. retired_ready e h \<noteq> Panic"
  shows "step_ok a (poll_cleanup e a)" "cleanup_frame_ok a (snd (poll_cleanup e a))"
proof -
  note pc = poll_cleanup_inv [OF arena_ok_inv [OF assms(1)] assms(2)]
  show "step_ok a (poll_cleanup e a)"
    using pc(1-3) assms(1) config_ok_frame [OF pc(3)]
    by (simp add: step_ok_def arena_ok_def) (simp add: cleanup_frame_ok_def)
qed (rule poll_cleanup_inv [OF arena_ok_inv [OF assms(1)] assms(2)])

lemma stop_step: "arena_ok a \<Longrightarrow> arena_ok (arena_stop a)"
  using arena_stop_inv [of a] by (simp add: arena_ok_def config_ok_def arena_stop_def)

lemma stop_limits [simp]: "limits (ar_admission (arena_stop a)) = limits (ar_admission a)"
  by (simp add: arena_stop_def)

lemma shutdown_step: "arena_ok a \<Longrightarrow> \<forall>h. retired_ready e h \<noteq> Panic \<Longrightarrow> step_ok a (poll_shutdown_ready e a)"
  using poll_step(1) [of a e] by (cases "poll_cleanup e a") (simp add: poll_shutdown_ready_def)

text \<open>Rewriting one page, the observers' keys unchanged.\<close>

lemma one_page_step:
  assumes "arena_ok a" "map_of (ar_claims a) i = Some c" "claim_wf c \<Longrightarrow> claim_wf c' \<and> cm_frames c' = cm_frames c"
    and "map fst os = map fst (ar_observers a)"
  shows "arena_ok (a\<lparr> ar_observers := os, ar_claims := alist_map_value i (\<lambda>_. c') (ar_claims a) \<rparr>)"
proof -
  have inv: "pages_match (ar_claims a) (ar_admission a)" "reservations_ok (ar_admission a)"
    "map fst (ar_observers a) = map fst (ar_claims a)"
    using assms(1) by (simp_all add: arena_ok_def arena_inv_def book_inv_def)
  have "bt_wf (ar_claims a)" by (rule pages_bt_wf [OF inv(1,2)])
  then have d: "distinct (map fst (ar_claims a))" by (simp add: bt_wf_def strict_sorted_iff)
  show ?thesis
  proof (rule arena_ok_pages [OF assms(1)])
    show "pages_match (alist_map_value i (\<lambda>_. c') (ar_claims a)) (ar_admission a)"
    proof (rule alist_map_value_pages [OF assms(1)])
      fix x
      assume x: "claim_wf x" "(i, x) \<in> set (ar_claims a)"
      then have "x = c" using d assms(2) by simp
      then show "claim_wf c' \<and> cm_frames c' = cm_frames x" using assms(3) x by simp
    qed
  qed (use assms(4) inv(3) in simp)
qed

lemma one_claim_step:
  assumes "arena_ok a" "map_of (ar_claims a) i = Some c" "claim_wf c \<Longrightarrow> claim_wf c' \<and> cm_frames c' = cm_frames c"
  shows "arena_ok (a\<lparr> ar_claims := alist_map_value i (\<lambda>_. c') (ar_claims a) \<rparr>)"
  using one_page_step [OF assms, of "ar_observers a"] by simp

lemma limits_after_close: "book_close b i = (r, b') \<Longrightarrow> limits b' = limits b"
  by (metis book_step_limits(2) snd_conv)

lemma close_step:
  assumes "arena_ok a"
  shows "step_ok a (arena_close i a)"
proof (cases "map_of (ar_claims a) i")
  case None
  then show ?thesis using assms by (simp add: arena_close_def)
next
  case (Some c)
  let ?b = "snd (book_close (ar_admission a) i)"
  let ?cs = "alist_map_value i claim_close (ar_claims a)"
  have inv: "arena_inv a" using assms by (rule arena_ok_inv)
  have cs: "list_all2 page_entry ?cs (reservations (ar_admission a))" "map fst ?cs = map fst (ar_claims a)"
    using alist_map_value_pages [OF assms, of i claim_close] by (auto simp: pages_match_def)
  have "list_all2 page_entry ?cs (reservations ?b)"
    using cs(1) pages_book_update [OF cs(1), of "\<lambda>r. r\<lparr> closing := True \<rparr>" i]
    by (auto simp: book_close_def split: option.split)
  then have "arena_inv (a\<lparr> ar_claims := ?cs, ar_admission := ?b \<rparr>)"
    using inv cs(2) close_inv [of "ar_admission a" i]
    by (intro arena_inv_frame [OF inv]) (auto simp: arena_inv_def pages_match_def intro: retired_ok_frame)
  moreover have "fst (book_close (ar_admission a) i) \<noteq> Panic" by (auto simp: book_close_def split: option.split)
  ultimately show ?thesis
    using Some assms
    by (cases "book_close (ar_admission a) i"; cases "fst (book_close (ar_admission a) i)")
      (auto simp: arena_close_def step_ok_def arena_ok_def config_ok_def limits_after_close)
qed

lemma wake_not_panic [simp]: "wake_signal w \<noteq> (Panic, w')"
  by (metis fst_conv wake_signal_no_panic)

lemma retry_step:
  assumes "arena_ok a"
  shows "step_ok a (arena_retry_cleanup i a)"
  using assms one_page_step [OF assms]
  by (auto simp: arena_retry_cleanup_def Let_def step_ok_def claim_wf_def wake_not_panic
      split: option.split outcome.split prod.split)

lemma register_step:
  assumes "arena_ok a"
  shows "step_ok a (register_release_timeline i t a)"
proof -
  have "map_of (ar_observers a) i \<noteq> None" if "map_of (ar_claims a) i \<noteq> None"
    using that assms by (metis (no_types, lifting) arena_inv_def arena_ok_def map_of_eq_None_iff list.set_map)
  then show ?thesis
    using assms one_page_step [OF assms]
    by (auto simp: register_release_timeline_def Let_def step_ok_def claim_wf_def split: option.split)
qed

lemma offer_step:
  assumes "arena_ok a" "fds \<noteq> Panic"
  shows "step_ok a (configuration_offer fds i a)"
  using assms one_claim_step [OF assms(1)]
  by (auto simp: configuration_offer_def Let_def step_ok_def claim_wf_def split: option.split outcome.split)

text \<open>A consumer changes words of its own page.\<close>

lemma consumer_step:
  assumes "arena_ok a" "map_of (ar_claims a) i = Some c" "claim_wf c'" "cm_frames c' = cm_frames c"
  shows "arena_ok (a\<lparr> ar_claims := alist_map_value i (\<lambda>_. c') (ar_claims a) \<rparr>)"
  by (rule one_claim_step [OF assms(1,2)]) (use assms in simp)

section \<open>Admission\<close>

lemma rollback_step:
  assumes "book_inv b" "map_of (reservations b) i \<noteq> None" "fst (attach_rollback i error b) = r" "snd (attach_rollback i error b) = b'"
  shows "r = Err error" "book_inv b'" "reservations b' = bt_remove i (reservations b)" "allocations b' = allocations b"
    "current_allocation b' = current_allocation b" "pending b' = pending b" "limits b' = limits b"
proof -
  obtain x where "map_of (reservations b) i = Some x" using assms(2) by blast
  from retire_incarnation [OF assms(1) this] obtain b1 b2 where
    "book_close b i = (Ok (), b1)" "complete_cleanup b1 i = (Ok (), b2)" "book_inv b2"
    "reservations b2 = bt_remove i (reservations b)" "allocations b2 = allocations b"
    "current_allocation b2 = current_allocation b" "pending b2 = pending b" "limits b2 = limits b"
    by metis
  then show "r = Err error" "book_inv b'" "reservations b' = bt_remove i (reservations b)"
    "allocations b' = allocations b" "current_allocation b' = current_allocation b" "pending b' = pending b"
    "limits b' = limits b"
    using assms(3,4) by (simp_all add: attach_rollback_def)
qed

lemma admitted_book:
  assumes "book_inv b" "admit b req = (Ok r, b')"
  shows "book_inv b'" "reservations b' = bt_insert (incarnation r) \<lparr> reservation = r, closing = False \<rparr> (reservations b)"
    "map_of (reservations b) (incarnation r) = None" "allocations b' = allocations b" "pending b' = pending b" "pending b = None"
    "current_allocation b' = current_allocation b" "limits b' = limits b" "frames r = request_frames req"
proof -
  note a = admit_Ok [OF assms(2)]
  show "book_inv b'" by (rule admit_inv [OF assms])
  show "map_of (reservations b) (incarnation r) = None"
    using fresh_incarnation assms(1) a(8) by (simp add: book_inv_def)
qed (use admit_Ok [OF assms(2)] in simp_all)

lemma admit_refused: "admit b req = (r, b') \<Longrightarrow> r \<noteq> Panic \<and> ((\<forall>x. r \<noteq> Ok x) \<longrightarrow> b' = b)"
  by (auto simp: admit_def Let_def split: if_splits option.splits)

lemma bt_remove_insert: "bt_wf m \<Longrightarrow> map_of m k = None \<Longrightarrow> bt_remove k (bt_insert k v m) = m"
proof (induction k v m rule: bt_insert.induct)
  case (2 k v k' v' m)
  have same: "bt_remove k x = x" if "k \<notin> fst ` set x" for x :: "('a \<times> 'b) list"
    using that by (induction x) (auto simp: bt_remove_def)
  show ?case
    using 2 same [of "(k', v') # m"] by (auto simp: bt_remove_def bt_wf_def map_of_eq_None_iff split: if_splits)
qed (simp add: bt_remove_def)

lemma arena_ok_book:
  assumes "arena_ok a" "book_inv b" "reservations b = reservations (ar_admission a)" "allocations b = allocations (ar_admission a)"
    "current_allocation b = current_allocation (ar_admission a)" "pending b = pending (ar_admission a)"
    "limits b = limits (ar_admission a)"
  shows "arena_ok (a\<lparr> ar_admission := b \<rparr>)"
proof -
  have inv: "arena_inv a" using assms(1) by (rule arena_ok_inv)
  have "arena_inv (a\<lparr> ar_admission := b \<rparr>)"
    by (rule arena_inv_frame [OF inv])
      (use inv assms retired_ok_frame [of "ar_retired a" "ar_admission a" b] in
        \<open>simp_all add: arena_inv_def pages_match_def\<close>)
  then show ?thesis using assms(1) by (simp add: arena_ok_def config_ok_def)
qed

text \<open>The page and the observer of a newly admitted incarnation.\<close>

lemma arena_ok_admitted:
  assumes "arena_ok a" "admit (ar_admission a) req = (Ok r, b)" "claim_wf c" "cm_frames c = unat (request_frames req)"
  shows "arena_ok (a\<lparr> ar_admission := b, ar_observers := bt_insert (incarnation r) st (ar_observers a),
     ar_claims := bt_insert (incarnation r) c (ar_claims a) \<rparr>)"
proof -
  have inv: "arena_inv a" using assms(1) by (rule arena_ok_inv)
  then have bk: "book_inv (ar_admission a)" by (simp add: arena_inv_def)
  note b = admitted_book [OF bk assms(2)]
  let ?a = "a\<lparr> ar_admission := b, ar_observers := bt_insert (incarnation r) st (ar_observers a),
     ar_claims := bt_insert (incarnation r) c (ar_claims a) \<rparr>"
  have "pages_match (ar_claims ?a) (ar_admission ?a)"
    using inv b(2,9) assms(3,4) by (simp add: arena_inv_def pages_match_def pages_insert)
  moreover have "map fst (ar_observers ?a) = map fst (ar_claims ?a)"
    using inv by (simp add: arena_inv_def map_fst_bt_insert)
  moreover have "retired_ok (ar_retired ?a) (ar_admission ?a)"
    using inv b retired_ok_frame [of "ar_retired a" "ar_admission a" b] by (simp add: arena_inv_def)
  ultimately have "arena_inv ?a" using inv b by (intro arena_inv_frame [OF inv]) simp_all
  then show ?thesis using assms(1) by (simp add: arena_ok_def config_ok_def)
qed

lemma claim_len_no_panic [simp]: "claim_allocation_len page h \<noteq> Panic"
  by (simp add: claim_allocation_len_def size_mul_def size_add_def page_rounded_def rounded_def ok_or_def
      split: option.splits)

lemma attach_step:
  assumes ok: "arena_ok a" and np: "\<forall>h. retired_ready e h \<noteq> Panic" "setup \<noteq> Panic"
  shows "step_ok a (attach_with_recipient e page holding pid process setup a)"
proof -
  obtain rr a1 where p: "poll_cleanup e a = (rr, a1)" by (metis surj_pair)
  have s1: "rr \<noteq> Panic" "arena_ok a1" "limits (ar_admission a1) = limits (ar_admission a)"
    using poll_step(1) [OF ok np(1)] p by (simp_all add: step_ok_def)
  have inv: "arena_inv a1" using s1(2) by (rule arena_ok_inv)
  then have bk: "book_inv (ar_admission a1)" "bt_wf (reservations (ar_admission a1))" "bt_wf (ar_claims a1)"
    by (auto simp: arena_inv_def book_inv_def reservations_ok_def intro: pages_bt_wf)
  show ?thesis
  proof (cases "w_terminal (ar_control a) = 0 \<and> (\<exists>k. rr = Ok k)")
    case False
    then show ?thesis using ok s1 by (cases rr) (auto simp: attach_with_recipient_def p step_ok_def)
  next
    case True
    then obtain k where t: "w_terminal (ar_control a) = 0" "poll_cleanup e a = (Ok k, a1)" using p by auto
    show ?thesis
    proof (cases "claim_allocation_len page holding")
      case (Ok len)
      let ?req = "\<lparr> request_frames = holding, request_claim_bytes = len \<rparr>"
      obtain ar b where ad: "admit (ar_admission a1) ?req = (ar, b)" by (metis surj_pair)
      show ?thesis
      proof (cases ar)
        case r: (Ok r)
        note bb = admitted_book [OF bk(1) ad [unfolded r]]
        have "map_of (reservations b) (incarnation r) \<noteq> None" using bb(2) bk(2) by (simp add: map_of_bt_insert)
        note rb = rollback_step [OF bb(1) this refl refl]
        have rolled: "fst x = Err error" "arena_ok (a1\<lparr> ar_admission := snd x \<rparr>)" "limits (snd x) = limits b"
          if "x = attach_rollback (incarnation r) error b" for error and x :: "(consumer_grant, arena_error) outcome \<times> admission_book"
          unfolding that
          by (rule rb, rule arena_ok_book [OF s1(2) rb(2)], insert rb(3-7) bb bk(2)) (simp_all add: bt_remove_insert)
        have new: "arena_ok (a1\<lparr> ar_admission := b, ar_observers := bt_insert (incarnation r) st (ar_observers a1),
            ar_claims := bt_insert (incarnation r) c (ar_claims a1) \<rparr>)" if "claim_wf c" "cm_frames c = unat holding" for st c
          by (rule arena_ok_admitted [OF s1(2) ad [unfolded r]]) (use that in simp_all)
        obtain m where m: "ar_resources a1 = Some m"
          using inv bb(6) by (auto simp: arena_inv_def resources_ok_def split: option.splits)
        show ?thesis
        proof (cases "setup")
          case (Err error)
          then show ?thesis
            using t Ok ad r rolled [OF refl, of error] bb(8) s1(3)
            by (simp add: attach_with_recipient_def step_ok_def case_prod_beta Let_def)
        next
          case su: (Ok su)
          let ?c = "claim_map_new (incarnation r) holding (su_scope su) pid (su_wake su) (su_release_wake su)"
          have "claim_wf (?c\<lparr> mapping_slots := (mapping_slots ?c)[0 := rm_generation m], w_offered := rm_generation m \<rparr>)"
            using claim_wf_new [of "incarnation r" holding "su_scope su" pid "su_wake su" "su_release_wake su"]
            by (simp add: claim_wf_def)
          moreover have "cm_frames ?c = unat holding" by (simp add: claim_map_new_def Let_def)
          ultimately show ?thesis
            using t Ok ad r su m new bb(8) s1(3)
            by (simp add: attach_with_recipient_def step_ok_def Let_def)
        qed (use np(2) in simp)
      qed (use t Ok ad s1 admit_refused [OF ad] in \<open>auto simp: attach_with_recipient_def step_ok_def\<close>)
    qed (use t s1 in \<open>auto simp: attach_with_recipient_def step_ok_def\<close>)
  qed
qed

section \<open>Publication and reservations\<close>

lemma find_free_no_panic:
  "\<forall>j g. prepare j g \<noteq> Panic \<Longrightarrow> fst (find_free oldest cs prepare is m) \<noteq> Panic"
proof (induction "is" arbitrary: m)
  case (Cons i "is")
  then show ?case unfolding find_free_Cons by (auto split: outcome.splits option.splits)
qed simp

text \<open>What a publication changes of the control page, the book and the map's identity.\<close>

lemma publish_slot_frame [simp]:
  "limits (ar_admission (snd (publish_slot m i d a))) = limits (ar_admission a)"
  by (simp add: publish_slot_def Let_def split: prod.split)

lemma publish_slot_config:
  assumes "arena_inv a" "config_ok a" "ar_resources a = Some m0" "rm_generation m = rm_generation m0" "ar_cursor a < MAX_GENERATION"
  shows "config_ok (snd (publish_slot m i d a))"
  using assms succ_le_of_less(3) [OF assms(5)]
  by (simp add: publish_slot_def Let_def config_ok_def ring_store_def split: prod.split)

lemma config_ok_map:
  "config_ok a \<Longrightarrow> ar_resources a = Some m \<Longrightarrow> rm_generation m1 = rm_generation m \<Longrightarrow> config_ok (a\<lparr> ar_resources := Some m1 \<rparr>)"
  by (simp add: config_ok_def)

lemma publish_prepared_step:
  assumes ok: "arena_ok a" and np: "\<forall>h. retired_ready e h \<noteq> Panic" "\<forall>j g. prepare j g \<noteq> Panic"
  shows "step_ok a (publish_prepared e bytes prepare a)"
proof -
  obtain rr a1 where p: "poll_cleanup e a = (rr, a1)" by (metis surj_pair)
  have s1: "rr \<noteq> Panic" "arena_ok a1" "limits (ar_admission a1) = limits (ar_admission a)"
    using poll_step(1) [OF ok np(1)] p by (simp_all add: step_ok_def)
  have inv: "arena_inv a1" "config_ok a1" using s1(2) by (simp_all add: arena_ok_def)
  have i: "arena_inv (snd (publish_prepared e bytes prepare a))"
    by (rule publish_prepared_inv [OF arena_ok_inv [OF ok] np(1)])
  show ?thesis
  proof (cases "w_terminal (ar_control a) = 0 \<and> (\<exists>k. rr = Ok k) \<and> (\<exists>m. ar_resources a1 = Some m)")
    case False
    then show ?thesis
      using ok s1 by (cases rr) (auto simp: publish_prepared_def p step_ok_def split: option.split)
  next
    case True
    then obtain k m where t: "w_terminal (ar_control a) = 0" "rr = Ok k" "ar_resources a1 = Some m" by blast
    obtain r m1 where f: "find_free (oldest_retained (ar_cursor a1) (history (rm_layout m))) (ar_claims a1)
        prepare (slot_candidates (ar_next_slot a1) (unat (resources (rm_layout m)))) m = (r, m1)"
      by (metis surj_pair)
    have g: "rm_generation m1 = rm_generation m" using find_free_result(1) [OF inv(1) t(3) f] by (auto simp: same_gens_def)
    have "r \<noteq> Panic" using find_free_no_panic [OF np(2)] f by (metis fst_conv)
    moreover have "ar_cursor a1 < MAX_GENERATION" if "ar_cursor a1 \<noteq> MAX_GENERATION"
      using inv(1) that by (simp add: arena_inv_def control_ok_def order_less_le)
    ultimately show ?thesis
      using t i s1 g config_ok_map [OF inv(2) t(3)] publish_slot_config [OF inv t(3)] stop_step [OF s1(2)]
      by (auto simp: publish_prepared_def p f Let_def step_ok_def arena_ok_def split: outcome.split option.split)
  qed
qed

lemma publish_step: "arena_ok a \<Longrightarrow> \<forall>h. retired_ready e h \<noteq> Panic \<Longrightarrow> step_ok a (publish e d bytes a)"
  unfolding publish_def by (rule publish_prepared_step) simp_all

lemma publish_resource_step:
  "arena_ok a \<Longrightarrow> \<forall>h. retired_ready e h \<noteq> Panic \<Longrightarrow> \<forall>j g. prepare j g \<noteq> Panic \<Longrightarrow> step_ok a (publish_resource e prepare a)"
  using publish_prepared_step [of a e prepare "[]"] by (simp add: publish_resource_def)

lemma reserve_step:
  assumes ok: "arena_ok a" and np: "\<forall>h. retired_ready e h \<noteq> Panic"
  shows "step_ok a (reserve_slot e a)"
    "reserve_slot e a = (Ok (Some r), a') \<Longrightarrow> cr_index r < unat (resource_capacity (limits (ar_admission a)))"
proof -
  obtain rr a1 where p: "poll_cleanup e a = (rr, a1)" by (metis surj_pair)
  have s1: "rr \<noteq> Panic" "arena_ok a1" "limits (ar_admission a1) = limits (ar_admission a)"
    using poll_step(1) [OF ok np] p by (simp_all add: step_ok_def)
  have inv: "arena_inv a1" "config_ok a1" using s1(2) by (simp_all add: arena_ok_def)
  show "step_ok a (reserve_slot e a)"
    "reserve_slot e a = (Ok (Some r), a') \<Longrightarrow> cr_index r < unat (resource_capacity (limits (ar_admission a)))"
  proof (atomize (full), cases "w_terminal (ar_control a) = 0 \<and> (\<exists>k. rr = Ok k) \<and> (\<exists>m. ar_resources a1 = Some m)")
    case False
    then show "step_ok a (reserve_slot e a) \<and> (reserve_slot e a = (Ok (Some r), a') \<longrightarrow>
        cr_index r < unat (resource_capacity (limits (ar_admission a))))"
      using ok s1 stop_step [OF s1(2)] by (cases rr) (auto simp: reserve_slot_def p step_ok_def split: option.splits)
  next
    case True
    then obtain k m where t: "w_terminal (ar_control a) = 0" "rr = Ok k" "ar_resources a1 = Some m" by blast
    obtain fr m1 where f: "find_free (oldest_retained (ar_cursor a1) (history (rm_layout m))) (ar_claims a1)
        (\<lambda>_ _. Ok (Some ())) (slot_candidates (ar_next_slot a1) (unat (resources (rm_layout m)))) m = (fr, m1)"
      by (metis surj_pair)
    note ff = find_free_result [OF inv(1) t(3) f]
    have g: "rm_generation m1 = rm_generation m" using ff(1) by (auto simp: same_gens_def)
    have np2: "fr \<noteq> Panic" using find_free_no_panic [of "\<lambda>_ _. Ok (Some ())"] f by (metis fst_conv outcome.distinct(4))
    have m: "arena_ok (a1\<lparr> ar_resources := Some m1 \<rparr>)"
      using arena_inv_map [OF inv(1) t(3) ff(2-4)] config_ok_map [OF inv(2) t(3) g] by (simp add: arena_ok_def)
    have res: "arena_ok (a1\<lparr> ar_resources := Some (m1\<lparr> rm_reserved := (rm_reserved m1)[i := True], rm_owners := n \<rparr>) \<rparr>)" for i n
      unfolding arena_ok_def
      by (rule conjI, rule arena_inv_map [OF inv(1) t(3)], insert ff(2-4) config_ok_map [OF inv(2) t(3)] g)
        (auto simp: map_wf_def gens_ok_def slot_gen_def)
    have rng: "i < unat (resource_capacity (limits (ar_admission a)))" if "fr = Ok (Some (i, ()))" for i
      using ff(5) [OF that] inv(1) t(3) s1(3) by (simp add: arena_inv_def resources_ok_def layout_matches_def map_wf_def)
    show "step_ok a (reserve_slot e a) \<and> (reserve_slot e a = (Ok (Some r), a') \<longrightarrow>
        cr_index r < unat (resource_capacity (limits (ar_admission a))))"
      using t s1 np2 m res rng stop_step [OF s1(2)] ok
      by (auto simp: reserve_slot_def p f step_ok_def split: outcome.splits option.splits)
  qed
qed

lemma unreserve_simps [simp]:
  "rm_layout (unreserve r m) = rm_layout m" "rm_states (unreserve r m) = rm_states m"
  "rm_generation (unreserve r m) = rm_generation m" "map_wf (unreserve r m) = map_wf m"
  "gens_ok cur (unreserve r m) = gens_ok cur m"
  by (simp_all add: unreserve_def map_wf_def gens_ok_def slot_gen_def)

lemma drop_reservation_step:
  assumes "arena_ok a"
  shows "arena_ok (drop_reservation r a)"
proof -
  have "retired_ok (ar_retired (drop_reservation r a)) (ar_admission a)"
    using assms
    by (auto simp: arena_ok_def arena_inv_def retired_ok_def drop_reservation_def comp_def list_all_iff retired_entry_ok_def)
  then show ?thesis
    using assms
    by (cases "ar_resources a")
      (auto simp: arena_ok_def arena_inv_def drop_reservation_def resources_ok_def control_ok_def config_ok_def layout_matches_def)
qed

lemma drop_reservation_limits [simp]: "ar_admission (drop_reservation r a) = ar_admission a"
  by (simp add: drop_reservation_def)

lemma commit_step:
  assumes ok: "arena_ok a" and r: "cr_index r < unat (resource_capacity (limits (ar_admission a)))"
  shows "step_ok a (commit_reservation e r d a)"
proof -
  have inv: "arena_inv a" "config_ok a" using ok by (simp_all add: arena_ok_def)
  have "arena_ok (snd (publish_slot m (cr_index r) x a))" if "ar_resources a = Some m" "ar_cursor a \<noteq> MAX_GENERATION" for m x
  proof -
    have c: "ar_cursor a < MAX_GENERATION" using inv(1) that(2) by (simp add: arena_inv_def control_ok_def order_less_le)
    have m: "map_wf m" "gens_ok (ar_cursor a) m" "cr_index r < length (rm_states m)"
      using inv(1) that(1) r by (auto simp: arena_inv_def resources_ok_def layout_matches_def map_wf_def)
    show ?thesis
      using publish_slot_inv [OF inv(1) that(1) m(1,2) refl m(3) c] publish_slot_config [OF inv that(1) refl c]
      by (simp add: arena_ok_def)
  qed
  then show ?thesis
    using ok drop_reservation_step stop_step [OF ok]
    by (auto simp: commit_reservation_def step_ok_def case_prod_beta Let_def split: option.split)
qed

lemma abandon_step: "arena_ok a \<Longrightarrow> step_ok a (abandon_reservation r a)"
  using drop_reservation_step [of a r] by (simp add: abandon_reservation_def step_ok_def)

section \<open>Reconfiguration\<close>

lemma signal_all_not_panic [simp]: "signal_all k cs \<noteq> (Panic, cs')"
  by (metis fst_conv signal_all_no_panic)

lemma signal_reconfiguration_step:
  assumes "arena_ok a"
  shows "step_ok a (signal_reconfiguration a)"
proof -
  have sp: "list_all2 page_entry (snd (signal_all RECONFIGURATION (ar_claims a))) (reservations (ar_admission a)) \<and>
      map fst (snd (signal_all RECONFIGURATION (ar_claims a))) = map fst (ar_claims a)"
    by (rule signal_all_pages) (use assms in \<open>simp add: arena_ok_def arena_inv_def pages_match_def\<close>)
  have "arena_ok (a\<lparr> ar_control := (ar_control a)\<lparr> w_reconfiguration_epoch := x \<rparr> \<rparr>)" for x
    using assms by (cases "ar_resources a")
      (auto simp: arena_ok_def arena_inv_def resources_ok_def control_ok_def config_ok_def layout_matches_def)
  from arena_ok_claims [OF this] show ?thesis
    using sp stop_step [OF assms]
    by (auto simp: signal_all_not_panic signal_reconfiguration_def Let_def step_ok_def pages_match_def split: option.split prod.splits)
qed

lemma page_rounded_no_panic [simp]: "page_rounded page v \<noteq> Panic"
  by (simp add: page_rounded_def rounded_def size_add_def and_then_eq_Panic)

lemma layout_new_no_panic [simp]: "resource_layout_new page n h cap \<noteq> Panic"
  by (auto simp: resource_layout_new_def size_mul_def size_add_def and_then_eq_Panic split: if_splits)

lemma begin_book:
  assumes "book_inv b" "begin_reconfiguration b n = (r, b')"
  shows "r \<noteq> Panic" "book_inv b'" "limits b' = limits b" "reservations b' = reservations b" "allocations b' = allocations b"
    "r = Ok u \<Longrightarrow> pending b = None \<and> (\<exists>p. pending b' = Some p \<and> reserved p = None) \<and> current_allocation b' = None"
    "\<forall>u. r \<noteq> Ok u \<Longrightarrow> b' = b"
proof -
  show "book_inv b'" using begin_reconfiguration_inv [OF assms(1), of n] assms(2) by simp
qed (use assms(2) in \<open>auto simp: begin_reconfiguration_def Let_def split: if_splits option.splits\<close>)

lemma begin_refused:
  "begin_reconfiguration b n \<noteq> (Panic, b')" "begin_reconfiguration b n = (Err x, b') \<Longrightarrow> b' = b"
  by (auto simp: begin_reconfiguration_def Let_def split: option.splits if_splits)

lemma retired_ok_snoc:
  assumes "retired_ok rs b" "current_allocation b = Some (ra_id x)" "ra_id x \<in> dom (map_of (allocations b))"
    and "allocations b' = allocations b" "current_allocation b' = None" "Option.bind (pending b') reserved = None"
  shows "retired_ok (rs @ [x]) b'"
  using assms by (auto simp: retired_ok_def list_all_iff retired_entry_ok_def)

lemma unat_succ_le: "unat (x + 1 :: u64) \<le> unat x + 1"
  by (simp add: unat_word_ariths)

lemma begin_step:
  assumes ok: "arena_ok a"
  shows "step_ok a (begin_arena_reconfiguration page capacity external native a)"
proof -
  have inv: "arena_inv a" using ok by (rule arena_ok_inv)
  show ?thesis
  proof (cases "ar_resources a")
    case None
    then show ?thesis
      using inv ok by (auto simp: begin_arena_reconfiguration_def arena_inv_def resources_ok_def)
  next
    case (Some old)
    have p: "ar_pending_layout a = None" "pending (ar_admission a) = None" "layout_matches a (rm_layout old)"
      using inv Some by (simp_all add: arena_inv_def resources_ok_def)
    have bk: "book_inv (ar_admission a)" using inv by (simp add: arena_inv_def)
    obtain i where i: "current_allocation (ar_admission a) = Some i" "i \<in> dom (map_of (allocations (ar_admission a)))"
      using bk p(2) by (auto simp: book_inv_def pending_ok_def)
    let ?new = "\<lambda>b l. a\<lparr> ar_admission := b,
        ar_control := (ar_control a)\<lparr> w_configuration := 0, w_first_cursor := ar_cursor a + 1 \<rparr>, ar_resources := None,
        ar_retired := ar_retired a @ [\<lparr> ra_id = i, ra_map = old\<lparr> rm_states := map state_cleared (rm_states old) \<rparr>, ra_native = native \<rparr>],
        ar_pending_layout := Some l \<rparr>"
    have new: "arena_ok (?new b l)"
      if "begin_reconfiguration (ar_admission a) n = (Ok u, b)"
        and l: "resource_layout_new page (resources (rm_layout old)) (history (rm_layout old)) capacity = Ok l" for b l n u
    proof -
      note bb = begin_book [OF bk that(1)]
      obtain pd where pd: "pending b = Some pd" "reserved pd = None" "current_allocation b = None" using bb(6) [OF refl] by blast
      have lm: "layout_matches a l"
        using p(3) l layout_new_Ok(1-3) [OF l] by (auto simp: layout_matches_def layout_ok_def)
      have "retired_ok (ar_retired (?new b l)) b"
        using retired_ok_snoc [of "ar_retired a" "ar_admission a" _ b] inv i bb(5) pd by (simp add: arena_inv_def)
      moreover have "pages_match (ar_claims a) b" using inv bb(4) by (simp add: arena_inv_def pages_match_def)
      ultimately show ?thesis
        using inv bb(2,3) pd lm unat_succ_le [of "ar_cursor a"]
        by (auto simp: arena_ok_def arena_inv_def resources_ok_def control_ok_def config_ok_def layout_matches_def)
    qed
    have sig: "step_ok a (signal_reconfiguration (?new b l))"
      if "begin_reconfiguration (ar_admission a) n = (Ok u, b)"
        "resource_layout_new page (resources (rm_layout old)) (history (rm_layout old)) capacity = Ok l" for b l n u
      by (rule step_ok_trans [OF signal_reconfiguration_step [OF new [OF that]]])
        (simp add: begin_book(3) [OF bk that(1)])
    show ?thesis
    proof (cases "resource_layout_new page (resources (rm_layout old)) (history (rm_layout old)) capacity")
      case (Ok l)
      then show ?thesis
        using ok p Some i sig [OF _ Ok]
        by (auto simp: begin_arena_reconfiguration_def Let_def step_ok_def begin_refused(1)
            split: option.split outcome.split prod.splits dest!: begin_refused(2))
    qed (use ok Some p in \<open>auto simp: begin_arena_reconfiguration_def\<close>)
  qed
qed

text \<open>The retired allocations are never the one being reserved or installed.\<close>

lemma reserve_book:
  assumes "book_inv b" "retired_ok rs b" "reserve_reconfiguration b = (Ok i, b')"
  shows "book_inv b'" "retired_ok rs b'" "reservations b' = reservations b" "limits b' = limits b"
    "\<exists>p. pending b' = Some p \<and> reserved p = Some i" "pending b \<noteq> None" "i \<notin> ra_id ` set rs"
proof -
  show "book_inv b'" using reserve_reconfiguration_inv [OF assms(1)] assms(3) by simp
  have al: "bt_wf (allocations b)" "map_of (allocations b) (AllocationId (next_allocation b)) = None"
    using assms(1) fresh_allocation by (auto simp: book_inv_def allocations_ok_def)
  show "pending b \<noteq> None" using assms(3) by (auto simp: reserve_reconfiguration_def split: option.splits)
  then obtain p where p: "pending b = Some p" by blast
  show "reservations b' = reservations b" "limits b' = limits b" "\<exists>p. pending b' = Some p \<and> reserved p = Some i"
    using assms(3) p by (auto simp: reserve_reconfiguration_def Let_def split: option.splits if_splits)
  have "i \<notin> ra_id ` set rs \<and> retired_ok rs b'"
  proof (cases "reserved p")
    case (Some j)
    then show ?thesis
      using assms(2,3) p by (auto simp: reserve_reconfiguration_def retired_ok_def list_all_iff retired_entry_ok_def)
  next
    case None
    then show ?thesis
      using assms(2,3) p al
      by (auto simp: reserve_reconfiguration_def retired_ok_def list_all_iff retired_entry_ok_def Let_def map_of_bt_insert
          split: if_splits option.splits)
  qed
  then show "i \<notin> ra_id ` set rs" "retired_ok rs b'" by simp_all
qed

lemma abandon_book:
  assumes "book_inv b" "retired_ok rs b" "pending b = Some p" "reserved p = Some i"
  obtains b' where "abandon_reconfiguration_allocation b = (Ok (), b')" "book_inv b'" "retired_ok rs b'"
    "reservations b' = reservations b" "limits b' = limits b" "pending b' \<noteq> None"
proof -
  have "map_of (allocations b) i = Some (upper_bound p)"
    using assms by (auto simp: book_inv_def pending_ok_def)
  then have ab: "abandon_reconfiguration_allocation b = (Ok (), snd (abandon_reconfiguration_allocation b))"
    using assms(3,4) by (simp add: abandon_reconfiguration_allocation_def Let_def)
  show ?thesis
  proof (rule that [OF ab])
    show "book_inv (snd (abandon_reconfiguration_allocation b))" by (rule abandon_reconfiguration_inv [OF assms(1)])
    show "retired_ok rs (snd (abandon_reconfiguration_allocation b))"
      using assms(2-4)
      by (auto simp: abandon_reconfiguration_allocation_def retired_ok_def list_all_iff retired_entry_ok_def Let_def
          map_of_bt_remove split: option.split)
  qed (use assms(3,4) in \<open>auto simp: abandon_reconfiguration_allocation_def Let_def split: option.split\<close>)
qed

lemma install_book:
  assumes "book_inv b" "retired_ok rs b" "i \<notin> ra_id ` set rs" "pending b = Some p" "reserved p = Some i"
    and "install_reconfiguration b n = (Ok j, b')"
  shows "book_inv b'" "retired_ok rs b'" "reservations b' = reservations b" "limits b' = limits b" "pending b' = None"
proof -
  show "book_inv b'" using install_reconfiguration_inv [OF assms(1), of n] assms(6) by simp
  have "bt_wf (allocations b)" using assms(1) by (simp add: book_inv_def allocations_ok_def)
  then show "retired_ok rs b'"
    using assms(2-6)
    by (auto simp: install_reconfiguration_def retired_ok_def list_all_iff retired_entry_ok_def map_of_bt_insert split: if_splits)
qed (use assms(4-6) in \<open>auto simp: install_reconfiguration_def split: if_splits\<close>)

lemma reserve_refused:
  "reserve_reconfiguration b \<noteq> (Panic, b')" "reserve_reconfiguration b = (Err x, b') \<Longrightarrow> b' = b"
  "install_reconfiguration b n \<noteq> (Panic, b')"
  by (auto simp: reserve_reconfiguration_def install_reconfiguration_def Let_def split: option.splits if_splits)

text \<open>A paused arena whose book changes only in the replacement's reservation.\<close>

lemma arena_ok_paused:
  assumes "arena_ok a" "ar_resources a = None" "book_inv b" "retired_ok (ar_retired a) b"
    "reservations b = reservations (ar_admission a)" "limits b = limits (ar_admission a)" "pending b \<noteq> None"
  shows "arena_ok (a\<lparr> ar_admission := b \<rparr>)"
  using assms by (auto simp: arena_ok_def arena_inv_def resources_ok_def control_ok_def config_ok_def layout_matches_def pages_match_def)

lemma arena_ok_installed:
  assumes "arena_ok a" "ar_resources a = None" "ar_pending_layout a = Some l" "book_inv b" "retired_ok (ar_retired a) b"
    "reservations b = reservations (ar_admission a)" "limits b = limits (ar_admission a)" "pending b = None"
  shows "arena_ok (a\<lparr> ar_admission := b, ar_resources := Some (resource_map_new l g), ar_pending_layout := None,
     ar_next_slot := 0, ar_control := (ar_control a)\<lparr> w_configuration := g \<rparr> \<rparr>)"
proof -
  have l: "layout_matches a l" using assms(1-3) by (simp add: arena_ok_def arena_inv_def resources_ok_def)
  then have "layout_ok l" by (simp add: layout_matches_def)
  from resource_map_new_wf [OF this] have m: "map_wf (resource_map_new l g)" "gens_ok (ar_cursor a) (resource_map_new l g)"
    "rm_layout (resource_map_new l g) = l" by auto
  have "rm_generation (resource_map_new l g) = g" by (simp add: resource_map_new_def Let_def)
  then show ?thesis
    using assms l m
    by (simp add: arena_ok_def arena_inv_def resources_ok_def control_ok_def config_ok_def layout_matches_def pages_match_def)
qed

lemma advance_step:
  assumes ok: "arena_ok a" and np: "\<forall>h. retired_ready e h \<noteq> Panic" "map_storage \<noteq> Panic" "allocate \<noteq> Panic"
  shows "step_ok a (advance_with_allocation e map_storage allocate a)"
proof -
  obtain rr a1 where p: "poll_cleanup e a = (rr, a1)" by (metis surj_pair)
  have s1: "rr \<noteq> Panic" "arena_ok a1" "limits (ar_admission a1) = limits (ar_admission a)"
    using poll_step(1) [OF ok np(1)] p by (simp_all add: step_ok_def)
  have inv: "arena_inv a1" using s1(2) by (rule arena_ok_inv)
  show ?thesis
  proof (cases "w_terminal (ar_control a) = 0 \<and> (\<exists>k. rr = Ok k) \<and> (\<exists>l i b. ar_pending_layout a1 = Some l \<and>
      reserve_reconfiguration (ar_admission a1) = (Ok i, b))")
    case False
    then show ?thesis
      using ok s1 p
      by (cases rr) (auto simp: advance_with_allocation_def step_ok_def reserve_refused(1)
          split: option.split outcome.split prod.split admission_error.split dest!: reserve_refused(2))
  next
    case True
    then obtain k l i b where t: "w_terminal (ar_control a) = 0" "poll_cleanup e a = (Ok k, a1)" "ar_pending_layout a1 = Some l"
      "reserve_reconfiguration (ar_admission a1) = (Ok i, b)" using p by auto
    have res: "ar_resources a1 = None" using inv t(3) by (auto simp: arena_inv_def resources_ok_def split: option.splits)
    have bk: "book_inv (ar_admission a1)" "retired_ok (ar_retired a1) (ar_admission a1)" using inv by (simp_all add: arena_inv_def)
    note rb = reserve_book [OF bk t(4)]
    obtain pd where pd: "pending b = Some pd" "reserved pd = Some i" using rb(5) by blast
    obtain b' where ab: "abandon_reconfiguration_allocation b = (Ok (), b')" "book_inv b'" "retired_ok (ar_retired a1) b'"
      "reservations b' = reservations b" "limits b' = limits b" "pending b' \<noteq> None"
      by (rule abandon_book [OF rb(1,2) pd])
    have drop: "arena_ok (a1\<lparr> ar_admission := b' \<rparr>)"
      by (rule arena_ok_paused [OF s1(2) res ab(2,3)]) (use ab rb in simp_all)
    have inst: "arena_ok (a1\<lparr> ar_admission := x, ar_resources := Some (resource_map_new l (allocation_raw i)),
        ar_pending_layout := None, ar_next_slot := 0, ar_control := (ar_control a1)\<lparr> w_configuration := allocation_raw i \<rparr> \<rparr>)"
        "limits x = limits (ar_admission a1)"
      if "install_reconfiguration b n = (Ok j, x)" for n j x
      using arena_ok_installed [OF s1(2) res t(3)] install_book [OF rb(1,2,7) pd that] rb(3,4) by simp_all
    show ?thesis
      using t np(2,3) drop inst ab(1,5) rb(4) s1(3)
      by (auto simp: advance_with_allocation_def step_ok_def Let_def reserve_refused(3) split: option.split outcome.split prod.splits)
  qed
qed

lemma map_outcome_ok_Panic [simp]: "map_outcome_ok f r = Panic \<longleftrightarrow> r = Panic"
  by (cases r) simp_all

lemma advance_cpu_step:
  assumes "arena_ok a" "\<forall>h. retired_ready e h \<noteq> Panic" "map_storage \<noteq> Panic"
  shows "step_ok a (advance_reconfiguration e map_storage a)"
proof -
  obtain r a1 where r: "advance_with_allocation e map_storage (Ok 0) a = (r, a1)" by (metis surj_pair)
  have s: "step_ok a (r, a1)" using advance_step [OF assms, of "Ok 0"] r by simp
  have "step_ok a (signal_reconfiguration a1)"
    by (rule step_ok_trans [OF signal_reconfiguration_step]) (use s in \<open>simp_all add: step_ok_def\<close>)
  then show ?thesis
    using s assms(1) r
    by (cases r; cases "signal_reconfiguration a1") (auto simp: advance_reconfiguration_def step_ok_def split: if_splits)
qed

lemma reconfigure_cpu_step:
  assumes "arena_ok a" "\<forall>h. retired_ready e h \<noteq> Panic" "map_storage \<noteq> Panic"
  shows "step_ok a (reconfigure_cpu e page capacity map_storage a)"
proof -
  obtain r a1 where r: "begin_arena_reconfiguration page capacity 0 None a = (r, a1)" by (metis surj_pair)
  have s: "step_ok a (r, a1)" using begin_step [OF assms(1)] r by metis
  have "step_ok a (advance_reconfiguration e map_storage a1)"
    by (rule step_ok_trans [OF advance_cpu_step]) (use s assms in \<open>simp_all add: step_ok_def\<close>)
  then show ?thesis
    using s assms(1) r by (cases r) (auto simp: reconfigure_cpu_def step_ok_def)
qed

lemma begin_native_step: "arena_ok a \<Longrightarrow> step_ok a (begin_native_reconfiguration page external retired a)"
  using begin_step by (simp add: begin_native_reconfiguration_def)

section \<open>The state machine\<close>

datatype arena_event =
    Attach usize u32 u32 "nat option" "(claim_setup, arena_error) outcome"
  | PublishFrame frame_descriptor bytes
  | PublishNative "nat \<Rightarrow> u64 \<Rightarrow> (frame_descriptor option, arena_error) outcome"
  | Reserve
  | Commit nat frame_descriptor
  | Abandon nat
  | DropReservation nat
  | PollCleanup
  | PollShutdown
  | CloseIncarnation incarnation_id
  | StopArena
  | RetryCleanup incarnation_id
  | RegisterTimeline incarnation_id nat
  | OfferConfiguration "(unit, arena_error) outcome" incarnation_id
  | SignalReconfiguration
  | ReconfigureCpu usize usize "(unit, arena_error) outcome"
  | BeginNative usize u64 nat
  | AdvanceCpu "(unit, arena_error) outcome"
  | AdvanceNative "(unit, arena_error) outcome" "(u64, arena_error) outcome"
  | ConsumerPage incarnation_id claim_map

type_synonym arena_state = "arena \<times> cpu_reservation list"

definition forget :: "cpu_reservation list \<Rightarrow> 'a arena_result \<Rightarrow> (unit, arena_error) outcome \<times> arena_state" where
  "forget rs x = (map_outcome_ok (\<lambda>_. ()) (fst x), (snd x, rs))"

definition without :: "nat \<Rightarrow> 'a list \<Rightarrow> 'a list" where
  "without k xs = take k xs @ drop (Suc k) xs"

text \<open>A reservation is consumed by its commit or abandonment, so these events name one that is
  outstanding.  A consumer event replaces the page of an attached incarnation by any page of the
  same size.\<close>

fun arena_event_enabled :: "arena_event \<Rightarrow> arena_state \<Rightarrow> bool" where
  "arena_event_enabled (Commit k _) (a, rs) = (k < length rs)"
| "arena_event_enabled (Abandon k) (a, rs) = (k < length rs)"
| "arena_event_enabled (DropReservation k) (a, rs) = (k < length rs)"
| "arena_event_enabled (ConsumerPage i c) (a, rs) =
     (case map_of (ar_claims a) i of Some c0 \<Rightarrow> claim_wf c \<and> cm_frames c = cm_frames c0 | None \<Rightarrow> False)"
| "arena_event_enabled _ _ = True"

text \<open>The operating system and the native backend answer with a value or an error.\<close>

fun answers :: "arena_event \<Rightarrow> bool" where
  "answers (Attach _ _ _ _ su) = (su \<noteq> Panic)"
| "answers (PublishNative prepare) = (\<forall>j g. prepare j g \<noteq> Panic)"
| "answers (OfferConfiguration fds _) = (fds \<noteq> Panic)"
| "answers (ReconfigureCpu _ _ st) = (st \<noteq> Panic)"
| "answers (AdvanceCpu st) = (st \<noteq> Panic)"
| "answers (AdvanceNative st al) = (st \<noteq> Panic \<and> al \<noteq> Panic)"
| "answers _ = True"

fun arena_event_step :: "env \<Rightarrow> arena_event \<Rightarrow> arena_state \<Rightarrow> (unit, arena_error) outcome \<times> arena_state" where
  "arena_event_step e (Attach page holding pid process su) (a, rs) =
     forget rs (attach_with_recipient e page holding pid process su a)"
| "arena_event_step e (PublishFrame d bytes) (a, rs) = forget rs (publish e d bytes a)"
| "arena_event_step e (PublishNative prepare) (a, rs) = forget rs (publish_resource e prepare a)"
| "arena_event_step e Reserve (a, rs) =
     (case reserve_slot e a of
        (Ok (Some r), a') \<Rightarrow> (Ok (), (a', r # rs))
      | x \<Rightarrow> forget rs x)"
| "arena_event_step e (Commit k d) (a, rs) = forget (without k rs) (commit_reservation e (rs ! k) d a)"
| "arena_event_step e (Abandon k) (a, rs) = forget (without k rs) (abandon_reservation (rs ! k) a)"
| "arena_event_step e (DropReservation k) (a, rs) = (Ok (), (drop_reservation (rs ! k) a, without k rs))"
| "arena_event_step e PollCleanup (a, rs) = forget rs (poll_cleanup e a)"
| "arena_event_step e PollShutdown (a, rs) = forget rs (poll_shutdown_ready e a)"
| "arena_event_step e (CloseIncarnation i) (a, rs) = forget rs (arena_close i a)"
| "arena_event_step e StopArena (a, rs) = (Ok (), (arena_stop a, rs))"
| "arena_event_step e (RetryCleanup i) (a, rs) = forget rs (arena_retry_cleanup i a)"
| "arena_event_step e (RegisterTimeline i t) (a, rs) = forget rs (register_release_timeline i t a)"
| "arena_event_step e (OfferConfiguration fds i) (a, rs) = forget rs (configuration_offer fds i a)"
| "arena_event_step e SignalReconfiguration (a, rs) = forget rs (signal_reconfiguration a)"
| "arena_event_step e (ReconfigureCpu page capacity st) (a, rs) = forget rs (reconfigure_cpu e page capacity st a)"
| "arena_event_step e (BeginNative page external retired) (a, rs) =
     forget rs (begin_native_reconfiguration page external retired a)"
| "arena_event_step e (AdvanceCpu st) (a, rs) = forget rs (advance_reconfiguration e st a)"
| "arena_event_step e (AdvanceNative st al) (a, rs) = forget rs (advance_with_allocation e st al a)"
| "arena_event_step e (ConsumerPage i c) (a, rs) =
     (Ok (), (a\<lparr> ar_claims := alist_map_value i (\<lambda>_. c) (ar_claims a) \<rparr>, rs))"

inductive arena_reachable :: "arena_state \<Rightarrow> bool" where
  created: "create_arena e page cfg external native scope storage = Ok a \<Longrightarrow> arena_reachable (a, [])"
| stepped: "arena_reachable s \<Longrightarrow> arena_event_enabled ev s \<Longrightarrow> answers ev \<Longrightarrow> \<forall>h. retired_ready e h \<noteq> Panic \<Longrightarrow>
     arena_reachable (snd (arena_event_step e ev s))"

definition state_ok :: "arena_state \<Rightarrow> bool" where
  "state_ok s \<longleftrightarrow> arena_ok (fst s) \<and>
     (\<forall>r\<in>set (snd s). cr_index r < unat (resource_capacity (limits (ar_admission (fst s)))))"

lemma set_without: "set (without k xs) \<subseteq> set xs"
  by (auto simp: without_def dest: in_set_takeD in_set_dropD)

lemma forget_ok:
  assumes "step_ok a x" "state_ok (a, rs)" "set rs' \<subseteq> set rs"
  shows "fst (forget rs' x) \<noteq> Panic \<and> state_ok (snd (forget rs' x))"
  using assms by (cases "fst x") (auto simp: forget_def step_ok_def state_ok_def)

lemma event_step_ok:
  assumes "state_ok (a, rs)" "arena_event_enabled ev (a, rs)" "answers ev" "\<forall>h. retired_ready e h \<noteq> Panic"
  shows "fst (arena_event_step e ev (a, rs)) \<noteq> Panic \<and> state_ok (snd (arena_event_step e ev (a, rs)))"
proof -
  have a: "arena_ok a" using assms(1) by (simp add: state_ok_def)
  have k: "cr_index (rs ! k) < unat (resource_capacity (limits (ar_admission a)))" if "k < length rs" for k
    using assms(1) that by (simp add: state_ok_def)
  note keep = forget_ok [OF _ assms(1) order_refl] and drop = forget_ok [OF _ assms(1) set_without]
  show ?thesis
  proof (cases ev)
    case (Commit k d)
    then show ?thesis using drop [OF commit_step [OF a k]] assms(2) by simp
  next
    case Reserve
    obtain r a' where r: "reserve_slot e a = (r, a')" by (metis surj_pair)
    have s: "step_ok a (r, a')" using reserve_step(1) [OF a assms(4)] r by simp
    show ?thesis
    proof (cases "\<exists>x. r = Ok (Some x)")
      case True
      then obtain x where x: "r = Ok (Some x)" by blast
      then have "cr_index x < unat (resource_capacity (limits (ar_admission a)))"
        using reserve_step(2) [OF a assms(4)] r by simp
      then show ?thesis using Reserve r x s assms(1) by (simp add: step_ok_def state_ok_def)
    next
      case False
      then have "arena_event_step e ev (a, rs) = forget rs (reserve_slot e a)"
        using Reserve r by (simp split: outcome.split option.split)
      then show ?thesis using keep [OF reserve_step(1) [OF a assms(4)]] by simp
    qed
  next
    case (DropReservation k)
    then show ?thesis
      using assms(1,2) drop_reservation_step [OF a] set_without [of k rs] by (auto simp: state_ok_def)
  next
    case (ConsumerPage i c)
    then show ?thesis
      using assms(1,2) one_claim_step [OF a, of i _ c] by (auto simp: state_ok_def split: option.splits)
  next
    case StopArena
    then show ?thesis using assms(1) stop_step [OF a] by (simp add: state_ok_def)
  qed (use assms(2-4) keep [OF attach_step [OF a assms(4)]] keep [OF publish_step [OF a assms(4)]]
      keep [OF publish_resource_step [OF a assms(4)]] drop [OF abandon_step [OF a]] keep [OF poll_step(1) [OF a assms(4)]]
      keep [OF shutdown_step [OF a assms(4)]] keep [OF close_step [OF a]] keep [OF retry_step [OF a]]
      keep [OF register_step [OF a]] keep [OF offer_step [OF a]] keep [OF signal_reconfiguration_step [OF a]]
      keep [OF reconfigure_cpu_step [OF a assms(4)]] keep [OF begin_native_step [OF a]]
      keep [OF advance_cpu_step [OF a assms(4)]] keep [OF advance_step [OF a assms(4)]] in simp_all)
qed

lemma created_ok: "create_arena e page cfg external native scope storage = Ok a \<Longrightarrow> arena_ok a"
  using create_arena_inv [of e page cfg external native scope storage a]
  by (auto simp: arena_ok_def config_ok_def create_arena_def and_then_eq_Ok fill_new_arena_def control_map_new_def
      resource_map_new_def Let_def)

lemma reachable_ok: "arena_reachable s \<Longrightarrow> state_ok s"
proof (induction rule: arena_reachable.induct)
  case (created e page cfg external native scope storage a)
  then show ?case using created_ok by (simp add: state_ok_def)
next
  case (stepped s ev e)
  then show ?case using event_step_ok [of "fst s" "snd s" ev e] by simp
qed

section \<open>Properties\<close>



text \<open>C19. Every reachable arena is consistent.  There is one claim page and one observer for every
  reservation in the admission book and no other; the holding slots of all pages together with
  the history and the working reserve fit the resources; the shared latest cursor is the
  producer's; no two storage slots carry the same generation; and while a configuration is
  installed its generation is the one the control page advertises, its storage has the admitted
  number of slots and the first advertised cursor is not beyond the next publication.\<close>

theorem reachable_arena_consistent:
  assumes "arena_reachable (a, rs)"
  shows "map fst (ar_claims a) = map fst (reservations (ar_admission a)) \<and>
     map fst (ar_observers a) = map fst (ar_claims a) \<and>
     (\<Sum>x\<leftarrow>ar_claims a. cm_frames (snd x)) + unat (retained_history (limits (ar_admission a)))
       + unat (producer_reserve (limits (ar_admission a))) \<le> unat (resource_capacity (limits (ar_admission a))) \<and>
     w_latest (ar_control a) = ar_cursor a \<and>
     unat (w_first_cursor (ar_control a)) \<le> unat (ar_cursor a) + 1 \<and>
     (\<forall>m. ar_resources a = Some m \<longrightarrow>
        rm_generation m = w_configuration (ar_control a) \<and>
        length (rm_states m) = unat (resource_capacity (limits (ar_admission a))) \<and>
        (\<forall>i<length (rm_states m). \<forall>j<length (rm_states m).
           i \<noteq> j \<longrightarrow> slot_gen m i \<noteq> 0 \<longrightarrow> slot_gen m i \<noteq> slot_gen m j))"
proof -
  have ok: "arena_inv a" "config_ok a" using reachable_ok [OF assms] by (simp_all add: state_ok_def arena_ok_def)
  have pm: "pages_match (ar_claims a) (ar_admission a)" using ok(1) by (simp add: arena_inv_def)
  have fr: "unat (retained_history (limits (ar_admission a))) + unat (producer_reserve (limits (ar_admission a)))
      + charged_frames (ar_admission a) \<le> unat (resource_capacity (limits (ar_admission a)))"
    using ok(1) by (simp add: arena_inv_def book_inv_def frames_ok_def)
  have "rm_generation m = w_configuration (ar_control a) \<and> gens_ok (ar_cursor a) m \<and>
      length (rm_states m) = unat (resource_capacity (limits (ar_admission a)))" if "ar_resources a = Some m" for m
    using ok that by (simp add: arena_inv_def config_ok_def resources_ok_def layout_matches_def map_wf_def)
  moreover have "w_latest (ar_control a) = ar_cursor a \<and> unat (w_first_cursor (ar_control a)) \<le> unat (ar_cursor a) + 1 \<and>
      map fst (ar_observers a) = map fst (ar_claims a)"
    using ok by (simp add: arena_inv_def control_ok_def config_ok_def)
  moreover have "(\<Sum>x\<leftarrow>ar_claims a. cm_frames (snd x)) + unat (retained_history (limits (ar_admission a)))
      + unat (producer_reserve (limits (ar_admission a))) \<le> unat (resource_capacity (limits (ar_admission a)))"
    using fr pages_frames [OF pm] by simp
  ultimately show ?thesis using pages_keys [OF pm] unfolding gens_ok_def by blast
qed

theorem reachable_arena_consistent_witness:
  "w_latest (ar_control (fst (snd (arena_event_step sample_env (PublishFrame default_descriptor [5]) (sample_arena, [])))))
     = ar_cursor (fst (snd (arena_event_step sample_env (PublishFrame default_descriptor [5]) (sample_arena, []))))"
proof -
  have "arena_reachable (snd (arena_event_step sample_env (PublishFrame default_descriptor [5]) (sample_arena, [])))"
    by (rule arena_reachable.stepped [OF arena_reachable.created [OF sample_arena_created]]) (use sample_no_panic in simp_all)
  then have "arena_reachable (snd (publish sample_env default_descriptor [5] sample_arena), [])"
    by (simp add: forget_def)
  from reachable_arena_consistent [OF this] show ?thesis by (simp add: forget_def)
qed

end
