(* ===== verification/Setup_Channel.thy ===== *)
theory Setup_Channel
  imports Arena_Steps
begin

text \<open>
  Setup of a CPU consumer over a connection (\<open>acquisition/socket.rs\<close>): the server answers a request to
  attach with a grant and a request for a configuration with an offer, and passes the objects behind them;
  the client imports what arrives (\<open>ConsumerGrant::from_parts\<close>, \<open>ArenaConsumer::from_grant\<close> and
  \<open>ConfigurationGrant::from_parts\<close>) and installs it.  Messages are values.  What the operating system
  answers (the process watch, new channels, cloned and received descriptors, the marker that ends a transfer)
  is an argument.  The shared pages live in the arena, where both sides reach them.
\<close>

section \<open>Messages and objects\<close>

record configuration_descriptor =
  cd_version :: u64
  cd_generation :: u64
  cd_incarnation :: u64
  cd_payload_capacity :: u64
  cd_resource_map_len :: u64
  cd_arena_scope :: bytes
  cd_claim_scope :: bytes
  cd_recipient_pid :: u32
  cd_mapping_slot :: u32
  cd_resources :: u32
  cd_history :: u32

datatype setup_request = AttachRequest u32 | ConfigurationRequest

datatype setup_response =
    AttachedResponse grant_descriptor
  | ConfigurationResponse configuration_descriptor
  | EmptyResponse
  | RejectedResponse string

text \<open>What a transferred descriptor refers to.  A mapping is known by its header, which never changes after
  creation; a payload mapping by the generation of its allocation, a channel end by its incarnation.\<close>

datatype setup_object =
    ControlObject control_header
  | ResourceObject resource_header
  | ClaimObject claim_header
  | ReaderObject incarnation_id
  | WriterObject incarnation_id
  | PayloadObject u64

datatype socket_error =
    SocketIo io_error
  | SocketMessage string
  | SocketArena arena_error
  | Protocol string
  | Rejected string

primrec arena_failure :: "('a, arena_error) outcome \<Rightarrow> ('a, socket_error) outcome" where
  "arena_failure (Ok x) = Ok x"
| "arena_failure (Err error) = Err (SocketArena error)"
| "arena_failure Panic = Panic"

section \<open>Replacement grants\<close>

text \<open>\<open>ConfigurationGrant::into_parts\<close>: a grant of an incarnation without a process is dropped.\<close>

definition configuration_into_parts ::
    "configuration_grant \<Rightarrow> claim_map \<Rightarrow> (configuration_descriptor, arena_error) outcome \<times> claim_map" where
  "configuration_into_parts g c =
     (if cm_recipient_pid c = 0
      then (Err (Configuration ''replacement export requires a process-bound incarnation''), drop_configuration g c)
      else (Ok \<lparr> cd_version = VERSION, cd_generation = cg_generation g, cd_incarnation = incarnation_raw (cm_incarnation c),
                 cd_payload_capacity = payload_capacity (cg_layout g), cd_resource_map_len = map_len (cg_layout g),
                 cd_arena_scope = cg_arena_scope g, cd_claim_scope = cm_scope c, cd_recipient_pid = cm_recipient_pid c,
                 cd_mapping_slot = of_nat (cg_mapping_slot g), cd_resources = ucast (resources (cg_layout g)),
                 cd_history = ucast (history (cg_layout g)) \<rparr>, c))"

text \<open>The consumer: the identity of its control mapping and claim page, its current resources with their
  mapping slot, and the mappings that earlier leases still keep.\<close>

record arena_consumer =
  con_incarnation :: incarnation_id
  con_claim_scope :: bytes
  con_arena_scope :: bytes
  con_history :: usize
  con_resources :: "(u64 \<times> nat) option"
  con_retained :: "(u64 \<times> nat) list"

definition configuration_from_parts ::
    "usize \<Rightarrow> u32 \<Rightarrow> arena_consumer \<Rightarrow> claim_map \<Rightarrow> configuration_descriptor \<Rightarrow> (configuration_grant, arena_error) outcome" where
  "configuration_from_parts page own_pid con c d =
     (if cd_version d \<noteq> VERSION \<or> cd_generation d = 0 \<or> cd_arena_scope d \<noteq> con_arena_scope con \<or>
         cd_claim_scope d \<noteq> cm_scope c \<or> cd_incarnation d \<noteq> incarnation_raw (cm_incarnation c) \<or>
         cd_recipient_pid d \<noteq> own_pid \<or> cd_recipient_pid d \<noteq> cm_recipient_pid c
      then Err (Mapping ''replacement grant belongs to another arena, incarnation, or process'')
      else if cm_frames c + 2 \<le> unat (cd_mapping_slot d) \<or> mapping_slots c ! unat (cd_mapping_slot d) \<noteq> cd_generation d \<or>
         w_offered c \<noteq> cd_generation d
      then Err (Mapping ''replacement grant disagrees with outstanding offer'')
      else
        and_then (resource_layout_new page (ucast (cd_resources d)) (ucast (cd_history d)) (cd_payload_capacity d)) (\<lambda>l.
        if history l \<noteq> con_history con \<or> map_len l \<noteq> cd_resource_map_len d
        then Err (Mapping ''replacement mapping layout disagrees with setup'')
        else Ok \<lparr> cg_layout = l, cg_generation = cd_generation d, cg_arena_scope = cd_arena_scope d,
                  cg_claim_scope = cm_scope c, cg_incarnation = cm_incarnation c,
                  cg_mapping_slot = unat (cd_mapping_slot d) \<rparr>))"

section \<open>A consumer from a grant\<close>

text \<open>\<open>from_grant_with_resources\<close> without an attachment: \<open>os\<close> is what the operating system answers when the
  mappings are made, the receiver is opened and the retirement thread is started.\<close>

definition from_grant ::
    "usize \<Rightarrow> (unit, arena_error) outcome \<Rightarrow> control_header \<Rightarrow> resource_header \<Rightarrow> claim_header \<Rightarrow> consumer_grant \<Rightarrow>
     claim_map \<Rightarrow> (arena_consumer, arena_error) outcome \<times> claim_map" where
  "from_grant page os kh rh ch g c =
     (case and_then (control_allocation_len page (history (gr_layout g))) (\<lambda>control_len.
           and_then (control_header_check kh (history (gr_layout g)) control_len (gr_arena_scope g)) (\<lambda>_.
           and_then (resource_header_check rh (gr_layout g) (kh_scope kh) (gr_generation g)) (\<lambda>_.
           and_then (claim_allocation_len page (of_nat (cm_frames c))) (\<lambda>claim_len.
           and_then (claim_header_check ch (incarnation_raw (cm_incarnation c)) (of_nat (cm_frames c)) claim_len (cm_recipient_pid c)) (\<lambda>scope.
           and_then os (\<lambda>_. Ok scope)))))) of
        Ok scope \<Rightarrow>
          (Ok \<lparr> con_incarnation = cm_incarnation c, con_claim_scope = scope, con_arena_scope = kh_scope kh,
                con_history = history (gr_layout g), con_resources = Some (gr_generation g, gr_mapping_slot g),
                con_retained = [] \<rparr>, c\<lparr> w_offered := 0 \<rparr>)
      | Err error \<Rightarrow> (Err error, drop_grant g c)
      | Panic \<Rightarrow> (Panic, drop_grant g c))"

section \<open>The server\<close>

record server_session =
  ss_incarnation :: "incarnation_id option"
  ss_bell :: bool

text \<open>What the operating system answers while one request is served: the watch of the peer process, the
  channels and mappings of a new incarnation, the producer's channel end, the cloned descriptors.\<close>

record reply_env =
  re_env :: env
  re_watch :: "(nat, arena_error) outcome"
  re_setup :: "(claim_setup, arena_error) outcome"
  re_endpoint :: "(unit, arena_error) outcome"
  re_fds :: "(unit, arena_error) outcome"

definition on_page :: "incarnation_id \<Rightarrow> (claim_map \<Rightarrow> claim_map) \<Rightarrow> arena \<Rightarrow> arena" where
  "on_page i f a = a\<lparr> ar_claims := alist_map_value i f (ar_claims a) \<rparr>"

definition ring_bell :: "bool \<Rightarrow> claim_map \<Rightarrow> claim_map" where
  "ring_bell b c = (if b \<and> cm_bell c = None then c\<lparr> cm_bell := Some 0 \<rparr> else c)"

text \<open>\<open>ConsumerGrant::into_parts\<close> with its objects in their order; a grant whose producer endpoint cannot be
  made is dropped, one whose control length overflows is not.\<close>

definition grant_into_parts ::
    "usize \<Rightarrow> (unit, arena_error) outcome \<Rightarrow> consumer_grant \<Rightarrow> claim_map \<Rightarrow>
     (grant_descriptor \<times> setup_object list, arena_error) outcome \<times> claim_map" where
  "grant_into_parts page endpoint g c =
     (case endpoint of
        Err error \<Rightarrow> (Err error, drop_grant g c)
      | Panic \<Rightarrow> (Panic, drop_grant g c)
      | Ok _ \<Rightarrow>
        (case and_then (claim_allocation_len page (of_nat (cm_frames c))) (\<lambda>claim_len.
              and_then (control_allocation_len page (history (gr_layout g))) (\<lambda>control_len.
              and_then (into_parts page claim_len g c) (\<lambda>d.
              Ok (d, [ControlObject (control_header_new (history (gr_layout g)) control_len (gr_arena_scope g)),
                      ResourceObject (resource_header_new (gr_layout g) (gr_arena_scope g) (gr_generation g)),
                      ClaimObject (claim_header_new (cm_incarnation c) (of_nat (cm_frames c)) claim_len (cm_scope c) (cm_recipient_pid c)),
                      ReaderObject (cm_incarnation c), WriterObject (cm_incarnation c), PayloadObject (gr_generation g)])))) of
           r \<Rightarrow> (r, c)))"

definition reply_attach ::
    "usize \<Rightarrow> u32 \<Rightarrow> reply_env \<Rightarrow> u32 \<Rightarrow> server_session \<Rightarrow> arena \<Rightarrow>
     (setup_response \<times> setup_object list, socket_error) outcome \<times> server_session \<times> arena" where
  "reply_attach page peer re holding s a =
     (if ss_incarnation s \<noteq> None then (Err (Protocol ''connection already attached''), s, a)
      else case re_watch re of
        Err error \<Rightarrow> (Err (SocketArena error), s, a)
      | Panic \<Rightarrow> (Panic, s, a)
      | Ok process \<Rightarrow>
        (case attach_with_recipient (re_env re) page holding peer (Some process) (re_setup re) a of
           (Err error, a1) \<Rightarrow> (Err (SocketArena error), s, a1)
         | (Panic, a1) \<Rightarrow> (Panic, s, a1)
         | (Ok g, a1) \<Rightarrow>
           let i = gr_incarnation g;
               a2 = on_page i (ring_bell (ss_bell s)) a1;
               s1 = \<lparr> ss_incarnation = Some i, ss_bell = False \<rparr>
           in (case map_of (ar_claims a2) i of
                 None \<Rightarrow> (Panic, s1, a2)
               | Some c \<Rightarrow>
                 (case grant_into_parts page (re_endpoint re) g c of
                    (r, c') \<Rightarrow>
                      (map_outcome_ok (\<lambda>(d, objects). (AttachedResponse d, objects)) (arena_failure r), s1,
                       on_page i (\<lambda>_. c') a2)))))"

definition reply_configuration ::
    "reply_env \<Rightarrow> server_session \<Rightarrow> arena \<Rightarrow>
     (setup_response \<times> setup_object list, socket_error) outcome \<times> server_session \<times> arena" where
  "reply_configuration re s a =
     (case ss_incarnation s of
        None \<Rightarrow> (Err (Protocol ''configuration requires attachment''), s, a)
      | Some i \<Rightarrow>
        (case configuration_offer (re_fds re) i a of
           (Err error, a1) \<Rightarrow> (Err (SocketArena error), s, a1)
         | (Panic, a1) \<Rightarrow> (Panic, s, a1)
         | (Ok None, a1) \<Rightarrow> (Ok (EmptyResponse, []), s, a1)
         | (Ok (Some g), a1) \<Rightarrow>
           (case map_of (ar_claims a1) i of
              None \<Rightarrow> (Panic, s, a1)
            | Some c \<Rightarrow>
              (case configuration_into_parts g c of
                 (r, c') \<Rightarrow>
                   (map_outcome_ok (\<lambda>d. (ConfigurationResponse d,
                       [ResourceObject (resource_header_new (cg_layout g) (cg_arena_scope g) (cg_generation g)),
                        PayloadObject (cg_generation g)])) (arena_failure r), s,
                    on_page i (\<lambda>_. c') a1)))))"

fun session_reply ::
    "usize \<Rightarrow> u32 \<Rightarrow> reply_env \<Rightarrow> setup_request \<Rightarrow> server_session \<Rightarrow> arena \<Rightarrow>
     (setup_response \<times> setup_object list, socket_error) outcome \<times> server_session \<times> arena" where
  "session_reply page peer re (AttachRequest holding) s a = reply_attach page peer re holding s a"
| "session_reply page peer re ConfigurationRequest s a = reply_configuration re s a"

text \<open>One round of \<open>serve_cpu_with_doorbell\<close> up to the reply that is written: an error becomes a rejection.
  \<open>show_error\<close> is the formatting of errors.\<close>

definition serve_request ::
    "(socket_error \<Rightarrow> string) \<Rightarrow> usize \<Rightarrow> u32 \<Rightarrow> reply_env \<Rightarrow> setup_request \<Rightarrow> server_session \<Rightarrow> arena \<Rightarrow>
     (setup_response \<times> setup_object list, socket_error) outcome \<times> server_session \<times> arena" where
  "serve_request show_error page peer re req s a =
     (case session_reply page peer re req s a of
        (Err error, s', a') \<Rightarrow> (Ok (RejectedResponse (show_error error), []), s', a')
      | x \<Rightarrow> x)"

text \<open>\<open>Drop for ServerSession\<close>: the incarnation is closed, whatever \<open>close\<close> answers.\<close>

definition drop_session :: "server_session \<Rightarrow> arena \<Rightarrow> arena" where
  "drop_session s a = (case ss_incarnation s of None \<Rightarrow> a | Some i \<Rightarrow> snd (arena_close i a))"

section \<open>The client\<close>

record setup_client =
  sc_identity :: "(incarnation_id \<times> bytes) option"
  sc_failed :: bool

definition client_fail :: "setup_client \<Rightarrow> setup_client" where
  "client_fail cl = cl\<lparr> sc_failed := True \<rparr>"

definition object_count :: "setup_response \<Rightarrow> nat" where
  "object_count r = (case r of AttachedResponse _ \<Rightarrow> 6 | ConfigurationResponse _ \<Rightarrow> 2 | _ \<Rightarrow> 0)"

text \<open>\<open>receive_objects\<close>: the descriptors that arrive, marking them close-on-exec, and the byte that says that
  the sender has dropped its copies.\<close>

definition TRANSFER_FINISHED :: u8 where "TRANSFER_FINISHED = 1"

definition receive_objects ::
    "nat \<Rightarrow> (setup_object list, socket_error) outcome \<Rightarrow> (unit, io_error) outcome \<Rightarrow> (u8, io_error) outcome \<Rightarrow>
     (setup_object list, socket_error) outcome" where
  "receive_objects n fds cloexec marker =
     and_then fds (\<lambda>objects.
       if length objects \<noteq> n then Err (Protocol ''incorrect setup FD count'')
       else case cloexec of
         Err error \<Rightarrow> Err (SocketIo error)
       | Panic \<Rightarrow> Panic
       | Ok _ \<Rightarrow>
         (case marker of
            Err error \<Rightarrow> Err (SocketIo error)
          | Panic \<Rightarrow> Panic
          | Ok b \<Rightarrow> if b \<noteq> TRANSFER_FINISHED then Err (Protocol ''sender did not finish transfer'') else Ok objects))"

text \<open>\<open>request\<close>, given what writing the request, reading the reply (\<open>None\<close> at the end of the stream) and
  receiving that many objects answered.\<close>

definition client_request ::
    "(unit, socket_error) outcome \<Rightarrow> (setup_response option, socket_error) outcome \<Rightarrow>
     (nat \<Rightarrow> (setup_object list, socket_error) outcome) \<Rightarrow> setup_client \<Rightarrow>
     (setup_response \<times> setup_object list, socket_error) outcome \<times> setup_client" where
  "client_request written reply objects cl =
     (if sc_failed cl then (Err (Protocol ''connection failed''), cl)
      else case and_then written (\<lambda>_.
             and_then reply (\<lambda>r.
             and_then (ok_or (Protocol ''missing reply'') r) (\<lambda>response.
             map_outcome_ok (Pair response) (if object_count response = 0 then Ok [] else objects (object_count response))))) of
        Ok (RejectedResponse message, _) \<Rightarrow> (Err (Rejected message), cl)
      | Ok x \<Rightarrow> (Ok x, cl)
      | Err error \<Rightarrow> (Err error, client_fail cl)
      | Panic \<Rightarrow> (Panic, cl))"

text \<open>What the importing process sees: its clock, and what the operating system answers when \<open>from_parts\<close>
  imports the channels and maps the claim page (\<open>ie_map\<close>) and when the consumer is built or a replacement is
  mapped (\<open>ie_os\<close>).  An import that fails its checks and whose mapping fails too reports the check.\<close>

record import_env =
  ie_env :: env
  ie_map :: "(unit, arena_error) outcome"
  ie_os :: "(unit, arena_error) outcome"

text \<open>The import of \<open>attach\<close>: the six objects in the order of \<open>into_parts\<close>; the claim page is the arena's
  page of the incarnation that its header names.\<close>

definition import_attachment ::
    "usize \<Rightarrow> u32 \<Rightarrow> import_env \<Rightarrow> setup_response \<Rightarrow> setup_object list \<Rightarrow> arena \<Rightarrow>
     (arena_consumer, socket_error) outcome \<times> arena" where
  "import_attachment page own_pid ie reply fds a =
     (case reply of
        AttachedResponse d \<Rightarrow>
          if gd_payload_capacity d = 0 then (Err (Protocol ''CPU setup cannot import native resources''), a)
          else (case fds of
            [ControlObject kh, ResourceObject rh, ClaimObject ch, ReaderObject _, WriterObject _, PayloadObject _] \<Rightarrow>
              (case map_of (ar_claims a) (IncarnationId (ch_incarnation ch)) of
                 None \<Rightarrow> (Err (SocketArena (Storage ''no claim page'')), a)
               | Some c \<Rightarrow>
                 (case from_parts (ie_env ie) page own_pid d ch c of
                    Err error \<Rightarrow> (Err (SocketArena error), a)
                  | Panic \<Rightarrow> (Panic, a)
                  | Ok g \<Rightarrow>
                    (case ie_map ie of
                       Err error \<Rightarrow> (Err (SocketArena error), a)
                     | Panic \<Rightarrow> (Panic, a)
                     | Ok _ \<Rightarrow>
                       (case from_grant page (ie_os ie) kh rh ch g c of
                          (r, c') \<Rightarrow> (arena_failure r, on_page (IncarnationId (ch_incarnation ch)) (\<lambda>_. c') a)))))
          | _ \<Rightarrow> (Err (Protocol ''initial setup requires six FDs''), a))
      | _ \<Rightarrow> (Err (Protocol ''unexpected attach reply''), a))"

definition attach_begin :: "setup_client \<Rightarrow> (unit, socket_error) outcome" where
  "attach_begin cl =
     (if sc_identity cl \<noteq> None then Err (Protocol ''connection already attached'') else Ok ())"

definition attach_finish ::
    "usize \<Rightarrow> u32 \<Rightarrow> import_env \<Rightarrow> (setup_response \<times> setup_object list, socket_error) outcome \<times> setup_client \<Rightarrow> arena \<Rightarrow>
     (arena_consumer, socket_error) outcome \<times> setup_client \<times> arena" where
  "attach_finish page own_pid ie answer a =
     (case answer of
        (Err error, cl) \<Rightarrow> (Err error, cl, a)
      | (Panic, cl) \<Rightarrow> (Panic, cl, a)
      | (Ok (reply, fds), cl) \<Rightarrow>
        (case import_attachment page own_pid ie reply fds a of
           (Ok con, a') \<Rightarrow> (Ok con, cl\<lparr> sc_identity := Some (con_incarnation con, con_claim_scope con) \<rparr>, a')
         | (Err error, a') \<Rightarrow> (Err error, client_fail cl, a')
         | (Panic, a') \<Rightarrow> (Panic, cl, a')))"

text \<open>\<open>CpuSetupClient::attach\<close> as a whole.\<close>

definition client_attach ::
    "usize \<Rightarrow> u32 \<Rightarrow> import_env \<Rightarrow> (unit, socket_error) outcome \<Rightarrow> (setup_response option, socket_error) outcome \<Rightarrow>
     (nat \<Rightarrow> (setup_object list, socket_error) outcome) \<Rightarrow> setup_client \<Rightarrow> arena \<Rightarrow>
     (arena_consumer, socket_error) outcome \<times> setup_client \<times> arena" where
  "client_attach page own_pid ie written reply objects cl a =
     (case attach_begin cl of
        Ok _ \<Rightarrow> attach_finish page own_pid ie (client_request written reply objects cl) a
      | Err error \<Rightarrow> (Err error, cl, a)
      | Panic \<Rightarrow> (Panic, cl, a))"

text \<open>\<open>is_configured\<close> of a consumer, and the checks of \<open>install_configuration\<close> before its request.\<close>

definition con_configured :: "arena_consumer \<Rightarrow> control_map \<Rightarrow> bool" where
  "con_configured con ctl = (case con_resources con of Some (g, _) \<Rightarrow> g = w_configuration ctl | None \<Rightarrow> False)"

definition install_begin :: "setup_client \<Rightarrow> arena_consumer \<Rightarrow> arena \<Rightarrow> (bool, socket_error) outcome" where
  "install_begin cl con a =
     (if sc_identity cl \<noteq> Some (con_incarnation con, con_claim_scope con)
      then Err (Protocol ''consumer belongs to another connection'')
      else Ok (\<not> con_configured con (ar_control a)))"

text \<open>\<open>ArenaConsumer::install_configuration\<close> on the consumer: new resources replace the current ones, which
  leases may still keep.  \<open>os\<close> is the answer to mapping the two descriptors, which is asked for only when the
  grant is this consumer's and nothing is closed.\<close>

definition install_offer ::
    "(unit, arena_error) outcome \<Rightarrow> resource_header \<Rightarrow> configuration_grant \<Rightarrow> arena_consumer \<Rightarrow> control_map \<Rightarrow> claim_map \<Rightarrow>
     (configuration_install, arena_error) outcome \<times> arena_consumer \<times> claim_map" where
  "install_offer os rh g con ctl c =
     (case if cg_arena_scope g \<noteq> ctl_scope ctl \<or> cg_claim_scope g \<noteq> cm_scope c \<or> is_closed ctl c then Ok () else os of
        Err error \<Rightarrow> (Err error, con, drop_configuration g c)
      | Panic \<Rightarrow> (Panic, con, drop_configuration g c)
      | Ok _ \<Rightarrow>
        (case install_with_resources ctl g rh (resource_map_new (cg_layout g) (cg_generation g)) c of
           (Ok (answer, Some res), c') \<Rightarrow>
             (Ok answer, con\<lparr> con_resources := Some (rm_generation (cs_map res), cs_mapping_slot res),
                con_retained := (case con_resources con of Some x \<Rightarrow> x # con_retained con | None \<Rightarrow> con_retained con) \<rparr>, c')
         | (Ok (answer, None), c') \<Rightarrow> (Ok answer, con, c')
         | (Err error, c') \<Rightarrow> (Err error, con, c')
         | (Panic, c') \<Rightarrow> (Panic, con, c')))"

definition import_configuration ::
    "usize \<Rightarrow> u32 \<Rightarrow> import_env \<Rightarrow> setup_response \<Rightarrow> setup_object list \<Rightarrow> arena_consumer \<Rightarrow> arena \<Rightarrow>
     (configuration_install option, socket_error) outcome \<times> arena_consumer \<times> arena" where
  "import_configuration page own_pid ie reply fds con a =
     (case reply of
        EmptyResponse \<Rightarrow> (Ok None, con, a)
      | ConfigurationResponse d \<Rightarrow>
          if cd_payload_capacity d = 0 \<or> length fds \<noteq> 2
          then (Err (Protocol ''invalid CPU configuration resources''), con, a)
          else (case fds of
            [ResourceObject rh, PayloadObject _] \<Rightarrow>
              (case map_of (ar_claims a) (con_incarnation con) of
                 None \<Rightarrow> (Err (SocketArena (Storage ''no claim page'')), con, a)
               | Some c \<Rightarrow>
                 (case configuration_from_parts page own_pid con c d of
                    Err error \<Rightarrow> (Err (SocketArena error), con, a)
                  | Panic \<Rightarrow> (Panic, con, a)
                  | Ok g \<Rightarrow>
                    (case install_offer (ie_os ie) rh g con (ar_control a) c of
                       (r, con', c') \<Rightarrow>
                         (map_outcome_ok Some (arena_failure r), con', on_page (con_incarnation con) (\<lambda>_. c') a))))
          | _ \<Rightarrow> (Err (SocketArena (Storage ''wrong object'')), con, a))
      | _ \<Rightarrow> (Err (Protocol ''unexpected configuration reply''), con, a))"

definition install_finish ::
    "usize \<Rightarrow> u32 \<Rightarrow> import_env \<Rightarrow> (setup_response \<times> setup_object list, socket_error) outcome \<times> setup_client \<Rightarrow>
     arena_consumer \<Rightarrow> arena \<Rightarrow>
     (configuration_install option, socket_error) outcome \<times> setup_client \<times> arena_consumer \<times> arena" where
  "install_finish page own_pid ie answer con a =
     (case answer of
        (Err error, cl) \<Rightarrow> (Err error, cl, con, a)
      | (Panic, cl) \<Rightarrow> (Panic, cl, con, a)
      | (Ok (reply, fds), cl) \<Rightarrow>
        (case import_configuration page own_pid ie reply fds con a of
           (Ok r, con', a') \<Rightarrow> (Ok r, cl, con', a')
         | (Err error, con', a') \<Rightarrow> (Err error, client_fail cl, con', a')
         | (Panic, con', a') \<Rightarrow> (Panic, cl, con', a')))"

text \<open>\<open>CpuSetupClient::install_configuration\<close> as a whole.\<close>

definition client_install ::
    "usize \<Rightarrow> u32 \<Rightarrow> import_env \<Rightarrow> (unit, socket_error) outcome \<Rightarrow> (setup_response option, socket_error) outcome \<Rightarrow>
     (nat \<Rightarrow> (setup_object list, socket_error) outcome) \<Rightarrow> setup_client \<Rightarrow> arena_consumer \<Rightarrow> arena \<Rightarrow>
     (configuration_install option, socket_error) outcome \<times> setup_client \<times> arena_consumer \<times> arena" where
  "client_install page own_pid ie written reply objects cl con a =
     (case install_begin cl con a of
        Ok False \<Rightarrow> (Ok None, cl, con, a)
      | Ok True \<Rightarrow> install_finish page own_pid ie (client_request written reply objects cl) con a
      | Err error \<Rightarrow> (Err error, cl, con, a)
      | Panic \<Rightarrow> (Panic, cl, con, a))"

section \<open>A consumer in the producer's own process\<close>

text \<open>\<open>ArenaProducer::configure_consumer\<close>: an offer that is made and installed without a transfer.\<close>

definition configure_consumer ::
    "(unit, arena_error) outcome \<Rightarrow> (unit, arena_error) outcome \<Rightarrow> arena_consumer \<Rightarrow> arena \<Rightarrow>
     (configuration_install option, arena_error) outcome \<times> arena_consumer \<times> arena" where
  "configure_consumer fds os con a =
     (case map_of (ar_claims a) (con_incarnation con) of
        None \<Rightarrow> (Err (Configuration ''consumer belongs to another producer''), con, a)
      | Some c \<Rightarrow>
        if con_arena_scope con \<noteq> ctl_scope (ar_control a) \<or> cm_scope c \<noteq> con_claim_scope con
        then (Err (Configuration ''consumer belongs to another producer''), con, a)
        else if is_closed (ar_control a) c then (Err ArenaClosed, con, a)
        else if con_configured con (ar_control a) then (Ok None, con, a)
        else (case configuration_offer fds (con_incarnation con) a of
            (Err error, a1) \<Rightarrow> (Err error, con, a1)
          | (Panic, a1) \<Rightarrow> (Panic, con, a1)
          | (Ok None, a1) \<Rightarrow> (Ok None, con, a1)
          | (Ok (Some g), a1) \<Rightarrow>
            (case map_of (ar_claims a1) (con_incarnation con) of
               None \<Rightarrow> (Panic, con, a1)
             | Some c1 \<Rightarrow>
               (case install_offer os (resource_header_new (cg_layout g) (cg_arena_scope g) (cg_generation g)) g con (ar_control a1) c1 of
                  (r, con', c') \<Rightarrow> (map_outcome_ok Some r, con', on_page (con_incarnation con) (\<lambda>_. c') a1)))))"

text \<open>A local consumer that is open, not configured and without an outstanding offer is configured by one call,
  as long as a mapping slot is free.\<close>

lemma configure_consumer_installs:
  assumes "ar_resources a = Some m" "rm_generation m = w_configuration (ar_control a)" "rm_generation m \<noteq> 0"
    and "map_of (ar_claims a) (con_incarnation con) = Some c" "con_arena_scope con = ctl_scope (ar_control a)" "cm_scope c = con_claim_scope con"
    and "\<not> is_closed (ar_control a) c" "\<not> con_configured con (ar_control a)" "w_offered c = 0"
    and "find (\<lambda>s. mapping_slots c ! s = 0) [0..<cm_frames c + 2] = Some s"
  shows "\<exists>a'. configure_consumer (Ok ()) (Ok ()) con a = (Ok (Some Installed), con\<lparr> con_resources := Some (rm_generation m, s),
     con_retained := (case con_resources con of Some x \<Rightarrow> x # con_retained con | None \<Rightarrow> con_retained con) \<rparr>, a') \<and>
     ar_control a' = ar_control a"
  using assms
  by (simp add: configure_consumer_def configuration_offer_def is_closed_def Let_def map_of_alist_map_value install_offer_def
      install_with_resources_def resource_header_check_def resource_header_new_def resource_map_new_def on_page_def)

end
