(* ===== verification/Setup_Frame.thy ===== *)
theory Setup_Frame
  imports Setup_Channel
begin

text \<open>
  What no operation of the producer takes away from an incarnation whose process lives: its claim page, the
  page's identity, the mapping slots and the outstanding offer.  This is what a grant or an offer on its way
  to the process relies on.
\<close>

section \<open>Pages\<close>

definition page_view :: "claim_map \<Rightarrow> incarnation_id \<times> nat \<times> bytes \<times> u32 \<times> u64 \<times> u64 list" where
  "page_view c = (cm_incarnation c, cm_frames c, cm_scope c, cm_recipient_pid c, w_offered c, mapping_slots c)"

definition keeps_page :: "claim_map \<Rightarrow> claim_map \<Rightarrow> bool" where
  "keeps_page c c' \<longleftrightarrow> page_view c' = page_view c \<and> w_quiescent c' = w_quiescent c \<and> (w_active c = 0 \<longrightarrow> w_active c' = 0)"

definition held_page ::
    "incarnation_id \<Rightarrow> nat \<Rightarrow> claim_map \<Rightarrow> (incarnation_id \<times> claim_map) list \<Rightarrow> (incarnation_id \<times> observation) list \<Rightarrow> bool" where
  "held_page i p c0 cs os \<longleftrightarrow>
     (\<exists>c st. map_of cs i = Some c \<and> keeps_page c0 c \<and> w_quiescent c0 = 0 \<and>
       map_of os i = Some st \<and> os_process st \<in> {None, Some p})"

abbreviation holds_page :: "incarnation_id \<Rightarrow> nat \<Rightarrow> claim_map \<Rightarrow> arena \<Rightarrow> bool" where
  "holds_page i p c0 a \<equiv> held_page i p c0 (ar_claims a) (ar_observers a)"

lemma keeps_page_refl [simp]: "keeps_page c c"
  by (simp add: keeps_page_def)

lemma keeps_page_trans: "keeps_page a b \<Longrightarrow> keeps_page b c \<Longrightarrow> keeps_page a c"
  by (simp add: keeps_page_def)

lemma keeps_page_signal [simp]: "keeps_page c (snd (claim_signal c k))"
  by (auto simp: keeps_page_def page_view_def claim_signal_def Let_def split: prod.split outcome.split)

lemma keeps_page_close [simp]: "keeps_page c (claim_close c)"
  by (simp add: keeps_page_def page_view_def)

lemma keeps_page_credit [simp]: "keeps_page c (return_credit c k)"
proof -
  have "w_active c = 0 \<Longrightarrow> w_active (return_credit c k) = 0"
    using keeps_page_signal by (auto simp: return_credit_def Let_def keeps_page_def)
  then show ?thesis by (simp add: keeps_page_def page_view_def)
qed

lemma keeps_page_drained: "keeps_page c0 c \<Longrightarrow> w_quiescent c0 = 0 \<Longrightarrow> \<not> claim_drained c"
  by (simp add: keeps_page_def claim_drained_def)

lemma held_page_claims:
  assumes "held_page i p c0 cs os" "\<And>c. map_of cs i = Some c \<Longrightarrow> \<exists>c'. map_of cs' i = Some c' \<and> keeps_page c c'"
  shows "held_page i p c0 cs' os"
  using assms keeps_page_trans unfolding held_page_def by blast

lemma held_page_upd:
  assumes "held_page i p c0 cs os" "\<And>c. map_of cs i = Some c \<Longrightarrow> i = j \<Longrightarrow> keeps_page c (f c)"
  shows "held_page i p c0 (alist_map_value j f cs) os"
  by (rule held_page_claims [OF assms(1)]) (use assms(2) in \<open>auto simp: map_of_alist_map_value\<close>)

section \<open>Cleanup\<close>

lemma keeps_page_exit_free:
  assumes "os_process st \<in> {None, Some p}" "exited e p \<noteq> Ok True" "observe_process e (st, c) = (st', c')"
  shows "keeps_page c c'" "os_process st' \<in> {None, Some p}"
  using assms by (auto simp: observe_process_def os_fail_notification_def os_fail_def split: option.splits outcome.splits bool.splits)

lemma keeps_page_deadline:
  assumes "observe_deadline e (st, c) = (st', c')"
  shows "keeps_page c c'" "os_process st' = os_process st"
  using assms by (auto simp: observe_deadline_def os_fail_def Let_def split: option.splits if_splits)

lemma keeps_page_slot:
  assumes "observe_slot e k (st, c) = (b, st', c')"
  shows "keeps_page c c'" "os_process st' = os_process st"
  using assms by (auto simp: observe_slot_def os_fail_def os_return_credit_def Let_def split: outcome.splits if_splits)

lemma keeps_page_slots:
  "observe_slots e ks (st, c) = (st', c') \<Longrightarrow> keeps_page c c' \<and> os_process st' = os_process st"
proof (induction ks arbitrary: st c)
  case (Cons k ks)
  obtain b s1 c1 where o: "observe_slot e k (st, c) = (b, s1, c1)" by (metis surj_pair)
  show ?case using Cons.prems Cons.IH [of s1 c1] keeps_page_slot [OF o] o keeps_page_trans [of c c1] by (cases b) auto
qed simp

lemma keeps_page_poll:
  assumes "os_process st \<in> {None, Some p}" "exited e p \<noteq> Ok True" "observation_poll e (st, c) = (st', c')"
  shows "keeps_page c c' \<and> os_process st' \<in> {None, Some p}"
proof -
  obtain s1 c1 s2 c2 where o: "observe_process e (st, c) = (s1, c1)" "observe_deadline e (s1, c1) = (s2, c2)" by (metis surj_pair)
  have k: "keeps_page c c2" "os_process s2 \<in> {None, Some p}"
    using keeps_page_exit_free [OF assms(1,2) o(1)] keeps_page_deadline [OF o(2)] keeps_page_trans [of c c1 c2] by auto
  show ?thesis
    using assms(3) k keeps_page_slots [of e "[0..<cm_frames c2]" s2 c2 st' c'] keeps_page_trans [of c c2 c']
    by (auto simp: observation_poll_def o Let_def split: if_splits)
qed

lemma held_poll_observer:
  assumes "holds_page i p c0 (snd x)" "exited e p \<noteq> Ok True"
  shows "holds_page i p c0 (snd (poll_observer e j x))"
proof -
  obtain n a where x: "x = (n, a)" by (cases x)
  obtain c st where h: "map_of (ar_claims a) i = Some c" "map_of (ar_observers a) i = Some st" "os_process st \<in> {None, Some p}"
    "keeps_page c0 c" "w_quiescent c0 = 0"
    using assms(1) by (auto simp: held_page_def x)
  show ?thesis
  proof (cases "j = i")
    case True
    obtain st' c' where o: "observation_poll e (st, c) = (st', c')" by (metis surj_pair)
    then show ?thesis
      using keeps_page_poll [OF h(3) assms(2) o] h keeps_page_trans [of c0 c c']
      by (auto simp: x True poll_observer_def held_page_def map_of_alist_map_value)
  next
    case False
    then show ?thesis using h by (auto simp: x poll_observer_def held_page_def map_of_alist_map_value split: option.split prod.split)
  qed
qed

lemma held_fold_observer:
  "holds_page i p c0 (snd x) \<Longrightarrow> exited e p \<noteq> Ok True \<Longrightarrow> holds_page i p c0 (snd (fold (poll_observer e) js x))"
  by (induction js arbitrary: x) (simp_all add: held_poll_observer)

lemma held_collect_quiescent:
  assumes "holds_page i p c0 a" "\<And>c. (i, c) \<in> set es \<Longrightarrow> \<not> claim_drained c"
  shows "holds_page i p c0 (snd (collect_quiescent es a))"
  using assms
proof (induction es arbitrary: a)
  case (Cons x es)
  obtain j c where x: "x = (j, c)" by (cases x)
  have rest: "\<And>c. (i, c) \<in> set es \<Longrightarrow> \<not> claim_drained c" using Cons.prems(2) by auto
  show ?case
  proof (cases "claim_drained c")
    case False
    then show ?thesis using Cons.IH [OF Cons.prems(1) rest] by (simp add: x)
  next
    case True
    then have ne: "j \<noteq> i" using Cons.prems(2) x by auto
    have "holds_page i p c0 (a\<lparr> ar_admission := b, ar_claims := bt_remove j (ar_claims a), ar_observers := bt_remove j (ar_observers a) \<rparr>)" for b
      using Cons.prems(1) ne by (auto simp: held_page_def map_of_bt_remove)
    then show ?thesis using Cons.prems(1) Cons.IH [OF _ rest] True by (auto simp: x split: prod.split outcome.split)
  qed
qed simp

lemma collect_retired_pages:
  "ar_claims (snd (collect_retired_allocations e k a)) = ar_claims a \<and>
   ar_observers (snd (collect_retired_allocations e k a)) = ar_observers a"
proof (induction e k a rule: collect_retired_allocations.induct)
  case (1 e k a)
  show ?case
    using 1 by (subst (1 2) collect_retired_allocations.simps) (auto simp: Let_def split: outcome.splits prod.splits bool.splits)
qed

lemma held_poll_cleanup:
  assumes "arena_inv a" "holds_page i p c0 a" "exited e p \<noteq> Ok True"
  shows "holds_page i p c0 (snd (poll_cleanup e a))"
proof -
  obtain n a1 where f: "fold (poll_observer e) (map fst (ar_observers a)) (0, a) = (n, a1)" by (metis surj_pair)
  have h: "holds_page i p c0 a1" using held_fold_observer [of i p c0 "(0, a)" e "map fst (ar_observers a)"] assms f by simp
  have inv: "arena_inv a1" using fold_poll_observer_inv [of "(0, a)" e "map fst (ar_observers a)"] assms(1) f by simp
  have d: "distinct (map fst (ar_claims a1))"
    using inv pages_bt_wf bt.entries_distinct by (auto simp: arena_inv_def book_inv_def)
  have "\<not> claim_drained c" if "(i, c) \<in> set (ar_claims a1)" for c
  proof -
    have "map_of (ar_claims a1) i = Some c" using that d by simp
    then show ?thesis using h keeps_page_drained by (auto simp: held_page_def)
  qed
  then have "holds_page i p c0 (snd (collect_quiescent (ar_claims a1) a1))" by (rule held_collect_quiescent [OF h])
  then show ?thesis
    by (auto simp: poll_cleanup_def f split: prod.splits outcome.splits) (metis collect_retired_pages snd_conv)
qed

section \<open>Every operation\<close>

text \<open>The page of the incarnation stays held, and the control mapping keeps its identity.\<close>

definition carries :: "incarnation_id \<Rightarrow> nat \<Rightarrow> claim_map \<Rightarrow> arena \<Rightarrow> arena \<Rightarrow> bool" where
  "carries i p c0 a a' \<longleftrightarrow> (holds_page i p c0 a \<longrightarrow> holds_page i p c0 a') \<and>
     ctl_scope (ar_control a') = ctl_scope (ar_control a) \<and> ctl_history (ar_control a') = ctl_history (ar_control a)"

lemma carries_refl [simp]: "carries i p c0 a a"
  by (simp add: carries_def)

lemma carries_trans: "carries i p c0 a b \<Longrightarrow> carries i p c0 b c \<Longrightarrow> carries i p c0 a c"
  by (simp add: carries_def)

lemma carries_same:
  "ar_claims a' = ar_claims a \<Longrightarrow> ar_observers a' = ar_observers a \<Longrightarrow>
   ctl_scope (ar_control a') = ctl_scope (ar_control a) \<Longrightarrow> ctl_history (ar_control a') = ctl_history (ar_control a) \<Longrightarrow>
   carries i p c0 a a'"
  by (simp add: carries_def)

lemma carries_poll:
  assumes "arena_ok a" "\<forall>h. retired_ready e h \<noteq> Panic" "exited e p \<noteq> Ok True"
  shows "carries i p c0 a (snd (poll_cleanup e a))"
  using held_poll_cleanup [OF _ _ assms(3)] poll_cleanup_inv(3) [OF _ assms(2)] assms(1)
  by (simp add: carries_def arena_ok_def cleanup_frame_ok_def)

lemma held_signal_all: "held_page i p c0 cs os \<Longrightarrow> held_page i p c0 (snd (signal_all k cs)) os"
proof (rule held_page_claims)
  show "map_of cs i = Some c \<Longrightarrow> \<exists>c'. map_of (snd (signal_all k cs)) i = Some c' \<and> keeps_page c c'" for c
  proof (induction cs)
    case (Cons x cs)
    obtain j d where x: "x = (j, d)" by (cases x)
    obtain r d' where d: "claim_signal d k = (r, d')" by (metis surj_pair)
    have "keeps_page d d'" using keeps_page_signal [of d k] d by simp
    then show ?case using Cons d by (auto simp: x split: outcome.splits prod.splits if_splits)
  qed simp
qed

lemma map_of_close_all: "map_of (close_all cs) i = map_option claim_close (map_of cs i)"
  by (induction cs) (auto simp: close_all_def)

lemma carries_stop: "carries i p c0 a (arena_stop a)"
  by (auto simp: carries_def arena_stop_def map_of_close_all intro: held_page_claims)

lemma carries_publish_slot: "carries i p c0 a (snd (publish_slot m k d a))"
  using held_signal_all [of i p c0 "ar_claims a" "ar_observers a" DATA]
  by (auto simp: carries_def publish_slot_def Let_def ring_store_def split: prod.split)

lemma carries_signal_reconfiguration: "carries i p c0 a (snd (signal_reconfiguration a))"
  using held_signal_all [of i p c0 "ar_claims a" "ar_observers a" RECONFIGURATION] carries_stop
  by (auto simp: carries_def signal_reconfiguration_def Let_def split: option.split prod.split)

text \<open>An operation that starts with a cleanup pass.\<close>

lemma carries_after_poll:
  assumes "arena_ok a" "\<forall>h. retired_ready e h \<noteq> Panic" "exited e p \<noteq> Ok True"
    and "\<And>k a1. poll_cleanup e a = (Ok k, a1) \<Longrightarrow> arena_ok a1 \<Longrightarrow> carries i p c0 a1 (snd (f k a1))"
  shows "carries i p c0 a (snd (case poll_cleanup e a of (Err error, a1) \<Rightarrow> (Err error, a1) | (Panic, a1) \<Rightarrow> (Panic, a1) | (Ok k, a1) \<Rightarrow> f k a1))"
proof -
  obtain r a1 where p: "poll_cleanup e a = (r, a1)" by (metis surj_pair)
  have c: "carries i p c0 a a1" using carries_poll [OF assms(1-3), of i c0] p by simp
  have ok: "arena_ok a1" using poll_step(1) [OF assms(1,2)] p by (simp add: step_ok_def)
  show ?thesis
  proof (cases r)
    case (Ok k)
    then show ?thesis using carries_trans [OF c assms(4) [of k a1]] p ok by simp
  qed (use p c in simp_all)
qed

lemma carries_publish_prepared:
  assumes "arena_ok a" "\<forall>h. retired_ready e h \<noteq> Panic" "exited e p \<noteq> Ok True"
  shows "carries i p c0 a (snd (publish_prepared e bs prepare a))"
proof (cases "w_terminal (ar_control a) = 0")
  case True
  show ?thesis
    unfolding publish_prepared_def using True
    by (simp, intro carries_after_poll [OF assms])
      (auto simp: Let_def carries_stop intro: carries_same carries_trans [OF _ carries_publish_slot] carries_publish_slot
        split: option.split outcome.split prod.split)
qed (simp add: publish_prepared_def)

lemma carries_reserve:
  assumes "arena_ok a" "\<forall>h. retired_ready e h \<noteq> Panic" "exited e p \<noteq> Ok True"
  shows "carries i p c0 a (snd (reserve_slot e a))"
proof (cases "\<not> ar_native a \<and> w_terminal (ar_control a) = 0")
  case True
  show ?thesis
    unfolding reserve_slot_def using True
    by (simp, intro carries_after_poll [OF assms])
      (auto simp: Let_def carries_stop intro: carries_same split: option.split outcome.split prod.split)
qed (auto simp: reserve_slot_def)

lemma carries_drop_reservation: "carries i p c0 a (drop_reservation r a)"
  by (rule carries_same) (simp_all add: drop_reservation_def)

lemma carries_commit: "carries i p c0 a (snd (commit_reservation e r d a))"
  using carries_trans [OF carries_publish_slot carries_drop_reservation] carries_trans [OF carries_stop carries_drop_reservation]
  by (auto simp: commit_reservation_def Let_def carries_drop_reservation split: option.split prod.split) (metis snd_conv)

lemma carries_close: "carries i p c0 a (snd (arena_close j a))"
  by (auto simp: carries_def arena_close_def intro: held_page_upd split: option.split prod.split)

lemma held_observers:
  assumes "held_page i p c0 cs os" "\<And>st. map_of os i = Some st \<Longrightarrow> i = j \<Longrightarrow> os_process (f st) = os_process st"
  shows "held_page i p c0 cs (alist_map_value j f os)"
  using assms by (auto simp: held_page_def map_of_alist_map_value)

lemma carries_retry: "carries i p c0 a (snd (arena_retry_cleanup j a))"
  by (auto simp: carries_def arena_retry_cleanup_def Let_def keeps_page_def page_view_def
      intro!: held_page_upd held_observers split: option.split prod.split outcome.split)

lemma carries_register: "carries i p c0 a (snd (register_release_timeline j t a))"
  by (auto simp: carries_def register_release_timeline_def Let_def keeps_page_def page_view_def
      intro!: held_page_upd held_observers split: option.split prod.split outcome.split)

lemma carries_offer: "j \<noteq> i \<Longrightarrow> carries i p c0 a (snd (configuration_offer fds j a))"
  by (auto simp: carries_def configuration_offer_def Let_def intro!: held_page_upd split: option.split outcome.split)

lemma carries_begin: "carries i p c0 a (snd (begin_arena_reconfiguration page capacity external native a))"
  by (auto simp: begin_arena_reconfiguration_def Let_def split: option.split outcome.split prod.split
      intro!: carries_trans [OF _ carries_signal_reconfiguration] intro: carries_same)

lemma carries_advance:
  assumes "arena_ok a" "\<forall>h. retired_ready e h \<noteq> Panic" "exited e p \<noteq> Ok True"
  shows "carries i p c0 a (snd (advance_with_allocation e st al a))"
proof (cases "w_terminal (ar_control a) = 0")
  case True
  show ?thesis
    unfolding advance_with_allocation_def using True
    by (simp, intro carries_after_poll [OF assms])
      (auto simp: Let_def intro: carries_same split: option.split outcome.split prod.split admission_error.split)
qed (simp add: advance_with_allocation_def)

lemma carries_advance_cpu:
  assumes "arena_ok a" "\<forall>h. retired_ready e h \<noteq> Panic" "exited e p \<noteq> Ok True"
  shows "carries i p c0 a (snd (advance_reconfiguration e st a))"
proof -
  obtain r a1 where r: "advance_with_allocation e st (Ok 0) a = (r, a1)" by (metis surj_pair)
  have c: "carries i p c0 a a1" using carries_advance [OF assms, of i c0 st "Ok 0"] r by simp
  show ?thesis
    using c carries_trans [OF c carries_signal_reconfiguration]
    by (auto simp: advance_reconfiguration_def r split: outcome.split prod.split)
qed

lemma carries_reconfigure_cpu:
  assumes "arena_ok a" "\<forall>h. retired_ready e h \<noteq> Panic" "exited e p \<noteq> Ok True"
  shows "carries i p c0 a (snd (reconfigure_cpu e page capacity st a))"
proof -
  obtain r a1 where r: "begin_arena_reconfiguration page capacity 0 None a = (r, a1)" by (metis surj_pair)
  have c: "carries i p c0 a a1" using carries_begin [of i p c0 a page capacity 0 None] r by simp
  have ok: "arena_ok a1" using begin_step [OF assms(1), of page capacity 0 None] r by (simp add: step_ok_def)
  show ?thesis
    using c carries_trans [OF c carries_advance_cpu [OF ok assms(2,3)]]
    by (auto simp: reconfigure_cpu_def r split: outcome.split)
qed

text \<open>A new incarnation gets an identity that no page has.\<close>

lemma carries_attach:
  assumes "arena_ok a" "\<forall>h. retired_ready e h \<noteq> Panic" "exited e p \<noteq> Ok True"
  shows "carries i p c0 a (snd (attach_with_recipient e page holding pid process su a))"
proof (cases "w_terminal (ar_control a) = 0")
  case True
  show ?thesis
    unfolding attach_with_recipient_def using True
  proof (simp, intro carries_after_poll [OF assms], goal_cases)
    case (1 k a1)
    then have ok: "arena_ok a1" by simp
    have bk: "reservations_ok (ar_admission a1)" "pages_match (ar_claims a1) (ar_admission a1)" "bt_wf (ar_claims a1)"
      "map fst (ar_observers a1) = map fst (ar_claims a1)"
      using ok by (auto simp: arena_ok_def arena_inv_def book_inv_def intro: pages_bt_wf)
    have fresh: "holds_page i p c0 a1 \<Longrightarrow> incarnation r \<noteq> i" if "admit (ar_admission a1) req = (Ok r, b)" for r b req
    proof -
      assume h: "holds_page i p c0 a1"
      have "map_of (reservations (ar_admission a1)) (incarnation r) = None"
        using fresh_incarnation [OF bk(1)] admit_Ok(8) [OF that] by simp
      then have "incarnation r \<notin> set (map fst (ar_claims a1))" using pages_keys [OF bk(2)] by (simp add: map_of_eq_None_iff)
      moreover have "i \<in> set (map fst (ar_claims a1))" using h by (force simp: held_page_def dest: map_of_SomeD)
      ultimately show ?thesis by auto
    qed
    have wfo: "bt_wf (ar_observers a1)" using bk(3,4) by (simp add: bt_wf_def)
    show ?case
      using fresh
      by (auto simp: Let_def carries_def held_page_def map_of_bt_insert bk(3) wfo split: outcome.split prod.split option.split)
        blast+
  qed
qed (simp add: attach_with_recipient_def)

text \<open>The events of the arena, except those by which the consumer itself or its own offer changes the page.\<close>

fun touches :: "incarnation_id \<Rightarrow> arena_event \<Rightarrow> bool" where
  "touches i (OfferConfiguration _ j) = (j = i)"
| "touches i (ConsumerPage j _) = (j = i)"
| "touches i _ = False"

lemma carries_event:
  assumes "arena_ok a" "\<forall>h. retired_ready e h \<noteq> Panic" "exited e p \<noteq> Ok True" "\<not> touches i ev"
  shows "carries i p c0 a (fst (snd (arena_event_step e ev (a, rs))))"
proof (cases ev)
  case Reserve
  then show ?thesis using carries_reserve [OF assms(1-3), of i c0] by (auto simp: forget_def split: outcome.split option.split prod.split)
next
  case (ConsumerPage j c)
  then show ?thesis using assms(4) by (auto simp: carries_def intro!: held_page_upd)
next
  case PollShutdown
  then show ?thesis
    using carries_poll [OF assms(1-3), of i c0] by (auto simp: forget_def poll_shutdown_ready_def split: prod.split)
qed (use assms carries_publish_prepared [OF assms(1-3)] in
    \<open>auto simp: forget_def carries_attach publish_def publish_resource_def carries_commit abandon_reservation_def
      carries_drop_reservation carries_poll carries_close carries_stop carries_retry carries_register carries_offer
      carries_signal_reconfiguration carries_reconfigure_cpu begin_native_reconfiguration_def carries_begin
      carries_advance_cpu carries_advance\<close>)

end
