(* ===== verification/Setup_Sizes.thy ===== *)
theory Setup_Sizes
  imports Setup_Frame
begin

text \<open>
  What an importing process checks of the numbers in a grant: identities and generations are not zero, and
  every layout is the one that the system's page size gives.  Every operation of the producer keeps it so.
\<close>

definition ids_ok :: "admission_book \<Rightarrow> bool" where
  "ids_ok b \<longleftrightarrow> next_incarnation b \<noteq> 0 \<and> next_allocation b \<noteq> 0 \<and>
     (\<forall>p i. pending b = Some p \<longrightarrow> reserved p = Some i \<longrightarrow> allocation_raw i \<noteq> 0)"

definition layout_at :: "usize \<Rightarrow> resource_layout \<Rightarrow> bool" where
  "layout_at page l \<longleftrightarrow> resource_layout_new page (resources l) (history l) (payload_capacity l) = Ok l"

definition storage_at :: "usize \<Rightarrow> resource_map \<Rightarrow> bool" where
  "storage_at page m \<longleftrightarrow> layout_at page (rm_layout m) \<and> rm_generation m \<noteq> 0"

definition sized :: "usize \<Rightarrow> arena \<Rightarrow> bool" where
  "sized page a \<longleftrightarrow> ids_ok (ar_admission a) \<and> pred_option (storage_at page) (ar_resources a) \<and>
     pred_option (layout_at page) (ar_pending_layout a) \<and> ar_drain_timeout a \<noteq> 0"

lemma checked_add_nonzero: "checked_add x 1 = Some y \<Longrightarrow> y \<noteq> (0::u64)"
  using checked_add_unat [of x 1 y] by (auto simp: unat_eq_zero)

lemma ids_book:
  assumes "ids_ok b"
  shows "ids_ok (snd (admit b req))" "ids_ok (snd (book_close b i))" "ids_ok (snd (complete_cleanup b i))"
    "ids_ok (snd (begin_reconfiguration b n))" "ids_ok (snd (reserve_reconfiguration b))"
    "ids_ok (snd (install_reconfiguration b n))" "ids_ok (snd (abandon_reconfiguration_allocation b))"
    "ids_ok (snd (complete_allocation_cleanup b k))"
  using assms
  by (auto simp: op_defs ids_ok_def Let_def dest!: checked_add_nonzero split: option.splits)

lemma reserve_nonzero: "ids_ok b \<Longrightarrow> reserve_reconfiguration b = (Ok i, b') \<Longrightarrow> allocation_raw i \<noteq> 0"
  by (auto simp: reserve_reconfiguration_def ids_ok_def Let_def split: option.splits if_splits)

lemma sized_same:
  "sized page a \<Longrightarrow> ids_ok (ar_admission a') \<Longrightarrow> ar_resources a' = ar_resources a \<Longrightarrow>
   ar_pending_layout a' = ar_pending_layout a \<Longrightarrow> ar_drain_timeout a' = ar_drain_timeout a \<Longrightarrow> sized page a'"
  by (simp add: sized_def)

section \<open>Cleanup\<close>

lemma fold_observer_sizes:
  "ar_admission (snd (fold (poll_observer e) js x)) = ar_admission (snd x) \<and>
   ar_drain_timeout (snd (fold (poll_observer e) js x)) = ar_drain_timeout (snd x)"
proof (induction js arbitrary: x)
  case (Cons j js)
  have "ar_admission (snd (poll_observer e j x)) = ar_admission (snd x) \<and>
      ar_drain_timeout (snd (poll_observer e j x)) = ar_drain_timeout (snd x)"
    by (auto simp: poll_observer_def split: prod.split option.split)
  then show ?case using Cons [of "poll_observer e j x"] by simp
qed simp

lemma collect_quiescent_sizes:
  "ids_ok (ar_admission a) \<Longrightarrow> ids_ok (ar_admission (snd (collect_quiescent es a))) \<and>
   ar_drain_timeout (snd (collect_quiescent es a)) = ar_drain_timeout a"
proof (induction es arbitrary: a)
  case (Cons x es)
  obtain i c where x: "x = (i, c)" by (cases x)
  obtain r1 b1 where c1: "book_close (ar_admission a) i = (r1, b1)" by (metis surj_pair)
  obtain r2 b2 where c2: "complete_cleanup b1 i = (r2, b2)" by (metis surj_pair)
  have b: "ids_ok b1" "ids_ok b2"
    using ids_book(2) [OF Cons.prems, of i] ids_book(3) [of b1 i] by (simp_all add: c1 c2)
  show ?case
    using Cons.prems Cons.IH [of "a\<lparr> ar_admission := b2, ar_claims := bt_remove i (ar_claims a), ar_observers := bt_remove i (ar_observers a) \<rparr>"]
      Cons.IH [of a] b
    by (simp add: x c1 c2 split: outcome.split)
qed simp

lemma collect_retired_sizes:
  "ids_ok (ar_admission a) \<Longrightarrow> ids_ok (ar_admission (snd (collect_retired_allocations e k a))) \<and>
   ar_drain_timeout (snd (collect_retired_allocations e k a)) = ar_drain_timeout a"
proof (induction e k a rule: collect_retired_allocations.induct)
  case (1 e k a)
  obtain r b where c: "complete_allocation_cleanup (ar_admission a) (ra_id (ar_retired a ! k)) = (r, b)" by (metis surj_pair)
  have b: "ids_ok b" using ids_book(8) [OF 1(4), of "ra_id (ar_retired a ! k)"] c by simp
  show ?case
    using 1 b by (subst (1 2) collect_retired_allocations.simps) (auto simp: Let_def c split: outcome.splits bool.splits)
qed

lemma sized_poll:
  assumes "arena_ok a" "\<forall>h. retired_ready e h \<noteq> Panic" "sized page a"
  shows "sized page (snd (poll_cleanup e a))"
proof -
  obtain n a1 where f: "fold (poll_observer e) (map fst (ar_observers a)) (0, a) = (n, a1)" by (metis surj_pair)
  have s1: "ids_ok (ar_admission a1)" "ar_drain_timeout a1 = ar_drain_timeout a"
    using fold_observer_sizes [of e "map fst (ar_observers a)" "(0, a)"] f assms(3) by (simp_all add: sized_def)
  obtain r2 a2 where q: "collect_quiescent (ar_claims a1) a1 = (r2, a2)" by (metis surj_pair)
  have s2: "ids_ok (ar_admission a2)" "ar_drain_timeout a2 = ar_drain_timeout a"
    using collect_quiescent_sizes [OF s1(1), of "ar_claims a1"] q s1(2) by simp_all
  obtain r3 a3 where t: "collect_retired_allocations e 0 a2 = (r3, a3)" by (metis surj_pair)
  have s3: "ids_ok (ar_admission a3)" "ar_drain_timeout a3 = ar_drain_timeout a"
    using collect_retired_sizes [OF s2(1), of e 0] t s2(2) by simp_all
  have fr: "cleanup_frame_ok a (snd (poll_cleanup e a))"
    using poll_cleanup_inv(3) [OF arena_ok_inv [OF assms(1)] assms(2)] .
  have "ids_ok (ar_admission (snd (poll_cleanup e a))) \<and> ar_drain_timeout (snd (poll_cleanup e a)) = ar_drain_timeout a"
    using s2 s3 by (simp add: poll_cleanup_def f q t split: outcome.split)
  then show ?thesis using sized_same [OF assms(3)] fr by (simp add: cleanup_frame_ok_def)
qed

section \<open>Every operation\<close>

lemma sized_after_poll:
  assumes "arena_ok a" "\<forall>h. retired_ready e h \<noteq> Panic" "sized page a"
    and "\<And>k a1. poll_cleanup e a = (Ok k, a1) \<Longrightarrow> arena_ok a1 \<Longrightarrow> sized page a1 \<Longrightarrow> sized page (snd (f k a1))"
  shows "sized page (snd (case poll_cleanup e a of (Err error, a1) \<Rightarrow> (Err error, a1) | (Panic, a1) \<Rightarrow> (Panic, a1) | (Ok k, a1) \<Rightarrow> f k a1))"
proof -
  obtain r a1 where p: "poll_cleanup e a = (r, a1)" by (metis surj_pair)
  have c: "sized page a1" using sized_poll [OF assms(1-3)] p by simp
  have ok: "arena_ok a1" using poll_step(1) [OF assms(1,2)] p by (simp add: step_ok_def)
  show ?thesis using assms(4) p c ok by (cases r) simp_all
qed

lemma find_free_storage:
  "storage_at page m \<Longrightarrow> storage_at page (snd (find_free oldest cs prepare is m))"
proof (induction "is" arbitrary: m)
  case (Cons i "is")
  have "storage_at page (m\<lparr> rm_states := s \<rparr>)" for s using Cons.prems by (simp add: storage_at_def)
  then show ?case using Cons by (auto simp: Let_def split: outcome.split option.split)
qed simp

lemma sized_storage: "sized page a \<Longrightarrow> storage_at page m \<Longrightarrow> sized page (a\<lparr> ar_resources := Some m \<rparr>)"
  by (simp add: sized_def)

lemma sized_stop: "sized page a \<Longrightarrow> sized page (arena_stop a)"
  by (simp add: sized_def arena_stop_def)

lemma sized_publish_slot: "sized page a \<Longrightarrow> storage_at page m \<Longrightarrow> sized page (snd (publish_slot m k d a))"
  by (auto simp: sized_def publish_slot_def storage_at_def Let_def split: prod.split)

lemma sized_signal_reconfiguration: "sized page a \<Longrightarrow> sized page (snd (signal_reconfiguration a))"
  by (auto simp: signal_reconfiguration_def arena_stop_def Let_def sized_def split: option.split prod.split)

lemma sized_publish_prepared:
  assumes "arena_ok a" "\<forall>h. retired_ready e h \<noteq> Panic" "sized page a"
  shows "sized page (snd (publish_prepared e bs prepare a))"
proof (cases "w_terminal (ar_control a) = 0")
  case True
  show ?thesis
    unfolding publish_prepared_def using True
  proof (simp, intro sized_after_poll [OF assms], goal_cases)
    case (1 k a1)
    show ?case
    proof (cases "ar_resources a1")
      case (Some m)
      have s: "storage_at page m" using 1 Some by (simp add: sized_def)
      obtain r m1 where r: "find_free (oldest_retained (ar_cursor a1) (history (rm_layout m))) (ar_claims a1) prepare
          (slot_candidates (ar_next_slot a1) (unat (resources (rm_layout m)))) m = (r, m1)" by (metis surj_pair)
      have s1: "storage_at page m1" using find_free_storage [OF s] r by (metis snd_conv)
      then have "storage_at page (m1\<lparr> rm_payload := b \<rparr>)" for b by (simp add: storage_at_def)
      then show ?thesis
        using 1 Some r s1 by (auto simp: Let_def intro: sized_stop sized_storage sized_publish_slot split: outcome.split option.split)
    qed (use 1 in simp)
  qed
qed (use assms in \<open>simp add: publish_prepared_def\<close>)

lemma sized_reserve:
  assumes "arena_ok a" "\<forall>h. retired_ready e h \<noteq> Panic" "sized page a"
  shows "sized page (snd (reserve_slot e a))"
proof (cases "\<not> ar_native a \<and> w_terminal (ar_control a) = 0")
  case True
  show ?thesis
    unfolding reserve_slot_def using True
  proof (simp, intro sized_after_poll [OF assms], goal_cases)
    case (1 k a1)
    show ?case
    proof (cases "ar_resources a1")
      case (Some m)
      have s: "storage_at page m" using 1 Some by (simp add: sized_def)
      obtain r m1 where r: "find_free (oldest_retained (ar_cursor a1) (history (rm_layout m))) (ar_claims a1) (\<lambda>_ _. Ok (Some ()))
          (slot_candidates (ar_next_slot a1) (unat (resources (rm_layout m)))) m = (r, m1)" by (metis surj_pair)
      have s1: "storage_at page m1" using find_free_storage [OF s] r by (metis snd_conv)
      then have "storage_at page (m1\<lparr> rm_reserved := x, rm_owners := y \<rparr>)" for x y by (simp add: storage_at_def)
      then show ?thesis
        using 1 Some r s1 by (auto simp: Let_def intro: sized_stop sized_storage split: outcome.split option.split)
    qed (use 1 sized_stop in simp)
  qed
qed (use assms in \<open>auto simp: reserve_slot_def\<close>)

lemma sized_drop_reservation: "sized page a \<Longrightarrow> sized page (drop_reservation r a)"
  by (cases "ar_resources a") (auto simp: sized_def drop_reservation_def unreserve_def storage_at_def)

lemma sized_commit: "sized page a \<Longrightarrow> sized page (snd (commit_reservation e r d a))"
proof -
  assume s: "sized page a"
  have "sized page (snd (publish_slot m k x a))" if "ar_resources a = Some m" for m k x
    using s that by (intro sized_publish_slot) (simp_all add: sized_def)
  then show ?thesis
    using s by (auto simp: commit_reservation_def Let_def sized_drop_reservation sized_stop split: option.split prod.split)
      (metis sized_drop_reservation snd_conv)
qed

lemma sized_pages: "sized page a \<Longrightarrow> sized page (a\<lparr> ar_observers := os, ar_claims := cs \<rparr>)" "sized page a \<Longrightarrow> sized page (a\<lparr> ar_claims := cs \<rparr>)"
  by (simp_all add: sized_def)

lemma sized_book: "sized page a \<Longrightarrow> ids_ok b \<Longrightarrow> sized page (a\<lparr> ar_admission := b \<rparr>)"
  by (simp add: sized_def)

lemma sized_ids: "sized page a \<Longrightarrow> ids_ok (ar_admission a)"
  by (simp add: sized_def)

lemma sized_page_ops:
  assumes "sized page a"
  shows "sized page (snd (arena_close j a))" "sized page (snd (arena_retry_cleanup j a))"
    "sized page (snd (register_release_timeline j t a))" "sized page (snd (configuration_offer fds j a))"
proof -
  obtain r b where c: "book_close (ar_admission a) j = (r, b)" by (metis surj_pair)
  have "ids_ok b" using ids_book(2) [OF sized_ids [OF assms], of j] c by simp
  then show "sized page (snd (arena_close j a))" using assms by (auto simp: arena_close_def c sized_def split: option.split)
  show "sized page (snd (arena_retry_cleanup j a))"
    using assms by (auto simp: arena_retry_cleanup_def Let_def sized_pages split: option.split prod.split outcome.split)
  show "sized page (snd (register_release_timeline j t a))"
    using assms by (auto simp: register_release_timeline_def Let_def sized_pages split: option.split)
  show "sized page (snd (configuration_offer fds j a))"
    using assms by (auto simp: configuration_offer_def Let_def sized_pages split: option.split outcome.split)
qed

lemma sized_begin:
  assumes "sized page a"
  shows "sized page (snd (begin_arena_reconfiguration page capacity external native a))"
proof -
  have l: "layout_at page l" if "resource_layout_new page n h cap = Ok l" for n h cap l
    using that layout_new_Ok(1-3) [OF that] by (simp add: layout_at_def)
  have b: "ids_ok b" if "begin_reconfiguration (ar_admission a) n = (r, b)" for n r b
    using ids_book(4) [OF sized_ids [OF assms], of n] that by simp
  have "sized page (a\<lparr> ar_admission := b, ar_control := ctl, ar_resources := None, ar_retired := rs, ar_pending_layout := Some l \<rparr>)"
    if "ids_ok b" "layout_at page l" for b ctl rs l
    using assms that by (simp add: sized_def)
  then show ?thesis
    using assms by (auto simp: begin_arena_reconfiguration_def Let_def dest!: l b intro: sized_book sized_signal_reconfiguration
        split: option.split outcome.split prod.split)
qed

lemma sized_advance:
  assumes "arena_ok a" "\<forall>h. retired_ready e h \<noteq> Panic" "sized page a"
  shows "sized page (snd (advance_with_allocation e st al a))"
proof (cases "w_terminal (ar_control a) = 0")
  case True
  show ?thesis
    unfolding advance_with_allocation_def using True
  proof (simp, intro sized_after_poll [OF assms], goal_cases)
    case (1 k a1)
    then have s: "sized page a1" by simp
    show ?case
    proof (cases "ar_pending_layout a1")
      case (Some l)
      obtain r b where b: "reserve_reconfiguration (ar_admission a1) = (r, b)" by (metis surj_pair)
      have ib: "ids_ok b" using ids_book(5) [OF sized_ids [OF s]] b by simp
      have ab: "ids_ok b'" if "abandon_reconfiguration_allocation b = (x, b')" for x b'
        using ids_book(7) [OF ib] that by simp
      have ins: "ids_ok b'" if "install_reconfiguration b n = (x, b')" for n x b'
        using ids_book(6) [OF ib, of n] that by simp
      have l: "layout_at page l" using s Some by (simp add: sized_def)
      have new: "sized page (a1\<lparr> ar_admission := b', ar_resources := Some (resource_map_new l (allocation_raw i)),
          ar_pending_layout := None, ar_next_slot := 0, ar_control := ctl \<rparr>)" if "r = Ok i" "ids_ok b'" for i b' ctl
        using s l that reserve_nonzero [OF sized_ids [OF s], of i b] b by (simp add: sized_def storage_at_def resource_map_new_def Let_def)
      show ?thesis
        using s Some b ib by (auto simp: Let_def dest!: ab ins intro: sized_book new split: outcome.split option.split prod.split admission_error.split)
    qed (use s in simp)
  qed
qed (use assms in \<open>simp add: advance_with_allocation_def\<close>)

lemma sized_advance_cpu:
  assumes "arena_ok a" "\<forall>h. retired_ready e h \<noteq> Panic" "sized page a"
  shows "sized page (snd (advance_reconfiguration e st a))"
proof -
  obtain r a1 where r: "advance_with_allocation e st (Ok 0) a = (r, a1)" by (metis surj_pair)
  have "sized page a1" using sized_advance [OF assms, of st "Ok 0"] r by simp
  then show ?thesis
    using assms sized_signal_reconfiguration [of page a1]
    by (auto simp: advance_reconfiguration_def r split: outcome.split prod.split)
qed

lemma sized_reconfigure_cpu:
  assumes "arena_ok a" "\<forall>h. retired_ready e h \<noteq> Panic" "sized page a"
  shows "sized page (snd (reconfigure_cpu e page capacity st a))"
proof -
  obtain r a1 where r: "begin_arena_reconfiguration page capacity 0 None a = (r, a1)" by (metis surj_pair)
  have c: "sized page a1" using sized_begin [OF assms(3), of capacity 0 None] r by simp
  have ok: "arena_ok a1" using begin_step [OF assms(1), of page capacity 0 None] r by (simp add: step_ok_def)
  show ?thesis
    using assms(3) c sized_advance_cpu [OF ok assms(2) c] by (auto simp: reconfigure_cpu_def r split: outcome.split)
qed

lemma sized_attach:
  assumes "arena_ok a" "\<forall>h. retired_ready e h \<noteq> Panic" "sized page a"
  shows "sized page (snd (attach_with_recipient e page' holding pid process su a))"
proof (cases "w_terminal (ar_control a) = 0")
  case True
  show ?thesis
    unfolding attach_with_recipient_def using True
  proof (simp, intro sized_after_poll [OF assms], goal_cases)
    case (1 k a1)
    then have s: "sized page a1" by simp
    have ad: "ids_ok b" if "admit (ar_admission a1) req = (x, b)" for req x b
      using ids_book(1) [OF sized_ids [OF s], of req] that by simp
    have roll: "ids_ok b'" if "attach_rollback i error b = (x, b')" "ids_ok b" for i error b x b'
    proof -
      obtain r1 b1 where c1: "book_close b i = (r1, b1)" by (metis surj_pair)
      obtain r2 b2 where c2: "complete_cleanup b1 i = (r2, b2)" by (metis surj_pair)
      show ?thesis
        using that ids_book(2) [of b i] ids_book(3) [of b1 i] by (auto simp: attach_rollback_def c1 c2 split: outcome.splits)
    qed
    have "sized page (a1\<lparr> ar_admission := b, ar_observers := os, ar_claims := cs \<rparr>)" if "ids_ok b" for b os cs
      using s that by (simp add: sized_def)
    then show ?case
      using s by (auto simp: Let_def dest!: ad roll intro: sized_book split: outcome.split prod.split option.split)
  qed
qed (use assms in \<open>simp add: attach_with_recipient_def\<close>)

text \<open>All events of the arena, with the system's page size where they name one.\<close>

fun sized_event :: "usize \<Rightarrow> arena_event \<Rightarrow> bool" where
  "sized_event page (ReconfigureCpu page' _ _) = (page' = page)"
| "sized_event page (BeginNative page' _ _) = (page' = page)"
| "sized_event page _ = True"

lemma sized_event_step:
  assumes "arena_ok a" "\<forall>h. retired_ready e h \<noteq> Panic" "sized page a" "sized_event page ev"
  shows "sized page (fst (snd (arena_event_step e ev (a, rs))))"
proof (cases ev)
  case Reserve
  then show ?thesis using sized_reserve [OF assms(1-3)] by (auto simp: forget_def split: outcome.split option.split prod.split)
next
  case PollShutdown
  then show ?thesis
    using sized_poll [OF assms(1-3)] by (auto simp: forget_def poll_shutdown_ready_def split: prod.split)
qed (use assms sized_publish_prepared [OF assms(1-3)] in
    \<open>auto simp: forget_def sized_attach publish_def publish_resource_def sized_commit abandon_reservation_def
      sized_drop_reservation sized_poll sized_page_ops sized_stop sized_signal_reconfiguration sized_reconfigure_cpu
      begin_native_reconfiguration_def sized_begin sized_advance_cpu sized_advance sized_pages\<close>)

lemma sized_created:
  assumes "create_arena e page cfg external native scope storage = Ok a"
  shows "sized page a"
proof -
  obtain l b sc where p: "prepare_arena e page cfg external = Ok (l, b)" and a: "a = fill_new_arena cfg l b native sc"
    using assms by (auto simp: create_arena_def and_then_eq_Ok)
  have l: "resource_layout_new page (ucast (cfg_resource_capacity cfg)) (ucast (cfg_retained_history cfg)) (cfg_payload_capacity cfg) = Ok l"
    and t: "cfg_drain_timeout cfg \<noteq> 0"
    using p by (auto simp: prepare_arena_def and_then_eq_Ok split: if_splits)
  have new: "ids_ok b'" if "admission_result (admission_book_new lim) = Ok b'" for lim b'
    using that by (auto simp: admission_book_new_def ids_ok_def Let_def split: if_splits option.splits)
  have "ids_ok b"
    using p by (auto simp: prepare_arena_def and_then_eq_Ok dest: new split: if_splits)
  then show ?thesis
    using l t layout_new_Ok(1-3) [OF l] by (simp add: a fill_new_arena_def sized_def storage_at_def layout_at_def resource_map_new_def Let_def)
qed

end
