(* ===== verification/Setup_Agreement.thy ===== *)
theory Setup_Agreement
  imports Setup_Sizes
begin

text \<open>
  One setup connection between the server thread and a client process, interleaved with everything else that
  the producer does: requests and replies on their way, failures of the stream on either side, the imports and
  installations of the client, and the use that the consumer makes of its claim page.
\<close>

section \<open>The connection\<close>

record setup_world =
  sw_arena :: arena_state
  sw_session :: server_session
  sw_serving :: bool
  sw_client :: setup_client
  sw_consumer :: "arena_consumer option"
  sw_call :: "setup_request option"
  sw_request :: "setup_request option"
  sw_reply :: "(setup_response \<times> setup_object list) option"

text \<open>\<open>Serve re sent\<close> serves the request on its way; \<open>sent\<close> says whether the reply with its objects and the
  final marker was written, otherwise the server thread ends.  \<open>PageMoves\<close> is what the consumer does when it
  acquires, releases and waits; mappings are dropped by the last lease that keeps them.\<close>

datatype setup_event =
    CallAttach u32
  | CallInstall
  | Serve reply_env bool
  | EndSession
  | ReturnCall import_env
  | CallFails socket_error
  | ArenaMoves env arena_event
  | PageMoves claim_map
  | Relinquish
  | DropRetained nat

definition the_answer :: "setup_response \<times> setup_object list \<Rightarrow> setup_client \<Rightarrow>
    (setup_response \<times> setup_object list, socket_error) outcome \<times> setup_client" where
  "the_answer x = client_request (Ok ()) (Ok (Some (fst x)))
     (\<lambda>n. receive_objects n (Ok (snd x)) (Ok ()) (Ok TRANSFER_FINISHED))"

definition end_session :: "setup_world \<Rightarrow> setup_world" where
  "end_session w = w\<lparr> sw_arena := (drop_session (sw_session w) (fst (sw_arena w)), snd (sw_arena w)), sw_serving := False \<rparr>"

definition serve_step :: "(socket_error \<Rightarrow> string) \<Rightarrow> usize \<Rightarrow> u32 \<Rightarrow> reply_env \<Rightarrow> bool \<Rightarrow> setup_request \<Rightarrow> setup_world \<Rightarrow> setup_world" where
  "serve_step show_error page pid re sent req w =
     (case serve_request show_error page pid re req (sw_session w) (fst (sw_arena w)) of
        (Ok reply, s, a) \<Rightarrow>
          let w1 = w\<lparr> sw_arena := (a, snd (sw_arena w)), sw_session := s, sw_request := None \<rparr> in
          if sent then w1\<lparr> sw_reply := Some reply \<rparr> else end_session w1
      | (_, s, a) \<Rightarrow> w\<lparr> sw_arena := (a, snd (sw_arena w)), sw_session := s, sw_request := None, sw_serving := False \<rparr>)"

definition return_step :: "usize \<Rightarrow> u32 \<Rightarrow> import_env \<Rightarrow> setup_request \<Rightarrow> setup_response \<times> setup_object list \<Rightarrow> setup_world \<Rightarrow> setup_world" where
  "return_step page pid ie req reply w =
     (case req of
        AttachRequest _ \<Rightarrow>
          (case attach_finish page pid ie (the_answer reply (sw_client w)) (fst (sw_arena w)) of
             (r, cl, a) \<Rightarrow>
               w\<lparr> sw_arena := (a, snd (sw_arena w)), sw_client := cl, sw_call := None, sw_reply := None,
                  sw_consumer := (case r of Ok con \<Rightarrow> Some con | _ \<Rightarrow> sw_consumer w) \<rparr>)
      | ConfigurationRequest \<Rightarrow>
          (case sw_consumer w of
             None \<Rightarrow> w
           | Some con \<Rightarrow>
             (case install_finish page pid ie (the_answer reply (sw_client w)) con (fst (sw_arena w)) of
                (r, cl, con', a) \<Rightarrow>
                  w\<lparr> sw_arena := (a, snd (sw_arena w)), sw_client := cl, sw_call := None, sw_reply := None,
                     sw_consumer := Some con' \<rparr>)))"

fun setup_step :: "(socket_error \<Rightarrow> string) \<Rightarrow> usize \<Rightarrow> u32 \<Rightarrow> setup_event \<Rightarrow> setup_world \<Rightarrow> setup_world" where
  "setup_step show_error page pid (CallAttach holding) w =
     w\<lparr> sw_call := Some (AttachRequest holding), sw_request := Some (AttachRequest holding) \<rparr>"
| "setup_step show_error page pid CallInstall w =
     w\<lparr> sw_call := Some ConfigurationRequest, sw_request := Some ConfigurationRequest \<rparr>"
| "setup_step show_error page pid (Serve re sent) w =
     (case sw_request w of Some req \<Rightarrow> serve_step show_error page pid re sent req w | None \<Rightarrow> w)"
| "setup_step show_error page pid EndSession w = end_session w"
| "setup_step show_error page pid (ReturnCall ie) w =
     (case (sw_call w, sw_reply w) of (Some req, Some reply) \<Rightarrow> return_step page pid ie req reply w | _ \<Rightarrow> w)"
| "setup_step show_error page pid (CallFails error) w =
     w\<lparr> sw_client := snd (client_request (Err error) (Ok None) (\<lambda>_. Err error) (sw_client w)), sw_call := None \<rparr>"
| "setup_step show_error page pid (ArenaMoves e ev) w =
     w\<lparr> sw_arena := snd (arena_event_step e ev (sw_arena w)) \<rparr>"
| "setup_step show_error page pid (PageMoves c) w =
     (case sw_consumer w of
        None \<Rightarrow> w
      | Some con \<Rightarrow> w\<lparr> sw_arena := (on_page (con_incarnation con) (\<lambda>_. c) (fst (sw_arena w)), snd (sw_arena w)) \<rparr>)"
| "setup_step show_error page pid Relinquish w =
     (case sw_consumer w of
        None \<Rightarrow> w
      | Some con \<Rightarrow> w\<lparr> sw_consumer := Some (con\<lparr> con_resources := None,
          con_retained := (case con_resources con of Some x \<Rightarrow> x # con_retained con | None \<Rightarrow> con_retained con) \<rparr>) \<rparr>)"
| "setup_step show_error page pid (DropRetained k) w =
     (case sw_consumer w of
        None \<Rightarrow> w
      | Some con \<Rightarrow>
        w\<lparr> sw_arena := (on_page (con_incarnation con) (drop_resources (snd (con_retained con ! k))) (fst (sw_arena w)), snd (sw_arena w)),
           sw_consumer := Some (con\<lparr> con_retained := without k (con_retained con) \<rparr>) \<rparr>)"

text \<open>When an event can happen.  The client process, watched as \<open>p\<close>, is alive; the operating system and the
  native backend answer with values or errors; the producer does not touch the page of this connection's
  incarnation other than through its own operations.\<close>

definition env_ok :: "nat \<Rightarrow> env \<Rightarrow> bool" where
  "env_ok p e \<longleftrightarrow> (\<forall>h. retired_ready e h \<noteq> Panic) \<and> exited e p \<noteq> Ok True"

definition reply_env_ok :: "nat \<Rightarrow> reply_env \<Rightarrow> bool" where
  "reply_env_ok p re \<longleftrightarrow> env_ok p (re_env re) \<and> re_setup re \<noteq> Panic \<and> re_endpoint re \<noteq> Panic \<and> re_fds re \<noteq> Panic \<and>
     (\<forall>x. re_watch re = Ok x \<longrightarrow> x = p) \<and> re_watch re \<noteq> Panic"

fun setup_enabled :: "usize \<Rightarrow> nat \<Rightarrow> setup_event \<Rightarrow> setup_world \<Rightarrow> bool" where
  "setup_enabled page p (CallAttach _) w =
     (sw_call w = None \<and> \<not> sc_failed (sw_client w) \<and> attach_begin (sw_client w) = Ok ())"
| "setup_enabled page p CallInstall w =
     (sw_call w = None \<and> \<not> sc_failed (sw_client w) \<and>
      (case sw_consumer w of None \<Rightarrow> False | Some con \<Rightarrow> install_begin (sw_client w) con (fst (sw_arena w)) = Ok True))"
| "setup_enabled page p (Serve re _) w = (sw_serving w \<and> sw_request w \<noteq> None \<and> reply_env_ok p re)"
| "setup_enabled page p EndSession w = sw_serving w"
| "setup_enabled page p (ReturnCall ie) w =
     (sw_call w \<noteq> None \<and> sw_reply w \<noteq> None \<and> ie_map ie \<noteq> Panic \<and> ie_os ie \<noteq> Panic)"
| "setup_enabled page p (CallFails _) w = (sw_call w \<noteq> None)"
| "setup_enabled page p (ArenaMoves e ev) w =
     (arena_event_enabled ev (sw_arena w) \<and> answers ev \<and> env_ok p e \<and> sized_event page ev \<and>
      (case ss_incarnation (sw_session w) of Some i \<Rightarrow> \<not> touches i ev | None \<Rightarrow> True))"
| "setup_enabled page p (PageMoves c) w =
     (case sw_consumer w of
        None \<Rightarrow> False
      | Some con \<Rightarrow>
        (case map_of (ar_claims (fst (sw_arena w))) (con_incarnation con) of
           None \<Rightarrow> False | Some c0 \<Rightarrow> keeps_page c0 c \<and> claim_wf c))"
| "setup_enabled page p Relinquish w = True"
| "setup_enabled page p (DropRetained k) w =
     (case sw_consumer w of None \<Rightarrow> False | Some con \<Rightarrow> k < length (con_retained con))"

definition setup_start :: "arena_state \<Rightarrow> bool \<Rightarrow> setup_world" where
  "setup_start s bell =
     \<lparr> sw_arena = s, sw_session = \<lparr> ss_incarnation = None, ss_bell = bell \<rparr>, sw_serving = True,
       sw_client = \<lparr> sc_identity = None, sc_failed = False \<rparr>, sw_consumer = None, sw_call = None,
       sw_request = None, sw_reply = None \<rparr>"

text \<open>The arena may have any history; its events are those of a system with one page size.  A peer has a
  process identity that is not zero (\<open>peer_pid\<close>).\<close>

inductive arena_at :: "usize \<Rightarrow> arena_state \<Rightarrow> bool" for page where
  created: "create_arena e page cfg external native scope storage = Ok a \<Longrightarrow> arena_at page (a, [])"
| stepped: "arena_at page s \<Longrightarrow> arena_event_enabled ev s \<Longrightarrow> answers ev \<Longrightarrow> \<forall>h. retired_ready e h \<noteq> Panic \<Longrightarrow>
     sized_event page ev \<Longrightarrow> arena_at page (snd (arena_event_step e ev s))"

inductive setup_reachable :: "(socket_error \<Rightarrow> string) \<Rightarrow> usize \<Rightarrow> u32 \<Rightarrow> nat \<Rightarrow> setup_world \<Rightarrow> bool"
  for show_error page pid p where
  start: "arena_at page s \<Longrightarrow> pid \<noteq> 0 \<Longrightarrow> setup_reachable show_error page pid p (setup_start s bell)"
| step: "setup_reachable show_error page pid p w \<Longrightarrow> setup_enabled page p ev w \<Longrightarrow>
     setup_reachable show_error page pid p (setup_step show_error page pid ev w)"

lemma arena_at_ok: "arena_at page s \<Longrightarrow> state_ok s \<and> sized page (fst s)"
proof (induction rule: arena_at.induct)
  case (created e cfg external native scope storage a)
  then show ?case using created_ok sized_created by (auto simp: state_ok_def)
next
  case (stepped s ev e)
  then have "arena_ok (fst s)" by (simp add: state_ok_def)
  then show ?case
    using stepped event_step_ok [of "fst s" "snd s" ev e] sized_event_step [of "fst s" e page ev "snd s"] by simp
qed

section \<open>Who owns the mapping slots\<close>

fun reply_map :: "(setup_response \<times> setup_object list) option \<Rightarrow> (u64 \<times> nat) list" where
  "reply_map (Some (AttachedResponse d, _)) = [(gd_generation d, unat (gd_mapping_slot d))]"
| "reply_map (Some (ConfigurationResponse d, _)) = [(cd_generation d, unat (cd_mapping_slot d))]"
| "reply_map _ = []"

definition consumer_map :: "arena_consumer \<Rightarrow> (u64 \<times> nat) list" where
  "consumer_map con = (case con_resources con of Some x \<Rightarrow> x # con_retained con | None \<Rightarrow> con_retained con)"

definition owned :: "setup_world \<Rightarrow> (u64 \<times> nat) list" where
  "owned w = reply_map (sw_reply w) @ (case sw_consumer w of Some con \<Rightarrow> consumer_map con | None \<Rightarrow> [])"

definition offered :: "setup_world \<Rightarrow> u64" where
  "offered w = (case reply_map (sw_reply w) of [] \<Rightarrow> 0 | x # _ \<Rightarrow> fst x)"

definition slots_owned :: "(u64 \<times> nat) list \<Rightarrow> claim_map \<Rightarrow> bool" where
  "slots_owned xs c \<longleftrightarrow> length (mapping_slots c) = cm_frames c + 2 \<and> distinct (map snd xs) \<and>
     (\<forall>(g, s)\<in>set xs. g \<noteq> 0 \<and> s < cm_frames c + 2 \<and> mapping_slots c ! s = g) \<and>
     (\<forall>s<cm_frames c + 2. mapping_slots c ! s \<noteq> 0 \<longrightarrow> s \<in> snd ` set xs)"

lemma slots_owned_view: "page_view c' = page_view c \<Longrightarrow> slots_owned xs c' = slots_owned xs c"
  by (simp add: slots_owned_def page_view_def)

lemma slots_owned_add:
  assumes "slots_owned xs c" "s < cm_frames c + 2" "mapping_slots c ! s = 0" "g \<noteq> 0"
  shows "slots_owned ((g, s) # xs) (c\<lparr> mapping_slots := (mapping_slots c)[s := g], w_offered := v \<rparr>)"
proof -
  have "s \<notin> snd ` set xs" using assms by (auto simp: slots_owned_def)
  then show ?thesis using assms by (auto simp: slots_owned_def nth_list_update split: if_splits)
qed

lemma slots_owned_perm:
  assumes "slots_owned xs c" "mset xs = mset ys"
  shows "slots_owned ys c"
proof -
  have "set xs = set ys" using assms(2) by (rule mset_eq_setD)
  moreover have "distinct (map snd xs) = distinct (map snd ys)"
    using assms(2) by (intro mset_eq_imp_distinct_iff) simp
  ultimately show ?thesis using assms(1) unfolding slots_owned_def by simp
qed

lemma slots_owned_drop:
  assumes "slots_owned ((g, s) # xs) c"
  shows "slots_owned xs (c\<lparr> mapping_slots := (mapping_slots c)[s := 0] \<rparr>)"
proof -
  have s: "s < length (mapping_slots c)" "s \<notin> snd ` set xs" using assms by (auto simp: slots_owned_def)
  show ?thesis using assms s by (auto simp: slots_owned_def nth_list_update split: if_splits) force+
qed

lemma mset_without: "k < length xs \<Longrightarrow> mset xs = add_mset (xs ! k) (mset (without k xs))"
proof -
  assume k: "k < length xs"
  then have "mset xs = mset (take k xs @ xs ! k # drop (Suc k) xs)" by (metis id_take_nth_drop)
  then show ?thesis by (simp add: without_def)
qed

section \<open>What arrives can be imported\<close>

definition layout_fits :: "usize \<Rightarrow> arena \<Rightarrow> resource_layout \<Rightarrow> bytes \<Rightarrow> bool" where
  "layout_fits page a l scope \<longleftrightarrow> layout_at page l \<and> scope = ctl_scope (ar_control a) \<and>
     history l = ctl_history (ar_control a) \<and> unat (resources l) < 2 ^ 32"

definition page_fits :: "u32 \<Rightarrow> claim_map \<Rightarrow> bool" where
  "page_fits pid c \<longleftrightarrow> cm_recipient_pid c = pid \<and> pid \<noteq> 0 \<and> cm_frames c \<noteq> 0 \<and> cm_frames c + 2 < 2 ^ 32 \<and>
     incarnation_raw (cm_incarnation c) \<noteq> 0"

definition attached_matches :: "usize \<Rightarrow> arena \<Rightarrow> claim_map \<Rightarrow> grant_descriptor \<Rightarrow> setup_object list \<Rightarrow> bool" where
  "attached_matches page a c d objects \<longleftrightarrow>
     (\<exists>g. grant_into_parts page (Ok ()) g c = (Ok (d, objects), c) \<and> layout_fits page a (gr_layout g) (gr_arena_scope g) \<and>
        gr_generation g \<noteq> 0 \<and> gr_mapping_slot g = 0 \<and> gr_drain_timeout g \<noteq> 0)"

definition configuration_matches :: "usize \<Rightarrow> arena \<Rightarrow> claim_map \<Rightarrow> configuration_descriptor \<Rightarrow> setup_object list \<Rightarrow> bool" where
  "configuration_matches page a c d objects \<longleftrightarrow>
     (\<exists>g. configuration_into_parts g c = (Ok d, c) \<and> layout_fits page a (cg_layout g) (cg_arena_scope g) \<and>
        cg_generation g \<noteq> 0 \<and> cg_mapping_slot g < cm_frames c + 2 \<and>
        objects = [ResourceObject (resource_header_new (cg_layout g) (cg_arena_scope g) (cg_generation g)), PayloadObject (cg_generation g)])"

lemma layout_words:
  assumes "layout_fits page a l scope"
  shows "ucast (ucast (resources l) :: u32) = resources l" "ucast (ucast (history l) :: u32) = history l"
    "resource_layout_new page (resources l) (history l) (payload_capacity l) = Ok l"
  using assms layout_new_Ok(7) [of page "resources l" "history l" "payload_capacity l" l]
  by (auto intro!: ucast_u32_back simp: layout_fits_def layout_at_def)

lemma of_nat_u32: "n < 2 ^ 32 \<Longrightarrow> unat (of_nat n :: u32) = n"
  by (simp add: unat_of_nat)

lemma attached_parts:
  assumes "attached_matches page a c d objects" "page_fits pid c"
  obtains l claim_len control_len where "layout_fits page a l (gd_arena_scope d)"
    "claim_allocation_len page (of_nat (cm_frames c)) = Ok claim_len" "control_allocation_len page (history l) = Ok control_len"
    "d = \<lparr> gd_version = VERSION, gd_generation = gd_generation d, gd_drain_timeout_ns = gd_drain_timeout_ns d,
          gd_incarnation = incarnation_raw (cm_incarnation c), gd_payload_capacity = payload_capacity l,
          gd_resource_map_len = map_len l, gd_control_map_len = control_len, gd_claim_map_len = claim_len,
          gd_arena_scope = gd_arena_scope d, gd_claim_scope = cm_scope c, gd_mapping_slot = 0,
          gd_resources = ucast (resources l), gd_history = ucast (history l), gd_holding = of_nat (cm_frames c),
          gd_recipient_pid = pid \<rparr>"
    "gd_generation d \<noteq> 0" "gd_drain_timeout_ns d \<noteq> 0"
    "objects = [ControlObject (control_header_new (history l) control_len (gd_arena_scope d)),
       ResourceObject (resource_header_new l (gd_arena_scope d) (gd_generation d)),
       ClaimObject (claim_header_new (cm_incarnation c) (of_nat (cm_frames c)) claim_len (cm_scope c) pid),
       ReaderObject (cm_incarnation c), WriterObject (cm_incarnation c), PayloadObject (gd_generation d)]"
proof -
  obtain g where g: "grant_into_parts page (Ok ()) g c = (Ok (d, objects), c)" "layout_fits page a (gr_layout g) (gr_arena_scope g)"
    "gr_generation g \<noteq> 0" "gr_mapping_slot g = 0" "gr_drain_timeout g \<noteq> 0"
    using assms(1) by (auto simp: attached_matches_def)
  have "(of_nat (gr_drain_timeout g) :: u64) \<noteq> 0" if "gr_drain_timeout g < 2 ^ 64"
    using g(5) that by (simp add: unat_eq_zero [symmetric] unat_of_nat)
  then have t: "(if gr_drain_timeout g < 2 ^ 64 then of_nat (gr_drain_timeout g) else - 1 :: u64) \<noteq> 0" by simp
  show ?thesis
    using g(1) assms(2)
    by (auto simp: grant_into_parts_def into_parts_def and_then_eq_Ok page_fits_def intro!: that [of "gr_layout g"])
      (use g t in \<open>auto simp: layout_fits_def split: if_splits\<close>)
qed

definition attached_grant :: "grant_descriptor \<Rightarrow> resource_layout \<Rightarrow> consumer_grant" where
  "attached_grant d l = \<lparr> gr_arena_scope = gd_arena_scope d, gr_layout = l, gr_generation = gd_generation d,
     gr_drain_timeout = unat (gd_drain_timeout_ns d), gr_mapping_slot = 0, gr_incarnation = IncarnationId (gd_incarnation d) \<rparr>"

text \<open>An attachment that arrives is imported unless its storage is not for CPUs, the drain interval does not
  fit the client's clock, or the operating system refuses.\<close>

lemma import_attached:
  assumes m: "attached_matches page a c d objects" "page_fits pid c" "length (mapping_slots c) = cm_frames c + 2"
    and pg: "map_of (ar_claims a) (cm_incarnation c) = Some c'" "keeps_page c c'"
    and off: "mapping_slots c ! 0 = gd_generation d" "w_offered c = gd_generation d"
  obtains l where "import_attachment page pid ie (AttachedResponse d) objects a =
     (if gd_payload_capacity d = 0 then (Err (Protocol ''CPU setup cannot import native resources''), a)
      else if instant_add (ie_env ie) (unat (gd_drain_timeout_ns d)) = None
      then (Err (SocketArena (Mapping ''invalid consumer drain interval'')), a)
      else case ie_map ie of
        Err error \<Rightarrow> (Err (SocketArena error), a)
      | Panic \<Rightarrow> (Panic, a)
      | Ok _ \<Rightarrow>
        (case ie_os ie of
           Err error \<Rightarrow> (Err (SocketArena error), on_page (cm_incarnation c) (\<lambda>_. drop_grant (attached_grant d l) c') a)
         | Panic \<Rightarrow> (Panic, on_page (cm_incarnation c) (\<lambda>_. drop_grant (attached_grant d l) c') a)
         | Ok _ \<Rightarrow>
           (Ok \<lparr> con_incarnation = cm_incarnation c, con_claim_scope = cm_scope c, con_arena_scope = gd_arena_scope d,
                 con_history = history l, con_resources = Some (gd_generation d, 0), con_retained = [] \<rparr>,
            on_page (cm_incarnation c) (\<lambda>_. c'\<lparr> w_offered := 0 \<rparr>) a)))"
    "layout_fits page a l (gd_arena_scope d)"
proof -
  obtain l claim_len control_len where p: "layout_fits page a l (gd_arena_scope d)"
    "claim_allocation_len page (of_nat (cm_frames c)) = Ok claim_len" "control_allocation_len page (history l) = Ok control_len"
    and d: "d = \<lparr> gd_version = VERSION, gd_generation = gd_generation d, gd_drain_timeout_ns = gd_drain_timeout_ns d,
          gd_incarnation = incarnation_raw (cm_incarnation c), gd_payload_capacity = payload_capacity l,
          gd_resource_map_len = map_len l, gd_control_map_len = control_len, gd_claim_map_len = claim_len,
          gd_arena_scope = gd_arena_scope d, gd_claim_scope = cm_scope c, gd_mapping_slot = 0,
          gd_resources = ucast (resources l), gd_history = ucast (history l), gd_holding = of_nat (cm_frames c),
          gd_recipient_pid = pid \<rparr>"
    and nz: "gd_generation d \<noteq> 0" "gd_drain_timeout_ns d \<noteq> 0"
    and o: "objects = [ControlObject (control_header_new (history l) control_len (gd_arena_scope d)),
       ResourceObject (resource_header_new l (gd_arena_scope d) (gd_generation d)),
       ClaimObject (claim_header_new (cm_incarnation c) (of_nat (cm_frames c)) claim_len (cm_scope c) pid),
       ReaderObject (cm_incarnation c), WriterObject (cm_incarnation c), PayloadObject (gd_generation d)]"
    by (rule attached_parts [OF m(1,2)])
  have v: "cm_incarnation c' = cm_incarnation c" "cm_frames c' = cm_frames c" "cm_scope c' = cm_scope c"
    "cm_recipient_pid c' = pid" "w_offered c' = gd_generation d" "mapping_slots c' ! 0 = gd_generation d"
    using pg(2) m(2) off by (auto simp: keeps_page_def page_view_def page_fits_def)
  have f: "cm_frames c \<noteq> 0" "incarnation_raw (cm_incarnation c) \<noteq> 0" "(of_nat (cm_frames c) :: u32) \<noteq> 0"
    using m(2) of_nat_u32 [of "cm_frames c"] by (auto simp: page_fits_def unat_eq_zero [symmetric])
  have i: "IncarnationId (gd_incarnation d) = cm_incarnation c" by (subst d) simp
  define h where "h = claim_header_new (cm_incarnation c) (of_nat (cm_frames c)) claim_len (cm_scope c) pid"
  have parts: "from_parts (ie_env ie) page pid d h c' =
      (if instant_add (ie_env ie) (unat (gd_drain_timeout_ns d)) = None then Err (Mapping ''invalid consumer drain interval'')
       else Ok (attached_grant d l))"
    using layout_words [OF p(1)] p f v nz i unfolding h_def
    by (subst (1) d) (simp add: from_parts_def claim_header_check_def claim_header_new_def attached_grant_def)
  have grant: "from_grant page (ie_os ie) (control_header_new (history l) control_len (gd_arena_scope d))
      (resource_header_new l (gd_arena_scope d) (gd_generation d)) h (attached_grant d l) c' =
      (case ie_os ie of
         Err error \<Rightarrow> (Err error, drop_grant (attached_grant d l) c')
       | Panic \<Rightarrow> (Panic, drop_grant (attached_grant d l) c')
       | Ok _ \<Rightarrow>
         (Ok \<lparr> con_incarnation = cm_incarnation c, con_claim_scope = cm_scope c, con_arena_scope = gd_arena_scope d,
               con_history = history l, con_resources = Some (gd_generation d, 0), con_retained = [] \<rparr>, c'\<lparr> w_offered := 0 \<rparr>))"
    using p nz v
    by (simp add: from_grant_def attached_grant_def control_header_check_def control_header_new_def resource_header_check_def
        resource_header_new_def claim_header_check_def claim_header_new_def h_def split: outcome.split)
  have hd: "IncarnationId (ch_incarnation h) = cm_incarnation c" by (simp add: h_def claim_header_new_def)
  show ?thesis
    by (rule that [of l]) (auto simp: import_attachment_def o h_def [symmetric] hd pg(1) parts grant p(1) split: outcome.split)
qed

text \<open>A configuration that arrives is installed, or found stale, unless its storage is not for CPUs, the
  consumer is closed, or the operating system refuses.\<close>

definition offer_grant :: "configuration_descriptor \<Rightarrow> resource_layout \<Rightarrow> claim_map \<Rightarrow> configuration_grant" where
  "offer_grant d l c = \<lparr> cg_layout = l, cg_generation = cd_generation d, cg_arena_scope = cd_arena_scope d,
     cg_claim_scope = cm_scope c, cg_incarnation = cm_incarnation c, cg_mapping_slot = unat (cd_mapping_slot d) \<rparr>"

definition installed :: "configuration_descriptor \<Rightarrow> arena_consumer \<Rightarrow> arena_consumer" where
  "installed d con = con\<lparr> con_resources := Some (cd_generation d, unat (cd_mapping_slot d)), con_retained := consumer_map con \<rparr>"

lemma import_offered:
  assumes m: "configuration_matches page a c d objects" "page_fits pid c"
    and pg: "map_of (ar_claims a) (con_incarnation con) = Some c'" "keeps_page c c'"
    and con: "con_arena_scope con = ctl_scope (ar_control a)" "con_history con = ctl_history (ar_control a)"
    and off: "mapping_slots c ! unat (cd_mapping_slot d) = cd_generation d" "w_offered c = cd_generation d"
  obtains l where "import_configuration page pid ie (ConfigurationResponse d) objects con a =
     (if cd_payload_capacity d = 0 then (Err (Protocol ''invalid CPU configuration resources''), con, a)
      else if is_closed (ar_control a) c'
      then (Err (SocketArena ArenaClosed), con, on_page (con_incarnation con) (\<lambda>_. drop_configuration (offer_grant d l c') c') a)
      else case ie_os ie of
        Err error \<Rightarrow> (Err (SocketArena error), con, on_page (con_incarnation con) (\<lambda>_. drop_configuration (offer_grant d l c') c') a)
      | Panic \<Rightarrow> (Panic, con, on_page (con_incarnation con) (\<lambda>_. drop_configuration (offer_grant d l c') c') a)
      | Ok _ \<Rightarrow>
        if cd_generation d \<noteq> w_configuration (ar_control a)
        then (Ok (Some Stale), con, on_page (con_incarnation con) (\<lambda>_. drop_configuration (offer_grant d l c') c') a)
        else (Ok (Some Installed), installed d con, on_page (con_incarnation con) (\<lambda>_. c'\<lparr> w_offered := 0 \<rparr>) a))"
    "unat (cd_mapping_slot d) < cm_frames c + 2"
proof -
  obtain g where g: "configuration_into_parts g c = (Ok d, c)" "layout_fits page a (cg_layout g) (cg_arena_scope g)"
    "cg_generation g \<noteq> 0" "cg_mapping_slot g < cm_frames c + 2"
    "objects = [ResourceObject (resource_header_new (cg_layout g) (cg_arena_scope g) (cg_generation g)), PayloadObject (cg_generation g)]"
    using m(1) by (auto simp: configuration_matches_def)
  let ?l = "cg_layout g"
  have s: "unat (of_nat (cg_mapping_slot g) :: u32) = cg_mapping_slot g"
    using g(4) m(2) by (intro of_nat_u32) (simp add: page_fits_def)
  have d: "cd_version d = VERSION" "cd_generation d = cg_generation g" "cd_incarnation d = incarnation_raw (cm_incarnation c)"
    "cd_payload_capacity d = payload_capacity ?l" "cd_resource_map_len d = map_len ?l" "cd_arena_scope d = cg_arena_scope g"
    "cd_claim_scope d = cm_scope c" "cd_recipient_pid d = pid" "unat (cd_mapping_slot d) = cg_mapping_slot g"
    "ucast (cd_resources d) = resources ?l" "ucast (cd_history d) = history ?l"
    using g(1) m(2) s layout_words(1,2) [OF g(2)] by (auto simp: configuration_into_parts_def page_fits_def split: if_splits)
  have v: "cm_incarnation c' = cm_incarnation c" "cm_frames c' = cm_frames c" "cm_scope c' = cm_scope c"
    "cm_recipient_pid c' = pid" "w_offered c' = cg_generation g" "mapping_slots c' ! cg_mapping_slot g = cg_generation g"
    using pg(2) m(2) off d by (auto simp: keeps_page_def page_view_def page_fits_def)
  have parts: "configuration_from_parts page pid con c' d = Ok (offer_grant d ?l c')"
    using g(2-4) d v con layout_words(3) [OF g(2)]
    by (simp add: configuration_from_parts_def offer_grant_def layout_fits_def)
  have sc: "cg_arena_scope g = ctl_scope (ar_control a)" using g(2) by (simp add: layout_fits_def)
  have inst: "install_offer (ie_os ie) (resource_header_new ?l (cg_arena_scope g) (cg_generation g)) (offer_grant d ?l c') con (ar_control a) c' =
      (if is_closed (ar_control a) c' then (Err ArenaClosed, con, drop_configuration (offer_grant d ?l c') c')
       else case ie_os ie of
         Err error \<Rightarrow> (Err error, con, drop_configuration (offer_grant d ?l c') c')
       | Panic \<Rightarrow> (Panic, con, drop_configuration (offer_grant d ?l c') c')
       | Ok _ \<Rightarrow>
         if cd_generation d \<noteq> w_configuration (ar_control a) then (Ok Stale, con, drop_configuration (offer_grant d ?l c') c')
         else (Ok Installed, installed d con, c'\<lparr> w_offered := 0 \<rparr>))"
    using g(3) sc d
    by (simp add: install_offer_def install_with_resources_def offer_grant_def resource_header_check_def resource_header_new_def
        resource_map_new_def Let_def installed_def consumer_map_def split: outcome.split)
  show ?thesis
    by (rule that [of ?l]) (use g(4,5) d parts inst pg(1) in \<open>auto simp: import_configuration_def split: outcome.split\<close>)
qed

end
