(* ===== verification/Setup_Properties.thy ===== *)
theory Setup_Properties
  imports Setup_Agreement
begin

text \<open>
  The invariant of a setup connection, and what it gives: what the server grants, the client gets, and every
  mapping slot of the claim page is owned by exactly one grant on its way or mapping of the consumer.
\<close>

section \<open>The invariant\<close>

definition linked :: "setup_world \<Rightarrow> bool" where
  "linked w \<longleftrightarrow> sc_identity (sw_client w) \<noteq> None \<or> reply_map (sw_reply w) \<noteq> []"

text \<open>A client waits in vain once the server has taken its request and ended without a reply.\<close>

definition stranded :: "setup_world \<Rightarrow> bool" where
  "stranded w \<longleftrightarrow> sw_call w \<noteq> None \<and> sw_request w = None \<and> sw_reply w = None"

definition opened :: "setup_world \<Rightarrow> bool" where
  "opened w \<longleftrightarrow> \<not> sc_failed (sw_client w) \<and> \<not> stranded w"

definition page_ok :: "u32 \<Rightarrow> nat \<Rightarrow> incarnation_id \<Rightarrow> claim_map \<Rightarrow> setup_world \<Rightarrow> bool" where
  "page_ok pid p i c w \<longleftrightarrow> holds_page i p c (fst (sw_arena w)) \<and> slots_owned (owned w) c \<and> w_offered c = offered w \<and>
     cm_incarnation c = i \<and> page_fits pid c \<and> (sw_serving w \<or> w_active c = 0)"

definition consumer_ok :: "incarnation_id \<Rightarrow> claim_map \<Rightarrow> setup_world \<Rightarrow> bool" where
  "consumer_ok i c w \<longleftrightarrow> (\<forall>x. sc_identity (sw_client w) = Some x \<longrightarrow> x = (i, cm_scope c) \<and>
     (\<exists>con. sw_consumer w = Some con \<and> con_incarnation con = i \<and> con_claim_scope con = cm_scope c \<and>
       con_arena_scope con = ctl_scope (ar_control (fst (sw_arena w))) \<and>
       con_history con = ctl_history (ar_control (fst (sw_arena w)))))"

definition reply_ok :: "usize \<Rightarrow> claim_map \<Rightarrow> setup_world \<Rightarrow> bool" where
  "reply_ok page c w \<longleftrightarrow>
     (\<forall>d objects. sw_reply w = Some (AttachedResponse d, objects) \<longrightarrow> attached_matches page (fst (sw_arena w)) c d objects) \<and>
     (\<forall>d objects. sw_reply w = Some (ConfigurationResponse d, objects) \<longrightarrow> configuration_matches page (fst (sw_arena w)) c d objects)"

definition link :: "usize \<Rightarrow> u32 \<Rightarrow> nat \<Rightarrow> setup_world \<Rightarrow> bool" where
  "link page pid p w \<longleftrightarrow>
     (\<exists>i c. ss_incarnation (sw_session w) = Some i \<and> page_ok pid p i c w \<and> consumer_ok i c w \<and> reply_ok page c w)"

definition calls_ok :: "setup_world \<Rightarrow> bool" where
  "calls_ok w \<longleftrightarrow>
     (sw_call w = None \<longrightarrow> sw_request w = None \<and> sw_reply w = None) \<and>
     (\<forall>r. sw_request w = Some r \<longrightarrow> sw_call w = Some r \<and> sw_reply w = None) \<and>
     (\<forall>h. sw_call w = Some (AttachRequest h) \<longrightarrow> sc_identity (sw_client w) = None) \<and>
     (sw_call w = Some ConfigurationRequest \<longrightarrow> sc_identity (sw_client w) \<noteq> None) \<and>
     (\<forall>d objects. sw_reply w = Some (AttachedResponse d, objects) \<longrightarrow> (\<exists>h. sw_call w = Some (AttachRequest h))) \<and>
     (\<forall>d objects. sw_reply w = Some (ConfigurationResponse d, objects) \<longrightarrow> sw_call w = Some ConfigurationRequest) \<and>
     (sc_identity (sw_client w) = None \<longrightarrow> sw_consumer w = None)"

definition setup_inv :: "usize \<Rightarrow> u32 \<Rightarrow> nat \<Rightarrow> setup_world \<Rightarrow> bool" where
  "setup_inv page pid p w \<longleftrightarrow> pid \<noteq> 0 \<and> state_ok (sw_arena w) \<and> sized page (fst (sw_arena w)) \<and>
     (sc_failed (sw_client w) \<longrightarrow> sw_call w = None) \<and>
     (opened w \<longrightarrow> calls_ok w \<and> (linked w \<longrightarrow> link page pid p w))"

lemmas world_defs = linked_def stranded_def opened_def

lemma state_ok_on_page:
  assumes "state_ok (a, rs)" "\<And>c. map_of (ar_claims a) i = Some c \<Longrightarrow> claim_wf c \<Longrightarrow> claim_wf (f c) \<and> cm_frames (f c) = cm_frames c"
  shows "state_ok (on_page i f a, rs)"
proof -
  have ok: "arena_ok a" using assms(1) by (simp add: state_ok_def)
  have d: "distinct (map fst (ar_claims a))"
    using ok pages_bt_wf bt.entries_distinct by (auto simp: arena_ok_def arena_inv_def book_inv_def)
  have "arena_ok (on_page i f a)"
    unfolding on_page_def using ok d assms(2) by (intro arena_ok_claims alist_map_value_pages) (auto simp: map_of_is_SomeI)
  then show ?thesis using assms(1) by (simp add: state_ok_def on_page_def)
qed

lemma sized_on_page: "sized page a \<Longrightarrow> sized page (on_page i f a)"
  by (simp add: on_page_def sized_pages)

lemma on_page_page [simp]: "map_of (ar_claims (on_page i f a)) i = map_option f (map_of (ar_claims a) i)"
  by (simp add: on_page_def map_of_alist_map_value)

lemma on_page_frame [simp]:
  "ar_control (on_page i f a) = ar_control a" "ar_observers (on_page i f a) = ar_observers a"
  "ar_admission (on_page i f a) = ar_admission a"
  by (simp_all add: on_page_def)

lemma holds_on_page:
  assumes "holds_page i p c a" "w_quiescent c' = 0"
  shows "holds_page i p c' (on_page i (\<lambda>_. c') a)"
  using assms by (auto simp: held_page_def)

lemma holdsE:
  assumes "holds_page i p c a"
  obtains c' where "map_of (ar_claims a) i = Some c'" "keeps_page c c'" "w_quiescent c' = 0"
  using assms by (auto simp: held_page_def keeps_page_def)

section \<open>Changes of the arena alone\<close>

lemma matches_frame:
  assumes "ctl_scope (ar_control a') = ctl_scope (ar_control a)" "ctl_history (ar_control a') = ctl_history (ar_control a)"
  shows "attached_matches page a' c d objects = attached_matches page a c d objects"
    "configuration_matches page a' c d' objects = configuration_matches page a c d' objects"
  using assms by (simp_all add: attached_matches_def configuration_matches_def layout_fits_def)

lemma link_carries:
  assumes "link page pid p w" "\<And>i c. ss_incarnation (sw_session w) = Some i \<Longrightarrow> carries i p c (fst (sw_arena w)) (fst s)"
  shows "link page pid p (w\<lparr> sw_arena := s \<rparr>)"
proof -
  obtain i c where l: "ss_incarnation (sw_session w) = Some i" "page_ok pid p i c w" "consumer_ok i c w" "reply_ok page c w"
    using assms(1) by (auto simp: link_def)
  have k: "holds_page i p c (fst s)" "ctl_scope (ar_control (fst s)) = ctl_scope (ar_control (fst (sw_arena w)))"
    "ctl_history (ar_control (fst s)) = ctl_history (ar_control (fst (sw_arena w)))"
    using assms(2) [OF l(1), of c] l(2) by (simp_all add: carries_def page_ok_def)
  have "page_ok pid p i c (w\<lparr> sw_arena := s \<rparr>)" using l(2) k(1) by (simp add: page_ok_def owned_def offered_def)
  moreover have "consumer_ok i c (w\<lparr> sw_arena := s \<rparr>)" using l(3) k by (auto simp: consumer_ok_def)
  moreover have "reply_ok page c (w\<lparr> sw_arena := s \<rparr>)" using l(4) matches_frame [OF k(2,3)] by (simp add: reply_ok_def)
  ultimately show ?thesis using l(1) by (auto simp: link_def)
qed

lemma inv_arena:
  assumes "setup_inv page pid p w" "state_ok s" "sized page (fst s)"
    "\<And>i c. ss_incarnation (sw_session w) = Some i \<Longrightarrow> carries i p c (fst (sw_arena w)) (fst s)"
  shows "setup_inv page pid p (w\<lparr> sw_arena := s \<rparr>)"
  using assms link_carries [OF _ assms(4)] by (auto simp: setup_inv_def world_defs calls_ok_def)

lemma arena_move_inv:
  assumes "setup_inv page pid p w" "setup_enabled page p (ArenaMoves e ev) w"
  shows "setup_inv page pid p (setup_step show_error page pid (ArenaMoves e ev) w)"
proof -
  obtain a rs where s: "sw_arena w = (a, rs)" by (cases "sw_arena w")
  have ok: "state_ok (a, rs)" "arena_ok a" "sized page a" using assms(1) s by (auto simp: setup_inv_def state_ok_def)
  have e: "\<forall>h. retired_ready e h \<noteq> Panic" "exited e p \<noteq> Ok True" "arena_event_enabled ev (a, rs)" "answers ev" "sized_event page ev"
    using assms(2) s by (auto simp: env_ok_def)
  show ?thesis
    unfolding setup_step.simps
  proof (rule inv_arena [OF assms(1)])
    show "state_ok (snd (arena_event_step e ev (sw_arena w)))" using event_step_ok [OF ok(1) e(3,4,1)] s by simp
    show "sized page (fst (snd (arena_event_step e ev (sw_arena w))))" using sized_event_step [OF ok(2) e(1) ok(3) e(5)] s by simp
    show "carries i p c (fst (sw_arena w)) (fst (snd (arena_event_step e ev (sw_arena w))))"
      if "ss_incarnation (sw_session w) = Some i" for i c
      using carries_event [OF ok(2) e(1,2)] assms(2) that s by simp
  qed
qed

section \<open>The end of the session\<close>

lemma close_state: "state_ok (a, rs) \<Longrightarrow> state_ok (snd (arena_close i a), rs)"
  using close_step [of a i] by (auto simp: state_ok_def step_ok_def)

lemma link_end:
  assumes "link page pid p w"
  shows "link page pid p (end_session w)"
proof -
  obtain i c where l: "ss_incarnation (sw_session w) = Some i" "page_ok pid p i c w" "consumer_ok i c w" "reply_ok page c w"
    using assms by (auto simp: link_def)
  let ?a = "fst (sw_arena w)"
  obtain c' where c': "map_of (ar_claims ?a) i = Some c'" "keeps_page c c'" "w_quiescent c' = 0"
    using l(2) by (auto simp: page_ok_def elim: holdsE)
  obtain r b where b: "book_close (ar_admission ?a) i = (r, b)" by (metis surj_pair)
  have e: "fst (sw_arena (end_session w)) = ?a\<lparr> ar_claims := alist_map_value i claim_close (ar_claims ?a), ar_admission := b \<rparr>"
    using l(1) c'(1) b by (simp add: end_session_def drop_session_def arena_close_def)
  have v: "page_view (claim_close c') = page_view c" using c'(2) keeps_page_close [of c'] by (simp add: keeps_page_def)
  have q: "w_quiescent (claim_close c') = 0" using c'(3) by simp
  have view: "cm_incarnation (claim_close c') = cm_incarnation c" "cm_scope (claim_close c') = cm_scope c"
    "w_offered (claim_close c') = w_offered c" "page_fits pid (claim_close c') = page_fits pid c"
    using v by (simp_all add: page_view_def page_fits_def)
  have m: "attached_matches page a (claim_close c') d objects = attached_matches page a c d objects"
    "configuration_matches page a (claim_close c') d' objects = configuration_matches page a c d' objects" for a d d' objects
    using v by (simp_all add: attached_matches_def configuration_matches_def page_view_def grant_into_parts_def into_parts_def
        configuration_into_parts_def)
  have "page_ok pid p i (claim_close c') (end_session w)"
    using l(2) c'(1) e q view slots_owned_view [OF v]
    by (auto simp: page_ok_def held_page_def map_of_alist_map_value end_session_def owned_def offered_def)
  moreover have "consumer_ok i (claim_close c') (end_session w)" using l(3) e view(2) by (auto simp: consumer_ok_def end_session_def)
  moreover have "reply_ok page (claim_close c') (end_session w)"
    using l(4) m matches_frame [of "fst (sw_arena (end_session w))" ?a] e by (simp add: reply_ok_def) (simp add: end_session_def)
  ultimately show ?thesis using l(1) by (auto simp: link_def end_session_def)
qed

lemma end_session_inv:
  assumes "setup_inv page pid p w"
  shows "setup_inv page pid p (end_session w)"
proof -
  obtain a rs where s: "sw_arena w = (a, rs)" by (cases "sw_arena w")
  have "state_ok (drop_session (sw_session w) a, rs)" "sized page (drop_session (sw_session w) a)"
    using assms s close_state sized_page_ops(1) by (auto simp: setup_inv_def drop_session_def split: option.split)
  moreover have "sw_call (end_session w) = sw_call w" "sw_client (end_session w) = sw_client w" "calls_ok (end_session w) = calls_ok w"
    "linked (end_session w) = linked w" "opened (end_session w) = opened w"
    by (simp_all add: end_session_def calls_ok_def world_defs)
  ultimately show ?thesis using assms link_end s by (auto simp: setup_inv_def) (simp_all add: end_session_def s)
qed

section \<open>Serving a request to attach\<close>

lemma page_frames_bound:
  assumes "arena_inv a" "ar_resources a = Some m" "map_of (ar_claims a) i = Some c"
  shows "cm_frames c + 2 < 2 ^ 32"
proof -
  have pm: "pages_match (ar_claims a) (ar_admission a)" and l: "layout_matches a (rm_layout m)"
    using assms(1,2) by (auto simp: arena_inv_def resources_ok_def)
  have "cm_frames c \<le> (\<Sum>x\<leftarrow>ar_claims a. cm_frames (snd x))"
    using map_of_SomeD [OF assms(3)] by (intro member_le_sum_list) (force, simp)
  moreover have "unat (retained_history (limits (ar_admission a))) + unat (producer_reserve (limits (ar_admission a)))
      + charged_frames (ar_admission a) \<le> unat (resource_capacity (limits (ar_admission a)))"
    "producer_reserve (limits (ar_admission a)) \<noteq> 0"
    using assms(1) by (simp_all add: arena_inv_def book_inv_def frames_ok_def limits_ok_def)
  moreover have "unat (retained_history (limits (ar_admission a))) \<noteq> 0"
    using assms(1) l layout_history_pos [of "rm_layout m"]
    by (auto simp: arena_inv_def control_ok_def layout_matches_def unat_eq_zero)
  moreover have "unat (producer_reserve (limits (ar_admission a))) \<noteq> 0" using calculation(3) by (simp add: unat_eq_zero)
  ultimately show ?thesis
    using pages_frames [OF pm] u32_bound [of "resource_capacity (limits (ar_admission a))"] by simp
qed

lemma arena_fits:
  assumes "arena_inv a" "sized page a" "ar_resources a = Some m"
  shows "layout_fits page a (rm_layout m) (ctl_scope (ar_control a))" "rm_generation m \<noteq> 0"
  using assms u32_bound [of "resource_capacity (limits (ar_admission a))"]
  by (auto simp: layout_fits_def sized_def storage_at_def arena_inv_def resources_ok_def layout_matches_def)

text \<open>What an attachment leaves in the arena.\<close>

lemma attach_result:
  assumes ok: "arena_ok a" and e: "\<forall>h. retired_ready e h \<noteq> Panic" and sz: "sized page a"
    and r: "attach_with_recipient e page holding pid (Some p) su a = (Ok g, a')"
  obtains m c st where "ar_resources a' = Some m" "gr_layout g = rm_layout m" "gr_generation g = rm_generation m"
    "gr_mapping_slot g = 0" "gr_arena_scope g = ctl_scope (ar_control a')" "gr_drain_timeout g \<noteq> 0"
    "map_of (ar_claims a') (gr_incarnation g) = Some c" "map_of (ar_observers a') (gr_incarnation g) = Some st"
    "os_process st = Some p" "cm_incarnation c = gr_incarnation g" "cm_frames c = unat holding" "cm_recipient_pid c = pid"
    "w_quiescent c = 0" "w_offered c = rm_generation m" "mapping_slots c = (replicate (unat holding + 2) 0)[0 := rm_generation m]"
    "holding \<noteq> 0" "incarnation_raw (gr_incarnation g) \<noteq> 0"
proof -
  obtain k a1 where p: "poll_cleanup e a = (Ok k, a1)" and o: "w_terminal (ar_control a) = 0"
    using r by (auto simp: attach_with_recipient_def split: if_splits prod.splits outcome.splits)
  have s1: "sized page a1" using sized_poll [OF ok e sz] p by simp
  have i1: "arena_inv a1" using poll_cleanup_inv(2) [OF arena_ok_inv [OF ok] e] p by simp
  have su: "\<exists>su'. su = Ok su'"
    using r p o by (cases su) (auto simp: attach_with_recipient_def Let_def attach_rollback_def split: prod.splits outcome.splits)
  then obtain su' where su: "su = Ok su'" by blast
  obtain len rv b m where ad: "admit (ar_admission a1) \<lparr> request_frames = holding, request_claim_bytes = len \<rparr> = (Ok rv, b)"
    and m: "ar_resources a1 = Some m"
    and res: "(Ok g, a') = (let c = claim_map_new (incarnation rv) holding (su_scope su') pid (su_wake su') (su_release_wake su');
                        c1 = c\<lparr> mapping_slots := (mapping_slots c)[0 := rm_generation m], w_offered := rm_generation m \<rparr>;
                        st = observation_new (ar_native a1) (Some p) (ar_drain_timeout a1) (unat holding)
                    in (Ok \<lparr> gr_arena_scope = ctl_scope (ar_control a1), gr_layout = rm_layout m,
                             gr_generation = rm_generation m, gr_drain_timeout = ar_drain_timeout a1,
                             gr_mapping_slot = 0, gr_incarnation = incarnation rv \<rparr>,
                        a1\<lparr> ar_admission := b, ar_observers := bt_insert (incarnation rv) st (ar_observers a1),
                            ar_claims := bt_insert (incarnation rv) c1 (ar_claims a1) \<rparr>))"
    using r p o su by (auto simp: attach_with_recipient_def Let_def split: prod.splits outcome.splits option.splits)
  have wf: "bt_wf (ar_claims a1)" "bt_wf (ar_observers a1)"
    using i1 by (auto simp: arena_inv_def book_inv_def bt_wf_def intro: pages_bt_wf [unfolded bt_wf_def])
  have n: "next_incarnation (ar_admission a1) \<noteq> 0" "ar_drain_timeout a1 \<noteq> 0" using s1 by (simp_all add: sized_def ids_ok_def)
  show ?thesis
    by (rule that) (use res m admit_Ok(2,8) [OF ad] wf n in
        \<open>auto simp: Let_def map_of_bt_insert claim_map_new_def observation_new_def\<close>)
qed

lemma slots_owned_single:
  assumes "mapping_slots c = (replicate (n + 2) 0)[0 := g]" "cm_frames c = n" "g \<noteq> 0"
  shows "slots_owned [(g, 0)] c"
  using assms by (auto simp: slots_owned_def nth_Cons' split: if_splits)

definition attach_served :: "usize \<Rightarrow> u32 \<Rightarrow> nat \<Rightarrow> (setup_response \<times> setup_object list, socket_error) outcome \<Rightarrow> server_session \<Rightarrow> arena \<Rightarrow> bool" where
  "attach_served page pid p r s a \<longleftrightarrow> r \<noteq> Panic \<and>
     (\<forall>response objects. r = Ok (response, objects) \<longrightarrow>
       (\<exists>d i c. response = AttachedResponse d \<and> ss_incarnation s = Some i \<and> holds_page i p c a \<and> attached_matches page a c d objects \<and>
          page_fits pid c \<and> gd_mapping_slot d = 0 \<and> slots_owned [(gd_generation d, 0)] c \<and> w_offered c = gd_generation d \<and>
          cm_incarnation c = i))"

lemma len_not_Panic [simp]: "control_allocation_len page n \<noteq> Panic" "claim_allocation_len page h \<noteq> Panic"
  by (auto simp: control_allocation_len_def claim_allocation_len_def page_rounded_def size_mul_def size_add_def rounded_def and_then_eq_Panic)

lemma wf_drop_grant [simp]: "claim_wf c \<Longrightarrow> claim_wf (drop_grant g c)" "cm_frames (drop_grant g c) = cm_frames c"
  by (simp_all add: drop_grant_def claim_wf_def)

lemma grant_into_parts_page:
  assumes "grant_into_parts page endpoint g c = (r, c')" "endpoint \<noteq> Panic"
  shows "r \<noteq> Panic" "claim_wf c \<Longrightarrow> claim_wf c' \<and> cm_frames c' = cm_frames c" "r = Ok x \<Longrightarrow> c' = c \<and> endpoint = Ok ()"
  using assms
  by (auto simp: grant_into_parts_def into_parts_def and_then_eq_Panic split: outcome.splits)

lemma reply_attach_served:
  assumes st: "state_ok (a, rs)" "sized page a" and re: "reply_env_ok p re" and pid: "pid \<noteq> 0"
    and r: "reply_attach page pid re holding s a = (r, s', a')"
  shows "attach_served page pid p r s' a' \<and> state_ok (a', rs) \<and> sized page a'"
proof (cases "ss_incarnation s = None \<and> re_watch re = Ok p")
  case False
  then have "(\<exists>error. r = Err error) \<and> a' = a" using re r by (auto simp: reply_attach_def reply_env_ok_def split: outcome.splits if_splits)
  then show ?thesis using st by (auto simp: attach_served_def)
next
  case True
  have ok: "arena_ok a" using st(1) by (simp add: state_ok_def)
  have e: "\<forall>h. retired_ready (re_env re) h \<noteq> Panic" "re_setup re \<noteq> Panic" "re_endpoint re \<noteq> Panic"
    using re by (auto simp: reply_env_ok_def env_ok_def)
  obtain r1 a1 where r1: "attach_with_recipient (re_env re) page holding pid (Some p) (re_setup re) a = (r1, a1)" by (metis surj_pair)
  have so: "step_ok a (r1, a1)" using attach_step [OF ok e(1,2), of page holding pid "Some p"] r1 by simp
  then have st1: "r1 \<noteq> Panic" "state_ok (a1, rs)" using st(1) by (auto simp: step_ok_def state_ok_def)
  have sz1: "sized page a1" using sized_attach [OF ok e(1) st(2), of page holding pid "Some p" "re_setup re"] r1 by simp
  show ?thesis
  proof (cases r1)
    case (Err error)
    then have "r = Err (SocketArena error) \<and> a' = a1" using r r1 True by (simp add: reply_attach_def)
    then show ?thesis using st1 sz1 by (simp add: attach_served_def)
  next
    case (Ok g)
    let ?i = "gr_incarnation g"
    obtain m c ob where m: "ar_resources a1 = Some m" "gr_layout g = rm_layout m" "gr_generation g = rm_generation m"
      "gr_mapping_slot g = 0" "gr_arena_scope g = ctl_scope (ar_control a1)" "gr_drain_timeout g \<noteq> 0"
      and c: "map_of (ar_claims a1) ?i = Some c" "map_of (ar_observers a1) ?i = Some ob" "os_process ob = Some p"
      "cm_incarnation c = ?i" "cm_frames c = unat holding" "cm_recipient_pid c = pid" "w_quiescent c = 0"
      "w_offered c = rm_generation m" "mapping_slots c = (replicate (unat holding + 2) 0)[0 := rm_generation m]"
      and nz: "holding \<noteq> 0" "incarnation_raw ?i \<noteq> 0"
      using attach_result [OF ok e(1) st(2)] r1 Ok by metis
    have inv1: "arena_inv a1" using st1(2) by (simp add: state_ok_def arena_ok_def)
    note fits = arena_fits [OF inv1 sz1 m(1)]
    define cb where "cb = ring_bell (ss_bell s) c"
    have v: "page_view cb = page_view c" "w_quiescent cb = 0" using c(7) by (simp_all add: cb_def ring_bell_def page_view_def)
    obtain rp cp where gp: "grant_into_parts page (re_endpoint re) g cb = (rp, cp)" by (metis surj_pair)
    note gpp = grant_into_parts_page [OF gp e(3)]
    have ares: "r = map_outcome_ok (\<lambda>(d, objects). (AttachedResponse d, objects)) (arena_failure rp)"
      "ss_incarnation s' = Some ?i" "a' = on_page ?i (\<lambda>_. cp) (on_page ?i (ring_bell (ss_bell s)) a1)"
      using r r1 True Ok c(1) gp by (auto simp: reply_attach_def Let_def cb_def)
    have wb: "claim_wf (ring_bell b x) = claim_wf x" "cm_frames (ring_bell b x) = cm_frames x" for b x
      by (simp_all add: ring_bell_def claim_wf_def)
    have s2: "state_ok (on_page ?i (ring_bell (ss_bell s)) a1, rs)" by (rule state_ok_on_page [OF st1(2)]) (simp add: wb)
    have s3: "state_ok (a', rs)"
      unfolding ares(3) by (rule state_ok_on_page [OF s2]) (use c(1) gpp(2) in \<open>auto simp: cb_def\<close>)
    have sz3: "sized page a'" using sz1 by (simp add: ares(3) sized_on_page)
    have "attach_served page pid p r s' a'"
    proof (cases rp)
      case rok: (Ok x)
      obtain d objects where x: "x = (d, objects)" by (cases x)
      have cp: "cp = cb" "re_endpoint re = Ok ()" using gpp(3) rok by simp_all
      have parts: "gd_generation d = rm_generation m" "gd_mapping_slot d = 0"
        using gp rok x cp m(3,4) by (auto simp: grant_into_parts_def into_parts_def and_then_eq_Ok)
      have "holds_page ?i p cb a'"
        using c v(2) by (auto simp: ares(3) cp held_page_def)
      moreover have "attached_matches page a' cb d objects"
        using gp rok x cp fits m by (auto simp: attached_matches_def layout_fits_def ares(3) intro!: exI [of _ g])
      moreover have "page_fits pid cb"
        using v(1) c(4-6) nz pid page_frames_bound [OF inv1 m(1) c(1)] by (auto simp: page_fits_def page_view_def unat_eq_zero)
      moreover have "slots_owned [(gd_generation d, 0)] cb"
        using slots_owned_view [OF v(1)] slots_owned_single [OF c(9,5)] fits(2) parts(1) by simp
      ultimately show ?thesis using v(1) c(4,8) parts ares(1,2) rok x by (auto simp: attach_served_def page_view_def)
    qed (use ares(1) gpp(1) in \<open>simp_all add: attach_served_def\<close>)
    then show ?thesis using s3 sz3 by simp
  qed (use st1 in simp)
qed

section \<open>Serving a request for a configuration\<close>

definition offer_served ::
    "usize \<Rightarrow> u32 \<Rightarrow> nat \<Rightarrow> incarnation_id \<Rightarrow> claim_map \<Rightarrow> (u64 \<times> nat) list \<Rightarrow> arena \<Rightarrow>
     (setup_response \<times> setup_object list, socket_error) outcome \<Rightarrow> arena \<Rightarrow> bool" where
  "offer_served page pid p i c xs a r a' \<longleftrightarrow>
     (\<forall>response objects. r = Ok (response, objects) \<longrightarrow>
        (response = EmptyResponse \<and> a' = a) \<or>
        (\<exists>d c'. response = ConfigurationResponse d \<and> holds_page i p c' a' \<and> configuration_matches page a' c' d objects \<and>
          page_fits pid c' \<and> slots_owned ((cd_generation d, unat (cd_mapping_slot d)) # xs) c' \<and> w_offered c' = cd_generation d \<and>
          cm_incarnation c' = i \<and> cm_scope c' = cm_scope c \<and> (w_active c = 0 \<longrightarrow> w_active c' = 0))) \<and>
     ((\<exists>error. r = Err error) \<longrightarrow> a' = a) \<and>
     ctl_scope (ar_control a') = ctl_scope (ar_control a) \<and> ctl_history (ar_control a') = ctl_history (ar_control a)"

lemma wf_drop_configuration [simp]:
  "claim_wf c \<Longrightarrow> claim_wf (drop_configuration g c)" "cm_frames (drop_configuration g c) = cm_frames c"
  by (simp_all add: drop_configuration_def claim_wf_def)

lemma reply_configuration_state:
  assumes st: "state_ok (a, rs)" "sized page a" and re: "reply_env_ok p re"
    and r: "reply_configuration re s a = (r, s', a')"
  shows "r \<noteq> Panic \<and> s' = s \<and> state_ok (a', rs) \<and> sized page a'"
proof (cases "ss_incarnation s")
  case None
  then show ?thesis using r st by (auto simp: reply_configuration_def)
next
  case (Some i)
  have ok: "arena_ok a" using st(1) by (simp add: state_ok_def)
  obtain r1 a1 where r1: "configuration_offer (re_fds re) i a = (r1, a1)" by (metis surj_pair)
  have "re_fds re \<noteq> Panic" using re by (simp add: reply_env_ok_def)
  then have so: "step_ok a (r1, a1)" using offer_step [OF ok, of "re_fds re" i] r1 by simp
  then have st1: "r1 \<noteq> Panic" "state_ok (a1, rs)" using st(1) by (auto simp: step_ok_def state_ok_def)
  have sz1: "sized page a1" using sized_page_ops(4) [OF st(2), of "re_fds re" i] r1 by simp
  show ?thesis
  proof (cases "\<exists>g. r1 = Ok (Some g)")
    case False
    then show ?thesis using r Some r1 st1 sz1 by (auto simp: reply_configuration_def split: outcome.splits option.splits)
  next
    case True
    then obtain g where g: "r1 = Ok (Some g)" by blast
    have "map_of (ar_claims a1) i \<noteq> None"
      using r1 g by (auto simp: configuration_offer_def Let_def map_of_alist_map_value split: option.splits if_splits outcome.splits)
    then obtain c where c: "map_of (ar_claims a1) i = Some c" by blast
    obtain rp cp where cp: "configuration_into_parts g c = (rp, cp)" by (metis surj_pair)
    have w: "claim_wf c \<Longrightarrow> claim_wf cp \<and> cm_frames cp = cm_frames c" "rp \<noteq> Panic"
      using cp by (auto simp: configuration_into_parts_def split: if_splits)
    have res: "a' = on_page i (\<lambda>_. cp) a1" "s' = s" "r \<noteq> Panic"
      using r Some r1 g c cp w(2) by (auto simp: reply_configuration_def split: outcome.splits) (cases rp; auto)
    have "state_ok (a', rs)" unfolding res(1) by (rule state_ok_on_page [OF st1(2)]) (use c w(1) in auto)
    then show ?thesis using res sz1 by (simp add: sized_on_page)
  qed
qed

lemma reply_configuration_served:
  assumes st: "state_ok (a, rs)" "sized page a" and re: "reply_env_ok p re"
    and i: "ss_incarnation s = Some i" "holds_page i p c a" "slots_owned xs c" "w_offered c = 0" "cm_incarnation c = i" "page_fits pid c"
    and r: "reply_configuration re s a = (r, s', a')"
  shows "offer_served page pid p i c xs a r a'"
proof -
  obtain c1 where c1: "map_of (ar_claims a) i = Some c1" "keeps_page c c1" "w_quiescent c1 = 0" using holdsE [OF i(2)] .
  have v: "cm_frames c1 = cm_frames c" "cm_incarnation c1 = i" "cm_scope c1 = cm_scope c" "page_fits pid c1" "w_offered c1 = 0"
    "slots_owned xs c1" "w_active c = 0 \<longrightarrow> w_active c1 = 0"
    using c1(2) i(3-6) slots_owned_view [of c1 c] by (auto simp: keeps_page_def page_view_def page_fits_def)
  have inv: "arena_inv a" using st(1) by (simp add: state_ok_def arena_ok_def)
  show ?thesis
  proof (cases "\<exists>m n. w_active c1 \<noteq> 0 \<and> ar_resources a = Some m \<and> re_fds re = Ok () \<and>
      find (\<lambda>s. mapping_slots c1 ! s = 0) [0..<cm_frames c1 + 2] = Some n")
    case False
    then have "a' = a \<and> (\<forall>x. r = Ok x \<longrightarrow> x = (EmptyResponse, []))"
      using r i(1) c1(1) v(5) re
      by (auto simp: reply_configuration_def configuration_offer_def reply_env_ok_def split: option.splits outcome.splits if_splits)
    then show ?thesis by (auto simp: offer_served_def)
  next
    case True
    then obtain m n where m: "w_active c1 \<noteq> 0" "ar_resources a = Some m" "re_fds re = Ok ()"
      "find (\<lambda>s. mapping_slots c1 ! s = 0) [0..<cm_frames c1 + 2] = Some n" by blast
    have n: "n < cm_frames c1 + 2" "mapping_slots c1 ! n = 0" using m(4) by (auto simp: find_Some_iff simp del: upt_Suc)
    note fits = arena_fits [OF inv st(2) m(2)]
    define c2 where "c2 = c1\<lparr> mapping_slots := (mapping_slots c1)[n := rm_generation m], w_offered := rm_generation m \<rparr>"
    define g where "g = \<lparr> cg_layout = rm_layout m, cg_generation = rm_generation m, cg_arena_scope = ctl_scope (ar_control a),
      cg_claim_scope = cm_scope c1, cg_incarnation = i, cg_mapping_slot = n \<rparr>"
    have pid: "cm_recipient_pid c2 \<noteq> 0" using v(4) by (simp add: c2_def page_fits_def)
    then obtain d where d: "configuration_into_parts g c2 = (Ok d, c2)" by (simp add: configuration_into_parts_def)
    have dd: "cd_generation d = rm_generation m" "unat (cd_mapping_slot d) = n"
      using d pid n(1) v(4) by (auto simp: configuration_into_parts_def g_def page_fits_def of_nat_u32)
    have res: "r = Ok (ConfigurationResponse d, [ResourceObject (resource_header_new (cg_layout g) (cg_arena_scope g) (cg_generation g)),
        PayloadObject (cg_generation g)])" "a' = on_page i (\<lambda>_. c2) (on_page i (\<lambda>_. c2) a)"
      using r i(1) c1(1) v(5) m d
      by (auto simp: reply_configuration_def configuration_offer_def Let_def c2_def [symmetric] g_def [symmetric] map_of_alist_map_value on_page_def)
    have "holds_page i p c2 a'"
      using i(2) c1 by (auto simp: res(2) held_page_def c2_def)
    moreover have "configuration_matches page a' c2 d [ResourceObject (resource_header_new (cg_layout g) (cg_arena_scope g) (cg_generation g)),
        PayloadObject (cg_generation g)]"
      using d fits n(1) by (auto simp: configuration_matches_def layout_fits_def res(2) g_def c2_def intro!: exI [of _ g])
    moreover have "slots_owned ((cd_generation d, unat (cd_mapping_slot d)) # xs) c2"
      using slots_owned_add [OF v(6) n fits(2), of "rm_generation m"] dd by (simp add: c2_def)
    ultimately show ?thesis
      using v dd by (auto simp: offer_served_def res c2_def page_fits_def)
  qed
qed

section \<open>Every step keeps the invariant\<close>

lemma not_opened_inv:
  "pid \<noteq> 0 \<Longrightarrow> state_ok (sw_arena w) \<Longrightarrow> sized page (fst (sw_arena w)) \<Longrightarrow> (sc_failed (sw_client w) \<longrightarrow> sw_call w = None) \<Longrightarrow> \<not> opened w \<Longrightarrow>
   setup_inv page pid p w"
  by (simp add: setup_inv_def)

lemma opened_inv:
  "pid \<noteq> 0 \<Longrightarrow> state_ok (sw_arena w) \<Longrightarrow> sized page (fst (sw_arena w)) \<Longrightarrow> \<not> sc_failed (sw_client w) \<Longrightarrow>
   calls_ok w \<Longrightarrow> (linked w \<Longrightarrow> link page pid p w) \<Longrightarrow> setup_inv page pid p w"
  by (simp add: setup_inv_def)

lemma link_exI:
  "ss_incarnation (sw_session w) = Some i \<Longrightarrow> page_ok pid p i c w \<Longrightarrow> consumer_ok i c w \<Longrightarrow> reply_ok page c w \<Longrightarrow> link page pid p w"
  by (auto simp: link_def)

lemma serve_attach_inv:
  assumes inv: "setup_inv page pid p w" and o: "opened w" and s: "sw_arena w = (a, rs)" and sv: "sw_serving w"
    and req: "sw_request w = Some (AttachRequest h)" and re: "reply_env_ok p re"
    and r: "reply_attach page pid re h (sw_session w) a = (r, s', a')"
    and reply: "r = Ok reply \<or> (\<exists>error. r = Err error) \<and> reply = (RejectedResponse m, [])"
  shows "setup_inv page pid p (w\<lparr> sw_arena := (a', rs), sw_session := s', sw_request := None, sw_reply := Some reply \<rparr>)"
proof -
  let ?w = "w\<lparr> sw_arena := (a', rs), sw_session := s', sw_request := None, sw_reply := Some reply \<rparr>"
  have st: "state_ok (a, rs)" "sized page a" "pid \<noteq> 0" and co: "calls_ok w" and nf: "\<not> sc_failed (sw_client w)"
    using inv o s by (auto simp: setup_inv_def opened_def)
  have call: "sw_call w = Some (AttachRequest h)" "sc_identity (sw_client w) = None" "sw_consumer w = None"
    using co req by (auto simp: calls_ok_def)
  note served = reply_attach_served [OF st(1,2) re st(3) r]
  show ?thesis
  proof (cases "\<exists>x. r = Ok x")
    case False
    then have "reply = (RejectedResponse m, [])" using reply by blast
    then show ?thesis
      using served st(3) nf call by (intro opened_inv) (auto simp: calls_ok_def linked_def)
  next
    case True
    then have "r = Ok reply" using reply by blast
    then have rr: "r = Ok (fst reply, snd reply)" by simp
    obtain d i c where x: "fst reply = AttachedResponse d" "ss_incarnation s' = Some i" "holds_page i p c a'"
      "attached_matches page a' c d (snd reply)" "page_fits pid c" "gd_mapping_slot d = 0"
      "slots_owned [(gd_generation d, 0)] c" "w_offered c = gd_generation d" "cm_incarnation c = i"
      using served rr unfolding attach_served_def by blast
    obtain objects where rep: "reply = (AttachedResponse d, objects)" using x(1) by (cases reply) simp
    have "link page pid p ?w"
      by (rule link_exI [of _ i _ _ c]) (use x call sv rep in
          \<open>auto simp: page_ok_def consumer_ok_def reply_ok_def owned_def offered_def\<close>)
    then show ?thesis
      using served st(3) nf call x(1) by (intro opened_inv) (auto simp: calls_ok_def)
  qed
qed

lemma serve_configuration_inv:
  assumes inv: "setup_inv page pid p w" and o: "opened w" and s: "sw_arena w = (a, rs)" and sv: "sw_serving w"
    and req: "sw_request w = Some ConfigurationRequest" and re: "reply_env_ok p re"
    and r: "reply_configuration re (sw_session w) a = (r, s', a')"
    and reply: "r = Ok reply \<or> (\<exists>error. r = Err error) \<and> reply = (RejectedResponse m, [])"
  shows "setup_inv page pid p (w\<lparr> sw_arena := (a', rs), sw_session := s', sw_request := None, sw_reply := Some reply \<rparr>)"
proof -
  let ?w = "w\<lparr> sw_arena := (a', rs), sw_session := s', sw_request := None, sw_reply := Some reply \<rparr>"
  have st: "state_ok (a, rs)" "sized page a" "pid \<noteq> 0" and co: "calls_ok w" and nf: "\<not> sc_failed (sw_client w)"
    using inv o s by (auto simp: setup_inv_def opened_def)
  have call: "sw_call w = Some ConfigurationRequest" "sc_identity (sw_client w) \<noteq> None" "sw_reply w = None"
    using co req by (auto simp: calls_ok_def)
  then have "link page pid p w" using inv o by (simp add: setup_inv_def linked_def)
  then obtain i c where l: "ss_incarnation (sw_session w) = Some i" "page_ok pid p i c w" "consumer_ok i c w" by (auto simp: link_def)
  obtain con where con: "sw_consumer w = Some con" using l(3) call(2) by (auto simp: consumer_ok_def)
  have pg: "holds_page i p c a" "slots_owned (consumer_map con) c" "w_offered c = 0" "cm_incarnation c = i" "page_fits pid c"
    using l(2) s call(3) con by (auto simp: page_ok_def owned_def offered_def)
  note state = reply_configuration_state [OF st(1,2) re r]
  have served: "offer_served page pid p i c (consumer_map con) a r a'" by (rule reply_configuration_served [OF st(1,2) re l(1) pg r])
  have same: "s' = sw_session w" "ctl_scope (ar_control a') = ctl_scope (ar_control a)" "ctl_history (ar_control a') = ctl_history (ar_control a)"
    using state served by (auto simp: offer_served_def)
  have "link page pid p ?w \<and> (\<forall>d objects. reply \<noteq> (AttachedResponse d, objects))"
  proof (cases "\<exists>d objects. r = Ok (ConfigurationResponse d, objects)")
    case True
    then obtain d objects where d: "r = Ok (ConfigurationResponse d, objects)" by blast
    then have rep: "reply = (ConfigurationResponse d, objects)" using reply by auto
    obtain c' where c': "holds_page i p c' a'" "configuration_matches page a' c' d objects" "page_fits pid c'"
      "slots_owned ((cd_generation d, unat (cd_mapping_slot d)) # consumer_map con) c'" "w_offered c' = cd_generation d"
      "cm_incarnation c' = i" "cm_scope c' = cm_scope c"
      using served d unfolding offer_served_def by blast
    have "link page pid p ?w"
      by (rule link_exI [of _ i _ _ c']) (use l c' same sv rep con s in
          \<open>auto simp: page_ok_def consumer_ok_def reply_ok_def owned_def offered_def\<close>)
    then show ?thesis using rep by simp
  next
    case False
    have a: "a' = a" and rm: "reply_map (Some reply) = []" "\<forall>d objects. reply \<noteq> (AttachedResponse d, objects)"
        "\<forall>d objects. reply \<noteq> (ConfigurationResponse d, objects)"
      using served reply False unfolding offer_served_def by (cases reply; auto)+
    have "link page pid p ?w"
      by (rule link_exI [of _ i _ _ c]) (use l a same sv rm con s call(3) in
          \<open>auto simp: page_ok_def consumer_ok_def reply_ok_def owned_def offered_def\<close>)
    then show ?thesis using rm by simp
  qed
  then show ?thesis
    using state st(3) nf call by (intro opened_inv) (auto simp: calls_ok_def)
qed

lemma serve_inv:
  assumes inv: "setup_inv page pid p w" and en: "setup_enabled page p (Serve re sent) w"
  shows "setup_inv page pid p (setup_step show_error page pid (Serve re sent) w)"
proof -
  obtain a rs where s: "sw_arena w = (a, rs)" by (cases "sw_arena w")
  obtain req where req: "sw_request w = Some req" and sv: "sw_serving w" and re: "reply_env_ok p re" using en by auto
  have st: "state_ok (a, rs)" "sized page a" "pid \<noteq> 0" "sc_failed (sw_client w) \<longrightarrow> sw_call w = None"
    using inv s by (auto simp: setup_inv_def)
  obtain r s' a' where r: "session_reply page pid re req (sw_session w) a = (r, s', a')" by (metis prod_cases3)
  have st': "r \<noteq> Panic" "state_ok (a', rs)" "sized page a'"
    using reply_attach_served [OF st(1,2) re st(3)] reply_configuration_state [OF st(1,2) re] r
    by (cases req; fastforce simp: attach_served_def)+
  define reply where "reply = (case r of Ok x \<Rightarrow> x | Err error \<Rightarrow> (RejectedResponse (show_error error), []) | Panic \<Rightarrow> (EmptyResponse, []))"
  have sr: "serve_request show_error page pid re req (sw_session w) a = (Ok reply, s', a')"
    using r st'(1) by (simp add: serve_request_def reply_def split: outcome.split)
  let ?w1 = "w\<lparr> sw_arena := (a', rs), sw_session := s', sw_request := None \<rparr>"
  show ?thesis
  proof (cases sent)
    case False
    have no: "\<not> opened ?w1"
    proof
      assume "opened ?w1"
      then have "opened w" using req by (auto simp: opened_def stranded_def)
      then have "sw_call w = Some req" "sw_reply w = None" using inv req by (auto simp: setup_inv_def calls_ok_def)
      then show False using \<open>opened ?w1\<close> by (simp add: opened_def stranded_def)
    qed
    have "setup_inv page pid p (end_session ?w1)"
      by (rule end_session_inv, rule not_opened_inv) (use st st' no in simp_all)
    then show ?thesis using req s sr False by (simp add: serve_step_def Let_def)
  next
    case True
    have step: "setup_step show_error page pid (Serve re sent) w = ?w1\<lparr> sw_reply := Some reply \<rparr>"
      using req s sr True by (simp add: serve_step_def Let_def)
    show ?thesis
    proof (cases "opened w")
      case o: True
      have rep: "r = Ok reply \<or> (\<exists>error. r = Err error) \<and> reply = (RejectedResponse (case r of Err e \<Rightarrow> show_error e), [])"
        using st'(1) by (simp add: reply_def split: outcome.split)
      show ?thesis
        unfolding step
        using serve_attach_inv [OF inv o s sv _ re _ rep] serve_configuration_inv [OF inv o s sv _ re _ rep] r req
        by (cases req) simp_all
    next
      case False
      then have "sc_failed (sw_client w)" using req by (simp add: opened_def stranded_def)
      then show ?thesis unfolding step using st st' by (intro not_opened_inv) (simp_all add: opened_def)
    qed
  qed
qed

lemma the_answer_simps:
  assumes "\<not> sc_failed cl"
  shows "length objects = 6 \<Longrightarrow> the_answer (AttachedResponse d, objects) cl = (Ok (AttachedResponse d, objects), cl)"
    "length objects = 2 \<Longrightarrow> the_answer (ConfigurationResponse d', objects) cl = (Ok (ConfigurationResponse d', objects), cl)"
    "the_answer (EmptyResponse, objects) cl = (Ok (EmptyResponse, []), cl)"
    "the_answer (RejectedResponse m, objects) cl = (Err (Rejected m), cl)"
  using assms by (simp_all add: the_answer_def client_request_def object_count_def receive_objects_def TRANSFER_FINISHED_def)

lemma attached_length: "attached_matches page a c d objects \<Longrightarrow> length objects = 6"
  by (auto simp: attached_matches_def grant_into_parts_def and_then_eq_Ok)

lemma offered_length: "configuration_matches page a c d objects \<Longrightarrow> length objects = 2"
  by (auto simp: configuration_matches_def)

lemma wf_offered [simp]: "claim_wf (c\<lparr> w_offered := v \<rparr>) = claim_wf c"
  by (simp add: claim_wf_def)

text \<open>The attachment that arrives.\<close>

lemma link_attached:
  assumes l: "link page pid p w" and co: "calls_ok w" and rep: "sw_reply w = Some (AttachedResponse d, objects)"
  obtains i c c' where "ss_incarnation (sw_session w) = Some i" "page_ok pid p i c w"
    "map_of (ar_claims (fst (sw_arena w))) i = Some c'" "keeps_page c c'" "w_quiescent c' = 0"
    "attached_matches page (fst (sw_arena w)) c d objects" "gd_mapping_slot d = 0" "slots_owned [(gd_generation d, 0)] c"
    "w_offered c = gd_generation d" "mapping_slots c ! 0 = gd_generation d" "page_fits pid c" "cm_incarnation c = i"
    "length (mapping_slots c) = cm_frames c + 2" "sw_consumer w = None" "sc_identity (sw_client w) = None"
proof -
  obtain i c where x: "ss_incarnation (sw_session w) = Some i" "page_ok pid p i c w" "reply_ok page c w"
    using l by (auto simp: link_def)
  have id: "sc_identity (sw_client w) = None" "sw_consumer w = None" using co rep by (auto simp: calls_ok_def)
  have m: "attached_matches page (fst (sw_arena w)) c d objects" using x(3) rep by (simp add: reply_ok_def)
  have pf: "page_fits pid c" using x(2) by (simp add: page_ok_def)
  have slot: "gd_mapping_slot d = 0" using m pf by (rule attached_parts) (metis grant_descriptor.select_convs(11))
  obtain c' where "map_of (ar_claims (fst (sw_arena w))) i = Some c'" "keeps_page c c'" "w_quiescent c' = 0"
    using x(2) holdsE unfolding page_ok_def by blast
  then show ?thesis
    by (rule that [OF x(1,2)]) (use x(2) m slot id rep pf in \<open>auto simp: page_ok_def owned_def offered_def slots_owned_def\<close>)
qed

lemma return_attach_inv:
  assumes inv: "setup_inv page pid p w" and o: "opened w" and s: "sw_arena w = (a, rs)"
    and call: "sw_call w = Some (AttachRequest h)" "sw_reply w = Some (AttachedResponse d, objects)"
    and ie: "ie_map ie \<noteq> Panic" "ie_os ie \<noteq> Panic"
  shows "setup_inv page pid p (return_step page pid ie (AttachRequest h) (AttachedResponse d, objects) w)"
proof -
  have st: "state_ok (a, rs)" "sized page a" "pid \<noteq> 0" and co: "calls_ok w" and nf: "\<not> sc_failed (sw_client w)"
    using inv o s by (auto simp: setup_inv_def opened_def)
  have "link page pid p w" using inv o call(2) by (simp add: setup_inv_def linked_def)
  then obtain i c c' where i: "ss_incarnation (sw_session w) = Some i" "page_ok pid p i c w"
    and c': "map_of (ar_claims (fst (sw_arena w))) i = Some c'" "keeps_page c c'" "w_quiescent c' = 0"
    and m: "attached_matches page (fst (sw_arena w)) c d objects" "gd_mapping_slot d = 0" "slots_owned [(gd_generation d, 0)] c"
      "w_offered c = gd_generation d" "mapping_slots c ! 0 = gd_generation d" "page_fits pid c" "cm_incarnation c = i"
      "length (mapping_slots c) = cm_frames c + 2" and id: "sw_consumer w = None" "sc_identity (sw_client w) = None"
    by (rule link_attached [OF _ co call(2)])
  have ans: "the_answer (AttachedResponse d, objects) (sw_client w) = (Ok (AttachedResponse d, objects), sw_client w)"
    using the_answer_simps(1) [OF nf] attached_length [OF m(1)] by simp
  have ma: "attached_matches page a c d objects" "map_of (ar_claims a) (cm_incarnation c) = Some c'" using m(1,7) c'(1) s by simp_all
  obtain l where imp: "import_attachment page pid ie (AttachedResponse d) objects a =
     (if gd_payload_capacity d = 0 then (Err (Protocol ''CPU setup cannot import native resources''), a)
      else if instant_add (ie_env ie) (unat (gd_drain_timeout_ns d)) = None
      then (Err (SocketArena (Mapping ''invalid consumer drain interval'')), a)
      else case ie_map ie of
        Err error \<Rightarrow> (Err (SocketArena error), a)
      | Panic \<Rightarrow> (Panic, a)
      | Ok _ \<Rightarrow>
        (case ie_os ie of
           Err error \<Rightarrow> (Err (SocketArena error), on_page (cm_incarnation c) (\<lambda>_. drop_grant (attached_grant d l) c') a)
         | Panic \<Rightarrow> (Panic, on_page (cm_incarnation c) (\<lambda>_. drop_grant (attached_grant d l) c') a)
         | Ok _ \<Rightarrow>
           (Ok \<lparr> con_incarnation = cm_incarnation c, con_claim_scope = cm_scope c, con_arena_scope = gd_arena_scope d,
                 con_history = history l, con_resources = Some (gd_generation d, 0), con_retained = [] \<rparr>,
            on_page (cm_incarnation c) (\<lambda>_. c'\<lparr> w_offered := 0 \<rparr>) a)))"
    and l: "layout_fits page a l (gd_arena_scope d)"
    by (rule import_attached [OF ma(1) m(6,8) ma(2) c'(2) m(5,4)])
  have wf: "claim_wf c'" using st(1) map_of_SomeD [OF c'(1)] s by (auto simp: state_ok_def arena_ok_def arena_inv_def intro: pages_wf)
  have pages: "state_ok (on_page i (\<lambda>_. f c') a, rs)" if "claim_wf (f c')" "cm_frames (f c') = cm_frames c'" for f
    by (rule state_ok_on_page [OF st(1)]) (use c'(1) s that in auto)
  obtain r a' where ra: "import_attachment page pid ie (AttachedResponse d) objects a = (r, a')" by (metis surj_pair)
  have st': "state_ok (a', rs)" "sized page a'" "r \<noteq> Panic"
    using ra imp st(1,2) ie pages [of "drop_grant (attached_grant d l)"] pages [of "\<lambda>c. c\<lparr> w_offered := 0 \<rparr>"] wf m(7)
    by (auto simp: sized_on_page split: if_splits outcome.splits)
  show ?thesis
  proof (cases "\<exists>con. r = Ok con")
    case False
    then obtain error where e: "r = Err error" using st'(3) by (cases r) auto
    have step: "return_step page pid ie (AttachRequest h) (AttachedResponse d, objects) w =
        w\<lparr> sw_arena := (a', rs), sw_client := client_fail (sw_client w), sw_call := None, sw_reply := None, sw_consumer := sw_consumer w \<rparr>"
      using ans ra e s by (simp add: return_step_def attach_finish_def)
    show ?thesis unfolding step using st st' by (intro not_opened_inv) (simp_all add: opened_def client_fail_def)
  next
    case True
    define con where "con = \<lparr> con_incarnation = i, con_claim_scope = cm_scope c, con_arena_scope = gd_arena_scope d,
                 con_history = history l, con_resources = Some (gd_generation d, 0), con_retained = [] \<rparr>"
    have r: "r = Ok con" and a': "a' = on_page i (\<lambda>_. c'\<lparr> w_offered := 0 \<rparr>) a"
      using True ra imp m(7) by (auto simp: con_def split: if_splits outcome.splits)
    let ?w = "w\<lparr> sw_arena := (a', rs), sw_client := (sw_client w)\<lparr> sc_identity := Some (i, cm_scope c) \<rparr>, sw_call := None,
        sw_reply := None, sw_consumer := Some con \<rparr>"
    have step: "return_step page pid ie (AttachRequest h) (AttachedResponse d, objects) w = ?w"
      using ans ra r s by (simp add: return_step_def attach_finish_def con_def)
    let ?c = "c'\<lparr> w_offered := 0 \<rparr>"
    have v: "page_view c' = page_view c" using c'(2) by (simp add: keeps_page_def)
    have "slots_owned [(gd_generation d, 0)] ?c" using m(3) v by (simp add: slots_owned_def page_view_def)
    moreover have "holds_page i p ?c a'" unfolding a' by (rule holds_on_page [of _ _ c]) (use i(2) s c'(3) in \<open>simp_all add: page_ok_def\<close>)
    moreover have "page_fits pid ?c" "cm_incarnation ?c = i" "cm_scope ?c = cm_scope c"
      using v m(6,7) by (simp_all add: page_view_def page_fits_def)
    moreover have "sw_serving w \<or> w_active ?c = 0" using i(2) c'(2) by (auto simp: page_ok_def keeps_page_def)
    ultimately have "link page pid p ?w"
      using i(1) l by (intro link_exI [of _ i _ _ ?c])
        (auto simp: page_ok_def consumer_ok_def reply_ok_def owned_def offered_def consumer_map_def con_def a' layout_fits_def)
    then show ?thesis unfolding step using st(3) st' nf co call by (intro opened_inv) (auto simp: calls_ok_def)
  qed
qed

text \<open>Changes of the page by the consumer itself.\<close>

lemma consumer_page:
  assumes l: "link page pid p w" and id: "sc_identity (sw_client w) \<noteq> None"
  obtains i c c' con where "ss_incarnation (sw_session w) = Some i" "page_ok pid p i c w" "consumer_ok i c w" "reply_ok page c w"
    "sw_consumer w = Some con" "con_incarnation con = i" "con_arena_scope con = ctl_scope (ar_control (fst (sw_arena w)))"
    "con_history con = ctl_history (ar_control (fst (sw_arena w)))"
    "map_of (ar_claims (fst (sw_arena w))) i = Some c'" "keeps_page c c'" "w_quiescent c' = 0" "page_fits pid c"
    "slots_owned (owned w) c'" "w_offered c' = offered w"
proof -
  obtain i c where x: "ss_incarnation (sw_session w) = Some i" "page_ok pid p i c w" "consumer_ok i c w" "reply_ok page c w"
    using l by (auto simp: link_def)
  obtain c' where c': "map_of (ar_claims (fst (sw_arena w))) i = Some c'" "keeps_page c c'" "w_quiescent c' = 0"
    using x(2) holdsE unfolding page_ok_def by blast
  have v: "page_view c' = page_view c" using c'(2) by (simp add: keeps_page_def)
  obtain con where con: "sw_consumer w = Some con" "con_incarnation con = i"
    "con_arena_scope con = ctl_scope (ar_control (fst (sw_arena w)))" "con_history con = ctl_history (ar_control (fst (sw_arena w)))"
    using x(3) id by (auto simp: consumer_ok_def)
  show ?thesis
    by (rule that [OF x con c'])
      (use x(2) v slots_owned_view [OF v] in \<open>simp_all add: page_ok_def page_view_def\<close>)
qed

text \<open>A step in which the client replaces its page by one with other slots and offer.\<close>

lemma link_page_change:
  assumes i: "ss_incarnation (sw_session w) = Some i" "page_ok pid p i c w" "consumer_ok i c w"
    and c': "keeps_page c c'" "w_quiescent c' = 0" and s: "sw_arena w = (a, rs)"
    and n: "cm_incarnation n = cm_incarnation c'" "cm_frames n = cm_frames c'" "cm_scope n = cm_scope c'"
      "cm_recipient_pid n = cm_recipient_pid c'" "w_quiescent n = 0" "w_active n = w_active c'"
    and w': "sw_arena w' = (on_page i (\<lambda>_. n) a, rs)" "sw_session w' = sw_session w" "sw_client w' = sw_client w"
      "sw_serving w' = sw_serving w" "reply_map (sw_reply w') = []" "sw_consumer w' = Some con'" "con_incarnation con' = i"
      "con_claim_scope con' = cm_scope c" "con_arena_scope con' = ctl_scope (ar_control a)" "con_history con' = ctl_history (ar_control a)"
    and o: "slots_owned (consumer_map con') n" "w_offered n = 0"
  shows "link page pid p w'"
proof (rule link_exI [of _ i _ _ n])
  show "ss_incarnation (sw_session w') = Some i" using i(1) w'(2) by simp
  have "holds_page i p n (on_page i (\<lambda>_. n) a)" by (rule holds_on_page [of _ _ c]) (use i(2) s n in \<open>simp_all add: page_ok_def\<close>)
  then show "page_ok pid p i n w'"
    using i(2) c' n w' o by (auto simp: page_ok_def owned_def offered_def keeps_page_def page_view_def page_fits_def)
  show "consumer_ok i n w'" using i(3) c'(1) n(3) w' by (auto simp: consumer_ok_def keeps_page_def page_view_def)
  show "reply_ok page n w'" using w'(5) by (auto simp: reply_ok_def)
qed

lemma return_install_inv:
  assumes inv: "setup_inv page pid p w" and o: "opened w" and s: "sw_arena w = (a, rs)"
    and call: "sw_call w = Some ConfigurationRequest" "sw_reply w = Some (ConfigurationResponse d, objects)"
    and ie: "ie_os ie \<noteq> Panic"
  shows "setup_inv page pid p (return_step page pid ie ConfigurationRequest (ConfigurationResponse d, objects) w)"
proof -
  have st: "state_ok (a, rs)" "sized page a" "pid \<noteq> 0" and co: "calls_ok w" and nf: "\<not> sc_failed (sw_client w)"
    using inv o s by (auto simp: setup_inv_def opened_def)
  have id: "sc_identity (sw_client w) \<noteq> None" using co call by (simp add: calls_ok_def)
  have "link page pid p w" using inv o id by (simp add: setup_inv_def linked_def)
  then obtain i c c' con where i: "ss_incarnation (sw_session w) = Some i" "page_ok pid p i c w" "consumer_ok i c w" "reply_ok page c w"
    and con: "sw_consumer w = Some con" "con_incarnation con = i" "con_arena_scope con = ctl_scope (ar_control (fst (sw_arena w)))"
      "con_history con = ctl_history (ar_control (fst (sw_arena w)))"
    and c': "map_of (ar_claims (fst (sw_arena w))) i = Some c'" "keeps_page c c'" "w_quiescent c' = 0"
    and pf: "page_fits pid c" and ow: "slots_owned (owned w) c'" "w_offered c' = offered w"
    by (rule consumer_page [OF _ id])
  have m: "configuration_matches page a c d objects" using i(4) call(2) s by (simp add: reply_ok_def)
  have ow': "slots_owned ((cd_generation d, unat (cd_mapping_slot d)) # consumer_map con) c'"
    using ow(1) call(2) con(1) by (simp add: owned_def)
  have v: "page_view c' = page_view c" using c'(2) by (simp add: keeps_page_def)
  have off: "mapping_slots c ! unat (cd_mapping_slot d) = cd_generation d" "w_offered c = cd_generation d"
    using ow' ow(2) v call(2) by (auto simp: slots_owned_def offered_def page_view_def)
  have pg: "map_of (ar_claims a) (con_incarnation con) = Some c'" "con_arena_scope con = ctl_scope (ar_control a)"
    "con_history con = ctl_history (ar_control a)"
    using c'(1) con s by simp_all
  obtain l where imp: "import_configuration page pid ie (ConfigurationResponse d) objects con a =
     (if cd_payload_capacity d = 0 then (Err (Protocol ''invalid CPU configuration resources''), con, a)
      else if is_closed (ar_control a) c'
      then (Err (SocketArena ArenaClosed), con, on_page (con_incarnation con) (\<lambda>_. drop_configuration (offer_grant d l c') c') a)
      else case ie_os ie of
        Err error \<Rightarrow> (Err (SocketArena error), con, on_page (con_incarnation con) (\<lambda>_. drop_configuration (offer_grant d l c') c') a)
      | Panic \<Rightarrow> (Panic, con, on_page (con_incarnation con) (\<lambda>_. drop_configuration (offer_grant d l c') c') a)
      | Ok _ \<Rightarrow>
        if cd_generation d \<noteq> w_configuration (ar_control a)
        then (Ok (Some Stale), con, on_page (con_incarnation con) (\<lambda>_. drop_configuration (offer_grant d l c') c') a)
        else (Ok (Some Installed), installed d con, on_page (con_incarnation con) (\<lambda>_. c'\<lparr> w_offered := 0 \<rparr>) a))"
    by (rule import_offered [OF m pf pg(1) c'(2) pg(2,3) off])
  let ?drop = "drop_configuration (offer_grant d l c') c'"
  have wf: "claim_wf c'" using st(1) map_of_SomeD [OF c'(1)] s by (auto simp: state_ok_def arena_ok_def arena_inv_def intro: pages_wf)
  have pages: "state_ok (on_page i (\<lambda>_. f c') a, rs)" if "claim_wf (f c')" "cm_frames (f c') = cm_frames c'" for f
    by (rule state_ok_on_page [OF st(1)]) (use c'(1) s that in auto)
  obtain r con' a' where ra: "import_configuration page pid ie (ConfigurationResponse d) objects con a = (r, con', a')" by (metis prod_cases3)
  have st': "state_ok (a', rs)" "sized page a'" "r \<noteq> Panic"
    using ra imp st(1,2) ie pages [of "drop_configuration (offer_grant d l c')"] pages [of "\<lambda>c. c\<lparr> w_offered := 0 \<rparr>"] wf con(2)
    by (auto simp: sized_on_page split: if_splits outcome.splits)
  have ans: "the_answer (ConfigurationResponse d, objects) (sw_client w) = (Ok (ConfigurationResponse d, objects), sw_client w)"
    using the_answer_simps(2) [OF nf] offered_length [OF m] by simp
  show ?thesis
  proof (cases "\<exists>x. r = Ok x")
    case False
    then obtain error where e: "r = Err error" using st'(3) by (cases r) auto
    have step: "return_step page pid ie ConfigurationRequest (ConfigurationResponse d, objects) w =
        w\<lparr> sw_arena := (a', rs), sw_client := client_fail (sw_client w), sw_call := None, sw_reply := None, sw_consumer := Some con' \<rparr>"
      using ans ra e s con(1) by (simp add: return_step_def install_finish_def)
    show ?thesis unfolding step using st st' by (intro not_opened_inv) (simp_all add: opened_def client_fail_def)
  next
    case True
    let ?w = "w\<lparr> sw_arena := (a', rs), sw_client := sw_client w, sw_call := None, sw_reply := None, sw_consumer := Some con' \<rparr>"
    have step: "return_step page pid ie ConfigurationRequest (ConfigurationResponse d, objects) w = ?w"
      using ans ra True s con(1) by (auto simp: return_step_def install_finish_def)
    have sc: "con_claim_scope con = cm_scope c" using i(3) id con(1) by (auto simp: consumer_ok_def)
    have "link page pid p ?w"
    proof (cases "cd_generation d = w_configuration (ar_control a)")
      case inst: True
      then have x: "con' = installed d con" "a' = on_page i (\<lambda>_. c'\<lparr> w_offered := 0 \<rparr>) a"
        using True ra imp con(2) by (auto split: if_splits outcome.splits)
      have "slots_owned (consumer_map con') (c'\<lparr> w_offered := 0 \<rparr>)"
        using ow' by (simp add: x(1) installed_def consumer_map_def slots_owned_def)
      then show ?thesis
        using x con(2-4) sc s c' by (intro link_page_change [OF i(1-3) c'(2,3) s, of "c'\<lparr> w_offered := 0 \<rparr>" _ con'])
          (simp_all add: installed_def)
    next
      case stale: False
      then have x: "con' = con" "a' = on_page i (\<lambda>_. ?drop) a"
        using True ra imp con(2) by (auto split: if_splits outcome.splits)
      have d: "cm_incarnation ?drop = cm_incarnation c'" "cm_frames ?drop = cm_frames c'" "cm_scope ?drop = cm_scope c'"
        "cm_recipient_pid ?drop = cm_recipient_pid c'" "w_quiescent ?drop = 0" "w_active ?drop = w_active c'" "w_offered ?drop = 0"
        "mapping_slots ?drop = (mapping_slots c')[unat (cd_mapping_slot d) := 0]"
        using c'(3) by (simp_all add: drop_configuration_def offer_grant_def)
      have "slots_owned (consumer_map con') ?drop"
        using slots_owned_drop [OF ow'] d by (simp add: x(1) slots_owned_def)
      then show ?thesis
        using x con(1-4) sc s d by (intro link_page_change [OF i(1-3) c'(2,3) s d(1-6), of _ con']) simp_all
    qed
    then show ?thesis unfolding step using st(3) st' nf co call by (intro opened_inv) (auto simp: calls_ok_def)
  qed
qed

lemma return_inv:
  assumes inv: "setup_inv page pid p w" and en: "setup_enabled page p (ReturnCall ie) w"
  shows "setup_inv page pid p (setup_step show_error page pid (ReturnCall ie) w)"
proof -
  obtain a rs where s: "sw_arena w = (a, rs)" by (cases "sw_arena w")
  obtain req response objects where rr: "sw_call w = Some req" "sw_reply w = Some (response, objects)" using en by auto
  have ie: "ie_map ie \<noteq> Panic" "ie_os ie \<noteq> Panic" using en by simp_all
  have o: "opened w" using inv rr by (auto simp: setup_inv_def opened_def stranded_def)
  have st: "state_ok (a, rs)" "sized page a" "pid \<noteq> 0" and co: "calls_ok w" and nf: "\<not> sc_failed (sw_client w)"
    using inv o s by (auto simp: setup_inv_def opened_def)
  have step: "setup_step show_error page pid (ReturnCall ie) w = return_step page pid ie req (response, objects) w" using rr by simp
  have lk: "link page pid p w" if "sc_identity (sw_client w) \<noteq> None" using inv o that by (simp add: setup_inv_def linked_def)
  show ?thesis
  proof (cases "(\<exists>d. response = AttachedResponse d) \<or> (\<exists>d. response = ConfigurationResponse d)")
    case False
    have plain: "response = EmptyResponse \<or> (\<exists>m. response = RejectedResponse m)" by (cases response) (use False in auto)
    show ?thesis
    proof (cases req)
      case (AttachRequest h)
      then have id: "sc_identity (sw_client w) = None" "sw_consumer w = None" using co rr(1) by (auto simp: calls_ok_def)
      have "return_step page pid ie req (response, objects) w =
          w\<lparr> sw_client := (if response = EmptyResponse then client_fail (sw_client w) else sw_client w), sw_call := None, sw_reply := None \<rparr>"
        using plain AttachRequest s the_answer_simps(3,4) [OF nf]
        by (auto simp: return_step_def attach_finish_def import_attachment_def client_fail_def)
      moreover have "setup_inv page pid p (w\<lparr> sw_client := client_fail (sw_client w), sw_call := None, sw_reply := None \<rparr>)"
        using st s by (intro not_opened_inv) (simp_all add: opened_def client_fail_def)
      moreover have "setup_inv page pid p (w\<lparr> sw_call := None, sw_reply := None \<rparr>)"
        using st s nf co id rr by (intro opened_inv) (auto simp: calls_ok_def linked_def)
      ultimately show ?thesis unfolding step by simp
    next
      case ConfigurationRequest
      then have id: "sc_identity (sw_client w) \<noteq> None" using co rr(1) by (auto simp: calls_ok_def)
      obtain i c where l: "ss_incarnation (sw_session w) = Some i" "page_ok pid p i c w" "consumer_ok i c w" "reply_ok page c w"
        using lk [OF id] by (auto simp: link_def)
      obtain con where con: "sw_consumer w = Some con" using l(3) id by (auto simp: consumer_ok_def)
      have ws: "return_step page pid ie req (response, objects) w = w\<lparr> sw_call := None, sw_reply := None \<rparr>"
        using plain ConfigurationRequest s con the_answer_simps(3,4) [OF nf]
        by (auto simp: return_step_def install_finish_def import_configuration_def)
      have rm: "reply_map (sw_reply w) = []" using plain rr(2) by auto
      have "link page pid p (w\<lparr> sw_call := None, sw_reply := None \<rparr>)"
        by (rule link_exI [of _ i _ _ c]) (use l rm in \<open>auto simp: page_ok_def consumer_ok_def reply_ok_def owned_def offered_def\<close>)
      then show ?thesis unfolding step ws using st s nf co rr id by (intro opened_inv) (auto simp: calls_ok_def)
    qed
  next
    case True
    then show ?thesis
      unfolding step using return_attach_inv [OF inv o s _ _ ie] return_install_inv [OF inv o s _ _ ie(2)] rr co
      by (auto simp: calls_ok_def)
  qed
qed

lemma page_move_inv:
  assumes inv: "setup_inv page pid p w" and en: "setup_enabled page p (PageMoves n) w"
  shows "setup_inv page pid p (setup_step show_error page pid (PageMoves n) w)"
proof -
  obtain a rs where s: "sw_arena w = (a, rs)" by (cases "sw_arena w")
  obtain con c0 where c: "sw_consumer w = Some con" "map_of (ar_claims a) (con_incarnation con) = Some c0" "keeps_page c0 n" "claim_wf n"
    using en s by (auto split: option.splits)
  have st: "state_ok (a, rs)" "sized page a" using inv s by (auto simp: setup_inv_def)
  have fr: "cm_frames n = cm_frames c0" using c(3) by (simp add: keeps_page_def page_view_def)
  have "setup_inv page pid p (w\<lparr> sw_arena := (on_page (con_incarnation con) (\<lambda>_. n) a, rs) \<rparr>)"
  proof (rule inv_arena [OF inv])
    show "state_ok (on_page (con_incarnation con) (\<lambda>_. n) a, rs)"
      by (rule state_ok_on_page [OF st(1)]) (use c fr in auto)
    show "sized page (fst (on_page (con_incarnation con) (\<lambda>_. n) a, rs))" using st(2) by (simp add: sized_on_page)
    show "carries i p c (fst (sw_arena w)) (fst (on_page (con_incarnation con) (\<lambda>_. n) a, rs))" for i c
      using c s held_page_upd [of i p c "ar_claims a" "ar_observers a" "con_incarnation con" "\<lambda>_. n"]
      by (auto simp: carries_def on_page_def)
  qed
  then show ?thesis using c(1) s by simp
qed

lemma relinquish_inv:
  assumes inv: "setup_inv page pid p w"
  shows "setup_inv page pid p (setup_step show_error page pid Relinquish w)"
proof (cases "sw_consumer w")
  case (Some con)
  let ?con = "con\<lparr> con_resources := None, con_retained := (case con_resources con of Some x \<Rightarrow> x # con_retained con | None \<Rightarrow> con_retained con) \<rparr>"
  let ?w = "w\<lparr> sw_consumer := Some ?con \<rparr>"
  have map: "consumer_map ?con = consumer_map con" by (simp add: consumer_map_def)
  have "link page pid p ?w" if "link page pid p w"
  proof -
    obtain i c where l: "ss_incarnation (sw_session w) = Some i" "page_ok pid p i c w" "consumer_ok i c w" "reply_ok page c w"
      using \<open>link page pid p w\<close> by (auto simp: link_def)
    show ?thesis
    proof (rule link_exI [of _ i _ _ c])
      show "page_ok pid p i c ?w" using l(2) Some map by (simp add: page_ok_def owned_def offered_def)
      show "consumer_ok i c ?w" using l(3) Some by (auto simp: consumer_ok_def)
      show "reply_ok page c ?w" using l(4) by (simp add: reply_ok_def)
    qed (use l(1) in simp)
  qed
  then have "setup_inv page pid p ?w" using inv Some by (auto simp: setup_inv_def world_defs calls_ok_def)
  then show ?thesis using Some by simp
qed (use inv in simp)

lemma calls_ok_cong:
  assumes "calls_ok w" "sw_call w' = sw_call w" "sw_request w' = sw_request w" "sw_reply w' = sw_reply w" "sw_client w' = sw_client w"
    "sc_identity (sw_client w) \<noteq> None"
  shows "calls_ok w'"
proof -
  have "sc_identity (sw_client w) = None \<longrightarrow> sw_consumer w' = None" using assms(6) by blast
  then show ?thesis using assms(1) unfolding calls_ok_def assms(2-5) by (elim conjE, intro conjI)
qed

lemma calls_ok_consumer:
  "calls_ok w \<Longrightarrow> sc_identity (sw_client w) \<noteq> None \<Longrightarrow> calls_ok (w\<lparr> sw_arena := s, sw_consumer := x \<rparr>)"
  by (rule calls_ok_cong [of w]) simp_all

lemma drop_retained_inv:
  assumes inv: "setup_inv page pid p w" and en: "setup_enabled page p (DropRetained k) w"
  shows "setup_inv page pid p (setup_step show_error page pid (DropRetained k) w)"
proof -
  obtain a rs where s: "sw_arena w = (a, rs)" by (cases "sw_arena w")
  obtain con where con: "sw_consumer w = Some con" "k < length (con_retained con)" using en by (auto split: option.splits)
  let ?x = "con_retained con ! k"
  let ?con = "con\<lparr> con_retained := without k (con_retained con) \<rparr>"
  let ?f = "drop_resources (snd ?x)"
  let ?w = "w\<lparr> sw_arena := (on_page (con_incarnation con) ?f a, rs), sw_consumer := Some ?con \<rparr>"
  have st: "state_ok (a, rs)" "sized page a" "pid \<noteq> 0" "sc_failed (sw_client w) \<longrightarrow> sw_call w = None" using inv s by (auto simp: setup_inv_def)
  have st': "state_ok (on_page (con_incarnation con) ?f a, rs)" "sized page (on_page (con_incarnation con) ?f a)"
    using st by (auto intro!: state_ok_on_page sized_on_page simp: drop_resources_def claim_wf_def)
  have "setup_inv page pid p ?w"
  proof (cases "opened w")
    case False
    then have "\<not> opened ?w" by (simp add: opened_def stranded_def)
    then show ?thesis using st st' by (intro not_opened_inv) simp_all
  next
    case True
    have co: "calls_ok w" and nf: "\<not> sc_failed (sw_client w)" using inv True by (auto simp: setup_inv_def opened_def)
    have id: "sc_identity (sw_client w) \<noteq> None" using co con(1) by (cases "sc_identity (sw_client w)") (simp_all add: calls_ok_def)
    have "link page pid p w" using inv True id by (simp add: setup_inv_def linked_def)
    then obtain i c c' con1 where i: "ss_incarnation (sw_session w) = Some i" "page_ok pid p i c w" "consumer_ok i c w" "reply_ok page c w"
      and c1: "sw_consumer w = Some con1" "con_incarnation con1 = i"
      and c': "map_of (ar_claims (fst (sw_arena w))) i = Some c'" "keeps_page c c'" "w_quiescent c' = 0"
      and ow: "slots_owned (owned w) c'" "w_offered c' = offered w"
      by (rule consumer_page [OF _ id]) blast
    have ci: "con_incarnation con = i" using c1 con(1) by simp
    let ?n = "?f c'"
    have n: "page_view ?n = (cm_incarnation c', cm_frames c', cm_scope c', cm_recipient_pid c', w_offered c', (mapping_slots c')[snd ?x := 0])"
      "w_quiescent ?n = 0" "w_active ?n = w_active c'"
      using c'(3) by (simp_all add: drop_resources_def page_view_def)
    have v: "page_view c' = page_view c" using c'(2) by (simp add: keeps_page_def)
    have perm: "mset (owned w) = mset (?x # owned ?w)"
      using con mset_without [OF con(2)] by (simp add: owned_def consumer_map_def split: option.split)
    have "slots_owned (owned ?w) (c'\<lparr> mapping_slots := (mapping_slots c')[snd ?x := 0] \<rparr>)"
      using slots_owned_drop [of "fst ?x" "snd ?x" "owned ?w" c'] slots_owned_perm [OF ow(1) perm] by simp
    then have so: "slots_owned (owned ?w) ?n" using n by (simp add: slots_owned_def page_view_def)
    have hp: "holds_page i p ?n (on_page i ?f a)"
      using i(2) s c' by (auto simp: page_ok_def held_page_def n)
    have mt: "attached_matches page x ?n d objects = attached_matches page x c d objects"
      "configuration_matches page x ?n d' objects = configuration_matches page x c d' objects" for x d d' objects
      using v n(1) by (simp_all add: attached_matches_def configuration_matches_def page_view_def grant_into_parts_def into_parts_def
          configuration_into_parts_def)
    have fr: "attached_matches page (on_page i ?f a) c d objects = attached_matches page a c d objects"
      "configuration_matches page (on_page i ?f a) c d' objects = configuration_matches page a c d' objects" for d d' objects
      by (rule matches_frame; simp)+
    have "link page pid p ?w"
    proof (rule link_exI [of _ i _ _ ?n])
      show "page_ok pid p i ?n ?w"
        using hp so i(2) c'(2) n v ow(2) ci by (auto simp: page_ok_def offered_def page_view_def page_fits_def keeps_page_def)
      show "consumer_ok i ?n ?w" using i(3) n(1) v con(1) s by (auto simp: consumer_ok_def page_view_def)
      show "reply_ok page ?n ?w" using i(4) mt fr ci s by (simp add: reply_ok_def)
    qed (use i(1) in simp)
    then show ?thesis using st(3) st' nf calls_ok_consumer [OF co id] by (intro opened_inv) simp_all
  qed
  then show ?thesis using con s by simp
qed

lemma call_inv:
  assumes inv: "setup_inv page pid p w" and c: "sw_call w = None" "\<not> sc_failed (sw_client w)"
    and r: "r = ConfigurationRequest \<longleftrightarrow> sc_identity (sw_client w) \<noteq> None"
  shows "setup_inv page pid p (w\<lparr> sw_call := Some r, sw_request := Some r \<rparr>)"
proof -
  let ?w = "w\<lparr> sw_call := Some r, sw_request := Some r \<rparr>"
  have o: "opened w" using c by (simp add: opened_def stranded_def)
  have co: "calls_ok w" using inv o by (simp add: setup_inv_def)
  then have n: "sw_reply w = None" using c by (simp add: calls_ok_def)
  have "link page pid p ?w" if "linked ?w"
  proof -
    have "linked w" using that by (simp add: linked_def)
    then have "link page pid p w" using inv o by (simp add: setup_inv_def)
    then obtain i c where l: "ss_incarnation (sw_session w) = Some i" "page_ok pid p i c w" "consumer_ok i c w" "reply_ok page c w"
      by (auto simp: link_def)
    show ?thesis
    proof (rule link_exI [of _ i _ _ c])
      show "page_ok pid p i c ?w" using l(2) by (simp add: page_ok_def owned_def offered_def)
      show "consumer_ok i c ?w" using l(3) by (auto simp: consumer_ok_def)
      show "reply_ok page c ?w" using l(4) by (simp add: reply_ok_def)
    qed (use l(1) in simp)
  qed
  moreover have "calls_ok ?w" using co n r c by (cases "sc_identity (sw_client w)"; cases r) (simp_all add: calls_ok_def)
  ultimately show ?thesis using inv c by (intro opened_inv) (simp_all add: setup_inv_def)
qed

lemma setup_step_inv:
  assumes inv: "setup_inv page pid p w" and en: "setup_enabled page p ev w"
  shows "setup_inv page pid p (setup_step show_error page pid ev w)"
proof (cases ev)
  case (CallAttach h)
  then show ?thesis using call_inv [OF inv, of "AttachRequest h"] en by (auto simp: attach_begin_def split: if_splits)
next
  case CallInstall
  then show ?thesis
    using call_inv [OF inv, of ConfigurationRequest] en by (auto simp: install_begin_def split: if_splits option.splits)
next
  case (CallFails error)
  then show ?thesis
    using inv en by (cases "sc_failed (sw_client w)") (auto simp: setup_inv_def client_request_def client_fail_def opened_def)
qed (use serve_inv [OF inv] end_session_inv [OF inv] return_inv [OF inv] arena_move_inv [OF inv] page_move_inv [OF inv]
    relinquish_inv [OF inv] drop_retained_inv [OF inv] en in \<open>auto simp del: setup_enabled.simps\<close>)

lemma setup_reachable_inv: "setup_reachable show_error page pid p w \<Longrightarrow> setup_inv page pid p w"
proof (induction rule: setup_reachable.induct)
  case (start s bell)
  then show ?case using arena_at_ok [OF start(1)] by (auto simp: setup_inv_def setup_start_def calls_ok_def linked_def)
next
  case (step w ev)
  show ?case by (rule setup_step_inv [OF step(3,2)])
qed

section \<open>Witnesses\<close>

definition sample_reply_env :: reply_env where
  "sample_reply_env = \<lparr> re_env = sample_env, re_watch = Ok 0, re_setup = Ok sample_setup, re_endpoint = Ok (), re_fds = Ok () \<rparr>"

definition sample_import :: import_env where
  "sample_import = \<lparr> ie_env = sample_env, ie_map = Ok (), ie_os = Ok () \<rparr>"

definition sample_called :: setup_world where
  "sample_called = setup_step (\<lambda>_. []) 4096 9 (CallAttach 1) (setup_start (sample_arena, []) False)"

definition sample_served :: setup_world where
  "sample_served = setup_step (\<lambda>_. []) 4096 9 (Serve sample_reply_env True) sample_called"

lemma sample_attach_watched:
  "\<exists>a'. attach_with_recipient sample_env 4096 1 9 (Some 0) (Ok sample_setup) sample_arena = (Ok sample_grant, a')"
  using sample_admit
  by (auto simp: attach_with_recipient_def sample_poll sample_claim_len sample_arena_fields Let_def sample_grant_def)
    (simp_all add: sample_arena_defs resource_map_new_def control_map_new_def Let_def)

lemma sample_served_reachable: "setup_reachable (\<lambda>_. []) 4096 9 0 sample_served"
proof -
  have "arena_at 4096 (sample_arena, [])" by (rule arena_at.created [OF sample_arena_created])
  then have "setup_reachable (\<lambda>_. []) 4096 9 0 (setup_start (sample_arena, []) False)" by (rule setup_reachable.start) simp
  then have "setup_reachable (\<lambda>_. []) 4096 9 0 sample_called"
    unfolding sample_called_def by (rule setup_reachable.step) (simp add: setup_start_def attach_begin_def)
  then show ?thesis
    unfolding sample_served_def
    by (rule setup_reachable.step)
      (simp add: sample_called_def setup_start_def sample_reply_env_def reply_env_ok_def env_ok_def sample_env_def)
qed

lemma sample_served_reply:
  "\<exists>d objects. sw_reply sample_served = Some (AttachedResponse d, objects) \<and> gd_payload_capacity d \<noteq> 0 \<and> gd_drain_timeout_ns d = 5 \<and>
     gd_generation d = 1" "\<not> sc_failed (sw_client sample_served)"
proof -
  obtain a1 where at: "attach_with_recipient sample_env 4096 1 9 (Some 0) (Ok sample_setup) sample_arena = (Ok sample_grant, a1)"
    using sample_attach_watched by blast
  obtain m :: resource_map where m: "map_of (ar_claims a1) (gr_incarnation sample_grant) = Some
       (let c = claim_map_new (gr_incarnation sample_grant) 1 (su_scope sample_setup) 9 (su_wake sample_setup) (su_release_wake sample_setup)
        in c\<lparr> mapping_slots := (mapping_slots c)[0 := rm_generation m], w_offered := rm_generation m \<rparr>)"
    by (rule attach_Ok [OF sample_arena_inv sample_no_panic at]) blast
  have ctl: "control_allocation_len 4096 (history sample_layout) = Ok 4096"
    by (simp add: sample_layout_def control_allocation_len_def size_mul_def size_add_def
        checked_mul_def checked_add_def page_rounded_def rounded_def layout_consts word_le_nat_alt)
  let ?r = "serve_request (\<lambda>_. []) 4096 9 sample_reply_env (AttachRequest 1) \<lparr> ss_incarnation = None, ss_bell = False \<rparr> sample_arena"
  have gl: "gr_layout sample_grant = sample_layout" "gr_generation sample_grant = 1" "gr_drain_timeout sample_grant = 5"
    by (simp_all add: sample_grant_def)
  have "\<exists>d objects s a. ?r = (Ok (AttachedResponse d, objects), s, a) \<and> gd_payload_capacity d \<noteq> 0 \<and> gd_drain_timeout_ns d = 5 \<and> gd_generation d = 1"
    by (simp add: serve_request_def reply_attach_def sample_reply_env_def at Let_def m ring_bell_def grant_into_parts_def into_parts_def
        claim_map_new_def sample_claim_len gl ctl) (simp add: sample_layout_def)
  then obtain d objects s a where r: "?r = (Ok (AttachedResponse d, objects), s, a)" "gd_payload_capacity d \<noteq> 0" "gd_drain_timeout_ns d = 5"
    "gd_generation d = 1" by blast
  then show "\<exists>d objects. sw_reply sample_served = Some (AttachedResponse d, objects) \<and> gd_payload_capacity d \<noteq> 0 \<and> gd_drain_timeout_ns d = 5 \<and>
     gd_generation d = 1" "\<not> sc_failed (sw_client sample_served)"
    by (simp_all add: sample_served_def sample_called_def setup_start_def serve_step_def Let_def)
qed

section \<open>Properties\<close>

lemma linked_page:
  assumes "setup_reachable show_error page pid p w" "opened w" "linked w"
  obtains i c where "ss_incarnation (sw_session w) = Some i" "map_of (ar_claims (fst (sw_arena w))) i = Some c"
    "slots_owned (owned w) c" "w_offered c = offered w" "sw_serving w \<or> w_active c = 0"
proof -
  have "link page pid p w" using setup_reachable_inv [OF assms(1)] assms(2,3) by (simp add: setup_inv_def)
  then obtain i c0 where i: "ss_incarnation (sw_session w) = Some i" "page_ok pid p i c0 w" by (auto simp: link_def)
  obtain c where c: "map_of (ar_claims (fst (sw_arena w))) i = Some c" "keeps_page c0 c"
    using i(2) holdsE unfolding page_ok_def by blast
  have v: "page_view c = page_view c0" using c(2) by (simp add: keeps_page_def)
  show ?thesis
    by (rule that [OF i(1) c(1)])
      (use i(2) c(2) v slots_owned_view [OF v] in \<open>auto simp: page_ok_def keeps_page_def page_view_def\<close>)
qed

text \<open>C31. Mapped storage has exactly one owner.  As long as a setup connection has not failed, and whatever the
  producer, other consumers and the stream did, client and server agree on the incarnation; every nonzero mapping
  slot of its claim page belongs to exactly one grant or offer on its way or one mapping that the consumer holds,
  and carries that one's generation; an offer is outstanding exactly while one is on its way; storage of a
  generation that is on its way or mapped is never collected; and once the server has ended the incarnation is
  closed.\<close>

theorem setup_mappings_owned:
  assumes "setup_reachable show_error page pid p w" and "\<not> sc_failed (sw_client w)" and "\<not> stranded w" and "linked w"
  shows "\<exists>i c. ss_incarnation (sw_session w) = Some i \<and> map_of (ar_claims (fst (sw_arena w))) i = Some c \<and>
     (\<forall>x. sc_identity (sw_client w) = Some x \<longrightarrow> fst x = i \<and> (\<exists>con. sw_consumer w = Some con \<and> con_incarnation con = i)) \<and>
     distinct (map snd (owned w)) \<and>
     (\<forall>s<cm_frames c + 2. mapping_slots c ! s \<noteq> 0 \<longrightarrow> (mapping_slots c ! s, s) \<in> set (owned w)) \<and>
     (\<forall>(g, s)\<in>set (owned w). g \<noteq> 0 \<and> s < cm_frames c + 2 \<and> mapping_slots c ! s = g) \<and>
     w_offered c = offered w \<and>
     (\<forall>m. rm_generation m \<in> fst ` set (owned w) \<longrightarrow> retained_by_claims (fst (sw_arena w)) m) \<and>
     (sw_serving w \<or> w_active c = 0)"
proof -
  have o: "opened w" using assms(2,3) by (simp add: opened_def)
  obtain i c where i: "ss_incarnation (sw_session w) = Some i" "map_of (ar_claims (fst (sw_arena w))) i = Some c"
    "slots_owned (owned w) c" "w_offered c = offered w" "sw_serving w \<or> w_active c = 0"
    by (rule linked_page [OF assms(1) o assms(4)])
  have "link page pid p w" using setup_reachable_inv [OF assms(1)] o assms(4) by (simp add: setup_inv_def)
  then have id: "fst x = i \<and> (\<exists>con. sw_consumer w = Some con \<and> con_incarnation con = i)" if "sc_identity (sw_client w) = Some x" for x
    using that i(1) by (auto simp: link_def consumer_ok_def)
  have slots: "(mapping_slots c ! s, s) \<in> set (owned w)" if s: "s < cm_frames c + 2" "mapping_slots c ! s \<noteq> 0" for s
  proof -
    have "s \<in> snd ` set (owned w)" using i(3) s by (simp add: slots_owned_def)
    then obtain x where x: "x \<in> set (owned w)" "s = snd x" by blast
    then have "mapping_slots c ! s = fst x" using i(3) by (auto simp: slots_owned_def)
    then show ?thesis using x by simp
  qed
  have "retained_by_claims (fst (sw_arena w)) m" if g: "rm_generation m \<in> fst ` set (owned w)" for m
  proof -
    obtain s where "(rm_generation m, s) \<in> set (owned w)" using g by force
    then have "s < cm_frames c + 2" "mapping_slots c ! s = rm_generation m" using i(3) by (auto simp: slots_owned_def)
    then have "list_ex (\<lambda>j. mapping_slots c ! j = rm_generation m) [0..<cm_frames c + 2]"
      unfolding list_ex_iff by (intro bexI [of _ s]) (simp_all del: upt_Suc)
    then show ?thesis
      using map_of_SomeD [OF i(2)] unfolding retained_by_claims_def list_ex_iff [of _ "ar_claims (fst (sw_arena w))"]
      by (intro bexI [of _ "(i, c)"]) (auto simp del: upt_Suc)
  qed
  moreover have "distinct (map snd (owned w))" "\<forall>(g, s)\<in>set (owned w). g \<noteq> 0 \<and> s < cm_frames c + 2 \<and> mapping_slots c ! s = g"
    using i(3) by (auto simp: slots_owned_def)
  ultimately show ?thesis using i(1,2,4,5) id slots by (intro exI [of _ i] exI [of _ c] conjI) blast+
qed

theorem setup_mappings_owned_witness:
  "\<exists>i c. ss_incarnation (sw_session sample_served) = Some i \<and> map_of (ar_claims (fst (sw_arena sample_served))) i = Some c \<and>
     w_offered c = offered sample_served \<and> offered sample_served = 1"
proof -
  have "linked sample_served" "\<not> stranded sample_served" "offered sample_served = 1"
    using sample_served_reply(1) by (auto simp: linked_def stranded_def offered_def)
  then show ?thesis
    using setup_mappings_owned [OF sample_served_reachable sample_served_reply(2)] by blast
qed

text \<open>C17. What the server grants, the client gets.  Whenever the reply to a request to attach has arrived, the
  client that imports it gets a consumer of exactly the granted storage, unless the storage is not for CPUs, the
  drain interval does not fit its clock or its operating system refuses: none of the checks of the import can
  fail, whatever happened since the grant was made.  Whenever an offered configuration has arrived at a consumer
  that is not closed, it is installed if it is still the current one and dropped if it is not, and the connection
  goes on.\<close>

theorem setup_grants_import:
  assumes "setup_reachable show_error page pid p w" and "\<not> sc_failed (sw_client w)" and "sw_reply w = Some reply"
    and "ie_map ie = Ok ()" and "ie_os ie = Ok ()"
  shows "case reply of
     (AttachedResponse d, _) \<Rightarrow>
       gd_payload_capacity d \<noteq> 0 \<and> instant_add (ie_env ie) (unat (gd_drain_timeout_ns d)) \<noteq> None \<longrightarrow>
       (\<exists>con. sw_consumer (setup_step show_error page pid (ReturnCall ie) w) = Some con \<and>
          ss_incarnation (sw_session w) = Some (con_incarnation con) \<and> con_resources con = Some (gd_generation d, 0) \<and>
          sw_client (setup_step show_error page pid (ReturnCall ie) w) =
            \<lparr> sc_identity = Some (con_incarnation con, con_claim_scope con), sc_failed = False \<rparr>)
   | (ConfigurationResponse d, _) \<Rightarrow>
       \<exists>con c. sw_consumer w = Some con \<and> map_of (ar_claims (fst (sw_arena w))) (con_incarnation con) = Some c \<and>
         (cd_payload_capacity d \<noteq> 0 \<and> \<not> is_closed (ar_control (fst (sw_arena w))) c \<longrightarrow>
          sw_client (setup_step show_error page pid (ReturnCall ie) w) = sw_client w \<and>
          sw_consumer (setup_step show_error page pid (ReturnCall ie) w) = Some
            (if cd_generation d = w_configuration (ar_control (fst (sw_arena w)))
             then con\<lparr> con_resources := Some (cd_generation d, unat (cd_mapping_slot d)), con_retained := consumer_map con \<rparr>
             else con))
   | _ \<Rightarrow> True"
proof -
  have inv: "setup_inv page pid p w" by (rule setup_reachable_inv [OF assms(1)])
  have o: "opened w" using assms(2,3) by (simp add: opened_def stranded_def)
  have co: "calls_ok w" using inv o by (simp add: setup_inv_def)
  obtain a rs where s: "sw_arena w = (a, rs)" by (cases "sw_arena w")
  obtain response objects where reply: "reply = (response, objects)" by (cases reply)
  show ?thesis
  proof (cases response)
    case (AttachedResponse d)
    have rep: "sw_reply w = Some (AttachedResponse d, objects)" using assms(3) reply AttachedResponse by simp
    obtain h where call: "sw_call w = Some (AttachRequest h)" using co rep by (auto simp: calls_ok_def)
    have "link page pid p w" using inv o rep by (simp add: setup_inv_def linked_def)
    then obtain i c c' where i: "ss_incarnation (sw_session w) = Some i" "page_ok pid p i c w"
      and c': "map_of (ar_claims (fst (sw_arena w))) i = Some c'" "keeps_page c c'"
      and m: "attached_matches page (fst (sw_arena w)) c d objects" "w_offered c = gd_generation d" "mapping_slots c ! 0 = gd_generation d"
        "page_fits pid c" "cm_incarnation c = i" "length (mapping_slots c) = cm_frames c + 2"
        and id: "sc_identity (sw_client w) = None"
      by (rule link_attached [OF _ co rep]) blast
    have ans: "the_answer (AttachedResponse d, objects) (sw_client w) = (Ok (AttachedResponse d, objects), sw_client w)"
      using the_answer_simps(1) [OF assms(2)] attached_length [OF m(1)] by simp
    have ma: "attached_matches page a c d objects" "map_of (ar_claims a) (cm_incarnation c) = Some c'" using m(1,5) c'(1) s by simp_all
    show ?thesis
      by (rule import_attached [OF ma(1) m(4,6) ma(2) c'(2) m(3,2), of ie])
        (use assms(2,4,5) rep call ans s i(1) m(5) id reply AttachedResponse in
          \<open>auto simp: return_step_def attach_finish_def\<close>)
  next
    case (ConfigurationResponse d)
    have rep: "sw_reply w = Some (ConfigurationResponse d, objects)" using assms(3) reply ConfigurationResponse by simp
    have call: "sw_call w = Some ConfigurationRequest" using co rep by (simp add: calls_ok_def)
    then have id: "sc_identity (sw_client w) \<noteq> None" using co by (simp add: calls_ok_def)
    have "link page pid p w" using inv o id by (simp add: setup_inv_def linked_def)
    then obtain i c c' con where i: "reply_ok page c w"
      and con: "sw_consumer w = Some con" "con_incarnation con = i" "con_arena_scope con = ctl_scope (ar_control (fst (sw_arena w)))"
        "con_history con = ctl_history (ar_control (fst (sw_arena w)))"
      and c': "map_of (ar_claims (fst (sw_arena w))) i = Some c'" "keeps_page c c'"
      and pf: "page_fits pid c" and ow: "slots_owned (owned w) c'" "w_offered c' = offered w"
      by (rule consumer_page [OF _ id]) blast
    have m: "configuration_matches page a c d objects" using i rep s by (simp add: reply_ok_def)
    have off: "mapping_slots c ! unat (cd_mapping_slot d) = cd_generation d" "w_offered c = cd_generation d"
      using ow rep c'(2) by (auto simp: slots_owned_def offered_def owned_def keeps_page_def page_view_def)
    have pg: "map_of (ar_claims a) (con_incarnation con) = Some c'" "con_arena_scope con = ctl_scope (ar_control a)"
      "con_history con = ctl_history (ar_control a)"
      using c'(1) con s by simp_all
    have ans: "the_answer (ConfigurationResponse d, objects) (sw_client w) = (Ok (ConfigurationResponse d, objects), sw_client w)"
      using the_answer_simps(2) [OF assms(2)] offered_length [OF m] by simp
    show ?thesis
      by (rule import_offered [OF m pf pg(1) c'(2) pg(2,3) off, of ie])
        (use assms(5) rep call ans s con(1) pg(1) reply ConfigurationResponse in
          \<open>auto simp: return_step_def install_finish_def installed_def\<close>)
  qed (use reply in simp_all)
qed

theorem setup_grants_import_witness:
  "\<exists>con. sw_consumer (setup_step (\<lambda>_. []) 4096 9 (ReturnCall sample_import) sample_served) = Some con \<and> con_resources con = Some (1, 0)"
proof -
  obtain d objects where d: "sw_reply sample_served = Some (AttachedResponse d, objects)" "gd_payload_capacity d \<noteq> 0"
    "gd_drain_timeout_ns d = 5" "gd_generation d = 1"
    using sample_served_reply(1) by blast
  have "ie_map sample_import = Ok ()" "ie_os sample_import = Ok ()" "instant_add (ie_env sample_import) (unat (gd_drain_timeout_ns d)) \<noteq> None"
    using d(3) by (simp_all add: sample_import_def instant_add_def sample_env_def)
  then show ?thesis
    using setup_grants_import [OF sample_served_reachable sample_served_reply(2) d(1), of sample_import] d(2,4) by auto
qed

end
