(* ===== verification/Input_Model.thy ===== *)
theory Input_Model
  imports Complex_Main Jackstay_Prelude
begin

text \<open>
  The data of the input channel (\<open>input/model.rs\<close>) and the validation of a submitted event
  (\<open>validate\<close> and \<open>position\<close> of \<open>input/session.rs\<close>).  A Rust \<open>String\<close> is the list of its UTF-8
  bytes, so that \<open>len\<close> is the list's length and the character NUL is the byte 0.  A double is a
  finite rational, an infinity or not a number; only comparisons are used, for which the two
  zeros are equal.  A \<open>Duration\<close> is a number of nanoseconds.
\<close>

section \<open>Doubles\<close>

datatype f64 = Finite rat | PosInf | NegInf | NaN

fun is_finite :: "f64 \<Rightarrow> bool" where
  "is_finite (Finite _) = True"
| "is_finite _ = False"

text \<open>IEEE comparison: every comparison with a NaN is false, except inequality.\<close>

fun f64_less :: "f64 \<Rightarrow> f64 \<Rightarrow> bool" where
  "f64_less (Finite a) (Finite b) = (a < b)"
| "f64_less (Finite _) PosInf = True"
| "f64_less NegInf (Finite _) = True"
| "f64_less NegInf PosInf = True"
| "f64_less _ _ = False"

fun f64_eq :: "f64 \<Rightarrow> f64 \<Rightarrow> bool" where
  "f64_eq (Finite a) (Finite b) = (a = b)"
| "f64_eq PosInf PosInf = True"
| "f64_eq NegInf NegInf = True"
| "f64_eq _ _ = False"

definition f64_ge :: "f64 \<Rightarrow> f64 \<Rightarrow> bool" where
  "f64_ge a b \<longleftrightarrow> f64_less b a \<or> f64_eq a b"

section \<open>Events\<close>

datatype mode = Physical | SourceText | Cooperative

fun mode_bit :: "mode \<Rightarrow> u32" where
  "mode_bit Physical = 1"
| "mode_bit SourceText = 2"
| "mode_bit Cooperative = 4"

datatype action = Down | Up | Repeat
datatype key = PhysicalKey bytes | LogicalKey bytes
datatype scroll_unit = Pixel | Line | PageUnit
datatype scroll_phase = NoPhase | MayBegin | Began | Stationary | Changed | Ended | Cancelled
datatype momentum_phase = NoMomentum | MomentumBegan | MomentumChanged | MomentumEnded

record position =
  po_revision :: u64
  po_x :: f64
  po_y :: f64

datatype event =
    KeyEvent (key_press: u64) (key_action: action) (event_key: key) (key_modifiers: u32)
  | TextEvent bytes
  | Motion position
  | Button u32 action position
  | Scroll f64 f64 scroll_unit "scroll_phase option" "momentum_phase option" "bool option" position

fun key_name :: "key \<Rightarrow> bytes" where
  "key_name (PhysicalKey s) = s"
| "key_name (LogicalKey s) = s"

fun event_bytes :: "event \<Rightarrow> nat" where
  "event_bytes (TextEvent s) = 112 + length s"
| "event_bytes (KeyEvent _ _ k _) = 112 + length (key_name k)"
| "event_bytes _ = 112"

fun pointer :: "event \<Rightarrow> bool" where
  "pointer (Motion _) = True"
| "pointer (Button _ _ _) = True"
| "pointer (Scroll _ _ _ _ _ _ _) = True"
| "pointer _ = False"

definition CAP_PHYSICAL :: u32 where "CAP_PHYSICAL = 1"
definition CAP_LOGICAL :: u32 where "CAP_LOGICAL = 2"
definition CAP_TEXT :: u32 where "CAP_TEXT = 4"
definition CAP_POINTER :: u32 where "CAP_POINTER = 8"
definition CAP_SCROLL :: u32 where "CAP_SCROLL = 16"
definition CAP_ALL :: u32 where "CAP_ALL = 31"

lemmas cap_consts = CAP_PHYSICAL_def CAP_LOGICAL_def CAP_TEXT_def CAP_POINTER_def CAP_SCROLL_def CAP_ALL_def

record geometry =
  ge_revision :: u64
  ge_width :: f64
  ge_height :: f64

definition geometry_valid :: "geometry \<Rightarrow> bool" where
  "geometry_valid g \<longleftrightarrow> ge_revision g \<noteq> 0 \<and> is_finite (ge_width g) \<and> is_finite (ge_height g) \<and>
     f64_less (Finite 0) (ge_width g) \<and> f64_less (Finite 0) (ge_height g)"

record config =
  cf_modes :: u32
  cf_capabilities :: u32
  cf_max_events :: nat
  cf_max_bytes :: nat
  cf_max_text_bytes :: nat
  cf_idle_timeout :: nat
  cf_geometry :: geometry
  cf_independent_contributions :: bool
  cf_interaction_cancel :: bool

definition config_default :: config where
  "config_default = \<lparr> cf_modes = 4, cf_capabilities = CAP_ALL, cf_max_events = 256,
     cf_max_bytes = 256 * 1024, cf_max_text_bytes = 16 * 1024, cf_idle_timeout = 5 * 1000000000,
     cf_geometry = \<lparr> ge_revision = 1, ge_width = Finite 320, ge_height = Finite 180 \<rparr>,
     cf_independent_contributions = False, cf_interaction_cancel = False \<rparr>"

datatype input_error = Invalid | Unsupported | Busy | Closed | Stale | Overflow | CleanupFailed
datatype execution = Executed | NotExecuted | NotSupported | Partial | Uncertain
datatype scope = All | Pointer
datatype reason = Focus | GeometryChange | Disconnect | Expired | QueueOverflow | Execution

datatype operation = EventWork event | Cleanup scope reason

record work =
  wk_mode :: mode
  wk_id :: u64
  wk_controller :: u64
  wk_epoch :: u64
  wk_sequence :: u64
  wk_operation :: operation

datatype status =
    Coalesced u64
  | Completed u64 execution
  | Rejected u64 input_error
  | Reset u64 geometry
  | ClosedStatus reason bool

text \<open>\<open>merge_coalesced\<close>: the older status after the merge, or nothing when the two do not merge.\<close>

fun merge_coalesced :: "status \<Rightarrow> status \<Rightarrow> status option" where
  "merge_coalesced (Coalesced n) (Coalesced d) = Some (Coalesced (saturating_add n d))"
| "merge_coalesced _ _ = None"

section \<open>Validation\<close>

definition position_check :: "config \<Rightarrow> position \<Rightarrow> (unit, input_error) outcome" where
  "position_check c p =
     (if po_revision p \<noteq> ge_revision (cf_geometry c) then Err Stale
      else if \<not> is_finite (po_x p) \<or> \<not> is_finite (po_y p) \<or> f64_less (po_x p) (Finite 0) \<or>
              f64_less (po_y p) (Finite 0) \<or> f64_ge (po_x p) (ge_width (cf_geometry c)) \<or>
              f64_ge (po_y p) (ge_height (cf_geometry c))
      then Err Invalid else Ok ())"

definition ascii_alphanumeric :: "u8 \<Rightarrow> bool" where
  "ascii_alphanumeric b \<longleftrightarrow> (48 \<le> b \<and> b \<le> 57) \<or> (65 \<le> b \<and> b \<le> 90) \<or> (97 \<le> b \<and> b \<le> 122)"

definition capable :: "config \<Rightarrow> u32 \<Rightarrow> (unit, input_error) outcome" where
  "capable c cap = (if cf_capabilities c AND cap = 0 then Err Unsupported else Ok ())"

definition validate_key :: "config \<Rightarrow> mode \<Rightarrow> u64 \<Rightarrow> action \<Rightarrow> key \<Rightarrow> u32 \<Rightarrow> (unit, input_error) outcome" where
  "validate_key c m press act k modifiers =
     (if press = 0 \<or> modifiers AND NOT 0xff \<noteq> 0 then Err Invalid
      else if act = Repeat \<and> m = Physical then Err Unsupported
      else let name = key_name k; cap = (case k of PhysicalKey _ \<Rightarrow> CAP_PHYSICAL | LogicalKey _ \<Rightarrow> CAP_LOGICAL) in
        if name = [] \<or> 63 < length name \<or> 0 \<in> set name then Err Invalid
        else if act \<noteq> Down then Ok ()
        else if (case k of PhysicalKey _ \<Rightarrow> True | LogicalKey _ \<Rightarrow> False) \<and> \<not> list_all ascii_alphanumeric name then Err Invalid
        else capable c cap)"

fun validate :: "config \<Rightarrow> mode \<Rightarrow> event \<Rightarrow> (unit, input_error) outcome" where
  "validate c m (KeyEvent press act k modifiers) = validate_key c m press act k modifiers"
| "validate c m (TextEvent t) =
     (if t = [] \<or> cf_max_text_bytes c < length t then Err Invalid else capable c CAP_TEXT)"
| "validate c m (Motion p) = and_then (position_check c p) (\<lambda>_. capable c CAP_POINTER)"
| "validate c m (Button b act p) =
     (if \<not> (1 \<le> b \<and> b \<le> 32) \<or> act = Repeat \<or> \<not> is_finite (po_x p) \<or> \<not> is_finite (po_y p) then Err Invalid
      else and_then (if act = Down then position_check c p else Ok ()) (\<lambda>_. capable c CAP_POINTER))"
| "validate c m (Scroll x y u phase momentum inverted p) =
     (if \<not> is_finite x \<or> \<not> is_finite y \<or>
         (phase = Some Stationary \<and> (\<not> f64_eq x (Finite 0) \<or> \<not> f64_eq y (Finite 0)))
      then Err Invalid
      else and_then (position_check c p) (\<lambda>_. capable c CAP_SCROLL))"

end
