(* ===== verification/Input_Session.thy ===== *)
theory Input_Session
  imports Input_Model
begin

text \<open>
  The input session (\<open>input/session.rs\<close>): one target with a bounded queue, at most one admitted
  controller, one work item in flight and at most one pending cleanup barrier.  The methods of
  \<open>Target\<close>, \<open>Controller\<close> and \<open>State\<close> are functions on the state behind the target's mutex; the
  mailbox that a controller shares with the state is kept in a store keyed by the controller's
  identity, since a controller polls it after the state has dropped its own reference.
  \<open>Instant::now()\<close> is the argument \<open>now\<close> of the operations that read the clock.
\<close>

section \<open>State\<close>

record active =
  ac_id :: u64
  ac_mode :: mode
  ac_epoch :: u64
  ac_last_sequence :: u64
  ac_last_seen :: nat
  ac_keys :: "(u64 \<times> key) list"
  ac_buttons :: "u32 set"
  ac_scroll_open :: bool

record barrier =
  ba_scope :: scope
  ba_reason :: reason
  ba_end :: bool

record flight =
  fl_work :: work
  fl_end :: bool

record input_state =
  in_config :: config
  in_next_controller :: u64
  in_next_work :: u64
  in_active :: "active option"
  in_queue :: "work list"
  in_flight :: "flight option"
  in_barrier :: "barrier option"
  in_failed :: bool
  in_mail :: "u64 \<Rightarrow> status list"

type_synonym 'a input_result = "('a, input_error) outcome \<times> input_state"

record controller =
  co_id :: u64
  co_mode :: mode

definition target_new :: "config \<Rightarrow> (input_state, input_error) outcome" where
  "target_new c =
     (if cf_modes c = 0 \<or> cf_modes c AND NOT 7 \<noteq> 0 \<or> cf_capabilities c AND NOT CAP_ALL \<noteq> 0 \<or>
         cf_max_events c = 0 \<or> 65536 < cf_max_events c \<or> cf_max_bytes c < 112 \<or>
         16 * 1024 * 1024 < cf_max_bytes c \<or> cf_max_text_bytes c = 0 \<or> 16384 < cf_max_text_bytes c \<or>
         cf_idle_timeout c div 1000000 < 100 \<or> 3600 < cf_idle_timeout c div 1000000000 \<or>
         \<not> geometry_valid (cf_geometry c)
      then Err Invalid
      else Ok \<lparr> in_config = c, in_next_controller = 0, in_next_work = 0, in_active = None, in_queue = [],
                in_flight = None, in_barrier = None, in_failed = False, in_mail = (\<lambda>_. []) \<rparr>)"

section \<open>Private operations of the state\<close>

definition mailbox_limit :: "input_state \<Rightarrow> nat" where
  "mailbox_limit s = cf_max_events (in_config s) * 2 + 4"

definition push_status :: "input_state \<Rightarrow> status \<Rightarrow> input_state" where
  "push_status s st =
     (case in_active s of
        None \<Rightarrow> s
      | Some a \<Rightarrow>
        let mail = in_mail s (ac_id a) in
        (case (if mail = [] then None else merge_coalesced (last mail) st) of
           Some merged \<Rightarrow> s\<lparr> in_mail := (in_mail s)(ac_id a := butlast mail @ [merged]) \<rparr>
         | None \<Rightarrow>
           if mailbox_limit s \<le> length mail
           then s\<lparr> in_mail := (in_mail s)(ac_id a := [ClosedStatus QueueOverflow False]), in_queue := [],
                   in_barrier := Some \<lparr> ba_scope = All, ba_reason = QueueOverflow, ba_end = True \<rparr> \<rparr>
           else s\<lparr> in_mail := (in_mail s)(ac_id a := mail @ [st]) \<rparr>))"

lemma push_status_queue: "in_queue (push_status s st) = in_queue s \<or> in_queue (push_status s st) = []"
  by (simp add: push_status_def Let_def split: option.split)

lemma push_status_queue_le: "length (in_queue (push_status s st)) \<le> length (in_queue s)"
  using push_status_queue [of s st] by auto

definition pointer_work :: "work \<Rightarrow> bool" where
  "pointer_work w = (case wk_operation w of EventWork e \<Rightarrow> pointer e | Cleanup _ _ \<Rightarrow> False)"

text \<open>The loop of \<open>cancel\<close>: it pops the queue, rejects what the scope covers and keeps the rest.
  Reporting a rejection can overflow the mailbox, which empties the queue and ends the loop.\<close>

function cancel_queue :: "scope \<Rightarrow> work list \<Rightarrow> input_state \<Rightarrow> input_state" where
  "cancel_queue sc keep s =
     (case in_queue s of
        [] \<Rightarrow> s\<lparr> in_queue := keep \<rparr>
      | w # q \<Rightarrow>
        if sc = All \<or> pointer_work w
        then cancel_queue sc keep (push_status (s\<lparr> in_queue := q \<rparr>) (Rejected (wk_sequence w) Stale))
        else cancel_queue sc (keep @ [w]) (s\<lparr> in_queue := q \<rparr>))"
  by pat_completeness auto

termination
  by (relation "measure (\<lambda>(sc, keep, s). length (in_queue s))")
    (auto intro: le_less_trans [OF push_status_queue_le])

declare cancel_queue.simps [simp del]

definition ends :: "flight option \<Rightarrow> bool" where
  "ends f = (case f of Some f \<Rightarrow> fl_end f | None \<Rightarrow> False)"

definition cancel :: "scope \<Rightarrow> reason \<Rightarrow> bool \<Rightarrow> input_state \<Rightarrow> input_state" where
  "cancel sc0 reason0 end0 s =
     (if in_active s = None then s
      else
        let old = in_barrier s;
            sc = (if (case old of Some b \<Rightarrow> ba_scope b = All | None \<Rightarrow> False) \<or> end0 then All else sc0);
            ends_now = (end0 \<or> (case old of Some b \<Rightarrow> ba_end b | None \<Rightarrow> False) \<or> ends (in_flight s));
            why = (case old of Some b \<Rightarrow> if ba_end b then ba_reason b else reason0 | None \<Rightarrow> reason0)
        in if ends (in_flight s) then s
           else cancel_queue sc []
             (s\<lparr> in_barrier := Some \<lparr> ba_scope = sc, ba_reason = why, ba_end = ends_now \<rparr> \<rparr>))"

definition expire :: "nat \<Rightarrow> input_state \<Rightarrow> input_state" where
  "expire now s =
     (case in_active s of
        Some a \<Rightarrow> if cf_idle_timeout (in_config s) \<le> now - ac_last_seen a then cancel All Expired True s else s
      | None \<Rightarrow> s)"

text \<open>\<open>bind\<close>: whether the work is to be dispatched, and the work with the key it was pressed with.\<close>

definition bind :: "input_state \<Rightarrow> work \<Rightarrow> (bool \<times> work, input_error) outcome" where
  "bind s w =
     (case in_active s of
        None \<Rightarrow> Err Closed
      | Some a \<Rightarrow>
        (case wk_operation w of
           EventWork (KeyEvent press Down k m) \<Rightarrow>
             if map_of (ac_keys a) press \<noteq> None \<or> cf_max_events (in_config s) \<le> length (ac_keys a)
             then Err Invalid else Ok (True, w)
         | EventWork (KeyEvent press act k m) \<Rightarrow>
             (case map_of (ac_keys a) press of
                None \<Rightarrow> if act = Up then Ok (False, w) else Err Invalid
              | Some binding \<Rightarrow> Ok (True, w\<lparr> wk_operation := EventWork (KeyEvent press act binding m) \<rparr>))
         | EventWork (Button b act p) \<Rightarrow>
             if act = Up \<and> b \<notin> ac_buttons a then Ok (False, w)
             else if (act = Down) = (b \<in> ac_buttons a) then Err Invalid
             else Ok (True, w)
         | _ \<Rightarrow> Ok (True, w)))"

definition apply_event :: "event \<Rightarrow> input_state \<Rightarrow> input_state" where
  "apply_event e s =
     (case in_active s of
        None \<Rightarrow> s
      | Some a \<Rightarrow>
        s\<lparr> in_active := Some
            (case e of
               KeyEvent press Down k _ \<Rightarrow> a\<lparr> ac_keys := bt_insert press k (ac_keys a) \<rparr>
             | KeyEvent press Up _ _ \<Rightarrow> a\<lparr> ac_keys := bt_remove press (ac_keys a) \<rparr>
             | Button b Down _ \<Rightarrow> a\<lparr> ac_buttons := Set.insert b (ac_buttons a) \<rparr>
             | Button b Up _ \<Rightarrow> a\<lparr> ac_buttons := ac_buttons a - {b} \<rparr>
             | _ \<Rightarrow> a) \<rparr>)"

definition work_bytes :: "work \<Rightarrow> nat" where
  "work_bytes w = (case wk_operation w of EventWork e \<Rightarrow> event_bytes e | Cleanup _ _ \<Rightarrow> 0)"

section \<open>The target\<close>

definition target_admit :: "nat \<Rightarrow> mode \<Rightarrow> input_state \<Rightarrow> controller input_result" where
  "target_admit now m s =
     (if in_failed s then (Err CleanupFailed, s)
      else if in_active s \<noteq> None then (Err Busy, s)
      else if cf_modes (in_config s) AND mode_bit m = 0 then (Err Unsupported, s)
      else case checked_add (in_next_controller s) 1 of
        None \<Rightarrow> (Err Closed, s)
      | Some cid \<Rightarrow>
        (Ok \<lparr> co_id = cid, co_mode = m \<rparr>,
         s\<lparr> in_next_controller := cid,
            in_active := Some \<lparr> ac_id = cid, ac_mode = m, ac_epoch = 1, ac_last_sequence = 0,
              ac_last_seen = now, ac_keys = [], ac_buttons = {}, ac_scroll_open = False \<rparr>,
            in_mail := (in_mail s)(cid := []) \<rparr>))"

text \<open>The dispatch loop of \<open>next\<close> when no barrier is pending.\<close>

function next_event :: "input_state \<Rightarrow> work option \<times> input_state" where
  "next_event s =
     (case in_queue s of
        [] \<Rightarrow> (None, s)
      | w # q \<Rightarrow>
        let s1 = s\<lparr> in_queue := q \<rparr> in
        (case bind s1 w of
           Ok (True, w') \<Rightarrow> (Some w', s1\<lparr> in_flight := Some \<lparr> fl_work = w', fl_end = False \<rparr> \<rparr>)
         | Ok (False, w') \<Rightarrow>
           let s2 = push_status s1 (Completed (wk_sequence w') Executed) in
           if in_barrier s2 \<noteq> None then (None, s2) else next_event s2
         | Err error \<Rightarrow>
           let s2 = push_status s1 (Rejected (wk_sequence w) error) in
           if in_barrier s2 \<noteq> None then (None, s2) else next_event s2
         | Panic \<Rightarrow> (None, s1)))"
  by pat_completeness auto

termination
  by (relation "measure (\<lambda>s. length (in_queue s))") (auto intro: le_less_trans [OF push_status_queue_le])

declare next_event.simps [simp del]

definition target_next :: "nat \<Rightarrow> input_state \<Rightarrow> work option \<times> input_state" where
  "target_next now s0 =
     (let s = expire now s0 in
      if in_flight s \<noteq> None then (None, s)
      else case in_barrier s of
        Some b \<Rightarrow>
          let s1 = s\<lparr> in_barrier := None \<rparr> in
          (case in_active s1 of
             None \<Rightarrow> (None, s1)
           | Some a \<Rightarrow>
             let w = \<lparr> wk_mode = ac_mode a, wk_id = in_next_work s1 + 1, wk_controller = ac_id a,
                       wk_epoch = ac_epoch a, wk_sequence = 0,
                       wk_operation = Cleanup (ba_scope b) (ba_reason b) \<rparr>
             in (Some w, s1\<lparr> in_next_work := in_next_work s1 + 1,
                            in_flight := Some \<lparr> fl_work = w, fl_end = ba_end b \<rparr> \<rparr>))
      | None \<Rightarrow> next_event s)"

definition release_cleaned :: "scope \<Rightarrow> active \<Rightarrow> active" where
  "release_cleaned sc a =
     (let b = a\<lparr> ac_buttons := {}, ac_scroll_open := False \<rparr>
      in if sc = All then b\<lparr> ac_keys := [] \<rparr> else b)"

definition next_epoch :: "input_state \<Rightarrow> input_state" where
  "next_epoch s =
     (case in_active s of
        None \<Rightarrow> s
      | Some a \<Rightarrow>
        let epoch = ac_epoch a + 1 in
        push_status
          (s\<lparr> in_active := Some (a\<lparr> ac_epoch := epoch \<rparr>),
              in_queue := map (\<lambda>w. w\<lparr> wk_epoch := epoch \<rparr>) (in_queue s) \<rparr>)
          (Reset epoch (cf_geometry (in_config s))))"

definition complete_event :: "work \<Rightarrow> event \<Rightarrow> execution \<Rightarrow> input_state \<Rightarrow> input_state" where
  "complete_event w e result s =
     (let s1 = (if result = Executed then apply_event e s else s);
          s2 = push_status s1 (Completed (wk_sequence w) result)
      in if result = Partial \<or> result = Uncertain then cancel All Execution True s2 else s2)"

definition finish_cleanup :: "scope \<Rightarrow> reason \<Rightarrow> bool \<Rightarrow> execution \<Rightarrow> input_state \<Rightarrow> unit input_result" where
  "finish_cleanup sc why ending result s =
     (if result \<noteq> Executed
      then (Err CleanupFailed,
            (push_status (s\<lparr> in_failed := True, in_queue := [], in_barrier := None \<rparr>) (ClosedStatus why False))
              \<lparr> in_active := None \<rparr>)
      else
        let s1 = s\<lparr> in_active := map_option (release_cleaned sc) (in_active s) \<rparr> in
        if ending
        then (Ok (), (push_status s1 (ClosedStatus why True))
                \<lparr> in_active := None, in_barrier := None, in_queue := [] \<rparr>)
        else if in_barrier s1 = None then (Ok (), next_epoch s1)
        else (Ok (), s1))"

definition complete :: "u64 \<Rightarrow> execution \<Rightarrow> input_state \<Rightarrow> unit input_result" where
  "complete i result s =
     (case in_flight s of
        None \<Rightarrow> (Err Invalid, s)
      | Some f \<Rightarrow>
        if wk_id (fl_work f) \<noteq> i then (Err Invalid, s)
        else let s1 = s\<lparr> in_flight := None \<rparr> in
          (case wk_operation (fl_work f) of
             EventWork e \<Rightarrow> (Ok (), complete_event (fl_work f) e result s1)
           | Cleanup sc why \<Rightarrow> finish_cleanup sc why (fl_end f) result s1))"

definition set_geometry :: "geometry \<Rightarrow> input_state \<Rightarrow> unit input_result" where
  "set_geometry g s =
     (if \<not> geometry_valid g \<or> ge_revision g \<le> ge_revision (cf_geometry (in_config s)) then (Err Invalid, s)
      else let s1 = s\<lparr> in_config := (in_config s)\<lparr> cf_geometry := g \<rparr> \<rparr> in
        (Ok (), if in_active s1 \<noteq> None then cancel Pointer GeometryChange False s1 else s1))"

definition idle :: "input_state \<Rightarrow> bool" where
  "idle s \<longleftrightarrow> in_active s = None \<and> in_flight s = None \<and> \<not> in_failed s"

definition resolve_failed_cleanup :: "input_state \<Rightarrow> unit input_result" where
  "resolve_failed_cleanup s =
     (if \<not> in_failed s \<or> in_flight s \<noteq> None then (Err Invalid, s) else (Ok (), s\<lparr> in_failed := False \<rparr>))"

section \<open>The controller\<close>

definition owner :: "controller \<Rightarrow> input_state \<Rightarrow> active option" where
  "owner c s = (case in_active s of Some a \<Rightarrow> if ac_id a = co_id c then Some a else None | None \<Rightarrow> None)"

definition heartbeat :: "nat \<Rightarrow> controller \<Rightarrow> input_state \<Rightarrow> unit input_result" where
  "heartbeat now c s0 =
     (let s = expire now s0 in
      case owner c s of
        None \<Rightarrow> (Err Closed, s)
      | Some a \<Rightarrow> (Ok (), s\<lparr> in_active := Some (a\<lparr> ac_last_seen := now \<rparr>) \<rparr>))"

fun scroll_start :: "event \<Rightarrow> bool" where
  "scroll_start (Scroll _ _ _ phase _ _ _) = (phase = Some MayBegin \<or> phase = Some Began)"
| "scroll_start _ = False"

fun scroll_continuation :: "event \<Rightarrow> bool" where
  "scroll_continuation (Scroll _ _ _ phase momentum _ _) =
     (phase \<in> {Some Stationary, Some Changed, Some Ended, Some Cancelled} \<or>
      momentum \<in> {Some MomentumBegan, Some MomentumChanged, Some MomentumEnded})"
| "scroll_continuation _ = False"

fun is_motion :: "event \<Rightarrow> bool" where
  "is_motion (Motion _) = True"
| "is_motion _ = False"

definition motion_work :: "work \<Rightarrow> bool" where
  "motion_work w = (case wk_operation w of EventWork e \<Rightarrow> is_motion e | Cleanup _ _ \<Rightarrow> False)"

definition cleaning :: "flight option \<Rightarrow> bool" where
  "cleaning f = (case f of Some f \<Rightarrow> (case wk_operation (fl_work f) of Cleanup _ _ \<Rightarrow> True | EventWork _ \<Rightarrow> False) | None \<Rightarrow> False)"

definition queued_bytes :: "input_state \<Rightarrow> nat" where
  "queued_bytes s = sum_list (map work_bytes (in_queue s)) +
     (case in_flight s of Some f \<Rightarrow> work_bytes (fl_work f) | None \<Rightarrow> 0)"

definition queued_events :: "input_state \<Rightarrow> nat" where
  "queued_events s = length (in_queue s) + (if in_flight s = None then 0 else 1)"

text \<open>The part of \<open>submit\<close> after validation: coalesce with the queued tail, refuse, or append.\<close>

definition enqueue :: "controller \<Rightarrow> active \<Rightarrow> u64 \<Rightarrow> u64 \<Rightarrow> event \<Rightarrow> input_state \<Rightarrow> unit input_result" where
  "enqueue c a epoch sequence e s =
     (if is_motion e \<and> in_queue s \<noteq> [] \<and> motion_work (last (in_queue s))
      then (Ok (), push_status
              (s\<lparr> in_queue := butlast (in_queue s) @
                    [(last (in_queue s))\<lparr> wk_sequence := sequence, wk_operation := EventWork e \<rparr>] \<rparr>)
              (Coalesced 1))
      else if cf_max_events (in_config s) \<le> queued_events s \<or>
              cf_max_bytes (in_config s) < queued_bytes s + event_bytes e
      then (Err Overflow, cancel All QueueOverflow True s)
      else
        let s1 = (if scroll_start e then s\<lparr> in_active := Some (a\<lparr> ac_scroll_open := True \<rparr>) \<rparr> else s);
            w = \<lparr> wk_mode = co_mode c, wk_id = in_next_work s1 + 1, wk_controller = co_id c,
                  wk_epoch = epoch, wk_sequence = sequence, wk_operation = EventWork e \<rparr>
        in (Ok (), s1\<lparr> in_next_work := in_next_work s1 + 1, in_queue := in_queue s1 @ [w] \<rparr>))"

definition submit :: "nat \<Rightarrow> controller \<Rightarrow> u64 \<Rightarrow> u64 \<Rightarrow> event \<Rightarrow> input_state \<Rightarrow> unit input_result" where
  "submit now c epoch sequence e s0 =
     (let s = expire now s0 in
      case owner c s of
        None \<Rightarrow> (Err Closed, s)
      | Some a0 \<Rightarrow>
        if sequence = 0 \<or> sequence \<le> ac_last_sequence a0 then (Err Invalid, s)
        else
          let a = a0\<lparr> ac_last_sequence := sequence \<rparr>; s1 = s\<lparr> in_active := Some a \<rparr> in
          if epoch \<noteq> ac_epoch a then (Err Stale, s1)
          else if in_barrier s1 \<noteq> None \<or> cleaning (in_flight s1) then (Err Busy, s1)
          else case validate (in_config s1) (ac_mode a) e of
            Err error \<Rightarrow> (Err error, s1)
          | Panic \<Rightarrow> (Panic, s1)
          | Ok _ \<Rightarrow>
            if \<not> ac_scroll_open a \<and> \<not> scroll_start e \<and> scroll_continuation e then (Err Stale, s1)
            else enqueue c a epoch sequence e s1)"

definition controller_reset :: "controller \<Rightarrow> input_state \<Rightarrow> unit input_result" where
  "controller_reset c s =
     (if owner c s = None then (Err Closed, s) else (Ok (), cancel All Focus False s))"

definition controller_close :: "controller \<Rightarrow> input_state \<Rightarrow> input_state" where
  "controller_close c s = (if owner c s = None then s else cancel All Disconnect True s)"

definition controller_poll :: "controller \<Rightarrow> input_state \<Rightarrow> status option \<times> input_state" where
  "controller_poll c s =
     (case in_mail s (co_id c) of
        [] \<Rightarrow> (None, s)
      | st # rest \<Rightarrow> (Some st, s\<lparr> in_mail := (in_mail s)(co_id c := rest) \<rparr>))"

lemmas input_ops = target_admit_def target_next_def complete_def set_geometry_def resolve_failed_cleanup_def heartbeat_def
  submit_def controller_reset_def controller_close_def controller_poll_def

end
