(* ===== verification/Input_Safety.thy ===== *)
theory Input_Safety
  imports Input_Session "HOL-Library.Sublist"
begin

text \<open>
  The input session as a state machine and what it guarantees: one controller at a time, ordered
  and fenced dispatch, bounded queues, exact accounting of accepted submissions, and no key or
  button left held at the executor when a controller is gone.
\<close>

section \<open>The effect of reporting a status\<close>

definition overflow_barrier :: barrier where
  "overflow_barrier = \<lparr> ba_scope = All, ba_reason = QueueOverflow, ba_end = True \<rparr>"

definition overflowed :: "status list \<Rightarrow> bool" where
  "overflowed l \<longleftrightarrow> ClosedStatus QueueOverflow False \<in> set l"

fun status_weight :: "status \<Rightarrow> nat" where
  "status_weight (Coalesced n) = unat n"
| "status_weight (Completed _ _) = 1"
| "status_weight (Rejected _ _) = 1"
| "status_weight (Reset _ _) = 0"
| "status_weight (ClosedStatus _ _) = 0"

definition settled :: "status list \<Rightarrow> nat" where
  "settled l = sum_list (map status_weight l)"

lemma settled_simps [simp]:
  "settled [] = 0" "settled (x # l) = status_weight x + settled l" "settled (k @ l) = settled k + settled l"
  by (simp_all add: settled_def)

text \<open>Only the reporting controller's mailbox, the queue and the barrier change, the last two only
  when the mailbox overflows.\<close>

lemma push_status_cases:
  assumes "in_active s = Some a"
  obtains (full) mail where "push_status s st = s\<lparr> in_mail := (in_mail s)(ac_id a := mail), in_queue := [],
      in_barrier := Some overflow_barrier \<rparr>" "overflowed mail" "length mail = 1"
  | (room) mail where "push_status s st = s\<lparr> in_mail := (in_mail s)(ac_id a := mail) \<rparr>"
      "length mail \<le> max (length (in_mail s (ac_id a))) (mailbox_limit s)"
      "settled (in_mail s (ac_id a)) + status_weight st < 2 ^ 64 \<Longrightarrow>
         settled mail = settled (in_mail s (ac_id a)) + status_weight st"
      "overflowed (in_mail s (ac_id a)) \<Longrightarrow> overflowed mail"
proof -
  let ?mail = "in_mail s (ac_id a)"
  show ?thesis
  proof (cases "if ?mail = [] then None else merge_coalesced (last ?mail) st")
    case None
    show ?thesis
    proof (cases "mailbox_limit s \<le> length ?mail")
      case True
      then show ?thesis
        using None assms full [of "[ClosedStatus QueueOverflow False]"]
        by (simp add: push_status_def Let_def overflow_barrier_def overflowed_def)
    next
      case False
      then show ?thesis
        using None assms room [of "?mail @ [st]"] by (simp add: push_status_def Let_def overflowed_def)
    qed
  next
    case (Some merged)
    then obtain n d where m: "?mail \<noteq> []" "last ?mail = Coalesced n" "st = Coalesced d" "merged = Coalesced (saturating_add n d)"
      by (cases "last ?mail"; cases st) (auto split: if_splits)
    have split: "?mail = butlast ?mail @ [Coalesced n]" using m(1,2) by (metis append_butlast_last_id)
    have "settled ?mail = settled (butlast ?mail) + unat n" by (subst split) simp
    then have sat: "unat (saturating_add n d) = unat n + unat d" if "settled ?mail + unat d < 2 ^ 64"
      using that by (simp add: unat_saturating_add)
    show ?thesis
    proof (rule room [of "butlast ?mail @ [merged]"])
      show "push_status s st = s\<lparr> in_mail := (in_mail s)(ac_id a := butlast ?mail @ [merged]) \<rparr>"
        using Some assms by (simp add: push_status_def Let_def)
      show "length (butlast ?mail @ [merged]) \<le> max (length ?mail) (mailbox_limit s)" using m(1) by simp
      show "settled (butlast ?mail @ [merged]) = settled ?mail + status_weight st"
        if "settled ?mail + status_weight st < 2 ^ 64"
        using that sat m \<open>settled ?mail = _\<close> by simp
      show "overflowed (butlast ?mail @ [merged])" if "overflowed ?mail"
        using that split by (metis (no_types, lifting) Un_iff append.right_neutral empty_iff insert_iff list.set(1) list.simps(15)
            overflowed_def set_append status.distinct(7))
    qed
  qed
qed

section \<open>Reporting and dropping queued work\<close>

text \<open>A state change in which queued work is only dropped, each dropped item is reported to the
  active controller, and nothing else changes, unless the mailbox overflows.\<close>

definition accounts :: "input_state \<Rightarrow> input_state \<Rightarrow> active \<Rightarrow> bool" where
  "accounts s s' a \<longleftrightarrow> (\<forall>i. i \<noteq> ac_id a \<longrightarrow> in_mail s' i = in_mail s i) \<and>
     (overflowed (in_mail s (ac_id a)) \<longrightarrow> overflowed (in_mail s' (ac_id a))) \<and>
     (overflowed (in_mail s' (ac_id a)) \<or>
      in_barrier s' = in_barrier s \<and>
      (settled (in_mail s (ac_id a)) + length (in_queue s) < 2 ^ 64 \<longrightarrow>
         settled (in_mail s' (ac_id a)) + length (in_queue s') = settled (in_mail s (ac_id a)) + length (in_queue s)))"

definition reports :: "input_state \<Rightarrow> input_state \<Rightarrow> bool" where
  "reports s s' \<longleftrightarrow>
     s' = s\<lparr> in_mail := in_mail s', in_queue := in_queue s', in_barrier := in_barrier s' \<rparr> \<and>
     subseq (in_queue s') (in_queue s) \<and>
     (in_barrier s' = in_barrier s \<or> in_barrier s' = Some overflow_barrier) \<and>
     (\<forall>i. length (in_mail s' i) \<le> max (length (in_mail s i)) (mailbox_limit s)) \<and>
     (\<forall>a. in_active s = Some a \<longrightarrow> accounts s s' a)"

lemma reportsD:
  assumes "reports s s'"
  shows "s' = s\<lparr> in_mail := in_mail s', in_queue := in_queue s', in_barrier := in_barrier s' \<rparr>"
    "subseq (in_queue s') (in_queue s)" "in_barrier s' = in_barrier s \<or> in_barrier s' = Some overflow_barrier"
    "length (in_mail s' i) \<le> max (length (in_mail s i)) (mailbox_limit s)" "in_active s = Some a \<Longrightarrow> accounts s s' a"
  using assms unfolding reports_def by (argo, argo, argo, meson, meson)

lemma reports_fields:
  assumes "reports s s'"
  shows "in_config s' = in_config s" "in_next_controller s' = in_next_controller s" "in_next_work s' = in_next_work s"
    "in_active s' = in_active s" "in_flight s' = in_flight s" "in_failed s' = in_failed s" "mailbox_limit s' = mailbox_limit s"
proof -
  obtain m q b where "s' = s\<lparr> in_mail := m, in_queue := q, in_barrier := b \<rparr>" using assms unfolding reports_def by blast
  then show "in_config s' = in_config s" "in_next_controller s' = in_next_controller s" "in_next_work s' = in_next_work s"
    "in_active s' = in_active s" "in_flight s' = in_flight s" "in_failed s' = in_failed s" "mailbox_limit s' = mailbox_limit s"
    by (simp_all add: mailbox_limit_def)
qed

lemma reports_refl [simp]: "reports s s"
  by (simp add: reports_def accounts_def)

lemma accounts_trans:
  "accounts s t a \<Longrightarrow> accounts t u a \<Longrightarrow> accounts s u a"
  by (auto simp: accounts_def)

lemma reports_trans:
  assumes "reports s t" "reports t u"
  shows "reports s u"
proof -
  note f = reports_fields [OF assms(1)] and st = reportsD [OF assms(1)] and tu = reportsD [OF assms(2)]
  have "u = s\<lparr> in_mail := in_mail u, in_queue := in_queue u, in_barrier := in_barrier u \<rparr>"
    by (subst tu(1), subst st(1)) simp
  moreover have "length (in_mail u i) \<le> max (length (in_mail s i)) (mailbox_limit s)" for i
    using st(4) [of i] tu(4) [of i] f(7) by simp
  moreover have "accounts s u a" if "in_active s = Some a" for a
    by (rule accounts_trans [OF st(5) [OF that] tu(5)]) (use that f(4) in simp)
  moreover have "subseq (in_queue u) (in_queue s)" using st(2) tu(2) by (rule subseq_order.order_trans [rotated])
  moreover have "in_barrier u = in_barrier s \<or> in_barrier u = Some overflow_barrier" using st(3) tu(3) by argo
  ultimately show ?thesis unfolding reports_def by (intro conjI allI impI) assumption+
qed

text \<open>Reporting one item that is popped from the queue, and reporting something that settles nothing.\<close>

lemma reports_pop:
  assumes q: "in_queue s = w # q" and w: "status_weight st = 1"
  shows "reports (s\<lparr> in_queue := keep @ w # q \<rparr>)
     ((push_status (s\<lparr> in_queue := q \<rparr>) st)\<lparr> in_queue := keep @ in_queue (push_status (s\<lparr> in_queue := q \<rparr>) st) \<rparr>)"
proof (cases "in_active s")
  case None
  then show ?thesis
    by (simp add: push_status_def reports_def mailbox_limit_def subseq_append' list_emb_Cons)
next
  case (Some a)
  then have a: "in_active (s\<lparr> in_queue := q \<rparr>) = Some a" by simp
  show ?thesis
  proof (cases rule: push_status_cases [OF a, of st])
    case (1 mail)
    then show ?thesis
      using Some by (simp add: reports_def accounts_def mailbox_limit_def le_max_iff_disj subseq_rev_drop_many)
  next
    case (2 mail)
    then show ?thesis
      using Some w by (auto simp: reports_def accounts_def mailbox_limit_def subseq_append' list_emb_Cons)
  qed
qed

lemma reports_note:
  assumes "status_weight st = 0"
  shows "reports s (push_status s st)"
proof (cases "in_active s")
  case None
  then show ?thesis by (simp add: push_status_def)
next
  case (Some a)
  show ?thesis
  proof (cases rule: push_status_cases [OF Some, of st])
    case (1 mail)
    then show ?thesis using Some by (simp add: reports_def accounts_def mailbox_limit_def le_max_iff_disj)
  next
    case (2 mail)
    then show ?thesis using Some assms by (auto simp: reports_def accounts_def mailbox_limit_def)
  qed
qed

lemma cancel_queue_reports: "reports (s\<lparr> in_queue := keep @ in_queue s \<rparr>) (cancel_queue sc keep s)"
proof (induction sc keep s rule: cancel_queue.induct)
  case (1 sc keep s)
  show ?case
  proof (cases "in_queue s")
    case Nil
    then show ?thesis by (subst cancel_queue.simps) simp
  next
    case (Cons w q)
    let ?t = "push_status (s\<lparr> in_queue := q \<rparr>) (Rejected (wk_sequence w) Stale)"
    show ?thesis
    proof (cases "sc = All \<or> pointer_work w")
      case True
      have "reports (s\<lparr> in_queue := keep @ w # q \<rparr>) (?t\<lparr> in_queue := keep @ in_queue ?t \<rparr>)"
        by (rule reports_pop [OF Cons]) simp
      from reports_trans [OF this 1(1) [OF Cons True]] show ?thesis
        by (subst cancel_queue.simps) (simp add: Cons True)
    next
      case False
      from 1(2) [OF Cons False] show ?thesis by (subst cancel_queue.simps) (simp add: Cons False)
    qed
  qed
qed

lemma cancel_queue_all: "in_queue (cancel_queue All keep s) = keep"
proof (induction All keep s rule: cancel_queue.induct)
  case (1 keep s)
  then show ?case by (subst cancel_queue.simps) (auto split: list.split)
qed

text \<open>\<open>cancel\<close> only raises a barrier and drops reported work.\<close>

definition raised :: "input_state \<Rightarrow> scope \<Rightarrow> reason \<Rightarrow> bool \<Rightarrow> barrier" where
  "raised s sc0 why end0 =
     \<lparr> ba_scope = (if (case in_barrier s of Some b \<Rightarrow> ba_scope b = All | None \<Rightarrow> False) \<or> end0 then All else sc0),
       ba_reason = (case in_barrier s of Some b \<Rightarrow> if ba_end b then ba_reason b else why | None \<Rightarrow> why),
       ba_end = (end0 \<or> (case in_barrier s of Some b \<Rightarrow> ba_end b | None \<Rightarrow> False) \<or> ends (in_flight s)) \<rparr>"

lemma cancel_cases:
  obtains (none) "in_active s = None \<or> ends (in_flight s)" "cancel sc why end0 s = s"
  | (some) "in_active s \<noteq> None" "\<not> ends (in_flight s)"
      "reports (s\<lparr> in_barrier := Some (raised s sc why end0) \<rparr>) (cancel sc why end0 s)"
      "ba_scope (raised s sc why end0) = All \<Longrightarrow> in_queue (cancel sc why end0 s) = []"
proof (cases "in_active s = None \<or> ends (in_flight s)")
  case True
  then show ?thesis by (intro none) (auto simp: cancel_def Let_def)
next
  case False
  let ?b = "raised s sc why end0"
  have c: "cancel sc why end0 s = cancel_queue (ba_scope ?b) [] (s\<lparr> in_barrier := Some ?b \<rparr>)"
  proof -
    obtain a where "in_active s = Some a" "\<not> ends (in_flight s)" using False by auto
    then show ?thesis by (simp add: cancel_def Let_def raised_def)
  qed
  show ?thesis
  proof (rule some)
    show "reports (s\<lparr> in_barrier := Some ?b \<rparr>) (cancel sc why end0 s)"
      using cancel_queue_reports [where keep = "[]" and s = "s\<lparr> in_barrier := Some ?b \<rparr>" and sc = "ba_scope ?b"] unfolding c by simp
    show "in_queue (cancel sc why end0 s) = []" if "ba_scope ?b = All"
      unfolding c that by (rule cancel_queue_all)
  qed (use False in simp_all)
qed

text \<open>The dispatch loop: work that needs no dispatch is reported and dropped, then the first work
  that binds is put in flight.\<close>

definition dispatches :: "input_state \<Rightarrow> work option \<times> input_state \<Rightarrow> bool" where
  "dispatches s x \<longleftrightarrow> (fst x = None \<and> reports s (snd x)) \<or>
     (\<exists>t w q w'. reports s t \<and> in_queue t = w # q \<and> in_barrier t = None \<and> bind (t\<lparr> in_queue := q \<rparr>) w = Ok (True, w') \<and>
        x = (Some w', t\<lparr> in_queue := q, in_flight := Some \<lparr> fl_work = w', fl_end = False \<rparr> \<rparr>))"

lemma dispatches_trans: "reports s t \<Longrightarrow> dispatches t x \<Longrightarrow> dispatches s x"
  unfolding dispatches_def using reports_trans by blast

lemma bind_no_panic: "bind s w \<noteq> Panic"
  by (auto simp: bind_def split: option.splits operation.splits event.splits action.splits if_splits)

lemma next_event_skip:
  assumes q: "in_queue s = w # q" and st: "status_weight st = 1"
    and n: "next_event s = (if in_barrier (push_status (s\<lparr> in_queue := q \<rparr>) st) \<noteq> None
      then (None, push_status (s\<lparr> in_queue := q \<rparr>) st) else next_event (push_status (s\<lparr> in_queue := q \<rparr>) st))"
    and IH: "in_barrier (push_status (s\<lparr> in_queue := q \<rparr>) st) = None \<Longrightarrow>
      dispatches (push_status (s\<lparr> in_queue := q \<rparr>) st) (next_event (push_status (s\<lparr> in_queue := q \<rparr>) st))"
  shows "dispatches s (next_event s)"
proof -
  let ?t = "push_status (s\<lparr> in_queue := q \<rparr>) st"
  have "s\<lparr> in_queue := [] @ w # q \<rparr> = s" using q by simp
  with reports_pop [OF q st, of "[]"] have r: "reports s ?t" by simp
  show ?thesis
  proof (cases "in_barrier ?t = None")
    case True
    then show ?thesis using n dispatches_trans [OF r IH] by simp
  next
    case False
    then show ?thesis using n r by (simp add: dispatches_def)
  qed
qed

lemma next_event_dispatches: "in_barrier s = None \<Longrightarrow> dispatches s (next_event s)"
proof (induction s rule: next_event.induct)
  case (1 s)
  show ?case
  proof (cases "in_queue s")
    case Nil
    then show ?thesis by (subst next_event.simps) (simp add: dispatches_def)
  next
    case (Cons w q)
    show ?thesis
    proof (cases "bind (s\<lparr> in_queue := q \<rparr>) w")
      case (Ok x)
      obtain go w' where x: "x = (go, w')" by (cases x)
      show ?thesis
      proof (cases go)
        case True
        then have "next_event s = (Some w', s\<lparr> in_queue := q, in_flight := Some \<lparr> fl_work = w', fl_end = False \<rparr> \<rparr>)"
          by (subst next_event.simps) (simp add: Cons Ok x Let_def)
        then show ?thesis using Cons Ok x True 1(3) unfolding dispatches_def
          by (intro disjI2 exI [of _ s] exI [of _ w] exI [of _ q] exI [of _ w']) simp
      next
        case False
        then show ?thesis
          using 1(1) [OF Cons refl Ok [unfolded x] _ refl] Ok x
          by (intro next_event_skip [OF Cons, of "Completed (wk_sequence w') Executed"])
            (simp, subst next_event.simps, simp add: Cons Let_def, simp)
      qed
    next
      case (Err error)
      then show ?thesis
        using 1(2) [OF Cons refl Err refl]
        by (intro next_event_skip [OF Cons, of "Rejected (wk_sequence w) error"])
          (simp, subst next_event.simps, simp add: Cons Let_def, simp)
    qed (simp add: bind_no_panic)
  qed
qed

section \<open>The invariant\<close>

definition work_ok :: "active \<Rightarrow> work \<Rightarrow> bool" where
  "work_ok a w \<longleftrightarrow> wk_controller w = ac_id a \<and> wk_mode w = ac_mode a \<and> wk_epoch w = ac_epoch a \<and>
     wk_sequence w \<le> ac_last_sequence a \<and> (case wk_operation w of EventWork _ \<Rightarrow> True | Cleanup _ _ \<Rightarrow> False)"

definition flight_seq :: "flight option \<Rightarrow> u64 list" where
  "flight_seq f = (case f of None \<Rightarrow> [] | Some f \<Rightarrow>
     (case wk_operation (fl_work f) of EventWork _ \<Rightarrow> [wk_sequence (fl_work f)] | Cleanup _ _ \<Rightarrow> []))"

definition queue_ok :: "config \<Rightarrow> active \<Rightarrow> flight option \<Rightarrow> work list \<Rightarrow> bool" where
  "queue_ok c a f q \<longleftrightarrow> list_all (work_ok a) q \<and> sorted_wrt (<) (flight_seq f @ map wk_sequence q) \<and>
     length (flight_seq f) + length q \<le> cf_max_events c \<and> sum_list (map work_bytes q) \<le> cf_max_bytes c"

text \<open>What the flight relies on: a key that goes down is not held yet and there is room for it.\<close>

definition down_ok :: "config \<Rightarrow> (u64 \<times> key) list \<Rightarrow> event \<Rightarrow> bool" where
  "down_ok c keys e \<longleftrightarrow>
     (case e of KeyEvent p Down _ _ \<Rightarrow> map_of keys p = None \<and> length keys < cf_max_events c | _ \<Rightarrow> True)"

definition flight_ok :: "config \<Rightarrow> active \<Rightarrow> flight \<Rightarrow> bool" where
  "flight_ok c a f \<longleftrightarrow> wk_controller (fl_work f) = ac_id a \<and> wk_epoch (fl_work f) = ac_epoch a \<and>
     (case wk_operation (fl_work f) of
        EventWork e \<Rightarrow> \<not> fl_end f \<and> work_ok a (fl_work f) \<and>
          down_ok c (ac_keys a) e
      | Cleanup sc _ \<Rightarrow> fl_end f \<longrightarrow> sc = All)"

definition active_ok :: "input_state \<Rightarrow> active \<Rightarrow> bool" where
  "active_ok s a \<longleftrightarrow> queue_ok (in_config s) a (in_flight s) (in_queue s) \<and> pred_option (flight_ok (in_config s) a) (in_flight s) \<and>
     bt_wf (ac_keys a) \<and> length (ac_keys a) \<le> cf_max_events (in_config s) \<and> ac_id a \<le> in_next_controller s"

definition barrier_ok :: "barrier \<Rightarrow> bool" where
  "barrier_ok b \<longleftrightarrow> (ba_end b \<longrightarrow> ba_scope b = All)"

definition input_inv :: "input_state \<Rightarrow> bool" where
  "input_inv s \<longleftrightarrow> pred_option (active_ok s) (in_active s) \<and> (in_active s = None \<longrightarrow> in_queue s = [] \<and> in_flight s = None) \<and>
     pred_option barrier_ok (in_barrier s) \<and> (\<forall>i. length (in_mail s i) \<le> mailbox_limit s) \<and>
     geometry_valid (cf_geometry (in_config s))"

lemma sum_list_subseq: "subseq xs ys \<Longrightarrow> sum_list (map f xs) \<le> (sum_list (map f ys) :: nat)"
  by (induction rule: list_emb.induct) auto

lemma set_subseq: "subseq xs ys \<Longrightarrow> set xs \<subseteq> set ys"
  by (induction rule: list_emb.induct) auto

lemma sorted_wrt_subseq: "subseq xs ys \<Longrightarrow> sorted_wrt P ys \<Longrightarrow> sorted_wrt P xs"
  by (induction rule: list_emb.induct) (auto dest: set_subseq)

lemma queue_ok_subseq:
  assumes "queue_ok c a f q" "subseq q' q"
  shows "queue_ok c a f q'"
proof -
  have "subseq (flight_seq f @ map wk_sequence q') (flight_seq f @ map wk_sequence q)"
    using assms(2) by (simp add: subseq_append' subseq_map)
  moreover have "set q' \<subseteq> set q" using assms(2) by (rule set_subseq)
  moreover have "length q' \<le> length q" using assms(2) by (rule list_emb_length)
  moreover have "sum_list (map work_bytes q') \<le> sum_list (map work_bytes q)" by (rule sum_list_subseq [OF assms(2)])
  ultimately show ?thesis
    using assms(1) by (auto simp: queue_ok_def list_all_iff intro: sorted_wrt_subseq)
qed

lemma reports_inv:
  assumes "input_inv s" "reports s s'"
  shows "input_inv s'"
proof -
  note f = reports_fields [OF assms(2)] and r = reportsD [OF assms(2)]
  have "active_ok s' a" if "in_active s = Some a" for a
    using assms(1) that f queue_ok_subseq [OF _ r(2)] by (simp add: input_inv_def active_ok_def)
  moreover have "pred_option barrier_ok (in_barrier s')"
    using assms(1) r(3) by (auto simp: input_inv_def barrier_ok_def overflow_barrier_def)
  moreover have "length (in_mail s' i) \<le> mailbox_limit s'" for i
    using assms(1) r(4) [of i] f(7) by (simp add: input_inv_def max_def split: if_splits)
  moreover have "in_queue s' = []" if "in_active s = None"
    using assms(1) r(2) that by (simp add: input_inv_def)
  ultimately show ?thesis using assms(1) f by (cases "in_active s") (simp_all add: input_inv_def)
qed

lemma inv_barrier: "input_inv s \<Longrightarrow> barrier_ok b \<Longrightarrow> input_inv (s\<lparr> in_barrier := Some b \<rparr>)"
  by (cases "in_active s") (simp_all add: input_inv_def active_ok_def mailbox_limit_def)

lemma raised_ok: "input_inv s \<Longrightarrow> \<not> ends (in_flight s) \<Longrightarrow> barrier_ok (raised s sc why end0)"
  by (cases "in_barrier s") (auto simp: raised_def barrier_ok_def input_inv_def)

lemma cancel_inv: "input_inv s \<Longrightarrow> input_inv (cancel sc why end0 s)"
  by (cases rule: cancel_cases [of s sc why end0]) (auto intro: reports_inv inv_barrier raised_ok)

lemma cancel_fields:
  "in_config (cancel sc why end0 s) = in_config s" "in_active (cancel sc why end0 s) = in_active s"
  "in_flight (cancel sc why end0 s) = in_flight s" "in_failed (cancel sc why end0 s) = in_failed s"
  "in_next_controller (cancel sc why end0 s) = in_next_controller s"
  by (cases rule: cancel_cases [of s sc why end0]; simp add: reports_fields)+

lemma expire_cases:
  obtains "expire now s = s" | "expire now s = cancel All Expired True s" "in_active s \<noteq> None"
proof (cases "in_active s")
  case (Some a)
  then show ?thesis
    using that by (cases "cf_idle_timeout (in_config s) \<le> now - ac_last_seen a") (simp_all add: expire_def)
qed (use that in \<open>simp add: expire_def\<close>)

lemma expire_inv: "input_inv s \<Longrightarrow> input_inv (expire now s)"
  by (cases rule: expire_cases [of now s]) (simp_all add: cancel_inv)

lemma expire_fields [simp]:
  "in_config (expire now s) = in_config s" "in_active (expire now s) = in_active s" "in_flight (expire now s) = in_flight s"
  "in_failed (expire now s) = in_failed s" "in_next_controller (expire now s) = in_next_controller s"
  by (cases rule: expire_cases [of now s]; simp add: cancel_fields)+

lemma target_admit_inv: "input_inv s \<Longrightarrow> input_inv (snd (target_admit now m s))"
  by (auto simp: target_admit_def input_inv_def active_ok_def queue_ok_def flight_seq_def bt_wf_def mailbox_limit_def
      split: option.split)

text \<open>Binding keeps everything about a work but the key it names.\<close>

lemma bind_dispatch:
  assumes "bind s w = Ok (go, w')" "in_active s = Some a"
  shows "wk_controller w' = wk_controller w" "wk_mode w' = wk_mode w" "wk_epoch w' = wk_epoch w" "wk_sequence w' = wk_sequence w"
    "work_ok a w \<Longrightarrow> work_ok a w'"
    "wk_operation w' = EventWork (KeyEvent p Down k m) \<Longrightarrow> map_of (ac_keys a) p = None \<and> length (ac_keys a) < cf_max_events (in_config s)"
  using assms
  by (auto simp: bind_def work_ok_def split: operation.splits event.splits action.splits option.splits if_splits)

lemma flight_ok_event:
  assumes "work_ok a w" "\<And>p k m. wk_operation w = EventWork (KeyEvent p Down k m) \<Longrightarrow>
      map_of (ac_keys a) p = None \<and> length (ac_keys a) < cf_max_events c"
  shows "flight_ok c a \<lparr> fl_work = w, fl_end = False \<rparr>"
  using assms by (auto simp: flight_ok_def work_ok_def down_ok_def split: operation.splits event.splits action.splits)

lemma next_inv: "input_inv s \<Longrightarrow> input_inv (snd (target_next now s))"
proof -
  assume inv: "input_inv s"
  let ?s = "expire now s"
  have e: "input_inv ?s" by (rule expire_inv [OF inv])
  show ?thesis
  proof (cases "in_flight ?s = None")
    case False
    then show ?thesis using e by (simp add: target_next_def Let_def)
  next
    case f: True
    show ?thesis
    proof (cases "in_barrier ?s")
      case None
      note d = next_event_dispatches [OF None]
      have n: "target_next now s = next_event ?s" using f None by (simp add: target_next_def Let_def)
      show ?thesis
      proof (cases "fst (next_event ?s) = None")
        case True
        then show ?thesis using d e reports_inv unfolding n dispatches_def by auto
      next
        case False
        then obtain t w q w' where t: "reports ?s t" "in_queue t = w # q" "bind (t\<lparr> in_queue := q \<rparr>) w = Ok (True, w')"
          "next_event ?s = (Some w', t\<lparr> in_queue := q, in_flight := Some \<lparr> fl_work = w', fl_end = False \<rparr> \<rparr>)"
          using d unfolding dispatches_def by auto
        have it: "input_inv t" by (rule reports_inv [OF e t(1)])
        obtain a where a: "in_active t = Some a" using it t(2) by (cases "in_active t") (auto simp: input_inv_def)
        have ok: "work_ok a w" "queue_ok (in_config t) a None (w # q)"
          using it a t(2) f reports_fields(5) [OF t(1)] by (auto simp: input_inv_def active_ok_def queue_ok_def)
        note b = bind_dispatch [OF t(3), of a]
        have "flight_ok (in_config t) a \<lparr> fl_work = w', fl_end = False \<rparr>"
          by (rule flight_ok_event) (use b a ok(1) in auto)
        moreover have "queue_ok (in_config t) a (Some \<lparr> fl_work = w', fl_end = False \<rparr>) q"
          using ok b(4,5) a by (auto simp: queue_ok_def flight_seq_def work_ok_def split: operation.splits)
        ultimately show ?thesis
          unfolding n t(4) using it a by (simp add: input_inv_def active_ok_def mailbox_limit_def)
      qed
    next
      case (Some b)
      have "flight_seq (Some \<lparr> fl_work = \<lparr> wk_mode = x, wk_id = i, wk_controller = j, wk_epoch = k, wk_sequence = l,
          wk_operation = Cleanup sc r \<rparr>, fl_end = en \<rparr>) = []" for x i j k l sc r en by (simp add: flight_seq_def)
      then show ?thesis
        using e f Some
        by (cases "in_active s") (auto simp: target_next_def Let_def input_inv_def active_ok_def queue_ok_def flight_seq_def
            flight_ok_def barrier_ok_def mailbox_limit_def)
    qed
  qed
qed

lemma push_status_inv: "input_inv s \<Longrightarrow> input_inv (push_status s st)"
proof (cases "in_active s")
  case (Some a)
  assume inv: "input_inv s"
  then have a: "active_ok s a" using Some by (simp add: input_inv_def)
  then have e: "queue_ok (in_config s) a (in_flight s) []"
    using queue_ok_subseq [of "in_config s" a "in_flight s" "in_queue s" "[]"] by (simp add: active_ok_def)
  show ?thesis
  proof (cases rule: push_status_cases [OF Some, of st])
    case (1 mail)
    then show ?thesis
      using inv Some a e
      by (simp add: input_inv_def active_ok_def mailbox_limit_def barrier_ok_def overflow_barrier_def)
  next
    case (2 mail)
    then show ?thesis
      using inv Some by (simp add: input_inv_def active_ok_def mailbox_limit_def max_def split: if_splits)
  qed
qed (simp add: push_status_def)

lemma push_status_fields [simp]:
  "in_config (push_status s st) = in_config s" "in_active (push_status s st) = in_active s"
  "in_flight (push_status s st) = in_flight s" "in_failed (push_status s st) = in_failed s"
  "in_next_controller (push_status s st) = in_next_controller s"
  by (simp_all add: push_status_def Let_def split: option.split)

lemma queue_ok_landed: "queue_ok c a f q \<Longrightarrow> queue_ok c a None q"
  by (auto simp: queue_ok_def flight_seq_def sorted_wrt_append)

lemma landed_inv: "input_inv s \<Longrightarrow> input_inv (s\<lparr> in_flight := None \<rparr>)"
  by (cases "in_active s") (auto simp: input_inv_def active_ok_def mailbox_limit_def intro: queue_ok_landed)

lemma flight_ok_update:
  assumes "pred_option (flight_ok c a) f" "ac_id a' = ac_id a" "ac_mode a' = ac_mode a" "ac_epoch a' = ac_epoch a"
    "ac_last_sequence a \<le> ac_last_sequence a'" "ac_keys a' = ac_keys a"
  shows "pred_option (flight_ok c a') f"
  using assms by (cases f) (auto simp: flight_ok_def work_ok_def split: operation.splits)

lemma active_update_inv:
  assumes "input_inv s" "in_active s = Some a" "ac_id a' = ac_id a" "ac_mode a' = ac_mode a" "ac_epoch a' = ac_epoch a"
    "ac_last_sequence a \<le> ac_last_sequence a'" "bt_wf (ac_keys a')" "length (ac_keys a') \<le> cf_max_events (in_config s)"
    "pred_option (flight_ok (in_config s) a') (in_flight s)"
  shows "input_inv (s\<lparr> in_active := Some a' \<rparr>)"
proof -
  have w: "work_ok a w \<Longrightarrow> work_ok a' w" for w using assms(3-6) by (auto simp: work_ok_def)
  show ?thesis
    using assms w by (auto simp: input_inv_def active_ok_def queue_ok_def mailbox_limit_def list_all_iff)
qed

lemma length_bt_remove: "length (bt_remove k m) \<le> length m"
  by (simp add: bt_remove_def)

lemma apply_event_inv:
  assumes "input_inv s" "in_flight s = None"
    and "\<And>a p k m. in_active s = Some a \<Longrightarrow> e = KeyEvent p Down k m \<Longrightarrow>
      map_of (ac_keys a) p = None \<and> length (ac_keys a) < cf_max_events (in_config s)"
  shows "input_inv (apply_event e s)"
proof (cases "in_active s")
  case (Some a)
  have k: "bt_wf (ac_keys a)" "length (ac_keys a) \<le> cf_max_events (in_config s)"
    using assms(1) Some by (simp_all add: input_inv_def active_ok_def)
  obtain a' where s': "apply_event e s = s\<lparr> in_active := Some a' \<rparr>" and a': "ac_id a' = ac_id a" "ac_mode a' = ac_mode a"
      "ac_epoch a' = ac_epoch a" "ac_last_sequence a' = ac_last_sequence a" "bt_wf (ac_keys a')"
      "length (ac_keys a') \<le> cf_max_events (in_config s)"
  proof (cases e)
    case (KeyEvent p act ky m)
    then show ?thesis
      using that Some k assms(3) [OF Some] le_trans [OF length_bt_remove k(2)]
      by (cases act) (auto simp: apply_event_def bt_wf_insert bt_wf_remove length_bt_insert_fresh)
  next
    case (Button b act po)
    then show ?thesis using that Some k by (cases act) (auto simp: apply_event_def)
  qed (use that Some k in \<open>auto simp: apply_event_def\<close>)
  show ?thesis
    unfolding s' by (rule active_update_inv [OF assms(1) Some]) (use a' assms(2) in simp_all)
qed (use assms(1) in \<open>simp add: apply_event_def\<close>)

lemma complete_event_inv:
  assumes "input_inv s" "in_flight s = None"
    and "\<And>a p k m. in_active s = Some a \<Longrightarrow> e = KeyEvent p Down k m \<Longrightarrow>
      map_of (ac_keys a) p = None \<and> length (ac_keys a) < cf_max_events (in_config s)"
  shows "input_inv (complete_event w e result s)"
proof -
  have "input_inv (if result = Executed then apply_event e s else s)" using apply_event_inv [OF assms] assms(1) by simp
  then show ?thesis by (simp add: complete_event_def Let_def push_status_inv cancel_inv)
qed

lemma release_cleaned_fields [simp]:
  "ac_id (release_cleaned sc a) = ac_id a" "ac_mode (release_cleaned sc a) = ac_mode a" "ac_epoch (release_cleaned sc a) = ac_epoch a"
  "ac_last_sequence (release_cleaned sc a) = ac_last_sequence a" "ac_buttons (release_cleaned sc a) = {}"
  "ac_keys (release_cleaned sc a) = (if sc = All then [] else ac_keys a)"
  by (simp_all add: release_cleaned_def Let_def)

lemma release_inv:
  assumes "input_inv s" "in_flight s = None"
  shows "input_inv (s\<lparr> in_active := map_option (release_cleaned sc) (in_active s) \<rparr>)"
proof (cases "in_active s")
  case (Some a)
  then show ?thesis
    using active_update_inv [OF assms(1) Some, of "release_cleaned sc a"] assms
    by (simp add: input_inv_def active_ok_def bt_wf_def)
next
  case None
  then have "s\<lparr> in_active := map_option (release_cleaned sc) (in_active s) \<rparr> = s" by simp
  then show ?thesis using assms(1) by simp
qed

lemma next_epoch_inv:
  assumes "input_inv s" "in_flight s = None"
  shows "input_inv (next_epoch s)"
proof (cases "in_active s")
  case (Some a)
  let ?e = "ac_epoch a + 1"
  let ?s = "s\<lparr> in_active := Some (a\<lparr> ac_epoch := ?e \<rparr>), in_queue := map (\<lambda>w. w\<lparr> wk_epoch := ?e \<rparr>) (in_queue s) \<rparr>"
  have m: "wk_sequence \<circ> wk_epoch_update (\<lambda>_. ?e) = wk_sequence" "work_bytes \<circ> wk_epoch_update (\<lambda>_. ?e) = work_bytes"
    by (simp_all add: fun_eq_iff work_bytes_def)
  have "input_inv ?s"
    using assms Some
    by (auto simp: m input_inv_def active_ok_def queue_ok_def mailbox_limit_def list_all_iff work_ok_def)
  then show ?thesis using push_status_inv Some by (simp add: next_epoch_def Let_def)
qed (use assms in \<open>simp add: next_epoch_def\<close>)

lemma gone_inv: "input_inv s \<Longrightarrow> in_flight s = None \<Longrightarrow> input_inv (s\<lparr> in_active := None, in_barrier := b, in_queue := [] \<rparr>)
    \<longleftrightarrow> pred_option barrier_ok b"
  by (simp add: input_inv_def mailbox_limit_def)

lemma finish_cleanup_inv:
  assumes "input_inv s" "in_flight s = None"
  shows "input_inv (snd (finish_cleanup sc why ending result s))"
proof -
  have "input_inv (s\<lparr> in_failed := True, in_queue := [], in_barrier := None \<rparr>)"
    using assms by (cases "in_active s") (auto simp: input_inv_def active_ok_def mailbox_limit_def queue_ok_def sorted_wrt_append)
  from push_status_inv [OF this, of "ClosedStatus why False"]
  have f: "input_inv ((push_status (s\<lparr> in_failed := True, in_queue := [], in_barrier := None \<rparr>) (ClosedStatus why False))
      \<lparr> in_active := None \<rparr>)"
    using assms(2) push_status_queue [of "s\<lparr> in_failed := True, in_queue := [], in_barrier := None \<rparr>" "ClosedStatus why False"]
    by (simp add: input_inv_def mailbox_limit_def)
  let ?s = "s\<lparr> in_active := map_option (release_cleaned sc) (in_active s) \<rparr>"
  have r: "input_inv ?s" by (rule release_inv [OF assms])
  have e: "input_inv ((push_status ?s (ClosedStatus why True))\<lparr> in_active := None, in_barrier := None, in_queue := [] \<rparr>)"
    using push_status_inv [OF r, of "ClosedStatus why True"] assms(2) by (subst gone_inv) simp_all
  show ?thesis
    using f e r next_epoch_inv [OF r] assms(2) by (simp add: finish_cleanup_def Let_def)
qed

lemma complete_inv: "input_inv s \<Longrightarrow> input_inv (snd (complete i result s))"
proof (cases "in_flight s")
  case (Some f)
  assume inv: "input_inv s"
  obtain a where a: "in_active s = Some a" using inv Some by (cases "in_active s") (auto simp: input_inv_def)
  have fo: "flight_ok (in_config s) a f" using inv Some a by (simp add: input_inv_def active_ok_def)
  have "input_inv (complete_event (fl_work f) e result (s\<lparr> in_flight := None \<rparr>))" if "wk_operation (fl_work f) = EventWork e" for e
    by (rule complete_event_inv [OF landed_inv [OF inv]]) (use that a fo in \<open>auto simp: flight_ok_def down_ok_def\<close>)
  then show ?thesis
    using inv Some finish_cleanup_inv [OF landed_inv [OF inv]]
    by (auto simp: complete_def Let_def split: operation.split)
qed (simp add: complete_def)

lemma set_geometry_inv: "input_inv s \<Longrightarrow> input_inv (snd (set_geometry g s))"
proof -
  assume inv: "input_inv s"
  have "input_inv (s\<lparr> in_config := (in_config s)\<lparr> cf_geometry := g \<rparr> \<rparr>)" if "geometry_valid g"
    using inv that
    by (cases "in_active s"; cases "in_flight s")
      (auto simp: input_inv_def active_ok_def queue_ok_def mailbox_limit_def flight_ok_def down_ok_def
        split: operation.splits event.splits action.splits)
  then show ?thesis using inv by (simp add: set_geometry_def Let_def cancel_inv)
qed

lemma queue_ok_snoc:
  assumes "queue_ok c a f q" "work_ok a w" "\<forall>x\<in>set (flight_seq f @ map wk_sequence q). x < wk_sequence w"
    "length (flight_seq f) + length q < cf_max_events c" "sum_list (map work_bytes q) + work_bytes w \<le> cf_max_bytes c"
  shows "queue_ok c a f (q @ [w])"
  using assms by (auto simp: queue_ok_def sorted_wrt_append)

lemma queue_ok_coalesce:
  assumes "queue_ok c a f q" "q \<noteq> []" "motion_work (last q)" "is_motion e"
    and "\<forall>x\<in>set (flight_seq f @ map wk_sequence q). x < sequence" "sequence \<le> ac_last_sequence a"
  shows "queue_ok c a f (butlast q @ [(last q)\<lparr> wk_sequence := sequence, wk_operation := EventWork e \<rparr>])"
proof -
  obtain p w where q: "q = p @ [w]" using assms(2) by (metis append_butlast_last_id)
  have "work_bytes w = 112" using assms(3) q by (auto simp: motion_work_def work_bytes_def split: operation.splits event.splits elim: is_motion.elims)
  moreover have "event_bytes e = 112" using assms(4) by (cases e) auto
  ultimately show ?thesis
    using assms q by (auto simp: queue_ok_def sorted_wrt_append work_ok_def work_bytes_def)
qed

lemma flight_seq_length: "length (flight_seq f) \<le> (if f = None then 0 else 1)"
  by (simp add: flight_seq_def split: option.split operation.split)

lemma enqueue_inv:
  assumes inv: "input_inv s" and a: "in_active s = Some a" "ac_id a = co_id c" "ac_mode a = co_mode c" "ac_epoch a = epoch"
    "ac_last_sequence a = sequence" and new: "\<forall>x\<in>set (flight_seq (in_flight s) @ map wk_sequence (in_queue s)). x < sequence"
  shows "input_inv (snd (enqueue c a epoch sequence e s))"
proof -
  have q: "queue_ok (in_config s) a (in_flight s) (in_queue s)" "pred_option (flight_ok (in_config s) a) (in_flight s)"
    using inv a(1) by (simp_all add: input_inv_def active_ok_def)
  let ?q = "butlast (in_queue s) @ [(last (in_queue s))\<lparr> wk_sequence := sequence, wk_operation := EventWork e \<rparr>]"
  let ?a = "a\<lparr> ac_scroll_open := True \<rparr>"
  have co: "input_inv (s\<lparr> in_queue := ?q \<rparr>)" if "is_motion e" "in_queue s \<noteq> []" "motion_work (last (in_queue s))"
    using queue_ok_coalesce [OF q(1) that(2,3,1) new] inv a by (simp add: input_inv_def active_ok_def mailbox_limit_def)
  have sc: "input_inv (s\<lparr> in_active := Some ?a \<rparr>)"
    by (rule active_update_inv [OF inv a(1)])
      (use inv a(1) q(2) in \<open>auto simp: input_inv_def active_ok_def intro: flight_ok_update\<close>)
  have app: "input_inv (t\<lparr> in_next_work := n, in_queue := in_queue t @ [w] \<rparr>)"
    if "input_inv t" "in_active t = Some b" "in_config t = in_config s" "in_flight t = in_flight s" "in_queue t = in_queue s"
      "work_ok b w" "wk_sequence w = sequence" "work_bytes w = event_bytes e"
      "queued_events s < cf_max_events (in_config s)" "queued_bytes s + event_bytes e \<le> cf_max_bytes (in_config s)" for t b n w
  proof -
    have "queue_ok (in_config t) b (in_flight t) (in_queue t)" using that(1,2) by (simp add: input_inv_def active_ok_def)
    then have "queue_ok (in_config t) b (in_flight t) (in_queue t @ [w])"
      using that new flight_seq_length [of "in_flight s"]
      by (intro queue_ok_snoc) (auto simp: queued_events_def queued_bytes_def split: if_splits option.splits)
    then show ?thesis using that(1,2) by (simp add: input_inv_def active_ok_def mailbox_limit_def)
  qed
  show ?thesis
    using push_status_inv [OF co] cancel_inv [OF inv] app [OF sc] app [OF inv a(1)] a
    by (auto simp: enqueue_def Let_def work_ok_def work_bytes_def)
qed

lemma submit_inv:
  assumes "input_inv s" "\<And>a. in_active s = Some a \<Longrightarrow> ac_id a = co_id c \<Longrightarrow> ac_mode a = co_mode c"
  shows "input_inv (snd (submit now c epoch sequence e s))"
proof -
  let ?s = "expire now s"
  have i: "input_inv ?s" by (rule expire_inv [OF assms(1)])
  show ?thesis
  proof (cases "owner c ?s")
    case None
    then show ?thesis using i by (simp add: submit_def Let_def)
  next
    case (Some a)
    then have a: "in_active ?s = Some a" "ac_id a = co_id c" by (auto simp: owner_def split: option.splits if_splits)
    let ?a = "a\<lparr> ac_last_sequence := sequence \<rparr>" and ?t = "?s\<lparr> in_active := Some (a\<lparr> ac_last_sequence := sequence \<rparr>) \<rparr>"
    have ok: "active_ok ?s a" using i a(1) by (simp add: input_inv_def)
    show ?thesis
    proof (cases "sequence \<le> ac_last_sequence a")
      case True
      then show ?thesis using i Some by (simp add: submit_def Let_def)
    next
      case False
      then have t: "input_inv ?t"
        using ok by (intro active_update_inv [OF i a(1)]) (auto simp: active_ok_def intro: flight_ok_update)
      have "\<forall>w\<in>set (in_queue ?t). wk_sequence w \<le> ac_last_sequence a"
        using ok by (auto simp: active_ok_def queue_ok_def list_all_iff work_ok_def)
      moreover have "\<forall>x\<in>set (flight_seq (in_flight ?t)). x \<le> ac_last_sequence a"
        using ok by (cases "in_flight s") (auto simp: active_ok_def flight_seq_def flight_ok_def work_ok_def split: operation.splits)
      ultimately have "\<forall>x\<in>set (flight_seq (in_flight ?t) @ map wk_sequence (in_queue ?t)). x < sequence"
        using False by (auto simp: not_le dest: le_less_trans)
      from enqueue_inv [OF t _ _ _ _ _ this, of ?a c "ac_epoch a" e] show ?thesis
        using t i Some a assms(2) [of a] False
        by (auto simp: submit_def Let_def split: outcome.split)
    qed
  qed
qed

lemma heartbeat_inv: "input_inv s \<Longrightarrow> input_inv (snd (heartbeat now c s))"
proof -
  assume inv: "input_inv s"
  let ?s = "expire now s"
  have i: "input_inv ?s" by (rule expire_inv [OF inv])
  have "input_inv (?s\<lparr> in_active := Some (a\<lparr> ac_last_seen := now \<rparr>) \<rparr>)" if "in_active ?s = Some a" for a
    using i that by (intro active_update_inv [OF i that]) (auto simp: input_inv_def active_ok_def intro: flight_ok_update)
  then show ?thesis
    using i by (auto simp: heartbeat_def Let_def owner_def split: option.splits if_splits)
qed

lemma poll_inv: "input_inv s \<Longrightarrow> input_inv (snd (controller_poll c s))"
proof (cases "in_mail s (co_id c)")
  case (Cons st rest)
  assume inv: "input_inv s"
  then have "length (in_mail s (co_id c)) \<le> mailbox_limit s" by (simp add: input_inv_def)
  then show ?thesis
    using inv Cons by (cases "in_active s") (simp_all add: controller_poll_def input_inv_def active_ok_def mailbox_limit_def)
qed (simp add: controller_poll_def)

section \<open>The session as a state machine\<close>

text \<open>The state is followed together with what an observer outside can keep count of: the
  controller handles that were given out, the keys and buttons that may be held at the executor,
  and for the active controller the submissions it was told were accepted and the statuses it
  has polled.  An execution that ended partially or uncertainly may have pressed.\<close>

record input_sys =
  sy_state :: input_state
  sy_handles :: "controller list"
  sy_keys :: "u64 set"
  sy_buttons :: "u32 set"
  sy_accepted :: nat
  sy_polled :: "status list"

datatype input_action =
    Admit nat mode
  | Dispatch nat
  | Complete u64 execution
  | SetGeometry geometry
  | Tick nat
  | ResolveFailed
  | Heartbeat nat nat
  | Submit nat nat u64 u64 event
  | ResetController nat
  | CloseController nat
  | PollController nat

definition may_press :: "execution \<Rightarrow> bool" where
  "may_press r \<longleftrightarrow> r = Executed \<or> r = Partial \<or> r = Uncertain"

fun held_keys :: "operation \<Rightarrow> execution \<Rightarrow> u64 set \<Rightarrow> u64 set" where
  "held_keys (EventWork (KeyEvent p Down _ _)) r K = (if may_press r then Set.insert p K else K)"
| "held_keys (EventWork (KeyEvent p Up _ _)) r K = (if r = Executed then K - {p} else K)"
| "held_keys (Cleanup All _) r K = (if r = Executed then {} else K)"
| "held_keys _ r K = K"

fun held_buttons :: "operation \<Rightarrow> execution \<Rightarrow> u32 set \<Rightarrow> u32 set" where
  "held_buttons (EventWork (Button b Down _)) r B = (if may_press r then Set.insert b B else B)"
| "held_buttons (EventWork (Button b Up _)) r B = (if r = Executed then B - {b} else B)"
| "held_buttons (Cleanup _ _) r B = (if r = Executed then {} else B)"
| "held_buttons _ r B = B"

definition completed_work :: "u64 \<Rightarrow> input_state \<Rightarrow> work option" where
  "completed_work i s = (case in_flight s of Some f \<Rightarrow> if wk_id (fl_work f) = i then Some (fl_work f) else None | None \<Rightarrow> None)"

fun input_step :: "input_action \<Rightarrow> input_sys \<Rightarrow> input_sys" where
  "input_step (Admit now m) y =
     (case target_admit now m (sy_state y) of
        (Ok c, s) \<Rightarrow> y\<lparr> sy_state := s, sy_handles := sy_handles y @ [c], sy_accepted := 0, sy_polled := [] \<rparr>
      | (_, s) \<Rightarrow> y\<lparr> sy_state := s \<rparr>)"
| "input_step (Dispatch now) y = y\<lparr> sy_state := snd (target_next now (sy_state y)) \<rparr>"
| "input_step (Complete i r) y =
     (case completed_work i (sy_state y) of
        None \<Rightarrow> y\<lparr> sy_state := snd (complete i r (sy_state y)) \<rparr>
      | Some w \<Rightarrow> y\<lparr> sy_state := snd (complete i r (sy_state y)),
                     sy_keys := held_keys (wk_operation w) r (sy_keys y),
                     sy_buttons := held_buttons (wk_operation w) r (sy_buttons y) \<rparr>)"
| "input_step (SetGeometry g) y = y\<lparr> sy_state := snd (set_geometry g (sy_state y)) \<rparr>"
| "input_step (Tick now) y = y\<lparr> sy_state := expire now (sy_state y) \<rparr>"
| "input_step ResolveFailed y =
     (case resolve_failed_cleanup (sy_state y) of
        (Ok _, s) \<Rightarrow> y\<lparr> sy_state := s, sy_keys := {}, sy_buttons := {} \<rparr>
      | (_, s) \<Rightarrow> y\<lparr> sy_state := s \<rparr>)"
| "input_step (Heartbeat now k) y = y\<lparr> sy_state := snd (heartbeat now (sy_handles y ! k) (sy_state y)) \<rparr>"
| "input_step (Submit now k epoch sequence e) y =
     (case submit now (sy_handles y ! k) epoch sequence e (sy_state y) of
        (Ok _, s) \<Rightarrow> y\<lparr> sy_state := s, sy_accepted := sy_accepted y + 1 \<rparr>
      | (_, s) \<Rightarrow> y\<lparr> sy_state := s \<rparr>)"
| "input_step (ResetController k) y = y\<lparr> sy_state := snd (controller_reset (sy_handles y ! k) (sy_state y)) \<rparr>"
| "input_step (CloseController k) y = y\<lparr> sy_state := controller_close (sy_handles y ! k) (sy_state y) \<rparr>"
| "input_step (PollController k) y =
     (case controller_poll (sy_handles y ! k) (sy_state y) of
        (Some st, s) \<Rightarrow>
          y\<lparr> sy_state := s,
             sy_polled := (if owner (sy_handles y ! k) s = None then sy_polled y else sy_polled y @ [st]) \<rparr>
      | (None, s) \<Rightarrow> y\<lparr> sy_state := s \<rparr>)"

fun input_enabled :: "input_action \<Rightarrow> input_sys \<Rightarrow> bool" where
  "input_enabled (Heartbeat _ k) y = (k < length (sy_handles y))"
| "input_enabled (Submit _ k _ _ _) y = (k < length (sy_handles y))"
| "input_enabled (ResetController k) y = (k < length (sy_handles y))"
| "input_enabled (CloseController k) y = (k < length (sy_handles y))"
| "input_enabled (PollController k) y = (k < length (sy_handles y))"
| "input_enabled _ _ = True"

definition input_init :: "input_state \<Rightarrow> input_sys" where
  "input_init s = \<lparr> sy_state = s, sy_handles = [], sy_keys = {}, sy_buttons = {}, sy_accepted = 0, sy_polled = [] \<rparr>"

inductive input_reachable :: "input_sys \<Rightarrow> bool" where
  start: "target_new c = Ok s \<Longrightarrow> input_reachable (input_init s)"
| step: "input_reachable y \<Longrightarrow> input_enabled act y \<Longrightarrow> input_reachable (input_step act y)"

text \<open>Handles carry the identity and the mode of an incarnation that was admitted.\<close>

definition handles_ok :: "input_sys \<Rightarrow> bool" where
  "handles_ok y \<longleftrightarrow> (\<forall>c\<in>set (sy_handles y). co_id c \<le> in_next_controller (sy_state y) \<and>
     (\<forall>a. in_active (sy_state y) = Some a \<longrightarrow> ac_id a = co_id c \<longrightarrow> ac_mode a = co_mode c))"

end
