(* ===== verification/Input_Guarantees.thy ===== *)
theory Input_Guarantees
  imports Input_Safety
begin

text \<open>
  What every reachable state of the input session guarantees: the invariant of \<open>Input_Safety\<close>,
  the exact accounting of accepted submissions, the release of every key and button before the
  target is idle again, and the order of dispatched work.
\<close>

section \<open>Steps that leave the controller and the flight alone\<close>

definition closing_down :: "input_state \<Rightarrow> bool" where
  "closing_down s \<longleftrightarrow> pred_option ba_end (in_barrier s) \<and> in_barrier s \<noteq> None \<or> ends (in_flight s)"

definition clearing :: "input_state \<Rightarrow> bool" where
  "clearing s \<longleftrightarrow> (\<exists>b. in_barrier s = Some b \<and> ba_scope b = All) \<or>
     (\<exists>f r. in_flight s = Some f \<and> wk_operation (fl_work f) = Cleanup All r)"

definition conserves :: "input_state \<Rightarrow> input_state \<Rightarrow> active \<Rightarrow> bool" where
  "conserves s s' a \<longleftrightarrow>
     (overflowed (in_mail s (ac_id a)) \<longrightarrow> overflowed (in_mail s' (ac_id a))) \<and>
     (overflowed (in_mail s' (ac_id a)) \<or>
      (settled (in_mail s (ac_id a)) + length (in_queue s) < 2 ^ 64 \<longrightarrow>
         settled (in_mail s' (ac_id a)) + length (in_queue s') = settled (in_mail s (ac_id a)) + length (in_queue s)) \<and>
      ((clearing s \<longrightarrow> in_queue s = []) \<longrightarrow> clearing s' \<longrightarrow> in_queue s' = []))"

definition quiet :: "input_state \<Rightarrow> input_state \<Rightarrow> bool" where
  "quiet s s' \<longleftrightarrow> in_active s' = in_active s \<and> in_flight s' = in_flight s \<and> in_failed s' = in_failed s \<and>
     in_next_controller s' = in_next_controller s \<and> (closing_down s \<longrightarrow> closing_down s') \<and>
     (\<forall>a. in_active s = Some a \<longrightarrow> conserves s s' a)"

lemma quiet_refl [simp]: "quiet s s"
  by (simp add: quiet_def conserves_def)

lemma conserves_trans: "conserves s t a \<Longrightarrow> conserves t u a \<Longrightarrow> conserves s u a"
  by (auto simp: conserves_def)

lemma quiet_trans: "quiet s t \<Longrightarrow> quiet t u \<Longrightarrow> quiet s u"
  unfolding quiet_def using conserves_trans by metis

lemma reports_quiet:
  assumes "reports s s'"
  shows "quiet s s'"
proof -
  note f = reports_fields [OF assms] and r = reportsD [OF assms]
  have "closing_down s'" if "closing_down s"
    using that r(3) f(5) by (auto simp: closing_down_def overflow_barrier_def)
  moreover have "conserves s s' a" if "in_active s = Some a" for a
    using r(2) r(5) [OF that] f(5) by (auto simp: conserves_def accounts_def clearing_def)
  ultimately show ?thesis using f by (simp add: quiet_def)
qed

lemma cancel_quiet: "quiet s (cancel sc why end0 s)"
proof (cases rule: cancel_cases [of s sc why end0])
  case none
  then show ?thesis by simp
next
  case some
  let ?t = "s\<lparr> in_barrier := Some (raised s sc why end0) \<rparr>" and ?s = "cancel sc why end0 s"
  note f = reports_fields [OF some(3)] and r = reportsD [OF some(3)]
  have "closing_down ?s" if "closing_down s"
    using that some(2) r(3) f(5) by (auto simp: closing_down_def overflow_barrier_def raised_def split: option.splits)
  moreover have "conserves s ?s a" if "in_active s = Some a" for a
  proof -
    have a: "accounts ?t ?s a" using r(5) that by simp
    have "in_queue ?s = []" if "clearing s \<longrightarrow> in_queue s = []" "clearing ?s" "\<not> overflowed (in_mail ?s (ac_id a))"
    proof (cases "ba_scope (raised s sc why end0) = All")
      case False
      then have "clearing s" using that(2,3) a f(5) by (auto simp: clearing_def accounts_def)
      then show ?thesis using that(1) r(2) by simp
    qed (use some(4) in simp)
    then show ?thesis using a by (auto simp: conserves_def accounts_def)
  qed
  ultimately show ?thesis using f by (simp add: quiet_def)
qed

lemma cancel_end_closing:
  assumes "in_active s \<noteq> None"
  shows "closing_down (cancel sc why True s)"
proof (cases rule: cancel_cases [of s sc why True])
  case none
  then show ?thesis using assms by (simp add: closing_down_def)
next
  case some
  then show ?thesis using reportsD(3) [OF some(3)] by (auto simp: closing_down_def raised_def overflow_barrier_def)
qed

lemma expire_quiet: "quiet s (expire now s)"
  by (cases rule: expire_cases [of now s]) (simp_all add: cancel_quiet)

section \<open>The two guarantees as invariants\<close>

text \<open>Nothing is held that the session does not know of, unless it is already on the way to the
  cleanup that ends the controller; and nothing at all is held when no controller is admitted.\<close>

definition held_ok :: "u64 set \<Rightarrow> u32 set \<Rightarrow> input_state \<Rightarrow> bool" where
  "held_ok K B s \<longleftrightarrow>
     (in_active s = None \<longrightarrow> in_failed s \<or> K = {} \<and> B = {}) \<and>
     (\<forall>a. in_active s = Some a \<longrightarrow> closing_down s \<or> K \<subseteq> dom (map_of (ac_keys a)) \<and> B \<subseteq> ac_buttons a)"

text \<open>Every accepted submission of the active controller is queued, in flight or reported.\<close>

definition account_ok :: "nat \<Rightarrow> status list \<Rightarrow> input_state \<Rightarrow> bool" where
  "account_ok n P s \<longleftrightarrow> (\<forall>a. in_active s = Some a \<longrightarrow>
     n \<le> unat (ac_last_sequence a) \<and>
     (overflowed (P @ in_mail s (ac_id a)) \<or>
      n = settled (P @ in_mail s (ac_id a)) + length (in_queue s) + length (flight_seq (in_flight s)) \<and>
      (clearing s \<longrightarrow> in_queue s = [])))"

lemma overflowed_append [simp]: "overflowed (k @ l) \<longleftrightarrow> overflowed k \<or> overflowed l"
  by (auto simp: overflowed_def)

lemma quiet_held: "held_ok K B s \<Longrightarrow> quiet s s' \<Longrightarrow> held_ok K B s'"
  by (auto simp: held_ok_def quiet_def)

lemma quiet_account:
  assumes "account_ok n P s" "quiet s s'"
  shows "account_ok n P s'"
  unfolding account_ok_def
proof (intro allI impI)
  fix a
  assume "in_active s' = Some a"
  then have a: "in_active s = Some a" "conserves s s' a" "in_flight s' = in_flight s" using assms(2) by (auto simp: quiet_def)
  have n: "n \<le> unat (ac_last_sequence a)" using assms(1) a(1) by (simp add: account_ok_def)
  then have "n < 2 ^ 64" using u64_bound [of "ac_last_sequence a"] by simp
  then show "n \<le> unat (ac_last_sequence a) \<and> (overflowed (P @ in_mail s' (ac_id a)) \<or>
      n = settled (P @ in_mail s' (ac_id a)) + length (in_queue s') + length (flight_seq (in_flight s')) \<and>
      (clearing s' \<longrightarrow> in_queue s' = []))"
    using assms(1) a n by (auto simp: account_ok_def conserves_def)
qed

definition session_ok :: "u64 set \<Rightarrow> u32 set \<Rightarrow> nat \<Rightarrow> status list \<Rightarrow> input_state \<Rightarrow> bool" where
  "session_ok K B n P s \<longleftrightarrow> input_inv s \<and> held_ok K B s \<and> account_ok n P s \<and> (in_failed s \<longrightarrow> in_active s = None)"

lemma quiet_session: "session_ok K B n P s \<Longrightarrow> quiet s s' \<Longrightarrow> input_inv s' \<Longrightarrow> session_ok K B n P s'"
  unfolding session_ok_def by (auto intro: quiet_held quiet_account) (auto simp: quiet_def)

lemma cancel_session: "session_ok K B n P s \<Longrightarrow> session_ok K B n P (cancel sc why end0 s)"
  by (rule quiet_session [OF _ cancel_quiet]) (auto simp: session_ok_def cancel_inv)

lemma expire_session: "session_ok K B n P s \<Longrightarrow> session_ok K B n P (expire now s)"
  by (rule quiet_session [OF _ expire_quiet]) (auto simp: session_ok_def expire_inv)

lemma set_geometry_session: "session_ok K B n P s \<Longrightarrow> session_ok K B n P (snd (set_geometry g s))"
proof -
  assume ok: "session_ok K B n P s"
  let ?s = "s\<lparr> in_config := (in_config s)\<lparr> cf_geometry := g \<rparr> \<rparr>"
  have q: "quiet s ?s" by (simp add: quiet_def conserves_def closing_down_def clearing_def)
  have "quiet s (snd (set_geometry g s))"
    using quiet_trans [OF q cancel_quiet] q by (simp add: set_geometry_def Let_def)
  then show ?thesis by (rule quiet_session [OF ok]) (use ok set_geometry_inv in \<open>auto simp: session_ok_def\<close>)
qed

lemma next_session:
  assumes ok: "session_ok K B n P s"
  shows "session_ok K B n P (snd (target_next now s))"
proof -
  let ?s = "expire now s"
  have e: "session_ok K B n P ?s" by (rule expire_session [OF ok])
  have i: "input_inv (snd (target_next now s))" using next_inv ok by (simp add: session_ok_def)
  show ?thesis
  proof (cases "in_flight ?s = None")
    case False
    then show ?thesis using e by (simp add: target_next_def Let_def)
  next
    case f: True
    show ?thesis
    proof (cases "in_barrier ?s")
      case None
      have n: "target_next now s = next_event ?s" using f None by (simp add: target_next_def Let_def)
      consider (none) "fst (next_event ?s) = None" "reports ?s (snd (next_event ?s))"
        | (go) t w q w' where "reports ?s t" "in_queue t = w # q" "in_barrier t = None" "bind (t\<lparr> in_queue := q \<rparr>) w = Ok (True, w')"
          "next_event ?s = (Some w', t\<lparr> in_queue := q, in_flight := Some \<lparr> fl_work = w', fl_end = False \<rparr> \<rparr>)"
        using next_event_dispatches [OF None] unfolding dispatches_def by (elim disjE exE conjE) (rule that; assumption)+
      then show ?thesis
      proof cases
        case none
        show ?thesis unfolding n by (rule quiet_session [OF e reports_quiet [OF none(2)]]) (use i n in simp)
      next
        case go
        have t: "session_ok K B n P t"
          by (rule quiet_session [OF e reports_quiet [OF go(1)]]) (use reports_inv go(1) e in \<open>auto simp: session_ok_def\<close>)
        have tf: "in_flight t = None" using reports_fields(5) [OF go(1)] f by simp
        obtain a where a: "in_active t = Some a"
          using t go(2) by (cases "in_active t") (auto simp: session_ok_def input_inv_def)
        have "work_ok a w" using t a go(2) by (auto simp: session_ok_def input_inv_def active_ok_def queue_ok_def)
        then have "\<exists>e. wk_operation w' = EventWork e"
          using bind_dispatch(5) [OF go(4), of a] a by (auto simp: work_ok_def split: operation.splits)
        then show ?thesis
          using t i go a tf n
          by (auto simp: session_ok_def held_ok_def account_ok_def closing_down_def clearing_def flight_seq_def ends_def)
      qed
    next
      case (Some b)
      then show ?thesis
        using e i f
        by (cases "in_active ?s")
          (auto simp: target_next_def Let_def session_ok_def held_ok_def account_ok_def closing_down_def clearing_def
            flight_seq_def ends_def barrier_ok_def input_inv_def)
    qed
  qed
qed

section \<open>Completion\<close>

text \<open>Reporting one more settled submission.\<close>

lemma push_account:
  assumes a: "in_active s = Some a" and n: "n \<le> unat (ac_last_sequence a)" and w: "status_weight st \<le> 1"
    and ok: "overflowed (P @ in_mail s (ac_id a)) \<or>
      n = settled (P @ in_mail s (ac_id a)) + status_weight st + length (in_queue s) + length (flight_seq (in_flight s)) \<and>
      (clearing s \<longrightarrow> in_queue s = [])"
  shows "account_ok n P (push_status s st)"
proof (cases rule: push_status_cases [OF a, of st])
  case (1 mail)
  then show ?thesis using a n by (simp add: account_ok_def)
next
  case (2 mail)
  show ?thesis
  proof (cases "overflowed (P @ in_mail s (ac_id a))")
    case True
    then show ?thesis using a n 2 by (auto simp: account_ok_def)
  next
    case False
    then have "settled (in_mail s (ac_id a)) + status_weight st < 2 ^ 64"
      using ok n u64_bound [of "ac_last_sequence a"] by simp
    then have "settled mail = settled (in_mail s (ac_id a)) + status_weight st" by (rule 2(3))
    then show ?thesis using a n ok False 2(1) by (auto simp: account_ok_def clearing_def)
  qed
qed

lemma push_closing: "closing_down s \<Longrightarrow> closing_down (push_status s st)"
  by (auto simp: closing_down_def push_status_def Let_def split: option.split)

lemma push_held: "held_ok K B s \<Longrightarrow> held_ok K B (push_status s st)"
  using push_closing [of s st] by (auto simp: held_ok_def)

lemma apply_event_fields:
  "in_config (apply_event e s) = in_config s" "in_flight (apply_event e s) = in_flight s" "in_queue (apply_event e s) = in_queue s"
  "in_barrier (apply_event e s) = in_barrier s" "in_failed (apply_event e s) = in_failed s" "in_mail (apply_event e s) = in_mail s"
  "in_next_controller (apply_event e s) = in_next_controller s"
  by (simp_all add: apply_event_def split: option.split)

lemma apply_event_active:
  "in_active s = Some a \<Longrightarrow> \<exists>a'. in_active (apply_event e s) = Some a' \<and> ac_id a' = ac_id a \<and> ac_mode a' = ac_mode a \<and>
     ac_last_sequence a' = ac_last_sequence a"
  by (auto simp: apply_event_def split: event.split action.split)

lemma held_unchanged:
  assumes "\<not> may_press r"
  shows "held_keys (EventWork e) r K = K" "held_buttons (EventWork e) r B = B"
proof -
  show "held_keys (EventWork e) r K = K"
    using assms by (cases "(EventWork e, r, K)" rule: held_keys.cases) (auto simp: may_press_def)
  show "held_buttons (EventWork e) r B = B"
    using assms by (cases "(EventWork e, r, B)" rule: held_buttons.cases) (auto simp: may_press_def)
qed

text \<open>The executor's view of what is held follows what the session records.\<close>

lemma apply_event_held:
  assumes "held_ok K B s" "in_active s = Some a" "bt_wf (ac_keys a)"
  shows "held_ok (held_keys (EventWork e) Executed K) (held_buttons (EventWork e) Executed B) (apply_event e s)"
proof -
  have c: "closing_down (apply_event e s) = closing_down s" by (simp add: closing_down_def apply_event_fields)
  have K: "closing_down s \<or> K \<subseteq> dom (map_of (ac_keys a)) \<and> B \<subseteq> ac_buttons a" using assms(1,2) by (simp add: held_ok_def)
  show ?thesis
  proof (cases e)
    case (KeyEvent p act k m)
    then show ?thesis
      using K c assms(2,3)
      by (cases act) (auto simp: held_ok_def apply_event_def may_press_def map_of_bt_insert map_of_bt_remove)
  next
    case (Button b act po)
    then show ?thesis using K c assms(2) by (cases act) (auto simp: held_ok_def apply_event_def may_press_def)
  qed (use K c assms(2) in \<open>auto simp: held_ok_def apply_event_def\<close>)
qed

lemma complete_event_session:
  assumes ok: "session_ok K B n P s" and f: "in_flight s = Some f" "wk_operation (fl_work f) = EventWork e"
  shows "session_ok (held_keys (EventWork e) r K) (held_buttons (EventWork e) r B) n P
     (complete_event (fl_work f) e r (s\<lparr> in_flight := None \<rparr>))"
proof -
  let ?s = "s\<lparr> in_flight := None \<rparr>"
  have inv: "input_inv s" using ok by (simp add: session_ok_def)
  obtain a where a: "in_active s = Some a" using inv f by (cases "in_active s") (auto simp: input_inv_def)
  have fo: "flight_ok (in_config s) a f" "bt_wf (ac_keys a)" using inv f a by (simp_all add: input_inv_def active_ok_def)
  then have ne: "\<not> fl_end f" using f(2) by (simp add: flight_ok_def)
  define t where "t = (if r = Executed then apply_event e ?s else ?s)"
  obtain a' where a': "in_active t = Some a'" "ac_id a' = ac_id a" "ac_last_sequence a' = ac_last_sequence a"
    using apply_event_active [of ?s a e] a by (cases "r = Executed") (auto simp: t_def)
  have tf: "in_flight t = None" "in_queue t = in_queue s" "in_barrier t = in_barrier s" "in_mail t = in_mail s" "in_failed t = in_failed s"
    by (simp_all add: t_def apply_event_fields)
  have acc: "account_ok n P (push_status t (Completed (wk_sequence (fl_work f)) r))"
  proof (rule push_account [OF a'(1)])
    show "n \<le> unat (ac_last_sequence a')" using ok a a' by (simp add: session_ok_def account_ok_def)
    show "overflowed (P @ in_mail t (ac_id a')) \<or>
      n = settled (P @ in_mail t (ac_id a')) + status_weight (Completed (wk_sequence (fl_work f)) r) + length (in_queue t)
        + length (flight_seq (in_flight t)) \<and> (clearing t \<longrightarrow> in_queue t = [])"
      using ok a a' tf f by (auto simp: session_ok_def account_ok_def flight_seq_def clearing_def)
  qed simp
  have landed: "closing_down ?s = closing_down s" using f(1) ne by (simp add: closing_down_def ends_def)
  have h0: "held_ok K B ?s" using ok a landed by (auto simp: session_ok_def held_ok_def)
  have i: "input_inv (complete_event (fl_work f) e r ?s)"
    by (rule complete_event_inv [OF landed_inv [OF inv]]) (use a fo f(2) in \<open>auto simp: flight_ok_def down_ok_def\<close>)
  define u where "u = push_status t (Completed (wk_sequence (fl_work f)) r)"
  have u: "in_active u = Some a'" "in_failed u = in_failed s" using a' tf by (simp_all add: u_def)
  have nf: "\<not> in_failed s" using ok a by (auto simp: session_ok_def)
  show ?thesis
  proof (cases "r = Partial \<or> r = Uncertain")
    case True
    then have c: "complete_event (fl_work f) e r ?s = cancel All Execution True u"
      by (auto simp: complete_event_def Let_def u_def t_def)
    have "held_ok X Y (cancel All Execution True u)" for X Y
      using cancel_end_closing [of u All Execution] u by (simp add: held_ok_def cancel_fields)
    then show ?thesis
      using i acc quiet_account [OF _ cancel_quiet] u nf unfolding c by (simp add: session_ok_def u_def [symmetric] cancel_fields)
  next
    case False
    then have c: "complete_event (fl_work f) e r ?s = u" by (simp add: complete_event_def Let_def u_def t_def)
    have "held_ok (held_keys (EventWork e) r K) (held_buttons (EventWork e) r B) t"
    proof (cases "r = Executed")
      case True
      then show ?thesis using apply_event_held [OF h0, of a e] a fo(2) by (simp add: t_def)
    next
      case F: False
      then have "held_keys (EventWork e) r K = K" "held_buttons (EventWork e) r B = B"
        using False held_unchanged by (simp_all add: may_press_def)
      then show ?thesis using h0 F by (simp add: t_def)
    qed
    then show ?thesis using i acc push_held u nf unfolding c by (simp add: session_ok_def u_def)
  qed
qed

lemma next_epoch_session:
  assumes ok: "session_ok K B n P s" and f: "in_flight s = None"
  shows "session_ok K B n P (next_epoch s)"
proof (cases "in_active s")
  case (Some a)
  let ?e = "ac_epoch a + 1"
  let ?s = "s\<lparr> in_active := Some (a\<lparr> ac_epoch := ?e \<rparr>), in_queue := map (\<lambda>w. w\<lparr> wk_epoch := ?e \<rparr>) (in_queue s) \<rparr>"
  have n: "next_epoch s = push_status ?s (Reset ?e (cf_geometry (in_config s)))" using Some by (simp add: next_epoch_def Let_def)
  have "account_ok n P (push_status ?s (Reset ?e (cf_geometry (in_config s))))"
    by (rule push_account) (use ok Some in \<open>auto simp: session_ok_def account_ok_def clearing_def\<close>)
  moreover have "held_ok K B ?s" using ok Some by (simp add: session_ok_def held_ok_def closing_down_def)
  moreover have "input_inv (push_status ?s (Reset ?e (cf_geometry (in_config s))))"
    using next_epoch_inv [OF _ f] ok n by (simp add: session_ok_def)
  ultimately show ?thesis using ok Some push_held by (simp add: n session_ok_def)
qed (use ok in \<open>simp add: next_epoch_def\<close>)

lemma cleanup_session:
  assumes ok: "session_ok K B n P s" and f: "in_flight s = Some f" "wk_operation (fl_work f) = Cleanup sc why"
  shows "session_ok (held_keys (Cleanup sc why) r K) (held_buttons (Cleanup sc why) r B) n P
     (snd (finish_cleanup sc why (fl_end f) r (s\<lparr> in_flight := None \<rparr>)))"
proof -
  let ?s = "s\<lparr> in_flight := None \<rparr>"
  have inv: "input_inv s" using ok by (simp add: session_ok_def)
  obtain a where a: "in_active s = Some a" using inv f by (cases "in_active s") (auto simp: input_inv_def)
  have fe: "fl_end f \<Longrightarrow> sc = All" using inv f a by (simp add: input_inv_def active_ok_def flight_ok_def)
  have i: "input_inv (snd (finish_cleanup sc why (fl_end f) r ?s))"
    by (rule finish_cleanup_inv [OF landed_inv [OF inv]]) simp
  have nf: "\<not> in_failed s" using ok a by (auto simp: session_ok_def)
  consider (failed) "r \<noteq> Executed" | (over) "r = Executed" "fl_end f" | (more) "r = Executed" "\<not> fl_end f" by blast
  then show ?thesis
  proof cases
    case failed
    then show ?thesis using i by (simp add: finish_cleanup_def session_ok_def held_ok_def account_ok_def)
  next
    case over
    then have "held_keys (Cleanup sc why) r K = {}" "held_buttons (Cleanup sc why) r B = {}" using fe by simp_all
    then show ?thesis
      using i over nf by (simp add: finish_cleanup_def Let_def session_ok_def held_ok_def account_ok_def)
  next
    case more
    let ?t = "?s\<lparr> in_active := map_option (release_cleaned sc) (in_active ?s) \<rparr>"
    have it: "input_inv ?t" by (rule release_inv [OF landed_inv [OF inv]]) simp
    have "held_ok (held_keys (Cleanup sc why) r K) (held_buttons (Cleanup sc why) r B) ?t"
      using ok a f more by (cases sc) (auto simp: session_ok_def held_ok_def closing_down_def ends_def)
    moreover have "account_ok n P ?t"
      using ok a f by (auto simp: session_ok_def account_ok_def flight_seq_def clearing_def)
    ultimately have "session_ok (held_keys (Cleanup sc why) r K) (held_buttons (Cleanup sc why) r B) n P ?t"
      using it nf by (simp add: session_ok_def)
    then show ?thesis using more next_epoch_session [of _ _ n P ?t] by (simp add: finish_cleanup_def Let_def)
  qed
qed

lemma complete_session:
  assumes "session_ok K B n P s"
  shows "case completed_work i s of
     None \<Rightarrow> session_ok K B n P (snd (complete i r s))
   | Some w \<Rightarrow> session_ok (held_keys (wk_operation w) r K) (held_buttons (wk_operation w) r B) n P (snd (complete i r s))"
  using assms complete_event_session [OF assms] cleanup_session [OF assms]
  by (auto simp: completed_work_def complete_def Let_def split: option.split operation.split)

section \<open>Submission and the other controller operations\<close>

lemma sequence_session:
  assumes ok: "session_ok K B n P s" and a: "in_active s = Some a" "ac_last_sequence a < q"
  shows "session_ok K B n P (s\<lparr> in_active := Some (a\<lparr> ac_last_sequence := q \<rparr>) \<rparr>)" "n + 1 \<le> unat q"
proof -
  have n: "n \<le> unat (ac_last_sequence a)" using ok a by (simp add: session_ok_def account_ok_def)
  then show q: "n + 1 \<le> unat q" using a(2) by (simp add: word_less_nat_alt)
  have "input_inv (s\<lparr> in_active := Some (a\<lparr> ac_last_sequence := q \<rparr>) \<rparr>)"
    by (rule active_update_inv [OF _ a(1)])
      (use ok a in \<open>auto simp: session_ok_def input_inv_def active_ok_def intro: flight_ok_update\<close>)
  then show "session_ok K B n P (s\<lparr> in_active := Some (a\<lparr> ac_last_sequence := q \<rparr>) \<rparr>)"
    using ok a q by (auto simp: session_ok_def held_ok_def account_ok_def closing_down_def clearing_def)
qed

lemma enqueue_cases:
  assumes "enqueue c a epoch q e s = (r, s')"
  shows "in_queue s \<noteq> [] \<and> r = Ok () \<and> s' = push_status (s\<lparr> in_queue := butlast (in_queue s) @
        [(last (in_queue s))\<lparr> wk_sequence := q, wk_operation := EventWork e \<rparr>] \<rparr>) (Coalesced 1) \<or>
     r = Err Overflow \<and> s' = cancel All QueueOverflow True s \<or>
     (\<exists>t w m. r = Ok () \<and> (t = s \<or> t = s\<lparr> in_active := Some (a\<lparr> ac_scroll_open := True \<rparr>) \<rparr>) \<and>
        s' = t\<lparr> in_next_work := m, in_queue := in_queue s @ [w] \<rparr>)"
proof -
  let ?w = "\<lparr> wk_mode = co_mode c, wk_id = in_next_work s + 1, wk_controller = co_id c, wk_epoch = epoch, wk_sequence = q,
      wk_operation = EventWork e \<rparr>"
  let ?t = "if scroll_start e then s\<lparr> in_active := Some (a\<lparr> ac_scroll_open := True \<rparr>) \<rparr> else s"
  consider (1) "is_motion e \<and> in_queue s \<noteq> [] \<and> motion_work (last (in_queue s))"
    | (2) "\<not> (is_motion e \<and> in_queue s \<noteq> [] \<and> motion_work (last (in_queue s)))"
        "cf_max_events (in_config s) \<le> queued_events s \<or> cf_max_bytes (in_config s) < queued_bytes s + event_bytes e"
    | (3) "\<not> (is_motion e \<and> in_queue s \<noteq> [] \<and> motion_work (last (in_queue s)))"
        "\<not> (cf_max_events (in_config s) \<le> queued_events s \<or> cf_max_bytes (in_config s) < queued_bytes s + event_bytes e)"
    by blast
  then show ?thesis
  proof cases
    case 3
    then have "r = Ok ()" "s' = ?t\<lparr> in_next_work := in_next_work s + 1, in_queue := in_queue s @ [?w] \<rparr>"
      using assms by (auto simp: enqueue_def Let_def)
    then show ?thesis
      by (intro disjI2 exI [of _ ?t] exI [of _ ?w] exI [of _ "in_next_work s + 1"]) simp
  qed (use assms in \<open>auto simp: enqueue_def\<close>)
qed

lemma enqueue_session:
  assumes ok: "session_ok K B n P s" and a: "in_active s = Some a" "n + 1 \<le> unat (ac_last_sequence a)"
    and free: "in_barrier s = None" "\<not> cleaning (in_flight s)"
    and r: "enqueue c a epoch q e s = (r, s')" and i: "input_inv s'"
  shows "session_ok K B (if r = Ok () then n + 1 else n) P s'"
proof -
  have nc: "\<not> clearing s" "\<not> in_failed s"
    using free ok a by (auto simp: clearing_def cleaning_def session_ok_def)
  have acc: "overflowed (P @ in_mail s (ac_id a)) \<or>
      n = settled (P @ in_mail s (ac_id a)) + length (in_queue s) + length (flight_seq (in_flight s))"
    using ok a by (auto simp: session_ok_def account_ok_def)
  let ?q = "butlast (in_queue s) @ [(last (in_queue s))\<lparr> wk_sequence := q, wk_operation := EventWork e \<rparr>]"
  consider (coalesce) "in_queue s \<noteq> []" "r = Ok ()" "s' = push_status (s\<lparr> in_queue := ?q \<rparr>) (Coalesced 1)"
    | (full) "r = Err Overflow" "s' = cancel All QueueOverflow True s"
    | (append) t w m where "r = Ok ()" "t = s \<or> t = s\<lparr> in_active := Some (a\<lparr> ac_scroll_open := True \<rparr>) \<rparr>"
        "s' = t\<lparr> in_next_work := m, in_queue := in_queue s @ [w] \<rparr>"
    using enqueue_cases [OF r] by metis
  then show ?thesis
  proof cases
    case coalesce
    have "account_ok (n + 1) P s'" unfolding coalesce(3)
    proof (rule push_account [where a = a])
      show "overflowed (P @ in_mail (s\<lparr> in_queue := ?q \<rparr>) (ac_id a)) \<or>
        n + 1 = settled (P @ in_mail (s\<lparr> in_queue := ?q \<rparr>) (ac_id a)) + status_weight (Coalesced 1) +
          length (in_queue (s\<lparr> in_queue := ?q \<rparr>)) + length (flight_seq (in_flight (s\<lparr> in_queue := ?q \<rparr>))) \<and>
        (clearing (s\<lparr> in_queue := ?q \<rparr>) \<longrightarrow> in_queue (s\<lparr> in_queue := ?q \<rparr>) = [])"
        using acc nc coalesce(1) by (auto simp: clearing_def)
    qed (use a in simp_all)
    moreover have "held_ok K B (s\<lparr> in_queue := ?q \<rparr>)" using ok a by (simp add: session_ok_def held_ok_def closing_down_def)
    ultimately show ?thesis using i nc push_held coalesce by (simp add: session_ok_def)
  next
    case full
    then show ?thesis using cancel_session [OF ok] by simp
  next
    case append
    then have f: "clearing s' = clearing s" "closing_down s' = closing_down s" "in_failed s' = in_failed s"
      "in_mail s' = in_mail s" "in_flight s' = in_flight s" "in_queue s' = in_queue s @ [w]"
      by (auto simp: clearing_def closing_down_def)
    obtain a' where a': "in_active s' = Some a'" "ac_id a' = ac_id a" "ac_keys a' = ac_keys a" "ac_buttons a' = ac_buttons a"
      "ac_last_sequence a' = ac_last_sequence a" using append a(1) by auto
    have "held_ok K B s'" using ok a f a' by (simp add: session_ok_def held_ok_def)
    moreover have "account_ok (n + 1) P s'" using a acc nc f a' by (simp add: account_ok_def)
    ultimately show ?thesis using i nc f append(1) by (simp add: session_ok_def)
  qed
qed

lemma owner_Some: "owner c s = Some a \<longleftrightarrow> in_active s = Some a \<and> ac_id a = co_id c"
  by (auto simp: owner_def split: option.splits if_splits)

lemma submit_session:
  assumes ok: "session_ok K B n P s" and m: "\<And>a. in_active s = Some a \<Longrightarrow> ac_id a = co_id c \<Longrightarrow> ac_mode a = co_mode c"
    and r: "submit now c epoch q e s = (r, s')"
  shows "session_ok K B (if r = Ok () then n + 1 else n) P s'"
proof -
  let ?s = "expire now s"
  have e: "session_ok K B n P ?s" by (rule expire_session [OF ok])
  have i: "input_inv s'" using submit_inv [of s c now epoch q e] m ok r by (simp add: session_ok_def)
  show ?thesis
  proof (cases "owner c ?s")
    case None
    then show ?thesis using e r by (auto simp: submit_def Let_def)
  next
    case (Some a)
    then have a: "in_active ?s = Some a" by (simp add: owner_Some)
    let ?a = "a\<lparr> ac_last_sequence := q \<rparr>" and ?t = "?s\<lparr> in_active := Some (a\<lparr> ac_last_sequence := q \<rparr>) \<rparr>"
    show ?thesis
    proof (cases "q = 0 \<or> q \<le> ac_last_sequence a")
      case True
      then show ?thesis using e r Some by (auto simp: submit_def Let_def)
    next
      case False
      then have q: "ac_last_sequence a < q" by (simp add: not_le)
      note t = sequence_session [OF e a q]
      show ?thesis
      proof (cases "\<exists>u. validate (in_config ?t) (ac_mode ?a) e = Ok u \<and> epoch = ac_epoch a \<and>
          in_barrier ?t = None \<and> \<not> cleaning (in_flight ?t) \<and> (ac_scroll_open a \<or> scroll_start e \<or> \<not> scroll_continuation e)")
        case True
        then have "enqueue c ?a epoch q e ?t = (r, s')" using r Some False by (auto simp: submit_def Let_def)
        from enqueue_session [OF t(1) _ _ _ _ this i] show ?thesis using True t(2) by simp
      next
        case F: False
        then have "r \<noteq> Ok ()" "s' = ?t"
          using r Some False by (auto simp: submit_def Let_def split: if_splits outcome.splits)
        then show ?thesis using t(1) by simp
      qed
    qed
  qed
qed

lemma heartbeat_session:
  assumes ok: "session_ok K B n P s"
  shows "session_ok K B n P (snd (heartbeat now c s))"
proof -
  let ?s = "expire now s"
  have e: "session_ok K B n P ?s" by (rule expire_session [OF ok])
  have i: "input_inv (snd (heartbeat now c s))" using heartbeat_inv ok by (simp add: session_ok_def)
  show ?thesis
  proof (cases "owner c ?s")
    case None
    then show ?thesis using e by (simp add: heartbeat_def Let_def)
  next
    case (Some a)
    then have a: "in_active ?s = Some a" by (simp add: owner_Some)
    have h: "snd (heartbeat now c s) = ?s\<lparr> in_active := Some (a\<lparr> ac_last_seen := now \<rparr>) \<rparr>"
      using Some by (simp add: heartbeat_def Let_def)
    show ?thesis
      using e i a unfolding h by (simp add: session_ok_def held_ok_def account_ok_def closing_down_def clearing_def)
  qed
qed

lemma admit_session:
  assumes ok: "session_ok K B n P s"
  shows "case target_admit now m s of
     (Ok c, s') \<Rightarrow> session_ok K B 0 [] s' \<and> in_active s = None \<and> co_id c = in_next_controller s + 1 \<and>
       in_next_controller s < co_id c \<and> in_next_controller s' = co_id c \<and>
       (\<exists>a. in_active s' = Some a \<and> ac_id a = co_id c \<and> ac_mode a = co_mode c)
   | (_, s') \<Rightarrow> s' = s"
proof -
  have i: "input_inv (snd (target_admit now m s))" using target_admit_inv ok by (simp add: session_ok_def)
  have q: "in_active s = None \<Longrightarrow> in_queue s = [] \<and> in_flight s = None" using ok by (simp add: session_ok_def input_inv_def)
  show ?thesis
  proof (cases "\<not> in_failed s \<and> in_active s = None \<and> cf_modes (in_config s) AND mode_bit m \<noteq> 0 \<and> checked_add (in_next_controller s) 1 \<noteq> None")
    case True
    then obtain cid where c: "checked_add (in_next_controller s) 1 = Some cid" by blast
    then have "cid = in_next_controller s + 1" "in_next_controller s < cid"
      by (auto simp: checked_add_def word_less_nat_alt unat_plus split: if_splits)
    moreover have "K = {} \<and> B = {}" using ok True by (auto simp: session_ok_def held_ok_def)
    ultimately show ?thesis
      using True c i q by (auto simp: target_admit_def session_ok_def held_ok_def account_ok_def flight_seq_def)
  qed (auto simp: target_admit_def split: option.splits)
qed

lemma poll_session:
  assumes ok: "session_ok K B n P s" and r: "controller_poll c s = (r, s')"
  shows "session_ok K B n (case r of Some st \<Rightarrow> if owner c s' = None then P else P @ [st] | None \<Rightarrow> P) s'"
proof (cases "in_mail s (co_id c)")
  case Nil
  then show ?thesis using ok r by (auto simp: controller_poll_def)
next
  case (Cons st rest)
  then have s': "s' = s\<lparr> in_mail := (in_mail s)(co_id c := rest) \<rparr>" "r = Some st" using r by (auto simp: controller_poll_def)
  have i: "input_inv s'" using poll_inv [of s c] ok r by (simp add: session_ok_def)
  have f: "closing_down s' = closing_down s" "clearing s' = clearing s" by (simp_all add: s' closing_down_def clearing_def)
  have h: "held_ok K B s'" using ok f by (simp add: s'(1) session_ok_def held_ok_def)
  have o: "overflowed (st # rest) \<longleftrightarrow> overflowed [st] \<or> overflowed rest" using overflowed_append [of "[st]" rest] by simp
  have "account_ok n (if owner c s' = None then P else P @ [st]) s'"
    using ok f o Cons
    by (cases "in_active s") (auto simp: session_ok_def account_ok_def s'(1) owner_def o)
  then show ?thesis using i h ok s' by (simp add: session_ok_def)
qed

lemma resolve_session:
  assumes ok: "session_ok K B n P s"
  shows "case resolve_failed_cleanup s of (Ok _, s') \<Rightarrow> session_ok {} {} n P s' | (_, s') \<Rightarrow> s' = s"
proof (cases "in_failed s \<and> in_flight s = None")
  case True
  then have "in_active s = None" using ok by (simp add: session_ok_def)
  then show ?thesis
    using ok True
    by (simp add: resolve_failed_cleanup_def session_ok_def held_ok_def account_ok_def input_inv_def mailbox_limit_def)
qed (auto simp: resolve_failed_cleanup_def)

section \<open>Every reachable state\<close>

definition same_controller :: "input_state \<Rightarrow> input_state \<Rightarrow> bool" where
  "same_controller s s' \<longleftrightarrow> in_next_controller s' = in_next_controller s \<and>
     (\<forall>a'. in_active s' = Some a' \<longrightarrow> (\<exists>a. in_active s = Some a \<and> ac_id a = ac_id a' \<and> ac_mode a = ac_mode a'))"

lemma same_controller_refl [simp]: "same_controller s s"
  by (simp add: same_controller_def)

lemma quiet_same: "quiet s s' \<Longrightarrow> same_controller s s'"
  by (simp add: quiet_def same_controller_def)

lemma next_same: "input_inv s \<Longrightarrow> same_controller s (snd (target_next now s))"
proof (cases "in_flight (expire now s) = None \<and> in_barrier (expire now s) = None")
  case True
  then have n: "target_next now s = next_event (expire now s)" by (simp add: target_next_def Let_def)
  show ?thesis
    using next_event_dispatches [of "expire now s"] True reports_fields
    unfolding n dispatches_def same_controller_def by (elim disjE exE conjE) auto
qed (auto simp: target_next_def Let_def same_controller_def split: option.splits)

lemma complete_same: "same_controller s (snd (complete i r s))"
proof -
  have "same_controller s (complete_event w e r s1)" if "in_active s1 = in_active s" "in_next_controller s1 = in_next_controller s" for w e s1
    using that apply_event_active [of s1]
    by (cases "in_active s") (auto simp: complete_event_def Let_def same_controller_def cancel_fields apply_event_fields apply_event_def)
  moreover have "same_controller s (snd (finish_cleanup sc why en r (s\<lparr> in_flight := None \<rparr>)))" for sc why en
    by (cases "in_active s") (auto simp: finish_cleanup_def Let_def same_controller_def next_epoch_def)
  ultimately show ?thesis by (auto simp: complete_def Let_def split: option.split operation.split)
qed

lemma submit_same: "same_controller s (snd (submit now c epoch q e s))"
proof (cases "owner c (expire now s)")
  case (Some a)
  then have a: "in_active s = Some a" by (simp add: owner_Some)
  let ?t = "(expire now s)\<lparr> in_active := Some (a\<lparr> ac_last_sequence := q \<rparr>) \<rparr>"
  obtain r s' where "enqueue c (a\<lparr> ac_last_sequence := q \<rparr>) epoch q e ?t = (r, s')" by (metis surj_pair)
  from enqueue_cases [OF this] this show ?thesis
    using Some a by (auto simp: submit_def Let_def same_controller_def cancel_fields split: outcome.split)
qed (simp add: submit_def same_controller_def)

lemma heartbeat_same: "same_controller s (snd (heartbeat now c s))"
  by (auto simp: heartbeat_def Let_def same_controller_def owner_Some split: option.split)

lemma poll_same: "same_controller s (snd (controller_poll c s))"
  by (simp add: controller_poll_def same_controller_def split: list.split)

definition sys_ok :: "input_sys \<Rightarrow> bool" where
  "sys_ok y \<longleftrightarrow> session_ok (sy_keys y) (sy_buttons y) (sy_accepted y) (sy_polled y) (sy_state y) \<and> handles_ok y"

lemma handles_same: "handles_ok y \<Longrightarrow> same_controller (sy_state y) s' \<Longrightarrow> sy_handles y' = sy_handles y \<Longrightarrow> sy_state y' = s' \<Longrightarrow> handles_ok y'"
  unfolding handles_ok_def same_controller_def by (metis order.trans)

lemma set_geometry_same: "same_controller s (snd (set_geometry g s))"
  by (simp add: set_geometry_def Let_def same_controller_def cancel_fields)

lemma input_step_ok:
  assumes ok: "sys_ok y" and en: "input_enabled act y"
  shows "sys_ok (input_step act y)"
proof -
  have s: "session_ok (sy_keys y) (sy_buttons y) (sy_accepted y) (sy_polled y) (sy_state y)" and h: "handles_ok y"
    using ok by (simp_all add: sys_ok_def)
  have inv: "input_inv (sy_state y)" using s by (simp add: session_ok_def)
  have mode: "ac_mode a = co_mode (sy_handles y ! k)"
    if "k < length (sy_handles y)" "in_active (sy_state y) = Some a" "ac_id a = co_id (sy_handles y ! k)" for a k
    using h that by (auto simp: handles_ok_def)
  note keep = handles_same [OF h]
  have plain: "sys_ok (y\<lparr> sy_state := s' \<rparr>)"
    if "session_ok (sy_keys y) (sy_buttons y) (sy_accepted y) (sy_polled y) s'" "same_controller (sy_state y) s'" for s'
    using that keep [OF that(2), of "y\<lparr> sy_state := s' \<rparr>"] by (simp add: sys_ok_def)
  show ?thesis
  proof (cases act)
    case (Admit now m)
    show ?thesis
    proof (cases "target_admit now m (sy_state y)")
      case (Pair r s')
      show ?thesis
      proof (cases r)
        case (Ok c)
        have "session_ok (sy_keys y) (sy_buttons y) 0 [] s'" "in_next_controller (sy_state y) < co_id c" "in_next_controller s' = co_id c"
          "\<exists>a. in_active s' = Some a \<and> ac_id a = co_id c \<and> ac_mode a = co_mode c"
          using admit_session [OF s, of now m] Pair Ok by auto
        moreover have "handles_ok (y\<lparr> sy_state := s', sy_handles := sy_handles y @ [c], sy_accepted := 0, sy_polled := [] \<rparr>)"
          using calculation h by (fastforce simp: handles_ok_def)
        ultimately show ?thesis using Admit Pair Ok by (simp add: sys_ok_def)
      qed (use admit_session [OF s, of now m] Admit Pair ok in auto)
    qed
  next
    case (Complete i r)
    then show ?thesis
      using complete_session [OF s, of i r] keep [OF complete_same] by (auto simp: sys_ok_def split: option.split)
  next
    case ResolveFailed
    then show ?thesis
      using resolve_session [OF s] ok keep [of "snd (resolve_failed_cleanup (sy_state y))"]
      by (auto simp: sys_ok_def resolve_failed_cleanup_def same_controller_def)
  next
    case (Submit now k epoch q e)
    obtain r s' where r: "submit now (sy_handles y ! k) epoch q e (sy_state y) = (r, s')" by (metis surj_pair)
    have "session_ok (sy_keys y) (sy_buttons y) (if r = Ok () then sy_accepted y + 1 else sy_accepted y) (sy_polled y) s'"
      by (rule submit_session [OF s _ r]) (use en Submit mode in auto)
    then show ?thesis
      using Submit r keep [of s'] submit_same [of "sy_state y" now "sy_handles y ! k" epoch q e]
      by (cases r) (auto simp: sys_ok_def)
  next
    case (PollController k)
    obtain r s' where r: "controller_poll (sy_handles y ! k) (sy_state y) = (r, s')" by (metis surj_pair)
    then show ?thesis
      using PollController poll_session [OF s r] keep [of s'] poll_same [of "sy_state y" "sy_handles y ! k"]
      by (cases r) (auto simp: sys_ok_def)
  next
    case (Dispatch now)
    then show ?thesis using plain [OF next_session [OF s] next_same [OF inv]] by simp
  next
    case (SetGeometry g)
    then show ?thesis using plain [OF set_geometry_session [OF s] set_geometry_same] by simp
  next
    case (Tick now)
    then show ?thesis using plain [OF expire_session [OF s] quiet_same [OF expire_quiet]] by simp
  next
    case (Heartbeat now k)
    then show ?thesis using plain [OF heartbeat_session [OF s] heartbeat_same] by simp
  next
    case (ResetController k)
    then show ?thesis using plain [OF cancel_session [OF s] quiet_same [OF cancel_quiet]] ok by (simp add: controller_reset_def)
  next
    case (CloseController k)
    then show ?thesis using plain [OF cancel_session [OF s] quiet_same [OF cancel_quiet]] ok by (simp add: controller_close_def)
  qed
qed

lemma input_reachable_ok: "input_reachable y \<Longrightarrow> sys_ok y"
proof (induction rule: input_reachable.induct)
  case (start c s)
  then show ?case
    by (auto simp: target_new_def input_init_def sys_ok_def session_ok_def handles_ok_def input_inv_def held_ok_def account_ok_def
        mailbox_limit_def split: if_splits)
next
  case (step y act)
  then show ?case by (simp add: input_step_ok)
qed

end
