(* ===== verification/Input_Properties.thy ===== *)
theory Input_Properties
  imports Input_Guarantees
begin

text \<open>
  The guarantees of the input session (\<open>input/session.rs\<close>) over every reachable state of its state
  machine, with witnesses on a session whose queue holds one event.
\<close>

section \<open>A small session\<close>

definition tiny_config :: config where
  "tiny_config = config_default\<lparr> cf_max_events := 1 \<rparr>"

definition tiny_state :: "u64 \<Rightarrow> active option \<Rightarrow> status list \<Rightarrow> input_state" where
  "tiny_state k a mail = \<lparr> in_config = tiny_config, in_next_controller = (if a = None then 0 else 1), in_next_work = k, in_active = a, in_queue = [],
                in_flight = None, in_barrier = None, in_failed = False, in_mail = (\<lambda>_. [])(1 := mail) \<rparr>"

definition tiny_active :: "u64 \<Rightarrow> active" where
  "tiny_active k = \<lparr> ac_id = 1, ac_mode = Cooperative, ac_epoch = 1, ac_last_sequence = k,
              ac_last_seen = 0, ac_keys = [], ac_buttons = {}, ac_scroll_open = False \<rparr>"

definition tiny_sys :: "u64 \<Rightarrow> status list \<Rightarrow> nat \<Rightarrow> input_sys" where
  "tiny_sys k mail n = \<lparr> sy_state = tiny_state k (Some (tiny_active k)) mail, sy_handles = [\<lparr> co_id = 1, co_mode = Cooperative \<rparr>],
     sy_keys = {}, sy_buttons = {}, sy_accepted = n, sy_polled = [] \<rparr>"

lemma tiny_new: "target_new tiny_config = Ok (tiny_state 0 None [])"
  by (auto simp: target_new_def tiny_config_def tiny_state_def config_default_def cap_consts geometry_valid_def)

lemma tiny_admit: "input_step (Admit 0 Cooperative) (input_init (tiny_state 0 None [])) = tiny_sys 0 [] 0"
  by (simp add: input_init_def tiny_state_def tiny_sys_def tiny_active_def target_admit_def checked_add_def tiny_config_def config_default_def)

definition tiny_work :: "u64 \<Rightarrow> work" where
  "tiny_work k = \<lparr> wk_mode = Cooperative, wk_id = k, wk_controller = 1, wk_epoch = 1, wk_sequence = k, wk_operation = EventWork (TextEvent [65]) \<rparr>"

lemmas tiny_defs = tiny_sys_def tiny_state_def tiny_active_def tiny_config_def tiny_work_def config_default_def

lemma no_expiry [simp]: "in_active s = Some a \<Longrightarrow> ac_last_seen a = 0 \<Longrightarrow> cf_idle_timeout (in_config s) \<noteq> 0 \<Longrightarrow> expire 0 s = s"
  by (simp add: expire_def)

lemma next_event_first:
  "in_queue s = w # q \<Longrightarrow> bind (s\<lparr> in_queue := q \<rparr>) w = Ok (True, w') \<Longrightarrow>
     next_event s = (Some w', s\<lparr> in_queue := q, in_flight := Some \<lparr> fl_work = w', fl_end = False \<rparr> \<rparr>)"
  by (subst next_event.simps) (simp add: Let_def)

lemma tiny_submit: "k < k + 1 \<Longrightarrow> input_step (Submit 0 0 1 (k + 1) (TextEvent [65])) (tiny_sys k mail n)
  = (tiny_sys k mail (n + 1))\<lparr> sy_state := (tiny_state (k + 1) (Some (tiny_active (k + 1))) mail)\<lparr> in_queue := [tiny_work (k + 1)] \<rparr> \<rparr>"
  by (auto simp: tiny_defs submit_def enqueue_def owner_def cleaning_def capable_def cap_consts queued_events_def queued_bytes_def Let_def)

lemma tiny_dispatch: "input_step (Dispatch 0) ((tiny_sys k mail n)\<lparr> sy_state := (tiny_state j (Some (tiny_active j)) mail)\<lparr> in_queue := [tiny_work j] \<rparr> \<rparr>)
  = (tiny_sys k mail n)\<lparr> sy_state := (tiny_state j (Some (tiny_active j)) mail)\<lparr> in_flight := Some \<lparr> fl_work = tiny_work j, fl_end = False \<rparr> \<rparr> \<rparr>"
  by (simp add: tiny_defs target_next_def next_event_first bind_def Let_def)

lemma tiny_complete: "length mail < 6 \<Longrightarrow> list_all (\<lambda>st. \<exists>k. st = Completed k Executed) mail \<Longrightarrow>
   input_step (Complete j Executed) ((tiny_sys k mail n)\<lparr> sy_state := (tiny_state j (Some (tiny_active j)) mail)\<lparr> in_flight := Some \<lparr> fl_work = tiny_work j, fl_end = False \<rparr> \<rparr> \<rparr>)
  = tiny_sys j (mail @ [Completed j Executed]) n"
  using merge_coalesced.simps
  by (cases mail rule: rev_cases) (auto simp: tiny_defs completed_work_def complete_def complete_event_def apply_event_def push_status_def mailbox_limit_def Let_def)

lemma tiny_round:
  assumes "length mail < 6" "k < k + 1" "list_all (\<lambda>st. \<exists>k. st = Completed k Executed) mail"
  shows "input_step (Complete (k + 1) Executed) (input_step (Dispatch 0) (input_step (Submit 0 0 1 (k + 1) (TextEvent [65])) (tiny_sys k mail n)))
     = tiny_sys (k + 1) (mail @ [Completed (k + 1) Executed]) (n + 1)"
  using assms by (simp add: tiny_submit tiny_dispatch tiny_complete del: input_step.simps)

definition tiny_mail :: "nat \<Rightarrow> status list" where
  "tiny_mail n = map (\<lambda>i. Completed (of_nat i + 1) Executed) [0..<n]"

lemma tiny_reachable: "n \<le> 6 \<Longrightarrow> input_reachable (tiny_sys (of_nat n) (tiny_mail n) n)"
proof (induction n)
  case 0
  then show ?case
    using input_reachable.step [OF input_reachable.start [OF tiny_new], of "Admit 0 Cooperative"] tiny_admit by (simp add: tiny_mail_def)
next
  case (Suc n)
  let ?k = "of_nat n :: u64" and ?y = "tiny_sys (of_nat n) (tiny_mail n) n"
  let ?s = "input_step (Submit 0 0 1 (?k + 1) (TextEvent [65])) ?y"
  have y: "input_reachable ?y" using Suc by simp
  have len: "length (sy_handles ?y) = 1" by (simp add: tiny_sys_def)
  have "input_reachable ?s" by (rule input_reachable.step [OF y]) (simp add: len)
  then have "input_reachable (input_step (Dispatch 0) ?s)" by (rule input_reachable.step) simp
  then have "input_reachable (input_step (Complete (?k + 1) Executed) (input_step (Dispatch 0) ?s))" by (rule input_reachable.step) simp
  moreover have "?k < ?k + 1" using Suc.prems by (simp add: word_less_nat_alt unat_word_ariths unat_of_nat)
  ultimately show ?case
    using tiny_round [of "tiny_mail n" ?k n] Suc.prems by (simp add: tiny_mail_def list_all_iff add.commute)
qed

definition stale_sys :: input_sys where
  "stale_sys = input_step (Complete 7 NotExecuted) (input_step (Dispatch 0) (input_step (ResetController 0) (tiny_sys 6 (tiny_mail 6) 6)))"

lemma stale_reachable: "input_reachable stale_sys"
proof -
  have y: "input_reachable (tiny_sys 6 (tiny_mail 6) 6)" using tiny_reachable [of 6] by simp
  have "input_reachable (input_step (ResetController 0) (tiny_sys 6 (tiny_mail 6) 6))"
    by (rule input_reachable.step [OF y]) (simp add: tiny_sys_def)
  then have "input_reachable (input_step (Dispatch 0) (input_step (ResetController 0) (tiny_sys 6 (tiny_mail 6) 6)))"
    by (rule input_reachable.step) simp
  then show ?thesis unfolding stale_sys_def by (rule input_reachable.step) simp
qed

lemma stale_state:
  "sy_state stale_sys = (tiny_state 7 None [ClosedStatus QueueOverflow False])
     \<lparr> in_next_controller := 1, in_failed := True, in_barrier := Some overflow_barrier \<rparr>"
proof -
  have r: "input_step (ResetController 0) (tiny_sys 6 (tiny_mail 6) 6) = (tiny_sys 6 (tiny_mail 6) 6)\<lparr> sy_state := (sy_state (tiny_sys 6 (tiny_mail 6) 6))\<lparr> in_barrier := Some \<lparr> ba_scope = All, ba_reason = Focus, ba_end = False \<rparr> \<rparr> \<rparr>"
    by (simp add: tiny_defs controller_reset_def owner_def cancel_def ends_def Let_def cancel_queue.simps)
  show ?thesis unfolding stale_sys_def r
    by (simp add: tiny_defs tiny_mail_def target_next_def completed_work_def complete_def finish_cleanup_def push_status_def mailbox_limit_def overflow_barrier_def Let_def upt_rec)
qed

section \<open>Guarantees\<close>

lemma reachable_session:
  assumes "input_reachable y"
  shows "input_inv (sy_state y)" "held_ok (sy_keys y) (sy_buttons y) (sy_state y)"
    "account_ok (sy_accepted y) (sy_polled y) (sy_state y)" "in_failed (sy_state y) \<Longrightarrow> in_active (sy_state y) = None"
  using input_reachable_ok [OF assms] by (simp_all add: sys_ok_def session_ok_def)

lemma cancel_barrier: "in_barrier (cancel sc why end0 s) = None \<Longrightarrow> in_barrier s = None"
  by (cases rule: cancel_cases [of s sc why end0]) (auto dest: reportsD(3))

lemma apply_event_active_None [simp]: "in_active (apply_event e s) = None \<longleftrightarrow> in_active s = None"
  by (simp add: apply_event_def split: option.split)

lemma tiny_start: "input_reachable (tiny_sys 0 [] 0)" "input_reachable (input_init (tiny_state 0 None []))"
  using tiny_reachable [of 0] input_reachable.start [OF tiny_new] by (simp_all add: tiny_mail_def)

text \<open>C20. No stuck input: whenever the session is idle (no controller, nothing in flight, no failed cleanup),
  the executor holds no key and no button, whatever was pressed, rejected, partly executed, expired or
  overflowed before.  The ghost sets \<open>sy_keys\<close> and \<open>sy_buttons\<close> record what the executor has pressed: a press that
  was executed, partly executed or of uncertain outcome counts as pressed.\<close>

theorem no_input_left_held:
  assumes "input_reachable y" "idle (sy_state y)"
  shows "sy_keys y = {} \<and> sy_buttons y = {}"
  using reachable_session(2) [OF assms(1)] assms(2) by (simp add: held_ok_def idle_def)

theorem no_input_left_held_witness:
  "input_reachable (input_init (tiny_state 0 None [])) \<and> idle (sy_state (input_init (tiny_state 0 None []))) \<and>
   sy_keys (input_init (tiny_state 0 None [])) = {} \<and> sy_buttons (input_init (tiny_state 0 None [])) = {}"
proof -
  let ?y = "input_init (tiny_state 0 None [])"
  have "idle (sy_state ?y)" by (simp add: idle_def tiny_state_def input_init_def)
  then show ?thesis using tiny_start(2) no_input_left_held [of ?y] by blast
qed



text \<open>C22. Dispatch is exclusive, fenced and ordered: work is handed out only when nothing is in flight, always
  in the name, mode and epoch of the active controller, becomes the one item in flight, and an event is dispatched
  only when no cleanup is pending and before every queued event of a later sequence number.\<close>

theorem dispatch_fenced_and_ordered:
  assumes "input_reachable y" "target_next now (sy_state y) = (Some w, s')"
  shows "in_flight (sy_state y) = None \<and> map_option fl_work (in_flight s') = Some w \<and>
     (\<exists>a. in_active (sy_state y) = Some a \<and> in_active s' = Some a \<and>
        wk_controller w = ac_id a \<and> wk_mode w = ac_mode a \<and> wk_epoch w = ac_epoch a \<and>
        (\<forall>e. wk_operation w = EventWork e \<longrightarrow> in_barrier (sy_state y) = None \<and> in_barrier s' = None \<and>
           wk_sequence w \<le> ac_last_sequence a \<and> (\<forall>v\<in>set (in_queue s'). wk_sequence w < wk_sequence v)))"
proof -
  let ?s = "expire now (sy_state y)"
  have inv: "input_inv (sy_state y)" and inv': "input_inv s'"
    using reachable_session(1) [OF assms(1)] next_inv [of "sy_state y" now] assms(2) by simp_all
  have fl: "in_flight ?s = None" using assms(2) by (auto simp: target_next_def Let_def split: if_splits)
  obtain a where a: "in_active ?s = Some a"
  proof (cases "in_active ?s")
    case None
    then have "in_queue ?s = []" using expire_inv [OF inv, of now] by (simp add: input_inv_def)
    then have "fst (target_next now (sy_state y)) = None"
      using None fl by (simp add: target_next_def next_event.simps Let_def split: option.split)
    then show ?thesis using assms(2) by simp
  qed
  show ?thesis
  proof (cases "in_barrier ?s")
    case (Some b)
    then show ?thesis using assms(2) fl a by (auto simp: target_next_def Let_def)
  next
    case None
    have "target_next now (sy_state y) = next_event ?s" using None fl by (simp add: target_next_def Let_def)
    then have "dispatches ?s (Some w, s')" using next_event_dispatches [OF None] assms(2) by simp
    then obtain t v q where t: "reports ?s t" "in_queue t = v # q" "in_barrier t = None" "bind (t\<lparr> in_queue := q \<rparr>) v = Ok (True, w)"
      "s' = t\<lparr> in_queue := q, in_flight := Some \<lparr> fl_work = w, fl_end = False \<rparr> \<rparr>"
      unfolding dispatches_def by auto
    have at: "in_active t = Some a" using reports_fields [OF t(1)] a by simp
    have "active_ok t a" using reports_inv [OF expire_inv [OF inv] t(1)] at by (simp add: input_inv_def)
    then have "work_ok a v" using t(2) by (simp add: active_ok_def queue_ok_def)
    then have "work_ok a w" using bind_dispatch(5) [OF t(4)] at by simp
    moreover have "active_ok s' a" using t(5) at inv' by (simp add: input_inv_def)
    then have "queue_ok (in_config s') a (in_flight s') (in_queue s')" by (simp add: active_ok_def)
    moreover have "in_barrier (sy_state y) = None"
      using None by (cases rule: expire_cases [of now "sy_state y"]) (auto dest: cancel_barrier)
    ultimately show ?thesis
      using fl a at t(3,5) by (auto simp: flight_ok_def work_ok_def queue_ok_def flight_seq_def split: operation.splits)
  qed
qed

theorem dispatch_fenced_and_ordered_witness:
  "\<exists>y w s'. input_reachable y \<and> target_next 0 (sy_state y) = (Some w, s') \<and> wk_operation w = EventWork (TextEvent [65]) \<and>
     wk_epoch w = 1 \<and> in_barrier s' = None"
proof -
  let ?y = "input_step (Submit 0 0 1 1 (TextEvent [65])) (tiny_sys 0 [] 0)"
  let ?s = "(tiny_state 1 (Some (tiny_active 1)) [])\<lparr> in_flight := Some \<lparr> fl_work = tiny_work 1, fl_end = False \<rparr> \<rparr>"
  have r: "input_reachable ?y" by (rule input_reachable.step [OF tiny_start(1)]) (simp add: tiny_sys_def)
  have n: "target_next 0 (sy_state ?y) = (Some (tiny_work 1), ?s)"
    using tiny_submit [of 0 "[]" 0] by (simp add: tiny_defs target_next_def next_event_first bind_def Let_def del: input_step.simps)
  show ?thesis
    using dispatch_fenced_and_ordered [OF r n] r n by (intro exI [of _ ?y] exI [of _ "tiny_work 1"] exI [of _ ?s]) (auto simp: tiny_defs)
qed

text \<open>C23. Bounds: in every reachable state the events queued and in flight, the queued bytes, the keys
  remembered as held and every mailbox stay within the limits of the configuration.\<close>

theorem input_queue_bounded:
  assumes "input_reachable y" "in_active (sy_state y) = Some a"
  shows "length (flight_seq (in_flight (sy_state y))) + length (in_queue (sy_state y)) \<le> cf_max_events (in_config (sy_state y)) \<and>
     sum_list (map work_bytes (in_queue (sy_state y))) \<le> cf_max_bytes (in_config (sy_state y)) \<and>
     length (ac_keys a) \<le> cf_max_events (in_config (sy_state y)) \<and>
     (\<forall>i. length (in_mail (sy_state y) i) \<le> 2 * cf_max_events (in_config (sy_state y)) + 4)"
  using reachable_session(1) [OF assms(1)] assms(2)
  by (auto simp: input_inv_def active_ok_def queue_ok_def mailbox_limit_def mult.commute)

theorem input_queue_bounded_witness:
  "input_reachable (tiny_sys 6 (tiny_mail 6) 6) \<and> length (in_mail (sy_state (tiny_sys 6 (tiny_mail 6) 6)) 1) \<le> 6"
proof -
  have r: "input_reachable (tiny_sys 6 (tiny_mail 6) 6)" using tiny_reachable [of 6] by simp
  show ?thesis
    using r conjunct2 [OF conjunct2 [OF conjunct2 [OF input_queue_bounded [OF r, of "tiny_active 6"]]]]
    by (auto simp: tiny_defs dest: spec [of _ 1])
qed

lemma cleanup_reaches_idle:
  assumes "input_inv s" "in_active s = Some a" "in_flight s = None" "closing_down s" "\<not> in_failed s" "target_next now s = (w, s')"
  shows "\<exists>v why. w = Some v \<and> wk_operation v = Cleanup All why \<and> fst (complete (wk_id v) Executed s') = Ok () \<and>
     idle (snd (complete (wk_id v) Executed s'))"
proof -
  let ?s = "expire now s"
  have "closing_down ?s" using expire_quiet [of s now] assms(4) by (simp add: quiet_def)
  then obtain b where b: "in_barrier ?s = Some b" "ba_end b" using assms(3) by (auto simp: closing_down_def ends_def)
  then have "ba_scope b = All" using expire_inv [OF assms(1), of now] by (simp add: input_inv_def barrier_ok_def)
  with b show ?thesis
    using assms(2,3,5,6) by (auto simp: target_next_def Let_def complete_def finish_cleanup_def idle_def)
qed

text \<open>C24. A closed controller goes away: after \<open>close\<close>, once the item that may be in flight has completed, either the
  session is idle already or the next dispatch is the full cleanup, and completing that leaves the session idle.\<close>

theorem close_then_cleanup_reaches_idle:
  assumes "input_reachable y" "in_active (sy_state y) = Some a" "co_id c = ac_id a"
    and "s1 = controller_close c (sy_state y)"
    and "s2 = (case in_flight s1 of None \<Rightarrow> s1 | Some f \<Rightarrow> snd (complete (wk_id (fl_work f)) Executed s1))"
  shows "idle s2 \<or> (\<exists>v s3 why. target_next now s2 = (Some v, s3) \<and> wk_operation v = Cleanup All why \<and>
     fst (complete (wk_id v) Executed s3) = Ok () \<and> idle (snd (complete (wk_id v) Executed s3)))"
proof -
  have s1: "s1 = cancel All Disconnect True (sy_state y)" using assms(2-4) by (simp add: controller_close_def owner_def)
  have inv: "input_inv s1" unfolding s1 by (rule cancel_inv [OF reachable_session(1) [OF assms(1)]])
  have cl: "closing_down s1" and act: "in_active s1 = Some a" and ok: "\<not> in_failed s1"
    using cancel_end_closing [of "sy_state y"] assms(2) reachable_session(4) [OF assms(1)] by (auto simp: s1 cancel_fields)
  have fin: ?thesis if "input_inv s2" "in_active s2 \<noteq> None" "in_flight s2 = None" "closing_down s2" "\<not> in_failed s2"
    using cleanup_reaches_idle [OF that(1) _ that(3-5)] that(2) by (metis not_None_eq surj_pair)
  show ?thesis
  proof (cases "in_flight s1")
    case None
    then show ?thesis using fin assms(5) inv cl act ok by simp
  next
    case (Some f)
    have c: "s2 = snd (complete (wk_id (fl_work f)) Executed s1)" using assms(5) Some by simp
    then have inv2: "input_inv s2" using complete_inv [OF inv] by simp
    have fo: "flight_ok (in_config s1) a f" using inv act Some by (simp add: input_inv_def active_ok_def)
    show ?thesis
    proof (cases "fl_end f")
      case True
      then have "idle s2" using c Some act ok fo by (auto simp: complete_def finish_cleanup_def idle_def flight_ok_def Let_def split: operation.splits)
      then show ?thesis by simp
    next
      case False
      let ?t = "s1\<lparr> in_flight := None \<rparr>"
      have t: "closing_down ?t" using False cl Some by (auto simp: closing_down_def ends_def)
      have "in_active s2 \<noteq> None \<and> in_flight s2 = None \<and> closing_down s2 \<and> \<not> in_failed s2"
      proof (cases "wk_operation (fl_work f)")
        case (EventWork e)
        have "closing_down (apply_event e ?t)" using t by (simp add: closing_down_def apply_event_fields)
        then show ?thesis
          using EventWork c Some act ok push_closing
          by (simp add: complete_def complete_event_def Let_def apply_event_fields del: not_None_eq)
      next
        case Cleanup
        then show ?thesis
          using c Some act ok False t by (auto simp: complete_def finish_cleanup_def Let_def closing_down_def ends_def)
      qed
      then show ?thesis using fin inv2 by simp
    qed
  qed
qed

theorem close_then_cleanup_reaches_idle_witness:
  "input_reachable (tiny_sys 0 [] 0) \<and> \<not> idle (controller_close \<lparr> co_id = 1, co_mode = Cooperative \<rparr> (sy_state (tiny_sys 0 [] 0))) \<and>
   (\<exists>v s3. target_next 0 (controller_close \<lparr> co_id = 1, co_mode = Cooperative \<rparr> (sy_state (tiny_sys 0 [] 0))) = (Some v, s3) \<and>
      idle (snd (complete (wk_id v) Executed s3)))"
proof -
  let ?y = "tiny_sys 0 [] 0" and ?c = "\<lparr> co_id = 1, co_mode = Cooperative \<rparr>"
  let ?s = "controller_close ?c (sy_state ?y)"
  have f: "in_flight ?s = None" "in_active ?s = Some (tiny_active 0)"
    by (simp_all add: controller_close_def cancel_fields tiny_sys_def tiny_state_def)
  have "idle ?s \<or> (\<exists>v s3 why. target_next 0 ?s = (Some v, s3) \<and> wk_operation v = Cleanup All why \<and>
     fst (complete (wk_id v) Executed s3) = Ok () \<and> idle (snd (complete (wk_id v) Executed s3)))"
    by (rule close_then_cleanup_reaches_idle [OF tiny_start(1), of "tiny_active 0" ?c ?s])
      (simp_all add: f, simp_all add: tiny_sys_def tiny_state_def tiny_active_def)
  moreover have "\<not> idle ?s" by (simp add: idle_def f)
  ultimately show ?thesis using tiny_start(1) by blast
qed

text \<open>C25. A defect of the failed-cleanup path: \<open>complete\<close> clears the barrier before it reports \<open>Closed\<close>, and that report can
  itself overflow the mailbox and raise a new barrier, which survives although the controller is gone.  The target looks
  usable after \<open>resolve_failed_cleanup\<close>, the next controller is admitted, and its first work item is the stale cleanup
  that ends it.\<close>

theorem stale_barrier_closes_next_controller:
  "\<exists>y y' w. input_reachable y \<and> in_active (sy_state y) = None \<and> in_barrier (sy_state y) \<noteq> None \<and>
     y' = input_step (Admit 0 Cooperative) (input_step ResolveFailed y) \<and>
     (\<exists>a. in_active (sy_state y') = Some a \<and> ac_id a = 2) \<and>
     fst (target_next 0 (sy_state y')) = Some w \<and> wk_controller w = 2 \<and> wk_operation w = Cleanup All QueueOverflow \<and>
     in_active (snd (complete (wk_id w) Executed (snd (target_next 0 (sy_state y'))))) = None"
proof -
  let ?y = stale_sys and ?y' = "input_step (Admit 0 Cooperative) (input_step ResolveFailed stale_sys)"
  let ?w = "\<lparr> wk_mode = Cooperative, wk_id = 8, wk_controller = 2, wk_epoch = 1, wk_sequence = 0,
      wk_operation = Cleanup All QueueOverflow \<rparr>"
  let ?s = "(tiny_state 7 (Some ((tiny_active 0)\<lparr> ac_id := 2 \<rparr>)) [ClosedStatus QueueOverflow False])
      \<lparr> in_next_controller := 2, in_barrier := Some overflow_barrier \<rparr>"
  have s: "sy_state ?y' = ?s"
    using stale_state by (simp add: resolve_failed_cleanup_def target_admit_def tiny_defs checked_add_def fun_eq_iff)
  have n: "target_next 0 ?s = (Some ?w, ?s\<lparr> in_barrier := None, in_next_work := 8, in_flight := Some \<lparr> fl_work = ?w, fl_end = True \<rparr> \<rparr>)"
    by (simp add: target_next_def tiny_defs overflow_barrier_def Let_def)
  have c: "in_active (snd (complete 8 Executed (snd (target_next 0 ?s)))) = None"
    unfolding n by (simp add: complete_def finish_cleanup_def Let_def)
  show ?thesis
    by (intro exI [of _ ?y] exI [of _ ?y'] exI [of _ ?w])
      (use stale_reachable stale_state s n c in \<open>simp add: tiny_defs del: input_step.simps\<close>)
qed

end
