(* ===== verification/Input_Transport.thy ===== *)
theory Input_Transport
  imports Input_Properties
begin

text \<open>
  Input over a connection (\<open>input/transport.rs\<close>): the server that admits a controller and runs it for its peer, and the client
  with its worker.  A connection delivers messages in order (\<open>Framing\<close> shows that the framed stream does); when a message arrives,
  when a clock shows that something is due and when the stream fails is up to the environment.  The target's executor and other threads
  of the target run between any two steps.  The client's mutex makes each of its methods one step.
\<close>

section \<open>Messages\<close>

definition INPUT_VERSION :: u32 where "INPUT_VERSION = 2"

record input_welcome =
  wc_mode :: mode
  wc_version :: u32
  wc_controller :: u64
  wc_epoch :: u64
  wc_config :: config

datatype wire =
    HelloMsg u32 mode
  | WelcomeMsg input_welcome
  | SubmitMsg u64 u64 event
  | ResetMsg
  | HeartbeatMsg
  | ReplyMsg status
  | RejectMsg input_error
  | CloseMsg

datatype transport_error = AdmissionRefused input_error | TransportError string

section \<open>The client\<close>

record client_state =
  cl_welcome :: input_welcome
  cl_sequence :: u64
  cl_queue :: "wire list"
  cl_bytes :: nat
  cl_status :: "status list"
  cl_alive :: bool
  cl_closing :: bool
  cl_resetting :: bool
  cl_stop :: bool

text \<open>\<open>Client::connect\<close> on the first message that answers its hello.\<close>

definition client_connect :: "mode \<Rightarrow> wire \<Rightarrow> (client_state, transport_error) outcome" where
  "client_connect m msg =
     (case msg of
        WelcomeMsg w \<Rightarrow>
          if wc_version w = INPUT_VERSION \<and> wc_mode w = m then
            (case target_new (wc_config w) of
               Ok _ \<Rightarrow> Ok \<lparr> cl_welcome = w, cl_sequence = 0, cl_queue = [], cl_bytes = 0, cl_status = [], cl_alive = True, cl_closing = False,
                         cl_resetting = False, cl_stop = False \<rparr>
             | _ \<Rightarrow> Err (TransportError ''invalid input offer''))
          else Err (TransportError ''invalid input welcome'')
      | RejectMsg e \<Rightarrow> Err (AdmissionRefused e)
      | _ \<Rightarrow> Err (TransportError ''invalid input welcome''))"

definition client_send :: "event \<Rightarrow> client_state \<Rightarrow> (u64, input_error) outcome \<times> client_state" where
  "client_send e s =
     (let config = wc_config (cl_welcome s) in
      if \<not> cl_alive s \<or> cl_closing s then (Err Closed, s)
      else if cl_resetting s then (Err Busy, s)
      else case validate config (wc_mode (cl_welcome s)) e of
        Err error \<Rightarrow> (Err error, s)
      | Panic \<Rightarrow> (Panic, s)
      | Ok _ \<Rightarrow>
        if cf_max_events config \<le> length (cl_queue s) \<or> cf_max_bytes config < cl_bytes s + event_bytes e
        then (Err Overflow, s\<lparr> cl_stop := True, cl_closing := True \<rparr>)
        else case checked_add (cl_sequence s) 1 of
          None \<Rightarrow> (Err Closed, s)
        | Some sequence \<Rightarrow>
          (Ok sequence, s\<lparr> cl_sequence := sequence, cl_bytes := cl_bytes s + event_bytes e,
             cl_queue := cl_queue s @ [SubmitMsg (wc_epoch (cl_welcome s)) sequence e] \<rparr>))"

definition client_reset :: "client_state \<Rightarrow> (unit, input_error) outcome \<times> client_state" where
  "client_reset s =
     (if \<not> cl_alive s \<or> cl_closing s then (Err Closed, s)
      else (Ok (), s\<lparr> cl_queue := [ResetMsg], cl_bytes := 0, cl_resetting := True \<rparr>))"

definition client_close :: "client_state \<Rightarrow> client_state" where
  "client_close s = s\<lparr> cl_closing := True, cl_queue := [CloseMsg], cl_bytes := 0 \<rparr>"

definition client_poll :: "client_state \<Rightarrow> status option \<times> client_state" where
  "client_poll s = (case cl_status s of [] \<Rightarrow> (None, s) | st # rest \<Rightarrow> (Some st, s\<lparr> cl_status := rest \<rparr>))"

text \<open>The worker, \<open>drive_client\<close>: it moves at most \<open>n\<close> messages to the wire while it holds the mutex, and handles what arrives.  Its
  result says whether the controller was closed.\<close>

fun drive_take :: "nat \<Rightarrow> client_state \<Rightarrow> (wire list, transport_error) outcome \<times> client_state" where
  "drive_take 0 s = (Ok [], s)"
| "drive_take (Suc n) s =
     (case cl_queue s of
        [] \<Rightarrow> (Ok [], s)
      | msg # rest \<Rightarrow>
        let s = s\<lparr> cl_queue := rest \<rparr>; size = (case msg of SubmitMsg _ _ e \<Rightarrow> event_bytes e | _ \<Rightarrow> 0) in
        if cl_bytes s < size then (Panic, s)
        else case drive_take n (s\<lparr> cl_bytes := cl_bytes s - size \<rparr>) of
          (Ok msgs, s') \<Rightarrow> (Ok (msg # msgs), s')
        | (r, s') \<Rightarrow> (r, s'))"

definition apply_reset :: "status \<Rightarrow> client_state \<Rightarrow> client_state" where
  "apply_reset st s =
     (case st of
        Reset epoch geometry \<Rightarrow>
          s\<lparr> cl_resetting := False,
             cl_welcome := (cl_welcome s)\<lparr> wc_epoch := epoch, wc_config := (wc_config (cl_welcome s))\<lparr> cf_geometry := geometry \<rparr> \<rparr> \<rparr>
      | _ \<Rightarrow> s)"

definition drive_receive :: "wire \<Rightarrow> client_state \<Rightarrow> (bool, transport_error) outcome \<times> client_state" where
  "drive_receive msg s =
     (case msg of
        HeartbeatMsg \<Rightarrow> (Ok False, s)
      | ReplyMsg st \<Rightarrow>
        let s = apply_reset st s; closed = (case st of ClosedStatus _ _ \<Rightarrow> True | _ \<Rightarrow> False) in
        (case (if cl_status s = [] then None else merge_coalesced (last (cl_status s)) st) of
           Some merged \<Rightarrow> (Ok False, s\<lparr> cl_status := butlast (cl_status s) @ [merged] \<rparr>)
         | None \<Rightarrow>
           if cf_max_events (wc_config (cl_welcome s)) * 2 + 4 \<le> length (cl_status s) then (Err (TransportError ''unconsumed input results''), s)
           else let s = s\<lparr> cl_status := cl_status s @ [st] \<rparr> in
             if closed then (Ok True, s\<lparr> cl_alive := False \<rparr>) else (Ok False, s))
      | _ \<Rightarrow> (Err (TransportError ''unexpected input reply''), s))"

definition drive_finish :: "client_state \<Rightarrow> client_state" where
  "drive_finish s = s\<lparr> cl_status := (if cl_alive s then cl_status s @ [ClosedStatus Disconnect False] else cl_status s), cl_alive := False \<rparr>"

section \<open>The server\<close>

text \<open>\<open>serve\<close> waiting for the hello, and on each message of an admitted controller with handle \<open>k\<close>: what it sends and the target.\<close>

definition serve_hello :: "nat \<Rightarrow> wire \<Rightarrow> input_sys \<Rightarrow> (nat, transport_error) outcome \<times> wire list \<times> input_sys" where
  "serve_hello now msg y =
     (case msg of
        HelloMsg version m \<Rightarrow>
          if version = INPUT_VERSION then
            (case target_admit now m (sy_state y) of
               (Ok c, s) \<Rightarrow>
                 (Ok (length (sy_handles y)),
                  [WelcomeMsg \<lparr> wc_mode = co_mode c, wc_version = INPUT_VERSION, wc_controller = co_id c, wc_epoch = 1, wc_config = in_config s \<rparr>],
                  input_step (Admit now m) y)
             | (Err e, s) \<Rightarrow> (Err (AdmissionRefused e), [RejectMsg e], input_step (Admit now m) y)
             | (Panic, s) \<Rightarrow> (Panic, [], input_step (Admit now m) y))
          else (Err (TransportError ''expected input hello''), [], y)
      | _ \<Rightarrow> (Err (TransportError ''expected input hello''), [], y))"

definition serve_message :: "nat \<Rightarrow> nat \<Rightarrow> wire \<Rightarrow> input_sys \<Rightarrow> (unit, transport_error) outcome \<times> wire list \<times> input_sys" where
  "serve_message now k msg y =
     (case msg of
        SubmitMsg epoch sequence e \<Rightarrow>
          (case fst (submit now (sy_handles y ! k) epoch sequence e (sy_state y)) of
             Ok _ \<Rightarrow> (Ok (), [], input_step (Submit now k epoch sequence e) y)
           | Err error \<Rightarrow> (Ok (), [ReplyMsg (Rejected sequence error)], input_step (Submit now k epoch sequence e) y)
           | Panic \<Rightarrow> (Panic, [], input_step (Submit now k epoch sequence e) y))
      | HeartbeatMsg \<Rightarrow> (Ok (), [], input_step (Heartbeat now k) y)
      | ResetMsg \<Rightarrow>
          ((case fst (controller_reset (sy_handles y ! k) (sy_state y)) of Ok _ \<Rightarrow> Ok () | Err _ \<Rightarrow> Err (TransportError ''reset'') | Panic \<Rightarrow> Panic),
           [], input_step (ResetController k) y)
      | CloseMsg \<Rightarrow> (Ok (), [], input_step (CloseController k) y)
      | _ \<Rightarrow> (Err (TransportError ''unexpected input message''), [], y))"

definition serve_poll :: "nat \<Rightarrow> input_sys \<Rightarrow> status option \<times> input_sys" where
  "serve_poll k y = (fst (controller_poll (sy_handles y ! k) (sy_state y)), input_step (PollController k) y)"

section \<open>A connection\<close>

datatype server_pc = SrvTick | SrvReceive nat | SrvPoll | SrvTail

datatype server = Greeting | Serving nat bool server_pc | Finished

datatype driver = DrvPush | DrvBeat bool | DrvReceive nat | DrvTail | DrvEnded

record transport =
  tr_sys :: input_sys
  tr_server :: server
  tr_up :: "wire list"
  tr_down :: "wire list"
  tr_mode :: mode
  tr_client :: "client_state option"
  tr_driver :: driver
  tr_panicked :: bool
  tr_sent :: nat
  tr_dropped :: nat
  tr_refused :: nat
  tr_polled :: "status list"

text \<open>The environment's part of a worker's step: the time, whether a message has arrived, whether a heartbeat is due, whether the
  stream is idle or the peer has been silent for too long, and how many messages the wire takes.\<close>

record moment =
  mo_now :: nat
  mo_arrived :: bool
  mo_due :: bool
  mo_quiet :: bool
  mo_room :: nat

text \<open>When \<open>serve\<close> returns it drops the controller, which closes it.\<close>

definition server_end :: "transport \<Rightarrow> transport" where
  "server_end t =
     (case tr_server t of
        Serving k _ _ \<Rightarrow> t\<lparr> tr_server := Finished, tr_sys := input_step (CloseController k) (tr_sys t) \<rparr>
      | _ \<Rightarrow> t\<lparr> tr_server := Finished \<rparr>)"

fun server_step :: "moment \<Rightarrow> server \<Rightarrow> transport \<Rightarrow> transport" where
  "server_step mo Greeting t =
     (if \<not> mo_arrived mo then t
      else case tr_up t of
        [] \<Rightarrow> t
      | msg # rest \<Rightarrow>
        (case serve_hello (mo_now mo) msg (tr_sys t) of
           (r, out, y) \<Rightarrow>
             let t = t\<lparr> tr_up := rest, tr_down := tr_down t @ out, tr_sys := y \<rparr> in
             (case r of Ok k \<Rightarrow> t\<lparr> tr_server := Serving k False SrvTick \<rparr> | _ \<Rightarrow> t\<lparr> tr_server := Finished \<rparr>)))"
| "server_step mo (Serving k closing SrvTick) t =
     t\<lparr> tr_sys := input_step (Tick (mo_now mo)) (tr_sys t), tr_server := Serving k closing (SrvReceive (if closing then 0 else 32)) \<rparr>"
| "server_step mo (Serving k closing (SrvReceive n)) t =
     (case (n, tr_up t) of
        (Suc m, msg # rest) \<Rightarrow>
          if \<not> mo_arrived mo then t\<lparr> tr_server := Serving k closing SrvPoll \<rparr>
          else (case serve_message (mo_now mo) k msg (tr_sys t) of
            (r, out, y) \<Rightarrow>
              let t = t\<lparr> tr_up := rest, tr_down := tr_down t @ out, tr_sys := y, tr_refused := tr_refused t + length out \<rparr> in
              (case r of Ok _ \<Rightarrow> t\<lparr> tr_server := Serving k closing (SrvReceive m) \<rparr> | _ \<Rightarrow> server_end t))
      | _ \<Rightarrow> t\<lparr> tr_server := Serving k closing SrvPoll \<rparr>)"
| "server_step mo (Serving k closing SrvPoll) t =
     (case serve_poll k (tr_sys t) of
        (Some st, y) \<Rightarrow>
          t\<lparr> tr_sys := y, tr_down := tr_down t @ [ReplyMsg st],
             tr_server := Serving k (closing \<or> (case st of ClosedStatus _ _ \<Rightarrow> True | _ \<Rightarrow> False)) SrvPoll \<rparr>
      | (None, y) \<Rightarrow> t\<lparr> tr_sys := y, tr_server := Serving k closing SrvTail \<rparr>)"
| "server_step mo (Serving k closing SrvTail) t =
     (let t = (if \<not> closing \<and> mo_due mo then t\<lparr> tr_down := tr_down t @ [HeartbeatMsg] \<rparr> else t) in
      if closing \<and> mo_quiet mo then server_end t else t\<lparr> tr_server := Serving k closing SrvTick \<rparr>)"
| "server_step mo Finished t = t"

definition is_submit :: "wire \<Rightarrow> bool" where
  "is_submit msg = (case msg of SubmitMsg _ _ _ \<Rightarrow> True | _ \<Rightarrow> False)"

definition submits :: "wire list \<Rightarrow> nat" where
  "submits l = length (filter is_submit l)"

text \<open>The worker of a connected client.\<close>

definition driver_end :: "client_state \<Rightarrow> transport \<Rightarrow> transport" where
  "driver_end c t = t\<lparr> tr_client := Some (drive_finish c), tr_driver := DrvEnded \<rparr>"

fun driver_step :: "moment \<Rightarrow> driver \<Rightarrow> client_state \<Rightarrow> transport \<Rightarrow> transport" where
  "driver_step mo DrvPush c t =
     (if cl_stop c then driver_end c t
      else case drive_take (min 32 (mo_room mo)) c of
        (Ok msgs, c) \<Rightarrow> t\<lparr> tr_client := Some c, tr_up := tr_up t @ msgs, tr_driver := DrvBeat (cl_closing c) \<rparr>
      | (Err _, c) \<Rightarrow> driver_end c t
      | (Panic, c) \<Rightarrow> t\<lparr> tr_panicked := True \<rparr>)"
| "driver_step mo (DrvBeat closing) c t =
     (if \<not> closing \<and> mo_due mo then t\<lparr> tr_up := tr_up t @ [HeartbeatMsg], tr_driver := DrvReceive 32 \<rparr> else t\<lparr> tr_driver := DrvReceive 32 \<rparr>)"
| "driver_step mo (DrvReceive n) c t =
     (case (n, tr_down t) of
        (Suc m, msg # rest) \<Rightarrow>
          if \<not> mo_arrived mo then t\<lparr> tr_driver := DrvTail \<rparr>
          else (case drive_receive msg c of
            (Ok False, c) \<Rightarrow> t\<lparr> tr_down := rest, tr_client := Some c, tr_driver := DrvReceive m \<rparr>
          | (Ok True, c) \<Rightarrow> driver_end c (t\<lparr> tr_down := rest \<rparr>)
          | (Err _, c) \<Rightarrow> driver_end c (t\<lparr> tr_down := rest \<rparr>)
          | (Panic, c) \<Rightarrow> t\<lparr> tr_panicked := True \<rparr>)
      | _ \<Rightarrow> t\<lparr> tr_driver := DrvTail \<rparr>)"
| "driver_step mo DrvTail c t = (if mo_quiet mo then driver_end c t else t\<lparr> tr_driver := DrvPush \<rparr>)"
| "driver_step mo DrvEnded c t = t"

datatype transport_event =
    SendHello
  | TakeWelcome
  | ClientSend event
  | ClientReset
  | ClientClose
  | ClientPoll
  | ClientDrop
  | DriverStep moment
  | DriverFails
  | ServerStep moment
  | ServerFails
  | Executor input_action

definition executor_action :: "input_action \<Rightarrow> bool" where
  "executor_action act = (case act of Dispatch _ \<Rightarrow> True | Complete _ _ \<Rightarrow> True | SetGeometry _ \<Rightarrow> True | Tick _ \<Rightarrow> True | ResolveFailed \<Rightarrow> True | _ \<Rightarrow> False)"

fun transport_step :: "transport_event \<Rightarrow> transport \<Rightarrow> transport" where
  "transport_step SendHello t =
     (if tr_client t = None \<and> tr_up t = [] \<and> tr_server t = Greeting then t\<lparr> tr_up := [HelloMsg INPUT_VERSION (tr_mode t)] \<rparr> else t)"
| "transport_step TakeWelcome t =
     (case (tr_client t, tr_down t) of
        (None, msg # rest) \<Rightarrow>
          if tr_driver t = DrvEnded then t
          else (case client_connect (tr_mode t) msg of
             Ok c \<Rightarrow> t\<lparr> tr_down := rest, tr_client := Some c, tr_driver := DrvPush \<rparr>
           | _ \<Rightarrow> t\<lparr> tr_down := rest, tr_driver := DrvEnded \<rparr>)
      | _ \<Rightarrow> t)"
| "transport_step (ClientSend e) t =
     (case tr_client t of
        None \<Rightarrow> t
      | Some c \<Rightarrow>
        (case client_send e c of
           (Ok _, c') \<Rightarrow> t\<lparr> tr_client := Some c', tr_sent := tr_sent t + 1 \<rparr>
         | (Err _, c') \<Rightarrow> t\<lparr> tr_client := Some c' \<rparr>
         | (Panic, c') \<Rightarrow> t\<lparr> tr_panicked := True \<rparr>))"
| "transport_step ClientReset t =
     (case tr_client t of
        None \<Rightarrow> t
      | Some c \<Rightarrow>
        (case client_reset c of
           (Ok _, c') \<Rightarrow> t\<lparr> tr_client := Some c', tr_dropped := tr_dropped t + submits (cl_queue c) \<rparr>
         | (_, c') \<Rightarrow> t\<lparr> tr_client := Some c' \<rparr>))"
| "transport_step ClientClose t =
     (case tr_client t of
        None \<Rightarrow> t
      | Some c \<Rightarrow> t\<lparr> tr_client := Some (client_close c), tr_dropped := tr_dropped t + submits (cl_queue c) \<rparr>)"
| "transport_step ClientPoll t =
     (case tr_client t of
        None \<Rightarrow> t
      | Some c \<Rightarrow>
        (case client_poll c of
           (Some st, c') \<Rightarrow> t\<lparr> tr_client := Some c', tr_polled := tr_polled t @ [st] \<rparr>
         | (None, c') \<Rightarrow> t))"
| "transport_step ClientDrop t = (case tr_client t of None \<Rightarrow> t | Some c \<Rightarrow> t\<lparr> tr_client := Some (c\<lparr> cl_stop := True \<rparr>) \<rparr>)"
| "transport_step (DriverStep mo) t = (case tr_client t of None \<Rightarrow> t | Some c \<Rightarrow> driver_step mo (tr_driver t) c t)"
| "transport_step DriverFails t =
     (case tr_client t of None \<Rightarrow> t | Some c \<Rightarrow> if tr_driver t = DrvEnded then t else driver_end c t)"
| "transport_step (ServerStep mo) t = server_step mo (tr_server t) t"
| "transport_step ServerFails t = (if tr_server t = Finished then t else server_end t)"
| "transport_step (Executor act) t = (if executor_action act then t\<lparr> tr_sys := input_step act (tr_sys t) \<rparr> else t)"

definition transport_init :: "input_sys \<Rightarrow> mode \<Rightarrow> transport" where
  "transport_init y m =
     \<lparr> tr_sys = y, tr_server = Greeting, tr_up = [], tr_down = [], tr_mode = m, tr_client = None, tr_driver = DrvPush, tr_panicked = False,
       tr_sent = 0, tr_dropped = 0, tr_refused = 0, tr_polled = [] \<rparr>"

inductive transport_reachable :: "transport \<Rightarrow> bool" where
  start: "input_reachable y \<Longrightarrow> transport_reachable (transport_init y m)"
| step: "transport_reachable t \<Longrightarrow> transport_reachable (transport_step e t)"

section \<open>The session under one connection\<close>

lemma reachable_sys_ok: "input_reachable y \<Longrightarrow> sys_ok y"
  by (rule input_reachable_ok)

lemma step_same:
  assumes ok: "sys_ok y" and act: "\<And>now m. act \<noteq> Admit now m"
  shows "same_controller (sy_state y) (sy_state (input_step act y))" "sy_handles (input_step act y) = sy_handles y"
proof -
  have inv: "input_inv (sy_state y)" using ok by (simp add: sys_ok_def session_ok_def)
  show "sy_handles (input_step act y) = sy_handles y"
    using act by (cases act) (auto split: option.split outcome.split prod.split)
  show "same_controller (sy_state y) (sy_state (input_step act y))"
  proof (cases act)
    case (Dispatch now)
    then show ?thesis using next_same [OF inv] by simp
  next
    case (Complete i r)
    then show ?thesis using complete_same [of "sy_state y" i r] by (simp split: option.split)
  next
    case (SetGeometry g)
    then show ?thesis using set_geometry_same by simp
  next
    case (Tick now)
    then show ?thesis using quiet_same [OF expire_quiet] by simp
  next
    case ResolveFailed
    then show ?thesis by (simp add: resolve_failed_cleanup_def same_controller_def)
  next
    case (Heartbeat now k)
    then show ?thesis using heartbeat_same by simp
  next
    case (Submit now k epoch q e)
    then show ?thesis using submit_same [of "sy_state y" now "sy_handles y ! k" epoch q e] by (auto split: outcome.split prod.split)
  next
    case (ResetController k)
    then show ?thesis using quiet_same [OF cancel_quiet] by (simp add: controller_reset_def)
  next
    case (CloseController k)
    then show ?thesis using quiet_same [OF cancel_quiet] by (simp add: controller_close_def)
  next
    case (PollController k)
    then show ?thesis using poll_same [of "sy_state y" "sy_handles y ! k"] by (auto split: option.split prod.split)
  qed (use act in simp)
qed

text \<open>What was polled appears in a step only as a prefix, so a step can be taken with any longer prefix.\<close>

lemma step_prefix:
  assumes "\<And>now m. act \<noteq> Admit now m"
  shows "\<exists>new. input_step act (y\<lparr> sy_polled := P \<rparr>) = (input_step act y)\<lparr> sy_polled := P @ new \<rparr> \<and> sy_polled (input_step act y) = sy_polled y @ new"
  using assms by (cases act) (auto split: option.split outcome.split prod.split)

lemma settled_replicate: "settled (replicate n (Completed 0 Executed)) = n" "\<not> overflowed (replicate n (Completed 0 Executed))"
  by (induction n) (simp_all add: overflowed_def)

lemma overflow_persists:
  assumes ok: "sys_ok y" and act: "\<And>now m. act \<noteq> Admit now m" "input_enabled act y"
    and a: "in_active (sy_state y) = Some a" "overflowed (sy_polled y @ in_mail (sy_state y) (ac_id a))"
    and a': "in_active (sy_state (input_step act y)) = Some a'"
  shows "overflowed (sy_polled (input_step act y) @ in_mail (sy_state (input_step act y)) (ac_id a'))"
proof -
  let ?P = "sy_polled y @ replicate (2 ^ 64) (Completed 0 Executed)"
  let ?y = "y\<lparr> sy_polled := ?P \<rparr>"
  obtain new where n: "input_step act ?y = (input_step act y)\<lparr> sy_polled := ?P @ new \<rparr>" "sy_polled (input_step act y) = sy_polled y @ new"
    using step_prefix [OF act(1)] by blast
  have "sys_ok ?y" using ok a settled_replicate by (auto simp: sys_ok_def session_ok_def account_ok_def handles_ok_def)
  moreover have "input_enabled act ?y" using act(2) by (cases act) auto
  ultimately have "sys_ok (input_step act ?y)" by (rule input_step_ok)
  then have acc: "account_ok (sy_accepted (input_step act ?y)) (?P @ new) (sy_state (input_step act y))"
    unfolding n(1) by (simp add: sys_ok_def session_ok_def)
  have "sy_accepted (input_step act ?y) < 2 ^ 64"
    using acc a' u64_bound [of "ac_last_sequence a'"] by (auto simp: account_ok_def)
  then have "overflowed ((?P @ new) @ in_mail (sy_state (input_step act y)) (ac_id a'))"
    using acc a' settled_replicate(1) [of "2 ^ 64"] by (auto simp: account_ok_def)
  then show ?thesis using settled_replicate(2) n(2) by auto
qed

section \<open>The client\<close>

definition msg_bytes :: "wire \<Rightarrow> nat" where
  "msg_bytes msg = (case msg of SubmitMsg _ _ e \<Rightarrow> event_bytes e | _ \<Rightarrow> 0)"

definition client_ok :: "bool \<Rightarrow> client_state \<Rightarrow> bool" where
  "client_ok ended c \<longleftrightarrow> (let config = wc_config (cl_welcome c) in
     cl_bytes c = sum_list (map msg_bytes (cl_queue c)) \<and> cl_bytes c \<le> cf_max_bytes config \<and> 1 \<le> cf_max_events config \<and>
     length (cl_queue c) \<le> cf_max_events config \<and> length (cl_status c) \<le> cf_max_events config * 2 + 4 + (if ended then 1 else 0))"

lemma drive_take_ok:
  "client_ok ended c \<Longrightarrow> \<exists>msgs c'. drive_take n c = (Ok msgs, c') \<and> client_ok ended c' \<and> cl_queue c = msgs @ cl_queue c' \<and>
     cl_status c' = cl_status c \<and> cl_sequence c' = cl_sequence c"
proof (induction n arbitrary: c)
  case (Suc n)
  show ?case
  proof (cases "cl_queue c")
    case (Cons msg rest)
    let ?c = "c\<lparr> cl_queue := rest, cl_bytes := cl_bytes c - msg_bytes msg \<rparr>"
    have b: "msg_bytes msg \<le> cl_bytes c" and ok: "client_ok ended ?c" using Suc.prems Cons by (auto simp: client_ok_def Let_def)
    obtain msgs c' where "drive_take n ?c = (Ok msgs, c')" "client_ok ended c'" "rest = msgs @ cl_queue c'" "cl_status c' = cl_status c" "cl_sequence c' = cl_sequence c"
      using Suc.IH [OF ok] by auto
    then show ?thesis using Cons b by (simp add: msg_bytes_def Let_def)
  qed (use Suc.prems in simp)
qed simp

lemma client_send_ok:
  assumes "client_ok ended c" "client_send e c = (r, c')"
  shows "client_ok ended c'" "cl_status c' = cl_status c"
    "(\<exists>q. r = Ok q \<and> unat (cl_sequence c') = unat (cl_sequence c) + 1 \<and> submits (cl_queue c') = submits (cl_queue c) + 1) \<or>
     (\<exists>e. r = Err e \<and> cl_sequence c' = cl_sequence c \<and> cl_queue c' = cl_queue c) \<or> r = Panic \<and> c' = c"
  using assms by (auto simp: client_send_def client_ok_def Let_def submits_def is_submit_def msg_bytes_def checked_add_Some unat_plus64
      split: if_splits outcome.splits option.splits)

definition replies :: "wire list \<Rightarrow> status list" where
  "replies l = List.map_filter (\<lambda>msg. case msg of ReplyMsg st \<Rightarrow> Some st | _ \<Rightarrow> None) l"

lemma replies_simps [simp]: "replies [] = []" "replies (k @ l) = replies k @ replies l"
  "replies (msg # l) = (case msg of ReplyMsg st \<Rightarrow> st # replies l | _ \<Rightarrow> replies l)"
  by (simp_all add: replies_def List.map_filter_def split: wire.split)

lemma submits_simps [simp]: "submits [] = 0" "submits (k @ l) = submits k + submits l" "submits (msg # l) = (if is_submit msg then 1 else 0) + submits l"
  by (simp_all add: submits_def)

lemma merge_settled:
  assumes "l \<noteq> []" "merge_coalesced (last l) st = Some merged" "settled l + status_weight st < 2 ^ 64"
  shows "settled (butlast l @ [merged]) = settled l + status_weight st"
proof -
  obtain n d where m: "last l = Coalesced n" "st = Coalesced d" "merged = Coalesced (saturating_add n d)"
    using assms(2) by (cases "last l"; cases st) auto
  have "settled l = settled (butlast l @ [last l])" using assms(1) by simp
  then have l: "settled l = settled (butlast l) + unat n" using m(1) by (simp only: settled_simps status_weight.simps)
  then have "unat (saturating_add n d) = unat n + unat d" using assms(3) m(2) by (simp add: unat_saturating_add)
  then show ?thesis using l m by simp
qed

lemma drive_receive_ok:
  assumes ok: "client_ok False c" and r: "drive_receive msg c = (r, c')"
  shows "r \<noteq> Panic \<and> client_ok False c' \<and> cl_queue c' = cl_queue c \<and> cl_sequence c' = cl_sequence c \<and> (r = Ok True \<longrightarrow> \<not> cl_alive c') \<and>
    (r = Ok False \<and> settled (cl_status c) + settled (replies [msg]) < 2 ^ 64 \<longrightarrow> settled (cl_status c') = settled (cl_status c) + settled (replies [msg]))"
proof (cases msg)
  case (ReplyMsg st)
  let ?c = "apply_reset st c"
  have c: "client_ok False ?c" "cl_queue ?c = cl_queue c" "cl_sequence ?c = cl_sequence c" "cl_status ?c = cl_status c"
    using ok by (cases st; simp add: apply_reset_def client_ok_def Let_def)+
  show ?thesis
  proof (cases "if cl_status ?c = [] then None else merge_coalesced (last (cl_status ?c)) st")
    case (Some merged)
    then have m: "cl_status c \<noteq> []" "merge_coalesced (last (cl_status c)) st = Some merged" using c(4) by (auto split: if_splits)
    have e: "r = Ok False" "c' = ?c\<lparr> cl_status := butlast (cl_status c) @ [merged] \<rparr>" using r ReplyMsg Some c(4) by (auto simp: drive_receive_def Let_def)
    show ?thesis using c m merge_settled [OF m] unfolding e by (auto simp: ReplyMsg client_ok_def Let_def)
  next
    case None
    show ?thesis
    proof (cases "cf_max_events (wc_config (cl_welcome ?c)) * 2 + 4 \<le> length (cl_status c)")
      case True
      then have "r = Err (TransportError ''unconsumed input results'')" "c' = ?c" using r ReplyMsg None c(4) by (auto simp: drive_receive_def Let_def)
      then show ?thesis using c by simp
    next
      case False
      then have e: "r = Ok (case st of ClosedStatus _ _ \<Rightarrow> True | _ \<Rightarrow> False)"
        "c' = ?c\<lparr> cl_status := cl_status c @ [st], cl_alive := (if r = Ok True then False else cl_alive ?c) \<rparr>"
        using r ReplyMsg None c(4) by (auto simp: drive_receive_def Let_def split: if_splits)
      show ?thesis using c False e(1) unfolding e(2) by (auto simp: ReplyMsg client_ok_def Let_def)
    qed
  qed
qed (use ok r in \<open>auto simp: drive_receive_def\<close>)

lemma drive_finish_ok: "client_ok False c \<Longrightarrow> client_ok True (drive_finish c)" "cl_queue (drive_finish c) = cl_queue c" "cl_sequence (drive_finish c) = cl_sequence c"
  by (auto simp: drive_finish_def client_ok_def Let_def)

lemma client_close_ok: "client_ok ended c \<Longrightarrow> client_ok ended (client_close c)"
  by (simp add: client_close_def client_ok_def msg_bytes_def Let_def)

lemma client_reset_ok: "client_ok ended c \<Longrightarrow> client_ok ended (snd (client_reset c))"
  by (simp add: client_reset_def client_ok_def msg_bytes_def Let_def)

lemma client_connect_ok:
  assumes "client_connect m msg = Ok c"
  shows "client_ok False c" "cl_status c = []" "cl_queue c = []" "cl_sequence c = 0" "replies [msg] = []"
  using assms by (auto simp: client_connect_def client_ok_def target_new_def Let_def split: wire.splits if_splits outcome.splits)

lemma validate_total: "validate config m e \<noteq> Panic"
  by (cases e) (auto simp: validate_key_def capable_def position_check_def Let_def and_then_def split: outcome.splits if_splits)

section \<open>Invariant\<close>

definition client_queue :: "transport \<Rightarrow> wire list" where
  "client_queue t = (case tr_client t of Some c \<Rightarrow> cl_queue c | None \<Rightarrow> [])"

definition client_statuses :: "transport \<Rightarrow> status list" where
  "client_statuses t = (case tr_client t of Some c \<Rightarrow> cl_status c | None \<Rightarrow> [])"

definition mail_of :: "input_sys \<Rightarrow> active \<Rightarrow> status list" where
  "mail_of y a = sy_polled y @ in_mail (sy_state y) (ac_id a)"

text \<open>What was sent is dropped, on the way, accepted or refused; what was refused or polled is on the way back or has arrived.\<close>

definition carried_ok :: "nat \<Rightarrow> transport \<Rightarrow> bool" where
  "carried_ok k t \<longleftrightarrow> k < length (sy_handles (tr_sys t)) \<and>
     (\<forall>a. in_active (sy_state (tr_sys t)) = Some a \<longrightarrow> ac_id a = co_id (sy_handles (tr_sys t) ! k)) \<and>
     tr_sent t = tr_dropped t + submits (client_queue t) + submits (tr_up t) + sy_accepted (tr_sys t) + tr_refused t \<and>
     (\<forall>a. in_active (sy_state (tr_sys t)) = Some a \<and> tr_driver t \<noteq> DrvEnded \<and> \<not> overflowed (mail_of (tr_sys t) a) \<longrightarrow>
        settled (tr_polled t @ client_statuses t) + settled (replies (tr_down t)) = tr_refused t + settled (sy_polled (tr_sys t)))"

definition client_inv :: "transport \<Rightarrow> bool" where
  "client_inv t \<longleftrightarrow> \<not> tr_panicked t \<and> (tr_client t = None \<longrightarrow> tr_sent t = 0 \<and> tr_dropped t = 0 \<and> tr_polled t = []) \<and>
     (\<forall>c. tr_client t = Some c \<longrightarrow> client_ok (tr_driver t = DrvEnded) c \<and> unat (cl_sequence c) = tr_sent t)"

definition transport_inv :: "transport \<Rightarrow> bool" where
  "transport_inv t \<longleftrightarrow> input_reachable (tr_sys t) \<and> client_inv t \<and>
     (tr_server t = Greeting \<longrightarrow> tr_client t = None \<and> tr_down t = [] \<and> tr_refused t = 0 \<and> submits (tr_up t) = 0) \<and>
     (\<forall>k closing pc. tr_server t = Serving k closing pc \<longrightarrow> carried_ok k t)"

lemma client_inv_frame [simp]:
  "client_inv (t\<lparr> tr_sys := y \<rparr>) = client_inv t" "client_inv (t\<lparr> tr_server := srv \<rparr>) = client_inv t" "client_inv (t\<lparr> tr_up := up \<rparr>) = client_inv t"
  "client_inv (t\<lparr> tr_down := down \<rparr>) = client_inv t" "client_inv (t\<lparr> tr_refused := n \<rparr>) = client_inv t"
  by (simp_all add: client_inv_def)

text \<open>A step of the target on behalf of the server or of another thread.\<close>

lemma carried_target:
  assumes c: "carried_ok k t" and ok: "sys_ok (tr_sys t)" and act: "\<And>now m. act \<noteq> Admit now m" "input_enabled act (tr_sys t)"
    and y: "tr_sys t' = input_step act (tr_sys t)"
    and same: "tr_client t' = tr_client t" "tr_driver t' = tr_driver t" "tr_polled t' = tr_polled t" "tr_sent t' = tr_sent t" "tr_dropped t' = tr_dropped t"
    and up: "submits (tr_up t') + sy_accepted (tr_sys t') + tr_refused t' = submits (tr_up t) + sy_accepted (tr_sys t) + tr_refused t"
    and down: "\<And>a. in_active (sy_state (tr_sys t')) = Some a \<Longrightarrow>
      settled (replies (tr_down t')) + settled (sy_polled (tr_sys t)) + tr_refused t = settled (replies (tr_down t)) + settled (sy_polled (tr_sys t')) + tr_refused t'"
  shows "carried_ok k t'"
proof -
  note s = step_same [OF ok act(1), folded y]
  have a: "\<exists>b. in_active (sy_state (tr_sys t)) = Some b \<and> ac_id b = ac_id a" if "in_active (sy_state (tr_sys t')) = Some a" for a
    using s(1) that by (auto simp: same_controller_def)
  have ov: "overflowed (mail_of (tr_sys t') a)"
    if "in_active (sy_state (tr_sys t')) = Some a" "in_active (sy_state (tr_sys t)) = Some b" "overflowed (mail_of (tr_sys t) b)" for a b
    using overflow_persists [OF ok act that(2)] that unfolding y mail_of_def by blast
  have st: "client_queue t' = client_queue t" "client_statuses t' = client_statuses t" using same(1) by (simp_all add: client_queue_def client_statuses_def)
  have "settled (tr_polled t' @ client_statuses t') + settled (replies (tr_down t')) = tr_refused t' + settled (sy_polled (tr_sys t'))"
    if i: "in_active (sy_state (tr_sys t')) = Some a" "tr_driver t' \<noteq> DrvEnded" "\<not> overflowed (mail_of (tr_sys t') a)" for a
  proof -
    obtain b where b: "in_active (sy_state (tr_sys t)) = Some b" using a [OF i(1)] by blast
    then have "settled (tr_polled t @ client_statuses t) + settled (replies (tr_down t)) = tr_refused t + settled (sy_polled (tr_sys t))"
      using c i ov same(2) by (auto simp: carried_ok_def)
    then show ?thesis using down [OF i(1)] st same(3) by simp
  qed
  then show ?thesis using c a st up same s(2) unfolding carried_ok_def by auto
qed

lemma target_step_inv:
  assumes inv: "transport_inv t" and act: "\<And>now m. act \<noteq> Admit now m" "input_enabled act (tr_sys t)"
    and quiet: "sy_accepted (input_step act (tr_sys t)) = sy_accepted (tr_sys t)" "sy_polled (input_step act (tr_sys t)) = sy_polled (tr_sys t)"
  shows "transport_inv (t\<lparr> tr_sys := input_step act (tr_sys t) \<rparr>)"
proof -
  have r: "input_reachable (input_step act (tr_sys t))" using inv act(2) by (auto simp: transport_inv_def intro: input_reachable.step)
  have ok: "sys_ok (tr_sys t)" using inv reachable_sys_ok by (simp add: transport_inv_def)
  show ?thesis
  proof (cases "tr_server t")
    case (Serving k closing pc)
    then have "carried_ok k t" using inv by (simp add: transport_inv_def)
    from carried_target [OF this ok act] quiet have "carried_ok k (t\<lparr> tr_sys := input_step act (tr_sys t) \<rparr>)" by simp
    then show ?thesis using inv r Serving by (simp add: transport_inv_def)
  qed (use inv r in \<open>simp_all add: transport_inv_def\<close>)
qed

lemma server_end_inv:
  assumes "input_reachable (tr_sys t)" "client_inv t" "\<And>k closing pc. tr_server t = Serving k closing pc \<Longrightarrow> k < length (sy_handles (tr_sys t))"
  shows "transport_inv (server_end t)"
proof (cases "tr_server t")
  case (Serving k closing pc)
  then have "input_reachable (input_step (CloseController k) (tr_sys t))" using assms(1,3) by (intro input_reachable.step) auto
  then show ?thesis using assms(2) Serving by (simp add: server_end_def transport_inv_def del: input_step.simps)
qed (use assms(1,2) in \<open>simp_all add: server_end_def transport_inv_def\<close>)

lemma serve_message_ok:
  assumes "serve_message now k msg y = (r, out, y')" "k < length (sy_handles y)"
  obtains (unexpected) "y' = y" "\<exists>e. r = Err e" "out = []"
  | (act) act where "y' = input_step act y" "\<And>now m. act \<noteq> Admit now m" "input_enabled act y" "sy_polled y' = sy_polled y"
      "r = Ok () \<Longrightarrow> sy_accepted y' + length out = sy_accepted y + (if is_submit msg then 1 else 0)" "settled (replies out) = length out"
proof -
  have plain: thesis if "y' = input_step a y" "\<And>now m. a \<noteq> Admit now m" "input_enabled a y" "sy_polled y' = sy_polled y" "sy_accepted y' = sy_accepted y"
    "out = []" "\<not> is_submit msg" for a
    using that by (intro act [of a]) simp_all
  show thesis
  proof (cases msg)
    case (SubmitMsg epoch sequence e)
    obtain res s where sub: "submit now (sy_handles y ! k) epoch sequence e (sy_state y) = (res, s)" by (metis surj_pair)
    show ?thesis
      by (rule act [of "Submit now k epoch sequence e"])
        (use assms SubmitMsg sub in \<open>auto simp: serve_message_def is_submit_def split: outcome.splits\<close>)
  next
    case HeartbeatMsg
    then show ?thesis using assms by (intro plain [of "Heartbeat now k"]) (auto simp: serve_message_def is_submit_def)
  next
    case ResetMsg
    then show ?thesis using assms by (intro plain [of "ResetController k"]) (auto simp: serve_message_def is_submit_def)
  next
    case CloseMsg
    then show ?thesis using assms by (intro plain [of "CloseController k"]) (auto simp: serve_message_def is_submit_def)
  qed (use assms unexpected in \<open>auto simp: serve_message_def\<close>)
qed

lemma transport_inv_server:
  "transport_inv t \<Longrightarrow> tr_server t = Serving k closing pc \<Longrightarrow> transport_inv (t\<lparr> tr_server := Serving k closing' pc' \<rparr>)"
  by (auto simp: transport_inv_def carried_ok_def client_queue_def client_statuses_def)

lemma server_receive_inv:
  assumes inv: "transport_inv t" and srv: "tr_server t = Serving k closing (SrvReceive n)"
  shows "transport_inv (server_step mo (Serving k closing (SrvReceive n)) t)"
proof (cases "\<exists>m msg rest. n = Suc m \<and> tr_up t = msg # rest \<and> mo_arrived mo")
  case True
  then obtain m msg rest where g: "n = Suc m" "tr_up t = msg # rest" "mo_arrived mo" by blast
  obtain r out y' where sm: "serve_message (mo_now mo) k msg (tr_sys t) = (r, out, y')" by (metis surj_pair)
  have c: "carried_ok k t" using inv srv by (auto simp: transport_inv_def)
  then have k: "k < length (sy_handles (tr_sys t))" by (simp add: carried_ok_def)
  let ?t = "t\<lparr> tr_up := rest, tr_down := tr_down t @ out, tr_sys := y', tr_refused := tr_refused t + length out \<rparr>"
  have step: "server_step mo (Serving k closing (SrvReceive n)) t =
      (case r of Ok _ \<Rightarrow> ?t\<lparr> tr_server := Serving k closing (SrvReceive m) \<rparr> | _ \<Rightarrow> server_end ?t)"
    using g sm by (simp add: Let_def)
  have ok: "sys_ok (tr_sys t)" using inv reachable_sys_ok by (simp add: transport_inv_def)
  show ?thesis
  proof (cases "r = Ok ()")
    case True
    show ?thesis
      using sm k
    proof (cases rule: serve_message_ok)
      case unexpected
      then show ?thesis using True by simp
    next
      case (act a)
      have "carried_ok k (?t\<lparr> tr_server := Serving k closing (SrvReceive m) \<rparr>)"
        by (rule carried_target [OF c ok act(2,3)]) (use act True g in auto)
      moreover have "input_reachable y'" using inv act(1,3) by (auto simp: transport_inv_def intro: input_reachable.step)
      ultimately show ?thesis using inv srv True unfolding step by (auto simp: transport_inv_def)
    qed
  next
    case False
    have "input_reachable y' \<and> sy_handles y' = sy_handles (tr_sys t)"
      using sm k
    proof (cases rule: serve_message_ok)
      case (act a)
      then show ?thesis using inv step_same(2) [OF ok act(2)] by (auto simp: transport_inv_def simp del: input_step.simps intro: input_reachable.step)
    qed (use inv in \<open>simp add: transport_inv_def\<close>)
    then have "transport_inv (server_end ?t)" by (intro server_end_inv) (use inv srv k in \<open>auto simp: transport_inv_def\<close>)
    then show ?thesis unfolding step using False by (cases r) auto
  qed
next
  case False
  then have "server_step mo (Serving k closing (SrvReceive n)) t = t\<lparr> tr_server := Serving k closing SrvPoll \<rparr>"
    by (cases n; cases "tr_up t") auto
  then show ?thesis using transport_inv_server [OF inv srv] by simp
qed

lemma server_greeting_inv:
  assumes inv: "transport_inv t" and srv: "tr_server t = Greeting"
  shows "transport_inv (server_step mo Greeting t)"
proof (cases "\<exists>msg rest. tr_up t = msg # rest \<and> mo_arrived mo")
  case True
  then obtain msg rest where g: "tr_up t = msg # rest" "mo_arrived mo" by blast
  obtain r out y' where sh: "serve_hello (mo_now mo) msg (tr_sys t) = (r, out, y')" by (metis surj_pair)
  let ?t = "t\<lparr> tr_up := rest, tr_down := tr_down t @ out, tr_sys := y' \<rparr>"
  have step: "server_step mo Greeting t = (case r of Ok k \<Rightarrow> ?t\<lparr> tr_server := Serving k False SrvTick \<rparr> | _ \<Rightarrow> ?t\<lparr> tr_server := Finished \<rparr>)"
    using g sh by (simp add: Let_def)
  have i: "client_inv t" "tr_client t = None" "tr_down t = []" "tr_refused t = 0" "submits rest = 0" and y: "input_reachable (tr_sys t)"
    using inv srv g(1) by (auto simp: transport_inv_def)
  have "input_reachable (input_step (Admit (mo_now mo) m) (tr_sys t))" for m by (rule input_reachable.step [OF y]) simp
  then have r': "input_reachable y'" using sh y by (auto simp: serve_hello_def simp del: input_step.simps split: wire.splits if_splits prod.splits outcome.splits)
  show ?thesis
  proof (cases r)
    case (Ok k)
    then obtain m c s where m: "target_admit (mo_now mo) m (sy_state (tr_sys t)) = (Ok c, s)" "k = length (sy_handles (tr_sys t))"
      "y' = input_step (Admit (mo_now mo) m) (tr_sys t)" "replies out = []"
      using sh by (auto simp: serve_hello_def simp del: input_step.simps split: wire.splits if_splits prod.splits outcome.splits)
    have y': "y' = (tr_sys t)\<lparr> sy_state := s, sy_handles := sy_handles (tr_sys t) @ [c], sy_accepted := 0, sy_polled := [] \<rparr>" using m(1,3) by simp
    have "\<exists>a. in_active s = Some a \<and> ac_id a = co_id c" using m(1) by (auto simp: target_admit_def split: if_splits option.splits)
    then have "carried_ok k (?t\<lparr> tr_server := Serving k False SrvTick \<rparr>)"
      using i m(2,4) by (auto simp: carried_ok_def y' client_queue_def client_statuses_def client_inv_def nth_append)
    then show ?thesis unfolding step using Ok i(1) r' by (simp add: transport_inv_def)
  qed (use step i(1) r' in \<open>simp_all add: transport_inv_def\<close>)
qed (use inv in \<open>auto split: list.split\<close>)

lemma server_poll_inv:
  assumes inv: "transport_inv t" and srv: "tr_server t = Serving k closing SrvPoll"
  shows "transport_inv (server_step mo (Serving k closing SrvPoll) t)"
proof -
  let ?y = "tr_sys t" and ?act = "PollController k"
  let ?c = "sy_handles ?y ! k"
  have c: "carried_ok k t" and y: "input_reachable ?y" and cl: "client_inv t" using inv srv by (auto simp: transport_inv_def)
  have k: "k < length (sy_handles ?y)" using c by (simp add: carried_ok_def)
  have ok: "sys_ok ?y" by (rule reachable_sys_ok [OF y])
  have r: "input_reachable (input_step ?act ?y)" by (rule input_reachable.step [OF y]) (use k in simp)
  have frame: "sy_accepted (input_step ?act ?y) = sy_accepted ?y" by (simp split: prod.split option.split)
  show ?thesis
  proof (cases "fst (controller_poll ?c (sy_state ?y))")
    case None
    then have p: "sy_polled (input_step ?act ?y) = sy_polled ?y" by (auto split: prod.split option.split)
    let ?t = "t\<lparr> tr_sys := input_step ?act ?y, tr_server := Serving k closing SrvTail \<rparr>"
    have "carried_ok k ?t" by (rule carried_target [OF c ok, of ?act]) (use k frame p in \<open>simp_all del: input_step.simps\<close>)
    then show ?thesis using r cl None by (simp add: serve_poll_def transport_inv_def del: input_step.simps)
  next
    case (Some st)
    let ?t = "t\<lparr> tr_sys := input_step ?act ?y, tr_down := tr_down t @ [ReplyMsg st],
        tr_server := Serving k (closing \<or> (case st of ClosedStatus _ _ \<Rightarrow> True | _ \<Rightarrow> False)) SrvPoll \<rparr>"
    have p: "sy_polled (input_step ?act ?y) = sy_polled ?y @ [st]" if "in_active (sy_state (input_step ?act ?y)) = Some a" for a
    proof -
      obtain s where s: "controller_poll ?c (sy_state ?y) = (Some st, s)" using Some by (metis prod.collapse)
      then have e: "in_active s = in_active (sy_state ?y)" by (auto simp: controller_poll_def split: list.splits)
      have "in_active s = Some a" using that s by simp
      moreover from this have "ac_id a = co_id ?c" using c e by (simp add: carried_ok_def)
      ultimately have "owner ?c s \<noteq> None" by (simp add: owner_def)
      then show ?thesis using s by simp
    qed
    have "carried_ok k ?t" by (rule carried_target [OF c ok, of ?act]) (use k frame p in \<open>simp_all del: input_step.simps\<close>)
    then show ?thesis using r cl Some by (simp add: serve_poll_def transport_inv_def del: input_step.simps)
  qed
qed

lemma server_step_inv:
  assumes inv: "transport_inv t"
  shows "transport_inv (server_step mo (tr_server t) t)"
proof (cases "tr_server t")
  case Greeting
  then show ?thesis using server_greeting_inv [OF inv Greeting] by (simp only:)
next
  case (Serving k closing pc)
  have c: "carried_ok k t" and k: "k < length (sy_handles (tr_sys t))" using inv Serving by (auto simp: transport_inv_def carried_ok_def)
  show ?thesis
  proof (cases pc)
    case SrvTick
    have "transport_inv (t\<lparr> tr_sys := input_step (Tick (mo_now mo)) (tr_sys t) \<rparr>)" by (rule target_step_inv [OF inv]) simp_all
    from transport_inv_server [OF this] show ?thesis using Serving SrvTick by simp
  next
    case (SrvReceive n)
    then show ?thesis using server_receive_inv [OF inv] Serving by (simp only:)
  next
    case SrvPoll
    then show ?thesis using server_poll_inv [OF inv] Serving by (simp only:)
  next
    case SrvTail
    let ?t = "if \<not> closing \<and> mo_due mo then t\<lparr> tr_down := tr_down t @ [HeartbeatMsg] \<rparr> else t"
    have t: "transport_inv ?t" using inv Serving by (auto simp: transport_inv_def carried_ok_def client_queue_def client_statuses_def)
    have "transport_inv (server_end ?t)" by (rule server_end_inv) (use t Serving k in \<open>auto simp: transport_inv_def\<close>)
    moreover have "transport_inv (?t\<lparr> tr_server := Serving k closing SrvTick \<rparr>)" by (rule transport_inv_server [OF t, of _ closing pc]) (use Serving in simp)
    ultimately show ?thesis unfolding Serving SrvTail server_step.simps Let_def by (simp only: if_split) blast
  qed
qed (use inv in simp)

section \<open>Steps of the client\<close>

lemma carried_client:
  assumes "carried_ok k t" "tr_sys t' = tr_sys t" "tr_refused t' = tr_refused t"
    and "tr_sent t' + tr_dropped t + submits (client_queue t) + submits (tr_up t) = tr_sent t + tr_dropped t' + submits (client_queue t') + submits (tr_up t')"
    and "\<And>a. in_active (sy_state (tr_sys t)) = Some a \<Longrightarrow> tr_driver t' \<noteq> DrvEnded \<Longrightarrow> \<not> overflowed (mail_of (tr_sys t) a) \<Longrightarrow>
      tr_driver t \<noteq> DrvEnded \<and>
      settled (tr_polled t' @ client_statuses t') + settled (replies (tr_down t')) = settled (tr_polled t @ client_statuses t) + settled (replies (tr_down t))"
  shows "carried_ok k t'"
proof -
  have "settled (tr_polled t' @ client_statuses t') + settled (replies (tr_down t')) = tr_refused t' + settled (sy_polled (tr_sys t'))"
    if "in_active (sy_state (tr_sys t')) = Some a" "tr_driver t' \<noteq> DrvEnded" "\<not> overflowed (mail_of (tr_sys t') a)" for a
  proof -
    note d = assms(5) [OF that(1) [unfolded assms(2)] that(2) that(3) [unfolded assms(2)]]
    have "settled (tr_polled t @ client_statuses t) + settled (replies (tr_down t)) = tr_refused t + settled (sy_polled (tr_sys t))"
      using assms(1,2) that d by (simp add: carried_ok_def)
    then show ?thesis using d assms(2,3) by simp
  qed
  moreover have "tr_sent t = tr_dropped t + submits (client_queue t) + submits (tr_up t) + sy_accepted (tr_sys t) + tr_refused t"
    using assms(1) by (simp add: carried_ok_def)
  ultimately show ?thesis using assms(1-4) by (simp add: carried_ok_def)
qed

text \<open>What has been reported so far fits a 64-bit counter.\<close>

lemma settled_bound:
  assumes inv: "transport_inv t" and srv: "tr_server t = Serving k closing pc" and a: "in_active (sy_state (tr_sys t)) = Some a" "tr_driver t \<noteq> DrvEnded"
    "\<not> overflowed (mail_of (tr_sys t) a)"
  shows "settled (tr_polled t @ client_statuses t) + settled (replies (tr_down t)) < 2 ^ 64"
proof -
  have c: "carried_ok k t" and acc: "account_ok (sy_accepted (tr_sys t)) (sy_polled (tr_sys t)) (sy_state (tr_sys t))"
    using inv srv reachable_session(3) by (auto simp: transport_inv_def)
  have "settled (sy_polled (tr_sys t)) \<le> sy_accepted (tr_sys t)" using acc a by (auto simp: account_ok_def mail_of_def)
  moreover have "tr_sent t < 2 ^ 64"
    using inv u64_bound [of "cl_sequence (the (tr_client t))"] by (cases "tr_client t") (auto simp: transport_inv_def client_inv_def)
  moreover have "settled (tr_polled t @ client_statuses t) + settled (replies (tr_down t)) = tr_refused t + settled (sy_polled (tr_sys t))"
    "sy_accepted (tr_sys t) + tr_refused t \<le> tr_sent t"
    using c a by (auto simp: carried_ok_def)
  ultimately show ?thesis by linarith
qed

text \<open>A step that touches the client only.\<close>

lemma client_step_inv:
  assumes inv: "transport_inv t" and c: "tr_client t = Some c"
    and same: "tr_sys t' = tr_sys t" "tr_server t' = tr_server t" "tr_refused t' = tr_refused t" "tr_up t' = tr_up t" "tr_down t' = tr_down t" "tr_driver t' = tr_driver t"
    and cl: "client_inv t'" "tr_client t' = Some c'"
    and sent: "tr_sent t' + tr_dropped t + submits (cl_queue c) = tr_sent t + tr_dropped t' + submits (cl_queue c')"
    and status: "settled (tr_polled t' @ cl_status c') = settled (tr_polled t @ cl_status c)"
  shows "transport_inv t'"
proof -
  have "carried_ok k t'" if "tr_server t = Serving k closing pc" for k closing pc
  proof -
    have k: "carried_ok k t" using inv that by (auto simp: transport_inv_def)
    show ?thesis by (rule carried_client [OF k same(1,3)]) (use same sent status c cl in \<open>simp_all add: client_queue_def client_statuses_def\<close>)
  qed
  then show ?thesis using inv same cl c by (auto simp: transport_inv_def)
qed

text \<open>The worker ends: what has not arrived does not matter any more.\<close>

lemma driver_end_inv:
  assumes inv: "transport_inv t" and c: "tr_client t = Some c" "tr_driver t \<noteq> DrvEnded"
    and c': "client_ok False c'" "cl_queue c' = cl_queue c" "cl_sequence c' = cl_sequence c"
  shows "transport_inv (driver_end c' (t\<lparr> tr_down := rest \<rparr>))"
proof -
  let ?t = "driver_end c' (t\<lparr> tr_down := rest \<rparr>)"
  have "carried_ok k ?t" if "tr_server t = Serving k closing pc" for k closing pc
  proof -
    have k: "carried_ok k t" using inv that by (auto simp: transport_inv_def)
    show ?thesis
      by (rule carried_client [OF k]) (use c c' in \<open>simp_all add: driver_end_def client_queue_def drive_finish_ok\<close>)
  qed
  moreover have "client_inv ?t" using inv c c' drive_finish_ok [of c'] by (simp add: transport_inv_def client_inv_def driver_end_def)
  moreover have "tr_server t \<noteq> Greeting" using inv c(1) by (auto simp: transport_inv_def)
  ultimately show ?thesis using inv by (simp add: transport_inv_def driver_end_def)
qed

lemma driver_pc_inv:
  assumes inv: "transport_inv t" and c: "tr_client t = Some c" "tr_driver t \<noteq> DrvEnded" "d \<noteq> DrvEnded" and msgs: "submits msgs = 0"
  shows "transport_inv (t\<lparr> tr_up := tr_up t @ msgs, tr_driver := d \<rparr>)"
proof -
  let ?t = "t\<lparr> tr_up := tr_up t @ msgs, tr_driver := d \<rparr>"
  have "carried_ok k ?t" if "tr_server t = Serving k closing pc" for k closing pc
  proof -
    have k: "carried_ok k t" using inv that by (auto simp: transport_inv_def)
    show ?thesis by (rule carried_client [OF k]) (use c msgs in \<open>simp_all add: client_queue_def client_statuses_def\<close>)
  qed
  moreover have "client_inv ?t" using inv c by (simp add: transport_inv_def client_inv_def)
  moreover have "tr_server t \<noteq> Greeting" using inv c(1) by (auto simp: transport_inv_def)
  ultimately show ?thesis using inv by (simp add: transport_inv_def)
qed

lemma driver_receive_inv:
  assumes inv: "transport_inv t" and c: "tr_client t = Some c" and d: "tr_driver t = DrvReceive n"
  shows "transport_inv (driver_step mo (DrvReceive n) c t)"
proof (cases "\<exists>m msg rest. n = Suc m \<and> tr_down t = msg # rest \<and> mo_arrived mo")
  case True
  then obtain m msg rest where g: "n = Suc m" "tr_down t = msg # rest" "mo_arrived mo" by blast
  obtain r c' where dr: "drive_receive msg c = (r, c')" by (metis surj_pair)
  have ok: "client_ok False c" "unat (cl_sequence c) = tr_sent t" using inv c d by (auto simp: transport_inv_def client_inv_def)
  note rc = drive_receive_ok [OF ok(1) dr]
  show ?thesis
  proof (cases "r = Ok False")
    case False
    then have "driver_step mo (DrvReceive n) c t = driver_end c' (t\<lparr> tr_down := rest \<rparr>)"
      using g dr rc by (auto split: outcome.split bool.split)
    then show ?thesis using driver_end_inv [OF inv c _ _ _ _, of c' rest] rc d by simp
  next
    case True
    let ?t = "t\<lparr> tr_down := rest, tr_client := Some c', tr_driver := DrvReceive m \<rparr>"
    have step: "driver_step mo (DrvReceive n) c t = ?t" using g dr True by simp
    have "carried_ok k ?t" if srv: "tr_server t = Serving k closing pc" for k closing pc
    proof -
      have k: "carried_ok k t" using inv srv by (auto simp: transport_inv_def)
      have "settled (tr_polled t @ cl_status c') + settled (replies rest) = settled (tr_polled t @ cl_status c) + settled (replies (msg # rest))"
        if a: "in_active (sy_state (tr_sys t)) = Some a" "\<not> overflowed (mail_of (tr_sys t) a)" for a
      proof -
        have "replies (msg # rest) = replies [msg] @ replies rest" by (simp split: wire.split)
        then have split: "settled (replies (msg # rest)) = settled (replies [msg]) + settled (replies rest)" by (simp only: settled_simps)
        have "settled (tr_polled t @ client_statuses t) + settled (replies (tr_down t)) < 2 ^ 64"
          by (rule settled_bound [OF inv srv a(1) _ a(2)]) (use d in simp)
        then have "settled (cl_status c) + settled (replies [msg]) < 2 ^ 64"
          using c split unfolding g(2) by (simp add: client_statuses_def del: replies_simps)
        then show ?thesis using rc True split by (simp del: replies_simps)
      qed
      then show ?thesis
        by (intro carried_client [OF k]) (use c d g(2) rc in \<open>simp_all add: client_queue_def client_statuses_def del: replies_simps\<close>)
    qed
    moreover have "client_inv ?t" using inv rc ok c by (simp add: transport_inv_def client_inv_def)
    moreover have "tr_server t \<noteq> Greeting" using inv c by (auto simp: transport_inv_def)
    ultimately show ?thesis unfolding step using inv by (simp add: transport_inv_def)
  qed
next
  case False
  then have "driver_step mo (DrvReceive n) c t = t\<lparr> tr_up := tr_up t @ [], tr_driver := DrvTail \<rparr>"
    by (cases n; cases "tr_down t") auto
  moreover have "transport_inv (t\<lparr> tr_up := tr_up t @ [], tr_driver := DrvTail \<rparr>)" by (rule driver_pc_inv [OF inv c]) (simp_all add: d)
  ultimately show ?thesis by (simp only:)
qed

lemma driver_push_inv:
  assumes inv: "transport_inv t" and c: "tr_client t = Some c" and d: "tr_driver t = DrvPush"
  shows "transport_inv (driver_step mo DrvPush c t)"
proof (cases "cl_stop c")
  case True
  have "client_ok False c" using inv c d by (auto simp: transport_inv_def client_inv_def)
  then show ?thesis using True driver_end_inv [OF inv c, of c "tr_down t"] d by simp
next
  case False
  have ok: "client_ok False c" "unat (cl_sequence c) = tr_sent t" using inv c d by (auto simp: transport_inv_def client_inv_def)
  obtain msgs c' where dt: "drive_take (min 32 (mo_room mo)) c = (Ok msgs, c')" "client_ok False c'" "cl_queue c = msgs @ cl_queue c'"
     "cl_status c' = cl_status c" "cl_sequence c' = cl_sequence c" using drive_take_ok [OF ok(1)] by blast
  let ?t = "t\<lparr> tr_client := Some c', tr_up := tr_up t @ msgs, tr_driver := DrvBeat (cl_closing c') \<rparr>"
  have "carried_ok k ?t" if "tr_server t = Serving k closing pc" for k closing pc
  proof -
    have k: "carried_ok k t" using inv that by (auto simp: transport_inv_def)
    show ?thesis by (rule carried_client [OF k]) (use c d dt in \<open>simp_all add: client_queue_def client_statuses_def\<close>)
  qed
  moreover have "client_inv ?t" using inv ok dt c by (simp add: transport_inv_def client_inv_def)
  moreover have "tr_server t \<noteq> Greeting" using inv c by (auto simp: transport_inv_def)
  ultimately show ?thesis using inv False dt(1) by (simp add: transport_inv_def)
qed

lemma driver_step_inv:
  assumes inv: "transport_inv t" and c: "tr_client t = Some c"
  shows "transport_inv (driver_step mo (tr_driver t) c t)"
proof (cases "tr_driver t")
  case DrvPush
  then show ?thesis using driver_push_inv [OF inv c] by (simp only:)
next
  case (DrvBeat closing)
  then show ?thesis
    using driver_pc_inv [OF inv c, of "DrvReceive 32" "[HeartbeatMsg]"] driver_pc_inv [OF inv c, of "DrvReceive 32" "[]"] by (simp add: is_submit_def)
next
  case (DrvReceive n)
  then show ?thesis using driver_receive_inv [OF inv c] by (simp only:)
next
  case DrvTail
  have "client_ok False c" using inv c DrvTail by (auto simp: transport_inv_def client_inv_def)
  then show ?thesis using DrvTail driver_end_inv [OF inv c, of c "tr_down t"] driver_pc_inv [OF inv c, of DrvPush "[]"] by simp
qed (use inv in simp)

lemma transport_step_inv:
  assumes inv: "transport_inv t"
  shows "transport_inv (transport_step e t)"
proof -
  have cl: "client_ok (tr_driver t = DrvEnded) c" "unat (cl_sequence c) = tr_sent t" "tr_server t \<noteq> Greeting" "\<not> tr_panicked t" if "tr_client t = Some c" for c
    using inv that by (auto simp: transport_inv_def client_inv_def)
  show ?thesis
  proof (cases e)
    case SendHello
    then show ?thesis using inv by (auto simp: transport_inv_def carried_ok_def client_queue_def client_statuses_def is_submit_def)
  next
    case TakeWelcome
    show ?thesis
    proof (cases "tr_client t = None \<and> tr_down t \<noteq> [] \<and> tr_driver t \<noteq> DrvEnded")
      case True
      then obtain msg rest where g: "tr_client t = None" "tr_down t = msg # rest" "tr_driver t \<noteq> DrvEnded" by (cases "tr_down t") auto
      have srv: "tr_server t \<noteq> Greeting" using inv g(2) by (auto simp: transport_inv_def)
      have r: "replies (msg # rest) = replies [msg] @ replies rest" by (simp split: wire.split)
      show ?thesis
      proof (cases "client_connect (tr_mode t) msg")
        case (Ok c)
        let ?t = "t\<lparr> tr_down := rest, tr_client := Some c, tr_driver := DrvPush \<rparr>"
        note cc = client_connect_ok [OF Ok]
        have "carried_ok k ?t" if "tr_server t = Serving k closing pc" for k closing pc
        proof -
          have k: "carried_ok k t" using inv that by (auto simp: transport_inv_def)
          show ?thesis
            by (rule carried_client [OF k]) (use g cc r in \<open>simp_all add: client_queue_def client_statuses_def del: replies_simps(3)\<close>)
        qed
        then show ?thesis using inv g srv Ok cc TakeWelcome by (simp add: transport_inv_def client_inv_def)
      next
        case (Err x)
        let ?t = "t\<lparr> tr_down := rest, tr_driver := DrvEnded \<rparr>"
        have "carried_ok k ?t" if "tr_server t = Serving k closing pc" for k closing pc
        proof -
          have k: "carried_ok k t" using inv that by (auto simp: transport_inv_def)
          show ?thesis by (rule carried_client [OF k]) (simp_all add: client_queue_def)
        qed
        then show ?thesis using inv g srv Err TakeWelcome by (simp add: transport_inv_def client_inv_def)
      next
        case Panic
        then show ?thesis by (auto simp: client_connect_def split: wire.splits if_splits outcome.splits)
      qed
    qed (use inv TakeWelcome in \<open>auto split: option.split list.split\<close>)
  next
    case (ClientSend ev)
    show ?thesis
    proof (cases "tr_client t")
      case (Some c)
      obtain r c' where cs: "client_send ev c = (r, c')" by (metis surj_pair)
      note ok = client_send_ok [OF cl(1) [OF Some] cs]
      have np: "r \<noteq> Panic" using cs validate_total by (auto simp: client_send_def Let_def split: if_splits outcome.splits option.splits)
      show ?thesis
        by (rule client_step_inv [OF inv Some, of _ c'])
          (use ClientSend Some cs ok np cl [OF Some] in \<open>auto simp: client_inv_def split: outcome.split\<close>)
    qed (use inv ClientSend in simp)
  next
    case ClientReset
    show ?thesis
    proof (cases "tr_client t")
      case (Some c)
      obtain r c' where cr: "client_reset c = (r, c')" by (metis surj_pair)
      have ok: "client_ok (tr_driver t = DrvEnded) c'" "cl_sequence c' = cl_sequence c" "cl_status c' = cl_status c"
        "r = Ok () \<Longrightarrow> submits (cl_queue c') = 0" "r \<noteq> Ok () \<Longrightarrow> c' = c"
        using cr client_reset_ok [OF cl(1) [OF Some]] by (auto simp: client_reset_def is_submit_def split: if_splits)
      show ?thesis
        by (rule client_step_inv [OF inv Some, of _ c'])
          (use ClientReset Some cr ok cl [OF Some] in \<open>auto simp: client_inv_def split: outcome.split\<close>)
    qed (use inv ClientReset in simp)
  next
    case ClientClose
    show ?thesis
    proof (cases "tr_client t")
      case (Some c)
      show ?thesis
        by (rule client_step_inv [OF inv Some, of _ "client_close c"])
          (use ClientClose Some cl [OF Some] client_close_ok [OF cl(1) [OF Some]] in \<open>auto simp: client_inv_def client_close_def is_submit_def\<close>)
    qed (use inv ClientClose in simp)
  next
    case ClientPoll
    show ?thesis
    proof (cases "tr_client t")
      case (Some c)
      show ?thesis
      proof (cases "cl_status c")
        case (Cons st rest)
        show ?thesis
          by (rule client_step_inv [OF inv Some, of _ "c\<lparr> cl_status := rest \<rparr>"])
            (use ClientPoll Some Cons cl [OF Some] in \<open>auto simp: client_inv_def client_poll_def client_ok_def Let_def\<close>)
      qed (use inv ClientPoll Some in \<open>simp add: client_poll_def\<close>)
    qed (use inv ClientPoll in simp)
  next
    case ClientDrop
    show ?thesis
    proof (cases "tr_client t")
      case (Some c)
      show ?thesis
        by (rule client_step_inv [OF inv Some, of _ "c\<lparr> cl_stop := True \<rparr>"])
          (use ClientDrop Some cl [OF Some] in \<open>auto simp: client_inv_def client_ok_def Let_def\<close>)
    qed (use inv ClientDrop in simp)
  next
    case (DriverStep mo)
    then show ?thesis using inv driver_step_inv [OF inv] by (cases "tr_client t") simp_all
  next
    case DriverFails
    show ?thesis
    proof (cases "tr_client t")
      case (Some c)
      then show ?thesis using inv DriverFails cl [OF Some] driver_end_inv [OF inv Some, of c "tr_down t"] by auto
    qed (use inv DriverFails in simp)
  next
    case (ServerStep mo)
    then show ?thesis using server_step_inv [OF inv] by simp
  next
    case ServerFails
    have "transport_inv (server_end t)" by (rule server_end_inv) (use inv in \<open>auto simp: transport_inv_def carried_ok_def\<close>)
    then show ?thesis using inv ServerFails by simp
  next
    case (Executor act)
    show ?thesis
    proof (cases "executor_action act")
      case True
      have "transport_inv (t\<lparr> tr_sys := input_step act (tr_sys t) \<rparr>)"
        by (rule target_step_inv [OF inv]) (use True in \<open>auto simp: executor_action_def split: input_action.splits option.split outcome.split prod.split\<close>)
      then show ?thesis using Executor True by (simp del: input_step.simps)
    qed (use inv Executor in simp)
  qed
qed

lemma transport_reachable_inv: "transport_reachable t \<Longrightarrow> transport_inv t"
proof (induction rule: transport_reachable.induct)
  case (start y m)
  then show ?case by (simp add: transport_inv_def client_inv_def transport_init_def)
qed (rule transport_step_inv)

section \<open>Property\<close>


definition sample_moment :: moment where
  "sample_moment = \<lparr> mo_now = 0, mo_arrived = True, mo_due = False, mo_quiet = False, mo_room = 32 \<rparr>"

definition sample_welcome :: input_welcome where
  "sample_welcome = \<lparr> wc_mode = Cooperative, wc_version = 2, wc_controller = 1, wc_epoch = 1, wc_config = tiny_config \<rparr>"

definition sample_client :: client_state where
  "sample_client = \<lparr> cl_welcome = sample_welcome, cl_sequence = 0, cl_queue = [], cl_bytes = 0, cl_status = [], cl_alive = True, cl_closing = False,
     cl_resetting = False, cl_stop = False \<rparr>"

definition sample_connection :: transport where
  "sample_connection = fold transport_step [SendHello, ServerStep sample_moment, TakeWelcome] (transport_init (input_init (tiny_state 0 None [])) Cooperative)"

lemma sample_connected:
  "sample_connection = (transport_init (tiny_sys 0 [] 0) Cooperative)\<lparr> tr_server := Serving 0 False SrvTick, tr_client := Some sample_client \<rparr>"
proof -
  let ?y = "input_init (tiny_state 0 None [])"
  have admit: "fst (target_admit 0 Cooperative (tiny_state 0 None [])) = Ok \<lparr> co_id = 1, co_mode = Cooperative \<rparr>"
    "in_config (snd (target_admit 0 Cooperative (tiny_state 0 None []))) = tiny_config"
    by (simp_all add: target_admit_def tiny_state_def tiny_config_def config_default_def checked_add_def)
  have hello: "serve_hello 0 (HelloMsg INPUT_VERSION Cooperative) ?y = (Ok 0, [WelcomeMsg sample_welcome], tiny_sys 0 [] 0)"
    using admit tiny_admit
    by (cases "target_admit 0 Cooperative (tiny_state 0 None [])")
      (simp add: serve_hello_def input_init_def sample_welcome_def INPUT_VERSION_def del: input_step.simps)
  have offer: "client_connect Cooperative (WelcomeMsg sample_welcome) = Ok sample_client"
    by (simp add: client_connect_def sample_welcome_def sample_client_def tiny_new INPUT_VERSION_def)
  show ?thesis using hello offer by (simp add: sample_connection_def transport_init_def sample_moment_def Let_def)
qed

definition sample_transport :: transport where
  "sample_transport = fold transport_step
     [ClientSend (TextEvent [65]), DriverStep sample_moment, ServerStep sample_moment, ServerStep sample_moment] sample_connection"

lemma sample_transport_state:
  "\<exists>c. tr_client sample_transport = Some c \<and> cl_sequence c = 1 \<and> cl_queue c = [] \<and> tr_driver sample_transport = DrvBeat False \<and>
     tr_server sample_transport = Serving 0 False (SrvReceive 31) \<and> tr_sent sample_transport = 1 \<and>
     in_active (sy_state (tr_sys sample_transport)) = Some (tiny_active 1) \<and> in_queue (sy_state (tr_sys sample_transport)) = [tiny_work 1] \<and>
     sy_polled (tr_sys sample_transport) = [] \<and> in_mail (sy_state (tr_sys sample_transport)) 1 = []"
proof -
  let ?sub = "SubmitMsg 1 1 (TextEvent [65])"
  have send: "client_send (TextEvent [65]) sample_client = (Ok 1, sample_client\<lparr> cl_sequence := 1, cl_bytes := 113, cl_queue := [?sub] \<rparr>)"
    by (simp add: client_send_def sample_client_def sample_welcome_def tiny_config_def config_default_def capable_def cap_consts checked_add_def)
  have take: "drive_take 32 (sample_client\<lparr> cl_sequence := 1, cl_bytes := 113, cl_queue := [?sub] \<rparr>) = (Ok [?sub], sample_client\<lparr> cl_sequence := 1, cl_bytes := 0, cl_queue := [] \<rparr>)"
    by (simp add: eval_nat_numeral)
  have tick: "input_step (Tick 0) (tiny_sys 0 [] 0) = tiny_sys 0 [] 0" by (simp add: tiny_defs)
  have sub: "fst (submit 0 (sy_handles (tiny_sys 0 [] 0) ! 0) 1 1 (TextEvent [65]) (sy_state (tiny_sys 0 [] 0))) = Ok ()"
    by (simp add: tiny_defs submit_def enqueue_def owner_def cleaning_def capable_def cap_consts queued_events_def queued_bytes_def Let_def)
  have msg: "serve_message 0 0 ?sub (tiny_sys 0 [] 0) = (Ok (), [], (tiny_sys 0 [] 1)\<lparr> sy_state := (tiny_state 1 (Some (tiny_active 1)) [])\<lparr> in_queue := [tiny_work 1] \<rparr> \<rparr>)"
    using sub tiny_submit [of 0 "[]" 0] by (simp add: serve_message_def del: input_step.simps)
  show ?thesis
    unfolding sample_transport_def sample_connected
    using send take tick msg
    by (simp add: transport_init_def sample_moment_def sample_client_def tiny_sys_def tiny_state_def Let_def del: input_step.simps drive_take.simps)
qed


end
