(* ===== verification/Byte_Memory.thy ===== *)
theory Byte_Memory
  imports Jackstay_Prelude
begin

text \<open>
  Memory as bytes: the little-endian representation of machine words and the bounds-checked
  accesses of a shared-memory segment (\<open>SharedMemorySegment\<close> of \<open>shm.rs\<close>).  A segment is the
  list of its bytes and whether this mapping may write; the assertions of the source are panics.
  Creating, mapping and sealing the backing object is the operating system's.
\<close>

section \<open>Little-endian words\<close>

definition to_le :: "nat \<Rightarrow> 'a::len word \<Rightarrow> bytes" where
  "to_le n x = map (\<lambda>i. ucast (drop_bit (8 * i) x)) [0..<n]"

primrec from_le :: "bytes \<Rightarrow> 'a::len word" where
  "from_le [] = 0"
| "from_le (b # bs) = ucast b OR push_bit 8 (from_le bs)"

lemma length_to_le [simp]: "length (to_le n x) = n"
  by (simp add: to_le_def)

lemma bit_from_le:
  "i < LENGTH('a) \<Longrightarrow> bit (from_le bs :: 'a::len word) i \<longleftrightarrow> i div 8 < length bs \<and> bit (bs ! (i div 8)) (i mod 8)"
proof (induction bs arbitrary: i)
  case (Cons b bs)
  show ?case
  proof (cases "i < 8")
    case True
    then show ?thesis using Cons.prems by (auto simp: bit_simps)
  next
    case False
    have "i div 8 = Suc ((i - 8) div 8)" "i mod 8 = (i - 8) mod 8" using False by (simp_all add: le_div_geq le_mod_geq)
    then show ?thesis
      using False Cons.prems Cons.IH [of "i - 8"] bit_imp_le_length [of b i] by (auto simp: bit_simps)
  qed
qed simp

lemma from_to_le: "LENGTH('a) \<le> 8 * n \<Longrightarrow> from_le (to_le n (x :: 'a::len word)) = x"
  by (rule bit_word_eqI) (auto simp: bit_from_le to_le_def bit_simps nth_append less_mult_imp_div_less mult.commute)

lemma to_from_le:
  assumes "length bs = n" "8 * n \<le> LENGTH('a)"
  shows "to_le n (from_le bs :: 'a::len word) = bs"
proof (rule nth_equalityI)
  fix i
  assume i: "i < length (to_le n (from_le bs :: 'a word))"
  show "to_le n (from_le bs :: 'a word) ! i = bs ! i"
  proof (rule bit_word_eqI)
    fix j
    assume "j < LENGTH(8)"
    then show "bit (to_le n (from_le bs :: 'a word) ! i) j = bit (bs ! i) j"
      using i assms by (simp add: to_le_def bit_simps bit_from_le)
  qed
qed (use assms in simp)

abbreviation le32 :: "u32 \<Rightarrow> bytes" where "le32 \<equiv> to_le 4"
abbreviation le64 :: "u64 \<Rightarrow> bytes" where "le64 \<equiv> to_le 8"

lemma from_le32 [simp]: "from_le (le32 x) = x" and from_le64 [simp]: "from_le (le64 y) = y"
  by (simp_all add: from_to_le)

section \<open>Shared-memory segments\<close>

record segment =
  sg_bytes :: bytes
  sg_writable :: bool

definition segment_new :: "nat \<Rightarrow> segment option" where
  "segment_new n = (if n = 0 then None else Some \<lparr> sg_bytes = replicate n 0, sg_writable = True \<rparr>)"

definition segment_len :: "segment \<Rightarrow> nat" where
  "segment_len s = length (sg_bytes s)"

definition in_segment :: "segment \<Rightarrow> nat \<Rightarrow> nat \<Rightarrow> bool" where
  "in_segment s offset n \<longleftrightarrow> offset \<le> segment_len s \<and> n \<le> segment_len s - offset"

definition slice_at :: "nat \<Rightarrow> nat \<Rightarrow> segment \<Rightarrow> (bytes, 'e) outcome" where
  "slice_at offset n s = (if in_segment s offset n then Ok (take n (drop offset (sg_bytes s))) else Panic)"

definition put_bytes :: "nat \<Rightarrow> bytes \<Rightarrow> bytes \<Rightarrow> bytes" where
  "put_bytes offset bs mem = take offset mem @ bs @ drop (offset + length bs) mem"

definition get_bytes :: "nat \<Rightarrow> nat \<Rightarrow> bytes \<Rightarrow> bytes" where
  "get_bytes offset n mem = take n (drop offset mem)"

definition segment_write_at :: "nat \<Rightarrow> bytes \<Rightarrow> segment \<Rightarrow> (segment, 'e) outcome" where
  "segment_write_at offset bs s =
     (if sg_writable s \<and> in_segment s offset (length bs)
      then Ok (s\<lparr> sg_bytes := put_bytes offset bs (sg_bytes s) \<rparr>) else Panic)"

lemma length_put [simp]: "offset + length bs \<le> length mem \<Longrightarrow> length (put_bytes offset bs mem) = length mem"
  by (simp add: put_bytes_def)

lemma length_get [simp]: "offset + n \<le> length mem \<Longrightarrow> length (get_bytes offset n mem) = n"
  by (simp add: get_bytes_def)

lemma nth_put:
  "offset + length bs \<le> length mem \<Longrightarrow> i < length mem \<Longrightarrow>
     put_bytes offset bs mem ! i = (if offset \<le> i \<and> i < offset + length bs then bs ! (i - offset) else mem ! i)"
  by (auto simp: put_bytes_def nth_append min_def add.commute)

lemma nth_get: "i < n \<Longrightarrow> offset + n \<le> length mem \<Longrightarrow> get_bytes offset n mem ! i = mem ! (offset + i)"
  by (simp add: get_bytes_def)

lemma get_put_within:
  assumes "offset + length bs \<le> length mem" "offset \<le> o'" "o' + n \<le> offset + length bs"
  shows "get_bytes o' n (put_bytes offset bs mem) = get_bytes (o' - offset) n bs"
  by (rule nth_equalityI) (use assms in \<open>auto simp: nth_get nth_put\<close>)

lemma get_all [simp]: "get_bytes 0 (length bs) bs = bs"
  by (simp add: get_bytes_def)

lemma get_put_same:
  "offset + length bs \<le> length mem \<Longrightarrow> n = length bs \<Longrightarrow> get_bytes offset n (put_bytes offset bs mem) = bs"
  by (simp add: get_put_within)

lemma get_put_other:
  assumes "offset + length bs \<le> length mem" "o' + n \<le> offset \<or> offset + length bs \<le> o'" "o' + n \<le> length mem"
  shows "get_bytes o' n (put_bytes offset bs mem) = get_bytes o' n mem"
  by (rule nth_equalityI) (use assms in \<open>auto simp: nth_get nth_put\<close>)

lemma slice_at_get: "offset + n \<le> segment_len s \<Longrightarrow> slice_at offset n s = Ok (get_bytes offset n (sg_bytes s))"
  by (simp add: slice_at_def in_segment_def get_bytes_def)

lemma segment_write_put:
  "sg_writable s \<Longrightarrow> offset + length bs \<le> segment_len s \<Longrightarrow>
     segment_write_at offset bs s = Ok (s\<lparr> sg_bytes := put_bytes offset bs (sg_bytes s) \<rparr>)"
  by (simp add: segment_write_at_def in_segment_def)

lemma slice_at_panic: "segment_len s < offset + n \<Longrightarrow> slice_at offset n s = Panic"
  by (auto simp: slice_at_def in_segment_def)

lemma get_bytes_append:
  "get_bytes offset (n + m) mem = get_bytes offset n mem @ get_bytes (offset + n) m mem"
  unfolding get_bytes_def take_add drop_drop by (simp add: add.commute)

end
