(* ===== verification/Seqlock.thy ===== *)
theory Seqlock
  imports Byte_Memory
begin

text \<open>
  The seqlock discipline that \<open>control_page.rs\<close> uses twice, for the ring of frame slots and for the
  ring of stream configurations, as single accesses to shared memory: a writer that invalidates an
  element, copies its descriptor byte by byte in any order, stores its version and then the header
  cursor, and readers that load the version, copy the descriptor byte by byte and load the version
  again.  The accesses of the writer and of the readers interleave freely (in program order each, as
  the fences of the source demand); a ghost history records what the writer publishes.
\<close>

section \<open>The writer\<close>

datatype stage = Ready | Filling bytes "nat list" | Filled

record ring =
  rg_cursor :: u64
  rg_seq :: "nat \<Rightarrow> u64"
  rg_body :: "nat \<Rightarrow> bytes"
  rg_stage :: stage
  rg_hist :: "bytes list"

definition ring_init :: "nat \<Rightarrow> ring" where
  "ring_init sz = \<lparr> rg_cursor = 0, rg_seq = (\<lambda>_. 0), rg_body = (\<lambda>_. replicate sz 0), rg_stage = Ready, rg_hist = [] \<rparr>"

definition ring_begin :: "(u64 \<Rightarrow> nat) \<Rightarrow> bytes \<Rightarrow> ring \<Rightarrow> ring" where
  "ring_begin ix bs r = r\<lparr> rg_seq := (rg_seq r)(ix (rg_cursor r + 1) := 0), rg_stage := Filling bs [0..<length bs],
     rg_hist := rg_hist r @ [bs] \<rparr>"

definition ring_copy :: "(u64 \<Rightarrow> nat) \<Rightarrow> nat \<Rightarrow> ring \<Rightarrow> ring" where
  "ring_copy ix k r =
     (case rg_stage r of
        Filling bs ks \<Rightarrow>
          if k \<in> set ks
          then let i = ix (rg_cursor r + 1) in
            r\<lparr> rg_body := (rg_body r)(i := (rg_body r i)[k := bs ! k]), rg_stage := Filling bs (removeAll k ks) \<rparr>
          else r
      | _ \<Rightarrow> r)"

definition ring_commit :: "(u64 \<Rightarrow> nat) \<Rightarrow> ring \<Rightarrow> ring" where
  "ring_commit ix r =
     (case rg_stage r of
        Filling bs [] \<Rightarrow> r\<lparr> rg_seq := (rg_seq r)(ix (rg_cursor r + 1) := rg_cursor r + 1), rg_stage := Filled \<rparr>
      | _ \<Rightarrow> r)"

definition ring_advance :: "ring \<Rightarrow> ring" where
  "ring_advance r = (if rg_stage r = Filled then r\<lparr> rg_cursor := rg_cursor r + 1, rg_stage := Ready \<rparr> else r)"

text \<open>The next access of a publication; \<open>k\<close> is the byte that the copy takes next.\<close>

definition ring_access :: "(u64 \<Rightarrow> nat) \<Rightarrow> bytes \<Rightarrow> nat \<Rightarrow> ring \<Rightarrow> ring" where
  "ring_access ix bs k r =
     (case rg_stage r of
        Ready \<Rightarrow> ring_begin ix bs r
      | Filling _ [] \<Rightarrow> ring_commit ix r
      | Filling _ _ \<Rightarrow> ring_copy ix k r
      | Filled \<Rightarrow> ring_advance r)"

section \<open>A reader\<close>

text \<open>What a reader holds between its two loads of the version: the version it expects, the one it
  loaded first, and the bytes copied so far.\<close>

datatype lap = Lap (lap_expected: u64) (lap_first: u64) (lap_got: "u8 option list")

definition read_first :: "(u64 \<Rightarrow> nat) \<Rightarrow> nat \<Rightarrow> ring \<Rightarrow> u64 \<Rightarrow> lap" where
  "read_first ix sz r c = Lap c (rg_seq r (ix c)) (replicate sz None)"

definition read_byte :: "(u64 \<Rightarrow> nat) \<Rightarrow> ring \<Rightarrow> nat \<Rightarrow> lap \<Rightarrow> lap" where
  "read_byte ix r k l = Lap (lap_expected l) (lap_first l) ((lap_got l)[k := Some (rg_body r (ix (lap_expected l)) ! k)])"

definition lap_complete :: "lap \<Rightarrow> bool" where
  "lap_complete l \<longleftrightarrow> None \<notin> set (lap_got l)"

definition lap_bytes :: "lap \<Rightarrow> bytes" where
  "lap_bytes l = map the (lap_got l)"

definition read_second :: "(u64 \<Rightarrow> nat) \<Rightarrow> ring \<Rightarrow> lap \<Rightarrow> (bytes, u64 \<times> u64) outcome" where
  "read_second ix r l =
     (let c = lap_expected l; second = rg_seq r (ix c) in
      if lap_first l \<noteq> c \<or> second \<noteq> c then Err (lap_first l, second) else Ok (lap_bytes l))"

section \<open>The invariant\<close>

definition begun :: "ring \<Rightarrow> u64 \<Rightarrow> bool" where
  "begun r c \<longleftrightarrow> c \<noteq> 0 \<and> unat c \<le> length (rg_hist r)"

text \<open>A version is dead once a later publication has begun in its place.\<close>

definition dead :: "(u64 \<Rightarrow> nat) \<Rightarrow> ring \<Rightarrow> u64 \<Rightarrow> bool" where
  "dead ix r c \<longleftrightarrow> (\<exists>d. c < d \<and> begun r d \<and> ix d = ix c)"

definition published :: "ring \<Rightarrow> u64 \<Rightarrow> bytes" where
  "published r c = rg_hist r ! (unat c - 1)"

definition ring_inv :: "(u64 \<Rightarrow> nat) \<Rightarrow> nat \<Rightarrow> ring \<Rightarrow> bool" where
  "ring_inv ix sz r \<longleftrightarrow>
     length (rg_hist r) < 2 ^ 64 \<and> (\<forall>i. length (rg_body r i) = sz) \<and> (\<forall>b\<in>set (rg_hist r). length b = sz) \<and>
     rg_cursor r = of_nat (length (rg_hist r) - (if rg_stage r = Ready then 0 else 1)) \<and>
     (rg_stage r \<noteq> Ready \<longrightarrow> rg_hist r \<noteq> []) \<and>
     (\<forall>bs ks. rg_stage r = Filling bs ks \<longrightarrow> bs = last (rg_hist r) \<and> rg_seq r (ix (rg_cursor r + 1)) = 0 \<and>
        (\<forall>k < sz. k \<notin> set ks \<longrightarrow> rg_body r (ix (rg_cursor r + 1)) ! k = bs ! k)) \<and>
     (\<forall>i. rg_seq r i \<noteq> 0 \<longrightarrow> ix (rg_seq r i) = i \<and> begun r (rg_seq r i) \<and> \<not> dead ix r (rg_seq r i) \<and>
        rg_body r i = published r (rg_seq r i))"

definition lap_ok :: "(u64 \<Rightarrow> nat) \<Rightarrow> nat \<Rightarrow> ring \<Rightarrow> lap \<Rightarrow> bool" where
  "lap_ok ix sz r l \<longleftrightarrow> length (lap_got l) = sz \<and>
     (let c = lap_expected l in c \<noteq> 0 \<longrightarrow> lap_first l = c \<longrightarrow> begun r c \<and>
        (dead ix r c \<or> rg_seq r (ix c) = c \<and> (\<forall>k < sz. lap_got l ! k \<in> {None, Some (published r c ! k)})))"

lemma ring_invD:
  assumes "ring_inv ix sz r"
  shows "length (rg_hist r) < 2 ^ 64" "length (rg_body r i) = sz" "b \<in> set (rg_hist r) \<Longrightarrow> length b = sz"
    "rg_cursor r = of_nat (length (rg_hist r) - (if rg_stage r = Ready then 0 else 1))" "rg_stage r \<noteq> Ready \<Longrightarrow> rg_hist r \<noteq> []"
    "rg_stage r = Filling bs ks \<Longrightarrow> bs = last (rg_hist r)" "rg_stage r = Filling bs ks \<Longrightarrow> rg_seq r (ix (rg_cursor r + 1)) = 0"
    "rg_stage r = Filling bs ks \<Longrightarrow> k < sz \<Longrightarrow> k \<notin> set ks \<Longrightarrow> rg_body r (ix (rg_cursor r + 1)) ! k = bs ! k"
    "rg_seq r i \<noteq> 0 \<Longrightarrow> ix (rg_seq r i) = i \<and> begun r (rg_seq r i) \<and> \<not> dead ix r (rg_seq r i) \<and> rg_body r i = published r (rg_seq r i)"
  using assms unfolding ring_inv_def by blast+

lemma ring_invI:
  assumes "length (rg_hist r) < 2 ^ 64" "\<And>i. length (rg_body r i) = sz" "\<And>b. b \<in> set (rg_hist r) \<Longrightarrow> length b = sz"
    "rg_cursor r = of_nat (length (rg_hist r) - (if rg_stage r = Ready then 0 else 1))" "rg_stage r \<noteq> Ready \<Longrightarrow> rg_hist r \<noteq> []"
    "\<And>bs ks. rg_stage r = Filling bs ks \<Longrightarrow> bs = last (rg_hist r) \<and> rg_seq r (ix (rg_cursor r + 1)) = 0"
    "\<And>bs ks k. rg_stage r = Filling bs ks \<Longrightarrow> k < sz \<Longrightarrow> k \<notin> set ks \<Longrightarrow> rg_body r (ix (rg_cursor r + 1)) ! k = bs ! k"
    "\<And>i. rg_seq r i \<noteq> 0 \<Longrightarrow> ix (rg_seq r i) = i \<and> begun r (rg_seq r i) \<and> \<not> dead ix r (rg_seq r i) \<and> rg_body r i = published r (rg_seq r i)"
  shows "ring_inv ix sz r"
  using assms unfolding ring_inv_def by blast

lemma of_nat_pred: "0 < n \<Longrightarrow> (of_nat (n - 1) :: u64) + 1 = of_nat n"
  by (cases n) simp_all

lemma ring_next:
  assumes "ring_inv ix sz r" "rg_stage r \<noteq> Ready"
  shows "unat (rg_cursor r + 1) = length (rg_hist r)" "begun r (rg_cursor r + 1)"
    "published r (rg_cursor r + 1) = last (rg_hist r)"
proof -
  let ?n = "length (rg_hist r)"
  have n: "?n < 2 ^ 64" "0 < ?n" "rg_cursor r = of_nat (?n - 1)" using assms ring_invD [OF assms(1)] by simp_all
  have "rg_cursor r + 1 = of_nat ?n" using of_nat_pred [OF n(2)] n(3) by simp
  then show u: "unat (rg_cursor r + 1) = ?n" using n(1) by (simp add: unat_of_nat)
  then show "begun r (rg_cursor r + 1)" using n(2) by (auto simp: begun_def)
  show "published r (rg_cursor r + 1) = last (rg_hist r)" using n(2) u by (simp add: published_def last_conv_nth)
qed

lemma ring_inv_init: "ring_inv ix sz (ring_init sz)"
  by (simp add: ring_inv_def ring_init_def)

text \<open>What every step of the writer keeps: the history grows at the end, so that published bytes are
  final and the dead stay dead.\<close>

definition grows :: "ring \<Rightarrow> ring \<Rightarrow> bool" where
  "grows r r' \<longleftrightarrow> (\<exists>l. rg_hist r' = rg_hist r @ l)"

lemma grows_begun: "grows r r' \<Longrightarrow> begun r c \<Longrightarrow> begun r' c"
  by (auto simp: grows_def begun_def)

lemma grows_dead: "grows r r' \<Longrightarrow> dead ix r c \<Longrightarrow> dead ix r' c"
  using grows_begun by (auto simp: dead_def)

lemma grows_published: "grows r r' \<Longrightarrow> begun r c \<Longrightarrow> published r' c = published r c"
  by (auto simp: grows_def begun_def published_def nth_append unat_gt_0 [symmetric])

section \<open>The writer keeps the invariant\<close>

lemma ring_begin_inv:
  assumes inv: "ring_inv ix sz r" and st: "rg_stage r = Ready" and b: "length bs = sz" and room: "length (rg_hist r) + 1 < 2 ^ 64"
  shows "ring_inv ix sz (ring_begin ix bs r)"
proof -
  let ?r = "ring_begin ix bs r" and ?c = "rg_cursor r + 1" and ?n = "length (rg_hist r)"
  have c: "?c = of_nat (?n + 1)" using ring_invD(4) [OF inv] st by simp
  have u: "unat ?c = ?n + 1" unfolding c using room by (simp only: unat_of_nat) simp
  have gr: "grows r ?r" by (simp add: grows_def ring_begin_def)
  have elem: "ix (rg_seq ?r i) = i \<and> begun ?r (rg_seq ?r i) \<and> \<not> dead ix ?r (rg_seq ?r i) \<and> rg_body ?r i = published ?r (rg_seq ?r i)"
    if nz: "rg_seq ?r i \<noteq> 0" for i
  proof -
    have i: "i \<noteq> ix ?c" and s: "rg_seq ?r i = rg_seq r i" using nz by (auto simp: ring_begin_def split: if_splits)
    have old: "ix (rg_seq r i) = i" "begun r (rg_seq r i)" "\<not> dead ix r (rg_seq r i)" "rg_body r i = published r (rg_seq r i)"
      using ring_invD(9) [OF inv, of i] nz s by auto
    have "\<not> dead ix ?r (rg_seq r i)"
    proof
      assume "dead ix ?r (rg_seq r i)"
      then obtain d where d: "rg_seq r i < d" "begun ?r d" "ix d = i" using old(1) by (auto simp: dead_def)
      have "\<not> begun r d" using d old(1,3) by (auto simp: dead_def)
      then have "unat d = ?n + 1" using d(2) by (auto simp: begun_def ring_begin_def)
      then have "d = ?c" using u by (metis word_unat_eq_iff)
      then show False using d(3) i by simp
    qed
    then show ?thesis
      using old s grows_begun [OF gr old(2)] grows_published [OF gr old(2)] by (simp add: ring_begin_def)
  qed
  show ?thesis
    by (rule ring_invI) (use elem ring_invD [OF inv] st b room in \<open>auto simp: ring_begin_def\<close>)
qed

lemma ring_copy_inv:
  assumes inv: "ring_inv ix sz r"
  shows "ring_inv ix sz (ring_copy ix k r)"
proof (cases "\<exists>bs ks. rg_stage r = Filling bs ks \<and> k \<in> set ks")
  case True
  then obtain bs ks where st: "rg_stage r = Filling bs ks" "k \<in> set ks" by blast
  let ?r = "ring_copy ix k r" and ?i = "ix (rg_cursor r + 1)"
  have r: "?r = r\<lparr> rg_body := (rg_body r)(?i := (rg_body r ?i)[k := bs ! k]), rg_stage := Filling bs (removeAll k ks) \<rparr>"
    using st by (simp add: ring_copy_def Let_def)
  have same: "begun ?r = begun r" "dead ix ?r = dead ix r" "published ?r = published r"
    by (auto simp: fun_eq_iff begun_def dead_def published_def r)
  have w: "(rg_body r ?i)[k := bs ! k] ! j = bs ! j" if "j < sz" "j \<notin> set ks - {k}" for j
    using ring_invD(2,8) [OF inv] st(1) that by (cases "j = k") (simp_all add: nth_list_update)
  have elem: "rg_seq r i \<noteq> 0 \<Longrightarrow> i \<noteq> ?i" for i using ring_invD(7) [OF inv st(1)] by auto
  show ?thesis
    by (rule ring_invI, unfold same)
      (use ring_invD [OF inv] st w elem in \<open>simp_all add: r split: if_splits\<close>)
next
  case False
  then have "ring_copy ix k r = r" by (auto simp: ring_copy_def split: stage.split)
  then show ?thesis using inv by simp
qed

lemma ring_commit_inv:
  assumes inv: "ring_inv ix sz r"
  shows "ring_inv ix sz (ring_commit ix r)"
proof (cases "\<exists>bs. rg_stage r = Filling bs []")
  case True
  then obtain bs where st: "rg_stage r = Filling bs []" by blast
  let ?r = "ring_commit ix r" and ?c = "rg_cursor r + 1"
  have r: "?r = r\<lparr> rg_seq := (rg_seq r)(ix ?c := ?c), rg_stage := Filled \<rparr>" using st by (simp add: ring_commit_def)
  have same: "begun ?r = begun r" "dead ix ?r = dead ix r" "published ?r = published r"
    by (auto simp: fun_eq_iff begun_def dead_def published_def r)
  have nx: "unat ?c = length (rg_hist r)" "begun r ?c" "published r ?c = last (rg_hist r)" using ring_next [OF inv] st by simp_all
  have "rg_body r (ix ?c) = last (rg_hist r)"
  proof (rule nth_equalityI)
    have "last (rg_hist r) \<in> set (rg_hist r)" using ring_invD(5) [OF inv] st by simp
    then show "length (rg_body r (ix ?c)) = length (last (rg_hist r))" using ring_invD(2,3) [OF inv] by simp
    show "rg_body r (ix ?c) ! j = last (rg_hist r) ! j" if "j < length (rg_body r (ix ?c))" for j
      using ring_invD(6,8) [OF inv st] ring_invD(2) [OF inv] that by simp
  qed
  moreover have "\<not> dead ix r ?c" using nx(1) by (auto simp: dead_def begun_def word_less_nat_alt)
  ultimately show ?thesis
    by (intro ring_invI, unfold same)
      (use ring_invD [OF inv] st nx in \<open>simp_all add: r split: if_splits\<close>)
next
  case False
  then have "ring_commit ix r = r" by (auto simp: ring_commit_def split: stage.split list.split)
  then show ?thesis using inv by simp
qed

lemma ring_advance_inv:
  assumes inv: "ring_inv ix sz r"
  shows "ring_inv ix sz (ring_advance r)"
proof (cases "rg_stage r = Filled")
  case True
  let ?r = "ring_advance r"
  have r: "?r = r\<lparr> rg_cursor := rg_cursor r + 1, rg_stage := Ready \<rparr>" using True by (simp add: ring_advance_def)
  have same: "begun ?r = begun r" "dead ix ?r = dead ix r" "published ?r = published r"
    by (auto simp: fun_eq_iff begun_def dead_def published_def r)
  have c: "rg_cursor r + 1 = of_nat (length (rg_hist r))"
    using of_nat_pred [of "length (rg_hist r)"] ring_invD(4,5) [OF inv] True by simp
  show ?thesis by (intro ring_invI, unfold same) (use ring_invD [OF inv] c in \<open>simp_all add: r\<close>)
qed (use inv in \<open>simp add: ring_advance_def\<close>)

section \<open>Readers are never misled\<close>

text \<open>A step of the writer, as far as a reader can tell.\<close>

definition moves :: "(u64 \<Rightarrow> nat) \<Rightarrow> ring \<Rightarrow> ring \<Rightarrow> bool" where
  "moves ix r r' \<longleftrightarrow> grows r r' \<and>
     (\<forall>c. begun r c \<longrightarrow> rg_seq r (ix c) = c \<longrightarrow> rg_seq r' (ix c) = c \<or> dead ix r' c)"

lemma ring_begin_moves:
  assumes inv: "ring_inv ix sz r" and st: "rg_stage r = Ready" and room: "length (rg_hist r) + 1 < 2 ^ 64"
  shows "moves ix r (ring_begin ix bs r)"
proof -
  let ?c = "rg_cursor r + 1" and ?n = "length (rg_hist r)"
  have "?c = of_nat (?n + 1)" using ring_invD(4) [OF inv] st by simp
  then have u: "unat ?c = ?n + 1" using room by (simp only: unat_of_nat) simp
  have nz: "?c \<noteq> 0" using u by (metis Suc_eq_plus1 nat.distinct(1) unat_0)
  have "dead ix (ring_begin ix bs r) c" if "begun r c" "ix c = ix ?c" for c
    unfolding dead_def using that u nz
    by (intro exI [of _ ?c]) (auto simp: begun_def ring_begin_def word_less_nat_alt)
  then show ?thesis by (auto simp: moves_def grows_def ring_begin_def)
qed

lemma ring_moves:
  assumes inv: "ring_inv ix sz r"
  shows "moves ix r (ring_copy ix k r)" "moves ix r (ring_commit ix r)" "moves ix r (ring_advance r)"
proof -
  show "moves ix r (ring_copy ix k r)"
    by (auto simp: moves_def grows_def ring_copy_def Let_def split: stage.split)
  show "moves ix r (ring_advance r)" by (auto simp: moves_def grows_def ring_advance_def)
  have "rg_seq r (ix (rg_cursor r + 1)) = 0" if "rg_stage r = Filling bs []" for bs by (rule ring_invD(7) [OF inv that])
  then show "moves ix r (ring_commit ix r)"
    by (fastforce simp: moves_def grows_def ring_commit_def begun_def split: stage.split list.split)
qed

lemma lap_ok_moves:
  assumes l: "lap_ok ix sz r l" and m: "moves ix r r'"
  shows "lap_ok ix sz r' l"
proof -
  have gr: "grows r r'" using m by (simp add: moves_def)
  have "begun r' c \<and> (dead ix r' c \<or> rg_seq r' (ix c) = c \<and> (\<forall>k < sz. lap_got l ! k \<in> {None, Some (published r' c ! k)}))"
    if c: "c = lap_expected l" "c \<noteq> 0" "lap_first l = c" for c
  proof -
    have b: "begun r c" and d: "dead ix r c \<or> rg_seq r (ix c) = c \<and> (\<forall>k < sz. lap_got l ! k \<in> {None, Some (published r c ! k)})"
      using l c by (auto simp: lap_ok_def Let_def)
    show ?thesis
      using d grows_begun [OF gr b] grows_dead [OF gr] grows_published [OF gr b] m b by (auto simp: moves_def)
  qed
  then show ?thesis using l by (auto simp: lap_ok_def Let_def)
qed

lemma read_first_ok: "ring_inv ix sz r \<Longrightarrow> lap_ok ix sz r (read_first ix sz r c)"
  using ring_invD(9) [of ix sz r "ix c"] by (auto simp: lap_ok_def read_first_def Let_def)

lemma read_byte_ok:
  assumes inv: "ring_inv ix sz r" and l: "lap_ok ix sz r l"
  shows "lap_ok ix sz r (read_byte ix r k l)"
proof -
  let ?c = "lap_expected l" and ?got = "lap_got (read_byte ix r k l)"
  have len: "length (lap_got l) = sz" using l by (simp add: lap_ok_def)
  have "dead ix r ?c \<or> (\<forall>j < sz. ?got ! j \<in> {None, Some (published r ?c ! j)})" if c: "?c \<noteq> 0" "lap_first l = ?c"
  proof (cases "dead ix r ?c")
    case False
    then have s: "rg_seq r (ix ?c) = ?c" and got: "\<forall>j < sz. lap_got l ! j \<in> {None, Some (published r ?c ! j)}"
      using l c by (simp_all add: lap_ok_def Let_def)
    have "rg_body r (ix ?c) = published r ?c" using ring_invD(9) [OF inv, of "ix ?c"] s c(1) by simp
    then have "?got ! j \<in> {None, Some (published r ?c ! j)}" if "j < sz" for j
      using got that len by (cases "j = k") (simp_all add: read_byte_def)
    then show ?thesis by blast
  qed simp
  then show ?thesis
    using l len unfolding lap_ok_def Let_def by (auto simp: read_byte_def)
qed

text \<open>A read that validates is the descriptor published under the version.\<close>

lemma read_second_published:
  assumes inv: "ring_inv ix sz r" and l: "lap_ok ix sz r l" and c: "lap_expected l \<noteq> 0" "lap_complete l"
    and ok: "read_second ix r l = Ok bs"
  shows "begun r (lap_expected l) \<and> bs = published r (lap_expected l)"
proof -
  let ?c = "lap_expected l"
  have s: "lap_first l = ?c" "rg_seq r (ix ?c) = ?c" "bs = lap_bytes l" using ok by (auto simp: read_second_def Let_def split: if_splits)
  have b: "begun r ?c" "length (lap_got l) = sz" using l c s by (auto simp: lap_ok_def Let_def)
  have nd: "\<not> dead ix r ?c" using ring_invD(9) [OF inv, of "ix ?c"] s(2) c(1) by auto
  have got: "\<forall>k < sz. lap_got l ! k \<in> {None, Some (published r ?c ! k)}" using l c s nd by (auto simp: lap_ok_def Let_def)
  have "published r ?c \<in> set (rg_hist r)" using b(1) by (auto simp: published_def begun_def unat_gt_0 [symmetric])
  then have "length (published r ?c) = sz" using ring_invD(3) [OF inv] by simp
  then have "bs = published r ?c"
    unfolding s(3) lap_bytes_def
  proof (intro nth_equalityI)
    fix k
    assume "k < length (map the (lap_got l))"
    then have k: "k < sz" "lap_got l ! k \<in> set (lap_got l)" using b(2) by simp_all
    then have "lap_got l ! k = Some (published r ?c ! k)" using got c(2) by (auto simp: lap_complete_def)
    then show "map the (lap_got l) ! k = published r ?c ! k" using k b(2) by simp
  qed (simp add: b(2))
  then show ?thesis using b(1) by simp
qed

lemma lap_expected_reads [simp]:
  "lap_expected (read_byte ix r k l) = lap_expected l" "lap_expected (read_first ix sz r c) = c"
  by (simp_all add: read_byte_def read_first_def)

lemma read_second_cases:
  obtains (Ok) bs where "read_second ix r l = Ok bs" | (Err) first second where "read_second ix r l = Err (first, second)"
proof (cases "read_second ix r l")
  case Panic
  then show ?thesis by (simp add: read_second_def Let_def split: if_splits)
qed (use that in auto)

section \<open>One access after another\<close>

definition ring_moves_to :: "(u64 \<Rightarrow> nat) \<Rightarrow> ring \<Rightarrow> ring \<Rightarrow> bool" where
  "ring_moves_to ix r r' \<longleftrightarrow> moves ix r r' \<and> (rg_cursor r \<noteq> 0 \<longrightarrow> rg_cursor r' \<noteq> 0)"

lemma ring_access_ok:
  assumes inv: "ring_inv ix sz r" and b: "length bs = sz" and room: "rg_stage r = Ready \<Longrightarrow> length (rg_hist r) + 1 < 2 ^ 64"
  shows "ring_inv ix sz (ring_access ix bs k r)" "ring_moves_to ix r (ring_access ix bs k r)"
proof -
  note st = ring_begin_inv [OF inv _ b room] ring_copy_inv [OF inv] ring_commit_inv [OF inv] ring_advance_inv [OF inv]
  show "ring_inv ix sz (ring_access ix bs k r)"
    using st by (auto simp: ring_access_def split: stage.split list.split)
  have "moves ix r (ring_access ix bs k r)"
    using ring_begin_moves [OF inv _ room] ring_moves [OF inv] by (auto simp: ring_access_def split: stage.split list.split)
  moreover have "rg_cursor (ring_access ix bs k r) = rg_cursor r \<or> rg_stage r = Filled \<and> rg_cursor (ring_access ix bs k r) = rg_cursor r + 1"
    by (auto simp: ring_access_def ring_begin_def ring_copy_def ring_commit_def ring_advance_def Let_def split: stage.split list.split)
  moreover have "rg_cursor r + 1 \<noteq> 0" if "rg_stage r = Filled" using ring_next(2) [OF inv] that by (simp add: begun_def)
  ultimately show "ring_moves_to ix r (ring_access ix bs k r)" by (auto simp: ring_moves_to_def)
qed

lemma ring_access_stage:
  "rg_stage r = Filled \<Longrightarrow> ring_access ix bs k r = r\<lparr> rg_cursor := rg_cursor r + 1, rg_stage := Ready \<rparr>"
  "rg_stage r = Ready \<Longrightarrow> ring_access ix bs k r = ring_begin ix bs r"
  "rg_stage r = Filling b ks \<Longrightarrow> rg_hist (ring_access ix bs k r) = rg_hist r \<and> rg_stage (ring_access ix bs k r) \<noteq> Ready"
  by (auto simp: ring_access_def ring_advance_def ring_commit_def ring_copy_def Let_def split: list.split)

text \<open>A version that was stored stays in its place until a later publication begins there.\<close>

definition committed :: "ring \<Rightarrow> u64 \<Rightarrow> bool" where
  "committed r c \<longleftrightarrow> c \<noteq> 0 \<and> unat c + (case rg_stage r of Filling _ _ \<Rightarrow> 1 | _ \<Rightarrow> 0) \<le> length (rg_hist r)"

definition settled :: "(u64 \<Rightarrow> nat) \<Rightarrow> ring \<Rightarrow> bool" where
  "settled ix r \<longleftrightarrow> (\<forall>c. committed r c \<longrightarrow> rg_seq r (ix c) = c \<or> dead ix r c)"

lemma settled_init: "settled ix (ring_init sz)"
  by (auto simp: settled_def committed_def ring_init_def unat_eq_zero)

lemma committed_begun: "committed r c \<Longrightarrow> begun r c"
  by (auto simp: committed_def begun_def)

lemma committed_access:
  assumes inv: "ring_inv ix sz r" and c: "committed (ring_access ix bs k r) c"
  shows "committed r c \<or> c = rg_cursor r + 1 \<and> rg_seq (ring_access ix bs k r) (ix c) = c"
proof (cases "rg_stage r")
  case (Filling b ks)
  show ?thesis
  proof (cases ks)
    case Nil
    have "unat (rg_cursor r + 1) = length (rg_hist r)" using ring_next(1) [OF inv] Filling by simp
    then have "unat c = length (rg_hist r) \<longleftrightarrow> c = rg_cursor r + 1" by (metis word_unat_eq_iff)
    then show ?thesis using c Filling Nil by (auto simp: committed_def ring_access_def ring_commit_def)
  qed (use c Filling in \<open>auto simp: committed_def ring_access_def ring_copy_def Let_def split: if_splits\<close>)
qed (use c in \<open>auto simp: committed_def ring_access_def ring_begin_def ring_advance_def\<close>)

lemma settled_access:
  assumes inv: "ring_inv ix sz r" and b: "length bs = sz" and room: "rg_stage r = Ready \<Longrightarrow> length (rg_hist r) + 1 < 2 ^ 64"
    and s: "settled ix r"
  shows "settled ix (ring_access ix bs k r)"
  unfolding settled_def
proof (intro allI impI)
  fix c
  assume c: "committed (ring_access ix bs k r) c"
  have m: "moves ix r (ring_access ix bs k r)" using ring_access_ok(2) [OF inv b room] by (simp add: ring_moves_to_def)
  show "rg_seq (ring_access ix bs k r) (ix c) = c \<or> dead ix (ring_access ix bs k r) c"
    using committed_access [OF inv c]
  proof
    assume o: "committed r c"
    then have "rg_seq r (ix c) = c \<or> dead ix r c" using s by (simp add: settled_def)
    then show ?thesis using m committed_begun [OF o] grows_dead [of r _ ix c] by (auto simp: moves_def)
  qed blast
qed

end
