(* ===== verification/Control_Page.thy ===== *)
theory Control_Page
  imports Byte_Memory
begin

text \<open>
  The video track control page (\<open>control_page.rs\<close>): a shared mapping with a header, a ring of
  frame slots, a ring of stream configurations and a table of consumer cursors.  The page is
  modelled as its bytes; every method is a sequence of bounds-checked accesses at the offsets the
  layout computes, and the \<open>repr(C)\<close> structs are concatenations of little-endian fields (the
  reserved fields, always written as zeros, appear only there).  A \<open>usize\<close> is a natural number
  below \<open>2 ^ 64\<close>, with the checked operations of the source written out.
\<close>

section \<open>Errors\<close>

datatype capture_error =
    SharedMemory string string
  | InvalidSharedMemoryLength

definition invalid_control_page :: "string \<Rightarrow> capture_error" where
  "invalid_control_page message = SharedMemory ''validate-control-page'' message"

datatype ring_read_error =
    RingEmpty
  | NotPublished u64 u64
  | Lapped u64 u64 u64
  | SlotSequenceMismatch u64 u64 u64
  | ConfigOverwritten u64 u64 u64 u64

section \<open>Layout\<close>

definition CONTROL_PAGE_ALIGNMENT :: nat where "CONTROL_PAGE_ALIGNMENT = 128"
definition VIDEO_TRACK_CONTROL_MAGIC :: u64 where
  "VIDEO_TRACK_CONTROL_MAGIC = from_le (map of_nat [74, 83, 70, 82, 73, 78, 71, 49])"
definition VIDEO_TRACK_CONTROL_VERSION :: u32 where "VIDEO_TRACK_CONTROL_VERSION = 4"
definition CONFIG_RING_CAPACITY :: nat where "CONFIG_RING_CAPACITY = 4"
definition RING_HEADER_LEN :: nat where "RING_HEADER_LEN = 256"
definition SEQLOCK_WORD_LEN :: nat where "SEQLOCK_WORD_LEN = 8"
definition FRAME_SLOT_LEN :: nat where "FRAME_SLOT_LEN = 128"
definition STREAM_CONFIG_LEN :: nat where "STREAM_CONFIG_LEN = 128"
definition CONSUMER_ENTRY_LEN :: nat where "CONSUMER_ENTRY_LEN = 128"

lemmas page_consts = CONFIG_RING_CAPACITY_def RING_HEADER_LEN_def SEQLOCK_WORD_LEN_def
  FRAME_SLOT_LEN_def STREAM_CONFIG_LEN_def CONSUMER_ENTRY_LEN_def

text \<open>\<open>next_power_of_two\<close> of a \<open>usize\<close>; past \<open>2 ^ 63\<close> the result does not fit, which the standard
  library makes a panic in checked builds.\<close>

function pow2_from :: "nat \<Rightarrow> nat \<Rightarrow> nat" where
  "pow2_from n p = (if p = 0 \<or> n \<le> p then p else pow2_from n (2 * p))"
  by pat_completeness auto
termination
  by (relation "measure (\<lambda>(n, p). n - p)") auto

declare pow2_from.simps [simp del]

definition ring_capacity_for :: "nat \<Rightarrow> (nat, 'e) outcome" where
  "ring_capacity_for requested =
     (let c = pow2_from (max requested 1) 1 in if c < 2 ^ 64 then Ok c else Panic)"

definition expect_add :: "nat \<Rightarrow> nat \<Rightarrow> (nat, 'e) outcome" where
  "expect_add a b = (if a + b < 2 ^ 64 then Ok (a + b) else Panic)"

definition expect_mul :: "nat \<Rightarrow> nat \<Rightarrow> (nat, 'e) outcome" where
  "expect_mul a b = (if a * b < 2 ^ 64 then Ok (a * b) else Panic)"

record page_layout =
  pl_header_offset :: nat
  pl_slots_offset :: nat
  pl_slot_len :: nat
  pl_slot_capacity :: nat
  pl_configs_offset :: nat
  pl_config_len :: nat
  pl_config_capacity :: nat
  pl_consumers_offset :: nat
  pl_consumer_len :: nat
  pl_consumer_capacity :: nat
  pl_byte_len :: nat

definition layout_for_capacity :: "nat \<Rightarrow> (page_layout, capture_error) outcome" where
  "layout_for_capacity capacity =
     and_then (ring_capacity_for capacity) (\<lambda>slot_capacity.
     and_then (expect_mul slot_capacity FRAME_SLOT_LEN) (\<lambda>slots_len.
     and_then (expect_add RING_HEADER_LEN slots_len) (\<lambda>configs_offset.
     and_then (expect_add configs_offset (CONFIG_RING_CAPACITY * STREAM_CONFIG_LEN)) (\<lambda>consumers_offset.
     and_then (expect_mul slot_capacity CONSUMER_ENTRY_LEN) (\<lambda>consumers_len.
     and_then (expect_add consumers_offset consumers_len) (\<lambda>byte_len.
       Ok \<lparr> pl_header_offset = 0, pl_slots_offset = RING_HEADER_LEN, pl_slot_len = FRAME_SLOT_LEN,
            pl_slot_capacity = slot_capacity, pl_configs_offset = configs_offset,
            pl_config_len = STREAM_CONFIG_LEN, pl_config_capacity = CONFIG_RING_CAPACITY,
            pl_consumers_offset = consumers_offset, pl_consumer_len = CONSUMER_ENTRY_LEN,
            pl_consumer_capacity = slot_capacity, pl_byte_len = byte_len \<rparr>))))))"

definition slot_index_mask :: "page_layout \<Rightarrow> u64" where
  "slot_index_mask l = of_nat (pl_slot_capacity l - 1)"

definition config_index_mask :: "page_layout \<Rightarrow> u64" where
  "config_index_mask l = of_nat (pl_config_capacity l - 1)"

section \<open>Structs and their bytes\<close>

record control_header =
  hd_magic :: u64
  hd_layout_version :: u32
  hd_header_len :: u32
  hd_slot_len :: u32
  hd_slot_capacity :: u32
  hd_config_len :: u32
  hd_config_capacity :: u32
  hd_consumer_len :: u32
  hd_consumer_capacity :: u32
  hd_slots_offset :: u32
  hd_configs_offset :: u32
  hd_consumers_offset :: u32
  hd_producer_cursor :: u64
  hd_config_cursor :: u64

definition header_bytes :: "control_header \<Rightarrow> bytes" where
  "header_bytes h = le64 (hd_magic h) @ le32 (hd_layout_version h) @ le32 (hd_header_len h) @ le32 (hd_slot_len h) @
     le32 (hd_slot_capacity h) @ le32 (hd_config_len h) @ le32 (hd_config_capacity h) @ le32 (hd_consumer_len h) @
     le32 (hd_consumer_capacity h) @ le32 (hd_slots_offset h) @ le32 (hd_configs_offset h) @ le32 (hd_consumers_offset h) @
     replicate 76 0 @ le64 (hd_producer_cursor h) @ le64 (hd_config_cursor h) @ replicate 112 0"

record frame_slot =
  fs_sequence :: u64
  fs_timestamp_ns :: u64
  fs_pool_id :: u64
  fs_payload_offset :: u64
  fs_payload_len :: u64
  fs_fence_value :: u64
  fs_damage_base_sequence :: u64
  fs_producer_drop_count :: u64
  fs_slot_id :: u32
  fs_config_generation :: u32
  fs_payload_kind :: u32
  fs_damage_kind :: u32
  fs_dropped_before_publish :: u32
  fs_flags :: u32

text \<open>The descriptor of a slot is what follows its sequence word.\<close>

definition slot_bytes :: "frame_slot \<Rightarrow> bytes" where
  "slot_bytes f = le64 (fs_sequence f) @ le64 (fs_timestamp_ns f) @ le64 (fs_pool_id f) @ le64 (fs_payload_offset f) @
     le64 (fs_payload_len f) @ le64 (fs_fence_value f) @ le64 (fs_damage_base_sequence f) @ le64 (fs_producer_drop_count f) @
     le32 (fs_slot_id f) @ le32 (fs_config_generation f) @ le32 (fs_payload_kind f) @ le32 (fs_damage_kind f) @
     le32 (fs_dropped_before_publish f) @ le32 (fs_flags f) @ replicate 32 0"

definition field64 :: "nat \<Rightarrow> bytes \<Rightarrow> u64" where "field64 offset bs = from_le (get_bytes offset 8 bs)"
definition field32 :: "nat \<Rightarrow> bytes \<Rightarrow> u32" where "field32 offset bs = from_le (get_bytes offset 4 bs)"

definition slot_of_bytes :: "bytes \<Rightarrow> frame_slot" where
  "slot_of_bytes bs = \<lparr> fs_sequence = field64 0 bs, fs_timestamp_ns = field64 8 bs, fs_pool_id = field64 16 bs,
     fs_payload_offset = field64 24 bs, fs_payload_len = field64 32 bs, fs_fence_value = field64 40 bs,
     fs_damage_base_sequence = field64 48 bs, fs_producer_drop_count = field64 56 bs, fs_slot_id = field32 64 bs,
     fs_config_generation = field32 68 bs, fs_payload_kind = field32 72 bs, fs_damage_kind = field32 76 bs,
     fs_dropped_before_publish = field32 80 bs, fs_flags = field32 84 bs \<rparr>"

record stream_config =
  sc_width :: u32
  sc_height :: u32
  sc_stride :: u32
  sc_pixel_format :: u32
  sc_color_space :: u32
  sc_sync_kind :: u32
  sc_modifier :: u64
  sc_fence_id :: u64

definition config_bytes :: "stream_config \<Rightarrow> bytes" where
  "config_bytes c = le32 (sc_width c) @ le32 (sc_height c) @ le32 (sc_stride c) @ le32 (sc_pixel_format c) @
     le32 (sc_color_space c) @ le32 (sc_sync_kind c) @ replicate 8 0 @ le64 (sc_modifier c) @ le64 (sc_fence_id c) @
     replicate 72 0"

definition config_of_bytes :: "bytes \<Rightarrow> stream_config" where
  "config_of_bytes bs = \<lparr> sc_width = field32 0 bs, sc_height = field32 4 bs, sc_stride = field32 8 bs,
     sc_pixel_format = field32 12 bs, sc_color_space = field32 16 bs, sc_sync_kind = field32 20 bs,
     sc_modifier = field64 32 bs, sc_fence_id = field64 40 bs \<rparr>"

record consumer_entry =
  ce_consumer_id :: u64
  ce_release_cursor :: u64
  ce_last_acquired_cursor :: u64
  ce_last_acquired_sequence :: u64
  ce_acquired_count :: u64
  ce_skipped_count :: u64

definition consumer_entry_default :: consumer_entry where
  "consumer_entry_default = \<lparr> ce_consumer_id = 0, ce_release_cursor = 0, ce_last_acquired_cursor = 0,
     ce_last_acquired_sequence = 0, ce_acquired_count = 0, ce_skipped_count = 0 \<rparr>"

definition consumer_bytes :: "consumer_entry \<Rightarrow> bytes" where
  "consumer_bytes c = le64 (ce_consumer_id c) @ le64 (ce_release_cursor c) @ le64 (ce_last_acquired_cursor c) @
     le64 (ce_last_acquired_sequence c) @ le64 (ce_acquired_count c) @ le64 (ce_skipped_count c) @ replicate 80 0"

definition consumer_of_bytes :: "bytes \<Rightarrow> consumer_entry" where
  "consumer_of_bytes bs = \<lparr> ce_consumer_id = field64 0 bs, ce_release_cursor = field64 8 bs,
     ce_last_acquired_cursor = field64 16 bs, ce_last_acquired_sequence = field64 24 bs,
     ce_acquired_count = field64 32 bs, ce_skipped_count = field64 40 bs \<rparr>"

lemma get_bytes_append_left: "offset + n \<le> length xs \<Longrightarrow> get_bytes offset n (xs @ ys) = get_bytes offset n xs"
  by (simp add: get_bytes_def)

lemma get_bytes_append_right: "length xs \<le> offset \<Longrightarrow> get_bytes offset n (xs @ ys) = get_bytes (offset - length xs) n ys"
  by (simp add: get_bytes_def)

lemma get_bytes_whole: "n = length xs \<Longrightarrow> get_bytes 0 n xs = xs"
  by (simp add: get_bytes_def)

lemmas struct_simps = field64_def field32_def get_bytes_append_left get_bytes_append_right get_bytes_whole

lemma length_struct_bytes [simp]:
  "length (header_bytes h) = 256" "length (slot_bytes f) = 120" "length (config_bytes c) = 120" "length (consumer_bytes e) = 128"
  by (simp_all add: header_bytes_def slot_bytes_def config_bytes_def consumer_bytes_def)

lemma slot_of_slot_bytes [simp]: "slot_of_bytes (slot_bytes f) = f"
  by (simp add: slot_of_bytes_def slot_bytes_def struct_simps)

lemma config_of_config_bytes [simp]: "config_of_bytes (config_bytes c) = c"
  by (simp add: config_of_bytes_def config_bytes_def struct_simps)

lemma consumer_of_consumer_bytes [simp]: "consumer_of_bytes (consumer_bytes e) = e"
  by (simp add: consumer_of_bytes_def consumer_bytes_def struct_simps)

section \<open>Accesses\<close>

record control_page =
  pg_layout :: page_layout
  pg_storage :: segment
  pg_producer_config :: "(u64 \<times> stream_config) option"

definition load_u64_atomic :: "nat \<Rightarrow> control_page \<Rightarrow> (u64, 'e) outcome" where
  "load_u64_atomic offset p =
     (if offset mod 8 \<noteq> 0 then Panic else map_outcome_ok from_le (slice_at offset 8 (pg_storage p)))"

definition write_page :: "nat \<Rightarrow> bytes \<Rightarrow> control_page \<Rightarrow> (control_page, 'e) outcome" where
  "write_page offset bs p = map_outcome_ok (\<lambda>s. p\<lparr> pg_storage := s \<rparr>) (segment_write_at offset bs (pg_storage p))"

definition store_u64_atomic :: "nat \<Rightarrow> u64 \<Rightarrow> control_page \<Rightarrow> (control_page, 'e) outcome" where
  "store_u64_atomic offset v p = (if offset mod 8 \<noteq> 0 then Panic else write_page offset (le64 v) p)"

definition slot_offset :: "nat \<Rightarrow> control_page \<Rightarrow> nat" where
  "slot_offset i p = pl_slots_offset (pg_layout p) + i * pl_slot_len (pg_layout p)"

definition config_offset :: "nat \<Rightarrow> control_page \<Rightarrow> nat" where
  "config_offset i p = pl_configs_offset (pg_layout p) + i * pl_config_len (pg_layout p)"

definition consumer_offset :: "nat \<Rightarrow> control_page \<Rightarrow> (nat, 'e) outcome" where
  "consumer_offset i p =
     (if i < pl_consumer_capacity (pg_layout p)
      then Ok (pl_consumers_offset (pg_layout p) + i * pl_consumer_len (pg_layout p)) else Panic)"

definition load_slot_publication_sequence :: "nat \<Rightarrow> control_page \<Rightarrow> (u64, 'e) outcome" where
  "load_slot_publication_sequence i p =
     (if i < pl_slot_capacity (pg_layout p) then load_u64_atomic (slot_offset i p) p else Panic)"

definition store_slot_publication_sequence :: "nat \<Rightarrow> u64 \<Rightarrow> control_page \<Rightarrow> (control_page, 'e) outcome" where
  "store_slot_publication_sequence i v p =
     (if i < pl_slot_capacity (pg_layout p) then store_u64_atomic (slot_offset i p) v p else Panic)"

definition load_config_generation :: "nat \<Rightarrow> control_page \<Rightarrow> (u64, 'e) outcome" where
  "load_config_generation i p =
     (if i < pl_config_capacity (pg_layout p) then load_u64_atomic (config_offset i p) p else Panic)"

definition store_config_generation :: "nat \<Rightarrow> u64 \<Rightarrow> control_page \<Rightarrow> (control_page, 'e) outcome" where
  "store_config_generation i v p =
     (if i < pl_config_capacity (pg_layout p) then store_u64_atomic (config_offset i p) v p else Panic)"

definition load_header_producer_cursor :: "control_page \<Rightarrow> (u64, 'e) outcome" where
  "load_header_producer_cursor p = load_u64_atomic (pl_header_offset (pg_layout p) + 128) p"

definition store_header_producer_cursor :: "u64 \<Rightarrow> control_page \<Rightarrow> (control_page, 'e) outcome" where
  "store_header_producer_cursor v p = store_u64_atomic (pl_header_offset (pg_layout p) + 128) v p"

definition load_header_config_cursor :: "control_page \<Rightarrow> (u64, 'e) outcome" where
  "load_header_config_cursor p = load_u64_atomic (pl_header_offset (pg_layout p) + 136) p"

definition store_header_config_cursor :: "u64 \<Rightarrow> control_page \<Rightarrow> (control_page, 'e) outcome" where
  "store_header_config_cursor v p = store_u64_atomic (pl_header_offset (pg_layout p) + 136) v p"

definition read_slot_descriptor :: "nat \<Rightarrow> control_page \<Rightarrow> (frame_slot, 'e) outcome" where
  "read_slot_descriptor i p =
     (if i < pl_slot_capacity (pg_layout p)
      then map_outcome_ok slot_of_bytes
             (slice_at (slot_offset i p + SEQLOCK_WORD_LEN) (pl_slot_len (pg_layout p) - SEQLOCK_WORD_LEN) (pg_storage p))
      else Panic)"

definition store_slot_descriptor :: "nat \<Rightarrow> frame_slot \<Rightarrow> control_page \<Rightarrow> (control_page, 'e) outcome" where
  "store_slot_descriptor i f p =
     (if i < pl_slot_capacity (pg_layout p) then write_page (slot_offset i p + SEQLOCK_WORD_LEN) (slot_bytes f) p else Panic)"

definition read_config_descriptor :: "nat \<Rightarrow> control_page \<Rightarrow> (stream_config, 'e) outcome" where
  "read_config_descriptor i p =
     (if i < pl_config_capacity (pg_layout p)
      then map_outcome_ok config_of_bytes
             (slice_at (config_offset i p + SEQLOCK_WORD_LEN) (pl_config_len (pg_layout p) - SEQLOCK_WORD_LEN) (pg_storage p))
      else Panic)"

definition store_config_descriptor :: "nat \<Rightarrow> stream_config \<Rightarrow> control_page \<Rightarrow> (control_page, 'e) outcome" where
  "store_config_descriptor i c p =
     (if i < pl_config_capacity (pg_layout p) then write_page (config_offset i p + SEQLOCK_WORD_LEN) (config_bytes c) p else Panic)"

definition read_u32_at :: "nat \<Rightarrow> control_page \<Rightarrow> (u32, 'e) outcome" where
  "read_u32_at offset p = map_outcome_ok from_le (slice_at offset 4 (pg_storage p))"

definition read_u64_at :: "nat \<Rightarrow> control_page \<Rightarrow> (u64, 'e) outcome" where
  "read_u64_at offset p = map_outcome_ok from_le (slice_at offset 8 (pg_storage p))"

section \<open>Creation and validation\<close>

definition page_header :: "control_page \<Rightarrow> (control_header, capture_error) outcome" where
  "page_header p =
     and_then (read_u64_at 0 p) (\<lambda>magic.
     and_then (read_u32_at 8 p) (\<lambda>version.
     and_then (read_u32_at 12 p) (\<lambda>header_len.
     and_then (read_u32_at 16 p) (\<lambda>slot_len.
     and_then (read_u32_at 20 p) (\<lambda>slot_capacity.
     and_then (read_u32_at 24 p) (\<lambda>config_len.
     and_then (read_u32_at 28 p) (\<lambda>config_capacity.
     and_then (read_u32_at 32 p) (\<lambda>consumer_len.
     and_then (read_u32_at 36 p) (\<lambda>consumer_capacity.
     and_then (read_u32_at 40 p) (\<lambda>slots_offset.
     and_then (read_u32_at 44 p) (\<lambda>configs_offset.
     and_then (read_u32_at 48 p) (\<lambda>consumers_offset.
     and_then (load_header_producer_cursor p) (\<lambda>producer_cursor.
     and_then (load_header_config_cursor p) (\<lambda>config_cursor.
       Ok \<lparr> hd_magic = magic, hd_layout_version = version, hd_header_len = header_len, hd_slot_len = slot_len,
            hd_slot_capacity = slot_capacity, hd_config_len = config_len, hd_config_capacity = config_capacity,
            hd_consumer_len = consumer_len, hd_consumer_capacity = consumer_capacity, hd_slots_offset = slots_offset,
            hd_configs_offset = configs_offset, hd_consumers_offset = consumers_offset,
            hd_producer_cursor = producer_cursor, hd_config_cursor = config_cursor \<rparr>))))))))))))))"

definition initial_header :: "page_layout \<Rightarrow> control_header" where
  "initial_header l = \<lparr> hd_magic = VIDEO_TRACK_CONTROL_MAGIC, hd_layout_version = VIDEO_TRACK_CONTROL_VERSION,
     hd_header_len = of_nat RING_HEADER_LEN, hd_slot_len = of_nat (pl_slot_len l), hd_slot_capacity = of_nat (pl_slot_capacity l),
     hd_config_len = of_nat (pl_config_len l), hd_config_capacity = of_nat (pl_config_capacity l),
     hd_consumer_len = of_nat (pl_consumer_len l), hd_consumer_capacity = of_nat (pl_consumer_capacity l),
     hd_slots_offset = of_nat (pl_slots_offset l), hd_configs_offset = of_nat (pl_configs_offset l),
     hd_consumers_offset = of_nat (pl_consumers_offset l), hd_producer_cursor = 0, hd_config_cursor = 0 \<rparr>"

definition store_initial_header :: "control_page \<Rightarrow> (control_page, capture_error) outcome" where
  "store_initial_header p = write_page (pl_header_offset (pg_layout p)) (header_bytes (initial_header (pg_layout p))) p"

definition page_new :: "nat \<Rightarrow> (control_page, capture_error) outcome" where
  "page_new capacity =
     and_then (layout_for_capacity capacity) (\<lambda>layout.
       case segment_new (pl_byte_len layout) of
         None \<Rightarrow> Panic
       | Some storage \<Rightarrow>
           store_initial_header \<lparr> pg_layout = layout, pg_storage = storage, pg_producer_config = None \<rparr>)"

definition is_power_of_two :: "nat \<Rightarrow> bool" where
  "is_power_of_two n \<longleftrightarrow> 0 < n \<and> pow2_from n 1 = n"

definition validate_control_header :: "control_header \<Rightarrow> nat \<Rightarrow> (nat, capture_error) outcome" where
  "validate_control_header h map_len =
     (if hd_magic h \<noteq> VIDEO_TRACK_CONTROL_MAGIC then Err (invalid_control_page ''invalid magic'')
      else if hd_layout_version h \<noteq> VIDEO_TRACK_CONTROL_VERSION then Err (invalid_control_page ''invalid layout version'')
      else if hd_header_len h \<noteq> of_nat RING_HEADER_LEN then Err (invalid_control_page ''invalid header length'')
      else if hd_slot_len h \<noteq> of_nat FRAME_SLOT_LEN then Err (invalid_control_page ''invalid frame slot length'')
      else if hd_config_len h \<noteq> of_nat STREAM_CONFIG_LEN then Err (invalid_control_page ''invalid stream config length'')
      else if hd_consumer_len h \<noteq> of_nat CONSUMER_ENTRY_LEN then Err (invalid_control_page ''invalid consumer slot length'')
      else let capacity = unat (hd_slot_capacity h) in
        if capacity = 0 \<or> \<not> is_power_of_two capacity
        then Err (invalid_control_page ''slot capacity must be a non-zero power of two'')
        else if unat (hd_config_capacity h) \<noteq> CONFIG_RING_CAPACITY
        then Err (invalid_control_page ''config capacity does not match layout'')
        else if hd_consumer_capacity h \<noteq> hd_slot_capacity h
        then Err (invalid_control_page ''consumer capacity must match ring capacity'')
        else and_then (layout_for_capacity capacity) (\<lambda>layout.
          if unat (hd_slots_offset h) \<noteq> pl_slots_offset layout \<or> unat (hd_configs_offset h) \<noteq> pl_configs_offset layout \<or>
             unat (hd_consumers_offset h) \<noteq> pl_consumers_offset layout
          then Err (invalid_control_page ''region offsets do not match layout'')
          else if map_len < pl_byte_len layout
          then Err (invalid_control_page ''mapped length is smaller than declared layout'')
          else Ok capacity))"

definition page_validate_header :: "control_page \<Rightarrow> (control_header, capture_error) outcome" where
  "page_validate_header p =
     and_then (page_header p) (\<lambda>h. and_then (validate_control_header h (segment_len (pg_storage p))) (\<lambda>_. Ok h))"

definition from_mapped_storage :: "segment \<Rightarrow> nat \<Rightarrow> (control_page, capture_error) outcome" where
  "from_mapped_storage storage map_len =
     (if map_len < RING_HEADER_LEN then Err (invalid_control_page ''mapped length is smaller than the ring header'')
      else and_then (layout_for_capacity 1) (\<lambda>layout1.
        let p1 = \<lparr> pg_layout = layout1, pg_storage = storage, pg_producer_config = None \<rparr> in
        and_then (page_header p1) (\<lambda>h.
        and_then (validate_control_header h map_len) (\<lambda>capacity.
        and_then (layout_for_capacity capacity) (\<lambda>layout.
          let p = p1\<lparr> pg_layout := layout \<rparr> in and_then (page_validate_header p) (\<lambda>_. Ok p))))))"

section \<open>Publishing\<close>

record pending_entry =
  pe_sequence :: u64
  pe_timestamp_ns :: u64
  pe_width :: u32
  pe_height :: u32
  pe_stride :: u32
  pe_pixel_format :: u32
  pe_pool_id :: u64
  pe_slot_id :: u32
  pe_payload_offset :: u64
  pe_payload_len :: u64
  pe_color_space :: u32
  pe_sync_kind :: u32
  pe_damage_kind :: u32
  pe_damage_base_sequence :: u64
  pe_dropped_before_publish :: u32
  pe_producer_drop_count :: u64
  pe_payload_kind :: u32
  pe_modifier :: u64
  pe_fence_id :: u64
  pe_fence_value :: u64
  pe_flags :: u32

text \<open>A validated read: the frame under a cursor with the stream configuration it names.\<close>

record ring_entry = pending_entry +
  re_cursor :: u64
  re_config_generation :: u64

definition entry_config :: "pending_entry \<Rightarrow> stream_config" where
  "entry_config e = \<lparr> sc_width = pe_width e, sc_height = pe_height e, sc_stride = pe_stride e,
     sc_pixel_format = pe_pixel_format e, sc_color_space = pe_color_space e, sc_sync_kind = pe_sync_kind e,
     sc_modifier = pe_modifier e, sc_fence_id = pe_fence_id e \<rparr>"

definition entry_slot :: "pending_entry \<Rightarrow> u32 \<Rightarrow> frame_slot" where
  "entry_slot e generation = \<lparr> fs_sequence = pe_sequence e, fs_timestamp_ns = pe_timestamp_ns e, fs_pool_id = pe_pool_id e,
     fs_payload_offset = pe_payload_offset e, fs_payload_len = pe_payload_len e, fs_fence_value = pe_fence_value e,
     fs_damage_base_sequence = pe_damage_base_sequence e, fs_producer_drop_count = pe_producer_drop_count e,
     fs_slot_id = pe_slot_id e, fs_config_generation = generation, fs_payload_kind = pe_payload_kind e,
     fs_damage_kind = pe_damage_kind e, fs_dropped_before_publish = pe_dropped_before_publish e, fs_flags = pe_flags e \<rparr>"

definition entry_from_parts :: "u64 \<Rightarrow> frame_slot \<Rightarrow> u64 \<Rightarrow> stream_config \<Rightarrow> ring_entry" where
  "entry_from_parts cursor f generation c = \<lparr> pe_sequence = fs_sequence f, pe_timestamp_ns = fs_timestamp_ns f,
     pe_width = sc_width c, pe_height = sc_height c, pe_stride = sc_stride c, pe_pixel_format = sc_pixel_format c,
     pe_pool_id = fs_pool_id f, pe_slot_id = fs_slot_id f, pe_payload_offset = fs_payload_offset f,
     pe_payload_len = fs_payload_len f, pe_color_space = sc_color_space c, pe_sync_kind = sc_sync_kind c,
     pe_damage_kind = fs_damage_kind f, pe_damage_base_sequence = fs_damage_base_sequence f,
     pe_dropped_before_publish = fs_dropped_before_publish f, pe_producer_drop_count = fs_producer_drop_count f,
     pe_payload_kind = fs_payload_kind f, pe_modifier = sc_modifier c, pe_fence_id = sc_fence_id c,
     pe_fence_value = fs_fence_value f, pe_flags = fs_flags f, re_cursor = cursor, re_config_generation = generation \<rparr>"

definition publish_stream_config :: "stream_config \<Rightarrow> control_page \<Rightarrow> (u64 \<times> control_page, capture_error) outcome" where
  "publish_stream_config body p =
     and_then (load_header_config_cursor p) (\<lambda>cursor.
       let generation = cursor + 1; i = unat (generation AND config_index_mask (pg_layout p)) in
       and_then (store_config_generation i 0 p) (\<lambda>p1.
       and_then (store_config_descriptor i body p1) (\<lambda>p2.
       and_then (store_config_generation i generation p2) (\<lambda>p3.
       and_then (store_header_config_cursor generation p3) (\<lambda>p4.
         Ok (generation, p4\<lparr> pg_producer_config := Some (generation, body) \<rparr>))))))"

definition ensure_stream_config :: "pending_entry \<Rightarrow> control_page \<Rightarrow> (u64 \<times> control_page, capture_error) outcome" where
  "ensure_stream_config e p =
     (case pg_producer_config p of
        Some (generation, cached) \<Rightarrow>
          if cached = entry_config e then Ok (generation, p) else publish_stream_config (entry_config e) p
      | None \<Rightarrow> publish_stream_config (entry_config e) p)"

definition page_push :: "pending_entry \<Rightarrow> control_page \<Rightarrow> (u64 \<times> control_page, capture_error) outcome" where
  "page_push e p =
     and_then (ensure_stream_config e p) (\<lambda>(generation, p1).
     and_then (load_header_producer_cursor p1) (\<lambda>previous.
       let cursor = saturating_add previous 1;
           i = unat ((cursor - 1) AND slot_index_mask (pg_layout p1)) in
       and_then (store_slot_publication_sequence i 0 p1) (\<lambda>p2.
       and_then (store_slot_descriptor i (entry_slot e (ucast generation)) p2) (\<lambda>p3.
       and_then (store_slot_publication_sequence i cursor p3) (\<lambda>p4.
       and_then (store_header_producer_cursor cursor p4) (\<lambda>p5.
         Ok (cursor, p5)))))))"

section \<open>Reading\<close>

definition latest_cursor :: "control_page \<Rightarrow> (u64 option, 'e) outcome" where
  "latest_cursor p = map_outcome_ok (\<lambda>c. if 0 < c then Some c else None) (load_header_producer_cursor p)"

definition oldest_live_cursor :: "control_page \<Rightarrow> (u64 option, 'e) outcome" where
  "oldest_live_cursor p =
     map_outcome_ok (\<lambda>c. if c = 0 then None else Some (c - min c (of_nat (pl_slot_capacity (pg_layout p))) + 1))
       (load_header_producer_cursor p)"

definition cursor_lapped :: "u64 \<Rightarrow> control_page \<Rightarrow> (bool, 'e) outcome" where
  "cursor_lapped expected p =
     map_outcome_ok (\<lambda>oldest. case oldest of Some c \<Rightarrow> expected < c | None \<Rightarrow> False) (oldest_live_cursor p)"

definition read_slot_seqlock :: "nat \<Rightarrow> u64 \<Rightarrow> control_page \<Rightarrow> (frame_slot, ring_read_error) outcome" where
  "read_slot_seqlock i expected p =
     and_then (load_slot_publication_sequence i p) (\<lambda>first.
     and_then (read_slot_descriptor i p) (\<lambda>slot.
     and_then (load_slot_publication_sequence i p) (\<lambda>second.
       if first \<noteq> expected \<or> second \<noteq> expected then Err (SlotSequenceMismatch expected first second) else Ok slot)))"

definition read_config_seqlock :: "u64 \<Rightarrow> control_page \<Rightarrow> (stream_config, u64 \<times> u64) outcome" where
  "read_config_seqlock generation p =
     (if generation = 0 then Err (0, 0)
      else let i = unat (generation AND config_index_mask (pg_layout p)) in
        and_then (load_config_generation i p) (\<lambda>first.
        and_then (read_config_descriptor i p) (\<lambda>config.
        and_then (load_config_generation i p) (\<lambda>second.
          if first \<noteq> generation \<or> second \<noteq> generation then Err (first, second) else Ok config))))"

definition read_entry_for_cursor :: "u64 \<Rightarrow> control_page \<Rightarrow> (ring_entry, ring_read_error) outcome" where
  "read_entry_for_cursor cursor p =
     and_then (latest_cursor p) (\<lambda>latest.
       case latest of
         None \<Rightarrow> Err RingEmpty
       | Some newest \<Rightarrow>
         if newest < cursor then Err (NotPublished cursor newest)
         else and_then (oldest_live_cursor p) (\<lambda>oldest.
           case oldest of
             None \<Rightarrow> Panic
           | Some oldest_live \<Rightarrow>
             if cursor < oldest_live then Err (Lapped cursor oldest_live newest)
             else and_then (read_slot_seqlock (unat ((cursor - 1) AND slot_index_mask (pg_layout p))) cursor p) (\<lambda>slot.
               let generation = ucast (fs_config_generation slot) in
               map_outcome_ok (entry_from_parts cursor slot generation)
                 (map_err (\<lambda>(first, second). ConfigOverwritten cursor generation first second)
                    (read_config_seqlock generation p)))))"

definition read_latest_lossy_entry :: "control_page \<Rightarrow> (ring_entry option, ring_read_error) outcome" where
  "read_latest_lossy_entry p =
     and_then (latest_cursor p) (\<lambda>latest.
       case latest of None \<Rightarrow> Ok None | Some cursor \<Rightarrow> map_outcome_ok Some (read_entry_for_cursor cursor p))"

text \<open>\<open>filter_map(.. .ok())\<close> over an inclusive range: values are collected and errors are skipped.\<close>

fun collect_ok :: "('b \<Rightarrow> ('a, 'e) outcome) \<Rightarrow> 'b list \<Rightarrow> ('a list, 'f) outcome" where
  "collect_ok f [] = Ok []"
| "collect_ok f (x # xs) =
     (case f x of
        Ok y \<Rightarrow> map_outcome_ok ((#) y) (collect_ok f xs)
      | Err _ \<Rightarrow> collect_ok f xs
      | Panic \<Rightarrow> Panic)"

definition ring_snapshot :: "control_page \<Rightarrow> (ring_entry list, 'e) outcome" where
  "ring_snapshot p =
     and_then (oldest_live_cursor p) (\<lambda>oldest.
     and_then (latest_cursor p) (\<lambda>latest.
       case (oldest, latest) of
         (Some oldest, Some latest) \<Rightarrow>
           collect_ok (\<lambda>c. read_entry_for_cursor (of_nat c) p) [unat oldest..<Suc (unat latest)]
       | _ \<Rightarrow> Ok []))"

definition config_snapshot :: "control_page \<Rightarrow> (stream_config list, 'e) outcome" where
  "config_snapshot p =
     and_then (load_header_config_cursor p) (\<lambda>latest.
       if latest = 0 then Ok []
       else let live = min latest (of_nat (pl_config_capacity (pg_layout p))) in
         collect_ok (\<lambda>g. read_config_seqlock (of_nat g) p) [unat (latest - live + 1)..<Suc (unat latest)])"

section \<open>Consumer cursors\<close>

definition consumer_cursor_entry :: "nat \<Rightarrow> control_page \<Rightarrow> (consumer_entry, 'e) outcome" where
  "consumer_cursor_entry i p =
     and_then (consumer_offset i p) (\<lambda>offset. map_outcome_ok consumer_of_bytes (slice_at offset 128 (pg_storage p)))"

text \<open>The first index of a range whose entry has the given identity.\<close>

fun find_consumer :: "nat list \<Rightarrow> u64 \<Rightarrow> control_page \<Rightarrow> (nat option, 'e) outcome" where
  "find_consumer [] cid p = Ok None"
| "find_consumer (i # is) cid p =
     and_then (consumer_cursor_entry i p) (\<lambda>e. if ce_consumer_id e = cid then Ok (Some i) else find_consumer is cid p)"

definition write_consumer_entry :: "nat \<Rightarrow> consumer_entry \<Rightarrow> control_page \<Rightarrow> (control_page, 'e) outcome" where
  "write_consumer_entry i e p = and_then (consumer_offset i p) (\<lambda>offset. write_page offset (consumer_bytes e) p)"

definition register_consumer_cursor :: "u64 \<Rightarrow> control_page \<Rightarrow> (nat \<times> control_page, capture_error) outcome" where
  "register_consumer_cursor cid p =
     (if cid = 0 then Err (invalid_control_page ''consumer id must be non-zero'')
      else let all = [0..<pl_consumer_capacity (pg_layout p)] in
        and_then (find_consumer all cid p) (\<lambda>found.
          case found of
            Some i \<Rightarrow> Ok (i, p)
          | None \<Rightarrow>
            and_then (find_consumer all 0 p) (\<lambda>free.
              case free of
                Some i \<Rightarrow> map_outcome_ok (\<lambda>p'. (i, p'))
                  (write_consumer_entry i (consumer_entry_default\<lparr> ce_consumer_id := cid \<rparr>) p)
              | None \<Rightarrow> Err (invalid_control_page ''consumer cursor table is full''))))"

definition unregister_consumer_cursor :: "u64 \<Rightarrow> control_page \<Rightarrow> (control_page, 'e) outcome" where
  "unregister_consumer_cursor cid p =
     and_then (find_consumer [0..<pl_consumer_capacity (pg_layout p)] cid p) (\<lambda>found.
       case found of Some i \<Rightarrow> write_consumer_entry i consumer_entry_default p | None \<Rightarrow> Ok p)"

definition store_consumer_release_cursor :: "nat \<Rightarrow> u64 \<Rightarrow> u64 \<Rightarrow> control_page \<Rightarrow> (control_page, capture_error) outcome" where
  "store_consumer_release_cursor i cid release_cursor p =
     and_then (consumer_cursor_entry i p) (\<lambda>e.
       if ce_consumer_id e \<noteq> cid then Err (invalid_control_page ''consumer cursor slot does not match consumer id'')
       else and_then (consumer_offset i p) (\<lambda>offset. store_u64_atomic (offset + 8) release_cursor p))"

definition store_consumer_acquire_cursor ::
    "nat \<Rightarrow> u64 \<Rightarrow> u64 \<Rightarrow> u64 \<Rightarrow> u64 \<Rightarrow> u64 \<Rightarrow> control_page \<Rightarrow> (control_page, capture_error) outcome" where
  "store_consumer_acquire_cursor i cid last_cursor last_sequence skipped acquired p =
     and_then (consumer_cursor_entry i p) (\<lambda>e.
       if ce_consumer_id e \<noteq> cid then Err (invalid_control_page ''consumer cursor slot does not match consumer id'')
       else and_then (consumer_offset i p) (\<lambda>base.
         and_then (store_u64_atomic (base + 16) last_cursor p) (\<lambda>p1.
         and_then (store_u64_atomic (base + 24) last_sequence p1) (\<lambda>p2.
         and_then (store_u64_atomic (base + 40) skipped p2) (\<lambda>p3.
           store_u64_atomic (base + 32) acquired p3)))))"

definition consumer_cursor_snapshot :: "control_page \<Rightarrow> (consumer_entry list, 'e) outcome" where
  "consumer_cursor_snapshot p = collect_ok (\<lambda>i. (consumer_cursor_entry i p :: (consumer_entry, capture_error) outcome))
     [0..<pl_consumer_capacity (pg_layout p)]"

text \<open>The diagnostic read: the header is validated first; \<open>describe\<close> renders an error for people.\<close>

definition shadow_read_entry_for_cursor ::
    "(ring_read_error \<Rightarrow> string) \<Rightarrow> u64 \<Rightarrow> control_page \<Rightarrow> (ring_entry, capture_error) outcome" where
  "shadow_read_entry_for_cursor describe cursor p =
     and_then (page_validate_header p) (\<lambda>_.
       map_err (\<lambda>e. SharedMemory ''read-control-page'' (describe e)) (read_entry_for_cursor cursor p))"

record page_snapshot =
  sn_header :: control_header
  sn_entries :: "ring_entry list"
  sn_configs :: "stream_config list"
  sn_consumers :: "consumer_entry list"

definition page_snapshot_of :: "control_page \<Rightarrow> (page_snapshot, capture_error) outcome" where
  "page_snapshot_of p =
     and_then (page_header p) (\<lambda>h.
     and_then (ring_snapshot p) (\<lambda>entries.
     and_then (config_snapshot p) (\<lambda>configs.
     and_then (consumer_cursor_snapshot p) (\<lambda>consumers.
       Ok \<lparr> sn_header = h, sn_entries = entries, sn_configs = configs, sn_consumers = consumers \<rparr>))))"

lemmas page_ops [op_defs] = load_slot_publication_sequence_def store_slot_publication_sequence_def load_config_generation_def
  store_config_generation_def load_header_producer_cursor_def store_header_producer_cursor_def load_header_config_cursor_def
  store_header_config_cursor_def read_slot_descriptor_def store_slot_descriptor_def read_config_descriptor_def
  store_config_descriptor_def load_u64_atomic_def store_u64_atomic_def write_page_def slot_offset_def config_offset_def

end
