(* ===== verification/Control_Ring.thy ===== *)
theory Control_Ring
  imports Control_Page
begin

text \<open>
  The control page refines a ring of published frames: an abstract history of frames and stream
  configurations, of which a reader sees the last ones.  The page's bytes are split into cells that
  do not overlap; the interface of such cells is a locale, interpreted on the page.
\<close>

section \<open>Powers of two and the layout\<close>

lemma pow2_from_power: "\<exists>k. pow2_from n (2 ^ j) = 2 ^ k \<and> n \<le> 2 ^ k"
proof (induction n "2 ^ j :: nat" arbitrary: j rule: pow2_from.induct)
  case (1 n j)
  then show ?case using 1 [of "Suc j"] by (subst pow2_from.simps) auto
qed

lemma pow2_from_exact: "j \<le> k \<Longrightarrow> pow2_from (2 ^ k) (2 ^ j) = 2 ^ k"
proof (induction "k - j" arbitrary: j)
  case 0
  then show ?case by (subst pow2_from.simps) simp
next
  case (Suc d)
  then have "pow2_from (2 ^ k) (2 ^ Suc j) = 2 ^ k" by (intro Suc.hyps(1)) auto
  moreover have "\<not> (2::nat) ^ k \<le> 2 ^ j" using Suc.hyps(2) by simp
  ultimately show ?case by (subst pow2_from.simps) simp
qed

lemma is_power_of_two_iff: "is_power_of_two n \<longleftrightarrow> (\<exists>k. n = 2 ^ k)"
  using pow2_from_power [of n 0] pow2_from_exact [of 0] by (auto simp: is_power_of_two_def)

definition std_layout :: "nat \<Rightarrow> page_layout" where
  "std_layout cap = \<lparr> pl_header_offset = 0, pl_slots_offset = 256, pl_slot_len = 128, pl_slot_capacity = cap,
     pl_configs_offset = 256 + 128 * cap, pl_config_len = 128, pl_config_capacity = 4,
     pl_consumers_offset = 768 + 128 * cap, pl_consumer_len = 128, pl_consumer_capacity = cap,
     pl_byte_len = 768 + 256 * cap \<rparr>"

lemma std_layout_simps [simp]:
  "pl_header_offset (std_layout cap) = 0" "pl_slots_offset (std_layout cap) = 256" "pl_slot_len (std_layout cap) = 128"
  "pl_slot_capacity (std_layout cap) = cap" "pl_configs_offset (std_layout cap) = 256 + 128 * cap"
  "pl_config_len (std_layout cap) = 128" "pl_config_capacity (std_layout cap) = 4"
  "pl_consumers_offset (std_layout cap) = 768 + 128 * cap" "pl_consumer_len (std_layout cap) = 128"
  "pl_consumer_capacity (std_layout cap) = cap" "pl_byte_len (std_layout cap) = 768 + 256 * cap"
  by (simp_all add: std_layout_def)

lemma layout_for_capacity_eq:
  "layout_for_capacity n =
     (let cap = pow2_from (max n 1) 1 in if 768 + 256 * cap < 2 ^ 64 then Ok (std_layout cap) else Panic)"
  by (auto simp: layout_for_capacity_def ring_capacity_for_def expect_add_def expect_mul_def Let_def page_consts std_layout_def)

lemma layout_for_capacity_Ok:
  assumes "layout_for_capacity n = Ok l"
  obtains k where "l = std_layout (2 ^ k)" "n \<le> 2 ^ k" "768 + 256 * 2 ^ k < (2::nat) ^ 64"
  using assms pow2_from_power [of "max n 1" 0] by (auto simp: layout_for_capacity_eq Let_def split: if_splits)

lemma layout_for_power: "768 + 256 * 2 ^ k < (2::nat) ^ 64 \<Longrightarrow> layout_for_capacity (2 ^ k) = Ok (std_layout (2 ^ k))"
  using pow2_from_exact [of 0 k] by (simp add: layout_for_capacity_eq Let_def)

text \<open>A page as the methods rely on it: the layout of a power of two, inside the mapping.\<close>

definition page_wf :: "control_page \<Rightarrow> bool" where
  "page_wf p \<longleftrightarrow> (\<exists>k. pg_layout p = std_layout (2 ^ k) \<and> 768 + 256 * 2 ^ k < (2::nat) ^ 64 \<and>
     768 + 256 * 2 ^ k \<le> segment_len (pg_storage p))"

abbreviation cap_of :: "control_page \<Rightarrow> nat" where
  "cap_of p \<equiv> pl_slot_capacity (pg_layout p)"

section \<open>Cells that do not overlap\<close>

locale cells =
  fixes rd :: "'m \<Rightarrow> 'l \<Rightarrow> bytes"
    and wr :: "'l \<Rightarrow> bytes \<Rightarrow> 'm \<Rightarrow> 'm"
    and size :: "'l \<Rightarrow> nat"
    and ok :: "'m \<Rightarrow> 'l \<Rightarrow> bool"
  assumes read_write: "ok m l \<Longrightarrow> ok m l' \<Longrightarrow> length bs = size l \<Longrightarrow> rd (wr l bs m) l' = (if l' = l then bs else rd m l')"
    and ok_write: "ok m l \<Longrightarrow> length bs = size l \<Longrightarrow> ok (wr l bs m) l' = ok m l'"
begin

primrec write_all :: "('l \<times> bytes) list \<Rightarrow> 'm \<Rightarrow> 'm" where
  "write_all [] m = m"
| "write_all (w # ws) m = write_all ws (wr (fst w) (snd w) m)"

definition fits :: "'m \<Rightarrow> ('l \<times> bytes) list \<Rightarrow> bool" where
  "fits m ws \<longleftrightarrow> (\<forall>(l, bs)\<in>set ws. ok m l \<and> length bs = size l)"

lemma ok_write_all: "fits m ws \<Longrightarrow> ok (write_all ws m) l = ok m l"
proof (induction ws arbitrary: m)
  case (Cons w ws)
  then have w: "ok m (fst w)" "length (snd w) = size (fst w)" "fits m ws" by (auto simp: fits_def)
  then have "fits (wr (fst w) (snd w) m) ws" by (simp add: fits_def ok_write)
  then show ?case using w by (simp add: Cons.IH ok_write)
qed simp

text \<open>Of several writes the last one to a cell stands, and the other cells are untouched.\<close>

lemma read_write_all:
  assumes "fits m ws" "ok m l"
  shows "rd (write_all ws m) l = (case map_of (rev ws) l of Some bs \<Rightarrow> bs | None \<Rightarrow> rd m l)"
  using assms
proof (induction ws arbitrary: m)
  case (Cons w ws)
  let ?m = "wr (fst w) (snd w) m"
  have w: "ok m (fst w)" "length (snd w) = size (fst w)" "fits m ws" using Cons.prems by (auto simp: fits_def)
  then have "fits ?m ws" "ok ?m l" using Cons.prems(2) by (simp_all add: fits_def ok_write)
  then show ?case
    using w Cons.prems(2) by (cases w) (simp add: Cons.IH read_write map_add_def split: option.split)
qed simp

end

datatype cell = ProducerCursor | ConfigCursor | SlotWord nat | SlotBody nat | ConfigWord nat | ConfigBody nat | ConsumerCell nat

fun cell_offset :: "nat \<Rightarrow> cell \<Rightarrow> nat" where
  "cell_offset cap ProducerCursor = 128"
| "cell_offset cap ConfigCursor = 136"
| "cell_offset cap (SlotWord i) = 256 + 128 * i"
| "cell_offset cap (SlotBody i) = 264 + 128 * i"
| "cell_offset cap (ConfigWord i) = 256 + 128 * cap + 128 * i"
| "cell_offset cap (ConfigBody i) = 264 + 128 * cap + 128 * i"
| "cell_offset cap (ConsumerCell i) = 768 + 128 * cap + 128 * i"

fun cell_size :: "cell \<Rightarrow> nat" where
  "cell_size (SlotBody i) = 120"
| "cell_size (ConfigBody i) = 120"
| "cell_size (ConsumerCell i) = 128"
| "cell_size c = 8"

fun cell_in :: "nat \<Rightarrow> cell \<Rightarrow> bool" where
  "cell_in cap (SlotWord i) = (i < cap)"
| "cell_in cap (SlotBody i) = (i < cap)"
| "cell_in cap (ConfigWord i) = (i < 4)"
| "cell_in cap (ConfigBody i) = (i < 4)"
| "cell_in cap (ConsumerCell i) = (i < cap)"
| "cell_in cap c = True"

lemma cells_disjoint:
  "cell_in cap c \<Longrightarrow> cell_in cap d \<Longrightarrow> c \<noteq> d \<Longrightarrow>
     cell_offset cap c + cell_size c \<le> cell_offset cap d \<or> cell_offset cap d + cell_size d \<le> cell_offset cap c"
  by (cases c; cases d) auto

lemma cell_bound: "cell_in cap c \<Longrightarrow> cell_offset cap c + cell_size c \<le> 768 + 256 * cap"
  by (cases c) auto

lemma cell_after_constants: "128 \<le> cell_offset cap c"
  by (cases c) auto

definition read_cell :: "control_page \<Rightarrow> cell \<Rightarrow> bytes" where
  "read_cell p c = get_bytes (cell_offset (cap_of p) c) (cell_size c) (sg_bytes (pg_storage p))"

definition write_cell :: "cell \<Rightarrow> bytes \<Rightarrow> control_page \<Rightarrow> control_page" where
  "write_cell c bs p = p\<lparr> pg_storage := (pg_storage p)
     \<lparr> sg_bytes := put_bytes (cell_offset (cap_of p) c) bs (sg_bytes (pg_storage p)) \<rparr> \<rparr>"

definition cell_ok :: "control_page \<Rightarrow> cell \<Rightarrow> bool" where
  "cell_ok p c \<longleftrightarrow> page_wf p \<and> cell_in (cap_of p) c"

lemma page_wf_cap: "page_wf p \<Longrightarrow> \<exists>k. cap_of p = 2 ^ k" "page_wf p \<Longrightarrow> 768 + 256 * cap_of p \<le> segment_len (pg_storage p)"
  "page_wf p \<Longrightarrow> 768 + 256 * cap_of p < 2 ^ 64" "page_wf p \<Longrightarrow> pg_layout p = std_layout (cap_of p)"
  by (auto simp: page_wf_def)

lemma cell_fits: "cell_ok p c \<Longrightarrow> cell_offset (cap_of p) c + cell_size c \<le> length (sg_bytes (pg_storage p))"
  using cell_bound [of "cap_of p" c] page_wf_cap(2) [of p] by (simp add: cell_ok_def segment_len_def)

lemma write_cell_fields [simp]:
  "pg_layout (write_cell c bs p) = pg_layout p" "pg_producer_config (write_cell c bs p) = pg_producer_config p"
  "sg_writable (pg_storage (write_cell c bs p)) = sg_writable (pg_storage p)"
  by (simp_all add: write_cell_def)

lemma write_cell_len [simp]:
  "cell_ok p c \<Longrightarrow> length bs = cell_size c \<Longrightarrow> segment_len (pg_storage (write_cell c bs p)) = segment_len (pg_storage p)"
  using cell_fits [of p c] by (simp add: write_cell_def segment_len_def)

lemma write_cell_ok: "cell_ok p c \<Longrightarrow> length bs = cell_size c \<Longrightarrow> cell_ok (write_cell c bs p) d = cell_ok p d"
  using write_cell_len [of p c bs] by (simp add: cell_ok_def page_wf_def)

lemma read_write_cell:
  assumes "cell_ok p c" "cell_ok p d" "length bs = cell_size c"
  shows "read_cell (write_cell c bs p) d = (if d = c then bs else read_cell p d)"
  using cell_fits [OF assms(1)] cell_fits [OF assms(2)] cells_disjoint [of "cap_of p" c d] assms
  by (auto simp: read_cell_def write_cell_def cell_ok_def get_put_same intro!: get_put_other)

interpretation pc: cells read_cell write_cell cell_size cell_ok
  by unfold_locales (simp_all add: read_write_cell write_cell_ok)

section \<open>The accesses as cells\<close>

definition word_at :: "control_page \<Rightarrow> cell \<Rightarrow> u64" where
  "word_at p c = from_le (read_cell p c)"

lemma page_wf_layout:
  assumes "page_wf p"
  obtains k where "pg_layout p = std_layout (2 ^ k)" "768 + 256 * 2 ^ k < (2::nat) ^ 64" "768 + 256 * 2 ^ k \<le> segment_len (pg_storage p)"
  using assms by (auto simp: page_wf_def)

lemma loads:
  assumes "page_wf p"
  shows "load_header_producer_cursor p = Ok (word_at p ProducerCursor)"
    and "load_header_config_cursor p = Ok (word_at p ConfigCursor)"
    and "i < cap_of p \<Longrightarrow> load_slot_publication_sequence i p = Ok (word_at p (SlotWord i))"
    and "i < 4 \<Longrightarrow> load_config_generation i p = Ok (word_at p (ConfigWord i))"
    and "i < cap_of p \<Longrightarrow> read_slot_descriptor i p = Ok (slot_of_bytes (read_cell p (SlotBody i)))"
    and "i < 4 \<Longrightarrow> read_config_descriptor i p = Ok (config_of_bytes (read_cell p (ConfigBody i)))"
    and "i < cap_of p \<Longrightarrow> consumer_cursor_entry i p = Ok (consumer_of_bytes (read_cell p (ConsumerCell i)))"
proof -
  obtain k where k: "pg_layout p = std_layout (2 ^ k)" "768 + 256 * 2 ^ k \<le> segment_len (pg_storage p)"
    using assms by (rule page_wf_layout)
  note acc = page_ops word_at_def read_cell_def k(1) slice_at_get page_consts
  have pos: "(1::nat) \<le> 2 ^ k" by simp
  have b: "4 * 128 \<le> segment_len (pg_storage p)" using k(2) by simp
  have idx: "i < (2::nat) ^ k \<Longrightarrow> 256 + 128 * i + 128 \<le> segment_len (pg_storage p)" for i using k(2) by linarith
  have idc: "i < 4 \<Longrightarrow> 256 + 128 * 2 ^ k + 128 * i + 128 \<le> segment_len (pg_storage p)" for i using k(2) pos by linarith
  have idu: "i < (2::nat) ^ k \<Longrightarrow> 768 + 128 * 2 ^ k + 128 * i + 128 \<le> segment_len (pg_storage p)" for i using k(2) by linarith
  show "load_header_producer_cursor p = Ok (word_at p ProducerCursor)" "load_header_config_cursor p = Ok (word_at p ConfigCursor)"
    using b by (simp_all add: acc)
  show "i < cap_of p \<Longrightarrow> load_slot_publication_sequence i p = Ok (word_at p (SlotWord i))"
    "i < cap_of p \<Longrightarrow> read_slot_descriptor i p = Ok (slot_of_bytes (read_cell p (SlotBody i)))"
    using idx [of i] by (simp_all add: acc mult.commute mod_add_eq [symmetric] mod_mult_eq [symmetric])
  show "i < 4 \<Longrightarrow> load_config_generation i p = Ok (word_at p (ConfigWord i))"
    "i < 4 \<Longrightarrow> read_config_descriptor i p = Ok (config_of_bytes (read_cell p (ConfigBody i)))"
    using idc [of i] by (simp_all add: acc add.assoc mult.commute mod_add_eq [symmetric] mod_mult_eq [symmetric])
  show "i < cap_of p \<Longrightarrow> consumer_cursor_entry i p = Ok (consumer_of_bytes (read_cell p (ConsumerCell i)))"
    using idu [of i] by (simp add: acc consumer_cursor_entry_def consumer_offset_def mult.commute)
qed

lemma stores:
  assumes "page_wf p" "sg_writable (pg_storage p)"
  shows "store_header_producer_cursor v p = Ok (write_cell ProducerCursor (le64 v) p)"
    and "store_header_config_cursor v p = Ok (write_cell ConfigCursor (le64 v) p)"
    and "i < cap_of p \<Longrightarrow> store_slot_publication_sequence i v p = Ok (write_cell (SlotWord i) (le64 v) p)"
    and "i < 4 \<Longrightarrow> store_config_generation i v p = Ok (write_cell (ConfigWord i) (le64 v) p)"
    and "i < cap_of p \<Longrightarrow> store_slot_descriptor i f p = Ok (write_cell (SlotBody i) (slot_bytes f) p)"
    and "i < 4 \<Longrightarrow> store_config_descriptor i c p = Ok (write_cell (ConfigBody i) (config_bytes c) p)"
    and "i < cap_of p \<Longrightarrow> write_consumer_entry i e p = Ok (write_cell (ConsumerCell i) (consumer_bytes e) p)"
proof -
  obtain k where k: "pg_layout p = std_layout (2 ^ k)" "768 + 256 * 2 ^ k \<le> segment_len (pg_storage p)"
    using assms(1) by (rule page_wf_layout)
  note acc = page_ops write_cell_def k(1) segment_write_put assms(2) page_consts
  have pos: "(1::nat) \<le> 2 ^ k" by simp
  have b: "4 * 128 \<le> segment_len (pg_storage p)" using k(2) by simp
  have idx: "i < (2::nat) ^ k \<Longrightarrow> 256 + 128 * i + 128 \<le> segment_len (pg_storage p)" for i using k(2) by linarith
  have idc: "i < 4 \<Longrightarrow> 256 + 128 * 2 ^ k + 128 * i + 128 \<le> segment_len (pg_storage p)" for i using k(2) pos by linarith
  have idu: "i < (2::nat) ^ k \<Longrightarrow> 768 + 128 * 2 ^ k + 128 * i + 128 \<le> segment_len (pg_storage p)" for i using k(2) by linarith
  show "store_header_producer_cursor v p = Ok (write_cell ProducerCursor (le64 v) p)"
    "store_header_config_cursor v p = Ok (write_cell ConfigCursor (le64 v) p)"
    using b by (simp_all add: acc)
  show "i < cap_of p \<Longrightarrow> store_slot_publication_sequence i v p = Ok (write_cell (SlotWord i) (le64 v) p)"
    "i < cap_of p \<Longrightarrow> store_slot_descriptor i f p = Ok (write_cell (SlotBody i) (slot_bytes f) p)"
    using idx [of i] by (simp_all add: acc mult.commute mod_add_eq [symmetric] mod_mult_eq [symmetric])
  show "i < 4 \<Longrightarrow> store_config_generation i v p = Ok (write_cell (ConfigWord i) (le64 v) p)"
    "i < 4 \<Longrightarrow> store_config_descriptor i c p = Ok (write_cell (ConfigBody i) (config_bytes c) p)"
    using idc [of i] by (simp_all add: acc add.assoc mult.commute mod_add_eq [symmetric] mod_mult_eq [symmetric])
  show "i < cap_of p \<Longrightarrow> write_consumer_entry i e p = Ok (write_cell (ConsumerCell i) (consumer_bytes e) p)"
    using idu [of i] by (simp add: acc write_consumer_entry_def consumer_offset_def mult.commute)
qed

lemma write_cell_wf: "page_wf p \<Longrightarrow> cell_in (cap_of p) c \<Longrightarrow> length bs = cell_size c \<Longrightarrow> page_wf (write_cell c bs p)"
  using write_cell_ok [of p c bs c] by (simp add: cell_ok_def)

end
