(* ===== verification/Control_Refinement.thy ===== *)
theory Control_Refinement
  imports Control_Ring
begin

text \<open>
  The ring that the control page implements: the history of published frames, each with the
  generation of its stream configuration, and the list of configurations.  \<open>page_push\<close> and
  \<open>read_entry_for_cursor\<close> on the bytes of the page agree with it, errors included.
\<close>

section \<open>The abstract ring\<close>

record ring_spec =
  rs_frames :: "(pending_entry \<times> nat) list"
  rs_configs :: "stream_config list"

definition spec_empty :: ring_spec where
  "spec_empty = \<lparr> rs_frames = [], rs_configs = [] \<rparr>"

definition spec_config :: "stream_config \<Rightarrow> ring_spec \<Rightarrow> stream_config list" where
  "spec_config c a = (if rs_configs a \<noteq> [] \<and> last (rs_configs a) = c then rs_configs a else rs_configs a @ [c])"

definition spec_push :: "pending_entry \<Rightarrow> ring_spec \<Rightarrow> ring_spec" where
  "spec_push e a =
     (let cs = spec_config (entry_config e) a in \<lparr> rs_frames = rs_frames a @ [(e, length cs)], rs_configs = cs \<rparr>)"

definition spec_entry :: "u64 \<Rightarrow> pending_entry \<Rightarrow> nat \<Rightarrow> ring_entry" where
  "spec_entry cursor e g = pending_entry.extend e (ring_entry.fields cursor (of_nat g))"

text \<open>What a reader may see: the last \<open>cap\<close> frames, as long as their configuration is one of the last four.\<close>

definition oldest_of :: "nat \<Rightarrow> nat \<Rightarrow> nat" where
  "oldest_of n cap = n - min n cap + 1"

text \<open>The generation, of \<open>m\<close>, that took the place of generation \<open>g\<close>.\<close>

definition replaced_by :: "nat \<Rightarrow> nat \<Rightarrow> nat" where
  "replaced_by g m = m - (m - g) mod 4"

definition spec_read :: "nat \<Rightarrow> ring_spec \<Rightarrow> u64 \<Rightarrow> (ring_entry, ring_read_error) outcome" where
  "spec_read cap a cursor =
     (let n = length (rs_frames a); m = length (rs_configs a); oldest = oldest_of n cap in
      if n = 0 then Err RingEmpty
      else if n < unat cursor then Err (NotPublished cursor (of_nat n))
      else if unat cursor < oldest then Err (Lapped cursor (of_nat oldest) (of_nat n))
      else let (e, g) = rs_frames a ! (unat cursor - 1) in
        if g + 4 \<le> m then let now = of_nat (replaced_by g m) in Err (ConfigOverwritten cursor (of_nat g) now now)
        else Ok (spec_entry cursor e g))"

lemma entry_from_parts_spec: "entry_from_parts cursor (entry_slot e x) (of_nat g) (entry_config e) = spec_entry cursor e g"
  by (simp add: entry_from_parts_def entry_slot_def entry_config_def spec_entry_def pending_entry.defs ring_entry.defs)

section \<open>Index arithmetic\<close>

lemma unat_and_mask:
  assumes "k < 64"
  shows "unat ((x::u64) AND of_nat (2 ^ k - 1)) = unat x mod 2 ^ k"
proof -
  have "(of_nat (2 ^ k - 1) :: u64) = mask k" by (simp add: mask_eq_exp_minus_1 of_nat_diff)
  then have "x AND of_nat (2 ^ k - 1) = take_bit k x" by (simp only: take_bit_eq_mask)
  then show ?thesis by (simp only: unsigned_take_bit_eq) (simp only: take_bit_eq_mod)
qed

lemma unat_of_nat64: "n < 2 ^ 64 \<Longrightarrow> unat (of_nat n :: u64) = n"
  by (simp add: unat_of_nat)

text \<open>The latest number up to \<open>m\<close> in the residue class of \<open>g\<close>.\<close>

lemma latest_in_class:
  fixes g m :: nat
  assumes "g \<le> m"
  shows "g \<le> replaced_by g m" "m < replaced_by g m + 4" "replaced_by g m mod 4 = g mod 4"
    "replaced_by g m = g \<longleftrightarrow> m < g + 4"
proof -
  obtain d where m: "m = g + d" using assms le_Suc_ex by blast
  have e: "g + d - d mod 4 = g + 4 * (d div 4)" using mult_div_mod_eq [of 4 d] by linarith
  show "g \<le> replaced_by g m" "m < replaced_by g m + 4" "replaced_by g m mod 4 = g mod 4"
    "replaced_by g m = g \<longleftrightarrow> m < g + 4"
    using m e mod_less_divisor [of 4 d] by (auto simp: replaced_by_def div_eq_0_iff)
qed

lemma mod_window: "0 < (c::nat) \<Longrightarrow> j < n \<Longrightarrow> n < j + c \<Longrightarrow> j mod c \<noteq> n mod c"
  using mod_eq_dvd_iff_nat [of j n c] by (auto dest: dvd_imp_le)

lemma config_index: "unat ((g::u64) AND config_index_mask (std_layout cap)) = unat g mod 4"
  using unat_and_mask [of 2 g] by (simp add: config_index_mask_def)

lemma slot_index: "k < 64 \<Longrightarrow> unat ((c::u64) AND slot_index_mask (std_layout (2 ^ k))) = unat c mod 2 ^ k"
  by (simp only: slot_index_mask_def std_layout_simps unat_and_mask)

lemma cap_exponent: "768 + 256 * 2 ^ k < (2::nat) ^ 64 \<Longrightarrow> k < 64"
  using power_strict_increasing_iff [of "2::nat" k 64] by (simp add: not_less)

section \<open>The simulation relation\<close>

definition frame_in :: "control_page \<Rightarrow> nat \<Rightarrow> pending_entry \<times> nat \<Rightarrow> bool" where
  "frame_in p j f \<longleftrightarrow> word_at p (SlotWord (j mod cap_of p)) = of_nat (j + 1) \<and>
     read_cell p (SlotBody (j mod cap_of p)) = slot_bytes (entry_slot (fst f) (of_nat (snd f)))"

definition config_in :: "control_page \<Rightarrow> nat \<Rightarrow> stream_config \<Rightarrow> bool" where
  "config_in p g c \<longleftrightarrow> word_at p (ConfigWord (g mod 4)) = of_nat g \<and> read_cell p (ConfigBody (g mod 4)) = config_bytes c"

definition spec_ok :: "ring_spec \<Rightarrow> bool" where
  "spec_ok a \<longleftrightarrow> length (rs_frames a) < 2 ^ 64 \<and> length (rs_configs a) < 2 ^ 32 \<and>
     (\<forall>(e, g)\<in>set (rs_frames a). 1 \<le> g \<and> g \<le> length (rs_configs a) \<and> rs_configs a ! (g - 1) = entry_config e)"

definition ring_rel :: "ring_spec \<Rightarrow> control_page \<Rightarrow> bool" where
  "ring_rel a p \<longleftrightarrow> page_wf p \<and> spec_ok a \<and>
     word_at p ProducerCursor = of_nat (length (rs_frames a)) \<and> word_at p ConfigCursor = of_nat (length (rs_configs a)) \<and>
     (\<forall>j<length (rs_frames a). length (rs_frames a) \<le> j + cap_of p \<longrightarrow> frame_in p j (rs_frames a ! j)) \<and>
     (\<forall>g. 1 \<le> g \<longrightarrow> g \<le> length (rs_configs a) \<longrightarrow> length (rs_configs a) < g + 4 \<longrightarrow> config_in p g (rs_configs a ! (g - 1)))"

text \<open>The producer's own view of a page adds its cached configuration and the right to write.\<close>

definition producer_rel :: "ring_spec \<Rightarrow> control_page \<Rightarrow> bool" where
  "producer_rel a p \<longleftrightarrow> ring_rel a p \<and> sg_writable (pg_storage p) \<and>
     pg_producer_config p = (if rs_configs a = [] then None else Some (of_nat (length (rs_configs a)), last (rs_configs a)))"

section \<open>Reading\<close>

lemma read_slot_seqlock_wf:
  "page_wf p \<Longrightarrow> i < cap_of p \<Longrightarrow> read_slot_seqlock i c p =
     (if word_at p (SlotWord i) \<noteq> c then Err (SlotSequenceMismatch c (word_at p (SlotWord i)) (word_at p (SlotWord i)))
      else Ok (slot_of_bytes (read_cell p (SlotBody i))))"
  by (simp add: read_slot_seqlock_def loads)

lemma read_config_seqlock_wf:
  assumes "page_wf p" "g \<noteq> 0"
  shows "read_config_seqlock g p =
     (let w = word_at p (ConfigWord (unat g mod 4)) in
      if w \<noteq> g then Err (w, w) else Ok (config_of_bytes (read_cell p (ConfigBody (unat g mod 4)))))"
proof -
  obtain k where "pg_layout p = std_layout (2 ^ k)" using assms(1) by (rule page_wf_layout)
  then show ?thesis using assms by (simp add: read_config_seqlock_def loads config_index Let_def)
qed

lemma unat_u32_generation: "g < 2 ^ 32 \<Longrightarrow> (ucast (of_nat g :: u32) :: u64) = of_nat g"
  by (rule word_unat_eq_iff [THEN iffD2]) (simp add: unat_of_nat)

lemma read_config_spec:
  assumes "ring_rel a p" "1 \<le> g" "g \<le> length (rs_configs a)"
  shows "read_config_seqlock (of_nat g) p =
     (if g + 4 \<le> length (rs_configs a)
      then let now = of_nat (replaced_by g (length (rs_configs a))) in Err (now, now)
      else Ok (rs_configs a ! (g - 1)))"
proof -
  let ?m = "length (rs_configs a)"
  let ?now = "replaced_by g ?m"
  have m: "?m < 2 ^ 32" and wf: "page_wf p" using assms(1) by (simp_all add: ring_rel_def spec_ok_def)
  have small: "h \<le> ?m \<Longrightarrow> unat (of_nat h :: u64) = h" for h using m by (intro unat_of_nat64) simp
  note now = latest_in_class [OF assms(3)]
  have le: "?now \<le> ?m" by (simp add: replaced_by_def)
  have "\<forall>h. 1 \<le> h \<longrightarrow> h \<le> ?m \<longrightarrow> ?m < h + 4 \<longrightarrow> config_in p h (rs_configs a ! (h - 1))" using assms(1) unfolding ring_rel_def by blast
  then have "config_in p ?now (rs_configs a ! (?now - 1))" using order.trans [OF assms(2) now(1)] now(2) le by blast
  then have c: "word_at p (ConfigWord (g mod 4)) = of_nat ?now"
    "read_cell p (ConfigBody (g mod 4)) = config_bytes (rs_configs a ! (?now - 1))"
    using now(3) by (simp_all only: config_in_def)
  have nz: "(of_nat g :: u64) \<noteq> 0" using small [OF assms(3)] assms(2) by (metis not_one_le_zero unat_0)
  have eq: "(of_nat ?now :: u64) = of_nat g \<longleftrightarrow> ?now = g" using small [OF le] small [OF assms(3)] by metis
  show ?thesis
  proof (cases "?m < g + 4")
    case True
    then have "?now = g" using now(4) by simp
    then show ?thesis
      using read_config_seqlock_wf [OF wf nz] c True small [OF assms(3)] by (simp add: Let_def)
  next
    case False
    then have "(of_nat ?now :: u64) \<noteq> of_nat g" using now(4) eq by simp
    then show ?thesis
      using read_config_seqlock_wf [OF wf nz] c(1) False small [OF assms(3)] by (simp add: Let_def)
  qed
qed

lemma read_entry_spec:
  assumes rel: "ring_rel a p"
  shows "read_entry_for_cursor cursor p = spec_read (cap_of p) a cursor"
proof -
  let ?n = "length (rs_frames a)" and ?cap = "cap_of p" and ?i = "unat cursor - 1"
  have wf: "page_wf p" and n: "?n < 2 ^ 64" and pc: "word_at p ProducerCursor = of_nat ?n" using rel by (simp_all add: ring_rel_def spec_ok_def)
  obtain k where k: "pg_layout p = std_layout (2 ^ k)" "768 + 256 * 2 ^ k < (2::nat) ^ 64" using wf by (rule page_wf_layout)
  have cap: "0 < ?cap" "?cap < 2 ^ 64" using k by simp_all
  have un: "unat (of_nat ?n :: u64) = ?n" by (rule unat_of_nat64 [OF n])
  let ?old = "oldest_of ?n ?cap"
  have uold: "unat (of_nat ?old :: u64) = ?old" if "0 < ?n"
    using that n cap(1) by (intro unat_of_nat64) (simp add: oldest_of_def min_def, linarith)
  have "0 < ?n \<Longrightarrow> (of_nat ?n - min (of_nat ?n) (of_nat ?cap) + 1 :: u64) = of_nat ?old"
    using un cap(2) by (simp add: oldest_of_def min_def word_le_nat_alt unat_of_nat of_nat_diff)
  then have ends_eq: "latest_cursor p = Ok (if ?n = 0 then None else Some (of_nat ?n))"
    "oldest_live_cursor p = Ok (if ?n = 0 then None else Some (of_nat ?old))"
    using un pc by (auto simp: latest_cursor_def oldest_live_cursor_def loads [OF wf] word_less_nat_alt)
  show ?thesis
  proof (cases "?n = 0 \<or> ?n < unat cursor \<or> unat cursor < ?old")
    case True
    then show ?thesis
      using un uold by (auto simp: read_entry_for_cursor_def spec_read_def ends_eq Let_def word_less_nat_alt)
  next
    case False
    then have live: "?i < ?n" "?n \<le> ?i + ?cap" "1 \<le> unat cursor" using cap(1) by (auto simp: oldest_of_def min_def split: if_splits)
    obtain e g where f: "rs_frames a ! ?i = (e, g)" by (metis surj_pair)
    have fin: "frame_in p ?i (e, g)" using rel live f by (auto simp: ring_rel_def)
    have "(e, g) \<in> set (rs_frames a)" using f live(1) by (metis nth_mem)
    then have g: "1 \<le> g" "g \<le> length (rs_configs a)" "rs_configs a ! (g - 1) = entry_config e" "length (rs_configs a) < 2 ^ 32"
      using rel by (auto simp: ring_rel_def spec_ok_def)
    have gu: "(ucast (of_nat g :: u32) :: u64) = of_nat g" using g by (intro unat_u32_generation) simp
    have cur: "unat (cursor - 1) = ?i" using live(3) by (simp add: unat_minus word_le_nat_alt)
    have back_to: "(of_nat (Suc ?i) :: u64) = cursor" using live(3) by simp
    have idx: "unat ((cursor - 1) AND slot_index_mask (pg_layout p)) = ?i mod ?cap"
      using slot_index [OF cap_exponent [OF k(2)]] k(1) cur by simp
    have sl: "read_slot_seqlock (?i mod ?cap) cursor p = Ok (entry_slot e (of_nat g))"
      using fin cap(1) back_to by (simp add: read_slot_seqlock_wf [OF wf] frame_in_def)
    have "fs_config_generation (entry_slot e x) = x" for x by (simp add: entry_slot_def)
    then have "read_entry_for_cursor cursor p = map_outcome_ok (entry_from_parts cursor (entry_slot e (of_nat g)) (of_nat g))
        (map_err (\<lambda>(x, y). ConfigOverwritten cursor (of_nat g) x y) (read_config_seqlock (of_nat g) p))"
      using False un uold sl idx gu by (auto simp: read_entry_for_cursor_def ends_eq Let_def word_less_nat_alt)
    then show ?thesis
      using False f g entry_from_parts_spec [of cursor e "of_nat g" g]
      by (auto simp: spec_read_def Let_def read_config_spec [OF rel g(1,2)])
  qed
qed

section \<open>Publishing\<close>

lemma cell_fields_of_config [simp]:
  "read_cell (p\<lparr> pg_producer_config := x \<rparr>) c = read_cell p c" "word_at (p\<lparr> pg_producer_config := x \<rparr>) c = word_at p c"
  "page_wf (p\<lparr> pg_producer_config := x \<rparr>) = page_wf p"
  by (simp_all add: read_cell_def word_at_def page_wf_def)

definition config_writes :: "nat \<Rightarrow> u64 \<Rightarrow> stream_config \<Rightarrow> (cell \<times> bytes) list" where
  "config_writes i g c = [(ConfigWord i, le64 0), (ConfigBody i, config_bytes c), (ConfigWord i, le64 g), (ConfigCursor, le64 g)]"

definition slot_writes :: "nat \<Rightarrow> u64 \<Rightarrow> frame_slot \<Rightarrow> (cell \<times> bytes) list" where
  "slot_writes i c f = [(SlotWord i, le64 0), (SlotBody i, slot_bytes f), (SlotWord i, le64 c), (ProducerCursor, le64 c)]"

lemma config_writes_fit: "page_wf p \<Longrightarrow> i < 4 \<Longrightarrow> pc.fits p (config_writes i g c)"
  and slot_writes_fit: "page_wf p \<Longrightarrow> i < cap_of p \<Longrightarrow> pc.fits p (slot_writes i x f)"
  by (simp_all add: pc.fits_def config_writes_def slot_writes_def cell_ok_def)

lemma write_all_fields [simp]:
  "pg_layout (pc.write_all ws p) = pg_layout p" "pg_producer_config (pc.write_all ws p) = pg_producer_config p"
  "sg_writable (pg_storage (pc.write_all ws p)) = sg_writable (pg_storage p)"
  by (induction ws arbitrary: p) simp_all

lemma write_all_wf: "pc.fits p ws \<Longrightarrow> page_wf p \<Longrightarrow> page_wf (pc.write_all ws p)"
  using pc.ok_write_all [of p ws ProducerCursor] by (simp add: cell_ok_def)

lemma publish_stream_config_wf:
  assumes "page_wf p" "sg_writable (pg_storage p)"
  shows "publish_stream_config c p = (let g = word_at p ConfigCursor + 1 in
     Ok (g, (pc.write_all (config_writes (unat g mod 4) g c) p)\<lparr> pg_producer_config := Some (g, c) \<rparr>))"
proof -
  let ?g = "word_at p ConfigCursor + 1"
  obtain k where k: "pg_layout p = std_layout (2 ^ k)" using assms(1) by (rule page_wf_layout)
  have "unat ?g mod 4 < 4" by simp
  then show ?thesis
    using assms k by (simp add: publish_stream_config_def loads stores write_cell_wf config_index Let_def config_writes_def)
qed

lemma publish_slot_wf:
  assumes "page_wf p" "sg_writable (pg_storage p)" "i < cap_of p"
  shows "and_then (store_slot_publication_sequence i 0 p) (\<lambda>p2.
       and_then (store_slot_descriptor i f p2) (\<lambda>p3.
       and_then (store_slot_publication_sequence i c p3) (\<lambda>p4.
       and_then (store_header_producer_cursor c p4) (\<lambda>p5. Ok (c, p5))))) = Ok (c, pc.write_all (slot_writes i c f) p)"
  using assms by (simp add: stores write_cell_wf slot_writes_def)

lemma word_at_write_all:
  "pc.fits p ws \<Longrightarrow> cell_ok p l \<Longrightarrow>
     word_at (pc.write_all ws p) l = (case map_of (rev ws) l of Some bs \<Rightarrow> from_le bs | None \<Rightarrow> word_at p l)"
  by (simp add: word_at_def pc.read_write_all split: option.split)

text \<open>Publishing a new configuration: the generation after the last one takes the place of the
  configuration four generations back.\<close>

lemma config_step:
  assumes rel: "ring_rel a p" and w: "sg_writable (pg_storage p)" and room: "length (rs_configs a) + 1 < 2 ^ 32"
    and p': "p' = (pc.write_all (config_writes ((length (rs_configs a) + 1) mod 4) (of_nat (length (rs_configs a) + 1)) c) p)
        \<lparr> pg_producer_config := x \<rparr>"
  shows "ring_rel (a\<lparr> rs_configs := rs_configs a @ [c] \<rparr>) p'"
proof -
  let ?m = "length (rs_configs a)" and ?i = "(length (rs_configs a) + 1) mod 4"
  let ?ws = "config_writes ?i (of_nat (?m + 1)) c"
  have wf: "page_wf p" using rel by (simp add: ring_rel_def)
  have fit: "pc.fits p ?ws" using wf by (simp add: config_writes_fit)
  have rd: "read_cell p' l = (case map_of (rev ?ws) l of Some bs \<Rightarrow> bs | None \<Rightarrow> read_cell p l)"
    "word_at p' l = (case map_of (rev ?ws) l of Some bs \<Rightarrow> from_le bs | None \<Rightarrow> word_at p l)" if "cell_in (cap_of p) l" for l
    unfolding p' cell_fields_of_config using that wf
    by (intro pc.read_write_all [OF fit] word_at_write_all [OF fit]; simp add: cell_ok_def)+
  have cap: "cap_of p' = cap_of p" "0 < cap_of p" using page_wf_cap(1) [OF wf] by (auto simp: p')
  have "config_in p' g ((rs_configs a @ [c]) ! (g - 1))" if "1 \<le> g" "g \<le> ?m + 1" "?m + 1 < g + 4" for g
  proof (cases "g = ?m + 1")
    case True
    then show ?thesis by (simp add: config_in_def rd config_writes_def)
  next
    case False
    then have ne: "g mod 4 \<noteq> ?i" using that mod_window [of 4 g "?m + 1"] by simp
    have "config_in p g (rs_configs a ! (g - 1))" using rel that False by (simp add: ring_rel_def)
    then show ?thesis using ne that False by (auto simp: config_in_def rd config_writes_def nth_append)
  qed
  moreover have "frame_in p' j f = frame_in p j f" for j f
    using cap by (simp add: frame_in_def rd config_writes_def)
  moreover have "spec_ok (a\<lparr> rs_configs := rs_configs a @ [c] \<rparr>)"
    using rel room by (auto simp: ring_rel_def spec_ok_def nth_append split_beta)
  moreover have "page_wf p'" using write_all_wf [OF fit wf] by (simp add: p')
  ultimately show ?thesis
    using rel cap by (simp add: ring_rel_def rd config_writes_def)
qed

lemma frame_step:
  assumes rel: "ring_rel a p" and room: "length (rs_frames a) + 1 < 2 ^ 64"
    and g: "1 \<le> g" "g \<le> length (rs_configs a)" "rs_configs a ! (g - 1) = entry_config e"
    and p': "p' = pc.write_all (slot_writes (length (rs_frames a) mod cap_of p) (of_nat (length (rs_frames a) + 1))
        (entry_slot e (of_nat g))) p"
  shows "ring_rel (a\<lparr> rs_frames := rs_frames a @ [(e, g)] \<rparr>) p'"
proof -
  let ?n = "length (rs_frames a)"
  let ?i = "?n mod cap_of p"
  let ?ws = "slot_writes ?i (of_nat (?n + 1)) (entry_slot e (of_nat g))"
  have wf: "page_wf p" using rel by (simp add: ring_rel_def)
  have cap: "cap_of p' = cap_of p" "0 < cap_of p" using page_wf_cap(1) [OF wf] by (auto simp: p')
  then have fit: "pc.fits p ?ws" using wf by (simp add: slot_writes_fit)
  have rd: "read_cell p' l = (case map_of (rev ?ws) l of Some bs \<Rightarrow> bs | None \<Rightarrow> read_cell p l)"
    "word_at p' l = (case map_of (rev ?ws) l of Some bs \<Rightarrow> from_le bs | None \<Rightarrow> word_at p l)" if "cell_in (cap_of p) l" for l
    unfolding p' cell_fields_of_config using that wf
    by (intro pc.read_write_all [OF fit] word_at_write_all [OF fit]; simp add: cell_ok_def)+
  have "frame_in p' j ((rs_frames a @ [(e, g)]) ! j)" if "j < ?n + 1" "?n + 1 \<le> j + cap_of p" for j
  proof (cases "j = ?n")
    case True
    then show ?thesis using cap by (simp add: frame_in_def rd slot_writes_def)
  next
    case False
    then have ne: "j mod cap_of p \<noteq> ?i" using that mod_window [of "cap_of p" j ?n] cap(2) by simp
    have "frame_in p j (rs_frames a ! j)" using rel that False by (simp add: ring_rel_def)
    then show ?thesis using ne that False cap by (auto simp: frame_in_def rd slot_writes_def nth_append)
  qed
  moreover have "config_in p' h c = config_in p h c" for h c
    by (simp add: config_in_def rd slot_writes_def)
  moreover have "spec_ok (a\<lparr> rs_frames := rs_frames a @ [(e, g)] \<rparr>)"
    using rel room g by (auto simp: ring_rel_def spec_ok_def)
  moreover have "page_wf p'" using write_all_wf [OF fit wf] by (simp add: p')
  ultimately show ?thesis
    using rel cap by (simp add: ring_rel_def rd slot_writes_def)
qed

lemma spec_config_props:
  "0 < length (spec_config c a)" "last (spec_config c a) = c" "spec_config c a ! (length (spec_config c a) - 1) = c"
  "length (spec_config c a) \<le> length (rs_configs a) + 1"
  by (auto simp: spec_config_def last_conv_nth)

lemma ensure_config_spec:
  assumes rel: "producer_rel a p" and room: "length (rs_configs a) + 1 < 2 ^ 32"
  obtains p' ws where "ensure_stream_config e p = Ok (of_nat (length (spec_config (entry_config e) a)), p')"
    "producer_rel (a\<lparr> rs_configs := spec_config (entry_config e) a \<rparr>) p'" "pg_layout p' = pg_layout p"
    "pg_storage p' = pg_storage (pc.write_all ws p)" "pc.fits p ws"
proof (cases "rs_configs a \<noteq> [] \<and> last (rs_configs a) = entry_config e")
  case True
  then have "ensure_stream_config e p = Ok (of_nat (length (spec_config (entry_config e) a)), p)"
    using rel by (simp add: ensure_stream_config_def producer_rel_def spec_config_def)
  moreover have "a\<lparr> rs_configs := spec_config (entry_config e) a \<rparr> = a" using True by (simp add: spec_config_def)
  ultimately show ?thesis using that [of p "[]"] rel by (simp add: pc.fits_def)
next
  case False
  let ?m = "length (rs_configs a)" and ?c = "entry_config e"
  have r: "ring_rel a p" "sg_writable (pg_storage p)" and wf: "page_wf p" and cc: "word_at p ConfigCursor = of_nat ?m"
    using rel by (simp_all add: producer_rel_def ring_rel_def)
  have cs: "spec_config ?c a = rs_configs a @ [?c]" using False by (auto simp: spec_config_def)
  let ?g = "word_at p ConfigCursor + 1"
  let ?ws = "config_writes (unat ?g mod 4) ?g ?c"
  let ?p = "(pc.write_all ?ws p)\<lparr> pg_producer_config := Some (?g, ?c) \<rparr>"
  have g: "?g = of_nat (?m + 1)" using cc by simp
  have ug: "unat ?g = ?m + 1" unfolding g using room by (intro unat_of_nat64) simp
  have ens: "ensure_stream_config e p = publish_stream_config ?c p"
    using rel False by (auto simp: ensure_stream_config_def producer_rel_def split: if_splits)
  have len: "of_nat (length (spec_config ?c a)) = ?g" unfolding g cs by simp
  have e: "ensure_stream_config e p = Ok (of_nat (length (spec_config ?c a)), ?p)"
    unfolding ens by (simp only: publish_stream_config_wf [OF wf r(2)] Let_def len)
  have "ring_rel (a\<lparr> rs_configs := rs_configs a @ [?c] \<rparr>) ?p"
    by (rule config_step [OF r room]) (simp only: ug g, simp only: ug [unfolded g])
  moreover have "sg_writable (pg_storage ?p)"
    "pg_producer_config ?p = Some (of_nat (length (rs_configs a @ [?c])), last (rs_configs a @ [?c]))"
    using r(2) g by simp_all
  ultimately have "producer_rel (a\<lparr> rs_configs := spec_config ?c a \<rparr>) ?p"
    unfolding producer_rel_def cs by simp
  moreover have "pc.fits p ?ws" using wf by (simp add: config_writes_fit)
  ultimately show ?thesis using that [of ?p ?ws] e by simp
qed

lemma push_spec:
  assumes rel: "producer_rel a p" and room: "length (rs_configs a) + 1 < 2 ^ 32" "length (rs_frames a) + 1 < 2 ^ 64"
  obtains p' ws where "page_push e p = Ok (of_nat (length (rs_frames a) + 1), p')" "producer_rel (spec_push e a) p'"
    "pg_layout p' = pg_layout p" "pg_storage p' = pg_storage (pc.write_all ws p)" "pc.fits p ws"
proof -
  let ?cs = "spec_config (entry_config e) a" and ?n = "length (rs_frames a)"
  let ?a = "a\<lparr> rs_configs := ?cs \<rparr>"
  obtain p1 ws1 where p1: "ensure_stream_config e p = Ok (of_nat (length ?cs), p1)" "producer_rel ?a p1" "pg_layout p1 = pg_layout p"
    "pg_storage p1 = pg_storage (pc.write_all ws1 p)" "pc.fits p ws1"
    by (rule ensure_config_spec [OF rel room(1), of e])
  have r: "ring_rel ?a p1" "sg_writable (pg_storage p1)" and wf: "page_wf p1" and pcur: "word_at p1 ProducerCursor = of_nat ?n"
    using p1(2) by (simp_all add: producer_rel_def ring_rel_def)
  obtain k where k: "pg_layout p1 = std_layout (2 ^ k)" "768 + 256 * 2 ^ k < (2::nat) ^ 64" using wf by (rule page_wf_layout)
  have n: "unat (of_nat ?n :: u64) = ?n" using room(2) by (intro unat_of_nat64) simp
  have sat: "saturating_add (of_nat ?n) 1 = (of_nat (?n + 1) :: u64)" using room(2) n by (simp add: saturating_add_def)
  have i: "unat ((of_nat (?n + 1) - 1 :: u64) AND slot_index_mask (pg_layout p1)) = ?n mod cap_of p1"
    using slot_index [OF cap_exponent [OF k(2)], of "of_nat ?n"] n k(1) by simp
  have lt: "?n mod cap_of p1 < cap_of p1" using k(1) by simp
  let ?ws = "slot_writes (?n mod cap_of p1) (of_nat (?n + 1)) (entry_slot e (of_nat (length ?cs)))"
  have "(ucast (of_nat (length ?cs) :: u64) :: u32) = of_nat (length ?cs)"
    by (rule word_unat_eq_iff [THEN iffD2]) (simp add: unat_of_nat unsigned_ucast_eq take_bit_eq_mod mod_mod_cancel)
  then have push: "page_push e p = Ok (of_nat (?n + 1), pc.write_all ?ws p1)"
    unfolding page_push_def p1(1) and_then.simps prod.case loads(1) [OF wf] Let_def pcur sat i
    by (simp only:) (rule publish_slot_wf [OF wf r(2) lt])
  have "ring_rel (?a\<lparr> rs_frames := rs_frames ?a @ [(e, length ?cs)] \<rparr>) (pc.write_all ?ws p1)"
    using spec_config_props [of "entry_config e" a] room by (intro frame_step [OF r(1)]) (simp_all add: Suc_le_eq)
  moreover have "?a\<lparr> rs_frames := rs_frames ?a @ [(e, length ?cs)] \<rparr> = spec_push e a" by (simp add: spec_push_def Let_def)
  moreover have "sg_writable (pg_storage (pc.write_all ?ws p1))"
    "pg_producer_config (pc.write_all ?ws p1) = Some (of_nat (length ?cs), last ?cs)" "rs_configs (spec_push e a) = ?cs" "?cs \<noteq> []"
    using p1(2) spec_config_props(1) [of "entry_config e" a] by (simp_all add: producer_rel_def spec_push_def Let_def)
  ultimately have rel': "producer_rel (spec_push e a) (pc.write_all ?ws p1)"
    unfolding producer_rel_def by (simp only: if_False simp_thms)
  have fit1: "pc.fits p1 ?ws" using slot_writes_fit [OF wf lt] .
  have same: "pg_storage (pc.write_all ws q) = pg_storage (pc.write_all ws r)" if "pg_storage q = pg_storage r" "pg_layout q = pg_layout r" for ws q r
    using that by (induction ws arbitrary: q r) (simp_all add: write_cell_def)
  have app: "pc.write_all (ws1 @ ?ws) p = pc.write_all ?ws (pc.write_all ws1 p)"
    for ws1 by (induction ws1 arbitrary: p) simp_all
  have "cell_ok p1 l = cell_ok p l" for l
    using p1(3-5) pc.ok_write_all [OF p1(5), of l] by (simp add: cell_ok_def page_wf_def)
  then have "pc.fits p (ws1 @ ?ws)" using fit1 p1(5) by (auto simp: pc.fits_def)
  moreover have "pg_storage (pc.write_all ?ws p1) = pg_storage (pc.write_all (ws1 @ ?ws) p)"
    unfolding app by (rule same) (simp_all add: p1)
  ultimately show ?thesis using that [OF push rel'] p1(3) by simp
qed

end
