(* ===== verification/Control_Seqlock.thy ===== *)
theory Control_Seqlock
  imports Seqlock Control_Refinement
begin

text \<open>
  A producer and any number of readers on one control page, interleaved access by access: the
  producer runs \<open>push\<close> (with \<open>ensure_stream_config\<close>), each reader \<open>read_entry_for_cursor\<close>.  The frame slots
  and the configurations are two seqlock rings.  A reader that returns an entry returns exactly the
  entry that was pushed under its cursor, however the accesses interleave.
\<close>

section \<open>State\<close>

definition frame_ix :: "page_layout \<Rightarrow> u64 \<Rightarrow> nat" where
  "frame_ix l c = unat ((c - 1) AND slot_index_mask l)"

definition config_ix :: "page_layout \<Rightarrow> u64 \<Rightarrow> nat" where
  "config_ix l g = unat (g AND config_index_mask l)"

datatype task = Idle | Configuring pending_entry | Framing pending_entry u64

datatype reader =
    Asked u64
  | Ranged u64 u64
  | InRange u64
  | ReadingSlot lap
  | GotSlot u64 frame_slot
  | ReadingConfig u64 frame_slot lap
  | Finished "(ring_entry, ring_read_error) outcome"

record live_page =
  lv_layout :: page_layout
  lv_frames :: ring
  lv_configs :: ring
  lv_cache :: "(u64 \<times> stream_config) option"
  lv_task :: task
  lv_pushed :: "(pending_entry \<times> u64) list"
  lv_readers :: "nat \<Rightarrow> reader"

definition live_init :: "page_layout \<Rightarrow> live_page" where
  "live_init l = \<lparr> lv_layout = l, lv_frames = ring_init 120, lv_configs = ring_init 120, lv_cache = None, lv_task = Idle,
     lv_pushed = [], lv_readers = (\<lambda>_. Finished (Err RingEmpty)) \<rparr>"

section \<open>Steps\<close>

definition start_push :: "pending_entry \<Rightarrow> live_page \<Rightarrow> live_page" where
  "start_push e y = y\<lparr> lv_task :=
     (case lv_cache y of
        Some (g, body) \<Rightarrow> if body = entry_config e then Framing e g else Configuring e
      | None \<Rightarrow> Configuring e) \<rparr>"

definition producer_access :: "nat \<Rightarrow> live_page \<Rightarrow> live_page" where
  "producer_access k y =
     (case lv_task y of
        Idle \<Rightarrow> y
      | Configuring e \<Rightarrow>
        let r = lv_configs y; r' = ring_access (config_ix (lv_layout y)) (config_bytes (entry_config e)) k r in
        if rg_stage r = Filled
        then y\<lparr> lv_configs := r', lv_cache := Some (rg_cursor r', entry_config e), lv_task := Framing e (rg_cursor r') \<rparr>
        else y\<lparr> lv_configs := r' \<rparr>
      | Framing e g \<Rightarrow>
        let r = lv_frames y; r' = ring_access (frame_ix (lv_layout y)) (slot_bytes (entry_slot e (ucast g))) k r in
        if rg_stage r = Filled then y\<lparr> lv_frames := r', lv_task := Idle \<rparr>
        else y\<lparr> lv_frames := r', lv_pushed := (if rg_stage r = Ready then lv_pushed y @ [(e, g)] else lv_pushed y) \<rparr>)"

definition reader_access :: "nat \<Rightarrow> live_page \<Rightarrow> reader \<Rightarrow> reader" where
  "reader_access k y rd =
     (let l = lv_layout y; frames = lv_frames y; configs = lv_configs y in
      case rd of
        Asked c \<Rightarrow>
          if rg_cursor frames = 0 then Finished (Err RingEmpty)
          else if rg_cursor frames < c then Finished (Err (NotPublished c (rg_cursor frames)))
          else Ranged c (rg_cursor frames)
      | Ranged c latest \<Rightarrow>
          let cur = rg_cursor frames; oldest = cur - min cur (of_nat (pl_slot_capacity l)) + 1 in
          if cur = 0 then Finished Panic
          else if c < oldest then Finished (Err (Lapped c oldest latest))
          else InRange c
      | InRange c \<Rightarrow> ReadingSlot (read_first (frame_ix l) 120 frames c)
      | ReadingSlot lap \<Rightarrow>
          if \<not> lap_complete lap then ReadingSlot (read_byte (frame_ix l) frames k lap)
          else (case read_second (frame_ix l) frames lap of
                  Ok bs \<Rightarrow> GotSlot (lap_expected lap) (slot_of_bytes bs)
                | Err (first, second) \<Rightarrow> Finished (Err (SlotSequenceMismatch (lap_expected lap) first second))
                | Panic \<Rightarrow> Finished Panic)
      | GotSlot c slot \<Rightarrow>
          if fs_config_generation slot = 0 then Finished (Err (ConfigOverwritten c 0 0 0))
          else ReadingConfig c slot (read_first (config_ix l) 120 configs (ucast (fs_config_generation slot)))
      | ReadingConfig c slot lap \<Rightarrow>
          if \<not> lap_complete lap then ReadingConfig c slot (read_byte (config_ix l) configs k lap)
          else (case read_second (config_ix l) configs lap of
                  Ok bs \<Rightarrow> Finished (Ok (entry_from_parts c slot (lap_expected lap) (config_of_bytes bs)))
                | Err (first, second) \<Rightarrow> Finished (Err (ConfigOverwritten c (lap_expected lap) first second))
                | Panic \<Rightarrow> Finished Panic)
      | Finished r \<Rightarrow> Finished r)"

text \<open>Fewer than \<open>2 ^ 32\<close> pushes: a slot names its configuration in 32 bits.\<close>

inductive live_reachable :: "page_layout \<Rightarrow> live_page \<Rightarrow> bool" for l where
  start: "layout_for_capacity n = Ok l \<Longrightarrow> live_reachable l (live_init l)"
| push: "live_reachable l y \<Longrightarrow> lv_task y = Idle \<Longrightarrow> length (rg_hist (lv_frames y)) + 1 < 2 ^ 32 \<Longrightarrow>
     live_reachable l (start_push e y)"
| produce: "live_reachable l y \<Longrightarrow> live_reachable l (producer_access k y)"
| ask: "live_reachable l y \<Longrightarrow> live_reachable l (y\<lparr> lv_readers := (lv_readers y)(i := Asked c) \<rparr>)"
| read: "live_reachable l y \<Longrightarrow> live_reachable l (y\<lparr> lv_readers := (lv_readers y)(i := reader_access k y (lv_readers y i)) \<rparr>)"

section \<open>Invariant\<close>

definition config_known :: "ring \<Rightarrow> u64 \<Rightarrow> stream_config \<Rightarrow> bool" where
  "config_known r g c \<longleftrightarrow> begun r g \<and> unat g < 2 ^ 32 \<and> published r g = config_bytes c"

fun task_ok :: "ring \<Rightarrow> ring \<Rightarrow> task \<Rightarrow> bool" where
  "task_ok F C Idle \<longleftrightarrow> rg_stage F = Ready \<and> rg_stage C = Ready \<and> length (rg_hist C) \<le> length (rg_hist F)"
| "task_ok F C (Configuring e) \<longleftrightarrow> rg_stage F = Ready \<and> length (rg_hist F) + 1 < 2 ^ 32 \<and>
     (if rg_stage C = Ready then length (rg_hist C) \<le> length (rg_hist F)
      else length (rg_hist C) \<le> length (rg_hist F) + 1 \<and> last (rg_hist C) = config_bytes (entry_config e))"
| "task_ok F C (Framing e g) \<longleftrightarrow> rg_stage C = Ready \<and> config_known C g (entry_config e) \<and>
     (if rg_stage F = Ready then length (rg_hist F) + 1 < 2 ^ 32 \<and> length (rg_hist C) \<le> length (rg_hist F) + 1
      else length (rg_hist C) \<le> length (rg_hist F))"

definition entry_ok :: "(pending_entry \<times> u64) list \<Rightarrow> u64 \<Rightarrow> ring_entry \<Rightarrow> bool" where
  "entry_ok pushed c x \<longleftrightarrow> c \<noteq> 0 \<and> unat c \<le> length pushed \<and>
     (case pushed ! (unat c - 1) of (e, g) \<Rightarrow> x = spec_entry c e (unat g))"

definition slot_ok :: "ring \<Rightarrow> u64 \<Rightarrow> frame_slot \<Rightarrow> bool" where
  "slot_ok F c slot \<longleftrightarrow> begun F c \<and> slot = slot_of_bytes (published F c)"

fun reader_ok :: "page_layout \<Rightarrow> ring \<Rightarrow> ring \<Rightarrow> (pending_entry \<times> u64) list \<Rightarrow> reader \<Rightarrow> bool" where
  "reader_ok l F C pushed (Asked c) = True"
| "reader_ok l F C pushed (Ranged c latest) = (rg_cursor F \<noteq> 0)"
| "reader_ok l F C pushed (InRange c) = (c \<noteq> 0)"
| "reader_ok l F C pushed (ReadingSlot lap) = (lap_ok (frame_ix l) 120 F lap \<and> lap_expected lap \<noteq> 0)"
| "reader_ok l F C pushed (GotSlot c slot) = slot_ok F c slot"
| "reader_ok l F C pushed (ReadingConfig c slot lap) = (slot_ok F c slot \<and> lap_ok (config_ix l) 120 C lap \<and>
     lap_expected lap = ucast (fs_config_generation slot) \<and> lap_expected lap \<noteq> 0)"
| "reader_ok l F C pushed (Finished r) = (r \<noteq> Panic \<and> (\<forall>x. r = Ok x \<longrightarrow> (\<exists>c. entry_ok pushed c x)))"

definition live_inv :: "page_layout \<Rightarrow> live_page \<Rightarrow> bool" where
  "live_inv l y \<longleftrightarrow> lv_layout y = l \<and> ring_inv (frame_ix l) 120 (lv_frames y) \<and> ring_inv (config_ix l) 120 (lv_configs y) \<and>
     rg_hist (lv_frames y) = map (\<lambda>(e, g). slot_bytes (entry_slot e (ucast g))) (lv_pushed y) \<and>
     (\<forall>(e, g)\<in>set (lv_pushed y). config_known (lv_configs y) g (entry_config e)) \<and>
     (\<forall>g c. lv_cache y = Some (g, c) \<longrightarrow> config_known (lv_configs y) g c) \<and>
     task_ok (lv_frames y) (lv_configs y) (lv_task y) \<and>
     (\<forall>i. reader_ok l (lv_frames y) (lv_configs y) (lv_pushed y) (lv_readers y i))"

section \<open>The producer\<close>

lemma config_known_moves: "moves ix C C' \<Longrightarrow> config_known C g c \<Longrightarrow> config_known C' g c"
  by (auto simp: config_known_def moves_def grows_begun grows_published)

lemma slot_ok_moves: "moves ix F F' \<Longrightarrow> slot_ok F c slot \<Longrightarrow> slot_ok F' c slot"
  by (auto simp: slot_ok_def moves_def grows_begun grows_published)

lemma entry_ok_append: "entry_ok pushed c x \<Longrightarrow> entry_ok (pushed @ l) c x"
  by (auto simp: entry_ok_def nth_append unat_gt_0 [symmetric])

lemma reader_ok_moves:
  assumes "reader_ok l F C pushed rd" "F' = F \<or> ring_moves_to (frame_ix l) F F'" "C' = C \<or> ring_moves_to (config_ix l) C C'"
  shows "reader_ok l F' C' (pushed @ new) rd"
  using assms entry_ok_append [of pushed _ _ new]
  by (cases rd) (auto simp: ring_moves_to_def intro: lap_ok_moves slot_ok_moves; blast)+

lemma live_invD:
  assumes "live_inv l y"
  shows "lv_layout y = l" "ring_inv (frame_ix l) 120 (lv_frames y)" "ring_inv (config_ix l) 120 (lv_configs y)"
    "rg_hist (lv_frames y) = map (\<lambda>(e, g). slot_bytes (entry_slot e (ucast g))) (lv_pushed y)"
    "(e, g) \<in> set (lv_pushed y) \<Longrightarrow> config_known (lv_configs y) g (entry_config e)"
    "lv_cache y = Some (g, c) \<Longrightarrow> config_known (lv_configs y) g c" "task_ok (lv_frames y) (lv_configs y) (lv_task y)"
    "reader_ok l (lv_frames y) (lv_configs y) (lv_pushed y) (lv_readers y i)"
  using assms by (auto simp: live_inv_def)

lemma configuring_inv:
  assumes inv: "live_inv l y" and t: "lv_task y = Configuring e"
  shows "live_inv l (producer_access k y)"
proof -
  let ?C = "lv_configs y" and ?F = "lv_frames y"
  let ?C' = "ring_access (config_ix l) (config_bytes (entry_config e)) k ?C"
  note d = live_invD [OF inv]
  have task: "task_ok ?F ?C (Configuring e)" using d(7) unfolding t .
  have C: "ring_inv (config_ix l) 120 ?C'" "ring_moves_to (config_ix l) ?C ?C'"
    using task by (intro ring_access_ok [OF d(3)]; simp)+
  then have m: "moves (config_ix l) ?C ?C'" by (simp add: ring_moves_to_def)
  have rd: "reader_ok l ?F ?C' (lv_pushed y) (lv_readers y i)" for i
    using reader_ok_moves [OF d(8) [of i], of ?F ?C' "[]"] C(2) by simp
  note keep = config_known_moves [OF m]
  show ?thesis
  proof (cases "rg_stage ?C = Filled")
    case True
    have nx: "unat (rg_cursor ?C + 1) = length (rg_hist ?C)" "begun ?C (rg_cursor ?C + 1)" "published ?C (rg_cursor ?C + 1) = last (rg_hist ?C)"
      using ring_next [OF d(3)] True by simp_all
    have c: "rg_cursor ?C' = rg_cursor ?C + 1" "rg_hist ?C' = rg_hist ?C" "rg_stage ?C' = Ready" using True by (simp_all add: ring_access_stage)
    have "config_known ?C (rg_cursor ?C + 1) (entry_config e)" using nx task True by (auto simp: config_known_def)
    then have kn: "config_known ?C' (rg_cursor ?C') (entry_config e)" using keep c(1) by simp
    have y: "producer_access k y = y\<lparr> lv_configs := ?C', lv_cache := Some (rg_cursor ?C', entry_config e),
        lv_task := Framing e (rg_cursor ?C') \<rparr>"
      using t True d(1) by (simp add: producer_access_def Let_def)
    show ?thesis
      unfolding y using d C(1) rd keep kn c(2,3) task True by (auto simp: live_inv_def)
  next
    case False
    have y: "producer_access k y = y\<lparr> lv_configs := ?C' \<rparr>" using t False d(1) by (simp add: producer_access_def Let_def)
    have "task_ok ?F ?C' (Configuring e)"
      using task False ring_access_stage(2,3) [of ?C] by (cases "rg_stage ?C") (auto simp: ring_begin_def)
    then show ?thesis unfolding y using d C(1) rd keep t by (auto simp: live_inv_def)
  qed
qed

lemma framing_inv:
  assumes inv: "live_inv l y" and t: "lv_task y = Framing e g"
  shows "live_inv l (producer_access k y)"
proof -
  let ?C = "lv_configs y" and ?F = "lv_frames y" and ?b = "slot_bytes (entry_slot e (ucast g))"
  let ?F' = "ring_access (frame_ix l) ?b k ?F"
  note d = live_invD [OF inv]
  have task: "task_ok ?F ?C (Framing e g)" using d(7) unfolding t .
  have F: "ring_inv (frame_ix l) 120 ?F'" "ring_moves_to (frame_ix l) ?F ?F'"
    using task by (intro ring_access_ok [OF d(2)]; simp)+
  have rd: "reader_ok l ?F' ?C (lv_pushed y @ new) (lv_readers y i)" for i new
    using reader_ok_moves [OF d(8) [of i], of ?F' ?C new] F(2) by simp
  show ?thesis
  proof (cases "rg_stage ?F = Filled")
    case True
    have c: "rg_hist ?F' = rg_hist ?F" "rg_stage ?F' = Ready" using True by (simp_all add: ring_access_stage)
    have y: "producer_access k y = y\<lparr> lv_frames := ?F', lv_task := Idle \<rparr>" using t True d(1) by (simp add: producer_access_def Let_def)
    show ?thesis unfolding y using d F(1) rd [of "[]"] c task True by (auto simp: live_inv_def)
  next
    case False
    let ?new = "if rg_stage ?F = Ready then [(e, g)] else []"
    have y: "producer_access k y = y\<lparr> lv_frames := ?F', lv_pushed := lv_pushed y @ ?new \<rparr>"
      using t False d(1) by (simp add: producer_access_def Let_def)
    have h: "rg_hist ?F' = rg_hist ?F @ map (\<lambda>(e, g). slot_bytes (entry_slot e (ucast g))) ?new" "rg_stage ?F' \<noteq> Ready"
      using False ring_access_stage(2,3) [of ?F] by (cases "rg_stage ?F"; force simp: ring_begin_def)+
    then have "task_ok ?F' ?C (Framing e g)" using task False by (auto split: if_splits)
    then show ?thesis
      unfolding y using d F(1) rd h(1) t task by (auto simp: live_inv_def)
  qed
qed

lemma producer_access_inv: "live_inv l y \<Longrightarrow> live_inv l (producer_access k y)"
  by (cases "lv_task y") (simp_all add: configuring_inv framing_inv, simp add: producer_access_def)

lemma start_push_inv:
  assumes inv: "live_inv l y" and t: "lv_task y = Idle" and room: "length (rg_hist (lv_frames y)) + 1 < 2 ^ 32"
  shows "live_inv l (start_push e y)"
  using live_invD [OF inv] t room by (auto simp: live_inv_def start_push_def split: option.split)

section \<open>The readers\<close>

lemma oldest_range:
  assumes "cur \<noteq> (0::u64)" "0 < cap" "cap < 2 ^ 64"
  shows "cur - min cur (of_nat cap) + 1 \<noteq> 0" "cur - min cur (of_nat cap) + 1 \<le> cur"
proof -
  have c: "unat (of_nat cap :: u64) = cap" using assms(3) by (rule unat_of_nat64)
  have pos: "0 < unat cur" using assms(1) by (simp add: unat_gt_0)
  have sub: "unat (cur - min cur (of_nat cap)) = unat cur - min (unat cur) cap"
    using c by (simp add: min_def unat_minus word_le_nat_alt)
  have "unat cur - min (unat cur) cap + 1 \<le> unat cur" using pos assms(2) by (simp add: min_def; linarith)
  then have "unat (cur - min cur (of_nat cap) + 1) = unat cur - min (unat cur) cap + 1"
    using u64_bound [of cur] sub by (subst unat_Suc_word) simp_all
  then show "cur - min cur (of_nat cap) + 1 \<noteq> 0" "cur - min cur (of_nat cap) + 1 \<le> cur"
    using \<open>_ \<le> unat cur\<close> by (metis add_is_0 unat_0 zero_neq_one, simp add: word_le_nat_alt)
qed

lemma ucast_u32_0 [simp]: "(ucast (x :: u32) :: u64) = 0 \<longleftrightarrow> x = 0"
  using unat_ucast_u32 [of x] by (metis unat_0 unat_eq_zero)

lemma reader_access_ok:
  assumes inv: "live_inv l y" and l: "layout_for_capacity n = Ok l" and rd: "reader_ok l (lv_frames y) (lv_configs y) (lv_pushed y) rd"
  shows "reader_ok l (lv_frames y) (lv_configs y) (lv_pushed y) (reader_access k y rd)"
proof -
  note d = live_invD [OF inv]
  obtain m where m: "l = std_layout (2 ^ m)" "768 + 256 * 2 ^ m < (2::nat) ^ 64" using l by (rule layout_for_capacity_Ok)
  have cap: "0 < pl_slot_capacity l" "pl_slot_capacity l < 2 ^ 64" using m by simp_all
  show ?thesis
  proof (cases rd)
    case (Ranged c latest)
    then show ?thesis
      using rd oldest_range(1) [of "rg_cursor (lv_frames y)", OF _ cap] d(1) by (auto simp: reader_access_def Let_def word_gt_0)
  next
    case (ReadingSlot lap)
    then show ?thesis
      using rd d(1) read_byte_ok [OF d(2)] read_second_published [OF d(2), of lap]
      by (cases rule: read_second_cases [of "frame_ix l" "lv_frames y" lap])
        (auto simp: reader_access_def Let_def slot_ok_def)
  next
    case (ReadingConfig c slot lap)
    show ?thesis
    proof (cases "lap_complete lap \<and> (\<exists>bs. read_second (config_ix l) (lv_configs y) lap = Ok bs)")
      case False
      then show ?thesis
        using ReadingConfig rd d(1) read_byte_ok [OF d(3)]
        by (cases rule: read_second_cases [of "config_ix l" "lv_configs y" lap]) (auto simp: reader_access_def Let_def)
    next
      case True
      then obtain bs where bs: "lap_complete lap" "read_second (config_ix l) (lv_configs y) lap = Ok bs" by blast
      let ?g = "lap_expected lap"
      have r: "slot_ok (lv_frames y) c slot" "lap_ok (config_ix l) 120 (lv_configs y) lap" "?g = ucast (fs_config_generation slot)" "?g \<noteq> 0"
        using ReadingConfig rd by auto
      have pub: "begun (lv_configs y) ?g" "bs = published (lv_configs y) ?g"
        using read_second_published [OF d(3) r(2,4) bs] by simp_all
      have c: "c \<noteq> 0" "unat c \<le> length (lv_pushed y)" and i: "unat c - 1 < length (lv_pushed y)"
        using r(1) by (auto simp: slot_ok_def begun_def d(4) unat_gt_0 [symmetric])
      obtain e g where eg: "lv_pushed y ! (unat c - 1) = (e, g)" by (metis surj_pair)
      then have "(e, g) \<in> set (lv_pushed y)" using i by (metis nth_mem)
      then have kn: "config_known (lv_configs y) g (entry_config e)" by (rule d(5))
      have slot: "slot = entry_slot e (ucast g)"
        using r(1) i eg by (simp add: slot_ok_def published_def d(4))
      have "unat (ucast (ucast g :: u32) :: u64) = unat g"
        using kn by (simp add: config_known_def unsigned_ucast_eq unsigned_take_bit_eq take_bit_nat_eq_self)
      then have g: "?g = g" using r(3) slot by (metis entry_slot_def frame_slot.select_convs(10) word_unat_eq_iff)
      have "config_of_bytes bs = entry_config e" using pub(2) kn g by (simp add: config_known_def)
      then have "entry_ok (lv_pushed y) c (entry_from_parts c slot ?g (config_of_bytes bs))"
        using c eg slot g entry_from_parts_spec [of c e "ucast g" "unat g"] by (simp add: entry_ok_def)
      then show ?thesis using ReadingConfig bs d(1) by (auto simp: reader_access_def Let_def)
    qed
  qed (use rd d read_first_ok [OF d(2)] read_first_ok [OF d(3)] in \<open>auto simp: reader_access_def Let_def\<close>)
qed

lemma live_reachable_inv: "live_reachable l y \<Longrightarrow> live_inv l y \<and> (\<exists>n. layout_for_capacity n = Ok l)"
proof (induction rule: live_reachable.induct)
  case (start n)
  then show ?case by (auto simp: live_inv_def live_init_def ring_inv_init) (simp_all add: ring_init_def)
next
  case (push y e)
  then show ?case using start_push_inv by blast
next
  case (produce y k)
  then show ?case using producer_access_inv by blast
next
  case (ask y i c)
  then show ?case by (auto simp: live_inv_def)
next
  case (read y i k)
  then obtain n where n: "live_inv l y" "layout_for_capacity n = Ok l" by blast
  have "reader_ok l (lv_frames y) (lv_configs y) (lv_pushed y) (reader_access k y (lv_readers y i))"
    by (rule reader_access_ok [OF n live_invD(8) [OF n(1)]])
  then show ?case using n by (auto simp: live_inv_def)
qed

section \<open>Progress\<close>

text \<open>The accesses that a reader, and a producer in the middle of a push, have left; a byte they may copy next.\<close>

definition lap_left :: "lap \<Rightarrow> nat" where
  "lap_left l = length (filter (\<lambda>b. b = None) (lap_got l))"

definition lap_pick :: "lap \<Rightarrow> nat" where
  "lap_pick l = length (takeWhile (\<lambda>b. b \<noteq> None) (lap_got l))"

fun reader_left :: "reader \<Rightarrow> nat" where
  "reader_left (Asked c) = 246"
| "reader_left (Ranged c latest) = 245"
| "reader_left (InRange c) = 244"
| "reader_left (ReadingSlot lap) = 123 + lap_left lap"
| "reader_left (GotSlot c slot) = 122"
| "reader_left (ReadingConfig c slot lap) = 1 + lap_left lap"
| "reader_left (Finished r) = 0"

fun reader_pick :: "reader \<Rightarrow> nat" where
  "reader_pick (ReadingSlot lap) = lap_pick lap"
| "reader_pick (ReadingConfig c slot lap) = lap_pick lap"
| "reader_pick rd = 0"

lemma lap_left_step: "\<not> lap_complete l \<Longrightarrow> lap_left (read_byte ix r (lap_pick l) l) < lap_left l"
proof -
  have "length (filter (\<lambda>b. b = None) (xs[length (takeWhile (\<lambda>b. b \<noteq> None) xs) := Some v])) < length (filter (\<lambda>b. b = None) xs)"
    if "None \<in> set xs" for xs and v :: u8
    using that by (induction xs) auto
  then show "\<not> lap_complete l \<Longrightarrow> lap_left (read_byte ix r (lap_pick l) l) < lap_left l"
    by (simp add: lap_left_def lap_pick_def read_byte_def lap_complete_def)
qed

lemma reader_progress:
  "reader_left (reader_access (reader_pick rd) y rd) \<le> reader_left rd - 1"
proof -
  have first: "lap_left (read_first ix 120 r c) = 120" for ix r c by (simp add: lap_left_def read_first_def filter_replicate)
  show ?thesis
  proof (cases rd)
    case (ReadingSlot lap)
    then show ?thesis
      using lap_left_step [of lap "frame_ix (lv_layout y)" "lv_frames y"]
      by (cases rule: read_second_cases [of "frame_ix (lv_layout y)" "lv_frames y" lap]) (auto simp: reader_access_def Let_def)
  next
    case (ReadingConfig c slot lap)
    then show ?thesis
      using lap_left_step [of lap "config_ix (lv_layout y)" "lv_configs y"]
      by (cases rule: read_second_cases [of "config_ix (lv_layout y)" "lv_configs y" lap]) (auto simp: reader_access_def Let_def)
  qed (auto simp: reader_access_def Let_def first)
qed

lemma reader_left_0: "reader_left rd = 0 \<Longrightarrow> \<exists>r. rd = Finished r"
  by (cases rd) auto

lemma reader_finishes:
  "reader_left rd \<le> length ys \<Longrightarrow> \<exists>r. fold (\<lambda>y rd. reader_access (reader_pick rd) y rd) ys rd = Finished r"
proof (induction ys arbitrary: rd)
  case Nil
  then show ?case using reader_left_0 by simp
next
  case (Cons y ys)
  then show ?case using reader_progress [of rd y] by (auto intro!: Cons.IH)
qed

fun ring_left :: "stage \<Rightarrow> nat" where
  "ring_left Ready = 123"
| "ring_left (Filling bs ks) = 2 + length ks"
| "ring_left Filled = 1"

fun ring_pick :: "stage \<Rightarrow> nat" where
  "ring_pick (Filling bs (k # ks)) = k"
| "ring_pick st = 0"

fun push_left :: "live_page \<Rightarrow> task \<Rightarrow> nat" where
  "push_left y Idle = 0"
| "push_left y (Configuring e) = ring_left (rg_stage (lv_configs y)) + 123"
| "push_left y (Framing e g) = ring_left (rg_stage (lv_frames y))"

fun push_pick :: "live_page \<Rightarrow> task \<Rightarrow> nat" where
  "push_pick y Idle = 0"
| "push_pick y (Configuring e) = ring_pick (rg_stage (lv_configs y))"
| "push_pick y (Framing e g) = ring_pick (rg_stage (lv_frames y))"

definition produce :: "live_page \<Rightarrow> live_page" where
  "produce y = producer_access (push_pick y (lv_task y)) y"

lemma ring_access_left:
  assumes "length bs = 120" "rg_stage r \<noteq> Filled"
  shows "ring_left (rg_stage (ring_access ix bs (ring_pick (rg_stage r)) r)) < ring_left (rg_stage r)"
proof (cases "rg_stage r")
  case (Filling b ks)
  then show ?thesis
    by (cases ks) (auto simp: ring_access_def ring_commit_def ring_copy_def Let_def less_Suc_eq_le length_removeAll_less_eq)
qed (use assms in \<open>simp_all add: ring_access_def ring_begin_def\<close>)

lemma push_progress:
  assumes "live_inv l y"
  shows "push_left (produce y) (lv_task (produce y)) \<le> push_left y (lv_task y) - 1"
proof (cases "lv_task y")
  case (Configuring e)
  have "rg_stage (lv_frames y) = Ready" using live_invD(7) [OF assms] Configuring by simp
  then show ?thesis
    using Configuring ring_access_left [of "config_bytes (entry_config e)" "lv_configs y" "config_ix (lv_layout y)"]
    by (auto simp: produce_def producer_access_def Let_def)
next
  case (Framing e g)
  then show ?thesis
    using ring_access_left [of "slot_bytes (entry_slot e (ucast g))" "lv_frames y" "frame_ix (lv_layout y)"]
    by (auto simp: produce_def producer_access_def Let_def)
qed (simp add: produce_def producer_access_def)

lemma push_left_0: "push_left y (lv_task y) = 0 \<Longrightarrow> lv_task y = Idle"
  by (cases "lv_task y"; cases "rg_stage (lv_configs y)"; cases "rg_stage (lv_frames y)") auto

lemma push_finishes:
  "live_inv l y \<Longrightarrow> push_left y (lv_task y) \<le> n \<Longrightarrow> lv_task ((produce ^^ n) y) = Idle"
proof (induction n arbitrary: y)
  case 0
  then show ?case by (simp add: push_left_0)
next
  case (Suc n)
  have "live_inv l (produce y)" unfolding produce_def by (rule producer_access_inv [OF Suc.prems(1)])
  then show ?case using Suc.IH [of "produce y"] push_progress [OF Suc.prems(1)] Suc.prems(2) by (simp add: funpow_Suc_right del: funpow.simps)
qed

section \<open>Quiescent pages\<close>

text \<open>Between publications the last one is in place: its version word is set, and its frame names the
  current configuration.\<close>

definition ring_now :: "(u64 \<Rightarrow> nat) \<Rightarrow> ring \<Rightarrow> bool" where
  "ring_now ix r \<longleftrightarrow> (rg_hist r \<noteq> [] \<longrightarrow> (\<forall>bs ks. rg_stage r \<noteq> Filling bs ks) \<longrightarrow>
     rg_seq r (ix (of_nat (length (rg_hist r)))) = of_nat (length (rg_hist r)))"

lemma ring_access_now:
  assumes inv: "ring_inv ix sz r" and now: "ring_now ix r"
  shows "ring_now ix (ring_access ix bs k r)"
proof (cases "rg_stage r")
  case (Filling b ks)
  then have n: "rg_cursor r + 1 = of_nat (length (rg_hist r))"
    using of_nat_pred [of "length (rg_hist r)"] ring_invD(4,5) [OF inv] by simp
  show ?thesis
    using Filling n by (cases ks) (auto simp: ring_access_def ring_commit_def ring_copy_def ring_now_def Let_def)
qed (use now in \<open>simp_all add: ring_access_def ring_begin_def ring_advance_def ring_now_def\<close>)

definition live_now :: "page_layout \<Rightarrow> live_page \<Rightarrow> bool" where
  "live_now l y \<longleftrightarrow> ring_now (frame_ix l) (lv_frames y) \<and> ring_now (config_ix l) (lv_configs y) \<and>
     (rg_stage (lv_configs y) = Ready \<longrightarrow> (\<forall>g c. lv_cache y = Some (g, c) \<longrightarrow> g = rg_cursor (lv_configs y))) \<and>
     (lv_task y = Idle \<longrightarrow> lv_pushed y \<noteq> [] \<longrightarrow> snd (last (lv_pushed y)) = rg_cursor (lv_configs y)) \<and>
     (\<forall>e g. lv_task y = Framing e g \<longrightarrow> g = rg_cursor (lv_configs y) \<and>
        (rg_stage (lv_frames y) \<noteq> Ready \<longrightarrow> lv_pushed y \<noteq> [] \<and> snd (last (lv_pushed y)) = g))"

lemma producer_access_now:
  assumes inv: "live_inv l y" and now: "live_now l y"
  shows "live_now l (producer_access k y)"
proof -
  note d = live_invD [OF inv]
  have F: "ring_now (frame_ix l) (ring_access (frame_ix l) bs k (lv_frames y))" for bs
    using ring_access_now [OF d(2)] now by (simp add: live_now_def)
  have C: "ring_now (config_ix l) (ring_access (config_ix l) bs k (lv_configs y))" for bs
    using ring_access_now [OF d(3)] now by (simp add: live_now_def)
  show ?thesis
  proof (cases "lv_task y")
    case Idle
    then show ?thesis using now by (simp add: producer_access_def)
  next
    case (Configuring e)
    let ?C = "ring_access (config_ix l) (config_bytes (entry_config e)) k (lv_configs y)"
    have "rg_stage ?C \<noteq> Ready" if "rg_stage (lv_configs y) \<noteq> Filled"
      using that ring_access_stage(2,3) [of "lv_configs y"] by (cases "rg_stage (lv_configs y)") (auto simp: ring_begin_def)
    moreover have "rg_stage (lv_frames y) = Ready" using d(7) Configuring by simp
    ultimately show ?thesis using Configuring now F C d(1) by (auto simp: live_now_def producer_access_def Let_def)
  next
    case (Framing e g)
    then show ?thesis using now F d(1) by (auto simp: live_now_def producer_access_def Let_def)
  qed
qed

lemma live_reachable_now: "live_reachable l y \<Longrightarrow> live_now l y"
proof (induction rule: live_reachable.induct)
  case (start n)
  then show ?case by (simp add: live_now_def live_init_def ring_now_def ring_init_def)
next
  case (push y e)
  have "live_inv l y" using live_reachable_inv [OF push.hyps(1)] by blast
  then have "rg_stage (lv_frames y) = Ready" "rg_stage (lv_configs y) = Ready" using live_invD(7) [of l y] push.hyps(2) by simp_all
  then show ?case using push by (auto simp: live_now_def start_push_def split: option.splits if_splits)
next
  case (produce y k)
  then show ?case using producer_access_now live_reachable_inv by blast
qed (simp_all add: live_now_def)

text \<open>A reader of the latest cursor of a page on which nothing is being published.\<close>

fun on_track :: "live_page \<Rightarrow> reader \<Rightarrow> bool" where
  "on_track y (Asked c) \<longleftrightarrow> c = rg_cursor (lv_frames y)"
| "on_track y (Ranged c latest) \<longleftrightarrow> c = rg_cursor (lv_frames y)"
| "on_track y (InRange c) \<longleftrightarrow> c = rg_cursor (lv_frames y)"
| "on_track y (ReadingSlot lap) \<longleftrightarrow> lap_expected lap = rg_cursor (lv_frames y) \<and> lap_first lap = lap_expected lap"
| "on_track y (GotSlot c slot) \<longleftrightarrow> c = rg_cursor (lv_frames y)"
| "on_track y (ReadingConfig c slot lap) \<longleftrightarrow> c = rg_cursor (lv_frames y) \<and> lap_first lap = lap_expected lap"
| "on_track y (Finished r) \<longleftrightarrow> (\<exists>x. r = Ok x \<and> re_cursor x = rg_cursor (lv_frames y))"

lemma quiescent_step:
  assumes y: "live_reachable l y" "lv_task y = Idle" "lv_pushed y \<noteq> []"
    and rd: "reader_ok l (lv_frames y) (lv_configs y) (lv_pushed y) rd" "on_track y rd"
  shows "on_track y (reader_access k y rd)"
proof -
  let ?F = "lv_frames y" and ?C = "lv_configs y"
  have inv: "live_inv l y" and now: "live_now l y" using live_reachable_inv [OF y(1)] live_reachable_now [OF y(1)] by blast+
  obtain n where lay: "layout_for_capacity n = Ok l" using live_reachable_inv [OF y(1)] by blast
  obtain m where m: "l = std_layout (2 ^ m)" "768 + 256 * 2 ^ m < (2::nat) ^ 64" using lay by (rule layout_for_capacity_Ok)
  note d = live_invD [OF inv]
  have st: "rg_stage ?F = Ready" "rg_stage ?C = Ready" using d(7) y(2) by simp_all
  have hist: "rg_hist ?F \<noteq> []" using d(4) y(3) by simp
  have cF: "rg_cursor ?F = of_nat (length (rg_hist ?F))" and cC: "rg_cursor ?C = of_nat (length (rg_hist ?C))"
    using ring_invD(4) [OF d(2)] ring_invD(4) [OF d(3)] st by simp_all
  have uF: "unat (rg_cursor ?F) = length (rg_hist ?F)" unfolding cF using ring_invD(1) [OF d(2)] by (rule unat_of_nat64)
  have nz: "rg_cursor ?F \<noteq> 0" using uF hist by (metis length_0_conv unat_0)
  have sF: "rg_seq ?F (frame_ix l (rg_cursor ?F)) = rg_cursor ?F" using now st hist cF by (simp add: live_now_def ring_now_def)
  obtain e g where eg: "last (lv_pushed y) = (e, g)" by (metis surj_pair)
  have "(e, g) \<in> set (lv_pushed y)" using eg last_in_set [OF y(3)] by simp
  then have kn: "config_known ?C g (entry_config e)" by (rule d(5))
  have g: "g = rg_cursor ?C" using now y(2,3) eg by (simp add: live_now_def)
  have "rg_hist ?C \<noteq> []" using kn by (auto simp: config_known_def begun_def unat_gt_0 [symmetric])
  then have sC: "rg_seq ?C (config_ix l g) = g" using now st cC g by (simp add: live_now_def ring_now_def)
  have pub: "published ?F (rg_cursor ?F) = slot_bytes (entry_slot e (ucast g))"
    using y(3) eg hist by (simp add: published_def uF d(4) last_conv_nth nth_map split_beta)
  have gen: "fs_config_generation (entry_slot e (ucast g)) = ucast g" by (simp add: entry_slot_def)
  have ug: "(ucast (ucast g :: u32) :: u64) = g"
    by (rule word_unat_eq_iff [THEN iffD2])
      (use kn in \<open>simp add: config_known_def unsigned_ucast_eq unsigned_take_bit_eq take_bit_nat_eq_self\<close>)
  have gnz: "g \<noteq> 0" using kn by (simp add: config_known_def begun_def)
  show ?thesis
  proof (cases rd)
    case (Ranged c latest)
    have cap: "0 < pl_slot_capacity l" "pl_slot_capacity l < 2 ^ 64" using m by simp_all
    then have "rg_cursor ?F - min (rg_cursor ?F) (of_nat (pl_slot_capacity l)) + 1 \<le> rg_cursor ?F" by (rule oldest_range(2) [OF nz])
    then show ?thesis using Ranged rd nz d(1) by (auto simp: reader_access_def Let_def not_less)
  next
    case (ReadingSlot lap)
    then show ?thesis using rd sF d(1) by (auto simp: reader_access_def Let_def read_second_def read_byte_def)
  next
    case (GotSlot c slot)
    then have "slot = entry_slot e (ucast g)" using rd pub by (simp add: slot_ok_def)
    then show ?thesis using GotSlot rd sC gen ug gnz d(1) by (auto simp: reader_access_def Let_def read_first_def)
  next
    case (ReadingConfig c slot lap)
    then have "slot = entry_slot e (ucast g)" using rd pub by (simp add: slot_ok_def)
    then have "lap_expected lap = g" using ReadingConfig rd gen ug by simp
    then show ?thesis
      using ReadingConfig rd sC d(1) by (auto simp: reader_access_def Let_def read_second_def read_byte_def entry_from_parts_def)
  qed (use rd nz sF d(1) in \<open>auto simp: reader_access_def Let_def read_first_def\<close>)
qed

lemma re_cursor_spec_entry [simp]: "re_cursor (spec_entry c e n) = c"
  by (simp add: spec_entry_def pending_entry.defs ring_entry.defs)

lemma quiescent_read:
  assumes y: "live_reachable l y" "lv_task y = Idle" "lv_pushed y \<noteq> []"
  shows "((\<lambda>rd. reader_access (reader_pick rd) y rd) ^^ 246) (Asked (rg_cursor (lv_frames y))) =
     Finished (Ok (spec_entry (rg_cursor (lv_frames y)) (fst (last (lv_pushed y))) (unat (snd (last (lv_pushed y))))))"
proof -
  let ?F = "lv_frames y" and ?f = "\<lambda>rd. reader_access (reader_pick rd) y rd"
  let ?c = "rg_cursor ?F"
  obtain n where inv: "live_inv l y" and lay: "layout_for_capacity n = Ok l" using live_reachable_inv [OF y(1)] by blast
  note d = live_invD [OF inv]
  have track: "reader_ok l ?F (lv_configs y) (lv_pushed y) ((?f ^^ j) (Asked ?c)) \<and> on_track y ((?f ^^ j) (Asked ?c))" for j
  proof (induction j)
    case (Suc j)
    then show ?case using reader_access_ok [OF inv lay] quiescent_step [OF y] by simp
  qed simp
  have eq: "(?f ^^ j) rd = fold (\<lambda>y rd. reader_access (reader_pick rd) y rd) (replicate j y) rd" for j rd
    by (induction j arbitrary: rd) (simp_all add: funpow_Suc_right del: funpow.simps(2))
  have "\<exists>r. (?f ^^ j) (Asked ?c) = Finished r" if "246 \<le> j" for j
    unfolding eq by (rule reader_finishes) (simp add: that)
  then obtain r where r: "(?f ^^ 246) (Asked ?c) = Finished r" by blast
  then obtain x where x: "r = Ok x" "re_cursor x = ?c" using track [of 246] by auto
  then obtain c where "entry_ok (lv_pushed y) c x" using track [of 246] r by auto
  then have c: "x = spec_entry ?c (fst (lv_pushed y ! (unat ?c - 1))) (unat (snd (lv_pushed y ! (unat ?c - 1))))"
    using x(2) by (auto simp: entry_ok_def split_beta)
  have "rg_stage ?F = Ready" using d(7) y(2) by simp
  then have "?c = of_nat (length (lv_pushed y))" "length (lv_pushed y) < 2 ^ 64"
    using ring_invD(1,4) [OF d(2)] d(4) by simp_all
  then have "unat ?c = length (lv_pushed y)" using unat_of_nat64 by simp
  then show ?thesis using r x(1) c y(3) by (simp add: last_conv_nth)
qed

section \<open>Properties\<close>

text \<open>C29. Seqlock reads are never torn: in every interleaving of the producer's accesses with those of any number of
  readers, a reader that returns an entry returns exactly the entry that was pushed under its cursor, frame and
  stream configuration alike, and no reader panics.\<close>

theorem seqlock_reads_never_torn:
  assumes "live_reachable l y" "lv_readers y i = Finished r"
  shows "r \<noteq> Panic \<and> (\<forall>x. r = Ok x \<longrightarrow>
     (\<exists>e g. re_cursor x \<noteq> 0 \<and> unat (re_cursor x) \<le> length (lv_pushed y) \<and>
        lv_pushed y ! (unat (re_cursor x) - 1) = (e, g) \<and> x = spec_entry (re_cursor x) e (unat g)))"
proof -
  have inv: "live_inv l y" using live_reachable_inv [OF assms(1)] by blast
  have ok: "r \<noteq> Panic" "\<And>x. r = Ok x \<Longrightarrow> \<exists>c. entry_ok (lv_pushed y) c x"
    using live_invD(8) [OF inv, of i] assms(2) by simp_all
  have "\<exists>e g. re_cursor x \<noteq> 0 \<and> unat (re_cursor x) \<le> length (lv_pushed y) \<and>
        lv_pushed y ! (unat (re_cursor x) - 1) = (e, g) \<and> x = spec_entry (re_cursor x) e (unat g)"
    if "entry_ok (lv_pushed y) c x" for c x
    using that by (cases "lv_pushed y ! (unat c - 1)") (auto simp: entry_ok_def)
  then show ?thesis using ok by blast
qed


text \<open>The latest frame is readable: on a page on which nothing is being published, a reader that asks for the
  latest cursor gets, within 246 accesses, the entry that was pushed last, with its stream configuration.\<close>

theorem latest_frame_is_readable:
  assumes "live_reachable l y" "lv_task y = Idle" "lv_pushed y \<noteq> []"
  shows "((\<lambda>rd. reader_access (reader_pick rd) y rd) ^^ 246) (Asked (rg_cursor (lv_frames y))) =
     Finished (Ok (spec_entry (rg_cursor (lv_frames y)) (fst (last (lv_pushed y))) (unat (snd (last (lv_pushed y))))))"
  by (rule quiescent_read [OF assms])

definition sample_push :: "u64 \<Rightarrow> pending_entry" where
  "sample_push n = \<lparr> pe_sequence = n, pe_timestamp_ns = 0, pe_width = 4, pe_height = 4, pe_stride = 16, pe_pixel_format = 1,
     pe_pool_id = 7, pe_slot_id = 0, pe_payload_offset = 0, pe_payload_len = 64, pe_color_space = 1, pe_sync_kind = 1,
     pe_damage_kind = 1, pe_damage_base_sequence = 0, pe_dropped_before_publish = 0, pe_producer_drop_count = 0,
     pe_payload_kind = 0, pe_modifier = 0, pe_fence_id = 0, pe_fence_value = 0, pe_flags = 0 \<rparr>"

section \<open>Witnesses\<close>

lemma produce_reachable: "live_reachable l y \<Longrightarrow> live_reachable l ((produce ^^ n) y)"
  by (induction n) (auto simp: produce_def intro: live_reachable.produce)

fun read_n :: "nat \<Rightarrow> live_page \<Rightarrow> live_page" where
  "read_n 0 y = y"
| "read_n (Suc n) y =
     read_n n (y\<lparr> lv_readers := (lv_readers y)(0 := reader_access (reader_pick (lv_readers y 0)) y (lv_readers y 0)) \<rparr>)"

lemma read_n_reachable: "live_reachable l y \<Longrightarrow> live_reachable l (read_n n y)"
  by (induction n arbitrary: y) (auto intro: live_reachable.read)

lemma tiny_page_reachable: "live_reachable (std_layout 1) (live_init (std_layout 1))"
  using layout_for_power [of 0] by (intro live_reachable.start [of 1]) simp


text \<open>One push into a new page, then one read.\<close>

lemma produce_pushed: "live_reachable l y \<Longrightarrow> lv_task y \<noteq> Idle \<or> lv_pushed y \<noteq> [] \<Longrightarrow> lv_task (produce y) \<noteq> Idle \<or> lv_pushed (produce y) \<noteq> []"
proof -
  assume y: "live_reachable l y" and p: "lv_task y \<noteq> Idle \<or> lv_pushed y \<noteq> []"
  have inv: "live_inv l y" using live_reachable_inv [OF y] by blast
  have "lv_pushed y \<noteq> []" if "rg_stage (lv_frames y) = Filled"
    using ring_invD(5) [OF live_invD(2) [OF inv]] live_invD(4) [OF inv] that by auto
  then show ?thesis using p by (cases "lv_task y") (auto simp: produce_def producer_access_def Let_def)
qed

lemma produce_n_pushed: "live_reachable l y \<Longrightarrow> lv_task y \<noteq> Idle \<Longrightarrow> lv_task ((produce ^^ n) y) \<noteq> Idle \<or> lv_pushed ((produce ^^ n) y) \<noteq> []"
  by (induction n) (auto dest: produce_pushed [OF produce_reachable])

definition tiny_page :: live_page where
  "tiny_page = (produce ^^ 246) (start_push (sample_push 9) (live_init (std_layout 1)))"

lemma tiny_page: "live_reachable (std_layout 1) tiny_page" "lv_task tiny_page = Idle" "lv_pushed tiny_page \<noteq> []"
proof -
  let ?y = "start_push (sample_push 9) (live_init (std_layout 1))"
  have y: "live_reachable (std_layout 1) ?y"
    by (rule live_reachable.push [OF tiny_page_reachable]) (simp_all add: live_init_def ring_init_def)
  have t: "lv_task ?y \<noteq> Idle" by (simp add: start_push_def live_init_def)
  show r: "live_reachable (std_layout 1) tiny_page" unfolding tiny_page_def by (rule produce_reachable [OF y])
  have "live_inv (std_layout 1) ?y" using live_reachable_inv [OF y] by blast
  then show i: "lv_task tiny_page = Idle"
    unfolding tiny_page_def by (rule push_finishes) (simp add: start_push_def live_init_def ring_init_def)
  show "lv_pushed tiny_page \<noteq> []" using produce_n_pushed [OF y t, of 246] i by (simp add: tiny_page_def)
qed

lemma reader_access_readers [simp]: "reader_access k (y\<lparr> lv_readers := x \<rparr>) rd = reader_access k y rd"
  by (cases rd) (simp_all add: reader_access_def Let_def)

lemma read_n_eq:
  "read_n n y = y\<lparr> lv_readers := (lv_readers y)(0 := ((\<lambda>rd. reader_access (reader_pick rd) y rd) ^^ n) (lv_readers y 0)) \<rparr>"
  by (induction n arbitrary: y) (simp_all add: funpow_Suc_right del: funpow.simps(2))

lemma read_n_reader:
  "lv_readers (read_n n (y\<lparr> lv_readers := (lv_readers y)(0 := rd) \<rparr>)) 0 = ((\<lambda>rd. reader_access (reader_pick rd) y rd) ^^ n) rd"
  by (simp add: read_n_eq)

theorem latest_frame_is_readable_witness:
  "\<exists>y x. live_reachable (std_layout 1) y \<and> lv_task y = Idle \<and> lv_pushed y \<noteq> [] \<and>
     ((\<lambda>rd. reader_access (reader_pick rd) y rd) ^^ 246) (Asked (rg_cursor (lv_frames y))) = Finished (Ok x)"
  using tiny_page latest_frame_is_readable [OF tiny_page] by blast

theorem seqlock_reads_never_torn_witness:
  "\<exists>y x e g. live_reachable (std_layout 1) y \<and> lv_readers y 0 = Finished (Ok x) \<and>
     lv_pushed y ! (unat (re_cursor x) - 1) = (e, g) \<and> x = spec_entry (re_cursor x) e (unat g)"
proof -
  let ?y = "tiny_page\<lparr> lv_readers := (lv_readers tiny_page)(0 := Asked (rg_cursor (lv_frames tiny_page))) \<rparr>"
  have r: "live_reachable (std_layout 1) (read_n 246 ?y)"
    by (rule read_n_reachable [OF live_reachable.ask [OF tiny_page(1)]])
  have "\<exists>x. lv_readers (read_n 246 ?y) 0 = Finished (Ok x)"
    unfolding read_n_reader quiescent_read [OF tiny_page] by (rule exI, rule refl)
  then obtain x where x: "lv_readers (read_n 246 ?y) 0 = Finished (Ok x)" ..
  show ?thesis using seqlock_reads_never_torn [OF r x] r x by blast
qed

end
