(* ===== verification/Control_Properties.thy ===== *)
theory Control_Properties
  imports Control_Seqlock
begin

text \<open>
  The properties of the control page (\<open>control_page.rs\<close>) as a whole: it implements the abstract
  ring of \<open>Control_Refinement\<close>, what a consumer maps is what the producer wrote, and a consumer
  survives any bytes a producer may put into the mapping.
\<close>

section \<open>Runs of a producer\<close>

fun push_all :: "pending_entry list \<Rightarrow> control_page \<Rightarrow> (control_page, capture_error) outcome" where
  "push_all [] p = Ok p"
| "push_all (e # es) p = and_then (page_push e p) (\<lambda>(_, p'). push_all es p')"

definition header_kept :: "control_page \<Rightarrow> control_page \<Rightarrow> bool" where
  "header_kept p p' \<longleftrightarrow> pg_layout p' = pg_layout p \<and> segment_len (pg_storage p') = segment_len (pg_storage p) \<and>
     get_bytes 0 128 (sg_bytes (pg_storage p')) = get_bytes 0 128 (sg_bytes (pg_storage p))"

lemma write_all_header: "pc.fits p ws \<Longrightarrow> header_kept p (pc.write_all ws p)"
proof (induction ws arbitrary: p)
  case (Cons w ws)
  let ?p = "write_cell (fst w) (snd w) p"
  have w: "cell_ok p (fst w)" "length (snd w) = cell_size (fst w)" "pc.fits p ws" using Cons.prems by (auto simp: pc.fits_def)
  then have "pc.fits ?p ws" by (simp add: pc.fits_def write_cell_ok)
  moreover have "get_bytes 0 128 (sg_bytes (pg_storage ?p)) = get_bytes 0 128 (sg_bytes (pg_storage p))"
    using cell_fits [OF w(1)] w(2) cell_after_constants [of "cap_of p" "fst w"] unfolding write_cell_def
    by (simp, intro get_put_other) simp_all
  ultimately show ?case using Cons.IH [of ?p] w by (simp add: header_kept_def)
qed (simp add: header_kept_def)

lemma page_new_Ok:
  assumes "page_new n = Ok p"
  obtains k where "n \<le> 2 ^ k" "768 + 256 * 2 ^ k < (2::nat) ^ 64" "pg_layout p = std_layout (2 ^ k)" "pg_producer_config p = None"
    "pg_storage p = \<lparr> sg_bytes = put_bytes 0 (header_bytes (initial_header (std_layout (2 ^ k)))) (replicate (768 + 256 * 2 ^ k) 0),
       sg_writable = True \<rparr>"
proof -
  obtain l where l: "layout_for_capacity n = Ok l" and p: "(case segment_new (pl_byte_len l) of None \<Rightarrow> Panic
      | Some storage \<Rightarrow> store_initial_header \<lparr> pg_layout = l, pg_storage = storage, pg_producer_config = None \<rparr>) = Ok p"
    using assms by (auto simp: page_new_def and_then_eq_Ok)
  from l obtain k where k: "l = std_layout (2 ^ k)" "n \<le> 2 ^ k" "768 + 256 * 2 ^ k < (2::nat) ^ 64" by (rule layout_for_capacity_Ok)
  show ?thesis
    using that [OF k(2,3)] p by (simp add: segment_new_def store_initial_header_def write_page_def segment_write_put segment_len_def k(1))
      (auto simp: segment_len_def)
qed

lemma page_new_rel:
  assumes "page_new n = Ok p"
  shows "producer_rel spec_empty p"
proof -
  obtain k where k: "768 + 256 * 2 ^ k < (2::nat) ^ 64" "pg_layout p = std_layout (2 ^ k)" "pg_producer_config p = None"
    "pg_storage p = \<lparr> sg_bytes = put_bytes 0 (header_bytes (initial_header (std_layout (2 ^ k)))) (replicate (768 + 256 * 2 ^ k) 0),
       sg_writable = True \<rparr>"
    using assms by (rule page_new_Ok)
  have len: "segment_len (pg_storage p) = 768 + 256 * 2 ^ k" by (simp add: k(4) segment_len_def)
  have h: "get_bytes c 8 (sg_bytes (pg_storage p)) = get_bytes c 8 (header_bytes (initial_header (std_layout (2 ^ k))))" if "c + 8 \<le> 256" for c
    using that by (simp add: k(4) get_put_within)
  have "word_at p ProducerCursor = 0" "word_at p ConfigCursor = 0"
    by (simp_all add: word_at_def read_cell_def h header_bytes_def initial_header_def struct_simps)
  then show ?thesis
    using k len by (auto simp: producer_rel_def ring_rel_def spec_empty_def spec_ok_def page_wf_def)
qed

lemma spec_push_lengths:
  "length (rs_frames (spec_push e a)) = length (rs_frames a) + 1" "length (rs_configs (spec_push e a)) \<le> length (rs_configs a) + 1"
  by (simp_all add: spec_push_def spec_config_def Let_def)

lemma push_all_spec:
  assumes "producer_rel a p" "length (rs_configs a) + length es < 2 ^ 32" "length (rs_frames a) + length es < 2 ^ 64"
  shows "\<exists>p'. push_all es p = Ok p' \<and> producer_rel (fold spec_push es a) p' \<and> header_kept p p'"
  using assms
proof (induction es arbitrary: a p)
  case Nil
  then show ?case by (simp add: header_kept_def)
next
  case (Cons e es)
  have room: "length (rs_configs a) + 1 < 2 ^ 32" "length (rs_frames a) + 1 < 2 ^ 64" using Cons.prems by simp_all
  obtain p1 ws where p1: "page_push e p = Ok (of_nat (length (rs_frames a) + 1), p1)" "producer_rel (spec_push e a) p1"
    "pg_layout p1 = pg_layout p" "pg_storage p1 = pg_storage (pc.write_all ws p)" "pc.fits p ws"
    by (rule push_spec [OF Cons.prems(1) room])
  have "header_kept p p1" using write_all_header [OF p1(5)] p1(3,4) by (simp add: header_kept_def)
  moreover have "\<exists>p'. push_all es p1 = Ok p' \<and> producer_rel (fold spec_push es (spec_push e a)) p' \<and> header_kept p1 p'"
    using spec_push_lengths [of e a] Cons.prems by (intro Cons.IH [OF p1(2)]) simp_all
  ultimately show ?case using p1(1) by (auto simp: header_kept_def)
qed

section \<open>Mapping a page\<close>

definition header_of :: "bytes \<Rightarrow> control_header" where
  "header_of bs = \<lparr> hd_magic = field64 0 bs, hd_layout_version = field32 8 bs, hd_header_len = field32 12 bs,
     hd_slot_len = field32 16 bs, hd_slot_capacity = field32 20 bs, hd_config_len = field32 24 bs,
     hd_config_capacity = field32 28 bs, hd_consumer_len = field32 32 bs, hd_consumer_capacity = field32 36 bs,
     hd_slots_offset = field32 40 bs, hd_configs_offset = field32 44 bs, hd_consumers_offset = field32 48 bs,
     hd_producer_cursor = field64 128 bs, hd_config_cursor = field64 136 bs \<rparr>"

lemma page_header_eq:
  assumes "pl_header_offset (pg_layout p) = 0" "256 \<le> segment_len (pg_storage p)"
  shows "page_header p = Ok (header_of (sg_bytes (pg_storage p)))"
  using assms by (simp add: page_header_def read_u32_at_def read_u64_at_def load_header_producer_cursor_def load_header_config_cursor_def
      load_u64_atomic_def slice_at_get header_of_def field64_def field32_def)

lemma get_get: "o' + m \<le> n \<Longrightarrow> get_bytes o' m (get_bytes 0 n bs) = get_bytes o' m bs"
  by (simp add: get_bytes_def drop_take min_def)

lemma header_of_initial: "header_of (header_bytes h) = h"
  by (simp add: header_of_def header_bytes_def struct_simps)

text \<open>Only the first 128 bytes hold constants; the cursors are in the second half.\<close>

definition same_constants :: "control_header \<Rightarrow> control_header \<Rightarrow> bool" where
  "same_constants h h' \<longleftrightarrow> h' = h\<lparr> hd_producer_cursor := hd_producer_cursor h', hd_config_cursor := hd_config_cursor h' \<rparr>"

lemma header_of_constants:
  assumes "get_bytes 0 128 bs = get_bytes 0 128 (header_bytes h)"
  shows "same_constants h (header_of bs)"
proof -
  have f: "field32 x bs = field32 x (header_bytes h)" if "x + 4 \<le> 128" for x
    using get_get [of x 4 128] that assms by (metis field32_def)
  have g: "field64 0 bs = field64 0 (header_bytes h)"
    using get_get [of 0 8 128] assms by (simp add: field64_def) (metis numeral_le_iff semiring_norm(69) semiring_norm(71))
  have "same_constants (header_of (header_bytes h)) (header_of bs)"
    by (simp add: same_constants_def header_of_def f g)
  then show ?thesis by (simp add: header_of_initial)
qed

lemma of_nat_pow_u32: "32 \<le> k \<Longrightarrow> (of_nat (2 ^ k) :: u32) = 0"
  using le_Suc_ex [of 32 k] by (auto simp: power_add)

lemma validate_std:
  assumes c: "same_constants (initial_header (std_layout (2 ^ k))) h" and len: "768 + 256 * 2 ^ k \<le> map_len"
    and b: "768 + 256 * 2 ^ k < (2::nat) ^ 64"
  shows "768 + 128 * 2 ^ k < (2::nat) ^ 32 \<Longrightarrow> validate_control_header h map_len = Ok (2 ^ k)"
    and "\<not> 768 + 128 * 2 ^ k < (2::nat) ^ 32 \<Longrightarrow> \<exists>e. validate_control_header h map_len = Err e"
proof -
  let ?l = "std_layout (2 ^ k)"
  have h: "hd_magic h = VIDEO_TRACK_CONTROL_MAGIC" "hd_layout_version h = VIDEO_TRACK_CONTROL_VERSION"
    "hd_header_len h = 256" "hd_slot_len h = 128" "hd_config_len h = 128" "hd_consumer_len h = 128"
    "hd_slot_capacity h = of_nat (2 ^ k)" "hd_config_capacity h = 4" "hd_consumer_capacity h = of_nat (2 ^ k)"
    "hd_slots_offset h = 256" "hd_configs_offset h = of_nat (256 + 128 * 2 ^ k)" "hd_consumers_offset h = of_nat (768 + 128 * 2 ^ k)"
    by (subst c [unfolded same_constants_def], simp add: initial_header_def page_consts)+
  note hc = h(1-6,8,10) page_consts
  have u32: "unat (of_nat x :: u32) = x" if "x < 2 ^ 32" for x using that by (simp add: unat_of_nat)
  have pow: "is_power_of_two (2 ^ k)" by (auto simp: is_power_of_two_iff)
  show "validate_control_header h map_len = Ok (2 ^ k)" if fits: "768 + 128 * 2 ^ k < (2::nat) ^ 32"
  proof -
    have "unat (hd_slot_capacity h) = 2 ^ k" "unat (hd_configs_offset h) = 256 + 128 * 2 ^ k" "unat (hd_consumers_offset h) = 768 + 128 * 2 ^ k"
      unfolding h(7,11,12) using fits by (intro u32; simp)+
    then show ?thesis
      using len pow h(7,9) by (simp add: validate_control_header_def hc Let_def layout_for_power [OF b])
  qed
  show "\<exists>e. validate_control_header h map_len = Err e" if big: "\<not> 768 + 128 * 2 ^ k < (2::nat) ^ 32"
  proof (cases "32 \<le> k")
    case True
    then have "unat (hd_slot_capacity h) = 0" unfolding h(7) by (subst of_nat_pow_u32) simp_all
    then show ?thesis by (simp add: validate_control_header_def hc Let_def)
  next
    case False
    then have "(2::nat) ^ k < 2 ^ 32" by (intro power_strict_increasing) simp_all
    then have cap: "unat (hd_slot_capacity h) = 2 ^ k" unfolding h(7) by (rule u32)
    have "unat (hd_consumers_offset h) < 2 ^ 32" using u32_bound by simp
    then have "unat (hd_consumers_offset h) \<noteq> 768 + 128 * 2 ^ k" using big by linarith
    then show ?thesis
      using cap pow h(7,9) by (simp add: validate_control_header_def hc Let_def layout_for_power [OF b])
  qed
qed

lemma header_capacity:
  assumes "is_power_of_two (unat (c :: u32))"
  obtains k where "unat c = 2 ^ k" "768 + 256 * 2 ^ k < (2::nat) ^ 64"
proof -
  obtain k where k: "unat c = 2 ^ k" using is_power_of_two_iff [THEN iffD1, OF assms] by blast
  have "2 ^ k < (2::nat) ^ 32" using u32_bound [of c] by (simp only: k) simp
  then show ?thesis using that [OF k] by simp
qed

lemma validate_Ok:
  assumes "validate_control_header h n = Ok cap"
  obtains k where "cap = 2 ^ k" "768 + 256 * 2 ^ k < (2::nat) ^ 64" "768 + 256 * 2 ^ k \<le> n"
proof -
  have pow: "is_power_of_two (unat (hd_slot_capacity h))" using assms by (auto simp: validate_control_header_def Let_def split: if_splits)
  obtain k where k: "unat (hd_slot_capacity h) = 2 ^ k" "768 + 256 * 2 ^ k < (2::nat) ^ 64" using pow by (rule header_capacity)
  show ?thesis
    using assms that [OF _ k(2)] by (auto simp: validate_control_header_def Let_def k(1) layout_for_power [OF k(2)] split: if_splits)
qed

lemma validate_no_panic: "validate_control_header h n \<noteq> Panic"
proof (cases "is_power_of_two (unat (hd_slot_capacity h))")
  case True
  then obtain k where k: "unat (hd_slot_capacity h) = 2 ^ k" "768 + 256 * 2 ^ k < (2::nat) ^ 64" by (rule header_capacity)
  show ?thesis by (simp add: validate_control_header_def Let_def k(1) layout_for_power [OF k(2)])
qed (simp add: validate_control_header_def Let_def)

lemma from_mapped_storage_eq:
  assumes "256 \<le> segment_len s"
  shows "from_mapped_storage s (segment_len s) =
     and_then (validate_control_header (header_of (sg_bytes s)) (segment_len s))
       (\<lambda>cap. Ok \<lparr> pg_layout = std_layout cap, pg_storage = s, pg_producer_config = None \<rparr>)"
proof -
  let ?p = "\<lambda>l. \<lparr> pg_layout = l, pg_storage = s, pg_producer_config = None \<rparr>" and ?h = "header_of (sg_bytes s)"
  have hdr: "page_header (?p (std_layout cap)) = Ok ?h" for cap
    using page_header_eq [of "?p (std_layout cap)"] assms by simp
  have one: "layout_for_capacity (Suc 0) = Ok (std_layout (Suc 0))" using layout_for_power [of 0] by simp
  show ?thesis
  proof (cases "validate_control_header ?h (segment_len s)")
    case (Ok cap)
    then obtain k where k: "cap = 2 ^ k" "768 + 256 * 2 ^ k < (2::nat) ^ 64" by (rule validate_Ok)
    then show ?thesis
      using Ok assms by (simp add: from_mapped_storage_def one hdr Let_def page_consts page_validate_header_def layout_for_power [OF k(2)])
  qed (use assms in \<open>simp_all add: from_mapped_storage_def one hdr Let_def page_consts\<close>)
qed

lemma from_mapped_wf:
  assumes "from_mapped_storage s (segment_len s) = Ok p"
  shows "page_wf p" "pg_storage p = s"
proof -
  have len: "256 \<le> segment_len s" using assms by (auto simp: from_mapped_storage_def page_consts split: if_splits)
  then obtain cap where v: "validate_control_header (header_of (sg_bytes s)) (segment_len s) = Ok cap"
    and p: "p = \<lparr> pg_layout = std_layout cap, pg_storage = s, pg_producer_config = None \<rparr>"
    using assms by (auto simp: from_mapped_storage_eq and_then_eq_Ok)
  obtain k where "cap = 2 ^ k" "768 + 256 * 2 ^ k < (2::nat) ^ 64" "768 + 256 * 2 ^ k \<le> segment_len s" using v by (rule validate_Ok)
  then show "page_wf p" "pg_storage p = s" using p by (auto simp: page_wf_def)
qed

lemma from_mapped_no_panic: "from_mapped_storage s (segment_len s) \<noteq> Panic"
  by (cases "256 \<le> segment_len s")
    (auto simp: from_mapped_storage_eq and_then_eq_Panic validate_no_panic, auto simp: from_mapped_storage_def page_consts)

lemma read_no_panic:
  assumes "page_wf p"
  shows "read_entry_for_cursor c p \<noteq> Panic"
proof -
  obtain k where k: "pg_layout p = std_layout (2 ^ k)" "768 + 256 * 2 ^ k < (2::nat) ^ 64" using assms by (rule page_wf_layout)
  have i: "unat ((c - 1) AND slot_index_mask (pg_layout p)) < cap_of p"
    using slot_index [OF cap_exponent [OF k(2)], of "c - 1"] k(1) by simp
  have slot: "read_slot_seqlock (unat ((c - 1) AND slot_index_mask (pg_layout p))) c p \<noteq> Panic"
    using read_slot_seqlock_wf [OF assms i] by simp
  have cfg: "read_config_seqlock g p \<noteq> Panic" for g
    using read_config_seqlock_wf [OF assms, of g] by (cases "g = 0") (auto simp: read_config_seqlock_def Let_def)
  have "map_outcome_ok f (map_err x (read_config_seqlock g p)) \<noteq> Panic" for f :: "stream_config \<Rightarrow> ring_entry" and x :: "_ \<Rightarrow> ring_read_error" and g
    using cfg [of g] by (cases "read_config_seqlock g p") simp_all
  then show ?thesis
    using slot by (simp add: read_entry_for_cursor_def latest_cursor_def oldest_live_cursor_def loads [OF assms] Let_def and_then_eq_Panic)
qed

section \<open>Consumer cursors\<close>

definition consumer_id_at :: "control_page \<Rightarrow> nat \<Rightarrow> u64" where
  "consumer_id_at p i = ce_consumer_id (consumer_of_bytes (read_cell p (ConsumerCell i)))"

text \<open>No identity is registered twice.\<close>

definition consumers_ok :: "control_page \<Rightarrow> bool" where
  "consumers_ok p \<longleftrightarrow> (\<forall>i<cap_of p. \<forall>j<cap_of p. consumer_id_at p i = consumer_id_at p j \<longrightarrow> consumer_id_at p i \<noteq> 0 \<longrightarrow> i = j)"

lemma find_consumer_eq:
  "page_wf p \<Longrightarrow> \<forall>i\<in>set is. i < cap_of p \<Longrightarrow> find_consumer is cid p = Ok (find (\<lambda>i. consumer_id_at p i = cid) is)"
  by (induction "is") (simp_all add: loads(7) consumer_id_at_def)

lemma find_range_Some: "find P [0..<n] = Some i \<Longrightarrow> i < n \<and> P i"
  by (auto simp: find_Some_iff)

lemma find_range_None: "find P [0..<n] = None \<longleftrightarrow> (\<forall>i<n. \<not> P i)"
  by (auto simp: find_None_iff)

lemma consumer_capacity: "page_wf p \<Longrightarrow> pl_consumer_capacity (pg_layout p) = cap_of p"
  by (auto simp: page_wf_def)

lemma consumer_write:
  assumes "page_wf p" "i < cap_of p" "j < cap_of p"
  shows "consumer_id_at (write_cell (ConsumerCell i) (consumer_bytes e) p) j = (if j = i then ce_consumer_id e else consumer_id_at p j)"
  using assms by (simp add: consumer_id_at_def read_write_cell cell_ok_def)

section \<open>Properties\<close>

lemma small_page: "\<exists>p. page_new 2 = Ok p \<and> pg_layout p = std_layout 2"
proof -
  have "layout_for_capacity 2 = Ok (std_layout 2)" using layout_for_power [of 1] by simp
  then show ?thesis
    by (simp add: page_new_def segment_new_def store_initial_header_def write_page_def segment_write_put segment_len_def)
qed

text \<open>C26. The bytes implement the ring: after any sequence of pushes to a new page, \<open>read_entry_for_cursor\<close>
  returns for every cursor exactly what the abstract ring says: the pushed frame with its
  configuration while it is one of the last \<open>slot_capacity\<close> frames and its configuration one of the
  last four, and otherwise the error that tells which of the two it outlived.  (Fewer than \<open>2 ^ 32\<close> pushes
  keep the configuration generation within the 32 bits of a slot.)\<close>

theorem control_page_refines_ring:
  assumes "page_new n = Ok p0" "length es < 2 ^ 32"
  shows "\<exists>p. push_all es p0 = Ok p \<and>
     (\<forall>cursor. read_entry_for_cursor cursor p = spec_read (pl_slot_capacity (pg_layout p0)) (fold spec_push es spec_empty) cursor)"
proof -
  obtain p where p: "push_all es p0 = Ok p" "producer_rel (fold spec_push es spec_empty) p" "header_kept p0 p"
    using push_all_spec [OF page_new_rel [OF assms(1)], of es] assms(2) by (auto simp: spec_empty_def)
  then have "ring_rel (fold spec_push es spec_empty) p" "pg_layout p = pg_layout p0" by (simp_all add: producer_rel_def header_kept_def)
  then show ?thesis using p(1) read_entry_spec [of _ p] by auto
qed

theorem control_page_refines_ring_witness:
  "\<exists>p0 p. page_new 2 = Ok p0 \<and> push_all [sample_push 1, sample_push 2, sample_push 3] p0 = Ok p \<and>
     read_entry_for_cursor 1 p = Err (Lapped 1 2 3) \<and> read_entry_for_cursor 3 p = Ok (spec_entry 3 (sample_push 3) 1)"
proof -
  obtain p0 where p0: "page_new 2 = Ok p0" "pg_layout p0 = std_layout 2" using small_page by blast
  let ?es = "[sample_push 1, sample_push 2, sample_push 3]"
  obtain p where p: "push_all ?es p0 = Ok p"
    "\<And>c. read_entry_for_cursor c p = spec_read 2 (fold spec_push ?es spec_empty) c"
    using control_page_refines_ring [OF p0(1), of ?es] p0(2) by auto
  have "fold spec_push ?es spec_empty = \<lparr> rs_frames = [(sample_push 1, 1), (sample_push 2, 1), (sample_push 3, 1)],
      rs_configs = [entry_config (sample_push 1)] \<rparr>"
    by (simp add: spec_push_def spec_empty_def spec_config_def sample_push_def entry_config_def)
  then show ?thesis
    using p0(1) p by (intro exI [of _ p0] exI [of _ p]) (simp add: spec_read_def oldest_of_def Let_def)
qed

text \<open>C27. Round trip through the mapping: a consumer that maps the storage of a producer's page, after any pushes,
  gets the producer's page (its private cache apart) exactly when the region offsets fit the 32-bit header fields, and
  an error otherwise.\<close>

theorem mapped_page_is_producers_page:
  assumes "page_new n = Ok p0" "length es < 2 ^ 32" "push_all es p0 = Ok p"
  shows "if pl_consumers_offset (pg_layout p0) < 2 ^ 32
    then from_mapped_storage (pg_storage p) (segment_len (pg_storage p)) = Ok (p\<lparr> pg_producer_config := None \<rparr>)
    else \<exists>e. from_mapped_storage (pg_storage p) (segment_len (pg_storage p)) = Err e"
proof -
  obtain k where k: "768 + 256 * 2 ^ k < (2::nat) ^ 64" "pg_layout p0 = std_layout (2 ^ k)"
    "pg_storage p0 = \<lparr> sg_bytes = put_bytes 0 (header_bytes (initial_header (std_layout (2 ^ k)))) (replicate (768 + 256 * 2 ^ k) 0),
       sg_writable = True \<rparr>"
    using assms(1) by (rule page_new_Ok)
  have kept: "header_kept p0 p"
    using push_all_spec [OF page_new_rel [OF assms(1)], of es] assms(2,3) by (auto simp: spec_empty_def)
  let ?s = "pg_storage p" and ?hb = "header_bytes (initial_header (std_layout (2 ^ k)))"
  have len: "segment_len ?s = 768 + 256 * 2 ^ k" using kept by (simp add: header_kept_def k(3) segment_len_def)
  have "get_bytes 0 128 (sg_bytes ?s) = get_bytes 0 128 ?hb" using kept by (simp add: header_kept_def k(3) get_put_within)
  then have c: "same_constants (initial_header (std_layout (2 ^ k))) (header_of (sg_bytes ?s))" by (rule header_of_constants)
  have layout: "pg_layout p = std_layout (2 ^ k)" using kept k(2) by (simp add: header_kept_def)
  have big: "256 \<le> segment_len ?s" by (simp add: len)
  show ?thesis
  proof (cases "768 + 128 * 2 ^ k < (2::nat) ^ 32")
    case True
    have "validate_control_header (header_of (sg_bytes ?s)) (segment_len ?s) = Ok (2 ^ k)"
      by (rule validate_std(1) [OF c _ k(1) True]) (simp add: len)
    then show ?thesis using True k(2) layout big by (cases p) (simp add: from_mapped_storage_eq)
  next
    case False
    obtain e where "validate_control_header (header_of (sg_bytes ?s)) (segment_len ?s) = Err e"
      using validate_std(2) [OF c _ k(1) False] len by auto
    then show ?thesis using False k(2) by (simp add: from_mapped_storage_eq [OF big])
  qed
qed

theorem mapped_page_is_producers_page_witness:
  "\<exists>p0 p. page_new 2 = Ok p0 \<and> push_all [sample_push 1] p0 = Ok p \<and>
     from_mapped_storage (pg_storage p) (segment_len (pg_storage p)) = Ok (p\<lparr> pg_producer_config := None \<rparr>)"
proof -
  obtain p0 where p0: "page_new 2 = Ok p0" "pg_layout p0 = std_layout 2" using small_page by blast
  obtain p where p: "push_all [sample_push 1] p0 = Ok p"
    using push_all_spec [OF page_new_rel [OF p0(1)], of "[sample_push 1]"] by (auto simp: spec_empty_def)
  show ?thesis
    using mapped_page_is_producers_page [OF p0(1) _ p] p0 p by (intro exI [of _ p0] exI [of _ p]) simp
qed



text \<open>The consumer table: \<open>register_consumer_cursor\<close> never panics on a writable page and keeps identities unique; it
  returns the slot that the consumer already has, or else a slot that was free, with every other slot unchanged, and it
  fails only when the consumer is unknown and no slot is free; \<open>unregister_consumer_cursor\<close> then removes the identity.\<close>

theorem consumer_registration:
  assumes "page_wf p" "sg_writable (pg_storage p)" "consumers_ok p" "cid \<noteq> 0"
  shows "case register_consumer_cursor cid p of
      Ok (i, p') \<Rightarrow> i < cap_of p \<and> consumer_id_at p' i = cid \<and> consumers_ok p' \<and>
        (consumer_id_at p i = cid \<and> p' = p \<or> consumer_id_at p i = 0 \<and> (\<forall>j<cap_of p. consumer_id_at p j \<noteq> cid)) \<and>
        (\<forall>j<cap_of p. j \<noteq> i \<longrightarrow> consumer_id_at p' j = consumer_id_at p j) \<and>
        (\<exists>p''. unregister_consumer_cursor cid p' = Ok p'' \<and> (\<forall>j<cap_of p. consumer_id_at p'' j \<noteq> cid))
    | Err e \<Rightarrow> (\<forall>j<cap_of p. consumer_id_at p j \<noteq> cid \<and> consumer_id_at p j \<noteq> 0)
    | Panic \<Rightarrow> False"
proof -
  let ?find = "\<lambda>x. find (\<lambda>i. consumer_id_at p i = x) [0..<cap_of p]"
  have unreg: "\<exists>p''. unregister_consumer_cursor cid q = Ok p'' \<and> (\<forall>j<cap_of p. consumer_id_at p'' j \<noteq> cid)"
    if q: "page_wf q" "sg_writable (pg_storage q)" "consumers_ok q" "cap_of q = cap_of p" "i < cap_of p" "consumer_id_at q i = cid" for q i
  proof -
    obtain k where k: "find (\<lambda>i. consumer_id_at q i = cid) [0..<cap_of p] = Some k"
      using q(5,6) find_range_None [of "\<lambda>i. consumer_id_at q i = cid" "cap_of p"] by (metis option.exhaust)
    have "k < cap_of p" "consumer_id_at q k = cid" using find_range_Some [OF k] by simp_all
    then have "consumer_id_at q j \<noteq> cid" if "j < cap_of p" "j \<noteq> k" for j
      using q(3,4) that assms(4) by (auto simp: consumers_ok_def)
    then show ?thesis
      using k \<open>k < cap_of p\<close> q(1,2,4) assms(4)
      by (simp add: unregister_consumer_cursor_def consumer_capacity find_consumer_eq stores consumer_write consumer_entry_default_def)
  qed
  show ?thesis
  proof (cases "?find cid")
    case (Some i)
    then have i: "i < cap_of p" "consumer_id_at p i = cid" using find_range_Some by auto
    have "register_consumer_cursor cid p = Ok (i, p)"
      using Some assms by (simp add: register_consumer_cursor_def consumer_capacity find_consumer_eq Let_def)
    then show ?thesis using i assms unreg [OF assms(1,2,3) refl i] by simp
  next
    case None
    then have none: "\<forall>j<cap_of p. consumer_id_at p j \<noteq> cid" by (simp add: find_range_None)
    show ?thesis
    proof (cases "?find 0")
      case free: None
      then have "\<forall>j<cap_of p. consumer_id_at p j \<noteq> 0" by (simp add: find_range_None)
      moreover have "\<exists>e. register_consumer_cursor cid p = Err e"
        using None free assms by (simp add: register_consumer_cursor_def consumer_capacity find_consumer_eq Let_def)
      ultimately show ?thesis using none by auto
    next
      case (Some i)
      then have i: "i < cap_of p" "consumer_id_at p i = 0" using find_range_Some by auto
      let ?e = "consumer_entry_default\<lparr> ce_consumer_id := cid \<rparr>"
      let ?p = "write_cell (ConsumerCell i) (consumer_bytes ?e) p"
      have r: "register_consumer_cursor cid p = Ok (i, ?p)"
        using None Some i assms by (simp add: register_consumer_cursor_def consumer_capacity find_consumer_eq stores Let_def)
      have ids: "consumer_id_at ?p j = (if j = i then cid else consumer_id_at p j)" if "j < cap_of p" for j
        using consumer_write [OF assms(1) i(1) that, of ?e] by simp
      have ok: "consumers_ok ?p" using assms(3) none ids by (auto simp: consumers_ok_def)
      have wf: "page_wf ?p" using write_cell_wf [OF assms(1)] i(1) by simp
      have "\<exists>p''. unregister_consumer_cursor cid ?p = Ok p'' \<and> (\<forall>j<cap_of p. consumer_id_at p'' j \<noteq> cid)"
        by (rule unreg [OF wf _ ok _ i(1)]) (simp_all add: assms(2) ids i(1))
      then show ?thesis using r i ids ok none by simp
    qed
  qed
qed

theorem consumer_registration_witness:
  "\<exists>p i p'. page_new 2 = Ok p \<and> register_consumer_cursor 5 p = Ok (i, p') \<and> i < 2 \<and> consumer_id_at p' i = 5"
proof -
  obtain p where p: "page_new 2 = Ok p" "pg_layout p = std_layout 2" using small_page by blast
  obtain k where k: "pg_layout p = std_layout (2 ^ k)"
    "pg_storage p = \<lparr> sg_bytes = put_bytes 0 (header_bytes (initial_header (std_layout (2 ^ k)))) (replicate (768 + 256 * 2 ^ k) 0),
       sg_writable = True \<rparr>"
    using p(1) by (rule page_new_Ok)
  have two: "(2::nat) ^ k = 2" using k(1) p(2) by (metis std_layout_simps(4))
  have wf: "page_wf p" "sg_writable (pg_storage p)" using page_new_rel [OF p(1)] by (simp_all add: producer_rel_def ring_rel_def)
  have zero: "consumer_id_at p i = 0" if "i < 2" for i
  proof -
    have "get_bytes (1024 + 128 * i) 128 (sg_bytes (pg_storage p)) = get_bytes (1024 + 128 * i) 128 (replicate 1280 0)"
      unfolding k(2) two using that by (simp, intro get_put_other) simp_all
    also have "\<dots> = replicate 128 0" using that by (simp add: get_bytes_def)
    finally have "read_cell p (ConsumerCell i) = replicate 128 0" using p(2) by (simp add: read_cell_def)
    moreover have "from_le (replicate 8 0) = (0 :: u64)" by (simp add: numeral_eq_Suc)
    ultimately show ?thesis by (simp add: consumer_id_at_def consumer_of_bytes_def field64_def get_bytes_def)
  qed
  then have "consumers_ok p" using p(2) by (simp add: consumers_ok_def)
  then show ?thesis
    using consumer_registration [OF wf, of 5] p zero [of 0] by (cases "register_consumer_cursor 5 p") (auto dest: spec [of _ 0])
qed

end
