(* ===== verification/Framing.thy ===== *)
theory Framing
  imports Byte_Memory "HOL-Library.Sublist"
begin

text \<open>
  Length-prefixed framing over a nonblocking byte stream (\<open>framing.rs\<close>), which carries the handshake
  and the input channel.  \<open>ser\<close> and \<open>de\<close> stand for \<open>serde_json::to_vec\<close> and \<open>from_slice\<close>; of the stream only
  what each call did is given, as a script of turns: how many bytes moved, or would-block,
  interruption, end or failure.  Bytes move through a pipe in order.
\<close>

section \<open>Framed\<close>

definition MAX_FRAME :: nat where "MAX_FRAME = 128 * 1024"
definition MAX_BUFFER :: nat where "MAX_BUFFER = 512 * 1024"

datatype frame_error = BoundExceeded | InvalidFrameSize | Json | WriteZero | UnexpectedEof | StreamFailed

record framed =
  fr_input :: bytes
  fr_output :: "bytes list"
  fr_offset :: nat
  fr_queued :: nat

definition framed_new :: framed where
  "framed_new = \<lparr> fr_input = [], fr_output = [], fr_offset = 0, fr_queued = 0 \<rparr>"

definition be32 :: "u32 \<Rightarrow> bytes" where "be32 x = rev (le32 x)"
definition from_be32 :: "bytes \<Rightarrow> u32" where "from_be32 bs = from_le (rev bs)"

lemma be32_round [simp]: "from_be32 (be32 x) = x" "length (be32 x) = 4"
  by (simp_all add: be32_def from_be32_def)

definition frame_bytes :: "bytes \<Rightarrow> bytes" where
  "frame_bytes json = be32 (of_nat (length json)) @ json"

definition framed_send :: "('m \<Rightarrow> bytes option) \<Rightarrow> 'm \<Rightarrow> framed \<Rightarrow> (unit, frame_error) outcome \<times> framed" where
  "framed_send ser msg f =
     (case ser msg of
        None \<Rightarrow> (Err Json, f)
      | Some json \<Rightarrow>
        if json = [] \<or> MAX_FRAME < length json \<or> MAX_BUFFER < fr_queued f + length json + 4 then (Err BoundExceeded, f)
        else let frame = frame_bytes json in
          (Ok (), f\<lparr> fr_queued := fr_queued f + length frame, fr_output := fr_output f @ [frame] \<rparr>))"

datatype turn = Move nat | Block | Interrupt | Eof | Fail

text \<open>The loop of \<open>flush\<close>; the bytes that the stream accepted are appended to the pipe.  A script
  that has run out blocks.\<close>

fun framed_flush :: "turn list \<Rightarrow> framed \<Rightarrow> bytes \<Rightarrow> (unit, frame_error) outcome \<times> framed \<times> bytes" where
  "framed_flush ts f pipe =
     (case fr_output f of
        [] \<Rightarrow> (Ok (), f, pipe)
      | frame # rest \<Rightarrow>
        (case ts of
           [] \<Rightarrow> (Ok (), f, pipe)
         | t # ts' \<Rightarrow>
           (case t of
              Move k \<Rightarrow>
                let chunk = take k (drop (fr_offset f) frame); n = length chunk in
                if n = 0 then (Err WriteZero, f, pipe)
                else
                  let f1 = f\<lparr> fr_offset := fr_offset f + n, fr_queued := fr_queued f - n \<rparr>;
                      f2 = (if fr_offset f1 = length frame then f1\<lparr> fr_output := rest, fr_offset := 0 \<rparr> else f1)
                  in framed_flush ts' f2 (pipe @ chunk)
            | Block \<Rightarrow> (Ok (), f, pipe)
            | Interrupt \<Rightarrow> framed_flush ts' f pipe
            | _ \<Rightarrow> (Err StreamFailed, f, pipe))))"

declare framed_flush.simps [simp del]

text \<open>\<open>idle\<close>: nothing is queued, and the stream's own flush (its outcome is the argument) is done.\<close>

definition framed_idle :: "turn \<Rightarrow> framed \<Rightarrow> (bool, frame_error) outcome" where
  "framed_idle t f =
     (if fr_output f \<noteq> [] then Ok False
      else case t of Move _ \<Rightarrow> Ok True | Block \<Rightarrow> Ok False | _ \<Rightarrow> Err StreamFailed)"

text \<open>One look at the buffer at the head of the loop of \<open>receive\<close>: nothing yet, an error, or a message.\<close>

definition take_message :: "(bytes \<Rightarrow> 'm option) \<Rightarrow> framed \<Rightarrow> ('m, frame_error) outcome option \<times> framed" where
  "take_message de f =
     (let input = fr_input f in
      if length input < 4 then (None, f)
      else let size = unat (from_be32 (take 4 input)) in
        if size = 0 \<or> MAX_FRAME < size then (Some (Err InvalidFrameSize), f)
        else if length input < size + 4 then (None, f)
        else case de (take size (drop 4 input)) of
          None \<Rightarrow> (Some (Err Json), f)
        | Some msg \<Rightarrow> (Some (Ok msg), f\<lparr> fr_input := drop (size + 4) input \<rparr>))"

text \<open>The loop of \<open>receive\<close>: a read finds at most 4096 bytes of what the pipe holds, and blocks on an empty pipe.\<close>

fun framed_receive :: "(bytes \<Rightarrow> 'm option) \<Rightarrow> turn list \<Rightarrow> framed \<Rightarrow> bytes \<Rightarrow> ('m option, frame_error) outcome \<times> framed \<times> bytes" where
  "framed_receive de ts f pipe =
     (case take_message de f of
        (Some (Ok msg), f') \<Rightarrow> (Ok (Some msg), f', pipe)
      | (Some (Err e), f') \<Rightarrow> (Err e, f', pipe)
      | (Some Panic, f') \<Rightarrow> (Panic, f', pipe)
      | (None, _) \<Rightarrow>
        (case ts of
           [] \<Rightarrow> (Ok None, f, pipe)
         | t # ts' \<Rightarrow>
           (case t of
              Move k \<Rightarrow>
                let n = min (min k 4096) (length pipe) in
                if pipe = [] then (Ok None, f, pipe)
                else if k = 0 then (Err UnexpectedEof, f, pipe)
                else framed_receive de ts' (f\<lparr> fr_input := fr_input f @ take n pipe \<rparr>) (drop n pipe)
            | Block \<Rightarrow> (Ok None, f, pipe)
            | Interrupt \<Rightarrow> framed_receive de ts' f pipe
            | Eof \<Rightarrow> (Err UnexpectedEof, f, pipe)
            | Fail \<Rightarrow> (Err StreamFailed, f, pipe))))"

declare framed_receive.simps [simp del]

section \<open>What is in flight\<close>

definition unsent :: "framed \<Rightarrow> bytes" where
  "unsent f = drop (fr_offset f) (concat (fr_output f))"

definition tx_ok :: "framed \<Rightarrow> bool" where
  "tx_ok f \<longleftrightarrow> fr_queued f = length (unsent f) \<and> fr_queued f \<le> MAX_BUFFER \<and>
     [] \<notin> set (fr_output f) \<and> (case fr_output f of [] \<Rightarrow> fr_offset f = 0 | x # _ \<Rightarrow> fr_offset f < length x)"

definition rx_ok :: "framed \<Rightarrow> bool" where
  "rx_ok f \<longleftrightarrow> length (fr_input f) \<le> MAX_FRAME + 4 + 4096"

lemma frame_bytes_length [simp]: "length (frame_bytes json) = length json + 4"
  by (simp add: frame_bytes_def)

lemma frame_bytes_nonempty [simp]: "frame_bytes json \<noteq> []" "[] \<noteq> frame_bytes json"
  using frame_bytes_length [of json] by (metis add_is_0 list.size(3) zero_neq_numeral)+

lemma send_ok:
  assumes "tx_ok f" "framed_send ser m f = (r, f')"
  shows "tx_ok f'" "r = Ok () \<Longrightarrow> \<exists>json. ser m = Some json \<and> json \<noteq> [] \<and> length json \<le> MAX_FRAME \<and> unsent f' = unsent f @ frame_bytes json"
    "r \<noteq> Ok () \<Longrightarrow> f' = f" "fr_input f' = fr_input f"
proof -
  have off: "fr_offset f \<le> length (concat (fr_output f))" using assms(1) by (cases "fr_output f") (auto simp: tx_ok_def)
  show "tx_ok f'"
    using assms off by (cases "fr_output f") (auto simp: framed_send_def tx_ok_def unsent_def Let_def split: option.splits if_splits)
  show "r = Ok () \<Longrightarrow> \<exists>json. ser m = Some json \<and> json \<noteq> [] \<and> length json \<le> MAX_FRAME \<and> unsent f' = unsent f @ frame_bytes json"
    using assms off by (auto simp: framed_send_def unsent_def Let_def split: option.splits if_splits)
  show "r \<noteq> Ok () \<Longrightarrow> f' = f" "fr_input f' = fr_input f"
    using assms(2) by (auto simp: framed_send_def Let_def split: option.splits if_splits)
qed

text \<open>One accepted write: the chunk leaves the sender, and a frame that is complete leaves the queue.\<close>

definition sent_chunk :: "nat \<Rightarrow> framed \<Rightarrow> framed" where
  "sent_chunk n f =
     (let f1 = f\<lparr> fr_offset := fr_offset f + n, fr_queued := fr_queued f - n \<rparr> in
      if fr_offset f1 = length (hd (fr_output f)) then f1\<lparr> fr_output := tl (fr_output f), fr_offset := 0 \<rparr> else f1)"

lemma sent_chunk_ok:
  assumes ok: "tx_ok f" and f: "fr_output f = frame # rest" and c: "chunk = take k (drop (fr_offset f) frame)" "chunk \<noteq> []"
  shows "tx_ok (sent_chunk (length chunk) f)" "unsent f = chunk @ unsent (sent_chunk (length chunk) f)"
    "fr_input (sent_chunk (length chunk) f) = fr_input f"
proof -
  let ?n = "length chunk" and ?f = "sent_chunk (length chunk) f"
  have off: "fr_offset f < length frame" and ne: "[] \<notin> set rest" using ok f by (auto simp: tx_ok_def)
  have n: "?n = min k (length frame - fr_offset f)" by (simp add: c(1) min.commute)
  have "drop k (drop (fr_offset f) frame) = drop (fr_offset f + ?n) frame"
    unfolding n by (cases "k \<le> length frame - fr_offset f") (simp_all add: add.commute)
  then have "drop (fr_offset f) frame = chunk @ drop (fr_offset f + ?n) frame" unfolding c(1) by (metis append_take_drop_id c(1))
  then show un: "unsent f = chunk @ unsent ?f" using off n f by (auto simp: unsent_def sent_chunk_def Let_def min_def)
  have q: "fr_queued ?f = fr_queued f - ?n" by (simp add: sent_chunk_def Let_def)
  have "length (unsent f) = ?n + length (unsent ?f)" by (subst un) simp
  then have "fr_queued ?f = length (unsent ?f)" "fr_queued ?f \<le> MAX_BUFFER" using ok q by (simp_all add: tx_ok_def)
  moreover have "fr_offset f + ?n \<noteq> length frame \<Longrightarrow> fr_offset f + ?n < length frame"
    using off n min.cobounded2 [of k "length frame - fr_offset f"] by linarith
  ultimately show "tx_ok ?f" using f ne ok by (auto simp: tx_ok_def sent_chunk_def Let_def split: list.split)
  show "fr_input ?f = fr_input f" by (simp add: sent_chunk_def Let_def)
qed

lemma flush_Move:
  "fr_output f = frame # rest \<Longrightarrow> framed_flush (Move k # ts) f pipe =
     (let chunk = take k (drop (fr_offset f) frame) in
      if chunk = [] then (Err WriteZero, f, pipe) else framed_flush ts (sent_chunk (length chunk) f) (pipe @ chunk))"
  by (subst framed_flush.simps) (simp add: Let_def sent_chunk_def)

lemma flush_ok:
  assumes "tx_ok f" "framed_flush ts f pipe = (r, f', pipe')"
  shows "tx_ok f' \<and> pipe' @ unsent f' = pipe @ unsent f \<and> fr_input f' = fr_input f \<and> r \<noteq> Panic"
  using assms
proof (induction ts arbitrary: f pipe)
  case Nil
  then show ?case by (subst (asm) framed_flush.simps) (auto split: list.splits)
next
  case (Cons t ts)
  show ?case
  proof (cases "fr_output f")
    case Nil
    then show ?thesis using Cons.prems by (subst (asm) framed_flush.simps) auto
  next
    case f: (Cons frame rest)
    show ?thesis
    proof (cases t)
      case (Move k)
      let ?chunk = "take k (drop (fr_offset f) frame)"
      show ?thesis
      proof (cases "?chunk = []")
        case True
        then show ?thesis using Cons.prems f Move by (auto simp: flush_Move [OF f] Let_def simp del: take_eq_Nil)
      next
        case False
        note ch = sent_chunk_ok [OF Cons.prems(1) f refl False]
        have "framed_flush ts (sent_chunk (length ?chunk) f) (pipe @ ?chunk) = (r, f', pipe')"
          using Cons.prems(2) False unfolding Move flush_Move [OF f] Let_def by (simp only: if_False)
        from Cons.IH [OF ch(1) this] show ?thesis using ch by simp
      qed
    next
      case Interrupt
      then have "framed_flush ts f pipe = (r, f', pipe')" using Cons.prems(2) f by (subst (asm) framed_flush.simps) simp
      then show ?thesis by (rule Cons.IH [OF Cons.prems(1)])
    qed (use Cons.prems f in \<open>auto simp: framed_flush.simps\<close>)
  qed
qed

section \<open>Receiving what was sent\<close>

definition carries :: "('m \<Rightarrow> bytes option) \<Rightarrow> 'm \<Rightarrow> bool" where
  "carries ser m \<longleftrightarrow> (case ser m of None \<Rightarrow> False | Some json \<Rightarrow> json \<noteq> [] \<and> length json \<le> MAX_FRAME)"

definition encode :: "('m \<Rightarrow> bytes option) \<Rightarrow> 'm list \<Rightarrow> bytes" where
  "encode ser ms = concat (map (\<lambda>m. frame_bytes (the (ser m))) ms)"

lemma encode_simps [simp]: "encode ser [] = []" "encode ser (m # ms) = frame_bytes (the (ser m)) @ encode ser ms"
  "encode ser (ms @ ks) = encode ser ms @ encode ser ks"
  by (simp_all add: encode_def)

lemma encode_Nil: "encode ser ms = [] \<longleftrightarrow> ms = []"
  by (cases ms) simp_all

lemma frame_size: "length json \<le> MAX_FRAME \<Longrightarrow> unat (from_be32 (take 4 (frame_bytes json @ bs))) = length json"
  by (simp add: frame_bytes_def MAX_FRAME_def unat_of_nat)

lemma take_message_ok:
  assumes s: "fr_input f @ tail = encode ser ms" "list_all (carries ser) ms" and rt: "\<And>m json. ser m = Some json \<Longrightarrow> de json = Some m"
  obtains (wait) "take_message de f = (None, f)" "length (fr_input f) < MAX_FRAME + 4" "ms = [] \<or> tail \<noteq> []"
  | (message) m ms' input' where "ms = m # ms'" "take_message de f = (Some (Ok m), f\<lparr> fr_input := input' \<rparr>)"
      "input' @ tail = encode ser ms'" "length input' \<le> length (fr_input f)"
proof (cases "length (fr_input f) < 4")
  case True
  moreover have "ms = [] \<or> tail \<noteq> []" using True s(1) by (cases ms) auto
  ultimately show ?thesis by (intro wait) (simp_all add: take_message_def Let_def)
next
  case False
  then obtain m ms' where ms: "ms = m # ms'" using s(1) by (cases ms) auto
  then obtain json where j: "ser m = Some json" "json \<noteq> []" "length json \<le> MAX_FRAME"
    using s(2) by (auto simp: carries_def split: option.splits)
  have e: "fr_input f @ tail = frame_bytes json @ encode ser ms'" using s(1) ms j(1) by simp
  have "take 4 (fr_input f) = take 4 (fr_input f @ tail)" using False by simp
  then have size: "unat (from_be32 (take 4 (fr_input f))) = length json"
    unfolding e using frame_size [OF j(3)] by (simp only:)
  show ?thesis
  proof (cases "length (fr_input f) < length json + 4")
    case True
    moreover have "tail \<noteq> []" using True arg_cong [OF e, of length] by auto
    ultimately show ?thesis using False size j(2,3) by (intro wait) (simp_all add: take_message_def Let_def)
  next
    case full: False
    have d: "drop 4 (fr_input f) @ tail = json @ encode ser ms'"
      using arg_cong [OF e, of "drop 4"] False by (simp add: frame_bytes_def)
    have t: "take (length json) (drop 4 (fr_input f)) = json"
      using arg_cong [OF d, of "take (length json)"] full by simp
    have r: "drop (length json + 4) (fr_input f) @ tail = encode ser ms'"
      using arg_cong [OF d, of "drop (length json)"] full by (simp add: add.commute)
    have "take_message de f = (Some (Ok m), f\<lparr> fr_input := drop (length json + 4) (fr_input f) \<rparr>)"
      using False full size j t rt [OF j(1)] by (simp add: take_message_def Let_def)
    then show ?thesis using message [OF ms] r by simp
  qed
qed

lemma take_drop_app: "take n xs @ drop n xs @ ys = xs @ ys"
  by (simp flip: append.assoc)

lemma receive_ok:
  assumes "fr_input f @ pipe @ tail = encode ser ms" "list_all (carries ser) ms" "rx_ok f"
    and rt: "\<And>m json. ser m = Some json \<Longrightarrow> de json = Some m"
    and "framed_receive de ts f pipe = (r, f', pipe')"
  shows "rx_ok f' \<and> fr_output f' = fr_output f \<and> fr_offset f' = fr_offset f \<and> fr_queued f' = fr_queued f \<and>
    (case r of
       Ok (Some m) \<Rightarrow> \<exists>ms'. ms = m # ms' \<and> fr_input f' @ pipe' @ tail = encode ser ms'
     | Ok None \<Rightarrow> fr_input f' @ pipe' = fr_input f @ pipe
     | Err e \<Rightarrow> e \<in> {UnexpectedEof, StreamFailed} \<and> fr_input f' @ pipe' = fr_input f @ pipe
     | Panic \<Rightarrow> False)"
  using assms(1,2,3,5)
proof (induction ts arbitrary: f pipe)
  case Nil
  show ?case
    by (rule take_message_ok [OF Nil.prems(1,2) rt])
      (use Nil.prems in \<open>auto simp: framed_receive.simps rx_ok_def\<close>)
next
  case (Cons t ts)
  show ?case
  proof (rule take_message_ok [OF Cons.prems(1,2) rt])
    fix m ms' input'
    assume "ms = m # ms'" "take_message de f = (Some (Ok m), f\<lparr> fr_input := input' \<rparr>)"
      "input' @ pipe @ tail = encode ser ms'" "length input' \<le> length (fr_input f)"
    then show ?thesis using Cons.prems by (auto simp: framed_receive.simps rx_ok_def)
  next
    assume w: "take_message de f = (None, f)" "length (fr_input f) < MAX_FRAME + 4" and "ms = [] \<or> pipe @ tail \<noteq> []"
    show ?thesis
    proof (cases t)
      case (Move k)
      let ?n = "min (min k 4096) (length pipe)"
      let ?f = "f\<lparr> fr_input := fr_input f @ take ?n pipe \<rparr>"
      show ?thesis
      proof (cases "pipe = [] \<or> k = 0")
        case True
        then show ?thesis using Cons.prems w Move by (auto simp: framed_receive.simps Let_def split: if_splits)
      next
        case False
        have "framed_receive de ts ?f (drop ?n pipe) = (r, f', pipe')"
          using Cons.prems(4) w Move False by (subst (asm) framed_receive.simps) (auto simp: Let_def split: if_splits)
        moreover have "fr_input ?f @ drop ?n pipe @ tail = encode ser ms" using Cons.prems(1) by (simp add: take_drop_app)
        moreover have "rx_ok ?f" using w(2) by (simp add: rx_ok_def)
        ultimately have "rx_ok f' \<and> fr_output f' = fr_output ?f \<and> fr_offset f' = fr_offset ?f \<and> fr_queued f' = fr_queued ?f \<and>
          (case r of Ok (Some m) \<Rightarrow> \<exists>ms'. ms = m # ms' \<and> fr_input f' @ pipe' @ tail = encode ser ms'
           | Ok None \<Rightarrow> fr_input f' @ pipe' = fr_input ?f @ drop ?n pipe
           | Err e \<Rightarrow> e \<in> {UnexpectedEof, StreamFailed} \<and> fr_input f' @ pipe' = fr_input ?f @ drop ?n pipe
           | Panic \<Rightarrow> False)"
          by (intro Cons.IH Cons.prems(2))
        then show ?thesis by (simp add: append_take_drop_id split: outcome.splits option.splits)
      qed
    next
      case Interrupt
      then have "framed_receive de ts f pipe = (r, f', pipe')" using Cons.prems(4) w by (subst (asm) framed_receive.simps) simp
      then show ?thesis by (rule Cons.IH [OF Cons.prems(1-3)])
    qed (use Cons.prems w in \<open>auto simp: framed_receive.simps\<close>)
  qed
qed

section \<open>A channel\<close>

text \<open>One direction of a connection: the sender's and the receiver's \<open>Framed\<close>, the bytes in between, and as ghosts
  the messages that \<open>send\<close> accepted and that \<open>receive\<close> returned.\<close>

record 'm channel =
  cn_tx :: framed
  cn_pipe :: bytes
  cn_rx :: framed
  cn_sent :: "'m list"
  cn_got :: "'m list"
  cn_errors :: "frame_error list"

definition channel_init :: "'m channel" where
  "channel_init = \<lparr> cn_tx = framed_new, cn_pipe = [], cn_rx = framed_new, cn_sent = [], cn_got = [], cn_errors = [] \<rparr>"

datatype 'm channel_event = Send 'm | Flush "turn list" | Receive "turn list"

fun channel_step :: "('m \<Rightarrow> bytes option) \<Rightarrow> (bytes \<Rightarrow> 'm option) \<Rightarrow> 'm channel_event \<Rightarrow> 'm channel \<Rightarrow> 'm channel" where
  "channel_step ser de (Send m) c =
     (case framed_send ser m (cn_tx c) of
        (r, f) \<Rightarrow> c\<lparr> cn_tx := f, cn_sent := (if r = Ok () then cn_sent c @ [m] else cn_sent c) \<rparr>)"
| "channel_step ser de (Flush ts) c =
     (case framed_flush ts (cn_tx c) (cn_pipe c) of (r, f, pipe) \<Rightarrow> c\<lparr> cn_tx := f, cn_pipe := pipe \<rparr>)"
| "channel_step ser de (Receive ts) c =
     (case framed_receive de ts (cn_rx c) (cn_pipe c) of
        (r, f, pipe) \<Rightarrow> c\<lparr> cn_rx := f, cn_pipe := pipe,
          cn_got := (case r of Ok (Some m) \<Rightarrow> cn_got c @ [m] | _ \<Rightarrow> cn_got c),
          cn_errors := (case r of Err e \<Rightarrow> cn_errors c @ [e] | _ \<Rightarrow> cn_errors c) \<rparr>)"

inductive channel_reachable :: "('m \<Rightarrow> bytes option) \<Rightarrow> (bytes \<Rightarrow> 'm option) \<Rightarrow> 'm channel \<Rightarrow> bool" for ser de where
  start: "channel_reachable ser de channel_init"
| step: "channel_reachable ser de c \<Longrightarrow> channel_reachable ser de (channel_step ser de e c)"

definition channel_inv :: "('m \<Rightarrow> bytes option) \<Rightarrow> 'm channel \<Rightarrow> bool" where
  "channel_inv ser c \<longleftrightarrow> tx_ok (cn_tx c) \<and> rx_ok (cn_rx c) \<and> list_all (carries ser) (cn_sent c) \<and>
     (\<exists>rest. cn_sent c = cn_got c @ rest \<and> fr_input (cn_rx c) @ cn_pipe c @ unsent (cn_tx c) = encode ser rest) \<and>
     set (cn_errors c) \<subseteq> {UnexpectedEof, StreamFailed}"

lemma channel_step_inv:
  assumes inv: "channel_inv ser c" and rt: "\<And>m json. ser m = Some json \<Longrightarrow> de json = Some m"
  shows "channel_inv ser (channel_step ser de e c)"
proof (cases e)
  case (Send m)
  obtain r f where s: "framed_send ser m (cn_tx c) = (r, f)" by (metis surj_pair)
  note ok = send_ok [OF _ s]
  show ?thesis
  proof (cases "r = Ok ()")
    case True
    then obtain json where j: "ser m = Some json" "json \<noteq> []" "length json \<le> MAX_FRAME" "unsent f = unsent (cn_tx c) @ frame_bytes json"
      using ok(2) inv by (auto simp: channel_inv_def)
    obtain rest where rest: "cn_sent c = cn_got c @ rest" "fr_input (cn_rx c) @ cn_pipe c @ unsent (cn_tx c) = encode ser rest"
      using inv by (auto simp: channel_inv_def)
    have bs: "fr_input (cn_rx c) @ cn_pipe c @ unsent f = encode ser (rest @ [m])"
      using arg_cong [OF rest(2), of "\<lambda>bs. bs @ frame_bytes json"] j(1,4) by simp
    have "carries ser m" "tx_ok f" using j(1-3) ok(1) inv by (simp_all add: carries_def channel_inv_def)
    moreover have "channel_step ser de e c = c\<lparr> cn_tx := f, cn_sent := cn_sent c @ [m] \<rparr>" using True s Send by simp
    ultimately show ?thesis
      using inv bs rest(1) unfolding channel_inv_def by (intro conjI exI [of _ "rest @ [m]"]) simp_all
  next
    case False
    then show ?thesis using inv ok(3) s Send by (auto simp: channel_inv_def)
  qed
next
  case (Flush ts)
  obtain r f pipe where s: "framed_flush ts (cn_tx c) (cn_pipe c) = (r, f, pipe)" by (metis surj_pair)
  then have "tx_ok f" "pipe @ unsent f = cn_pipe c @ unsent (cn_tx c)"
    using flush_ok [OF _ s] inv by (auto simp: channel_inv_def)
  then show ?thesis using inv s Flush by (auto simp: channel_inv_def)
next
  case (Receive ts)
  obtain rest where rest: "cn_sent c = cn_got c @ rest" "fr_input (cn_rx c) @ cn_pipe c @ unsent (cn_tx c) = encode ser rest"
    using inv by (auto simp: channel_inv_def)
  obtain r f pipe where s: "framed_receive de ts (cn_rx c) (cn_pipe c) = (r, f, pipe)" by (metis surj_pair)
  have "list_all (carries ser) rest" "rx_ok (cn_rx c)" using inv rest(1) by (auto simp: channel_inv_def)
  note ok = receive_ok [OF rest(2) this rt s]
  have same: "fr_input f @ pipe @ unsent (cn_tx c) = encode ser rest" if "fr_input f @ pipe = fr_input (cn_rx c) @ cn_pipe c"
    using that rest(2) by (metis append.assoc)
  show ?thesis
  proof (cases r)
    case (Ok x)
    show ?thesis
    proof (cases x)
      case None
      then show ?thesis using inv ok same rest(1) s Receive Ok by (auto simp: channel_inv_def)
    next
      case (Some m)
      then obtain ms' where m: "rest = m # ms'" "fr_input f @ pipe @ unsent (cn_tx c) = encode ser ms'" using ok Ok by auto
      have "channel_step ser de e c = c\<lparr> cn_rx := f, cn_pipe := pipe, cn_got := cn_got c @ [m] \<rparr>" using s Receive Ok Some by simp
      then show ?thesis using inv ok m rest(1) unfolding channel_inv_def by (intro conjI exI [of _ ms']) simp_all
    qed
  next
    case (Err e)
    then show ?thesis using inv ok same rest(1) s Receive by (auto simp: channel_inv_def)
  qed (use ok in simp)
qed

lemma channel_reachable_inv:
  "channel_reachable ser de c \<Longrightarrow> (\<And>m json. ser m = Some json \<Longrightarrow> de json = Some m) \<Longrightarrow> channel_inv ser c"
proof (induction rule: channel_reachable.induct)
  case start
  then show ?case by (simp add: channel_inv_def channel_init_def framed_new_def tx_ok_def rx_ok_def unsent_def)
next
  case (step c e)
  then show ?case using channel_step_inv by metis
qed

section \<open>Progress\<close>

lemma receive_progress:
  assumes "fr_input f @ pipe = encode ser (m # ms)" "list_all (carries ser) (m # ms)" "length pipe \<le> 4096 * k"
    and rt: "\<And>m json. ser m = Some json \<Longrightarrow> de json = Some m"
  shows "fst (framed_receive de (replicate k (Move 4096)) f pipe) = Ok (Some m)"
  using assms(1,3)
proof (induction k arbitrary: f pipe)
  case 0
  then have "pipe = []" by simp
  have "fr_input f @ [] = encode ser (m # ms)" using 0 by simp
  then show ?case
  proof (rule take_message_ok [OF _ assms(2) rt])
    fix n ms' input'
    assume "m # ms = n # ms'" "take_message de f = (Some (Ok n), f\<lparr> fr_input := input' \<rparr>)"
    then show ?thesis by (subst framed_receive.simps) simp
  qed simp_all
next
  case (Suc k)
  show ?case
  proof (rule take_message_ok [OF Suc.prems(1) assms(2) rt])
    assume w: "take_message de f = (None, f)" and "m # ms = [] \<or> pipe \<noteq> []"
    let ?n = "min 4096 (length pipe)"
    let ?f = "f\<lparr> fr_input := fr_input f @ take ?n pipe \<rparr>"
    have "pipe \<noteq> []" using \<open>m # ms = [] \<or> pipe \<noteq> []\<close> by simp
    then have r: "framed_receive de (replicate (Suc k) (Move 4096)) f pipe = framed_receive de (replicate k (Move 4096)) ?f (drop ?n pipe)"
      using w by (subst framed_receive.simps) (simp add: Let_def)
    have "fst (framed_receive de (replicate k (Move 4096)) ?f (drop ?n pipe)) = Ok (Some m)"
      using Suc.prems by (intro Suc.IH) simp_all
    then show ?thesis unfolding r .
  next
    fix n ms' input'
    assume "m # ms = n # ms'" "take_message de f = (Some (Ok n), f\<lparr> fr_input := input' \<rparr>)"
    then show ?thesis by (subst framed_receive.simps) simp
  qed
qed

text \<open>A stream that takes whole frames drains the queue in one turn per frame.\<close>

lemma flush_progress:
  assumes "tx_ok f" "length (fr_output f) \<le> k" "fr_queued f \<le> n"
  shows "\<exists>f'. framed_flush (replicate k (Move n)) f pipe = (Ok (), f', pipe @ unsent f) \<and> unsent f' = []"
  using assms
proof (induction k arbitrary: f pipe)
  case 0
  then show ?case by (subst framed_flush.simps) (simp add: unsent_def)
next
  case (Suc k)
  show ?case
  proof (cases "fr_output f")
    case Nil
    then show ?thesis by (subst framed_flush.simps) (simp add: unsent_def)
  next
    case f: (Cons frame rest)
    let ?chunk = "take n (drop (fr_offset f) frame)"
    have off: "fr_offset f < length frame" and n: "length frame \<le> fr_offset f + n" using Suc.prems f by (simp_all add: tx_ok_def unsent_def)
    then have ch: "?chunk = drop (fr_offset f) frame" "?chunk \<noteq> []" by simp_all
    let ?f = "sent_chunk (length ?chunk) f"
    note ok = sent_chunk_ok [OF Suc.prems(1) f refl ch(2)]
    have q: "fr_queued ?f \<le> fr_queued f" by (simp add: sent_chunk_def Let_def)
    have out: "fr_output ?f = rest" using f off ch(1) by (simp add: sent_chunk_def Let_def)
    have "framed_flush (replicate (Suc k) (Move n)) f pipe = framed_flush (replicate k (Move n)) ?f (pipe @ ?chunk)"
      using ch(2) by (simp only: replicate.simps flush_Move [OF f] Let_def if_False)
    moreover have "\<exists>f'. framed_flush (replicate k (Move n)) ?f (pipe @ ?chunk) = (Ok (), f', (pipe @ ?chunk) @ unsent ?f) \<and> unsent f' = []"
      using Suc.prems f out q by (intro Suc.IH ok(1)) simp_all
    moreover have "(pipe @ ?chunk) @ unsent ?f = pipe @ unsent f" using ok(2) by simp
    ultimately show ?thesis by simp
  qed
qed

section \<open>Any peer\<close>

lemma take_message_bounded:
  assumes "take_message de f = (r, f')"
  shows "r = None \<longrightarrow> f' = f \<and> length (fr_input f) < MAX_FRAME + 4" "r \<noteq> Some Panic"
    "\<exists>i. f' = f\<lparr> fr_input := i \<rparr> \<and> suffix i (fr_input f)"
proof -
  have self: "f = f\<lparr> fr_input := fr_input f \<rparr>" by simp
  show "r = None \<longrightarrow> f' = f \<and> length (fr_input f) < MAX_FRAME + 4" "r \<noteq> Some Panic"
    using assms by (auto simp: take_message_def Let_def split: if_splits option.splits)
  show "\<exists>i. f' = f\<lparr> fr_input := i \<rparr> \<and> suffix i (fr_input f)"
  proof (cases "f' = f")
    case True
    then show ?thesis using self by blast
  next
    case False
    then show ?thesis using assms by (auto simp: take_message_def Let_def suffix_drop split: if_splits option.splits)
  qed
qed

lemma receive_bounded:
  assumes "rx_ok f" "framed_receive de ts f pipe = (r, f', pipe')"
  shows "rx_ok f' \<and> r \<noteq> Panic \<and> fr_output f' = fr_output f \<and> fr_offset f' = fr_offset f \<and> fr_queued f' = fr_queued f \<and>
    suffix (fr_input f' @ pipe') (fr_input f @ pipe)"
  using assms
proof (induction ts arbitrary: f pipe)
  case Nil
  obtain x g where x: "take_message de f = (x, g)" by fastforce
  obtain i where i: "g = f\<lparr> fr_input := i \<rparr>" "suffix i (fr_input f)" using take_message_bounded(3) [OF x] by blast
  then show ?case using Nil x take_message_bounded(1,2) [OF x] suffix_length_le [OF i(2)]
    by (cases x) (auto simp: framed_receive.simps rx_ok_def split: outcome.splits)
next
  case (Cons t ts)
  obtain x g where x: "take_message de f = (x, g)" by fastforce
  obtain i where i: "g = f\<lparr> fr_input := i \<rparr>" "suffix i (fr_input f)" using take_message_bounded(3) [OF x] by blast
  show ?case
  proof (cases x)
    case (Some y)
    then show ?thesis using Cons.prems x i take_message_bounded(2) [OF x] suffix_length_le [OF i(2)]
      by (auto simp: framed_receive.simps rx_ok_def split: outcome.splits)
  next
    case None
    then have w: "take_message de f = (None, f)" "length (fr_input f) < MAX_FRAME + 4" using x take_message_bounded(1) [OF x] by auto
    show ?thesis
    proof (cases t)
      case (Move k)
      let ?n = "min (min k 4096) (length pipe)"
      let ?f = "f\<lparr> fr_input := fr_input f @ take ?n pipe \<rparr>"
      show ?thesis
      proof (cases "pipe = [] \<or> k = 0")
        case True
        then show ?thesis using Cons.prems w Move by (auto simp: framed_receive.simps Let_def split: if_splits)
      next
        case False
        have "framed_receive de ts ?f (drop ?n pipe) = (r, f', pipe')"
          using Cons.prems(2) w Move False by (subst (asm) framed_receive.simps) (auto simp: Let_def split: if_splits)
        moreover have "rx_ok ?f" using w(2) by (simp add: rx_ok_def)
        ultimately have "rx_ok f' \<and> r \<noteq> Panic \<and> fr_output f' = fr_output ?f \<and> fr_offset f' = fr_offset ?f \<and> fr_queued f' = fr_queued ?f \<and>
          suffix (fr_input f' @ pipe') (fr_input ?f @ drop ?n pipe)" by (intro Cons.IH)
        then show ?thesis by simp
      qed
    next
      case Interrupt
      then have "framed_receive de ts f pipe = (r, f', pipe')" using Cons.prems(2) w by (subst (asm) framed_receive.simps) simp
      then show ?thesis by (rule Cons.IH [OF Cons.prems(1)])
    qed (use Cons.prems w in \<open>auto simp: framed_receive.simps\<close>)
  qed
qed

section \<open>Properties\<close>


text \<open>Bounds against any peer.  Whatever bytes arrive, a \<open>receive\<close> never panics, consumes the stream from the front
  and leaves at most one frame and one read buffered; a \<open>send\<close> and a \<open>flush\<close> keep the byte count \<open>queued\<close> equal
  to what is still unsent and within \<open>MAX_BUFFER\<close>, and a \<open>send\<close> that is refused changes nothing.\<close>

theorem framed_bounds_any_peer:
  assumes "rx_ok f" "tx_ok f"
  shows "(case framed_receive de ts f pipe of (r, f', pipe') \<Rightarrow>
        r \<noteq> Panic \<and> rx_ok f' \<and> tx_ok f' \<and> suffix (fr_input f' @ pipe') (fr_input f @ pipe)) \<and>
    (case framed_send ser m f of (r, f') \<Rightarrow> rx_ok f' \<and> tx_ok f' \<and> r \<noteq> Panic \<and> (r \<noteq> Ok () \<longrightarrow> f' = f)) \<and>
    (case framed_flush ts f pipe of (r, f', pipe') \<Rightarrow>
        r \<noteq> Panic \<and> rx_ok f' \<and> tx_ok f' \<and> pipe' @ unsent f' = pipe @ unsent f)"
proof (intro conjI)
  obtain r f' pipe' where r: "framed_receive de ts f pipe = (r, f', pipe')" by (metis surj_pair)
  then show "case framed_receive de ts f pipe of (r, f', pipe') \<Rightarrow>
        r \<noteq> Panic \<and> rx_ok f' \<and> tx_ok f' \<and> suffix (fr_input f' @ pipe') (fr_input f @ pipe)"
    using receive_bounded [OF assms(1) r] assms(2) by (auto simp: tx_ok_def unsent_def split: list.splits)
next
  obtain r f' where s: "framed_send ser m f = (r, f')" by fastforce
  have "r \<noteq> Panic" using s by (auto simp: framed_send_def Let_def split: option.splits if_splits)
  then show "case framed_send ser m f of (r, f') \<Rightarrow> rx_ok f' \<and> tx_ok f' \<and> r \<noteq> Panic \<and> (r \<noteq> Ok () \<longrightarrow> f' = f)"
    using send_ok [OF assms(2) s] assms(1) s by (simp add: rx_ok_def)
next
  obtain r f' pipe' where r: "framed_flush ts f pipe = (r, f', pipe')" by (metis surj_pair)
  then show "case framed_flush ts f pipe of (r, f', pipe') \<Rightarrow>
        r \<noteq> Panic \<and> rx_ok f' \<and> tx_ok f' \<and> pipe' @ unsent f' = pipe @ unsent f"
    using flush_ok [OF assms(2) r] assms(1) by (simp add: rx_ok_def)
qed

text \<open>Delivery.  From every reachable state with a message accepted and not yet returned, a flush whose writes the
  stream takes whole, one per queued frame, followed by a receive that can read what is then under way, returns
  exactly the oldest such message.\<close>

theorem framed_delivery:
  assumes "channel_reachable ser de c" "\<And>m json. ser m = Some json \<Longrightarrow> de json = Some m"
    and "cn_sent c = cn_got c @ m # rest"
    and "length (fr_output (cn_tx c)) \<le> j" "length (cn_pipe c) + fr_queued (cn_tx c) \<le> 4096 * k"
  shows "cn_got (channel_step ser de (Receive (replicate k (Move 4096)))
           (channel_step ser de (Flush (replicate j (Move MAX_BUFFER))) c)) = cn_got c @ [m]"
proof -
  have inv: "channel_inv ser c" using channel_reachable_inv assms(1,2) by metis
  then have tx: "tx_ok (cn_tx c)" "fr_queued (cn_tx c) = length (unsent (cn_tx c))" "list_all (carries ser) (m # rest)"
    using assms(3) by (auto simp: channel_inv_def tx_ok_def)
  have bs: "fr_input (cn_rx c) @ cn_pipe c @ unsent (cn_tx c) = encode ser (m # rest)"
    using inv assms(3) by (auto simp: channel_inv_def)
  obtain f' where f: "framed_flush (replicate j (Move MAX_BUFFER)) (cn_tx c) (cn_pipe c) = (Ok (), f', cn_pipe c @ unsent (cn_tx c))"
    using flush_progress [OF tx(1) assms(4), of MAX_BUFFER "cn_pipe c"] tx(1) by (auto simp: tx_ok_def)
  obtain r g p where g: "framed_receive de (replicate k (Move 4096)) (cn_rx c) (cn_pipe c @ unsent (cn_tx c)) = (r, g, p)"
    by (metis surj_pair)
  have "r = Ok (Some m)"
    using receive_progress [OF bs tx(3), of k de] assms(2,5) g tx(2) by simp
  then show ?thesis using f g by simp
qed


lemma framed_bounds_any_peer_witness:
  "rx_ok framed_new \<and> tx_ok framed_new \<and>
   (case framed_receive Some [Move 9] framed_new [255, 255, 255, 255 :: u8] of (r, f', pipe') \<Rightarrow> r \<noteq> Panic \<and> rx_ok f')"
proof -
  have "rx_ok framed_new" "tx_ok framed_new" by (simp_all add: rx_ok_def tx_ok_def framed_new_def unsent_def)
  then show ?thesis
    using framed_bounds_any_peer [where f = framed_new and de = Some and ts = "[Move 9]" and pipe = "[255, 255, 255, 255]"
        and ser = Some and m = "[]"] by (auto split: prod.splits)
qed

lemma framed_delivery_witness:
  "cn_got (channel_step (\<lambda>m. Some m) Some (Receive [Move 4096])
      (channel_step (\<lambda>m. Some m) Some (Flush [Move MAX_BUFFER])
        (channel_step (\<lambda>m. Some m) Some (Send [7, 8 :: u8]) channel_init))) = [[7, 8]]"
proof -
  let ?c = "channel_step (\<lambda>m. Some m) Some (Send [7, 8 :: u8]) channel_init"
  have c: "cn_sent ?c = [[7, 8]]" "cn_got ?c = []" "length (fr_output (cn_tx ?c)) = 1" "cn_pipe ?c = []" "fr_queued (cn_tx ?c) = 6"
    by (simp_all add: channel_init_def framed_new_def framed_send_def MAX_FRAME_def MAX_BUFFER_def Let_def)
  have "cn_got (channel_step (\<lambda>m. Some m) Some (Receive (replicate 1 (Move 4096)))
      (channel_step (\<lambda>m. Some m) Some (Flush (replicate 1 (Move MAX_BUFFER))) ?c)) = cn_got ?c @ [[7, 8]]"
    by (rule framed_delivery [OF channel_reachable.step [OF channel_reachable.start], where rest = "[]"])
      (use c in simp_all)
  then show ?thesis unfolding c by simp
qed

end
