(* ===== verification/Registry.thy ===== *)
theory Registry
  imports Jackstay_Prelude
begin

text \<open>
  The session registry of the daemon (\<open>state.rs\<close>, with the descriptions of \<open>model.rs\<close>): sources, their tracks and
  the log of events that a consumer replays.  A replica that applies the log arrives at the registry itself.
\<close>

section \<open>Identities and descriptions\<close>

datatype source_id = SourceId (source_raw: u64)
datatype track_id = TrackId (track_raw: u64)

instantiation source_id :: linorder
begin

definition less_eq_source_id :: "source_id \<Rightarrow> source_id \<Rightarrow> bool" where
  "less_eq_source_id a b \<longleftrightarrow> source_raw a \<le> source_raw b"

definition less_source_id :: "source_id \<Rightarrow> source_id \<Rightarrow> bool" where
  "less_source_id a b \<longleftrightarrow> source_raw a < source_raw b"

instance
  by standard (auto simp: less_eq_source_id_def less_source_id_def source_id.expand)

end

instantiation track_id :: linorder
begin

definition less_eq_track_id :: "track_id \<Rightarrow> track_id \<Rightarrow> bool" where
  "less_eq_track_id a b \<longleftrightarrow> track_raw a \<le> track_raw b"

definition less_track_id :: "track_id \<Rightarrow> track_id \<Rightarrow> bool" where
  "less_track_id a b \<longleftrightarrow> track_raw a < track_raw b"

instance
  by standard (auto simp: less_eq_track_id_def less_track_id_def track_id.expand)

end

datatype source_kind = Window | Display | Surface
datatype pixel_format = UnknownFormat | Bgra8Unorm | Rgba8Unorm
datatype track_type = VideoType | AudioType | AccessibilityEvents | Metadata | InputCorrelation

record source_desc =
  sd_kind :: source_kind
  sd_label :: bytes

record video_track_desc =
  vt_width :: u32
  vt_height :: u32
  vt_pixel_format :: pixel_format

datatype track_desc = Video video_track_desc

fun desc_track_type :: "track_desc \<Rightarrow> track_type" where
  "desc_track_type (Video _) = VideoType"

section \<open>Events\<close>

datatype event_kind =
  ProducerStarted | SourceRegistered | SourceUpdated | TrackRegistered | TrackUpdated | SourceUnregistered | ProducerStopped

record session_event =
  ev_kind :: event_kind
  ev_source_id :: "source_id option"
  ev_track_id :: "track_id option"
  ev_source_desc :: "source_desc option"
  ev_track_desc :: "track_desc option"

definition source_registered :: "source_id \<Rightarrow> source_desc \<Rightarrow> session_event" where
  "source_registered sid desc = \<lparr> ev_kind = SourceRegistered, ev_source_id = Some sid, ev_track_id = None,
     ev_source_desc = Some desc, ev_track_desc = None \<rparr>"

definition source_updated :: "source_id \<Rightarrow> source_desc \<Rightarrow> session_event" where
  "source_updated sid desc = \<lparr> ev_kind = SourceUpdated, ev_source_id = Some sid, ev_track_id = None,
     ev_source_desc = Some desc, ev_track_desc = None \<rparr>"

definition source_unregistered :: "source_id \<Rightarrow> session_event" where
  "source_unregistered sid = \<lparr> ev_kind = SourceUnregistered, ev_source_id = Some sid, ev_track_id = None,
     ev_source_desc = None, ev_track_desc = None \<rparr>"

definition track_registered :: "track_id \<Rightarrow> source_id \<Rightarrow> track_desc \<Rightarrow> session_event" where
  "track_registered tid sid desc = \<lparr> ev_kind = TrackRegistered, ev_source_id = Some sid, ev_track_id = Some tid,
     ev_source_desc = None, ev_track_desc = Some desc \<rparr>"

definition track_updated :: "track_id \<Rightarrow> source_id \<Rightarrow> track_desc \<Rightarrow> session_event" where
  "track_updated tid sid desc = \<lparr> ev_kind = TrackUpdated, ev_source_id = Some sid, ev_track_id = Some tid,
     ev_source_desc = None, ev_track_desc = Some desc \<rparr>"

lemmas event_defs = source_registered_def source_updated_def source_unregistered_def track_registered_def track_updated_def

section \<open>The session\<close>

datatype registry_error = UnknownSource source_id | UnknownTrack track_id

record source_registration =
  sr_source_id :: source_id
  sr_desc :: source_desc

record track_registration =
  tr_track_id :: track_id
  tr_source_id :: source_id
  tr_desc :: track_desc

record session_state =
  ss_next_source_id :: u64
  ss_next_track_id :: u64
  ss_sources :: "(source_id \<times> source_registration) list"
  ss_tracks :: "(track_id \<times> track_registration) list"
  ss_events :: "session_event list"

type_synonym 'a session_result = "('a, registry_error) outcome \<times> session_state"

definition session_new :: session_state where
  "session_new = \<lparr> ss_next_source_id = 1, ss_next_track_id = 1, ss_sources = [], ss_tracks = [], ss_events = [] \<rparr>"

definition push_event :: "session_event \<Rightarrow> session_state \<Rightarrow> session_state" where
  "push_event e s = s\<lparr> ss_events := ss_events s @ [e] \<rparr>"

definition register_source :: "source_desc \<Rightarrow> session_state \<Rightarrow> source_id session_result" where
  "register_source desc s =
     (let sid = SourceId (ss_next_source_id s);
          s = s\<lparr> ss_next_source_id := ss_next_source_id s + 1 \<rparr>;
          s = s\<lparr> ss_sources := bt_insert sid \<lparr> sr_source_id = sid, sr_desc = desc \<rparr> (ss_sources s) \<rparr>
      in (Ok sid, push_event (source_registered sid desc) s))"

definition update_source :: "source_id \<Rightarrow> source_desc \<Rightarrow> session_state \<Rightarrow> unit session_result" where
  "update_source sid desc s =
     (case map_of (ss_sources s) sid of
        None \<Rightarrow> (Err (UnknownSource sid), s)
      | Some _ \<Rightarrow>
        (Ok (), push_event (source_updated sid desc)
           (s\<lparr> ss_sources := alist_map_value sid (\<lambda>r. r\<lparr> sr_desc := desc \<rparr>) (ss_sources s) \<rparr>)))"

definition unregister_source :: "source_id \<Rightarrow> session_state \<Rightarrow> unit session_result" where
  "unregister_source sid s =
     (case map_of (ss_sources s) sid of
        None \<Rightarrow> (Err (UnknownSource sid), s)
      | Some _ \<Rightarrow>
        (Ok (), push_event (source_unregistered sid)
           (s\<lparr> ss_sources := bt_remove sid (ss_sources s),
               ss_tracks := filter (\<lambda>(_, r). tr_source_id r \<noteq> sid) (ss_tracks s) \<rparr>)))"

definition session_source :: "session_state \<Rightarrow> source_id \<Rightarrow> (source_registration, registry_error) outcome" where
  "session_source s sid = ok_or (UnknownSource sid) (map_of (ss_sources s) sid)"

definition session_track :: "session_state \<Rightarrow> track_id \<Rightarrow> (track_registration, registry_error) outcome" where
  "session_track s tid = ok_or (UnknownTrack tid) (map_of (ss_tracks s) tid)"

definition register_track :: "source_id \<Rightarrow> track_desc \<Rightarrow> session_state \<Rightarrow> track_id session_result" where
  "register_track sid desc s =
     (case session_source s sid of
        Ok _ \<Rightarrow>
        (let tid = TrackId (ss_next_track_id s);
             s = s\<lparr> ss_next_track_id := ss_next_track_id s + 1 \<rparr>;
             s = s\<lparr> ss_tracks := bt_insert tid \<lparr> tr_track_id = tid, tr_source_id = sid, tr_desc = desc \<rparr> (ss_tracks s) \<rparr>
         in (Ok tid, push_event (track_registered tid sid desc) s))
      | Err e \<Rightarrow> (Err e, s)
      | Panic \<Rightarrow> (Panic, s))"

definition update_track :: "track_id \<Rightarrow> track_desc \<Rightarrow> session_state \<Rightarrow> unit session_result" where
  "update_track tid desc s =
     (case map_of (ss_tracks s) tid of
        None \<Rightarrow> (Err (UnknownTrack tid), s)
      | Some r \<Rightarrow>
        (Ok (), push_event (track_updated tid (tr_source_id r) desc)
           (s\<lparr> ss_tracks := alist_map_value tid (\<lambda>r. r\<lparr> tr_desc := desc \<rparr>) (ss_tracks s) \<rparr>)))"

definition replay_events :: "session_state \<Rightarrow> session_event list" where
  "replay_events s = ss_events s"

lemmas [op_defs] = register_source_def update_source_def unregister_source_def register_track_def update_track_def
  push_event_def session_source_def session_track_def

datatype session_op =
    RegisterSource source_desc
  | UpdateSource source_id source_desc
  | UnregisterSource source_id
  | RegisterTrack source_id track_desc
  | UpdateTrack track_id track_desc

fun session_run :: "session_op \<Rightarrow> session_state \<Rightarrow> session_state" where
  "session_run (RegisterSource d) s = snd (register_source d s)"
| "session_run (UpdateSource i d) s = snd (update_source i d s)"
| "session_run (UnregisterSource i) s = snd (unregister_source i s)"
| "session_run (RegisterTrack i d) s = snd (register_track i d s)"
| "session_run (UpdateTrack i d) s = snd (update_track i d s)"

section \<open>The replica of a consumer\<close>

text \<open>What a consumer knows from the events alone: which sources exist, which tracks, and of which source.\<close>

record replica =
  rp_sources :: "source_id \<rightharpoonup> source_desc"
  rp_tracks :: "track_id \<rightharpoonup> source_id \<times> track_desc"

definition replica_empty :: replica where
  "replica_empty = \<lparr> rp_sources = Map.empty, rp_tracks = Map.empty \<rparr>"

definition replica_apply :: "session_event \<Rightarrow> replica \<Rightarrow> replica" where
  "replica_apply e p =
     (case (ev_kind e, ev_source_id e, ev_track_id e, ev_source_desc e, ev_track_desc e) of
        (SourceRegistered, Some sid, _, Some d, _) \<Rightarrow> p\<lparr> rp_sources := (rp_sources p)(sid \<mapsto> d) \<rparr>
      | (SourceUpdated, Some sid, _, Some d, _) \<Rightarrow> p\<lparr> rp_sources := (rp_sources p)(sid \<mapsto> d) \<rparr>
      | (TrackRegistered, Some sid, Some tid, _, Some d) \<Rightarrow> p\<lparr> rp_tracks := (rp_tracks p)(tid \<mapsto> (sid, d)) \<rparr>
      | (TrackUpdated, Some sid, Some tid, _, Some d) \<Rightarrow> p\<lparr> rp_tracks := (rp_tracks p)(tid \<mapsto> (sid, d)) \<rparr>
      | (SourceUnregistered, Some sid, _, _, _) \<Rightarrow>
          p\<lparr> rp_sources := (rp_sources p)(sid := None),
             rp_tracks := (\<lambda>tid. case rp_tracks p tid of Some (s, d) \<Rightarrow> if s = sid then None else Some (s, d) | None \<Rightarrow> None) \<rparr>
      | _ \<Rightarrow> p)"

definition replica_replay :: "session_event list \<Rightarrow> replica" where
  "replica_replay es = fold replica_apply es replica_empty"

definition session_view :: "session_state \<Rightarrow> replica" where
  "session_view s =
     \<lparr> rp_sources = (\<lambda>sid. map_option sr_desc (map_of (ss_sources s) sid)),
       rp_tracks = (\<lambda>tid. map_option (\<lambda>r. (tr_source_id r, tr_desc r)) (map_of (ss_tracks s) tid)) \<rparr>"

definition registered_sources :: "session_event list \<Rightarrow> source_id list" where
  "registered_sources es = [the (ev_source_id e). e \<leftarrow> es, ev_kind e = SourceRegistered]"

definition registered_tracks :: "session_event list \<Rightarrow> track_id list" where
  "registered_tracks es = [the (ev_track_id e). e \<leftarrow> es, ev_kind e = TrackRegistered]"

definition numbered :: "(u64 \<Rightarrow> 'i) \<Rightarrow> nat \<Rightarrow> 'i list" where
  "numbered f n = map (\<lambda>k. f (of_nat k)) [1..<Suc n]"

definition registry_inv :: "session_state \<Rightarrow> bool" where
  "registry_inv s \<longleftrightarrow> bt_wf (ss_sources s) \<and> bt_wf (ss_tracks s) \<and>
     (\<forall>sid r. map_of (ss_sources s) sid = Some r \<longrightarrow> sr_source_id r = sid) \<and>
     (\<forall>tid r. map_of (ss_tracks s) tid = Some r \<longrightarrow> tr_track_id r = tid \<and> tr_source_id r \<in> dom (map_of (ss_sources s))) \<and>
     replica_replay (ss_events s) = session_view s \<and>
     ss_next_source_id s = of_nat (Suc (length (registered_sources (ss_events s)))) \<and>
     registered_sources (ss_events s) = numbered SourceId (length (registered_sources (ss_events s))) \<and>
     ss_next_track_id s = of_nat (Suc (length (registered_tracks (ss_events s)))) \<and>
     registered_tracks (ss_events s) = numbered TrackId (length (registered_tracks (ss_events s)))"

lemma replica_replay_snoc [simp]: "replica_replay (es @ [e]) = replica_apply e (replica_replay es)"
  by (simp add: replica_replay_def)

lemma registered_snoc [simp]:
  "registered_sources (es @ [e]) = registered_sources es @ (if ev_kind e = SourceRegistered then [the (ev_source_id e)] else [])"
  "registered_tracks (es @ [e]) = registered_tracks es @ (if ev_kind e = TrackRegistered then [the (ev_track_id e)] else [])"
  by (simp_all add: registered_sources_def registered_tracks_def)

lemma map_of_filter_value:
  "bt_wf m \<Longrightarrow> map_of (filter (\<lambda>(_, r). P r) m) k = (case map_of m k of Some r \<Rightarrow> if P r then Some r else None | None \<Rightarrow> None)"
proof (induction m)
  case (Cons a m)
  then have "map_of m (fst a) = None" "bt_wf m" by (auto simp: bt_wf_def map_of_eq_None_iff)
  then show ?case using Cons by (cases a) (auto split: option.splits)
qed simp

lemma bt_wf_filter: "bt_wf m \<Longrightarrow> bt_wf (filter P m)"
  by (induction m) (auto simp: bt_wf_def)

section \<open>The log determines the registry\<close>

lemma numbered_simps [simp]: "numbered f 0 = []" "numbered f (Suc n) = numbered f n @ [f (1 + of_nat n)]"
  by (simp_all add: numbered_def)

lemma register_source_inv: "registry_inv s \<Longrightarrow> registry_inv (snd (register_source d s))"
  by (auto simp: registry_inv_def op_defs event_defs replica_apply_def session_view_def Let_def
      bt.lookup_insert bt.wf_insert fun_eq_iff)

lemma update_source_inv: "registry_inv s \<Longrightarrow> registry_inv (snd (update_source i d s))"
  by (auto simp: registry_inv_def op_defs event_defs replica_apply_def session_view_def map_of_alist_map_value option.map_id
      fun_eq_iff dom_def split: option.splits)

lemma unregister_source_inv: "registry_inv s \<Longrightarrow> registry_inv (snd (unregister_source i s))"
  by (auto simp: registry_inv_def op_defs event_defs replica_apply_def session_view_def map_of_filter_value
      bt.lookup_remove bt.wf_remove bt_wf_filter fun_eq_iff split: option.splits if_splits)

lemma register_track_inv: "registry_inv s \<Longrightarrow> registry_inv (snd (register_track i d s))"
  by (auto simp: registry_inv_def op_defs event_defs replica_apply_def session_view_def Let_def
      bt.lookup_insert bt.wf_insert fun_eq_iff split: outcome.splits)

lemma update_track_inv: "registry_inv s \<Longrightarrow> registry_inv (snd (update_track i d s))"
  by (auto simp: registry_inv_def op_defs event_defs replica_apply_def session_view_def map_of_alist_map_value option.map_id
      fun_eq_iff dom_def split: option.splits)

lemma session_new_inv: "registry_inv session_new"
  by (simp add: registry_inv_def session_new_def bt.wf_empty replica_replay_def replica_empty_def session_view_def
      registered_sources_def registered_tracks_def)

lemma session_run_inv: "registry_inv s \<Longrightarrow> registry_inv (session_run op s)"
  by (cases op) (simp_all add: register_source_inv update_source_inv unregister_source_inv register_track_inv update_track_inv)

lemma session_runs_inv: "registry_inv s \<Longrightarrow> registry_inv (fold session_run ops s)"
  by (induction ops arbitrary: s) (simp_all add: session_run_inv)

lemma map_outcome_ok_or [simp]: "map_outcome_ok f (ok_or e x) = ok_or e (map_option f x)"
  by (cases x) simp_all

section \<open>Property\<close>

text \<open>C36. The event log and the registry are equivalent.  After any sequence of operations, a consumer that replays the log
  from nothing knows exactly the sources and tracks that the session's own lookups report, with their
  current descriptions; every track belongs to a source that exists; each operation succeeds exactly on
  the identities the log shows as existing, and otherwise fails with the error that names the identity; and the
  identities handed out are 1, 2, 3 and so on, so that none is given twice.\<close>

theorem registry_log_equivalent:
  "let s = fold session_run ops session_new; p = replica_replay (replay_events s) in
     (\<forall>sid. map_outcome_ok sr_desc (session_source s sid) = ok_or (UnknownSource sid) (rp_sources p sid)) \<and>
     (\<forall>tid. map_outcome_ok (\<lambda>r. (tr_source_id r, tr_desc r)) (session_track s tid) = ok_or (UnknownTrack tid) (rp_tracks p tid)) \<and>
     fst ` ran (rp_tracks p) \<subseteq> dom (rp_sources p) \<and>
     (\<forall>sid d t. fst (update_source sid d s) = (if sid \<in> dom (rp_sources p) then Ok () else Err (UnknownSource sid)) \<and>
        fst (unregister_source sid s) = (if sid \<in> dom (rp_sources p) then Ok () else Err (UnknownSource sid)) \<and>
        fst (register_track sid t s) = (if sid \<in> dom (rp_sources p) then Ok (TrackId (ss_next_track_id s)) else Err (UnknownSource sid))) \<and>
     (\<forall>tid t. fst (update_track tid t s) = (if tid \<in> dom (rp_tracks p) then Ok () else Err (UnknownTrack tid))) \<and>
     registered_sources (replay_events s) = numbered SourceId (length (registered_sources (replay_events s))) \<and>
     registered_tracks (replay_events s) = numbered TrackId (length (registered_tracks (replay_events s)))"
proof -
  let ?s = "fold session_run ops session_new"
  have inv: "registry_inv ?s" by (rule session_runs_inv [OF session_new_inv])
  then have p: "replica_replay (replay_events ?s) = session_view ?s" by (simp add: registry_inv_def replay_events_def)
  have src: "rp_sources (session_view ?s) sid = map_option sr_desc (map_of (ss_sources ?s) sid)"
    and trk: "rp_tracks (session_view ?s) tid = map_option (\<lambda>r. (tr_source_id r, tr_desc r)) (map_of (ss_tracks ?s) tid)" for sid tid
    by (simp_all add: session_view_def)
  have "fst ` ran (rp_tracks (session_view ?s)) \<subseteq> dom (rp_sources (session_view ?s))"
    using inv by (fastforce simp: registry_inv_def src trk ran_def dom_def)
  moreover have "registered_sources (replay_events ?s) = numbered SourceId (length (registered_sources (replay_events ?s)))"
      "registered_tracks (replay_events ?s) = numbered TrackId (length (registered_tracks (replay_events ?s)))"
    using inv by (simp_all add: registry_inv_def replay_events_def)
  ultimately show ?thesis
    unfolding Let_def p by (simp add: src trk op_defs Let_def dom_def split: option.split)
qed

end
