(* ===== verification/Export_Codec.thy ===== *)
theory Export_Codec
  imports Jackstay_Prelude
begin

text \<open>
  The codec decision of an export (\<open>jackstay-graph/src/lib.rs\<close>): the cascade of \<open>decide\<close> is the choice of the best
  profile, under a stated preference, among those both ends can do and the policy allows.
\<close>

datatype chroma_policy = Require444 | Prefer444 | AnyChroma
datatype codec = Hevc | H264
datatype chroma = Subsampled | Full

record codec_capabilities =
  hevc_444_hardware :: bool
  hevc_420_hardware :: bool
  h264_444_hardware :: bool
  h264_420_hardware :: bool

record codec_decision =
  cd_codec :: codec
  cd_chroma :: chroma
  cd_hardware :: bool
  cd_reason :: string

datatype decision_error =
    Require444Unmet codec_capabilities codec_capabilities
  | NoCommonCodec codec_capabilities codec_capabilities

definition pick :: "codec \<Rightarrow> chroma \<Rightarrow> string \<Rightarrow> codec_decision" where
  "pick codec chroma reason = \<lparr> cd_codec = codec, cd_chroma = chroma, cd_hardware = True, cd_reason = reason \<rparr>"

definition decide :: "chroma_policy \<Rightarrow> codec_capabilities \<Rightarrow> codec_capabilities \<Rightarrow> (codec_decision, decision_error) outcome" where
  "decide policy egress ingress =
     (let hevc_444 = hevc_444_hardware egress \<and> hevc_444_hardware ingress;
          h264_444 = h264_444_hardware egress \<and> h264_444_hardware ingress;
          hevc_420 = hevc_420_hardware egress \<and> hevc_420_hardware ingress;
          h264_420 = h264_420_hardware egress \<and> h264_420_hardware ingress
      in if hevc_444 then Ok (pick Hevc Full ''hardware HEVC 4:4:4 on both ends'')
      else if h264_444 then
        Ok (pick H264 Full ''hardware H.264 4:4:4 on both ends; HEVC 4:4:4 missing on one end'')
      else if policy = Require444 then Err (Require444Unmet egress ingress)
      else if hevc_420 then
        Ok (pick Hevc Subsampled ''no hardware 4:4:4 on both ends; policy allows 4:2:0'')
      else if h264_420 then
        Ok (pick H264 Subsampled ''no hardware 4:4:4 or HEVC on both ends; policy allows 4:2:0'')
      else Err (NoCommonCodec egress ingress))"

section \<open>The preference\<close>

text \<open>A profile is a codec with a chroma format; full chroma outranks subsampled, and at equal chroma HEVC outranks H.264.\<close>

type_synonym profile = "codec \<times> chroma"

fun rank :: "profile \<Rightarrow> nat" where
  "rank (c, f) = (if f = Full then 2 else 0) + (if c = Hevc then 1 else 0)"

fun capable :: "codec_capabilities \<Rightarrow> profile \<Rightarrow> bool" where
  "capable caps (Hevc, Full) = hevc_444_hardware caps"
| "capable caps (Hevc, Subsampled) = hevc_420_hardware caps"
| "capable caps (H264, Full) = h264_444_hardware caps"
| "capable caps (H264, Subsampled) = h264_420_hardware caps"

fun allowed :: "chroma_policy \<Rightarrow> profile \<Rightarrow> bool" where
  "allowed policy (c, f) \<longleftrightarrow> policy = Require444 \<longrightarrow> f = Full"

definition candidates :: "chroma_policy \<Rightarrow> codec_capabilities \<Rightarrow> codec_capabilities \<Rightarrow> profile list" where
  "candidates policy egress ingress =
     filter (\<lambda>p. capable egress p \<and> capable ingress p \<and> allowed policy p)
       [(c, f). f \<leftarrow> [Subsampled, Full], c \<leftarrow> [H264, Hevc]]"

definition best :: "profile list \<Rightarrow> profile option" where
  "best ps = (case ps of [] \<Rightarrow> None | q # qs \<Rightarrow> Some (fold (\<lambda>p m. if rank m < rank p then p else m) qs q))"

text \<open>The decision is the best common profile.  \<open>decide\<close> picks, always in hardware, the highest ranked profile among those
  that both ends support and the policy allows, and fails exactly when there is none: with the unmet
  policy when the policy required full chroma, and with no common codec otherwise.\<close>

theorem decide_picks_best_profile:
  "decide policy egress ingress =
     (case best (candidates policy egress ingress) of
        Some (c, f) \<Rightarrow> Ok \<lparr> cd_codec = c, cd_chroma = f, cd_hardware = True,
          cd_reason = (case (c, f) of
             (Hevc, Full) \<Rightarrow> ''hardware HEVC 4:4:4 on both ends''
           | (H264, Full) \<Rightarrow> ''hardware H.264 4:4:4 on both ends; HEVC 4:4:4 missing on one end''
           | (Hevc, Subsampled) \<Rightarrow> ''no hardware 4:4:4 on both ends; policy allows 4:2:0''
           | (H264, Subsampled) \<Rightarrow> ''no hardware 4:4:4 or HEVC on both ends; policy allows 4:2:0'') \<rparr>
      | None \<Rightarrow> Err (if policy = Require444 then Require444Unmet egress ingress else NoCommonCodec egress ingress))"
  by (cases "policy = Require444") (simp_all add: decide_def best_def candidates_def pick_def Let_def)

end
