(* ===== verification/Audio_Ring.thy ===== *)
theory Audio_Ring
  imports Byte_Memory
begin

text \<open>
  The data of \<open>audio.rs\<close>: sample formats, block and ring headers as bytes, the geometry of a ring
  in its mapping, and what a process checks of a ring it received.  Sizes are naturals; the checked
  operations of the source fail at \<open>2 ^ 64\<close>.
\<close>

section \<open>Formats\<close>

datatype layout = Mono | Stereo | Surround21 | Quad | Surround51 | Surround71 | Discrete
datatype sample = U8 | S16 | S32 | F32

record format =
  fm_rate :: u32
  fm_channels :: u16
  fm_layout :: layout
  fm_sample :: sample

definition layout_list :: "layout list" where
  "layout_list = [Mono, Stereo, Surround21, Quad, Surround51, Surround71, Discrete]"

definition sample_list :: "sample list" where
  "sample_list = [U8, S16, S32, F32]"

fun layout_code :: "layout \<Rightarrow> u8" where
  "layout_code Mono = 1" | "layout_code Stereo = 2" | "layout_code Surround21 = 3" | "layout_code Quad = 4"
| "layout_code Surround51 = 5" | "layout_code Surround71 = 6" | "layout_code Discrete = 7"

fun sample_code :: "sample \<Rightarrow> u8" where
  "sample_code U8 = 1" | "sample_code S16 = 2" | "sample_code S32 = 3" | "sample_code F32 = 4"

fun sample_bytes :: "sample \<Rightarrow> nat" where
  "sample_bytes U8 = 1" | "sample_bytes S16 = 2" | "sample_bytes S32 = 4" | "sample_bytes F32 = 4"

definition format_frame_bytes :: "format \<Rightarrow> nat" where
  "format_frame_bytes f = unat (fm_channels f) * sample_bytes (fm_sample f)"

definition format_valid :: "format \<Rightarrow> bool" where
  "format_valid f =
     (let positioned = [1, 2, 3, 4, 6, 8, fm_channels f] ! (unat (layout_code (fm_layout f)) - 1)
      in 0 < fm_rate f \<and> 0 < fm_channels f \<and> fm_channels f = positioned)"

definition list_get :: "'a list \<Rightarrow> nat \<Rightarrow> 'a option" where
  "list_get xs i = (if i < length xs then Some (xs ! i) else None)"

text \<open>A block's header without its sequence word and its reserved tail, which nobody reads.\<close>

record block_header =
  bh_sample_position :: u64
  bh_host_time_ns :: u64
  bh_frames :: u32
  bh_flags :: u32
  bh_generation :: u32
  bh_rate :: u32
  bh_channels :: u16
  bh_layout :: u8
  bh_sample :: u8

definition format_from_block :: "block_header \<Rightarrow> format option" where
  "format_from_block h =
     (if bh_layout h = 0 then None else
      case list_get layout_list (unat (bh_layout h) - 1) of
        None \<Rightarrow> None
      | Some layout \<Rightarrow>
        if bh_sample h = 0 then None else
        (case list_get sample_list (unat (bh_sample h) - 1) of
           None \<Rightarrow> None
         | Some smp \<Rightarrow>
           let f = \<lparr> fm_rate = bh_rate h, fm_channels = bh_channels h, fm_layout = layout, fm_sample = smp \<rparr>
           in if format_valid f then Some f else None))"

lemma layout_codes [simp]: "layout_code l \<noteq> 0" "list_get layout_list (unat (layout_code l) - Suc 0) = Some l"
  by (cases l; simp add: list_get_def layout_list_def)+

lemma sample_codes [simp]: "sample_code s \<noteq> 0" "list_get sample_list (unat (sample_code s) - Suc 0) = Some s"
  by (cases s; simp add: list_get_def sample_list_def)+

lemma format_from_block_round:
  "format_valid f \<Longrightarrow> bh_rate h = fm_rate f \<Longrightarrow> bh_channels h = fm_channels f \<Longrightarrow> bh_layout h = layout_code (fm_layout f) \<Longrightarrow>
     bh_sample h = sample_code (fm_sample f) \<Longrightarrow> format_from_block h = Some f"
  by (cases f) (simp add: format_from_block_def Let_def)

lemma format_frame_bytes_pos: "format_valid f \<Longrightarrow> 0 < format_frame_bytes f"
  by (cases "fm_sample f") (auto simp: format_valid_def format_frame_bytes_def Let_def unat_gt_0)

section \<open>Block headers as bytes\<close>

definition block_bytes :: "block_header \<Rightarrow> bytes" where
  "block_bytes h = le64 (bh_sample_position h) @ le64 (bh_host_time_ns h) @ le32 (bh_frames h) @ le32 (bh_flags h) @
     le32 (bh_generation h) @ le32 (bh_rate h) @ to_le 2 (bh_channels h) @ [bh_layout h, bh_sample h] @ replicate 20 0"

definition block_of_bytes :: "bytes \<Rightarrow> block_header" where
  "block_of_bytes bs =
     \<lparr> bh_sample_position = from_le (get_bytes 0 8 bs), bh_host_time_ns = from_le (get_bytes 8 8 bs),
       bh_frames = from_le (get_bytes 16 4 bs), bh_flags = from_le (get_bytes 20 4 bs), bh_generation = from_le (get_bytes 24 4 bs),
       bh_rate = from_le (get_bytes 28 4 bs), bh_channels = from_le (get_bytes 32 2 bs), bh_layout = bs ! 34, bh_sample = bs ! 35 \<rparr>"

lemma length_block_bytes [simp]: "length (block_bytes h) = 56"
  by (simp add: block_bytes_def)

lemma block_bytes_round [simp]: "block_of_bytes (block_bytes h @ rest) = h"
  by (simp add: block_of_bytes_def block_bytes_def get_bytes_def from_to_le nth_append)

section \<open>Ring geometry\<close>

definition AUDIO_MAGIC :: u64 where "AUDIO_MAGIC = from_le [0x4A, 0x53, 0x41, 0x55, 0x44, 0x49, 0x4F, 0x31]"
definition AUDIO_VERSION :: u64 where "AUDIO_VERSION = 1"
definition MIN_DEPTH :: nat where "MIN_DEPTH = 250 * 1000000"
definition HEADER_LEN :: nat where "HEADER_LEN = 256"
definition CURSOR :: nat where "CURSOR = 128"
definition BLOCK_ALIGN :: nat where "BLOCK_ALIGN = 64"
definition DISCONTINUITY :: u32 where "DISCONTINUITY = 1"
definition RECONFIGURATION :: u32 where "RECONFIGURATION = 2"

datatype audio_error = AudioInvalid string | AudioStorage

record descriptor =
  ds_format :: format
  ds_block_frames :: u32
  ds_blocks :: u32

record settings =
  st_format :: format
  st_block_frames :: u32
  st_depth :: nat

record ring_header =
  rh_magic :: u64
  rh_version :: u64
  rh_blocks :: u64
  rh_block_len :: u64
  rh_payload_len :: u64
  rh_map_len :: u64

definition ring_header_bytes :: "ring_header \<Rightarrow> bytes" where
  "ring_header_bytes h = le64 (rh_magic h) @ le64 (rh_version h) @ le64 (rh_blocks h) @ le64 (rh_block_len h) @
     le64 (rh_payload_len h) @ le64 (rh_map_len h)"

definition ring_header_of :: "bytes \<Rightarrow> ring_header" where
  "ring_header_of bs =
     \<lparr> rh_magic = from_le (get_bytes 0 8 bs), rh_version = from_le (get_bytes 8 8 bs), rh_blocks = from_le (get_bytes 16 8 bs),
       rh_block_len = from_le (get_bytes 24 8 bs), rh_payload_len = from_le (get_bytes 32 8 bs), rh_map_len = from_le (get_bytes 40 8 bs) \<rparr>"

lemma ring_header_round [simp]: "ring_header_of (ring_header_bytes h @ rest) = h"
  by (simp add: ring_header_of_def ring_header_bytes_def get_bytes_def from_to_le)

lemma length_ring_header [simp]: "length (ring_header_bytes h) = 48"
  by (simp add: ring_header_bytes_def)

record audio_ring =
  ar_len :: nat
  ar_blocks :: u64
  ar_block_len :: nat
  ar_payload_len :: nat

definition next_multiple_of :: "nat \<Rightarrow> nat \<Rightarrow> nat" where
  "next_multiple_of a m = (if a mod m = 0 then a else a + (m - a mod m))"

definition checked_map_len :: "u64 \<Rightarrow> nat \<Rightarrow> nat option" where
  "checked_map_len blocks block_len =
     (let n = unat blocks * block_len + HEADER_LEN in if n < 2 ^ 64 then Some n else None)"

text \<open>\<open>Ring::create\<close>: the geometry and the bytes of the new mapping.\<close>

definition audio_ring_create :: "u64 \<Rightarrow> nat \<Rightarrow> (audio_ring \<times> bytes, audio_error) outcome" where
  "audio_ring_create blocks payload_len =
     (let block_len = next_multiple_of (64 + payload_len) BLOCK_ALIGN in
      case checked_map_len blocks block_len of
        None \<Rightarrow> Err (AudioInvalid ''ring too large'')
      | Some map_len \<Rightarrow>
        let header = \<lparr> rh_magic = AUDIO_MAGIC, rh_version = AUDIO_VERSION, rh_blocks = blocks, rh_block_len = of_nat block_len,
              rh_payload_len = of_nat payload_len, rh_map_len = of_nat map_len \<rparr>
        in Ok (\<lparr> ar_len = map_len, ar_blocks = blocks, ar_block_len = block_len, ar_payload_len = payload_len \<rparr>,
               put_bytes 0 (ring_header_bytes header) (replicate map_len 0)))"

text \<open>\<open>Ring::map\<close> on a received object: its bytes when the header is probed, and its bytes when the whole of it
  has been mapped, which need not agree.\<close>

definition audio_ring_map :: "bytes \<Rightarrow> bytes \<Rightarrow> (audio_ring, audio_error) outcome" where
  "audio_ring_map probe full =
     (if length probe < HEADER_LEN then Err AudioStorage
      else
        let header = ring_header_of probe; block_len = unat (rh_block_len header); payload_len = unat (rh_payload_len header);
            map_len = unat (rh_map_len header); expected = checked_map_len (rh_blocks header) block_len in
        if rh_magic header \<noteq> AUDIO_MAGIC \<or> rh_version header \<noteq> AUDIO_VERSION \<or> rh_blocks header < 2 \<or>
           block_len mod BLOCK_ALIGN \<noteq> 0 \<or> block_len < min (64 + payload_len) (2 ^ 64 - 1) \<or> expected \<noteq> Some map_len
        then Err (AudioInvalid ''ring geometry'')
        else if length full < map_len then Err AudioStorage
        else if ring_header_of full \<noteq> header then Err (AudioInvalid ''ring geometry'')
        else Ok \<lparr> ar_len = map_len, ar_blocks = rh_blocks header, ar_block_len = block_len, ar_payload_len = payload_len \<rparr>)"

definition audio_ring_fits :: "audio_ring \<Rightarrow> descriptor \<Rightarrow> bool" where
  "audio_ring_fits r d \<longleftrightarrow> format_valid (ds_format d) \<and> ds_block_frames d \<noteq> 0 \<and> ar_blocks r = ucast (ds_blocks d) \<and>
     unat (ds_block_frames d) = ar_payload_len r div format_frame_bytes (ds_format d)"

definition audio_block_index :: "audio_ring \<Rightarrow> u64 \<Rightarrow> nat" where
  "audio_block_index r c = unat ((c - 1) mod ar_blocks r)"

definition audio_block :: "audio_ring \<Rightarrow> u64 \<Rightarrow> nat" where
  "audio_block r c = HEADER_LEN + audio_block_index r c * ar_block_len r"

text \<open>The assertion of \<open>Ring::word\<close>.\<close>

definition audio_word_ok :: "audio_ring \<Rightarrow> nat \<Rightarrow> bool" where
  "audio_word_ok r offset \<longleftrightarrow> offset mod 8 = 0 \<and> offset + 8 \<le> ar_len r"

definition audio_descriptor :: "audio_ring \<Rightarrow> format \<Rightarrow> descriptor" where
  "audio_descriptor r f = \<lparr> ds_format = f, ds_block_frames = of_nat (ar_payload_len r div format_frame_bytes f), ds_blocks = ucast (ar_blocks r) \<rparr>"

definition div_ceil :: "nat \<Rightarrow> nat \<Rightarrow> nat" where
  "div_ceil a b = (a + b - 1) div b"

text \<open>The ring of \<open>Shared::new\<close>.\<close>

definition audio_shared_new :: "settings \<Rightarrow> (audio_ring \<times> bytes, audio_error) outcome" where
  "audio_shared_new s =
     (let f = st_format s; block_frames = st_block_frames s in
      if \<not> format_valid f \<or> block_frames = 0 then Err (AudioInvalid ''format'')
      else if st_depth s < MIN_DEPTH then Err (AudioInvalid ''ring depth below 250 ms'')
      else
        let blocks = div_ceil (st_depth s * unat (fm_rate f)) (unat block_frames * 1000000000) in
        if 2 ^ 32 \<le> blocks then Err (AudioInvalid ''ring too large'')
        else
          let payload_len = unat block_frames * format_frame_bytes f in
          if 2 ^ 64 \<le> payload_len then Err (AudioInvalid ''block too large'')
          else audio_ring_create (of_nat (max blocks 2)) payload_len)"

section \<open>Every access is inside the mapping\<close>

definition ring_shape :: "audio_ring \<Rightarrow> bool" where
  "ring_shape r \<longleftrightarrow> 2 \<le> unat (ar_blocks r) \<and> ar_block_len r mod BLOCK_ALIGN = 0 \<and> 64 + ar_payload_len r \<le> ar_block_len r \<and>
     ar_len r = unat (ar_blocks r) * ar_block_len r + HEADER_LEN \<and> ar_len r < 2 ^ 64"

lemma next_multiple_of_ok: "0 < m \<Longrightarrow> next_multiple_of a m mod m = 0 \<and> a \<le> next_multiple_of a m"
proof (cases "a mod m = 0")
  case False
  assume "0 < m"
  have "a + (m - a mod m) = m + (a - a mod m)" using mod_less_divisor [OF \<open>0 < m\<close>, of a] by simp
  then have "a + (m - a mod m) = m + a div m * m" by (simp add: minus_mod_eq_div_mult)
  then show ?thesis using False by (simp add: next_multiple_of_def)
qed (simp add: next_multiple_of_def)

lemma create_shape: "audio_ring_create b p = Ok (r, mem) \<Longrightarrow> 2 \<le> unat b \<Longrightarrow> ring_shape r \<and> length mem = ar_len r"
  using next_multiple_of_ok [of BLOCK_ALIGN "64 + p"]
  by (auto simp: audio_ring_create_def checked_map_len_def ring_shape_def Let_def HEADER_LEN_def BLOCK_ALIGN_def split: option.splits if_splits)

lemma map_shape:
  assumes "audio_ring_map probe full = Ok r"
  shows "ring_shape r \<and> ar_len r \<le> length full"
proof -
  let ?h = "ring_header_of probe"
  have b: "checked_map_len (rh_blocks ?h) (unat (rh_block_len ?h)) = Some (unat (rh_map_len ?h))" "\<not> rh_blocks ?h < 2"
    "unat (rh_block_len ?h) mod BLOCK_ALIGN = 0" "min (64 + unat (rh_payload_len ?h)) (2 ^ 64 - 1) \<le> unat (rh_block_len ?h)"
    "unat (rh_map_len ?h) \<le> length full"
    and r: "r = \<lparr> ar_len = unat (rh_map_len ?h), ar_blocks = rh_blocks ?h, ar_block_len = unat (rh_block_len ?h), ar_payload_len = unat (rh_payload_len ?h) \<rparr>"
    using assms by (auto simp: audio_ring_map_def Let_def not_less split: if_splits)
  have two: "2 \<le> unat (rh_blocks ?h)" using b(2) by (simp add: not_less word_le_nat_alt)
  have n: "unat (rh_blocks ?h) * unat (rh_block_len ?h) + HEADER_LEN = unat (rh_map_len ?h)"
    "unat (rh_map_len ?h) < 2 ^ 64" using b(1) by (auto simp: checked_map_len_def Let_def split: if_splits)
  have "2 * unat (rh_block_len ?h) \<le> unat (rh_blocks ?h) * unat (rh_block_len ?h)" using two by simp
  moreover have "a < 2 ^ 64 - 1" if "2 * a \<le> m" "m + 256 = l" "l < 2 ^ 64" for a m l :: nat using that by simp
  ultimately have "unat (rh_block_len ?h) < 2 ^ 64 - 1" using n unfolding HEADER_LEN_def by blast
  then have "64 + unat (rh_payload_len ?h) \<le> unat (rh_block_len ?h)" using b(4) by (simp add: min_def split: if_splits)
  then show ?thesis using b r n two by (simp add: ring_shape_def)
qed

lemma block_index_bound: "ring_shape r \<Longrightarrow> audio_block_index r c < unat (ar_blocks r)"
  unfolding audio_block_index_def ring_shape_def by (simp add: unat_mod)

lemma block_inside:
  assumes "ring_shape r"
  shows "HEADER_LEN \<le> audio_block r c" "audio_block r c + ar_block_len r \<le> ar_len r" "audio_word_ok r (audio_block r c)"
proof -
  have "audio_block_index r c + 1 \<le> unat (ar_blocks r)" using block_index_bound [OF assms, of c] by simp
  then have "(audio_block_index r c + 1) * ar_block_len r \<le> unat (ar_blocks r) * ar_block_len r" by (rule mult_le_mono1)
  then show le: "audio_block r c + ar_block_len r \<le> ar_len r" using assms by (simp add: audio_block_def ring_shape_def)
  have "64 dvd ar_block_len r" using assms by (auto simp: ring_shape_def BLOCK_ALIGN_def)
  then have "8 dvd ar_block_len r" by (rule dvd_trans [rotated]) simp
  then have "8 dvd audio_block_index r c * ar_block_len r" by (rule dvd_mult)
  then show "audio_word_ok r (audio_block r c)"
    using le assms by (auto simp: audio_word_ok_def audio_block_def HEADER_LEN_def ring_shape_def mod_eq_0_iff_dvd)
qed (simp add: audio_block_def)

lemma blocks_disjoint:
  assumes "audio_block_index r c \<noteq> audio_block_index r d"
  shows "audio_block r c + ar_block_len r \<le> audio_block r d \<or> audio_block r d + ar_block_len r \<le> audio_block r c"
proof -
  have step: "i * n + n \<le> j * n" if "i < j" for i j n :: nat using mult_le_mono1 [of "Suc i" j n] that by simp
  show ?thesis using assms by (auto simp: audio_block_def neq_iff dest: step [where n = "ar_block_len r"])
qed

section \<open>A ring a process made is the ring another maps\<close>

lemma create_then_map:
  assumes c: "audio_ring_create b p = Ok (r, mem)" and two: "2 \<le> unat b"
  shows "audio_ring_map mem mem = Ok r"
proof -
  let ?bl = "next_multiple_of (64 + p) BLOCK_ALIGN"
  let ?n = "unat b * ?bl + HEADER_LEN"
  let ?h = "\<lparr> rh_magic = AUDIO_MAGIC, rh_version = AUDIO_VERSION, rh_blocks = b, rh_block_len = of_nat ?bl,
              rh_payload_len = of_nat p, rh_map_len = of_nat ?n \<rparr>"
  have n: "?n < 2 ^ 64" and m: "mem = put_bytes 0 (ring_header_bytes ?h) (replicate ?n 0)"
    and r: "r = \<lparr> ar_len = ?n, ar_blocks = b, ar_block_len = ?bl, ar_payload_len = p \<rparr>"
    using c by (auto simp: audio_ring_create_def checked_map_len_def Let_def split: if_splits)
  have nm: "?bl mod BLOCK_ALIGN = 0" "64 + p \<le> ?bl" using next_multiple_of_ok [of BLOCK_ALIGN "64 + p"] by (simp_all add: BLOCK_ALIGN_def)
  have "?bl \<le> unat b * ?bl" using two by simp
  then have bl: "?bl < 2 ^ 64" using n by linarith
  then have u: "unat (of_nat ?bl :: u64) = ?bl" "unat (of_nat p :: u64) = p" "unat (of_nat ?n :: u64) = ?n"
    using n nm(2) by (simp_all only: unat_of_nat) simp_all
  have len: "length mem = ?n" using create_shape [OF c two] r by simp
  have h: "ring_header_of mem = ?h" unfolding m put_bytes_def by simp
  have "\<not> b < 2" using two by (simp add: not_less word_le_nat_alt)
  then show ?thesis
    unfolding audio_ring_map_def h Let_def using len nm n two
    by (simp add: u r checked_map_len_def Let_def del: of_nat_add of_nat_mult)
qed

lemma frame_bytes_bound: "format_frame_bytes f < 2 ^ 18"
proof -
  have "sample_bytes (fm_sample f) \<le> 4" by (cases "fm_sample f") simp_all
  moreover have "unat (fm_channels f) < 2 ^ 16" using unat_less_exp [of "fm_channels f"] by simp
  ultimately have "unat (fm_channels f) * sample_bytes (fm_sample f) < 2 ^ 16 * 4"
    by (intro le_less_trans [OF mult_le_mono2 mult_less_mono1]) simp_all
  then show ?thesis by (simp add: format_frame_bytes_def)
qed

lemma div_ceil_le: "0 < b \<Longrightarrow> a \<le> div_ceil a b * b"
proof -
  assume b: "0 < b"
  have "a + b - 1 < ((a + b - 1) div b + 1) * b" using dividend_less_div_times [OF b, of "a + b - 1"] by simp
  then show ?thesis using b by (simp add: div_ceil_def)
qed

lemma shared_newD:
  assumes "audio_shared_new s = Ok (r, mem)"
  obtains n where "n < 2 ^ 32" "2 \<le> n" "audio_ring_create (of_nat n) (unat (st_block_frames s) * format_frame_bytes (st_format s)) = Ok (r, mem)"
    "format_valid (st_format s)" "st_block_frames s \<noteq> 0" "MIN_DEPTH \<le> st_depth s"
    "st_depth s * unat (fm_rate (st_format s)) \<le> n * (unat (st_block_frames s) * 1000000000)"
proof -
  let ?n = "div_ceil (st_depth s * unat (fm_rate (st_format s))) (unat (st_block_frames s) * 1000000000)"
  have b: "st_block_frames s \<noteq> 0" using assms by (auto simp: audio_shared_new_def Let_def split: if_splits)
  then have "0 < unat (st_block_frames s) * 1000000000" by (simp add: unat_gt_0)
  then have "st_depth s * unat (fm_rate (st_format s)) \<le> ?n * (unat (st_block_frames s) * 1000000000)" by (rule div_ceil_le)
  also have "\<dots> \<le> max ?n 2 * (unat (st_block_frames s) * 1000000000)" by (rule mult_le_mono1) simp
  finally show ?thesis using assms b by (intro that [of "max ?n 2"]) (auto simp: audio_shared_new_def Let_def split: if_splits)
qed

lemma shared_new_fits:
  assumes "audio_shared_new s = Ok (r, mem)"
  shows "audio_ring_fits r (audio_descriptor r (st_format s))" "ar_payload_len r = unat (st_block_frames s) * format_frame_bytes (st_format s)"
    "st_depth s * unat (fm_rate (st_format s)) \<le> unat (ar_blocks r) * (unat (st_block_frames s) * 1000000000)"
    "2 \<le> unat (ar_blocks r)" "audio_ring_map mem mem = Ok r" "ar_len r = length mem"
proof -
  obtain n where n: "n < 2 ^ 32" "2 \<le> n" "audio_ring_create (of_nat n) (unat (st_block_frames s) * format_frame_bytes (st_format s)) = Ok (r, mem)"
    "format_valid (st_format s)" "st_block_frames s \<noteq> 0"
    "st_depth s * unat (fm_rate (st_format s)) \<le> n * (unat (st_block_frames s) * 1000000000)"
    using assms by (rule shared_newD)
  have u: "unat (of_nat n :: u64) = n" "unat (of_nat n :: u32) = n" using n(1) by (simp_all add: unat_of_nat)
  have r: "ar_blocks r = of_nat n" and pl: "ar_payload_len r = unat (st_block_frames s) * format_frame_bytes (st_format s)"
    using n(3) by (auto simp: audio_ring_create_def Let_def split: option.splits)
  have q: "ar_payload_len r div format_frame_bytes (st_format s) = unat (st_block_frames s)"
    using pl format_frame_bytes_pos [OF n(4)] by simp
  have "ucast (ucast (of_nat n :: u64) :: u32) = (of_nat n :: u64)"
    using u n(1) by (intro word_unat_eq_iff [THEN iffD2]) (simp add: unsigned_ucast_eq unsigned_take_bit_eq take_bit_nat_eq_self)
  then show "audio_ring_fits r (audio_descriptor r (st_format s))"
    using n(4,5) q r by (simp add: audio_ring_fits_def audio_descriptor_def)
  show "2 \<le> unat (ar_blocks r)" "audio_ring_map mem mem = Ok r" "ar_len r = length mem"
    using create_then_map [OF n(3)] create_shape [OF n(3)] n(2) u(1) r by simp_all
  show "st_depth s * unat (fm_rate (st_format s)) \<le> unat (ar_blocks r) * (unat (st_block_frames s) * 1000000000)"
    using n(6) r u(1) by simp
  show "ar_payload_len r = unat (st_block_frames s) * format_frame_bytes (st_format s)" by (rule pl)
qed

text \<open>C38. Mapping an audio ring.  A ring that a producer created for valid settings covers the requested depth, and a process that
  maps its bytes gets the same geometry, which fits the offered descriptor.  Whatever bytes another process supplies, also when
  they change between the probe and the mapping, a ring that is accepted lies inside its mapping: the cursor word and every block's
  sequence word pass the alignment and bounds assertion, each block's header and payload end inside the mapping
  and behind the header, and blocks of different cursors modulo the depth do not overlap.\<close>

theorem audio_ring_mapping_safe:
  assumes "audio_shared_new s = Ok (r, mem)" "audio_ring_map probe full = Ok r'"
  shows "audio_ring_map mem mem = Ok r \<and> audio_ring_fits r (audio_descriptor r (st_format s)) \<and>
    st_depth s * unat (fm_rate (st_format s)) \<le> unat (ar_blocks r) * unat (st_block_frames s) * 1000000000 \<and>
    ar_len r' \<le> length full \<and> audio_word_ok r' CURSOR \<and> CURSOR + 8 \<le> HEADER_LEN \<and>
    (\<forall>c. audio_word_ok r' (audio_block r' c) \<and> HEADER_LEN \<le> audio_block r' c \<and>
       audio_block r' c + 64 + ar_payload_len r' \<le> ar_len r') \<and>
    (\<forall>c d. audio_block_index r' c \<noteq> audio_block_index r' d \<longrightarrow>
       audio_block r' c + 64 + ar_payload_len r' \<le> audio_block r' d \<or> audio_block r' d + 64 + ar_payload_len r' \<le> audio_block r' c)"
proof (intro conjI allI impI)
  show "audio_ring_map mem mem = Ok r" "audio_ring_fits r (audio_descriptor r (st_format s))"
    "st_depth s * unat (fm_rate (st_format s)) \<le> unat (ar_blocks r) * unat (st_block_frames s) * 1000000000"
    using shared_new_fits [OF assms(1)] by (simp_all add: mult.assoc)
  have sh: "ring_shape r'" and "ar_len r' \<le> length full" using map_shape [OF assms(2)] by simp_all
  then show "ar_len r' \<le> length full" by simp
  have pl: "64 + ar_payload_len r' \<le> ar_block_len r'" using sh by (simp add: ring_shape_def)
  show "audio_word_ok r' CURSOR" "CURSOR + 8 \<le> HEADER_LEN"
    using sh by (simp_all add: ring_shape_def audio_word_ok_def CURSOR_def HEADER_LEN_def)
  show "audio_word_ok r' (audio_block r' c)" "HEADER_LEN \<le> audio_block r' c" "audio_block r' c + 64 + ar_payload_len r' \<le> ar_len r'" for c
    using block_inside [OF sh, of c] pl by simp_all
  show "audio_block r' c + 64 + ar_payload_len r' \<le> audio_block r' d \<or> audio_block r' d + 64 + ar_payload_len r' \<le> audio_block r' c"
    if "audio_block_index r' c \<noteq> audio_block_index r' d" for c d
    using blocks_disjoint [OF that] pl by auto
qed

lemma audio_ring_mapping_safe_witness:
  "\<exists>r mem. audio_shared_new \<lparr> st_format = \<lparr> fm_rate = 48000, fm_channels = 2, fm_layout = Stereo, fm_sample = S16 \<rparr>,
       st_block_frames = 480, st_depth = 250000000 \<rparr> = Ok (r, mem) \<and> audio_ring_map mem mem = Ok r \<and> unat (ar_blocks r) = 25 \<and>
     audio_word_ok r (audio_block r 7)"
proof -
  let ?s = "\<lparr> st_format = \<lparr> fm_rate = 48000, fm_channels = 2, fm_layout = Stereo, fm_sample = S16 \<rparr>,
       st_block_frames = 480, st_depth = 250000000 \<rparr>"
  obtain r mem where r: "audio_shared_new ?s = Ok (r, mem)" "unat (ar_blocks r) = 25"
    by (simp add: audio_shared_new_def audio_ring_create_def checked_map_len_def format_valid_def format_frame_bytes_def div_ceil_def
        MIN_DEPTH_def BLOCK_ALIGN_def HEADER_LEN_def next_multiple_of_def Let_def)
  from audio_ring_mapping_safe [OF r(1) shared_new_fits(5) [OF r(1)]] show ?thesis using r by blast
qed

end
