(* ===== verification/Handshake.thy ===== *)
theory Handshake
  imports Audio_Ring
begin

text \<open>
  The handshake of a source connection (\<open>handshake.rs\<close>): the host offers tracks, the consumer selects some,
  the host admits or refuses each and passes channels, doorbell and audio rings in an order that both sides
  derive from the admissions.  Messages are values, the objects passed are named by what they are for, and
  each \<open>send_objects\<close> is one element of the list of transfers.  \<open>dec\<close> stands for the CBOR decoding of an audio
  descriptor, \<open>alloc\<close> for whether the operating system grants the memory of a fresh recording ring.  The rings
  live in a store that is indexed by the track identity.
\<close>

section \<open>Tracks\<close>

datatype kind = VideoKind | InputKind | AffordancesKind | PlaybackKind | RecordingKind | OtherKind string
datatype direction = FromSource | ToSource | BothWays
datatype clock_domain = UnknownClock | HostTime

fun kind_as_str :: "kind \<Rightarrow> string" where
  "kind_as_str VideoKind = ''video''"
| "kind_as_str InputKind = ''input''"
| "kind_as_str AffordancesKind = ''affordances''"
| "kind_as_str PlaybackKind = ''playback''"
| "kind_as_str RecordingKind = ''recording''"
| "kind_as_str (OtherKind k) = k"

definition kind_of_string :: "string \<Rightarrow> kind" where
  "kind_of_string k =
     (if k = ''video'' then VideoKind else if k = ''input'' then InputKind else if k = ''affordances'' then AffordancesKind
      else if k = ''playback'' then PlaybackKind else if k = ''recording'' then RecordingKind else OtherKind k)"

lemma kind_of_as_str: "kind_as_str (kind_of_string k) = k"
  by (simp add: kind_of_string_def)

definition kind_audio :: "kind \<Rightarrow> bool" where
  "kind_audio k \<longleftrightarrow> k = PlaybackKind \<or> k = RecordingKind"

fun split_labels :: "string \<Rightarrow> string list" where
  "split_labels [] = [[]]"
| "split_labels (c # cs) = (if c = CHR ''.'' then [] # split_labels cs else case split_labels cs of [] \<Rightarrow> [[c]] | l # ls \<Rightarrow> (c # l) # ls)"

definition label_char :: "char \<Rightarrow> bool" where
  "label_char c \<longleftrightarrow> (of_char CHR ''a'' :: nat) \<le> of_char c \<and> of_char c \<le> (of_char CHR ''z'' :: nat) \<or>
     (of_char CHR ''0'' :: nat) \<le> of_char c \<and> of_char c \<le> (of_char CHR ''9'' :: nat) \<or> c = CHR ''-''"

fun kind_offerable :: "kind \<Rightarrow> bool" where
  "kind_offerable (OtherKind k) \<longleftrightarrow> CHR ''.'' \<in> set k \<and> (\<forall>l\<in>set (split_labels k). l \<noteq> [] \<and> list_all label_char l)"
| "kind_offerable _ \<longleftrightarrow> True"

record track =
  tk_id :: u64
  tk_kind :: kind
  tk_direction :: direction
  tk_label :: string
  tk_descriptor :: bytes

record offer =
  of_source :: string
  of_clock :: clock_domain
  of_tracks :: "track list"

record selected =
  sl_id :: u64
  sl_required :: bool
  sl_write :: bool

datatype refusal = Unknown | Unavailable | NotWritable

record admission =
  ad_id :: u64
  ad_refusal :: "refusal option"

datatype hs_error = Io | Transfer | Message | Protocol string | Refused u64 refusal | AudioError

definition MAX_TRACKS :: nat where "MAX_TRACKS = 64"

section \<open>Rings that a host holds\<close>

text \<open>The shared state of an audio track: its ring and, for recording, the admitted writer's epoch (0 with none),
  the ring of the current writer, earlier writers' rings that the source still reads, and the ring the source
  reads.  A writer's ring is named by its epoch, the ring of the track itself by 0.\<close>

record playback =
  pb_ring :: audio_ring
  pb_recording :: bool
  pb_writer :: u64
  pb_epoch :: u64
  pb_current :: "u64 option"
  pb_retired :: "u64 list"
  pb_reading :: u64
  pb_bells :: "(nat \<times> u64) list"

type_synonym store = "u64 \<rightharpoonup> playback"

definition writers_retire :: "playback \<Rightarrow> playback" where
  "writers_retire p = p\<lparr> pb_current := None,
     pb_retired := filter (\<lambda>e. e = pb_reading p) (pb_retired p @ (case pb_current p of Some e \<Rightarrow> [e] | None \<Rightarrow> [])) \<rparr>"

definition playback_claim :: "bool \<Rightarrow> playback \<Rightarrow> bool \<times> playback" where
  "playback_claim alloc p =
     (if \<not> pb_recording p \<or> pb_writer p \<noteq> 0 then (False, p)
      else if \<not> alloc then (False, p)
      else let p = writers_retire p; e = pb_epoch p + 1
           in (True, p\<lparr> pb_epoch := e, pb_current := Some e, pb_writer := e \<rparr>))"

definition lease_drop :: "playback \<Rightarrow> playback" where
  "lease_drop p = writers_retire (p\<lparr> pb_writer := 0 \<rparr>)"

definition drop_leases :: "u64 list \<Rightarrow> store \<Rightarrow> store" where
  "drop_leases leases st = (\<lambda>i. if i \<in> set leases then map_option lease_drop (st i) else st i)"

definition playback_register :: "nat \<Rightarrow> nat \<Rightarrow> playback \<Rightarrow> playback" where
  "playback_register bell position p = p\<lparr> pb_bells := pb_bells p @ [(bell, push_bit (position mod 64) 1)] \<rparr>"

datatype object = ChannelEnd kind | TracksEnd | HintPage nat | WakeEnd nat | RingObject u64 u64

definition playback_fd :: "u64 \<Rightarrow> playback \<Rightarrow> object option" where
  "playback_fd i p = (if \<not> pb_recording p then Some (RingObject i 0) else map_option (RingObject i) (pb_current p))"

definition track_offerable :: "(bytes \<Rightarrow> descriptor option) \<Rightarrow> store \<Rightarrow> u64 list \<Rightarrow> track \<Rightarrow> bool" where
  "track_offerable dec st handles t =
     (let recording = tk_kind t = RecordingKind;
          fits = (tk_id t \<in> set handles \<and>
            (case st (tk_id t) of
               Some p \<Rightarrow> pb_recording p = recording \<and> (case dec (tk_descriptor t) of Some d \<Rightarrow> audio_ring_fits (pb_ring p) d | None \<Rightarrow> False)
             | None \<Rightarrow> False));
          dir = (if recording then ToSource else FromSource)
      in kind_offerable (tk_kind t) \<and> (\<not> kind_audio (tk_kind t) \<or> tk_direction t = dir \<and> fits))"

text \<open>\<open>claim\<close>: the refusal, if any, the identities leased so far and the store.\<close>

definition claim_recording :: "(u64 \<Rightarrow> bool) \<Rightarrow> u64 \<Rightarrow> bool \<Rightarrow> u64 list \<Rightarrow> u64 list \<Rightarrow> store \<Rightarrow> refusal option \<times> u64 list \<times> store" where
  "claim_recording alloc i wr handles leases st =
     (if i \<in> set handles \<and> wr then
        (case st i of
           None \<Rightarrow> (Some Unavailable, leases, st)
         | Some p \<Rightarrow>
           (case playback_claim (alloc i) p of
              (True, p') \<Rightarrow> (None, leases @ [i], st(i \<mapsto> p'))
            | (False, _) \<Rightarrow> (Some Unavailable, leases, st)))
      else (Some Unavailable, leases, st))"

section \<open>What both sides derive from the admissions\<close>

definition find_track :: "track list \<Rightarrow> u64 \<Rightarrow> track option" where
  "find_track ts i = find (\<lambda>t. tk_id t = i) ts"

definition admitted_ids :: "admission list \<Rightarrow> u64 list" where
  "admitted_ids ads = map ad_id (filter (\<lambda>a. ad_refusal a = None) ads)"

definition channel_kinds :: "track list \<Rightarrow> admission list \<Rightarrow> kind list" where
  "channel_kinds ts ads =
     filter (\<lambda>k. k = InputKind \<or> k = AffordancesKind) (map tk_kind (List.map_filter (find_track ts) (admitted_ids ads)))"

definition enumerated :: "'a list \<Rightarrow> (nat \<times> 'a) list" where
  "enumerated xs = zip [0..<length xs] xs"

definition audio_tracks :: "track list \<Rightarrow> admission list \<Rightarrow> (nat \<times> track) list" where
  "audio_tracks ts ads =
     List.map_filter (\<lambda>(pos, a). map_option (Pair pos) (find (\<lambda>t. tk_id t = ad_id a \<and> kind_audio (tk_kind t)) ts))
       (filter (\<lambda>(_, a). ad_refusal a = None) (enumerated ads))"

definition video_position :: "track list \<Rightarrow> admission list \<Rightarrow> nat option" where
  "video_position ts ads =
     map_option fst (find (\<lambda>(_, a). ad_refusal a = None \<and> (\<exists>t\<in>set ts. tk_id t = ad_id a \<and> tk_kind t = VideoKind)) (enumerated ads))"

definition first_refused :: "selected list \<Rightarrow> admission list \<Rightarrow> (u64 \<times> refusal) option" where
  "first_refused sel ads =
     map_option (\<lambda>(_, a). (ad_id a, the (ad_refusal a))) (find (\<lambda>(s, a). sl_required s \<and> ad_refusal a \<noteq> None) (zip sel ads))"

section \<open>The host\<close>

fun offer_ok :: "(bytes \<Rightarrow> descriptor option) \<Rightarrow> store \<Rightarrow> u64 list \<Rightarrow> u64 set \<Rightarrow> kind set \<Rightarrow> track list \<Rightarrow> bool" where
  "offer_ok dec st handles ids singles [] = True"
| "offer_ok dec st handles ids singles (t # ts) =
     (let single = tk_kind t \<in> {VideoKind, InputKind, AffordancesKind} in
      if tk_id t \<in> ids \<or> \<not> track_offerable dec st handles t \<or> single \<and> tk_kind t \<in> singles then False
      else offer_ok dec st handles (insert (tk_id t) ids) (if single then insert (tk_kind t) singles else singles) ts)"

definition admit_one :: "(u64 \<Rightarrow> bool) \<Rightarrow> track list \<Rightarrow> bool \<Rightarrow> u64 list \<Rightarrow> selected \<Rightarrow> u64 list \<Rightarrow> store \<Rightarrow> admission \<times> u64 list \<times> store" where
  "admit_one alloc ts target handles s leases st =
     (let answer = (\<lambda>(r, leases, st). (\<lparr> ad_id = sl_id s, ad_refusal = r \<rparr>, leases, st)) in
      case find_track ts (sl_id s) of
        None \<Rightarrow> answer (Some Unknown, leases, st)
      | Some t \<Rightarrow>
        if sl_write s \<and> tk_direction t = FromSource then answer (Some NotWritable, leases, st)
        else if tk_kind t = InputKind \<and> (\<not> sl_write s \<or> \<not> target) then answer (Some Unavailable, leases, st)
        else if tk_kind t = RecordingKind then answer (claim_recording alloc (tk_id t) (sl_write s) handles leases st)
        else answer (None, leases, st))"

fun admit_all :: "(u64 \<Rightarrow> bool) \<Rightarrow> track list \<Rightarrow> bool \<Rightarrow> u64 list \<Rightarrow> selected list \<Rightarrow> u64 list \<Rightarrow> store \<Rightarrow> admission list \<times> u64 list \<times> store" where
  "admit_all alloc ts target handles [] leases st = ([], leases, st)"
| "admit_all alloc ts target handles (s # ss) leases st =
     (case admit_one alloc ts target handles s leases st of
        (a, leases1, st1) \<Rightarrow>
        (case admit_all alloc ts target handles ss leases1 st1 of (as, leases2, st2) \<Rightarrow> (a # as, leases2, st2)))"

text \<open>\<open>send_rings\<close>: the bell of the incarnation (\<open>inc\<close> names a new one), the store with the registrations, and the transfer.\<close>

fun ring_objects :: "nat option \<Rightarrow> (nat \<times> u64) list \<Rightarrow> store \<Rightarrow> object list option \<times> store" where
  "ring_objects bell [] st = (Some [], st)"
| "ring_objects bell ((position, i) # rings) st =
     (case st i of
        None \<Rightarrow> (None, st)
      | Some p \<Rightarrow>
        let st = (case bell of Some b \<Rightarrow> st(i \<mapsto> playback_register b position p) | None \<Rightarrow> st) in
        (case playback_fd i p of
           None \<Rightarrow> (None, st)
         | Some fd \<Rightarrow> (case ring_objects bell rings st of (rest, st') \<Rightarrow> (map_option (Cons fd) rest, st'))))"

definition send_rings :: "nat \<Rightarrow> nat option \<Rightarrow> bool \<Rightarrow> (nat \<times> u64) list \<Rightarrow> store \<Rightarrow> (object list list, hs_error) outcome \<times> nat option \<times> store" where
  "send_rings inc bell video rings st =
     (let fresh = (bell = None \<and> (video \<or> (\<exists>(_, i)\<in>set rings. case st i of Some p \<Rightarrow> \<not> pb_recording p | None \<Rightarrow> False)));
          bell' = (if fresh then Some inc else bell);
          bell_objects = (if fresh then [HintPage inc, WakeEnd inc] else [])
      in case ring_objects bell' rings st of
           (None, st') \<Rightarrow> (Err Io, bell', st')
         | (Some fds, st') \<Rightarrow> (Ok (if bell_objects @ fds = [] then [] else [bell_objects @ fds]), bell', st'))"

record notices =
  nt_tracks :: "track list"
  nt_playback :: "u64 list"
  nt_offered :: "u64 set"
  nt_admitted :: "u64 set"
  nt_positions :: nat
  nt_bell :: "nat option"
  nt_leases :: "u64 list"

record accepted =
  ac_admissions :: "admission list"
  ac_input :: bool
  ac_affordances :: bool
  ac_video_bell :: "(nat \<times> u64) option"
  ac_notices :: notices

text \<open>\<open>accept\<close>, given the consumer's selection: the host's answer if it sent one, the transfers, the result and the store.  Leases
  that were taken are dropped when the handshake fails.\<close>

definition handshake_accept ::
    "(bytes \<Rightarrow> descriptor option) \<Rightarrow> (u64 \<Rightarrow> bool) \<Rightarrow> nat \<Rightarrow> offer \<Rightarrow> bool \<Rightarrow> u64 list \<Rightarrow> selected list \<Rightarrow> store \<Rightarrow>
     admission list option \<times> object list list \<times> (accepted, hs_error) outcome \<times> store" where
  "handshake_accept dec alloc inc off target handles sel st =
     (let ts = of_tracks off in
      if MAX_TRACKS < length (filter (\<lambda>t. kind_audio (tk_kind t)) ts) \<or> \<not> offer_ok dec st handles {} {} ts
      then (None, [], Err (Protocol ''invalid offer''), st)
      else if length ts < length sel \<or> \<not> distinct (map sl_id sel) then (None, [], Err (Protocol ''invalid selection''), st)
      else case admit_all alloc ts target handles sel [] st of
        (ads, leases, st1) \<Rightarrow>
        (case first_refused sel ads of
           Some (i, r) \<Rightarrow> (Some ads, [], Err (Refused i r), drop_leases leases st1)
         | None \<Rightarrow>
           let kinds = channel_kinds ts ads; channels = map (\<lambda>k. [ChannelEnd k]) kinds @ [[TracksEnd]];
               rings = map (\<lambda>(pos, t). (pos, tk_id t)) (audio_tracks ts ads); video = video_position ts ads in
           if InputKind \<in> set kinds \<and> \<not> target then (None, [], Err (Protocol ''input admitted without a target''), drop_leases leases st1)
           else if \<exists>(_, i)\<in>set rings. i \<notin> set handles then (Some ads, channels, Panic, st1)
           else case send_rings inc None (video \<noteq> None) rings st1 of
             (Ok objs, bell, st2) \<Rightarrow>
               (Some ads, channels @ objs,
                Ok \<lparr> ac_admissions = ads, ac_input = (InputKind \<in> set kinds), ac_affordances = (AffordancesKind \<in> set kinds),
                  ac_video_bell = (case (video, bell) of (Some pos, Some b) \<Rightarrow> Some (b, push_bit (pos mod 64) 1) | _ \<Rightarrow> None),
                  ac_notices = \<lparr> nt_tracks = ts, nt_playback = handles, nt_offered = tk_id ` set ts, nt_admitted = set (admitted_ids ads),
                    nt_positions = length ads, nt_bell = bell, nt_leases = leases \<rparr> \<rparr>, st2)
           | (Err e, bell, st2) \<Rightarrow> (Some ads, channels, Err e, drop_leases leases st2)
           | (Panic, bell, st2) \<Rightarrow> (Some ads, channels, Panic, st2)))"

section \<open>The consumer\<close>

definition handshake_connect :: "offer \<Rightarrow> (offer, hs_error) outcome" where
  "handshake_connect off = (if distinct (map tk_id (of_tracks off)) then Ok off else Err (Protocol ''duplicate track ID''))"

definition receive_objects :: "nat \<Rightarrow> object list list \<Rightarrow> (object list \<times> object list list, hs_error) outcome" where
  "receive_objects n transfers =
     (case transfers of
        [] \<Rightarrow> Err Io
      | objs # rest \<Rightarrow> if length objs = n then Ok (objs, rest) else Err (Protocol ''missing descriptors''))"

fun receive_channels :: "kind list \<Rightarrow> object list list \<Rightarrow> ((kind \<times> object) list \<times> object list list, hs_error) outcome" where
  "receive_channels [] transfers = Ok ([], transfers)"
| "receive_channels (k # ks) transfers =
     and_then (receive_objects 1 transfers) (\<lambda>(objs, rest).
     and_then (receive_channels ks rest) (\<lambda>(got, rest'). Ok ((k, hd objs) # got, rest')))"

text \<open>Mapping the object of a ring: it has to be a ring of a geometry that fits the descriptor.\<close>

definition map_ring :: "(bytes \<Rightarrow> descriptor option) \<Rightarrow> store \<Rightarrow> track \<Rightarrow> object \<Rightarrow> (track \<times> object, hs_error) outcome" where
  "map_ring dec st t obj =
     (case dec (tk_descriptor t) of
        None \<Rightarrow> Err Message
      | Some d \<Rightarrow>
        (case obj of
           RingObject i e \<Rightarrow> (case st i of Some p \<Rightarrow> if audio_ring_fits (pb_ring p) d then Ok (t, obj) else Err AudioError | None \<Rightarrow> Err AudioError)
         | _ \<Rightarrow> Err AudioError))"

fun map_rings :: "(bytes \<Rightarrow> descriptor option) \<Rightarrow> store \<Rightarrow> track list \<Rightarrow> object list \<Rightarrow> ((track \<times> object) list, hs_error) outcome" where
  "map_rings dec st (t # ts) (obj # objs) =
     and_then (map_ring dec st t obj) (\<lambda>r. and_then (map_rings dec st ts objs) (\<lambda>rs. Ok (r # rs)))"
| "map_rings dec st _ _ = Ok []"

record rings =
  rs_doorbell :: "(object \<times> object) option"
  rs_playback :: "(track \<times> object) list"
  rs_recording :: "(track \<times> object) list"

definition receive_rings :: "(bytes \<Rightarrow> descriptor option) \<Rightarrow> store \<Rightarrow> bool \<Rightarrow> bool \<Rightarrow> track list \<Rightarrow> object list list \<Rightarrow> (rings \<times> object list list, hs_error) outcome" where
  "receive_rings dec st doorbell video ts transfers =
     (let bell = (\<not> doorbell \<and> (video \<or> (\<exists>t\<in>set ts. tk_kind t = PlaybackKind))) in
      if ts = [] \<and> \<not> bell then Ok (\<lparr> rs_doorbell = None, rs_playback = [], rs_recording = [] \<rparr>, transfers)
      else and_then (receive_objects (length ts + (if bell then 2 else 0)) transfers) (\<lambda>(objs, rest).
        let fds = (if bell then drop 2 objs else objs); db = (if bell then Some (objs ! 0, objs ! 1) else None) in
        and_then (map_rings dec st ts fds) (\<lambda>rs.
          Ok (\<lparr> rs_doorbell = db, rs_playback = filter (\<lambda>(t, _). tk_kind t \<noteq> RecordingKind) rs,
                rs_recording = filter (\<lambda>(t, _). tk_kind t = RecordingKind) rs \<rparr>, rest))))"

text \<open>A change to the offer while attached (\<open>handshake/notices.rs\<close>).\<close>

datatype notice = Added track | Removed u64 | Updated track

record tracks_view =
  tv_tracks :: "track list"
  tv_positions :: nat
  tv_doorbell :: bool
  tv_pending :: "notice list"

record connected =
  co_admissions :: "admission list"
  co_channels :: "(kind \<times> object) list"
  co_tracks_channel :: object
  co_rings :: rings
  co_tracks :: tracks_view

definition handshake_select :: "(bytes \<Rightarrow> descriptor option) \<Rightarrow> store \<Rightarrow> offer \<Rightarrow> selected list \<Rightarrow> admission list \<Rightarrow> object list list \<Rightarrow>
    (connected, hs_error) outcome" where
  "handshake_select dec st off sel ads transfers =
     (let ts = of_tracks off in
      if length ts < length sel \<or> \<not> distinct (map sl_id sel) then Err (Protocol ''invalid selection'')
      else if map ad_id ads \<noteq> map sl_id sel then Err (Protocol ''admission does not answer the selection'')
      else case first_refused sel ads of
        Some (i, r) \<Rightarrow> Err (Refused i r)
      | None \<Rightarrow>
        and_then (receive_channels (channel_kinds ts ads) transfers) (\<lambda>(channels, rest).
        and_then (receive_objects 1 rest) (\<lambda>(tracks_end, rest).
        and_then (receive_rings dec st False (video_position ts ads \<noteq> None) (map snd (audio_tracks ts ads)) rest) (\<lambda>(rings, rest).
          Ok \<lparr> co_admissions = ads, co_channels = channels, co_tracks_channel = hd tracks_end, co_rings = rings,
               co_tracks = \<lparr> tv_tracks = ts, tv_positions = length sel, tv_doorbell = (rs_doorbell rings \<noteq> None), tv_pending = [] \<rparr> \<rparr>))))"

end
