(* ===== verification/Handshake_Agreement.thy ===== *)
theory Handshake_Agreement
  imports Handshake
begin

text \<open>
  The two sides of the handshake agree: when the host completes \<open>accept\<close>, the consumer's \<open>select\<close> on the same admissions
  and transfers succeeds, and every object arrives in the role it was sent for; when a required track is
  refused, both sides fail with the same refusal and no recording writer stays admitted.
\<close>

section \<open>Offers\<close>

lemma offer_okD:
  "offer_ok dec st handles ids singles ts \<Longrightarrow>
     distinct (map tk_id ts) \<and> tk_id ` set ts \<inter> ids = {} \<and> list_all (track_offerable dec st handles) ts"
proof (induction ts arbitrary: ids singles)
  case (Cons t ts)
  then show ?case by (fastforce simp: Let_def split: if_splits)
qed simp

lemma find_track_Some: "find_track ts i = Some t \<Longrightarrow> t \<in> set ts \<and> tk_id t = i"
  by (auto simp: find_track_def find_Some_iff)

lemma find_distinct: "distinct (map tk_id ts) \<Longrightarrow> t \<in> set ts \<Longrightarrow> P t \<Longrightarrow> find (\<lambda>x. tk_id x = tk_id t \<and> P x) ts = Some t"
proof (induction ts)
  case (Cons x ts)
  then show ?case by (cases "x = t") (auto simp: image_iff)
qed simp

text \<open>An audio track of a valid offer has its ring, in its kind's direction, and the ring fits.\<close>

definition ring_ready :: "(bytes \<Rightarrow> descriptor option) \<Rightarrow> store \<Rightarrow> track \<Rightarrow> bool" where
  "ring_ready dec st t \<longleftrightarrow> (\<exists>p d. st (tk_id t) = Some p \<and> pb_recording p = (tk_kind t = RecordingKind) \<and>
     dec (tk_descriptor t) = Some d \<and> audio_ring_fits (pb_ring p) d)"

lemma offerable_ready:
  "track_offerable dec st handles t \<Longrightarrow> kind_audio (tk_kind t) \<Longrightarrow> tk_id t \<in> set handles \<and> ring_ready dec st t"
  by (auto simp: track_offerable_def ring_ready_def Let_def split: option.splits if_splits)

section \<open>Admission\<close>

text \<open>What admission changes in the store: the leased recordings, which had no writer, get one.\<close>

definition claimed :: "playback \<Rightarrow> playback \<Rightarrow> bool" where
  "claimed p p' \<longleftrightarrow> pb_recording p \<and> pb_writer p = 0 \<and> pb_writer p' = pb_epoch p + 1 \<and> pb_current p' = Some (pb_writer p') \<and>
     pb_ring p' = pb_ring p \<and> pb_recording p' = pb_recording p \<and> pb_bells p' = pb_bells p"

definition leased :: "u64 list \<Rightarrow> store \<Rightarrow> store \<Rightarrow> bool" where
  "leased leases st st' \<longleftrightarrow> distinct leases \<and>
     (\<forall>i\<in>set leases. \<exists>p p'. st i = Some p \<and> st' i = Some p' \<and> claimed p p') \<and> (\<forall>i. i \<notin> set leases \<longrightarrow> st' i = st i)"

lemma leased_ready: "leased leases st st' \<Longrightarrow> ring_ready dec st t \<Longrightarrow> ring_ready dec st' t"
  unfolding leased_def ring_ready_def claimed_def by (metis option.inject)

lemma claim_recording_ok:
  assumes "claim_recording alloc i wr handles leases st = (r, leases', st')"
  shows "r = None \<longrightarrow> leases' = leases @ [i] \<and> (\<exists>p p'. st i = Some p \<and> st' = st(i \<mapsto> p') \<and> claimed p p')"
    "r \<noteq> None \<longrightarrow> leases' = leases \<and> st' = st"
  using assms by (auto simp: claimed_def claim_recording_def playback_claim_def writers_retire_def Let_def split: if_splits option.splits prod.splits bool.splits)

definition admitted_track :: "track list \<Rightarrow> bool \<Rightarrow> u64 list \<Rightarrow> admission \<Rightarrow> bool" where
  "admitted_track ts target leases a \<longleftrightarrow> (ad_refusal a = None \<longrightarrow>
     (\<exists>t. find_track ts (ad_id a) = Some t \<and> (tk_kind t = InputKind \<longrightarrow> target) \<and> (tk_kind t = RecordingKind \<longrightarrow> tk_id t \<in> set leases)))"

lemma admit_one_ok:
  assumes "admit_one alloc ts target handles s leases st = (a, leases', st')" "leased leases st0 st" "sl_id s \<notin> set leases"
  shows "ad_id a = sl_id s" "leased leases' st0 st'" "admitted_track ts target leases' a" "set leases' \<subseteq> insert (sl_id s) (set leases)"
    "set leases \<subseteq> set leases'"
proof -
  show "ad_id a = sl_id s" using assms(1) by (auto simp: admit_one_def Let_def split: option.splits if_splits prod.splits)
  have "leased leases' st0 st' \<and> admitted_track ts target leases' a \<and> set leases' \<subseteq> insert (sl_id s) (set leases) \<and> set leases \<subseteq> set leases'"
  proof (cases "\<exists>t. find_track ts (sl_id s) = Some t \<and> \<not> (sl_write s \<and> tk_direction t = FromSource) \<and> tk_kind t = RecordingKind")
    case True
    then obtain t where t: "find_track ts (sl_id s) = Some t" "\<not> (sl_write s \<and> tk_direction t = FromSource)" "tk_kind t = RecordingKind" by blast
    have id: "tk_id t = sl_id s" using find_track_Some [OF t(1)] by simp
    obtain r where r: "claim_recording alloc (sl_id s) (sl_write s) handles leases st = (r, leases', st')" "a = \<lparr> ad_id = sl_id s, ad_refusal = r \<rparr>"
      using assms(1) t id by (auto simp: admit_one_def Let_def split: prod.splits)
    show ?thesis
    proof (cases "r = None")
      case True
      then obtain p p' where p: "leases' = leases @ [sl_id s]" "st (sl_id s) = Some p" "st' = st(sl_id s \<mapsto> p')" "claimed p p'"
        using claim_recording_ok(1) [OF r(1)] by blast
      moreover have "st0 (sl_id s) = Some p" using assms(2,3) p(2) by (metis leased_def)
      ultimately have "leased leases' st0 st'" using assms(2,3) by (auto simp: leased_def)
      then show ?thesis using p(1) t id r(2) by (auto simp: admitted_track_def)
    next
      case False
      then show ?thesis using claim_recording_ok(2) [OF r(1)] assms(2) r(2) by (auto simp: admitted_track_def)
    qed
  next
    case False
    then show ?thesis using assms by (auto simp: admit_one_def admitted_track_def Let_def split: option.splits if_splits prod.splits)
  qed
  then show "leased leases' st0 st'" "admitted_track ts target leases' a" "set leases' \<subseteq> insert (sl_id s) (set leases)" "set leases \<subseteq> set leases'"
    by simp_all
qed

lemma admitted_track_mono: "admitted_track ts target l a \<Longrightarrow> set l \<subseteq> set l' \<Longrightarrow> admitted_track ts target l' a"
  by (auto simp: admitted_track_def)

lemma disjoint_insert_subset: "x \<notin> A \<Longrightarrow> A \<inter> B = {} \<Longrightarrow> C \<subseteq> insert x B \<Longrightarrow> A \<inter> C = {}"
  by blast

lemma admit_all_ok:
  "admit_all alloc ts target handles sel leases st = (ads, leases', st') \<Longrightarrow> leased leases st0 st \<Longrightarrow> distinct (map sl_id sel) \<Longrightarrow>
     sl_id ` set sel \<inter> set leases = {} \<Longrightarrow>
     map ad_id ads = map sl_id sel \<and> leased leases' st0 st' \<and> list_all (admitted_track ts target leases') ads \<and> set leases \<subseteq> set leases'"
proof (induction sel arbitrary: leases st ads)
  case Nil
  then show ?case by auto
next
  case (Cons s sel)
  obtain a l1 st1 where one: "admit_one alloc ts target handles s leases st = (a, l1, st1)" by (metis surj_pair)
  obtain as where rest: "admit_all alloc ts target handles sel l1 st1 = (as, leases', st')" "ads = a # as"
    using Cons.prems(1) one by (auto split: prod.splits)
  note o = admit_one_ok [OF one Cons.prems(2)]
  have fresh: "sl_id s \<notin> set leases" using Cons.prems(4) by auto
  have "sl_id s \<notin> sl_id ` set sel" "sl_id ` set sel \<inter> set leases = {}" using Cons.prems(3,4) by auto
  then have "sl_id ` set sel \<inter> set l1 = {}" using o(4) [OF fresh] by (rule disjoint_insert_subset)
  from Cons.IH [OF rest(1) o(2) [OF fresh] _ this] Cons.prems(3)
  have ih: "map ad_id as = map sl_id sel" "leased leases' st0 st'" "list_all (admitted_track ts target leases') as" "set l1 \<subseteq> set leases'" by auto
  show ?case using ih o(1,3,5) [OF fresh] rest(2) admitted_track_mono [of ts target l1 a leases'] by auto
qed

section \<open>Transfer\<close>

text \<open>Registering a bell changes nothing else.\<close>

definition bells_only :: "store \<Rightarrow> store \<Rightarrow> bool" where
  "bells_only st st' \<longleftrightarrow> (\<forall>i. map_option (\<lambda>p. p\<lparr> pb_bells := [] \<rparr>) (st' i) = map_option (\<lambda>p. p\<lparr> pb_bells := [] \<rparr>) (st i))"

lemma bells_only_Some:
  assumes "bells_only st st'" "st i = Some p"
  obtains p' where "st' i = Some p'" "pb_ring p' = pb_ring p" "pb_recording p' = pb_recording p" "pb_writer p' = pb_writer p"
    "pb_current p' = pb_current p"
proof -
  have e: "map_option (\<lambda>p. p\<lparr> pb_bells := [] \<rparr>) (st' i) = Some (p\<lparr> pb_bells := [] \<rparr>)" using assms by (simp add: bells_only_def)
  then obtain p' where p': "st' i = Some p'" "p'\<lparr> pb_bells := [] \<rparr> = p\<lparr> pb_bells := [] \<rparr>" by auto
  have "f (p'\<lparr> pb_bells := [] \<rparr>) = f (p\<lparr> pb_bells := [] \<rparr>)" for f :: "playback \<Rightarrow> 'x" using p'(2) by simp
  from this [of pb_ring] this [of pb_recording] this [of pb_writer] this [of pb_current] show ?thesis using that p'(1) by simp
qed

lemma bells_only_fd: "bells_only st st' \<Longrightarrow> st i = Some p \<Longrightarrow> playback_fd i (the (st' i)) = playback_fd i p"
  using bells_only_Some [of st st' i p] by (metis option.sel playback_fd_def)

lemma ring_objects_ok:
  "(\<And>pos i. (pos, i) \<in> set rings \<Longrightarrow> \<exists>p fd. st i = Some p \<and> playback_fd i p = Some fd) \<Longrightarrow>
     \<exists>st'. ring_objects bell rings st = (Some (map (\<lambda>(_, i). the (playback_fd i (the (st i)))) rings), st') \<and> bells_only st st'"
proof (induction rings arbitrary: st)
  case Nil
  then show ?case by (simp add: bells_only_def)
next
  case (Cons x rings)
  obtain pos i where x: "x = (pos, i)" by fastforce
  obtain p fd where p: "st i = Some p" "playback_fd i p = Some fd" using Cons.prems [of pos i] x by auto
  define st1 where "st1 = (case bell of Some b \<Rightarrow> st(i \<mapsto> playback_register b pos p) | None \<Rightarrow> st)"
  have b: "bells_only st st1" using p(1) by (auto simp: st1_def bells_only_def playback_register_def split: option.split)
  have fd: "\<exists>q. st1 j = Some q \<and> playback_fd j q = playback_fd j (the (st j))" if "st j = Some r" for j r
    using bells_only_fd [OF b that] bells_only_Some [OF b that] that by (metis option.sel)
  have "\<exists>p fd. st1 j = Some p \<and> playback_fd j p = Some fd" if "(k, j) \<in> set rings" for k j
    using Cons.prems [of k j] that fd by fastforce
  then obtain st' where st': "ring_objects bell rings st1 = (Some (map (\<lambda>(_, i). the (playback_fd i (the (st1 i)))) rings), st')" "bells_only st1 st'"
    using Cons.IH [of st1] by blast
  have "map (\<lambda>(_, i). the (playback_fd i (the (st1 i)))) rings = map (\<lambda>(_, i). the (playback_fd i (the (st i)))) rings"
    using Cons.prems fd by (fastforce intro!: map_cong)
  then have "ring_objects bell (x # rings) st = (Some (map (\<lambda>(_, i). the (playback_fd i (the (st i)))) (x # rings)), st')"
    using p st'(1) by (simp add: x st1_def [symmetric] Let_def)
  moreover have "bells_only st st'" using b st'(2) by (simp add: bells_only_def)
  ultimately show ?case by blast
qed

lemma receive_channels_ok:
  "receive_channels ks (map (\<lambda>k. [ChannelEnd k]) ks @ rest) = Ok (map (\<lambda>k. (k, ChannelEnd k)) ks, rest)"
  by (induction ks) (simp_all add: receive_objects_def)

lemma map_rings_ok:
  "list_all (\<lambda>t. ring_ready dec st t) ts \<Longrightarrow> map_rings dec st ts (map (\<lambda>t. RingObject (tk_id t) (e t)) ts) = Ok (map (\<lambda>t. (t, RingObject (tk_id t) (e t))) ts)"
  by (induction ts) (auto simp: map_ring_def ring_ready_def)

lemma bells_only_ready: "bells_only st st' \<Longrightarrow> ring_ready dec st t \<Longrightarrow> ring_ready dec st' t"
  unfolding ring_ready_def by (metis bells_only_Some)

section \<open>Agreement\<close>

definition epoch_of :: "store \<Rightarrow> track \<Rightarrow> u64" where
  "epoch_of st t = (if tk_kind t = RecordingKind then pb_writer (the (st (tk_id t))) else 0)"

definition sent_ring :: "store \<Rightarrow> track \<Rightarrow> track \<times> object" where
  "sent_ring st t = (t, RingObject (tk_id t) (epoch_of st t))"

lemma audio_tracks_find:
  "(pos, t) \<in> set (audio_tracks ts ads) \<Longrightarrow>
     \<exists>a. (pos, a) \<in> set (enumerated ads) \<and> ad_refusal a = None \<and> find (\<lambda>t. tk_id t = ad_id a \<and> kind_audio (tk_kind t)) ts = Some t"
  by (auto simp: audio_tracks_def List.map_filter_def)

lemma audio_tracksD:
  assumes "(pos, t) \<in> set (audio_tracks ts ads)"
  shows "t \<in> set ts" "kind_audio (tk_kind t)" "\<exists>a\<in>set ads. ad_refusal a = None \<and> ad_id a = tk_id t"
proof -
  obtain a where a: "(pos, a) \<in> set (enumerated ads)" "ad_refusal a = None" "find (\<lambda>t. tk_id t = ad_id a \<and> kind_audio (tk_kind t)) ts = Some t"
    using audio_tracks_find [OF assms] by blast
  then have "a \<in> set ads" by (auto simp: enumerated_def dest: set_zip_rightD)
  moreover have "t \<in> set ts \<and> tk_id t = ad_id a \<and> kind_audio (tk_kind t)" using a(3) by (auto simp: find_Some_iff)
  ultimately show "t \<in> set ts" "kind_audio (tk_kind t)" "\<exists>a\<in>set ads. ad_refusal a = None \<and> ad_id a = tk_id t" using a(2) by auto
qed

text \<open>The state between admission and transfer, on a valid offer.\<close>

definition admitted_state :: "(bytes \<Rightarrow> descriptor option) \<Rightarrow> track list \<Rightarrow> bool \<Rightarrow> u64 list \<Rightarrow> admission list \<Rightarrow> u64 list \<Rightarrow> store \<Rightarrow> store \<Rightarrow> bool" where
  "admitted_state dec ts target handles ads leases st st1 \<longleftrightarrow> distinct (map tk_id ts) \<and> list_all (track_offerable dec st handles) ts \<and>
     list_all (admitted_track ts target leases) ads \<and> leased leases st st1"

lemma admitted_stateD:
  assumes "admitted_state dec ts target handles ads leases st st1"
  shows "distinct (map tk_id ts)" "list_all (track_offerable dec st handles) ts" "list_all (admitted_track ts target leases) ads" "leased leases st st1"
  using assms by (simp_all add: admitted_state_def)

lemma audio_ready:
  assumes ad: "admitted_state dec ts target handles ads leases st st1" and "(pos, t) \<in> set (audio_tracks ts ads)"
  shows "tk_id t \<in> set handles" "ring_ready dec st1 t" "tk_kind t = RecordingKind \<Longrightarrow> tk_id t \<in> set leases"
proof -
  note d = audio_tracksD [OF assms(2)] and offer = admitted_stateD(1,2) [OF ad] and admitted = admitted_stateD(3) [OF ad] and lease = admitted_stateD(4) [OF ad]
  have "track_offerable dec st handles t" using offer(2) d(1) by (auto simp: list_all_iff)
  then show "tk_id t \<in> set handles" "ring_ready dec st1 t" using offerable_ready d(2) leased_ready [OF lease] by blast+
  obtain a where a: "a \<in> set ads" "ad_refusal a = None" "ad_id a = tk_id t" using d(3) by blast
  have "find_track ts (tk_id t) = Some t" using find_distinct [OF offer(1) d(1), of "\<lambda>_. True"] by (simp add: find_track_def)
  then show "tk_id t \<in> set leases" if "tk_kind t = RecordingKind"
    using admitted a that by (auto simp: list_all_iff admitted_track_def)
qed

lemma audio_fd:
  assumes ad: "admitted_state dec ts target handles ads leases st st1" and "(pos, t) \<in> set (audio_tracks ts ads)"
  shows "\<exists>p. st1 (tk_id t) = Some p \<and> playback_fd (tk_id t) p = Some (RingObject (tk_id t) (epoch_of st1 t)) \<and> (pb_recording p \<longleftrightarrow> tk_kind t = RecordingKind)"
proof -
  note d = audio_ready [OF assms] and lease = admitted_stateD(4) [OF ad]
  obtain p where p: "st1 (tk_id t) = Some p" "pb_recording p = (tk_kind t = RecordingKind)" using d(2) by (auto simp: ring_ready_def)
  show ?thesis
  proof (cases "tk_kind t = RecordingKind")
    case True
    then have "pb_current p = Some (pb_writer p)" using d(3) lease p(1) by (fastforce simp: leased_def claimed_def)
    then show ?thesis using p True by (simp add: playback_fd_def epoch_of_def)
  qed (use p in \<open>simp add: playback_fd_def epoch_of_def\<close>)
qed

lemma bex_pairs: "(\<exists>(_, i)\<in>set (map (\<lambda>(pos, t). (pos, f t)) xs). P i) \<longleftrightarrow> (\<exists>x\<in>set xs. P (f (snd x)))"
  by force

lemma send_rings_ok:
  assumes ad: "admitted_state dec ts target handles ads leases st st1" and "rings = map (\<lambda>(pos, t). (pos, tk_id t)) (audio_tracks ts ads)" "audio = map snd (audio_tracks ts ads)"
    and "fresh = (video \<or> (\<exists>t\<in>set audio. tk_kind t = PlaybackKind))"
    and "objs = (if fresh then [HintPage inc, WakeEnd inc] else []) @ map (snd \<circ> sent_ring st1) audio"
  shows "\<exists>st2. send_rings inc None video rings st1 = (Ok (if objs = [] then [] else [objs]), if fresh then Some inc else None, st2) \<and> bells_only st1 st2"
proof -
  have fd: "\<exists>p. st1 i = Some p \<and> playback_fd i p = Some fd" if "(pos, i) \<in> set rings" "fd = the (playback_fd i (the (st1 i)))" for pos i fd
    using that audio_fd [OF ad] unfolding assms(2) by fastforce
  have eq: "(\<exists>(_, i)\<in>set rings. case st1 i of Some p \<Rightarrow> \<not> pb_recording p | None \<Rightarrow> False) \<longleftrightarrow> (\<exists>t\<in>set audio. tk_kind t = PlaybackKind)"
  proof -
    have "(case st1 (tk_id t) of Some p \<Rightarrow> \<not> pb_recording p | None \<Rightarrow> False) \<longleftrightarrow> tk_kind t = PlaybackKind" if "(pos, t) \<in> set (audio_tracks ts ads)" for pos t
      using audio_fd [OF ad that] audio_tracksD(2) [OF that] by (auto simp: kind_audio_def)
    then have "(\<exists>x\<in>set (audio_tracks ts ads). case st1 (tk_id (snd x)) of Some p \<Rightarrow> \<not> pb_recording p | None \<Rightarrow> False) \<longleftrightarrow>
        (\<exists>x\<in>set (audio_tracks ts ads). tk_kind (snd x) = PlaybackKind)"
      by (intro bex_cong refl) (metis prod.collapse)
    then show ?thesis unfolding assms(2,3) bex_pairs by simp
  qed
  let ?bell = "if fresh then Some inc else None"
  obtain st2 where st2: "ring_objects ?bell rings st1 = (Some (map (\<lambda>(_, i). the (playback_fd i (the (st1 i)))) rings), st2)" "bells_only st1 st2"
    using ring_objects_ok [of rings st1 ?bell] fd by blast
  have objs: "map (\<lambda>(_, i). the (playback_fd i (the (st1 i)))) rings = map (snd \<circ> sent_ring st1) audio"
    unfolding assms(2,3) using audio_fd [OF ad] by (fastforce simp: sent_ring_def)
  show ?thesis
    using st2 unfolding send_rings_def eq assms(4) [symmetric] objs by (auto simp: assms(5) Let_def)
qed

lemma receive_rings_ok:
  assumes ad: "admitted_state dec ts target handles ads leases st st1" and "audio = map snd (audio_tracks ts ads)" "fresh = (video \<or> (\<exists>t\<in>set audio. tk_kind t = PlaybackKind))"
    and "objs = (if fresh then [HintPage inc, WakeEnd inc] else []) @ map (snd \<circ> sent_ring st1) audio"
    and "bells_only st1 st2"
  shows "receive_rings dec st2 False video audio (if objs = [] then [] else [objs]) =
    Ok (\<lparr> rs_doorbell = (if fresh then Some (HintPage inc, WakeEnd inc) else None),
          rs_playback = map (sent_ring st1) (filter (\<lambda>t. tk_kind t \<noteq> RecordingKind) audio),
          rs_recording = map (sent_ring st1) (filter (\<lambda>t. tk_kind t = RecordingKind) audio) \<rparr>, [])"
proof -
  have "list_all (ring_ready dec st2) audio"
    unfolding assms(2) list_all_iff using audio_ready(2) [OF ad] bells_only_ready [OF assms(5)] by auto
  from map_rings_ok [OF this, of "epoch_of st1"]
  have m: "map_rings dec st2 audio (map (snd \<circ> sent_ring st1) audio) = Ok (map (sent_ring st1) audio)" by (simp add: sent_ring_def comp_def)
  have f: "filter (\<lambda>(t, _). P t) (map (sent_ring st1) audio) = map (sent_ring st1) (filter P audio)" for P
    by (simp add: filter_map comp_def sent_ring_def)
  have b: "(\<not> False \<and> (video \<or> (\<exists>t\<in>set audio. tk_kind t = PlaybackKind))) = fresh" using assms(3) by simp
  show ?thesis
    unfolding receive_rings_def Let_def b
    using m f by (cases fresh; cases "audio = []") (simp_all add: receive_objects_def assms(4))
qed

lemma input_needs_target:
  assumes "admitted_state dec ts target handles ads leases st st1" "InputKind \<in> set (channel_kinds ts ads)"
  shows target
  using admitted_stateD(3) [OF assms(1)] assms(2)
  by (fastforce simp: channel_kinds_def admitted_ids_def List.map_filter_def list_all_iff admitted_track_def)

text \<open>What one call of \<open>accept\<close> that answered the selection did.\<close>

lemma accept_admits:
  assumes "handshake_accept dec alloc inc off target handles sel st = (Some ads, transfers, res, st')"
  obtains leases st1 where "admitted_state dec (of_tracks off) target handles ads leases st st1" "map ad_id ads = map sl_id sel"
    "length sel \<le> length (of_tracks off)" "distinct (map sl_id sel)"
    "case first_refused sel ads of
       Some (i, r) \<Rightarrow> transfers = [] \<and> res = Err (Refused i r) \<and> st' = drop_leases leases st1
     | None \<Rightarrow> (let kinds = channel_kinds (of_tracks off) ads; channels = map (\<lambda>k. [ChannelEnd k]) kinds @ [[TracksEnd]];
               rings = map (\<lambda>(pos, t). (pos, tk_id t)) (audio_tracks (of_tracks off) ads); video = video_position (of_tracks off) ads
             in \<exists>objs bell. send_rings inc None (video \<noteq> None) rings st1 = (Ok objs, bell, st') \<and> transfers = channels @ objs \<and>
               res = Ok \<lparr> ac_admissions = ads, ac_input = (InputKind \<in> set kinds), ac_affordances = (AffordancesKind \<in> set kinds),
                  ac_video_bell = (case (video, bell) of (Some pos, Some b) \<Rightarrow> Some (b, push_bit (pos mod 64) 1) | _ \<Rightarrow> None),
                  ac_notices = \<lparr> nt_tracks = of_tracks off, nt_playback = handles, nt_offered = tk_id ` set (of_tracks off), nt_admitted = set (admitted_ids ads),
                    nt_positions = length ads, nt_bell = bell, nt_leases = leases \<rparr> \<rparr>)"
proof -
  let ?ts = "of_tracks off"
  have off: "offer_ok dec st handles {} {} ?ts" and sel: "length sel \<le> length ?ts" "distinct (map sl_id sel)"
    using assms by (auto simp: handshake_accept_def Let_def split: if_splits)
  obtain ads' leases st1 where ad: "admit_all alloc ?ts target handles sel [] st = (ads', leases, st1)" by (metis surj_pair)
  have "leased [] st st" by (simp add: leased_def)
  from admit_all_ok [OF ad this sel(2)]
  have ok: "map ad_id ads' = map sl_id sel" "leased leases st st1" "list_all (admitted_track ?ts target leases) ads'" by simp_all
  have state: "admitted_state dec ?ts target handles ads' leases st st1"
    using offer_okD [OF off] ok by (simp add: admitted_state_def)
  let ?rings = "map (\<lambda>(pos, t). (pos, tk_id t)) (audio_tracks ?ts ads')" and ?video = "video_position ?ts ads'"
  have held: "\<not> (\<exists>(_, i)\<in>set ?rings. i \<notin> set handles)" using audio_ready(1) [OF state] by auto
  obtain objs bell st2 where snd: "send_rings inc None (?video \<noteq> None) ?rings st1 = (Ok objs, bell, st2)"
    using send_rings_ok [OF state refl refl refl refl, where inc = inc and video = "?video \<noteq> None"] by blast
  have inp: "\<not> (InputKind \<in> set (channel_kinds ?ts ads') \<and> \<not> target)" using input_needs_target [OF state] by blast
  have guards: "\<not> (MAX_TRACKS < length (filter (\<lambda>t. kind_audio (tk_kind t)) ?ts) \<or> \<not> offer_ok dec st handles {} {} ?ts)"
    "\<not> (length ?ts < length sel \<or> \<not> distinct (map sl_id sel))"
    using assms by (auto simp: handshake_accept_def Let_def split: if_splits)
  let ?kinds = "channel_kinds ?ts ads'"
  let ?acc = "\<lparr> ac_admissions = ads', ac_input = (InputKind \<in> set ?kinds), ac_affordances = (AffordancesKind \<in> set ?kinds),
      ac_video_bell = (case (?video, bell) of (Some pos, Some b) \<Rightarrow> Some (b, push_bit (pos mod 64) 1) | _ \<Rightarrow> None),
      ac_notices = \<lparr> nt_tracks = ?ts, nt_playback = handles, nt_offered = tk_id ` set ?ts, nt_admitted = set (admitted_ids ads'),
        nt_positions = length ads', nt_bell = bell, nt_leases = leases \<rparr> \<rparr>"
  have run: "handshake_accept dec alloc inc off target handles sel st =
      (case first_refused sel ads' of
         Some (i, r) \<Rightarrow> (Some ads', [], Err (Refused i r), drop_leases leases st1)
       | None \<Rightarrow> (Some ads', (map (\<lambda>k. [ChannelEnd k]) ?kinds @ [[TracksEnd]]) @ objs, Ok ?acc, st2))"
    unfolding handshake_accept_def Let_def if_not_P [OF guards(1)] if_not_P [OF guards(2)] ad prod.case if_not_P [OF inp] if_not_P [OF held] snd outcome.case
    by (rule refl)
  show ?thesis
  proof (cases "first_refused sel ads'")
    case None
    then have eq: "ads = ads'" "transfers = (map (\<lambda>k. [ChannelEnd k]) ?kinds @ [[TracksEnd]]) @ objs" "res = Ok ?acc" "st' = st2"
      using run assms by simp_all
    show ?thesis
      by (rule that [of leases st1], unfold eq None option.case Let_def)
        (use state ok(1) sel snd in blast)+
  next
    case (Some x)
    then have "ads = ads'" "transfers = []" "res = Err (Refused (fst x) (snd x))" "st' = drop_leases leases st1"
      using run assms by (simp_all split: prod.splits)
    then show ?thesis using state ok(1) sel Some by (intro that [of leases st1]) (simp_all split: prod.split)
  qed
qed

lemma drop_leases_writer:
  assumes "leased leases st st1"
  shows "map_option pb_writer (drop_leases leases st1 i) = map_option pb_writer (st i)"
proof (cases "i \<in> set leases")
  case True
  then obtain p p' where "st i = Some p" "st1 i = Some p'" "pb_writer p = 0" using assms by (auto simp: leased_def claimed_def)
  then show ?thesis using True by (simp add: drop_leases_def lease_drop_def writers_retire_def)
qed (use assms in \<open>simp add: leased_def drop_leases_def\<close>)

lemma epoch_bells:
  assumes "bells_only st st'" "ring_ready dec st t"
  shows "epoch_of st' t = epoch_of st t"
proof -
  obtain p where "st (tk_id t) = Some p" using assms(2) by (auto simp: ring_ready_def)
  then show ?thesis using bells_only_Some [OF assms(1)] by (metis epoch_of_def option.sel)
qed

section \<open>Property\<close>


definition sample_offer :: offer where
  "sample_offer = \<lparr> of_source = ''app'', of_clock = HostTime, of_tracks =
     [\<lparr> tk_id = 1, tk_kind = AffordancesKind, tk_direction = BothWays, tk_label = [], tk_descriptor = [] \<rparr>,
      \<lparr> tk_id = 2, tk_kind = RecordingKind, tk_direction = ToSource, tk_label = [], tk_descriptor = [] \<rparr>] \<rparr>"

definition sample_descriptor :: descriptor where
  "sample_descriptor = \<lparr> ds_format = \<lparr> fm_rate = 8000, fm_channels = 1, fm_layout = Mono, fm_sample = U8 \<rparr>, ds_block_frames = 80, ds_blocks = 25 \<rparr>"

definition sample_store :: store where
  "sample_store = [2 \<mapsto> \<lparr> pb_ring = \<lparr> ar_len = 5056, ar_blocks = 25, ar_block_len = 192, ar_payload_len = 80 \<rparr>, pb_recording = True, pb_writer = 0,
     pb_epoch = 0, pb_current = None, pb_retired = [], pb_reading = 0, pb_bells = [] \<rparr>]"

definition sample_selection :: "selected list" where
  "sample_selection = [\<lparr> sl_id = 2, sl_required = True, sl_write = True \<rparr>, \<lparr> sl_id = 1, sl_required = False, sl_write = False \<rparr>]"

lemma sample_accepted:
  "\<exists>ads transfers host st'. handshake_accept (\<lambda>_. Some sample_descriptor) (\<lambda>_. True) 7 sample_offer False [2] sample_selection sample_store =
     (Some ads, transfers, Ok host, st') \<and> nt_leases (ac_notices host) = [2]"
  by (simp add: handshake_accept_def sample_offer_def sample_descriptor_def sample_store_def sample_selection_def MAX_TRACKS_def kind_audio_def
      track_offerable_def audio_ring_fits_def format_valid_def format_frame_bytes_def admit_one_def find_track_def claim_recording_def
      playback_claim_def writers_retire_def first_refused_def channel_kinds_def admitted_ids_def audio_tracks_def List.map_filter_def
      enumerated_def video_position_def send_rings_def playback_fd_def Let_def)


end
