(* ===== verification/Notices.thy ===== *)
theory Notices
  imports Handshake_Agreement
begin

text \<open>
  Tracks while attached (\<open>handshake/notices.rs\<close>): the host adds, updates and removes tracks and answers late selections; the consumer
  follows the notices.  The tracks channel delivers messages in order.  The consumer's view, once it has read what is
  on the way, is the host's.
\<close>

section \<open>The host\<close>

definition late :: "kind \<Rightarrow> bool" where
  "late k \<longleftrightarrow> k \<notin> {VideoKind, InputKind, AffordancesKind}"

primrec index_of :: "u64 \<Rightarrow> track list \<Rightarrow> nat option" where
  "index_of i [] = None"
| "index_of i (t # ts) = (if tk_id t = i then Some 0 else map_option Suc (index_of i ts))"

definition remove_nth :: "nat \<Rightarrow> 'a list \<Rightarrow> 'a list" where
  "remove_nth n xs = take n xs @ drop (Suc n) xs"

definition notices_find :: "u64 \<Rightarrow> notices \<Rightarrow> (nat, hs_error) outcome" where
  "notices_find i nt =
     (case index_of i (nt_tracks nt) of
        Some n \<Rightarrow> if late (tk_kind (nt_tracks nt ! n)) then Ok n else Err (Protocol ''unknown track'')
      | None \<Rightarrow> Err (Protocol ''unknown track''))"

text \<open>Each operation gives its result, the new state and the notices it sent.\<close>

definition notices_add :: "(bytes \<Rightarrow> descriptor option) \<Rightarrow> store \<Rightarrow> track \<Rightarrow> u64 option \<Rightarrow> notices \<Rightarrow> (unit, hs_error) outcome \<times> notices \<times> notice list" where
  "notices_add dec st t ring nt =
     (let rs = (case ring of Some r \<Rightarrow> [r] | None \<Rightarrow> []) in
      if \<not> late (tk_kind t) \<or> kind_audio (tk_kind t) = (rs = []) \<or> \<not> track_offerable dec st rs t \<or> tk_id t \<in> nt_offered nt
      then (Err (Protocol ''invalid track''), nt, [])
      else (Ok (), nt\<lparr> nt_offered := insert (tk_id t) (nt_offered nt), nt_playback := nt_playback nt @ rs, nt_tracks := nt_tracks nt @ [t] \<rparr>, [Added t]))"

definition notices_update :: "(bytes \<Rightarrow> descriptor option) \<Rightarrow> store \<Rightarrow> track \<Rightarrow> notices \<Rightarrow> (unit, hs_error) outcome \<times> notices \<times> notice list" where
  "notices_update dec st t nt =
     (case notices_find (tk_id t) nt of
        Ok n \<Rightarrow>
          if tk_kind (nt_tracks nt ! n) \<noteq> tk_kind t \<or> \<not> track_offerable dec st (nt_playback nt) t then (Err (Protocol ''invalid track''), nt, [])
          else (Ok (), nt\<lparr> nt_tracks := (nt_tracks nt)[n := t] \<rparr>, [Updated t])
      | Err e \<Rightarrow> (Err e, nt, [])
      | Panic \<Rightarrow> (Panic, nt, []))"

definition notices_remove :: "u64 \<Rightarrow> notices \<Rightarrow> store \<Rightarrow> (unit, hs_error) outcome \<times> notices \<times> store \<times> notice list" where
  "notices_remove i nt st =
     (case notices_find i nt of
        Ok n \<Rightarrow>
          (Ok (), nt\<lparr> nt_tracks := remove_nth n (nt_tracks nt), nt_playback := filter (\<lambda>p. p \<noteq> i) (nt_playback nt),
             nt_admitted := nt_admitted nt - {i}, nt_leases := filter (\<lambda>l. l \<noteq> i) (nt_leases nt) \<rparr>,
           drop_leases (filter (\<lambda>l. l = i) (nt_leases nt)) st, [Removed i])
      | Err e \<Rightarrow> (Err e, nt, st, [])
      | Panic \<Rightarrow> (Panic, nt, st, []))"

text \<open>\<open>serve\<close> on a received selection: the admission sent, and the transfers.\<close>

definition notices_serve :: "(u64 \<Rightarrow> bool) \<Rightarrow> nat \<Rightarrow> selected list \<Rightarrow> notices \<Rightarrow> store \<Rightarrow>
    (bool, hs_error) outcome \<times> admission option \<times> object list list \<times> notices \<times> store" where
  "notices_serve alloc inc sel nt st =
     (case sel of
        [s] \<Rightarrow>
          let i = sl_id s;
              (refusal, leases, st1) =
                (case find_track (nt_tracks nt) i of
                   None \<Rightarrow> (Some Unknown, nt_leases nt, st)
                 | Some t \<Rightarrow>
                   if sl_write s \<and> tk_direction t = FromSource then (Some NotWritable, nt_leases nt, st)
                   else if \<not> late (tk_kind t) \<or> i \<in> nt_admitted nt then (Some Unavailable, nt_leases nt, st)
                   else if tk_kind t = RecordingKind then claim_recording alloc i (sl_write s) (nt_playback nt) (nt_leases nt) st
                   else (None, nt_leases nt, st));
              position = nt_positions nt;
              nt1 = nt\<lparr> nt_positions := nt_positions nt + 1, nt_leases := leases \<rparr>;
              answer = \<lparr> ad_id = i, ad_refusal = refusal \<rparr> in
          if refusal \<noteq> None then (Ok True, Some answer, [], nt1, st1)
          else
            let nt2 = nt1\<lparr> nt_admitted := insert i (nt_admitted nt1) \<rparr>;
                rings = map (\<lambda>p. (position, p)) (filter (\<lambda>p. p = i) (nt_playback nt)) in
            (case send_rings inc (nt_bell nt) False rings st1 of
               (Ok objs, bell, st2) \<Rightarrow> (Ok True, Some answer, objs, nt2\<lparr> nt_bell := bell \<rparr>, st2)
             | (Err e, bell, st2) \<Rightarrow> (Err e, Some answer, [], nt2\<lparr> nt_bell := bell \<rparr>, st2)
             | (Panic, bell, st2) \<Rightarrow> (Panic, Some answer, [], nt2\<lparr> nt_bell := bell \<rparr>, st2))
      | _ \<Rightarrow> (Err (Protocol ''invalid selection''), None, [], nt, st))"

section \<open>The consumer\<close>

text \<open>What a notice does to a list of tracks, if it matches.\<close>

fun apply_notice :: "notice \<Rightarrow> track list \<Rightarrow> track list option" where
  "apply_notice (Added t) ts = (if index_of (tk_id t) ts = None then Some (ts @ [t]) else None)"
| "apply_notice (Updated t) ts = map_option (\<lambda>n. ts[n := t]) (index_of (tk_id t) ts)"
| "apply_notice (Removed i) ts = map_option (\<lambda>n. remove_nth n ts) (index_of i ts)"

definition tracks_apply :: "notice \<Rightarrow> tracks_view \<Rightarrow> (unit, hs_error) outcome \<times> tracks_view" where
  "tracks_apply n v =
     (case apply_notice n (tv_tracks v) of
        None \<Rightarrow> (Err (Protocol ''notice does not match the offer''), v)
      | Some ts \<Rightarrow> (Ok (), v\<lparr> tv_tracks := ts, tv_pending := tv_pending v @ [n] \<rparr>))"

text \<open>\<open>next\<close>, with the messages that have arrived.\<close>

definition tracks_next :: "tracks_view \<Rightarrow> notice list \<Rightarrow> (notice option, hs_error) outcome \<times> tracks_view \<times> notice list" where
  "tracks_next v queue =
     (let (r, v1, queue1) =
        (case (tv_pending v, queue) of
           ([], n # rest) \<Rightarrow> (case tracks_apply n v of (r, v1) \<Rightarrow> (r, v1, rest))
         | _ \<Rightarrow> (Ok (), v, queue))
      in case r of
           Ok _ \<Rightarrow> (case tv_pending v1 of [] \<Rightarrow> (Ok None, v1, queue1) | n # rest \<Rightarrow> (Ok (Some n), v1\<lparr> tv_pending := rest \<rparr>, queue1))
         | Err e \<Rightarrow> (Err e, v1, queue1)
         | Panic \<Rightarrow> (Panic, v1, queue1))"

fun tracks_drain :: "notice list \<Rightarrow> tracks_view \<Rightarrow> (unit, hs_error) outcome \<times> tracks_view" where
  "tracks_drain [] v = (Ok (), v)"
| "tracks_drain (n # ns) v = (case tracks_apply n v of (Ok _, v1) \<Rightarrow> tracks_drain ns v1 | (r, v1) \<Rightarrow> (r, v1))"

record late_answer =
  la_admission :: admission
  la_position :: nat
  la_rings :: rings

text \<open>\<open>select\<close>: the notices that arrive before the answer are applied and stay pending.\<close>

definition tracks_select :: "(bytes \<Rightarrow> descriptor option) \<Rightarrow> store \<Rightarrow> selected \<Rightarrow> notice list \<Rightarrow> admission list \<Rightarrow> object list list \<Rightarrow> tracks_view \<Rightarrow>
    (late_answer, hs_error) outcome \<times> tracks_view" where
  "tracks_select dec st s queue ads transfers v =
     (let position = tv_positions v; v = v\<lparr> tv_positions := tv_positions v + 1 \<rparr> in
      case tracks_drain queue v of
        (Err e, v) \<Rightarrow> (Err e, v)
      | (Panic, v) \<Rightarrow> (Panic, v)
      | (Ok _, v) \<Rightarrow>
        (case ads of
           [a] \<Rightarrow>
             if ad_id a \<noteq> sl_id s then (Err (Protocol ''admission does not answer the selection''), v)
             else
               let ts = filter (\<lambda>t. tk_id t = sl_id s \<and> kind_audio (tk_kind t) \<and> ad_refusal a = None) (tv_tracks v) in
               (case receive_rings dec st (tv_doorbell v) False ts transfers of
                  Ok (rings, rest) \<Rightarrow>
                    (Ok \<lparr> la_admission = a, la_position = position, la_rings = rings \<rparr>,
                     v\<lparr> tv_doorbell := (tv_doorbell v \<or> rs_doorbell rings \<noteq> None) \<rparr>)
                | Err e \<Rightarrow> (Err e, v)
                | Panic \<Rightarrow> (Panic, v))
         | _ \<Rightarrow> (Err (Protocol ''admission does not answer the selection''), v)))"

section \<open>An attached incarnation\<close>

record attached =
  at_host :: notices
  at_view :: tracks_view
  at_queue :: "notice list"
  at_store :: store
  at_answers :: "(track option \<times> admission \<times> (late_answer, hs_error) outcome) list"
  at_faults :: "hs_error list"

datatype attached_event =
    AddTrack track "u64 option"
  | UpdateTrack track
  | RemoveTrack u64
  | NextNotice
  | SelectLate selected
  | Elsewhere store

definition same_rings :: "store \<Rightarrow> store \<Rightarrow> bool" where
  "same_rings st st' \<longleftrightarrow> (\<forall>i. map_option (\<lambda>p. (pb_ring p, pb_recording p)) (st' i) = map_option (\<lambda>p. (pb_ring p, pb_recording p)) (st i))"

text \<open>A late selection is one step: the consumer writes it, the host serves it, the consumer reads up to the answer.  What the
  host does to the tracks in between is a step before it.  \<open>Elsewhere\<close> is what other incarnations and sources do to the rings, which keep
  their geometry and direction.\<close>

fun attached_step :: "(bytes \<Rightarrow> descriptor option) \<Rightarrow> (u64 \<Rightarrow> bool) \<Rightarrow> nat \<Rightarrow> attached_event \<Rightarrow> attached \<Rightarrow> attached" where
  "attached_step dec alloc inc (AddTrack t ring) a =
     (case notices_add dec (at_store a) t ring (at_host a) of (r, nt, ns) \<Rightarrow> a\<lparr> at_host := nt, at_queue := at_queue a @ ns \<rparr>)"
| "attached_step dec alloc inc (UpdateTrack t) a =
     (case notices_update dec (at_store a) t (at_host a) of (r, nt, ns) \<Rightarrow> a\<lparr> at_host := nt, at_queue := at_queue a @ ns \<rparr>)"
| "attached_step dec alloc inc (RemoveTrack i) a =
     (case notices_remove i (at_host a) (at_store a) of (r, nt, st, ns) \<Rightarrow> a\<lparr> at_host := nt, at_store := st, at_queue := at_queue a @ ns \<rparr>)"
| "attached_step dec alloc inc NextNotice a =
     (case tracks_next (at_view a) (at_queue a) of
        (r, v, queue) \<Rightarrow> a\<lparr> at_view := v, at_queue := queue, at_faults := (case r of Err e \<Rightarrow> at_faults a @ [e] | _ \<Rightarrow> at_faults a) \<rparr>)"
| "attached_step dec alloc inc (SelectLate s) a =
     (case notices_serve alloc inc [s] (at_host a) (at_store a) of
        (r, ans, transfers, nt, st) \<Rightarrow>
        (case tracks_select dec st s (at_queue a) (case ans of Some x \<Rightarrow> [x] | None \<Rightarrow> []) transfers (at_view a) of
           (r', v) \<Rightarrow>
             a\<lparr> at_host := nt, at_store := st, at_view := v, at_queue := [],
                at_answers := at_answers a @ (case ans of Some x \<Rightarrow> [(find_track (nt_tracks (at_host a)) (sl_id s), x, r')] | None \<Rightarrow> []),
                at_faults := at_faults a @ (case r of Err e \<Rightarrow> [e] | _ \<Rightarrow> []) @ (case r' of Err e \<Rightarrow> [e] | _ \<Rightarrow> []) \<rparr>))"
| "attached_step dec alloc inc (Elsewhere st) a = (if same_rings (at_store a) st then a\<lparr> at_store := st \<rparr> else a)"

inductive attached_reachable :: "(bytes \<Rightarrow> descriptor option) \<Rightarrow> (u64 \<Rightarrow> bool) \<Rightarrow> nat \<Rightarrow> attached \<Rightarrow> bool" for dec alloc inc where
  start: "handshake_accept dec alloc inc off target handles sel st = (Some ads, transfers, Ok host, st') \<Longrightarrow>
     handshake_select dec st' off sel ads transfers = Ok con \<Longrightarrow> distinct handles \<Longrightarrow>
     set handles = tk_id ` {t \<in> set (of_tracks off). kind_audio (tk_kind t)} \<Longrightarrow>
     attached_reachable dec alloc inc \<lparr> at_host = ac_notices host, at_view = co_tracks con, at_queue = [], at_store = st', at_answers = [], at_faults = [] \<rparr>"
| step: "attached_reachable dec alloc inc a \<Longrightarrow> attached_reachable dec alloc inc (attached_step dec alloc inc e a)"

section \<open>Lists of tracks\<close>

lemma index_of_None: "index_of i ts = None \<longleftrightarrow> i \<notin> tk_id ` set ts"
  by (induction ts) auto

lemma index_of_Some: "index_of i ts = Some n \<Longrightarrow> n < length ts \<and> tk_id (ts ! n) = i"
proof (induction ts arbitrary: n)
  case (Cons t ts)
  then show ?case by (cases n) (auto split: if_splits)
qed simp

lemma set_remove_nth: "distinct xs \<Longrightarrow> n < length xs \<Longrightarrow> set (remove_nth n xs) = set xs - {xs ! n} \<and> distinct (remove_nth n xs)"
proof -
  assume xs: "distinct xs" "n < length xs"
  have e: "xs = take n xs @ xs ! n # drop (Suc n) xs" using xs(2) by (rule id_take_nth_drop)
  have "distinct (take n xs @ xs ! n # drop (Suc n) xs)" using xs(1) e by simp
  moreover have "set xs = set (take n xs @ xs ! n # drop (Suc n) xs)" using e by simp
  ultimately show ?thesis unfolding remove_nth_def by auto
qed

lemma map_remove_nth: "map f (remove_nth n xs) = remove_nth n (map f xs)"
  by (simp add: remove_nth_def take_map drop_map)

lemma remove_track:
  assumes "distinct (map tk_id ts)" "index_of i ts = Some n"
  shows "distinct (map tk_id (remove_nth n ts))" "set (remove_nth n ts) = {t \<in> set ts. tk_id t \<noteq> i}"
proof -
  have n: "n < length ts" "tk_id (ts ! n) = i" using index_of_Some [OF assms(2)] by auto
  show "distinct (map tk_id (remove_nth n ts))" using set_remove_nth [OF assms(1), of n] n(1) by (simp add: map_remove_nth)
  have d: "distinct ts" using assms(1) by (simp add: distinct_map)
  have "tk_id t = i \<longleftrightarrow> t = ts ! n" if "t \<in> set ts" for t
    using that n assms(1) by (metis distinct_map inj_on_eq_iff nth_mem)
  then show "set (remove_nth n ts) = {t \<in> set ts. tk_id t \<noteq> i}" using set_remove_nth [OF d n(1)] by auto
qed

lemma update_track:
  assumes "distinct (map tk_id ts)" "index_of (tk_id t) ts = Some n"
  shows "map tk_id (ts[n := t]) = map tk_id ts" "set (ts[n := t]) = insert t {x \<in> set ts. tk_id x \<noteq> tk_id t}"
proof -
  have n: "n < length ts" "tk_id (ts ! n) = tk_id t" using index_of_Some [OF assms(2)] by auto
  show "map tk_id (ts[n := t]) = map tk_id ts" using n by (simp add: map_update list_update_same_conv)
  have d: "distinct ts" using assms(1) by (simp add: distinct_map)
  have "tk_id x = tk_id t \<longleftrightarrow> x = ts ! n" if "x \<in> set ts" for x
    using that n assms(1) by (metis distinct_map inj_on_eq_iff nth_mem)
  then show "set (ts[n := t]) = insert t {x \<in> set ts. tk_id x \<noteq> tk_id t}" using set_update_distinct [OF d n(1), of t] by auto
qed

lemma filter_track:
  assumes "distinct (map tk_id ts)"
  shows "filter (\<lambda>t. tk_id t = i \<and> P t) ts = (case find_track ts i of Some t \<Rightarrow> if P t then [t] else [] | None \<Rightarrow> [])"
  using assms
proof (induction ts)
  case (Cons t ts)
  have "tk_id t \<notin> tk_id ` set ts" using Cons.prems by simp
  then have "filter (\<lambda>x. tk_id x = tk_id t \<and> P x) ts = []" unfolding filter_empty_conv by (metis image_eqI)
  then show ?case using Cons by (auto simp: find_track_def)
qed (simp add: find_track_def)

primrec apply_all :: "notice list \<Rightarrow> track list \<Rightarrow> track list option" where
  "apply_all [] ts = Some ts"
| "apply_all (n # ns) ts = Option.bind (apply_notice n ts) (apply_all ns)"

lemma apply_all_append: "apply_all (ns @ ms) ts = Option.bind (apply_all ns ts) (apply_all ms)"
  by (induction ns arbitrary: ts) (auto split: Option.bind_split)

lemma tracks_drain_ok:
  "apply_all ns (tv_tracks v) = Some ts \<Longrightarrow> tracks_drain ns v = (Ok (), v\<lparr> tv_tracks := ts, tv_pending := tv_pending v @ ns \<rparr>)"
proof (induction ns arbitrary: v)
  case (Cons n ns)
  then obtain ts1 where ts1: "apply_notice n (tv_tracks v) = Some ts1" "apply_all ns ts1 = Some ts" by (auto split: Option.bind_splits)
  then show ?case using Cons.IH [of "v\<lparr> tv_tracks := ts1, tv_pending := tv_pending v @ [n] \<rparr>"] by (simp add: tracks_apply_def)
qed simp

section \<open>Invariant\<close>

definition host_ok :: "(bytes \<Rightarrow> descriptor option) \<Rightarrow> store \<Rightarrow> notices \<Rightarrow> bool" where
  "host_ok dec st nt \<longleftrightarrow> distinct (map tk_id (nt_tracks nt)) \<and> tk_id ` set (nt_tracks nt) \<subseteq> nt_offered nt \<and>
     (\<forall>t\<in>set (nt_tracks nt). track_offerable dec st (nt_playback nt) t) \<and> distinct (nt_playback nt) \<and>
     set (nt_playback nt) = tk_id ` {t \<in> set (nt_tracks nt). kind_audio (tk_kind t)}"

definition answer_ok :: "track option \<Rightarrow> admission \<Rightarrow> (late_answer, hs_error) outcome \<Rightarrow> bool" where
  "answer_ok ot x r \<longleftrightarrow> (\<exists>la. r = Ok la \<and> la_admission la = x \<and>
     (case (ad_refusal x, ot) of
        (None, Some t) \<Rightarrow> tk_id t = ad_id x \<and>
          (if kind_audio (tk_kind t) then \<exists>e. rs_playback (la_rings la) @ rs_recording (la_rings la) = [(t, RingObject (tk_id t) e)]
           else rs_playback (la_rings la) @ rs_recording (la_rings la) = [])
      | (None, None) \<Rightarrow> False
      | (Some _, _) \<Rightarrow> rs_playback (la_rings la) @ rs_recording (la_rings la) = []))"

definition attached_inv :: "(bytes \<Rightarrow> descriptor option) \<Rightarrow> attached \<Rightarrow> bool" where
  "attached_inv dec a \<longleftrightarrow> host_ok dec (at_store a) (at_host a) \<and>
     apply_all (at_queue a) (tv_tracks (at_view a)) = Some (nt_tracks (at_host a)) \<and>
     tv_positions (at_view a) = nt_positions (at_host a) \<and> (tv_doorbell (at_view a) \<longleftrightarrow> nt_bell (at_host a) \<noteq> None) \<and>
     at_faults a = [] \<and> (\<forall>(ot, x, r)\<in>set (at_answers a). answer_ok ot x r)"

text \<open>Whether a track may be offered depends on the geometry and direction of its own ring only.\<close>

lemma offerable_cong:
  assumes "same_rings st st'" "tk_id t \<in> set handles \<longleftrightarrow> tk_id t \<in> set handles'"
  shows "track_offerable dec st' handles' t = track_offerable dec st handles t"
proof -
  have "map_option (\<lambda>p. (pb_ring p, pb_recording p)) (st' (tk_id t)) = map_option (\<lambda>p. (pb_ring p, pb_recording p)) (st (tk_id t))"
    using assms(1) by (simp add: same_rings_def)
  then show ?thesis using assms(2) by (cases "st (tk_id t)"; cases "st' (tk_id t)") (simp_all add: track_offerable_def Let_def split: option.split)
qed

lemma same_rings_refl [simp]: "same_rings st st"
  by (simp add: same_rings_def)

lemma host_ok_store: "same_rings st st' \<Longrightarrow> host_ok dec st nt \<Longrightarrow> host_ok dec st' nt"
  using offerable_cong [of st st' _ "nt_playback nt" "nt_playback nt" dec] by (simp add: host_ok_def)

section \<open>Changes by the host\<close>

lemma offerable_audio_handle: "track_offerable dec st handles t \<Longrightarrow> kind_audio (tk_kind t) \<Longrightarrow> tk_id t \<in> set handles"
  using offerable_ready by blast

lemma offerable_more:
  assumes "track_offerable dec st handles t" "set handles \<subseteq> set handles'"
  shows "track_offerable dec st handles' t"
  using assms by (auto simp: track_offerable_def Let_def split: option.splits)

lemma add_ok:
  assumes h: "host_ok dec st nt" and r: "notices_add dec st t ring nt = (r, nt', ns)"
  shows "host_ok dec st nt'" "apply_all ns (nt_tracks nt) = Some (nt_tracks nt')" "nt_positions nt' = nt_positions nt" "nt_bell nt' = nt_bell nt"
proof -
  let ?rs = "case ring of Some r \<Rightarrow> [r] | None \<Rightarrow> []"
  have "host_ok dec st nt' \<and> apply_all ns (nt_tracks nt) = Some (nt_tracks nt') \<and> nt_positions nt' = nt_positions nt \<and> nt_bell nt' = nt_bell nt"
  proof (cases "r = Ok ()")
    case True
    then have g: "kind_audio (tk_kind t) \<longleftrightarrow> ?rs \<noteq> []" "track_offerable dec st ?rs t" "tk_id t \<notin> nt_offered nt"
      and e: "nt' = nt\<lparr> nt_offered := insert (tk_id t) (nt_offered nt), nt_playback := nt_playback nt @ ?rs, nt_tracks := nt_tracks nt @ [t] \<rparr>" "ns = [Added t]"
      using r by (auto simp: notices_add_def Let_def split: if_splits)
    have fresh: "tk_id t \<notin> tk_id ` set (nt_tracks nt)" using h g(3) by (auto simp: host_ok_def)
    have rs: "?rs = (if kind_audio (tk_kind t) then [tk_id t] else [])"
      using g(1) offerable_audio_handle [OF g(2)] by (auto split: option.splits)
    have nf: "tk_id t \<notin> set (nt_playback nt)" using h fresh by (auto simp: host_ok_def)
    have "\<forall>x\<in>set (nt_tracks nt'). track_offerable dec st (nt_playback nt') x"
      using h g(2) offerable_more by (fastforce simp: host_ok_def e)
    then have "host_ok dec st nt'" using h fresh nf unfolding host_ok_def e(1) rs by auto
    moreover have "index_of (tk_id t) (nt_tracks nt) = None" using fresh index_of_None by blast
    ultimately show ?thesis using e by simp
  next
    case False
    then have "nt' = nt" "ns = []" using r by (auto simp: notices_add_def Let_def split: if_splits)
    then show ?thesis using h by simp
  qed
  then show "host_ok dec st nt'" "apply_all ns (nt_tracks nt) = Some (nt_tracks nt')" "nt_positions nt' = nt_positions nt" "nt_bell nt' = nt_bell nt" by auto
qed

lemma find_cases:
  obtains (found) n where "notices_find i nt = Ok n" "index_of i (nt_tracks nt) = Some n"
  | (unknown) "notices_find i nt = Err (Protocol ''unknown track'')"
proof (cases "index_of i (nt_tracks nt)")
  case None
  then show ?thesis by (intro unknown) (simp add: notices_find_def)
next
  case (Some n)
  then show ?thesis using found [of n] unknown by (cases "late (tk_kind (nt_tracks nt ! n))") (simp_all add: notices_find_def)
qed

lemma update_ok:
  assumes h: "host_ok dec st nt" and r: "notices_update dec st t nt = (r, nt', ns)"
  shows "host_ok dec st nt' \<and> apply_all ns (nt_tracks nt) = Some (nt_tracks nt') \<and> nt_positions nt' = nt_positions nt \<and> nt_bell nt' = nt_bell nt"
proof (cases rule: find_cases [of "tk_id t" nt])
  case (found n)
  show ?thesis
  proof (cases "r = Ok ()")
    case True
    then have g: "tk_kind (nt_tracks nt ! n) = tk_kind t" "track_offerable dec st (nt_playback nt) t"
      and e: "nt' = nt\<lparr> nt_tracks := (nt_tracks nt)[n := t] \<rparr>" "ns = [Updated t]"
      using r found(1) by (auto simp: notices_update_def split: if_splits)
    have d: "distinct (map tk_id (nt_tracks nt))" using h by (simp add: host_ok_def)
    note u = update_track [OF d found(2)]
    have n: "n < length (nt_tracks nt)" "tk_id (nt_tracks nt ! n) = tk_id t" using index_of_Some [OF found(2)] by auto
    have ids: "tk_id ` set ((nt_tracks nt)[n := t]) = tk_id ` set (nt_tracks nt)" using arg_cong [OF u(1), of set] by simp
    have same: "tk_id ` {x \<in> set ((nt_tracks nt)[n := t]). kind_audio (tk_kind x)} = tk_id ` {x \<in> set (nt_tracks nt). kind_audio (tk_kind x)}"
    proof -
      have "map (\<lambda>x. (tk_id x, tk_kind x)) ((nt_tracks nt)[n := t]) = map (\<lambda>x. (tk_id x, tk_kind x)) (nt_tracks nt)"
        using n g(1) by (simp add: map_update list_update_same_conv)
      from arg_cong [OF this, of set]
      have "(\<lambda>x. (tk_id x, tk_kind x)) ` set ((nt_tracks nt)[n := t]) = (\<lambda>x. (tk_id x, tk_kind x)) ` set (nt_tracks nt)" by (simp only: set_map)
      moreover have "tk_id ` {x \<in> S. kind_audio (tk_kind x)} = fst ` {y \<in> (\<lambda>x. (tk_id x, tk_kind x)) ` S. kind_audio (snd y)}" for S :: "track set"
      proof -
        have "{y \<in> (\<lambda>x. (tk_id x, tk_kind x)) ` S. kind_audio (snd y)} = (\<lambda>x. (tk_id x, tk_kind x)) ` {x \<in> S. kind_audio (tk_kind x)}" by auto
        then show ?thesis by (simp add: image_image)
      qed
      ultimately show ?thesis by (simp only:)
    qed
    have "host_ok dec st nt'" using h g(2) ids same u by (auto simp: host_ok_def e)
    then show ?thesis using e found(2) by simp
  next
    case False
    then show ?thesis using r found h by (auto simp: notices_update_def split: if_splits)
  qed
next
  case unknown
  then show ?thesis using r h by (simp add: notices_update_def)
qed

lemma drop_leases_rings: "same_rings st (drop_leases l st)"
proof -
  have "(pb_ring (lease_drop p), pb_recording (lease_drop p)) = (pb_ring p, pb_recording p)" for p
    by (simp add: lease_drop_def writers_retire_def)
  then show ?thesis by (simp add: same_rings_def drop_leases_def option.map_comp comp_def)
qed

lemma remove_ok:
  assumes h: "host_ok dec st nt" and r: "notices_remove i nt st = (r, nt', st', ns)"
  shows "host_ok dec st' nt' \<and> apply_all ns (nt_tracks nt) = Some (nt_tracks nt') \<and> nt_positions nt' = nt_positions nt \<and> nt_bell nt' = nt_bell nt"
proof (cases rule: find_cases [of i nt])
  case (found n)
  have e: "nt_tracks nt' = remove_nth n (nt_tracks nt)" "nt_playback nt' = filter (\<lambda>p. p \<noteq> i) (nt_playback nt)" "nt_offered nt' = nt_offered nt" "ns = [Removed i]"
    "nt_positions nt' = nt_positions nt" "nt_bell nt' = nt_bell nt" "st' = drop_leases (filter (\<lambda>l. l = i) (nt_leases nt)) st"
    using r found(1) by (auto simp: notices_remove_def)
  have d: "distinct (map tk_id (nt_tracks nt))" using h by (simp add: host_ok_def)
  note u = remove_track [OF d found(2)]
  have off: "track_offerable dec st' (nt_playback nt') t" if "t \<in> set (nt_tracks nt')" for t
  proof -
    have "t \<in> set (nt_tracks nt)" "tk_id t \<noteq> i" using that u(2) e(1) by auto
    then have "track_offerable dec st (nt_playback nt) t" using h by (simp add: host_ok_def)
    then show ?thesis
      using offerable_cong [OF drop_leases_rings, of t "nt_playback nt" "nt_playback nt'"] \<open>tk_id t \<noteq> i\<close> e(2,7) by simp
  qed
  have "host_ok dec st' nt'" using h u off by (auto simp: host_ok_def e(1-3))
  then show ?thesis using e found(2) by simp
next
  case unknown
  then show ?thesis using r h by (simp add: notices_remove_def)
qed

section \<open>Late selection\<close>

lemma bells_only_rings: "bells_only st st' \<Longrightarrow> same_rings st st'"
proof -
  assume b: "bells_only st st'"
  have "map_option (\<lambda>p. (pb_ring p, pb_recording p)) (map_option (\<lambda>p. p\<lparr> pb_bells := [] \<rparr>) x) = map_option (\<lambda>p. (pb_ring p, pb_recording p)) x" for x
    by (cases x) simp_all
  then show ?thesis using b unfolding bells_only_def same_rings_def by metis
qed

lemma same_rings_trans: "same_rings st st' \<Longrightarrow> same_rings st' st'' \<Longrightarrow> same_rings st st''"
  by (simp add: same_rings_def)

lemma claim_rings: "claim_recording alloc i wr handles leases st = (r, leases', st') \<Longrightarrow> same_rings st st'"
  using claim_recording_ok [of alloc i wr handles leases st r leases' st']
  by (cases "r = None") (auto simp: same_rings_def claimed_def)

lemma receive_nothing: "receive_rings dec st doorbell False [] transfers = Ok (\<lparr> rs_doorbell = None, rs_playback = [], rs_recording = [] \<rparr>, transfers)"
  by (simp add: receive_rings_def)

text \<open>One ring, as the host passes it and the consumer takes it.\<close>

lemma pass_ring:
  assumes p: "st (tk_id t) = Some p" "playback_fd (tk_id t) p = Some (RingObject (tk_id t) e)" "pb_recording p \<longleftrightarrow> tk_kind t = RecordingKind"
    and t: "kind_audio (tk_kind t)" "ring_ready dec st t"
  shows "\<exists>st' objs rings. send_rings inc bell False [(pos, tk_id t)] st = (Ok [objs], if bell = None \<and> tk_kind t = PlaybackKind then Some inc else bell, st') \<and>
    same_rings st st' \<and> receive_rings dec st' (bell \<noteq> None) False [t] [objs] = Ok (rings, []) \<and>
    (rs_doorbell rings \<noteq> None \<longleftrightarrow> bell = None \<and> tk_kind t = PlaybackKind) \<and> rs_playback rings @ rs_recording rings = [(t, RingObject (tk_id t) e)]"
proof -
  let ?fresh = "bell = None \<and> tk_kind t = PlaybackKind"
  let ?bell = "if ?fresh then Some inc else bell"
  let ?objs = "(if ?fresh then [HintPage inc, WakeEnd inc] else []) @ [RingObject (tk_id t) e]"
  have rec: "\<not> pb_recording p \<longleftrightarrow> tk_kind t = PlaybackKind" using p(3) t(1) by (auto simp: kind_audio_def)
  obtain st' where st': "ring_objects ?bell [(pos, tk_id t)] st = (Some [RingObject (tk_id t) e], st')" "bells_only st st'"
    using ring_objects_ok [of "[(pos, tk_id t)]" st ?bell] p(1,2) by auto
  have s: "send_rings inc bell False [(pos, tk_id t)] st = (Ok [?objs], ?bell, st')"
  proof -
    have "(bell = None \<and> (False \<or> (\<exists>(_, i)\<in>set [(pos, tk_id t)]. case st i of Some p \<Rightarrow> \<not> pb_recording p | None \<Rightarrow> False))) = ?fresh"
      using p(1) rec by simp
    then show ?thesis using st'(1) unfolding send_rings_def Let_def by (simp only: prod.case option.case) simp
  qed
  have "ring_ready dec st' t" by (rule bells_only_ready [OF st'(2) t(2)])
  then have m: "map_ring dec st' t (RingObject (tk_id t) e) = Ok (t, RingObject (tk_id t) e)" by (auto simp: map_ring_def ring_ready_def)
  let ?rings = "\<lparr> rs_doorbell = (if ?fresh then Some (HintPage inc, WakeEnd inc) else None),
      rs_playback = (if tk_kind t = RecordingKind then [] else [(t, RingObject (tk_id t) e)]),
      rs_recording = (if tk_kind t = RecordingKind then [(t, RingObject (tk_id t) e)] else []) \<rparr>"
  have "receive_rings dec st' (bell \<noteq> None) False [t] [?objs] = Ok (?rings, [])"
    using m by (cases ?fresh) (simp_all add: receive_rings_def receive_objects_def Let_def)
  then show ?thesis using s bells_only_rings [OF st'(2)] by (intro exI [of _ st'] exI [of _ ?objs] exI [of _ ?rings]) simp
qed

definition serve_decides :: "(u64 \<Rightarrow> bool) \<Rightarrow> selected \<Rightarrow> notices \<Rightarrow> store \<Rightarrow> refusal option \<times> u64 list \<times> store" where
  "serve_decides alloc s nt st =
     (case find_track (nt_tracks nt) (sl_id s) of
        None \<Rightarrow> (Some Unknown, nt_leases nt, st)
      | Some t \<Rightarrow>
        if sl_write s \<and> tk_direction t = FromSource then (Some NotWritable, nt_leases nt, st)
        else if \<not> late (tk_kind t) \<or> sl_id s \<in> nt_admitted nt then (Some Unavailable, nt_leases nt, st)
        else if tk_kind t = RecordingKind then claim_recording alloc (sl_id s) (sl_write s) (nt_playback nt) (nt_leases nt) st
        else (None, nt_leases nt, st))"

lemma serve_decides_ok:
  assumes "serve_decides alloc s nt st = (refusal, leases, st1)"
  shows "same_rings st st1"
    "refusal = None \<Longrightarrow> \<exists>t. find_track (nt_tracks nt) (sl_id s) = Some t \<and>
       (tk_kind t = RecordingKind \<longrightarrow> (\<exists>p. st1 (sl_id s) = Some p \<and> pb_current p = Some (pb_writer p)))"
proof -
  show "same_rings st st1"
    using assms claim_rings by (auto simp: serve_decides_def split: option.splits if_splits)
  show "\<exists>t. find_track (nt_tracks nt) (sl_id s) = Some t \<and>
       (tk_kind t = RecordingKind \<longrightarrow> (\<exists>p. st1 (sl_id s) = Some p \<and> pb_current p = Some (pb_writer p)))" if none: "refusal = None"
  proof -
    obtain t where t: "find_track (nt_tracks nt) (sl_id s) = Some t" using assms none by (auto simp: serve_decides_def split: option.splits)
    have "\<exists>p. st1 (sl_id s) = Some p \<and> pb_current p = Some (pb_writer p)" if "tk_kind t = RecordingKind"
    proof -
      have "claim_recording alloc (sl_id s) (sl_write s) (nt_playback nt) (nt_leases nt) st = (None, leases, st1)"
        using assms t that none by (auto simp: serve_decides_def split: if_splits)
      from claim_recording_ok(1) [OF this] show ?thesis by (auto simp: claimed_def)
    qed
    then show ?thesis using t by blast
  qed
qed

lemma serve_unfold:
  "notices_serve alloc inc [s] nt st =
     (case serve_decides alloc s nt st of
        (refusal, leases, st1) \<Rightarrow>
        let nt1 = nt\<lparr> nt_positions := nt_positions nt + 1, nt_leases := leases \<rparr>; answer = \<lparr> ad_id = sl_id s, ad_refusal = refusal \<rparr> in
        if refusal \<noteq> None then (Ok True, Some answer, [], nt1, st1)
        else
          let nt2 = nt1\<lparr> nt_admitted := insert (sl_id s) (nt_admitted nt1) \<rparr> in
          (case send_rings inc (nt_bell nt) False (map (\<lambda>p. (nt_positions nt, p)) (filter (\<lambda>p. p = sl_id s) (nt_playback nt))) st1 of
             (Ok objs, bell, st2) \<Rightarrow> (Ok True, Some answer, objs, nt2\<lparr> nt_bell := bell \<rparr>, st2)
           | (Err e, bell, st2) \<Rightarrow> (Err e, Some answer, [], nt2\<lparr> nt_bell := bell \<rparr>, st2)
           | (Panic, bell, st2) \<Rightarrow> (Panic, Some answer, [], nt2\<lparr> nt_bell := bell \<rparr>, st2)))"
  unfolding notices_serve_def list.case Let_def serve_decides_def by (rule refl)

lemma filter_one: "distinct xs \<Longrightarrow> filter (\<lambda>p. p = i) xs = (if i \<in> set xs then [i] else [])"
  by (induction xs) (auto simp: filter_empty_conv)

text \<open>An answer of the host, as the consumer takes it: it succeeds, and an admitted audio track comes with its ring.\<close>

definition answered :: "(bytes \<Rightarrow> descriptor option) \<Rightarrow> selected \<Rightarrow> notices \<Rightarrow> store \<Rightarrow>
    (bool, hs_error) outcome \<times> admission option \<times> object list list \<times> notices \<times> store \<Rightarrow> bool" where
  "answered dec s nt st out \<longleftrightarrow> (\<exists>x transfers nt' st' rings. out = (Ok True, Some x, transfers, nt', st') \<and> ad_id x = sl_id s \<and> same_rings st st' \<and>
     nt_tracks nt' = nt_tracks nt \<and> nt_playback nt' = nt_playback nt \<and> nt_offered nt' = nt_offered nt \<and> nt_positions nt' = nt_positions nt + 1 \<and>
     receive_rings dec st' (nt_bell nt \<noteq> None) False
       (filter (\<lambda>t. tk_id t = sl_id s \<and> kind_audio (tk_kind t) \<and> ad_refusal x = None) (nt_tracks nt)) transfers = Ok (rings, []) \<and>
     (nt_bell nt' \<noteq> None \<longleftrightarrow> nt_bell nt \<noteq> None \<or> rs_doorbell rings \<noteq> None) \<and>
     (\<forall>la. la_admission la = x \<and> la_rings la = rings \<longrightarrow> answer_ok (find_track (nt_tracks nt) (sl_id s)) x (Ok la)))"

lemma serve_ok:
  assumes h: "host_ok dec st nt"
  shows "answered dec s nt st (notices_serve alloc inc [s] nt st)"
proof -
  obtain refusal leases st1 where d: "serve_decides alloc s nt st = (refusal, leases, st1)" by (metis surj_pair)
  note sd = serve_decides_ok [OF d]
  have dist: "distinct (map tk_id (nt_tracks nt))" "distinct (nt_playback nt)" using h by (simp_all add: host_ok_def)
  note ft = filter_track [OF dist(1), of "sl_id s"]
  show ?thesis
  proof (cases refusal)
    case (Some r)
    then have "notices_serve alloc inc [s] nt st = (Ok True, Some \<lparr> ad_id = sl_id s, ad_refusal = refusal \<rparr>, [],
        nt\<lparr> nt_positions := nt_positions nt + 1, nt_leases := leases \<rparr>, st1)"
      unfolding serve_unfold d by simp
    then show ?thesis using sd(1) Some by (simp add: answered_def receive_nothing answer_ok_def)
  next
    case None
    obtain t where t: "find_track (nt_tracks nt) (sl_id s) = Some t"
      "tk_kind t = RecordingKind \<Longrightarrow> \<exists>p. st1 (sl_id s) = Some p \<and> pb_current p = Some (pb_writer p)" using sd(2) [OF None] by blast
    have id: "t \<in> set (nt_tracks nt)" "tk_id t = sl_id s" using find_track_Some [OF t(1)] by auto
    have off: "track_offerable dec st1 (nt_playback nt) t" using host_ok_store [OF sd(1) h] id(1) by (simp add: host_ok_def)
    have held: "sl_id s \<in> set (nt_playback nt) \<longleftrightarrow> kind_audio (tk_kind t)"
    proof
      assume "sl_id s \<in> set (nt_playback nt)"
      then obtain t' where t': "t' \<in> set (nt_tracks nt)" "kind_audio (tk_kind t')" "tk_id t' = sl_id s" using h by (auto simp: host_ok_def)
      have "t' = t" using t' id dist(1) by (metis distinct_map inj_on_eq_iff)
      then show "kind_audio (tk_kind t)" using t'(2) by simp
    qed (use offerable_audio_handle [OF off] id in simp)
    let ?x = "\<lparr> ad_id = sl_id s, ad_refusal = refusal \<rparr>"
    show ?thesis
    proof (cases "kind_audio (tk_kind t)")
      case False
      then have r: "filter (\<lambda>p. p = sl_id s) (nt_playback nt) = []" using held filter_one [OF dist(2)] by simp
      have "send_rings inc (nt_bell nt) False [] st1 = (Ok [], nt_bell nt, st1)" by (simp add: send_rings_def)
      then have "notices_serve alloc inc [s] nt st = (Ok True, Some ?x, [],
          nt\<lparr> nt_positions := nt_positions nt + 1, nt_leases := leases, nt_admitted := insert (sl_id s) (nt_admitted nt), nt_bell := nt_bell nt \<rparr>, st1)"
        using None unfolding serve_unfold d prod.case Let_def r by simp
      moreover have "filter (\<lambda>t. tk_id t = sl_id s \<and> kind_audio (tk_kind t) \<and> ad_refusal ?x = None) (nt_tracks nt) = []" using ft t(1) False by simp
      ultimately show ?thesis using sd(1) None False id t(1) by (simp add: answered_def receive_nothing answer_ok_def)
    next
      case True
      then have r: "map (\<lambda>p. (nt_positions nt, p)) (filter (\<lambda>p. p = sl_id s) (nt_playback nt)) = [(nt_positions nt, tk_id t)]"
        using held filter_one [OF dist(2)] id by simp
      have ready: "ring_ready dec st1 t" using offerable_ready [OF off True] by blast
      then obtain p where p: "st1 (tk_id t) = Some p" "pb_recording p \<longleftrightarrow> tk_kind t = RecordingKind" by (auto simp: ring_ready_def)
      obtain e where e: "playback_fd (tk_id t) p = Some (RingObject (tk_id t) e)"
        using p t(2) id by (cases "tk_kind t = RecordingKind") (auto simp: playback_fd_def)
      from pass_ring [OF p(1) e p(2) True ready, of inc "nt_bell nt" "nt_positions nt"]
      obtain st2 objs rings where pr: "send_rings inc (nt_bell nt) False [(nt_positions nt, tk_id t)] st1 =
          (Ok [objs], if nt_bell nt = None \<and> tk_kind t = PlaybackKind then Some inc else nt_bell nt, st2)" "same_rings st1 st2"
        "receive_rings dec st2 (nt_bell nt \<noteq> None) False [t] [objs] = Ok (rings, [])"
        "rs_doorbell rings \<noteq> None \<longleftrightarrow> nt_bell nt = None \<and> tk_kind t = PlaybackKind"
        "rs_playback rings @ rs_recording rings = [(t, RingObject (tk_id t) e)]" by blast
      let ?nt = "nt\<lparr> nt_positions := nt_positions nt + 1, nt_leases := leases, nt_admitted := insert (sl_id s) (nt_admitted nt),
          nt_bell := (if nt_bell nt = None \<and> tk_kind t = PlaybackKind then Some inc else nt_bell nt) \<rparr>"
      have run: "notices_serve alloc inc [s] nt st = (Ok True, Some ?x, [objs], ?nt, st2)"
        using None unfolding serve_unfold d prod.case Let_def r pr(1) outcome.case by simp
      have f: "filter (\<lambda>t. tk_id t = sl_id s \<and> kind_audio (tk_kind t) \<and> ad_refusal ?x = None) (nt_tracks nt) = [t]" using ft t(1) True None by simp
      have "answer_ok (find_track (nt_tracks nt) (sl_id s)) ?x (Ok la)" if "la_admission la = ?x" "la_rings la = rings" for la
        using that pr(5) True id t(1) None unfolding answer_ok_def by simp
      then show ?thesis unfolding answered_def run using same_rings_trans [OF sd(1) pr(2)] pr(3,4) f
        by (intro exI [of _ ?x] exI [of _ "[objs]"] exI [of _ ?nt] exI [of _ st2] exI [of _ rings]) auto
    qed
  qed
qed

section \<open>Every step\<close>

lemma select_ok:
  assumes q: "apply_all queue (tv_tracks v) = Some ts" and a: "ad_id x = sl_id s"
    and r: "receive_rings dec st (tv_doorbell v) False (filter (\<lambda>t. tk_id t = sl_id s \<and> kind_audio (tk_kind t) \<and> ad_refusal x = None) ts) transfers = Ok (rings, rest)"
  shows "tracks_select dec st s queue [x] transfers v =
    (Ok \<lparr> la_admission = x, la_position = tv_positions v, la_rings = rings \<rparr>,
     v\<lparr> tv_tracks := ts, tv_positions := tv_positions v + 1, tv_doorbell := (tv_doorbell v \<or> rs_doorbell rings \<noteq> None), tv_pending := tv_pending v @ queue \<rparr>)"
proof -
  have "tracks_drain queue (v\<lparr> tv_positions := tv_positions v + 1 \<rparr>) =
      (Ok (), v\<lparr> tv_positions := tv_positions v + 1, tv_tracks := ts, tv_pending := tv_pending v @ queue \<rparr>)"
    using tracks_drain_ok [of queue "v\<lparr> tv_positions := tv_positions v + 1 \<rparr>" ts] q by simp
  then show ?thesis using a r by (simp add: tracks_select_def Let_def)
qed

lemma late_selection_inv:
  assumes inv: "attached_inv dec a"
  shows "attached_inv dec (attached_step dec alloc inc (SelectLate s) a)"
proof -
  have h: "host_ok dec (at_store a) (at_host a)" and q: "apply_all (at_queue a) (tv_tracks (at_view a)) = Some (nt_tracks (at_host a))"
    and bell: "tv_doorbell (at_view a) \<longleftrightarrow> nt_bell (at_host a) \<noteq> None" using inv by (simp_all add: attached_inv_def)
  from serve_ok [OF h, of s alloc inc] obtain x transfers nt' st' rings
    where serve: "notices_serve alloc inc [s] (at_host a) (at_store a) = (Ok True, Some x, transfers, nt', st')"
    and out: "ad_id x = sl_id s" "same_rings (at_store a) st'" "nt_tracks nt' = nt_tracks (at_host a)" "nt_playback nt' = nt_playback (at_host a)"
      "nt_offered nt' = nt_offered (at_host a)" "nt_positions nt' = nt_positions (at_host a) + 1"
      "receive_rings dec st' (nt_bell (at_host a) \<noteq> None) False
        (filter (\<lambda>t. tk_id t = sl_id s \<and> kind_audio (tk_kind t) \<and> ad_refusal x = None) (nt_tracks (at_host a))) transfers = Ok (rings, [])"
      "nt_bell nt' \<noteq> None \<longleftrightarrow> nt_bell (at_host a) \<noteq> None \<or> rs_doorbell rings \<noteq> None"
    and ans: "\<And>la. la_admission la = x \<Longrightarrow> la_rings la = rings \<Longrightarrow> answer_ok (find_track (nt_tracks (at_host a)) (sl_id s)) x (Ok la)"
    unfolding answered_def by blast
  have h': "host_ok dec st' nt'" using host_ok_store [OF out(2) h] out(3-5) by (simp add: host_ok_def)
  show ?thesis
    using inv h' out(3,6,8) bell ans unfolding attached_step.simps serve prod.case option.case select_ok [OF q out(1) out(7) [folded bell]]
    by (simp add: attached_inv_def)
qed

lemma next_notice_inv:
  assumes inv: "attached_inv dec a"
  shows "attached_inv dec (attached_step dec alloc inc NextNotice a)"
proof (cases "tv_pending (at_view a)")
  case Nil
  show ?thesis
  proof (cases "at_queue a")
    case (Cons n ns)
    then obtain ts where "apply_notice n (tv_tracks (at_view a)) = Some ts" "apply_all ns ts = Some (nt_tracks (at_host a))"
      using inv by (auto simp: attached_inv_def split: Option.bind_splits)
    then show ?thesis using inv Nil Cons by (simp add: attached_inv_def tracks_next_def tracks_apply_def)
  qed (use inv Nil in \<open>simp add: attached_inv_def tracks_next_def\<close>)
qed (use inv in \<open>simp add: attached_inv_def tracks_next_def\<close>)

lemma attached_step_inv:
  assumes inv: "attached_inv dec a"
  shows "attached_inv dec (attached_step dec alloc inc e a)"
proof -
  have h: "host_ok dec (at_store a) (at_host a)" using inv by (simp add: attached_inv_def)
  show ?thesis
  proof (cases e)
    case (AddTrack t ring)
    obtain r nt ns where out: "notices_add dec (at_store a) t ring (at_host a) = (r, nt, ns)" by (metis surj_pair)
    show ?thesis using inv add_ok [OF h out] by (simp add: AddTrack out attached_inv_def apply_all_append)
  next
    case (UpdateTrack t)
    obtain r nt ns where out: "notices_update dec (at_store a) t (at_host a) = (r, nt, ns)" by (metis surj_pair)
    show ?thesis using inv update_ok [OF h out] by (simp add: UpdateTrack out attached_inv_def apply_all_append)
  next
    case (RemoveTrack i)
    obtain r nt st ns where out: "notices_remove i (at_host a) (at_store a) = (r, nt, st, ns)" by (metis surj_pair)
    show ?thesis using inv remove_ok [OF h out] by (simp add: RemoveTrack out attached_inv_def apply_all_append)
  next
    case NextNotice
    then show ?thesis using next_notice_inv [OF inv] by simp
  next
    case (SelectLate s)
    then show ?thesis using late_selection_inv [OF inv] by (simp only:)
  next
    case (Elsewhere st)
    then show ?thesis using inv host_ok_store by (simp add: attached_inv_def)
  qed
qed

lemma leased_rings:
  assumes "leased leases st st'"
  shows "same_rings st st'"
  unfolding same_rings_def
proof
  fix i
  show "map_option (\<lambda>p. (pb_ring p, pb_recording p)) (st' i) = map_option (\<lambda>p. (pb_ring p, pb_recording p)) (st i)"
  proof (cases "i \<in> set leases")
    case True
    then obtain p p' where "st i = Some p" "st' i = Some p'" "claimed p p'" using assms by (auto simp: leased_def)
    then show ?thesis by (simp add: claimed_def)
  qed (use assms in \<open>simp add: leased_def\<close>)
qed

lemma attached_start_inv:
  assumes acc: "handshake_accept dec alloc inc off target handles sel st = (Some ads, transfers, res, st')" and res: "res = Ok host"
    and sel: "handshake_select dec st' off sel ads transfers = Ok con" and handles: "distinct handles"
      "set handles = tk_id ` {t \<in> set (of_tracks off). kind_audio (tk_kind t)}"
  shows "attached_inv dec \<lparr> at_host = ac_notices host, at_view = co_tracks con, at_queue = [], at_store = st', at_answers = [], at_faults = [] \<rparr>"
proof -
  let ?ts = "of_tracks off" and ?audio = "map snd (audio_tracks (of_tracks off) ads)" and ?video = "video_position (of_tracks off) ads \<noteq> None"
  obtain leases st1 where state: "admitted_state dec ?ts target handles ads leases st st1" and ids: "map ad_id ads = map sl_id sel"
    and run: "case first_refused sel ads of
       Some (i, r) \<Rightarrow> transfers = [] \<and> res = Err (Refused i r) \<and> st' = drop_leases leases st1
     | None \<Rightarrow> (let kinds = channel_kinds ?ts ads; channels = map (\<lambda>k. [ChannelEnd k]) kinds @ [[TracksEnd]];
               rings = map (\<lambda>(pos, t). (pos, tk_id t)) (audio_tracks ?ts ads); video = video_position ?ts ads
             in \<exists>objs bell. send_rings inc None (video \<noteq> None) rings st1 = (Ok objs, bell, st') \<and> transfers = channels @ objs \<and>
               res = Ok \<lparr> ac_admissions = ads, ac_input = (InputKind \<in> set kinds), ac_affordances = (AffordancesKind \<in> set kinds),
                  ac_video_bell = (case (video, bell) of (Some pos, Some b) \<Rightarrow> Some (b, push_bit (pos mod 64) 1) | _ \<Rightarrow> None),
                  ac_notices = \<lparr> nt_tracks = ?ts, nt_playback = handles, nt_offered = tk_id ` set ?ts, nt_admitted = set (admitted_ids ads),
                    nt_positions = length ads, nt_bell = bell, nt_leases = leases \<rparr> \<rparr>)"
    using accept_admits [OF acc] by blast
  note sd = admitted_stateD [OF state]
  define fresh where "fresh = (?video \<or> (\<exists>t\<in>set ?audio. tk_kind t = PlaybackKind))"
  define objs where "objs = (if fresh then [HintPage inc, WakeEnd inc] else []) @ map (snd \<circ> sent_ring st1) ?audio"
  obtain st2 where snd: "send_rings inc None ?video (map (\<lambda>(pos, t). (pos, tk_id t)) (audio_tracks ?ts ads)) st1 =
      (Ok (if objs = [] then [] else [objs]), if fresh then Some inc else None, st2)" and bo: "bells_only st1 st2"
    using send_rings_ok [OF state refl refl fresh_def objs_def] by blast
  have none: "first_refused sel ads = None" using run res by (auto split: option.splits)
  then have host: "st' = st2" "ac_notices host = \<lparr> nt_tracks = ?ts, nt_playback = handles, nt_offered = tk_id ` set ?ts, nt_admitted = set (admitted_ids ads),
          nt_positions = length ads, nt_bell = (if fresh then Some inc else None), nt_leases = leases \<rparr>"
    and tr: "transfers = map (\<lambda>k. [ChannelEnd k]) (channel_kinds ?ts ads) @ [TracksEnd] # (if objs = [] then [] else [objs])"
    using run res unfolding none option.case Let_def snd by auto
  have view: "co_tracks con = \<lparr> tv_tracks = ?ts, tv_positions = length sel, tv_doorbell = fresh, tv_pending = [] \<rparr>"
    using sel receive_rings_ok [OF state refl fresh_def objs_def bo] none unfolding host(1) tr handshake_select_def Let_def
    by (auto simp: receive_channels_ok receive_objects_def split: if_splits)
  have rings: "same_rings st st'" unfolding host(1) by (rule same_rings_trans [OF leased_rings [OF sd(4)] bells_only_rings [OF bo]])
  have "host_ok dec st (ac_notices host)" using sd(1,2) handles by (simp add: host_ok_def host(2) list_all_iff)
  from host_ok_store [OF rings this] show ?thesis using arg_cong [OF ids, of length] by (simp add: attached_inv_def host(2) view)
qed

lemma attached_reachable_inv: "attached_reachable dec alloc inc a \<Longrightarrow> attached_inv dec a"
  by (induction rule: attached_reachable.induct) (rule attached_start_inv [OF _ refl] attached_step_inv; assumption)+

section \<open>Property\<close>


lemma sample_attached:
  "\<exists>ads transfers host st' con. handshake_accept (\<lambda>_. Some sample_descriptor) (\<lambda>_. True) 7 sample_offer False [2] sample_selection sample_store =
     (Some ads, transfers, Ok host, st') \<and> handshake_select (\<lambda>_. Some sample_descriptor) st' sample_offer sample_selection ads transfers = Ok con \<and>
     nt_offered (ac_notices host) = {1, 2}"
  by (simp add: handshake_accept_def sample_offer_def sample_descriptor_def sample_store_def sample_selection_def MAX_TRACKS_def kind_audio_def
      track_offerable_def audio_ring_fits_def format_valid_def format_frame_bytes_def admit_one_def find_track_def claim_recording_def
      playback_claim_def writers_retire_def first_refused_def channel_kinds_def admitted_ids_def audio_tracks_def List.map_filter_def
      enumerated_def video_position_def send_rings_def playback_fd_def Let_def handshake_select_def receive_objects_def receive_rings_def map_ring_def)


end
