(* ===== verification/Audio_Stream.thy ===== *)
theory Audio_Stream
  imports Seqlock Audio_Ring
begin

text \<open>
  Playback over one audio ring (\<open>audio.rs\<close>): the writer publishes blocks access by access, as
  \<open>Ring::publish\<close> does, while any number of readers run \<open>PlaybackReader::read\<close>.  The words and block bodies of
  the mapping are a seqlock ring (theory \<open>Seqlock\<close>); a body is the header without its sequence word
  followed by the payload.  A block shorter than the payload leaves the rest of the body as it was:
  the model writes those bytes with the values they have.
\<close>

section \<open>The writer\<close>

record playback_writer =
  pw_format :: format
  pw_generation :: u32
  pw_position :: u64
  pw_cursor :: u64
  pw_flags :: u32

definition playback_writer_new :: "format \<Rightarrow> playback_writer" where
  "playback_writer_new f = \<lparr> pw_format = f, pw_generation = 1, pw_position = 0, pw_cursor = 0, pw_flags = 0 \<rparr>"

definition writer_discontinuity :: "playback_writer \<Rightarrow> playback_writer" where
  "writer_discontinuity w = w\<lparr> pw_flags := pw_flags w OR DISCONTINUITY \<rparr>"

definition writer_reconfigure :: "audio_ring \<Rightarrow> format \<Rightarrow> playback_writer \<Rightarrow> (unit, audio_error) outcome \<times> playback_writer" where
  "writer_reconfigure g f w =
     (if \<not> format_valid f \<or> ar_payload_len g < format_frame_bytes f \<or> 2 ^ 32 \<le> ar_payload_len g div format_frame_bytes f
      then (Err (AudioInvalid ''format''), w)
      else (Ok (), w\<lparr> pw_format := f, pw_generation := pw_generation w + 1, pw_flags := pw_flags w OR RECONFIGURATION \<rparr>))"

text \<open>\<open>PlaybackWriter::write\<close> up to \<open>publish\<close>: the block's cursor and header.\<close>

definition writer_write :: "audio_ring \<Rightarrow> bytes \<Rightarrow> u64 \<Rightarrow> playback_writer \<Rightarrow> (u64 \<times> block_header, audio_error) outcome \<times> playback_writer" where
  "writer_write g smp time w =
     (let frame = format_frame_bytes (pw_format w) in
      if smp = [] \<or> length smp mod frame \<noteq> 0 \<or> ar_payload_len g < length smp then (Err (AudioInvalid ''block length''), w)
      else
        let frames = of_nat (length smp div frame) :: u32; cursor = pw_cursor w + 1;
            header = \<lparr> bh_sample_position = pw_position w, bh_host_time_ns = time, bh_frames = frames, bh_flags = pw_flags w,
              bh_generation = pw_generation w, bh_rate = fm_rate (pw_format w), bh_channels = fm_channels (pw_format w),
              bh_layout = layout_code (fm_layout (pw_format w)), bh_sample = sample_code (fm_sample (pw_format w)) \<rparr>
        in (Ok (cursor, header),
            w\<lparr> pw_cursor := cursor, pw_flags := 0, pw_position := pw_position w + ucast frames \<rparr>))"

section \<open>A reader\<close>

record playback_reader =
  pr_latency :: u64
  pr_next :: u64
  pr_gap :: bool
  pr_gaps :: u64
  pr_underruns :: u64

definition playback_reader_new :: "descriptor \<Rightarrow> nat \<Rightarrow> playback_reader" where
  "playback_reader_new d latency =
     (let n = div_ceil (latency * unat (fm_rate (ds_format d))) (unat (ds_block_frames d) * 1000000000)
      in \<lparr> pr_latency = of_nat (min n (unat (ds_blocks d) - 1)), pr_next = 0, pr_gap = False, pr_gaps = 0, pr_underruns = 0 \<rparr>)"

definition reader_start :: "playback_reader \<Rightarrow> u64 \<Rightarrow> u64" where
  "reader_start p latest = max (saturating_sub (saturating_add latest 1) (pr_latency p)) 1"

definition reader_available :: "u64 \<Rightarrow> playback_reader \<Rightarrow> u64" where
  "reader_available latest p =
     saturating_sub (saturating_add latest 1) (if pr_next p = 0 then reader_start p latest else pr_next p)"

record played_block =
  ab_cursor :: u64
  ab_sample_position :: u64
  ab_host_time_ns :: u64
  ab_frames :: u32
  ab_format :: format
  ab_generation :: u32
  ab_discontinuity :: bool
  ab_reconfiguration :: bool
  ab_gap :: bool
  ab_samples :: bytes

definition block_of :: "u64 \<Rightarrow> block_header \<Rightarrow> format \<Rightarrow> bool \<Rightarrow> bytes \<Rightarrow> played_block" where
  "block_of c h f gap smp =
     \<lparr> ab_cursor = c, ab_sample_position = bh_sample_position h, ab_host_time_ns = bh_host_time_ns h, ab_frames = bh_frames h,
       ab_format = f, ab_generation = bh_generation h, ab_discontinuity = (bh_flags h AND DISCONTINUITY \<noteq> 0),
       ab_reconfiguration = (bh_flags h AND RECONFIGURATION \<noteq> 0), ab_gap = gap, ab_samples = smp \<rparr>"

definition accept_block :: "audio_ring \<Rightarrow> bytes \<Rightarrow> (block_header \<times> format) option" where
  "accept_block g bs =
     (let h = block_of_bytes bs in
      case format_from_block h of
        None \<Rightarrow> None
      | Some f \<Rightarrow> if 0 < bh_frames h \<and> unat (bh_frames h) * format_frame_bytes f \<le> ar_payload_len g then Some (h, f) else None)"

text \<open>Where a reader stands in its call: the number counts the rounds of the loop that are left.\<close>

datatype reading = ReadIdle | ReadLatest nat | ReadFirst nat | ReadCopy nat lap | ReadResync nat

record stream_reader =
  sr_state :: playback_reader
  sr_pc :: reading
  sr_log :: "played_block list"

definition reader_underrun :: "stream_reader \<Rightarrow> stream_reader" where
  "reader_underrun rd = rd\<lparr> sr_state := (sr_state rd)\<lparr> pr_underruns := pr_underruns (sr_state rd) + 1 \<rparr>, sr_pc := ReadIdle \<rparr>"

definition reader_fail :: "nat \<Rightarrow> stream_reader \<Rightarrow> stream_reader" where
  "reader_fail n rd = rd\<lparr> sr_state := (sr_state rd)\<lparr> pr_gaps := pr_gaps (sr_state rd) + 1, pr_gap := True \<rparr>, sr_pc := ReadResync n \<rparr>"

text \<open>The next access of a reader inside \<open>read\<close>; \<open>k\<close> is the byte that its copy takes next.\<close>

definition stream_read :: "audio_ring \<Rightarrow> nat \<Rightarrow> ring \<Rightarrow> stream_reader \<Rightarrow> stream_reader" where
  "stream_read g k m rd =
     (let p = sr_state rd; ix = audio_block_index g in
      case sr_pc rd of
        ReadIdle \<Rightarrow> rd
      | ReadLatest n \<Rightarrow>
          let latest = rg_cursor m;
              p = (if pr_next p = 0 \<and> 0 < latest then p\<lparr> pr_next := reader_start p latest \<rparr> else p);
              rd = rd\<lparr> sr_state := p \<rparr> in
          if pr_next p = 0 \<or> latest < pr_next p then reader_underrun rd
          else if latest - pr_next p < ar_blocks g then rd\<lparr> sr_pc := ReadFirst n \<rparr>
          else reader_fail n rd
      | ReadFirst n \<Rightarrow> rd\<lparr> sr_pc := ReadCopy n (read_first ix (56 + ar_payload_len g) m (pr_next p)) \<rparr>
      | ReadCopy n lap \<Rightarrow>
          if \<not> lap_complete lap then rd\<lparr> sr_pc := ReadCopy n (read_byte ix m k lap) \<rparr>
          else (case read_second ix m lap of
                  Ok bs \<Rightarrow>
                  (case accept_block g bs of
                     Some (h, f) \<Rightarrow>
                       rd\<lparr> sr_state := p\<lparr> pr_next := pr_next p + 1, pr_gap := False \<rparr>, sr_pc := ReadIdle,
                           sr_log := sr_log rd @ [block_of (pr_next p) h f (pr_gap p) (take (unat (bh_frames h) * format_frame_bytes f) (drop 56 bs))] \<rparr>
                   | None \<Rightarrow> reader_fail n rd)
                | _ \<Rightarrow> reader_fail n rd)
      | ReadResync n \<Rightarrow>
          let rd = rd\<lparr> sr_state := p\<lparr> pr_next := reader_start p (rg_cursor m) \<rparr> \<rparr> in
          if n \<le> 1 then reader_underrun rd else rd\<lparr> sr_pc := ReadLatest (n - 1) \<rparr>)"

section \<open>A ring in use\<close>

record audio_stream =
  as_ring :: ring
  as_writer :: playback_writer
  as_written :: "(block_header \<times> format \<times> bytes) list"
  as_readers :: "nat \<Rightarrow> stream_reader"

definition reader_fresh :: "audio_ring \<Rightarrow> format \<Rightarrow> nat \<Rightarrow> stream_reader" where
  "reader_fresh g f latency = \<lparr> sr_state = playback_reader_new (audio_descriptor g f) latency, sr_pc = ReadIdle, sr_log = [] \<rparr>"

definition stream_init :: "audio_ring \<Rightarrow> format \<Rightarrow> audio_stream" where
  "stream_init g f = \<lparr> as_ring = ring_init (56 + ar_payload_len g), as_writer = playback_writer_new f, as_written = [],
     as_readers = (\<lambda>_. reader_fresh g f 0) \<rparr>"

text \<open>The first access of a publication, with the ghost record of what it publishes.\<close>

definition stream_write :: "audio_ring \<Rightarrow> bytes \<Rightarrow> u64 \<Rightarrow> audio_stream \<Rightarrow> audio_stream" where
  "stream_write g smp time s =
     (case writer_write g smp time (as_writer s) of
        (Ok (c, h), w) \<Rightarrow>
          let old = rg_body (as_ring s) (audio_block_index g c) in
          s\<lparr> as_writer := w,
             as_ring := ring_begin (audio_block_index g) (block_bytes h @ smp @ drop (56 + length smp) old) (as_ring s),
             as_written := as_written s @ [(h, pw_format (as_writer s), smp)] \<rparr>
      | (_, w) \<Rightarrow> s\<lparr> as_writer := w \<rparr>)"

datatype stream_event =
    WriteBlock bytes u64
  | WriterAccess nat
  | Discontinuity
  | Reconfigure format
  | OpenReader nat nat
  | CallRead nat
  | ReaderAccess nat nat

text \<open>The writer takes calls between publications only; a reader is read by one caller at a time.\<close>

fun stream_step :: "audio_ring \<Rightarrow> stream_event \<Rightarrow> audio_stream \<Rightarrow> audio_stream" where
  "stream_step g (WriteBlock smp time) s =
     (if rg_stage (as_ring s) = Ready \<and> length (as_written s) + 2 < 2 ^ 64 then stream_write g smp time s else s)"
| "stream_step g (WriterAccess k) s =
     (if rg_stage (as_ring s) = Ready then s else s\<lparr> as_ring := ring_access (audio_block_index g) [] k (as_ring s) \<rparr>)"
| "stream_step g Discontinuity s =
     (if rg_stage (as_ring s) = Ready then s\<lparr> as_writer := writer_discontinuity (as_writer s) \<rparr> else s)"
| "stream_step g (Reconfigure f) s =
     (if rg_stage (as_ring s) = Ready then s\<lparr> as_writer := snd (writer_reconfigure g f (as_writer s)) \<rparr> else s)"
| "stream_step g (OpenReader i latency) s =
     s\<lparr> as_readers := (as_readers s)(i := reader_fresh g (pw_format (as_writer s)) latency) \<rparr>"
| "stream_step g (CallRead i) s =
     (if sr_pc (as_readers s i) = ReadIdle then s\<lparr> as_readers := (as_readers s)(i := (as_readers s i)\<lparr> sr_pc := ReadLatest 2 \<rparr>) \<rparr> else s)"
| "stream_step g (ReaderAccess i k) s =
     s\<lparr> as_readers := (as_readers s)(i := stream_read g k (as_ring s) (as_readers s i)) \<rparr>"

inductive stream_reachable :: "audio_ring \<Rightarrow> audio_stream \<Rightarrow> bool" for g where
  start: "audio_shared_new st = Ok (g, mem) \<Longrightarrow> stream_reachable g (stream_init g (st_format st))"
| step: "stream_reachable g s \<Longrightarrow> stream_reachable g (stream_step g e s)"

section \<open>Invariant\<close>

definition written_ok :: "audio_ring \<Rightarrow> block_header \<times> format \<times> bytes \<Rightarrow> bool" where
  "written_ok g = (\<lambda>(h, f, smp). format_valid f \<and> format_from_block h = Some f \<and> unat (bh_frames h) * format_frame_bytes f = length smp \<and>
     0 < length smp \<and> length smp \<le> ar_payload_len g)"

definition carried :: "block_header \<times> format \<times> bytes \<Rightarrow> bytes \<Rightarrow> bool" where
  "carried = (\<lambda>(h, f, smp) bs. \<exists>tail. bs = block_bytes h @ smp @ tail)"

definition writer_ok :: "audio_ring \<Rightarrow> playback_writer \<Rightarrow> bool" where
  "writer_ok g w \<longleftrightarrow> format_valid (pw_format w) \<and> ar_payload_len g div format_frame_bytes (pw_format w) < 2 ^ 32"

text \<open>What a written block says about the one before it.\<close>

definition follows :: "block_header \<times> format \<times> bytes \<Rightarrow> u64 \<Rightarrow> format \<Rightarrow> u32 \<Rightarrow> bool" where
  "follows = (\<lambda>(h, f, smp) pos f' flags. pos = bh_sample_position h + ucast (bh_frames h) \<and> (f' \<noteq> f \<longrightarrow> flags AND RECONFIGURATION \<noteq> 0))"

definition log_ok :: "(block_header \<times> format \<times> bytes) list \<Rightarrow> played_block list \<Rightarrow> bool" where
  "log_ok ws log \<longleftrightarrow>
     (\<forall>b\<in>set log. ab_cursor b \<noteq> 0 \<and> unat (ab_cursor b) \<le> length ws \<and>
        (case ws ! (unat (ab_cursor b) - 1) of (h, f, smp) \<Rightarrow> b = block_of (ab_cursor b) h f (ab_gap b) smp)) \<and>
     (\<forall>j. Suc j < length log \<longrightarrow> ab_cursor (log ! j) < ab_cursor (log ! Suc j) \<and>
        (ab_gap (log ! Suc j) \<longleftrightarrow> ab_cursor (log ! Suc j) \<noteq> ab_cursor (log ! j) + 1))"

definition next_ok :: "stream_reader \<Rightarrow> bool" where
  "next_ok rd \<longleftrightarrow> (sr_log rd \<noteq> [] \<longrightarrow>
     (let c = unat (ab_cursor (last (sr_log rd))); n = unat (pr_next (sr_state rd)) in
      c < n \<and> (if pr_gap (sr_state rd) then c + 1 < n \<or> (\<exists>j. sr_pc rd = ReadResync j) else n = c + 1)))"

fun pc_ok :: "audio_ring \<Rightarrow> ring \<Rightarrow> u64 \<Rightarrow> reading \<Rightarrow> bool" where
  "pc_ok g m nx (ReadFirst n) \<longleftrightarrow> nx \<noteq> 0 \<and> nx \<le> rg_cursor m"
| "pc_ok g m nx (ReadCopy n lap) \<longleftrightarrow> nx \<noteq> 0 \<and> nx \<le> rg_cursor m \<and> lap_expected lap = nx \<and>
     lap_ok (audio_block_index g) (56 + ar_payload_len g) m lap \<and> (lap_first lap \<noteq> nx \<longrightarrow> dead (audio_block_index g) m nx)"
| "pc_ok g m nx (ReadResync n) \<longleftrightarrow> unat nx + unat (ar_blocks g) \<le> unat (rg_cursor m) + 1"
| "pc_ok g m nx _ \<longleftrightarrow> True"

definition sreader_ok :: "audio_ring \<Rightarrow> ring \<Rightarrow> (block_header \<times> format \<times> bytes) list \<Rightarrow> stream_reader \<Rightarrow> bool" where
  "sreader_ok g m ws rd \<longleftrightarrow> unat (pr_latency (sr_state rd)) < unat (ar_blocks g) \<and> log_ok ws (sr_log rd) \<and> next_ok rd \<and>
     pc_ok g m (pr_next (sr_state rd)) (sr_pc rd) \<and> ((\<exists>n. sr_pc rd = ReadResync n) \<longrightarrow> pr_gap (sr_state rd))"

definition stream_ring_ok :: "audio_ring \<Rightarrow> ring \<Rightarrow> (block_header \<times> format \<times> bytes) list \<Rightarrow> bool" where
  "stream_ring_ok g m ws \<longleftrightarrow> ring_inv (audio_block_index g) (56 + ar_payload_len g) m \<and> settled (audio_block_index g) m \<and>
     length ws + 1 < 2 ^ 64 \<and> list_all (written_ok g) ws \<and> list_all2 carried ws (rg_hist m)"

definition stream_inv :: "audio_ring \<Rightarrow> audio_stream \<Rightarrow> bool" where
  "stream_inv g s \<longleftrightarrow> ring_shape g \<and> stream_ring_ok g (as_ring s) (as_written s) \<and> writer_ok g (as_writer s) \<and>
     pw_cursor (as_writer s) = of_nat (length (as_written s)) \<and>
     (as_written s \<noteq> [] \<longrightarrow> follows (last (as_written s)) (pw_position (as_writer s)) (pw_format (as_writer s)) (pw_flags (as_writer s))) \<and>
     (\<forall>n. Suc n < length (as_written s) \<longrightarrow>
        (case as_written s ! Suc n of (h, f, smp) \<Rightarrow> follows (as_written s ! n) (bh_sample_position h) f (bh_flags h))) \<and>
     (\<forall>i. sreader_ok g (as_ring s) (as_written s) (as_readers s i))"

section \<open>Laps\<close>

lemma index_lap:
  assumes c: "c \<noteq> 0" "c < d" and i: "audio_block_index g c = audio_block_index g d"
  shows "unat c + unat (ar_blocks g) \<le> unat d"
proof -
  have "d \<noteq> 0" using c(2) by auto
  then have u: "unat (c - 1) = unat c - 1" "unat (d - 1) = unat d - 1" "0 < unat c" "unat c < unat d"
    using c unat_minus_one [of c] unat_minus_one [of d] by (auto simp: unat_gt_0 word_less_nat_alt)
  have "(unat c - 1) mod unat (ar_blocks g) = (unat d - 1) mod unat (ar_blocks g)"
    using i by (simp add: audio_block_index_def unat_mod u)
  then have "unat (ar_blocks g) dvd (unat d - 1) - (unat c - 1)" using u by (metis mod_eq_dvd_iff_nat diff_le_mono less_imp_le)
  then have "unat (ar_blocks g) \<le> (unat d - 1) - (unat c - 1)" using u by (intro dvd_imp_le) auto
  then show ?thesis using u by simp
qed

lemma hist_length:
  assumes "ring_inv ix sz m"
  shows "unat (rg_cursor m) + (if rg_stage m = Ready then 0 else 1) = length (rg_hist m)"
proof -
  have n: "length (rg_hist m) < 2 ^ 64" "rg_cursor m = of_nat (length (rg_hist m) - (if rg_stage m = Ready then 0 else 1))"
    "rg_stage m \<noteq> Ready \<Longrightarrow> rg_hist m \<noteq> []" using ring_invD [OF assms] by auto
  have "unat (rg_cursor m) = length (rg_hist m) - (if rg_stage m = Ready then 0 else 1)"
    unfolding n(2) using n(1) by (simp add: unat_of_nat)
  then show ?thesis using n(3) by (cases "rg_hist m") auto
qed

lemma dead_lapped:
  assumes "ring_inv (audio_block_index g) sz m" "c \<noteq> 0" "dead (audio_block_index g) m c"
  shows "unat c + unat (ar_blocks g) \<le> unat (rg_cursor m) + 1"
proof -
  obtain d where d: "c < d" "begun m d" "audio_block_index g d = audio_block_index g c" using assms(3) by (auto simp: dead_def)
  have "unat c + unat (ar_blocks g) \<le> unat d" using index_lap [OF assms(2) d(1)] d(3) by simp
  also have "\<dots> \<le> unat (rg_cursor m) + 1" using hist_length [OF assms(1)] d(2) by (simp add: begun_def split: if_splits)
  finally show ?thesis .
qed

lemma published_committed:
  assumes "ring_inv ix sz m" "c \<noteq> 0" "c \<le> rg_cursor m"
  shows "committed m c"
  using assms hist_length [OF assms(1)] by (cases "rg_stage m") (auto simp: committed_def word_le_nat_alt)

lemma start_after_lap:
  assumes "unat latest + 1 < 2 ^ 64" "unat (pr_latency p) < b" "nx + b \<le> unat latest + 1"
  shows "nx < unat (reader_start p latest)" "0 < unat (reader_start p latest)"
proof -
  have u: "unat (saturating_add latest 1) = unat latest + 1" using assms(1) by (simp add: unat_saturating_add)
  have "unat (reader_start p latest) = max (unat latest + 1 - unat (pr_latency p)) 1"
    by (simp add: reader_start_def u unat_saturating_sub max_def word_le_nat_alt)
  then show "nx < unat (reader_start p latest)" "0 < unat (reader_start p latest)" using assms by auto
qed

section \<open>A reader's access\<close>

lemma block_accepted:
  assumes "written_ok g (h, f, smp)" "carried (h, f, smp) bs"
  shows "accept_block g bs = Some (h, f)" "take (unat (bh_frames h) * format_frame_bytes f) (drop 56 bs) = smp"
proof -
  have w: "format_from_block h = Some f" "unat (bh_frames h) * format_frame_bytes f = length smp" "0 < length smp" "length smp \<le> ar_payload_len g"
    using assms(1) by (auto simp: written_ok_def)
  then have "bh_frames h \<noteq> 0" by (metis mult_0 nat_less_le unat_0)
  then show "accept_block g bs = Some (h, f)" using assms(2) w by (auto simp: accept_block_def carried_def Let_def word_gt_0)
  show "take (unat (bh_frames h) * format_frame_bytes f) (drop 56 bs) = smp" using assms(2) w(2) by (auto simp: carried_def)
qed

lemma begun_carried:
  assumes "list_all (written_ok g) ws" "list_all2 carried ws (rg_hist m)" "begun m c"
  obtains h f smp where "unat c \<le> length ws" "ws ! (unat c - 1) = (h, f, smp)" "written_ok g (h, f, smp)" "carried (h, f, smp) (published m c)"
proof -
  have n: "unat c - 1 < length ws" "unat c \<le> length ws" using assms(2,3) by (auto simp: begun_def unat_gt_0 [symmetric] dest: list_all2_lengthD)
  then show ?thesis
    using that assms list_all2_nthD [OF assms(2) n(1)] by (metis list_all_length published_def prod_cases3)
qed

lemma log_ok_snoc:
  assumes "log_ok ws log" "c \<noteq> 0" "unat c \<le> length ws" "ws ! (unat c - 1) = (h, f, smp)"
    and "log \<noteq> [] \<Longrightarrow> ab_cursor (last log) < c \<and> (gap \<longleftrightarrow> c \<noteq> ab_cursor (last log) + 1)"
  shows "log_ok ws (log @ [block_of c h f gap smp])"
proof -
  have "ab_cursor ((log @ [b]) ! j) < ab_cursor ((log @ [b]) ! Suc j) \<and>
      (ab_gap ((log @ [b]) ! Suc j) \<longleftrightarrow> ab_cursor ((log @ [b]) ! Suc j) \<noteq> ab_cursor ((log @ [b]) ! j) + 1)"
    if "b = block_of c h f gap smp" "Suc j < length (log @ [b])" for j b
  proof (cases "Suc j < length log")
    case True
    then show ?thesis using assms(1) by (simp add: log_ok_def nth_append)
  next
    case False
    then have "log \<noteq> []" "j = length log - 1" using that(2) by auto
    then show ?thesis using assms(5) that(1) by (simp add: nth_append last_conv_nth block_of_def)
  qed
  then show ?thesis using assms(1-4) by (auto simp: log_ok_def block_of_def)
qed

lemma log_ok_append: "log_ok ws log \<Longrightarrow> log_ok (ws @ l) log"
  by (fastforce simp: log_ok_def nth_append unat_gt_0 [symmetric])

lemma reader_fail_ok:
  assumes "unat (pr_latency (sr_state rd)) < unat (ar_blocks g)" "log_ok ws (sr_log rd)"
    and "sr_log rd \<noteq> [] \<Longrightarrow> unat (ab_cursor (last (sr_log rd))) < unat (pr_next (sr_state rd))"
    and "unat (pr_next (sr_state rd)) + unat (ar_blocks g) \<le> unat (rg_cursor m) + 1"
  shows "sreader_ok g m ws (reader_fail n rd)"
  using assms by (auto simp: sreader_ok_def reader_fail_def next_ok_def Let_def)

lemma stream_ring_okD:
  assumes "stream_ring_ok g m ws"
  shows "ring_inv (audio_block_index g) (56 + ar_payload_len g) m" "settled (audio_block_index g) m" "length ws + 1 < 2 ^ 64"
    "list_all (written_ok g) ws" "list_all2 carried ws (rg_hist m)" "unat (rg_cursor m) + 1 < 2 ^ 64"
proof -
  show "ring_inv (audio_block_index g) (56 + ar_payload_len g) m" "settled (audio_block_index g) m" "length ws + 1 < 2 ^ 64"
    "list_all (written_ok g) ws" "list_all2 carried ws (rg_hist m)" using assms by (simp_all add: stream_ring_ok_def)
  then have "unat (rg_cursor m) \<le> length ws" using hist_length [of "audio_block_index g"] by (metis le_add1 list_all2_lengthD)
  then show "unat (rg_cursor m) + 1 < 2 ^ 64" using \<open>length ws + 1 < 2 ^ 64\<close> by simp
qed

lemma read_latest_ok:
  assumes m: "stream_ring_ok g m ws" and rd: "sreader_ok g m ws rd" and pc: "sr_pc rd = ReadLatest n"
  shows "sreader_ok g m ws (stream_read g k m rd)"
proof -
  let ?p = "sr_state rd" and ?latest = "rg_cursor m"
  define p' where "p' = (if pr_next ?p = 0 \<and> 0 < ?latest then ?p\<lparr> pr_next := reader_start ?p ?latest \<rparr> else ?p)"
  define rd' where "rd' = rd\<lparr> sr_state := p' \<rparr>"
  have nx: "sr_log rd \<noteq> [] \<Longrightarrow> p' = ?p" using rd by (auto simp: sreader_ok_def next_ok_def p'_def Let_def)
  have r: "unat (pr_latency p') < unat (ar_blocks g)" "log_ok ws (sr_log rd')" "next_ok rd'" "sr_log rd' = sr_log rd" "sr_pc rd' = ReadLatest n" "sr_state rd' = p'"
    using rd nx pc by (auto simp: sreader_ok_def rd'_def p'_def next_ok_def Let_def)
  have eq: "stream_read g k m rd =
      (if pr_next p' = 0 \<or> ?latest < pr_next p' then reader_underrun rd'
       else if ?latest - pr_next p' < ar_blocks g then rd'\<lparr> sr_pc := ReadFirst n \<rparr> else reader_fail n rd')"
    using pc by (simp add: stream_read_def p'_def rd'_def Let_def)
  have ok: "sreader_ok g m ws (rd'\<lparr> sr_state := q, sr_pc := x \<rparr>)"
    if "pr_next q = pr_next p'" "pr_latency q = pr_latency p'" "pr_gap q = pr_gap p'" "pc_ok g m (pr_next p') x" "\<And>j. x \<noteq> ReadResync j" for q x
    using r that by (auto simp: sreader_ok_def next_ok_def Let_def)
  consider (under) "pr_next p' = 0 \<or> ?latest < pr_next p'" | (go) "pr_next p' \<noteq> 0" "pr_next p' \<le> ?latest" "?latest - pr_next p' < ar_blocks g"
    | (lapped) "pr_next p' \<noteq> 0" "pr_next p' \<le> ?latest" "ar_blocks g \<le> ?latest - pr_next p'" by fastforce
  then show ?thesis
  proof cases
    case under
    then show ?thesis using ok [of "p'\<lparr> pr_underruns := pr_underruns p' + 1 \<rparr>" ReadIdle] r by (simp add: eq reader_underrun_def)
  next
    case go
    have "rd'\<lparr> sr_state := p', sr_pc := ReadFirst n \<rparr> = rd'\<lparr> sr_pc := ReadFirst n \<rparr>" by (simp add: rd'_def)
    then show ?thesis using go ok [of p' "ReadFirst n"] by (simp add: eq not_less [symmetric])
  next
    case lapped
    then have "unat (ar_blocks g) \<le> unat ?latest - unat (pr_next p')" by (simp add: word_le_nat_alt unat_sub)
    moreover have "unat (pr_next p') \<le> unat ?latest" using lapped(2) by (simp add: word_le_nat_alt)
    ultimately have "unat (pr_next p') + unat (ar_blocks g) \<le> unat ?latest + 1" by simp
    moreover have "sr_log rd' \<noteq> [] \<Longrightarrow> unat (ab_cursor (last (sr_log rd'))) < unat (pr_next p')" using r by (auto simp: next_ok_def Let_def)
    ultimately show ?thesis using lapped r by (auto simp: eq intro: reader_fail_ok)
  qed
qed

lemma read_copied_ok:
  assumes m: "stream_ring_ok g m ws" and rd: "sreader_ok g m ws rd" and pc: "sr_pc rd = ReadCopy n lap" and full: "lap_complete lap"
  shows "sreader_ok g m ws (stream_read g k m rd)"
proof -
  note d = stream_ring_okD [OF m]
  let ?p = "sr_state rd" and ?ix = "audio_block_index g"
  let ?nx = "pr_next ?p"
  have p: "?nx \<noteq> 0" "?nx \<le> rg_cursor m" "lap_expected lap = ?nx" "lap_ok ?ix (56 + ar_payload_len g) m lap"
    "lap_first lap \<noteq> ?nx \<Longrightarrow> dead ?ix m ?nx" and l: "unat (pr_latency ?p) < unat (ar_blocks g)" "log_ok ws (sr_log rd)" "next_ok rd"
    using rd pc by (auto simp: sreader_ok_def)
  have after: "sr_log rd \<noteq> [] \<Longrightarrow> unat (ab_cursor (last (sr_log rd))) < unat ?nx" using l(3) by (auto simp: next_ok_def Let_def)
  show ?thesis
  proof (cases rule: read_second_cases [of ?ix m lap])
    case (Err first second)
    then have "lap_first lap \<noteq> ?nx \<or> rg_seq m (?ix ?nx) \<noteq> ?nx" using p(3) by (auto simp: read_second_def Let_def split: if_splits)
    then have "dead ?ix m ?nx" using p(5) d(2) published_committed [OF d(1) p(1,2)] by (auto simp: settled_def)
    then have "sreader_ok g m ws (reader_fail n rd)" using dead_lapped [OF d(1) p(1)] by (intro reader_fail_ok l after)
    then show ?thesis using pc full Err by (simp add: stream_read_def Let_def)
  next
    case (Ok bs)
    then have b: "begun m ?nx" "bs = published m ?nx" using read_second_published [OF d(1) p(4) _ full Ok] p(1,3) by auto
    obtain h f smp where w: "unat ?nx \<le> length ws" "ws ! (unat ?nx - 1) = (h, f, smp)" "written_ok g (h, f, smp)" "carried (h, f, smp) bs"
      using begun_carried [OF d(4,5) b(1)] b(2) by metis
    note acc = block_accepted [OF w(3,4)]
    let ?b = "block_of ?nx h f (pr_gap ?p) smp"
    have eq: "stream_read g k m rd = rd\<lparr> sr_state := ?p\<lparr> pr_next := ?nx + 1, pr_gap := False \<rparr>, sr_pc := ReadIdle, sr_log := sr_log rd @ [?b] \<rparr>"
      using pc full Ok acc by (simp add: stream_read_def Let_def)
    have u: "unat (?nx + 1) = unat ?nx + 1" using w(1) d(3) by (intro unat_Suc_word) simp
    have "ab_cursor (last (sr_log rd)) < ?nx \<and> (pr_gap ?p \<longleftrightarrow> ?nx \<noteq> ab_cursor (last (sr_log rd)) + 1)" if ne: "sr_log rd \<noteq> []"
    proof -
      let ?c = "ab_cursor (last (sr_log rd))"
      have lt: "unat ?c < unat ?nx" using after ne by simp
      then have "unat (?c + 1) = unat ?c + 1" using w(1) d(3) by (intro unat_Suc_word) simp
      then show ?thesis using l(3) ne pc lt by (auto simp: next_ok_def Let_def word_less_nat_alt word_unat_eq_iff split: if_splits)
    qed
    then have "log_ok ws (sr_log rd @ [?b])" by (intro log_ok_snoc [OF l(2) p(1) w(1,2)])
    then show ?thesis unfolding eq using l(1) u by (simp add: sreader_ok_def next_ok_def Let_def block_of_def)
  qed
qed

lemma stream_read_ok:
  assumes m: "stream_ring_ok g m ws" and rd: "sreader_ok g m ws rd"
  shows "sreader_ok g m ws (stream_read g k m rd)"
proof -
  note d = stream_ring_okD [OF m]
  let ?p = "sr_state rd" and ?ix = "audio_block_index g"
  show ?thesis
  proof (cases "sr_pc rd")
    case ReadIdle
    then show ?thesis using rd by (simp add: stream_read_def Let_def)
  next
    case (ReadLatest n)
    then show ?thesis by (rule read_latest_ok [OF m rd])
  next
    case (ReadFirst n)
    let ?nx = "pr_next ?p"
    have p: "?nx \<noteq> 0" "?nx \<le> rg_cursor m" using rd ReadFirst by (auto simp: sreader_ok_def)
    have "dead ?ix m ?nx" if "rg_seq m (?ix ?nx) \<noteq> ?nx"
      using that d(2) published_committed [OF d(1) p] by (auto simp: settled_def)
    then show ?thesis
      using rd ReadFirst p read_first_ok [OF d(1), of ?nx]
      by (auto simp: stream_read_def sreader_ok_def next_ok_def Let_def read_first_def)
  next
    case (ReadCopy n lap)
    show ?thesis
    proof (cases "lap_complete lap")
      case True
      then show ?thesis by (rule read_copied_ok [OF m rd ReadCopy])
    next
      case False
      have "lap_first (read_byte ?ix m k lap) = lap_first lap" by (simp add: read_byte_def)
      then show ?thesis
        using rd ReadCopy False read_byte_ok [OF d(1), of lap k] by (auto simp: stream_read_def sreader_ok_def next_ok_def Let_def)
    qed
  next
    case (ReadResync n)
    let ?st = "reader_start ?p (rg_cursor m)"
    have r: "unat (pr_next ?p) + unat (ar_blocks g) \<le> unat (rg_cursor m) + 1" "unat (pr_latency ?p) < unat (ar_blocks g)"
      "log_ok ws (sr_log rd)" "next_ok rd" "pr_gap ?p" using rd ReadResync by (auto simp: sreader_ok_def)
    have "unat (pr_next ?p) < unat ?st" by (rule start_after_lap(1) [OF d(6) r(2,1)])
    then show ?thesis
      using r ReadResync by (auto simp: stream_read_def sreader_ok_def next_ok_def reader_underrun_def Let_def)
  qed
qed

section \<open>A writer's access\<close>

text \<open>What a step of the writer keeps of the readers.\<close>

lemma pc_ok_moves:
  assumes "pc_ok g m nx x" "moves (audio_block_index g) m m'" "unat (rg_cursor m) \<le> unat (rg_cursor m')"
  shows "pc_ok g m' nx x"
proof -
  have "grows m m'" using assms(2) by (simp add: moves_def)
  then show ?thesis
    using assms grows_dead [of m m' "audio_block_index g" nx] lap_ok_moves [OF _ assms(2)] by (cases x) (auto simp: word_le_nat_alt)
qed

lemma sreader_ok_moves:
  assumes "sreader_ok g m ws rd" "moves (audio_block_index g) m m'" "unat (rg_cursor m) \<le> unat (rg_cursor m')"
  shows "sreader_ok g m' (ws @ l) rd"
  using assms pc_ok_moves log_ok_append unfolding sreader_ok_def by metis

text \<open>An access inside a publication does not look at what is being published.\<close>

lemma ring_access_running: "rg_stage r \<noteq> Ready \<Longrightarrow> ring_access ix bs k r = ring_access ix bs' k r"
  by (simp add: ring_access_def split: stage.split)

lemma writer_access_ok:
  assumes m: "stream_ring_ok g m ws" and st: "rg_stage m \<noteq> Ready"
  shows "stream_ring_ok g (ring_access (audio_block_index g) [] k m) ws"
    "moves (audio_block_index g) m (ring_access (audio_block_index g) [] k m)"
    "unat (rg_cursor m) \<le> unat (rg_cursor (ring_access (audio_block_index g) [] k m))"
proof -
  note d = stream_ring_okD [OF m]
  let ?ix = "audio_block_index g" and ?bs = "replicate (56 + ar_payload_len g) (0 :: u8)"
  let ?m = "ring_access ?ix [] k m"
  have eq: "?m = ring_access ?ix ?bs k m" by (rule ring_access_running [OF st])
  have inv: "ring_inv ?ix (56 + ar_payload_len g) ?m" unfolding eq using ring_access_ok(1) [OF d(1), of ?bs k] st by simp
  show "moves ?ix m ?m" unfolding eq using ring_access_ok(2) [OF d(1), of ?bs k] st by (simp add: ring_moves_to_def)
  have "settled ?ix ?m" unfolding eq using settled_access [OF d(1) _ _ d(2), of ?bs k] st by simp
  moreover have h: "rg_hist ?m = rg_hist m"
    using st by (cases "rg_stage m") (auto simp: ring_access_def ring_commit_def ring_copy_def ring_advance_def Let_def split: list.split)
  ultimately show "stream_ring_ok g ?m ws" using d inv by (simp add: stream_ring_ok_def)
  show "unat (rg_cursor m) \<le> unat (rg_cursor ?m)"
    using hist_length [OF d(1)] hist_length [OF inv] h st by (simp split: if_splits)
qed

lemma writer_write_ok:
  assumes w: "writer_ok g w" and r: "writer_write g smp time w = (Ok (c, h), w')"
  shows "written_ok g (h, pw_format w, smp)" "writer_ok g w'" "c = pw_cursor w + 1" "pw_cursor w' = c" "pw_format w' = pw_format w"
    "bh_sample_position h = pw_position w" "bh_flags h = pw_flags w" "pw_position w' = pw_position w + ucast (bh_frames h)"
proof -
  let ?f = "pw_format w" and ?fb = "format_frame_bytes (pw_format w)"
  have ok: "smp \<noteq> []" "length smp mod ?fb = 0" "length smp \<le> ar_payload_len g" using r by (auto simp: writer_write_def Let_def split: if_splits)
  have fr: "bh_frames h = of_nat (length smp div ?fb)" and fields: "bh_rate h = fm_rate ?f" "bh_channels h = fm_channels ?f"
    "bh_layout h = layout_code (fm_layout ?f)" "bh_sample h = sample_code (fm_sample ?f)"
    using r by (auto simp: writer_write_def Let_def split: if_splits)
  have v: "format_valid ?f" using w by (simp add: writer_ok_def)
  have "length smp div ?fb \<le> ar_payload_len g div ?fb" by (rule div_le_mono [OF ok(3)])
  then have "length smp div ?fb < 2 ^ 32" using w by (simp add: writer_ok_def)
  then have "unat (bh_frames h) = length smp div ?fb" unfolding fr by (simp add: unat_of_nat)
  then have "unat (bh_frames h) * ?fb = length smp" using ok(2) by auto
  then show "written_ok g (h, ?f, smp)"
    using v ok format_from_block_round [OF v fields] by (simp add: written_ok_def)
  show "writer_ok g w'" "c = pw_cursor w + 1" "pw_cursor w' = c" "pw_format w' = pw_format w"
    "bh_sample_position h = pw_position w" "bh_flags h = pw_flags w" "pw_position w' = pw_position w + ucast (bh_frames h)"
    using r w by (auto simp: writer_write_def writer_ok_def Let_def split: if_splits)
qed

lemma begin_ok:
  assumes m: "stream_ring_ok g m ws" and st: "rg_stage m = Ready" and room: "length ws + 2 < 2 ^ 64"
    and wr: "written_ok g (h, f, smp)" and bs: "bs = block_bytes h @ smp @ drop (56 + length smp) (rg_body m i)"
  shows "stream_ring_ok g (ring_begin (audio_block_index g) bs m) (ws @ [(h, f, smp)])"
    "moves (audio_block_index g) m (ring_begin (audio_block_index g) bs m)" "rg_cursor (ring_begin (audio_block_index g) bs m) = rg_cursor m"
proof -
  note d = stream_ring_okD [OF m]
  let ?ix = "audio_block_index g"
  have len: "length (rg_hist m) = length ws" using list_all2_lengthD [OF d(5)] by simp
  have r: "length (rg_hist m) + 1 < 2 ^ 64" unfolding len using room by simp
  have "length smp \<le> ar_payload_len g" using wr by (simp add: written_ok_def)
  then have sz: "length bs = 56 + ar_payload_len g" using bs ring_invD(2) [OF d(1), of i] by simp
  have eq: "ring_begin ?ix bs m = ring_access ?ix bs 0 m" using st by (simp add: ring_access_def)
  have "ring_inv ?ix (56 + ar_payload_len g) (ring_begin ?ix bs m)" by (rule ring_begin_inv [OF d(1) st sz r])
  moreover have "settled ?ix (ring_begin ?ix bs m)" unfolding eq by (rule settled_access [OF d(1) sz r d(2)])
  moreover have "carried (h, f, smp) bs" using bs by (simp add: carried_def)
  moreover have "rg_hist (ring_begin ?ix bs m) = rg_hist m @ [bs]" by (simp add: ring_begin_def)
  ultimately show "stream_ring_ok g (ring_begin ?ix bs m) (ws @ [(h, f, smp)])"
    using d(4,5) wr room by (simp add: stream_ring_ok_def list_all2_appendI)
  show "moves ?ix m (ring_begin ?ix bs m)" by (rule ring_begin_moves [OF d(1) st r])
  show "rg_cursor (ring_begin ?ix bs m) = rg_cursor m" by (simp add: ring_begin_def)
qed

section \<open>Every step keeps the invariant\<close>

lemma stream_invD:
  assumes "stream_inv g s"
  shows "ring_shape g" "stream_ring_ok g (as_ring s) (as_written s)" "writer_ok g (as_writer s)"
    "pw_cursor (as_writer s) = of_nat (length (as_written s))"
    "as_written s \<noteq> [] \<Longrightarrow> follows (last (as_written s)) (pw_position (as_writer s)) (pw_format (as_writer s)) (pw_flags (as_writer s))"
    "Suc n < length (as_written s) \<Longrightarrow> as_written s ! Suc n = (h, f, smp) \<Longrightarrow> follows (as_written s ! n) (bh_sample_position h) f (bh_flags h)"
    "sreader_ok g (as_ring s) (as_written s) (as_readers s i)"
  using assms unfolding stream_inv_def by auto

lemma stream_write_inv:
  assumes inv: "stream_inv g s" and st: "rg_stage (as_ring s) = Ready" and room: "length (as_written s) + 2 < 2 ^ 64"
  shows "stream_inv g (stream_write g smp time s)"
proof -
  note d = stream_invD [OF inv]
  obtain r w' where r: "writer_write g smp time (as_writer s) = (r, w')" by fastforce
  show ?thesis
  proof (cases "\<exists>c h. r = Ok (c, h)")
    case False
    then have "stream_write g smp time s = s"
      using r by (auto simp: stream_write_def writer_write_def Let_def split: if_splits)
    then show ?thesis using inv by simp
  next
    case True
    then obtain c h where r: "writer_write g smp time (as_writer s) = (Ok (c, h), w')" using r by blast
    let ?f = "pw_format (as_writer s)" and ?i = "audio_block_index g c"
    let ?bs = "block_bytes h @ smp @ drop (56 + length smp) (rg_body (as_ring s) ?i)"
    let ?m = "ring_begin (audio_block_index g) ?bs (as_ring s)" and ?ws = "as_written s @ [(h, ?f, smp)]"
    have eq: "stream_write g smp time s = s\<lparr> as_writer := w', as_ring := ?m, as_written := ?ws \<rparr>"
      using r by (simp add: stream_write_def Let_def)
    note w = writer_write_ok [OF d(3) r]
    note b = begin_ok [OF d(2) st room w(1) refl, of ?i]
    have rd: "sreader_ok g ?m ?ws (as_readers s i)" for i by (rule sreader_ok_moves [OF d(7) b(2)]) (simp add: b(3))
    have fol: "follows (?ws ! n) (bh_sample_position h') f' (bh_flags h')" if "Suc n < length ?ws" "?ws ! Suc n = (h', f', smp')" for n h' f' smp'
    proof (cases "Suc n < length (as_written s)")
      case True
      then show ?thesis using d(6) [OF True] that by (simp add: nth_append)
    next
      case False
      then have n: "n = length (as_written s) - 1" "as_written s \<noteq> []" "(h', f', smp') = (h, ?f, smp)" using that by (auto simp: nth_append split: if_splits)
      then show ?thesis using d(5) w(6,7) by (simp add: nth_append last_conv_nth)
    qed
    show ?thesis
      unfolding eq stream_inv_def using d(1) b(1) w rd fol d(4)
      by (auto simp: follows_def split: prod.split)
  qed
qed

lemma reconfigure_ok:
  assumes "writer_ok g w" "follows x (pw_position w) (pw_format w) (pw_flags w)"
  shows "writer_ok g (snd (writer_reconfigure g f w))"
    "follows x (pw_position (snd (writer_reconfigure g f w))) (pw_format (snd (writer_reconfigure g f w))) (pw_flags (snd (writer_reconfigure g f w)))"
proof -
  have "(a OR RECONFIGURATION) AND RECONFIGURATION \<noteq> 0" for a :: u32
  proof -
    have "(a OR RECONFIGURATION) AND RECONFIGURATION = RECONFIGURATION" by (rule bit_word_eqI) (auto simp: bit_simps)
    then show ?thesis by (simp add: RECONFIGURATION_def)
  qed
  then show "follows x (pw_position (snd (writer_reconfigure g f w))) (pw_format (snd (writer_reconfigure g f w))) (pw_flags (snd (writer_reconfigure g f w)))"
    using assms(2) by (cases x) (auto simp: writer_reconfigure_def follows_def)
  show "writer_ok g (snd (writer_reconfigure g f w))" using assms(1) by (auto simp: writer_reconfigure_def writer_ok_def not_le)
qed

lemma writer_only_inv:
  assumes inv: "stream_inv g s" and "writer_ok g w" "pw_cursor w = pw_cursor (as_writer s)"
    and "as_written s \<noteq> [] \<Longrightarrow> follows (last (as_written s)) (pw_position w) (pw_format w) (pw_flags w)"
  shows "stream_inv g (s\<lparr> as_writer := w \<rparr>)"
  using assms by (auto simp: stream_inv_def)

lemma reader_only_inv: "stream_inv g s \<Longrightarrow> sreader_ok g (as_ring s) (as_written s) rd \<Longrightarrow> stream_inv g (s\<lparr> as_readers := (as_readers s)(i := rd) \<rparr>)"
  by (simp add: stream_inv_def)

lemma reader_fresh_ok: "ring_shape g \<Longrightarrow> unat (ar_blocks g) < 2 ^ 32 \<Longrightarrow> sreader_ok g m ws (reader_fresh g f latency)"
proof -
  assume s: "ring_shape g" "unat (ar_blocks g) < 2 ^ 32"
  let ?b = "unat (ucast (ar_blocks g) :: u32)"
  have b: "?b = unat (ar_blocks g)" using s(2) by (simp add: unsigned_ucast_eq unsigned_take_bit_eq take_bit_nat_eq_self)
  have "unat (of_nat (min n (?b - 1)) :: u64) < unat (ar_blocks g)" for n
  proof -
    have "min n (?b - 1) < unat (ar_blocks g)" "unat (ar_blocks g) < 2 ^ 64" using s b by (auto simp: ring_shape_def min_def)
    then show ?thesis by (simp add: unat_of_nat)
  qed
  then show ?thesis by (simp add: sreader_ok_def reader_fresh_def playback_reader_new_def audio_descriptor_def next_ok_def log_ok_def Let_def)
qed

lemma stream_step_inv:
  assumes inv: "stream_inv g s" and b: "unat (ar_blocks g) < 2 ^ 32"
  shows "stream_inv g (stream_step g e s)"
proof -
  note d = stream_invD [OF inv]
  show ?thesis
  proof (cases e)
    case (WriteBlock smp time)
    then show ?thesis using inv stream_write_inv [OF inv] by simp
  next
    case (WriterAccess k)
    show ?thesis
    proof (cases "rg_stage (as_ring s) = Ready")
      case False
      note a = writer_access_ok [OF d(2) False, of k]
      have "sreader_ok g (ring_access (audio_block_index g) [] k (as_ring s)) (as_written s @ []) (as_readers s i)" for i
        by (rule sreader_ok_moves [OF d(7) a(2,3)])
      then show ?thesis using inv a(1) WriterAccess False by (simp add: stream_inv_def)
    qed (use inv WriterAccess in simp)
  next
    case Discontinuity
    have fd: "follows x (pw_position w) (pw_format w) (pw_flags w) \<Longrightarrow> follows x (pw_position w) (pw_format w) (pw_flags w OR DISCONTINUITY)" for x w
      by (cases x) (auto simp: follows_def bit.conj_disj_distrib2 or_eq_0_iff)
    show ?thesis using Discontinuity d(3) fd [OF d(5)] inv
      by (auto intro!: writer_only_inv simp: writer_discontinuity_def writer_ok_def)
  next
    case (Reconfigure f)
    have "pw_cursor (snd (writer_reconfigure g f w)) = pw_cursor w" for w by (simp add: writer_reconfigure_def)
    moreover have "writer_ok g (snd (writer_reconfigure g f w))" if "writer_ok g w" for w
      using that by (auto simp: writer_reconfigure_def writer_ok_def not_le)
    ultimately show ?thesis using Reconfigure d(3) reconfigure_ok(2) [OF d(3) d(5), of f] inv by (auto intro!: writer_only_inv)
  next
    case (OpenReader i latency)
    then show ?thesis using reader_only_inv [OF inv] reader_fresh_ok [OF d(1) b] by simp
  next
    case (CallRead i)
    have "sreader_ok g (as_ring s) (as_written s) ((as_readers s i)\<lparr> sr_pc := ReadLatest 2 \<rparr>)" if "sr_pc (as_readers s i) = ReadIdle"
      using d(7) [of i] that by (auto simp: sreader_ok_def next_ok_def Let_def)
    then show ?thesis using reader_only_inv [OF inv] inv CallRead by simp
  next
    case (ReaderAccess i k)
    then show ?thesis using reader_only_inv [OF inv] stream_read_ok [OF d(2,7)] by simp
  qed
qed

lemma shared_new_blocks:
  assumes "audio_shared_new st = Ok (g, mem)"
  shows "ring_shape g" "unat (ar_blocks g) < 2 ^ 32" "writer_ok g (playback_writer_new (st_format st))"
proof -
  obtain n where n: "n < 2 ^ 32" "2 \<le> n" "audio_ring_create (of_nat n) (unat (st_block_frames st) * format_frame_bytes (st_format st)) = Ok (g, mem)"
    "format_valid (st_format st)" using assms by (rule shared_newD)
  have u: "unat (of_nat n :: u64) = n" using n(1) by (simp add: unat_of_nat)
  show "ring_shape g" using create_shape [OF n(3)] n(2) u by simp
  have "ar_blocks g = of_nat n" using n(3) by (auto simp: audio_ring_create_def Let_def split: option.splits)
  then show "unat (ar_blocks g) < 2 ^ 32" using u n(1) by simp
  show "writer_ok g (playback_writer_new (st_format st))"
    using shared_new_fits(2) [OF assms] n(4) format_frame_bytes_pos [OF n(4)] u32_bound [of "st_block_frames st"]
    by (simp add: writer_ok_def playback_writer_new_def)
qed

lemma stream_reachable_inv: "stream_reachable g s \<Longrightarrow> stream_inv g s \<and> unat (ar_blocks g) < 2 ^ 32"
proof (induction rule: stream_reachable.induct)
  case (start st mem)
  note b = shared_new_blocks [OF start]
  have "stream_ring_ok g (ring_init (56 + ar_payload_len g)) []"
    using ring_inv_init [of "audio_block_index g" "56 + ar_payload_len g"] settled_init [of "audio_block_index g" "56 + ar_payload_len g"]
    by (simp add: stream_ring_ok_def ring_init_def)
  then show ?case
    using b reader_fresh_ok [OF b(1,2)] by (simp add: stream_inv_def stream_init_def playback_writer_new_def)
qed (simp add: stream_step_inv)

section \<open>Property\<close>

text \<open>C39. A reader of an audio ring gets the writer's blocks and knows what it missed.  In every interleaving of the writer's accesses, its
  reconfigurations and any number of readers, every block that a reader returns is exactly the block written under its cursor
  (samples, position, time, format, generation and flags); the cursors a reader returns increase strictly; and a block carries the
  gap mark exactly when it does not follow the reader's previous block.  The blocks written carry consecutive sample positions, and a
  change of format is marked as a reconfiguration.\<close>

theorem audio_reader_exact:
  assumes "stream_reachable g s"
  shows "(\<forall>i. let log = sr_log (as_readers s i) in
      (\<forall>b\<in>set log. ab_cursor b \<noteq> 0 \<and> unat (ab_cursor b) \<le> length (as_written s) \<and>
         (case as_written s ! (unat (ab_cursor b) - 1) of (h, f, smp) \<Rightarrow> b = block_of (ab_cursor b) h f (ab_gap b) smp)) \<and>
      (\<forall>j. Suc j < length log \<longrightarrow> ab_cursor (log ! j) < ab_cursor (log ! Suc j) \<and>
         (ab_gap (log ! Suc j) \<longleftrightarrow> ab_cursor (log ! Suc j) \<noteq> ab_cursor (log ! j) + 1))) \<and>
    (\<forall>n h f smp h' f' smp'. Suc n < length (as_written s) \<longrightarrow> as_written s ! n = (h, f, smp) \<longrightarrow> as_written s ! Suc n = (h', f', smp') \<longrightarrow>
      bh_sample_position h' = bh_sample_position h + ucast (bh_frames h) \<and> (f' \<noteq> f \<longrightarrow> bh_flags h' AND RECONFIGURATION \<noteq> 0))"
proof -
  have inv: "stream_inv g s" using stream_reachable_inv [OF assms] by simp
  have "log_ok (as_written s) (sr_log (as_readers s i))" for i using stream_invD(7) [OF inv] by (simp add: sreader_ok_def)
  moreover have "follows (h, f, smp) (bh_sample_position h') f' (bh_flags h')"
    if "Suc n < length (as_written s)" "as_written s ! n = (h, f, smp)" "as_written s ! Suc n = (h', f', smp')" for n h f smp h' f' smp'
    using stream_invD(6) [OF inv that(1,3)] that(2) by simp
  ultimately show ?thesis unfolding Let_def log_ok_def follows_def prod.case by blast
qed

lemma audio_reader_exact_witness:
  "\<exists>g mem. audio_shared_new \<lparr> st_format = \<lparr> fm_rate = 8000, fm_channels = 1, fm_layout = Mono, fm_sample = U8 \<rparr>,
       st_block_frames = 8, st_depth = 250000000 \<rparr> = Ok (g, mem) \<and>
     (let s = stream_step g (WriteBlock [128, 129] 5) (stream_init g \<lparr> fm_rate = 8000, fm_channels = 1, fm_layout = Mono, fm_sample = U8 \<rparr>)
      in length (as_written s) = 1 \<and> (\<forall>b\<in>set (sr_log (as_readers s 0)). unat (ab_cursor b) \<le> 1))"
proof -
  let ?f = "\<lparr> fm_rate = 8000, fm_channels = 1, fm_layout = Mono, fm_sample = U8 \<rparr>"
  let ?st = "\<lparr> st_format = ?f, st_block_frames = 8, st_depth = 250000000 \<rparr>"
  obtain g mem where g: "audio_shared_new ?st = Ok (g, mem)"
    by (simp add: audio_shared_new_def audio_ring_create_def checked_map_len_def format_valid_def format_frame_bytes_def div_ceil_def
        MIN_DEPTH_def BLOCK_ALIGN_def HEADER_LEN_def next_multiple_of_def Let_def)
  let ?s = "stream_step g (WriteBlock [128, 129] 5) (stream_init g ?f)"
  have r: "stream_reachable g ?s" using stream_reachable.step [OF stream_reachable.start [OF g]] by (simp only: settings.simps)
  have "ar_payload_len g = 8" using shared_new_fits(2) [OF g] by (simp add: format_frame_bytes_def)
  then have "length (as_written ?s) = 1"
    by (simp add: stream_init_def stream_write_def writer_write_def playback_writer_new_def format_frame_bytes_def ring_init_def Let_def)
  then show ?thesis using g audio_reader_exact [OF r] unfolding Let_def by (intro exI [of _ g] exI [of _ mem]) auto
qed

end
