(* ===== verification/Recording.thy ===== *)
theory Recording
  imports Handshake Audio_Stream
begin

text \<open>
  Handover of a recording track (\<open>audio.rs\<close>): host threads admit a writer with a fresh ring and end its admission under the
  mutex of the track's writers; the source's audio thread reads without ever waiting for that mutex.  The accesses that the two
  sides can see of each other are single steps: taking the mutex, the store and load of the admitted writer's epoch, and what
  is done while the mutex is held.  A ring is named by the epoch it was made for, the track's own ring by 0.
\<close>

section \<open>Blocks\<close>

text \<open>\<open>RecordingWriter::map\<close> on a ring whose latest cursor is \<open>latest\<close>; \<open>RecordingReader::read\<close> with no writer.\<close>

definition recording_writer_map :: "u64 \<Rightarrow> descriptor \<Rightarrow> playback_writer" where
  "recording_writer_map latest d = \<lparr> pw_format = ds_format d, pw_generation = 1, pw_position = 0, pw_cursor = latest, pw_flags = DISCONTINUITY \<rparr>"

definition silence_block :: "descriptor \<Rightarrow> nat \<Rightarrow> played_block" where
  "silence_block d payload_len =
     \<lparr> ab_cursor = 0, ab_sample_position = 0, ab_host_time_ns = 0, ab_frames = ds_block_frames d, ab_format = ds_format d, ab_generation = 0,
       ab_discontinuity = False, ab_reconfiguration = False, ab_gap = False,
       ab_samples = replicate payload_len (if fm_sample (ds_format d) = U8 then 128 else 0) \<rparr>"

text \<open>A writer's first block marks the change of writer and starts at sample 0; a block of silence is a whole block of the ring.\<close>

lemma recording_first_block:
  assumes "writer_write g smp time (recording_writer_map latest d) = (Ok (c, h), w)"
  shows "c = latest + 1" "bh_sample_position h = 0" "bh_flags h = DISCONTINUITY" "pw_flags w = 0"
  using assms by (auto simp: writer_write_def recording_writer_map_def Let_def split: if_splits)

lemma silence_whole_block:
  assumes "audio_shared_new s = Ok (g, mem)" "d = audio_descriptor g (st_format s)"
  shows "length (ab_samples (silence_block d (ar_payload_len g))) = unat (ab_frames (silence_block d (ar_payload_len g))) * format_frame_bytes (ab_format (silence_block d (ar_payload_len g)))"
proof -
  have f: "ds_format d = st_format s" using assms(2) by (simp add: audio_descriptor_def)
  have p: "ar_payload_len g = unat (st_block_frames s) * format_frame_bytes (st_format s)" by (rule shared_new_fits(2) [OF assms(1)])
  have "unat (ds_block_frames d) = ar_payload_len g div format_frame_bytes (st_format s)" "format_valid (st_format s)"
    using shared_new_fits(1) [OF assms(1)] f by (simp_all add: audio_ring_fits_def assms(2))
  then show ?thesis using f p format_frame_bytes_pos by (simp add: silence_block_def)
qed

section \<open>Steps\<close>

datatype host_pc = HFree | HClaim | HStore | HDrop | HRetire

datatype reader_pc = RIdle | RLoaded u64 | RChosen u64

text \<open>What \<open>RecordingReader::read\<close> answers with: a block of silence, or what \<open>PlaybackReader::read\<close> gives on a ring.\<close>

datatype recording_read = Silence | Played u64

record recording =
  rc_shared :: playback
  rc_host :: host_pc
  rc_leases :: nat
  rc_claims :: nat
  rc_writer :: u64
  rc_next :: u64
  rc_pc :: reader_pc
  rc_log :: "(u64 \<times> recording_read) list"

definition recording_new :: "audio_ring \<Rightarrow> recording" where
  "recording_new ring =
     \<lparr> rc_shared = \<lparr> pb_ring = ring, pb_recording = True, pb_writer = 0, pb_epoch = 0, pb_current = None, pb_retired = [], pb_reading = 0, pb_bells = [] \<rparr>,
       rc_host = HFree, rc_leases = 0, rc_claims = 0, rc_writer = 0, rc_next = 0, rc_pc = RIdle, rc_log = [] \<rparr>"

text \<open>The thread that holds the mutex, in \<open>Playback::claim\<close> or \<open>Lease::drop\<close>; \<open>alloc\<close> says whether the fresh ring was made.\<close>

fun host_step :: "bool \<Rightarrow> host_pc \<Rightarrow> recording \<Rightarrow> recording" where
  "host_step alloc HClaim r =
     (let p = rc_shared r in
      if \<not> pb_recording p \<or> pb_writer p \<noteq> 0 \<or> \<not> alloc then r\<lparr> rc_host := HFree \<rparr>
      else let p = writers_retire p; e = pb_epoch p + 1
           in r\<lparr> rc_shared := p\<lparr> pb_epoch := e, pb_current := Some e \<rparr>, rc_claims := rc_claims r + 1, rc_host := HStore \<rparr>)"
| "host_step alloc HStore r =
     r\<lparr> rc_shared := (rc_shared r)\<lparr> pb_writer := pb_epoch (rc_shared r) \<rparr>, rc_leases := rc_leases r + 1, rc_host := HFree \<rparr>"
| "host_step alloc HDrop r = r\<lparr> rc_shared := (rc_shared r)\<lparr> pb_writer := 0 \<rparr>, rc_host := HRetire \<rparr>"
| "host_step alloc HRetire r = r\<lparr> rc_shared := writers_retire (rc_shared r), rc_host := HFree \<rparr>"
| "host_step alloc HFree r = r"

text \<open>\<open>RecordingReader::read\<close>: load the epoch, switch rings if the mutex is free, answer.\<close>

fun reader_step :: "reader_pc \<Rightarrow> recording \<Rightarrow> recording" where
  "reader_step RIdle r = r\<lparr> rc_pc := RLoaded (pb_writer (rc_shared r)) \<rparr>"
| "reader_step (RLoaded w) r =
     (let p = rc_shared r in
      if w \<noteq> 0 \<and> w \<noteq> rc_writer r \<and> rc_host r = HFree then
        (case pb_current p of
           Some ring \<Rightarrow>
             if pb_epoch p = w then r\<lparr> rc_shared := p\<lparr> pb_reading := ring \<rparr>, rc_writer := w, rc_next := 0, rc_pc := RChosen w \<rparr>
             else r\<lparr> rc_pc := RChosen w \<rparr>
         | None \<Rightarrow> r\<lparr> rc_pc := RChosen w \<rparr>)
      else r\<lparr> rc_pc := RChosen w \<rparr>)"
| "reader_step (RChosen w) r =
     r\<lparr> rc_pc := RIdle, rc_log := rc_log r @ [(w, if w = 0 \<or> w \<noteq> rc_writer r then Silence else Played (pb_reading (rc_shared r)))] \<rparr>"

datatype recording_event = BeginClaim | BeginDrop | HostStep bool | ReaderStep | ReaderAdvance u64

fun recording_step :: "recording_event \<Rightarrow> recording \<Rightarrow> recording" where
  "recording_step BeginClaim r = (if rc_host r = HFree then r\<lparr> rc_host := HClaim \<rparr> else r)"
| "recording_step BeginDrop r = (if rc_host r = HFree \<and> 0 < rc_leases r then r\<lparr> rc_host := HDrop, rc_leases := rc_leases r - 1 \<rparr> else r)"
| "recording_step (HostStep alloc) r = host_step alloc (rc_host r) r"
| "recording_step ReaderStep r = reader_step (rc_pc r) r"
| "recording_step (ReaderAdvance n) r = r\<lparr> rc_next := n \<rparr>"

inductive recording_reachable :: "audio_ring \<Rightarrow> recording \<Rightarrow> bool" for ring where
  start: "recording_reachable ring (recording_new ring)"
| step: "recording_reachable ring r \<Longrightarrow> recording_reachable ring (recording_step e r)"

text \<open>Without another thread in between, the steps are the operations of the handshake's model.\<close>

lemma claim_steps:
  assumes "rc_host r = HFree" "rc_leases r = 0"
  shows "rc_shared (fold recording_step [BeginClaim, HostStep alloc, HostStep alloc] r) = snd (playback_claim alloc (rc_shared r)) \<and>
    (0 < rc_leases (fold recording_step [BeginClaim, HostStep alloc, HostStep alloc] r) \<longleftrightarrow> fst (playback_claim alloc (rc_shared r)))"
  using assms by (auto simp: playback_claim_def Let_def)

lemma drop_steps:
  assumes "rc_host r = HFree" "0 < rc_leases r"
  shows "rc_shared (fold recording_step [BeginDrop, HostStep a, HostStep a] r) = lease_drop (rc_shared r)"
  using assms by (simp add: lease_drop_def)

section \<open>Invariant\<close>

fun host_inv :: "host_pc \<Rightarrow> nat \<Rightarrow> playback \<Rightarrow> bool" where
  "host_inv HFree n p \<longleftrightarrow> (if n = 0 then pb_writer p = 0 \<and> pb_current p = None else n = 1 \<and> pb_writer p = pb_epoch p \<and> pb_epoch p \<noteq> 0 \<and> pb_current p = Some (pb_epoch p))"
| "host_inv HClaim n p \<longleftrightarrow> (if n = 0 then pb_writer p = 0 \<and> pb_current p = None else n = 1 \<and> pb_writer p = pb_epoch p \<and> pb_epoch p \<noteq> 0 \<and> pb_current p = Some (pb_epoch p))"
| "host_inv HStore n p \<longleftrightarrow> n = 0 \<and> pb_writer p = 0 \<and> pb_epoch p \<noteq> 0 \<and> pb_current p = Some (pb_epoch p)"
| "host_inv HDrop n p \<longleftrightarrow> n = 0 \<and> pb_writer p = pb_epoch p \<and> pb_epoch p \<noteq> 0 \<and> pb_current p = Some (pb_epoch p)"
| "host_inv HRetire n p \<longleftrightarrow> n = 0 \<and> pb_writer p = 0 \<and> pb_epoch p \<noteq> 0 \<and> pb_current p = Some (pb_epoch p)"

text \<open>The host holds the ring that is read, and at most one earlier ring.\<close>

definition rings_held :: "playback \<Rightarrow> bool" where
  "rings_held p \<longleftrightarrow> (pb_reading p = 0 \<or> pb_current p = Some (pb_reading p) \<or> pb_reading p \<in> set (pb_retired p)) \<and>
     (\<forall>e\<in>set (pb_retired p). e \<le> pb_epoch p) \<and> length (pb_retired p) \<le> 1 \<and> (\<forall>e. pb_current p = Some e \<longrightarrow> e \<notin> set (pb_retired p))"

definition recording_inv :: "recording \<Rightarrow> bool" where
  "recording_inv r \<longleftrightarrow> pb_recording (rc_shared r) \<and> unat (pb_epoch (rc_shared r)) = rc_claims r \<and> host_inv (rc_host r) (rc_leases r) (rc_shared r) \<and>
     rings_held (rc_shared r) \<and> rc_writer r = pb_reading (rc_shared r) \<and> (\<forall>(w, x)\<in>set (rc_log r). x = Silence \<or> w \<noteq> 0 \<and> x = Played w)"

lemma filter_short: "distinct xs \<Longrightarrow> length (filter (\<lambda>e. e = x) xs) \<le> 1"
  by (induction xs) (auto simp: filter_empty_conv)

lemma writers_retire_held:
  assumes h: "rings_held p" and c: "pb_current p = None \<or> pb_current p = Some (pb_epoch p)"
  shows "rings_held (writers_retire p)"
proof -
  let ?xs = "pb_retired p @ (case pb_current p of Some e \<Rightarrow> [e] | None \<Rightarrow> [])"
  have "distinct (pb_retired p)" using h by (cases "pb_retired p") (auto simp: rings_held_def)
  then have "distinct ?xs" using h by (auto simp: rings_held_def split: option.split)
  from filter_short [OF this, of "pb_reading p"]
  have r: "length (pb_retired (writers_retire p)) \<le> 1" by (simp add: writers_retire_def)
  have f: "pb_current (writers_retire p) = None" "pb_reading (writers_retire p) = pb_reading p" "pb_epoch (writers_retire p) = pb_epoch p"
    by (simp_all add: writers_retire_def)
  have s: "set (pb_retired (writers_retire p)) = {e. e = pb_reading p \<and> (e \<in> set (pb_retired p) \<or> pb_current p = Some e)}"
    by (auto simp: writers_retire_def split: option.splits)
  show ?thesis using h c r unfolding rings_held_def f s by auto
qed

lemma writers_retire_simps [simp]:
  "pb_recording (writers_retire p) = pb_recording p" "pb_epoch (writers_retire p) = pb_epoch p" "pb_writer (writers_retire p) = pb_writer p"
  "pb_reading (writers_retire p) = pb_reading p" "pb_current (writers_retire p) = None"
  by (simp_all add: writers_retire_def)

lemma host_inv_current: "host_inv pc n p \<Longrightarrow> pb_current p = None \<or> pb_current p = Some (pb_epoch p)"
  by (cases pc) (auto split: if_splits)

lemma next_epoch: "unat (e :: u64) + 1 < 2 ^ 64 \<Longrightarrow> unat (e + 1) = unat e + 1 \<and> e < e + 1"
  by (simp add: unat_plus64 word_less_nat_alt)

lemma host_step_inv:
  assumes inv: "recording_inv r" and small: "rc_claims (host_step alloc (rc_host r) r) < 2 ^ 64"
  shows "recording_inv (host_step alloc (rc_host r) r)"
proof -
  let ?p = "rc_shared r"
  have h: "host_inv (rc_host r) (rc_leases r) ?p" "rings_held ?p" using inv by (simp_all add: recording_inv_def)
  note held = writers_retire_held [OF h(2) host_inv_current [OF h(1)]]
  show ?thesis
  proof (cases "rc_host r")
    case HClaim
    show ?thesis
    proof (cases "\<not> pb_recording ?p \<or> pb_writer ?p \<noteq> 0 \<or> \<not> alloc")
      case True
      then show ?thesis using inv HClaim by (auto simp: recording_inv_def Let_def)
    next
      case False
      let ?q = "writers_retire ?p" and ?e = "pb_epoch ?p + 1"
      have step: "host_step alloc (rc_host r) r = r\<lparr> rc_shared := ?q\<lparr> pb_epoch := ?e, pb_current := Some ?e \<rparr>, rc_claims := rc_claims r + 1, rc_host := HStore \<rparr>"
        using False HClaim by (simp add: Let_def)
      have e: "unat ?e = unat (pb_epoch ?p) + 1" "pb_epoch ?p < ?e"
        using next_epoch [of "pb_epoch ?p"] small inv by (simp_all add: step recording_inv_def)
      have "rings_held (?q\<lparr> pb_epoch := ?e, pb_current := Some ?e \<rparr>)" using held e(2) by (fastforce simp: rings_held_def)
      then show ?thesis using inv h HClaim False e unfolding step by (auto simp: recording_inv_def unat_eq_0 [symmetric] split: if_splits)
    qed
  next
    case HStore
    then show ?thesis using inv h by (simp add: recording_inv_def rings_held_def)
  next
    case HDrop
    then show ?thesis using inv h by (simp add: recording_inv_def rings_held_def)
  next
    case HRetire
    then show ?thesis using inv h held by (simp add: recording_inv_def)
  qed (use inv in simp)
qed

lemma reader_step_inv:
  assumes inv: "recording_inv r"
  shows "recording_inv (reader_step (rc_pc r) r)"
proof (cases "rc_pc r")
  case (RLoaded w)
  have h: "host_inv (rc_host r) (rc_leases r) (rc_shared r)" using inv by (simp add: recording_inv_def)
  show ?thesis
  proof (cases "w \<noteq> 0 \<and> w \<noteq> rc_writer r \<and> rc_host r = HFree \<and> pb_current (rc_shared r) \<noteq> None \<and> pb_epoch (rc_shared r) = w")
    case True
    then have "pb_current (rc_shared r) = Some w" using h by (auto split: if_splits)
    then show ?thesis using inv True RLoaded by (auto simp: recording_inv_def rings_held_def Let_def split: if_splits)
  next
    case False
    then have "reader_step (rc_pc r) r = r\<lparr> rc_pc := RChosen w \<rparr>" using RLoaded by (auto simp: Let_def split: option.split)
    then show ?thesis using inv by (simp add: recording_inv_def)
  qed
qed (use inv in \<open>auto simp: recording_inv_def\<close>)

lemma recording_step_inv:
  assumes inv: "recording_inv r" and small: "rc_claims (recording_step e r) < 2 ^ 64"
  shows "recording_inv (recording_step e r)"
proof (cases e)
  case (HostStep alloc)
  then show ?thesis using host_step_inv [OF inv] small by simp
next
  case ReaderStep
  then show ?thesis using reader_step_inv [OF inv] by simp
qed (use inv in \<open>auto simp: recording_inv_def split: if_splits\<close>)

lemma claims_mono: "rc_claims r \<le> rc_claims (recording_step e r)"
proof -
  have "rc_claims r \<le> rc_claims (host_step alloc (rc_host r) r)" for alloc by (cases "rc_host r") (auto simp: Let_def)
  moreover have "rc_claims (reader_step (rc_pc r) r) = rc_claims r" by (cases "rc_pc r") (auto simp: Let_def split: option.split)
  ultimately show ?thesis by (cases e) auto
qed

lemma recording_reachable_inv: "recording_reachable ring r \<Longrightarrow> rc_claims r < 2 ^ 64 \<Longrightarrow> recording_inv r"
proof (induction rule: recording_reachable.induct)
  case start
  then show ?case by (simp add: recording_inv_def recording_new_def rings_held_def)
next
  case (step r e)
  then show ?case using recording_step_inv [of r e] claims_mono [of r e] by linarith
qed

section \<open>Property\<close>

text \<open>A read that meets no host thread.\<close>

lemma read_alone:
  assumes inv: "recording_inv r" and idle: "rc_pc r = RIdle" "rc_host r = HFree"
  shows "rc_log (fold recording_step [ReaderStep, ReaderStep, ReaderStep] r) =
    rc_log r @ [(pb_writer (rc_shared r), if pb_writer (rc_shared r) = 0 then Silence else Played (pb_writer (rc_shared r)))]"
proof -
  have h: "host_inv HFree (rc_leases r) (rc_shared r)" "rc_writer r = pb_reading (rc_shared r)" using inv unfolding recording_inv_def idle by blast+
  show ?thesis
  proof (cases "rc_leases r = 0")
    case True
    then show ?thesis using h idle by (simp add: Let_def)
  next
    case False
    then have "pb_writer (rc_shared r) = pb_epoch (rc_shared r)" "pb_epoch (rc_shared r) \<noteq> 0" "pb_current (rc_shared r) = Some (pb_epoch (rc_shared r))" using h by auto
    then show ?thesis using h idle by (simp add: Let_def)
  qed
qed

lemma reader_keeps_ring:
  assumes "rings_held (rc_shared r)"
  shows "let p' = rc_shared (reader_step (rc_pc r) r); old = pb_reading (rc_shared r)
    in old = 0 \<or> pb_current p' = Some old \<or> old \<in> set (pb_retired p')"
proof -
  have "pb_current (rc_shared (reader_step pc r)) = pb_current (rc_shared r) \<and> pb_retired (rc_shared (reader_step pc r)) = pb_retired (rc_shared r)" for pc
    by (cases pc) (simp_all add: Let_def split: option.split)
  then show ?thesis using assms by (simp add: rings_held_def Let_def)
qed

text \<open>C5. The handover of a recording is safe on the audio thread.  In every interleaving of admissions and ends of writers with the source's
  reads (fewer than 2^64 admissions): at most one writer is admitted; a read answers with silence or from the ring made for exactly the writer whose
  epoch it loaded; the host holds the ring that is read, and still holds the ring that the reader lets go of when it
  switches, so the audio thread never unmaps one; at most one earlier ring is kept; and a read that no host
  thread interrupts answers from the admitted writer's ring, or with silence if there is none.\<close>

theorem recording_handover_safe:
  assumes "recording_reachable ring r" "rc_claims r < 2 ^ 64"
  shows "rc_leases r \<le> 1 \<and> (\<forall>(w, x)\<in>set (rc_log r). x = Silence \<or> w \<noteq> 0 \<and> x = Played w) \<and>
    (let p = rc_shared r; p' = rc_shared (recording_step ReaderStep r) in
       (pb_reading p = 0 \<or> pb_current p = Some (pb_reading p) \<or> pb_reading p \<in> set (pb_retired p)) \<and>
       (pb_reading p = 0 \<or> pb_current p' = Some (pb_reading p) \<or> pb_reading p \<in> set (pb_retired p')) \<and> length (pb_retired p) \<le> 1) \<and>
    (rc_pc r = RIdle \<and> rc_host r = HFree \<longrightarrow>
       rc_log (fold recording_step [ReaderStep, ReaderStep, ReaderStep] r) =
         rc_log r @ [(pb_writer (rc_shared r), if 0 < rc_leases r then Played (pb_writer (rc_shared r)) else Silence)])"
proof -
  have inv: "recording_inv r" by (rule recording_reachable_inv [OF assms])
  have h: "host_inv (rc_host r) (rc_leases r) (rc_shared r)" "rings_held (rc_shared r)" using inv by (simp_all add: recording_inv_def)
  have "rc_leases r \<le> 1" using h(1) by (cases "rc_host r") (auto split: if_splits)
  moreover have "(pb_writer (rc_shared r) = 0) = (rc_leases r = 0)" if "rc_host r = HFree" using h(1) that by (auto split: if_splits)
  moreover have "\<forall>(w, x)\<in>set (rc_log r). x = Silence \<or> w \<noteq> 0 \<and> x = Played w" using inv by (simp add: recording_inv_def)
  ultimately show ?thesis using h(2) reader_keeps_ring [OF h(2)] read_alone [OF inv] by (auto simp: rings_held_def Let_def)
qed

definition sample_handover :: recording where
  "sample_handover = fold recording_step
     [BeginClaim, HostStep True, HostStep True, ReaderStep, ReaderStep, ReaderStep, BeginDrop, HostStep True, ReaderStep, HostStep True, ReaderStep, ReaderStep,
      BeginClaim, HostStep True, HostStep True]
     (recording_new \<lparr> ar_len = 5056, ar_blocks = 25, ar_block_len = 192, ar_payload_len = 80 \<rparr>)"

lemma fold_recording_reachable: "recording_reachable ring r \<Longrightarrow> recording_reachable ring (fold recording_step es r)"
  by (induction es arbitrary: r) (auto intro: recording_reachable.step)

lemma recording_handover_safe_witness:
  "rc_claims sample_handover = 2 \<and> pb_retired (rc_shared sample_handover) = [1] \<and>
   rc_log (fold recording_step [ReaderStep, ReaderStep, ReaderStep] sample_handover) = [(1, Played 1), (0, Silence), (2, Played 2)]"
proof -
  have st: "rc_claims sample_handover = 2" "pb_retired (rc_shared sample_handover) = [1]" "rc_log sample_handover = [(1, Played 1), (0, Silence)]"
    "rc_pc sample_handover = RIdle" "rc_host sample_handover = HFree" "rc_leases sample_handover = 1" "pb_writer (rc_shared sample_handover) = 2"
    by (simp_all add: sample_handover_def recording_new_def writers_retire_def Let_def)
  have "recording_reachable \<lparr> ar_len = 5056, ar_blocks = 25, ar_block_len = 192, ar_payload_len = 80 \<rparr> sample_handover"
    unfolding sample_handover_def by (intro fold_recording_reachable recording_reachable.start)
  from recording_handover_safe [OF this] show ?thesis using st by simp
qed

end
