(* ===== verification/Wait_Notification.thy ===== *)
theory Wait_Notification
  imports Arena_Memory
begin

text \<open>
  Waiting without lost wake-ups (\<open>acquisition/arena/wait.rs\<close>, its Unix and Windows channels, and the doorbell of \<open>audio.rs\<close>).
  Any number of threads change the words that a wait observes, ring the doorbell and cancel; one consumer
  thread waits on the arena and one on the doorbell.  Each shared access is one atomic step (all are sequentially consistent),
  and the steps interleave arbitrarily.  What a thread still has to do in a call of \<open>signal\<close>, \<open>close\<close>, \<open>ring\<close> or
  \<open>cancel\<close> is a list of actions.  The two operating systems provide the wake channel; the model takes its operations
  as arguments, and a locale states what they promise.
\<close>

section \<open>Observed events\<close>

record wait_events =
  we_data_cursor :: u64
  we_capacity_epoch :: u64
  we_reconfiguration_epoch :: u64
  we_closed :: bool

definition interest_changed :: "u64 \<Rightarrow> wait_events \<Rightarrow> wait_events \<Rightarrow> bool" where
  "interest_changed i before after \<longleftrightarrow> we_closed after \<or> we_reconfiguration_epoch before \<noteq> we_reconfiguration_epoch after \<or>
     (i AND DATA \<noteq> 0 \<and> we_data_cursor before \<noteq> we_data_cursor after) \<or>
     (i AND CAPACITY \<noteq> 0 \<and> we_capacity_epoch before \<noteq> we_capacity_epoch after)"

datatype wait_word = Latest | CapacityEpoch | ReconfigurationEpoch | Active | Terminal

datatype wait_outcome = Changed wait_events | Cancelled | TimedOut | DeadlineOverflow | WaitFailed io_error

text \<open>The loads of \<open>events\<close>, in their order; \<open>is_closed\<close> reads \<open>TERMINAL\<close> only if the incarnation is active.\<close>

definition load_order :: "wait_word list" where
  "load_order = [Latest, CapacityEpoch, ReconfigurationEpoch, Active, Terminal]"

definition loads_done :: "u64 list \<Rightarrow> bool" where
  "loads_done vals \<longleftrightarrow> length vals = 5 \<or> length vals = 4 \<and> vals ! 3 = 0"

definition events_of :: "u64 list \<Rightarrow> wait_events" where
  "events_of vals = \<lparr> we_data_cursor = vals ! 0, we_capacity_epoch = vals ! 1, we_reconfiguration_epoch = vals ! 2,
     we_closed = (vals ! 3 = 0 \<or> vals ! 4 \<noteq> 0) \<rparr>"

definition events_now :: "(wait_word \<Rightarrow> u64) \<Rightarrow> wait_events" where
  "events_now m = \<lparr> we_data_cursor = m Latest, we_capacity_epoch = m CapacityEpoch, we_reconfiguration_epoch = m ReconfigurationEpoch,
     we_closed = (m Active = 0 \<or> m Terminal \<noteq> 0) \<rparr>"

section \<open>Threads\<close>

datatype action =
    CloseA              \<comment> \<open>\<open>ClaimMap::close\<close>\<close>
  | SignalA u64         \<comment> \<open>\<open>ClaimMap::signal\<close>, from the doorbell on\<close>
  | InterestA u64       \<comment> \<open>\<open>ClaimMap::signal\<close>, from the load of the interest on\<close>
  | WriteWake
  | RingA u64           \<comment> \<open>\<open>BellInner::ring\<close>\<close>
  | WriteBell
  | CancelA             \<comment> \<open>\<open>Cancellation::cancel\<close>\<close>
  | WriteCancel

datatype change = PublishCursor u64 | ReturnCredit | NextReconfiguration | Terminate | CloseIncarnation | RingBit u64 | CancelWait

datatype waiter =
    WIdle
  | WArm wait_events u64
  | WDrain wait_events u64
  | WCancel wait_events u64
  | WLoad wait_events u64 "u64 list"
  | WSleep wait_events u64 "u64 list"
  | WDisarm wait_outcome
  | WDone wait_outcome

datatype bell_waiter = BIdle | BDrain | BTake | BDecide u64 | BSleep | BDone "(u64, io_error) outcome"

record 'c wait_state =
  ws_words :: "wait_word \<Rightarrow> u64"
  ws_interest :: u64
  ws_wake :: 'c
  ws_video_bit :: "u64 option"
  ws_hint :: u64
  ws_bell :: 'c
  ws_cancelled :: bool
  ws_cancel :: 'c
  ws_acts :: "nat \<Rightarrow> action list"
  ws_waiter :: waiter
  ws_bell_waiter :: bell_waiter

text \<open>What a thread does first, and what it then still has to do.\<close>

fun begin_change :: "change \<Rightarrow> (wait_word \<Rightarrow> u64) \<Rightarrow> (wait_word \<Rightarrow> u64) \<times> action list" where
  "begin_change (PublishCursor v) m = (m(Latest := v), [SignalA DATA])"
| "begin_change ReturnCredit m =
     (m(CapacityEpoch := m CapacityEpoch + 1), (if m CapacityEpoch = - 1 then [CloseA] else []) @ [SignalA CAPACITY])"
| "begin_change NextReconfiguration m =
     (if m ReconfigurationEpoch = - 1 then (m(Terminal := 1), [CloseA])
      else (m(ReconfigurationEpoch := m ReconfigurationEpoch + 1), [SignalA RECONFIGURATION]))"
| "begin_change Terminate m = (m(Terminal := 1), [CloseA])"
| "begin_change CloseIncarnation m = (m, [CloseA])"
| "begin_change (RingBit b) m = (m, [RingA b])"
| "begin_change CancelWait m = (m, [CancelA])"

type_synonym 'c signal_fun = "'c \<Rightarrow> (unit, io_error) outcome \<times> 'c"

text \<open>One action of a thread: the state without the thread, and what is left.\<close>

fun act_step :: "'c signal_fun \<Rightarrow> action \<Rightarrow> 'c wait_state \<Rightarrow> 'c wait_state \<times> action list" where
  "act_step signal CloseA s =
     (s\<lparr> ws_words := (ws_words s)(Active := 0) \<rparr>, if ws_words s Active \<noteq> 0 then [SignalA CLOSED] else [])"
| "act_step signal (SignalA b) s =
     (s, (if b AND (DATA OR RECONFIGURATION OR CLOSED) \<noteq> 0 then (case ws_video_bit s of Some v \<Rightarrow> [RingA v] | None \<Rightarrow> []) else []) @ [InterestA b])"
| "act_step signal (InterestA b) s = (s, if ws_interest s AND b = 0 then [] else [WriteWake])"
| "act_step signal WriteWake s =
     (case signal (ws_wake s) of
        (Err e, c) \<Rightarrow>
          if e = BrokenPipe \<or> e = ConnectionReset then (s\<lparr> ws_wake := c, ws_words := (ws_words s)(Active := 0) \<rparr>, []) else (s\<lparr> ws_wake := c \<rparr>, [])
      | (_, c) \<Rightarrow> (s\<lparr> ws_wake := c \<rparr>, []))"
| "act_step signal (RingA b) s = (s\<lparr> ws_hint := ws_hint s OR b \<rparr>, if ws_hint s \<noteq> 0 then [] else [WriteBell])"
| "act_step signal WriteBell s = (s\<lparr> ws_bell := snd (signal (ws_bell s)) \<rparr>, [])"
| "act_step signal CancelA s = (s\<lparr> ws_cancelled := True \<rparr>, if ws_cancelled s then [] else [WriteCancel])"
| "act_step signal WriteCancel s = (s\<lparr> ws_cancel := snd (signal (ws_cancel s)) \<rparr>, [])"

section \<open>The waiting consumer\<close>

text \<open>One step of \<open>ArenaConsumer::wait\<close>.  \<open>late\<close> says whether the deadline has passed, \<open>fault\<close> what the operating system's sleep
  failed with, if it did; a sleep may also return for no reason.  A deadline that overflows ends the wait before it starts.\<close>

fun waiter_step :: "'c signal_fun \<Rightarrow> bool \<Rightarrow> io_error option \<Rightarrow> waiter \<Rightarrow> 'c wait_state \<Rightarrow> 'c wait_state" where
  "waiter_step drain late fault (WArm obs i) s = s\<lparr> ws_interest := i OR CLOSED OR RECONFIGURATION, ws_waiter := WDrain obs i \<rparr>"
| "waiter_step drain late fault (WDrain obs i) s =
     (case drain (ws_wake s) of
        (Err e, c) \<Rightarrow> s\<lparr> ws_wake := c, ws_waiter := WDisarm (WaitFailed e) \<rparr>
      | (_, c) \<Rightarrow> s\<lparr> ws_wake := c, ws_waiter := WCancel obs i \<rparr>)"
| "waiter_step drain late fault (WCancel obs i) s = s\<lparr> ws_waiter := (if ws_cancelled s then WDisarm Cancelled else WLoad obs i []) \<rparr>"
| "waiter_step drain late fault (WLoad obs i vals) s =
     (let vals = vals @ [ws_words s (load_order ! length vals)] in
      s\<lparr> ws_waiter :=
           (if \<not> loads_done vals then WLoad obs i vals
            else if interest_changed i obs (events_of vals) then WDisarm (Changed (events_of vals))
            else if late then WDisarm TimedOut else WSleep obs i vals) \<rparr>)"
| "waiter_step drain late fault (WSleep obs i vals) s =
     s\<lparr> ws_waiter := (case fault of Some e \<Rightarrow> WDisarm (WaitFailed e) | None \<Rightarrow> WDrain obs i) \<rparr>"
| "waiter_step drain late fault (WDisarm r) s = s\<lparr> ws_interest := 0, ws_waiter := WDone r \<rparr>"
| "waiter_step drain late fault _ s = s"

text \<open>One step of \<open>Doorbell::wait\<close>.\<close>

fun bell_step :: "'c signal_fun \<Rightarrow> bool \<Rightarrow> io_error option \<Rightarrow> bell_waiter \<Rightarrow> 'c wait_state \<Rightarrow> 'c wait_state" where
  "bell_step drain late fault BDrain s =
     (case drain (ws_bell s) of
        (Err e, c) \<Rightarrow> s\<lparr> ws_bell := c, ws_bell_waiter := BDone (Err e) \<rparr>
      | (_, c) \<Rightarrow> s\<lparr> ws_bell := c, ws_bell_waiter := BTake \<rparr>)"
| "bell_step drain late fault BTake s = s\<lparr> ws_hint := 0, ws_bell_waiter := BDecide (ws_hint s) \<rparr>"
| "bell_step drain late fault (BDecide changed) s =
     s\<lparr> ws_bell_waiter := (if changed \<noteq> 0 \<or> ws_cancelled s \<or> late then BDone (Ok changed) else BSleep) \<rparr>"
| "bell_step drain late fault BSleep s = s\<lparr> ws_bell_waiter := (case fault of Some e \<Rightarrow> BDone (Err e) | None \<Rightarrow> BDrain) \<rparr>"
| "bell_step drain late fault _ s = s"

datatype wait_event =
    BeginChange nat change
  | Act nat
  | BeginWait wait_events u64 bool
  | WaiterStep bool "io_error option"
  | BeginBell
  | BellStep bool "io_error option"
  | TakeHint

fun wait_step :: "'c signal_fun \<Rightarrow> 'c signal_fun \<Rightarrow> wait_event \<Rightarrow> 'c wait_state \<Rightarrow> 'c wait_state" where
  "wait_step signal drain (BeginChange t ch) s =
     (if ws_acts s t \<noteq> [] then s
      else case begin_change ch (ws_words s) of (m, as) \<Rightarrow> s\<lparr> ws_words := m, ws_acts := (ws_acts s)(t := as) \<rparr>)"
| "wait_step signal drain (Act t) s =
     (case ws_acts s t of
        [] \<Rightarrow> s
      | a # rest \<Rightarrow> (case act_step signal a s of (s', follow) \<Rightarrow> s'\<lparr> ws_acts := (ws_acts s)(t := follow @ rest) \<rparr>))"
| "wait_step signal drain (BeginWait obs i overflow) s =
     (if ws_waiter s = WIdle \<or> (\<exists>r. ws_waiter s = WDone r) then s\<lparr> ws_waiter := (if overflow then WDone DeadlineOverflow else WArm obs i) \<rparr> else s)"
| "wait_step signal drain (WaiterStep late fault) s = waiter_step drain late fault (ws_waiter s) s"
| "wait_step signal drain BeginBell s =
     (if ws_bell_waiter s = BIdle \<or> (\<exists>r. ws_bell_waiter s = BDone r) then s\<lparr> ws_bell_waiter := BDrain \<rparr> else s)"
| "wait_step signal drain (BellStep late fault) s = bell_step drain late fault (ws_bell_waiter s) s"
| "wait_step signal drain TakeHint s =
     (if ws_bell_waiter s = BIdle \<or> (\<exists>r. ws_bell_waiter s = BDone r) then s\<lparr> ws_hint := 0 \<rparr> else s)"

definition wait_start :: "('c \<Rightarrow> bool) \<Rightarrow> 'c wait_state \<Rightarrow> bool" where
  "wait_start healthy s \<longleftrightarrow> healthy (ws_wake s) \<and> healthy (ws_bell s) \<and> healthy (ws_cancel s) \<and> ws_interest s = 0 \<and> ws_hint s = 0 \<and>
     \<not> ws_cancelled s \<and> ws_acts s = (\<lambda>_. []) \<and> ws_waiter s = WIdle \<and> ws_bell_waiter s = BIdle"

inductive wait_reachable :: "'c signal_fun \<Rightarrow> 'c signal_fun \<Rightarrow> ('c \<Rightarrow> bool) \<Rightarrow> 'c wait_state \<Rightarrow> bool" for signal drain healthy where
  start: "wait_start healthy s \<Longrightarrow> wait_reachable signal drain healthy s"
| step: "wait_reachable signal drain healthy s \<Longrightarrow> wait_reachable signal drain healthy (wait_step signal drain e s)"

section \<open>Wake channels\<close>

text \<open>A Windows event, as \<open>SetEvent\<close> and \<open>ResetEvent\<close> act on it.\<close>

definition event_signal :: "bool signal_fun" where "event_signal e = (Ok (), True)"
definition event_drain :: "bool signal_fun" where "event_drain e = (Ok (), False)"

definition socket_healthy :: "wake \<Rightarrow> bool" where
  "socket_healthy w \<longleftrightarrow> wake_fault w = None \<and> 0 < wake_capacity w"

definition socket_readable :: "wake \<Rightarrow> bool" where
  "socket_readable w \<longleftrightarrow> 0 < wake_bytes w"

section \<open>Invariant\<close>

text \<open>A wake-up of the arena waiter is there or on its way.\<close>

fun wakes :: "u64 \<Rightarrow> u64 \<Rightarrow> action \<Rightarrow> bool" where
  "wakes interest active CloseA \<longleftrightarrow> active \<noteq> 0"
| "wakes interest active (SignalA b) \<longleftrightarrow> interest AND b \<noteq> 0"
| "wakes interest active (InterestA b) \<longleftrightarrow> interest AND b \<noteq> 0"
| "wakes interest active WriteWake \<longleftrightarrow> True"
| "wakes interest active _ \<longleftrightarrow> False"

definition coming :: "(action \<Rightarrow> bool) \<Rightarrow> (nat \<Rightarrow> action list) \<Rightarrow> bool" where
  "coming P acts \<longleftrightarrow> (\<exists>t. \<exists>a\<in>set (acts t). P a)"

definition alarm :: "('c \<Rightarrow> bool) \<Rightarrow> 'c wait_state \<Rightarrow> bool" where
  "alarm readable s \<longleftrightarrow> readable (ws_wake s) \<or> coming (wakes (ws_interest s) (ws_words s Active)) (ws_acts s)"

fun word_bit :: "wait_word \<Rightarrow> u64" where
  "word_bit Latest = DATA"
| "word_bit CapacityEpoch = CAPACITY"
| "word_bit ReconfigurationEpoch = RECONFIGURATION"
| "word_bit Active = CLOSED"
| "word_bit Terminal = CLOSED"

text \<open>A word that has changed since the waiter loaded it, and that it is interested in, has raised the alarm.\<close>

definition loaded_ok :: "('c \<Rightarrow> bool) \<Rightarrow> u64 list \<Rightarrow> 'c wait_state \<Rightarrow> bool" where
  "loaded_ok readable vals s \<longleftrightarrow> (\<forall>k < length vals. let w = load_order ! k in
     ws_words s w \<noteq> vals ! k \<and> ws_interest s AND word_bit w \<noteq> 0 \<longrightarrow> alarm readable s \<or> w = Terminal \<and> ws_words s Active = 0)"

definition armed :: "u64 \<Rightarrow> 'c wait_state \<Rightarrow> bool" where
  "armed i s \<longleftrightarrow> ws_interest s = i OR CLOSED OR RECONFIGURATION"

fun waiter_ok :: "('c \<Rightarrow> bool) \<Rightarrow> waiter \<Rightarrow> 'c wait_state \<Rightarrow> bool" where
  "waiter_ok readable (WDrain obs i) s \<longleftrightarrow> armed i s"
| "waiter_ok readable (WCancel obs i) s \<longleftrightarrow> armed i s"
| "waiter_ok readable (WLoad obs i vals) s \<longleftrightarrow> armed i s \<and> length vals < 5 \<and> (length vals = 4 \<longrightarrow> vals ! 3 \<noteq> 0) \<and> loaded_ok readable vals s"
| "waiter_ok readable (WSleep obs i vals) s \<longleftrightarrow> armed i s \<and> length vals = 5 \<and> \<not> interest_changed i obs (events_of vals) \<and> loaded_ok readable vals s"
| "waiter_ok readable _ s \<longleftrightarrow> True"

definition wait_inv :: "('c \<Rightarrow> bool) \<Rightarrow> ('c \<Rightarrow> bool) \<Rightarrow> 'c wait_state \<Rightarrow> bool" where
  "wait_inv readable healthy s \<longleftrightarrow> healthy (ws_wake s) \<and> healthy (ws_bell s) \<and> healthy (ws_cancel s) \<and>
     waiter_ok readable (ws_waiter s) s \<and>
     (ws_hint s \<noteq> 0 \<longrightarrow> ws_bell_waiter s = BTake \<or> readable (ws_bell s) \<or> coming (\<lambda>a. a = WriteBell) (ws_acts s)) \<and>
     (ws_cancelled s \<longrightarrow> readable (ws_cancel s) \<or> coming (\<lambda>a. a = WriteCancel) (ws_acts s))"

lemma coming_upd: "coming P (acts(t := as)) \<longleftrightarrow> (\<exists>a\<in>set as. P a) \<or> (\<exists>t'. t' \<noteq> t \<and> (\<exists>a\<in>set (acts t'). P a))"
  by (auto simp: coming_def)

text \<open>The waiter's promises survive what the others do if changed words and lost wake-ups raise the alarm.\<close>

lemma waiter_ok_mono:
  assumes "waiter_ok readable pc s" "ws_interest s' = ws_interest s"
    and "alarm readable s \<Longrightarrow> ws_interest s AND CLOSED \<noteq> 0 \<Longrightarrow> alarm readable s'"
    and "\<And>w. ws_words s' w \<noteq> ws_words s w \<Longrightarrow> ws_interest s AND word_bit w \<noteq> 0 \<Longrightarrow> alarm readable s' \<or> w = Terminal \<and> ws_words s' Active = 0"
    and "ws_words s Active = 0 \<Longrightarrow> ws_words s' Active = 0"
  shows "waiter_ok readable pc s'"
proof -
  have l: "loaded_ok readable vals s'" if v: "loaded_ok readable vals s" and c: "ws_interest s AND CLOSED \<noteq> 0" for vals
    unfolding loaded_ok_def Let_def
  proof (intro allI impI)
    fix k
    assume k: "k < length vals" and d: "ws_words s' (load_order ! k) \<noteq> vals ! k \<and> ws_interest s' AND word_bit (load_order ! k) \<noteq> 0"
    show "alarm readable s' \<or> load_order ! k = Terminal \<and> ws_words s' Active = 0"
    proof (cases "ws_words s' (load_order ! k) = ws_words s (load_order ! k)")
      case True
      then have "alarm readable s \<or> load_order ! k = Terminal \<and> ws_words s Active = 0"
        using v k d assms(2) by (simp add: loaded_ok_def Let_def)
      then show ?thesis using assms(3,5) c by blast
    qed (use assms(2,4) d in auto)
  qed
  have c: "ws_interest s AND CLOSED \<noteq> 0" if "armed i s" for i
  proof -
    have "bit (ws_interest s AND CLOSED) 3" using that by (simp add: armed_def CLOSED_def bit_simps)
    then show ?thesis by auto
  qed
  show ?thesis using assms(1,2) l c by (cases pc) (auto simp: armed_def)
qed

lemma coming_mono:
  assumes "coming P acts" "acts t = []"
  shows "coming P (acts(t := as))"
proof -
  obtain u a where u: "a \<in> set (acts u)" "P a" using assms(1) by (auto simp: coming_def)
  then have "u \<noteq> t" using assms(2) by auto
  then show ?thesis using u by (auto simp: coming_upd)
qed

lemma coming_here: "a \<in> set as \<Longrightarrow> P a \<Longrightarrow> coming P (acts(t := as))"
  by (auto simp: coming_upd)

lemma begin_words:
  assumes "begin_change ch m = (m', as)" "m' w \<noteq> m w" "interest AND word_bit w \<noteq> 0"
  shows "(\<exists>a\<in>set as. wakes interest (m' Active) a) \<or> w = Terminal \<and> m' Active = 0"
  using assms by (cases ch; cases w) (auto split: if_splits)

lemma begin_active: "begin_change ch m = (m', as) \<Longrightarrow> m' Active = m Active"
  by (cases ch) (auto split: if_splits)

lemma begin_inv:
  assumes inv: "wait_inv readable healthy s"
  shows "wait_inv readable healthy (wait_step signal drain (BeginChange t ch) s)"
proof (cases "ws_acts s t = []")
  case True
  obtain m as where b: "begin_change ch (ws_words s) = (m, as)" by (metis surj_pair)
  let ?s = "s\<lparr> ws_words := m, ws_acts := (ws_acts s)(t := as) \<rparr>"
  have step: "wait_step signal drain (BeginChange t ch) s = ?s" using True b by simp
  have al: "alarm readable ?s" if "alarm readable s"
    using that coming_mono [of _ "ws_acts s" t as, OF _ True] by (auto simp: alarm_def begin_active [OF b])
  have wd: "alarm readable ?s \<or> w = Terminal \<and> ws_words ?s Active = 0" if "ws_words ?s w \<noteq> ws_words s w" "ws_interest s AND word_bit w \<noteq> 0" for w
    using begin_words [OF b, of w "ws_interest s"] that by (auto simp: alarm_def intro: coming_here)
  have "waiter_ok readable (ws_waiter s) ?s"
    by (rule waiter_ok_mono [of readable _ s]) (use inv al wd begin_active [OF b] in \<open>auto simp: wait_inv_def\<close>)
  then show ?thesis unfolding step using inv coming_mono [of _ "ws_acts s" t as, OF _ True] by (auto simp: wait_inv_def)
qed (use inv in simp)

lemma waiter_frame [simp]:
  "alarm readable (s\<lparr> ws_waiter := pc \<rparr>) = alarm readable s"
  "loaded_ok readable vals (s\<lparr> ws_waiter := pc \<rparr>) = loaded_ok readable vals s"
  "armed i (s\<lparr> ws_waiter := pc \<rparr>) = armed i s"
  by (simp_all add: alarm_def loaded_ok_def armed_def)

lemma loaded_ok_load:
  assumes "loaded_ok readable vals s"
  shows "loaded_ok readable (vals @ [ws_words s (load_order ! length vals)]) s"
  using assms by (auto simp: loaded_ok_def Let_def nth_append less_Suc_eq)

lemma load_step_ok:
  assumes "waiter_ok readable (WLoad obs i vals) s" "vals' = vals @ [ws_words s (load_order ! length vals)]"
  shows "\<not> loads_done vals' \<Longrightarrow> waiter_ok readable (WLoad obs i vals') s"
    "loads_done vals' \<Longrightarrow> \<not> interest_changed i obs (events_of vals') \<Longrightarrow> waiter_ok readable (WSleep obs i vals') s"
proof -
  have "loaded_ok readable vals s" "length vals < 5" using assms(1) by simp_all
  then have l: "length vals' = Suc (length vals)" "loaded_ok readable vals' s" "length vals < 5"
    using loaded_ok_load [of readable vals s] by (simp_all add: assms(2))
  show "\<not> loads_done vals' \<Longrightarrow> waiter_ok readable (WLoad obs i vals') s" using assms(1) l by (auto simp: loads_done_def)
  show "waiter_ok readable (WSleep obs i vals') s" if "loads_done vals'" "\<not> interest_changed i obs (events_of vals')"
  proof -
    have "vals' ! 3 \<noteq> 0" using that(2) by (auto simp: interest_changed_def events_of_def)
    then show ?thesis using assms(1) l that by (auto simp: loads_done_def)
  qed
qed

text \<open>A waiter that sleeps on a state that has changed since its snapshot has been, or is being, woken.\<close>

lemma sleep_alarm:
  assumes ok: "waiter_ok readable (WSleep obs i vals) s" and ch: "interest_changed i obs (events_now (ws_words s))"
  shows "alarm readable s"
proof -
  have vals: "armed i s" "length vals = 5" "\<not> interest_changed i obs (events_of vals)" "loaded_ok readable vals s" using ok by auto
  have l: "alarm readable s \<or> load_order ! k = Terminal \<and> ws_words s Active = 0"
    if "k < 5" "ws_words s (load_order ! k) \<noteq> vals ! k" "ws_interest s AND word_bit (load_order ! k) \<noteq> 0" for k
    using vals(2,4) that by (simp add: loaded_ok_def Let_def)
  have closed: "ws_interest s AND CLOSED \<noteq> 0" "ws_interest s AND RECONFIGURATION \<noteq> 0"
  proof -
    have "bit (ws_interest s AND CLOSED) 3" "bit (ws_interest s AND RECONFIGURATION) 2"
      using vals(1) by (simp_all add: armed_def CLOSED_def RECONFIGURATION_def bit_simps)
    then show "ws_interest s AND CLOSED \<noteq> 0" "ws_interest s AND RECONFIGURATION \<noteq> 0" by auto
  qed
  have more: "ws_interest s AND b \<noteq> 0" if "i AND b \<noteq> 0" for b
  proof -
    have "\<exists>n. bit (i AND b) n"
    proof (rule ccontr)
      assume "\<nexists>n. bit (i AND b) n"
      then have "i AND b = 0" by (intro bit_word_eqI) simp
      then show False using that by simp
    qed
    then obtain n where "bit (i AND b) n" by blast
    then have "bit (ws_interest s AND b) n" using vals(1) by (simp add: armed_def bit_simps)
    then show ?thesis by auto
  qed
  have active: "alarm readable s" if "ws_words s Active = 0"
    using that l [of 3] vals(3) closed by (auto simp: load_order_def interest_changed_def events_of_def)
  consider "ws_words s Active = 0" | "ws_words s Active \<noteq> 0" "ws_words s Terminal \<noteq> 0" | "we_reconfiguration_epoch obs \<noteq> ws_words s ReconfigurationEpoch"
    | "i AND DATA \<noteq> 0" "we_data_cursor obs \<noteq> ws_words s Latest" | "i AND CAPACITY \<noteq> 0" "we_capacity_epoch obs \<noteq> ws_words s CapacityEpoch"
    using ch unfolding interest_changed_def events_now_def wait_events.simps by blast
  then show ?thesis
  proof cases
    case 2
    then show ?thesis using l [of 4] vals(3) closed by (auto simp: load_order_def interest_changed_def events_of_def)
  next
    case 3
    then show ?thesis using l [of 2] vals(3) closed by (auto simp: load_order_def interest_changed_def events_of_def)
  next
    case 4
    then show ?thesis using l [of 0] vals(3) more by (auto simp: load_order_def interest_changed_def events_of_def)
  next
    case 5
    then show ?thesis using l [of 1] vals(3) more by (auto simp: load_order_def interest_changed_def events_of_def)
  qed (rule active)
qed

section \<open>Any wake channel\<close>

text \<open>What the wait relies on: a signal succeeds and leaves the channel readable, and draining it succeeds.\<close>

locale wake_channel =
  fixes signal :: "'c \<Rightarrow> (unit, io_error) outcome \<times> 'c"
    and drain :: "'c \<Rightarrow> (unit, io_error) outcome \<times> 'c"
    and readable :: "'c \<Rightarrow> bool"
    and healthy :: "'c \<Rightarrow> bool"
  assumes signal_ok: "healthy c \<Longrightarrow> fst (signal c) = Ok () \<and> healthy (snd (signal c)) \<and> readable (snd (signal c))"
    and drain_ok: "healthy c \<Longrightarrow> fst (drain c) = Ok () \<and> healthy (snd (drain c))"
begin

lemma write_wake_eq:
  assumes "healthy (ws_wake s)"
  shows "act_step signal WriteWake s = (s\<lparr> ws_wake := snd (signal (ws_wake s)) \<rparr>, [])"
proof -
  obtain c where "signal (ws_wake s) = (Ok (), c)" using signal_ok [OF assms] by (metis prod.collapse)
  then show ?thesis by simp
qed

text \<open>A thread's next action keeps the wake-ups that are on their way.\<close>

lemma act_frame:
  assumes "act_step signal a s = (s', follow)" "healthy (ws_wake s)" "healthy (ws_bell s)" "healthy (ws_cancel s)"
  shows "ws_interest s' = ws_interest s \<and> ws_waiter s' = ws_waiter s \<and> ws_bell_waiter s' = ws_bell_waiter s \<and>
    healthy (ws_wake s') \<and> healthy (ws_bell s') \<and> healthy (ws_cancel s') \<and>
    ws_words s' = (if a = CloseA then (ws_words s)(Active := 0) else ws_words s) \<and>
    (readable (ws_wake s) \<longrightarrow> readable (ws_wake s')) \<and> (readable (ws_bell s) \<longrightarrow> readable (ws_bell s')) \<and>
    (readable (ws_cancel s) \<longrightarrow> readable (ws_cancel s'))"
proof (cases "a = WriteWake")
  case True
  then show ?thesis using assms write_wake_eq [OF assms(2)] signal_ok [OF assms(2)] by auto
next
  case False
  have s': "s' = fst (act_step signal a s)" using assms(1) by simp
  show ?thesis unfolding s' using False assms(2-4) signal_ok [OF assms(3)] signal_ok [OF assms(4)] by (cases a) simp_all
qed

lemma act_wakes:
  assumes "act_step signal a s = (s', follow)" "healthy (ws_wake s)" "ws_interest s AND CLOSED \<noteq> 0" "wakes (ws_interest s) (ws_words s Active) a"
  shows "readable (ws_wake s') \<or> (\<exists>a\<in>set follow. wakes (ws_interest s) (ws_words s' Active) a)"
proof -
  have s': "s' = fst (act_step signal a s)" "follow = snd (act_step signal a s)" using assms(1) by simp_all
  show ?thesis
  proof (cases a)
    case CloseA
    then show ?thesis using assms(3,4) unfolding s' by simp
  next
    case (SignalA b)
    have "InterestA b \<in> set (snd (act_step signal (SignalA b) s))"
      unfolding act_step.simps snd_conv set_append by (rule UnI2) simp
    moreover have "wakes (ws_interest s) (ws_words s' Active) (InterestA b)" using assms(4) unfolding SignalA wakes.simps .
    ultimately show ?thesis unfolding s'(2) SignalA by (intro disjI2) (rule bexI)
  next
    case (InterestA b)
    then show ?thesis using assms(4) unfolding s' by simp
  next
    case WriteWake
    then show ?thesis using write_wake_eq [OF assms(2)] signal_ok [OF assms(2)] unfolding s' by simp
  qed (use assms(4) in simp_all)
qed

lemma act_bell:
  assumes "act_step signal a s = (s', follow)" "healthy (ws_wake s)" "healthy (ws_bell s)" "healthy (ws_cancel s)"
  shows "a = WriteBell \<Longrightarrow> readable (ws_bell s')" "ws_hint s' \<noteq> 0 \<Longrightarrow> ws_hint s = 0 \<Longrightarrow> WriteBell \<in> set follow"
    "a = WriteCancel \<Longrightarrow> readable (ws_cancel s')" "ws_cancelled s' \<Longrightarrow> \<not> ws_cancelled s \<Longrightarrow> WriteCancel \<in> set follow"
proof -
  show "a = WriteBell \<Longrightarrow> readable (ws_bell s')" "a = WriteCancel \<Longrightarrow> readable (ws_cancel s')"
    using assms signal_ok [OF assms(3)] signal_ok [OF assms(4)] by auto
  show "ws_hint s' \<noteq> 0 \<Longrightarrow> ws_hint s = 0 \<Longrightarrow> WriteBell \<in> set follow" "ws_cancelled s' \<Longrightarrow> \<not> ws_cancelled s \<Longrightarrow> WriteCancel \<in> set follow"
    using assms(1) write_wake_eq [OF assms(2)] by (cases a; auto split: if_splits)+
qed

lemma act_inv:
  assumes inv: "wait_inv readable healthy s"
  shows "wait_inv readable healthy (wait_step signal drain (Act t) s)"
proof (cases "ws_acts s t")
  case (Cons a rest)
  obtain s1 follow where a: "act_step signal a s = (s1, follow)" by (metis surj_pair)
  let ?s = "s1\<lparr> ws_acts := (ws_acts s)(t := follow @ rest) \<rparr>"
  have step: "wait_step signal drain (Act t) s = ?s" using Cons a by simp
  have h: "healthy (ws_wake s)" "healthy (ws_bell s)" "healthy (ws_cancel s)" using inv by (simp_all add: wait_inv_def)
  note f = act_frame [OF a h] and b = act_bell [OF a h]
  have keep: "coming P ((ws_acts s)(t := follow @ rest)) \<or> P a" if c: "coming P (ws_acts s)" for P
  proof -
    obtain u x where u: "x \<in> set (ws_acts s u)" "P x" using c by (auto simp: coming_def)
    then show ?thesis using Cons by (cases "u = t") (auto simp: coming_upd)
  qed
  have al: "alarm readable ?s" if al: "alarm readable s" and c: "ws_interest s AND CLOSED \<noteq> 0"
  proof (cases "wakes (ws_interest s) (ws_words s Active) a")
    case True
    then show ?thesis using act_wakes [OF a h(1) c True] f by (auto simp: alarm_def coming_upd)
  next
    case False
    then have "readable (ws_wake s) \<or> coming (wakes (ws_interest s) (ws_words s Active)) ((ws_acts s)(t := follow @ rest))"
      using al keep by (auto simp: alarm_def)
    moreover have "ws_words s1 Active = ws_words s Active" using f False by auto
    ultimately show ?thesis using f by (auto simp: alarm_def)
  qed
  have wd: "alarm readable ?s \<or> w = Terminal \<and> ws_words ?s Active = 0" if "ws_words ?s w \<noteq> ws_words s w" "ws_interest s AND word_bit w \<noteq> 0" for w
  proof -
    have w: "a = CloseA" "w = Active" "ws_words s Active \<noteq> 0" using that(1) f by (auto split: if_splits)
    then have "readable (ws_wake s1) \<or> (\<exists>x\<in>set follow. wakes (ws_interest s) (ws_words s1 Active) x)"
      using act_wakes [OF a h(1)] that(2) by simp
    then show ?thesis using f by (auto simp: alarm_def coming_upd)
  qed
  have "waiter_ok readable (ws_waiter s) ?s"
    by (rule waiter_ok_mono [of readable _ s]) (use inv al wd f in \<open>auto simp: wait_inv_def\<close>)
  moreover have "ws_bell_waiter s = BTake \<or> readable (ws_bell s1) \<or> coming (\<lambda>a. a = WriteBell) ((ws_acts s)(t := follow @ rest))" if "ws_hint s1 \<noteq> 0"
  proof (cases "ws_hint s = 0")
    case True
    then show ?thesis using b(2) [OF that True] by (auto simp: coming_upd)
  next
    case False
    then have "ws_bell_waiter s = BTake \<or> readable (ws_bell s) \<or> coming (\<lambda>a. a = WriteBell) (ws_acts s)" using inv by (simp add: wait_inv_def)
    then show ?thesis using keep [of "\<lambda>a. a = WriteBell"] b(1) f by auto
  qed
  moreover have "readable (ws_cancel s1) \<or> coming (\<lambda>a. a = WriteCancel) ((ws_acts s)(t := follow @ rest))" if "ws_cancelled s1"
  proof (cases "ws_cancelled s")
    case False
    then show ?thesis using b(4) [OF that False] by (auto simp: coming_upd)
  next
    case True
    then have "readable (ws_cancel s) \<or> coming (\<lambda>a. a = WriteCancel) (ws_acts s)" using inv by (simp add: wait_inv_def)
    then show ?thesis using keep [of "\<lambda>a. a = WriteCancel"] b(3) f by auto
  qed
  ultimately show ?thesis unfolding step using f by (auto simp: wait_inv_def)
qed (use inv in simp)

lemma waiter_inv:
  assumes inv: "wait_inv readable healthy s"
  shows "wait_inv readable healthy (wait_step signal drain (WaiterStep late fault) s)"
proof (cases "ws_waiter s")
  case (WDrain obs i)
  obtain c where "drain (ws_wake s) = (Ok (), c)" "healthy c" using inv drain_ok [of "ws_wake s"] by (auto simp: wait_inv_def prod_eq_iff)
  then show ?thesis using inv WDrain by (simp add: wait_inv_def armed_def)
next
  case (WLoad obs i vals)
  define vals' where "vals' = vals @ [ws_words s (load_order ! length vals)]"
  have "waiter_ok readable (WLoad obs i vals) s" using inv WLoad by (simp add: wait_inv_def)
  note ok = load_step_ok [OF this vals'_def]
  have step: "wait_step signal drain (WaiterStep late fault) s = s\<lparr> ws_waiter :=
           (if \<not> loads_done vals' then WLoad obs i vals'
            else if interest_changed i obs (events_of vals') then WDisarm (Changed (events_of vals'))
            else if late then WDisarm TimedOut else WSleep obs i vals') \<rparr>"
    by (simp add: WLoad Let_def vals'_def)
  show ?thesis unfolding step using inv ok by (auto simp: wait_inv_def)
qed (use inv in \<open>auto simp: wait_inv_def armed_def loaded_ok_def split: option.split\<close>)

lemma bell_inv:
  assumes inv: "wait_inv readable healthy s"
  shows "wait_inv readable healthy (wait_step signal drain (BellStep late fault) s)"
proof -
  have frame: "waiter_ok readable pc (s\<lparr> ws_bell := c, ws_hint := h, ws_bell_waiter := b \<rparr>) = waiter_ok readable pc s" for pc c h b
    by (cases pc) (simp_all add: armed_def loaded_ok_def alarm_def)
  show ?thesis
  proof (cases "ws_bell_waiter s")
    case BDrain
    obtain c where "drain (ws_bell s) = (Ok (), c)" "healthy c" using inv drain_ok [of "ws_bell s"] by (auto simp: wait_inv_def prod_eq_iff)
    then show ?thesis using inv BDrain frame [where c = c and h = "ws_hint s" and b = BTake] by (simp add: wait_inv_def)
  next
    case BTake
    then show ?thesis using inv frame [where c = "ws_bell s" and h = 0] by (simp add: wait_inv_def)
  qed (use inv frame [where c = "ws_bell s" and h = "ws_hint s"] in \<open>simp_all add: wait_inv_def split: option.split\<close>)
qed

lemma wait_step_inv:
  assumes inv: "wait_inv readable healthy s"
  shows "wait_inv readable healthy (wait_step signal drain e s)"
proof (cases e)
  case (BeginChange t ch)
  then show ?thesis using begin_inv [OF inv] by (simp only:)
next
  case (Act t)
  then show ?thesis using act_inv [OF inv] by (simp only:)
next
  case (WaiterStep late fault)
  then show ?thesis using waiter_inv [OF inv] by (simp only:)
next
  case (BellStep late fault)
  then show ?thesis using bell_inv [OF inv] by (simp only:)
next
  case TakeHint
  have "waiter_ok readable pc (s\<lparr> ws_hint := 0 \<rparr>) = waiter_ok readable pc s" for pc
    by (cases pc) (simp_all add: armed_def loaded_ok_def alarm_def)
  then show ?thesis using inv TakeHint by (simp add: wait_inv_def)
next
  case BeginBell
  have "waiter_ok readable pc (s\<lparr> ws_bell_waiter := b \<rparr>) = waiter_ok readable pc s" for pc b
    by (cases pc) (simp_all add: armed_def loaded_ok_def alarm_def)
  then show ?thesis using inv BeginBell by (auto simp: wait_inv_def)
qed (use inv in \<open>auto simp: wait_inv_def\<close>)

lemma wait_reachable_inv: "wait_reachable signal drain healthy s \<Longrightarrow> wait_inv readable healthy s"
proof (induction rule: wait_reachable.induct)
  case (start s)
  then show ?case by (simp add: wait_start_def wait_inv_def)
qed (rule wait_step_inv)

text \<open>A waiter left alone gets to the end of its loop.\<close>

lemma waiter_returns:
  assumes h: "healthy (ws_wake s)" and w: "ws_waiter s = WSleep obs i vals"
    and ch: "ws_cancelled s \<or> interest_changed i obs (events_now (ws_words s))"
  shows "\<exists>n\<le>9. ws_waiter ((wait_step signal drain (WaiterStep False None) ^^ n) s) =
    WDone (if ws_cancelled s then Cancelled else Changed (events_now (ws_words s)))"
proof -
  let ?W = "wait_step signal drain (WaiterStep False None)" and ?m = "ws_words s"
  obtain c where c: "drain (ws_wake s) = (Ok (), c)" using h drain_ok [of "ws_wake s"] by (auto simp: prod_eq_iff)
  have s2: "?W (?W s) = s\<lparr> ws_wake := c, ws_waiter := WCancel obs i \<rparr>" using c w by simp
  show ?thesis
  proof (cases "ws_cancelled s")
    case True
    then have "ws_waiter (?W (?W (?W (?W s)))) = WDone Cancelled" unfolding s2 by simp
    then show ?thesis using True by (intro exI [of _ 4]) (simp add: eval_nat_numeral)
  next
    case False
    let ?vals = "[?m Latest, ?m CapacityEpoch, ?m ReconfigurationEpoch, ?m Active]"
    have load: "?W (t\<lparr> ws_wake := c, ws_waiter := WLoad obs i v \<rparr>) = t\<lparr> ws_wake := c, ws_waiter := WLoad obs i (v @ [ws_words t (load_order ! length v)]) \<rparr>"
      if "\<not> loads_done (v @ [ws_words t (load_order ! length v)])" for v t
      using that by (simp add: Let_def)
    have s3: "?W (?W (?W s)) = s\<lparr> ws_wake := c, ws_waiter := WLoad obs i [] \<rparr>" using False unfolding s2 by simp
    have s6: "?W (?W (?W (?W (?W (?W s))))) = s\<lparr> ws_wake := c, ws_waiter := WLoad obs i [?m Latest, ?m CapacityEpoch, ?m ReconfigurationEpoch] \<rparr>"
      unfolding s3 by (simp add: load loads_done_def load_order_def Let_def)
    have now: "events_of v = events_now ?m" if "v = ?vals \<and> ?m Active = 0 \<or> v = ?vals @ [?m Terminal] \<and> ?m Active \<noteq> 0" for v
      using that by (auto simp: events_of_def events_now_def)
    show ?thesis
    proof (cases "?m Active = 0")
      case True
      have "?W (?W (?W (?W (?W (?W (?W s)))))) = s\<lparr> ws_wake := c, ws_waiter := WDisarm (Changed (events_now ?m)) \<rparr>"
        unfolding s6 using True ch False now [of ?vals] by (simp add: loads_done_def load_order_def Let_def)
      then have "ws_waiter (?W (?W (?W (?W (?W (?W (?W (?W s)))))))) = WDone (Changed (events_now ?m))" by simp
      then show ?thesis using False by (intro exI [of _ 8]) (simp add: eval_nat_numeral)
    next
      case active: False
      have s7: "?W (?W (?W (?W (?W (?W (?W s)))))) = s\<lparr> ws_wake := c, ws_waiter := WLoad obs i ?vals \<rparr>"
        unfolding s6 using active by (simp add: loads_done_def load_order_def Let_def)
      have "?W (?W (?W (?W (?W (?W (?W (?W s))))))) = s\<lparr> ws_wake := c, ws_waiter := WDisarm (Changed (events_now ?m)) \<rparr>"
        unfolding s7 using active ch False now [of "?vals @ [?m Terminal]"] by (simp add: loads_done_def load_order_def Let_def)
      then have "ws_waiter (?W (?W (?W (?W (?W (?W (?W (?W (?W s))))))))) = WDone (Changed (events_now ?m))" by simp
      then show ?thesis using False by (intro exI [of _ 9]) (simp add: eval_nat_numeral)
    qed
  qed
qed

lemma bell_returns:
  assumes h: "healthy (ws_bell s)" and w: "ws_bell_waiter s = BSleep" and ch: "ws_cancelled s \<or> ws_hint s \<noteq> 0"
  shows "ws_bell_waiter ((wait_step signal drain (BellStep False None) ^^ 4) s) = BDone (Ok (ws_hint s))"
proof -
  obtain c where c: "drain (ws_bell s) = (Ok (), c)" using h drain_ok [of "ws_bell s"] by (auto simp: prod_eq_iff)
  then show ?thesis using w ch by (auto simp: eval_nat_numeral)
qed

theorem waiters_are_woken:
  assumes r: "wait_reachable signal drain healthy s" and quiet: "\<forall>t. ws_acts s t = []"
  shows "(\<forall>obs i vals. ws_waiter s = WSleep obs i vals \<and> (ws_cancelled s \<or> interest_changed i obs (events_now (ws_words s))) \<longrightarrow>
       (readable (ws_wake s) \<or> readable (ws_cancel s)) \<and>
       (\<exists>n\<le>9. ws_waiter ((wait_step signal drain (WaiterStep False None) ^^ n) s) =
          WDone (if ws_cancelled s then Cancelled else Changed (events_now (ws_words s))))) \<and>
     (ws_bell_waiter s = BSleep \<and> (ws_cancelled s \<or> ws_hint s \<noteq> 0) \<longrightarrow>
       (readable (ws_bell s) \<or> readable (ws_cancel s)) \<and>
       ws_bell_waiter ((wait_step signal drain (BellStep False None) ^^ 4) s) = BDone (Ok (ws_hint s)))"
proof -
  note inv = wait_reachable_inv [OF r]
  have none: "\<not> coming P (ws_acts s)" for P using quiet by (simp add: coming_def)
  have h: "healthy (ws_wake s)" "healthy (ws_bell s)" using inv by (simp_all add: wait_inv_def)
  have "readable (ws_wake s) \<or> readable (ws_cancel s)"
    if "ws_waiter s = WSleep obs i vals" "ws_cancelled s \<or> interest_changed i obs (events_now (ws_words s))" for obs i vals
  proof (cases "ws_cancelled s")
    case False
    have "waiter_ok readable (WSleep obs i vals) s" using inv that(1) by (simp add: wait_inv_def)
    from sleep_alarm [OF this] show ?thesis using that(2) False none by (auto simp: alarm_def)
  qed (use inv none in \<open>simp add: wait_inv_def\<close>)
  moreover have "readable (ws_bell s) \<or> readable (ws_cancel s)" if "ws_bell_waiter s = BSleep" "ws_cancelled s \<or> ws_hint s \<noteq> 0"
    using that inv none by (auto simp: wait_inv_def)
  ultimately show ?thesis using waiter_returns [OF h(1)] bell_returns [OF h(2)] by blast
qed

end

interpretation unix_wake: wake_channel wake_signal "receiver_drain False" socket_readable socket_healthy
  by unfold_locales (auto simp: wake_signal_def receiver_drain_def socket_readable_def socket_healthy_def)

interpretation windows_wake: wake_channel event_signal event_drain "\<lambda>e. e" "\<lambda>_. True"
  by unfold_locales (auto simp: event_signal_def event_drain_def)

section \<open>Property\<close>

text \<open>C7. No wake-up is lost.  In every interleaving of threads that publish, return credits, reconfigure, terminate, close, ring the doorbell
  or cancel with a consumer in \<open>ArenaConsumer::wait\<close> and one in \<open>Doorbell::wait\<close>: once the threads have finished
  their calls, a consumer is asleep only if nothing that it waits for has happened.  If the observed words have changed since its
  snapshot in a way it is interested in, or its wait was cancelled, a channel it sleeps on is readable, and it returns
  within nine of its own steps, with \<open>Cancelled\<close> taking precedence over the change and the change reported as it is now; the doorbell likewise returns
  every bit rung since the last take.\<close>

theorem no_lost_wakeup:
  assumes r: "wait_reachable wake_signal (receiver_drain False) socket_healthy s" and quiet: "\<forall>t. ws_acts s t = []"
  shows "(\<forall>obs i vals. ws_waiter s = WSleep obs i vals \<and> (ws_cancelled s \<or> interest_changed i obs (events_now (ws_words s))) \<longrightarrow>
       (socket_readable (ws_wake s) \<or> socket_readable (ws_cancel s)) \<and>
       (\<exists>n\<le>9. ws_waiter ((wait_step wake_signal (receiver_drain False) (WaiterStep False None) ^^ n) s) =
          WDone (if ws_cancelled s then Cancelled else Changed (events_now (ws_words s))))) \<and>
     (ws_bell_waiter s = BSleep \<and> (ws_cancelled s \<or> ws_hint s \<noteq> 0) \<longrightarrow>
       (socket_readable (ws_bell s) \<or> socket_readable (ws_cancel s)) \<and>
       ws_bell_waiter ((wait_step wake_signal (receiver_drain False) (BellStep False None) ^^ 4) s) = BDone (Ok (ws_hint s)))"
  using r quiet by (rule unix_wake.waiters_are_woken)

lemmas windows_no_lost_wakeup = windows_wake.waiters_are_woken

text \<open>The consumer falls asleep on an unchanged arena; then a frame is published and the doorbell rung, up to the end of the calls.\<close>

definition quiet_wake :: wake where
  "quiet_wake = \<lparr> wake_bytes = 0, wake_capacity = 2, wake_fault = None \<rparr>"

definition sample_wait :: "wake wait_state" where
  "sample_wait = \<lparr> ws_words = (\<lambda>w. if w = Active then 1 else 0), ws_interest = 0, ws_wake = quiet_wake, ws_video_bit = Some 1, ws_hint = 0, ws_bell = quiet_wake,
     ws_cancelled = False, ws_cancel = quiet_wake, ws_acts = (\<lambda>_. []), ws_waiter = WIdle, ws_bell_waiter = BIdle \<rparr>"

definition sample_run :: "wake wait_state" where
  "sample_run = fold (wait_step wake_signal (receiver_drain False))
     ([BeginWait (events_now (ws_words sample_wait)) DATA False] @ replicate 8 (WaiterStep False None) @ [BeginBell] @ replicate 3 (BellStep False None) @
      [BeginChange 0 (PublishCursor 1)] @ replicate 5 (Act 0)) sample_wait"

lemma fold_reachable: "wait_reachable signal drain healthy s \<Longrightarrow> wait_reachable signal drain healthy (fold (wait_step signal drain) es s)"
  by (induction es arbitrary: s) (auto intro: wait_reachable.step)

lemma sample_run_state:
  "ws_waiter sample_run = WSleep (events_now (ws_words sample_wait)) DATA [0, 0, 0, 1, 0] \<and> ws_words sample_run Latest = 1 \<and> ws_bell_waiter sample_run = BSleep \<and>
   ws_hint sample_run = 1 \<and> \<not> ws_cancelled sample_run \<and> (\<forall>t. ws_acts sample_run t = [])"
  by (simp add: sample_run_def sample_wait_def quiet_wake_def eval_nat_numeral load_order_def loads_done_def interest_changed_def events_of_def events_now_def
      interest_consts wake_signal_def receiver_drain_def Let_def)

lemma no_lost_wakeup_witness:
  "\<exists>n\<le>9. ws_waiter ((wait_step wake_signal (receiver_drain False) (WaiterStep False None) ^^ n) sample_run) = WDone (Changed (events_now (ws_words sample_run)))"
proof -
  have "wait_start socket_healthy sample_wait" by (simp add: wait_start_def sample_wait_def socket_healthy_def quiet_wake_def)
  then have r: "wait_reachable wake_signal (receiver_drain False) socket_healthy sample_run"
    unfolding sample_run_def by (intro fold_reachable wait_reachable.start)
  note st = sample_run_state
  have "interest_changed DATA (events_now (ws_words sample_wait)) (events_now (ws_words sample_run))"
    using st by (simp add: interest_changed_def events_now_def sample_wait_def DATA_def)
  then show ?thesis using no_lost_wakeup [OF r] st by auto
qed

end
