(* ===== verification/Affordances.thy ===== *)
theory Affordances
  imports Framing "HOL-Library.Log_Nat" "HOL-Library.Finite_Map"
begin

text \<open>
  The messages of the affordances channel (\<open>affordances.rs\<close>): JSON values, the snapshots of each domain with
  their validation and normalisation (\<open>parse_snapshot\<close>), verbs with theirs, and the decoding of a received
  value.  A JSON number is what \<open>serde_json\<close> keeps, a 64-bit unsigned or negative integer or a finite double;
  doubles are their 64 bits.
\<close>

named_theorems json_simps

section \<open>Doubles\<close>

type_synonym double = "64 word"

definition double_negative :: "double \<Rightarrow> bool" where "double_negative x = bit x 63"
definition double_exponent :: "double \<Rightarrow> nat" where "double_exponent x = unat (drop_bit 52 x) mod 2048"
definition double_fraction :: "double \<Rightarrow> nat" where "double_fraction x = unat x mod 2 ^ 52"

definition double_finite :: "double \<Rightarrow> bool" where "double_finite x \<longleftrightarrow> double_exponent x < 2047"

text \<open>The value of a double that is not a NaN, in units of \<open>2 ^ -1074\<close>, of which every finite double is an
  integral multiple; infinity lies beyond all of them.  Comparisons of the source are between such values.\<close>

definition double_units :: "double \<Rightarrow> int" where
  "double_units x =
     (let e = double_exponent x;
          m = (if e = 0 then double_fraction x else (double_fraction x + 2 ^ 52) * 2 ^ (e - 1))
      in if double_negative x then - int m else int m)"

text \<open>Rounding to the nearest double, ties to even: \<open>k\<close> low bits of the magnitude are dropped.\<close>

definition round_magnitude :: "nat \<Rightarrow> nat \<times> nat" where
  "round_magnitude n =
     (if n < 2 ^ 53 then (n, 0)
      else let k = floorlog 2 n - 53; q = n div 2 ^ k; r = n mod 2 ^ k;
               q1 = (if 2 * r > 2 ^ k \<or> (2 * r = 2 ^ k \<and> odd q) then q + 1 else q)
           in if q1 = 2 ^ 53 then (2 ^ 52, k + 1) else (q1, k))"

definition round_units :: "int \<Rightarrow> double" where
  "round_units u =
     (case round_magnitude (nat \<bar>u\<bar>) of (q, k) \<Rightarrow>
        let e = (if q < 2 ^ 52 then 0 else k + 1);
            f = q mod 2 ^ 52;
            s = (if u < 0 then 2 ^ 63 else 0)
        in if e \<ge> 2047 then of_nat (s + 2047 * 2 ^ 52) else of_nat (s + e * 2 ^ 52 + f))"

definition double_sub :: "double \<Rightarrow> double \<Rightarrow> double" where
  "double_sub x y = round_units (double_units x - double_units y)"

text \<open>\<open>x.max(0.)\<close> and the comparisons.\<close>

definition double_max0 :: "double \<Rightarrow> double" where "double_max0 x = (if double_units x \<le> 0 then 0 else x)"
definition double_less :: "double \<Rightarrow> double \<Rightarrow> bool" where "double_less x y \<longleftrightarrow> double_units x < double_units y"

section \<open>JSON values\<close>

datatype json_number = PosInt u64 | NegInt "64 word" | Float double

text \<open>An object is \<open>serde_json::Map\<close>, a map ordered by key: a finite map.\<close>

datatype json =
    JNull
  | JBool bool
  | JNumber json_number
  | JString string
  | JArray "json list"
  | JObject "(string, json) fmap"

definition json_object :: "(string \<times> json) list \<Rightarrow> json" where
  "json_object kvs = JObject (fmap_of_list kvs)"

text \<open>\<open>as_f64\<close>: \<open>u64 as f64\<close> and \<open>i64 as f64\<close> round.\<close>

primrec as_f64 :: "json_number \<Rightarrow> double" where
  "as_f64 (PosInt n) = round_units (int (unat n) * 2 ^ 1074)"
| "as_f64 (NegInt n) = round_units (sint n * 2 ^ 1074)"
| "as_f64 (Float x) = x"

definition is_null :: "json \<Rightarrow> bool" where "is_null v = (case v of JNull \<Rightarrow> True | _ \<Rightarrow> False)"

definition as_object :: "json \<Rightarrow> (string, json) fmap option" where
  "as_object v = (case v of JObject m \<Rightarrow> Some m | _ \<Rightarrow> None)"

definition as_str :: "json \<Rightarrow> string option" where
  "as_str v = (case v of JString s \<Rightarrow> Some s | _ \<Rightarrow> None)"

definition as_bool :: "json \<Rightarrow> bool option" where
  "as_bool v = (case v of JBool b \<Rightarrow> Some b | _ \<Rightarrow> None)"

definition as_u64 :: "json \<Rightarrow> u64 option" where
  "as_u64 v = (case v of JNumber (PosInt n) \<Rightarrow> Some n | _ \<Rightarrow> None)"

text \<open>\<open>v.get(k)\<close>, and \<open>v[k]\<close>: \<open>Null\<close> when the value is not an object or lacks the key.\<close>

definition get_key :: "json \<Rightarrow> string \<Rightarrow> json option" where
  "get_key v k = Option.bind (as_object v) (\<lambda>m. fmlookup m k)"

definition index :: "json \<Rightarrow> string \<Rightarrow> json" where
  "index v k = (case get_key v k of Some x \<Rightarrow> x | None \<Rightarrow> JNull)"

text \<open>\<open>v[k] = x\<close> on an object.\<close>

definition set_key :: "string \<Rightarrow> json \<Rightarrow> json \<Rightarrow> json" where
  "set_key k x v = (case v of JObject m \<Rightarrow> JObject (fmupd k x m) | _ \<Rightarrow> v)"

text \<open>\<open>json!(x)\<close> of a double: a value that is not finite becomes \<open>Null\<close>.\<close>

definition of_f64 :: "double \<Rightarrow> json" where
  "of_f64 x = (if double_finite x then JNumber (Float x) else JNull)"

text \<open>\<open>invalid()\<close>, and an error of \<open>serde_json::from_value\<close>.\<close>

datatype message_error = Malformed | Mistyped

type_synonym 'a parsed = "('a, message_error) outcome"

definition number_of :: "json \<Rightarrow> double parsed" where
  "number_of v =
     (case v of
        JNumber n \<Rightarrow> if double_finite (as_f64 n) then Ok (as_f64 n) else Err Malformed
      | _ \<Rightarrow> Err Malformed)"

definition nonnegative :: "json \<Rightarrow> unit parsed" where
  "nonnegative v = and_then (number_of v) (\<lambda>x. if double_less x 0 then Err Malformed else Ok ())"

definition size_check :: "json \<Rightarrow> unit parsed" where
  "size_check v =
     (if is_null v then Ok ()
      else and_then (number_of (index v ''width'')) (\<lambda>w.
           if \<not> double_less 0 w then Err Malformed
           else and_then (number_of (index v ''height'')) (\<lambda>h.
           if \<not> double_less 0 h then Err Malformed else Ok ())))"

section \<open>Snapshots\<close>

record size_of = sz_width :: double sz_height :: double

datatype artwork = ArtworkUrl string | ArtworkIcon string

type_synonym capabilities = "(string, bool) fmap"

record media =
  md_status :: string
  md_position :: "double option"
  md_rate :: double
  md_duration :: "double option"
  md_title :: "string option"
  md_artwork :: "artwork option"
  md_capabilities :: capabilities

record navigation =
  nv_url :: "string option"
  nv_title :: "string option"
  nv_can_go_back :: bool
  nv_can_go_forward :: bool
  nv_loading :: bool
  nv_capabilities :: capabilities

record axis =
  ax_scrollable :: bool
  ax_content_length :: double
  ax_viewport_length :: double
  ax_position :: double

record scroll =
  sl_x :: axis
  sl_y :: axis
  sl_capabilities :: capabilities

record window =
  wd_title :: "string option"
  wd_requested_size :: "size_of option"
  wd_ready :: bool

record presentation =
  pr_visible :: bool
  pr_preferred_size :: "size_of option"
  pr_scale :: double
  pr_focused :: bool

text \<open>\<open>Presentation::default\<close>: visible, at scale one.\<close>

definition presentation_default :: presentation where
  "presentation_default = \<lparr> pr_visible = True, pr_preferred_size = None, pr_scale = 0x3FF0000000000000, pr_focused = False \<rparr>"

datatype domain = MediaDomain | NavigationDomain | CursorDomain | ScrollDomain | WindowDomain | PresentationDomain

datatype snapshot =
    MediaSnapshot media
  | NavigationSnapshot navigation
  | CursorSnapshot string
  | ScrollSnapshot scroll
  | WindowSnapshot window
  | PresentationSnapshot presentation
  | Withdraw domain

primrec domain_name :: "domain \<Rightarrow> string" where
  "domain_name MediaDomain = ''media''"
| "domain_name NavigationDomain = ''navigation''"
| "domain_name CursorDomain = ''cursor''"
| "domain_name ScrollDomain = ''scroll''"
| "domain_name WindowDomain = ''window''"
| "domain_name PresentationDomain = ''presentation''"

definition domain_parse :: "string \<Rightarrow> domain option" where
  "domain_parse s =
     (if s = ''media'' then Some MediaDomain else if s = ''navigation'' then Some NavigationDomain
      else if s = ''cursor'' then Some CursorDomain else if s = ''scroll'' then Some ScrollDomain
      else if s = ''window'' then Some WindowDomain else if s = ''presentation'' then Some PresentationDomain else None)"

primrec snapshot_domain :: "snapshot \<Rightarrow> domain" where
  "snapshot_domain (MediaSnapshot _) = MediaDomain"
| "snapshot_domain (NavigationSnapshot _) = NavigationDomain"
| "snapshot_domain (CursorSnapshot _) = CursorDomain"
| "snapshot_domain (ScrollSnapshot _) = ScrollDomain"
| "snapshot_domain (WindowSnapshot _) = WindowDomain"
| "snapshot_domain (PresentationSnapshot _) = PresentationDomain"
| "snapshot_domain (Withdraw d) = d"

subsection \<open>As JSON\<close>

definition of_option :: "('a \<Rightarrow> json) \<Rightarrow> 'a option \<Rightarrow> json" where
  "of_option f x = (case x of None \<Rightarrow> JNull | Some y \<Rightarrow> f y)"

definition of_size :: "size_of \<Rightarrow> json" where
  "of_size s = json_object [(''width'', of_f64 (sz_width s)), (''height'', of_f64 (sz_height s))]"

primrec of_artwork :: "artwork \<Rightarrow> json" where
  "of_artwork (ArtworkUrl u) = json_object [(''kind'', JString ''url''), (''url'', JString u)]"
| "of_artwork (ArtworkIcon n) = json_object [(''kind'', JString ''icon''), (''name'', JString n)]"

definition of_capabilities :: "capabilities \<Rightarrow> json" where
  "of_capabilities cs = JObject (fmmap JBool cs)"

definition of_axis :: "axis \<Rightarrow> json" where
  "of_axis a = json_object [(''scrollable'', JBool (ax_scrollable a)), (''content_length'', of_f64 (ax_content_length a)),
     (''viewport_length'', of_f64 (ax_viewport_length a)), (''position'', of_f64 (ax_position a))]"

fun body :: "snapshot \<Rightarrow> json" where
  "body (MediaSnapshot m) = json_object [(''status'', JString (md_status m)), (''position'', of_option of_f64 (md_position m)),
     (''rate'', of_f64 (md_rate m)), (''duration'', of_option of_f64 (md_duration m)), (''title'', of_option JString (md_title m)),
     (''artwork'', of_option of_artwork (md_artwork m)), (''capabilities'', of_capabilities (md_capabilities m))]"
| "body (NavigationSnapshot n) = json_object [(''url'', of_option JString (nv_url n)), (''title'', of_option JString (nv_title n)),
     (''can_go_back'', JBool (nv_can_go_back n)), (''can_go_forward'', JBool (nv_can_go_forward n)),
     (''loading'', JBool (nv_loading n)), (''capabilities'', of_capabilities (nv_capabilities n))]"
| "body (CursorSnapshot s) = json_object [(''shape'', JString s)]"
| "body (ScrollSnapshot s) = json_object [(''x'', of_axis (sl_x s)), (''y'', of_axis (sl_y s)), (''capabilities'', of_capabilities (sl_capabilities s))]"
| "body (WindowSnapshot w) = json_object [(''title'', of_option JString (wd_title w)), (''requested_size'', of_option of_size (wd_requested_size w)),
     (''ready'', JBool (wd_ready w))]"
| "body (PresentationSnapshot p) = json_object [(''visible'', JBool (pr_visible p)), (''preferred_size'', of_option of_size (pr_preferred_size p)),
     (''scale'', of_f64 (pr_scale p)), (''focused'', JBool (pr_focused p))]"
| "body (Withdraw _) = JNull"

definition snapshot_wire :: "snapshot \<Rightarrow> json" where
  "snapshot_wire s = json_object [(''version'', JNumber (PosInt 1)), (''domain'', JString (domain_name (snapshot_domain s))),
     (''domain_version'', JNumber (PosInt 1)), (''kind'', JString ''snapshot''), (''body'', body s)]"


subsection \<open>From JSON\<close>

text \<open>\<open>serde_json::from_value\<close> at the types of the snapshots: a field that is not optional must be there and have
  its type, further fields are ignored.\<close>

definition typed :: "'a option \<Rightarrow> 'a parsed" where "typed x = ok_or Mistyped x"

definition to_f64 :: "json \<Rightarrow> double option" where
  "to_f64 v = (case v of JNumber n \<Rightarrow> Some (as_f64 n) | _ \<Rightarrow> None)"

definition to_option :: "(json \<Rightarrow> 'a option) \<Rightarrow> json \<Rightarrow> 'a option option" where
  "to_option f v = (if is_null v then Some None else map_option Some (f v))"

definition to_capabilities :: "json \<Rightarrow> capabilities option" where
  "to_capabilities v =
     Option.bind (as_object v) (\<lambda>m.
       if fmpred (\<lambda>_ x. as_bool x \<noteq> None) m then Some (fmmap (\<lambda>x. the (as_bool x)) m) else None)"

definition to_size :: "json \<Rightarrow> size_of option" where
  "to_size v =
     Option.bind (to_f64 (index v ''width'')) (\<lambda>w.
     Option.bind (to_f64 (index v ''height'')) (\<lambda>h. Some \<lparr> sz_width = w, sz_height = h \<rparr>))"

definition to_artwork :: "json \<Rightarrow> artwork option" where
  "to_artwork v =
     Option.bind (as_str (index v ''kind'')) (\<lambda>k.
       if k = ''url'' then map_option ArtworkUrl (as_str (index v ''url''))
       else if k = ''icon'' then map_option ArtworkIcon (as_str (index v ''name'')) else None)"

definition to_axis :: "json \<Rightarrow> axis option" where
  "to_axis v =
     Option.bind (as_bool (index v ''scrollable'')) (\<lambda>s.
     Option.bind (to_f64 (index v ''content_length'')) (\<lambda>c.
     Option.bind (to_f64 (index v ''viewport_length'')) (\<lambda>w.
     Option.bind (to_f64 (index v ''position'')) (\<lambda>p.
       Some \<lparr> ax_scrollable = s, ax_content_length = c, ax_viewport_length = w, ax_position = p \<rparr>))))"

definition to_media :: "json \<Rightarrow> media option" where
  "to_media v =
     Option.bind (as_str (index v ''status'')) (\<lambda>status.
     Option.bind (to_option to_f64 (index v ''position'')) (\<lambda>position.
     Option.bind (to_f64 (index v ''rate'')) (\<lambda>rate.
     Option.bind (to_option to_f64 (index v ''duration'')) (\<lambda>duration.
     Option.bind (to_option as_str (index v ''title'')) (\<lambda>title.
     Option.bind (to_option to_artwork (index v ''artwork'')) (\<lambda>artwork.
     Option.bind (to_capabilities (index v ''capabilities'')) (\<lambda>capabilities.
       Some \<lparr> md_status = status, md_position = position, md_rate = rate, md_duration = duration, md_title = title,
              md_artwork = artwork, md_capabilities = capabilities \<rparr>)))))))"

definition to_navigation :: "json \<Rightarrow> navigation option" where
  "to_navigation v =
     Option.bind (to_option as_str (index v ''url'')) (\<lambda>url.
     Option.bind (to_option as_str (index v ''title'')) (\<lambda>title.
     Option.bind (as_bool (index v ''can_go_back'')) (\<lambda>can_go_back.
     Option.bind (as_bool (index v ''can_go_forward'')) (\<lambda>can_go_forward.
     Option.bind (as_bool (index v ''loading'')) (\<lambda>loading.
     Option.bind (to_capabilities (index v ''capabilities'')) (\<lambda>capabilities.
       Some \<lparr> nv_url = url, nv_title = title, nv_can_go_back = can_go_back, nv_can_go_forward = can_go_forward,
              nv_loading = loading, nv_capabilities = capabilities \<rparr>))))))"

definition to_scroll :: "json \<Rightarrow> scroll option" where
  "to_scroll v =
     Option.bind (to_axis (index v ''x'')) (\<lambda>x.
     Option.bind (to_axis (index v ''y'')) (\<lambda>y.
     Option.bind (to_capabilities (index v ''capabilities'')) (\<lambda>capabilities.
       Some \<lparr> sl_x = x, sl_y = y, sl_capabilities = capabilities \<rparr>)))"

definition to_window :: "json \<Rightarrow> window option" where
  "to_window v =
     Option.bind (to_option as_str (index v ''title'')) (\<lambda>title.
     Option.bind (to_option to_size (index v ''requested_size'')) (\<lambda>requested_size.
     Option.bind (as_bool (index v ''ready'')) (\<lambda>ready.
       Some \<lparr> wd_title = title, wd_requested_size = requested_size, wd_ready = ready \<rparr>)))"

definition to_presentation :: "json \<Rightarrow> presentation option" where
  "to_presentation v =
     Option.bind (as_bool (index v ''visible'')) (\<lambda>visible.
     Option.bind (to_option to_size (index v ''preferred_size'')) (\<lambda>preferred_size.
     Option.bind (to_f64 (index v ''scale'')) (\<lambda>scale.
     Option.bind (as_bool (index v ''focused'')) (\<lambda>focused.
       Some \<lparr> pr_visible = visible, pr_preferred_size = preferred_size, pr_scale = scale, pr_focused = focused \<rparr>))))"

section \<open>Validation\<close>

definition CURSORS :: "string list" where
  "CURSORS = [''auto'', ''default'', ''none'', ''context-menu'', ''help'', ''pointer'', ''progress'', ''wait'', ''cell'',
     ''crosshair'', ''text'', ''vertical-text'', ''alias'', ''copy'', ''move'', ''no-drop'', ''not-allowed'', ''grab'',
     ''grabbing'', ''e-resize'', ''n-resize'', ''ne-resize'', ''nw-resize'', ''s-resize'', ''se-resize'', ''sw-resize'',
     ''w-resize'', ''ew-resize'', ''ns-resize'', ''nesw-resize'', ''nwse-resize'', ''col-resize'', ''row-resize'',
     ''all-scroll'', ''zoom-in'', ''zoom-out'']"

primrec verbs_of :: "domain \<Rightarrow> string list" where
  "verbs_of MediaDomain = [''play'', ''pause'', ''stop'', ''next'', ''previous'', ''seek_absolute'', ''seek_relative'']"
| "verbs_of NavigationDomain = [''back'', ''forward'', ''reload'', ''stop'', ''load'']"
| "verbs_of CursorDomain = []"
| "verbs_of ScrollDomain = [''scroll_by_step'', ''set_position'']"
| "verbs_of WindowDomain = []"
| "verbs_of PresentationDomain = []"

definition known_verb :: "domain \<Rightarrow> string \<Rightarrow> bool" where
  "known_verb d name \<longleftrightarrow> name \<in> set (verbs_of d)"

primrec required_keys :: "domain \<Rightarrow> string list" where
  "required_keys MediaDomain = [''status'', ''position'', ''rate'', ''duration'', ''title'', ''artwork'', ''capabilities'']"
| "required_keys NavigationDomain = [''url'', ''title'', ''can_go_back'', ''can_go_forward'', ''loading'', ''capabilities'']"
| "required_keys CursorDomain = [''shape'']"
| "required_keys ScrollDomain = [''x'', ''y'', ''capabilities'']"
| "required_keys WindowDomain = [''title'', ''requested_size'', ''ready'']"
| "required_keys PresentationDomain = [''visible'', ''preferred_size'', ''scale'', ''focused'']"

definition has_capabilities :: "domain \<Rightarrow> bool" where
  "has_capabilities d \<longleftrightarrow> d \<in> {MediaDomain, NavigationDomain, ScrollDomain}"

text \<open>The map of capabilities keeps only the verbs that are known.\<close>

definition retain_known :: "domain \<Rightarrow> json \<Rightarrow> json parsed" where
  "retain_known d b =
     (if has_capabilities d then
        and_then (ok_or Malformed (as_object (index b ''capabilities''))) (\<lambda>cs.
          Ok (set_key ''capabilities'' (JObject (fmfilter (known_verb d) cs)) b))
      else Ok b)"

definition unless_null :: "json \<Rightarrow> unit parsed \<Rightarrow> unit parsed" where
  "unless_null v r = (if is_null v then Ok () else r)"

definition media_check :: "json \<Rightarrow> unit parsed" where
  "media_check b =
     and_then (unless_null (index b ''position'') (nonnegative (index b ''position''))) (\<lambda>_.
     and_then (unless_null (index b ''duration'') (nonnegative (index b ''duration''))) (\<lambda>_.
     and_then (number_of (index b ''rate'')) (\<lambda>_.
     if is_null (index b ''position'') \<or> is_null (index b ''duration'') then Ok ()
     else and_then (number_of (index b ''position'')) (\<lambda>p.
          and_then (number_of (index b ''duration'')) (\<lambda>d.
          if double_less d p then Err Malformed else Ok ())))))"

definition media_status :: "json \<Rightarrow> json parsed" where
  "media_status b =
     and_then (ok_or Malformed (as_str (index b ''status''))) (\<lambda>status.
       Ok (if status \<in> {''playing'', ''paused'', ''stopped'', ''buffering'', ''unknown''} then b
           else set_key ''status'' (JString ''unknown'') b))"

definition media_artwork :: "json \<Rightarrow> json parsed" where
  "media_artwork b =
     (if is_null (index b ''artwork'') then Ok b
      else and_then (ok_or Malformed (as_str (index (index b ''artwork'') ''kind''))) (\<lambda>kind.
        Ok (if kind \<in> {''url'', ''icon''} then b else set_key ''artwork'' JNull b)))"

definition axis_check :: "json \<Rightarrow> unit parsed" where
  "axis_check a =
     and_then (nonnegative (index a ''content_length'')) (\<lambda>_.
     and_then (nonnegative (index a ''viewport_length'')) (\<lambda>_.
     and_then (nonnegative (index a ''position'')) (\<lambda>_.
     and_then (number_of (index a ''position'')) (\<lambda>p.
     and_then (number_of (index a ''content_length'')) (\<lambda>c.
     and_then (number_of (index a ''viewport_length'')) (\<lambda>w.
       if double_less (double_max0 (double_sub c w)) p \<or> (index a ''scrollable'' = JBool False \<and> double_units p \<noteq> 0)
       then Err Malformed else Ok ()))))))"

primrec parse_body :: "domain \<Rightarrow> json \<Rightarrow> snapshot parsed" where
  "parse_body MediaDomain b =
     and_then (media_check b) (\<lambda>_.
     and_then (media_status b) (\<lambda>b1.
     and_then (media_artwork b1) (\<lambda>b2.
       map_outcome_ok MediaSnapshot (typed (to_media b2)))))"
| "parse_body NavigationDomain b = map_outcome_ok NavigationSnapshot (typed (to_navigation b))"
| "parse_body CursorDomain b =
     and_then (ok_or Malformed (as_str (index b ''shape''))) (\<lambda>shape.
       Ok (CursorSnapshot (if shape \<in> set CURSORS then shape else ''default'')))"
| "parse_body ScrollDomain b =
     and_then (axis_check (index b ''x'')) (\<lambda>_.
     and_then (axis_check (index b ''y'')) (\<lambda>_.
       map_outcome_ok ScrollSnapshot (typed (to_scroll b))))"
| "parse_body WindowDomain b =
     and_then (size_check (index b ''requested_size'')) (\<lambda>_.
       map_outcome_ok WindowSnapshot (typed (to_window b)))"
| "parse_body PresentationDomain b =
     and_then (size_check (index b ''preferred_size'')) (\<lambda>_.
     and_then (number_of (index b ''scale'')) (\<lambda>scale.
     if \<not> double_less 0 scale then Err Malformed
     else map_outcome_ok PresentationSnapshot (typed (to_presentation b))))"

definition parse_snapshot :: "domain \<Rightarrow> json \<Rightarrow> snapshot parsed" where
  "parse_snapshot d b =
     (if is_null b then Ok (Withdraw d)
      else if as_object b = None \<or> list_ex (\<lambda>k. get_key b k = None) (required_keys d) then Err Malformed
      else and_then (retain_known d b) (parse_body d))"

section \<open>Verbs\<close>

record verb =
  vb_domain :: domain
  vb_name :: string
  vb_body :: json

datatype affordance_event = SnapshotEvent snapshot | VerbEvent verb | ClosedEvent

definition validate_verb :: "verb \<Rightarrow> bool parsed" where
  "validate_verb v =
     (let b = vb_body v; name = vb_name v in
      if as_object b = None then Err Malformed
      else case vb_domain v of
        MediaDomain \<Rightarrow>
          if name = ''seek_absolute'' then and_then (nonnegative (index b ''position'')) (\<lambda>_. Ok True)
          else if name = ''seek_relative'' then and_then (number_of (index b ''offset'')) (\<lambda>_. Ok True)
          else Ok True
      | NavigationDomain \<Rightarrow>
          if name = ''load'' then and_then (ok_or Malformed (as_str (index b ''url''))) (\<lambda>_. Ok True) else Ok True
      | ScrollDomain \<Rightarrow>
          and_then (ok_or Malformed (as_str (index b ''axis''))) (\<lambda>axis.
          if axis \<notin> {''x'', ''y''} then Ok False
          else if name = ''set_position'' then and_then (number_of (index b ''position'')) (\<lambda>_. Ok True)
          else and_then (ok_or Malformed (as_str (index b ''step''))) (\<lambda>step.
               and_then (ok_or Malformed (as_str (index b ''direction''))) (\<lambda>direction.
               Ok (step \<in> {''small'', ''large''} \<and> direction \<in> {''decrement'', ''increment''}))))
      | _ \<Rightarrow> Ok True)"

definition verb_wire :: "verb \<Rightarrow> json" where
  "verb_wire v = json_object [(''version'', JNumber (PosInt 1)), (''domain'', JString (domain_name (vb_domain v))),
     (''domain_version'', JNumber (PosInt 1)), (''kind'', JString ''verb''), (''verb'', JString (vb_name v)),
     (''body'', vb_body v)]"

section \<open>Decoding\<close>

type_synonym snapshots = "domain \<Rightarrow> snapshot option"

definition unscrollable :: "snapshot \<Rightarrow> json \<Rightarrow> bool" where
  "unscrollable s b =
     (case s of
        ScrollSnapshot sc \<Rightarrow>
          (index b ''axis'' = JString ''x'' \<and> \<not> ax_scrollable (sl_x sc)) \<or>
          (index b ''axis'' = JString ''y'' \<and> \<not> ax_scrollable (sl_y sc))
      | _ \<Rightarrow> False)"

definition decode_verb :: "domain \<Rightarrow> (string, json) fmap \<Rightarrow> snapshots \<Rightarrow> affordance_event option parsed" where
  "decode_verb d m sn =
     and_then (ok_or Malformed (Option.bind (fmlookup m ''verb'') as_str)) (\<lambda>name.
     if \<not> known_verb d name then Ok None
     else case sn d of
       None \<Rightarrow> Ok None
     | Some s \<Rightarrow>
       if index (index (body s) ''capabilities'') name \<noteq> JBool True then Ok None
       else and_then (ok_or Malformed (fmlookup m ''body'')) (\<lambda>b.
         let v = \<lparr> vb_domain = d, vb_name = name, vb_body = b \<rparr> in
         and_then (validate_verb v) (\<lambda>valid.
         Ok (if valid \<and> \<not> unscrollable s b then Some (VerbEvent v) else None))))"

definition decode :: "json \<Rightarrow> snapshots \<Rightarrow> bool \<Rightarrow> affordance_event option parsed" where
  "decode v sn producer =
     and_then (ok_or Malformed (as_object v)) (\<lambda>m.
     and_then (ok_or Malformed (Option.bind (fmlookup m ''version'') as_u64)) (\<lambda>version.
     and_then (ok_or Malformed (Option.bind (fmlookup m ''domain'') as_str)) (\<lambda>dn.
     and_then (ok_or Malformed (Option.bind (fmlookup m ''domain_version'') as_u64)) (\<lambda>dv.
     and_then (ok_or Malformed (Option.bind (fmlookup m ''kind'') as_str)) (\<lambda>kind.
     if version \<noteq> 1 then Err Malformed
     else case domain_parse dn of
       None \<Rightarrow> Ok None
     | Some d \<Rightarrow>
       if dv \<noteq> 1 then Ok None
       else if kind = ''snapshot'' then
         if (d = PresentationDomain) \<noteq> producer then Err Malformed
         else and_then (ok_or Malformed (fmlookup m ''body'')) (\<lambda>b.
              map_outcome_ok (\<lambda>s. Some (SnapshotEvent s)) (parse_snapshot d b))
       else if kind = ''verb'' then
         if \<not> producer \<or> \<not> has_capabilities d then Err Malformed
         else decode_verb d m sn
       else Ok None)))))"


section \<open>Reading back what was written\<close>

lemma index_object [json_simps]: "index (json_object kvs) k = (case map_of kvs k of Some x \<Rightarrow> x | None \<Rightarrow> JNull)"
  by (simp add: index_def get_key_def as_object_def json_object_def fmlookup_of_list)

lemma get_key_object [json_simps]: "get_key (json_object kvs) k = map_of kvs k"
  by (simp add: get_key_def as_object_def json_object_def fmlookup_of_list)

lemma as_object_simps [json_simps]: "as_object (json_object kvs) = Some (fmap_of_list kvs)" "as_object (JObject m) = Some m"
  "is_null (json_object kvs) = False" "is_null (JObject m) = False" "is_null JNull = True" "is_null (JString s) = False"
  "is_null (JNumber k) = False" "as_str (JString s) = Some s" "as_bool (JBool b) = Some b"
  "as_u64 (JNumber (PosInt n)) = Some n" "to_f64 (JNumber (Float x)) = Some x"
  by (simp_all add: as_object_def json_object_def is_null_def as_str_def as_bool_def as_u64_def to_f64_def)

lemma set_key_object [json_simps]: "index (set_key k x b) j = (if j = k \<and> as_object b \<noteq> None then x else index b j)"
  by (simp add: set_key_def index_def get_key_def as_object_def split: json.split)

lemma as_object_set_key [json_simps]: "as_object (set_key k x b) = map_option (fmupd k x) (as_object b)"
  by (simp add: set_key_def as_object_def split: json.split)

lemma is_null_iff: "is_null v \<longleftrightarrow> v = JNull"
  by (simp add: is_null_def split: json.split)

lemma number_of_eq_Ok: "number_of v = Ok x \<longleftrightarrow> to_f64 v = Some x \<and> double_finite x"
  by (auto simp: number_of_def to_f64_def split: json.split)

lemma number_of_f64 [json_simps]: "double_finite x \<Longrightarrow> number_of (of_f64 x) = Ok x"
  by (simp add: number_of_def of_f64_def)

lemma to_f64_of_f64 [json_simps]: "double_finite x \<Longrightarrow> to_f64 (of_f64 x) = Some x" "double_finite x \<Longrightarrow> is_null (of_f64 x) = False"
  by (simp_all add: of_f64_def json_simps)

lemma nonnegative_eq_Ok: "nonnegative v = Ok () \<longleftrightarrow> (\<exists>x. to_f64 v = Some x \<and> double_finite x \<and> \<not> double_less x 0)"
  by (auto simp: nonnegative_def and_then_eq_Ok number_of_eq_Ok)

lemma to_option_Some: "to_option f v = Some x \<longleftrightarrow> (case x of None \<Rightarrow> v = JNull | Some y \<Rightarrow> v \<noteq> JNull \<and> f v = Some y)"
  by (auto simp: to_option_def is_null_iff split: option.split)

text \<open>The capabilities that are kept.\<close>

lemma to_capabilities_back [json_simps]: "to_capabilities (of_capabilities cs) = Some cs"
  by (auto simp: to_capabilities_def of_capabilities_def json_simps fmap.map_comp comp_def fmap.map_ident)

lemma to_capabilities_filter:
  "to_capabilities (JObject (fmfilter p m)) = Some cs \<Longrightarrow> fmfilter p cs = cs"
  by (auto simp: to_capabilities_def json_simps split: if_splits)

section \<open>What a parsed snapshot satisfies\<close>

definition finite_nonneg :: "double \<Rightarrow> bool" where "finite_nonneg x \<longleftrightarrow> double_finite x \<and> \<not> double_less x 0"
definition finite_positive :: "double \<Rightarrow> bool" where "finite_positive x \<longleftrightarrow> double_finite x \<and> double_less 0 x"

definition size_valid :: "size_of \<Rightarrow> bool" where
  "size_valid s \<longleftrightarrow> finite_positive (sz_width s) \<and> finite_positive (sz_height s)"

definition axis_valid :: "axis \<Rightarrow> bool" where
  "axis_valid a \<longleftrightarrow> finite_nonneg (ax_content_length a) \<and> finite_nonneg (ax_viewport_length a) \<and> finite_nonneg (ax_position a) \<and>
     \<not> double_less (double_max0 (double_sub (ax_content_length a) (ax_viewport_length a))) (ax_position a) \<and>
     (\<not> ax_scrollable a \<longrightarrow> double_units (ax_position a) = 0)"

definition caps_known :: "domain \<Rightarrow> capabilities \<Rightarrow> bool" where
  "caps_known d cs \<longleftrightarrow> fmfilter (known_verb d) cs = cs"

definition media_valid :: "media \<Rightarrow> bool" where
  "media_valid m \<longleftrightarrow>
     md_status m \<in> {''playing'', ''paused'', ''stopped'', ''buffering'', ''unknown''} \<and>
     pred_option finite_nonneg (md_position m) \<and> pred_option finite_nonneg (md_duration m) \<and> double_finite (md_rate m) \<and>
     (\<forall>p d. md_position m = Some p \<and> md_duration m = Some d \<longrightarrow> \<not> double_less d p) \<and>
     caps_known MediaDomain (md_capabilities m)"

primrec normalised :: "snapshot \<Rightarrow> bool" where
  "normalised (MediaSnapshot m) = media_valid m"
| "normalised (NavigationSnapshot n) = caps_known NavigationDomain (nv_capabilities n)"
| "normalised (CursorSnapshot s) = (s \<in> set CURSORS)"
| "normalised (ScrollSnapshot s) = (axis_valid (sl_x s) \<and> axis_valid (sl_y s) \<and> caps_known ScrollDomain (sl_capabilities s))"
| "normalised (WindowSnapshot w) = pred_option size_valid (wd_requested_size w)"
| "normalised (PresentationSnapshot p) = (pred_option size_valid (pr_preferred_size p) \<and> finite_positive (pr_scale p))"
| "normalised (Withdraw d) = True"

lemma size_check_Ok:
  assumes "size_check v = Ok ()" "to_option to_size v = Some x"
  shows "pred_option size_valid x"
  using assms by (auto simp: size_check_def and_then_eq_Ok number_of_eq_Ok is_null_iff to_option_Some to_size_def
      size_valid_def finite_positive_def bind_eq_Some_conv split: if_splits option.splits)

lemma size_check_back:
  assumes "pred_option size_valid x"
  shows "size_check (of_option of_size x) = Ok ()" "to_option to_size (of_option of_size x) = Some x"
  using assms by (auto simp: size_check_def of_option_def of_size_def size_valid_def finite_positive_def to_option_def
      to_size_def json_simps split: option.splits)

lemma axis_check_Ok:
  assumes "axis_check v = Ok ()" "to_axis v = Some a"
  shows "axis_valid a"
  using assms by (auto simp: axis_check_def and_then_eq_Ok number_of_eq_Ok nonnegative_eq_Ok to_axis_def axis_valid_def
      finite_nonneg_def bind_eq_Some_conv as_bool_def split: if_splits json.splits)

lemma axis_check_back:
  assumes "axis_valid a"
  shows "axis_check (of_axis a) = Ok ()" "to_axis (of_axis a) = Some a"
  using assms by (auto simp: axis_check_def of_axis_def axis_valid_def nonnegative_def
      finite_nonneg_def to_axis_def json_simps)

lemma retain_known_index:
  assumes "retain_known d b = Ok b'" "as_object b \<noteq> None"
  shows "as_object b' \<noteq> None" "k \<noteq> ''capabilities'' \<Longrightarrow> index b' k = index b k"
    "has_capabilities d \<Longrightarrow> to_capabilities (index b' ''capabilities'') = Some cs \<Longrightarrow> caps_known d cs"
  using assms by (auto simp: retain_known_def and_then_eq_Ok ok_or_eq_Ok json_simps caps_known_def
      intro: to_capabilities_filter split: if_splits)

lemma media_check_Ok:
  assumes "media_check b = Ok ()" "to_option to_f64 (index b ''position'') = Some p" "to_option to_f64 (index b ''duration'') = Some d"
    "to_f64 (index b ''rate'') = Some r"
  shows "pred_option finite_nonneg p" "pred_option finite_nonneg d" "double_finite r"
    "p = Some x \<Longrightarrow> d = Some y \<Longrightarrow> \<not> double_less y x"
  using assms by (auto simp: media_check_def unless_null_def and_then_eq_Ok number_of_eq_Ok nonnegative_eq_Ok is_null_iff
      to_option_Some finite_nonneg_def split: if_splits option.splits)

lemma media_status_Ok:
  assumes "media_status b = Ok b'" "as_object b \<noteq> None"
  shows "as_object b' \<noteq> None" "k \<noteq> ''status'' \<Longrightarrow> index b' k = index b k"
    "as_str (index b' ''status'') = Some s \<Longrightarrow> s \<in> {''playing'', ''paused'', ''stopped'', ''buffering'', ''unknown''}"
proof -
  obtain st where st: "as_str (index b ''status'') = Some st"
    "b' = (if st \<in> {''playing'', ''paused'', ''stopped'', ''buffering'', ''unknown''} then b else set_key ''status'' (JString ''unknown'') b)"
    using assms(1) by (auto simp: media_status_def and_then_eq_Ok ok_or_eq_Ok)
  then show "as_object b' \<noteq> None" "k \<noteq> ''status'' \<Longrightarrow> index b' k = index b k" using assms(2) by (simp_all add: json_simps)
  show "s \<in> {''playing'', ''paused'', ''stopped'', ''buffering'', ''unknown''}" if "as_str (index b' ''status'') = Some s"
  proof (cases "st \<in> {''playing'', ''paused'', ''stopped'', ''buffering'', ''unknown''}")
    case True
    then show ?thesis using that st by simp
  next
    case False
    then show ?thesis using that st(2) assms(2) by (simp only: if_False set_key_object as_object_simps simp_thms if_True option.inject) blast
  qed
qed

lemma media_artwork_Ok:
  assumes "media_artwork b = Ok b'" "as_object b \<noteq> None"
  shows "k \<noteq> ''artwork'' \<Longrightarrow> index b' k = index b k"
  using assms by (auto simp: media_artwork_def and_then_eq_Ok ok_or_eq_Ok json_simps split: if_splits)

lemma parse_media_normalised:
  assumes "parse_body MediaDomain b = Ok s" "as_object b \<noteq> None"
    and c: "\<And>cs. to_capabilities (index b ''capabilities'') = Some cs \<Longrightarrow> caps_known MediaDomain cs"
  shows "normalised s \<and> snapshot_domain s = MediaDomain"
proof -
  obtain b1 b2 m where b: "media_check b = Ok ()" "media_status b = Ok b1" "media_artwork b1 = Ok b2" "to_media b2 = Some m" "s = MediaSnapshot m"
    using assms(1) by (auto simp: and_then_eq_Ok typed_def ok_or_def split: option.splits)
  note s1 = media_status_Ok [OF b(2) assms(2)]
  note a1 = media_artwork_Ok [OF b(3) s1(1)]
  have ix: "index b2 ''position'' = index b ''position''" "index b2 ''duration'' = index b ''duration''" "index b2 ''rate'' = index b ''rate''"
    "index b2 ''capabilities'' = index b ''capabilities''" "index b2 ''status'' = index b1 ''status''"
    using a1 s1(2) by simp_all
  have m: "as_str (index b1 ''status'') = Some (md_status m)" "to_option to_f64 (index b ''position'') = Some (md_position m)"
    "to_option to_f64 (index b ''duration'') = Some (md_duration m)" "to_f64 (index b ''rate'') = Some (md_rate m)"
    "to_capabilities (index b ''capabilities'') = Some (md_capabilities m)"
    using b(4) unfolding to_media_def ix by (auto simp: bind_eq_Some_conv)
  have "media_valid m" unfolding media_valid_def
    using media_check_Ok [OF b(1) m(2,3,4)] s1(3) [OF m(1)] c [OF m(5)] by blast
  then show ?thesis using b(5) by simp
qed

lemma parse_snapshot_normalised:
  assumes "parse_snapshot d b = Ok s"
  shows "normalised s \<and> snapshot_domain s = d"
proof (cases "is_null b")
  case True
  then show ?thesis using assms by (auto simp: parse_snapshot_def)
next
  case False
  then obtain b' where b: "as_object b \<noteq> None" "retain_known d b = Ok b'" "parse_body d b' = Ok s"
    using assms by (auto simp: parse_snapshot_def and_then_eq_Ok split: if_splits)
  note r = retain_known_index [OF b(2,1)]
  show ?thesis
  proof (cases d)
    case MediaDomain
    then show ?thesis using parse_media_normalised [of b' s] b r(1,3) by (simp add: has_capabilities_def)
  next
    case NavigationDomain
    then show ?thesis using b(3) r(3) by (auto simp: typed_def ok_or_def to_navigation_def bind_eq_Some_conv has_capabilities_def split: option.splits)
  next
    case CursorDomain
    then show ?thesis using b(3) by (auto simp: and_then_eq_Ok ok_or_eq_Ok CURSORS_def)
  next
    case ScrollDomain
    then show ?thesis using b(3) r(3)
      by (auto simp: and_then_eq_Ok typed_def ok_or_def to_scroll_def bind_eq_Some_conv has_capabilities_def dest: axis_check_Ok split: option.splits)
  next
    case WindowDomain
    then show ?thesis using b(3)
      by (auto simp: and_then_eq_Ok typed_def ok_or_def to_window_def bind_eq_Some_conv dest: size_check_Ok split: option.splits)
  next
    case PresentationDomain
    then show ?thesis using b(3)
      by (auto simp: and_then_eq_Ok typed_def ok_or_def to_presentation_def bind_eq_Some_conv number_of_eq_Ok finite_positive_def
          dest: size_check_Ok split: option.splits if_splits)
  qed
qed

definition is_withdraw :: "snapshot \<Rightarrow> bool" where
  "is_withdraw s = (case s of Withdraw _ \<Rightarrow> True | _ \<Rightarrow> False)"

lemma required_back: "\<not> is_withdraw s \<Longrightarrow> \<not> is_null (body s) \<and> as_object (body s) \<noteq> None \<and>
    \<not> list_ex (\<lambda>k. get_key (body s) k = None) (required_keys (snapshot_domain s))"
  by (cases s) (simp_all add: json_simps is_withdraw_def)

lemma retain_back:
  assumes "has_capabilities d \<Longrightarrow> index b ''capabilities'' = of_capabilities cs \<and> caps_known d cs" "as_object b \<noteq> None"
  shows "retain_known d b = Ok b"
proof (cases "has_capabilities d")
  case True
  then have cs: "index b ''capabilities'' = JObject (fmmap JBool cs)" "caps_known d cs" using assms(1) by (simp_all add: of_capabilities_def)
  obtain m where m: "b = JObject m" using assms(2) by (auto simp: as_object_def split: json.splits)
  then have "fmlookup m ''capabilities'' = Some (JObject (fmmap JBool cs))"
    using cs(1) by (simp add: index_def get_key_def json_simps split: option.splits)
  then have "fmupd ''capabilities'' (JObject (fmmap JBool cs)) m = m" by (intro fmap_ext) auto
  then show ?thesis using True m cs by (simp add: retain_known_def json_simps ok_or_def caps_known_def set_key_def)
qed (simp add: retain_known_def)

lemma to_artwork_back [json_simps]: "to_artwork (of_artwork w) = Some w" "is_null (of_artwork w) = False"
  by (cases w; simp add: to_artwork_def json_simps)+

lemma option_back [json_simps]:
  "to_option as_str (of_option JString t) = Some t"
  "pred_option finite_nonneg p \<Longrightarrow> to_option to_f64 (of_option of_f64 p) = Some p"
  "to_option to_artwork (of_option of_artwork w) = Some w"
  by (auto simp: to_option_def of_option_def finite_nonneg_def json_simps split: option.split)

lemma parse_media_back:
  assumes "media_valid m"
  shows "parse_body MediaDomain (body (MediaSnapshot m)) = Ok (MediaSnapshot m)"
proof -
  let ?b = "body (MediaSnapshot m)"
  have ix: "index ?b ''status'' = JString (md_status m)" "index ?b ''position'' = of_option of_f64 (md_position m)"
    "index ?b ''rate'' = of_f64 (md_rate m)" "index ?b ''duration'' = of_option of_f64 (md_duration m)"
    "index ?b ''title'' = of_option JString (md_title m)" "index ?b ''artwork'' = of_option of_artwork (md_artwork m)"
    "index ?b ''capabilities'' = of_capabilities (md_capabilities m)"
    by (simp_all add: json_simps)
  have "media_check ?b = Ok ()" using assms unfolding media_check_def ix
    by (auto simp: media_valid_def of_option_def unless_null_def nonnegative_def finite_nonneg_def json_simps split: option.splits)
  moreover have "media_status ?b = Ok ?b" using assms unfolding media_status_def ix
    by (auto simp: media_valid_def ok_or_def json_simps)
  moreover have "media_artwork ?b = Ok ?b" unfolding media_artwork_def ix
    by (cases "md_artwork m"; (cases "the (md_artwork m)")?) (auto simp: of_option_def ok_or_def json_simps)
  moreover have "to_media ?b = Some m" using assms unfolding to_media_def ix
    by (auto simp: media_valid_def json_simps)
  ultimately show ?thesis by (simp del: body.simps add: typed_def ok_or_def)
qed

lemma parse_snapshot_back:
  assumes "normalised s"
  shows "parse_snapshot (snapshot_domain s) (body s) = Ok s"
proof (cases "is_withdraw s")
  case True
  then show ?thesis by (auto simp: is_withdraw_def parse_snapshot_def json_simps split: snapshot.splits)
next
  case False
  note r = required_back [OF False]
  have "retain_known (snapshot_domain s) (body s) = Ok (body s) \<and> parse_body (snapshot_domain s) (body s) = Ok s"
  proof (cases s)
    case (MediaSnapshot m)
    then show ?thesis using assms r parse_media_back [of m] retain_back [of MediaDomain "body s" "md_capabilities m"]
      by (simp del: parse_body.simps add: media_valid_def json_simps)
  next
    case (NavigationSnapshot n)
    then show ?thesis using assms r retain_back [of NavigationDomain "body s" "nv_capabilities n"]
      by (simp add: json_simps to_navigation_def typed_def ok_or_def)
  next
    case (CursorSnapshot c)
    then show ?thesis using assms by (simp add: json_simps retain_known_def has_capabilities_def ok_or_def)
  next
    case (ScrollSnapshot c)
    then show ?thesis using assms r retain_back [of ScrollDomain "body s" "sl_capabilities c"] axis_check_back
      by (simp add: json_simps to_scroll_def typed_def ok_or_def)
  next
    case (WindowSnapshot w)
    then show ?thesis using assms size_check_back
      by (simp add: json_simps retain_known_def has_capabilities_def to_window_def typed_def ok_or_def)
  next
    case (PresentationSnapshot p)
    then show ?thesis using assms size_check_back
      by (simp add: json_simps retain_known_def has_capabilities_def to_presentation_def typed_def ok_or_def finite_positive_def)
  qed (use False in \<open>simp add: is_withdraw_def\<close>)
  then show ?thesis using r by (simp add: parse_snapshot_def)
qed

section \<open>Decoding what the other side writes\<close>

lemma domain_parse_name [simp]: "domain_parse (domain_name d) = Some d"
  by (cases d) (simp_all add: domain_parse_def)

lemma decode_wire:
  assumes "normalised s" "(snapshot_domain s = PresentationDomain) = producer"
  shows "decode (snapshot_wire s) sn producer = Ok (Some (SnapshotEvent s))"
  using assms parse_snapshot_back [OF assms(1)]
  by (simp add: decode_def snapshot_wire_def json_simps fmlookup_of_list ok_or_def del: body.simps)

lemma decode_verb_wire:
  assumes "has_capabilities (vb_domain v)"
  shows "decode (verb_wire v) sn True = decode_verb (vb_domain v)
    (fmap_of_list [(''version'', JNumber (PosInt 1)), (''domain'', JString (domain_name (vb_domain v))),
     (''domain_version'', JNumber (PosInt 1)), (''kind'', JString ''verb''), (''verb'', JString (vb_name v)),
     (''body'', vb_body v)]) sn"
  using assms by (simp add: decode_def verb_wire_def json_simps fmlookup_of_list ok_or_def)

text \<open>What enables a verb: the current snapshot of its domain, and for scrolling the axis.\<close>

definition verb_enabled :: "verb \<Rightarrow> snapshots \<Rightarrow> bool" where
  "verb_enabled v sn \<longleftrightarrow>
     (case sn (vb_domain v) of
        None \<Rightarrow> False
      | Some s \<Rightarrow> index (index (body s) ''capabilities'') (vb_name v) = JBool True \<and> \<not> unscrollable s (vb_body v))"

lemma decode_Ok_Some:
  assumes "decode j sn producer = Ok (Some e)"
  obtains (snapshot) d b s where "e = SnapshotEvent s" "(d = PresentationDomain) = producer" "parse_snapshot d b = Ok s"
  | (verb) d m where "producer" "has_capabilities d" "decode_verb d m sn = Ok (Some e)"
  using assms unfolding decode_def and_then_eq_Ok
  by (auto simp: map_outcome_ok_eq_Ok and_then_eq_Ok split: if_splits option.splits)

lemma decode_verb_Ok_Some:
  assumes "decode_verb d m sn = Ok (Some e)"
  obtains v where "e = VerbEvent v" "vb_domain v = d" "known_verb d (vb_name v)" "verb_enabled v sn" "validate_verb v = Ok True"
  using assms by (auto simp: decode_verb_def and_then_eq_Ok Let_def verb_enabled_def split: if_splits option.splits)

lemma decode_VerbEvent:
  assumes "decode j sn producer = Ok (Some (VerbEvent v))"
  shows "producer \<and> has_capabilities (vb_domain v) \<and> known_verb (vb_domain v) (vb_name v) \<and> verb_enabled v sn \<and> validate_verb v = Ok True"
  using assms by (rule decode_Ok_Some) (auto elim: decode_verb_Ok_Some)

lemma decode_SnapshotEvent:
  assumes "decode j sn producer = Ok (Some (SnapshotEvent s))"
  shows "normalised s \<and> (snapshot_domain s = PresentationDomain) = producer"
  using assms by (rule decode_Ok_Some) (auto dest: parse_snapshot_normalised elim: decode_verb_Ok_Some)

lemma decode_not_ClosedEvent: "decode j sn producer \<noteq> Ok (Some ClosedEvent)"
  by (auto elim!: decode_Ok_Some elim: decode_verb_Ok_Some)

lemma decode_verb_wire_eq:
  assumes "known_verb (vb_domain v) (vb_name v)" "validate_verb v = Ok True"
  shows "decode (verb_wire v) sn True = Ok (if verb_enabled v sn then Some (VerbEvent v) else None)"
proof -
  have "has_capabilities (vb_domain v)" using assms(1) by (cases "vb_domain v") (simp_all add: known_verb_def has_capabilities_def)
  then show ?thesis
    using assms by (cases v) (auto simp: decode_verb_wire decode_verb_def fmlookup_of_list json_simps Let_def verb_enabled_def split: option.splits)
qed

subsection \<open>No panics\<close>

lemma checks_not_Panic [simp]: "number_of v \<noteq> Panic" "nonnegative v \<noteq> Panic" "size_check v \<noteq> Panic" "typed x \<noteq> Panic"
  "unless_null v r = Panic \<longleftrightarrow> \<not> is_null v \<and> r = Panic" "map_outcome_ok f q = Panic \<longleftrightarrow> q = Panic"
  by (auto simp: number_of_def nonnegative_def size_check_def and_then_eq_Panic typed_def unless_null_def split: json.splits)
     (cases q; simp)+

lemma parse_snapshot_not_Panic: "parse_snapshot d b \<noteq> Panic"
  by (cases d) (auto simp: parse_snapshot_def retain_known_def and_then_eq_Panic media_check_def media_status_def media_artwork_def axis_check_def)

lemma validate_verb_not_Panic: "validate_verb v \<noteq> Panic"
  by (auto simp: validate_verb_def Let_def and_then_eq_Panic split: domain.splits if_splits)

lemma decode_not_Panic: "decode j sn producer \<noteq> Panic"
  by (auto simp: decode_def decode_verb_def and_then_eq_Panic parse_snapshot_not_Panic validate_verb_not_Panic Let_def
      split: if_splits option.splits)

end
