(* ===== verification/Affordance_Channel.thy ===== *)
theory Affordance_Channel
  imports Affordances
begin

text \<open>
  The two ends of the affordances channel (\<open>affordances.rs\<close>): the state behind the mutex, the calls of the owner
  (\<open>publish\<close>, \<open>send\<close>, \<open>poll\<close>, \<open>close\<close>), and the worker thread \<open>drive\<close>, cut where it holds no lock: looking at the stop
  flag, the locked batch of sends, the flush, recording what stays queued, one receive, one locked decode, and
  what the thread does when \<open>drive\<close> has returned.  The worker moves bytes with \<open>Framed\<close> (theory \<open>Framing\<close>).
\<close>

section \<open>State\<close>

datatype channel_error = Message message_error | Encode | BrokenPipe | QueueOverflow | EventOverflow | Wire frame_error

text \<open>Where the worker stands.  \<open>AtRead n\<close>: it may receive \<open>n\<close> more messages in this round; \<open>AtDecode\<close>: it has
  received one; \<open>AtEnd\<close>: \<open>drive\<close> has returned.\<close>

datatype worker_at = AtTop | AtSend | AtFlush | AtFlushed | AtRead nat | AtDecode json nat | AtEnd | Finished | Panicked

record affordance_channel =
  af_outgoing :: "json list"
  af_bytes :: nat
  af_wire_bytes :: nat
  af_events :: "affordance_event list"
  af_event_bytes :: nat
  af_snapshots :: snapshots
  af_alive :: bool
  af_stop :: bool
  af_producer :: bool
  af_framed :: framed
  af_at :: worker_at

definition channel_start :: "bool \<Rightarrow> affordance_channel" where
  "channel_start producer =
     \<lparr> af_outgoing = [], af_bytes = 0, af_wire_bytes = 0, af_events = [], af_event_bytes = 0, af_snapshots = Map.empty,
       af_alive = True, af_stop = False, af_producer = producer, af_framed = framed_new, af_at = AtTop \<rparr>"

text \<open>\<open>ser\<close> is \<open>serde_json::to_vec\<close>; the \<open>unwrap\<close> on its result here is \<open>None\<close>.\<close>

definition event_size :: "(json \<Rightarrow> bytes option) \<Rightarrow> affordance_event \<Rightarrow> nat option" where
  "event_size ser e =
     (case e of
        SnapshotEvent s \<Rightarrow> map_option (\<lambda>j. length j + 4) (ser (snapshot_wire s))
      | VerbEvent v \<Rightarrow> map_option (\<lambda>j. length j + length (vb_name v) + 64) (ser (vb_body v))
      | ClosedEvent \<Rightarrow> Some 0)"

definition QUEUE_BYTES :: nat where "QUEUE_BYTES = 524288"
definition MESSAGE_BYTES :: nat where "MESSAGE_BYTES = 131076"
definition EVENT_COUNT :: nat where "EVENT_COUNT = 1024"

section \<open>Calls of the owner\<close>

definition enqueue_locked :: "(json \<Rightarrow> bytes option) \<Rightarrow> json \<Rightarrow> affordance_channel \<Rightarrow> (unit, channel_error) outcome \<times> affordance_channel" where
  "enqueue_locked ser v c =
     (case ser v of
        None \<Rightarrow> (Err Encode, c)
      | Some j \<Rightarrow>
        let n = length j + 4 in
        if \<not> af_alive c \<or> af_stop c then (Err BrokenPipe, c)
        else if MESSAGE_BYTES < n \<or> QUEUE_BYTES < af_bytes c + af_wire_bytes c + n then (Err QueueOverflow, c\<lparr> af_stop := True \<rparr>)
        else (Ok (), c\<lparr> af_bytes := af_bytes c + n, af_outgoing := af_outgoing c @ [v] \<rparr>))"

definition store_snapshot :: "snapshot \<Rightarrow> snapshots \<Rightarrow> snapshots" where
  "store_snapshot s sn = (if is_withdraw s then sn(snapshot_domain s := None) else sn(snapshot_domain s := Some s))"

definition times_finite :: "snapshot \<Rightarrow> bool" where
  "times_finite s =
     (case s of
        MediaSnapshot m \<Rightarrow> pred_option double_finite (md_position m) \<and> pred_option double_finite (md_duration m)
      | _ \<Rightarrow> True)"

definition publish :: "(json \<Rightarrow> bytes option) \<Rightarrow> snapshot \<Rightarrow> affordance_channel \<Rightarrow> (unit, channel_error) outcome \<times> affordance_channel" where
  "publish ser v c =
     (if (snapshot_domain v = PresentationDomain) = af_producer c then (Err (Message Malformed), c)
      else if \<not> times_finite v then (Err (Message Malformed), c)
      else case parse_snapshot (snapshot_domain v) (body v) of
        Err e \<Rightarrow> (Err (Message e), c)
      | Panic \<Rightarrow> (Panic, c)
      | Ok s \<Rightarrow>
        (case enqueue_locked ser (snapshot_wire s) c of
           (Ok _, c1) \<Rightarrow> (Ok (), c1\<lparr> af_snapshots := store_snapshot s (af_snapshots c1) \<rparr>)
         | (r, c1) \<Rightarrow> (r, c1)))"

definition host_publish :: "(json \<Rightarrow> bytes option) \<Rightarrow> presentation \<Rightarrow> affordance_channel \<Rightarrow> (unit, channel_error) outcome \<times> affordance_channel" where
  "host_publish ser p c = publish ser (PresentationSnapshot p) c"

definition host_withdraw :: "(json \<Rightarrow> bytes option) \<Rightarrow> affordance_channel \<Rightarrow> (unit, channel_error) outcome \<times> affordance_channel" where
  "host_withdraw ser c = publish ser (Withdraw PresentationDomain) c"

definition host_send :: "(json \<Rightarrow> bytes option) \<Rightarrow> verb \<Rightarrow> affordance_channel \<Rightarrow> (unit, channel_error) outcome \<times> affordance_channel" where
  "host_send ser v c =
     (if \<not> known_verb (vb_domain v) (vb_name v) then (Err (Message Malformed), c)
      else case validate_verb v of
        Err e \<Rightarrow> (Err (Message e), c)
      | Panic \<Rightarrow> (Panic, c)
      | Ok valid \<Rightarrow> if \<not> valid then (Err (Message Malformed), c) else enqueue_locked ser (verb_wire v) c)"

text \<open>\<open>poll\<close>; the size it subtracts comes from an \<open>unwrap\<close>, and the subtraction saturates.\<close>

definition poll :: "(json \<Rightarrow> bytes option) \<Rightarrow> affordance_channel \<Rightarrow> (affordance_event option, channel_error) outcome \<times> affordance_channel" where
  "poll ser c =
     (case af_events c of
        [] \<Rightarrow> (Ok None, c)
      | e # es \<Rightarrow>
        (case event_size ser e of
           None \<Rightarrow> (Panic, c\<lparr> af_events := es \<rparr>)
         | Some n \<Rightarrow> (Ok (Some e), c\<lparr> af_events := es, af_event_bytes := af_event_bytes c - n \<rparr>)))"

definition channel_close :: "affordance_channel \<Rightarrow> affordance_channel" where
  "channel_close c = c\<lparr> af_stop := True \<rparr>"

definition channel_finished :: "affordance_channel \<Rightarrow> bool" where
  "channel_finished c \<longleftrightarrow> \<not> af_alive c"

section \<open>The worker\<close>

text \<open>The locked batch at the head of the loop.  Subtracting more than \<open>bytes\<close> holds would panic.\<close>

fun send_batch :: "(json \<Rightarrow> bytes option) \<Rightarrow> nat \<Rightarrow> affordance_channel \<Rightarrow> (unit, channel_error) outcome \<times> affordance_channel" where
  "send_batch ser 0 c = (Ok (), c)"
| "send_batch ser (Suc k) c =
     (case af_outgoing c of
        [] \<Rightarrow> (Ok (), c)
      | v # vs \<Rightarrow>
        let c1 = c\<lparr> af_outgoing := vs \<rparr> in
        (case ser v of
           None \<Rightarrow> (Err Encode, c1)
         | Some j \<Rightarrow>
           if af_bytes c < length j + 4 then (Panic, c1)
           else let c2 = c1\<lparr> af_bytes := af_bytes c - (length j + 4) \<rparr> in
             (case framed_send ser v (af_framed c2) of
                (Ok _, f) \<Rightarrow> send_batch ser k (c2\<lparr> af_framed := f \<rparr>)
              | (Err e, f) \<Rightarrow> (Err (Wire e), c2\<lparr> af_framed := f \<rparr>)
              | (Panic, f) \<Rightarrow> (Panic, c2\<lparr> af_framed := f \<rparr>))))"

definition worker_goes :: "worker_at \<Rightarrow> (unit, channel_error) outcome \<times> affordance_channel \<Rightarrow> affordance_channel" where
  "worker_goes next r =
     (case r of
        (Ok _, c) \<Rightarrow> c\<lparr> af_at := next \<rparr>
      | (Err _, c) \<Rightarrow> c\<lparr> af_at := AtEnd \<rparr>
      | (Panic, c) \<Rightarrow> c\<lparr> af_at := Panicked \<rparr>)"

definition worker_send :: "(json \<Rightarrow> bytes option) \<Rightarrow> affordance_channel \<Rightarrow> affordance_channel" where
  "worker_send ser c =
     worker_goes AtFlush
       (case send_batch ser 8 c of
          (Ok _, c1) \<Rightarrow> (Ok (), c1\<lparr> af_wire_bytes := fr_queued (af_framed c1) \<rparr>)
        | (r, c1) \<Rightarrow> (r, c1))"

text \<open>One locked decode.\<close>

definition accept_message :: "(json \<Rightarrow> bytes option) \<Rightarrow> json \<Rightarrow> affordance_channel \<Rightarrow> (unit, channel_error) outcome \<times> affordance_channel" where
  "accept_message ser v c =
     (case decode v (af_snapshots c) (af_producer c) of
        Err e \<Rightarrow> (Err (Message e), c)
      | Panic \<Rightarrow> (Panic, c)
      | Ok None \<Rightarrow> (Ok (), c)
      | Ok (Some e) \<Rightarrow>
        (case event_size ser e of
           None \<Rightarrow> (Panic, c)
         | Some n \<Rightarrow>
           if QUEUE_BYTES < af_event_bytes c + n \<or> EVENT_COUNT \<le> length (af_events c) then (Err EventOverflow, c)
           else (Ok (), c\<lparr> af_snapshots := (case e of SnapshotEvent s \<Rightarrow> store_snapshot s (af_snapshots c) | _ \<Rightarrow> af_snapshots c),
                           af_event_bytes := af_event_bytes c + n, af_events := af_events c @ [e] \<rparr>)))"

text \<open>After \<open>drive\<close> has returned.\<close>

definition worker_end :: "affordance_channel \<Rightarrow> affordance_channel" where
  "worker_end c = c\<lparr> af_alive := False, af_snapshots := Map.empty, af_events := [ClosedEvent], af_event_bytes := 0, af_at := Finished \<rparr>"

text \<open>One step of the worker: \<open>ts\<close> is what the stream does in it, \<open>inp\<close> and \<open>out\<close> are the bytes under way in the two
  directions.\<close>

definition worker_step :: "(json \<Rightarrow> bytes option) \<Rightarrow> (bytes \<Rightarrow> json option) \<Rightarrow> turn list \<Rightarrow>
    affordance_channel \<times> bytes \<times> bytes \<Rightarrow> affordance_channel \<times> bytes \<times> bytes" where
  "worker_step ser de ts s =
     (case s of (c, inp, out) \<Rightarrow>
      (case af_at c of
         AtTop \<Rightarrow> (c\<lparr> af_at := (if af_stop c then AtEnd else AtSend) \<rparr>, inp, out)
       | AtSend \<Rightarrow> (worker_send ser c, inp, out)
       | AtFlush \<Rightarrow>
           (case framed_flush ts (af_framed c) out of
              (r, f, out1) \<Rightarrow> (worker_goes AtFlushed (map_err Wire r, c\<lparr> af_framed := f \<rparr>), inp, out1))
       | AtFlushed \<Rightarrow> (c\<lparr> af_wire_bytes := fr_queued (af_framed c), af_at := AtRead 32 \<rparr>, inp, out)
       | AtRead 0 \<Rightarrow> (c\<lparr> af_at := AtTop \<rparr>, inp, out)
       | AtRead (Suc n) \<Rightarrow>
           (case framed_receive de ts (af_framed c) inp of
              (Ok None, f, inp1) \<Rightarrow> (c\<lparr> af_framed := f, af_at := AtTop \<rparr>, inp1, out)
            | (Ok (Some v), f, inp1) \<Rightarrow> (c\<lparr> af_framed := f, af_at := AtDecode v n \<rparr>, inp1, out)
            | (Err _, f, inp1) \<Rightarrow> (c\<lparr> af_framed := f, af_at := AtEnd \<rparr>, inp1, out)
            | (Panic, f, inp1) \<Rightarrow> (c\<lparr> af_framed := f, af_at := Panicked \<rparr>, inp1, out))
       | AtDecode v n \<Rightarrow> (worker_goes (AtRead n) (accept_message ser v c), inp, out)
       | AtEnd \<Rightarrow> (worker_end c, inp, out)
       | Finished \<Rightarrow> s
       | Panicked \<Rightarrow> s))"

end
