(* ===== verification/Affordance_Ends.thy ===== *)
theory Affordance_Ends
  imports Affordance_Channel
begin

text \<open>
  One end of the affordances channel, whatever its peer sends: the invariant of its queues, counts and table of
  snapshots, kept by every call and every step of the worker, and what follows from it.
\<close>

section \<open>Invariant of one end\<close>

definition json_text :: "(json \<Rightarrow> bytes option) \<Rightarrow> bool" where
  "json_text ser \<longleftrightarrow> (\<forall>v. \<exists>j. ser v = Some j \<and> j \<noteq> [])"

definition message_cost :: "(json \<Rightarrow> bytes option) \<Rightarrow> json \<Rightarrow> nat" where
  "message_cost ser v = length (the (ser v)) + 4"

definition event_cost :: "(json \<Rightarrow> bytes option) \<Rightarrow> affordance_event \<Rightarrow> nat" where
  "event_cost ser e = the (event_size ser e)"

text \<open>What is queued: the count of bytes is exact, every message fits a frame, and what is queued here and in the
  worker's \<open>Framed\<close> fits its buffer.\<close>

definition batch_ok :: "(json \<Rightarrow> bytes option) \<Rightarrow> affordance_channel \<Rightarrow> bool" where
  "batch_ok ser c \<longleftrightarrow> af_bytes c = sum_list (map (message_cost ser) (af_outgoing c)) \<and>
     list_all (\<lambda>v. message_cost ser v \<le> MESSAGE_BYTES) (af_outgoing c) \<and> tx_ok (af_framed c) \<and> rx_ok (af_framed c) \<and>
     af_bytes c + fr_queued (af_framed c) \<le> QUEUE_BYTES"

definition queue_ok :: "(json \<Rightarrow> bytes option) \<Rightarrow> affordance_channel \<Rightarrow> bool" where
  "queue_ok ser c \<longleftrightarrow> batch_ok ser c \<and> fr_queued (af_framed c) \<le> af_wire_bytes c \<and> af_bytes c + af_wire_bytes c \<le> QUEUE_BYTES"

definition events_ok :: "(json \<Rightarrow> bytes option) \<Rightarrow> affordance_channel \<Rightarrow> bool" where
  "events_ok ser c \<longleftrightarrow> af_event_bytes c = sum_list (map (event_cost ser) (af_events c)) \<and> af_event_bytes c \<le> QUEUE_BYTES \<and>
     length (af_events c) \<le> EVENT_COUNT \<and>
     (if af_at c = Finished then af_events c \<in> {[], [ClosedEvent]} else ClosedEvent \<notin> set (af_events c))"

definition table_ok :: "snapshots \<Rightarrow> bool" where
  "table_ok sn \<longleftrightarrow> (\<forall>d s. sn d = Some s \<longrightarrow> normalised s \<and> snapshot_domain s = d \<and> \<not> is_withdraw s)"

text \<open>How many steps the worker takes at most once the stop flag is set.\<close>

primrec steps_left :: "worker_at \<Rightarrow> nat" where
  "steps_left AtTop = 2"
| "steps_left AtSend = 70"
| "steps_left AtFlush = 69"
| "steps_left AtFlushed = 68"
| "steps_left (AtRead n) = 2 * n + 3"
| "steps_left (AtDecode v n) = 2 * n + 4"
| "steps_left AtEnd = 1"
| "steps_left Finished = 0"
| "steps_left Panicked = 0"

definition status_ok :: "affordance_channel \<Rightarrow> bool" where
  "status_ok c \<longleftrightarrow> (af_alive c \<longleftrightarrow> af_at c \<noteq> Finished) \<and> af_at c \<noteq> Panicked \<and> steps_left (af_at c) \<le> 70 \<and>
     (af_at c = Finished \<longrightarrow> af_snapshots c = Map.empty)"

definition end_inv :: "(json \<Rightarrow> bytes option) \<Rightarrow> affordance_channel \<Rightarrow> bool" where
  "end_inv ser c \<longleftrightarrow> queue_ok ser c \<and> events_ok ser c \<and> table_ok (af_snapshots c) \<and> status_ok c"

lemmas inv_defs = end_inv_def queue_ok_def batch_ok_def events_ok_def status_ok_def

lemma ser_text: "json_text ser \<Longrightarrow> \<exists>j. ser v = Some j \<and> j \<noteq> []"
  by (simp add: json_text_def)

lemma event_size_text: "json_text ser \<Longrightarrow> event_size ser e = Some (event_cost ser e)"
  using ser_text [of ser] by (fastforce simp: event_size_def event_cost_def split: affordance_event.split)

lemma frame_limit: "MESSAGE_BYTES = MAX_FRAME + 4" "QUEUE_BYTES = MAX_BUFFER"
  by (simp_all add: MESSAGE_BYTES_def MAX_FRAME_def QUEUE_BYTES_def MAX_BUFFER_def)

lemma flush_extends: "framed_flush ts f pipe = (r, f', pipe') \<Longrightarrow> prefix pipe pipe'"
proof (induction ts arbitrary: f pipe)
  case Nil
  then show ?case by (subst (asm) framed_flush.simps) (auto split: list.splits)
next
  case (Cons t ts)
  show ?case
  proof (cases "fr_output f")
    case Nil
    then show ?thesis using Cons.prems by (subst (asm) framed_flush.simps) auto
  next
    case f: (Cons frame rest)
    show ?thesis
    proof (cases t)
      case (Move k)
      then show ?thesis using Cons.prems Cons.IH flush_Move [OF f, of k ts pipe]
        by (auto simp: Let_def split: if_splits dest: append_prefixD)
    next
      case Interrupt
      then show ?thesis using Cons.prems Cons.IH [of f pipe] f by (subst (asm) framed_flush.simps) simp
    qed (use Cons.prems f in \<open>subst (asm) framed_flush.simps, simp\<close>)+
  qed
qed

lemma send_fits:
  assumes "ser v = Some j" "j \<noteq> []" "message_cost ser v \<le> MESSAGE_BYTES" "message_cost ser v + fr_queued f \<le> QUEUE_BYTES"
  shows "framed_send ser v f = (Ok (), f\<lparr> fr_queued := fr_queued f + message_cost ser v, fr_output := fr_output f @ [frame_bytes j] \<rparr>)"
  using assms by (simp add: framed_send_def message_cost_def frame_limit Let_def)

lemma send_batch_ok:
  assumes "json_text ser" "batch_ok ser c"
  shows "\<exists>f b. send_batch ser k c = (Ok (), c\<lparr> af_outgoing := drop k (af_outgoing c), af_bytes := b, af_framed := f \<rparr>) \<and>
    batch_ok ser (c\<lparr> af_outgoing := drop k (af_outgoing c), af_bytes := b, af_framed := f \<rparr>) \<and>
    b + fr_queued f = af_bytes c + fr_queued (af_framed c) \<and> fr_input f = fr_input (af_framed c) \<and>
    unsent f = unsent (af_framed c) @ encode ser (take k (af_outgoing c))"
  using assms(2)
proof (induction k arbitrary: c)
  case 0
  then show ?case by (intro exI [of _ "af_framed c"] exI [of _ "af_bytes c"]) simp
next
  case (Suc k)
  show ?case
  proof (cases "af_outgoing c")
    case Nil
    moreover have "c\<lparr> af_outgoing := af_outgoing c \<rparr> = c" by simp
    ultimately show ?thesis using Suc.prems by (intro exI [of _ "af_framed c"] exI [of _ "af_bytes c"]) (simp add: batch_ok_def)
  next
    case o: (Cons v vs)
    obtain j where j: "ser v = Some j" "j \<noteq> []" using ser_text [OF assms(1)] by blast
    have fit: "message_cost ser v \<le> MESSAGE_BYTES" "message_cost ser v \<le> af_bytes c" "message_cost ser v + fr_queued (af_framed c) \<le> QUEUE_BYTES"
      using Suc.prems o by (simp_all add: batch_ok_def)
    obtain f where f: "framed_send ser v (af_framed c) = (Ok (), f)" "fr_queued f = fr_queued (af_framed c) + message_cost ser v"
      using send_fits [OF j fit(1,3)] by simp
    have u: "tx_ok f" "fr_input f = fr_input (af_framed c)" "unsent f = unsent (af_framed c) @ frame_bytes j"
      using send_ok [OF _ f(1)] Suc.prems j(1) by (auto simp: batch_ok_def)
    let ?c = "c\<lparr> af_outgoing := vs, af_bytes := af_bytes c - message_cost ser v, af_framed := f \<rparr>"
    have "batch_ok ser ?c" using Suc.prems o fit f(2) u by (simp add: batch_ok_def rx_ok_def)
    from Suc.IH [OF this] obtain g b where g: "send_batch ser k ?c = (Ok (), ?c\<lparr> af_outgoing := drop k vs, af_bytes := b, af_framed := g \<rparr>)"
      "batch_ok ser (?c\<lparr> af_outgoing := drop k vs, af_bytes := b, af_framed := g \<rparr>)" "fr_input g = fr_input f"
      "b + fr_queued g = af_bytes c - message_cost ser v + fr_queued f" "unsent g = unsent f @ encode ser (take k vs)" by auto
    have "send_batch ser (Suc k) c = send_batch ser k ?c" using o j(1) f(1) fit(2) by (simp add: message_cost_def Let_def)
    then show ?thesis using g o u fit(2) f(2) j(1) by (intro exI [of _ g] exI [of _ b]) simp
  qed
qed

lemma worker_send_ok:
  assumes "json_text ser" "batch_ok ser c"
  obtains f b where "worker_send ser c = c\<lparr> af_outgoing := drop 8 (af_outgoing c), af_bytes := b, af_framed := f,
      af_wire_bytes := fr_queued f, af_at := AtFlush \<rparr>"
    "batch_ok ser (worker_send ser c)" "b + fr_queued f = af_bytes c + fr_queued (af_framed c)" "fr_input f = fr_input (af_framed c)"
    "unsent f = unsent (af_framed c) @ encode ser (take 8 (af_outgoing c))"
proof -
  from send_batch_ok [OF assms, of 8] obtain f b where f:
    "send_batch ser 8 c = (Ok (), c\<lparr> af_outgoing := drop 8 (af_outgoing c), af_bytes := b, af_framed := f \<rparr>)"
    "batch_ok ser (c\<lparr> af_outgoing := drop 8 (af_outgoing c), af_bytes := b, af_framed := f \<rparr>)"
    "b + fr_queued f = af_bytes c + fr_queued (af_framed c)" "fr_input f = fr_input (af_framed c)"
    "unsent f = unsent (af_framed c) @ encode ser (take 8 (af_outgoing c))" by blast
  have w: "worker_send ser c = c\<lparr> af_outgoing := drop 8 (af_outgoing c), af_bytes := b, af_framed := f, af_wire_bytes := fr_queued f, af_at := AtFlush \<rparr>"
    unfolding worker_send_def worker_goes_def f(1) by simp
  have "batch_ok ser (worker_send ser c)" using f(2) unfolding w by (simp add: batch_ok_def)
  then show ?thesis using that [OF w] f(3-5) by blast
qed

lemma store_snapshot_ok: "table_ok sn \<Longrightarrow> normalised s \<Longrightarrow> table_ok (store_snapshot s sn)"
  by (auto simp: table_ok_def store_snapshot_def)

lemma accept_message_ok:
  assumes "json_text ser" "end_inv ser c" "af_at c = AtDecode v n" "accept_message ser v c = (r, c')"
  shows "end_inv ser (c'\<lparr> af_at := AtRead n \<rparr>) \<and> end_inv ser (c'\<lparr> af_at := AtEnd \<rparr>) \<and> r \<noteq> Panic"
proof (cases "\<exists>e. decode v (af_snapshots c) (af_producer c) = Ok (Some e) \<and> r = Ok ()")
  case True
  then obtain e where e: "decode v (af_snapshots c) (af_producer c) = Ok (Some e)" "r = Ok ()" by blast
  then have c': "c' = c\<lparr> af_snapshots := (case e of SnapshotEvent s \<Rightarrow> store_snapshot s (af_snapshots c) | _ \<Rightarrow> af_snapshots c),
      af_event_bytes := af_event_bytes c + event_cost ser e, af_events := af_events c @ [e] \<rparr>"
    and fit: "af_event_bytes c + event_cost ser e \<le> QUEUE_BYTES" "length (af_events c) < EVENT_COUNT"
    using assms(4) event_size_text [OF assms(1), of e] by (auto simp: accept_message_def split: if_splits)
  have "e \<noteq> ClosedEvent" using e(1) decode_not_ClosedEvent by metis
  moreover have "table_ok (af_snapshots c')" using assms(2) e(1) unfolding c'
    by (auto simp: end_inv_def split: affordance_event.split intro!: store_snapshot_ok dest: decode_SnapshotEvent)
  ultimately show ?thesis using assms(2,3) fit e(2) unfolding c' by (auto simp: inv_defs)
next
  case False
  then have "c' = c \<and> r \<noteq> Panic"
    using assms(4) event_size_text [OF assms(1)] decode_not_Panic [of v "af_snapshots c" "af_producer c"]
    by (auto simp: accept_message_def split: if_splits option.splits outcome.splits)
  then show ?thesis using assms(2,3) by (auto simp: inv_defs)
qed

lemma worker_step_inv:
  assumes t: "json_text ser" and inv: "end_inv ser c" and s: "worker_step ser de ts (c, inp, out) = (c', inp', out')"
  shows "end_inv ser c'"
proof (cases "af_at c")
  case AtSend
  have batch: "batch_ok ser c" using inv by (simp add: end_inv_def queue_ok_def)
  obtain f b where w: "worker_send ser c = c\<lparr> af_outgoing := drop 8 (af_outgoing c), af_bytes := b, af_framed := f,
      af_wire_bytes := fr_queued f, af_at := AtFlush \<rparr>" "batch_ok ser (worker_send ser c)"
    using worker_send_ok [OF t batch] by blast
  then have "queue_ok ser (worker_send ser c)" by (simp add: queue_ok_def batch_ok_def)
  moreover have "c' = worker_send ser c" using s AtSend by (simp add: worker_step_def)
  ultimately show ?thesis using inv AtSend w(1) by (auto simp: end_inv_def events_ok_def status_ok_def)
next
  case AtFlush
  obtain r f out1 where f: "framed_flush ts (af_framed c) out = (r, f, out1)" by (metis surj_pair)
  have "tx_ok (af_framed c)" using inv by (simp add: inv_defs)
  note ok = flush_ok [OF this f]
  have "length (out1 @ unsent f) = length (out @ unsent (af_framed c))" using ok by simp
  then have "length (unsent f) \<le> length (unsent (af_framed c))" using prefix_length_le [OF flush_extends [OF f]] by simp
  then have "fr_queued f \<le> fr_queued (af_framed c)" "rx_ok f" using ok inv by (auto simp: tx_ok_def inv_defs rx_ok_def)
  then show ?thesis using s AtFlush f inv ok by (cases r) (auto simp: worker_step_def worker_goes_def inv_defs)
next
  case AtFlushed
  then show ?thesis using s inv by (auto simp: worker_step_def inv_defs)
next
  case (AtRead k)
  show ?thesis
  proof (cases k)
    case 0
    then show ?thesis using s AtRead inv by (auto simp: worker_step_def inv_defs)
  next
    case (Suc n)
    obtain r f inp1 where f: "framed_receive de ts (af_framed c) inp = (r, f, inp1)" by (metis surj_pair)
    have "rx_ok (af_framed c)" "tx_ok (af_framed c)" using inv by (simp_all add: inv_defs)
    then have "rx_ok f" "tx_ok f" "fr_queued f = fr_queued (af_framed c)" "r \<noteq> Panic"
      using receive_bounded [OF _ f] by (auto simp: tx_ok_def unsent_def split: list.splits)
    then show ?thesis using s AtRead Suc f inv by (auto simp: worker_step_def inv_defs split: outcome.splits option.splits)
  qed
next
  case (AtDecode v n)
  obtain r c1 where a: "accept_message ser v c = (r, c1)" by fastforce
  then show ?thesis using accept_message_ok [OF t inv AtDecode a] s AtDecode
    by (auto simp: worker_step_def worker_goes_def split: outcome.splits)
next
  case AtEnd
  then show ?thesis using s inv by (auto simp: worker_step_def worker_end_def inv_defs table_ok_def event_cost_def event_size_def QUEUE_BYTES_def EVENT_COUNT_def)
qed (use s inv in \<open>auto simp: worker_step_def inv_defs split: if_splits\<close>)

section \<open>The owner's calls keep it\<close>

text \<open>What one end does: a step of its worker, or a call of its owner.  \<open>Send\<close> is a host's.\<close>

datatype end_event = Work "turn list" | Publish snapshot | SendVerb verb | Poll | Close

fun owner_step :: "(json \<Rightarrow> bytes option) \<Rightarrow> end_event \<Rightarrow> affordance_channel \<Rightarrow> affordance_channel" where
  "owner_step ser (Publish s) c = snd (publish ser s c)"
| "owner_step ser (SendVerb v) c = (if af_producer c then c else snd (host_send ser v c))"
| "owner_step ser Poll c = snd (poll ser c)"
| "owner_step ser Close c = channel_close c"
| "owner_step ser (Work ts) c = c"

definition end_step :: "(json \<Rightarrow> bytes option) \<Rightarrow> (bytes \<Rightarrow> json option) \<Rightarrow> end_event \<Rightarrow>
    affordance_channel \<times> bytes \<times> bytes \<Rightarrow> affordance_channel \<times> bytes \<times> bytes" where
  "end_step ser de e s = (case e of Work ts \<Rightarrow> worker_step ser de ts s | _ \<Rightarrow> (case s of (c, p) \<Rightarrow> (owner_step ser e c, p)))"

lemma affordance_enqueue_cases:
  assumes "enqueue_locked ser v c = (r, c')"
  obtains (queued) j where "r = Ok ()" "ser v = Some j" "af_alive c" "\<not> af_stop c" "message_cost ser v \<le> MESSAGE_BYTES"
      "af_bytes c + af_wire_bytes c + message_cost ser v \<le> QUEUE_BYTES"
      "c' = c\<lparr> af_bytes := af_bytes c + message_cost ser v, af_outgoing := af_outgoing c @ [v] \<rparr>"
  | (refused) "r \<noteq> Ok ()" "r \<noteq> Panic" "c' = c \<or> c' = c\<lparr> af_stop := True \<rparr>"
  using assms by (auto simp: enqueue_locked_def message_cost_def Let_def split: option.splits if_splits)

lemma publish_cases:
  assumes "publish ser s c = (r, c')"
  obtains (published) s' j where "parse_snapshot (snapshot_domain s) (body s) = Ok s'" "(snapshot_domain s' = PresentationDomain) \<noteq> af_producer c"
      "normalised s'" "r = Ok ()" "ser (snapshot_wire s') = Some j" "af_alive c" "\<not> af_stop c" "message_cost ser (snapshot_wire s') \<le> MESSAGE_BYTES"
      "af_bytes c + af_wire_bytes c + message_cost ser (snapshot_wire s') \<le> QUEUE_BYTES"
      "c' = c\<lparr> af_bytes := af_bytes c + message_cost ser (snapshot_wire s'), af_outgoing := af_outgoing c @ [snapshot_wire s'],
               af_snapshots := store_snapshot s' (af_snapshots c) \<rparr>"
  | (refused) "r \<noteq> Ok ()" "r \<noteq> Panic" "c' = c \<or> c' = c\<lparr> af_stop := True \<rparr>"
proof (cases "\<exists>s'. (snapshot_domain s = PresentationDomain) \<noteq> af_producer c \<and> times_finite s \<and>
      parse_snapshot (snapshot_domain s) (body s) = Ok s'")
  case True
  then obtain s' where s': "(snapshot_domain s = PresentationDomain) \<noteq> af_producer c" "times_finite s"
    "parse_snapshot (snapshot_domain s) (body s) = Ok s'" by blast
  note n = parse_snapshot_normalised [OF s'(3)]
  obtain q c1 where q: "enqueue_locked ser (snapshot_wire s') c = (q, c1)" by fastforce
  from q show ?thesis
  proof (cases rule: affordance_enqueue_cases)
    case (queued j)
    then show ?thesis using assms s' n q by (intro published) (auto simp: publish_def)
  next
    case refused
    then show ?thesis using assms s' q by (cases q) (auto simp: publish_def intro: that(2))
  qed
next
  case False
  then show ?thesis using assms parse_snapshot_not_Panic [of "snapshot_domain s" "body s"]
    by (intro that(2)) (auto simp: publish_def split: if_splits outcome.splits)
qed

lemma host_send_cases:
  assumes "host_send ser v c = (r, c')"
  obtains (sent) j where "known_verb (vb_domain v) (vb_name v)" "validate_verb v = Ok True" "r = Ok ()" "ser (verb_wire v) = Some j"
      "af_alive c" "\<not> af_stop c" "message_cost ser (verb_wire v) \<le> MESSAGE_BYTES"
      "af_bytes c + af_wire_bytes c + message_cost ser (verb_wire v) \<le> QUEUE_BYTES"
      "c' = c\<lparr> af_bytes := af_bytes c + message_cost ser (verb_wire v), af_outgoing := af_outgoing c @ [verb_wire v] \<rparr>"
  | (refused) "r \<noteq> Ok ()" "r \<noteq> Panic" "c' = c \<or> c' = c\<lparr> af_stop := True \<rparr>"
proof (cases "known_verb (vb_domain v) (vb_name v) \<and> validate_verb v = Ok True")
  case True
  then have "enqueue_locked ser (verb_wire v) c = (r, c')" using assms by (simp add: host_send_def)
  then show ?thesis by (rule affordance_enqueue_cases) (use True that in blast)+
next
  case False
  then show ?thesis using assms validate_verb_not_Panic [of v]
    by (intro that(2)) (auto simp: host_send_def split: if_splits outcome.splits)
qed

lemma stop_inv: "end_inv ser c \<Longrightarrow> end_inv ser (c\<lparr> af_stop := True \<rparr>)"
  by (auto simp: inv_defs split: if_splits)

lemma affordance_publish_inv: "end_inv ser c \<Longrightarrow> publish ser s c = (r, c') \<Longrightarrow> end_inv ser c'"
proof (erule publish_cases)
  fix s' j
  assume i: "end_inv ser c" and c: "normalised s'" "af_alive c" "message_cost ser (snapshot_wire s') \<le> MESSAGE_BYTES"
      "af_bytes c + af_wire_bytes c + message_cost ser (snapshot_wire s') \<le> QUEUE_BYTES"
    and c': "c' = c\<lparr> af_bytes := af_bytes c + message_cost ser (snapshot_wire s'), af_outgoing := af_outgoing c @ [snapshot_wire s'],
               af_snapshots := store_snapshot s' (af_snapshots c) \<rparr>"
  have "table_ok (af_snapshots c')" using i c(1) c' by (simp add: end_inv_def store_snapshot_ok)
  then show "end_inv ser c'" using i c c' by (auto simp: inv_defs)
qed (auto intro: stop_inv)

lemma host_send_inv: "end_inv ser c \<Longrightarrow> host_send ser v c = (r, c') \<Longrightarrow> end_inv ser c'"
proof (erule host_send_cases)
  assume "end_inv ser c" "message_cost ser (verb_wire v) \<le> MESSAGE_BYTES"
      "af_bytes c + af_wire_bytes c + message_cost ser (verb_wire v) \<le> QUEUE_BYTES"
      "c' = c\<lparr> af_bytes := af_bytes c + message_cost ser (verb_wire v), af_outgoing := af_outgoing c @ [verb_wire v] \<rparr>"
  then show "end_inv ser c'" by (auto simp: inv_defs)
qed (auto intro: stop_inv)

lemma affordance_poll_inv:
  assumes "json_text ser" "end_inv ser c" "poll ser c = (r, c')"
  shows "end_inv ser c'" "r = Ok (case af_events c of [] \<Rightarrow> None | e # _ \<Rightarrow> Some e)" "af_events c' = tl (af_events c)"
  using assms event_size_text [OF assms(1)] by (auto simp: poll_def inv_defs split: list.splits if_splits)

lemma end_step_inv:
  assumes "json_text ser" "end_inv ser c" "end_step ser de e (c, p) = (c', p')"
  shows "end_inv ser c'"
proof (cases e)
  case (Publish s)
  obtain r c1 where c1: "publish ser s c = (r, c1)" by fastforce
  then show ?thesis using assms affordance_publish_inv [OF assms(2) c1] Publish by (simp add: end_step_def)
next
  case (SendVerb v)
  obtain r c1 where c1: "host_send ser v c = (r, c1)" by fastforce
  then show ?thesis using assms host_send_inv [OF assms(2) c1] SendVerb by (auto simp: end_step_def)
next
  case Poll
  obtain r c1 where c1: "poll ser c = (r, c1)" by fastforce
  then show ?thesis using assms affordance_poll_inv(1) [OF assms(1,2) c1] Poll by (simp add: end_step_def)
next
  case (Work ts)
  then show ?thesis using assms worker_step_inv [OF assms(1,2)] by (cases p; cases p') (simp add: end_step_def)
qed (use assms in \<open>auto simp: end_step_def channel_close_def intro: stop_inv\<close>)

text \<open>One end against any peer: before each event the bytes under way may be anything.\<close>

inductive end_reachable :: "(json \<Rightarrow> bytes option) \<Rightarrow> (bytes \<Rightarrow> json option) \<Rightarrow> bool \<Rightarrow> affordance_channel \<Rightarrow> bool" for ser de producer where
  start: "end_reachable ser de producer (channel_start producer)"
| step: "end_reachable ser de producer c \<Longrightarrow> end_step ser de e (c, p) = (c', p') \<Longrightarrow> end_reachable ser de producer c'"

lemma start_inv: "end_inv ser (channel_start producer)"
  by (simp add: inv_defs channel_start_def framed_new_def tx_ok_def rx_ok_def unsent_def table_ok_def)

lemma end_reachable_inv: "end_reachable ser de producer c \<Longrightarrow> json_text ser \<Longrightarrow> end_inv ser c"
  by (induction rule: end_reachable.induct) (auto intro: start_inv end_step_inv)

section \<open>The end of a channel\<close>

lemma accept_same: "accept_message ser v c = (r, c') \<Longrightarrow> af_stop c' = af_stop c \<and> af_producer c' = af_producer c \<and>
    af_framed c' = af_framed c \<and> af_outgoing c' = af_outgoing c"
  by (auto simp: accept_message_def split: outcome.splits option.splits if_splits)

lemma worker_steps_left:
  assumes "json_text ser" "end_inv ser c" "af_stop c" "worker_step ser de ts (c, inp, out) = (c', inp', out')"
  shows "af_stop c' \<and> steps_left (af_at c') \<le> steps_left (af_at c) - 1"
proof (cases "af_at c")
  case AtSend
  have "batch_ok ser c" using assms(2) by (simp add: end_inv_def queue_ok_def)
  then obtain f b where "worker_send ser c = c\<lparr> af_outgoing := drop 8 (af_outgoing c), af_bytes := b, af_framed := f,
      af_wire_bytes := fr_queued f, af_at := AtFlush \<rparr>" using worker_send_ok [OF assms(1)] by blast
  moreover have "c' = worker_send ser c" using assms(4) AtSend by (simp add: worker_step_def)
  ultimately show ?thesis using assms(3) AtSend by simp
next
  case (AtRead k)
  then show ?thesis using assms(3,4) by (cases k) (auto simp: worker_step_def split: prod.splits outcome.splits option.splits)
next
  case (AtDecode v n)
  obtain r c1 where a: "accept_message ser v c = (r, c1)" by fastforce
  then show ?thesis using accept_same [OF a] assms(3,4) AtDecode
    by (auto simp: worker_step_def worker_goes_def split: outcome.splits)
qed (use assms(3,4) in \<open>auto simp: worker_step_def worker_end_def worker_goes_def split: prod.splits outcome.splits\<close>)

lemma owner_steps_left:
  assumes "af_stop c"
  shows "af_stop (owner_step ser e c) \<and> af_at (owner_step ser e c) = af_at c"
proof (cases e)
  case (Publish s)
  obtain r c1 where c1: "publish ser s c = (r, c1)" by fastforce
  then show ?thesis by (rule publish_cases) (use assms c1 Publish in auto)
next
  case (SendVerb v)
  obtain r c1 where c1: "host_send ser v c = (r, c1)" by fastforce
  then show ?thesis by (rule host_send_cases) (use assms c1 SendVerb in auto)
qed (use assms in \<open>auto simp: poll_def channel_close_def split: list.splits option.splits\<close>)

text \<open>A run of one end: with each event the bytes under way are given anew.\<close>

primrec end_run :: "(json \<Rightarrow> bytes option) \<Rightarrow> (bytes \<Rightarrow> json option) \<Rightarrow> (end_event \<times> bytes \<times> bytes) list \<Rightarrow> affordance_channel \<Rightarrow> affordance_channel" where
  "end_run ser de [] c = c"
| "end_run ser de (x # xs) c = end_run ser de xs (fst (end_step ser de (fst x) (c, snd x)))"

definition is_work :: "end_event \<Rightarrow> bool" where
  "is_work e = (case e of Work _ \<Rightarrow> True | _ \<Rightarrow> False)"

lemma end_run_steps_left:
  assumes "json_text ser" "end_inv ser c" "af_stop c"
  shows "end_inv ser (end_run ser de xs c) \<and> af_stop (end_run ser de xs c) \<and>
    steps_left (af_at (end_run ser de xs c)) \<le> steps_left (af_at c) - length (filter (is_work \<circ> fst) xs)"
  using assms(2,3)
proof (induction xs arbitrary: c)
  case (Cons x xs)
  obtain e inp out where x: "x = (e, inp, out)" by (metis surj_pair)
  obtain c1 inp' out' where s: "end_step ser de e (c, inp, out) = (c1, inp', out')" by (metis surj_pair)
  have inv: "end_inv ser c1" using end_step_inv [OF assms(1) Cons.prems(1) s] .
  have "af_stop c1 \<and> steps_left (af_at c1) \<le> steps_left (af_at c) - (if is_work e then 1 else 0)"
  proof (cases e)
    case (Work ts)
    then show ?thesis using worker_steps_left [OF assms(1) Cons.prems, of de ts inp out] s by (simp add: end_step_def is_work_def)
  qed (use s owner_steps_left [OF Cons.prems(2), of ser e] in \<open>auto simp: end_step_def is_work_def\<close>)
  then show ?case using Cons.IH [OF inv] s x by (auto split: if_splits)
qed simp

lemma steps_left_bound:
  assumes "end_inv ser c" "steps_left (af_at c) = 0"
  shows "af_at c = Finished"
  using assms by (cases "af_at c") (simp_all add: inv_defs)

section \<open>What a peer can bring about\<close>

lemma worker_step_cases:
  assumes "json_text ser" "end_inv ser c" "worker_step ser de ts (c, inp, out) = (c', inp', out')"
  obtains (moved) "af_snapshots c' = af_snapshots c" "af_events c' = af_events c" "af_producer c' = af_producer c"
  | (decoded) v n r c1 a where "af_at c = AtDecode v n" "accept_message ser v c = (r, c1)" "c' = c1\<lparr> af_at := a \<rparr>"
  | (ended) "c' = worker_end c"
proof (cases "af_at c")
  case AtSend
  have "batch_ok ser c" using assms(2) by (simp add: end_inv_def queue_ok_def)
  then have "af_snapshots (worker_send ser c) = af_snapshots c" "af_events (worker_send ser c) = af_events c"
    "af_producer (worker_send ser c) = af_producer c"
    by (rule worker_send_ok [OF assms(1)]; simp)+
  then show ?thesis using assms(3) AtSend by (intro moved) (auto simp: worker_step_def)
next
  case (AtRead k)
  then show ?thesis using assms(3)
    by (cases k) (auto simp: worker_step_def split: prod.splits outcome.splits option.splits intro!: moved)
next
  case (AtDecode v n)
  obtain r c1 where a: "accept_message ser v c = (r, c1)" by fastforce
  then show ?thesis using assms(3) AtDecode
    by (intro decoded [OF AtDecode a, of "af_at c'"]) (auto simp: worker_step_def worker_goes_def split: outcome.splits)
next
  case AtEnd
  then show ?thesis using assms(3) by (intro ended) (simp add: worker_step_def)
qed (use assms(3) in \<open>intro moved; auto simp: worker_step_def worker_goes_def split: prod.splits outcome.splits if_splits\<close>)+

lemma worker_step_table:
  assumes "json_text ser" "end_inv ser c" "worker_step ser de ts (c, inp, out) = (c', inp', out')" "af_at c' \<noteq> Finished"
    "(d = PresentationDomain) \<noteq> af_producer c"
  shows "af_snapshots c' d = af_snapshots c d"
  using assms(1-3)
proof (cases rule: worker_step_cases)
  case (decoded v n r c1 a)
  then have "af_snapshots c1 d = af_snapshots c d" using assms(5)
    by (auto simp: accept_message_def store_snapshot_def split: outcome.splits option.splits if_splits affordance_event.splits
        dest: decode_SnapshotEvent)
  then show ?thesis using decoded by simp
qed (use assms(4) in \<open>simp_all add: worker_end_def\<close>)

lemma worker_step_events:
  assumes "json_text ser" "end_inv ser c" "worker_step ser de ts (c, inp, out) = (c', inp', out')" "VerbEvent v \<in> set (af_events c')"
  shows "VerbEvent v \<in> set (af_events c) \<or> (\<exists>j. decode j (af_snapshots c) (af_producer c) = Ok (Some (VerbEvent v)))"
  using assms(1-3)
proof (cases rule: worker_step_cases)
  case (decoded j n r c1 a)
  then show ?thesis using assms(4)
    by (auto simp: accept_message_def split: outcome.splits option.splits if_splits)
qed (use assms(4) in \<open>simp_all add: worker_end_def\<close>)

lemma end_step_producer:
  assumes "json_text ser" "end_inv ser c" "end_step ser de e (c, inp, out) = (c', inp', out')"
  shows "af_producer c' = af_producer c"
proof (cases e)
  case (Publish s)
  obtain r c1 where c1: "publish ser s c = (r, c1)" by fastforce
  then have "af_producer c1 = af_producer c" by (rule publish_cases) auto
  then show ?thesis using assms(3) c1 Publish by (simp add: end_step_def)
next
  case (SendVerb v)
  obtain r c1 where c1: "host_send ser v c = (r, c1)" by fastforce
  then have "af_producer c1 = af_producer c" by (rule host_send_cases) auto
  then show ?thesis using assms(3) c1 SendVerb by (auto simp: end_step_def)
next
  case (Work ts)
  then have "worker_step ser de ts (c, inp, out) = (c', inp', out')" using assms(3) by (simp add: end_step_def)
  with assms(1,2) show ?thesis by (rule worker_step_cases) (auto simp: worker_end_def dest: accept_same)
qed (use assms(3) in \<open>auto simp: end_step_def poll_def channel_close_def split: list.splits option.splits\<close>)

lemma end_reachable_producer: "end_reachable ser de producer c \<Longrightarrow> json_text ser \<Longrightarrow> af_producer c = producer"
proof (induction rule: end_reachable.induct)
  case (step c e p c' p')
  then show ?case
    using end_step_producer [OF step.prems end_reachable_inv [OF step.hyps(1) step.prems]] by (cases p; cases p') auto
qed (simp add: channel_start_def)

section \<open>Properties\<close>

text \<open>C34. Queues of an affordances channel.  Whatever the owner calls, whatever the peer sends and however the stream
  behaves, the byte counts of an end are exactly the sizes of the queued messages and events; what waits to be sent,
  here and in the worker's buffer, stays within \<open>QUEUE_BYTES\<close> and the waiting events within \<open>QUEUE_BYTES\<close> and
  \<open>EVENT_COUNT\<close>; so the worker's sends all succeed, its subtraction never underflows, and nothing panics.\<close>

theorem affordance_queues_bounded:
  assumes "end_reachable ser de producer c" "json_text ser"
  shows "af_bytes c = sum_list (map (message_cost ser) (af_outgoing c)) \<and>
    af_bytes c + fr_queued (af_framed c) \<le> QUEUE_BYTES \<and> fr_queued (af_framed c) = length (unsent (af_framed c)) \<and>
    af_event_bytes c = sum_list (map (event_cost ser) (af_events c)) \<and> af_event_bytes c \<le> QUEUE_BYTES \<and>
    length (af_events c) \<le> EVENT_COUNT \<and> fst (send_batch ser 8 c) = Ok () \<and>
    fst (poll ser c) = Ok (case af_events c of [] \<Rightarrow> None | e # _ \<Rightarrow> Some e) \<and> af_at c \<noteq> Panicked"
proof -
  have inv: "end_inv ser c" using end_reachable_inv assms by metis
  then have "batch_ok ser c" by (simp add: end_inv_def queue_ok_def)
  then have "fst (send_batch ser 8 c) = Ok ()" using send_batch_ok [OF assms(2), of c 8] by auto
  moreover obtain r c' where p: "poll ser c = (r, c')" by fastforce
  moreover have "r = Ok (case af_events c of [] \<Rightarrow> None | e # _ \<Rightarrow> Some e)" using affordance_poll_inv(2) [OF assms(2) inv p] .
  ultimately show ?thesis using inv by (simp add: inv_defs tx_ok_def)
qed

text \<open>C12. A verb reaches the producer only while the producer allows it.  Whatever a host sends, no step of the
  worker changes what the producer itself published for media, navigation, cursor, scrolling and window, until
  the channel ends; and a verb that a step delivers is a known verb with a valid body that the producer's current
  snapshot of its domain enables, on a scrollable axis when it scrolls.\<close>

theorem affordance_verbs_enabled:
  assumes "end_reachable ser de True c" "json_text ser" "worker_step ser de ts (c, inp, out) = (c', inp', out')"
  shows "(af_at c' \<noteq> Finished \<longrightarrow> (\<forall>d. d \<noteq> PresentationDomain \<longrightarrow> af_snapshots c' d = af_snapshots c d)) \<and>
    (\<forall>v. VerbEvent v \<in> set (af_events c') \<longrightarrow> VerbEvent v \<in> set (af_events c) \<or>
      (known_verb (vb_domain v) (vb_name v) \<and> validate_verb v = Ok True \<and> verb_enabled v (af_snapshots c)))"
proof -
  have inv: "end_inv ser c" "af_producer c" using end_reachable_inv end_reachable_producer assms(1,2) by metis+
  show ?thesis using worker_step_table [OF assms(2) inv(1) assms(3)] worker_step_events [OF assms(2) inv(1) assms(3)] inv(2)
    by (auto dest!: decode_VerbEvent)
qed

text \<open>Once an end is stopped, seventy steps of its worker end it, whatever the owner calls meanwhile; then the table
  is empty, only the notice of closure may be left to poll, and nothing more can be published.\<close>

theorem affordance_close_finishes:
  assumes "end_reachable ser de producer c" "json_text ser" "af_stop c" "70 \<le> length (filter (is_work \<circ> fst) xs)"
  shows "let c' = end_run ser de xs c in
    af_at c' = Finished \<and> channel_finished c' \<and> af_snapshots c' = Map.empty \<and> af_events c' \<in> {[], [ClosedEvent]} \<and>
    fst (publish ser s c') \<noteq> Ok ()"
proof -
  let ?c = "end_run ser de xs c"
  have inv: "end_inv ser c" using end_reachable_inv assms(1,2) by metis
  note r = end_run_steps_left [OF assms(2) inv assms(3), of de xs]
  have "steps_left (af_at c) \<le> 70" using inv by (simp add: end_inv_def status_ok_def)
  then have "steps_left (af_at ?c) = 0" using r assms(4) by linarith
  then have f: "af_at ?c = Finished" using r steps_left_bound by blast
  obtain q c1 where q: "publish ser s ?c = (q, c1)" by fastforce
  then have "q \<noteq> Ok ()" by (rule publish_cases) (use r in auto)
  moreover have "\<not> af_alive ?c" "af_snapshots ?c = Map.empty" "af_events ?c \<in> {[], [ClosedEvent]}"
    using r f by (auto simp: inv_defs)
  ultimately show ?thesis using f q by (simp add: channel_finished_def Let_def)
qed

subsection \<open>At concrete inputs\<close>

lemma affordance_queues_bounded_witness:
  "let c = snd (publish (\<lambda>_. Some [1]) (CursorSnapshot ''text'') (channel_start True)) in
   end_reachable (\<lambda>_. Some [1]) Map.empty True c \<and> af_bytes c = 5 \<and> fst (send_batch (\<lambda>_. Some [1]) 8 c) = Ok ()"
proof -
  let ?ser = "\<lambda>_. Some [1 :: u8]"
  let ?c = "snd (publish ?ser (CursorSnapshot ''text'') (channel_start True))"
  have t: "json_text ?ser" by (simp add: json_text_def)
  have r: "end_reachable ?ser Map.empty True ?c"
    by (rule end_reachable.step [OF end_reachable.start, where e = "Publish (CursorSnapshot ''text'')" and p = "([], [])" and p' = "([], [])"])
      (simp add: end_step_def)
  have "af_outgoing ?c = [snapshot_wire (CursorSnapshot ''text'')]"
    using parse_snapshot_back [of "CursorSnapshot ''text''"]
    by (simp add: publish_def times_finite_def channel_start_def enqueue_locked_def CURSORS_def MESSAGE_BYTES_def QUEUE_BYTES_def Let_def del: body.simps)
  then show ?thesis using affordance_queues_bounded [OF r t] r by (simp add: Let_def message_cost_def)
qed

text \<open>A producer that has received the verb to reload and, before decoding it, publishes a snapshot that enables it.\<close>

definition reload_verb :: verb where
  "reload_verb = \<lparr> vb_domain = NavigationDomain, vb_name = ''reload'', vb_body = json_object [] \<rparr>"

definition reload_enabled :: snapshot where
  "reload_enabled = NavigationSnapshot \<lparr> nv_url = None, nv_title = None, nv_can_go_back = False, nv_can_go_forward = False,
     nv_loading = False, nv_capabilities = fmap_of_list [(''reload'', True)] \<rparr>"

lemma reload_normalised: "normalised reload_enabled"
  by (auto simp: reload_enabled_def caps_known_def known_verb_def fmlookup_of_list intro!: fmap_ext)

definition reload_state :: affordance_channel where
  "reload_state = (channel_start True)\<lparr> af_at := AtDecode (verb_wire reload_verb) 31 \<rparr>"

abbreviation one_byte :: "json \<Rightarrow> bytes option" where "one_byte \<equiv> \<lambda>_. Some [1]"
abbreviation always_reload :: "bytes \<Rightarrow> json option" where "always_reload \<equiv> \<lambda>_. Some (verb_wire reload_verb)"

lemma reload_state_reachable: "end_reachable one_byte always_reload True reload_state"
proof -
  let ?c = "\<lambda>a. channel_start True\<lparr> af_at := a \<rparr>"
  have s: "end_step one_byte always_reload (Work []) (channel_start True, [], []) = (?c AtSend, [], [])"
    "end_step one_byte always_reload (Work []) (?c AtSend, [], []) = (?c AtFlush, [], [])"
    "end_step one_byte always_reload (Work []) (?c AtFlush, [], []) = (?c AtFlushed, [], [])"
    "end_step one_byte always_reload (Work []) (?c AtFlushed, [], []) = (?c (AtRead 32), [], [])"
    by (simp_all add: end_step_def worker_step_def channel_start_def worker_send_def worker_goes_def framed_new_def framed_flush.simps eval_nat_numeral)
  have read: "AtRead 32 = AtRead (Suc 31)" by simp
  have size: "from_be32 [0, 0, 0, 1] = 1" by (simp add: from_be32_def)
  have "end_step one_byte always_reload (Work [Move 5]) (?c (AtRead 32), [0, 0, 0, 1, 1], []) = (reload_state, [], [])"
    unfolding read
    by (simp add: end_step_def worker_step_def channel_start_def framed_new_def framed_receive.simps take_message_def reload_state_def
        size MAX_FRAME_def)
  then show ?thesis
    by (intro end_reachable.step [OF end_reachable.step [OF end_reachable.step [OF end_reachable.step [OF end_reachable.step
            [OF end_reachable.start s(1)] s(2)] s(3)] s(4)]])
qed

definition reload_ready :: affordance_channel where
  "reload_ready = snd (publish one_byte reload_enabled reload_state)"

lemma reload_ready_eq:
  "reload_ready = reload_state\<lparr> af_bytes := 5, af_outgoing := [snapshot_wire reload_enabled],
     af_snapshots := [NavigationDomain \<mapsto> reload_enabled] \<rparr>"
  using parse_snapshot_back [OF reload_normalised]
  by (simp add: reload_ready_def publish_def times_finite_def reload_state_def channel_start_def enqueue_locked_def MESSAGE_BYTES_def
      QUEUE_BYTES_def store_snapshot_def is_withdraw_def Let_def reload_enabled_def del: body.simps)

lemma reload_decoded: "decode (verb_wire reload_verb) [NavigationDomain \<mapsto> reload_enabled] True = Ok (Some (VerbEvent reload_verb))"
proof -
  have "verb_enabled reload_verb [NavigationDomain \<mapsto> reload_enabled]"
    by (simp add: verb_enabled_def reload_verb_def reload_enabled_def json_simps of_capabilities_def index_def get_key_def fmlookup_of_list
        unscrollable_def json_object_def as_object_def)
  then show ?thesis
    using decode_verb_wire_eq [of reload_verb] by (simp add: reload_verb_def known_verb_def validate_verb_def json_simps)
qed

lemma affordance_verbs_enabled_witness:
  "\<exists>c'. worker_step one_byte always_reload [] (reload_ready, [], []) = (c', [], []) \<and> af_events c' = [VerbEvent reload_verb] \<and>
     verb_enabled reload_verb (af_snapshots reload_ready)"
proof -
  have t: "json_text one_byte" by (simp add: json_text_def)
  have r: "end_reachable one_byte always_reload True reload_ready"
    unfolding reload_ready_def
    by (rule end_reachable.step [OF reload_state_reachable, where e = "Publish reload_enabled" and p = "([], [])" and p' = "([], [])"])
      (simp add: end_step_def)
  obtain c' where c': "worker_step one_byte always_reload [] (reload_ready, [], []) = (c', [], [])" "af_events c' = [VerbEvent reload_verb]"
    using reload_decoded by (simp add: worker_step_def reload_ready_eq reload_state_def channel_start_def accept_message_def event_size_def
        worker_goes_def reload_verb_def QUEUE_BYTES_def EVENT_COUNT_def)
  have "af_events reload_ready = []" by (simp add: reload_ready_eq reload_state_def channel_start_def)
  then have "verb_enabled reload_verb (af_snapshots reload_ready)"
    using affordance_verbs_enabled [OF r t c'(1)] c'(2) by simp
  then show ?thesis using c' by blast
qed

end
