(* ===== verification/Affordance_Link.thy ===== *)
theory Affordance_Link
  imports Affordance_Ends
begin

text \<open>
  A producer and a host at the two ends of one affordances channel: every interleaving of their owners' calls
  with the steps of the two workers, and what one end's table of snapshots says of the other's.
\<close>

section \<open>Two ends\<close>

record affordance_link =
  ln_producer :: affordance_channel
  ln_host :: affordance_channel
  ln_down :: bytes
  ln_up :: bytes

definition link_start :: affordance_link where
  "link_start = \<lparr> ln_producer = channel_start True, ln_host = channel_start False, ln_down = [], ln_up = [] \<rparr>"

datatype link_event = AtProducer end_event | AtHost end_event

fun link_step :: "(json \<Rightarrow> bytes option) \<Rightarrow> (bytes \<Rightarrow> json option) \<Rightarrow> link_event \<Rightarrow> affordance_link \<Rightarrow> affordance_link" where
  "link_step ser de (AtProducer e) l =
     (case end_step ser de e (ln_producer l, ln_up l, ln_down l) of
        (c, up, down) \<Rightarrow> l\<lparr> ln_producer := c, ln_up := up, ln_down := down \<rparr>)"
| "link_step ser de (AtHost e) l =
     (case end_step ser de e (ln_host l, ln_down l, ln_up l) of
        (c, down, up) \<Rightarrow> l\<lparr> ln_host := c, ln_down := down, ln_up := up \<rparr>)"

definition link_run :: "(json \<Rightarrow> bytes option) \<Rightarrow> (bytes \<Rightarrow> json option) \<Rightarrow> link_event list \<Rightarrow> affordance_link" where
  "link_run ser de es = fold (link_step ser de) es link_start"

section \<open>What is under way\<close>

text \<open>\<open>from_slice\<close> reads back what \<open>to_vec\<close> wrote, for the messages of the events.  (Reading back every double exactly is
  an option of \<open>serde_json\<close> that is off by default.)\<close>

definition exact :: "(json \<Rightarrow> bytes option) \<Rightarrow> (bytes \<Rightarrow> json option) \<Rightarrow> json \<Rightarrow> bool" where
  "exact ser de m = (case ser m of None \<Rightarrow> True | Some j \<Rightarrow> de j = Some m)"

fun end_event_exact :: "(json \<Rightarrow> bytes option) \<Rightarrow> (bytes \<Rightarrow> json option) \<Rightarrow> end_event \<Rightarrow> bool" where
  "end_event_exact ser de (Publish s) =
     (case parse_snapshot (snapshot_domain s) (body s) of Ok s' \<Rightarrow> exact ser de (snapshot_wire s') | _ \<Rightarrow> True)"
| "end_event_exact ser de (SendVerb v) = exact ser de (verb_wire v)"
| "end_event_exact ser de _ = True"

primrec event_exact :: "(json \<Rightarrow> bytes option) \<Rightarrow> (bytes \<Rightarrow> json option) \<Rightarrow> link_event \<Rightarrow> bool" where
  "event_exact ser de (AtProducer e) = end_event_exact ser de e"
| "event_exact ser de (AtHost e) = end_event_exact ser de e"

text \<open>The messages an end may write.\<close>

definition written_by :: "bool \<Rightarrow> json \<Rightarrow> bool" where
  "written_by producer m \<longleftrightarrow>
     (\<exists>s. m = snapshot_wire s \<and> normalised s \<and> (snapshot_domain s = PresentationDomain) \<noteq> producer) \<or>
     (\<exists>v. m = verb_wire v \<and> \<not> producer \<and> known_verb (vb_domain v) (vb_name v) \<and> validate_verb v = Ok True)"

text \<open>The snapshot in a message, if it holds one.\<close>

definition message_snapshot :: "bool \<Rightarrow> json \<Rightarrow> snapshot option" where
  "message_snapshot producer m =
     (case decode m Map.empty producer of Ok (Some (SnapshotEvent s)) \<Rightarrow> Some s | _ \<Rightarrow> None)"

text \<open>The messages on the way from \<open>a\<close> to \<open>b\<close> when \<open>ms\<close> are on the wire.\<close>

definition in_flight :: "affordance_channel \<Rightarrow> json list \<Rightarrow> affordance_channel \<Rightarrow> json list" where
  "in_flight a ms b = (case af_at b of AtDecode v _ \<Rightarrow> [v] | _ \<Rightarrow> []) @ ms @ af_outgoing a"

definition apply_message :: "bool \<Rightarrow> json \<Rightarrow> snapshots \<Rightarrow> snapshots" where
  "apply_message producer m sn = (case message_snapshot producer m of None \<Rightarrow> sn | Some s \<Rightarrow> store_snapshot s sn)"

definition replay :: "bool \<Rightarrow> json list \<Rightarrow> snapshots \<Rightarrow> snapshots" where
  "replay producer ms sn = fold (apply_message producer) ms sn"

text \<open>Table of the receiver after what is under way is the sender's, in the domains the sender publishes.\<close>

definition tables_agree :: "(json \<Rightarrow> bytes option) \<Rightarrow> affordance_channel \<Rightarrow> bytes \<Rightarrow> affordance_channel \<Rightarrow> json list \<Rightarrow> bool" where
  "tables_agree ser a pipe b ms \<longleftrightarrow>
     fr_input (af_framed b) @ pipe @ unsent (af_framed a) = encode ser ms \<and>
     (\<forall>d. (d = PresentationDomain) \<noteq> af_producer a \<longrightarrow>
        replay (af_producer b) (in_flight a ms b) (af_snapshots b) d = af_snapshots a d)"

definition flow :: "(json \<Rightarrow> bytes option) \<Rightarrow> (bytes \<Rightarrow> json option) \<Rightarrow> affordance_channel \<Rightarrow> bytes \<Rightarrow> affordance_channel \<Rightarrow> bool" where
  "flow ser de a pipe b \<longleftrightarrow>
     (\<exists>ms. tables_agree ser a pipe b ms \<and>
        list_all (\<lambda>m. written_by (af_producer a) m \<and> exact ser de m \<and> carries ser m) (in_flight a ms b))"

definition running :: "affordance_channel \<Rightarrow> bool" where
  "running c \<longleftrightarrow> af_at c \<noteq> AtEnd \<and> af_at c \<noteq> Finished"

lemma apply_cong: "sn d = sn' d \<Longrightarrow> apply_message p m sn d = apply_message p m sn' d"
  by (auto simp: apply_message_def store_snapshot_def split: option.split)

lemma replay_cong: "sn d = sn' d \<Longrightarrow> replay p ms sn d = replay p ms sn' d"
proof (induction ms arbitrary: sn sn')
  case (Cons m ms)
  have "apply_message p m sn d = apply_message p m sn' d" using Cons.prems by (rule apply_cong)
  from Cons.IH [of "apply_message p m sn" "apply_message p m sn'", OF this] show ?case by (simp add: replay_def)
qed (simp add: replay_def)

lemma replay_simps [simp]: "replay p [] sn = sn" "replay p (m # ms) sn = replay p ms (apply_message p m sn)"
  "replay p (ms @ ks) sn = replay p ks (replay p ms sn)"
  by (simp_all add: replay_def)

lemma message_snapshot_wire: "normalised s \<Longrightarrow> (snapshot_domain s = PresentationDomain) = p \<Longrightarrow> message_snapshot p (snapshot_wire s) = Some s"
  by (simp add: message_snapshot_def decode_wire)

lemma message_snapshot_verb:
  "known_verb (vb_domain v) (vb_name v) \<Longrightarrow> validate_verb v = Ok True \<Longrightarrow> message_snapshot True (verb_wire v) = None"
  by (simp add: message_snapshot_def decode_verb_wire_eq verb_enabled_def)

text \<open>A message of the other end is decoded without error, and changes the table by its snapshot.\<close>

lemma written_decodes:
  assumes "written_by (\<not> p) m"
  shows "\<exists>e. decode m sn p = Ok e \<and> (case e of Some (SnapshotEvent s) \<Rightarrow> message_snapshot p m = Some s | _ \<Rightarrow> message_snapshot p m = None)"
  using assms unfolding written_by_def
proof (elim disjE exE conjE)
  fix s
  assume "m = snapshot_wire s" "normalised s" "(snapshot_domain s = PresentationDomain) \<noteq> (\<not> p)"
  then show ?thesis using decode_wire [of s p sn] message_snapshot_wire [of s p] by auto
next
  fix v
  assume "m = verb_wire v" "\<not> \<not> p" "known_verb (vb_domain v) (vb_name v)" "validate_verb v = Ok True"
  then show ?thesis using decode_verb_wire_eq [of v sn] message_snapshot_verb [of v] by auto
qed

lemma accept_written:
  assumes "written_by (\<not> af_producer c) m" "accept_message ser m c = (Ok (), c')"
  shows "af_snapshots c' = apply_message (af_producer c) m (af_snapshots c)"
proof -
  obtain e where e: "decode m (af_snapshots c) (af_producer c) = Ok e"
    "case e of Some (SnapshotEvent s) \<Rightarrow> message_snapshot (af_producer c) m = Some s | _ \<Rightarrow> message_snapshot (af_producer c) m = None"
    using written_decodes [OF assms(1)] by blast
  then show ?thesis using assms(2)
    by (cases e) (auto simp: accept_message_def apply_message_def split: option.splits if_splits affordance_event.splits)
qed

section \<open>The sender moves\<close>

text \<open>\<open>receive_ok\<close> for a codec that is exact on what is under way.\<close>

lemma receive_exact:
  assumes "fr_input f @ pipe @ tail = encode ser ms" "list_all (\<lambda>m. exact ser de m \<and> carries ser m) ms" "rx_ok f"
    "framed_receive de ts f pipe = (r, f', pipe')"
  shows "case r of
       Ok (Some m) \<Rightarrow> \<exists>ms'. ms = m # ms' \<and> fr_input f' @ pipe' @ tail = encode ser ms'
     | Ok None \<Rightarrow> fr_input f' @ pipe' @ tail = encode ser ms
     | _ \<Rightarrow> True"
proof -
  let ?ser = "\<lambda>m. if exact ser de m then ser m else None"
  have same: "list_all (\<lambda>m. exact ser de m \<and> carries ser m) ks \<Longrightarrow> encode ?ser ks = encode ser ks \<and> list_all (carries ?ser) ks" for ks
    by (induction ks) (auto simp: carries_def)
  have rt: "\<And>m json. ?ser m = Some json \<Longrightarrow> de json = Some m" by (auto simp: exact_def split: if_splits)
  have e: "fr_input f @ pipe @ tail = encode ?ser ms" using assms(1) same [OF assms(2)] by simp
  have l: "list_all (carries ?ser) ms" using same [OF assms(2)] by blast
  note ok = receive_ok [OF e l assms(3) rt assms(4)]
  show ?thesis
  proof (cases r)
    case (Ok x)
    show ?thesis
    proof (cases x)
      case None
      then have "fr_input f' @ pipe' = fr_input f @ pipe" using ok Ok by simp
      then have "fr_input f' @ pipe' @ tail = encode ser ms" using assms(1) by (metis append.assoc)
      then show ?thesis using Ok None by simp
    next
      case (Some m)
      then obtain ms' where m: "ms = m # ms'" "fr_input f' @ pipe' @ tail = encode ?ser ms'" using ok Ok by auto
      then have "encode ?ser ms' = encode ser ms'" using same [of ms'] assms(2) by simp
      then show ?thesis using m Ok Some by simp
    qed
  qed simp_all
qed

definition same_sender :: "affordance_channel \<Rightarrow> affordance_channel \<Rightarrow> bool" where
  "same_sender a a' \<longleftrightarrow> af_outgoing a' = af_outgoing a \<and> unsent (af_framed a') = unsent (af_framed a) \<and> af_producer a' = af_producer a \<and>
     (\<forall>d. (d = PresentationDomain) \<noteq> af_producer a \<longrightarrow> af_snapshots a' d = af_snapshots a d)"

lemma flow_same_sender:
  assumes "flow ser de a pipe b" "same_sender a a'"
  shows "flow ser de a' pipe b"
  using assms by (auto simp: flow_def tables_agree_def same_sender_def in_flight_def)

lemma flow_enqueue:
  assumes "flow ser de a pipe b" "written_by (af_producer a) m" "exact ser de m" "carries ser m"
    and a': "af_outgoing a' = af_outgoing a @ [m]" "af_framed a' = af_framed a" "af_producer a' = af_producer a"
      "\<forall>d. (d = PresentationDomain) \<noteq> af_producer a \<longrightarrow> af_snapshots a' d = apply_message (af_producer b) m (af_snapshots a) d"
  shows "flow ser de a' pipe b"
proof -
  obtain ms where ms: "tables_agree ser a pipe b ms"
    "list_all (\<lambda>m. written_by (af_producer a) m \<and> exact ser de m \<and> carries ser m) (in_flight a ms b)" using assms(1) by (auto simp: flow_def)
  have i: "in_flight a' ms b = in_flight a ms b @ [m]" using a'(1) by (simp add: in_flight_def)
  have "replay (af_producer b) (in_flight a' ms b) (af_snapshots b) d = af_snapshots a' d"
    if "(d = PresentationDomain) \<noteq> af_producer a" for d
    using apply_cong [of "replay (af_producer b) (in_flight a ms b) (af_snapshots b)" d "af_snapshots a" "af_producer b" m] that a'(4) ms(1)
    unfolding i by (simp add: tables_agree_def)
  then have "tables_agree ser a' pipe b ms" using ms(1) a' by (simp add: tables_agree_def)
  then show ?thesis using ms(2) assms(2-4) a' i unfolding flow_def by (intro exI [of _ ms]) simp
qed

lemma flow_sender_work:
  assumes "json_text ser" "end_inv ser a" "flow ser de a pipe b" "worker_step ser de ts (a, inp, pipe) = (a', inp', pipe')" "af_at a' \<noteq> Finished"
  shows "flow ser de a' pipe' b"
proof (cases "af_at a")
  case AtSend
  have "batch_ok ser a" using assms(2) by (simp add: end_inv_def queue_ok_def)
  then obtain f c where w: "worker_send ser a = a\<lparr> af_outgoing := drop 8 (af_outgoing a), af_bytes := c, af_framed := f,
      af_wire_bytes := fr_queued f, af_at := AtFlush \<rparr>" "unsent f = unsent (af_framed a) @ encode ser (take 8 (af_outgoing a))"
    using worker_send_ok [OF assms(1)] by blast
  have a': "a' = worker_send ser a" "pipe' = pipe" using assms(4) AtSend by (simp_all add: worker_step_def)
  obtain ms where ms: "tables_agree ser a pipe b ms"
    "list_all (\<lambda>m. written_by (af_producer a) m \<and> exact ser de m \<and> carries ser m) (in_flight a ms b)" using assms(3) by (auto simp: flow_def)
  let ?ms = "ms @ take 8 (af_outgoing a)"
  have i: "in_flight a' ?ms b = in_flight a ms b" using w(1) a' by (simp add: in_flight_def)
  have "fr_input (af_framed b) @ pipe @ unsent f = encode ser ?ms"
    using arg_cong [of _ _ "\<lambda>bs. bs @ encode ser (take 8 (af_outgoing a))"] ms(1) w(2) by (simp add: tables_agree_def)
  then have "tables_agree ser a' pipe' b ?ms" using ms(1) a' w(1) i by (simp add: tables_agree_def)
  then show ?thesis using ms(2) i a' w(1) unfolding flow_def by (intro exI [of _ ?ms]) simp
next
  case AtFlush
  obtain r f out where f: "framed_flush ts (af_framed a) pipe = (r, f, out)" by (metis surj_pair)
  have tx: "tx_ok (af_framed a)" using assms(2) by (simp add: inv_defs)
  have "out @ unsent f = pipe @ unsent (af_framed a)" using flush_ok [OF tx f] by blast
  moreover have "\<exists>x. a' = a\<lparr> af_framed := f, af_at := x \<rparr>" "pipe' = out"
    using assms(4) AtFlush f by (cases r; auto simp: worker_step_def worker_goes_def)+
  ultimately show ?thesis using assms(3) by (auto simp: flow_def tables_agree_def in_flight_def)
next
  case (AtRead k)
  have "same_sender a a' \<and> pipe' = pipe"
  proof (cases k)
    case (Suc n)
    obtain r f inp1 where f: "framed_receive de ts (af_framed a) inp = (r, f, inp1)" by (metis surj_pair)
    have rx: "rx_ok (af_framed a)" using assms(2) by (simp add: inv_defs)
    have "unsent f = unsent (af_framed a)" using receive_bounded [OF rx f] by (simp add: unsent_def)
    then show ?thesis using assms(4) AtRead Suc f
      by (auto simp: worker_step_def same_sender_def split: outcome.splits option.splits)
  qed (use assms(4) AtRead in \<open>auto simp: worker_step_def same_sender_def\<close>)
  then show ?thesis using flow_same_sender assms(3) by blast
next
  case (AtDecode v n)
  obtain r c where c: "accept_message ser v a = (r, c)" by fastforce
  have "af_outgoing a' = af_outgoing a \<and> af_framed a' = af_framed a \<and> af_producer a' = af_producer a" "pipe' = pipe"
    using accept_same [OF c] assms(4) AtDecode c by (auto simp: worker_step_def worker_goes_def split: outcome.splits)
  then show ?thesis using flow_same_sender [OF assms(3), of a'] worker_step_table [OF assms(1,2,4,5)] by (simp add: same_sender_def)
next
  case AtTop
  then have "same_sender a a'" "pipe' = pipe" using assms(4) by (auto simp: worker_step_def same_sender_def)
  then show ?thesis using flow_same_sender assms(3) by blast
next
  case AtFlushed
  then have "same_sender a a'" "pipe' = pipe" using assms(4) by (auto simp: worker_step_def same_sender_def)
  then show ?thesis using flow_same_sender assms(3) by blast
qed (use assms in \<open>auto simp: worker_step_def worker_end_def inv_defs\<close>)

lemma cost_carries: "json_text ser \<Longrightarrow> message_cost ser m \<le> MESSAGE_BYTES \<Longrightarrow> carries ser m"
  using ser_text [of ser m] by (auto simp: carries_def message_cost_def frame_limit)

lemma flow_sender:
  assumes "json_text ser" "end_inv ser a" "flow ser de a pipe b" "end_step ser de e (a, inp, pipe) = (a', inp', pipe')"
    "af_at a' \<noteq> Finished" "end_event_exact ser de e" "af_producer b \<noteq> af_producer a"
  shows "flow ser de a' pipe' b"
proof (cases e)
  case (Work ts)
  then show ?thesis using flow_sender_work [OF assms(1-3)] assms(4,5) by (simp add: end_step_def)
next
  case (Publish s)
  obtain r c where c: "publish ser s a = (r, c)" by fastforce
  then have a': "a' = c" "pipe' = pipe" using assms(4) Publish by (auto simp: end_step_def)
  from c have "flow ser de c pipe b"
  proof (cases rule: publish_cases)
    case (published s' j)
    then have "written_by (af_producer a) (snapshot_wire s')" "exact ser de (snapshot_wire s')" "carries ser (snapshot_wire s')"
      using assms(6) Publish cost_carries [OF assms(1)] by (auto simp: written_by_def)
    moreover have "message_snapshot (af_producer b) (snapshot_wire s') = Some s'"
      using published(2,3) assms(7) by (intro message_snapshot_wire) auto
    ultimately show ?thesis using published by (intro flow_enqueue [OF assms(3), where m = "snapshot_wire s'"]) (simp_all add: apply_message_def)
  next
    case refused
    then show ?thesis using assms(3) by (intro flow_same_sender [OF assms(3)]) (auto simp: same_sender_def)
  qed
  then show ?thesis using a' by simp
next
  case (SendVerb v)
  obtain r c where c: "host_send ser v a = (r, c)" by fastforce
  then have a': "a' = (if af_producer a then a else c)" "pipe' = pipe" using assms(4) SendVerb by (auto simp: end_step_def)
  have "flow ser de c pipe b" if np: "\<not> af_producer a"
    using c
  proof (cases rule: host_send_cases)
    case (sent j)
    then have "written_by (af_producer a) (verb_wire v)" "exact ser de (verb_wire v)" "carries ser (verb_wire v)"
      using assms(6) SendVerb cost_carries [OF assms(1)] np by (auto simp: written_by_def)
    moreover have "message_snapshot (af_producer b) (verb_wire v) = None"
      using message_snapshot_verb [of v] sent(1,2) assms(7) np by simp
    ultimately show ?thesis using sent by (intro flow_enqueue [OF assms(3), where m = "verb_wire v"]) (simp_all add: apply_message_def)
  next
    case refused
    then show ?thesis using assms(3) by (intro flow_same_sender [OF assms(3)]) (auto simp: same_sender_def)
  qed
  then show ?thesis using a' assms(3) by simp
next
  case Poll
  then have "same_sender a a'" "pipe' = pipe" using assms(4)
    by (auto simp: end_step_def poll_def same_sender_def split: list.splits option.splits)
  then show ?thesis using flow_same_sender assms(3) by blast
next
  case Close
  then have "same_sender a a'" "pipe' = pipe" using assms(4) by (auto simp: end_step_def channel_close_def same_sender_def)
  then show ?thesis using flow_same_sender assms(3) by blast
qed

section \<open>The receiver moves\<close>

definition at_message :: "affordance_channel \<Rightarrow> json list" where
  "at_message b = (case af_at b of AtDecode v _ \<Rightarrow> [v] | _ \<Rightarrow> [])"

definition same_receiver :: "affordance_channel \<Rightarrow> affordance_channel \<Rightarrow> bool" where
  "same_receiver b b' \<longleftrightarrow> at_message b' = at_message b \<and> fr_input (af_framed b') = fr_input (af_framed b) \<and> af_producer b' = af_producer b \<and>
     (\<forall>d. (d = PresentationDomain) = af_producer b \<longrightarrow> af_snapshots b' d = af_snapshots b d)"

lemma in_flight_at: "in_flight a ms b = at_message b @ ms @ af_outgoing a"
  by (simp add: in_flight_def at_message_def)

lemma flow_same_receiver:
  assumes "flow ser de a pipe b" "same_receiver b b'" "af_producer b \<noteq> af_producer a"
  shows "flow ser de a pipe b'"
proof -
  obtain ms where ms: "tables_agree ser a pipe b ms"
    "list_all (\<lambda>m. written_by (af_producer a) m \<and> exact ser de m \<and> carries ser m) (in_flight a ms b)" using assms(1) by (auto simp: flow_def)
  have i: "in_flight a ms b' = in_flight a ms b" using assms(2) by (simp add: in_flight_at same_receiver_def)
  have "replay (af_producer b) (in_flight a ms b) (af_snapshots b') d = replay (af_producer b) (in_flight a ms b) (af_snapshots b) d"
    if "(d = PresentationDomain) \<noteq> af_producer a" for d
    using that assms(2,3) by (intro replay_cong) (auto simp: same_receiver_def)
  then have "tables_agree ser a pipe b' ms" using ms(1) assms(2) i by (simp add: tables_agree_def same_receiver_def)
  then show ?thesis using ms(2) i unfolding flow_def by (intro exI [of _ ms]) simp
qed

lemma owner_same_receiver: "same_receiver b (owner_step ser e b)"
proof (cases e)
  case (Publish s)
  obtain r c where c: "publish ser s b = (r, c)" by fastforce
  then have "same_receiver b c" by (rule publish_cases) (auto simp: same_receiver_def at_message_def store_snapshot_def)
  then show ?thesis using c Publish by simp
next
  case (SendVerb v)
  obtain r c where c: "host_send ser v b = (r, c)" by fastforce
  then have "same_receiver b c" by (rule host_send_cases) (auto simp: same_receiver_def at_message_def)
  then show ?thesis using c SendVerb by (simp add: same_receiver_def)
qed (auto simp: poll_def channel_close_def same_receiver_def at_message_def split: list.splits option.splits)

lemma flow_receiver_read:
  assumes "rx_ok (af_framed b)" "flow ser de a pipe b" "af_at b = AtRead (Suc n)"
    "worker_step ser de ts (b, pipe, out) = (b', pipe', out')" "running b'"
  shows "flow ser de a pipe' b'"
proof -
  obtain r f pipe1 where f: "framed_receive de ts (af_framed b) pipe = (r, f, pipe1)" by (metis surj_pair)
  obtain ms where ms: "tables_agree ser a pipe b ms"
    "list_all (\<lambda>m. written_by (af_producer a) m \<and> exact ser de m \<and> carries ser m) (in_flight a ms b)" using assms(2) by (auto simp: flow_def)
  have e: "fr_input (af_framed b) @ pipe @ unsent (af_framed a) = encode ser ms" using ms(1) by (simp add: tables_agree_def)
  have l: "list_all (\<lambda>m. exact ser de m \<and> carries ser m) ms" using ms(2) by (auto simp: in_flight_at list_all_iff)
  have at: "at_message b = []" using assms(3) by (simp add: at_message_def)
  note r = receive_exact [OF e l assms(1) f]
  consider "r = Ok None" | m where "r = Ok (Some m)" | "\<not> running b' \<or> af_at b' = Panicked"
    using assms(3,4) f by (cases r) (auto simp: worker_step_def running_def split: option.splits)
  then show ?thesis
  proof cases
    case 1
    then have b': "b' = b\<lparr> af_framed := f, af_at := AtTop \<rparr>" "pipe' = pipe1" using assms(3,4) f by (simp_all add: worker_step_def)
    have "tables_agree ser a pipe' b' ms" using ms(1) r 1 b' at by (simp add: tables_agree_def in_flight_at at_message_def)
    then show ?thesis using ms(2) b' at unfolding flow_def by (intro exI [of _ ms]) (simp add: in_flight_at at_message_def)
  next
    case 2
    then obtain ms' where m: "ms = m # ms'" "fr_input f @ pipe1 @ unsent (af_framed a) = encode ser ms'" using r by auto
    have b': "b' = b\<lparr> af_framed := f, af_at := AtDecode m n \<rparr>" "pipe' = pipe1" using assms(3,4) f 2 by (simp_all add: worker_step_def)
    have "tables_agree ser a pipe' b' ms'" using ms(1) m b' at by (simp add: tables_agree_def in_flight_at at_message_def)
    then show ?thesis using ms(2) m(1) b' at unfolding flow_def by (intro exI [of _ ms']) (simp add: in_flight_at at_message_def)
  next
    case 3
    moreover have "af_at b' \<noteq> Panicked" using receive_bounded [OF assms(1) f] assms(3,4) f
      by (auto simp: worker_step_def split: outcome.splits option.splits)
    ultimately show ?thesis using assms(5) by blast
  qed
qed

lemma flow_receiver_decode:
  assumes "json_text ser" "end_inv ser b" "flow ser de a pipe b" "af_at b = AtDecode v n" "af_producer b \<noteq> af_producer a"
    "worker_step ser de ts (b, pipe, out) = (b', pipe', out')" "running b'"
  shows "flow ser de a pipe' b'"
proof -
  obtain r c where c: "accept_message ser v b = (r, c)" by fastforce
  have "r \<noteq> Panic" using accept_message_ok [OF assms(1,2,4) c] by blast
  then have b': "r = Ok ()" "b' = c\<lparr> af_at := AtRead n \<rparr>" "pipe' = pipe"
    using assms(4,6,7) c by (auto simp: worker_step_def worker_goes_def running_def split: outcome.splits)
  obtain ms where ms: "tables_agree ser a pipe b ms"
    "list_all (\<lambda>m. written_by (af_producer a) m \<and> exact ser de m \<and> carries ser m) (in_flight a ms b)" using assms(3) by (auto simp: flow_def)
  have i: "in_flight a ms b = v # ms @ af_outgoing a" "in_flight a ms b' = ms @ af_outgoing a"
    using assms(4) b' by (simp_all add: in_flight_def)
  have p: "af_producer a = (\<not> af_producer b)" using assms(5) by auto
  have "written_by (\<not> af_producer b) v" using ms(2) i(1) p by simp
  then have s: "af_snapshots c = apply_message (af_producer b) v (af_snapshots b)" using accept_written c b'(1) by blast
  have "tables_agree ser a pipe' b' ms"
    using ms(1) i s accept_same [OF c] b' by (simp add: tables_agree_def)
  then show ?thesis using ms(2) i unfolding flow_def by (intro exI [of _ ms]) simp
qed

lemma flow_receiver_work:
  assumes "json_text ser" "end_inv ser b" "flow ser de a pipe b" "af_producer b \<noteq> af_producer a"
    "worker_step ser de ts (b, pipe, out) = (b', pipe', out')" "running b'"
  shows "flow ser de a pipe' b'"
proof (cases "af_at b")
  case (AtRead k)
  show ?thesis
  proof (cases k)
    case 0
    then have "same_receiver b b'" "pipe' = pipe" using assms(5) AtRead by (auto simp: worker_step_def same_receiver_def at_message_def)
    then show ?thesis using flow_same_receiver assms(3,4) by blast
  next
    case (Suc n)
    have "rx_ok (af_framed b)" using assms(2) by (simp add: inv_defs)
    then show ?thesis using flow_receiver_read [OF _ assms(3)] AtRead Suc assms(5,6) by blast
  qed
next
  case (AtDecode v n)
  then show ?thesis using flow_receiver_decode [OF assms(1-3)] assms(4-6) by blast
next
  case AtSend
  have "batch_ok ser b" using assms(2) by (simp add: end_inv_def queue_ok_def)
  then have "same_receiver b (worker_send ser b)"
    by (rule worker_send_ok [OF assms(1)]) (use AtSend in \<open>simp add: same_receiver_def at_message_def\<close>)
  then show ?thesis using flow_same_receiver [OF assms(3)] assms(4,5) AtSend by (auto simp: worker_step_def)
next
  case AtFlush
  obtain r f out1 where f: "framed_flush ts (af_framed b) out = (r, f, out1)" by (metis surj_pair)
  have tx: "tx_ok (af_framed b)" using assms(2) by (simp add: inv_defs)
  have "same_receiver b b'" "pipe' = pipe" using flush_ok [OF tx f] assms(5) AtFlush f
    by (auto simp: worker_step_def worker_goes_def same_receiver_def at_message_def split: outcome.splits)
  then show ?thesis using flow_same_receiver assms(3,4) by blast
next
  case AtTop
  then have "same_receiver b b'" "pipe' = pipe" using assms(5) by (auto simp: worker_step_def same_receiver_def at_message_def)
  then show ?thesis using flow_same_receiver assms(3,4) by blast
next
  case AtFlushed
  then have "same_receiver b b'" "pipe' = pipe" using assms(5) by (auto simp: worker_step_def same_receiver_def at_message_def)
  then show ?thesis using flow_same_receiver assms(3,4) by blast
qed (use assms in \<open>auto simp: worker_step_def worker_end_def running_def inv_defs\<close>)

section \<open>Both directions\<close>

lemma owner_same_at: "af_at (owner_step ser e c) = af_at c"
proof (cases e)
  case (Publish s)
  obtain r c' where c: "publish ser s c = (r, c')" by fastforce
  then have "af_at c' = af_at c" by (rule publish_cases) auto
  then show ?thesis using c Publish by simp
next
  case (SendVerb v)
  obtain r c' where c: "host_send ser v c = (r, c')" by fastforce
  then have "af_at c' = af_at c" by (rule host_send_cases) auto
  then show ?thesis using c SendVerb by simp
qed (auto simp: poll_def channel_close_def split: list.splits option.splits)

lemma end_step_forward:
  assumes "end_step ser de e (c, inp, out) = (c', inp', out')"
  shows "running c' \<Longrightarrow> running c" "af_at c' \<noteq> Finished \<Longrightarrow> af_at c \<noteq> Finished"
  using assms owner_same_at [of ser e c]
  by (cases e; auto simp: end_step_def worker_step_def worker_end_def running_def)+

lemma flow_receiver:
  assumes "json_text ser" "end_inv ser b" "flow ser de a pipe b" "af_producer b \<noteq> af_producer a"
    "end_step ser de e (b, pipe, out) = (b', pipe', out')" "running b'"
  shows "flow ser de a pipe' b'"
proof (cases "is_work e")
  case True
  then show ?thesis using flow_receiver_work [OF assms(1-4) _ assms(6)] assms(5) by (auto simp: is_work_def end_step_def split: end_event.splits)
next
  case False
  then have "b' = owner_step ser e b" "pipe' = pipe" using assms(5) by (auto simp: is_work_def end_step_def split: end_event.splits)
  then show ?thesis using flow_same_receiver [OF assms(3) owner_same_receiver assms(4)] by simp
qed

definition link_inv :: "(json \<Rightarrow> bytes option) \<Rightarrow> (bytes \<Rightarrow> json option) \<Rightarrow> affordance_link \<Rightarrow> bool" where
  "link_inv ser de l \<longleftrightarrow> end_inv ser (ln_producer l) \<and> end_inv ser (ln_host l) \<and> af_producer (ln_producer l) \<and> \<not> af_producer (ln_host l) \<and>
     (af_at (ln_producer l) \<noteq> Finished \<and> running (ln_host l) \<longrightarrow> flow ser de (ln_producer l) (ln_down l) (ln_host l)) \<and>
     (af_at (ln_host l) \<noteq> Finished \<and> running (ln_producer l) \<longrightarrow> flow ser de (ln_host l) (ln_up l) (ln_producer l))"

lemma link_step_inv:
  assumes t: "json_text ser" and inv: "link_inv ser de l" and x: "event_exact ser de e"
  shows "link_inv ser de (link_step ser de e l)"
proof (cases e)
  case (AtProducer ev)
  obtain c up down where s: "end_step ser de ev (ln_producer l, ln_up l, ln_down l) = (c, up, down)" by (metis surj_pair)
  have p: "end_inv ser (ln_producer l)" "af_producer (ln_producer l)" "\<not> af_producer (ln_host l)" "end_event_exact ser de ev"
    using inv x AtProducer by (simp_all add: link_inv_def)
  have c: "end_inv ser c" "af_producer c" using end_step_inv [OF t p(1) s] end_step_producer [OF t p(1) s] p(2) by simp_all
  have "flow ser de c down (ln_host l)" if "af_at c \<noteq> Finished" "running (ln_host l)"
    using inv that end_step_forward(2) [OF s] p by (intro flow_sender [OF t p(1) _ s]) (auto simp: link_inv_def)
  moreover have "flow ser de (ln_host l) up c" if "af_at (ln_host l) \<noteq> Finished" "running c"
    using inv that end_step_forward(1) [OF s] p by (intro flow_receiver [OF t p(1) _ _ s]) (auto simp: link_inv_def)
  ultimately show ?thesis using inv c s AtProducer by (simp add: link_inv_def)
next
  case (AtHost ev)
  obtain c down up where s: "end_step ser de ev (ln_host l, ln_down l, ln_up l) = (c, down, up)" by (metis surj_pair)
  have p: "end_inv ser (ln_host l)" "\<not> af_producer (ln_host l)" "af_producer (ln_producer l)" "end_event_exact ser de ev"
    using inv x AtHost by (simp_all add: link_inv_def)
  have c: "end_inv ser c" "\<not> af_producer c" using end_step_inv [OF t p(1) s] end_step_producer [OF t p(1) s] p(2) by simp_all
  have "flow ser de c up (ln_producer l)" if "af_at c \<noteq> Finished" "running (ln_producer l)"
    using inv that end_step_forward(2) [OF s] p by (intro flow_sender [OF t p(1) _ s]) (auto simp: link_inv_def)
  moreover have "flow ser de (ln_producer l) down c" if "af_at (ln_producer l) \<noteq> Finished" "running c"
    using inv that end_step_forward(1) [OF s] p by (intro flow_receiver [OF t p(1) _ _ s]) (auto simp: link_inv_def)
  ultimately show ?thesis using inv c s AtHost by (simp add: link_inv_def)
qed

lemma flow_start: "flow ser de (channel_start p) [] (channel_start q)"
  unfolding flow_def
  by (intro exI [of _ "[]"]) (simp add: tables_agree_def in_flight_def channel_start_def framed_new_def unsent_def)

lemma link_start_inv: "link_inv ser de link_start"
  using start_inv [of ser] flow_start by (simp add: link_inv_def link_start_def channel_start_def)

lemma link_run_inv:
  assumes "json_text ser" "list_all (event_exact ser de) es"
  shows "link_inv ser de (link_run ser de es)"
proof -
  have "link_inv ser de l \<Longrightarrow> link_inv ser de (fold (link_step ser de) es l)" for l
    using assms(2) by (induction es arbitrary: l) (simp_all add: link_step_inv [OF assms(1)])
  then show ?thesis using link_start_inv by (simp add: link_run_def)
qed

lemma flow_agrees:
  assumes "flow ser de a pipe b" "af_producer b \<noteq> af_producer a"
  shows "\<exists>ms. tables_agree ser a pipe b ms \<and> (\<forall>m \<in> set (in_flight a ms b). \<forall>sn. \<exists>e. decode m sn (af_producer b) = Ok e)"
    "fr_input (af_framed b) = [] \<Longrightarrow> pipe = [] \<Longrightarrow> unsent (af_framed a) = [] \<Longrightarrow> af_outgoing a = [] \<Longrightarrow> at_message b = [] \<Longrightarrow>
      (d = PresentationDomain) \<noteq> af_producer a \<Longrightarrow> af_snapshots b d = af_snapshots a d"
proof -
  obtain ms where ms: "tables_agree ser a pipe b ms"
    "list_all (\<lambda>m. written_by (af_producer a) m \<and> exact ser de m \<and> carries ser m) (in_flight a ms b)" using assms(1) by (auto simp: flow_def)
  have p: "af_producer a = (\<not> af_producer b)" using assms(2) by auto
  have "\<exists>e. decode m sn (af_producer b) = Ok e" if "m \<in> set (in_flight a ms b)" for m sn
    using written_decodes [of "af_producer b" m sn] ms(2) that p by (auto simp: list_all_iff)
  then show "\<exists>ms. tables_agree ser a pipe b ms \<and> (\<forall>m \<in> set (in_flight a ms b). \<forall>sn. \<exists>e. decode m sn (af_producer b) = Ok e)"
    using ms(1) by blast
  assume "fr_input (af_framed b) = []" "pipe = []" "unsent (af_framed a) = []" "af_outgoing a = []" "at_message b = []"
    "(d = PresentationDomain) \<noteq> af_producer a"
  moreover from this have "ms = []" using ms(1) encode_Nil [of ser ms] by (simp add: tables_agree_def)
  ultimately show "af_snapshots b d = af_snapshots a d" using ms(1) by (auto simp: tables_agree_def in_flight_at)
qed

section \<open>Properties\<close>

text \<open>C10. The two ends of an affordances channel agree.  In every interleaving of the owners' calls with the steps of
  the two workers, however the stream splits and delays the bytes, as long as the sending end has not ended and the
  receiving one runs: the messages on the way, applied to the receiver's table of snapshots, give the sender's
  table in every domain the sender publishes, and none of them is malformed for the receiver; so with nothing on the
  way the two tables are equal there.  This is so in both directions.\<close>

theorem affordance_tables_agree:
  assumes "json_text ser" "list_all (event_exact ser de) es"
    and "l = link_run ser de es" "p = ln_producer l" "h = ln_host l"
  shows "(af_at p \<noteq> Finished \<and> running h \<longrightarrow>
      (\<exists>ms. tables_agree ser p (ln_down l) h ms \<and> (\<forall>m \<in> set (in_flight p ms h). \<forall>sn. \<exists>e. decode m sn False = Ok e)) \<and>
      (fr_input (af_framed h) = [] \<and> ln_down l = [] \<and> unsent (af_framed p) = [] \<and> af_outgoing p = [] \<and> at_message h = [] \<longrightarrow>
         (\<forall>d. d \<noteq> PresentationDomain \<longrightarrow> af_snapshots h d = af_snapshots p d))) \<and>
    (af_at h \<noteq> Finished \<and> running p \<longrightarrow>
      (\<exists>ms. tables_agree ser h (ln_up l) p ms \<and> (\<forall>m \<in> set (in_flight h ms p). \<forall>sn. \<exists>e. decode m sn True = Ok e)) \<and>
      (fr_input (af_framed p) = [] \<and> ln_up l = [] \<and> unsent (af_framed h) = [] \<and> af_outgoing h = [] \<and> at_message p = [] \<longrightarrow>
         af_snapshots p PresentationDomain = af_snapshots h PresentationDomain))"
proof -
  have inv: "link_inv ser de l" using link_run_inv [OF assms(1,2)] assms(3) by simp
  have pr: "af_producer p" "\<not> af_producer h" using inv assms(4,5) by (simp_all add: link_inv_def)
  have "af_at p \<noteq> Finished \<and> running h \<longrightarrow> flow ser de p (ln_down l) h" "af_at h \<noteq> Finished \<and> running p \<longrightarrow> flow ser de h (ln_up l) p"
    using inv assms(4,5) by (simp_all add: link_inv_def)
  then show ?thesis using flow_agrees [of ser de p "ln_down l" h] flow_agrees [of ser de h "ln_up l" p] pr by auto
qed

text \<open>A producer publishes a cursor; the message is queued, and applied to the host's empty table gives the cursor.\<close>

lemma affordance_tables_agree_witness:
  "let ser = (\<lambda>_. Some [1]); de = (\<lambda>_. Some (snapshot_wire (CursorSnapshot ''text'')));
       l = link_run ser de [AtProducer (Publish (CursorSnapshot ''text''))]
   in \<exists>ms. replay False (in_flight (ln_producer l) ms (ln_host l)) Map.empty CursorDomain = Some (CursorSnapshot ''text'')"
proof -
  let ?w = "snapshot_wire (CursorSnapshot ''text'')"
  let ?ser = "\<lambda>_. Some [1 :: u8]" and ?de = "\<lambda>_ :: bytes. Some ?w"
  let ?es = "[AtProducer (Publish (CursorSnapshot ''text''))]"
  let ?l = "link_run ?ser ?de ?es"
  have parse: "parse_snapshot CursorDomain (body (CursorSnapshot ''text'')) = Ok (CursorSnapshot ''text'')"
    using parse_snapshot_back [of "CursorSnapshot ''text''"] by (simp add: CURSORS_def)
  have "json_text ?ser" "list_all (event_exact ?ser ?de) ?es" using parse by (simp_all add: json_text_def exact_def del: body.simps)
  note agree = affordance_tables_agree [OF this refl refl refl]
  have l: "ln_producer ?l = channel_start True\<lparr> af_bytes := 5, af_outgoing := [?w], af_snapshots := [CursorDomain \<mapsto> CursorSnapshot ''text''] \<rparr>"
    "ln_host ?l = channel_start False"
    using parse by (simp_all add: link_run_def link_start_def end_step_def publish_def times_finite_def enqueue_locked_def channel_start_def
        MESSAGE_BYTES_def QUEUE_BYTES_def store_snapshot_def is_withdraw_def Let_def del: body.simps)
  then have "af_at (ln_producer ?l) \<noteq> Finished \<and> running (ln_host ?l)" by (simp add: channel_start_def running_def)
  then obtain ms where "tables_agree ?ser (ln_producer ?l) (ln_down ?l) (ln_host ?l) ms" using agree by blast
  then have "replay False (in_flight (ln_producer ?l) ms (ln_host ?l)) Map.empty CursorDomain = Some (CursorSnapshot ''text'')"
    using l by (simp add: tables_agree_def channel_start_def)
  then show ?thesis unfolding Let_def by blast
qed

end
