(* ===== verification/Native_Track.thy ===== *)
theory Native_Track
  imports Control_Properties Registry
begin

text \<open>
  Tracks of native surfaces (\<open>native.rs\<close>) and the handshake that introduces a consumer to one (\<open>native/attach.rs\<close>).
  Frames are published by reference: a ring entry names a slot of a pool of surfaces, and the producer may stage
  a new frame only into a surface that no live entry names.  The platform, the trait \<open>NativeFrameBackend\<close>, is a record of
  its methods; the control page is that of theory \<open>Control_Page\<close>.
\<close>

section \<open>Parameters and outcomes\<close>

datatype color_space = UnknownSpace | Srgb

record native_stream_params =
  ns_width :: u32
  ns_height :: u32
  ns_pixel_format :: pixel_format
  ns_color_space :: color_space
  ns_modifier :: u64

primrec pixel_format_u32 :: "pixel_format \<Rightarrow> u32" where
  "pixel_format_u32 UnknownFormat = 0"
| "pixel_format_u32 Bgra8Unorm = 1"
| "pixel_format_u32 Rgba8Unorm = 2"

primrec color_space_u32 :: "color_space \<Rightarrow> u32" where
  "color_space_u32 UnknownSpace = 0"
| "color_space_u32 Srgb = 1"

definition NATIVE_TIMELINE :: u32 where "NATIVE_TIMELINE = 3"
definition FULL_FRAME :: u32 where "FULL_FRAME = 1"

datatype exhaustion_policy = DropFrame | FailPublish

datatype publish_outcome = Published u64 | DroppedFrame

record slot_candidate =
  ca_slot_id :: u32
  ca_last_cursor :: u64

datatype slot_claim = ReadySlot u32 | WouldBlock

datatype native_error = Capture capture_error | NativeBackend string | SurfacePoolExhausted u32

section \<open>The platform\<close>

text \<open>The methods of \<open>NativeFrameBackend\<close>; those that take \<open>&mut self\<close> return the state after them.\<close>

record ('b, 'p, 'f, 'c, 's, 'y) native_backend =
  nb_payload_kind :: "'b \<Rightarrow> u32"
  nb_allocate :: "native_stream_params \<Rightarrow> u32 \<Rightarrow> 'b \<Rightarrow> ('p, native_error) outcome \<times> 'b"
  nb_pool_id :: "'b \<Rightarrow> 'p \<Rightarrow> u64"
  nb_claim :: "slot_candidate list \<Rightarrow> 'b \<times> 'p \<Rightarrow> (slot_claim, native_error) outcome \<times> 'b \<times> 'p"
  nb_stage :: "u32 \<Rightarrow> 'c \<Rightarrow> 'b \<times> 'p \<Rightarrow> (unit, native_error) outcome \<times> 'b \<times> 'p"
  nb_slot_hint :: "'b \<Rightarrow> 'c \<Rightarrow> u32 option"
  nb_export_surfaces :: "'b \<Rightarrow> 'p \<Rightarrow> ('s list, native_error) outcome"
  nb_create_fence :: "'b \<Rightarrow> ('f, native_error) outcome \<times> 'b"
  nb_fence_id :: "'b \<Rightarrow> 'f \<Rightarrow> u64"
  nb_signal :: "u64 \<Rightarrow> 'b \<times> 'f \<Rightarrow> (unit, native_error) outcome \<times> 'b \<times> 'f"
  nb_export_sync :: "'b \<Rightarrow> 'f \<Rightarrow> ('y, native_error) outcome"

section \<open>The producer\<close>

record ('b, 'p, 'f) native_track =
  nt_backend :: 'b
  nt_params :: native_stream_params
  nt_page :: control_page
  nt_pool :: 'p
  nt_retired :: "'p list"
  nt_slot_count :: u32
  nt_fence :: 'f
  nt_policy :: exhaustion_policy
  nt_slot_cursors :: "u64 list"
  nt_next_hint :: u32
  nt_last_cursor :: u64
  nt_sequence :: u64
  nt_fence_value :: u64
  nt_pending_dropped :: u32
  nt_drop_count :: u64

definition page_capacity :: "control_page \<Rightarrow> nat" where
  "page_capacity p = pl_slot_capacity (pg_layout p)"

definition from_allocated_parts :: "'b \<Rightarrow> native_stream_params \<Rightarrow> nat \<Rightarrow> u32 \<Rightarrow> 'p \<Rightarrow> 'f \<Rightarrow> exhaustion_policy \<Rightarrow>
    (('b, 'p, 'f) native_track, native_error) outcome" where
  "from_allocated_parts backend params ring_capacity slots pool fence policy =
     and_then (map_err Capture (page_new ring_capacity)) (\<lambda>page.
       if unat slots \<le> page_capacity page then Err (NativeBackend ''create-native-producer'')
       else Ok \<lparr> nt_backend = backend, nt_params = params, nt_page = page, nt_pool = pool, nt_retired = [], nt_slot_count = slots,
         nt_fence = fence, nt_policy = policy, nt_slot_cursors = replicate (unat slots) 0, nt_next_hint = 0, nt_last_cursor = 0,
         nt_sequence = 0, nt_fence_value = 0, nt_pending_dropped = 0, nt_drop_count = 0 \<rparr>)"

definition native_new :: "('b, 'p, 'f, 'c, 's, 'y) native_backend \<Rightarrow> 'b \<Rightarrow> native_stream_params \<Rightarrow> nat \<Rightarrow> u32 \<Rightarrow> exhaustion_policy \<Rightarrow>
    (('b, 'p, 'f) native_track, native_error) outcome" where
  "native_new B b0 params ring_capacity slots policy =
     (case nb_allocate B params slots b0 of
        (Ok pool, b1) \<Rightarrow>
          (case nb_create_fence B b1 of
             (Ok fence, b2) \<Rightarrow> from_allocated_parts b2 params ring_capacity slots pool fence policy
           | (Err e, _) \<Rightarrow> Err e
           | (Panic, _) \<Rightarrow> Panic)
      | (Err e, _) \<Rightarrow> Err e
      | (Panic, _) \<Rightarrow> Panic)"

text \<open>At most the two pools retired last are kept.\<close>

definition keep_last_two :: "'p list \<Rightarrow> 'p list" where
  "keep_last_two ps = drop (length ps - 2) ps"

definition replace_pool :: "native_stream_params \<Rightarrow> u32 \<Rightarrow> 'p \<Rightarrow> ('b, 'p, 'f) native_track \<Rightarrow> (unit, native_error) outcome \<times> ('b, 'p, 'f) native_track" where
  "replace_pool params slots pool t =
     (if unat slots \<le> page_capacity (nt_page t) then (Err (NativeBackend ''reconfigure-native-producer''), t)
      else (Ok (), t\<lparr> nt_pool := pool, nt_retired := keep_last_two (nt_retired t @ [nt_pool t]), nt_params := params,
        nt_slot_count := slots, nt_slot_cursors := replicate (unat slots) 0, nt_next_hint := 0 \<rparr>))"

definition native_reconfigure :: "('b, 'p, 'f, 'c, 's, 'y) native_backend \<Rightarrow> native_stream_params \<Rightarrow> u32 \<Rightarrow> ('b, 'p, 'f) native_track \<Rightarrow>
    (unit, native_error) outcome \<times> ('b, 'p, 'f) native_track" where
  "native_reconfigure B params slots t =
     (case nb_allocate B params slots (nt_backend t) of
        (Ok pool, b) \<Rightarrow> replace_pool params slots pool (t\<lparr> nt_backend := b \<rparr>)
      | (Err e, b) \<Rightarrow> (Err e, t\<lparr> nt_backend := b \<rparr>)
      | (Panic, b) \<Rightarrow> (Panic, t\<lparr> nt_backend := b \<rparr>))"

text \<open>The candidates of \<open>claim_slot\<close>, from the slot after the last published one.  The sum of two \<open>u32\<close> may overflow.\<close>

definition slot_reachable :: "u64 \<Rightarrow> u64 \<Rightarrow> bool" where
  "slot_reachable oldest published_at \<longleftrightarrow> published_at \<noteq> 0 \<and> oldest \<le> published_at"

fun gather_candidates :: "u32 option \<Rightarrow> u64 \<Rightarrow> ('b, 'p, 'f) native_track \<Rightarrow> nat list \<Rightarrow> (slot_candidate list, native_error) outcome" where
  "gather_candidates hint oldest t [] = Ok []"
| "gather_candidates hint oldest t (offset # offsets) =
     (if 2 ^ 32 \<le> unat (nt_next_hint t) + offset then Panic
      else let slot = (unat (nt_next_hint t) + offset) mod unat (nt_slot_count t) in
        if (case hint of None \<Rightarrow> False | Some h \<Rightarrow> h \<noteq> of_nat slot) then gather_candidates hint oldest t offsets
        else if length (nt_slot_cursors t) \<le> slot then Panic
        else let at = nt_slot_cursors t ! slot in
          if slot_reachable oldest at then gather_candidates hint oldest t offsets
          else map_outcome_ok ((#) \<lparr> ca_slot_id = of_nat slot, ca_last_cursor = at \<rparr>) (gather_candidates hint oldest t offsets))"

definition track_oldest_live :: "('b, 'p, 'f) native_track \<Rightarrow> u64" where
  "track_oldest_live t = nt_last_cursor t - min (nt_last_cursor t) (of_nat (page_capacity (nt_page t))) + 1"

definition claim_slot :: "('b, 'p, 'f, 'c, 's, 'y) native_backend \<Rightarrow> 'c \<Rightarrow> ('b, 'p, 'f) native_track \<Rightarrow>
    (u32 option, native_error) outcome \<times> ('b, 'p, 'f) native_track" where
  "claim_slot B frame t =
     (case gather_candidates (nb_slot_hint B (nt_backend t) frame) (track_oldest_live t) t [0..<unat (nt_slot_count t)] of
        Err e \<Rightarrow> (Err e, t)
      | Panic \<Rightarrow> (Panic, t)
      | Ok cs \<Rightarrow>
        (case nb_claim B cs (nt_backend t, nt_pool t) of
           (r, b, p) \<Rightarrow>
             (map_outcome_ok (\<lambda>c. case c of ReadySlot s \<Rightarrow> Some s | WouldBlock \<Rightarrow> None) r, t\<lparr> nt_backend := b, nt_pool := p \<rparr>)))"

text \<open>A frame that finds no surface.  The \<open>debug_assert\<close> on the sequence panics at the largest value.\<close>

definition publish_exhausted :: "('b, 'p, 'f) native_track \<Rightarrow> (publish_outcome, native_error) outcome \<times> ('b, 'p, 'f) native_track" where
  "publish_exhausted t =
     (case nt_policy t of
        DropFrame \<Rightarrow>
          let t1 = t\<lparr> nt_sequence := saturating_add (nt_sequence t) 1 \<rparr> in
          if nt_sequence t1 = - 1 then (Panic, t1)
          else (Ok DroppedFrame, t1\<lparr> nt_pending_dropped := saturating_add (nt_pending_dropped t) 1,
                 nt_drop_count := saturating_add (nt_drop_count t) 1 \<rparr>)
      | FailPublish \<Rightarrow> (Err (SurfacePoolExhausted (nt_slot_count t)), t))"

definition native_entry :: "('b, 'p, 'f, 'c, 's, 'y) native_backend \<Rightarrow> u32 \<Rightarrow> u64 \<Rightarrow> ('b, 'p, 'f) native_track \<Rightarrow> pending_entry" where
  "native_entry B slot timestamp t =
     \<lparr> pe_sequence = nt_sequence t, pe_timestamp_ns = timestamp, pe_width = ns_width (nt_params t), pe_height = ns_height (nt_params t),
       pe_stride = 0, pe_pixel_format = pixel_format_u32 (ns_pixel_format (nt_params t)),
       pe_pool_id = nb_pool_id B (nt_backend t) (nt_pool t), pe_slot_id = slot, pe_payload_offset = 0, pe_payload_len = 0,
       pe_color_space = color_space_u32 (ns_color_space (nt_params t)), pe_sync_kind = NATIVE_TIMELINE, pe_damage_kind = FULL_FRAME,
       pe_damage_base_sequence = nt_sequence t, pe_dropped_before_publish = nt_pending_dropped t,
       pe_producer_drop_count = nt_drop_count t, pe_payload_kind = nb_payload_kind B (nt_backend t),
       pe_modifier = ns_modifier (nt_params t), pe_fence_id = nb_fence_id B (nt_backend t) (nt_fence t),
       pe_fence_value = nt_fence_value t, pe_flags = 0 \<rparr>"

text \<open>Staged, signalled and pushed; \<open>now\<close> is \<open>host_time_ns()\<close>.\<close>

definition push_entry :: "('b, 'p, 'f, 'c, 's, 'y) native_backend \<Rightarrow> u32 \<Rightarrow> u64 \<Rightarrow> ('b, 'p, 'f) native_track \<Rightarrow>
    (publish_outcome, native_error) outcome \<times> ('b, 'p, 'f) native_track" where
  "push_entry B slot timestamp t =
     (case page_push (native_entry B slot timestamp t) (nt_page t) of
        Err e \<Rightarrow> (Err (Capture e), t)
      | Panic \<Rightarrow> (Panic, t)
      | Ok (cursor, page) \<Rightarrow>
        let t1 = t\<lparr> nt_page := page, nt_pending_dropped := 0, nt_last_cursor := cursor \<rparr> in
        if length (nt_slot_cursors t) \<le> unat slot then (Panic, t1)
        else (Ok (Published cursor), t1\<lparr> nt_slot_cursors := (nt_slot_cursors t)[unat slot := cursor],
               nt_next_hint := of_nat ((unat slot + 1) mod unat (nt_slot_count t)) \<rparr>))"

definition publish_staged :: "('b, 'p, 'f, 'c, 's, 'y) native_backend \<Rightarrow> u32 \<Rightarrow> 'c \<Rightarrow> u64 \<Rightarrow> u64 \<Rightarrow> ('b, 'p, 'f) native_track \<Rightarrow>
    (publish_outcome, native_error) outcome \<times> ('b, 'p, 'f) native_track" where
  "publish_staged B slot frame timestamp now t =
     (case nb_stage B slot frame (nt_backend t, nt_pool t) of
        (Err e, b, p) \<Rightarrow> (Err e, t\<lparr> nt_backend := b, nt_pool := p \<rparr>)
      | (Panic, b, p) \<Rightarrow> (Panic, t\<lparr> nt_backend := b, nt_pool := p \<rparr>)
      | (Ok _, b, p) \<Rightarrow>
        let t1 = t\<lparr> nt_backend := b, nt_pool := p, nt_sequence := saturating_add (nt_sequence t) 1 \<rparr> in
        if nt_sequence t1 = - 1 then (Panic, t1)
        else let t2 = t1\<lparr> nt_fence_value := saturating_add (nt_fence_value t) 1 \<rparr> in
          if nt_fence_value t2 = - 1 then (Panic, t2)
          else (case nb_signal B (nt_fence_value t2) (b, nt_fence t) of
             (Err e, b', f) \<Rightarrow> (Err e, t2\<lparr> nt_backend := b', nt_fence := f \<rparr>)
           | (Panic, b', f) \<Rightarrow> (Panic, t2\<lparr> nt_backend := b', nt_fence := f \<rparr>)
           | (Ok _, b', f) \<Rightarrow>
             push_entry B slot (if timestamp = 0 then now else timestamp) (t2\<lparr> nt_backend := b', nt_fence := f \<rparr>)))"

definition native_publish :: "('b, 'p, 'f, 'c, 's, 'y) native_backend \<Rightarrow> 'c \<Rightarrow> u64 \<Rightarrow> u64 \<Rightarrow> ('b, 'p, 'f) native_track \<Rightarrow>
    (publish_outcome, native_error) outcome \<times> ('b, 'p, 'f) native_track" where
  "native_publish B frame timestamp now t =
     (case claim_slot B frame t of
        (Err e, t1) \<Rightarrow> (Err e, t1)
      | (Panic, t1) \<Rightarrow> (Panic, t1)
      | (Ok None, t1) \<Rightarrow> publish_exhausted t1
      | (Ok (Some slot), t1) \<Rightarrow> publish_staged B slot frame timestamp now t1)"

section \<open>Attaching\<close>

text \<open>A grant; the mapping of the ring is the storage of the control page.\<close>

record ('s, 'y) attach_grant =
  ag_consumer_id :: u64
  ag_consumer_slot :: u64
  ag_ring :: segment
  ag_ring_map_len :: u64
  ag_pool_id :: u64
  ag_slot_count :: u32
  ag_surfaces :: "'s list"
  ag_fence_id :: u64
  ag_sync :: 'y

record 's attach_pool =
  ap_pool_id :: u64
  ap_slot_count :: u32
  ap_surfaces :: "'s list"

definition grant_attach :: "('b, 'p, 'f, 'c, 's, 'y) native_backend \<Rightarrow> u64 \<Rightarrow> ('b, 'p, 'f) native_track \<Rightarrow>
    (('s, 'y) attach_grant, native_error) outcome \<times> ('b, 'p, 'f) native_track" where
  "grant_attach B cid t =
     (case register_consumer_cursor cid (nt_page t) of
        Err e \<Rightarrow> (Err (Capture e), t)
      | Panic \<Rightarrow> (Panic, t)
      | Ok (i, page) \<Rightarrow>
        let t1 = t\<lparr> nt_page := page \<rparr> in
        (and_then (nb_export_surfaces B (nt_backend t) (nt_pool t)) (\<lambda>surfaces.
         and_then (nb_export_sync B (nt_backend t) (nt_fence t)) (\<lambda>sync.
           Ok \<lparr> ag_consumer_id = cid, ag_consumer_slot = of_nat i, ag_ring = pg_storage page,
                ag_ring_map_len = of_nat (segment_len (pg_storage page)), ag_pool_id = nb_pool_id B (nt_backend t) (nt_pool t),
                ag_slot_count = nt_slot_count t, ag_surfaces = surfaces, ag_fence_id = nb_fence_id B (nt_backend t) (nt_fence t),
                ag_sync = sync \<rparr>)), t1))"

definition export_pool :: "('b, 'p, 'f, 'c, 's, 'y) native_backend \<Rightarrow> u64 \<Rightarrow> ('b, 'p, 'f) native_track \<Rightarrow> ('s attach_pool, native_error) outcome" where
  "export_pool B pid t =
     (let id = nb_pool_id B (nt_backend t) in
      and_then (ok_or (NativeBackend ''export-native-pool'')
          (if id (nt_pool t) = pid then Some (nt_pool t) else find (\<lambda>p. id p = pid) (nt_retired t))) (\<lambda>pool.
      map_outcome_ok (\<lambda>surfaces. \<lparr> ap_pool_id = pid, ap_slot_count = of_nat (length surfaces), ap_surfaces = surfaces \<rparr>)
        (nb_export_surfaces B (nt_backend t) pool)))"

definition export_current_pool :: "('b, 'p, 'f, 'c, 's, 'y) native_backend \<Rightarrow> ('b, 'p, 'f) native_track \<Rightarrow> ('s attach_pool, native_error) outcome" where
  "export_current_pool B t = export_pool B (nb_pool_id B (nt_backend t) (nt_pool t)) t"

datatype attach_request = Authorize bytes | Attach u64

datatype ('s, 'y) attach_response = Authorized | Granted "('s, 'y) attach_grant"

datatype attach_error = NotAuthorized | InvalidToken | AlreadyAttached | GrantFailed native_error

record attach_session =
  as_authorized :: bool
  as_attached :: bool

definition attach_session_new :: attach_session where
  "attach_session_new = \<lparr> as_authorized = False, as_attached = False \<rparr>"

definition constant_time_token_eq :: "bytes \<Rightarrow> bytes \<Rightarrow> bool" where
  "constant_time_token_eq expected presented =
     (if length expected \<noteq> length presented then False
      else fold (\<lambda>(x, y) acc. acc OR (x XOR y)) (zip expected presented) 0 = (0 :: u8))"

text \<open>\<open>handle\<close>; \<open>next_id\<close> is the counter of assigned consumers.\<close>

definition attach_handle :: "('b, 'p, 'f, 'c, 's, 'y) native_backend \<Rightarrow> bytes option \<Rightarrow> attach_request \<Rightarrow> u64 \<Rightarrow> attach_session \<Rightarrow> ('b, 'p, 'f) native_track \<Rightarrow>
    (('s, 'y) attach_response, attach_error) outcome \<times> u64 \<times> attach_session \<times> ('b, 'p, 'f) native_track" where
  "attach_handle B expected request next_id session t =
     (case request of
        Authorize token \<Rightarrow>
          if (case expected of None \<Rightarrow> True | Some e \<Rightarrow> constant_time_token_eq e token)
          then (Ok Authorized, next_id, session\<lparr> as_authorized := True \<rparr>, t)
          else (Err InvalidToken, next_id, session, t)
      | Attach cid \<Rightarrow>
          if expected \<noteq> None \<and> \<not> as_authorized session then (Err NotAuthorized, next_id, session, t)
          else if as_attached session then (Err AlreadyAttached, next_id, session, t)
          else let (cid', next') = (if cid = 0 then (push_bit 63 1 OR next_id, next_id + 1) else (cid, next_id)) in
            (case grant_attach B cid' t of
               (Ok grant, t1) \<Rightarrow> (Ok (Granted grant), next', session\<lparr> as_attached := True \<rparr>, t1)
             | (Err e, t1) \<Rightarrow> (Err (GrantFailed e), next', session, t1)
             | (Panic, t1) \<Rightarrow> (Panic, next', session, t1)))"

lemma word_Suc_less:
  fixes x :: u64
  assumes "x \<noteq> - 1"
  shows "x < x + 1"
proof -
  have "unat x \<noteq> unat (- 1 :: u64)" using assms by (simp only: word_unat_eq_iff [symmetric] not_False_eq_True)
  moreover have "unat (- 1 :: u64) = 18446744073709551615" by (simp add: unsigned_minus_1_eq_mask mask_eq_exp_minus_1)
  ultimately have "unat x + 1 < 18446744073709551616" using u64_bound [of x] by linarith
  then show ?thesis using unat_plus64 [of x 1] by (simp add: word_less_nat_alt)
qed

section \<open>What a claim promises\<close>

text \<open>The contract of \<open>claim_reusable_slot\<close>: the answer is one of the candidates, and nobody holds that surface.\<close>

locale surface_claims =
  fixes claim_op :: "slot_candidate list \<Rightarrow> 'b \<times> 'p \<Rightarrow> (slot_claim, native_error) outcome \<times> 'b \<times> 'p"
    and pid :: "'p \<Rightarrow> u64"
    and held :: "'b \<Rightarrow> u64 \<Rightarrow> u32 \<Rightarrow> bool"
  assumes claim_answer: "claim_op cs (b, p) = (Ok (ReadySlot s), b', p') \<Longrightarrow> s \<in> ca_slot_id ` set cs \<and> \<not> held b' (pid p) s"
begin

lemma claimed_candidate:
  assumes "claim_op cs (b, p) = (Ok (ReadySlot s), b', p')"
  obtains c where "c \<in> set cs" "s = ca_slot_id c" "\<not> held b' (pid p) s"
  using claim_answer [OF assms] by auto

end

end
