(* ===== verification/Native_Attach.thy ===== *)
theory Native_Attach
  imports Native_Track
begin

text \<open>
  Who is introduced to a native track: the comparison of tokens decides equality, and over a session a grant is given at
  most once, and only after the expected token was presented.
\<close>

section \<open>Comparing tokens\<close>

lemma or_zero_iff: "(x OR y :: u8) = 0 \<longleftrightarrow> x = 0 \<and> y = 0"
  by (rule or_eq_0_iff)

lemma fold_difference:
  "length xs = length ys \<Longrightarrow> fold (\<lambda>(x, y) acc. acc OR (x XOR y)) (zip xs ys) d = (0 :: u8) \<longleftrightarrow> d = 0 \<and> xs = ys"
proof (induction xs ys arbitrary: d rule: list_induct2)
  case (Cons x xs y ys)
  have "(x XOR y) = 0 \<longleftrightarrow> x = y" by (metis xor.assoc xor.left_neutral xor_self_eq)
  then show ?case using Cons.IH [of "d OR (x XOR y)"] by (auto simp: or_zero_iff)
qed simp

lemma constant_time_token_eq_iff: "constant_time_token_eq expected presented \<longleftrightarrow> expected = presented"
  using fold_difference [of expected presented 0] by (auto simp: constant_time_token_eq_def)

section \<open>A session\<close>

text \<open>The requests of one connection, in order, and what each was answered.\<close>

fun attach_run :: "('b, 'p, 'f, 'c, 's, 'y) native_backend \<Rightarrow> bytes option \<Rightarrow> attach_request list \<Rightarrow> u64 \<Rightarrow> attach_session \<Rightarrow>
    ('b, 'p, 'f) native_track \<Rightarrow> (('s, 'y) attach_response, attach_error) outcome list" where
  "attach_run B expected [] next_id session t = []"
| "attach_run B expected (q # qs) next_id session t =
     (case attach_handle B expected q next_id session t of
        (r, next', session', t') \<Rightarrow> r # attach_run B expected qs next' session' t')"

definition grants :: "(('s, 'y) attach_response, attach_error) outcome list \<Rightarrow> nat" where
  "grants rs = length (filter (\<lambda>r. \<exists>g. r = Ok (Granted g)) rs)"

lemma grants_Cons [simp]: "grants (r # rs) = (if \<exists>g. r = Ok (Granted g) then 1 else 0) + grants rs"
  by (simp add: grants_def)

lemma attach_handle_session:
  assumes "attach_handle B expected q next_id s t = (r, next', s', t')"
  shows "as_attached s' = (as_attached s \<or> (\<exists>g. r = Ok (Granted g)))"
    and "\<exists>g. r = Ok (Granted g) \<Longrightarrow> \<not> as_attached s \<and> (expected \<noteq> None \<longrightarrow> as_authorized s)"
    and "as_authorized s' \<Longrightarrow> as_authorized s \<or> expected = None \<or> (\<exists>e. expected = Some e \<and> q = Authorize e)"
  using assms
  by (auto simp: attach_handle_def constant_time_token_eq_iff Let_def split: attach_request.splits option.splits if_splits prod.splits outcome.splits)

theorem attach_granted_once: "grants (attach_run B expected qs next_id s t) \<le> (if as_attached s then 0 else 1)"
proof (induction qs arbitrary: next_id s t)
  case (Cons q qs)
  obtain r next' s' t' where h: "attach_handle B expected q next_id s t = (r, next', s', t')" by (metis surj_pair)
  note l = attach_handle_session(1,2) [OF h]
  show ?case
  proof (cases "\<exists>g. r = Ok (Granted g)")
    case True
    then have "as_attached s'" "\<not> as_attached s" using l by simp_all
    then show ?thesis using Cons.IH [of next' s' t'] True h by simp
  next
    case False
    then have "as_attached s' = as_attached s" using l(1) by simp
    then show ?thesis using Cons.IH [of next' s' t'] False h by simp
  qed
qed (simp add: grants_def)

text \<open>No grant without the token: requests that never present it are never answered with a grant.\<close>

theorem attach_requires_token:
  "Authorize e \<notin> set qs \<Longrightarrow> \<not> as_authorized s \<Longrightarrow> grants (attach_run B (Some e) qs next_id s t) = 0"
proof (induction qs arbitrary: next_id s t)
  case (Cons q qs)
  obtain r next' s' t' where h: "attach_handle B (Some e) q next_id s t = (r, next', s', t')" by (metis surj_pair)
  note l = attach_handle_session(2,3) [OF h]
  have "\<not> as_authorized s'" using l(2) Cons.prems by auto
  moreover have "\<not> (\<exists>g. r = Ok (Granted g))" using l(1) Cons.prems(2) by blast
  ultimately show ?case using Cons.IH [of s' next' t'] Cons.prems(1) h by simp
qed (simp add: grants_def)

end
