(* ===== verification/Native_Lease.thy ===== *)
theory Native_Lease
  imports Native_Track "HOL-Library.Finite_Map"
begin

text \<open>
  The book of native leases (\<open>native/lease.rs\<close>) and the reuse policy of the Linux backend that rests on it
  (\<open>native/linux/synthetic.rs\<close>): a surface is offered again only when every lease on it has been released, at once
  or by its timeline.
\<close>

section \<open>The book\<close>

record lease_identity =
  li_cursor :: u64
  li_sequence :: u64
  li_pool_id :: u64
  li_slot_id :: u32

datatype native_lease_release = ReleaseNow | TimelineValue u64 u64

record released_lease =
  rl_lease_id :: u64
  rl_identity :: lease_identity

datatype lease_error = UnknownLease u64 | AlreadyReleased u64 | UnknownReleaseSync u64 | LeaseIdsExhausted | ReleaseSyncIdsExhausted

datatype lease_state = Outstanding | ReleasePending u64 u64

record lease_entry =
  le_identity :: lease_identity
  le_state :: lease_state

record lease_book =
  lb_next_lease_id :: u64
  lb_next_sync_id :: u64
  lb_leases :: "(u64, lease_entry) fmap"
  lb_syncs :: "u64 fset"

definition book_new :: lease_book where
  "book_new = \<lparr> lb_next_lease_id = 1, lb_next_sync_id = 1, lb_leases = fmempty, lb_syncs = {||} \<rparr>"

definition lease_acquire :: "lease_identity \<Rightarrow> lease_book \<Rightarrow> (u64, lease_error) outcome \<times> lease_book" where
  "lease_acquire identity b =
     (if lb_next_lease_id b = - 1 then (Err LeaseIdsExhausted, b)
      else let lid = lb_next_lease_id b in
        (Ok lid, b\<lparr> lb_next_lease_id := lid + 1, lb_leases := fmupd lid \<lparr> le_identity = identity, le_state = Outstanding \<rparr> (lb_leases b) \<rparr>))"

definition register_release_sync :: "lease_book \<Rightarrow> (u64, lease_error) outcome \<times> lease_book" where
  "register_release_sync b =
     (if lb_next_sync_id b = - 1 then (Err ReleaseSyncIdsExhausted, b)
      else let lid = lb_next_sync_id b in (Ok lid, b\<lparr> lb_next_sync_id := lid + 1, lb_syncs := finsert lid (lb_syncs b) \<rparr>))"

definition register_release_sync_id :: "u64 \<Rightarrow> lease_book \<Rightarrow> (unit, lease_error) outcome \<times> lease_book" where
  "register_release_sync_id lid b =
     (if lid = - 1 then (Err ReleaseSyncIdsExhausted, b)
      else (Ok (), b\<lparr> lb_next_sync_id := max (lb_next_sync_id b) (lid + 1), lb_syncs := finsert lid (lb_syncs b) \<rparr>))"

definition lease_release :: "u64 \<Rightarrow> native_lease_release \<Rightarrow> lease_book \<Rightarrow> (released_lease, lease_error) outcome \<times> lease_book" where
  "lease_release lid release b =
     (case fmlookup (lb_leases b) lid of
        None \<Rightarrow> (Err (UnknownLease lid), b)
      | Some entry \<Rightarrow>
        if le_state entry \<noteq> Outstanding then (Err (AlreadyReleased lid), b)
        else let done = \<lparr> rl_lease_id = lid, rl_identity = le_identity entry \<rparr> in
          (case release of
             ReleaseNow \<Rightarrow> (Ok done, b\<lparr> lb_leases := fmdrop lid (lb_leases b) \<rparr>)
           | TimelineValue sync v \<Rightarrow>
             if sync |\<notin>| lb_syncs b then (Err (UnknownReleaseSync sync), b)
             else (Ok done, b\<lparr> lb_leases := fmupd lid (entry\<lparr> le_state := ReleasePending sync v \<rparr>) (lb_leases b) \<rparr>)))"

definition sync_completes :: "u64 \<Rightarrow> u64 \<Rightarrow> lease_entry \<Rightarrow> bool" where
  "sync_completes sync reached entry =
     (case le_state entry of Outstanding \<Rightarrow> False | ReleasePending s v \<Rightarrow> s = sync \<and> v \<le> reached)"

text \<open>The leases that a timeline has released; the order in which the hash map gives them is not fixed.\<close>

definition complete_release_sync :: "u64 \<Rightarrow> u64 \<Rightarrow> lease_book \<Rightarrow> (released_lease fset, lease_error) outcome \<times> lease_book" where
  "complete_release_sync sync reached b =
     (if sync |\<notin>| lb_syncs b then (Err (UnknownReleaseSync sync), b)
      else let completes = (\<lambda>lid. case fmlookup (lb_leases b) lid of None \<Rightarrow> False | Some e \<Rightarrow> sync_completes sync reached e) in
        (Ok ((\<lambda>lid. \<lparr> rl_lease_id = lid, rl_identity = le_identity (the (fmlookup (lb_leases b) lid)) \<rparr>) |`| ffilter completes (fmdom (lb_leases b))),
         b\<lparr> lb_leases := fmfilter (\<lambda>lid. \<not> completes lid) (lb_leases b) \<rparr>))"

definition slot_has_unresolved_leases :: "u64 \<Rightarrow> u32 \<Rightarrow> lease_book \<Rightarrow> bool" where
  "slot_has_unresolved_leases pool slot b =
     fBex (fmran (lb_leases b)) (\<lambda>e. li_pool_id (le_identity e) = pool \<and> li_slot_id (le_identity e) = slot)"

definition outstanding_count :: "lease_book \<Rightarrow> nat" where
  "outstanding_count b = fcard (fmdom (lb_leases b))"

section \<open>Reuse on Linux\<close>

text \<open>A pool, and its flags of surfaces that are not to be offered.\<close>

record linux_pool =
  lp_pool_id :: u64
  lp_blocked :: "bool list"

definition set_reuse_blocked :: "u32 \<Rightarrow> bool \<Rightarrow> linux_pool \<Rightarrow> (unit, native_error) outcome \<times> linux_pool" where
  "set_reuse_blocked slot blocked p =
     (if length (lp_blocked p) \<le> unat slot then (Err (NativeBackend ''linux-synthetic-set-reuse-blocked''), p)
      else (Ok (), p\<lparr> lp_blocked := (lp_blocked p)[unat slot := blocked] \<rparr>))"

fun pool_claim :: "slot_candidate list \<Rightarrow> linux_pool \<Rightarrow> (slot_claim, native_error) outcome" where
  "pool_claim [] p = Ok WouldBlock"
| "pool_claim (c # cs) p =
     (if length (lp_blocked p) \<le> unat (ca_slot_id c) then Panic
      else if \<not> lp_blocked p ! unat (ca_slot_id c) then Ok (ReadySlot (ca_slot_id c)) else pool_claim cs p)"

text \<open>\<open>refresh_release_syncs\<close>: the registered timelines in the order the hash map gives them, with what the query of each
  answers, \<open>None\<close> when it fails.\<close>

fun refresh_release_syncs :: "(u64 \<times> u64 option) list \<Rightarrow> lease_book \<Rightarrow> (unit, native_error) outcome \<times> lease_book" where
  "refresh_release_syncs [] b = (Ok (), b)"
| "refresh_release_syncs ((sync, q) # qs) b =
     (case q of
        None \<Rightarrow> (Err (NativeBackend ''linux-drm-syncobj-query''), b)
      | Some reached \<Rightarrow>
        (case complete_release_sync sync reached b of
           (Ok _, b1) \<Rightarrow> refresh_release_syncs qs b1
         | (Err e, b1) \<Rightarrow> (Err (NativeBackend ''native-lease''), b1)
         | (Panic, b1) \<Rightarrow> (Panic, b1)))"

fun block_leased :: "slot_candidate list \<Rightarrow> lease_book \<Rightarrow> linux_pool \<Rightarrow> (unit, native_error) outcome \<times> linux_pool" where
  "block_leased [] b p = (Ok (), p)"
| "block_leased (c # cs) b p =
     (case set_reuse_blocked (ca_slot_id c) (slot_has_unresolved_leases (lp_pool_id p) (ca_slot_id c) b) p of
        (Ok _, p1) \<Rightarrow> block_leased cs b p1
      | (r, p1) \<Rightarrow> (r, p1))"

definition linux_claim :: "(u64 \<times> u64 option) list \<Rightarrow> slot_candidate list \<Rightarrow> lease_book \<times> linux_pool \<Rightarrow>
    (slot_claim, native_error) outcome \<times> lease_book \<times> linux_pool" where
  "linux_claim queries cs s =
     (case refresh_release_syncs queries (fst s) of
        (Ok _, b) \<Rightarrow>
          (case block_leased cs b (snd s) of
             (Ok _, p) \<Rightarrow> (pool_claim cs p, b, p)
           | (Err e, p) \<Rightarrow> (Err e, b, p)
           | (Panic, p) \<Rightarrow> (Panic, b, p))
      | (Err e, b) \<Rightarrow> (Err e, b, snd s)
      | (Panic, b) \<Rightarrow> (Panic, b, snd s))"

section \<open>The book over time\<close>

definition lease_on :: "lease_book \<Rightarrow> u64 \<Rightarrow> u64 \<Rightarrow> u32 \<Rightarrow> bool" where
  "lease_on b lid pool slot \<longleftrightarrow>
     (\<exists>e. fmlookup (lb_leases b) lid = Some e \<and> li_pool_id (le_identity e) = pool \<and> li_slot_id (le_identity e) = slot)"

lemma unresolved_iff: "slot_has_unresolved_leases pool slot b \<longleftrightarrow> (\<exists>lid. lease_on b lid pool slot)"
  unfolding slot_has_unresolved_leases_def lease_on_def by (metis fmlookup_ran_iff)

datatype book_call = Acquire lease_identity | RegisterSync | RegisterSyncId u64 | Release u64 native_lease_release | Complete u64 u64

primrec book_step :: "book_call \<Rightarrow> lease_book \<Rightarrow> lease_book" where
  "book_step (Acquire i) b = snd (lease_acquire i b)"
| "book_step RegisterSync b = snd (register_release_sync b)"
| "book_step (RegisterSyncId i) b = snd (register_release_sync_id i b)"
| "book_step (Release i r) b = snd (lease_release i r b)"
| "book_step (Complete s v) b = snd (complete_release_sync s v b)"

definition book_ok :: "lease_book \<Rightarrow> bool" where
  "book_ok b \<longleftrightarrow> (\<forall>lid \<in> fset (fmdom (lb_leases b)). lid < lb_next_lease_id b) \<and> lb_next_lease_id b \<noteq> 0"

text \<open>What ends a lease.\<close>

definition resolves :: "book_call \<Rightarrow> u64 \<Rightarrow> lease_entry \<Rightarrow> bool" where
  "resolves call lid e =
     (case call of
        Release i ReleaseNow \<Rightarrow> i = lid \<and> le_state e = Outstanding
      | Complete s v \<Rightarrow> sync_completes s v e
      | _ \<Rightarrow> False)"

lemma acquire_ok:
  assumes "book_ok b" "lb_next_lease_id b \<noteq> - 1"
  shows "book_ok (snd (lease_acquire i b))" "lb_next_lease_id b |\<notin>| fmdom (lb_leases b)"
proof -
  have s: "lb_next_lease_id b < lb_next_lease_id b + 1" using word_Suc_less [OF assms(2)] .
  then have "lb_next_lease_id b + 1 \<noteq> 0" by auto
  then show "book_ok (snd (lease_acquire i b))" using assms s by (auto simp: book_ok_def lease_acquire_def Let_def)
  show "lb_next_lease_id b |\<notin>| fmdom (lb_leases b)" using assms(1) by (auto simp: book_ok_def)
qed

lemma book_step_ok: "book_ok b \<Longrightarrow> book_ok (book_step call b)"
proof (cases call)
  case (Acquire i)
  assume "book_ok b"
  then show ?thesis using acquire_ok(1) [of b i] Acquire by (cases "lb_next_lease_id b = - 1") (auto simp: lease_acquire_def)
next
  case (Release i r)
  assume "book_ok b"
  then show ?thesis using Release
    by (auto simp: lease_release_def Let_def book_ok_def fmlookup_dom_iff split: option.splits native_lease_release.splits if_splits)
qed (auto simp: book_ok_def register_release_sync_def register_release_sync_id_def complete_release_sync_def Let_def)

text \<open>A lease stays, with its identity, until a call resolves it.\<close>

lemma book_step_keeps:
  assumes "book_ok b" "fmlookup (lb_leases b) l = Some e" "\<not> resolves call l e"
  shows "\<exists>e'. fmlookup (lb_leases (book_step call b)) l = Some e' \<and> le_identity e' = le_identity e"
proof (cases call)
  case (Acquire i)
  have "l \<noteq> lb_next_lease_id b" using assms(1,2) by (auto simp: book_ok_def fmlookup_dom_iff)
  then show ?thesis using assms(2) Acquire by (auto simp: lease_acquire_def Let_def)
next
  case (Release i r)
  then show ?thesis using assms(2,3)
    by (auto simp: lease_release_def Let_def resolves_def split: option.splits native_lease_release.splits)
next
  case (Complete s v)
  then show ?thesis using assms(2,3) by (auto simp: complete_release_sync_def Let_def resolves_def)
qed (use assms(2) in \<open>auto simp: register_release_sync_def register_release_sync_id_def Let_def\<close>)

lemma lease_kept:
  assumes "book_ok b" "fmlookup (lb_leases b) l = Some e"
  shows "(\<exists>e'. fmlookup (lb_leases (fold book_step calls b)) l = Some e' \<and> le_identity e' = le_identity e) \<or>
    (\<exists>before call after e'. calls = before @ call # after \<and> fmlookup (lb_leases (fold book_step before b)) l = Some e' \<and>
       le_identity e' = le_identity e \<and> resolves call l e')"
  using assms
proof (induction calls arbitrary: b e)
  case (Cons call calls)
  show ?case
  proof (cases "resolves call l e")
    case True
    then show ?thesis using Cons.prems(2) by (intro disjI2 exI [of _ "[]"] exI [of _ call] exI [of _ calls] exI [of _ e]) simp
  next
    case False
    obtain e1 where e1: "fmlookup (lb_leases (book_step call b)) l = Some e1" "le_identity e1 = le_identity e"
      using book_step_keeps [OF Cons.prems False] by blast
    show ?thesis using Cons.IH [OF book_step_ok [OF Cons.prems(1)] e1(1)]
    proof (elim disjE exE conjE)
      fix before c after e'
      assume "calls = before @ c # after" "fmlookup (lb_leases (fold book_step before (book_step call b))) l = Some e'"
        "le_identity e' = le_identity e1" "resolves c l e'"
      then show ?thesis using e1(2)
        by (intro disjI2 exI [of _ "call # before"] exI [of _ c] exI [of _ after] exI [of _ e']) simp
    qed (use e1(2) in auto)
  qed
qed simp

section \<open>The claim\<close>

lemma pool_claim_Ready: "pool_claim cs p = Ok (ReadySlot s) \<Longrightarrow> s \<in> ca_slot_id ` set cs \<and> \<not> lp_blocked p ! unat s"
  by (induction cs) (auto split: if_splits)

lemma block_leased_same: "block_leased cs b p = (r, p') \<Longrightarrow> lp_pool_id p' = lp_pool_id p"
  by (induction cs arbitrary: p) (auto simp: set_reuse_blocked_def split: if_splits)

lemma block_leased_keeps:
  assumes "block_leased cs b p = (Ok (), p')" "unat s < length (lp_blocked p)"
    "lp_blocked p ! unat s = slot_has_unresolved_leases (lp_pool_id p) s b \<or> s \<in> ca_slot_id ` set cs"
  shows "lp_blocked p' ! unat s = slot_has_unresolved_leases (lp_pool_id p) s b"
  using assms
proof (induction cs arbitrary: p)
  case (Cons c cs)
  let ?p = "p\<lparr> lp_blocked := (lp_blocked p)[unat (ca_slot_id c) := slot_has_unresolved_leases (lp_pool_id p) (ca_slot_id c) b] \<rparr>"
  have c: "block_leased cs b ?p = (Ok (), p')" "unat (ca_slot_id c) < length (lp_blocked p)"
    using Cons.prems(1) by (auto simp: set_reuse_blocked_def split: if_splits)
  have "lp_blocked ?p ! unat s = slot_has_unresolved_leases (lp_pool_id p) s b \<or> s \<in> ca_slot_id ` set cs"
  proof (cases "s = ca_slot_id c")
    case False
    then have "unat (ca_slot_id c) \<noteq> unat s" by (simp flip: word_unat_eq_iff)
    then show ?thesis using Cons.prems(3) False by auto
  qed (use c(2) in simp)
  then show ?case using Cons.IH [OF c(1)] Cons.prems(2) by simp
qed simp

lemma block_leased_len:
  assumes "block_leased cs b p = (Ok (), p')" "c \<in> set cs"
  shows "unat (ca_slot_id c) < length (lp_blocked p)"
  using assms
proof (induction cs arbitrary: p)
  case (Cons d cs)
  then have d: "unat (ca_slot_id d) < length (lp_blocked p)" by (auto simp: set_reuse_blocked_def split: if_splits)
  let ?p = "p\<lparr> lp_blocked := (lp_blocked p)[unat (ca_slot_id d) := slot_has_unresolved_leases (lp_pool_id p) (ca_slot_id d) b] \<rparr>"
  have "block_leased cs b ?p = (Ok (), p')" using Cons.prems(1) d by (simp add: set_reuse_blocked_def)
  then show ?case using Cons.IH [of ?p] Cons.prems(2) d by auto
qed simp

lemma linux_claim_Ready:
  assumes "linux_claim queries cs (b, p) = (Ok (ReadySlot s), b', p')"
  shows "s \<in> ca_slot_id ` set cs \<and> \<not> slot_has_unresolved_leases (lp_pool_id p) s b' \<and> lp_pool_id p' = lp_pool_id p"
proof -
  have bl: "block_leased cs b' p = (Ok (), p')" and pc: "pool_claim cs p' = Ok (ReadySlot s)"
    using assms by (auto simp: linux_claim_def split: prod.splits outcome.splits)
  have s: "s \<in> ca_slot_id ` set cs" "\<not> lp_blocked p' ! unat s" using pool_claim_Ready [OF pc] by simp_all
  have len: "unat (ca_slot_id c) < length (lp_blocked p)" if "c \<in> set cs" for c
    using block_leased_len [OF bl that] .
  then have "unat s < length (lp_blocked p)" using s(1) by auto
  then have "lp_blocked p' ! unat s = slot_has_unresolved_leases (lp_pool_id p) s b'" using block_leased_keeps [OF bl] s(1) by blast
  then show ?thesis using s block_leased_same [OF bl] by simp
qed

interpretation linux: surface_claims "linux_claim queries" lp_pool_id "\<lambda>b pool slot. slot_has_unresolved_leases pool slot b" for queries
  by unfold_locales (use linux_claim_Ready in blast)

section \<open>Properties\<close>

text \<open>A surface with a lease on it is not staged again: when the Linux backend answers a claim with a surface, every lease
  on it that some earlier state of the book held has been resolved since, by a release at once or by its timeline
  reaching the value it was released with.\<close>

theorem leased_surface_not_offered:
  assumes "book_ok b0" "fmlookup (lb_leases b0) l = Some e" "b = fold book_step calls b0"
    and "linux_claim queries cs (b, p) = (Ok (ReadySlot s), b', p')"
    and "li_pool_id (le_identity e) = lp_pool_id p" "li_slot_id (le_identity e) = s"
  shows "\<exists>before call after e'. calls @ map (\<lambda>(sync, q). Complete sync (the q)) queries = before @ call # after \<and>
    fmlookup (lb_leases (fold book_step before b0)) l = Some e' \<and> le_identity e' = le_identity e \<and> resolves call l e'"
proof -
  have refresh: "refresh_release_syncs qs x = (Ok (), y) \<Longrightarrow> y = fold book_step (map (\<lambda>(sync, q). Complete sync (the q)) qs) x" for qs x y
    by (induction qs arbitrary: x) (auto split: option.splits prod.splits outcome.splits)
  have "refresh_release_syncs queries b = (Ok (), b')" using assms(4) by (auto simp: linux_claim_def split: prod.splits outcome.splits)
  then have b': "b' = fold book_step (calls @ map (\<lambda>(sync, q). Complete sync (the q)) queries) b0" using refresh assms(3) by simp
  have "\<not> slot_has_unresolved_leases (lp_pool_id p) s b'" using assms(4) by (rule linux.claimed_candidate)
  then have none: "\<nexists>e'. fmlookup (lb_leases b') l = Some e' \<and> le_identity e' = le_identity e"
    using assms(5,6) unfolding unresolved_iff lease_on_def by metis
  show ?thesis using lease_kept [OF assms(1,2), of "calls @ map (\<lambda>(sync, q). Complete sync (the q)) queries"] none b' by blast
qed

end
