(* ===== verification/Native_Frames.thy ===== *)
theory Native_Frames
  imports Native_Track
begin

text \<open>
  Surfaces are reused only when nobody can still name them.  The laws of a platform are the locale \<open>native_frames\<close>:
  \<open>surface\<close> is what a surface holds, \<open>held\<close> that a consumer holds it, \<open>pid\<close> the identity of a pool; a claim answers with
  one of its candidates, which nobody holds; staging writes one surface; pool identities are never used twice.
\<close>

section \<open>Runs\<close>

text \<open>Runs of a producer, with the frames published so far, oldest first; \<open>env\<close> is what consumers may do to the platform
  between two calls.\<close>

inductive native_reachable :: "('b, 'p, 'f, 'c, 's, 'y) native_backend \<Rightarrow> ('b \<Rightarrow> 'b \<Rightarrow> bool) \<Rightarrow> 'b \<Rightarrow> ('b, 'p, 'f) native_track \<Rightarrow> 'c list \<Rightarrow> bool"
  for B env b0 where
  start: "native_new B b0 params ring_capacity slots policy = Ok t \<Longrightarrow> native_reachable B env b0 t []"
| publish: "native_reachable B env b0 t h \<Longrightarrow> native_publish B c timestamp now t = (r, t') \<Longrightarrow> r \<noteq> Panic \<Longrightarrow>
    native_reachable B env b0 t' (case r of Ok (Published _) \<Rightarrow> h @ [c] | _ \<Rightarrow> h)"
| reconfigure: "native_reachable B env b0 t h \<Longrightarrow> native_reconfigure B params slots t = (r, t') \<Longrightarrow> r \<noteq> Panic \<Longrightarrow>
    native_reachable B env b0 t' h"
| attach: "native_reachable B env b0 t h \<Longrightarrow> grant_attach B cid t = (r, t') \<Longrightarrow> r \<noteq> Panic \<Longrightarrow> native_reachable B env b0 t' h"
| consumers: "native_reachable B env b0 t h \<Longrightarrow> env (nt_backend t) b' \<Longrightarrow> native_reachable B env b0 (t\<lparr> nt_backend := b' \<rparr>) h"

section \<open>Candidates\<close>

lemma gather_candidates_Ok:
  assumes "gather_candidates hint oldest t offsets = Ok cs" "c \<in> set cs" "length (nt_slot_cursors t) = unat (nt_slot_count t)"
  shows "\<exists>slot. ca_slot_id c = of_nat slot \<and> slot < length (nt_slot_cursors t) \<and> \<not> slot_reachable oldest (nt_slot_cursors t ! slot)"
  using assms
proof (induction offsets arbitrary: cs)
  case (Cons offset offsets)
  let ?slot = "(unat (nt_next_hint t) + offset) mod unat (nt_slot_count t)"
  show ?case
  proof (cases "gather_candidates hint oldest t offsets = Ok cs")
    case True
    then show ?thesis using Cons by blast
  next
    case False
    then have ok: "?slot < length (nt_slot_cursors t)" "\<not> slot_reachable oldest (nt_slot_cursors t ! ?slot)"
      "map_outcome_ok ((#) \<lparr> ca_slot_id = of_nat ?slot, ca_last_cursor = nt_slot_cursors t ! ?slot \<rparr>) (gather_candidates hint oldest t offsets) = Ok cs"
      using Cons.prems(1) by (simp_all add: Let_def split: if_splits)
    then obtain ds where "gather_candidates hint oldest t offsets = Ok ds" "cs = \<lparr> ca_slot_id = of_nat ?slot, ca_last_cursor = nt_slot_cursors t ! ?slot \<rparr> # ds"
      by (cases "gather_candidates hint oldest t offsets") auto
    then show ?thesis using Cons.IH [of ds] Cons.prems(2,3) ok(1,2) by auto
  qed
qed simp

lemma u32_of_nat: "unat (of_nat n :: u32) = n" if "n < unat (m :: u32)"
  using that u32_bound [of m] by (simp add: unat_of_nat)

text \<open>A consumer's registration does not touch the ring.\<close>

lemma ring_rel_consumer:
  assumes "ring_rel a p" "i < cap_of p" "length bs = 128"
  shows "ring_rel a (write_cell (ConsumerCell i) bs p)"
proof -
  have ok: "cell_ok p (ConsumerCell i)" using assms(1,2) by (simp add: ring_rel_def cell_ok_def)
  have wf: "page_wf (write_cell (ConsumerCell i) bs p)" using write_cell_wf [of p "ConsumerCell i" bs] assms by (simp add: ring_rel_def)
  have r: "read_cell (write_cell (ConsumerCell i) bs p) c = read_cell p c" if "cell_in (cap_of p) c" "\<forall>j. c \<noteq> ConsumerCell j" for c
    using read_write_cell [OF ok, of c bs] that assms(1,3) by (simp add: cell_ok_def ring_rel_def)
  have pos: "0 < cap_of p" using assms(2) by simp
  have "frame_in (write_cell (ConsumerCell i) bs p) j f = frame_in p j f" for j f
    using pos by (simp add: frame_in_def word_at_def r)
  moreover have "config_in (write_cell (ConsumerCell i) bs p) g c = config_in p g c" for g c
    by (simp add: config_in_def word_at_def r)
  ultimately show ?thesis using assms(1) wf by (simp add: ring_rel_def word_at_def r)
qed

lemma producer_rel_register:
  assumes "producer_rel a p" "register_consumer_cursor cid p = Ok (i, p')"
  shows "producer_rel a p' \<and> pg_layout p' = pg_layout p"
proof -
  have wf: "page_wf p" "sg_writable (pg_storage p)" using assms(1) by (simp_all add: producer_rel_def ring_rel_def)
  let ?find = "\<lambda>x. find (\<lambda>i. consumer_id_at p i = x) [0..<cap_of p]"
  let ?e = "consumer_entry_default\<lparr> ce_consumer_id := cid \<rparr>"
  have nz: "cid \<noteq> 0" using assms(2) by (auto simp: register_consumer_cursor_def)
  have r: "register_consumer_cursor cid p = (case ?find cid of Some i \<Rightarrow> Ok (i, p) | None \<Rightarrow>
      (case ?find 0 of None \<Rightarrow> Err (invalid_control_page ''consumer cursor table is full'')
       | Some i \<Rightarrow> map_outcome_ok (\<lambda>p'. (i, p')) (write_consumer_entry i ?e p)))"
    using nz wf by (cases "?find cid"; cases "?find 0") (simp_all add: register_consumer_cursor_def consumer_capacity find_consumer_eq Let_def)
  have w: "(write_consumer_entry j ?e p :: (control_page, capture_error) outcome) = Ok (write_cell (ConsumerCell j) (consumer_bytes ?e) p)" if "j < cap_of p" for j
    using wf that by (simp add: stores)
  consider "p' = p" | e where "i < cap_of p" "p' = write_cell (ConsumerCell i) (consumer_bytes e) p"
  proof (cases "?find cid")
    case (Some j)
    then have "p' = p" using assms(2) r by simp
    then show ?thesis by (rule that(1))
  next
    case None
    then obtain j where j: "?find 0 = Some j" using assms(2) r by (cases "?find 0") auto
    then have "j < cap_of p" using find_range_Some by blast
    moreover from this have "i = j" "p' = write_cell (ConsumerCell j) (consumer_bytes ?e) p" using assms(2) r None j w by auto
    ultimately show ?thesis using that(2) [of ?e] by blast
  qed
  then show ?thesis
  proof cases
    case 2
    then have "ring_rel a p'" using assms(1) by (auto simp: producer_rel_def intro: ring_rel_consumer)
    then show ?thesis using assms(1) 2 by (simp add: producer_rel_def)
  qed (use assms(1) in simp)
qed

section \<open>The laws of a platform\<close>

locale native_frames = surface_claims "nb_claim B" pid held
  for B :: "('b, 'p, 'f, 'c, 's, 'y) native_backend"
    and pid :: "'p \<Rightarrow> u64"
    and held :: "'b \<Rightarrow> u64 \<Rightarrow> u32 \<Rightarrow> bool" +
  fixes surface :: "'b \<Rightarrow> u64 \<Rightarrow> u32 \<Rightarrow> 'x option"
    and content :: "'c \<Rightarrow> 'x"
    and fence_at :: "'b \<Rightarrow> 'f \<Rightarrow> u64"
    and ids :: "'b \<Rightarrow> u64 set"
    and wf :: "'b \<Rightarrow> bool"
    and env :: "'b \<Rightarrow> 'b \<Rightarrow> bool"
  assumes pool_id: "nb_pool_id B b p = pid p"
    and claim: "wf b \<Longrightarrow> nb_claim B cs (b, p) = (r, b', p') \<Longrightarrow>
      wf b' \<and> ids b' = ids b \<and> surface b' = surface b \<and> fence_at b' = fence_at b \<and> pid p' = pid p"
    and stage: "wf b \<Longrightarrow> pid p \<in> ids b \<Longrightarrow> nb_stage B s c (b, p) = (u, b', p') \<Longrightarrow>
      wf b' \<and> ids b' = ids b \<and> fence_at b' = fence_at b \<and> held b' = held b \<and> pid p' = pid p \<and>
      (\<forall>q t. (q, t) \<noteq> (pid p, s) \<longrightarrow> surface b' q t = surface b q t) \<and> (u = Ok () \<longrightarrow> surface b' (pid p) s = Some (content c))"
    and allocate: "wf b \<Longrightarrow> nb_allocate B params n b = (al, b') \<Longrightarrow>
      wf b' \<and> fence_at b' = fence_at b \<and> (\<forall>q \<in> ids b. surface b' q = surface b q \<and> held b' q = held b q) \<and>
      (case al of Ok p \<Rightarrow> pid p \<notin> ids b \<and> ids b' = insert (pid p) (ids b) | _ \<Rightarrow> ids b' = ids b)"
    and create_fence: "wf b \<Longrightarrow> nb_create_fence B b = (fc, b') \<Longrightarrow>
      wf b' \<and> ids b' = ids b \<and> surface b' = surface b \<and> held b' = held b \<and> (\<forall>f. fc = Ok f \<longrightarrow> fence_at b' f = 0)"
    and signal: "wf b \<Longrightarrow> fence_at b f < v \<Longrightarrow> nb_signal B v (b, f) = (u, b', f') \<Longrightarrow>
      wf b' \<and> ids b' = ids b \<and> surface b' = surface b \<and> held b' = held b \<and> fence_at b f \<le> fence_at b' f' \<and> fence_at b' f' \<le> v \<and>
      (u = Ok () \<longrightarrow> fence_at b' f' = v)"
    and env: "wf b \<Longrightarrow> env b b' \<Longrightarrow> wf b' \<and> ids b' = ids b \<and> surface b' = surface b \<and> fence_at b' = fence_at b"
begin

text \<open>What the ring's live entries say of the surfaces: each names a surface that holds its frame, and one of the current
  pool is remembered as published at the entry's cursor.\<close>

definition live_ok :: "ring_spec \<Rightarrow> 'c list \<Rightarrow> ('b, 'p, 'f) native_track \<Rightarrow> nat \<Rightarrow> bool" where
  "live_ok a h t j \<longleftrightarrow>
     (let e = fst (rs_frames a ! j) in
      pe_pool_id e \<in> ids (nt_backend t) \<and> surface (nt_backend t) (pe_pool_id e) (pe_slot_id e) = Some (content (h ! j)) \<and>
      (pe_pool_id e = pid (nt_pool t) \<longrightarrow>
         unat (pe_slot_id e) < length (nt_slot_cursors t) \<and> nt_slot_cursors t ! unat (pe_slot_id e) = of_nat (j + 1)))"

definition ring_ok :: "ring_spec \<Rightarrow> 'c list \<Rightarrow> ('b, 'p, 'f) native_track \<Rightarrow> bool" where
  "ring_ok a h t \<longleftrightarrow> producer_rel a (nt_page t) \<and> length (rs_frames a) = length h \<and> length (rs_configs a) \<le> length h \<and>
     nt_last_cursor t = of_nat (length h) \<and> (\<forall>j < length h. length h \<le> j + cap_of (nt_page t) \<longrightarrow> live_ok a h t j) \<and>
     (\<forall>(e, g) \<in> set (rs_frames a). pe_fence_value e \<le> fence_at (nt_backend t) (nt_fence t))"

definition track_ok :: "('b, 'p, 'f) native_track \<Rightarrow> bool" where
  "track_ok t \<longleftrightarrow> wf (nt_backend t) \<and> pid (nt_pool t) \<in> ids (nt_backend t) \<and>
     length (nt_slot_cursors t) = unat (nt_slot_count t) \<and> fence_at (nt_backend t) (nt_fence t) \<le> nt_fence_value t"

lemma capacity: "page_capacity (nt_page t) = cap_of (nt_page t)"
  by (simp add: page_capacity_def)

text \<open>No candidate is named by a live entry.\<close>

lemma candidate_not_live:
  assumes ok: "ring_ok a h t" "track_ok t" "length h < 2 ^ 32"
    and s: "slot < length (nt_slot_cursors t)" "\<not> slot_reachable (track_oldest_live t) (nt_slot_cursors t ! slot)"
    and j: "j < length h" "length h \<le> j + cap_of (nt_page t)" "pe_pool_id (fst (rs_frames a ! j)) = pid (nt_pool t)"
  shows "unat (pe_slot_id (fst (rs_frames a ! j))) \<noteq> slot"
proof
  assume eq: "unat (pe_slot_id (fst (rs_frames a ! j))) = slot"
  let ?n = "length h" and ?cap = "cap_of (nt_page t)"
  have "live_ok a h t j" using ok(1) j(1,2) by (auto simp: ring_ok_def)
  then have at: "nt_slot_cursors t ! slot = of_nat (j + 1)" using eq j(3) by (auto simp: live_ok_def Let_def)
  have wf: "page_wf (nt_page t)" using ok(1) by (simp add: ring_ok_def producer_rel_def ring_rel_def)
  have cap: "?cap < 2 ^ 64" using page_wf_cap(3) [OF wf] by linarith
  have last: "nt_last_cursor t = of_nat ?n" using ok(1) by (simp add: ring_ok_def)
  have bounds: "?n < 2 ^ 64" "j + 1 < 2 ^ 64" using ok(3) j(1) by simp_all
  note un = unat_of_nat64 [OF bounds(1)] unat_of_nat64 [OF cap] unat_of_nat64 [OF bounds(2)]
  have "unat (track_oldest_live t) = ?n - min ?n ?cap + 1"
  proof -
    have m: "unat (min (of_nat ?n) (of_nat ?cap) :: u64) = min ?n ?cap" using un by (simp add: min_def word_le_nat_alt)
    then have "unat (of_nat ?n - min (of_nat ?n) (of_nat ?cap) :: u64) = ?n - min ?n ?cap"
      using un(1) by (subst unat_minus) (simp_all add: word_le_nat_alt)
    then show ?thesis unfolding track_oldest_live_def last capacity using ok(3)
      by (subst unat_plus64) simp_all
  qed
  then have "track_oldest_live t \<le> of_nat (j + 1)" using un(3) j(1,2) by (simp add: word_le_nat_alt min_def split: if_splits)
  moreover have "(of_nat (j + 1) :: u64) \<noteq> 0" using un(3) by (metis add_is_0 one_neq_zero unat_0)
  ultimately show False using s(2) at by (simp add: slot_reachable_def)
qed

lemma ring_ok_frame:
  assumes "ring_ok a h t" "nt_page t' = nt_page t" "nt_last_cursor t' = nt_last_cursor t" "nt_slot_cursors t' = nt_slot_cursors t"
    "pid (nt_pool t') = pid (nt_pool t)" "ids (nt_backend t') = ids (nt_backend t)"
    "fence_at (nt_backend t) (nt_fence t) \<le> fence_at (nt_backend t') (nt_fence t')"
    and s: "\<And>j. j < length h \<Longrightarrow> length h \<le> j + cap_of (nt_page t) \<Longrightarrow>
      surface (nt_backend t') (pe_pool_id (fst (rs_frames a ! j))) (pe_slot_id (fst (rs_frames a ! j))) =
      surface (nt_backend t) (pe_pool_id (fst (rs_frames a ! j))) (pe_slot_id (fst (rs_frames a ! j)))"
  shows "ring_ok a h t'"
proof -
  have "live_ok a h t' j" if "j < length h" "length h \<le> j + cap_of (nt_page t)" for j
    using assms(1,4-6) s [OF that] that by (auto simp: ring_ok_def live_ok_def Let_def)
  then show ?thesis using assms(1-3,7) by (auto simp: ring_ok_def intro: order_trans)
qed

definition unnamed :: "ring_spec \<Rightarrow> 'c list \<Rightarrow> ('b, 'p, 'f) native_track \<Rightarrow> u32 \<Rightarrow> bool" where
  "unnamed a h t s \<longleftrightarrow> unat s < length (nt_slot_cursors t) \<and>
     (\<forall>j < length h. length h \<le> j + cap_of (nt_page t) \<longrightarrow>
        (pe_pool_id (fst (rs_frames a ! j)), pe_slot_id (fst (rs_frames a ! j))) \<noteq> (pid (nt_pool t), s))"

lemma claim_slot_ok:
  assumes ok: "ring_ok a h t" "track_ok t" "length h < 2 ^ 32" and c: "claim_slot B c t = (r, t1)" "r \<noteq> Panic"
  shows "ring_ok a h t1 \<and> track_ok t1 \<and> surface (nt_backend t1) = surface (nt_backend t) \<and>
    (\<forall>s. r = Ok (Some s) \<longrightarrow> unnamed a h t1 s \<and> \<not> held (nt_backend t1) (pid (nt_pool t1)) s)"
proof (cases "gather_candidates (nb_slot_hint B (nt_backend t) c) (track_oldest_live t) t [0..<unat (nt_slot_count t)]")
  case (Ok cs)
  obtain q b p where q: "nb_claim B cs (nt_backend t, nt_pool t) = (q, b, p)" by (metis surj_pair)
  have t1: "t1 = t\<lparr> nt_backend := b, nt_pool := p \<rparr>" "r = map_outcome_ok (\<lambda>c. case c of ReadySlot s \<Rightarrow> Some s | WouldBlock \<Rightarrow> None) q"
    using c(1) Ok q by (simp_all add: claim_slot_def)
  have "wf (nt_backend t)" using ok(2) by (simp add: track_ok_def)
  note l = claim [OF this q]
  have ring: "ring_ok a h t1" by (rule ring_ok_frame [OF ok(1)]) (use l t1(1) in simp_all)
  have tr: "track_ok t1" using l ok(2) t1(1) by (simp add: track_ok_def)
  have "unnamed a h t1 s \<and> \<not> held (nt_backend t1) (pid (nt_pool t1)) s" if s: "r = Ok (Some s)" for s
  proof -
    have "q = Ok (ReadySlot s)" using s t1(2) by (cases q) (auto split: slot_claim.splits)
    then obtain x where x: "x \<in> set cs" "s = ca_slot_id x" "\<not> held b (pid (nt_pool t)) s" using q claimed_candidate by blast
    obtain n where n: "ca_slot_id x = of_nat n" "n < length (nt_slot_cursors t)" "\<not> slot_reachable (track_oldest_live t) (nt_slot_cursors t ! n)"
      using gather_candidates_Ok [OF Ok x(1)] ok(2) by (auto simp: track_ok_def)
    have un: "unat s = n" using n(1,2) x(2) ok(2) u32_of_nat [of n "nt_slot_count t"] by (simp add: track_ok_def)
    have "(pe_pool_id (fst (rs_frames a ! j)), pe_slot_id (fst (rs_frames a ! j))) \<noteq> (pid (nt_pool t), s)"
      if "j < length h" "length h \<le> j + cap_of (nt_page t)" for j
      using candidate_not_live [OF ok n(2,3) that] un by auto
    then show ?thesis using n(2) un x(3) t1(1) l by (auto simp: unnamed_def)
  qed
  then show ?thesis using ring tr l t1(1) by simp
qed (use c ok in \<open>auto simp: claim_slot_def\<close>)

lemma entry_pid [simp]: "pe_pool_id (native_entry B s ts t) = pid (nt_pool t)" "pe_slot_id (native_entry B s ts t) = s"
  "pe_fence_value (native_entry B s ts t) = nt_fence_value t"
  by (simp_all add: native_entry_def pool_id)

lemma spec_push_nth: "rs_frames (spec_push e a) = rs_frames a @ [(e, length (spec_config (entry_config e) a))]"
  by (simp add: spec_push_def Let_def)

lemma push_entry_ok:
  assumes ok: "ring_ok a h t" "track_ok t" "length h + 1 < 2 ^ 32" and s: "unnamed a h t s"
    and x: "surface (nt_backend t) (pid (nt_pool t)) s = Some (content c)" "fence_at (nt_backend t) (nt_fence t) = nt_fence_value t"
    and p: "push_entry B s ts t = (r, t')"
  shows "\<exists>cursor a'. r = Ok (Published cursor) \<and> ring_ok a' (h @ [c]) t' \<and> track_ok t' \<and> nt_backend t' = nt_backend t"
proof -
  let ?e = "native_entry B s ts t" and ?n = "length h" and ?cap = "cap_of (nt_page t)"
  have rel: "producer_rel a (nt_page t)" and len: "length (rs_frames a) = ?n" "length (rs_configs a) \<le> ?n" using ok(1) by (simp_all add: ring_ok_def)
  have room: "length (rs_configs a) + 1 < 2 ^ 32" "length (rs_frames a) + 1 < 2 ^ 64" using len ok(3) by simp_all
  obtain page ws where page: "page_push ?e (nt_page t) = Ok (of_nat (length (rs_frames a) + 1), page)" "producer_rel (spec_push ?e a) page"
    "pg_layout page = pg_layout (nt_page t)" by (rule push_spec [OF rel room])
  have su: "unat s < length (nt_slot_cursors t)" using s by (simp add: unnamed_def)
  let ?t = "t\<lparr> nt_page := page, nt_pending_dropped := 0, nt_last_cursor := of_nat (?n + 1),
      nt_slot_cursors := (nt_slot_cursors t)[unat s := of_nat (?n + 1)], nt_next_hint := of_nat ((unat s + 1) mod unat (nt_slot_count t)) \<rparr>"
  have t': "r = Ok (Published (of_nat (?n + 1)))" "t' = ?t" using p page(1) su len(1) by (simp_all add: push_entry_def Let_def)
  have live: "live_ok (spec_push ?e a) (h @ [c]) ?t j" if j: "j < ?n + 1" "?n + 1 \<le> j + ?cap" for j
  proof (cases "j = ?n")
    case True
    then show ?thesis using x(1) su ok(2) len(1) by (simp add: live_ok_def spec_push_nth track_ok_def Let_def nth_append)
  next
    case False
    then have j': "j < ?n" "?n \<le> j + ?cap" using j by simp_all
    have old: "live_ok a h t j" using ok(1) j' by (simp add: ring_ok_def)
    have ne: "pe_pool_id (fst (rs_frames a ! j)) = pid (nt_pool t) \<Longrightarrow> unat s \<noteq> unat (pe_slot_id (fst (rs_frames a ! j)))"
      using s j' by (auto simp: unnamed_def simp flip: word_unat_eq_iff)
    have "rs_frames (spec_push ?e a) ! j = rs_frames a ! j" "(h @ [c]) ! j = h ! j" using j'(1) len(1) by (simp_all add: spec_push_nth nth_append)
    then show ?thesis using old ne by (auto simp: live_ok_def Let_def nth_list_update)
  qed
  have f: "\<forall>(e, g) \<in> set (rs_frames (spec_push ?e a)). pe_fence_value e \<le> fence_at (nt_backend t) (nt_fence t)"
    using ok(1) x(2) by (auto simp: ring_ok_def spec_push_nth)
  have "ring_ok (spec_push ?e a) (h @ [c]) ?t"
    using page(2,3) spec_push_lengths [of ?e a] len live f by (simp add: ring_ok_def)
  moreover have "track_ok ?t" using ok(2) by (simp add: track_ok_def)
  ultimately show ?thesis using t' by auto
qed

lemma saturating_add_one: "saturating_add x 1 \<noteq> - 1 \<Longrightarrow> x < saturating_add (x :: u64) 1"
proof -
  assume "saturating_add x 1 \<noteq> - 1"
  then have "unat x + 1 < 2 ^ 64" "saturating_add x 1 = x + 1" by (auto simp: saturating_add_def split: if_splits)
  then show "x < saturating_add x 1" using unat_plus64 [of x 1] by (simp add: word_less_nat_alt)
qed

text \<open>Only the surface that was claimed changes, and only its content.\<close>

lemma publish_staged_ok:
  assumes ok: "ring_ok a h t" "track_ok t" "length h + 1 < 2 ^ 32" and s: "unnamed a h t s"
    and p: "publish_staged B s c ts now t = (r, t')" "r \<noteq> Panic"
  shows "(\<exists>a'. ring_ok a' (case r of Ok (Published _) \<Rightarrow> h @ [c] | _ \<Rightarrow> h) t') \<and> track_ok t' \<and>
    held (nt_backend t') = held (nt_backend t) \<and>
    (\<forall>q u. (q, u) \<noteq> (pid (nt_pool t), s) \<longrightarrow> surface (nt_backend t') q u = surface (nt_backend t) q u)"
proof -
  obtain x b p where st: "nb_stage B s c (nt_backend t, nt_pool t) = (x, b, p)" by (metis surj_pair)
  have w: "wf (nt_backend t)" "pid (nt_pool t) \<in> ids (nt_backend t)" using ok(2) by (simp_all add: track_ok_def)
  note l = stage [OF w st]
  have other: "surface b (pe_pool_id (fst (rs_frames a ! j))) (pe_slot_id (fst (rs_frames a ! j))) =
      surface (nt_backend t) (pe_pool_id (fst (rs_frames a ! j))) (pe_slot_id (fst (rs_frames a ! j)))"
    if "j < length h" "length h \<le> j + cap_of (nt_page t)" for j
    using l s that by (auto simp: unnamed_def)
  show ?thesis
  proof (cases "x = Ok ()")
    case False
    then have t': "t' = t\<lparr> nt_backend := b, nt_pool := p \<rparr> \<and> (\<nexists>v. r = Ok v)"
      using p st by (cases x) (auto simp: publish_staged_def)
    have "ring_ok a h t'" using l other t' by (intro ring_ok_frame [OF ok(1)]) simp_all
    moreover have "track_ok t'" using l t' ok(2) by (simp add: track_ok_def)
    ultimately show ?thesis using l t' by (auto split: outcome.splits publish_outcome.splits)
  next
    case True
    let ?q = "saturating_add (nt_sequence t) 1" and ?v = "saturating_add (nt_fence_value t) 1"
    let ?t = "\<lambda>b' f. t\<lparr> nt_pool := p, nt_sequence := ?q, nt_fence_value := ?v, nt_backend := b', nt_fence := f \<rparr>"
    obtain y b' f where sg: "nb_signal B ?v (b, nt_fence t) = (y, b', f)" by (metis surj_pair)
    have v: "?q \<noteq> - 1" "?v \<noteq> - 1" using p st True by (auto simp: publish_staged_def Let_def split: if_splits)
    have r: "(case y of Err e \<Rightarrow> (Err e, ?t b' f) | Panic \<Rightarrow> (Panic, ?t b' f) | Ok _ \<Rightarrow> push_entry B s (if ts = 0 then now else ts) (?t b' f)) = (r, t')"
      using p(1) st True sg v by (cases y) (simp_all add: publish_staged_def Let_def)
    have "nt_fence_value t < ?v" using saturating_add_one [OF v(2)] .
    moreover have fa: "fence_at b (nt_fence t) \<le> nt_fence_value t" using l ok(2) by (simp add: track_ok_def)
    ultimately have lt: "fence_at b (nt_fence t) < ?v" by simp
    have "wf b" using l by blast
    note k = signal [OF this lt sg]
    have ro: "ring_ok a h (?t b' f)" using l k other by (intro ring_ok_frame [OF ok(1)]) simp_all
    have tr: "track_ok (?t b' f)" using l k ok(2) by (simp add: track_ok_def)
    have sur: "\<forall>q u. (q, u) \<noteq> (pid (nt_pool t), s) \<longrightarrow> surface b' q u = surface (nt_backend t) q u" "held b' = held (nt_backend t)" using l k by auto
    show ?thesis
    proof (cases "y = Ok ()")
      case False
      then have "t' = ?t b' f \<and> (\<nexists>v. r = Ok v)" using r p(2) by (cases y) auto
      then show ?thesis using ro tr sur by (auto split: outcome.splits publish_outcome.splits)
    next
      case True
      then have pe: "push_entry B s (if ts = 0 then now else ts) (?t b' f) = (r, t')" using r by simp
      have un: "unnamed a h (?t b' f) s" using s l by (simp add: unnamed_def)
      have "surface (nt_backend (?t b' f)) (pid (nt_pool (?t b' f))) s = Some (content c)"
        "fence_at (nt_backend (?t b' f)) (nt_fence (?t b' f)) = nt_fence_value (?t b' f)"
        using l k \<open>x = Ok ()\<close> True by simp_all
      from push_entry_ok [OF ro tr ok(3) un this pe] show ?thesis using sur by auto
    qed
  qed
qed

lemma exhausted_same:
  "case publish_exhausted t of (r, t') \<Rightarrow>
     nt_backend t' = nt_backend t \<and> nt_pool t' = nt_pool t \<and> nt_page t' = nt_page t \<and> nt_last_cursor t' = nt_last_cursor t \<and>
     nt_slot_cursors t' = nt_slot_cursors t \<and> nt_fence t' = nt_fence t \<and> nt_slot_count t' = nt_slot_count t \<and>
     nt_fence_value t' = nt_fence_value t \<and> (\<nexists>cursor. r = Ok (Published cursor))"
  by (simp add: publish_exhausted_def Let_def split: exhaustion_policy.split)

lemma publish_ok:
  assumes ok: "ring_ok a h t" "track_ok t" "length h + 1 < 2 ^ 32" and p: "native_publish B c ts now t = (r, t')" "r \<noteq> Panic"
  shows "(\<exists>a'. ring_ok a' (case r of Ok (Published _) \<Rightarrow> h @ [c] | _ \<Rightarrow> h) t') \<and> track_ok t' \<and>
    (\<forall>q u. held (nt_backend t') q u \<longrightarrow> surface (nt_backend t') q u = surface (nt_backend t) q u)"
proof -
  obtain x t1 where x: "claim_slot B c t = (x, t1)" by fastforce
  have np: "x \<noteq> Panic" using p x by (auto simp: native_publish_def)
  have "length h < 2 ^ 32" using ok(3) by simp
  note cl = claim_slot_ok [OF ok(1,2) this x np]
  consider e where "x = Err e" | "x = Ok None" | s where "x = Ok (Some s)" using np by (cases x) auto
  then show ?thesis
  proof cases
    case 1
    then show ?thesis using p x cl by (auto simp: native_publish_def)
  next
    case 2
    then have e: "publish_exhausted t1 = (r, t')" using p(1) x by (simp add: native_publish_def)
    then have same: "nt_backend t' = nt_backend t1 \<and> nt_pool t' = nt_pool t1 \<and> nt_page t' = nt_page t1 \<and> nt_last_cursor t' = nt_last_cursor t1 \<and>
      nt_slot_cursors t' = nt_slot_cursors t1 \<and> nt_fence t' = nt_fence t1 \<and> nt_slot_count t' = nt_slot_count t1 \<and>
      nt_fence_value t' = nt_fence_value t1 \<and> (\<nexists>cursor. r = Ok (Published cursor))"
      using exhausted_same [of t1] by simp
    have t1: "ring_ok a h t1" "track_ok t1" "surface (nt_backend t1) = surface (nt_backend t)" using cl by blast+
    have "ring_ok a h t'" by (rule ring_ok_frame [OF t1(1)]) (use same in simp_all)
    moreover have "track_ok t'" using t1(2) same by (simp add: track_ok_def)
    moreover have "(case r of Ok (Published _) \<Rightarrow> h @ [c] | _ \<Rightarrow> h) = h" using same by (auto split: outcome.splits publish_outcome.splits)
    ultimately show ?thesis using t1(3) same by auto
  next
    case (3 s)
    then have "publish_staged B s c ts now t1 = (r, t')" using p(1) x by (simp add: native_publish_def)
    moreover have "unnamed a h t1 s" "ring_ok a h t1" "track_ok t1" using cl 3 by simp_all
    ultimately have st: "(\<exists>a'. ring_ok a' (case r of Ok (Published _) \<Rightarrow> h @ [c] | _ \<Rightarrow> h) t') \<and> track_ok t' \<and>
      held (nt_backend t') = held (nt_backend t1) \<and>
      (\<forall>q u. (q, u) \<noteq> (pid (nt_pool t1), s) \<longrightarrow> surface (nt_backend t') q u = surface (nt_backend t1) q u)"
      using publish_staged_ok [OF _ _ ok(3) _ _ p(2)] by blast
    have "surface (nt_backend t') q u = surface (nt_backend t) q u" if hq: "held (nt_backend t') q u" for q u
    proof -
      have "\<not> held (nt_backend t1) (pid (nt_pool t1)) s" using cl 3 by blast
      then have "(q, u) \<noteq> (pid (nt_pool t1), s)" using hq st by auto
      then show ?thesis using st cl by simp
    qed
    then show ?thesis using st by blast
  qed
qed

lemma native_reconfigure_ok:
  assumes ok: "ring_ok a h t" "track_ok t" and p: "native_reconfigure B params slots t = (r, t')" "r \<noteq> Panic"
  shows "ring_ok a h t' \<and> track_ok t'"
proof -
  obtain x b where x: "nb_allocate B params slots (nt_backend t) = (x, b)" by fastforce
  have w: "wf (nt_backend t)" using ok(2) by (simp add: track_ok_def)
  note l = allocate [OF w x]
  have sub: "ids (nt_backend t) \<subseteq> ids b" using l by (auto split: outcome.splits)
  have live: "live_ok a h u j" if "j < length h" "length h \<le> j + cap_of (nt_page t)" "nt_backend u = b"
    "pid (nt_pool u) \<notin> ids (nt_backend t) \<or> (pid (nt_pool u) = pid (nt_pool t) \<and> nt_slot_cursors u = nt_slot_cursors t)" for u j
  proof -
    have "live_ok a h t j" using ok(1) that(1,2) by (simp add: ring_ok_def)
    then show ?thesis using l sub that(3,4) by (auto simp: live_ok_def Let_def)
  qed
  have ro: "ring_ok a h u" if "nt_backend u = b" "nt_page u = nt_page t" "nt_last_cursor u = nt_last_cursor t" "nt_fence u = nt_fence t"
    "pid (nt_pool u) \<notin> ids (nt_backend t) \<or> (pid (nt_pool u) = pid (nt_pool t) \<and> nt_slot_cursors u = nt_slot_cursors t)" for u
    using ok(1) that l live [OF _ _ that(1,5)] by (auto simp: ring_ok_def)
  show ?thesis
  proof (cases x)
    case (Ok pool)
    then have rp: "replace_pool params slots pool (t\<lparr> nt_backend := b \<rparr>) = (r, t')" using p(1) x by (simp add: native_reconfigure_def)
    show ?thesis
    proof (cases "unat slots \<le> page_capacity (nt_page t)")
      case True
      then have "t' = t\<lparr> nt_backend := b \<rparr>" using rp by (simp add: replace_pool_def)
      then show ?thesis using ro [of t'] ok(2) l sub by (auto simp: track_ok_def)
    next
      case False
      then have "t' = t\<lparr> nt_backend := b, nt_pool := pool, nt_retired := keep_last_two (nt_retired t @ [nt_pool t]), nt_params := params,
        nt_slot_count := slots, nt_slot_cursors := replicate (unat slots) 0, nt_next_hint := 0 \<rparr>" using rp by (simp add: replace_pool_def)
      then show ?thesis using ro [of t'] ok(2) l Ok by (simp add: track_ok_def)
    qed
  next
    case (Err e)
    then have "t' = t\<lparr> nt_backend := b \<rparr>" using p(1) x by (simp add: native_reconfigure_def)
    then show ?thesis using ro [of t'] ok(2) l sub by (auto simp: track_ok_def)
  qed (use p x in \<open>simp add: native_reconfigure_def\<close>)
qed

lemma attach_ok:
  assumes ok: "ring_ok a h t" "track_ok t" and p: "grant_attach B cid t = (r, t')" "r \<noteq> Panic"
  shows "ring_ok a h t' \<and> track_ok t'"
proof (cases "register_consumer_cursor cid (nt_page t)")
  case (Ok x)
  obtain i page where x: "x = (i, page)" by fastforce
  have t': "t' = t\<lparr> nt_page := page \<rparr>" using p(1) Ok x by (simp add: grant_attach_def Let_def)
  have "producer_rel a (nt_page t)" using ok(1) by (simp add: ring_ok_def)
  then have "producer_rel a page \<and> pg_layout page = pg_layout (nt_page t)" using producer_rel_register Ok x by blast
  then show ?thesis using ok t' by (auto simp: ring_ok_def track_ok_def live_ok_def Let_def)
qed (use ok p in \<open>auto simp: grant_attach_def\<close>)

lemma env_ok:
  assumes ok: "ring_ok a h t" "track_ok t" and e: "env (nt_backend t) b"
  shows "ring_ok a h (t\<lparr> nt_backend := b \<rparr>) \<and> track_ok (t\<lparr> nt_backend := b \<rparr>)"
proof -
  have "wf (nt_backend t)" using ok(2) by (simp add: track_ok_def)
  note l = env [OF this e]
  have "ring_ok a h (t\<lparr> nt_backend := b \<rparr>)" by (rule ring_ok_frame [OF ok(1)]) (use l in simp_all)
  then show ?thesis using ok(2) l by (simp add: track_ok_def)
qed

lemma new_ok:
  assumes "native_new B b0 params n slots policy = Ok t" "wf b0"
  shows "ring_ok spec_empty [] t \<and> track_ok t"
proof -
  obtain pool b1 fence b2 where a: "nb_allocate B params slots b0 = (Ok pool, b1)" "nb_create_fence B b1 = (Ok fence, b2)"
    "from_allocated_parts b2 params n slots pool fence policy = Ok t"
    using assms(1) by (auto simp: native_new_def split: prod.splits outcome.splits)
  note l = allocate [OF assms(2) a(1)]
  have "wf b1" using l by blast
  note f = create_fence [OF this a(2)]
  obtain page where page: "page_new n = Ok page" "t = \<lparr> nt_backend = b2, nt_params = params, nt_page = page, nt_pool = pool, nt_retired = [], nt_slot_count = slots,
         nt_fence = fence, nt_policy = policy, nt_slot_cursors = replicate (unat slots) 0, nt_next_hint = 0, nt_last_cursor = 0,
         nt_sequence = 0, nt_fence_value = 0, nt_pending_dropped = 0, nt_drop_count = 0 \<rparr>"
    using a(3) by (cases "page_new n") (auto simp: from_allocated_parts_def split: if_splits)
  then show ?thesis using l f page_new_rel [OF page(1)] by (simp add: ring_ok_def track_ok_def spec_empty_def)
qed

lemma native_reachable_ok:
  assumes "native_reachable B env b0 t h" "wf b0" "length h + 1 < 2 ^ 32"
  shows "\<exists>a. ring_ok a h t \<and> track_ok t"
  using assms
proof (induction rule: native_reachable.induct)
  case (start params n slots policy t)
  then show ?case using new_ok by blast
next
  case (publish t h c timestamp now r t')
  have "length h \<le> length (case r of Ok (Published _) \<Rightarrow> h @ [c] | _ \<Rightarrow> h)" by (simp split: outcome.split publish_outcome.split)
  then have l: "length h + 1 < 2 ^ 32" using publish.prems(2) by linarith
  then obtain a where "ring_ok a h t" "track_ok t" using publish.IH publish.prems(1) by blast
  from publish_ok [OF this l publish.hyps(2,3)] show ?case by blast
next
  case (reconfigure t h params slots r t')
  then show ?case using native_reconfigure_ok by meson
next
  case (attach t h cid r t')
  then show ?case using attach_ok by meson
next
  case (consumers t h b')
  then show ?case using env_ok by meson
qed

text \<open>A readable entry names a surface that holds the frame published under its cursor, complete.\<close>

lemma readable_frame:
  assumes "native_reachable B env b0 t h" "wf b0" "length h + 1 < 2 ^ 32" "read_entry_for_cursor cursor (nt_page t) = Ok e"
  shows "1 \<le> unat cursor \<and> unat cursor \<le> length h \<and>
    surface (nt_backend t) (pe_pool_id e) (pe_slot_id e) = Some (content (h ! (unat cursor - 1))) \<and>
    pe_fence_value e \<le> fence_at (nt_backend t) (nt_fence t)"
proof -
  obtain a where ok: "ring_ok a h t" "track_ok t" using native_reachable_ok [OF assms(1-3)] by blast
  have rel: "ring_rel a (nt_page t)" and len: "length (rs_frames a) = length h" using ok(1) by (simp_all add: ring_ok_def producer_rel_def)
  have pos: "0 < cap_of (nt_page t)" using rel page_wf_cap(1) [of "nt_page t"] by (auto simp: ring_rel_def)
  let ?i = "unat cursor - 1"
  have r: "spec_read (cap_of (nt_page t)) a cursor = Ok e" using assms(4) read_entry_spec [OF rel] by simp
  obtain e0 g where f: "rs_frames a ! ?i = (e0, g)" by (metis surj_pair)
  have c: "1 \<le> unat cursor" "?i < length h" "length h \<le> ?i + cap_of (nt_page t)" "e = spec_entry cursor e0 g"
    using r f len pos by (auto simp: spec_read_def Let_def oldest_of_def min_def split: if_splits)
  have same: "pe_pool_id e = pe_pool_id e0" "pe_slot_id e = pe_slot_id e0" "pe_fence_value e = pe_fence_value e0"
    by (simp_all add: c(4) spec_entry_def pending_entry.defs)
  have "live_ok a h t ?i" using ok(1) c(2,3) by (simp add: ring_ok_def)
  moreover have "(e0, g) \<in> set (rs_frames a)" using f c(2) len by (metis nth_mem)
  ultimately show ?thesis using ok(1) f same c(1,2) by (auto simp: live_ok_def ring_ok_def Let_def)
qed

lemma held_frame:
  assumes "native_reachable B env b0 t h" "wf b0" "length h + 1 < 2 ^ 32" "native_publish B c ts now t = (r, t')" "r \<noteq> Panic"
    "held (nt_backend t') q u"
  shows "surface (nt_backend t') q u = surface (nt_backend t) q u"
proof -
  obtain a where ok: "ring_ok a h t" "track_ok t" using native_reachable_ok [OF assms(1-3)] by blast
  show ?thesis using publish_ok [OF ok assms(3-5)] assms(6) by blast
qed

end

end
