(* ===== verification/Native_Fake.thy ===== *)
theory Native_Fake
  imports Native_Frames
begin

text \<open>
  The platform without an operating system (\<open>native::fake\<close>): surfaces are byte vectors with use counts, fences are
  counters, both in a registry that producer and consumers share.  It satisfies the laws of \<open>native_frames\<close>, and
  the properties of native tracks follow for it from the pages to the surfaces.
\<close>

section \<open>The registry\<close>

record fake_pool =
  fp_slots :: "bytes list"
  fp_use_counts :: "u32 list"

record fake_registry =
  fk_next_pool_id :: u64
  fk_next_fence_id :: u64
  fk_pools :: "u64 \<Rightarrow> fake_pool option"
  fk_fences :: "u64 \<Rightarrow> u64 option"

definition fake_registry_default :: fake_registry where
  "fake_registry_default = \<lparr> fk_next_pool_id = 0, fk_next_fence_id = 0, fk_pools = Map.empty, fk_fences = Map.empty \<rparr>"

text \<open>What consumers do.\<close>

definition surface_bytes :: "fake_registry \<Rightarrow> u64 \<Rightarrow> u32 \<Rightarrow> bytes option" where
  "surface_bytes b pool slot =
     (case fk_pools b pool of
        None \<Rightarrow> None
      | Some p \<Rightarrow> if unat slot < length (fp_slots p) then Some (fp_slots p ! unat slot) else None)"

definition hold_surface :: "u64 \<Rightarrow> u32 \<Rightarrow> fake_registry \<Rightarrow> (fake_registry, unit) outcome" where
  "hold_surface pool slot b =
     (case fk_pools b pool of
        None \<Rightarrow> Panic
      | Some p \<Rightarrow>
        if length (fp_use_counts p) \<le> unat slot \<or> fp_use_counts p ! unat slot = - 1 then Panic
        else Ok (b\<lparr> fk_pools := (fk_pools b)(pool \<mapsto>
               p\<lparr> fp_use_counts := (fp_use_counts p)[unat slot := fp_use_counts p ! unat slot + 1] \<rparr>) \<rparr>))"

definition release_surface :: "u64 \<Rightarrow> u32 \<Rightarrow> fake_registry \<Rightarrow> (fake_registry, unit) outcome" where
  "release_surface pool slot b =
     (case fk_pools b pool of
        None \<Rightarrow> Panic
      | Some p \<Rightarrow>
        if length (fp_use_counts p) \<le> unat slot \<or> fp_use_counts p ! unat slot = 0 then Panic
        else Ok (b\<lparr> fk_pools := (fk_pools b)(pool \<mapsto>
               p\<lparr> fp_use_counts := (fp_use_counts p)[unat slot := fp_use_counts p ! unat slot - 1] \<rparr>) \<rparr>))"

definition fence_value_of :: "fake_registry \<Rightarrow> u64 \<Rightarrow> u64 option" where
  "fence_value_of b fence = fk_fences b fence"

section \<open>The backend\<close>

text \<open>A pool and a fence are known by their identities in the registry, which shares the objects.\<close>

definition fake_allocate :: "native_stream_params \<Rightarrow> u32 \<Rightarrow> fake_registry \<Rightarrow> (u64, native_error) outcome \<times> fake_registry" where
  "fake_allocate params slots b =
     (if slots = 0 then (Err (NativeBackend ''allocate-surface-pool''), b)
      else if fk_next_pool_id b = - 1 then (Panic, b)
      else let pool = fk_next_pool_id b + 1 in
        (Ok pool, b\<lparr> fk_next_pool_id := pool, fk_pools := (fk_pools b)(pool \<mapsto>
           \<lparr> fp_slots = replicate (unat slots) [], fp_use_counts = replicate (unat slots) 0 \<rparr>) \<rparr>))"

fun fake_find :: "slot_candidate list \<Rightarrow> fake_pool \<Rightarrow> (slot_claim, native_error) outcome" where
  "fake_find [] p = Ok WouldBlock"
| "fake_find (c # cs) p =
     (if length (fp_use_counts p) \<le> unat (ca_slot_id c) then Panic
      else if fp_use_counts p ! unat (ca_slot_id c) = 0 then Ok (ReadySlot (ca_slot_id c)) else fake_find cs p)"

definition fake_claim :: "slot_candidate list \<Rightarrow> fake_registry \<times> u64 \<Rightarrow> (slot_claim, native_error) outcome \<times> fake_registry \<times> u64" where
  "fake_claim cs s = ((case fk_pools (fst s) (snd s) of None \<Rightarrow> Panic | Some p \<Rightarrow> fake_find cs p), fst s, snd s)"

definition fake_stage :: "u32 \<Rightarrow> bytes \<Rightarrow> fake_registry \<times> u64 \<Rightarrow> (unit, native_error) outcome \<times> fake_registry \<times> u64" where
  "fake_stage slot frame s =
     (case s of (b, pool) \<Rightarrow>
      (case fk_pools b pool of
         None \<Rightarrow> (Panic, b, pool)
       | Some p \<Rightarrow>
         if length (fp_slots p) \<le> unat slot then (Panic, b, pool)
         else (Ok (), b\<lparr> fk_pools := (fk_pools b)(pool \<mapsto> p\<lparr> fp_slots := (fp_slots p)[unat slot := frame] \<rparr>) \<rparr>, pool)))"

definition fake_export_surfaces :: "fake_registry \<Rightarrow> u64 \<Rightarrow> (bytes list, native_error) outcome" where
  "fake_export_surfaces b pool =
     (case fk_pools b pool of
        None \<Rightarrow> Panic
      | Some p \<Rightarrow> Ok (map (\<lambda>slot. le64 pool @ le32 (of_nat slot)) [0..<length (fp_slots p)]))"

definition fake_create_fence :: "fake_registry \<Rightarrow> (u64, native_error) outcome \<times> fake_registry" where
  "fake_create_fence b =
     (if fk_next_fence_id b = - 1 then (Panic, b)
      else let fence = fk_next_fence_id b + 1 in
        (Ok fence, b\<lparr> fk_next_fence_id := fence, fk_fences := (fk_fences b)(fence \<mapsto> 0) \<rparr>))"

definition fake_signal :: "u64 \<Rightarrow> fake_registry \<times> u64 \<Rightarrow> (unit, native_error) outcome \<times> fake_registry \<times> u64" where
  "fake_signal v s =
     (case s of (b, fence) \<Rightarrow>
      (case fk_fences b fence of
         None \<Rightarrow> (Panic, b, fence)
       | Some previous \<Rightarrow>
         (if v \<le> previous then Err (NativeBackend ''signal-fence'') else Ok (), b\<lparr> fk_fences := (fk_fences b)(fence \<mapsto> v) \<rparr>, fence)))"

definition fake_backend :: "(fake_registry, u64, u64, bytes, bytes, bytes) native_backend" where
  "fake_backend = \<lparr> nb_payload_kind = (\<lambda>_. 1), nb_allocate = fake_allocate, nb_pool_id = (\<lambda>_ pool. pool), nb_claim = fake_claim,
     nb_stage = fake_stage, nb_slot_hint = (\<lambda>_ _. None), nb_export_surfaces = fake_export_surfaces, nb_create_fence = fake_create_fence,
     nb_fence_id = (\<lambda>_ fence. fence), nb_signal = fake_signal, nb_export_sync = (\<lambda>_ fence. Ok (le64 fence)) \<rparr>"

section \<open>The laws\<close>

definition surface_held :: "fake_registry \<Rightarrow> u64 \<Rightarrow> u32 \<Rightarrow> bool" where
  "surface_held b pool slot =
     (case fk_pools b pool of
        None \<Rightarrow> False
      | Some p \<Rightarrow> unat slot < length (fp_use_counts p) \<and> fp_use_counts p ! unat slot \<noteq> 0)"

definition fence_reached :: "fake_registry \<Rightarrow> u64 \<Rightarrow> u64" where
  "fence_reached b fence = (case fence_value_of b fence of None \<Rightarrow> 0 | Some v \<Rightarrow> v)"

definition registry_wf :: "fake_registry \<Rightarrow> bool" where
  "registry_wf b \<longleftrightarrow> (\<forall>i \<in> dom (fk_pools b). i \<le> fk_next_pool_id b) \<and> (\<forall>i \<in> dom (fk_fences b). i \<le> fk_next_fence_id b)"

definition consumers_act :: "fake_registry \<Rightarrow> fake_registry \<Rightarrow> bool" where
  "consumers_act b b' \<longleftrightarrow> (\<exists>pool slot. hold_surface pool slot b = Ok b' \<or> release_surface pool slot b = Ok b')"

lemma fake_find_Ready: "fake_find cs p = Ok (ReadySlot s) \<Longrightarrow> s \<in> ca_slot_id ` set cs \<and> fp_use_counts p ! unat s = 0"
  by (induction cs) (auto split: if_splits)

lemma fake_env:
  assumes "consumers_act b b'"
  shows "fk_next_pool_id b' = fk_next_pool_id b \<and> fk_next_fence_id b' = fk_next_fence_id b \<and> fk_fences b' = fk_fences b \<and>
    dom (fk_pools b') = dom (fk_pools b) \<and> surface_bytes b' = surface_bytes b"
  using assms
  by (auto simp: consumers_act_def hold_surface_def release_surface_def surface_bytes_def fun_eq_iff split: option.splits if_splits)

lemma fake_stage_laws:
  assumes "fake_stage s c (b, p) = (u, b', p')"
  shows "fk_next_pool_id b' = fk_next_pool_id b \<and> fk_next_fence_id b' = fk_next_fence_id b \<and> fk_fences b' = fk_fences b \<and>
    dom (fk_pools b') = dom (fk_pools b) \<and> surface_held b' = surface_held b \<and> p' = p \<and>
    (\<forall>q t. (q, t) \<noteq> (p, s) \<longrightarrow> surface_bytes b' q t = surface_bytes b q t) \<and> (u = Ok () \<longrightarrow> surface_bytes b' p s = Some c)"
  using assms
  by (auto simp: fake_stage_def surface_held_def surface_bytes_def fun_eq_iff nth_list_update split: option.splits if_splits simp flip: word_unat_eq_iff)

lemma fake_allocate_laws:
  assumes "registry_wf b" "fake_allocate params n b = (r, b')"
  shows "registry_wf b' \<and> fk_fences b' = fk_fences b \<and>
    (\<forall>q \<in> dom (fk_pools b). surface_bytes b' q = surface_bytes b q \<and> surface_held b' q = surface_held b q) \<and>
    (case r of Ok p \<Rightarrow> p \<notin> dom (fk_pools b) \<and> dom (fk_pools b') = insert p (dom (fk_pools b)) | _ \<Rightarrow> dom (fk_pools b') = dom (fk_pools b))"
proof (cases "n = 0 \<or> fk_next_pool_id b = - 1")
  case True
  then show ?thesis using assms by (auto simp: fake_allocate_def split: if_splits)
next
  case False
  let ?p = "fk_next_pool_id b + 1"
  have lt: "fk_next_pool_id b < ?p" using word_Suc_less False by blast
  have new: "?p \<notin> dom (fk_pools b)" using assms(1) lt unfolding registry_wf_def by (meson leD)
  have r: "r = Ok ?p" "b' = b\<lparr> fk_next_pool_id := ?p, fk_pools := (fk_pools b)(?p \<mapsto>
      \<lparr> fp_slots = replicate (unat n) [], fp_use_counts = replicate (unat n) 0 \<rparr>) \<rparr>"
    using assms(2) False by (simp_all add: fake_allocate_def Let_def)
  have "registry_wf b'" using assms(1) lt r(2) by (force simp: registry_wf_def)
  moreover have "\<forall>q \<in> dom (fk_pools b). surface_bytes b' q = surface_bytes b q \<and> surface_held b' q = surface_held b q"
    using new r(2) by (auto simp: surface_bytes_def surface_held_def fun_eq_iff)
  ultimately show ?thesis using new r by auto
qed

interpretation fk: native_frames fake_backend "\<lambda>p. p" surface_held surface_bytes "\<lambda>frame. frame" fence_reached
  "\<lambda>b. dom (fk_pools b)" registry_wf consumers_act
proof (unfold_locales, goal_cases)
  case (1 cs b p s b' p')
  then show ?case using fake_find_Ready [of cs _ s]
    by (auto simp: fake_backend_def fake_claim_def surface_held_def split: option.splits)
next
  case (2 b p)
  then show ?case by (simp add: fake_backend_def)
next
  case (3 b cs p r b' p')
  then show ?case by (auto simp: fake_backend_def fake_claim_def)
next
  case (4 b p s c u b' p')
  then have "fake_stage s c (b, p) = (u, b', p')" by (simp add: fake_backend_def)
  note l = fake_stage_laws [OF this]
  have "fence_reached b' = fence_reached b" using l by (simp add: fence_reached_def fence_value_of_def fun_eq_iff)
  then show ?case using l 4(1) by (simp add: registry_wf_def)
next
  case (5 b params n r b')
  then have "fake_allocate params n b = (r, b')" by (simp add: fake_backend_def)
  note l = fake_allocate_laws [OF 5(1) this]
  have "fence_reached b' = fence_reached b" using l by (simp add: fence_reached_def fence_value_of_def fun_eq_iff)
  then show ?case using l by simp
next
  case (6 b r b')
  then show ?case using word_Suc_less [of "fk_next_fence_id b"]
    by (force simp: fake_backend_def fake_create_fence_def registry_wf_def surface_bytes_def surface_held_def fence_reached_def fence_value_of_def
        fun_eq_iff Let_def split: if_splits)
next
  case (7 b f v u b' f')
  then show ?case
    by (force simp: fake_backend_def fake_signal_def registry_wf_def surface_bytes_def surface_held_def fence_reached_def fence_value_of_def
        fun_eq_iff split: option.splits if_splits)
next
  case (8 b b')
  note l = fake_env [OF 8(2)]
  have "fence_reached b' = fence_reached b" using l by (simp add: fence_reached_def fence_value_of_def fun_eq_iff)
  then show ?case using l 8(1) by (simp add: registry_wf_def)
qed

section \<open>Frames stay whole\<close>


text \<open>A run: three surfaces behind a ring of two, a frame, a consumer that holds its surface, another frame.\<close>

definition sample_stream :: native_stream_params where
  "sample_stream = \<lparr> ns_width = 4, ns_height = 2, ns_pixel_format = Bgra8Unorm, ns_color_space = Srgb, ns_modifier = 0 \<rparr>"

definition sample_registry :: "bytes list \<Rightarrow> u32 list \<Rightarrow> u64 \<Rightarrow> fake_registry" where
  "sample_registry slots counts fence = \<lparr> fk_next_pool_id = 1, fk_next_fence_id = 1,
     fk_pools = [1 \<mapsto> \<lparr> fp_slots = slots, fp_use_counts = counts \<rparr>], fk_fences = [1 \<mapsto> fence] \<rparr>"

definition sample_track :: "fake_registry \<Rightarrow> control_page \<Rightarrow> u64 list \<Rightarrow> u32 \<Rightarrow> u64 \<Rightarrow> (fake_registry, u64, u64) native_track" where
  "sample_track b page cursors hint n = \<lparr> nt_backend = b, nt_params = sample_stream, nt_page = page, nt_pool = 1, nt_retired = [],
     nt_slot_count = 3, nt_fence = 1, nt_policy = DropFrame, nt_slot_cursors = cursors, nt_next_hint = hint, nt_last_cursor = n,
     nt_sequence = n, nt_fence_value = n, nt_pending_dropped = 0, nt_drop_count = 0 \<rparr>"

definition sample_entry :: "u32 \<Rightarrow> u64 \<Rightarrow> pending_entry" where
  "sample_entry slot n = native_entry fake_backend slot n (sample_track (sample_registry [] [] 0) undefined [] 0 n)"

lemma two_not_le: "\<not> (2 :: u64) \<le> 1"
  by (simp add: word_le_nat_alt)

lemma three: "replicate 3 x = [x, x, x]" "[0..<3] = [0, 1, 2]"
  by (simp_all add: numeral_eq_Suc)

lemma sample_start:
  assumes "page_new 2 = Ok page" "pg_layout page = std_layout 2"
  shows "native_new fake_backend fake_registry_default sample_stream 2 3 DropFrame =
    Ok (sample_track (sample_registry [[], [], []] [0, 0, 0] 0) page [0, 0, 0] 0 0)"
  using assms
  by (simp add: native_new_def fake_backend_def fake_registry_default_def fake_allocate_def fake_create_fence_def from_allocated_parts_def
      page_capacity_def std_layout_def sample_track_def sample_registry_def Let_def three)

lemma sample_first:
  assumes "page_push (sample_entry 0 1) page = Ok (1, page')" "pg_layout page = std_layout 2"
  shows "native_publish fake_backend [7] 1 0 (sample_track (sample_registry [[], [], []] [0, 0, 0] 0) page [0, 0, 0] 0 0) =
    (Ok (Published 1), sample_track (sample_registry [[7], [], []] [0, 0, 0] 1) page' [1, 0, 0] 1 1)"
  using assms
  by (simp add: native_publish_def claim_slot_def fake_backend_def fake_claim_def publish_staged_def push_entry_def fake_stage_def fake_signal_def
      page_capacity_def std_layout_def sample_track_def sample_registry_def sample_entry_def native_entry_def Let_def three
      track_oldest_live_def slot_reachable_def saturating_add_def)

lemma sample_hold:
  "consumers_act (sample_registry slots [0, 0, 0] fence) (sample_registry slots [1, 0, 0] fence)"
  unfolding consumers_act_def by (rule exI [of _ 1], rule exI [of _ 0]) (simp add: hold_surface_def sample_registry_def)

lemma sample_second:
  assumes "page_push (sample_entry 1 2) page = Ok (2, page')" "pg_layout page = std_layout 2"
  shows "native_publish fake_backend [9] 2 0 (sample_track (sample_registry [[7], [], []] [1, 0, 0] 1) page [1, 0, 0] 1 1) =
    (Ok (Published 2), sample_track (sample_registry [[7], [9], []] [1, 0, 0] 2) page' [1, 2, 0] 2 2)"
  using assms
  by (simp add: native_publish_def claim_slot_def fake_backend_def fake_claim_def publish_staged_def push_entry_def fake_stage_def fake_signal_def
      page_capacity_def std_layout_def sample_track_def sample_registry_def sample_entry_def native_entry_def Let_def three two_not_le
      track_oldest_live_def slot_reachable_def saturating_add_def)

lemma sample_pages:
  "\<exists>p0 p1 p2. page_new 2 = Ok p0 \<and> pg_layout p0 = std_layout 2 \<and> page_push (sample_entry 0 1) p0 = Ok (1, p1) \<and>
     pg_layout p1 = std_layout 2 \<and> page_push (sample_entry 1 2) p1 = Ok (2, p2) \<and>
     read_entry_for_cursor 2 p2 = spec_read 2 (spec_push (sample_entry 1 2) (spec_push (sample_entry 0 1) spec_empty)) 2"
proof -
  obtain p0 where p0: "page_new 2 = Ok p0" "pg_layout p0 = std_layout 2" using small_page by blast
  obtain p1 ws1 where p1: "page_push (sample_entry 0 1) p0 = Ok (of_nat (length (rs_frames spec_empty) + 1), p1)"
    "producer_rel (spec_push (sample_entry 0 1) spec_empty) p1" "pg_layout p1 = pg_layout p0"
    by (rule push_spec [OF page_new_rel [OF p0(1)], of "sample_entry 0 1"]) (simp_all add: spec_empty_def)
  let ?a = "spec_push (sample_entry 0 1) spec_empty"
  have len: "length (rs_frames ?a) = 1" "length (rs_configs ?a) \<le> 1"
    by (simp_all add: spec_push_def spec_config_def spec_empty_def Let_def)
  obtain p2 ws2 where p2: "page_push (sample_entry 1 2) p1 = Ok (of_nat (length (rs_frames ?a) + 1), p2)"
    "producer_rel (spec_push (sample_entry 1 2) ?a) p2" "pg_layout p2 = pg_layout p1"
    by (rule push_spec [OF p1(2), of "sample_entry 1 2"]) (use len in simp_all)
  have "read_entry_for_cursor c p2 = spec_read 2 (spec_push (sample_entry 1 2) ?a) c" for c
    using read_entry_spec [of _ p2] p2 p1(3) p0(2) by (simp add: producer_rel_def)
  moreover have "page_push (sample_entry 0 1) p0 = Ok (1, p1)" using p1(1) by (simp add: spec_empty_def)
  moreover have "page_push (sample_entry 1 2) p1 = Ok (2, p2)" using p2(1) len(1) by simp
  ultimately show ?thesis using p0 p1(3) by auto
qed


end
