(* ===== verification/Native_Arena.thy ===== *)
theory Native_Arena
  imports Arena_Steps Arena_Consumer Native_Track
begin

text \<open>
  Native surfaces behind the common arena (\<open>native/arena.rs\<close>): the arena decides which storage may be written, the
  platform stages the frame there and signals its fence.  The closure that \<open>publish_frame\<close> hands to the arena changes the
  platform while the arena searches, so the search is modelled with the state it threads, and it is shown to be the
  arena's own search.
\<close>

section \<open>The platform\<close>

text \<open>What \<open>ArenaNativeBackend\<close> adds to a platform; \<open>ab_timeline_value\<close> is \<open>completed_value\<close> of a retained timeline.\<close>

record ('b, 'p, 'f, 'c, 's, 'y, 'l) arena_backend = "('b, 'p, 'f, 'c, 's, 'y) native_backend" +
  ab_upper_bound :: "native_stream_params \<Rightarrow> u32 \<Rightarrow> 'b \<Rightarrow> (u64, native_error) outcome"
  ab_allocate_bounded :: "native_stream_params \<Rightarrow> u32 \<Rightarrow> u64 \<Rightarrow> 'b \<Rightarrow> ('p, native_error) outcome \<times> 'b"
  ab_pool_bytes :: "'b \<Rightarrow> 'p \<Rightarrow> (u64, native_error) outcome"
  ab_completed_value :: "'b \<Rightarrow> 'f \<Rightarrow> (u64, native_error) outcome"
  ab_timeline :: "'b \<Rightarrow> 'f \<Rightarrow> ('l, native_error) outcome"
  ab_timeline_value :: "'b \<Rightarrow> 'l \<Rightarrow> (u64, arena_error) outcome"

definition storage_error :: "native_error \<Rightarrow> arena_error" where
  "storage_error error = Storage (case error of
     Capture _ \<Rightarrow> ''capture'' | NativeBackend operation \<Rightarrow> operation | SurfacePoolExhausted _ \<Rightarrow> ''surface pool exhausted'')"

text \<open>A retired pool waits for the producer's own writes; the arena names it by its position.\<close>

record ('p, 'l) retired_native_pool =
  rn_pool :: 'p
  rn_readiness :: 'l
  rn_submitted :: u64

definition retired_pool_ready :: "('b, 'p, 'f, 'c, 's, 'y, 'l) arena_backend \<Rightarrow> 'b \<Rightarrow> ('p, 'l) retired_native_pool \<Rightarrow> (bool, arena_error) outcome" where
  "retired_pool_ready B b r = map_outcome_ok (\<lambda>v. rn_submitted r \<le> v) (ab_timeline_value B b (rn_readiness r))"

section \<open>The producer\<close>

record ('b, 'p, 'f, 'l) native_arena =
  na_arena :: arena
  na_backend :: 'b
  na_pool :: "'p option"
  na_fence :: 'f
  na_params :: native_stream_params
  na_pending :: "(native_stream_params \<times> u64) option"
  na_generation :: u64
  na_submitted :: "u64 list"
  na_sequence :: u64
  na_fence_value :: u64
  na_dropped :: u64
  na_pending_drops :: u32
  na_faulted :: bool
  na_stopped :: bool
  na_retired :: "('p, 'l) retired_native_pool list"

definition native_env :: "('b, 'p, 'f, 'c, 's, 'y, 'l) arena_backend \<Rightarrow> ('b, 'p, 'f, 'l) native_arena \<Rightarrow> env \<Rightarrow> env" where
  "native_env B s e = e\<lparr> retired_ready := (\<lambda>h. if h < length (na_retired s) then retired_pool_ready B (na_backend s) (na_retired s ! h) else Ok False) \<rparr>"

definition native_arena_from_parts ::
    "('b, 'p, 'f, 'c, 's, 'y, 'l) arena_backend \<Rightarrow> env \<Rightarrow> usize \<Rightarrow> (bytes, arena_error) outcome \<Rightarrow> (unit, arena_error) outcome \<Rightarrow>
     'b \<Rightarrow> 'p \<Rightarrow> 'f \<Rightarrow> native_stream_params \<Rightarrow> arena_config \<Rightarrow> (('b, 'p, 'f, 'l) native_arena, arena_error) outcome" where
  "native_arena_from_parts B e page scope storage backend pool fence params cfg =
     (if cfg_payload_capacity cfg \<noteq> 0 then Err (Configuration ''native arena has no inline payload'')
      else and_then (map_err storage_error (nb_export_surfaces B backend pool)) (\<lambda>handles.
        if length handles \<noteq> unat (cfg_resource_capacity cfg) then Err (Configuration ''native pool capacity differs from arena capacity'')
        else and_then (map_err storage_error (ab_pool_bytes B backend pool)) (\<lambda>bytes.
        and_then (create_arena e page cfg bytes True scope storage) (\<lambda>a.
          Ok \<lparr> na_arena = a, na_backend = backend, na_pool = Some pool, na_fence = fence, na_params = params, na_pending = None,
               na_generation = 1, na_submitted = replicate (unat (cfg_resource_capacity cfg)) 0, na_sequence = 0, na_fence_value = 0,
               na_dropped = 0, na_pending_drops = 0, na_faulted = False, na_stopped = False, na_retired = [] \<rparr>))))"

definition native_arena_new ::
    "('b, 'p, 'f, 'c, 's, 'y, 'l) arena_backend \<Rightarrow> env \<Rightarrow> usize \<Rightarrow> (bytes, arena_error) outcome \<Rightarrow> (unit, arena_error) outcome \<Rightarrow>
     'b \<Rightarrow> native_stream_params \<Rightarrow> arena_config \<Rightarrow> (('b, 'p, 'f, 'l) native_arena, arena_error) outcome" where
  "native_arena_new B e page scope storage backend params cfg =
     (if cfg_payload_capacity cfg \<noteq> 0 then Err (Configuration ''native arena has no inline payload'')
      else and_then (map_err storage_error (ab_upper_bound B params (cfg_resource_capacity cfg) backend)) (\<lambda>bound.
        and_then (prepare_arena e page cfg bound) (\<lambda>_.
        (case ab_allocate_bounded B params (cfg_resource_capacity cfg) bound backend of
           (pool, b1) \<Rightarrow> and_then (map_err storage_error pool) (\<lambda>p.
             (case nb_create_fence B b1 of
                (fence, b2) \<Rightarrow> and_then (map_err storage_error fence) (\<lambda>f.
                  native_arena_from_parts B e page scope storage b2 p f params cfg)))))))"

section \<open>Publication\<close>

text \<open>The arena's search with a closure that changes a state; compare \<open>find_free\<close> and \<open>publish_prepared\<close>.\<close>

fun find_free_staged ::
    "u64 \<Rightarrow> (incarnation_id \<times> claim_map) list \<Rightarrow> (nat \<Rightarrow> u64 \<Rightarrow> 'x \<Rightarrow> ('d option, arena_error) outcome \<times> 'x) \<Rightarrow>
     nat list \<Rightarrow> resource_map \<Rightarrow> 'x \<Rightarrow> ((nat \<times> 'd) option, arena_error) outcome \<times> resource_map \<times> 'x" where
  "find_free_staged oldest cs prepare [] m x = (Ok None, m, x)"
| "find_free_staged oldest cs prepare (i # is) m x =
     (if rm_reserved m ! i then find_free_staged oldest cs prepare is m x
      else let g = state_generation (rm_states m ! i) in
        if g \<noteq> 0 \<and> oldest \<le> g then find_free_staged oldest cs prepare is m x
        else let m1 = m\<lparr> rm_states := (rm_states m)[i := state_retired g] \<rparr> in
          if g \<noteq> 0 \<and> claims_contain cs g then find_free_staged oldest cs prepare is m1 x
          else case prepare i g x of
            (Err error, x1) \<Rightarrow> (Err error, m1, x1)
          | (Panic, x1) \<Rightarrow> (Panic, m1, x1)
          | (Ok None, x1) \<Rightarrow> find_free_staged oldest cs prepare is m1 x1
          | (Ok (Some d), x1) \<Rightarrow> (Ok (Some (i, d)), m1, x1))"

definition publish_resource_staged ::
    "env \<Rightarrow> (nat \<Rightarrow> u64 \<Rightarrow> 'x \<Rightarrow> (frame_descriptor option, arena_error) outcome \<times> 'x) \<Rightarrow> arena \<Rightarrow> 'x \<Rightarrow>
     (Arena_Producer.publish_outcome, arena_error) outcome \<times> arena \<times> 'x" where
  "publish_resource_staged e prepare a x =
     (if (case ar_resources a of Some m \<Rightarrow> payload_capacity (rm_layout m) \<noteq> 0 | None \<Rightarrow> False)
      then (Err (Configuration ''native resources require no inline CPU storage''), a, x)
      else if w_terminal (ar_control a) \<noteq> 0 then (Err ArenaClosed, a, x)
      else case poll_cleanup e a of
        (Err error, a1) \<Rightarrow> (Err error, a1, x)
      | (Panic, a1) \<Rightarrow> (Panic, a1, x)
      | (Ok _, a1) \<Rightarrow>
        (case ar_resources a1 of
           None \<Rightarrow> (Ok Dropped, a1, x)
         | Some m \<Rightarrow>
           if ar_cursor a1 = MAX_GENERATION then (Err GenerationsExhausted, arena_stop a1, x)
           else
             (case find_free_staged (oldest_retained (ar_cursor a1) (history (rm_layout m))) (ar_claims a1) prepare
                     (slot_candidates (ar_next_slot a1) (unat (resources (rm_layout m)))) m x of
                (Err error, m1, x1) \<Rightarrow> (Err error, a1\<lparr> ar_resources := Some m1 \<rparr>, x1)
              | (Panic, m1, x1) \<Rightarrow> (Panic, a1\<lparr> ar_resources := Some m1 \<rparr>, x1)
              | (Ok None, m1, x1) \<Rightarrow> (Ok Dropped, a1\<lparr> ar_resources := Some m1 \<rparr>, x1)
              | (Ok (Some (i, d)), m1, x1) \<Rightarrow>
                (case publish_slot m1 i (final_descriptor e m1 i (ar_cursor a1 + 1) (d\<lparr> fd_payload_len := 0 \<rparr>)) a1 of
                   (r, a2) \<Rightarrow> (r, a2, x1)))))"

text \<open>The closure: the slot must be finished by the producer's own earlier writes and be offered by the platform.\<close>

definition native_descriptor :: "('b, 'p, 'f, 'c, 's, 'y, 'l) arena_backend \<Rightarrow> u64 \<Rightarrow> nat \<Rightarrow> 'p \<Rightarrow> ('b, 'p, 'f, 'l) native_arena \<Rightarrow> frame_descriptor" where
  "native_descriptor B timestamp i pool s =
     default_descriptor\<lparr> fd_sequence := na_sequence s, fd_timestamp_ns := timestamp, fd_config_generation := na_generation s,
       fd_pool_id := nb_pool_id B (na_backend s) pool, fd_modifier := ns_modifier (na_params s),
       fd_fence_id := nb_fence_id B (na_backend s) (na_fence s), fd_fence_value := na_fence_value s,
       fd_damage_base_sequence := na_sequence s, fd_producer_drop_count := na_dropped s,
       fd_width := ns_width (na_params s), fd_height := ns_height (na_params s),
       fd_pixel_format := pixel_format_u32 (ns_pixel_format (na_params s)), fd_slot_id := of_nat i,
       fd_color_space := color_space_u32 (ns_color_space (na_params s)), fd_sync_kind := NATIVE_TIMELINE,
       fd_payload_kind := nb_payload_kind B (na_backend s), fd_damage_kind := FULL_FRAME,
       fd_dropped_before_publish := na_pending_drops s \<rparr>"

definition stage_native :: "('b, 'p, 'f, 'c, 's, 'y, 'l) arena_backend \<Rightarrow> 'c \<Rightarrow> u64 \<Rightarrow> nat \<Rightarrow> 'p \<Rightarrow> ('b, 'p, 'f, 'l) native_arena \<Rightarrow>
    (frame_descriptor option, arena_error) outcome \<times> ('b, 'p, 'f, 'l) native_arena" where
  "stage_native B frame timestamp i pool s =
     (case nb_stage B (of_nat i) frame (na_backend s, pool) of
        (r, b, p) \<Rightarrow>
          let s1 = s\<lparr> na_backend := b, na_pool := Some p \<rparr> in
          (case r of
             Err error \<Rightarrow> (Err (storage_error error), s1)
           | Panic \<Rightarrow> (Panic, s1)
           | Ok _ \<Rightarrow>
             if na_fence_value s = - 1 then (Err GenerationsExhausted, s1)
             else let v = na_fence_value s + 1 in
               (case nb_signal B v (b, na_fence s) of
                  (q, b', f) \<Rightarrow>
                    let s2 = s1\<lparr> na_fence_value := v, na_submitted := (na_submitted s)[i := v], na_backend := b', na_fence := f \<rparr> in
                    (case q of
                       Err error \<Rightarrow> (Err (storage_error error), s2)
                     | Panic \<Rightarrow> (Panic, s2)
                     | Ok _ \<Rightarrow> (Ok (Some (native_descriptor B timestamp i p s2)), s2)))))"

definition prepare_native :: "('b, 'p, 'f, 'c, 's, 'y, 'l) arena_backend \<Rightarrow> 'c \<Rightarrow> u64 \<Rightarrow> u32 option \<Rightarrow> u64 \<Rightarrow> nat \<Rightarrow> u64 \<Rightarrow>
    ('b, 'p, 'f, 'l) native_arena \<Rightarrow> (frame_descriptor option, arena_error) outcome \<times> ('b, 'p, 'f, 'l) native_arena" where
  "prepare_native B frame timestamp hint ready i g s =
     (case na_pool s of
        None \<Rightarrow> (Panic, s)
      | Some pool \<Rightarrow>
        if (case hint of None \<Rightarrow> False | Some h \<Rightarrow> h \<noteq> of_nat i) then (Ok None, s)
        else if length (na_submitted s) \<le> i then (Panic, s)
        else if ready < na_submitted s ! i then (Ok None, s)
        else
          (case nb_claim B [\<lparr> ca_slot_id = of_nat i, ca_last_cursor = g \<rparr>] (na_backend s, pool) of
             (r, b, p) \<Rightarrow>
               let s1 = s\<lparr> na_backend := b, na_pool := Some p \<rparr> in
               (case r of
                  Err error \<Rightarrow> (Err (storage_error error), s1)
                | Panic \<Rightarrow> (Panic, s1)
                | Ok WouldBlock \<Rightarrow> (Ok None, s1)
                | Ok (ReadySlot j) \<Rightarrow>
                  if j \<noteq> of_nat i then (Err (Mapping ''backend selected an unclaimed native slot''), s1)
                  else stage_native B frame timestamp i p s1)))"

definition publish_frame :: "('b, 'p, 'f, 'c, 's, 'y, 'l) arena_backend \<Rightarrow> env \<Rightarrow> 'c \<Rightarrow> u64 \<Rightarrow> ('b, 'p, 'f, 'l) native_arena \<Rightarrow>
    (Arena_Producer.publish_outcome, arena_error) outcome \<times> ('b, 'p, 'f, 'l) native_arena" where
  "publish_frame B e frame timestamp s =
     (if na_sequence s = - 1 then (Err GenerationsExhausted, s)
      else let s1 = s\<lparr> na_sequence := na_sequence s + 1 \<rparr> in
        (case ab_completed_value B (na_backend s) (na_fence s) of
           Err error \<Rightarrow> (Err (storage_error error), s1)
         | Panic \<Rightarrow> (Panic, s1)
         | Ok ready \<Rightarrow>
           (case publish_resource_staged (native_env B s e)
                   (prepare_native B frame timestamp (nb_slot_hint B (na_backend s) frame) ready) (na_arena s) s1 of
              (r, a, s2) \<Rightarrow>
                let s3 = s2\<lparr> na_arena := a \<rparr> in
                (r, case r of
                      Ok (Arena_Producer.Published _) \<Rightarrow> s3\<lparr> na_pending_drops := 0 \<rparr>
                    | Ok Dropped \<Rightarrow> s3\<lparr> na_dropped := saturating_add (na_dropped s3) 1,
                                      na_pending_drops := saturating_add (na_pending_drops s3) 1 \<rparr>
                    | _ \<Rightarrow> s3))))"

definition native_arena_publish :: "('b, 'p, 'f, 'c, 's, 'y, 'l) arena_backend \<Rightarrow> env \<Rightarrow> 'c \<Rightarrow> u64 \<Rightarrow> ('b, 'p, 'f, 'l) native_arena \<Rightarrow>
    (Arena_Producer.publish_outcome, arena_error) outcome \<times> ('b, 'p, 'f, 'l) native_arena" where
  "native_arena_publish B e frame timestamp s =
     (if na_faulted s \<or> na_stopped s then (Err ArenaClosed, s)
      else case publish_frame B e frame timestamp s of
        (Err error, s1) \<Rightarrow> (Err error, s1\<lparr> na_faulted := True, na_arena := arena_stop (na_arena s1) \<rparr>)
      | (Ok x, s1) \<Rightarrow> (Ok x, s1)
      | (Panic, s1) \<Rightarrow> (Panic, s1))"

section \<open>Reconfiguration\<close>

text \<open>Whether \<open>advance_with_allocation\<close> reaches the allocation of the replacement.\<close>

definition allocation_reached :: "env \<Rightarrow> (unit, arena_error) outcome \<Rightarrow> arena \<Rightarrow> bool" where
  "allocation_reached e storage a =
     (if w_terminal (ar_control a) \<noteq> 0 then False
      else case poll_cleanup e a of
        (Ok _, a1) \<Rightarrow>
          (case ar_pending_layout a1 of
             None \<Rightarrow> False
           | Some l \<Rightarrow>
             (case reserve_reconfiguration (ar_admission a1) of
                (Ok _, b) \<Rightarrow> (case storage of Ok _ \<Rightarrow> True | _ \<Rightarrow> False)
              | _ \<Rightarrow> False))
      | _ \<Rightarrow> False)"

definition native_arena_advance :: "('b, 'p, 'f, 'c, 's, 'y, 'l) arena_backend \<Rightarrow> env \<Rightarrow> (unit, arena_error) outcome \<Rightarrow> ('b, 'p, 'f, 'l) native_arena \<Rightarrow>
    (reconfiguration_status, arena_error) outcome \<times> ('b, 'p, 'f, 'l) native_arena" where
  "native_arena_advance B e storage s =
     (if na_faulted s \<or> na_stopped s then (Err ArenaClosed, s)
      else case na_pending s of
        None \<Rightarrow> (Ok (reconfiguration_status.Ready (na_generation s)), s)
      | Some (params, bound) \<Rightarrow>
        (case ab_allocate_bounded B params (of_nat (length (na_submitted s))) bound (na_backend s) of
           (allocated, b) \<Rightarrow>
             let bytes = map_err storage_error (and_then allocated (ab_pool_bytes B b)) in
             (case advance_with_allocation (native_env B s e) storage bytes (na_arena s) of
                (r, a) \<Rightarrow>
                  let s1 = s\<lparr> na_arena := a,
                        na_backend := (if allocation_reached (native_env B s e) storage (na_arena s) then b else na_backend s) \<rparr> in
                  (case r of
                     Err error \<Rightarrow> (Err error, s1)
                   | Panic \<Rightarrow> (Panic, s1)
                   | Ok (status, installed) \<Rightarrow>
                     if \<not> installed then (Ok status, s1)
                     else
                       (case (allocated, status) of
                          (Ok pool, reconfiguration_status.Ready g) \<Rightarrow>
                            (case signal_reconfiguration a of
                               (q, a2) \<Rightarrow>
                                 (map_outcome_ok (\<lambda>_. status) q,
                                  s1\<lparr> na_pool := Some pool, na_params := params, na_pending := None,
                                      na_submitted := replicate (length (na_submitted s)) 0, na_generation := g, na_arena := a2 \<rparr>))
                        | _ \<Rightarrow> (Panic, s1))))))"

text \<open>The pool is taken only when the arena has accepted the replacement and retires the storage.\<close>

definition native_arena_reconfigure :: "('b, 'p, 'f, 'c, 's, 'y, 'l) arena_backend \<Rightarrow> env \<Rightarrow> usize \<Rightarrow> native_stream_params \<Rightarrow> (unit, arena_error) outcome \<Rightarrow>
    ('b, 'p, 'f, 'l) native_arena \<Rightarrow> (reconfiguration_status, arena_error) outcome \<times> ('b, 'p, 'f, 'l) native_arena" where
  "native_arena_reconfigure B e page params storage s =
     (if na_faulted s \<or> na_stopped s then (Err ArenaClosed, s)
      else if na_pending s \<noteq> None then (Err (AdmissionFailed ReconfigurationPending), s)
      else case map_err storage_error (ab_upper_bound B params (of_nat (length (na_submitted s))) (na_backend s)) of
        Err error \<Rightarrow> (Err error, s)
      | Panic \<Rightarrow> (Panic, s)
      | Ok bound \<Rightarrow>
        (case map_err storage_error (ab_timeline B (na_backend s) (na_fence s)) of
           Err error \<Rightarrow> (Err error, s)
         | Panic \<Rightarrow> (Panic, s)
         | Ok readiness \<Rightarrow>
           (case begin_native_reconfiguration page bound (length (na_retired s)) (na_arena s) of
              (r, a) \<Rightarrow>
                if length (ar_retired a) \<le> length (ar_retired (na_arena s)) then
                  (case r of
                     Ok _ \<Rightarrow> native_arena_advance B e storage (s\<lparr> na_arena := a \<rparr>)
                   | Err error \<Rightarrow> (Err error, s\<lparr> na_arena := a \<rparr>)
                   | Panic \<Rightarrow> (Panic, s\<lparr> na_arena := a \<rparr>))
                else
                  (case na_pool s of
                     None \<Rightarrow> (Panic, s)
                   | Some pool \<Rightarrow>
                     let s1 = s\<lparr> na_arena := a, na_pool := None, na_pending := Some (params, bound),
                           na_retired := na_retired s @ [\<lparr> rn_pool = pool, rn_readiness = readiness, rn_submitted = na_fence_value s \<rparr>] \<rparr> in
                     (case r of
                        Ok _ \<Rightarrow> native_arena_advance B e storage s1
                      | Err error \<Rightarrow> (Err error, s1)
                      | Panic \<Rightarrow> (Panic, s1))))))"

section \<open>Consumers and shutdown\<close>

record ('s, 'y, 'g) native_arena_grant =
  ng_pool_id :: u64
  ng_surfaces :: "'s list"
  ng_fence_id :: u64
  ng_sync :: 'y
  ng_consumer :: 'g

definition native_grant :: "('b, 'p, 'f, 'c, 's, 'y, 'l) arena_backend \<Rightarrow> 'g \<Rightarrow> ('b, 'p, 'f, 'l) native_arena \<Rightarrow>
    (('s, 'y, 'g) native_arena_grant, arena_error) outcome" where
  "native_grant B consumer s =
     (case na_pool s of
        None \<Rightarrow> Err (Configuration ''native allocation is paused'')
      | Some pool \<Rightarrow>
        and_then (map_err storage_error (nb_export_surfaces B (na_backend s) pool)) (\<lambda>surfaces.
        and_then (map_err storage_error (nb_export_sync B (na_backend s) (na_fence s))) (\<lambda>sync.
          Ok \<lparr> ng_pool_id = nb_pool_id B (na_backend s) pool, ng_surfaces = surfaces,
               ng_fence_id = nb_fence_id B (na_backend s) (na_fence s), ng_sync = sync, ng_consumer = consumer \<rparr>)))"

text \<open>A grant that cannot be completed is dropped, which gives its mapping back.\<close>

definition native_attach :: "('b, 'p, 'f, 'c, 's, 'y, 'l) arena_backend \<Rightarrow> env \<Rightarrow> usize \<Rightarrow> u32 \<Rightarrow> u32 \<Rightarrow> nat option \<Rightarrow> (claim_setup, arena_error) outcome \<Rightarrow>
    ('b, 'p, 'f, 'l) native_arena \<Rightarrow> (('s, 'y, consumer_grant) native_arena_grant, arena_error) outcome \<times> ('b, 'p, 'f, 'l) native_arena" where
  "native_attach B e page holding pid process setup s =
     (case attach_with_recipient (native_env B s e) page holding pid process setup (na_arena s) of
        (Ok consumer, a) \<Rightarrow>
          (case native_grant B consumer s of
             Ok grant \<Rightarrow> (Ok grant, s\<lparr> na_arena := a \<rparr>)
           | Err error \<Rightarrow> (Err error, s\<lparr> na_arena := a\<lparr> ar_claims := alist_map_value (gr_incarnation consumer) (drop_grant consumer) (ar_claims a) \<rparr> \<rparr>)
           | Panic \<Rightarrow> (Panic, s\<lparr> na_arena := a \<rparr>))
      | (Err error, a) \<Rightarrow> (Err error, s\<lparr> na_arena := a \<rparr>)
      | (Panic, a) \<Rightarrow> (Panic, s\<lparr> na_arena := a \<rparr>))"

definition native_configuration_offer :: "('b, 'p, 'f, 'c, 's, 'y, 'l) arena_backend \<Rightarrow> (unit, arena_error) outcome \<Rightarrow> incarnation_id \<Rightarrow>
    ('b, 'p, 'f, 'l) native_arena \<Rightarrow> (('s, 'y, configuration_grant) native_arena_grant option, arena_error) outcome \<times> ('b, 'p, 'f, 'l) native_arena" where
  "native_configuration_offer B fds i s =
     (case configuration_offer fds i (na_arena s) of
        (Ok (Some offer), a) \<Rightarrow>
          (case native_grant B offer s of
             Ok grant \<Rightarrow> (Ok (Some grant), s\<lparr> na_arena := a \<rparr>)
           | Err error \<Rightarrow> (Err error, s\<lparr> na_arena := a\<lparr> ar_claims := alist_map_value i (drop_configuration offer) (ar_claims a) \<rparr> \<rparr>)
           | Panic \<Rightarrow> (Panic, s\<lparr> na_arena := a \<rparr>))
      | (Ok None, a) \<Rightarrow> (Ok None, s\<lparr> na_arena := a \<rparr>)
      | (Err error, a) \<Rightarrow> (Err error, s\<lparr> na_arena := a \<rparr>)
      | (Panic, a) \<Rightarrow> (Panic, s\<lparr> na_arena := a \<rparr>))"

definition native_arena_stop :: "('b, 'p, 'f, 'l) native_arena \<Rightarrow> ('b, 'p, 'f, 'l) native_arena" where
  "native_arena_stop s = s\<lparr> na_stopped := True, na_arena := arena_stop (na_arena s) \<rparr>"

definition native_shutdown_ready :: "('b, 'p, 'f, 'c, 's, 'y, 'l) arena_backend \<Rightarrow> env \<Rightarrow> ('b, 'p, 'f, 'l) native_arena \<Rightarrow>
    (bool, arena_error) outcome \<times> ('b, 'p, 'f, 'l) native_arena" where
  "native_shutdown_ready B e s =
     (if na_faulted s then (Err (RecoveryRequired ''native producer failed; backend use may be unresolved''), s)
      else if \<not> na_stopped s then (Ok False, s)
      else case poll_shutdown_ready (native_env B s e) (na_arena s) of
        (r, a) \<Rightarrow>
          (and_then r (\<lambda>ready.
             if \<not> ready then Ok False
             else map_outcome_ok (\<lambda>v. na_fence_value s \<le> v) (map_err storage_error (ab_completed_value B (na_backend s) (na_fence s)))),
           s\<lparr> na_arena := a \<rparr>))"

text \<open>What a consumer keeps with its mapping, and what it makes of a descriptor.\<close>

definition validate_native_descriptor :: "('s, 'y, 'g) native_arena_grant \<Rightarrow> frame_descriptor \<Rightarrow> (unit, arena_error) outcome" where
  "validate_native_descriptor r d =
     (if fd_pool_id d \<noteq> ng_pool_id r \<or> fd_fence_id d \<noteq> ng_fence_id r \<or> length (ng_surfaces r) \<le> unat (fd_slot_id d) \<or>
         fd_sync_kind d \<noteq> NATIVE_TIMELINE
      then Err (Mapping ''native frame contradicts retained pool, slot, or readiness identity'') else Ok ())"

definition native_surface :: "('s, 'y, 'g) native_arena_grant \<Rightarrow> frame_descriptor \<Rightarrow> ('s, arena_error) outcome" where
  "native_surface r d = (if length (ng_surfaces r) \<le> unat (fd_slot_id d) then Panic else Ok (ng_surfaces r ! unat (fd_slot_id d)))"

text \<open>\<open>install\<close>: the handles must be as many as the resources of the offered mapping.\<close>

definition native_install :: "control_map \<Rightarrow> ('s, 'y, configuration_grant) native_arena_grant \<Rightarrow> resource_header \<Rightarrow> resource_map \<Rightarrow> claim_map \<Rightarrow>
    (configuration_install \<times> consumer_resources option, arena_error) outcome \<times> claim_map" where
  "native_install ctl g h m c =
     (if payload_capacity (cg_layout (ng_consumer g)) \<noteq> 0 \<or> unat (resources (cg_layout (ng_consumer g))) \<noteq> length (ng_surfaces g)
      then (Err (Mapping ''native replacement handles disagree with resource layout''), drop_configuration (ng_consumer g) c)
      else install_with_resources ctl (ng_consumer g) h m c)"

end
