(* ===== verification/Native_Arena_Safety.thy ===== *)
theory Native_Arena_Safety
  imports Native_Arena
begin

text \<open>
  A native arena never panics, and staging spares every surface in use.  The search with the platform's closure is the
  arena's search, so the arena's own invariants carry over.
\<close>

section \<open>The search with a state is the arena's search\<close>

lemma find_free_cong:
  "\<forall>j \<in> set is. p j = q j \<Longrightarrow> find_free oldest cs p is m = find_free oldest cs q is m"
  by (induction "is" arbitrary: m) (simp_all add: Let_def split: outcome.split option.split)

lemma find_free_staged_Cons:
  "find_free_staged oldest cs prepare (i # is) m x =
     (if rm_reserved m ! i then find_free_staged oldest cs prepare is m x
      else if slot_gen m i \<noteq> 0 \<and> oldest \<le> slot_gen m i then find_free_staged oldest cs prepare is m x
      else if slot_gen m i \<noteq> 0 \<and> claims_contain cs (slot_gen m i)
      then find_free_staged oldest cs prepare is (retire_at i m) x
      else case prepare i (slot_gen m i) x of
          (Err error, x1) \<Rightarrow> (Err error, retire_at i m, x1)
        | (Panic, x1) \<Rightarrow> (Panic, retire_at i m, x1)
        | (Ok None, x1) \<Rightarrow> find_free_staged oldest cs prepare is (retire_at i m) x1
        | (Ok (Some d), x1) \<Rightarrow> (Ok (Some (i, d)), retire_at i m, x1))"
  unfolding find_free_staged.simps Let_def slot_gen_def retire_at_def by simp

text \<open>What holds of the state before the search holds after it when the closure keeps it at every slot that may be tried.\<close>

lemma find_free_staged_run:
  fixes prepare :: "nat \<Rightarrow> u64 \<Rightarrow> 'x \<Rightarrow> ('d option, arena_error) outcome \<times> 'x"
  assumes "distinct is" "\<forall>j \<in> set is. j < length (rm_states m)" "I x"
    and step: "\<And>i g y. i \<in> set is \<Longrightarrow> \<not> blocked oldest cs m i \<Longrightarrow> I y \<Longrightarrow> I (snd (prepare i g y)) \<and> (safe \<longrightarrow> fst (prepare i g y) \<noteq> Panic)"
    and run: "find_free_staged oldest cs prepare is m x = (r, m', x')"
  shows "I x' \<and> (\<exists>p. find_free oldest cs p is m = (r, m') \<and> (safe \<longrightarrow> (\<forall>j g. p j g \<noteq> Panic)))"
  using assms
proof (induction "is" arbitrary: m x)
  case Nil
  then show ?case by (auto intro!: exI [of _ "\<lambda>_ _. Ok None"])
next
  case (Cons i "is")
  note find_free.simps [simp del] find_free_staged.simps [simp del]
  have rec: "I x' \<and> (\<exists>p. find_free oldest cs p is m1 = (r, m') \<and> (safe \<longrightarrow> (\<forall>j g. p j g \<noteq> Panic)))"
    if "find_free_staged oldest cs prepare is m1 x1 = (r, m', x')" "same_gens m m1" "I x1" for m1 x1
  proof (rule Cons.IH [OF _ _ that(3) _ that(1)])
    have len: "length (rm_states m1) = length (rm_states m)" using that(2) by (auto simp: same_gens_def)
    show "distinct is" "\<forall>j \<in> set is. j < length (rm_states m1)" using Cons.prems(1,2) len by auto
    show "I (snd (prepare j g y)) \<and> (safe \<longrightarrow> fst (prepare j g y) \<noteq> Panic)" if j: "j \<in> set is" "\<not> blocked oldest cs m1 j" "I y" for j g y
      using Cons.prems(4) [of j y g] j Cons.prems(2) same_gens_blocked [OF \<open>same_gens m m1\<close>, of j oldest cs] by auto
  qed
  have skip: "I x' \<and> (\<exists>p. find_free oldest cs p (i # is) m = (r, m') \<and> (safe \<longrightarrow> (\<forall>j g. p j g \<noteq> Panic)))"
    if "find_free_staged oldest cs prepare is m1 x = (r, m', x')" "same_gens m m1" "\<And>p :: nat \<Rightarrow> u64 \<Rightarrow> ('d option, arena_error) outcome. find_free oldest cs p (i # is) m = find_free oldest cs p is m1" for m1
    using rec [OF that(1,2) Cons.prems(3)] unfolding that(3) .
  show ?case
  proof (cases "blocked oldest cs m i")
    case True
    show ?thesis
    proof (cases "rm_reserved m ! i \<or> slot_gen m i \<noteq> 0 \<and> oldest \<le> slot_gen m i")
      case True
      then have "find_free_staged oldest cs prepare is m x = (r, m', x')" using Cons.prems(5) by (auto simp: find_free_staged_Cons split: if_splits)
      then show ?thesis by (rule skip) (use True in \<open>auto simp: find_free_Cons\<close>)
    next
      case False
      then have b: "slot_gen m i \<noteq> 0" "claims_contain cs (slot_gen m i)" using True by (auto simp: blocked_def)
      then have "find_free_staged oldest cs prepare is (retire_at i m) x = (r, m', x')"
        using Cons.prems(5) False by (auto simp: find_free_staged_Cons split: if_splits)
      then show ?thesis by (rule skip [OF _ same_gens_retire]) (use b False in \<open>auto simp: find_free_Cons\<close>)
    qed
  next
    case False
    obtain q x1 where q: "prepare i (slot_gen m i) x = (q, x1)" by fastforce
    have k: "I x1" "safe \<longrightarrow> q \<noteq> Panic" using Cons.prems(4) [of i x "slot_gen m i"] False Cons.prems(3) q by auto
    have run: "(case q of Err error \<Rightarrow> (Err error, retire_at i m, x1) | Panic \<Rightarrow> (Panic, retire_at i m, x1)
        | Ok None \<Rightarrow> find_free_staged oldest cs prepare is (retire_at i m) x1 | Ok (Some d) \<Rightarrow> (Ok (Some (i, d)), retire_at i m, x1)) = (r, m', x')"
      using Cons.prems(5) False q by (auto simp: find_free_staged_Cons blocked_def split: if_splits outcome.splits option.splits)
    have pure: "find_free oldest cs p (i # is) m = (case p i (slot_gen m i) of Err error \<Rightarrow> (Err error, retire_at i m) | Panic \<Rightarrow> (Panic, retire_at i m)
        | Ok None \<Rightarrow> find_free oldest cs p is (retire_at i m) | Ok (Some d) \<Rightarrow> (Ok (Some (i, d)), retire_at i m))" for p
      using False by (auto simp: find_free_Cons blocked_def split: if_splits)
    show ?thesis
    proof (cases "q = Ok None")
      case True
      then have "find_free_staged oldest cs prepare is (retire_at i m) x1 = (r, m', x')" using run by simp
      from rec [OF this same_gens_retire k(1)]
      obtain p where p: "I x'" "find_free oldest cs p is (retire_at i m) = (r, m')" "safe \<longrightarrow> (\<forall>j g. p j g \<noteq> Panic)" by blast
      let ?p = "p(i := (\<lambda>_. Ok None))"
      have "find_free oldest cs ?p is (retire_at i m) = find_free oldest cs p is (retire_at i m)"
        by (rule find_free_cong) (use Cons.prems(1) in auto)
      then have "find_free oldest cs ?p (i # is) m = (r, m')" using p(2) by (simp add: pure)
      moreover have "safe \<longrightarrow> (\<forall>j g. ?p j g \<noteq> Panic)" using p(3) by simp
      ultimately show ?thesis using p(1) by blast
    next
      case False
      then have "I x' \<and> find_free oldest cs (\<lambda>_ _. q) (i # is) m = (r, m')"
        using run k(1) by (auto simp: pure split: outcome.splits option.splits)
      then show ?thesis using k(2) by (intro conjI exI [of _ "\<lambda>_ _. q"]) auto
    qed
  qed
qed

lemma distinct_slot_candidates: "distinct (slot_candidates k n)"
proof (cases "n = 0")
  case False
  then have "card (set (slot_candidates k n)) = length (slot_candidates k n)" by (simp add: set_slot_candidates) (simp add: slot_candidates_def)
  then show ?thesis by (rule card_distinct)
qed (simp add: slot_candidates_def)

lemma publish_resource_staged_run:
  fixes prepare :: "nat \<Rightarrow> u64 \<Rightarrow> 'x \<Rightarrow> (frame_descriptor option, arena_error) outcome \<times> 'x"
  assumes inv: "arena_inv a" and np: "\<forall>h. retired_ready e h \<noteq> Panic" and I: "I x"
    and step: "\<And>k a1 m i g y. poll_cleanup e a = (Ok k, a1) \<Longrightarrow> ar_resources a = Some m \<Longrightarrow> i < length (rm_states m) \<Longrightarrow>
      \<not> blocked (oldest_retained (ar_cursor a) (history (rm_layout m))) (ar_claims a1) m i \<Longrightarrow> I y \<Longrightarrow>
      I (snd (prepare i g y)) \<and> (safe \<longrightarrow> fst (prepare i g y) \<noteq> Panic)"
    and run: "publish_resource_staged e prepare a x = (r, a', x')"
  shows "I x' \<and> (\<exists>p. publish_resource e p a = (r, a') \<and> (safe \<longrightarrow> (\<forall>j g. p j g \<noteq> Panic)))"
proof -
  obtain q a1 where q: "poll_cleanup e a = (q, a1)" by fastforce
  note pc = poll_cleanup_inv [OF inv np]
  have i1: "arena_inv a1" and fr: "cleanup_frame_ok a a1" using pc(2,3) q by simp_all
  have same: "ar_resources a1 = ar_resources a" "ar_cursor a1 = ar_cursor a" using fr by (simp_all add: cleanup_frame_ok_def)
  have id: "m1\<lparr> rm_payload := write_at n [] (rm_payload m1) \<rparr> = m1" for m1 n by (simp add: write_at_def)
  show ?thesis
  proof (cases "(case ar_resources a of Some m \<Rightarrow> payload_capacity (rm_layout m) \<noteq> 0 | None \<Rightarrow> False) \<or> w_terminal (ar_control a) \<noteq> 0 \<or>
      (\<nexists>k. q = Ok k) \<or> ar_resources a = None \<or> ar_cursor a = MAX_GENERATION")
    case True
    then have "x' = x \<and> publish_resource e (\<lambda>_ _. Ok None) a = (r, a')"
      using run q same
      by (cases q) (auto simp: publish_resource_staged_def publish_resource_def publish_prepared_def split: if_splits option.splits)
    then show ?thesis using I by (intro conjI exI [of _ "\<lambda>_ _. Ok None"]) auto
  next
    case False
    then obtain k m where t: "q = Ok k" "ar_resources a = Some m" by auto
    have m: "map_wf m" using i1 t(2) same by (auto simp: arena_inv_def resources_ok_def)
    let ?is = "slot_candidates (ar_next_slot a1) (unat (resources (rm_layout m)))"
    have lo: "layout_ok (rm_layout m)" using i1 t(2) same by (auto simp: arena_inv_def resources_ok_def layout_matches_def)
    have "0 < unat (resources (rm_layout m))" using lo layout_new_Ok(7) by (fastforce simp: layout_ok_def)
    then have set: "set ?is = {..<length (rm_states m)}" using m by (simp add: set_slot_candidates map_wf_def)
    let ?old = "oldest_retained (ar_cursor a1) (history (rm_layout m))"
    obtain r1 m1 x1 where f: "find_free_staged ?old (ar_claims a1) prepare ?is m x = (r1, m1, x1)" by (metis surj_pair)
    have ff: "I x1 \<and> (\<exists>p. find_free ?old (ar_claims a1) p ?is m = (r1, m1) \<and> (safe \<longrightarrow> (\<forall>j g. p j g \<noteq> Panic)))"
    proof (rule find_free_staged_run [where I = I and x = x and prepare = prepare, OF distinct_slot_candidates _ I _ f])
      show "\<forall>j \<in> set ?is. j < length (rm_states m)" using set by simp
      show "I (snd (prepare i g y)) \<and> (safe \<longrightarrow> fst (prepare i g y) \<noteq> Panic)"
        if "i \<in> set ?is" "\<not> blocked ?old (ar_claims a1) m i" "I y" for i g y
        using step [OF q [unfolded t(1)] t(2) _ _ that(3)] that(1,2) set same(2) by simp
    qed
    then obtain p where p: "find_free ?old (ar_claims a1) p ?is m = (r1, m1)" "safe \<longrightarrow> (\<forall>j g. p j g \<noteq> Panic)" by blast
    have "x' = x1 \<and> publish_resource e p a = (r, a')"
      using run q t False same p(1) f
      by (cases r1) (auto simp: publish_resource_staged_def publish_resource_def publish_prepared_def id Let_def split: option.splits prod.splits)
    then show ?thesis using ff p(2) by blast
  qed
qed

section \<open>The platform\<close>

text \<open>A platform that answers with a value or an error.\<close>

definition platform_answers :: "('b, 'p, 'f, 'c, 's, 'y, 'l) arena_backend \<Rightarrow> bool" where
  "platform_answers B \<longleftrightarrow>
     (\<forall>cs x. fst (nb_claim B cs x) \<noteq> Panic) \<and> (\<forall>i c x. fst (nb_stage B i c x) \<noteq> Panic) \<and> (\<forall>v x. fst (nb_signal B v x) \<noteq> Panic) \<and>
     (\<forall>b p. nb_export_surfaces B b p \<noteq> Panic) \<and> (\<forall>b f. nb_export_sync B b f \<noteq> Panic) \<and>
     (\<forall>ps n b. ab_upper_bound B ps n b \<noteq> Panic) \<and> (\<forall>ps n k b. fst (ab_allocate_bounded B ps n k b) \<noteq> Panic) \<and>
     (\<forall>b p. ab_pool_bytes B b p \<noteq> Panic) \<and> (\<forall>b f. ab_completed_value B b f \<noteq> Panic) \<and> (\<forall>b f. ab_timeline B b f \<noteq> Panic) \<and>
     (\<forall>b l. ab_timeline_value B b l \<noteq> Panic)"

text \<open>What a platform may write: staging a frame, the surface it is staged into.\<close>

definition platform_writes :: "('b, 'p, 'f, 'c, 's, 'y, 'l) arena_backend \<Rightarrow> ('b \<Rightarrow> 'p \<Rightarrow> u32 \<Rightarrow> 'v) \<Rightarrow> bool" where
  "platform_writes B surf \<longleftrightarrow>
     (\<forall>cs b p r b' p'. nb_claim B cs (b, p) = (r, b', p') \<longrightarrow> surf b' p' = surf b p) \<and>
     (\<forall>i c b p r b' p' j. nb_stage B i c (b, p) = (r, b', p') \<longrightarrow> j \<noteq> i \<longrightarrow> surf b' p' j = surf b p j) \<and>
     (\<forall>v b f r b' f' p. nb_signal B v (b, f) = (r, b', f') \<longrightarrow> surf b' p = surf b p)"

lemma native_env_answers: "platform_answers B \<Longrightarrow> \<forall>h. retired_ready (native_env B s e) h \<noteq> Panic"
  by (auto simp: platform_answers_def native_env_def retired_pool_ready_def)

text \<open>What the closure leaves alone.\<close>

definition staged :: "('b, 'p, 'f, 'l) native_arena \<Rightarrow> ('b, 'p, 'f, 'l) native_arena \<Rightarrow> bool" where
  "staged s s' \<longleftrightarrow> (\<exists>b p f v us. p \<noteq> None \<and> length us = length (na_submitted s) \<and>
     s' = s\<lparr> na_backend := b, na_pool := p, na_fence := f, na_fence_value := v, na_submitted := us \<rparr>)"

lemma prepare_native_run:
  assumes "na_pool y \<noteq> None" "i < length (na_submitted y)"
  shows "staged y (snd (prepare_native B frame ts hint ready i g y))"
    and "platform_answers B \<Longrightarrow> fst (prepare_native B frame ts hint ready i g y) \<noteq> Panic"
proof -
  obtain pool where pool: "na_pool y = Some pool" using assms(1) by blast
  obtain r b p where c: "nb_claim B [\<lparr> ca_slot_id = of_nat i, ca_last_cursor = g \<rparr>] (na_backend y, pool) = (r, b, p)" by (metis surj_pair)
  obtain r1 b1 p1 where st: "nb_stage B (of_nat i) frame (b, p) = (r1, b1, p1)" by (metis surj_pair)
  obtain r2 b2 f where sg: "nb_signal B (na_fence_value y + 1) (b1, na_fence y) = (r2, b2, f)" by (metis surj_pair)
  have np: "platform_answers B \<Longrightarrow> r \<noteq> Panic \<and> r1 \<noteq> Panic \<and> r2 \<noteq> Panic"
    using c st sg unfolding platform_answers_def by (metis fst_conv)
  have self: "staged y y" using assms(1) unfolding staged_def
    by (intro exI [of _ "na_backend y"] exI [of _ "na_pool y"] exI [of _ "na_fence y"] exI [of _ "na_fence_value y"] exI [of _ "na_submitted y"]) simp
  have part: "staged y (y\<lparr> na_backend := b', na_pool := Some p' \<rparr>)" for b' p'
    unfolding staged_def by (rule exI [of _ b'], rule exI [of _ "Some p'"], rule exI [of _ "na_fence y"], rule exI [of _ "na_fence_value y"],
      rule exI [of _ "na_submitted y"]) simp
  have full: "staged y (y\<lparr> na_pool := Some p', na_fence_value := v, na_submitted := (na_submitted y)[i := v], na_backend := b', na_fence := f' \<rparr>)" for b' p' v f'
    unfolding staged_def by (rule exI [of _ b'], rule exI [of _ "Some p'"], rule exI [of _ f'], rule exI [of _ v],
      rule exI [of _ "(na_submitted y)[i := v]"]) simp
  show "staged y (snd (prepare_native B frame ts hint ready i g y))"
    using pool c st sg self part full assms(2)
    by (auto simp: prepare_native_def stage_native_def Let_def split: option.split outcome.split slot_claim.split)
  show "fst (prepare_native B frame ts hint ready i g y) \<noteq> Panic" if "platform_answers B"
    using pool c st sg np [OF that] assms(2)
    by (auto simp: prepare_native_def stage_native_def Let_def split: option.split outcome.split slot_claim.split)
qed

text \<open>A slot that is not tried, or whose earlier writes are not complete, keeps its surface.\<close>

lemma prepare_native_spares:
  assumes w: "platform_writes B surf" and pool: "na_pool y = Some pool" and i: "i < length (na_submitted y)"
    and o: "(of_nat j :: u32) \<noteq> of_nat i \<or> i = j \<and> ready < na_submitted y ! j" and out: "snd (prepare_native B frame ts hint ready i g y) = y'"
  shows "\<exists>pool'. na_pool y' = Some pool' \<and> surf (na_backend y') pool' (of_nat j) = surf (na_backend y) pool (of_nat j) \<and>
    (i \<noteq> j \<longrightarrow> na_submitted y' ! j = na_submitted y ! j) \<and> (i = j \<longrightarrow> y' = y)"
proof (cases "i = j")
  case True
  then have "y' = y" using o out pool by (auto simp: prepare_native_def split: if_splits option.splits)
  then show ?thesis using pool by simp
next
  case False
  then have ne: "(of_nat j :: u32) \<noteq> of_nat i" using o by blast
  obtain r b p where c: "nb_claim B [\<lparr> ca_slot_id = of_nat i, ca_last_cursor = g \<rparr>] (na_backend y, pool) = (r, b, p)" by (metis surj_pair)
  obtain r1 b1 p1 where st: "nb_stage B (of_nat i) frame (b, p) = (r1, b1, p1)" by (metis surj_pair)
  obtain r2 b2 f where sg: "nb_signal B (na_fence_value y + 1) (b1, na_fence y) = (r2, b2, f)" by (metis surj_pair)
  have e: "surf b p = surf (na_backend y) pool" "surf b1 p1 (of_nat j) = surf b p (of_nat j)" "surf b2 p1 = surf b1 p1"
    using w c st sg ne unfolding platform_writes_def by metis+
  show ?thesis using out pool c st sg e False i
    by (auto simp: prepare_native_def stage_native_def Let_def split: if_splits option.splits outcome.splits slot_claim.splits)
qed

section \<open>The invariant\<close>

definition native_ok :: "('b, 'p, 'f, 'l) native_arena \<Rightarrow> bool" where
  "native_ok s \<longleftrightarrow> arena_ok (na_arena s) \<and>
     length (na_submitted s) = unat (resource_capacity (limits (ar_admission (na_arena s)))) \<and>
     (ar_resources (na_arena s) \<noteq> None \<longrightarrow> na_pool s \<noteq> None)"

lemma native_okD:
  assumes "native_ok s"
  shows "arena_ok (na_arena s)" "arena_inv (na_arena s)"
    and "ar_resources (na_arena s) = Some m \<Longrightarrow> length (rm_states m) = length (na_submitted s) \<and> na_pool s \<noteq> None"
proof -
  show ok: "arena_ok (na_arena s)" using assms by (simp add: native_ok_def)
  show inv: "arena_inv (na_arena s)" using ok by (rule arena_ok_inv)
  show "length (rm_states m) = length (na_submitted s) \<and> na_pool s \<noteq> None" if "ar_resources (na_arena s) = Some m"
    using assms inv that by (auto simp: native_ok_def arena_inv_def resources_ok_def layout_matches_def map_wf_def)
qed

text \<open>An operation of the arena alone that installs no storage.\<close>

lemma native_ok_arena:
  assumes "native_ok s" "step_ok (na_arena s) x" "ar_resources (na_arena s) = None \<longrightarrow> ar_resources (snd x) = None"
  shows "native_ok (s\<lparr> na_arena := snd x \<rparr>)"
  using assms by (auto simp: native_ok_def step_ok_def)

lemma poll_resources [simp]: "arena_ok a \<Longrightarrow> \<forall>h. retired_ready e h \<noteq> Panic \<Longrightarrow> ar_resources (snd (poll_cleanup e a)) = ar_resources a"
  using poll_step(2) [of a e] by (simp add: cleanup_frame_ok_def)

lemma stop_resources [simp]: "ar_resources (arena_stop a) = ar_resources a"
  by (simp add: arena_stop_def)

lemma publish_resources:
  assumes "arena_ok a" "\<forall>h. retired_ready e h \<noteq> Panic" "ar_resources a = None"
  shows "ar_resources (snd (publish_resource e p a)) = None"
proof -
  obtain q a1 where q: "poll_cleanup e a = (q, a1)" by fastforce
  then have "ar_resources a1 = None" using poll_resources [OF assms(1,2)] assms(3) by simp
  then show ?thesis using q assms(3) by (cases q) (simp_all add: publish_resource_def publish_prepared_def)
qed

lemma staged_trans: "staged x y \<Longrightarrow> staged y z \<Longrightarrow> staged x z"
  unfolding staged_def by fastforce

lemma staged_D: "staged s s' \<Longrightarrow> na_pool s' \<noteq> None \<and> length (na_submitted s') = length (na_submitted s) \<and> na_arena s' = na_arena s"
  by (auto simp: staged_def)

text \<open>The one place where the arena calls the platform.\<close>

lemma publish_staged_run:
  assumes ok: "native_ok s" and B: "platform_answers B" and s1: "na_arena s1 = na_arena s" "na_pool s1 = na_pool s" "na_submitted s1 = na_submitted s"
    and run: "publish_resource_staged (native_env B s e) (prepare_native B frame ts hint ready) (na_arena s) s1 = (r, a, s2)"
  shows "r \<noteq> Panic \<and> native_ok (s2\<lparr> na_arena := a \<rparr>)"
proof -
  let ?e = "native_env B s e"
  note d = native_okD [OF ok] and np = native_env_answers [OF B, of s e]
  have "(s2 = s1 \<or> staged s1 s2) \<and> (\<exists>p. publish_resource ?e p (na_arena s) = (r, a) \<and> (True \<longrightarrow> (\<forall>j g. p j g \<noteq> Panic)))"
  proof (rule publish_resource_staged_run [where I = "\<lambda>y. y = s1 \<or> staged s1 y", OF d(2) np _ _ run])
    fix k a1 m i g y
    assume m: "ar_resources (na_arena s) = Some m" and i: "i < length (rm_states m)" and y: "y = s1 \<or> staged s1 y"
    have l: "length (rm_states m) = length (na_submitted s) \<and> na_pool s \<noteq> None" by (rule d(3) [OF m])
    have pool: "na_pool y \<noteq> None" "i < length (na_submitted y)"
      using y l i s1 staged_D [of s1 y] by auto
    note pr = prepare_native_run [OF pool, of B frame ts hint ready g]
    have "staged s1 (snd (prepare_native B frame ts hint ready i g y))" using y pr(1) staged_trans by blast
    then show "(snd (prepare_native B frame ts hint ready i g y) = s1 \<or> staged s1 (snd (prepare_native B frame ts hint ready i g y))) \<and>
      (True \<longrightarrow> fst (prepare_native B frame ts hint ready i g y) \<noteq> Panic)" using pr(2) [OF B] by simp
  qed simp
  then obtain p where p: "s2 = s1 \<or> staged s1 s2" "publish_resource ?e p (na_arena s) = (r, a)" "\<forall>j g. p j g \<noteq> Panic" by blast
  have st: "step_ok (na_arena s) (r, a)" using publish_resource_step [OF d(1) np p(3)] p(2) by simp
  have none: "ar_resources (na_arena s) = None \<longrightarrow> ar_resources a = None" using publish_resources [OF d(1) np] p(2) by (metis snd_conv)
  have "native_ok (s\<lparr> na_arena := a \<rparr>)" using native_ok_arena [OF ok st] none by simp
  moreover have "na_pool s2 \<noteq> None \<or> na_pool s2 = na_pool s" "length (na_submitted s2) = length (na_submitted s)"
    using p(1) s1 staged_D [of s1 s2] by auto
  ultimately show ?thesis using st by (auto simp: native_ok_def step_ok_def)
qed

lemma native_publish_ok:
  assumes ok: "native_ok s" and B: "platform_answers B"
  shows "fst (native_arena_publish B e frame ts s) \<noteq> Panic \<and> native_ok (snd (native_arena_publish B e frame ts s))"
proof -
  let ?s1 = "s\<lparr> na_sequence := na_sequence s + 1 \<rparr>"
  have fr: "fst (publish_frame B e frame ts s) \<noteq> Panic \<and> native_ok (snd (publish_frame B e frame ts s))"
  proof (cases "ab_completed_value B (na_backend s) (na_fence s)")
    case (Ok ready)
    obtain r a s2 where run: "publish_resource_staged (native_env B s e) (prepare_native B frame ts (nb_slot_hint B (na_backend s) frame) ready)
        (na_arena s) ?s1 = (r, a, s2)" by (metis surj_pair)
    have "r \<noteq> Panic \<and> native_ok (s2\<lparr> na_arena := a \<rparr>)" by (rule publish_staged_run [OF ok B _ _ _ run]) simp_all
    then show ?thesis using ok Ok run
      by (auto simp: publish_frame_def Let_def native_ok_def split: outcome.split Arena_Producer.publish_outcome.split)
  qed (use ok B in \<open>auto simp: publish_frame_def Let_def native_ok_def platform_answers_def\<close>)
  obtain r s1 where p: "publish_frame B e frame ts s = (r, s1)" by fastforce
  have "native_ok (s1\<lparr> na_faulted := True, na_arena := arena_stop (na_arena s1) \<rparr>)"
    using fr p stop_step [of "na_arena s1"] by (auto simp: native_ok_def)
  then show ?thesis using fr ok p by (cases r) (auto simp: native_arena_publish_def)
qed

lemma signal_resources [simp]: "ar_resources (snd (signal_reconfiguration a)) = ar_resources a"
  by (auto simp: signal_reconfiguration_def Let_def split: option.split prod.split)

lemma map_err_Panic [simp]: "map_err f x = Panic \<longleftrightarrow> x = Panic"
  by (cases x) simp_all

text \<open>The replacement is installed exactly when the arena says so.\<close>

lemma advance_installs:
  assumes "arena_ok a" "\<forall>h. retired_ready e h \<noteq> Panic" "advance_with_allocation e st al a = (r, a')"
  shows "r = Ok (x, True) \<Longrightarrow> (\<exists>g. x = reconfiguration_status.Ready g) \<and> (\<exists>n. al = Ok n)"
    and "\<nexists>x. r = Ok (x, True) \<Longrightarrow> ar_resources a' = ar_resources a"
proof -
  obtain q a1 where q: "poll_cleanup e a = (q, a1)" by fastforce
  have "ar_resources a1 = ar_resources a" using poll_resources [OF assms(1,2)] q by simp
  then have "(r = Ok (x, True) \<longrightarrow> (\<exists>g. x = reconfiguration_status.Ready g) \<and> (\<exists>n. al = Ok n)) \<and>
      ((\<nexists>x. r = Ok (x, True)) \<longrightarrow> ar_resources a' = ar_resources a)"
    using assms(3) q
    by (auto simp: advance_with_allocation_def Let_def split: if_splits outcome.splits option.splits prod.splits admission_error.splits)
  then show "r = Ok (x, True) \<Longrightarrow> (\<exists>g. x = reconfiguration_status.Ready g) \<and> (\<exists>n. al = Ok n)"
    "\<nexists>x. r = Ok (x, True) \<Longrightarrow> ar_resources a' = ar_resources a" by blast+
qed

lemma native_advance_ok:
  assumes ok: "native_ok s" and B: "platform_answers B" and st: "storage \<noteq> Panic"
  shows "fst (native_arena_advance B e storage s) \<noteq> Panic \<and> native_ok (snd (native_arena_advance B e storage s))"
proof (cases "na_faulted s \<or> na_stopped s \<or> na_pending s = None")
  case True
  then show ?thesis using ok by (auto simp: native_arena_advance_def split: option.split)
next
  case False
  then obtain params bound where pn: "na_pending s = Some (params, bound)" by auto
  obtain al b where al: "ab_allocate_bounded B params (of_nat (length (na_submitted s))) bound (na_backend s) = (al, b)" by fastforce
  let ?bytes = "map_err storage_error (and_then al (ab_pool_bytes B b))" and ?e = "native_env B s e"
  have np: "al \<noteq> Panic" using B al unfolding platform_answers_def by (metis fst_conv)
  then have np2: "?bytes \<noteq> Panic" using B by (cases al) (simp_all add: platform_answers_def)
  obtain r a where r: "advance_with_allocation ?e storage ?bytes (na_arena s) = (r, a)" by fastforce
  note d = native_okD [OF ok] and en = native_env_answers [OF B, of s e]
  have so: "step_ok (na_arena s) (r, a)" using advance_step [OF d(1) en st np2] r by simp
  note ins = advance_installs [OF d(1) en r]
  let ?s1 = "s\<lparr> na_arena := a, na_backend := (if allocation_reached ?e storage (na_arena s) then b else na_backend s) \<rparr>"
  show ?thesis
  proof (cases "\<exists>x. r = Ok (x, True)")
    case True
    then obtain x where x: "r = Ok (x, True)" by blast
    then obtain g n where g: "x = reconfiguration_status.Ready g" "?bytes = Ok n" using ins(1) by blast
    then obtain pool where pool: "al = Ok pool" by (cases al) auto
    obtain q a2 where q: "signal_reconfiguration a = (q, a2)" by fastforce
    have "step_ok a (q, a2)" using signal_reconfiguration_step [of a] so q by (simp add: step_ok_def)
    then show ?thesis using ok False pn al r x g(1) pool q so
      by (auto simp: native_arena_advance_def Let_def native_ok_def step_ok_def)
  next
    case none: False
    then have "ar_resources a = ar_resources (na_arena s)" by (rule ins(2))
    then have "native_ok ?s1" using ok so by (auto simp: native_ok_def step_ok_def)
    then show ?thesis using False pn al r none so
      by (cases r) (auto simp: native_arena_advance_def Let_def step_ok_def)
  qed
qed

lemma begin_retires:
  assumes "begin_native_reconfiguration page bound h a = (r, a')"
  shows "length (ar_retired a) < length (ar_retired a') \<Longrightarrow> ar_resources a \<noteq> None \<and> ar_resources a' = None"
    and "length (ar_retired a') \<le> length (ar_retired a) \<Longrightarrow> ar_resources a' = ar_resources a"
proof -
  have "ar_retired (snd (signal_reconfiguration x)) = ar_retired x" for x
    by (auto simp: signal_reconfiguration_def arena_stop_def Let_def split: option.split prod.split)
  then have same: "ar_retired y = ar_retired x \<and> ar_resources y = ar_resources x" if "signal_reconfiguration x = (q, y)" for x q y
    using that signal_resources [of x] by (metis snd_conv)
  have "(length (ar_retired a) < length (ar_retired a') \<longrightarrow> ar_resources a \<noteq> None \<and> ar_resources a' = None) \<and>
      (length (ar_retired a') \<le> length (ar_retired a) \<longrightarrow> ar_resources a' = ar_resources a)"
    using assms
    by (auto simp: begin_native_reconfiguration_def begin_arena_reconfiguration_def Let_def dest!: same split: if_splits option.splits outcome.splits prod.splits)
  then show "length (ar_retired a) < length (ar_retired a') \<Longrightarrow> ar_resources a \<noteq> None \<and> ar_resources a' = None"
    "length (ar_retired a') \<le> length (ar_retired a) \<Longrightarrow> ar_resources a' = ar_resources a" by blast+
qed

lemma native_arena_reconfigure_ok:
  assumes ok: "native_ok s" and B: "platform_answers B" and st: "storage \<noteq> Panic"
  shows "fst (native_arena_reconfigure B e page params storage s) \<noteq> Panic \<and> native_ok (snd (native_arena_reconfigure B e page params storage s))"
proof (cases "na_faulted s \<or> na_stopped s \<or> na_pending s \<noteq> None \<or>
    (\<nexists>x. ab_upper_bound B params (of_nat (length (na_submitted s))) (na_backend s) = Ok x) \<or> (\<nexists>x. ab_timeline B (na_backend s) (na_fence s) = Ok x)")
  case True
  have "ab_upper_bound B params (of_nat (length (na_submitted s))) (na_backend s) \<noteq> Panic" "ab_timeline B (na_backend s) (na_fence s) \<noteq> Panic"
    using B by (simp_all add: platform_answers_def)
  then show ?thesis using True ok
    by (cases "ab_upper_bound B params (of_nat (length (na_submitted s))) (na_backend s)"; cases "ab_timeline B (na_backend s) (na_fence s)")
      (auto simp: native_arena_reconfigure_def)
next
  case False
  then obtain bound l where x: "ab_upper_bound B params (of_nat (length (na_submitted s))) (na_backend s) = Ok bound"
    "ab_timeline B (na_backend s) (na_fence s) = Ok l" by blast
  obtain r a where r: "begin_native_reconfiguration page bound (length (na_retired s)) (na_arena s) = (r, a)" by fastforce
  note d = native_okD [OF ok] and br = begin_retires [OF r]
  have so: "step_ok (na_arena s) (r, a)" using begin_native_step [OF d(1), of page bound "length (na_retired s)"] r by simp
  show ?thesis
  proof (cases "length (ar_retired a) \<le> length (ar_retired (na_arena s))")
    case True
    then have k: "native_ok (s\<lparr> na_arena := a \<rparr>)" using native_ok_arena [OF ok so] br(2) by simp
    show ?thesis using False x r True so native_advance_ok [OF k B st, of e] k
      by (cases r) (auto simp: native_arena_reconfigure_def step_ok_def)
  next
    case push: False
    then have res: "ar_resources (na_arena s) \<noteq> None" "ar_resources a = None" using br(1) by simp_all
    then obtain pool where pool: "na_pool s = Some pool" using d(3) by auto
    let ?s1 = "s\<lparr> na_arena := a, na_pool := None, na_pending := Some (params, bound),
      na_retired := na_retired s @ [\<lparr> rn_pool = pool, rn_readiness = l, rn_submitted = na_fence_value s \<rparr>] \<rparr>"
    have k: "native_ok ?s1" using ok so res(2) by (simp add: native_ok_def step_ok_def)
    show ?thesis using False x r push so pool native_advance_ok [OF k B st, of e] k
      by (cases r) (auto simp: native_arena_reconfigure_def step_ok_def Let_def)
  qed
qed

lemma grant_no_panic: "platform_answers B \<Longrightarrow> native_grant B c s \<noteq> Panic"
  by (auto simp: native_grant_def platform_answers_def and_then_eq_Panic split: option.split)

text \<open>Dropping a grant rewrites words of one claim page.\<close>

lemma claim_drops_wf:
  "claim_wf c \<Longrightarrow> claim_wf (drop_grant g c) \<and> cm_frames (drop_grant g c) = cm_frames c"
  "claim_wf c \<Longrightarrow> claim_wf (drop_configuration offer c) \<and> cm_frames (drop_configuration offer c) = cm_frames c"
proof -
  assume c: "claim_wf c"
  have w: "claim_wf (c\<lparr> mapping_slots := (mapping_slots c)[n := 0], w_offered := 0 \<rparr>)" for n using c by (simp add: claim_wf_def)
  have ack: "claim_wf (acknowledge_quiescent x) = claim_wf x" "cm_frames (acknowledge_quiescent x) = cm_frames x"
    "claim_wf (signal_release x) = claim_wf x" "cm_frames (signal_release x) = cm_frames x" for x
    by (simp_all add: acknowledge_quiescent_def signal_release_def claim_wf_def)
  show "claim_wf (drop_grant g c) \<and> cm_frames (drop_grant g c) = cm_frames c"
    using w by (simp add: drop_grant_def ack)
  show "claim_wf (drop_configuration offer c) \<and> cm_frames (drop_configuration offer c) = cm_frames c"
    using w by (simp add: drop_configuration_def ack)
qed

lemma claim_rewrite_ok:
  assumes "native_ok s" "\<And>c. claim_wf c \<Longrightarrow> claim_wf (f c) \<and> cm_frames (f c) = cm_frames c"
  shows "native_ok (s\<lparr> na_arena := (na_arena s)\<lparr> ar_claims := alist_map_value i f (ar_claims (na_arena s)) \<rparr> \<rparr>)"
proof -
  note ok = native_okD(1) [OF assms(1)]
  have "pages_match (alist_map_value i f (ar_claims (na_arena s))) (ar_admission (na_arena s))"
    by (rule alist_map_value_pages [OF ok]) (use assms(2) in blast)
  then have "arena_ok ((na_arena s)\<lparr> ar_observers := ar_observers (na_arena s), ar_claims := alist_map_value i f (ar_claims (na_arena s)) \<rparr>)"
    by (rule arena_ok_pages [OF ok]) (use native_okD(2) [OF assms(1)] in \<open>simp add: arena_inv_def\<close>)
  then show ?thesis using assms(1) by (simp add: native_ok_def)
qed

lemma attach_resources:
  assumes "arena_ok a" "\<forall>h. retired_ready e h \<noteq> Panic"
  shows "ar_resources (snd (attach_with_recipient e page holding pid process su a)) = ar_resources a"
proof -
  obtain q a1 where q: "poll_cleanup e a = (q, a1)" by fastforce
  then have "ar_resources a1 = ar_resources a" using poll_resources [OF assms] by simp
  then show ?thesis using q
    by (auto simp: attach_with_recipient_def Let_def split: outcome.split prod.split option.split)
qed

lemma native_attach_ok:
  assumes ok: "native_ok s" and B: "platform_answers B" and st: "su \<noteq> Panic"
  shows "fst (native_attach B e page holding pid process su s) \<noteq> Panic \<and> native_ok (snd (native_attach B e page holding pid process su s))"
proof -
  obtain r a where r: "attach_with_recipient (native_env B s e) page holding pid process su (na_arena s) = (r, a)" by fastforce
  note d = native_okD [OF ok] and en = native_env_answers [OF B, of s e]
  have so: "step_ok (na_arena s) (r, a)" using attach_step [OF d(1) en st, of page holding pid process] r by simp
  have k: "native_ok (s\<lparr> na_arena := a \<rparr>)" using native_ok_arena [OF ok so] attach_resources [OF d(1) en, of page holding pid process su] r by simp
  have "native_ok (s\<lparr> na_arena := a\<lparr> ar_claims := alist_map_value i (drop_grant g) (ar_claims a) \<rparr> \<rparr>)" for i g
    using claim_rewrite_ok [OF k claim_drops_wf(1)] by simp
  then show ?thesis using r k so
    by (auto simp: native_attach_def step_ok_def grant_no_panic [OF B] split: outcome.split)
qed

lemma native_offer_ok:
  assumes ok: "native_ok s" and B: "platform_answers B" and st: "fds \<noteq> Panic"
  shows "fst (native_configuration_offer B fds i s) \<noteq> Panic \<and> native_ok (snd (native_configuration_offer B fds i s))"
proof -
  obtain r a where r: "configuration_offer fds i (na_arena s) = (r, a)" by fastforce
  note d = native_okD [OF ok]
  have so: "step_ok (na_arena s) (r, a)" using offer_step [OF d(1) st] r by metis
  have "ar_resources a = ar_resources (na_arena s)"
    using r by (auto simp: configuration_offer_def Let_def split: option.splits if_splits outcome.splits)
  then have k: "native_ok (s\<lparr> na_arena := a \<rparr>)" using native_ok_arena [OF ok so] by simp
  have "native_ok (s\<lparr> na_arena := a\<lparr> ar_claims := alist_map_value i (drop_configuration g) (ar_claims a) \<rparr> \<rparr>)" for g
    using claim_rewrite_ok [OF k claim_drops_wf(2)] by simp
  then show ?thesis using r k so
    by (auto simp: native_configuration_offer_def step_ok_def grant_no_panic [OF B] split: outcome.split option.split)
qed

lemma native_shutdown_ok:
  assumes ok: "native_ok s" and B: "platform_answers B"
  shows "fst (native_shutdown_ready B e s) \<noteq> Panic \<and> native_ok (snd (native_shutdown_ready B e s))"
proof -
  obtain r a where r: "poll_shutdown_ready (native_env B s e) (na_arena s) = (r, a)" by fastforce
  note d = native_okD [OF ok] and en = native_env_answers [OF B, of s e]
  have so: "step_ok (na_arena s) (r, a)" using shutdown_step [OF d(1) en] r by simp
  have "ar_resources a = ar_resources (na_arena s)" using r poll_resources [OF d(1) en] by (auto simp: poll_shutdown_ready_def split: prod.splits)
  then have k: "native_ok (s\<lparr> na_arena := a \<rparr>)" using native_ok_arena [OF ok so] by simp
  show ?thesis using r k so ok B by (cases r) (auto simp: native_shutdown_ready_def step_ok_def platform_answers_def)
qed

section \<open>Runs\<close>

text \<open>Operations that native producers pass to the arena, and what consumers do to their pages.\<close>

datatype arena_call = CallPoll | CallRetry incarnation_id | CallClose incarnation_id | CallRegister incarnation_id nat | CallPage incarnation_id claim_map

fun arena_call_step :: "env \<Rightarrow> arena_call \<Rightarrow> arena \<Rightarrow> (unit, arena_error) outcome \<times> arena" where
  "arena_call_step e CallPoll a = (case poll_cleanup e a of (r, a') \<Rightarrow> (map_outcome_ok (\<lambda>_. ()) r, a'))"
| "arena_call_step e (CallRetry i) a = arena_retry_cleanup i a"
| "arena_call_step e (CallClose i) a = arena_close i a"
| "arena_call_step e (CallRegister i t) a = (case register_release_timeline i t a of (r, a') \<Rightarrow> (map_outcome_ok (\<lambda>_. ()) r, a'))"
| "arena_call_step e (CallPage i c) a =
     (case map_of (ar_claims a) i of
        Some c0 \<Rightarrow> (Ok (), if claim_wf c \<and> cm_frames c = cm_frames c0 then a\<lparr> ar_claims := alist_map_value i (\<lambda>_. c) (ar_claims a) \<rparr> else a)
      | None \<Rightarrow> (Ok (), a))"

lemma arena_call_ok:
  assumes "arena_ok a" "\<forall>h. retired_ready e h \<noteq> Panic"
  shows "step_ok a (arena_call_step e c a)" "ar_resources (snd (arena_call_step e c a)) = ar_resources a"
proof -
  show "step_ok a (arena_call_step e c a)"
  proof (cases c)
    case (CallPage i p)
    then show ?thesis using assms(1) one_claim_step [OF assms(1), of i _ p] by (auto simp: step_ok_def split: option.split)
  qed (use poll_step(1) [OF assms] retry_step [OF assms(1)] close_step [OF assms(1)] register_step [OF assms(1)] in
      \<open>simp_all add: step_ok_def case_prod_beta\<close>)
  show "ar_resources (snd (arena_call_step e c a)) = ar_resources a"
  proof (cases c)
    case CallPoll
    then show ?thesis using poll_resources [OF assms] by (simp add: case_prod_beta)
  qed (auto simp: arena_retry_cleanup_def arena_close_def register_release_timeline_def Let_def split: option.split outcome.split prod.split)
qed

text \<open>The platform may move on between two calls: its work completes, and consumers hold and release its surfaces.\<close>

inductive native_arena_reachable :: "('b, 'p, 'f, 'c, 's, 'y, 'l) arena_backend \<Rightarrow> ('b, 'p, 'f, 'l) native_arena \<Rightarrow> bool" for B where
  new: "native_arena_new B e page scope storage b params cfg = Ok s \<Longrightarrow> native_arena_reachable B s"
| from_parts: "native_arena_from_parts B e page scope storage b pool fence params cfg = Ok s \<Longrightarrow> native_arena_reachable B s"
| publish: "native_arena_reachable B s \<Longrightarrow> native_arena_reachable B (snd (native_arena_publish B e frame ts s))"
| reconfigure: "native_arena_reachable B s \<Longrightarrow> storage \<noteq> Panic \<Longrightarrow> native_arena_reachable B (snd (native_arena_reconfigure B e page params storage s))"
| advance: "native_arena_reachable B s \<Longrightarrow> storage \<noteq> Panic \<Longrightarrow> native_arena_reachable B (snd (native_arena_advance B e storage s))"
| attach: "native_arena_reachable B s \<Longrightarrow> su \<noteq> Panic \<Longrightarrow> native_arena_reachable B (snd (native_attach B e page holding pid process su s))"
| offer: "native_arena_reachable B s \<Longrightarrow> fds \<noteq> Panic \<Longrightarrow> native_arena_reachable B (snd (native_configuration_offer B fds i s))"
| call: "native_arena_reachable B s \<Longrightarrow> native_arena_reachable B (s\<lparr> na_arena := snd (arena_call_step (native_env B s e) c (na_arena s)) \<rparr>)"
| stop: "native_arena_reachable B s \<Longrightarrow> native_arena_reachable B (native_arena_stop s)"
| shutdown: "native_arena_reachable B s \<Longrightarrow> native_arena_reachable B (snd (native_shutdown_ready B e s))"
| platform: "native_arena_reachable B s \<Longrightarrow> native_arena_reachable B (s\<lparr> na_backend := b' \<rparr>)"

lemma book_new_limits: "admission_result (admission_book_new l) = Ok b \<Longrightarrow> limits b = l"
  by (cases "admission_book_new l") (auto simp: admission_book_new_def split: option.splits if_splits)

lemma from_parts_ok:
  assumes "native_arena_from_parts B e page scope storage b pool fence params cfg = Ok s"
  shows "native_ok s"
proof -
  obtain n a where a: "create_arena e page cfg n True scope storage = Ok a"
    "s = \<lparr> na_arena = a, na_backend = b, na_pool = Some pool, na_fence = fence, na_params = params, na_pending = None,
               na_generation = 1, na_submitted = replicate (unat (cfg_resource_capacity cfg)) 0, na_sequence = 0, na_fence_value = 0,
               na_dropped = 0, na_pending_drops = 0, na_faulted = False, na_stopped = False, na_retired = [] \<rparr>"
    using assms by (auto simp: native_arena_from_parts_def and_then_eq_Ok split: if_splits)
  have "resource_capacity (limits (ar_admission a)) = cfg_resource_capacity cfg"
    using a(1) by (auto simp: create_arena_def prepare_arena_def and_then_eq_Ok fill_new_arena_def dest!: book_new_limits split: if_splits)
  then show ?thesis using a(2) created_ok [OF a(1)] by (simp add: native_ok_def)
qed

lemma native_arena_reachable_ok:
  assumes "native_arena_reachable B s" "platform_answers B"
  shows "native_ok s"
  using assms
proof (induction rule: native_arena_reachable.induct)
  case (new e page scope storage b params cfg s)
  then obtain b2 p f where "native_arena_from_parts B e page scope storage b2 p f params cfg = Ok s"
    by (auto simp: native_arena_new_def and_then_eq_Ok case_prod_beta split: if_splits)
  then show ?case by (rule from_parts_ok)
next
  case (call s e c)
  then have ok: "native_ok s" by blast
  note c = arena_call_ok [OF native_okD(1) [OF ok] native_env_answers [OF call.prems, of s e], of c]
  show ?case by (rule native_ok_arena [OF ok c(1)]) (simp add: c(2))
next
  case (stop s)
  then show ?case using stop_step [of "na_arena s"] by (auto simp: native_arena_stop_def native_ok_def)
next
  case (platform s b')
  then show ?case by (simp add: native_ok_def)
next
  case (from_parts e page scope storage b pool fence params cfg s)
  show ?case by (rule from_parts_ok [OF from_parts.hyps])
qed (simp_all add: native_publish_ok native_arena_reconfigure_ok native_advance_ok native_attach_ok native_offer_ok native_shutdown_ok)

section \<open>Surfaces in use\<close>

lemma publish_spares_surfaces:
  fixes s :: "('b, 'p, 'f, 'l) native_arena"
  assumes ok: "native_ok s" and B: "platform_answers B" and w: "platform_writes B surf"
    and p: "poll_cleanup (native_env B s e) (na_arena s) = (Ok k, a1)" and m: "ar_resources (na_arena s) = Some m" and pool: "na_pool s = Some pool"
    and j: "j < length (rm_states m)" and ready: "ab_completed_value B (na_backend s) (na_fence s) = Ok ready"
    and use: "blocked (oldest_retained (ar_cursor (na_arena s)) (history (rm_layout m))) (ar_claims a1) m j \<or> ready < na_submitted s ! j"
    and run: "native_arena_publish B e frame ts s = (r, s')"
  shows "\<exists>pool'. na_pool s' = Some pool' \<and> surf (na_backend s') pool' (of_nat j) = surf (na_backend s) pool (of_nat j)"
proof -
  let ?v = "surf (na_backend s) pool (of_nat j)" and ?s1 = "s\<lparr> na_sequence := na_sequence s + 1 \<rparr>"
  let ?hint = "nb_slot_hint B (na_backend s) frame" and ?I = "\<lambda>y :: ('b, 'p, 'f, 'l) native_arena. (\<exists>q. na_pool y = Some q \<and> surf (na_backend y) q (of_nat j) = surf (na_backend s) pool (of_nat j)) \<and>
    length (na_submitted y) = length (na_submitted s) \<and> na_submitted y ! j = na_submitted s ! j"
  note d = native_okD [OF ok] and en = native_env_answers [OF B, of s e]
  have len: "length (rm_states m) = length (na_submitted s)" using d(3) [OF m] by simp
  have small: "length (na_submitted s) < 2 ^ 32" using ok u32_bound [of "resource_capacity (limits (ar_admission (na_arena s)))"] by (simp add: native_ok_def)
  have inj: "(of_nat i :: u32) \<noteq> of_nat j" if "i < length (na_submitted s)" "i \<noteq> j" for i
  proof -
    have "unat (of_nat i :: u32) = i" "unat (of_nat j :: u32) = j" using that(1) j len small by (simp_all add: unat_of_nat)
    then show ?thesis using that(2) by auto
  qed
  obtain r0 a s2 where st: "publish_resource_staged (native_env B s e) (prepare_native B frame ts ?hint ready) (na_arena s) ?s1 = (r0, a, s2)"
    by (metis surj_pair)
  have "?I s2 \<and> (\<exists>p. publish_resource (native_env B s e) p (na_arena s) = (r0, a) \<and> (False \<longrightarrow> (\<forall>j g. p j g \<noteq> Panic)))"
  proof (rule publish_resource_staged_run [where I = ?I, OF d(2) en _ _ st])
    show "?I ?s1" using pool by simp
    fix k' a1' m' i g y
    assume x: "poll_cleanup (native_env B s e) (na_arena s) = (Ok k', a1')" "ar_resources (na_arena s) = Some m'" "i < length (rm_states m')"
      "\<not> blocked (oldest_retained (ar_cursor (na_arena s)) (history (rm_layout m'))) (ar_claims a1') m' i" and y: "?I y"
    have i: "i < length (na_submitted y)" using x(2,3) m len y by simp
    obtain q where q: "na_pool y = Some q" "surf (na_backend y) q (of_nat j) = ?v" using y by blast
    have "i = j \<Longrightarrow> ready < na_submitted y ! j" using x p m use y by auto
    then have o: "(of_nat j :: u32) \<noteq> of_nat i \<or> i = j \<and> ready < na_submitted y ! j" using inj [of i] i y by (cases "i = j") fastforce+
    have "length (na_submitted (snd (prepare_native B frame ts ?hint ready i g y))) = length (na_submitted y)"
      using prepare_native_run(1) [of y i B frame ts ?hint ready g] q(1) i staged_D by blast
    then show "?I (snd (prepare_native B frame ts ?hint ready i g y)) \<and> (False \<longrightarrow> fst (prepare_native B frame ts ?hint ready i g y) \<noteq> Panic)"
      using prepare_native_spares [OF w q(1) i o refl, of frame ts ?hint g] q(2) y by (cases "i = j") auto
  qed
  then have I: "?I s2" by blast
  have "s' = s \<or> (na_pool s' = na_pool s \<and> na_backend s' = na_backend s) \<or> (na_pool s' = na_pool s2 \<and> na_backend s' = na_backend s2)"
    using run ready st
    by (auto simp: native_arena_publish_def publish_frame_def Let_def split: if_splits outcome.splits prod.splits Arena_Producer.publish_outcome.splits)
  then show ?thesis using I pool by auto
qed


text \<open>A platform whose surfaces are numbers and whose writes never complete, an arena of four of them, and its first frame.\<close>

definition sample_platform :: "(u32 \<Rightarrow> nat, unit, unit, nat, unit, unit, unit) arena_backend" where
  "sample_platform = \<lparr> nb_payload_kind = (\<lambda>_. 1), nb_allocate = (\<lambda>_ _ b. (Ok (), b)), nb_pool_id = (\<lambda>_ _. 1),
     nb_claim = (\<lambda>cs x. (Ok (case cs of [] \<Rightarrow> WouldBlock | c # _ \<Rightarrow> ReadySlot (ca_slot_id c)), x)),
     nb_stage = (\<lambda>i c x. (Ok (), (fst x)(i := c), snd x)), nb_slot_hint = (\<lambda>_ _. None),
     nb_export_surfaces = (\<lambda>_ _. Ok [(), (), (), ()]), nb_create_fence = (\<lambda>b. (Ok (), b)), nb_fence_id = (\<lambda>_ _. 1),
     nb_signal = (\<lambda>_ x. (Ok (), x)), nb_export_sync = (\<lambda>_ _. Ok ()),
     ab_upper_bound = (\<lambda>_ _ _. Ok 64), ab_allocate_bounded = (\<lambda>_ _ _ b. (Ok (), b)), ab_pool_bytes = (\<lambda>_ _. Ok 64),
     ab_completed_value = (\<lambda>_ _. Ok 0), ab_timeline = (\<lambda>_ _. Ok ()), ab_timeline_value = (\<lambda>_ _. Ok 0) \<rparr>"

lemma sample_platform_laws: "platform_answers sample_platform" "platform_writes sample_platform (\<lambda>b p. b)"
  by (auto simp: platform_answers_def platform_writes_def sample_platform_def)

definition native_sample_layout :: resource_layout where
  "native_sample_layout = \<lparr> resources = 4, history = 1, payload_capacity = 0, records_at = 256, payload_at = 0, map_len = 4096, payload_len = 0 \<rparr>"

definition native_sample_book :: admission_book where
  "native_sample_book = \<lparr> limits = sample_arena_limits\<lparr> allocated_bytes := 4160 \<rparr>, next_incarnation = 1, reservations = [],
     reserved_frames = 0, committed_bytes = 8256, allocations = [(AllocationId 1, 4160)],
     current_allocation = Some (AllocationId 1), next_allocation = 2, pending = None \<rparr>"

definition native_sample_params :: native_stream_params where
  "native_sample_params = \<lparr> ns_width = 4, ns_height = 2, ns_pixel_format = Bgra8Unorm, ns_color_space = Srgb, ns_modifier = 0 \<rparr>"

definition native_sample :: "(u32 \<Rightarrow> nat, unit, unit, unit) native_arena" where
  "native_sample = \<lparr> na_arena = fill_new_arena (sample_config\<lparr> cfg_payload_capacity := 0 \<rparr>) native_sample_layout native_sample_book True [1],
     na_backend = (\<lambda>_. 0), na_pool = Some (), na_fence = (), na_params = native_sample_params, na_pending = None,
     na_generation = 1, na_submitted = [0, 0, 0, 0], na_sequence = 0, na_fence_value = 0,
     na_dropped = 0, na_pending_drops = 0, na_faulted = False, na_stopped = False, na_retired = [] \<rparr>"

lemma four: "replicate 4 x = [x, x, x, x]" "[0..<4] = [0, 1, 2, 3]"
  by (simp_all add: numeral_eq_Suc)

lemma native_sample_created:
  "native_arena_from_parts sample_platform sample_env 4096 (Ok [1]) (Ok ()) (\<lambda>_. 0) () () native_sample_params
     (sample_config\<lparr> cfg_payload_capacity := 0 \<rparr>) = Ok native_sample"
  by (simp add: native_arena_from_parts_def sample_platform_def native_sample_def create_arena_def prepare_arena_def sample_config_def native_sample_layout_def
      native_sample_book_def sample_arena_limits_def sample_env_def instant_add_def resource_layout_new_def four
      size_mul_def size_add_def checked_mul_def checked_add_def page_rounded_def rounded_def layout_consts word_le_nat_alt
      control_allocation_len_def admission_book_new_def)

lemma poll_idle: "ar_observers a = [] \<Longrightarrow> ar_claims a = [] \<Longrightarrow> ar_retired a = [] \<Longrightarrow> poll_cleanup e a = (Ok 0, a)"
  by (simp add: poll_cleanup_def collect_retired_allocations.simps)

lemma native_sample_idle:
  "ar_observers (na_arena native_sample) = []" "ar_claims (na_arena native_sample) = []" "ar_retired (na_arena native_sample) = []"
  "w_terminal (ar_control (na_arena native_sample)) = 0" "ar_cursor (na_arena native_sample) = 0" "ar_next_slot (na_arena native_sample) = 0"
  "ar_resources (na_arena native_sample) = Some (resource_map_new native_sample_layout 1)"
  by (simp_all add: native_sample_def fill_new_arena_def control_map_new_def)

lemma native_sample_fields:
  "na_backend native_sample = (\<lambda>_. 0)" "na_pool native_sample = Some ()" "na_fence native_sample = ()" "na_submitted native_sample = [0, 0, 0, 0]"
  "na_sequence native_sample = 0" "na_fence_value native_sample = 0" "na_faulted native_sample = False" "na_stopped native_sample = False"
  by (simp_all add: native_sample_def)

lemma sample_platform_calls:
  "nb_claim sample_platform [c] x = (Ok (ReadySlot (ca_slot_id c)), x)" "nb_stage sample_platform i v x = (Ok (), (fst x)(i := v), snd x)"
  "nb_signal sample_platform n y = (Ok (), y)" "nb_slot_hint sample_platform b v = None" "ab_completed_value sample_platform b f = Ok 0"
  by (simp_all add: sample_platform_def)

lemma native_sample_first:
  "\<exists>s m. native_arena_publish sample_platform sample_env 7 1 native_sample = (Ok (Arena_Producer.Published 1), s) \<and>
     na_pool s = Some () \<and> na_backend s 0 = 7 \<and> na_submitted s = [1, 0, 0, 0] \<and>
     ar_observers (na_arena s) = [] \<and> ar_claims (na_arena s) = [] \<and> ar_retired (na_arena s) = [] \<and>
     ar_resources (na_arena s) = Some m \<and> length (rm_states m) = 4"
  by (simp add: native_arena_publish_def publish_frame_def publish_resource_staged_def poll_idle native_sample_idle native_sample_fields sample_platform_calls
      MAX_GENERATION_def Let_def slot_candidates_def native_sample_layout_def resource_map_new_def four state_generation_def prepare_native_def
      stage_native_def publish_slot_def)


end
