(* ===== verification/Spec2Isabelle.thy ===== *)
theory Spec2Isabelle
  imports Claim_Safety Setup_Properties Input_Transport Control_Properties Framing Registry Export_Codec Notices Recording
    Wait_Notification Affordance_Link Native_Attach Native_Lease Native_Fake Native_Arena_Safety
begin

text \<open>
  Jackstay: a model of the Rust crates \<open>jackstay\<close> and \<open>jackstay-graph\<close>, with the theorems that
  make them correct.  Jackstay lends captured frames and audio to other processes: a producer
  publishes frames into shared memory, admitted consumers lease them without copying, and beside
  that flow run audio rings, an input and an affordances channel back to the producer, native video
  surfaces passed by reference, and a registry of sessions, sources and tracks.  Paths below are relative to \<open>src/crates/jackstay/src/\<close>.

  \<^bold>\<open>Conventions.\<close>
  Machine integers are words (\<open>u32\<close> is \<open>32 word\<close>) wherever the source can wrap or fail; byte sizes
  are natural numbers with the failure of a checked operation at \<open>2 ^ 64\<close> written out.  A Rust call
  ends in \<open>Ok\<close>, \<open>Err\<close> or \<open>Panic\<close> (a failed \<open>expect\<close>, assertion or index); a method on \<open>&mut self\<close>
  returns its outcome with the new state, also when it fails half way.  Structs are records and
  enums are datatypes with the names of the source.  Operating system facilities (creating and
  mapping memory, event objects, sockets, clocks, process watches) and the \<open>serde\<close>/CBOR encoders
  are parameters of the definitions that use them; where a property needs something of them, it is
  a named hypothesis and has a witness on a concrete function.  Code that is shared between
  processes or threads without a lock is modelled access by access, as a step relation over the
  shared memory in which any number of parties interleave in any order.

  \<^bold>\<open>Foundations.\<close>
  \<^item> \<open>Jackstay_Prelude\<close>: outcomes of calls and their composition, checked and saturating arithmetic,
    ordered maps as association lists (locale \<open>ordered_map\<close>, interpreted on the model's own
    functions), and the collections of simplification rules.
  \<^item> \<open>Byte_Memory\<close>: little-endian words over bytes and the bounds-checked accesses of a mapping
    (\<open>shm.rs\<close>).
  \<^item> \<open>Seqlock\<close>: the write and read discipline that \<open>control_page.rs\<close> and \<open>audio.rs\<close> share, once for
    any cell contents: a read that sees the same even sequence word before and after sees one
    whole value.

  \<^bold>\<open>The arena\<close> (\<open>acquisition.rs\<close>, \<open>acquisition/arena.rs\<close> and \<open>acquisition/arena/\<close>).
  \<^item> \<open>Admission\<close>: the admission book, every operation of \<open>AdmissionBook\<close>.  The running totals are
    exactly the sums over the tables, admission succeeds exactly when there is room, failures
    change nothing, and an accepted replacement can be reserved once old allocations are gone.
  \<^item> \<open>Arena_Layout\<close>: offsets and sizes of the shared mappings (\<open>arena/mapping.rs\<close>); accepted layouts
    have their slots in bounds, aligned and disjoint.
  \<^item> \<open>Arena_Memory\<close>: claim page, control page and resource allocations as values; the encoding of
    slot states is an interface (locale \<open>slot_state_code\<close>).
  \<^item> \<open>Arena_Cleanup\<close>: the producer's observer of an incarnation and the consumer's owner of deferred
    releases (\<open>arena/cleanup.rs\<close>, \<open>arena/retirement.rs\<close>).  A claim is cleared on evidence only.
  \<^item> \<open>Arena_Producer\<close>, \<open>Arena_Invariant\<close>, \<open>Arena_Publish\<close>, \<open>Arena_Consumer\<close>, \<open>Arena_Steps\<close>: every
    state-changing method of \<open>ArenaProducer\<close> and of the consumer, the delegated writer
    (\<open>arena/writer.rs\<close>) and reconfiguration (\<open>arena/reconfiguration.rs\<close>); the invariant that all of
    them keep; publication finds storage while the working reserve is free and spares storage in
    use; a lease shows the published bytes; no operation panics in a reachable arena.
  \<^item> \<open>Claim_Protocol\<close>, \<open>Claim_Safety\<close>: publication, acquisition, release, handoff and cleanup as
    single accesses, interleaved.  A validated lease shows exactly the published frame and nobody
    writes under it.
  \<^item> \<open>Wait_Notification\<close>: waiting on the arena and on a doorbell (\<open>arena/wait.rs\<close>, \<open>wait/unix.rs\<close>,
    \<open>wait/windows.rs\<close>).  Both channel kinds implement the locale \<open>wake_channel\<close>; once the signalling
    calls have ended no waiter sleeps past what it waits for, and it is back within nine of its own
    steps.

  \<^bold>\<open>Control page and audio.\<close>
  \<^item> \<open>Control_Page\<close>, \<open>Control_Ring\<close>, \<open>Control_Refinement\<close>, \<open>Control_Properties\<close>: the page of a video
    track at the level of bytes (\<open>control_page.rs\<close>).  The bytes split into cells that do not overlap
    (locale \<open>cells\<close>), and pushing and reading refine an abstract ring of frames and configurations.
  \<^item> \<open>Control_Seqlock\<close>: the same page under interleaving; reads are never torn, and producer and
    readers finish within 246 of their own accesses.
  \<^item> \<open>Audio_Ring\<close>, \<open>Audio_Stream\<close>, \<open>Recording\<close>: formats, ring geometry and mapping, playback under
    interleaving, and the handover of a recording track (\<open>audio.rs\<close>).

  \<^bold>\<open>Connections.\<close>
  \<^item> \<open>Handshake\<close>, \<open>Handshake_Agreement\<close>, \<open>Notices\<close>: both sides of selection and of the tracks channel
    (\<open>handshake.rs\<close>, \<open>handshake/notices.rs\<close>); whatever is selected, both sides agree on it.
  \<^item> \<open>Framing\<close>: length-prefixed messages over a nonblocking stream (\<open>framing.rs\<close>): an ordered,
    bounded, lossless channel however the stream splits reads and writes.
  \<^item> \<open>Input_Model\<close>, \<open>Input_Session\<close>, \<open>Input_Safety\<close>, \<open>Input_Guarantees\<close>, \<open>Input_Properties\<close>: the input
    session (\<open>input/model.rs\<close>, \<open>input/session.rs\<close>) as a state machine with its executor: accounting,
    fencing, bounds, and no key left held.
  \<^item> \<open>Input_Transport\<close>: the session across a connection (\<open>input/transport.rs\<close>): every event is
    accounted for from the client's queue to its report.
  \<^item> \<open>Registry\<close>: sessions, sources and tracks with their event log (\<open>state.rs\<close>, \<open>model.rs\<close>).
  \<^item> \<open>Export_Codec\<close>: the codec decision of an export (\<open>jackstay-graph/src/lib.rs\<close>).
  \<^item> \<open>Setup_Channel\<close>, \<open>Setup_Frame\<close>, \<open>Setup_Sizes\<close>, \<open>Setup_Agreement\<close>, \<open>Setup_Properties\<close>: a consumer's setup
    over a connection (\<open>acquisition/socket.rs\<close>) with the arena behind it: serving requests, passing grants and
    offers, and what the client makes of them, interleaved with the producer.  What arrives can be imported, and each
    mapping slot of a claim page has exactly one owner.  \<open>Setup_Frame\<close> and \<open>Setup_Sizes\<close> show what the arena's
    operations leave alone, \<open>Setup_Agreement\<close> that both sides describe the same mappings.
  \<^item> \<open>Affordances\<close>, \<open>Affordance_Channel\<close>, \<open>Affordance_Ends\<close>, \<open>Affordance_Link\<close>: the affordances channel
    (\<open>affordances.rs\<close>): snapshots and verbs with their validation, the state behind the mutex with the owners' calls and
    the worker, one end against an arbitrary peer, and two ends on a connection.  Queues are bounded, verbs are delivered only
    when enabled by what was published, and both ends agree on the current snapshots.  A JSON document is a value; that its
    text comes back as it was sent is the codec's documented behaviour and a hypothesis.

  \<^bold>\<open>Native surfaces.\<close>
  \<^item> \<open>Native_Track\<close>, \<open>Native_Attach\<close>: the producer of a native track over any platform (the trait
    \<open>NativeFrameBackend\<close> of \<open>native.rs\<close> is a record of its methods) and the attach handshake (\<open>native/attach.rs\<close>): a
    session is granted at most once and only after its token.
  \<^item> \<open>Native_Lease\<close>: the lease book (\<open>native/lease.rs\<close>) and the reuse policy of \<open>native/linux/synthetic.rs\<close>, which
    implements the interface of a claim (locale \<open>surface_claims\<close>).
  \<^item> \<open>Native_Frames\<close>, \<open>Native_Fake\<close>: the laws of a platform (locale \<open>native_frames\<close>), what follows for surfaces and
    ring entries, and the in-memory platform of \<open>native.rs\<close>, which satisfies them.
  \<^item> \<open>Native_Arena\<close>, \<open>Native_Arena_Safety\<close>: native surfaces behind the arena (\<open>native/arena.rs\<close>).  The arena's search with
    the closure that stages a frame is the arena's own search, so its invariants carry over; staging spares every
    surface in use.

  \<^bold>\<open>Bounds.\<close>  Where a counter of the source wraps, the property names the bound under which it has
  not: fewer than \<open>2 ^ 32\<close> pushes to a control page (by a native track too) and configurations of it, fewer than
  \<open>2 ^ 64 - 2\<close> audio blocks, fewer than \<open>2 ^ 64\<close> recording claims.  At one frame per millisecond the
  first is passed after seven weeks; the properties hold of the pages before that.  Loops are
  structural or have a termination proof; there is no fuel.

  \<^bold>\<open>Not modelled.\<close>
  \<^item> The video platforms under \<open>native/linux\<close>, \<open>native/macos\<close> and \<open>native/windows\<close>: calls into Vulkan, DRM, PipeWire,
    Metal, XPC and Direct3D, whose behaviour is not in the repository.  They are parameters of the native theories.
  \<^item> The C bindings (\<open>ffi*.rs\<close>): pointer conversion around the modelled operations.
  \<^item> Descriptor and handle passing, peer credentials, sockets and pipes (\<open>local.rs\<close>, \<open>local/\<close>, \<open>fdpass.rs\<close>,
    \<open>socket_options.rs\<close>): operating system calls.  A transferred descriptor is the object it refers to.
  \<^item> The process watch (\<open>acquisition/arena/process.rs\<close>): an argument of the cleanup model.
  \<^item> The client of a capture daemon (\<open>daemon.rs\<close>) and the messages of \<open>transfer_channel.rs\<close>: requests over a socket and
    data types for a JSON codec, without state of their own.
  \<^item> The \<open>jackstay-producer\<close> crate: threads and callbacks around the modelled arena, input target and channels.
  \<^item> The exported writer mapping of \<open>arena/writer.rs\<close>: another process's view of the storage a reservation owns.
  \<^item> The encodings of \<open>serde\<close>, CBOR and JSON, and the formatting of errors: parameters.
\<close>

end
